(* ===== verification/Prelude.thy ===== *)
theory Prelude
  imports Complex_Main Main "HOL-Library.Word" "HOL-Library.Monad_Syntax" "HOL-Library.List_Lexorder"
begin

text \<open>
  Shared ground of the development: the Go language facts every component of frostfire uses.

  \<^item> Byte slices are lists of 8-bit words; \<open>uint16\<close>, \<open>uint32\<close> and \<open>uint64\<close> are words of that
    width, so their arithmetic wraps exactly where Go's does.
  \<^item> A Go panic (slice bounds, index, \<open>assert\<close>, explicit \<open>panic\<close>) is the value
    \<^const>\<open>None\<close> of an option; code that can panic is written in the option monad.
    A slice has its length as capacity.
  \<^item> A Go error return is the left side of a sum; the caller inspects it the way the source
    does with \<open>if err != nil\<close>.
  \<^item> \<open>encoding/binary.LittleEndian\<close> is modelled by \<open>le_word\<close> and \<open>le_bytes\<close>, with round
    trips proved at every width.
\<close>

section \<open>Go values\<close>

unbundle bit_operations_syntax

type_synonym byte = "8 word"
type_synonym bytes = "8 word list"
type_synonym u16 = "16 word"
type_synonym u32 = "32 word"
type_synonym u64 = "64 word"
type_synonym PageId = "64 word"
type_synonym TxnID = "64 word"

named_theorems go_defs \<open>the slice and byte-order primitives, to be unfolded together\<close>
named_theorems u16_simps \<open>unsigned 16-bit arithmetic read as natural numbers\<close>
named_theorems patch_simps \<open>what a region of a buffer holds after an overwrite\<close>

subsection \<open>Errors\<close>

text \<open>The error values of the package: the exported \<open>Err\<close> variables, one constructor for each
  \<open>fmt.Errorf\<close> or \<open>errors.New\<close> made on the spot, and \<open>ErrIO\<close> for an error of the operating
  system.\<close>

datatype error =
    ErrKeyExists | ErrKeyNotFound | ErrKeyTooBig
  | ErrBufferExhausted | ErrInvalidWrite
  | ErrMetaCorrupt | ErrMetaShort nat | ErrMetaChecksum u64 u64 | ErrMetaMagic u32
  | ErrMetaVersion u32 | ErrMetaPageSize u32
  | ErrFreelistShort nat | ErrFreelistCount u32
  | ErrInvalidFileSize
  | ErrTxnReadOnly | ErrTxnClosed
  | ErrBucketNotFound | ErrBucketExists | ErrMalformedCatalog
  | ErrBTreeNotEmpty | ErrBulkLoaderFinished | ErrBulkLoaderKeyOrder
  | ErrIO

subsection \<open>Slices\<close>

definition goslice :: "'a list \<Rightarrow> nat \<Rightarrow> nat \<Rightarrow> 'a list option" where
  "goslice d a b = (if a \<le> b \<and> b \<le> length d then Some (take (b - a) (drop a d)) else None)"

definition gofrom :: "'a list \<Rightarrow> nat \<Rightarrow> 'a list option" where
  "gofrom d a = goslice d a (length d)"

definition goindex :: "'a list \<Rightarrow> nat \<Rightarrow> 'a option" where
  "goindex d i = (if i < length d then Some (d ! i) else None)"

definition goset :: "'a list \<Rightarrow> nat \<Rightarrow> 'a \<Rightarrow> 'a list option" where
  "goset d i v = (if i < length d then Some (d[i := v]) else None)"

text \<open>\<open>patch d a bs\<close> is \<open>d\<close> with the bytes \<open>bs\<close> written from index \<open>a\<close> on; \<open>region d a n\<close> reads
  \<open>n\<close> bytes back.\<close>

definition patch :: "'a list \<Rightarrow> nat \<Rightarrow> 'a list \<Rightarrow> 'a list" where
  "patch d a bs = take a d @ bs @ drop (a + length bs) d"

definition region :: "'a list \<Rightarrow> nat \<Rightarrow> nat \<Rightarrow> 'a list" where
  "region d a n = take n (drop a d)"

text \<open>\<open>copy(d[a:], src)\<close>: copies \<open>min(len(d)-a, len(src))\<close> elements, panics when \<open>a > len(d)\<close>.\<close>

definition gocopy :: "'a list \<Rightarrow> nat \<Rightarrow> 'a list \<Rightarrow> 'a list option" where
  "gocopy d a src = (if a \<le> length d then Some (patch d a (take (length d - a) src)) else None)"

text \<open>The panic of \<open>assert(cond, msg)\<close>.\<close>

definition go_assert :: "bool \<Rightarrow> unit option" where
  "go_assert c = (if c then Some () else None)"

subsection \<open>Little-endian words\<close>

fun le_bytes :: "nat \<Rightarrow> 'a::len word \<Rightarrow> bytes" where
  "le_bytes 0 w = []"
| "le_bytes (Suc n) w = ucast w # le_bytes n (drop_bit 8 w)"

fun le_word :: "bytes \<Rightarrow> 'a::len word" where
  "le_word [] = 0"
| "le_word (b # bs) = ucast b OR push_bit 8 (le_word bs)"

definition Uint16 :: "bytes \<Rightarrow> u16 option" where
  "Uint16 b = (if 2 \<le> length b then Some (le_word (take 2 b)) else None)"

definition Uint32 :: "bytes \<Rightarrow> u32 option" where
  "Uint32 b = (if 4 \<le> length b then Some (le_word (take 4 b)) else None)"

definition Uint64 :: "bytes \<Rightarrow> u64 option" where
  "Uint64 b = (if 8 \<le> length b then Some (le_word (take 8 b)) else None)"

text \<open>\<open>Uint16(d[a:b])\<close> and its wider variants: slice, then read.\<close>

definition Uint16_in :: "bytes \<Rightarrow> nat \<Rightarrow> nat \<Rightarrow> u16 option" where
  "Uint16_in d a b = goslice d a b \<bind> Uint16"

definition Uint32_in :: "bytes \<Rightarrow> nat \<Rightarrow> nat \<Rightarrow> u32 option" where
  "Uint32_in d a b = goslice d a b \<bind> Uint32"

definition Uint64_in :: "bytes \<Rightarrow> nat \<Rightarrow> nat \<Rightarrow> u64 option" where
  "Uint64_in d a b = goslice d a b \<bind> Uint64"

text \<open>\<open>PutUint16(d[a:b], v)\<close> and its wider variants, writing through the slice.\<close>

definition PutUint16 :: "bytes \<Rightarrow> nat \<Rightarrow> nat \<Rightarrow> u16 \<Rightarrow> bytes option" where
  "PutUint16 d a b v =
     (if a \<le> b \<and> b \<le> length d \<and> 2 \<le> b - a then Some (patch d a (le_bytes 2 v)) else None)"

definition PutUint32 :: "bytes \<Rightarrow> nat \<Rightarrow> nat \<Rightarrow> u32 \<Rightarrow> bytes option" where
  "PutUint32 d a b v =
     (if a \<le> b \<and> b \<le> length d \<and> 4 \<le> b - a then Some (patch d a (le_bytes 4 v)) else None)"

definition PutUint64 :: "bytes \<Rightarrow> nat \<Rightarrow> nat \<Rightarrow> u64 \<Rightarrow> bytes option" where
  "PutUint64 d a b v =
     (if a \<le> b \<and> b \<le> length d \<and> 8 \<le> b - a then Some (patch d a (le_bytes 8 v)) else None)"

text \<open>\<open>binary.LittleEndian.Uint16(d[pos : pos+2])\<close> with a \<open>uint16\<close> position, the commonest read
  of the slotted page code: the addition wraps, and a wrapped bound panics.\<close>

definition u16_at :: "bytes \<Rightarrow> u16 \<Rightarrow> u16 option" where
  "u16_at d pos = Uint16_in d (unat pos) (unat (pos + 2))"

declare goslice_def [go_defs] gofrom_def [go_defs] goindex_def [go_defs] goset_def [go_defs]
  gocopy_def [go_defs] go_assert_def [go_defs] Uint16_def [go_defs] Uint32_def [go_defs]
  Uint64_def [go_defs] Uint16_in_def [go_defs] Uint32_in_def [go_defs] Uint64_in_def [go_defs] PutUint16_def [go_defs] PutUint32_def [go_defs] PutUint64_def [go_defs]

section \<open>Buffers: reading after writing\<close>

lemma length_patch [simp]: "a + length bs \<le> length d \<Longrightarrow> length (patch d a bs) = length d"
  by (simp add: patch_def)

lemma length_region [simp]: "length (region d a n) = min n (length d - a)"
  by (simp add: region_def min.commute)

lemma region_zero [simp]: "region d a 0 = []"
  by (simp add: region_def)

lemma patch_Nil [simp]: "patch d a [] = d"
  by (simp add: patch_def)

lemma nth_region: "i < n \<Longrightarrow> a + i < length d \<Longrightarrow> region d a n ! i = d ! (a + i)"
  by (simp add: region_def)

lemma nth_patch:
  assumes "a + length bs \<le> length d" "i < length d"
  shows "patch d a bs ! i = (if a \<le> i \<and> i < a + length bs then bs ! (i - a) else d ! i)"
  using assms by (auto simp: patch_def nth_append min_def not_less)

lemma region_patch_same [patch_simps]:
  "a + length bs \<le> length d \<Longrightarrow> n = length bs \<Longrightarrow> region (patch d a bs) a n = bs"
  by (simp add: region_def patch_def)

lemma region_patch_below [patch_simps]:
  assumes "b + n \<le> a" "a + length bs \<le> length d"
  shows "region (patch d a bs) b n = region d b n"
  using assms by (intro nth_equalityI) (auto simp: nth_region nth_patch)

lemma region_patch_above [patch_simps]:
  assumes "a + length bs \<le> b" "a + length bs \<le> length d"
  shows "region (patch d a bs) b n = region d b n"
  using assms by (intro nth_equalityI) (auto simp: nth_region nth_patch)

lemma region_patch_within:
  assumes "a + length bs \<le> length d" "i + n \<le> length bs"
  shows "region (patch d a bs) (a + i) n = region bs i n"
  using assms by (intro nth_equalityI) (auto simp: nth_region nth_patch)

lemma region_patch_prefix:
  assumes "length bs \<le> n" "a + n \<le> length d"
  shows "region (patch d a bs) a n = patch (region d a n) 0 bs"
  using assms by (intro nth_equalityI) (auto simp: nth_region nth_patch)

lemma region_append_left: "a + n \<le> length xs \<Longrightarrow> region (xs @ ys) a n = region xs a n"
  by (simp add: region_def)

lemma region_append_right: "length xs \<le> a \<Longrightarrow> region (xs @ ys) a n = region ys (a - length xs) n"
  by (simp add: region_def)

lemma region_region:
  "i + m \<le> n \<Longrightarrow> region (region d a n) i m = region d (a + i) m"
  by (simp add: region_def drop_take min_def add.commute)

lemma region_all [simp]: "n = length d \<Longrightarrow> region d 0 n = d"
  by (simp add: region_def)

lemma goslice_region:
  "a \<le> b \<Longrightarrow> b \<le> length d \<Longrightarrow> goslice d a b = Some (region d a (b - a))"
  by (simp add: goslice_def region_def)

lemma Uint16_in_region:
  "b = a + 2 \<Longrightarrow> b \<le> length d \<Longrightarrow> Uint16_in d a b = Some (le_word (region d a 2))"
  by (simp add: Uint16_in_def goslice_region Uint16_def)

lemma Uint32_in_region:
  "b = a + 4 \<Longrightarrow> b \<le> length d \<Longrightarrow> Uint32_in d a b = Some (le_word (region d a 4))"
  by (simp add: Uint32_in_def goslice_region Uint32_def)

lemma Uint64_in_region:
  "b = a + 8 \<Longrightarrow> b \<le> length d \<Longrightarrow> Uint64_in d a b = Some (le_word (region d a 8))"
  by (simp add: Uint64_in_def goslice_region Uint64_def)

lemma gocopy_fits: "a + length c \<le> length d \<Longrightarrow> gocopy d a c = Some (patch d a c)"
  by (simp add: gocopy_def)

lemma patch_region_self: "a + n \<le> length d \<Longrightarrow> patch d a (region d a n) = d"
  by (intro nth_equalityI) (auto simp: nth_patch nth_region)

lemma patch_whole: "length bs = length d \<Longrightarrow> patch d 0 bs = bs"
  by (simp add: patch_def)

lemma patch_patch_adjacent:
  "a + length xs + length ys \<le> length d \<Longrightarrow>
     patch (patch d a xs) (a + length xs) ys = patch d a (xs @ ys)"
  by (intro nth_equalityI) (auto simp: nth_patch nth_append)

lemma patch_patch_next:
  "b = a + length xs \<Longrightarrow> b + length ys \<le> length d \<Longrightarrow> patch (patch d a xs) b ys = patch d a (xs @ ys)"
  by (simp add: patch_patch_adjacent)

lemma patch_patch_before:
  assumes "a + length xs = b" "b + length ys \<le> length d"
  shows "patch (patch d b ys) a xs = patch d a (xs @ ys)"
  using assms by (intro nth_equalityI) (auto simp: nth_patch nth_append)

lemma list_update_patch: "i < length d \<Longrightarrow> d[i := v] = patch d i [v]"
  by (intro nth_equalityI) (auto simp: nth_patch nth_list_update)

section \<open>Byte order: round trips\<close>

lemma length_le_bytes [simp]: "length (le_bytes n w) = n"
  by (induction n arbitrary: w) auto

lemma bit_le_word:
  "bit (le_word bs :: 'a::len word) i \<longleftrightarrow>
     i < LENGTH('a) \<and> i div 8 < length bs \<and> bit (bs ! (i div 8)) (i mod 8)"
proof (induction bs arbitrary: i)
  case Nil
  then show ?case by simp
next
  case (Cons b bs)
  show ?case
  proof (cases "i < 8")
    case True
    then show ?thesis by (auto simp: bit_simps)
  next
    case False
    then have "i div 8 = Suc ((i - 8) div 8)" "(i - 8) mod 8 = i mod 8"
      by (auto simp: le_div_geq le_mod_geq)
    with False Cons.IH [of "i - 8"] show ?thesis
      by (auto simp: bit_simps dest: bit_imp_le_length)
  qed
qed

lemma nth_le_bytes: "k < n \<Longrightarrow> le_bytes n w ! k = ucast (drop_bit (8 * k) w)"
proof (induction n arbitrary: w k)
  case 0
  then show ?case by simp
next
  case (Suc n)
  then show ?case by (cases k) (auto simp: drop_bit_drop_bit add.commute)
qed

lemma le_word_le_bytes:
  fixes w :: "'a::len word"
  assumes "LENGTH('a) \<le> 8 * n"
  shows "le_word (le_bytes n w) = w"
proof (rule bit_word_eqI)
  fix i assume i: "i < LENGTH('a)"
  then have k: "i div 8 < n" using assms by auto
  have "bit (le_bytes n w ! (i div 8)) (i mod 8) \<longleftrightarrow> bit w i"
    using k mod_less_divisor [of 8 i] by (simp add: nth_le_bytes bit_simps add.commute del: mod_less_divisor)
  with i k show "bit (le_word (le_bytes n w) :: 'a word) i \<longleftrightarrow> bit w i"
    by (simp add: bit_le_word)
qed

lemma le_bytes_le_word:
  assumes "length bs = n" "8 * n = LENGTH('a::len)"
  shows "le_bytes n (le_word bs :: 'a word) = bs"
proof (rule nth_equalityI)
  show "length (le_bytes n (le_word bs :: 'a word)) = length bs" using assms by simp
next
  fix k assume "k < length (le_bytes n (le_word bs :: 'a word))"
  then have k: "k < n" by simp
  show "le_bytes n (le_word bs :: 'a word) ! k = bs ! k"
  proof (rule bit_word_eqI)
    fix i assume "i < LENGTH(8)"
    then have i: "i < 8" by simp
    have "(8 * k + i) div 8 = k" "(8 * k + i) mod 8 = i" using i by auto
    moreover have "8 * k + i < LENGTH('a)" using i k assms(2) by linarith
    ultimately show "bit (le_bytes n (le_word bs :: 'a word) ! k) i \<longleftrightarrow> bit (bs ! k) i"
      using i k assms by (simp add: nth_le_bytes bit_simps bit_le_word)
  qed
qed

lemma le_word2 [simp]: "le_word (le_bytes 2 (w :: u16)) = w"
  by (rule le_word_le_bytes) simp

lemma le_word4 [simp]: "le_word (le_bytes 4 (w :: u32)) = w"
  by (rule le_word_le_bytes) simp

lemma le_word8 [simp]: "le_word (le_bytes 8 (w :: u64)) = w"
  by (rule le_word_le_bytes) simp

lemma le_bytes_inject [simp]:
  "le_bytes 2 (v :: u16) = le_bytes 2 w \<longleftrightarrow> v = w"
  "le_bytes 8 (x :: u64) = le_bytes 8 y \<longleftrightarrow> x = y"
  by (metis le_word2, metis le_word8)

lemma le_word8_inject:
  assumes "length xs = 8" "length ys = 8"
  shows "(le_word xs :: u64) = le_word ys \<longleftrightarrow> xs = ys"
proof
  assume "(le_word xs :: u64) = le_word ys"
  then have "le_bytes 8 (le_word xs :: u64) = le_bytes 8 (le_word ys :: u64)" by simp
  then show "xs = ys" using assms by (simp add: le_bytes_le_word)
qed simp

text \<open>A run of \<open>Put\<close> calls that fills a buffer from the front.\<close>

lemma Put_next:
  "length xs = a \<Longrightarrow> b = a + 4 \<Longrightarrow> b \<le> length d \<Longrightarrow>
     PutUint32 (patch d 0 xs) a b v = Some (patch d 0 (xs @ le_bytes 4 v))"
  "length xs = a \<Longrightarrow> b = a + 8 \<Longrightarrow> b \<le> length d \<Longrightarrow>
     PutUint64 (patch d 0 xs) a b w = Some (patch d 0 (xs @ le_bytes 8 w))"
  by (auto simp: PutUint32_def PutUint64_def patch_patch_next)

lemma xor_right_cancel: "a XOR c = b XOR c \<longleftrightarrow> a = (b :: 'a::len word)"
  by (metis xor.assoc xor_self_eq xor.right_neutral)

section \<open>16-bit arithmetic\<close>

lemma unat_u16_bound: "unat (a :: u16) < 65536"
  using unsigned_less [of a, where 'a = nat] by simp

lemma unat_add_u16 [u16_simps]:
  "unat (a :: u16) + unat b < 65536 \<Longrightarrow> unat (a + b) = unat a + unat b"
  by (simp add: unat_word_ariths)

lemma unat_sub_u16 [u16_simps]:
  "unat b \<le> unat (a :: u16) \<Longrightarrow> unat (a - b) = unat a - unat b"
  by (simp add: unat_sub word_le_nat_alt)

lemma unat_mult_u16 [u16_simps]:
  "unat (a :: u16) * unat b < 65536 \<Longrightarrow> unat (a * b) = unat a * unat b"
  by (simp add: unat_word_ariths)

lemma unat_of_nat_u16 [u16_simps]: "n < 65536 \<Longrightarrow> unat (of_nat n :: u16) = n"
  by (simp add: unat_of_nat)

lemma unat_div_u16 [u16_simps]: "unat ((a :: u16) div b) = unat a div unat b"
  by (simp add: unat_div)

lemma u16_eq_iff: "(a :: u16) = b \<longleftrightarrow> unat a = unat b"
  by (rule word_unat_eq_iff)

lemmas u16_order [u16_simps] = word_le_nat_alt [where 'a = 16] word_less_nat_alt [where 'a = 16]

lemma u16_at_region:
  assumes "unat pos + 2 \<le> length d" "unat pos + 2 < 65536"
  shows "u16_at d pos = Some (le_word (region d (unat pos) 2))"
proof -
  have "unat (pos + 2) = unat pos + 2" using assms by (simp add: u16_simps)
  with assms show ?thesis
    by (simp add: u16_at_def Uint16_in_region)
qed

section \<open>Byte strings and their order\<close>

text \<open>\<open>bytes.Compare\<close> is the lexicographic order of the list library; the result's sign is all the
  source looks at.\<close>

definition bytes_Compare :: "bytes \<Rightarrow> bytes \<Rightarrow> int" where
  "bytes_Compare a b = (if a = b then 0 else if a < b then -1 else 1)"

lemma bytes_Compare_sign [simp]:
  "bytes_Compare a b = 0 \<longleftrightarrow> a = b"
  "bytes_Compare a b < 0 \<longleftrightarrow> a < b"
  "bytes_Compare a b \<le> 0 \<longleftrightarrow> a \<le> b"
  "0 < bytes_Compare a b \<longleftrightarrow> b < a"
  by (auto simp: bytes_Compare_def)

lemma unat_succ_u64: "unat (x :: u64) < 2 ^ 48 \<Longrightarrow> unat (x + 1) = Suc (unat x)"
  by (simp add: unat_word_ariths)

end
