(* ===== verification/BNode.thy ===== *)
theory BNode
  imports Prelude
begin

text \<open>
  Slotted B-tree pages, from \<^verbatim>\<open>src/bnode.go\<close>.

  A \<open>bnode\<close> is a pointer to a page; the operations below act on the page's 4096 data bytes and
  return the new bytes. Every slice expression, index and \<open>assert\<close> that can panic is a
  \<^const>\<open>None\<close>; every position and size is a \<open>uint16\<close> word, computed with the source's own
  wrapping expressions. Loops over a \<open>uint16\<close> count recurse on the number of remaining
  iterations.
\<close>

section \<open>Constants\<close>

definition PageSize :: nat where
  [simp]: "PageSize = 4096"

definition nodeInternal :: byte where
  [simp]: "nodeInternal = 1"

definition nodeLeaf :: byte where
  [simp]: "nodeLeaf = 2"

definition nodeOverflow :: byte where
  [simp]: "nodeOverflow = 3"

definition leafHeaderSize :: nat where
  [simp]: "leafHeaderSize = 5"

definition internalHeaderSize :: nat where
  [simp]: "internalHeaderSize = 13"

definition leafCellHeader :: nat where
  [simp]: "leafCellHeader = 5"

definition internalCellHeader :: nat where
  [simp]: "internalCellHeader = 10"

definition minCellsPerPage :: nat where
  [simp]: "minCellsPerPage = 4"

definition leafCellCost :: nat where
  [simp]: "leafCellCost = leafCellHeader + 2"

definition internalCellCost :: nat where
  [simp]: "internalCellCost = internalCellHeader + 2"

definition maxKeySize :: nat where
  "maxKeySize = (PageSize - internalHeaderSize - internalCellCost * minCellsPerPage) div minCellsPerPage"

definition maxInlineSize :: nat where
  "maxInlineSize = (PageSize - leafHeaderSize - leafCellCost * minCellsPerPage) div minCellsPerPage"

section \<open>Header fields\<close>

definition ntype :: "bytes \<Rightarrow> byte option" where
  "ntype d = goindex d 0"

definition setType :: "bytes \<Rightarrow> byte \<Rightarrow> bytes option" where
  "setType d t = goset d 0 t"

definition nCells :: "bytes \<Rightarrow> u16 option" where
  "nCells d = Uint16_in d 1 3"

definition setNCells :: "bytes \<Rightarrow> u16 \<Rightarrow> bytes option" where
  "setNCells d c = PutUint16 d 1 3 c"

definition firstCellOffset :: "bytes \<Rightarrow> u16 option" where
  "firstCellOffset d = Uint16_in d 3 5"

definition setFirstCellOffset :: "bytes \<Rightarrow> u16 \<Rightarrow> bytes option" where
  "setFirstCellOffset d off = PutUint16 d 3 5 off"

definition headerSize :: "bytes \<Rightarrow> u16 option" where
  "headerSize d = do {
     t \<leftarrow> ntype d;
     Some (if t = nodeLeaf then of_nat leafHeaderSize else of_nat internalHeaderSize)
   }"

section \<open>Reading cells\<close>

definition cellOffset :: "bytes \<Rightarrow> u16 \<Rightarrow> u16 option" where
  "cellOffset d idx = do {
     n \<leftarrow> nCells d;
     _ \<leftarrow> go_assert (idx < n);
     h \<leftarrow> headerSize d;
     let pos = h + idx * 2;
     u16_at d pos
   }"

definition key :: "bytes \<Rightarrow> u16 \<Rightarrow> bytes option" where
  "key d idx = do {
     pos \<leftarrow> cellOffset d idx;
     t \<leftarrow> ntype d;
     if t = nodeLeaf then do {
       keylen \<leftarrow> u16_at d pos;
       let keyStart = pos + of_nat leafCellHeader;
       goslice d (unat keyStart) (unat (keyStart + keylen))
     } else do {
       keylen \<leftarrow> Uint16_in d (unat (pos + 8)) (unat (pos + 10));
       let keyStart = pos + of_nat internalCellHeader;
       goslice d (unat keyStart) (unat (keyStart + keylen))
     }
   }"

definition totalCellsSize :: "bytes \<Rightarrow> u16 option" where
  "totalCellsSize d = do {
     first \<leftarrow> firstCellOffset d;
     Some (of_nat PageSize - first)
   }"

definition freeSpace :: "bytes \<Rightarrow> u16 option" where
  "freeSpace d = do {
     h \<leftarrow> headerSize d;
     n \<leftarrow> nCells d;
     let offsetArrayEnd = h + n * 2;
     first \<leftarrow> firstCellOffset d;
     Some (first - offsetArrayEnd)
   }"

definition underfull :: "bytes \<Rightarrow> bool option" where
  "underfull d = do {
     n \<leftarrow> nCells d;
     if n < of_nat minCellsPerPage then Some True
     else do {
       free \<leftarrow> freeSpace d;
       let used = of_nat PageSize - free;
       Some (used < of_nat (PageSize div 4))
     }
   }"

definition cellSize :: "bytes \<Rightarrow> u16 \<Rightarrow> u16 option" where
  "cellSize d idx = do {
     pos \<leftarrow> cellOffset d idx;
     t \<leftarrow> ntype d;
     if t = nodeLeaf then do {
       keylen \<leftarrow> u16_at d pos;
       vallen \<leftarrow> Uint16_in d (unat (pos + 2)) (unat (pos + 4));
       let size = of_nat leafCellHeader + keylen;
       flag \<leftarrow> goindex d (unat (pos + 4));
       Some (if flag = 1 then size + 8 else size + vallen)
     } else do {
       keylen \<leftarrow> Uint16_in d (unat (pos + 8)) (unat (pos + 10));
       Some (of_nat internalCellHeader + keylen)
     }
   }"

definition leafCellSize :: "bytes \<Rightarrow> bytes \<Rightarrow> u16" where
  "leafCellSize k v =
     (let inlineSize = leafCellHeader + length k + length v
      in if inlineSize \<le> maxInlineSize then of_nat inlineSize
         else of_nat (leafCellHeader + length k + 8))"

definition internalCellSize :: "bytes \<Rightarrow> u16" where
  "internalCellSize k = of_nat (internalCellHeader + length k)"

definition leafCellSizeAt :: "bytes \<Rightarrow> u16 \<Rightarrow> u16 option" where
  "leafCellSizeAt d idx = do {
     let offPos = of_nat leafHeaderSize + idx * 2;
     pos \<leftarrow> u16_at d offPos;
     keylen \<leftarrow> u16_at d pos;
     vallen \<leftarrow> Uint16_in d (unat (pos + 2)) (unat (pos + 4));
     let size = of_nat leafCellHeader + keylen;
     flag \<leftarrow> goindex d (unat (pos + 4));
     Some (if flag = 1 then size + 8 else size + vallen)
   }"

definition internalCellSizeAt :: "bytes \<Rightarrow> u16 \<Rightarrow> u16 option" where
  "internalCellSizeAt d idx = do {
     let offPos = of_nat internalHeaderSize + idx * 2;
     pos \<leftarrow> u16_at d offPos;
     keylen \<leftarrow> Uint16_in d (unat (pos + 8)) (unat (pos + 10));
     Some (of_nat internalCellHeader + keylen)
   }"

section \<open>Children of internal pages\<close>

definition rightmostChild :: "bytes \<Rightarrow> PageId option" where
  "rightmostChild d = Uint64_in d 5 13"

definition setRightmostChild :: "bytes \<Rightarrow> PageId \<Rightarrow> bytes option" where
  "setRightmostChild d pid = PutUint64 d 5 13 pid"

definition child :: "bytes \<Rightarrow> u16 \<Rightarrow> PageId option" where
  "child d idx = do {
     t \<leftarrow> ntype d;
     _ \<leftarrow> go_assert (t = nodeInternal);
     n \<leftarrow> nCells d;
     _ \<leftarrow> go_assert (idx \<le> n);
     if idx = n then rightmostChild d
     else do {
       pos \<leftarrow> cellOffset d idx;
       Uint64_in d (unat pos) (unat (pos + 8))
     }
   }"

definition setChild :: "bytes \<Rightarrow> u16 \<Rightarrow> PageId \<Rightarrow> bytes option" where
  "setChild d idx pid = do {
     t \<leftarrow> ntype d;
     _ \<leftarrow> go_assert (t = nodeInternal);
     n \<leftarrow> nCells d;
     _ \<leftarrow> go_assert (idx \<le> n);
     if idx = n then setRightmostChild d pid
     else do {
       pos \<leftarrow> cellOffset d idx;
       PutUint64 d (unat pos) (unat (pos + 8)) pid
     }
   }"

section \<open>Encoding cells\<close>

definition encodeInternalCell :: "bytes \<Rightarrow> PageId \<Rightarrow> bytes \<Rightarrow> bytes option" where
  "encodeInternalCell buf ch k = do {
     buf \<leftarrow> PutUint64 buf 0 8 ch;
     buf \<leftarrow> PutUint16 buf 8 10 (of_nat (length k));
     gocopy buf internalCellHeader k
   }"

definition encodeLeafCell :: "bytes \<Rightarrow> bytes \<Rightarrow> bytes \<Rightarrow> PageId \<Rightarrow> bytes option" where
  "encodeLeafCell buf k v overflowID = do {
     buf \<leftarrow> PutUint16 buf 0 2 (of_nat (length k));
     buf \<leftarrow> PutUint16 buf 2 4 (of_nat (length v));
     if overflowID = 0 then do {
       buf \<leftarrow> goset buf 4 0;
       buf \<leftarrow> gocopy buf leafCellHeader k;
       gocopy buf (leafCellHeader + length k) v
     } else do {
       buf \<leftarrow> goset buf 4 1;
       buf \<leftarrow> gocopy buf leafCellHeader k;
       PutUint64 buf (leafCellHeader + length k) (length buf) overflowID
     }
   }"

section \<open>Writing cells\<close>

definition appendCell :: "bytes \<Rightarrow> bytes \<Rightarrow> bytes option" where
  "appendCell d cell = do {
     let cellLen = of_nat (length cell);
     free \<leftarrow> freeSpace d;
     _ \<leftarrow> go_assert (free \<ge> 2 + cellLen);
     first \<leftarrow> firstCellOffset d;
     let newCellPos = first - cellLen;
     d \<leftarrow> gocopy d (unat newCellPos) cell;
     idx \<leftarrow> nCells d;
     h \<leftarrow> headerSize d;
     let offsetPos = h + idx * 2;
     d \<leftarrow> PutUint16 d (unat offsetPos) (unat (offsetPos + 2)) newCellPos;
     d \<leftarrow> setFirstCellOffset d newCellPos;
     setNCells d (idx + 1)
   }"

definition copyCell :: "bytes \<Rightarrow> bytes \<Rightarrow> u16 \<Rightarrow> bytes option" where
  "copyCell dst src srcIdx = do {
     pos \<leftarrow> cellOffset src srcIdx;
     size \<leftarrow> cellSize src srcIdx;
     cell \<leftarrow> goslice src (unat pos) (unat (pos + size));
     appendCell dst cell
   }"

definition copyCellAt :: "bytes \<Rightarrow> u16 \<Rightarrow> bytes \<Rightarrow> u16 \<Rightarrow> bytes option" where
  "copyCellAt dst dstIdx src srcIdx = do {
     n \<leftarrow> nCells dst;
     _ \<leftarrow> go_assert (dstIdx \<le> n);
     pos \<leftarrow> cellOffset src srcIdx;
     cellLen \<leftarrow> cellSize src srcIdx;
     free \<leftarrow> freeSpace dst;
     _ \<leftarrow> go_assert (free \<ge> 2 + cellLen);
     first \<leftarrow> firstCellOffset dst;
     let newCellPos = first - cellLen;
     cell \<leftarrow> goslice src (unat pos) (unat (pos + cellLen));
     d \<leftarrow> gocopy dst (unat newCellPos) cell;
     h \<leftarrow> headerSize d;
     let offsetPos = h + dstIdx * 2;
     d \<leftarrow> (if dstIdx < n then do {
              tail \<leftarrow> goslice d (unat offsetPos) (unat (h + n * 2));
              gocopy d (unat (offsetPos + 2)) tail
            } else Some d);
     d \<leftarrow> PutUint16 d (unat offsetPos) (unat (offsetPos + 2)) newCellPos;
     d \<leftarrow> setFirstCellOffset d newCellPos;
     setNCells d (n + 1)
   }"

text \<open>The two copy loops. The loop variables are the destination bytes, its cell count and its
  lowest cell offset; the header is written once after the loop. Neither loop checks that the
  cells still fit.\<close>

fun copyRangeLeaf_loop ::
    "nat \<Rightarrow> bytes \<Rightarrow> bytes \<Rightarrow> u16 \<Rightarrow> u16 \<Rightarrow> u16 \<Rightarrow> u16 \<Rightarrow> (bytes \<times> u16 \<times> u16) option" where
  "copyRangeLeaf_loop 0 dst src srcStart i dstNCells dstFirst = Some (dst, dstNCells, dstFirst)"
| "copyRangeLeaf_loop (Suc more) dst src srcStart i dstNCells dstFirst = do {
     let srcIdx = srcStart + i;
     let srcOffPos = of_nat leafHeaderSize + srcIdx * 2;
     cellPos \<leftarrow> u16_at src srcOffPos;
     keylen \<leftarrow> u16_at src cellPos;
     vallen \<leftarrow> Uint16_in src (unat (cellPos + 2)) (unat (cellPos + 4));
     flag \<leftarrow> goindex src (unat (cellPos + 4));
     let cellLen = (if flag = 1 then of_nat leafCellHeader + keylen + 8
                    else of_nat leafCellHeader + keylen + vallen);
     let newCellPos = dstFirst - cellLen;
     cell \<leftarrow> goslice src (unat cellPos) (unat (cellPos + cellLen));
     dst \<leftarrow> gocopy dst (unat newCellPos) cell;
     let dstOffPos = of_nat leafHeaderSize + dstNCells * 2;
     dst \<leftarrow> PutUint16 dst (unat dstOffPos) (unat (dstOffPos + 2)) newCellPos;
     copyRangeLeaf_loop more dst src srcStart (i + 1) (dstNCells + 1) newCellPos
   }"

definition copyRangeLeaf :: "bytes \<Rightarrow> bytes \<Rightarrow> u16 \<Rightarrow> u16 \<Rightarrow> bytes option" where
  "copyRangeLeaf dst src srcStart count = do {
     dstNCells \<leftarrow> Uint16_in dst 1 3;
     dstFirst \<leftarrow> Uint16_in dst 3 5;
     (dst, dstNCells, dstFirst) \<leftarrow>
       copyRangeLeaf_loop (unat count) dst src srcStart 0 dstNCells dstFirst;
     dst \<leftarrow> PutUint16 dst 1 3 dstNCells;
     PutUint16 dst 3 5 dstFirst
   }"

fun copyRangeInternal_loop ::
    "nat \<Rightarrow> bytes \<Rightarrow> bytes \<Rightarrow> u16 \<Rightarrow> u16 \<Rightarrow> u16 \<Rightarrow> u16 \<Rightarrow> (bytes \<times> u16 \<times> u16) option" where
  "copyRangeInternal_loop 0 dst src srcStart i dstNCells dstFirst = Some (dst, dstNCells, dstFirst)"
| "copyRangeInternal_loop (Suc more) dst src srcStart i dstNCells dstFirst = do {
     let srcIdx = srcStart + i;
     let srcOffPos = of_nat internalHeaderSize + srcIdx * 2;
     cellPos \<leftarrow> u16_at src srcOffPos;
     keylen \<leftarrow> Uint16_in src (unat (cellPos + 8)) (unat (cellPos + 10));
     let cellLen = of_nat internalCellHeader + keylen;
     let newCellPos = dstFirst - cellLen;
     cell \<leftarrow> goslice src (unat cellPos) (unat (cellPos + cellLen));
     dst \<leftarrow> gocopy dst (unat newCellPos) cell;
     let dstOffPos = of_nat internalHeaderSize + dstNCells * 2;
     dst \<leftarrow> PutUint16 dst (unat dstOffPos) (unat (dstOffPos + 2)) newCellPos;
     copyRangeInternal_loop more dst src srcStart (i + 1) (dstNCells + 1) newCellPos
   }"

definition copyRangeInternal :: "bytes \<Rightarrow> bytes \<Rightarrow> u16 \<Rightarrow> u16 \<Rightarrow> bytes option" where
  "copyRangeInternal dst src srcStart count = do {
     dstNCells \<leftarrow> Uint16_in dst 1 3;
     dstFirst \<leftarrow> Uint16_in dst 3 5;
     (dst, dstNCells, dstFirst) \<leftarrow>
       copyRangeInternal_loop (unat count) dst src srcStart 0 dstNCells dstFirst;
     dst \<leftarrow> PutUint16 dst 1 3 dstNCells;
     PutUint16 dst 3 5 dstFirst
   }"

definition copyRange :: "bytes \<Rightarrow> bytes \<Rightarrow> u16 \<Rightarrow> u16 \<Rightarrow> bytes option" where
  "copyRange dst src srcStart count = do {
     ts \<leftarrow> ntype src;
     td \<leftarrow> ntype dst;
     _ \<leftarrow> go_assert (ts = td);
     n \<leftarrow> nCells src;
     _ \<leftarrow> go_assert (srcStart + count \<le> n);
     if count = 0 then Some dst
     else if ts = nodeLeaf then copyRangeLeaf dst src srcStart count
     else copyRangeInternal dst src srcStart count
   }"

definition copyWithoutCell :: "bytes \<Rightarrow> bytes \<Rightarrow> u16 \<Rightarrow> bytes option" where
  "copyWithoutCell dst src removeIdx = do {
     ts \<leftarrow> ntype src;
     td \<leftarrow> ntype dst;
     _ \<leftarrow> go_assert (ts = td);
     n \<leftarrow> nCells src;
     _ \<leftarrow> go_assert (removeIdx \<le> n);
     dst \<leftarrow> copyRange dst src 0 removeIdx;
     dst \<leftarrow> copyRange dst src (removeIdx + 1) (n - removeIdx - 1);
     t \<leftarrow> ntype dst;
     if t = nodeInternal then do {
       r \<leftarrow> rightmostChild src;
       setRightmostChild dst r
     } else Some dst
   }"

definition appendLeafCellWithOverflow :: "bytes \<Rightarrow> bytes \<Rightarrow> bytes \<Rightarrow> PageId \<Rightarrow> bytes option" where
  "appendLeafCellWithOverflow d k v overflowID = do {
     let cellLen = leafCellSize k v;
     free \<leftarrow> freeSpace d;
     _ \<leftarrow> go_assert (free \<ge> 2 + cellLen);
     first \<leftarrow> firstCellOffset d;
     let newCellPos = first - cellLen;
     buf \<leftarrow> gofrom d (unat newCellPos);
     buf \<leftarrow> encodeLeafCell buf k v overflowID;
     let d = patch d (unat newCellPos) buf;
     idx \<leftarrow> nCells d;
     h \<leftarrow> headerSize d;
     let offsetPos = h + idx * 2;
     d \<leftarrow> PutUint16 d (unat offsetPos) (unat (offsetPos + 2)) newCellPos;
     d \<leftarrow> setFirstCellOffset d newCellPos;
     setNCells d (idx + 1)
   }"

definition appendInternalCell :: "bytes \<Rightarrow> PageId \<Rightarrow> bytes \<Rightarrow> bytes option" where
  "appendInternalCell d ch k = do {
     let cellLen = internalCellSize k;
     free \<leftarrow> freeSpace d;
     _ \<leftarrow> go_assert (free \<ge> 2 + cellLen);
     first \<leftarrow> firstCellOffset d;
     let newCellPos = first - cellLen;
     buf \<leftarrow> gofrom d (unat newCellPos);
     buf \<leftarrow> encodeInternalCell buf ch k;
     let d = patch d (unat newCellPos) buf;
     idx \<leftarrow> nCells d;
     h \<leftarrow> headerSize d;
     let offsetPos = h + idx * 2;
     d \<leftarrow> PutUint16 d (unat offsetPos) (unat (offsetPos + 2)) newCellPos;
     d \<leftarrow> setFirstCellOffset d newCellPos;
     setNCells d (idx + 1)
   }"

definition insertInternalCellAt :: "bytes \<Rightarrow> u16 \<Rightarrow> PageId \<Rightarrow> bytes \<Rightarrow> bytes option" where
  "insertInternalCellAt d dstIdx ch k = do {
     n \<leftarrow> nCells d;
     _ \<leftarrow> go_assert (dstIdx \<le> n);
     let cellLen = internalCellSize k;
     free \<leftarrow> freeSpace d;
     _ \<leftarrow> go_assert (free \<ge> 2 + cellLen);
     first \<leftarrow> firstCellOffset d;
     let newCellPos = first - cellLen;
     buf \<leftarrow> gofrom d (unat newCellPos);
     buf \<leftarrow> encodeInternalCell buf ch k;
     let d = patch d (unat newCellPos) buf;
     h \<leftarrow> headerSize d;
     let offsetPos = h + dstIdx * 2;
     d \<leftarrow> (if dstIdx < n then do {
              tail \<leftarrow> goslice d (unat offsetPos) (unat (h + n * 2));
              gocopy d (unat (offsetPos + 2)) tail
            } else Some d);
     d \<leftarrow> PutUint16 d (unat offsetPos) (unat (offsetPos + 2)) newCellPos;
     d \<leftarrow> setFirstCellOffset d newCellPos;
     setNCells d (n + 1)
   }"

definition leafCellOverflowId :: "bytes \<Rightarrow> u16 \<Rightarrow> PageId option" where
  "leafCellOverflowId d idx = do {
     pos \<leftarrow> cellOffset d idx;
     flag \<leftarrow> goindex d (unat (pos + 4));
     if flag \<noteq> 1 then Some 0
     else do {
       keylen \<leftarrow> u16_at d pos;
       gofrom d (unat (pos + of_nat leafCellHeader + keylen)) \<bind> Uint64
     }
   }"

text \<open>The initialisation both \<open>allocLeaf\<close> and \<open>allocInternal\<close> of \<^verbatim>\<open>src/btree.go\<close> apply to a
  freshly allocated page.\<close>

definition init_node :: "byte \<Rightarrow> bytes \<Rightarrow> bytes option" where
  "init_node t d = do {
     d \<leftarrow> setType d t;
     d \<leftarrow> setNCells d 0;
     setFirstCellOffset d (of_nat PageSize)
   }"

end
