(* ===== verification/Storage.thy ===== *)
theory Storage
  imports BNode
begin

text \<open>
  The storage manager of \<^verbatim>\<open>src/storage.go\<close>: page-granular access to one file.

  \<^item> \<open>os.File\<close> is the file's bytes together with a script that says how each coming system call
    goes: \<open>IOk\<close>, or \<open>IFail n\<close> when the call fails after \<open>n\<close> bytes (a torn write). When the
    script runs out every call succeeds.
  \<^item> The operating system keeps writes in memory until \<open>fsync\<close> returns: \<open>onDisk\<close> is what a power failure
    is sure to leave, the bytes at the last successful \<open>fsync\<close>. What was found when the file was opened
    counts as synced. \<open>after_crash\<close> says which files a power failure may leave.
  \<^item> \<open>int64\<close> arithmetic is written out with its wrap-around, so that the out-of-bounds checks are
    the ones the code performs.
  \<^item> A Go \<open>error\<close> result alone is an \<open>error option\<close> whose \<^const>\<open>None\<close> is \<open>nil\<close>.
  \<^item> \<open>unix.Pwritev\<close> lies outside the repository: it is the parameter \<open>pw\<close>, and what the code
    relies on is the predicate \<open>pwritev_ok\<close>.
\<close>

section \<open>The file\<close>

datatype io = IOk | IFail nat

record StorageManager =
  content :: bytes
  onDisk :: bytes
  fileSize :: int
  script :: "io list"

definition int64 :: "int \<Rightarrow> int" where
  "int64 x = signed_take_bit 63 x"

definition next_io :: "StorageManager \<Rightarrow> io \<times> StorageManager" where
  "next_io s = (case script s of [] \<Rightarrow> (IOk, s) | e # es \<Rightarrow> (e, s\<lparr>script := es\<rparr>))"

text \<open>\<open>ReadAt(buf, off)\<close>: fills \<open>buf\<close> as far as the file reaches, with an error when that is not all.\<close>

definition ReadAt :: "StorageManager \<Rightarrow> bytes \<Rightarrow> int \<Rightarrow> error option \<times> bytes \<times> StorageManager" where
  "ReadAt s buf off =
     (if off < 0 then (Some ErrIO, buf, s)
      else case next_io s of
          (IFail n, s) \<Rightarrow> (Some ErrIO, patch buf 0 (region (content s) (nat off) (min n (length buf))), s)
        | (IOk, s) \<Rightarrow>
            (let got = region (content s) (nat off) (length buf)
             in (if length got < length buf then Some ErrIO else None, patch buf 0 got, s)))"

text \<open>\<open>WriteAt(buf, off)\<close>; a write past the end extends the file with zeros first.\<close>

definition write_bytes :: "bytes \<Rightarrow> nat \<Rightarrow> bytes \<Rightarrow> bytes" where
  "write_bytes f off bs =
     (if bs = [] then f
      else patch (f @ replicate (off + length bs - length f) 0) off bs)"

definition WriteAt :: "StorageManager \<Rightarrow> bytes \<Rightarrow> int \<Rightarrow> error option \<times> StorageManager" where
  "WriteAt s buf off =
     (if off < 0 then (Some ErrIO, s)
      else case next_io s of
          (IFail n, s) \<Rightarrow> (Some ErrIO, s\<lparr>content := write_bytes (content s) (nat off) (take n buf)\<rparr>)
        | (IOk, s) \<Rightarrow> (None, s\<lparr>content := write_bytes (content s) (nat off) buf\<rparr>))"

definition Truncate :: "StorageManager \<Rightarrow> int \<Rightarrow> error option \<times> StorageManager" where
  "Truncate s newSize =
     (if newSize < 0 then (Some ErrIO, s)
      else case next_io s of
          (IFail _, s) \<Rightarrow> (Some ErrIO, s)
        | (IOk, s) \<Rightarrow>
            (None, s\<lparr>content := take (nat newSize) (content s) @ replicate (nat newSize - length (content s)) 0\<rparr>))"

definition fsyncFile :: "StorageManager \<Rightarrow> error option \<times> StorageManager" where
  "fsyncFile s = (case next_io s of (IFail _, s) \<Rightarrow> (Some ErrIO, s) | (IOk, s) \<Rightarrow> (None, s\<lparr>onDisk := content s\<rparr>))"

section \<open>The storage manager\<close>

definition initFileSize :: int where
  "initFileSize = 16 * int PageSize"

definition maxGrowth :: int where
  "maxGrowth = 256 * int PageSize"

text \<open>\<open>NewStorageManager\<close> after the file has been opened and its size read.\<close>

definition NewStorageManager :: "bytes \<Rightarrow> io list \<Rightarrow> error + StorageManager \<times> bool" where
  "NewStorageManager f sc =
     (let sz = int (length f)
      in if sz mod int PageSize \<noteq> 0 then Inl ErrInvalidFileSize
         else Inr (\<lparr>content = f, onDisk = f, fileSize = sz, script = sc\<rparr>, sz = 0))"

definition getOffset :: "StorageManager \<Rightarrow> PageId \<Rightarrow> int option" where
  "getOffset s pid =
     (let offset = int64 (sint pid * int PageSize)
      in if int64 (offset + int PageSize) > fileSize s then None else Some offset)"

definition ReadPage :: "StorageManager \<Rightarrow> PageId \<Rightarrow> bytes \<Rightarrow> (error option \<times> bytes \<times> StorageManager) option" where
  "ReadPage s pid buf = do {
     off \<leftarrow> getOffset s pid;
     Some (ReadAt s buf off)
   }"

definition WritePage :: "StorageManager \<Rightarrow> PageId \<Rightarrow> bytes \<Rightarrow> (error option \<times> StorageManager) option" where
  "WritePage s pid buf = do {
     off \<leftarrow> getOffset s pid;
     Some (WriteAt s buf off)
   }"

text \<open>\<open>growSize\<close>: the loop doubles the size, with a smallest step of \<open>maxGrowth\<close>; its fuel counts
  iterations.\<close>

fun growSize_loop :: "nat \<Rightarrow> int \<Rightarrow> int \<Rightarrow> int option" where
  "growSize_loop 0 sz required = None"
| "growSize_loop (Suc fuel) sz required =
     (if sz < required
      then (let growth = max sz maxGrowth in growSize_loop fuel (int64 (sz + growth)) required)
      else Some sz)"

definition growSize :: "nat \<Rightarrow> StorageManager \<Rightarrow> int \<Rightarrow> int option" where
  "growSize fuel s required = growSize_loop fuel (max (fileSize s) initFileSize) required"

definition Allocate :: "nat \<Rightarrow> StorageManager \<Rightarrow> PageId \<Rightarrow> (error option \<times> StorageManager) option" where
  "Allocate fuel s pid =
     (let required = int64 (int64 (sint pid + 1) * int PageSize)
      in if required \<le> fileSize s then Some (None, s)
         else do {
           newSize \<leftarrow> growSize fuel s required;
           let (err, s) = Truncate s newSize;
           case err of
             Some e \<Rightarrow> Some (Some e, s)
           | None \<Rightarrow> Some (None, s\<lparr>fileSize := newSize\<rparr>)
         })"

definition Sync :: "StorageManager \<Rightarrow> error option \<times> StorageManager" where
  "Sync s = fsyncFile s"

definition CloseStorage :: "StorageManager \<Rightarrow> error option \<times> StorageManager" where
  "CloseStorage s = (case next_io s of (IFail _, s) \<Rightarrow> (Some ErrIO, s) | (IOk, s) \<Rightarrow> (None, s))"

section \<open>Vectored writes\<close>

definition pwritevMaxIOV :: nat where
  "pwritevMaxIOV = 1024"

type_synonym pwritev = "StorageManager \<Rightarrow> bytes list \<Rightarrow> int \<Rightarrow> (error + nat) \<times> StorageManager"

text \<open>What \<open>pwritev(2)\<close> documents: it writes a prefix of the concatenated buffers at the offset and
  returns its length. When it fails, bytes inside the target range may have been overwritten. It
  syncs nothing.\<close>

definition pwritev_ok :: "pwritev \<Rightarrow> bool" where
  "pwritev_ok pw \<longleftrightarrow>
     (\<forall>s bufs off n s'. 0 \<le> off \<longrightarrow> pw s bufs off = (Inr n, s') \<longrightarrow>
        n \<le> length (concat bufs) \<and>
        content s' = write_bytes (content s) (nat off) (take n (concat bufs)) \<and> fileSize s' = fileSize s \<and> onDisk s' = onDisk s) \<and>
     (\<forall>s bufs off e s'. 0 \<le> off \<longrightarrow> pw s bufs off = (Inl e, s') \<longrightarrow>
        (\<exists>bs. length bs \<le> length (concat bufs) \<and> content s' = write_bytes (content s) (nat off) bs) \<and>
        fileSize s' = fileSize s \<and> onDisk s' = onDisk s)"

text \<open>The resumption loop: \<^const>\<open>None\<close> when the fuel runs out, \<open>Panics\<close> for the index
  \<open>bufs[0]\<close> of an empty slice or a slice bound out of range.\<close>

datatype 'a run = Ret 'a | Panics

fun pwritevFull ::
    "nat \<Rightarrow> pwritev \<Rightarrow> StorageManager \<Rightarrow> bytes list \<Rightarrow> int \<Rightarrow> (error option \<times> StorageManager) run option" where
  "pwritevFull 0 pw s bufs offset = None"
| "pwritevFull (Suc fuel) pw s bufs offset =
     (if bufs = [] then Some (Ret (None, s))
      else
        (let chunk = (if length bufs > pwritevMaxIOV then take pwritevMaxIOV bufs else bufs)
         in case pw s chunk offset of
              (Inl e, s) \<Rightarrow> Some (Ret (Some e, s))
            | (Inr n, s) \<Rightarrow>
                (let full = n div PageSize; partial = n mod PageSize
                 in if full > length bufs then Some Panics
                    else
                      (let bufs = drop full bufs; offset = int64 (offset + int full * int PageSize)
                       in if partial > 0
                          then (case bufs of
                                  [] \<Rightarrow> Some Panics
                                | b # bs \<Rightarrow>
                                    if partial > length b then Some Panics
                                    else pwritevFull fuel pw s (drop partial b # bs) (int64 (offset + int partial)))
                          else pwritevFull fuel pw s bufs offset))))"

definition WritePagesContiguous ::
    "nat \<Rightarrow> pwritev \<Rightarrow> StorageManager \<Rightarrow> PageId \<Rightarrow> bytes list \<Rightarrow> (error option \<times> StorageManager) run option" where
  "WritePagesContiguous fuel pw s startPageID bufs =
     (if bufs = [] then Some (Ret (None, s))
      else case getOffset s startPageID of
             None \<Rightarrow> Some Panics
           | Some offset \<Rightarrow>
               if int64 (offset + int64 (int (length bufs) * int PageSize)) > fileSize s then Some Panics
               else pwritevFull fuel pw s bufs offset)"

section \<open>Well-formed files and their pages\<close>

text \<open>The file is a whole number of pages, below \<open>2^60\<close> bytes, and \<open>fileSize\<close> is its size.\<close>

definition sm_ok :: "StorageManager \<Rightarrow> bool" where
  "sm_ok s \<longleftrightarrow> fileSize s = int (length (content s)) \<and> 4096 dvd length (content s) \<and>
     length (content s) \<le> 2 ^ 60"

definition in_file :: "StorageManager \<Rightarrow> PageId \<Rightarrow> bool" where
  "in_file s pid \<longleftrightarrow> unat pid * 4096 + 4096 \<le> length (content s)"

definition page_at :: "StorageManager \<Rightarrow> PageId \<Rightarrow> bytes" where
  "page_at s pid = region (content s) (unat pid * 4096) 4096"

text \<open>A power failure: the file is at least as long as at the last sync, and a page that has not changed since
  then is as it was. A page that has changed may be anything, a torn write or an earlier version included.\<close>

definition opened :: "bytes \<Rightarrow> StorageManager" where
  "opened f = \<lparr>content = f, onDisk = f, fileSize = int (length f), script = []\<rparr>"

definition after_crash :: "StorageManager \<Rightarrow> bytes \<Rightarrow> bool" where
  "after_crash s f \<longleftrightarrow> 4096 dvd length f \<and> length f \<le> 2 ^ 60 \<and> length (onDisk s) \<le> length f \<and>
     (\<forall>q. in_file (opened (onDisk s)) q \<and> in_file s q \<and> page_at (opened (onDisk s)) q = page_at s q \<longrightarrow> page_at (opened f) q = page_at s q)"

lemma opened_fields [simp]: "content (opened f) = f" "onDisk (opened f) = f" "fileSize (opened f) = int (length f)" "script (opened f) = []"
  by (simp_all add: opened_def)

lemma opened_pages [simp]: "in_file (opened (content s)) = in_file s" "page_at (opened (content s)) = page_at s"
  by (simp_all add: in_file_def page_at_def fun_eq_iff)

lemma int64_small: "- (2 ^ 63) \<le> x \<Longrightarrow> x < 2 ^ 63 \<Longrightarrow> int64 x = x"
  by (simp add: int64_def signed_take_bit_int_eq_self)

lemma length_page_at [simp]: "in_file s pid \<Longrightarrow> length (page_at s pid) = 4096"
  by (simp add: page_at_def in_file_def)

lemma uint_bound: "unat (pid :: u64) < 2 ^ k \<Longrightarrow> 0 \<le> uint pid \<and> uint pid < 2 ^ k"
proof -
  assume "unat pid < 2 ^ k"
  then have "int (unat pid) < int (2 ^ k)" by (simp only: of_nat_less_iff)
  then show ?thesis by simp
qed

lemma nat_uint_page [simp]: "nat (uint (pid :: u64) * 4096) = unat pid * 4096"
  by (simp add: nat_mult_distrib)

lemma sint_small: "unat (pid :: u64) < 2 ^ 63 \<Longrightarrow> sint pid = uint pid"
proof -
  assume "unat pid < 2 ^ 63"
  then have "0 \<le> uint pid" "uint pid < 2 ^ 63" using uint_bound by blast+
  moreover have "signed_take_bit 63 x = x" if "0 \<le> x" "x < 2 ^ 63" for x :: int
    using that by (intro signed_take_bit_int_eq_self) auto
  ultimately have "signed_take_bit 63 (uint pid) = uint pid" by blast
  then show ?thesis by (simp add: sint_uint)
qed

lemma in_file_small: "sm_ok s \<Longrightarrow> in_file s pid \<Longrightarrow> unat pid < 2 ^ 48"
  by (simp add: sm_ok_def in_file_def)

lemma getOffset_in_file:
  assumes "sm_ok s" "in_file s pid"
  shows "getOffset s pid = Some (uint pid * 4096)"
proof -
  have u: "unat pid < 2 ^ 48" using in_file_small [OF assms] .
  then have b: "0 \<le> uint pid" "uint pid < 2 ^ 48" using uint_bound by blast+
  have si: "sint pid = uint pid" using u by (intro sint_small) simp
  have "int64 (x * 4096) = x * 4096 \<and> int64 (x * 4096 + 4096) = x * 4096 + 4096"
    if "0 \<le> x" "x < 2 ^ 48" for x
    using that by (simp add: int64_small)
  then have o: "int64 (uint pid * 4096) = uint pid * 4096" "int64 (uint pid * 4096 + 4096) = uint pid * 4096 + 4096"
    using b by blast+
  have "int (unat pid * 4096 + 4096) \<le> int (length (content s))"
    using assms(2) unfolding in_file_def by (simp only: of_nat_le_iff)
  then have "uint pid * 4096 + 4096 \<le> fileSize s" using assms(1) by (simp add: sm_ok_def)
  then show ?thesis using o by (simp add: getOffset_def si Let_def)
qed

lemma write_bytes_inside:
  "off + length bs \<le> length f \<Longrightarrow> write_bytes f off bs = patch f off bs"
  by (simp add: write_bytes_def)

text \<open>The two ways a page write can go. A failed write may have torn the page, nothing else.\<close>

lemma WritePage_cases:
  assumes "sm_ok s" "in_file s pid" "length buf = 4096"
  obtains (ok) s' where "WritePage s pid buf = Some (None, s')"
      "content s' = patch (content s) (unat pid * 4096) buf" "fileSize s' = fileSize s" "onDisk s' = onDisk s"
    | (torn) s' n where "WritePage s pid buf = Some (Some ErrIO, s')"
      "content s' = patch (content s) (unat pid * 4096) (take n buf)" "fileSize s' = fileSize s" "onDisk s' = onDisk s"
proof -
  have off: "getOffset s pid = Some (uint pid * 4096)" using getOffset_in_file [OF assms(1,2)] .
  have fits: "unat pid * 4096 + length (take n buf) \<le> length (content s)" for n
    using assms(2,3) by (simp add: in_file_def)
  obtain e s1 where io: "next_io s = (e, s1)" "content s1 = content s" "fileSize s1 = fileSize s" "onDisk s1 = onDisk s"
    by (cases "script s") (auto simp: next_io_def)
  show thesis
  proof (cases e)
    case IOk
    then show thesis using io off fits [of 4096] assms(3)
      by (intro ok [of "s1\<lparr>content := write_bytes (content s) (unat pid * 4096) buf\<rparr>"])
        (simp_all add: WritePage_def WriteAt_def write_bytes_inside)
  next
    case (IFail n)
    then show thesis using io off fits [of n]
      by (intro torn [of "s1\<lparr>content := write_bytes (content s) (unat pid * 4096) (take n buf)\<rparr>" n])
        (simp_all add: WritePage_def WriteAt_def write_bytes_inside)
  qed
qed

lemma page_at_other:
  assumes "in_file s pid" "content s' = patch (content s) (unat pid * 4096) bs" "length bs \<le> 4096" "q \<noteq> pid"
  shows "page_at s' q = page_at s q"
proof -
  have "unat q < unat pid \<or> unat pid < unat q" using assms(4) by (metis linorder_neqE_nat word_unat_eq_iff)
  then show ?thesis
  proof
    assume "unat q < unat pid"
    then show ?thesis using assms by (simp add: page_at_def in_file_def region_patch_below)
  next
    assume "unat pid < unat q"
    then show ?thesis using assms by (simp add: page_at_def in_file_def region_patch_above)
  qed
qed

lemma ReadPage_cases:
  assumes "sm_ok s" "in_file s pid" "length buf = 4096"
  obtains (ok) s' where "ReadPage s pid buf = Some (None, page_at s pid, s')"
      "content s' = content s" "fileSize s' = fileSize s" "onDisk s' = onDisk s"
    | (failed) s' buf' where "ReadPage s pid buf = Some (Some ErrIO, buf', s')" "length buf' = 4096"
      "content s' = content s" "fileSize s' = fileSize s" "onDisk s' = onDisk s"
proof -
  have off: "getOffset s pid = Some (uint pid * 4096)" using getOffset_in_file [OF assms(1,2)] .
  obtain e s1 where io: "next_io s = (e, s1)" "content s1 = content s" "fileSize s1 = fileSize s" "onDisk s1 = onDisk s"
    by (cases "script s") (auto simp: next_io_def)
  have len: "length (region (content s) (unat pid * 4096) 4096) = 4096"
    using assms(2) by (simp add: in_file_def)
  show thesis
  proof (cases e)
    case IOk
    then show thesis using io off len assms(3)
      by (intro ok [of s1]) (simp_all add: ReadPage_def ReadAt_def Let_def page_at_def patch_whole)
  next
    case (IFail n)
    then show thesis using io off assms(3)
      by (intro failed [of "patch buf 0 (region (content s) (unat pid * 4096) (min n 4096))" s1])
        (simp_all add: ReadPage_def ReadAt_def)
  qed
qed

section \<open>Growing the file\<close>

lemma growSize_loop_enough:
  "0 < sz \<Longrightarrow> sz \<le> 2 ^ 60 \<Longrightarrow> required \<le> 2 ^ 59 \<Longrightarrow> required \<le> sz * 2 ^ fuel \<Longrightarrow> 4096 dvd sz \<Longrightarrow>
   \<exists>r. growSize_loop (Suc fuel) sz required = Some r \<and> required \<le> r \<and> sz \<le> r \<and> r \<le> 2 ^ 60 \<and> 4096 dvd r"
proof (induction fuel arbitrary: sz)
  case 0
  then show ?case by auto
next
  case (Suc fuel)
  show ?case
  proof (cases "sz < required")
    case False
    then show ?thesis using Suc.prems by auto
  next
    case True
    let ?sz = "sz + max sz maxGrowth"
    have b: "?sz \<le> 2 ^ 60" and g: "2 * sz \<le> ?sz" and dv: "4096 dvd ?sz"
      using Suc.prems True by (auto simp: maxGrowth_def max_def)
    have w: "int64 ?sz = ?sz" using b Suc.prems(1) by (intro int64_small) (auto simp: maxGrowth_def)
    have step: "growSize_loop (Suc (Suc fuel)) sz required = growSize_loop (Suc fuel) ?sz required"
      using True w by (simp add: Let_def)
    have "required \<le> 2 * sz * 2 ^ fuel" using Suc.prems(4) by (simp add: mult.commute mult.left_commute)
    also have "\<dots> \<le> ?sz * 2 ^ fuel" using g by (intro mult_right_mono) auto
    finally obtain r where "growSize_loop (Suc fuel) ?sz required = Some r \<and> required \<le> r \<and> ?sz \<le> r \<and> r \<le> 2 ^ 60 \<and> 4096 dvd r"
      using Suc.IH [of ?sz] Suc.prems b dv g by auto
    then show ?thesis using step Suc.prems(1) g by auto
  qed
qed

lemma growSize_enough:
  assumes "sm_ok s" "required \<le> 2 ^ 59" "44 \<le> fuel"
  shows "\<exists>r. growSize fuel s required = Some r \<and> required \<le> r \<and> fileSize s \<le> r \<and> r \<le> 2 ^ 60 \<and> 4096 dvd r"
proof -
  let ?sz = "max (fileSize s) initFileSize"
  obtain k where k: "fuel = Suc k" "43 \<le> k" using assms(3) by (cases fuel) auto
  have sz: "2 ^ 16 \<le> ?sz" "?sz \<le> 2 ^ 60" "4096 dvd ?sz"
    using assms(1) by (auto simp: sm_ok_def initFileSize_def max_def)
  have "required \<le> 2 ^ 16 * 2 ^ 43" using assms(2) by simp
  also have "\<dots> \<le> ?sz * 2 ^ k"
    using sz(1) k(2) by (intro mult_mono power_increasing) auto
  finally have "\<exists>r. growSize_loop (Suc k) ?sz required = Some r \<and> required \<le> r \<and> ?sz \<le> r \<and> r \<le> 2 ^ 60 \<and> 4096 dvd r"
    using sz assms(2) by (intro growSize_loop_enough) auto
  then show ?thesis unfolding growSize_def k(1) by auto
qed

text \<open>Allocation makes the page addressable and keeps every byte that was there.\<close>

lemma Allocate_cases:
  assumes ok: "sm_ok s" and small: "unat pid < 2 ^ 46" and fuel: "44 \<le> fuel"
  obtains (grown) s' k where "Allocate fuel s pid = Some (None, s')" "sm_ok s'" "in_file s' pid"
      "content s' = content s @ replicate k 0" "onDisk s' = onDisk s"
    | (failed) s' where "Allocate fuel s pid = Some (Some ErrIO, s')" "content s' = content s" "fileSize s' = fileSize s" "onDisk s' = onDisk s"
proof -
  have "0 \<le> uint pid" "uint pid < 2 ^ 46" using uint_bound [OF small] by blast+
  moreover have "int64 (int64 (x + 1) * 4096) = (x + 1) * 4096" if "0 \<le> x" "x < 2 ^ 46" for x
  proof -
    have "int64 (x + 1) = x + 1" using that by (intro int64_small) auto
    moreover have "int64 ((x + 1) * 4096) = (x + 1) * 4096" using that by (intro int64_small) auto
    ultimately show ?thesis by simp
  qed
  moreover have "sint pid = uint pid" using small by (intro sint_small) simp
  ultimately have req0: "int64 (int64 (sint pid + 1) * 4096) = (uint pid + 1) * 4096" and
    reqb0: "(uint pid + 1) * 4096 \<le> 2 ^ 59" by auto
  define R where "R = (uint pid + 1) * 4096"
  have req: "int64 (int64 (sint pid + 1) * 4096) = R" and reqb: "R \<le> 2 ^ 59"
    using req0 reqb0 unfolding R_def by simp_all
  have fs: "fileSize s = int (length (content s))" using ok by (simp add: sm_ok_def)
  have infile: "in_file t pid" if "R \<le> int (length (content t))" for t
  proof -
    have "int (unat pid * 4096 + 4096) \<le> int (length (content t))" using that unfolding R_def by simp
    then show ?thesis unfolding in_file_def by (simp only: of_nat_le_iff)
  qed
  show thesis
  proof (cases "R \<le> fileSize s")
    case True
    then show thesis using ok infile [of s] fs
      by (intro grown [of s 0]) (simp_all add: Allocate_def req Let_def)
  next
    case False
    obtain r where r: "growSize fuel s (R) = Some r" "R \<le> r"
      "fileSize s \<le> r" "r \<le> 2 ^ 60" "4096 dvd r"
      using growSize_enough [OF ok reqb fuel] by blast
    obtain n where n: "r = int n" using r(3) fs by (metis nonneg_int_cases of_nat_0_le_iff order_trans)
    have ln: "length (content s) \<le> n" using r(3) fs n by simp
    obtain e s1 where io: "next_io s = (e, s1)" "content s1 = content s" "fileSize s1 = fileSize s" "onDisk s1 = onDisk s"
      by (cases "script s") (auto simp: next_io_def)
    show thesis
    proof (cases e)
      case IOk
      let ?s = "s1\<lparr>content := content s @ replicate (n - length (content s)) 0, fileSize := r\<rparr>"
      have dvd: "4096 dvd n" using r(5) n by (metis int_dvd_int_iff of_nat_numeral)
      have "n \<le> 2 ^ 60" using r(4) n by simp
      then have "sm_ok ?s" using ln dvd n by (simp add: sm_ok_def)
      moreover have "in_file ?s pid" using infile [of ?s] r(2) n ln by simp
      moreover have "Allocate fuel s pid = Some (None, ?s)"
        using False r(1) io IOk n ln by (simp add: Allocate_def req Let_def Truncate_def)
      ultimately show thesis using io(4) by (intro grown [of ?s "n - length (content s)"]) simp_all
    next
      case (IFail k)
      then show thesis using False r(1) io n
        by (intro failed [of s1]) (simp_all add: Allocate_def req Let_def Truncate_def)
    qed
  qed
qed

section \<open>Resuming short vectored writes\<close>

text \<open>Every short write ends on a page boundary.\<close>

definition page_granular :: "pwritev \<Rightarrow> bool" where
  "page_granular pw \<longleftrightarrow> (\<forall>s bufs off n s'. pw s bufs off = (Inr n, s') \<longrightarrow> bufs \<noteq> [] \<longrightarrow>
     (\<forall>b \<in> set bufs. length b = 4096) \<longrightarrow> 0 < n \<and> 4096 dvd n)"

lemma length_concat_pages: "\<forall>b \<in> set bufs. length b = 4096 \<Longrightarrow> length (concat bufs) = 4096 * length bufs"
  by (induction bufs) auto

lemma take_concat_pages:
  "\<forall>b \<in> set bufs. length b = 4096 \<Longrightarrow> take (4096 * m) (concat bufs) = concat (take m bufs)"
proof (induction bufs arbitrary: m)
  case Nil
  then show ?case by simp
next
  case (Cons b bufs)
  then show ?case by (cases m) auto
qed

lemma pwritevFull_pages:
  assumes spec: "pwritev_ok pw" and gran: "page_granular pw"
  shows "\<forall>b \<in> set bufs. length b = 4096 \<Longrightarrow> off + 4096 * length bufs \<le> length (content s) \<Longrightarrow>
    length (content s) \<le> 2 ^ 60 \<Longrightarrow> length bufs < fuel \<Longrightarrow>
    \<exists>err s' bs. pwritevFull fuel pw s bufs (int off) = Some (Ret (err, s')) \<and> fileSize s' = fileSize s \<and> onDisk s' = onDisk s \<and>
      length bs \<le> 4096 * length bufs \<and> content s' = patch (content s) off bs \<and> (err = None \<longrightarrow> bs = concat bufs)"
proof (induction fuel arbitrary: s bufs off)
  case 0
  then show ?case by simp
next
  case (Suc fuel)
  show ?case
  proof (cases "bufs = []")
    case True
    then show ?thesis by (auto intro: exI [of _ "[]"])
  next
    case False
    define chunk where "chunk = (if length bufs > pwritevMaxIOV then take pwritevMaxIOV bufs else bufs)"
    have chunk_take: "chunk = take (length chunk) bufs" and ne: "chunk \<noteq> []"
      and pages: "\<forall>b \<in> set chunk. length b = 4096" and clen: "length chunk \<le> length bufs"
      using False Suc.prems(1) by (auto simp: chunk_def pwritevMaxIOV_def dest: in_set_takeD)
    obtain res s1 where pw: "pw s chunk (int off) = (res, s1)" by fastforce
    have nn: "0 \<le> int off" by simp
    show ?thesis
    proof (cases res)
      case (Inl e)
      have "(\<exists>bs. length bs \<le> length (concat chunk) \<and> content s1 = write_bytes (content s) (nat (int off)) bs) \<and> fileSize s1 = fileSize s \<and> onDisk s1 = onDisk s"
        using spec nn pw unfolding Inl pwritev_ok_def by blast
      then obtain bs where w: "length bs \<le> length (concat chunk)" "content s1 = write_bytes (content s) (nat (int off)) bs"
        "fileSize s1 = fileSize s" "onDisk s1 = onDisk s" by blast
      have lb: "length bs \<le> 4096 * length bufs" using w(1) length_concat_pages [OF pages] clen by simp
      then have "content s1 = patch (content s) off bs" using w(2) Suc.prems(2) by (simp add: write_bytes_inside)
      note bs = lb this w(3,4)
      have "pwritevFull (Suc fuel) pw s bufs (int off) = Some (Ret (Some e, s1))"
        using Inl False pw by (simp add: chunk_def [symmetric] Let_def)
      then show ?thesis using bs by auto
    next
      case (Inr n)
      have n: "0 < n" "4096 dvd n" using gran pw Inr ne pages unfolding page_granular_def by blast+
      then obtain m where m: "n = 4096 * m" by (auto elim: dvdE)
      have w: "n \<le> length (concat chunk)" "content s1 = write_bytes (content s) (nat (int off)) (take n (concat chunk))"
        "fileSize s1 = fileSize s" "onDisk s1 = onDisk s"
        using spec nn pw Inr unfolding pwritev_ok_def by blast+
      have mle: "m \<le> length chunk" "0 < m" using w(1) n(1) m length_concat_pages [OF pages] by auto
      have tk: "take n (concat chunk) = concat (take m bufs)"
        using take_concat_pages [OF pages, of m] chunk_take mle m by (metis min.absorb1 take_take)
      have lm: "length (concat (take m bufs)) = 4096 * m"
        using Suc.prems(1) mle clen by (subst length_concat_pages) (auto dest: in_set_takeD)
      have fit: "off + 4096 * m \<le> length (content s)" using Suc.prems(2) mle clen by simp
      have c1: "content s1 = patch (content s) off (concat (take m bufs))"
        using w(2) tk lm fit by (simp add: write_bytes_inside)
      have wrap: "int64 (int off + int m * 4096) = int (off + 4096 * m)"
        using fit Suc.prems(3) by (subst int64_small) auto
      have step: "pwritevFull (Suc fuel) pw s bufs (int off) = pwritevFull fuel pw s1 (drop m bufs) (int (off + 4096 * m))"
        using False pw Inr mle clen m wrap by (simp add: chunk_def [symmetric] Let_def mult.commute)
      obtain err s' bs where rest: "pwritevFull fuel pw s1 (drop m bufs) (int (off + 4096 * m)) = Some (Ret (err, s'))"
        "fileSize s' = fileSize s1" "length bs \<le> 4096 * (length bufs - m)" "content s' = patch (content s1) (off + 4096 * m) bs"
        "err = None \<longrightarrow> bs = concat (drop m bufs)" "onDisk s' = onDisk s1"
      proof -
        have "\<forall>b \<in> set (drop m bufs). length b = 4096" using Suc.prems(1) by (auto dest: in_set_dropD)
        moreover have "off + 4096 * m + 4096 * length (drop m bufs) \<le> length (content s1)" "length (drop m bufs) < fuel"
          "length (content s1) \<le> 2 ^ 60" using Suc.prems(2-4) mle clen c1 lm fit by simp_all
        ultimately show ?thesis using Suc.IH [of "drop m bufs" "off + 4096 * m" s1] that by auto
      qed
      have "content s' = patch (content s) off (concat (take m bufs) @ bs)"
        unfolding rest(4) c1 using lm rest(3) Suc.prems(2) mle clen by (subst patch_patch_next) auto
      moreover have "concat (take m bufs) @ concat (drop m bufs) = concat bufs"
        by (metis append_take_drop_id concat_append)
      moreover have "length (concat (take m bufs) @ bs) \<le> 4096 * length bufs" using lm rest(3) mle clen by simp
      ultimately show ?thesis unfolding step
        using rest(1,2,5,6) w(3,4) by (intro exI [of _ err] exI [of _ s'] exI [of _ "concat (take m bufs) @ bs"]) auto
    qed
  qed
qed

text \<open>A short write that stops inside a page is another matter: full buffers are counted in units of pages although
  the first buffer has become shorter. When a page is written by itself no later call can make the list of buffers
  empty, so that the loop runs until a call fails.\<close>

definition never_fails :: "pwritev \<Rightarrow> bool" where
  "never_fails pw \<longleftrightarrow> (\<forall>s bufs off e s'. pw s bufs off \<noteq> (Inl e, s'))"

lemma pwritevFull_inside_page:
  assumes "pw s [b] (int off) = (Inr n, s1)" "n \<le> length b" "n < 4096" "off + n < 2 ^ 63"
  shows "pwritevFull (Suc fuel) pw s [b] (int off) =
    (if n = 0 then pwritevFull fuel pw s1 [b] (int off) else pwritevFull fuel pw s1 [drop n b] (int (off + n)))"
proof -
  have "n div 4096 = 0" "n mod 4096 = n" using assms(3) by simp_all
  moreover have "int64 (int off) = int off" "int64 (int off + int n) = int (off + n)" using assms(4) by (simp_all add: int64_small)
  ultimately show ?thesis using assms(1,2)
    by (subst pwritevFull.simps(2)) (simp add: pwritevMaxIOV_def Let_def PageSize_def del: pwritevFull.simps)
qed

lemma pwritevFull_short_buffer:
  assumes spec: "pwritev_ok pw" "never_fails pw"
  shows "length b < 4096 \<Longrightarrow> off + length b < 2 ^ 63 \<Longrightarrow> pwritevFull fuel pw s [b] (int off) = None"
proof (induction fuel arbitrary: s b off)
  case (Suc fuel)
  obtain n s1 where pw: "pw s [b] (int off) = (Inr n, s1)" using spec(2) unfolding never_fails_def by (metis sum.exhaust prod.exhaust)
  have "0 \<le> int off" by simp
  then have "n \<le> length (concat [b])" using spec(1) pw unfolding pwritev_ok_def by blast
  then have n: "n \<le> length b" by simp
  have "pwritevFull fuel pw s1 [drop n b] (int (off + n)) = None" using n Suc.prems by (intro Suc.IH) simp_all
  moreover have "pwritevFull fuel pw s1 [b] (int off) = None" using Suc.prems by (intro Suc.IH)
  moreover have "n < 4096" "off + n < 2 ^ 63" using n Suc.prems by simp_all
  note pwritevFull_inside_page [of pw s b off n s1 fuel, OF pw n this]
  ultimately show ?case by (simp only: if_cancel)
qed simp

lemma pwritevFull_partial_page_hangs:
  assumes spec: "pwritev_ok pw" "never_fails pw" and b: "length b = 4096" "off + 4096 < 2 ^ 63"
    and stop: "pw s [b] (int off) = (Inr n, s1)" "0 < n" "n < 4096"
  shows "pwritevFull fuel pw s [b] (int off) = None"
proof (cases fuel)
  case (Suc f)
  have "pwritevFull f pw s1 [drop n b] (int (off + n)) = None" using stop b by (intro pwritevFull_short_buffer [OF spec]) simp_all
  moreover have "n \<le> length b" "off + n < 2 ^ 63" using stop b by simp_all
  note pwritevFull_inside_page [of pw s b off n s1 f, OF stop(1) this(1) stop(3) this(2)]
  ultimately show ?thesis using stop(2) unfolding Suc by (simp only: if_not_P neq0_conv [symmetric])
qed simp

text \<open>A system that accepts at most 3096 bytes in a call.\<close>

definition short_pwritev :: pwritev where
  "short_pwritev s bufs off =
     (let n = min 3096 (length (concat bufs))
      in (Inr n, s\<lparr>content := write_bytes (content s) (nat off) (take n (concat bufs))\<rparr>))"

lemma short_pwritev_ok: "pwritev_ok short_pwritev" "never_fails short_pwritev"
  by (auto simp: pwritev_ok_def short_pwritev_def never_fails_def Let_def)

end
