(* ===== verification/BufferPool.thy ===== *)
theory BufferPool
  imports Storage
begin

text \<open>
  The buffer pool of \<^verbatim>\<open>src/bufferpool.go\<close>, as one goroutine at a time sees it: every call runs from
  entry to return with its locks free and the \<open>loading\<close> map empty, so the waiting and rechecking
  branches of \<open>Get\<close> are not taken. Frames are the elements of a list and a \<open>*Page\<close> is an index
  into it. \<^const>\<open>None\<close> is a call that does not return: a panic, or fuel that ran out.

  The environment record holds what lies outside: \<open>unix.Pwritev\<close>, the schedule of
  \<open>errgroup\<close> and the fuel of the loops. \<open>sched\<close> gives the order in which the flush tasks run and
  for each task whether it starts late enough to see the group's context cancelled once an earlier
  one has failed.
\<close>

section \<open>State\<close>

record Page =
  pageId :: PageId
  data :: bytes
  pinCount :: int
  usageCount :: int
  dirty :: bool
  evicting :: bool

record BufferPool =
  frames :: "Page list"
  shards :: "(PageId \<Rightarrow> nat option) list"
  clockHand :: u32
  sm :: StorageManager

record env =
  pwritev :: pwritev
  sched :: "nat list list \<Rightarrow> (nat list \<times> bool) list"
  fuel :: nat

definition tableShards :: nat where
  "tableShards = 128"

definition maxUsageCount :: int where
  "maxUsageCount = 5"

definition freePageId :: PageId where
  "freePageId = NOT 0"

definition newFrame :: Page where
  "newFrame = \<lparr>pageId = freePageId, data = replicate PageSize 0, pinCount = 0, usageCount = 0,
     dirty = False, evicting = False\<rparr>"

definition NewBufferPool :: "StorageManager \<Rightarrow> nat \<Rightarrow> BufferPool" where
  "NewBufferPool s n = \<lparr>frames = replicate n newFrame, shards = replicate tableShards (\<lambda>_. None),
     clockHand = 0, sm = s\<rparr>"

definition set_frame :: "nat \<Rightarrow> (Page \<Rightarrow> Page) \<Rightarrow> BufferPool \<Rightarrow> BufferPool" where
  "set_frame f u bp = bp\<lparr>frames := (frames bp)[f := u (frames bp ! f)]\<rparr>"

text \<open>\<open>getPageTable\<close>, and lookup, insertion and deletion in the map it returns.\<close>

definition getPageTable :: "PageId \<Rightarrow> nat" where
  "getPageTable pid = unat (pid mod of_nat tableShards)"

definition table_get :: "BufferPool \<Rightarrow> PageId \<Rightarrow> nat option" where
  "table_get bp pid = (shards bp ! getPageTable pid) pid"

definition table_set :: "PageId \<Rightarrow> nat option \<Rightarrow> BufferPool \<Rightarrow> BufferPool" where
  "table_set pid v bp = bp\<lparr>shards := (shards bp)[getPageTable pid := (shards bp ! getPageTable pid)(pid := v)]\<rparr>"

text \<open>The bytes of a page as its holder writes them.\<close>

definition set_data :: "nat \<Rightarrow> bytes \<Rightarrow> BufferPool \<Rightarrow> BufferPool" where
  "set_data f d bp = set_frame f (\<lambda>p. p\<lparr>data := d\<rparr>) bp"

section \<open>Pins\<close>

definition Unpin :: "BufferPool \<Rightarrow> nat \<Rightarrow> BufferPool option" where
  "Unpin bp f =
     (if pinCount (frames bp ! f) \<le> 0 then None
      else Some (set_frame f (\<lambda>p. p\<lparr>pinCount := pinCount p - 1\<rparr>) bp))"

section \<open>Eviction\<close>

fun evictFrame_loop :: "nat \<Rightarrow> BufferPool \<Rightarrow> int \<Rightarrow> ((error + nat) \<times> BufferPool) option" where
  "evictFrame_loop 0 bp tries = None"
| "evictFrame_loop (Suc n) bp tries =
     (if frames bp = [] then None
      else
        (let hand = clockHand bp + 1;
             bp = bp\<lparr>clockHand := hand\<rparr>;
             f = unat ((hand - 1) mod of_nat (length (frames bp)));
             frame = frames bp ! f
         in if evicting frame then evictFrame_loop n bp tries
            else if pageId frame = freePageId then
              Some (Inr f, set_frame f (\<lambda>p. p\<lparr>evicting := True\<rparr>) bp)
            else if pinCount frame = 0 then
              (if usageCount frame \<noteq> 0
               then evictFrame_loop n (set_frame f (\<lambda>p. p\<lparr>usageCount := usageCount p - 1\<rparr>) bp)
                      (int (length (frames bp)))
               else Some (Inr f, set_frame f (\<lambda>p. p\<lparr>evicting := True\<rparr>) bp))
            else if tries - 1 = 0 then Some (Inl ErrBufferExhausted, bp)
            else evictFrame_loop n bp (tries - 1)))"

definition evictFrame :: "env \<Rightarrow> BufferPool \<Rightarrow> ((error + nat) \<times> BufferPool) option" where
  "evictFrame env bp = evictFrame_loop (fuel env) bp (int (length (frames bp)))"

text \<open>\<open>acquireFrame\<close>: the retry when the victim was pinned meanwhile consumes fuel.\<close>

fun acquireFrame_loop :: "nat \<Rightarrow> env \<Rightarrow> BufferPool \<Rightarrow> ((error + nat) \<times> BufferPool) option" where
  "acquireFrame_loop 0 env bp = None"
| "acquireFrame_loop (Suc n) env bp = do {
     (res, bp) \<leftarrow> evictFrame env bp;
     case res of
       Inl e \<Rightarrow> Some (Inl e, bp)
     | Inr f \<Rightarrow>
         (let victim = frames bp ! f
          in if pageId victim = freePageId then Some (Inr f, bp)
             else do {
               let oldPageId = pageId victim;
               (err, bp) \<leftarrow>
                 (if dirty victim then do {
                    (err, s) \<leftarrow> WritePage (sm bp) oldPageId (data victim);
                    Some (err, bp\<lparr>sm := s\<rparr>)
                  } else Some (None, bp));
               case err of
                 Some e \<Rightarrow> Some (Inl e, set_frame f (\<lambda>p. p\<lparr>evicting := False\<rparr>) bp)
               | None \<Rightarrow>
                   if pinCount (frames bp ! f) > 0
                   then acquireFrame_loop n env (set_frame f (\<lambda>p. p\<lparr>dirty := False, evicting := False\<rparr>) bp)
                   else Some (Inr f, set_frame f (\<lambda>p. p\<lparr>pageId := freePageId, dirty := False\<rparr>)
                                       (table_set oldPageId None bp))
             })
   }"

definition acquireFrame :: "env \<Rightarrow> BufferPool \<Rightarrow> ((error + nat) \<times> BufferPool) option" where
  "acquireFrame env bp = acquireFrame_loop (fuel env) env bp"

definition releaseToFree :: "nat \<Rightarrow> BufferPool \<Rightarrow> BufferPool" where
  "releaseToFree f bp =
     set_frame f (\<lambda>p. p\<lparr>pageId := freePageId, pinCount := 0, usageCount := 0, dirty := False, evicting := False\<rparr>) bp"

section \<open>Getting pages\<close>

definition loadAndInstall :: "env \<Rightarrow> BufferPool \<Rightarrow> PageId \<Rightarrow> ((error + nat) \<times> BufferPool) option" where
  "loadAndInstall env bp pid = do {
     (res, bp) \<leftarrow> acquireFrame env bp;
     case res of
       Inl e \<Rightarrow> Some (Inl e, bp)
     | Inr f \<Rightarrow> do {
         (err, buf, s) \<leftarrow> ReadPage (sm bp) pid (data (frames bp ! f));
         let bp = set_frame f (\<lambda>p. p\<lparr>data := buf\<rparr>) (bp\<lparr>sm := s\<rparr>);
         case err of
           Some e \<Rightarrow> Some (Inl e, releaseToFree f bp)
         | None \<Rightarrow>
             Some (Inr f, table_set pid (Some f)
               (set_frame f (\<lambda>p. p\<lparr>pageId := pid, pinCount := 1, usageCount := maxUsageCount, evicting := False\<rparr>) bp))
       }
   }"

definition Get :: "env \<Rightarrow> BufferPool \<Rightarrow> PageId \<Rightarrow> ((error + nat) \<times> BufferPool) option" where
  "Get env bp pid =
     (case table_get bp pid of
        Some f \<Rightarrow> Some (Inr f, set_frame f (\<lambda>p. p\<lparr>pinCount := pinCount p + 1, usageCount := maxUsageCount\<rparr>) bp)
      | None \<Rightarrow> loadAndInstall env bp pid)"

definition GetForWrite :: "env \<Rightarrow> BufferPool \<Rightarrow> PageId \<Rightarrow> ((error + nat) \<times> BufferPool) option" where
  "GetForWrite env bp pid =
     (case table_get bp pid of
        Some f \<Rightarrow>
          if evicting (frames bp ! f) \<or> pinCount (frames bp ! f) > 0 then Some (Inl ErrInvalidWrite, bp)
          else Some (Inr f, set_frame f (\<lambda>p. p\<lparr>pinCount := 1, usageCount := maxUsageCount, dirty := True\<rparr>) bp)
      | None \<Rightarrow> do {
          (res, bp) \<leftarrow> acquireFrame env bp;
          case res of
            Inl e \<Rightarrow> Some (Inl e, bp)
          | Inr f \<Rightarrow>
              Some (Inr f, table_set pid (Some f)
                (set_frame f (\<lambda>p. p\<lparr>pageId := pid, pinCount := 1, usageCount := maxUsageCount, dirty := True,
                   evicting := False\<rparr>) bp))
        })"

definition AllocatePage :: "env \<Rightarrow> BufferPool \<Rightarrow> PageId \<Rightarrow> ((error + nat) \<times> BufferPool) option" where
  "AllocatePage env bp pid = do {
     (err, s) \<leftarrow> Allocate (fuel env) (sm bp) pid;
     let bp = bp\<lparr>sm := s\<rparr>;
     case err of
       Some e \<Rightarrow> Some (Inl e, bp)
     | None \<Rightarrow> GetForWrite env bp pid
   }"

section \<open>Flushing\<close>

definition FlushPage :: "BufferPool \<Rightarrow> PageId \<Rightarrow> (error option \<times> BufferPool) option" where
  "FlushPage bp pid =
     (case table_get bp pid of
        None \<Rightarrow> Some (None, bp)
      | Some f \<Rightarrow>
          if evicting (frames bp ! f) \<or> \<not> dirty (frames bp ! f) then Some (None, bp)
          else do {
            (err, s) \<leftarrow> WritePage (sm bp) pid (data (frames bp ! f));
            let bp = bp\<lparr>sm := s\<rparr>;
            case err of
              Some e \<Rightarrow> Some (Some e, bp)
            | None \<Rightarrow> Some (None, if evicting (frames bp ! f) then bp else set_frame f (\<lambda>p. p\<lparr>dirty := False\<rparr>) bp)
          })"

text \<open>The runs of frames with consecutive page ids in the sorted list of dirty frames.\<close>

fun take_run :: "BufferPool \<Rightarrow> nat \<Rightarrow> nat list \<Rightarrow> nat list \<times> nat list" where
  "take_run bp prev [] = ([], [])"
| "take_run bp prev (f # fs) =
     (if pageId (frames bp ! f) = pageId (frames bp ! prev) + 1
      then (let (run, rest) = take_run bp f fs in (f # run, rest))
      else ([], f # fs))"

lemma take_run_length: "length (snd (take_run bp prev fs)) \<le> length fs"
  by (induction bp prev fs rule: take_run.induct) (auto simp: split_beta Let_def)

function flush_runs :: "BufferPool \<Rightarrow> nat list \<Rightarrow> nat list list" where
  "flush_runs bp [] = []"
| "flush_runs bp (f # fs) = (f # fst (take_run bp f fs)) # flush_runs bp (snd (take_run bp f fs))"
  by pat_completeness auto
termination
proof (relation "measure (\<lambda>(bp, fs). length fs)")
  fix bp f fs
  show "((bp, snd (take_run bp f fs)), (bp, f # fs)) \<in> measure (\<lambda>(bp, fs). length fs)"
    using take_run_length [of bp f fs] by simp
qed simp

text \<open>One task of the group: write the run, then mark its frames clean.\<close>

definition flush_task :: "env \<Rightarrow> BufferPool \<Rightarrow> nat list \<Rightarrow> (error option \<times> BufferPool) option" where
  "flush_task env bp run =
     (case WritePagesContiguous (fuel env) (pwritev env) (sm bp) (pageId (frames bp ! hd run))
             (map (\<lambda>f. data (frames bp ! f)) run) of
        None \<Rightarrow> None
      | Some Panics \<Rightarrow> None
      | Some (Ret (err, s)) \<Rightarrow>
          (let bp = bp\<lparr>sm := s\<rparr>
           in case err of
                Some e \<Rightarrow> Some (Some e, bp)
              | None \<Rightarrow>
                  Some (None, foldl (\<lambda>bp f. if evicting (frames bp ! f) then bp
                                            else set_frame f (\<lambda>p. p\<lparr>dirty := False\<rparr>) bp) bp run)))"

text \<open>\<open>g.Wait()\<close>: the first error of the group, if any.\<close>

fun flush_tasks :: "env \<Rightarrow> error option \<Rightarrow> BufferPool \<Rightarrow> (nat list \<times> bool) list \<Rightarrow> (error option \<times> BufferPool) option" where
  "flush_tasks env first bp [] = Some (first, bp)"
| "flush_tasks env first bp ((run, late) # rs) =
     (if first \<noteq> None \<and> late then flush_tasks env first bp rs
      else do {
        (err, bp) \<leftarrow> flush_task env bp run;
        flush_tasks env (if first = None then err else first) bp rs
      })"

definition flushDirty :: "env \<Rightarrow> BufferPool \<Rightarrow> nat list \<Rightarrow> (error option \<times> BufferPool) option" where
  "flushDirty env bp ds =
     (if ds = [] then Some (None, bp)
      else flush_tasks env None bp (sched env (flush_runs bp (sort_key (\<lambda>f. pageId (frames bp ! f)) ds))))"

definition FlushPages :: "env \<Rightarrow> BufferPool \<Rightarrow> PageId list \<Rightarrow> (error option \<times> BufferPool) option" where
  "FlushPages env bp pids =
     flushDirty env bp
       (concat (map (\<lambda>pid. case table_get bp pid of
                            None \<Rightarrow> []
                          | Some f \<Rightarrow> if evicting (frames bp ! f) \<or> \<not> dirty (frames bp ! f) then [] else [f]) pids))"

definition FlushAll :: "env \<Rightarrow> BufferPool \<Rightarrow> (error option \<times> BufferPool) option" where
  "FlushAll env bp =
     flushDirty env bp (filter (\<lambda>f. \<not> (evicting (frames bp ! f) \<or> \<not> dirty (frames bp ! f))) [0..<length (frames bp)])"

definition MarkClean :: "BufferPool \<Rightarrow> PageId \<Rightarrow> BufferPool" where
  "MarkClean bp pid =
     (case table_get bp pid of
        None \<Rightarrow> bp
      | Some f \<Rightarrow> set_frame f (\<lambda>p. p\<lparr>dirty := False\<rparr>) bp)"

definition SyncPool :: "BufferPool \<Rightarrow> error option \<times> BufferPool" where
  "SyncPool bp = (let (err, s) = Sync (sm bp) in (err, bp\<lparr>sm := s\<rparr>))"

text \<open>\<open>Close\<close> joins the errors of its three steps; the result lists those that failed.\<close>

definition ClosePool :: "env \<Rightarrow> BufferPool \<Rightarrow> (error list \<times> BufferPool) option" where
  "ClosePool env bp = do {
     (flushErr, bp) \<leftarrow> FlushAll env bp;
     let (syncErr, s) = Sync (sm bp);
     let (closeErr, s) = CloseStorage s;
     Some (List.map_filter id [flushErr, syncErr, closeErr], bp\<lparr>sm := s\<rparr>)
   }"

end
