(* ===== verification/PoolInv.thy ===== *)
theory PoolInv
  imports BufferPool
begin

text \<open>
  The invariant of the buffer pool and what its operations promise: a page is seen through the
  pool as the frame that caches it or, when none does, as the file's bytes. Eviction, loading and
  flushing do not change what is seen, and never touch a pinned frame.
\<close>

section \<open>Updates\<close>

lemma set_frame_simps [simp]:
  "length (frames (set_frame f u bp)) = length (frames bp)" "shards (set_frame f u bp) = shards bp"
  "sm (set_frame f u bp) = sm bp" "clockHand (set_frame f u bp) = clockHand bp"
  "frames (set_frame f u bp) = [] \<longleftrightarrow> frames bp = []"
  by (simp_all add: set_frame_def)

lemma nth_set_frame:
  "g < length (frames bp) \<Longrightarrow> frames (set_frame f u bp) ! g = (if g = f then u (frames bp ! f) else frames bp ! g)"
  by (simp add: set_frame_def nth_list_update)

lemma table_get_cong: "shards bp' = shards bp \<Longrightarrow> table_get bp' pid = table_get bp pid"
  by (simp add: table_get_def)

lemma table_get_set_frame [simp]: "table_get (set_frame f u bp) = table_get bp"
  by (simp add: table_get_def fun_eq_iff)

lemma table_get_upd [simp]:
  "table_get (bp\<lparr>sm := s\<rparr>) = table_get bp" "table_get (bp\<lparr>clockHand := h\<rparr>) = table_get bp"
  by (simp_all add: table_get_def fun_eq_iff)

lemma table_set_simps [simp]:
  "frames (table_set pid v bp) = frames bp" "sm (table_set pid v bp) = sm bp"
  "length (shards (table_set pid v bp)) = length (shards bp)"
  by (simp_all add: table_set_def)

lemma getPageTable_less: "getPageTable pid < 128"
  by (simp add: getPageTable_def tableShards_def unat_mod)

lemma table_get_table_set:
  "length (shards bp) = 128 \<Longrightarrow> table_get (table_set pid v bp) q = (if q = pid then v else table_get bp q)"
  using getPageTable_less [of pid] getPageTable_less [of q]
  by (auto simp: table_get_def table_set_def nth_list_update)

section \<open>The invariant\<close>

text \<open>Frames at rest, and frames between \<open>acquireFrame\<close> and their installation (the set \<open>A\<close>).\<close>

definition frame_ok :: "Page \<Rightarrow> bool" where
  "frame_ok p \<longleftrightarrow> length (data p) = 4096 \<and> 0 \<le> pinCount p \<and> 0 \<le> usageCount p \<and> usageCount p \<le> 5 \<and>
     (pageId p = freePageId \<longrightarrow> pinCount p = 0 \<and> \<not> dirty p)"

definition pool_inv :: "BufferPool \<Rightarrow> nat set \<Rightarrow> bool" where
  "pool_inv bp A \<longleftrightarrow> length (shards bp) = 128 \<and> frames bp \<noteq> [] \<and> length (frames bp) < 2 ^ 32 \<and>
     (\<forall>f < length (frames bp). frame_ok (frames bp ! f) \<and> (evicting (frames bp ! f) \<longleftrightarrow> f \<in> A) \<and>
        (f \<in> A \<longrightarrow> pageId (frames bp ! f) = freePageId)) \<and>
     (\<forall>pid f. table_get bp pid = Some f \<longleftrightarrow>
        f < length (frames bp) \<and> pageId (frames bp ! f) = pid \<and> pid \<noteq> freePageId) \<and>
     sm_ok (sm bp) \<and>
     (\<forall>f < length (frames bp). pageId (frames bp ! f) \<noteq> freePageId \<longrightarrow> in_file (sm bp) (pageId (frames bp ! f)))"

text \<open>Clean frames hold what the file holds, except for the pages in \<open>S\<close>: those an aborted
  transaction wrote and then marked clean.\<close>

definition clean_ok :: "BufferPool \<Rightarrow> PageId set \<Rightarrow> bool" where
  "clean_ok bp S \<longleftrightarrow>
     (\<forall>f < length (frames bp). pageId (frames bp ! f) \<noteq> freePageId \<longrightarrow> \<not> dirty (frames bp ! f) \<longrightarrow>
        pageId (frames bp ! f) \<notin> S \<longrightarrow> data (frames bp ! f) = page_at (sm bp) (pageId (frames bp ! f)))"

definition view :: "BufferPool \<Rightarrow> PageId \<Rightarrow> bytes" where
  "view bp pid = (case table_get bp pid of Some f \<Rightarrow> data (frames bp ! f) | None \<Rightarrow> page_at (sm bp) pid)"

text \<open>How pins move: frame \<open>g\<close> gains \<open>\<delta> g\<close> pins, and pinned frames keep their page.\<close>

definition handles :: "(nat \<Rightarrow> int) \<Rightarrow> BufferPool \<Rightarrow> BufferPool \<Rightarrow> bool" where
  "handles \<delta> bp bp' \<longleftrightarrow> length (frames bp') = length (frames bp) \<and>
     (\<forall>g < length (frames bp). pinCount (frames bp' ! g) = pinCount (frames bp ! g) + \<delta> g \<and>
        (0 < pinCount (frames bp ! g) \<longrightarrow> pageId (frames bp' ! g) = pageId (frames bp ! g) \<and>
           data (frames bp' ! g) = data (frames bp ! g) \<and> dirty (frames bp' ! g) = dirty (frames bp ! g)))"

abbreviation keeps_pinned :: "BufferPool \<Rightarrow> BufferPool \<Rightarrow> bool" where
  "keeps_pinned \<equiv> handles (\<lambda>_. 0)"

definition same_view :: "PageId set \<Rightarrow> BufferPool \<Rightarrow> BufferPool \<Rightarrow> bool" where
  "same_view S bp bp' \<longleftrightarrow> length (content (sm bp)) \<le> length (content (sm bp')) \<and>
     (\<forall>pid. in_file (sm bp) pid \<longrightarrow> pid \<notin> S \<longrightarrow> view bp' pid = view bp pid)"

lemma keeps_pinned_refl [simp]: "keeps_pinned bp bp"
  by (simp add: handles_def)

lemma handles_trans:
  assumes "handles \<delta> a b" "handles \<epsilon> b c" "\<And>g. g < length (frames a) \<Longrightarrow> 0 < pinCount (frames a ! g) \<Longrightarrow> 0 < pinCount (frames a ! g) + \<delta> g"
  shows "handles (\<lambda>g. \<delta> g + \<epsilon> g) a c"
  using assms by (auto simp: handles_def)

lemma keeps_pinned_trans: "keeps_pinned a b \<Longrightarrow> keeps_pinned b c \<Longrightarrow> keeps_pinned a c"
  using handles_trans [of "\<lambda>_. 0" a b "\<lambda>_. 0" c] by simp

lemma in_file_cong: "length (content s') = length (content s) \<Longrightarrow> in_file s' pid = in_file s pid"
  by (simp add: in_file_def)

lemma in_file_mono: "length (content s) \<le> length (content s') \<Longrightarrow> in_file s pid \<Longrightarrow> in_file s' pid"
  by (simp add: in_file_def)

lemma same_view_refl [simp]: "same_view S bp bp"
  by (simp add: same_view_def)

lemma same_view_trans: "same_view S a b \<Longrightarrow> same_view S b c \<Longrightarrow> same_view S a c"
  by (auto simp: same_view_def in_file_def)

lemma pool_invD:
  assumes "pool_inv bp A"
  shows "length (shards bp) = 128" "frames bp \<noteq> []" "length (frames bp) < 2 ^ 32" "sm_ok (sm bp)"
    "f < length (frames bp) \<Longrightarrow> frame_ok (frames bp ! f)"
    "f < length (frames bp) \<Longrightarrow> evicting (frames bp ! f) \<longleftrightarrow> f \<in> A"
    "f < length (frames bp) \<Longrightarrow> f \<in> A \<Longrightarrow> pageId (frames bp ! f) = freePageId"
    "f < length (frames bp) \<Longrightarrow> pageId (frames bp ! f) \<noteq> freePageId \<Longrightarrow> in_file (sm bp) (pageId (frames bp ! f))"
    "table_get bp pid = Some f \<longleftrightarrow> f < length (frames bp) \<and> pageId (frames bp ! f) = pid \<and> pid \<noteq> freePageId"
  using assms by (simp_all add: pool_inv_def)

lemma frames_distinct_pages:
  assumes "pool_inv bp A" "f < length (frames bp)" "g < length (frames bp)"
    "pageId (frames bp ! f) = pageId (frames bp ! g)" "pageId (frames bp ! f) \<noteq> freePageId"
  shows "f = g"
  using pool_invD(9) [OF assms(1), of "pageId (frames bp ! f)" f] pool_invD(9) [OF assms(1), of "pageId (frames bp ! f)" g] assms
  by simp

lemma view_same:
  assumes "pool_inv bp A" "table_get bp' pid = table_get bp pid"
    "\<And>g. g < length (frames bp) \<Longrightarrow> table_get bp pid = Some g \<Longrightarrow> data (frames bp' ! g) = data (frames bp ! g)"
    "table_get bp pid = None \<Longrightarrow> page_at (sm bp') pid = page_at (sm bp) pid"
  shows "view bp' pid = view bp pid"
proof (cases "table_get bp pid")
  case None
  then show ?thesis using assms(2,4) by (simp add: view_def)
next
  case (Some g)
  then have "g < length (frames bp)" using pool_invD(9) [OF assms(1), of pid g] by simp
  then show ?thesis using Some assms(2,3) by (simp add: view_def)
qed

section \<open>Choosing a victim\<close>

text \<open>The clock changes use counts of unpinned frames and its hand, nothing else.\<close>

definition aged :: "BufferPool \<Rightarrow> BufferPool \<Rightarrow> bool" where
  "aged bp bp' \<longleftrightarrow> length (frames bp') = length (frames bp) \<and> shards bp' = shards bp \<and> sm bp' = sm bp \<and>
     (\<forall>g < length (frames bp). \<exists>u. 0 \<le> u \<and> u \<le> usageCount (frames bp ! g) \<and>
        frames bp' ! g = (frames bp ! g)\<lparr>usageCount := u\<rparr> \<and>
        (0 < pinCount (frames bp ! g) \<longrightarrow> u = usageCount (frames bp ! g)))"

definition usage_total :: "BufferPool \<Rightarrow> nat" where
  "usage_total bp = (\<Sum>p\<leftarrow>frames bp. nat (usageCount p))"

lemma aged_refl: "(\<And>g. g < length (frames bp) \<Longrightarrow> 0 \<le> usageCount (frames bp ! g)) \<Longrightarrow> aged bp bp"
  unfolding aged_def by (metis Page.surjective Page.update_convs(4) order_refl)

lemma usage_total_dec:
  assumes "f < length (frames bp)" "0 < usageCount (frames bp ! f)"
  shows "Suc (usage_total (set_frame f (\<lambda>p. p\<lparr>usageCount := usageCount p - 1\<rparr>) bp)) = usage_total bp"
proof -
  let ?u = "map (\<lambda>p. nat (usageCount p)) (frames bp)"
  have "map (\<lambda>p. nat (usageCount p)) (frames (set_frame f (\<lambda>p. p\<lparr>usageCount := usageCount p - 1\<rparr>) bp)) =
      ?u[f := ?u ! f - 1]"
    using assms by (simp add: set_frame_def map_update nat_diff_distrib')
  moreover have "?u ! f \<le> sum_list ?u" using assms by (intro member_le_sum_list) simp_all
  ultimately show ?thesis using assms by (simp add: usage_total_def sum_list_update)
qed

lemma aged_trans:
  assumes "aged a b" "aged b c"
  shows "aged a c"
  unfolding aged_def
proof (intro conjI allI impI)
  show "length (frames c) = length (frames a)" "shards c = shards a" "sm c = sm a"
    using assms by (simp_all add: aged_def)
  fix g assume g: "g < length (frames a)"
  then obtain u where u: "0 \<le> u" "u \<le> usageCount (frames a ! g)" "frames b ! g = (frames a ! g)\<lparr>usageCount := u\<rparr>"
    "0 < pinCount (frames a ! g) \<longrightarrow> u = usageCount (frames a ! g)"
    using assms(1) by (auto simp: aged_def)
  have gb: "g < length (frames b)" using g assms(1) by (simp add: aged_def)
  then obtain v where v: "0 \<le> v" "v \<le> usageCount (frames b ! g)" "frames c ! g = (frames b ! g)\<lparr>usageCount := v\<rparr>"
    "0 < pinCount (frames b ! g) \<longrightarrow> v = usageCount (frames b ! g)"
    using assms(2) by (auto simp: aged_def)
  then show "\<exists>u. 0 \<le> u \<and> u \<le> usageCount (frames a ! g) \<and> frames c ! g = (frames a ! g)\<lparr>usageCount := u\<rparr> \<and>
      (0 < pinCount (frames a ! g) \<longrightarrow> u = usageCount (frames a ! g))"
    using u by (intro exI [of _ v]) auto
qed

lemma aged_tick: "(\<And>g. g < length (frames bp) \<Longrightarrow> 0 \<le> usageCount (frames bp ! g)) \<Longrightarrow> aged bp (bp\<lparr>clockHand := h\<rparr>)"
  using aged_refl [of bp] by (simp add: aged_def)

lemma aged_dec:
  assumes "\<And>g. g < length (frames bp) \<Longrightarrow> 0 \<le> usageCount (frames bp ! g)"
    "f < length (frames bp)" "pinCount (frames bp ! f) = 0" "usageCount (frames bp ! f) \<noteq> 0"
  shows "aged bp (set_frame f (\<lambda>p. p\<lparr>usageCount := usageCount p - 1\<rparr>) bp)"
proof -
  have "0 < usageCount (frames bp ! f)" using assms(1) [OF assms(2)] assms(4) by simp
  moreover have "aged bp bp" using assms(1) by (rule aged_refl)
  ultimately show ?thesis using assms(2,3) by (auto simp: aged_def nth_set_frame intro: exI [of _ "usageCount (frames bp ! f) - 1"])
qed

definition evict_done :: "BufferPool \<Rightarrow> ((error + nat) \<times> BufferPool) option \<Rightarrow> bool" where
  "evict_done bp r \<longleftrightarrow>
     (\<exists>bp'. r = Some (Inl ErrBufferExhausted, bp') \<and> aged bp bp') \<or>
     (\<exists>f bp1. r = Some (Inr f, set_frame f (\<lambda>p. p\<lparr>evicting := True\<rparr>) bp1) \<and> aged bp bp1 \<and>
        f < length (frames bp) \<and> pinCount (frames bp ! f) = 0)"

lemma evict_done_aged: "aged bp bp1 \<Longrightarrow> evict_done bp1 r \<Longrightarrow> evict_done bp r"
proof -
  assume a: "aged bp bp1" "evict_done bp1 r"
  have "pinCount (frames bp1 ! f) = pinCount (frames bp ! f)" "length (frames bp1) = length (frames bp)"
    if "f < length (frames bp)" for f
    using a(1) that by (auto simp: aged_def)
  moreover have "length (frames bp1) = length (frames bp)" using a(1) by (simp add: aged_def)
  ultimately show ?thesis using a(2) aged_trans [OF a(1)] unfolding evict_done_def by metis
qed

lemma usage_total_tick [simp]: "usage_total (bp\<lparr>clockHand := h\<rparr>) = usage_total bp"
  by (simp add: usage_total_def)

lemma evictFrame_loop_done:
  "frames bp \<noteq> [] \<Longrightarrow> length (frames bp) < 2 ^ 32 \<Longrightarrow> 0 < tries \<Longrightarrow> tries \<le> int (length (frames bp)) \<Longrightarrow>
   (\<And>g. g < length (frames bp) \<Longrightarrow> frame_ok (frames bp ! g) \<and> \<not> evicting (frames bp ! g)) \<Longrightarrow>
   usage_total bp * Suc (length (frames bp)) + nat tries < n \<Longrightarrow>
   evict_done bp (evictFrame_loop n bp tries)"
proof (induction n arbitrary: bp tries)
  case 0
  then show ?case by simp
next
  case (Suc n)
  let ?f = "unat ((clockHand bp + 1 - 1) mod of_nat (length (frames bp)))"
  let ?bp = "bp\<lparr>clockHand := clockHand bp + 1\<rparr>"
  have nn: "\<And>g. g < length (frames bp) \<Longrightarrow> 0 \<le> usageCount (frames bp ! g)"
    using Suc.prems(5) by (simp add: frame_ok_def)
  have "unat (of_nat (length (frames bp)) :: u32) = length (frames bp)"
    using Suc.prems(2) by (simp add: unat_of_nat)
  then have f: "?f < length (frames bp)" using Suc.prems(1) by (simp add: unat_mod)
  have ok: "frame_ok (frames bp ! ?f)" "\<not> evicting (frames bp ! ?f)" using Suc.prems(5) [OF f] by auto
  have tick: "aged bp ?bp" using nn by (rule aged_tick)
  have free: "pinCount (frames bp ! ?f) = 0" if "pageId (frames bp ! ?f) = freePageId"
    using ok(1) that by (simp add: frame_ok_def)
  let ?dec = "set_frame ?f (\<lambda>p. p\<lparr>usageCount := usageCount p - 1\<rparr>) ?bp"
  consider (victim) "pinCount (frames bp ! ?f) = 0" "pageId (frames bp ! ?f) = freePageId \<or> usageCount (frames bp ! ?f) = 0"
    | (age) "pageId (frames bp ! ?f) \<noteq> freePageId" "pinCount (frames bp ! ?f) = 0" "usageCount (frames bp ! ?f) \<noteq> 0"
    | (pinned) "pageId (frames bp ! ?f) \<noteq> freePageId" "pinCount (frames bp ! ?f) \<noteq> 0"
    using free by blast
  then show ?case
  proof cases
    case victim
    then show ?thesis using Suc.prems(1) ok tick f
      by (auto simp: evict_done_def Let_def intro: exI [of _ ?bp])
  next
    case age
    have pos: "0 < usageCount (frames ?bp ! ?f)" using age(3) nn [OF f] by simp
    have ad: "aged ?bp ?dec" using aged_dec [of ?bp ?f] nn f age by simp
    have dec: "usage_total bp = Suc (usage_total ?dec)" using usage_total_dec [of ?f ?bp] f pos by simp
    have "usage_total ?dec * Suc (length (frames bp)) + nat (int (length (frames bp))) < n"
      using Suc.prems(3,6) unfolding dec mult_Suc by linarith
    moreover have "frame_ok (frames ?dec ! g) \<and> \<not> evicting (frames ?dec ! g)" if "g < length (frames bp)" for g
      using Suc.prems(5) [OF that] that pos by (auto simp: nth_set_frame frame_ok_def)
    ultimately have "evict_done ?dec (evictFrame_loop n ?dec (int (length (frames bp))))"
      using Suc.prems(1,2) by (intro Suc.IH) simp_all
    then have "evict_done bp (evictFrame_loop n ?dec (int (length (frames bp))))"
      using evict_done_aged aged_trans [OF tick ad] by blast
    then show ?thesis using Suc.prems(1) ok age by (simp add: Let_def)
  next
    case pinned
    show ?thesis
    proof (cases "tries - 1 = 0")
      case True
      then show ?thesis using Suc.prems(1) ok pinned tick by (simp add: evict_done_def Let_def)
    next
      case False
      have "evict_done ?bp (evictFrame_loop n ?bp (tries - 1))"
        using Suc.prems False by (intro Suc.IH) auto
      then show ?thesis using Suc.prems(1) ok pinned False evict_done_aged [OF tick] by (simp add: Let_def)
    qed
  qed
qed

section \<open>What reaches the file\<close>

text \<open>The only pages a step writes to the file are those that were dirty or that it makes dirty,
  and the only ones it makes dirty are those in \<open>W\<close>. It syncs nothing.\<close>

definition dirty_pages :: "BufferPool \<Rightarrow> PageId set" where
  "dirty_pages bp = {pageId (frames bp ! f) |f. f < length (frames bp) \<and> dirty (frames bp ! f)}"

definition quiet :: "PageId set \<Rightarrow> BufferPool \<Rightarrow> BufferPool \<Rightarrow> bool" where
  "quiet W bp bp' \<longleftrightarrow> length (content (sm bp)) \<le> length (content (sm bp')) \<and>
     dirty_pages bp' \<subseteq> dirty_pages bp \<union> W \<and>
     (\<forall>q. in_file (sm bp) q \<longrightarrow> q \<notin> dirty_pages bp \<union> W \<longrightarrow> page_at (sm bp') q = page_at (sm bp) q) \<and>
     onDisk (sm bp') = onDisk (sm bp)"

lemma quietI:
  assumes "length (frames bp') = length (frames bp)" "length (content (sm bp)) \<le> length (content (sm bp'))"
    "\<And>g. g < length (frames bp) \<Longrightarrow> dirty (frames bp' ! g) \<Longrightarrow>
       pageId (frames bp' ! g) \<in> W \<or> dirty (frames bp ! g) \<and> pageId (frames bp' ! g) = pageId (frames bp ! g)"
    "\<And>q. in_file (sm bp) q \<Longrightarrow> q \<notin> dirty_pages bp \<Longrightarrow> page_at (sm bp') q = page_at (sm bp) q" "onDisk (sm bp') = onDisk (sm bp)"
  shows "quiet W bp bp'"
  using assms unfolding quiet_def dirty_pages_def by force

lemma quiet_refl [simp]: "quiet W bp bp"
  by (simp add: quiet_def)

lemma quiet_trans:
  assumes "quiet W a b" "quiet W b c"
  shows "quiet W a c"
proof -
  have "page_at (sm c) q = page_at (sm a) q" if q: "in_file (sm a) q" "q \<notin> dirty_pages a \<union> W" for q
  proof -
    have "in_file (sm b) q" "q \<notin> dirty_pages b \<union> W"
      using q assms(1) in_file_mono [of "sm a" "sm b" q] unfolding quiet_def by blast+
    then show ?thesis using q assms unfolding quiet_def by metis
  qed
  moreover have "dirty_pages c \<subseteq> dirty_pages a \<union> W" using assms unfolding quiet_def by blast
  moreover have "length (content (sm a)) \<le> length (content (sm c))" "onDisk (sm c) = onDisk (sm a)" using assms unfolding quiet_def by simp_all
  ultimately show ?thesis unfolding quiet_def by blast
qed

lemma quiet_mono: "quiet W a b \<Longrightarrow> W \<subseteq> W' \<Longrightarrow> quiet W' a b"
  unfolding quiet_def by blast

lemma dirty_pagesI: "f < length (frames bp) \<Longrightarrow> dirty (frames bp ! f) \<Longrightarrow> pageId (frames bp ! f) \<in> dirty_pages bp"
  by (auto simp: dirty_pages_def)

lemma dirty_pages_cached:
  assumes "pool_inv bp A" "q \<in> dirty_pages bp"
  obtains f where "table_get bp q = Some f" "f < length (frames bp)" "pageId (frames bp ! f) = q" "dirty (frames bp ! f)"
proof -
  obtain f where f: "f < length (frames bp)" "pageId (frames bp ! f) = q" "dirty (frames bp ! f)"
    using assms(2) by (auto simp: dirty_pages_def)
  then have "q \<noteq> freePageId" using pool_invD(5) [OF assms(1) f(1)] by (auto simp: frame_ok_def)
  then show thesis using that f pool_invD(9) [OF assms(1), of q f] by blast
qed

section \<open>Freeing a frame\<close>

definition step_ok :: "PageId set \<Rightarrow> BufferPool \<Rightarrow> BufferPool \<Rightarrow> nat set \<Rightarrow> bool" where
  "step_ok S bp bp' A \<longleftrightarrow> pool_inv bp' A \<and> clean_ok bp' S \<and> same_view S bp bp' \<and> keeps_pinned bp bp' \<and>
     quiet {} bp bp' \<and> (\<forall>q. table_get bp q = None \<longrightarrow> table_get bp' q = None)"

lemma step_ok_trans: "step_ok S a b A \<Longrightarrow> step_ok S b c B \<Longrightarrow> step_ok S a c B"
  unfolding step_ok_def using same_view_trans keeps_pinned_trans quiet_trans by metis

lemma set_frame_set_frame:
  "f < length (frames bp) \<Longrightarrow> set_frame f u (set_frame f v bp) = set_frame f (\<lambda>p. u (v p)) bp"
  by (simp add: set_frame_def)

lemma set_frame_commutes [simp]:
  "(set_frame f u bp)\<lparr>sm := s\<rparr> = set_frame f u (bp\<lparr>sm := s\<rparr>)"
  "table_set pid v (set_frame f u bp) = set_frame f u (table_set pid v bp)"
  by (simp_all add: set_frame_def table_set_def)

lemma aged_step:
  assumes "aged bp bp'" "pool_inv bp {}" "clean_ok bp S"
  shows "step_ok S bp bp' {}"
proof -
  have eq: "length (frames bp') = length (frames bp)" "shards bp' = shards bp" "sm bp' = sm bp"
    using assms(1) by (simp_all add: aged_def)
  have fr: "\<exists>u. 0 \<le> u \<and> u \<le> usageCount (frames bp ! g) \<and> frames bp' ! g = (frames bp ! g)\<lparr>usageCount := u\<rparr> \<and>
      (0 < pinCount (frames bp ! g) \<longrightarrow> u = usageCount (frames bp ! g))" if "g < length (frames bp)" for g
    using assms(1) that by (auto simp: aged_def)
  have pg: "pageId (frames bp' ! g) = pageId (frames bp ! g)" "data (frames bp' ! g) = data (frames bp ! g)"
    "dirty (frames bp' ! g) = dirty (frames bp ! g)" "evicting (frames bp' ! g) = evicting (frames bp ! g)"
    if "g < length (frames bp)" for g using fr [OF that] by auto
  have "frame_ok (frames bp' ! g)" if "g < length (frames bp)" for g
    using fr [OF that] pool_invD(5) [OF assms(2) that] by (auto simp: frame_ok_def)
  moreover have tg: "table_get bp' = table_get bp" using eq(2) by (auto simp: table_get_def)
  moreover have "frames bp' \<noteq> []" using eq(1) pool_invD(2) [OF assms(2)] by auto
  ultimately have "pool_inv bp' {}" using assms(2) pg eq by (auto simp: pool_inv_def)
  moreover have "clean_ok bp' S" using assms(3) pg eq by (simp add: clean_ok_def)
  moreover have "view bp' pid = view bp pid" for pid
    using tg pg eq by (intro view_same [OF assms(2)]) simp_all
  moreover have "pinCount (frames bp' ! g) = pinCount (frames bp ! g)" if "g < length (frames bp)" for g
    using fr [OF that] by auto
  moreover have "quiet {} bp bp'" using eq pg by (intro quietI) simp_all
  ultimately show ?thesis using eq pg tg by (simp add: step_ok_def same_view_def handles_def)
qed

text \<open>A frame whose page needs no place in the pool any more.\<close>

lemma drop_page:
  assumes inv: "pool_inv bp {}" and cl: "clean_ok bp S" and f: "f < length (frames bp)" "pinCount (frames bp ! f) = 0"
    and old: "pid = pageId (frames bp ! f)" "pid \<noteq> freePageId"
    and s: "sm_ok s" "length (content s) = length (content (sm bp))"
      "\<And>q. in_file (sm bp) q \<Longrightarrow> q \<noteq> pid \<Longrightarrow> page_at s q = page_at (sm bp) q"
      "pid \<notin> S \<Longrightarrow> page_at s pid = data (frames bp ! f)" "\<not> dirty (frames bp ! f) \<Longrightarrow> page_at s pid = page_at (sm bp) pid"
      "onDisk s = onDisk (sm bp)"
  shows "step_ok S bp (set_frame f (\<lambda>p. p\<lparr>evicting := True, pageId := freePageId, dirty := False\<rparr>)
    (table_set pid None (bp\<lparr>sm := s\<rparr>))) {f}" (is "step_ok S bp ?bp {f}")
proof -
  have fr: "frames ?bp ! g = (if g = f then (frames bp ! f)\<lparr>evicting := True, pageId := freePageId, dirty := False\<rparr> else frames bp ! g)"
    if "g < length (frames bp)" for g using that by (simp add: nth_set_frame)
  have tg: "table_get ?bp q = (if q = pid then None else table_get bp q)" for q
    using pool_invD(1) [OF inv] by (simp add: table_get_table_set)
  have inf: "in_file s q = in_file (sm bp) q" for q using s(2) by (rule in_file_cong)
  have ne: "pageId (frames bp ! g) \<noteq> pid" if "g < length (frames bp)" "g \<noteq> f" for g
    using frames_distinct_pages [OF inv that(1) f(1)] that(2) old by auto
  have tab: "table_get ?bp q = Some g \<longleftrightarrow> g < length (frames ?bp) \<and> pageId (frames ?bp ! g) = q \<and> q \<noteq> freePageId" for q g
    using pool_invD(9) [OF inv, of q g] ne old tg fr by (cases "g < length (frames bp)") auto
  have "pool_inv ?bp {f}"
    unfolding pool_inv_def
  proof (intro conjI allI impI)
    fix g assume g: "g < length (frames ?bp)"
    then have g': "g < length (frames bp)" by simp
    show "frame_ok (frames ?bp ! g)" "evicting (frames ?bp ! g) \<longleftrightarrow> g \<in> {f}" 
      using pool_invD(5,6) [OF inv g'] f g' by (auto simp: fr frame_ok_def)
    show "pageId (frames ?bp ! g) = freePageId" if "g \<in> {f}" using that f by (simp add: fr)
    show "in_file (sm ?bp) (pageId (frames ?bp ! g))" if "pageId (frames ?bp ! g) \<noteq> freePageId"
      using that pool_invD(8) [OF inv g'] g' by (auto simp: fr inf split: if_splits)
  next
    show "length (shards ?bp) = 128" "frames ?bp \<noteq> []" "length (frames ?bp) < 2 ^ 32" "sm_ok (sm ?bp)"
      using pool_invD(1-3) [OF inv] s(1) by simp_all
  qed (rule tab)
  moreover have "clean_ok ?bp S"
    using cl ne s(3) pool_invD(8) [OF inv] by (auto simp: clean_ok_def fr)
  moreover have "view ?bp q = view bp q" if "in_file (sm bp) q" "q \<notin> S" for q
  proof (cases "q = pid")
    case True
    have "table_get bp pid = Some f" using pool_invD(9) [OF inv] f(1) old by simp
    then show ?thesis using True tg s(4) that by (simp add: view_def)
  next
    case False
    then have "g \<noteq> f" if "table_get bp q = Some g" for g using that pool_invD(9) [OF inv, of q g] old by auto
    then show ?thesis using False tg fr s(3) that by (intro view_same [OF inv]) auto
  qed
  moreover have "quiet {} bp ?bp"
  proof (rule quietI)
    show "page_at (sm ?bp) q = page_at (sm bp) q" if "in_file (sm bp) q" "q \<notin> dirty_pages bp" for q
      using that s(3,5) dirty_pagesI [OF f(1)] old by (cases "q = pid") auto
  qed (use s(2,6) fr in \<open>auto split: if_splits\<close>)
  moreover have "keeps_pinned bp ?bp" using f by (auto simp: handles_def fr)
  ultimately show ?thesis using s(2) tg by (simp add: step_ok_def same_view_def)
qed

lemma usage_total_bound: "pool_inv bp A \<Longrightarrow> usage_total bp \<le> 5 * length (frames bp)"
proof -
  assume inv: "pool_inv bp A"
  have "usageCount p \<le> 5" if "p \<in> set (frames bp)" for p
    using pool_invD(5) [OF inv] that by (metis frame_ok_def in_set_conv_nth)
  then have "\<forall>x \<in> set (map (\<lambda>p. nat (usageCount p)) (frames bp)). x \<le> 5" by fastforce
  moreover have "\<forall>x \<in> set xs. x \<le> 5 \<Longrightarrow> sum_list xs \<le> 5 * length xs" for xs :: "nat list"
    by (induction xs) auto
  ultimately show ?thesis unfolding usage_total_def by (metis length_map)
qed

text \<open>Fuel that always suffices for the clock, and for growing a file of at most \<open>2^59\<close> bytes.\<close>

definition enough_fuel :: "env \<Rightarrow> nat \<Rightarrow> bool" where
  "enough_fuel env n \<longleftrightarrow> 5 * n * Suc n + n < fuel env \<and> 44 \<le> fuel env"

lemma evictFrame_done:
  assumes "pool_inv bp {}" "enough_fuel env (length (frames bp))"
  shows "evict_done bp (evictFrame env bp)"
proof -
  have "usage_total bp * Suc (length (frames bp)) \<le> 5 * length (frames bp) * Suc (length (frames bp))"
    using usage_total_bound [OF assms(1)] by (intro mult_le_mono1)
  then have "usage_total bp * Suc (length (frames bp)) + nat (int (length (frames bp))) < fuel env"
    using assms(2) by (simp add: enough_fuel_def)
  then show ?thesis unfolding evictFrame_def
    using pool_invD(2,3,5,6) [OF assms(1)] by (intro evictFrame_loop_done) auto
qed

text \<open>A frame on its way out, and a write-back that failed.\<close>

lemma mark_evicting:
  assumes inv: "pool_inv bp {}" and cl: "clean_ok bp S" and f: "f < length (frames bp)" "pageId (frames bp ! f) = freePageId"
  shows "step_ok S bp (set_frame f (\<lambda>p. p\<lparr>evicting := True\<rparr>) bp) {f}" (is "step_ok S bp ?bp {f}")
proof -
  have fr: "frames ?bp ! g = (if g = f then (frames bp ! f)\<lparr>evicting := True\<rparr> else frames bp ! g)"
    if "g < length (frames bp)" for g using that by (simp add: nth_set_frame)
  have "pinCount (frames bp ! f) = 0" using pool_invD(5) [OF inv f(1)] f(2) by (simp add: frame_ok_def)
  moreover have "pool_inv ?bp {f}"
    using inv f unfolding pool_inv_def by (auto simp: fr frame_ok_def)
  moreover have "clean_ok ?bp S" using cl by (auto simp: clean_ok_def fr)
  moreover have "view ?bp pid = view bp pid" for pid by (intro view_same [OF inv]) (simp_all add: fr)
  moreover have "quiet {} bp ?bp" by (rule quietI) (auto simp: fr split: if_splits)
  ultimately show ?thesis by (auto simp: step_ok_def same_view_def handles_def fr)
qed

lemma failed_write_back:
  assumes inv: "pool_inv bp {}" and cl: "clean_ok bp S" and f: "f < length (frames bp)"
    "pageId (frames bp ! f) \<noteq> freePageId" "dirty (frames bp ! f)"
    and s: "sm_ok s" "length (content s) = length (content (sm bp))"
      "\<And>q. in_file (sm bp) q \<Longrightarrow> q \<noteq> pageId (frames bp ! f) \<Longrightarrow> page_at s q = page_at (sm bp) q" "onDisk s = onDisk (sm bp)"
  shows "step_ok S bp (bp\<lparr>sm := s\<rparr>) {}"
proof -
  have inf: "in_file s q = in_file (sm bp) q" for q using s(2) by (rule in_file_cong)
  have ne: "pageId (frames bp ! g) \<noteq> pageId (frames bp ! f)" if "g < length (frames bp)" "g \<noteq> f" for g
    using frames_distinct_pages [OF inv that(1) f(1)] that(2) f(2) by auto
  have cached: "table_get bp (pageId (frames bp ! f)) = Some f" using pool_invD(9) [OF inv] f by simp
  have "pool_inv (bp\<lparr>sm := s\<rparr>) {}" using inv s(1) inf by (simp add: pool_inv_def)
  moreover have "clean_ok (bp\<lparr>sm := s\<rparr>) S"
    using cl ne f(3) s(3) pool_invD(8) [OF inv] by (fastforce simp: clean_ok_def)
  moreover have "view (bp\<lparr>sm := s\<rparr>) q = view bp q" if "in_file (sm bp) q" for q
  proof -
    have "page_at s q = page_at (sm bp) q" if "table_get bp q = None"
      using s(3) [OF \<open>in_file (sm bp) q\<close>] cached that by force
    then show ?thesis by (intro view_same [OF inv]) simp_all
  qed
  moreover have "quiet {} bp (bp\<lparr>sm := s\<rparr>)"
    using s(2-4) dirty_pagesI [OF f(1,3)] by (intro quietI) auto
  ultimately show ?thesis using s(2) by (simp add: step_ok_def same_view_def handles_def)
qed

lemma sm_ok_same:
  "sm_ok s \<Longrightarrow> length (content s') = length (content s) \<Longrightarrow> fileSize s' = fileSize s \<Longrightarrow> sm_ok s'"
  by (simp add: sm_ok_def)

lemma page_at_written:
  "in_file s pid \<Longrightarrow> content s' = patch (content s) (unat pid * 4096) bs \<Longrightarrow> length bs = 4096 \<Longrightarrow> page_at s' pid = bs"
  by (simp add: page_at_def in_file_def region_patch_same)

definition acquire_ok :: "PageId set \<Rightarrow> BufferPool \<Rightarrow> ((error + nat) \<times> BufferPool) option \<Rightarrow> bool" where
  "acquire_ok S bp r \<longleftrightarrow>
     (\<exists>e bp'. r = Some (Inl e, bp') \<and> step_ok S bp bp' {}) \<or>
     (\<exists>f bp'. r = Some (Inr f, bp') \<and> step_ok S bp bp' {f} \<and> f < length (frames bp) \<and> pinCount (frames bp ! f) = 0)"

lemma acquire_okI:
  "step_ok S bp bp' {} \<Longrightarrow> acquire_ok S bp (Some (Inl e, bp'))"
  "step_ok S bp bp' {f} \<Longrightarrow> f < length (frames bp) \<Longrightarrow> pinCount (frames bp ! f) = 0 \<Longrightarrow> acquire_ok S bp (Some (Inr f, bp'))"
  by (auto simp: acquire_ok_def)

lemma acquire_ok_aged:
  assumes "aged bp bp1" "step_ok S bp bp1 {}" "acquire_ok S bp1 r"
  shows "acquire_ok S bp r"
proof -
  have "pinCount (frames bp1 ! f) = pinCount (frames bp ! f)" if "f < length (frames bp)" for f
    using assms(1) that by (auto simp: aged_def)
  moreover have "length (frames bp1) = length (frames bp)" using assms(1) by (simp add: aged_def)
  ultimately show ?thesis using assms(3) step_ok_trans [OF assms(2)] unfolding acquire_ok_def by auto
qed

lemma acquireFrame_ok:
  assumes inv: "pool_inv bp {}" and cl: "clean_ok bp S" and fu: "enough_fuel env (length (frames bp))"
  shows "acquire_ok S bp (acquireFrame env bp)"
proof -
  obtain n where n: "fuel env = Suc n" using fu by (cases "fuel env") (auto simp: enough_fuel_def)
  from evictFrame_done [OF inv fu]
  consider (full) bp' where "evictFrame env bp = Some (Inl ErrBufferExhausted, bp')" "aged bp bp'"
    | (victim) f bp1 where "evictFrame env bp = Some (Inr f, set_frame f (\<lambda>p. p\<lparr>evicting := True\<rparr>) bp1)" "aged bp bp1"
      "f < length (frames bp)" "pinCount (frames bp ! f) = 0"
    unfolding evict_done_def by blast
  then show ?thesis
  proof cases
    case full
    then show ?thesis using aged_step [OF full(2) inv cl] by (simp add: acquireFrame_def n acquire_ok_def)
  next
    case (victim f bp1)
    note st = aged_step [OF victim(2) inv cl]
    then have inv1: "pool_inv bp1 {}" and cl1: "clean_ok bp1 S" by (simp_all add: step_ok_def)
    have f1: "f < length (frames bp1)" "pinCount (frames bp1 ! f) = 0" using victim(2-4) by (auto simp: aged_def)
    let ?p = "frames bp1 ! f"
    note goal = acquire_ok_aged [OF victim(2) st]
    show ?thesis
    proof (cases "pageId ?p = freePageId")
      case True
      then have "acquireFrame env bp = Some (Inr f, set_frame f (\<lambda>p. p\<lparr>evicting := True\<rparr>) bp1)"
        using victim(1) f1 by (simp add: acquireFrame_def n nth_set_frame Let_def)
      then show ?thesis using goal [OF acquire_okI(2) [OF mark_evicting [OF inv1 cl1 f1(1) True] f1]] by simp
    next
      case False
      have inf: "in_file (sm bp1) (pageId ?p)" using pool_invD(8) [OF inv1 f1(1) False] .
      have len: "length (data ?p) = 4096" using pool_invD(5) [OF inv1 f1(1)] by (simp add: frame_ok_def)
      have dropped: "acquire_ok S bp1 (Some (Inr f, set_frame f (\<lambda>p. p\<lparr>pageId := freePageId, dirty := False\<rparr>)
          (table_set (pageId ?p) None ((set_frame f (\<lambda>p. p\<lparr>evicting := True\<rparr>) bp1)\<lparr>sm := s\<rparr>))))"
        if s: "sm_ok s" "length (content s) = length (content (sm bp1))"
          "\<And>q. in_file (sm bp1) q \<Longrightarrow> q \<noteq> pageId ?p \<Longrightarrow> page_at s q = page_at (sm bp1) q"
          "pageId ?p \<notin> S \<Longrightarrow> page_at s (pageId ?p) = data ?p" "\<not> dirty ?p \<Longrightarrow> page_at s (pageId ?p) = page_at (sm bp1) (pageId ?p)"
          "onDisk s = onDisk (sm bp1)" for s
        using acquire_okI(2) [OF drop_page [OF inv1 cl1 f1 refl False s] f1] f1 by (simp add: set_frame_set_frame)
      show ?thesis
      proof (cases "dirty ?p")
        case True
        from pool_invD(4) [OF inv1] inf len show ?thesis
        proof (cases rule: WritePage_cases)
          case (ok s)
          have l: "length (content s) = length (content (sm bp1))" using ok(2) inf len by (simp add: in_file_def)
          have "acquireFrame env bp = Some (Inr f, set_frame f (\<lambda>p. p\<lparr>pageId := freePageId, dirty := False\<rparr>)
              (table_set (pageId ?p) None ((set_frame f (\<lambda>p. p\<lparr>evicting := True\<rparr>) bp1)\<lparr>sm := s\<rparr>)))"
            using victim(1) f1 False True ok(1) by (simp add: acquireFrame_def n nth_set_frame Let_def)
          moreover have "page_at s q = page_at (sm bp1) q" if "q \<noteq> pageId ?p" for q
            using page_at_other [OF inf ok(2) _ that] len by simp
          ultimately show ?thesis
            using True goal [OF dropped [of s]] sm_ok_same [OF pool_invD(4) [OF inv1] l ok(3)] l ok(4) page_at_written [OF inf ok(2) len] by simp
        next
          case (torn s m)
          have l: "length (content s) = length (content (sm bp1))" using torn(2) inf len by (simp add: in_file_def)
          have "page_at s q = page_at (sm bp1) q" if "q \<noteq> pageId ?p" for q
            using page_at_other [OF inf torn(2) _ that] len by simp
          then have "step_ok S bp1 (bp1\<lparr>sm := s\<rparr>) {}"
            using failed_write_back [OF inv1 cl1 f1(1) False True sm_ok_same [OF pool_invD(4) [OF inv1] l torn(3)] l] torn(4) by blast
          moreover have "set_frame f (\<lambda>p. p\<lparr>evicting := False\<rparr>) (bp1\<lparr>sm := s\<rparr>) = bp1\<lparr>sm := s\<rparr>"
          proof -
            have "?p\<lparr>evicting := False\<rparr> = ?p" using pool_invD(6) [OF inv1 f1(1)] by simp
            then show ?thesis by (simp add: set_frame_def)
          qed
          moreover have "acquireFrame env bp = Some (Inl ErrIO, set_frame f (\<lambda>p. p\<lparr>evicting := False\<rparr>) (bp1\<lparr>sm := s\<rparr>))"
            using victim(1) f1 False True torn(1) by (simp add: acquireFrame_def n nth_set_frame Let_def set_frame_set_frame)
          ultimately show ?thesis using goal [OF acquire_okI(1), of "bp1\<lparr>sm := s\<rparr>"] by simp
        qed
      next
        case nd: False
        have "acquireFrame env bp = Some (Inr f, set_frame f (\<lambda>p. p\<lparr>pageId := freePageId, dirty := False\<rparr>)
            (table_set (pageId ?p) None ((set_frame f (\<lambda>p. p\<lparr>evicting := True\<rparr>) bp1)\<lparr>sm := sm bp1\<rparr>)))"
          using victim(1) f1 False nd by (simp add: acquireFrame_def n nth_set_frame Let_def)
        moreover have "pageId ?p \<notin> S \<Longrightarrow> page_at (sm bp1) (pageId ?p) = data ?p"
          using cl1 f1(1) False nd by (simp add: clean_ok_def)
        ultimately show ?thesis using goal [OF dropped [of "sm bp1"]] pool_invD(4) [OF inv1] by simp
      qed
    qed
  qed
qed

section \<open>Getting pages\<close>

definition one_pin :: "nat \<Rightarrow> nat \<Rightarrow> int" where
  "one_pin f g = (if g = f then 1 else 0)"

text \<open>A page was pinned for reading, or for writing.\<close>

definition got :: "PageId set \<Rightarrow> BufferPool \<Rightarrow> BufferPool \<Rightarrow> PageId \<Rightarrow> nat \<Rightarrow> bool" where
  "got S bp bp' pid f \<longleftrightarrow> pool_inv bp' {} \<and> clean_ok bp' S \<and> same_view S bp bp' \<and> f < length (frames bp) \<and>
     pageId (frames bp' ! f) = pid \<and> handles (one_pin f) bp bp' \<and> quiet {} bp bp'"

definition got_for_write :: "PageId set \<Rightarrow> BufferPool \<Rightarrow> BufferPool \<Rightarrow> PageId \<Rightarrow> nat \<Rightarrow> bool" where
  "got_for_write S bp bp' pid f \<longleftrightarrow> pool_inv bp' {} \<and> clean_ok bp' (S - {pid}) \<and> same_view (insert pid S) bp bp' \<and>
     f < length (frames bp) \<and> pageId (frames bp' ! f) = pid \<and> dirty (frames bp' ! f) \<and> pinCount (frames bp ! f) = 0 \<and>
     handles (one_pin f) bp bp' \<and> quiet {pid} bp bp'"

lemma in_file_not_free: "sm_ok s \<Longrightarrow> in_file s pid \<Longrightarrow> pid \<noteq> freePageId"
proof
  assume "sm_ok s" "in_file s pid" "pid = freePageId"
  then have "unat freePageId < 2 ^ 48" using in_file_small by blast
  moreover have "unat (freePageId :: u64) = 2 ^ 64 - 1" by (simp add: freePageId_def unsigned_minus_1_eq_mask mask_eq_exp_minus_1)
  ultimately show False by simp
qed

lemma install_page:
  assumes inv: "pool_inv bp {f}" and cl: "clean_ok bp S" and f: "f < length (frames bp)"
    and pid: "table_get bp pid = None" "in_file (sm bp) pid" and buf: "length buf = 4096"
    and dd: "\<not> dd \<Longrightarrow> pid \<notin> S \<Longrightarrow> buf = page_at (sm bp) pid"
    and bp': "bp' = table_set pid (Some f) (set_frame f (\<lambda>_. \<lparr>pageId = pid, data = buf, pinCount = 1, usageCount = 5, dirty = dd, evicting = False\<rparr>) bp)"
  shows "pool_inv bp' {}" "clean_ok bp' S" "q \<noteq> pid \<Longrightarrow> view bp' q = view bp q" "view bp' pid = buf"
    "handles (one_pin f) bp bp'" "frames bp' ! f = \<lparr>pageId = pid, data = buf, pinCount = 1, usageCount = 5, dirty = dd, evicting = False\<rparr>"
    "sm bp' = sm bp" "quiet (if dd then {pid} else {}) bp bp'"
proof -
  let ?p = "\<lparr>pageId = pid, data = buf, pinCount = 1, usageCount = 5, dirty = dd, evicting = False\<rparr>"
  have fr: "frames bp' ! g = (if g = f then ?p else frames bp ! g)" if "g < length (frames bp)" for g
    using that by (simp add: bp' nth_set_frame del: set_frame_commutes)
  have len: "length (frames bp') = length (frames bp)" "length (shards bp') = 128"
    using pool_invD(1) [OF inv] by (simp_all add: bp')
  have tg: "table_get bp' q = (if q = pid then Some f else table_get bp q)" for q
    using pool_invD(1) [OF inv] by (simp add: bp' table_get_table_set)
  show sm: "sm bp' = sm bp" by (simp add: bp')
  have free: "pageId (frames bp ! f) = freePageId" using pool_invD(7) [OF inv f] by simp
  then have pin0: "pinCount (frames bp ! f) = 0" using pool_invD(5) [OF inv f] by (simp add: frame_ok_def)
  have nf: "pid \<noteq> freePageId" using in_file_not_free [OF pool_invD(4) [OF inv] pid(2)] .
  have none: "pageId (frames bp ! g) \<noteq> pid" if "g < length (frames bp)" for g
    using pool_invD(9) [OF inv, of pid g] pid(1) that nf by simp
  have tab: "table_get bp' q = Some g \<longleftrightarrow> g < length (frames bp') \<and> pageId (frames bp' ! g) = q \<and> q \<noteq> freePageId" for q g
    using pool_invD(9) [OF inv, of q g] none tg fr len f nf free by (cases "g < length (frames bp)") auto
  show "pool_inv bp' {}"
    unfolding pool_inv_def
  proof (intro conjI allI impI)
    fix g assume "g < length (frames bp')"
    then have g: "g < length (frames bp)" using len by simp
    show "frame_ok (frames bp' ! g)" "evicting (frames bp' ! g) \<longleftrightarrow> g \<in> {}"
      using pool_invD(5,6) [OF inv g] g nf buf by (auto simp: fr frame_ok_def)
    show "in_file (sm bp') (pageId (frames bp' ! g))" if "pageId (frames bp' ! g) \<noteq> freePageId"
      using that pool_invD(8) [OF inv g] g pid(2) sm by (auto simp: fr split: if_splits)
  next
    show "length (shards bp') = 128" "frames bp' \<noteq> []" "length (frames bp') < 2 ^ 32" "sm_ok (sm bp')"
      using len pool_invD(2-4) [OF inv] sm by auto
  qed (simp, rule tab)
  show "clean_ok bp' S" using cl dd sm len by (auto simp: clean_ok_def fr)
  have "g \<noteq> f" if "table_get bp q = Some g" for g using that pool_invD(9) [OF inv, of q g] free by auto
  then show "view bp' q = view bp q" if "q \<noteq> pid" using that tg fr sm by (intro view_same [OF inv]) auto
  show "view bp' pid = buf" using tg fr f by (simp add: view_def)
  show "handles (one_pin f) bp bp'" using fr len pin0 f by (simp add: handles_def one_pin_def)
  show "frames bp' ! f = ?p" using fr f by simp
  show "quiet (if dd then {pid} else {}) bp bp'" using sm len(1) by (intro quietI) (auto simp: fr split: if_splits)
qed

lemma handles_compose:
  assumes "keeps_pinned a b" "handles \<delta> b c"
  shows "handles \<delta> a c"
  using handles_trans [OF assms] by simp

lemma Get_hit:
  assumes inv: "pool_inv bp {}" and cl: "clean_ok bp S" and f: "table_get bp pid = Some f"
    and bp': "bp' = set_frame f (\<lambda>p. p\<lparr>pinCount := pinCount p + 1, usageCount := maxUsageCount\<rparr>) bp"
  shows "got S bp bp' pid f"
proof -
  have fl: "f < length (frames bp)" "pageId (frames bp ! f) = pid" "pid \<noteq> freePageId"
    using f pool_invD(9) [OF inv] by auto
  have fr: "frames bp' ! g = (if g = f then (frames bp ! f)\<lparr>pinCount := pinCount (frames bp ! f) + 1, usageCount := maxUsageCount\<rparr> else frames bp ! g)"
    if "g < length (frames bp)" for g using that by (simp add: bp' nth_set_frame)
  have eq: "length (frames bp') = length (frames bp)" "shards bp' = shards bp" "sm bp' = sm bp" "table_get bp' = table_get bp"
    "frames bp' \<noteq> []" using pool_invD(2) [OF inv] by (simp_all add: bp')
  have "frame_ok (frames bp' ! g)" if "g < length (frames bp)" for g
    using pool_invD(5) [OF inv that] that fl by (auto simp: fr frame_ok_def maxUsageCount_def)
  moreover have "pageId (frames bp' ! g) = pageId (frames bp ! g)" "evicting (frames bp' ! g) = evicting (frames bp ! g)"
    if "g < length (frames bp)" for g using that by (auto simp: fr)
  ultimately have "pool_inv bp' {}" using inv eq unfolding pool_inv_def by auto
  moreover have "clean_ok bp' S" using cl eq by (auto simp: clean_ok_def fr)
  moreover have "view bp' q = view bp q" for q using eq by (intro view_same [OF inv]) (simp_all add: fr)
  moreover have "quiet {} bp bp'" using eq by (intro quietI) (auto simp: fr split: if_splits)
  ultimately show ?thesis using fl eq by (auto simp: got_def same_view_def handles_def one_pin_def fr)
qed

text \<open>What a call that may fail for lack of frames or by an I/O error leaves behind.\<close>

definition get_ok :: "PageId set \<Rightarrow> BufferPool \<Rightarrow> PageId \<Rightarrow> ((error + nat) \<times> BufferPool) option \<Rightarrow> bool" where
  "get_ok S bp pid r \<longleftrightarrow>
     (\<exists>e bp'. r = Some (Inl e, bp') \<and> step_ok S bp bp' {}) \<or> (\<exists>f bp'. r = Some (Inr f, bp') \<and> got S bp bp' pid f)"

lemma acquired:
  assumes "step_ok S bp bp1 {f}" "f < length (frames bp)" "in_file (sm bp) pid" "table_get bp pid = None"
  shows "pool_inv bp1 {f}" "clean_ok bp1 S" "f < length (frames bp1)" "in_file (sm bp1) pid"
    "frame_ok (frames bp1 ! f)" "pageId (frames bp1 ! f) = freePageId" "evicting (frames bp1 ! f)"
  using assms in_file_mono [of "sm bp" "sm bp1" pid] pool_invD(5-7) [of bp1 "{f}" f]
  by (auto simp: step_ok_def same_view_def handles_def)

lemma set_frame_const: "u (frames bp ! f) = p \<Longrightarrow> set_frame f u bp = set_frame f (\<lambda>_. p) bp"
  by (simp add: set_frame_def)

text \<open>An I/O step that leaves the file's bytes alone.\<close>

lemma same_content_step:
  assumes "pool_inv bp A" "clean_ok bp S" "content s = content (sm bp)" "fileSize s = fileSize (sm bp)" "onDisk s = onDisk (sm bp)"
  shows "step_ok S bp (bp\<lparr>sm := s\<rparr>) A"
proof -
  have eq: "page_at s q = page_at (sm bp) q" "in_file s q = in_file (sm bp) q" for q
    using assms(3) by (simp_all add: page_at_def in_file_def)
  have "sm_ok s" using pool_invD(4) [OF assms(1)] assms(3,4) by (simp add: sm_ok_def)
  then have "pool_inv (bp\<lparr>sm := s\<rparr>) A" "clean_ok (bp\<lparr>sm := s\<rparr>) S"
    using assms eq by (simp_all add: pool_inv_def clean_ok_def)
  moreover have "view (bp\<lparr>sm := s\<rparr>) q = view bp q" for q using eq by (intro view_same [OF assms(1)]) simp_all
  moreover have "quiet {} bp (bp\<lparr>sm := s\<rparr>)" using eq assms(3,5) by (intro quietI) auto
  ultimately show ?thesis using assms(3) by (simp add: step_ok_def same_view_def handles_def)
qed

lemma release_step:
  assumes inv: "pool_inv bp {f}" and cl: "clean_ok bp S" and f: "f < length (frames bp)"
    and bp': "bp' = releaseToFree f (set_frame f (\<lambda>p. p\<lparr>data := buf\<rparr>) bp)" and buf: "length buf = 4096"
  shows "step_ok S bp bp' {}"
proof -
  note free = pool_invD(7) [OF inv f, simplified] and ok = pool_invD(5) [OF inv f]
  have fr: "frames bp' ! g = (if g = f then (frames bp ! f)\<lparr>data := buf, pageId := freePageId, pinCount := 0, usageCount := 0, dirty := False, evicting := False\<rparr>
      else frames bp ! g)" if "g < length (frames bp)" for g
    using that by (simp add: bp' releaseToFree_def set_frame_set_frame nth_set_frame)
  have eq: "length (frames bp') = length (frames bp)" "shards bp' = shards bp" "sm bp' = sm bp" "table_get bp' = table_get bp"
    "frames bp' \<noteq> []" using pool_invD(2) [OF inv] by (simp_all add: bp' releaseToFree_def)
  have "frame_ok (frames bp' ! g) \<and> (evicting (frames bp' ! g) \<longleftrightarrow> g \<in> {})" if "g < length (frames bp)" for g
    using pool_invD(5,6) [OF inv that] that buf by (auto simp: fr frame_ok_def)
  moreover have pg: "pageId (frames bp' ! g) = pageId (frames bp ! g)" if "g < length (frames bp)" for g
    using that free by (auto simp: fr)
  ultimately have "pool_inv bp' {}" using inv eq unfolding pool_inv_def by auto
  moreover have "clean_ok bp' S" using cl eq by (auto simp: clean_ok_def fr)
  moreover have "view bp' q = view bp q" for q
  proof -
    have "g \<noteq> f" if "table_get bp q = Some g" for g using that pool_invD(9) [OF inv, of q g] free by auto
    then show ?thesis using eq fr by (intro view_same [OF inv]) auto
  qed
  moreover have "handles (\<lambda>_. 0) bp bp'" using eq ok free by (auto simp: handles_def fr frame_ok_def)
  moreover have "quiet {} bp bp'" using eq by (intro quietI) (auto simp: fr split: if_splits)
  ultimately show ?thesis using eq by (simp add: step_ok_def same_view_def)
qed

lemma got_after_step:
  assumes "step_ok S bp bp1 A" "got S bp1 bp2 pid f"
  shows "got S bp bp2 pid f"
  using assms same_view_trans [of S bp bp1 bp2] handles_compose [of bp bp1 "one_pin f" bp2] quiet_trans [of "{}" bp bp1 bp2]
  by (auto simp: step_ok_def got_def handles_def)

lemma loaded_frame:
  "\<not> dirty p \<Longrightarrow> p\<lparr>data := buf, pageId := pid, pinCount := 1, usageCount := maxUsageCount, evicting := False\<rparr> =
     \<lparr>pageId = pid, data = buf, pinCount = 1, usageCount = 5, dirty = False, evicting = False\<rparr>"
  by (cases p) (simp add: maxUsageCount_def)

lemma Get_ok:
  assumes inv: "pool_inv bp {}" and cl: "clean_ok bp S" and fu: "enough_fuel env (length (frames bp))"
    and pid: "in_file (sm bp) pid"
  shows "get_ok S bp pid (Get env bp pid)"
proof (cases "table_get bp pid")
  case (Some f)
  then show ?thesis using Get_hit [OF inv cl Some refl] by (simp add: Get_def get_ok_def)
next
  case None
  from acquireFrame_ok [OF inv cl fu] consider
    (fail) e bp1 where "acquireFrame env bp = Some (Inl e, bp1)" "step_ok S bp bp1 {}"
    | (frame) f bp1 where "acquireFrame env bp = Some (Inr f, bp1)" "step_ok S bp bp1 {f}" "f < length (frames bp)"
    unfolding acquire_ok_def by blast
  then show ?thesis
  proof cases
    case fail
    then show ?thesis using None by (simp add: Get_def loadAndInstall_def get_ok_def)
  next
    case (frame f bp1)
    note a = acquired [OF frame(2,3) pid None]
    have len: "length (data (frames bp1 ! f)) = 4096" and nd: "\<not> dirty (frames bp1 ! f)"
      using a(5,6) by (simp_all add: frame_ok_def)
    have none: "table_get bp1 pid = None" using frame(2) None by (simp add: step_ok_def)
    from pool_invD(4) [OF a(1)] a(4) len show ?thesis
    proof (cases rule: ReadPage_cases)
      case (ok s)
      note st = same_content_step [OF a(1,2) ok(2-4)]
      then have inv2: "pool_inv (bp1\<lparr>sm := s\<rparr>) {f}" and cl2: "clean_ok (bp1\<lparr>sm := s\<rparr>) S" by (simp_all add: step_ok_def)
      have pg: "page_at s pid = page_at (sm bp1) pid" "in_file s pid" using ok(2) a(4) by (simp_all add: page_at_def in_file_def)
      let ?p = "\<lparr>pageId = pid, data = page_at (sm bp1) pid, pinCount = 1, usageCount = 5, dirty = False, evicting = False\<rparr>"
      let ?bp = "table_set pid (Some f) (set_frame f (\<lambda>_. ?p) (bp1\<lparr>sm := s\<rparr>))"
      have "set_frame f (\<lambda>p. p\<lparr>pageId := pid, pinCount := 1, usageCount := maxUsageCount, evicting := False\<rparr>)
          (set_frame f (\<lambda>p. p\<lparr>data := page_at (sm bp1) pid\<rparr>) b) = set_frame f (\<lambda>_. ?p) b" if "frames b = frames bp1" for b
        using loaded_frame [OF nd] a(3) that by (subst set_frame_set_frame) (simp_all add: set_frame_def)
      then have "Get env bp pid = Some (Inr f, ?bp)"
        using None frame(1) ok(1) by (simp add: Get_def loadAndInstall_def Let_def)
      moreover have "got S (bp1\<lparr>sm := s\<rparr>) ?bp pid f"
      proof -
        have nn: "table_get (bp1\<lparr>sm := s\<rparr>) pid = None" "in_file (sm (bp1\<lparr>sm := s\<rparr>)) pid" "f < length (frames (bp1\<lparr>sm := s\<rparr>))"
          "length (page_at (sm bp1) pid) = 4096" using none pg(2) a(3,4) by simp_all
        note ins = install_page [OF inv2 cl2 nn(3,1,2,4) _ refl, of False]
        have "view ?bp q = view (bp1\<lparr>sm := s\<rparr>) q" for q
          using ins(3,4) pg(1) none by (cases "q = pid") (simp_all add: view_def)
        then show ?thesis using ins(1,2,5,6,8) pg(1) a(3) by (simp add: got_def same_view_def)
      qed
      ultimately show ?thesis using got_after_step [OF step_ok_trans [OF frame(2) st]] by (auto simp: get_ok_def)
    next
      case (failed s buf)
      note st = same_content_step [OF a(1,2) failed(3-5)]
      have "step_ok S (bp1\<lparr>sm := s\<rparr>) (releaseToFree f (set_frame f (\<lambda>p. p\<lparr>data := buf\<rparr>) (bp1\<lparr>sm := s\<rparr>))) {}"
        using st a(3) failed(2) by (intro release_step [OF _ _ _ refl]) (simp_all add: step_ok_def)
      then show ?thesis using step_ok_trans [OF step_ok_trans [OF frame(2) st]] None frame(1) failed(1)
        by (simp add: Get_def loadAndInstall_def Let_def get_ok_def)
    qed
  qed
qed

section \<open>Getting pages for writing\<close>

definition write_ok :: "PageId set \<Rightarrow> BufferPool \<Rightarrow> PageId \<Rightarrow> ((error + nat) \<times> BufferPool) option \<Rightarrow> bool" where
  "write_ok S bp pid r \<longleftrightarrow>
     (\<exists>e bp'. r = Some (Inl e, bp') \<and> step_ok S bp bp' {}) \<or> (\<exists>f bp'. r = Some (Inr f, bp') \<and> got_for_write S bp bp' pid f)"

lemma write_after_step:
  assumes "step_ok S bp bp1 A" "got_for_write S bp1 bp2 pid f"
  shows "got_for_write S bp bp2 pid f"
proof -
  have "same_view (insert pid S) bp bp1" using assms(1) by (simp add: step_ok_def same_view_def)
  then have "same_view (insert pid S) bp bp2"
    using assms(2) same_view_trans [of "insert pid S" bp bp1 bp2] by (simp add: got_for_write_def)
  moreover have "handles (one_pin f) bp bp2"
    using assms handles_compose [of bp bp1 "one_pin f" bp2] by (simp add: step_ok_def got_for_write_def)
  moreover have "f < length (frames bp)" "pinCount (frames bp ! f) = 0"
    using assms by (auto simp: step_ok_def got_for_write_def handles_def)
  moreover have "quiet {pid} bp bp2"
    using assms quiet_mono [of "{}" bp bp1 "{pid}"] quiet_trans [of "{pid}" bp bp1 bp2] by (simp add: step_ok_def got_for_write_def)
  ultimately show ?thesis using assms(2) by (simp add: got_for_write_def)
qed

lemma written_frame:
  "p\<lparr>pageId := pid, pinCount := 1, usageCount := maxUsageCount, dirty := True, evicting := False\<rparr> =
     \<lparr>pageId = pid, data = data p, pinCount = 1, usageCount = 5, dirty = True, evicting = False\<rparr>"
  by (cases p) (simp add: maxUsageCount_def)

lemma clean_ok_dirty:
  assumes "clean_ok bp S" "pool_inv bp A" "f < length (frames bp)" "pageId (frames bp ! f) = pid" "dirty (frames bp ! f)" "pid \<noteq> freePageId"
  shows "clean_ok bp (S - {pid})"
  unfolding clean_ok_def
proof (intro allI impI)
  fix g assume g: "g < length (frames bp)" "pageId (frames bp ! g) \<noteq> freePageId" "\<not> dirty (frames bp ! g)"
    "pageId (frames bp ! g) \<notin> S - {pid}"
  have "g \<noteq> f" using g(3) assms(5) by auto
  then have "pageId (frames bp ! g) \<noteq> pid" using frames_distinct_pages [OF assms(2) g(1) assms(3)] g(2) assms(4) by auto
  then show "data (frames bp ! g) = page_at (sm bp) (pageId (frames bp ! g))"
    using assms(1) g unfolding clean_ok_def by blast
qed

lemma GetForWrite_hit:
  assumes inv: "pool_inv bp {}" and cl: "clean_ok bp S" and f: "table_get bp pid = Some f" "pinCount (frames bp ! f) \<le> 0"
    and bp': "bp' = set_frame f (\<lambda>p. p\<lparr>pinCount := 1, usageCount := maxUsageCount, dirty := True\<rparr>) bp"
  shows "got_for_write S bp bp' pid f"
proof -
  have fl: "f < length (frames bp)" "pageId (frames bp ! f) = pid" "pid \<noteq> freePageId"
    using f pool_invD(9) [OF inv] by auto
  have pin0: "pinCount (frames bp ! f) = 0" using f(2) pool_invD(5) [OF inv fl(1)] by (simp add: frame_ok_def)
  have fr: "frames bp' ! g = (if g = f then (frames bp ! f)\<lparr>pinCount := 1, usageCount := maxUsageCount, dirty := True\<rparr> else frames bp ! g)"
    if "g < length (frames bp)" for g using that by (simp add: bp' nth_set_frame)
  have eq: "length (frames bp') = length (frames bp)" "shards bp' = shards bp" "sm bp' = sm bp" "table_get bp' = table_get bp"
    "frames bp' \<noteq> []" using pool_invD(2) [OF inv] by (simp_all add: bp')
  have "frame_ok (frames bp' ! g)" if "g < length (frames bp)" for g
    using pool_invD(5) [OF inv that] that fl by (auto simp: fr frame_ok_def maxUsageCount_def)
  moreover have "pageId (frames bp' ! g) = pageId (frames bp ! g)" "evicting (frames bp' ! g) = evicting (frames bp ! g)"
    if "g < length (frames bp)" for g using that by (auto simp: fr)
  ultimately have inv': "pool_inv bp' {}" using inv eq unfolding pool_inv_def by auto
  have "clean_ok bp' S" using cl eq by (auto simp: clean_ok_def fr)
  then have "clean_ok bp' (S - {pid})" using inv' fl eq by (intro clean_ok_dirty [of _ _ _ f]) (simp_all add: fr)
  moreover have "view bp' q = view bp q" for q using eq by (intro view_same [OF inv]) (simp_all add: fr)
  moreover have "quiet {pid} bp bp'" using eq fl by (intro quietI) (auto simp: fr split: if_splits)
  ultimately show ?thesis using inv' fl eq pin0 by (auto simp: got_for_write_def same_view_def handles_def one_pin_def fr)
qed

lemma GetForWrite_ok:
  assumes inv: "pool_inv bp {}" and cl: "clean_ok bp S" and fu: "enough_fuel env (length (frames bp))"
    and pid: "in_file (sm bp) pid"
  shows "write_ok S bp pid (GetForWrite env bp pid)"
proof (cases "table_get bp pid")
  case (Some f)
  have "step_ok S bp bp {}" using inv cl by (simp add: step_ok_def)
  then show ?thesis using GetForWrite_hit [OF inv cl Some _ refl] Some
    by (auto simp: GetForWrite_def write_ok_def not_less)
next
  case None
  from acquireFrame_ok [OF inv cl fu] consider
    (fail) e bp1 where "acquireFrame env bp = Some (Inl e, bp1)" "step_ok S bp bp1 {}"
    | (frame) f bp1 where "acquireFrame env bp = Some (Inr f, bp1)" "step_ok S bp bp1 {f}" "f < length (frames bp)"
    unfolding acquire_ok_def by blast
  then show ?thesis
  proof cases
    case fail
    then show ?thesis using None by (simp add: GetForWrite_def write_ok_def)
  next
    case (frame f bp1)
    note a = acquired [OF frame(2,3) pid None]
    have len: "length (data (frames bp1 ! f)) = 4096" and pin0: "pinCount (frames bp1 ! f) = 0"
      using a(5,6) by (simp_all add: frame_ok_def)
    have none: "table_get bp1 pid = None" using frame(2) None by (simp add: step_ok_def)
    let ?p = "\<lparr>pageId = pid, data = data (frames bp1 ! f), pinCount = 1, usageCount = 5, dirty = True, evicting = False\<rparr>"
    let ?bp = "table_set pid (Some f) (set_frame f (\<lambda>_. ?p) bp1)"
    note ins = install_page [OF a(1-3) none a(4) len _ refl, of True]
    have "clean_ok ?bp (S - {pid})"
      using ins(1,2,6) a(3) in_file_not_free [OF pool_invD(4) [OF a(1)] a(4)] by (intro clean_ok_dirty [of _ _ _ f]) simp_all
    then have "got_for_write S bp1 ?bp pid f"
      using ins(1,3,5-8) a(3) pin0 by (simp add: got_for_write_def same_view_def)
    moreover have "set_frame f (\<lambda>p. p\<lparr>pageId := pid, pinCount := 1, usageCount := maxUsageCount, dirty := True, evicting := False\<rparr>) b =
        set_frame f (\<lambda>_. ?p) b" if "frames b = frames bp1" for b
      using written_frame [where p = "frames bp1 ! f" and pid = pid] that by (simp add: set_frame_def)
    then have "GetForWrite env bp pid = Some (Inr f, ?bp)" using None frame(1) by (simp add: GetForWrite_def)
    ultimately show ?thesis using write_after_step [OF frame(2)] by (auto simp: write_ok_def)
  qed
qed

section \<open>Growing the file\<close>

lemma grow_step:
  assumes inv: "pool_inv bp {}" and cl: "clean_ok bp S" and s: "sm_ok s" "content s = content (sm bp) @ xs" "onDisk s = onDisk (sm bp)"
  shows "step_ok S bp (bp\<lparr>sm := s\<rparr>) {}"
proof -
  have pg: "page_at s q = page_at (sm bp) q" "in_file s q" if "in_file (sm bp) q" for q
    using that s(2) by (simp_all add: page_at_def in_file_def region_def)
  have "pool_inv (bp\<lparr>sm := s\<rparr>) {}" using inv s(1) pg unfolding pool_inv_def by simp
  moreover have "clean_ok (bp\<lparr>sm := s\<rparr>) S" using cl pg pool_invD(8) [OF inv] by (auto simp: clean_ok_def)
  moreover have "view (bp\<lparr>sm := s\<rparr>) q = view bp q" if "in_file (sm bp) q" for q
    using pg(1) [OF that] by (intro view_same [OF inv]) simp_all
  moreover have "quiet {} bp (bp\<lparr>sm := s\<rparr>)" using pg s(2,3) by (intro quietI) auto
  ultimately show ?thesis using s(2) by (simp add: step_ok_def same_view_def handles_def)
qed

lemma AllocatePage_ok:
  assumes inv: "pool_inv bp {}" and cl: "clean_ok bp S" and fu: "enough_fuel env (length (frames bp))"
    and small: "unat pid < 2 ^ 46"
  shows "write_ok S bp pid (AllocatePage env bp pid)"
proof -
  have f44: "44 \<le> fuel env" using fu by (simp add: enough_fuel_def)
  from pool_invD(4) [OF inv] small f44 show ?thesis
  proof (cases rule: Allocate_cases)
    case (grown s k)
    note st = grow_step [OF inv cl grown(2,4,5)]
    have "write_ok S (bp\<lparr>sm := s\<rparr>) pid (GetForWrite env (bp\<lparr>sm := s\<rparr>) pid)"
      using st fu grown(3) by (intro GetForWrite_ok) (simp_all add: step_ok_def)
    then show ?thesis using grown(1) step_ok_trans [OF st] write_after_step [OF st]
      by (auto simp: AllocatePage_def write_ok_def)
  next
    case (failed s)
    then have "step_ok S bp (bp\<lparr>sm := s\<rparr>) {}" using same_content_step [OF inv cl] by simp
    then show ?thesis using failed(1) by (simp add: AllocatePage_def write_ok_def)
  qed
qed

section \<open>Pins, writes through a handle, and marking clean\<close>

text \<open>An update of one cached frame that keeps its page id and its data.\<close>

lemma frame_update_inv:
  assumes inv: "pool_inv bp {}" and f: "f < length (frames bp)" and bp': "bp' = set_frame f u bp"
    and u: "frame_ok (u (frames bp ! f))" "pageId (u (frames bp ! f)) = pageId (frames bp ! f)" "\<not> evicting (u (frames bp ! f))"
  shows "pool_inv bp' {}" "table_get bp' = table_get bp" "sm bp' = sm bp" "length (frames bp') = length (frames bp)"
    "g < length (frames bp) \<Longrightarrow> frames bp' ! g = (if g = f then u (frames bp ! f) else frames bp ! g)"
proof -
  show fr: "frames bp' ! g = (if g = f then u (frames bp ! f) else frames bp ! g)" if "g < length (frames bp)" for g
    using that by (simp add: bp' nth_set_frame)
  show eq: "table_get bp' = table_get bp" "sm bp' = sm bp" "length (frames bp') = length (frames bp)" by (simp_all add: bp')
  have "shards bp' = shards bp" "frames bp' \<noteq> []" using pool_invD(2) [OF inv] by (simp_all add: bp')
  moreover have "frame_ok (frames bp' ! g)" "pageId (frames bp' ! g) = pageId (frames bp ! g)"
    "evicting (frames bp' ! g) \<longleftrightarrow> g \<in> {}" if "g < length (frames bp)" for g
    using that u pool_invD(5,6) [OF inv that] by (auto simp: fr)
  ultimately show "pool_inv bp' {}" using inv eq unfolding pool_inv_def by auto
qed

lemma Unpin_ok:
  assumes inv: "pool_inv bp {}" and cl: "clean_ok bp S" and f: "f < length (frames bp)" "0 < pinCount (frames bp ! f)"
  shows "\<exists>bp'. Unpin bp f = Some bp' \<and> pool_inv bp' {} \<and> clean_ok bp' S \<and> same_view S bp bp' \<and>
    handles (\<lambda>g. - one_pin f g) bp bp' \<and> quiet {} bp bp'"
proof -
  define bp' where "bp' = set_frame f (\<lambda>p. p\<lparr>pinCount := pinCount p - 1\<rparr>) bp"
  have cached: "pageId (frames bp ! f) \<noteq> freePageId" using pool_invD(5) [OF inv f(1)] f(2) by (auto simp: frame_ok_def)
  have "frame_ok ((frames bp ! f)\<lparr>pinCount := pinCount (frames bp ! f) - 1\<rparr>)"
    using pool_invD(5) [OF inv f(1)] f(2) cached by (simp add: frame_ok_def)
  note up = frame_update_inv [OF inv f(1) bp'_def this]
  have ev: "\<not> evicting (frames bp ! f)" using pool_invD(6) [OF inv f(1)] by simp
  note up = up [simplified, OF ev]
  have "clean_ok bp' S" using cl by (auto simp: clean_ok_def up)
  moreover have "view bp' q = view bp q" for q by (intro view_same [OF inv]) (simp_all add: up)
  moreover have "Unpin bp f = Some bp'" using f(2) by (simp add: Unpin_def bp'_def)
  moreover have "quiet {} bp bp'" by (intro quietI) (auto simp: up split: if_splits)
  ultimately show ?thesis using up f(1) by (auto simp: same_view_def handles_def one_pin_def)
qed


lemma set_data_ok:
  assumes inv: "pool_inv bp {}" and cl: "clean_ok bp S" and f: "f < length (frames bp)" "dirty (frames bp ! f)"
    and d: "length d = 4096" and pid: "pageId (frames bp ! f) = pid" and bp': "bp' = set_data f d bp"
  shows "pool_inv bp' {}" "clean_ok bp' S" "same_view (insert pid S) bp bp'" "view bp' pid = d"
    "frames bp' ! f = (frames bp ! f)\<lparr>data := d\<rparr>" "length (frames bp') = length (frames bp)"
    "g < length (frames bp) \<Longrightarrow> g \<noteq> f \<Longrightarrow> frames bp' ! g = frames bp ! g" "sm bp' = sm bp" "quiet {} bp bp'"
proof -
  have nf: "pid \<noteq> freePageId" using pool_invD(5) [OF inv f(1)] f(2) pid by (auto simp: frame_ok_def)
  have "frame_ok ((frames bp ! f)\<lparr>data := d\<rparr>)" using pool_invD(5) [OF inv f(1)] d by (simp add: frame_ok_def)
  moreover have "\<not> evicting (frames bp ! f)" using pool_invD(6) [OF inv f(1)] by simp
  ultimately have up: "pool_inv bp' {}" "table_get bp' = table_get bp" "sm bp' = sm bp" "length (frames bp') = length (frames bp)"
    "h < length (frames bp) \<Longrightarrow> frames bp' ! h = (if h = f then (frames bp ! f)\<lparr>data := d\<rparr> else frames bp ! h)" for h
    using frame_update_inv [OF inv f(1) bp' [unfolded set_data_def]] by simp_all
  then show "pool_inv bp' {}" "sm bp' = sm bp" "frames bp' ! f = (frames bp ! f)\<lparr>data := d\<rparr>"
    "length (frames bp') = length (frames bp)" "g < length (frames bp) \<Longrightarrow> g \<noteq> f \<Longrightarrow> frames bp' ! g = frames bp ! g"
    using f(1) by auto
  show "clean_ok bp' S" using cl f(2) by (auto simp: clean_ok_def up)
  have tg: "table_get bp pid = Some f" using pool_invD(9) [OF inv] f(1) pid nf by simp
  then show "view bp' pid = d" using f(1) by (simp add: view_def up)
  have "view bp' q = view bp q" if "q \<noteq> pid" for q
  proof -
    have "g \<noteq> f" if "table_get bp q = Some g" for g using that pool_invD(9) [OF inv, of q g] pid \<open>q \<noteq> pid\<close> by auto
    then show ?thesis by (intro view_same [OF inv]) (auto simp: up)
  qed
  then show "same_view (insert pid S) bp bp'" by (simp add: same_view_def up)
  show "quiet {} bp bp'" by (intro quietI) (auto simp: up split: if_splits)
qed

lemma MarkClean_ok:
  assumes inv: "pool_inv bp {}" and cl: "clean_ok bp S"
  shows "pool_inv (MarkClean bp pid) {} \<and> clean_ok (MarkClean bp pid) (insert pid S) \<and>
    (\<forall>q. view (MarkClean bp pid) q = view bp q) \<and> sm (MarkClean bp pid) = sm bp \<and>
    quiet {} bp (MarkClean bp pid) \<and> pid \<notin> dirty_pages (MarkClean bp pid)"
proof (cases "table_get bp pid")
  case None
  then have "pid \<notin> dirty_pages bp" using dirty_pages_cached [OF inv, of pid] by auto
  then show ?thesis using inv cl None by (auto simp: MarkClean_def clean_ok_def)
next
  case (Some f)
  define bp' where "bp' = set_frame f (\<lambda>p. p\<lparr>dirty := False\<rparr>) bp"
  have f: "f < length (frames bp)" "pageId (frames bp ! f) = pid" using Some pool_invD(9) [OF inv] by auto
  have "frame_ok ((frames bp ! f)\<lparr>dirty := False\<rparr>)" using pool_invD(5) [OF inv f(1)] by (simp add: frame_ok_def)
  moreover have "\<not> evicting (frames bp ! f)" using pool_invD(6) [OF inv f(1)] by simp
  ultimately have up: "pool_inv bp' {}" "table_get bp' = table_get bp" "sm bp' = sm bp" "length (frames bp') = length (frames bp)"
    "h < length (frames bp) \<Longrightarrow> frames bp' ! h = (if h = f then (frames bp ! f)\<lparr>dirty := False\<rparr> else frames bp ! h)" for h
    using frame_update_inv [OF inv f(1) bp'_def] by simp_all
  have "clean_ok bp' (insert pid S)" using cl f by (auto simp: clean_ok_def up)
  moreover have "view bp' q = view bp q" for q by (intro view_same [OF inv]) (simp_all add: up)
  moreover have "quiet {} bp bp'" by (intro quietI) (auto simp: up split: if_splits)
  moreover have "pid \<notin> dirty_pages bp'"
  proof
    assume "pid \<in> dirty_pages bp'"
    then obtain g where g: "g < length (frames bp)" "pageId (frames bp' ! g) = pid" "dirty (frames bp' ! g)"
      using up(4) by (auto simp: dirty_pages_def)
    then have "g \<noteq> f" by (auto simp: up)
    then show False using g f frames_distinct_pages [OF inv g(1) f(1)] Some pool_invD(9) [OF inv, of pid f] by (simp add: up)
  qed
  ultimately show ?thesis using up(1,3) Some by (simp add: MarkClean_def bp'_def)
qed

end
