(* ===== verification/PoolHandles.thy ===== *)
theory PoolHandles
  imports PoolInv "HOL-Library.Multiset"
begin

text \<open>
  The buffer pool as its clients use it: which pages are pinned through which handles, which pages
  are live, and one rule per operation. A handle is a frame, the page it holds and whether it was
  obtained for writing.
\<close>

type_synonym handle = "nat \<times> PageId \<times> bool"

definition holds :: "handle multiset \<Rightarrow> BufferPool \<Rightarrow> bool" where
  "holds H bp \<longleftrightarrow>
     (\<forall>g < length (frames bp). pinCount (frames bp ! g) = int (count (image_mset fst H) g)) \<and>
     (\<forall>f pid wr. (f, pid, wr) \<in># H \<longrightarrow> f < length (frames bp) \<and> pageId (frames bp ! f) = pid \<and> (wr \<longrightarrow> dirty (frames bp ! f)))"

text \<open>The pages in \<open>L\<close> are in the file, and the pool shows them as they were last written.\<close>

definition pool_ok :: "env \<Rightarrow> handle multiset \<Rightarrow> PageId set \<Rightarrow> BufferPool \<Rightarrow> bool" where
  "pool_ok env H L bp \<longleftrightarrow> enough_fuel env (length (frames bp)) \<and> pool_inv bp {} \<and> holds H bp \<and>
     (\<exists>S. clean_ok bp S \<and> S \<inter> L = {}) \<and> (\<forall>pid \<in> L. in_file (sm bp) pid)"

text \<open>What no operation changes: the pages of \<open>L\<close> as the pool shows them; in the file, everything
  but dirty pages.\<close>

definition kept :: "PageId set \<Rightarrow> PageId set \<Rightarrow> BufferPool \<Rightarrow> BufferPool \<Rightarrow> bool" where
  "kept L W bp bp' \<longleftrightarrow> (\<forall>q \<in> L. view bp' q = view bp q) \<and> quiet W bp bp'"

lemma kept_refl [simp]: "kept L W bp bp"
  by (simp add: kept_def)

lemma kept_trans: "kept L W a b \<Longrightarrow> kept L W b c \<Longrightarrow> kept L W a c"
  unfolding kept_def using quiet_trans by metis

lemma kept_mono: "kept L W a b \<Longrightarrow> L' \<subseteq> L \<Longrightarrow> W \<subseteq> W' \<Longrightarrow> kept L' W' a b"
  unfolding kept_def using quiet_mono by blast

lemma kept_in_file: "kept L W a b \<Longrightarrow> in_file (sm a) pid \<Longrightarrow> in_file (sm b) pid"
  unfolding kept_def quiet_def using in_file_mono by blast

lemma pool_ok_subset: "pool_ok env H L bp \<Longrightarrow> L' \<subseteq> L \<Longrightarrow> pool_ok env H L' bp"
  unfolding pool_ok_def by blast

section \<open>Handles and pins\<close>

lemma count_pos_mem: "(f, pid, wr) \<in># H \<Longrightarrow> 0 < count (image_mset fst H) f"
  by (metis count_greater_zero_iff fst_conv image_eqI set_image_mset)

lemma holds_handle:
  assumes "holds H bp" "(f, pid, wr) \<in># H"
  shows "f < length (frames bp)" "pageId (frames bp ! f) = pid" "wr \<Longrightarrow> dirty (frames bp ! f)" "0 < pinCount (frames bp ! f)"
proof -
  show f: "f < length (frames bp)" "pageId (frames bp ! f) = pid" "wr \<Longrightarrow> dirty (frames bp ! f)"
    using assms unfolding holds_def by blast+
  have "pinCount (frames bp ! f) = int (count (image_mset fst H) f)" using assms(1) f(1) unfolding holds_def by blast
  then show "0 < pinCount (frames bp ! f)" using count_pos_mem [OF assms(2)] by simp
qed

lemma holds_step:
  assumes H: "holds H bp" and st: "handles \<delta> bp bp'"
    and pins: "\<And>g. g < length (frames bp) \<Longrightarrow> int (count (image_mset fst H') g) = int (count (image_mset fst H) g) + \<delta> g"
    and new: "\<And>f pid wr. (f, pid, wr) \<in># H' \<Longrightarrow> (f, pid, wr) \<notin># H \<Longrightarrow>
      f < length (frames bp') \<and> pageId (frames bp' ! f) = pid \<and> (wr \<longrightarrow> dirty (frames bp' ! f))"
  shows "holds H' bp'"
proof -
  have len: "length (frames bp') = length (frames bp)" using st by (simp add: handles_def)
  have "pinCount (frames bp' ! g) = int (count (image_mset fst H') g)" if "g < length (frames bp)" for g
    using that H st pins [OF that] by (simp add: holds_def handles_def)
  moreover have "f < length (frames bp') \<and> pageId (frames bp' ! f) = pid \<and> (wr \<longrightarrow> dirty (frames bp' ! f))"
    if h: "(f, pid, wr) \<in># H'" for f pid wr
  proof (cases "(f, pid, wr) \<in># H")
    case True
    note h = holds_handle [OF H True]
    then show ?thesis using st len unfolding handles_def by metis
  next
    case False
    then show ?thesis using new h by blast
  qed
  ultimately show ?thesis unfolding holds_def using len by simp
qed

lemma holds_keeps: "holds H bp \<Longrightarrow> keeps_pinned bp bp' \<Longrightarrow> holds H bp'"
  by (rule holds_step) auto

lemma holds_pin:
  assumes "holds H bp" "handles (one_pin f) bp bp'" "f < length (frames bp)" "pageId (frames bp' ! f) = pid"
    "wr \<Longrightarrow> dirty (frames bp' ! f)"
  shows "holds (add_mset (f, pid, wr) H) bp'"
  by (rule holds_step [OF assms(1,2)]) (use assms in \<open>auto simp: one_pin_def handles_def\<close>)

lemma holds_unpin:
  assumes "holds (add_mset (f, pid, wr) H) bp" "handles (\<lambda>g. - one_pin f g) bp bp'"
  shows "holds H bp'"
  by (rule holds_step [OF assms]) (auto simp: one_pin_def)

text \<open>Through a handle one sees the page.\<close>

lemma handle_view:
  assumes "pool_ok env H L bp" "(f, pid, wr) \<in># H"
  shows "data (frames bp ! f) = view bp pid" "pageId (frames bp ! f) = pid" "length (view bp pid) = 4096"
    "f < length (frames bp)" "in_file (sm bp) pid"
proof -
  have inv: "pool_inv bp {}" using assms(1) by (simp add: pool_ok_def)
  have "holds H bp" using assms(1) by (simp add: pool_ok_def)
  note h = holds_handle [OF this assms(2)]
  note fo = pool_invD(5) [OF inv h(1)]
  have nf: "pid \<noteq> freePageId" using fo h(2,4) by (auto simp: frame_ok_def)
  then have "table_get bp pid = Some f" using pool_invD(9) [OF inv, of pid f] h(1,2) by simp
  then show v: "data (frames bp ! f) = view bp pid" by (simp add: view_def)
  show "pageId (frames bp ! f) = pid" "f < length (frames bp)" using h by simp_all
  show "length (view bp pid) = 4096" using fo v by (simp add: frame_ok_def)
  show "in_file (sm bp) pid" using pool_invD(8) [OF inv h(1)] h(2) nf by simp
qed

section \<open>One rule per operation\<close>

definition pool_result ::
    "env \<Rightarrow> handle multiset \<Rightarrow> PageId set \<Rightarrow> BufferPool \<Rightarrow> PageId set \<Rightarrow> (nat \<Rightarrow> handle) \<Rightarrow> PageId set \<Rightarrow>
     ((error + nat) \<times> BufferPool) option \<Rightarrow> bool" where
  "pool_result env H L bp W h L' r \<longleftrightarrow>
     (\<exists>e bp'. r = Some (Inl e, bp') \<and> pool_ok env H L bp' \<and> kept L {} bp bp') \<or>
     (\<exists>f bp'. r = Some (Inr f, bp') \<and> pool_ok env (add_mset (h f) H) L' bp' \<and> kept L W bp bp')"

lemma step_pool_ok:
  assumes "pool_ok env H L bp" "step_ok S bp bp' {}" "S \<inter> L = {}"
  shows "pool_ok env H L bp'" "kept L W bp bp'"
proof -
  have len: "length (frames bp') = length (frames bp)" using assms(2) by (simp add: step_ok_def handles_def)
  have "\<forall>pid \<in> L. in_file (sm bp') pid"
    using assms in_file_mono [of "sm bp" "sm bp'"] unfolding step_ok_def pool_ok_def same_view_def by blast
  then show "pool_ok env H L bp'"
    using assms holds_keeps [of H bp bp'] len unfolding pool_ok_def step_ok_def by auto
  have "kept L {} bp bp'" using assms unfolding kept_def step_ok_def same_view_def pool_ok_def by blast
  then show "kept L W bp bp'" by (rule kept_mono) auto
qed

lemma pool_Get:
  assumes "pool_ok env H L bp" "pid \<in> L"
  shows "pool_result env H L bp {} (\<lambda>f. (f, pid, False)) L (Get env bp pid)"
proof -
  obtain S where S: "clean_ok bp S" "S \<inter> L = {}" using assms(1) by (auto simp: pool_ok_def)
  have pre: "pool_inv bp {}" "enough_fuel env (length (frames bp))" "in_file (sm bp) pid" "holds H bp"
    using assms by (auto simp: pool_ok_def)
  from Get_ok [OF pre(1) S(1) pre(2,3)] consider
    (err) e bp' where "Get env bp pid = Some (Inl e, bp')" "step_ok S bp bp' {}"
    | (ok) f bp' where "Get env bp pid = Some (Inr f, bp')" "got S bp bp' pid f"
    unfolding get_ok_def by blast
  then show ?thesis
  proof cases
    case err
    then show ?thesis using step_pool_ok [OF assms(1) err(2) S(2)] by (simp add: pool_result_def)
  next
    case (ok f bp')
    then have g: "pool_inv bp' {}" "clean_ok bp' S" "same_view S bp bp'" "f < length (frames bp)" "pageId (frames bp' ! f) = pid"
      "handles (one_pin f) bp bp'" "quiet {} bp bp'" by (simp_all add: got_def)
    have "holds (add_mset (f, pid, False) H) bp'" using holds_pin [OF pre(4) g(6,4,5)] by simp
    moreover have "\<forall>q \<in> L. in_file (sm bp') q"
      using assms(1) g(3) in_file_mono [of "sm bp" "sm bp'"] unfolding pool_ok_def same_view_def by blast
    moreover have "kept L {} bp bp'" using g(3,7) S(2) assms(1) unfolding kept_def same_view_def pool_ok_def by blast
    moreover have "length (frames bp') = length (frames bp)" using g(6) by (simp add: handles_def)
    ultimately show ?thesis using ok(1) g(1,2) S(2) pre(2) by (auto simp: pool_result_def pool_ok_def)
  qed
qed

lemma write_pool_result:
  assumes "pool_ok env H L bp" "clean_ok bp S" "S \<inter> L = {}" "pid \<notin> L" "write_ok S bp pid r"
  shows "pool_result env H L bp {pid} (\<lambda>f. (f, pid, True)) (insert pid L) r"
proof -
  from assms(5) consider
    (err) e bp' where "r = Some (Inl e, bp')" "step_ok S bp bp' {}"
    | (ok) f bp' where "r = Some (Inr f, bp')" "got_for_write S bp bp' pid f"
    unfolding write_ok_def by blast
  then show ?thesis
  proof cases
    case err
    then show ?thesis using step_pool_ok [OF assms(1) err(2) assms(3)] by (simp add: pool_result_def)
  next
    case (ok f bp')
    then have g: "pool_inv bp' {}" "clean_ok bp' (S - {pid})" "same_view (insert pid S) bp bp'" "f < length (frames bp)"
      "pageId (frames bp' ! f) = pid" "dirty (frames bp' ! f)" "handles (one_pin f) bp bp'" "quiet {pid} bp bp'"
      by (simp_all add: got_for_write_def)
    have h: "holds H bp" using assms(1) by (simp add: pool_ok_def)
    have len: "length (frames bp') = length (frames bp)" using g(7) by (simp add: handles_def)
    have "holds (add_mset (f, pid, True) H) bp'" using holds_pin [OF h g(7,4,5)] g(6) by simp
    moreover have "in_file (sm bp') pid"
      using pool_invD(5,8) [OF g(1), of f] g(4-6) len by (auto simp: frame_ok_def)
    moreover have "\<forall>q \<in> L. in_file (sm bp') q"
      using assms(1) g(3) in_file_mono [of "sm bp" "sm bp'"] unfolding pool_ok_def same_view_def by blast
    moreover have "kept L {pid} bp bp'" using g(3,8) assms(1,3,4) unfolding kept_def same_view_def pool_ok_def by blast
    moreover have "(S - {pid}) \<inter> insert pid L = {}" using assms(3) by blast
    moreover have "enough_fuel env (length (frames bp'))" using assms(1) len by (simp add: pool_ok_def)
    ultimately have "pool_ok env (add_mset (f, pid, True) H) (insert pid L) bp'"
      using g(1,2) unfolding pool_ok_def by blast
    then show ?thesis using \<open>kept L {pid} bp bp'\<close> ok(1) by (auto simp: pool_result_def)
  qed
qed

lemma pool_GetForWrite:
  assumes "pool_ok env H L bp" "pid \<notin> L" "in_file (sm bp) pid"
  shows "pool_result env H L bp {pid} (\<lambda>f. (f, pid, True)) (insert pid L) (GetForWrite env bp pid)"
proof -
  obtain S where S: "clean_ok bp S" "S \<inter> L = {}" using assms(1) by (auto simp: pool_ok_def)
  have "pool_inv bp {}" "enough_fuel env (length (frames bp))" using assms(1) by (simp_all add: pool_ok_def)
  then show ?thesis using write_pool_result [OF assms(1) S assms(2)] GetForWrite_ok [OF _ S(1) _ assms(3)] by blast
qed

lemma pool_AllocatePage:
  assumes "pool_ok env H L bp" "pid \<notin> L" "unat pid < 2 ^ 46"
  shows "pool_result env H L bp {pid} (\<lambda>f. (f, pid, True)) (insert pid L) (AllocatePage env bp pid)"
proof -
  obtain S where S: "clean_ok bp S" "S \<inter> L = {}" using assms(1) by (auto simp: pool_ok_def)
  have "pool_inv bp {}" "enough_fuel env (length (frames bp))" using assms(1) by (simp_all add: pool_ok_def)
  then show ?thesis using write_pool_result [OF assms(1) S assms(2)] AllocatePage_ok [OF _ S(1) _ assms(3)] by blast
qed

lemma pool_Unpin:
  assumes "pool_ok env (add_mset (f, pid, wr) H) L bp"
  obtains bp' where "Unpin bp f = Some bp'" "pool_ok env H L bp'" "kept L {} bp bp'" "pageId (frames bp' ! f) = pid"
    "\<And>q. q \<in> L \<Longrightarrow> view bp' q = view bp q" "dirty_pages bp' \<subseteq> dirty_pages bp"
proof -
  obtain S where S: "clean_ok bp S" "S \<inter> L = {}" using assms by (auto simp: pool_ok_def)
  have pre: "pool_inv bp {}" "holds (add_mset (f, pid, wr) H) bp" "\<forall>pid \<in> L. in_file (sm bp) pid"
    "enough_fuel env (length (frames bp))"
    using assms by (simp_all add: pool_ok_def)
  note h = holds_handle [OF pre(2), of f pid wr, simplified]
  obtain bp' where bp': "Unpin bp f = Some bp'" "pool_inv bp' {}" "clean_ok bp' S" "same_view S bp bp'"
    "handles (\<lambda>g. - one_pin f g) bp bp'" "quiet {} bp bp'" using Unpin_ok [OF pre(1) S(1) h(1,4)] by blast
  have len: "length (frames bp') = length (frames bp)" using bp'(5) by (simp add: handles_def)
  have "kept L {} bp bp'" using bp'(4,6) S(2) pre(3) unfolding kept_def same_view_def by blast
  moreover have "\<forall>q \<in> L. in_file (sm bp') q"
    using pre(3) bp'(4) in_file_mono [of "sm bp" "sm bp'"] unfolding same_view_def by blast
  then have "pool_ok env H L bp'"
    using bp'(2,3) holds_unpin [OF pre(2) bp'(5)] S(2) pre(4) len unfolding pool_ok_def by auto
  moreover have "pageId (frames bp' ! f) = pid" using bp'(5) h unfolding handles_def by metis
  ultimately show thesis using that [OF bp'(1)] bp'(6) unfolding kept_def quiet_def by blast
qed

lemma pool_set_data:
  assumes "pool_ok env H L bp" "(f, pid, True) \<in># H" "length d = 4096"
  shows "pool_ok env H L (set_data f d bp)" "view (set_data f d bp) pid = d" "quiet {} bp (set_data f d bp)"
    "q \<in> L \<Longrightarrow> q \<noteq> pid \<Longrightarrow> view (set_data f d bp) q = view bp q"
proof -
  obtain S where S: "clean_ok bp S" "S \<inter> L = {}" using assms(1) by (auto simp: pool_ok_def)
  have pre: "pool_inv bp {}" "holds H bp" "\<forall>pid \<in> L. in_file (sm bp) pid" "enough_fuel env (length (frames bp))"
    using assms(1) by (simp_all add: pool_ok_def)
  note h = holds_handle [OF pre(2) assms(2), simplified]
  note sd = set_data_ok [OF pre(1) S(1) h(1,3) assms(3) h(2) refl]
  have fr: "frames (set_data f d bp) ! g = (if g = f then (frames bp ! f)\<lparr>data := d\<rparr> else frames bp ! g)"
    if "g < length (frames bp)" for g using sd(5) sd(7) [of g] that by (cases "g = f") simp_all
  have "holds H (set_data f d bp)" using pre(2) sd(6) fr unfolding holds_def by simp
  then show "pool_ok env H L (set_data f d bp)" using sd(1,2,6,8) S(2) pre(3,4) unfolding pool_ok_def by auto
  show "view (set_data f d bp) pid = d" "quiet {} bp (set_data f d bp)" using sd(4,9) by blast+
  show "view (set_data f d bp) q = view bp q" if "q \<in> L" "q \<noteq> pid"
    using sd(3) that S(2) pre(3) unfolding same_view_def by blast
qed

end
