(* ===== verification/Meta.thy ===== *)
theory Meta
  imports BNode
begin

text \<open>
  The database header of \<^verbatim>\<open>src/meta.go\<close>: its byte format and checksum, the choice between the two
  meta pages on load, and the alternation of commits. \<open>hash/crc64\<close> with the ISO polynomial is
  written out the way the standard library computes it on inputs shorter than 64 bytes, one
  table lookup per byte.
\<close>

section \<open>CRC-64\<close>

definition crc_poly :: u64 where
  "crc_poly = 0xD800000000000000"

definition crc_bit :: "u64 \<Rightarrow> u64" where
  "crc_bit crc = (if crc AND 1 = 1 then drop_bit 1 crc XOR crc_poly else drop_bit 1 crc)"

definition crc_entry :: "byte \<Rightarrow> u64" where
  "crc_entry b = (crc_bit ^^ 8) (ucast b)"

definition crc_step :: "u64 \<Rightarrow> byte \<Rightarrow> u64" where
  "crc_step crc v = crc_entry (ucast crc XOR v) XOR drop_bit 8 crc"

definition crc64_Checksum :: "bytes \<Rightarrow> u64" where
  "crc64_Checksum data = NOT (foldl crc_step (NOT 0) data)"

section \<open>The header record and its encoding\<close>

definition metaMagic :: u32 where
  "metaMagic = 0x46495245"

definition metaVersion :: u32 where
  "metaVersion = 1"

definition metaPage0 :: PageId where
  "metaPage0 = 0"

definition metaPage1 :: PageId where
  "metaPage1 = 1"

definition metaSize :: nat where
  "metaSize = 56"

definition metaChkStart :: nat where
  "metaChkStart = 48"

record Meta =
  magic :: u32
  version :: u32
  pageSize :: u32
  txnID :: TxnID
  catalogRoot :: PageId
  freelistRoot :: PageId
  numPages :: u64
  checksum :: u64

text \<open>\<open>encode\<close> stores the checksum in the receiver too, so it returns the header and the buffer.\<close>

definition encodeMeta :: "Meta \<Rightarrow> bytes \<Rightarrow> (error + Meta \<times> bytes) option" where
  "encodeMeta m buf =
     (if length buf < metaSize then Some (Inl (ErrMetaShort (length buf)))
      else do {
        buf \<leftarrow> PutUint32 buf 0 4 (magic m);
        buf \<leftarrow> PutUint32 buf 4 8 (version m);
        buf \<leftarrow> PutUint32 buf 8 12 (pageSize m);
        buf \<leftarrow> PutUint32 buf 12 16 0;
        buf \<leftarrow> PutUint64 buf 16 24 (txnID m);
        buf \<leftarrow> PutUint64 buf 24 32 (catalogRoot m);
        buf \<leftarrow> PutUint64 buf 32 40 (freelistRoot m);
        buf \<leftarrow> PutUint64 buf 40 48 (numPages m);
        covered \<leftarrow> goslice buf 0 metaChkStart;
        let m = m\<lparr>checksum := crc64_Checksum covered\<rparr>;
        buf \<leftarrow> PutUint64 buf 48 56 (checksum m);
        Some (Inr (m, buf))
      })"

definition decodeMeta :: "bytes \<Rightarrow> (error + Meta) option" where
  "decodeMeta buf =
     (if length buf < metaSize then Some (Inl (ErrMetaShort (length buf)))
      else do {
        got \<leftarrow> Uint64_in buf 48 56;
        covered \<leftarrow> goslice buf 0 metaChkStart;
        let want = crc64_Checksum covered;
        if got \<noteq> want then Some (Inl (ErrMetaChecksum got want))
        else do {
          mg \<leftarrow> Uint32_in buf 0 4;
          vs \<leftarrow> Uint32_in buf 4 8;
          ps \<leftarrow> Uint32_in buf 8 12;
          tx \<leftarrow> Uint64_in buf 16 24;
          cr \<leftarrow> Uint64_in buf 24 32;
          fr \<leftarrow> Uint64_in buf 32 40;
          np \<leftarrow> Uint64_in buf 40 48;
          let m = \<lparr>magic = mg, version = vs, pageSize = ps, txnID = tx, catalogRoot = cr,
                   freelistRoot = fr, numPages = np, checksum = want\<rparr>;
          if magic m \<noteq> metaMagic then Some (Inl (ErrMetaMagic (magic m)))
          else if version m \<noteq> metaVersion then Some (Inl (ErrMetaVersion (version m)))
          else if pageSize m \<noteq> of_nat PageSize then Some (Inl (ErrMetaPageSize (pageSize m)))
          else Some (Inr m)
        }
      })"

definition isNewer :: "TxnID \<Rightarrow> TxnID \<Rightarrow> bool" where
  "isNewer a b \<longleftrightarrow> sint (a - b) > 0"

text \<open>The \<open>switch\<close> of \<open>loadMeta\<close> over the two decoding results.\<close>

definition chooseMeta :: "error + Meta \<Rightarrow> error + Meta \<Rightarrow> error + Meta \<times> PageId" where
  "chooseMeta r0 r1 =
     (case (r0, r1) of
        (Inr m0, Inr m1) \<Rightarrow>
          if isNewer (txnID m1) (txnID m0) then Inr (m1, metaPage1) else Inr (m0, metaPage0)
      | (Inr m0, Inl _) \<Rightarrow> Inr (m0, metaPage0)
      | (Inl _, Inr m1) \<Rightarrow> Inr (m1, metaPage1)
      | (Inl _, Inl _) \<Rightarrow> Inl ErrMetaCorrupt)"

definition nextMetaPage :: "PageId \<Rightarrow> PageId" where
  "nextMetaPage cur = (if cur = metaPage0 then metaPage1 else metaPage0)"

definition baseMeta :: Meta where
  "baseMeta = \<lparr>magic = metaMagic, version = metaVersion, pageSize = of_nat PageSize, txnID = 0,
     catalogRoot = 0, freelistRoot = 0, numPages = 2, checksum = 0\<rparr>"

section \<open>The checksum detects any change of one byte\<close>

lemma crc_bit_alt: "crc_bit w = (if bit w 0 then drop_bit 1 w XOR crc_poly else drop_bit 1 w)"
  by (simp add: crc_bit_def and_one_eq odd_iff_mod_2_eq_one bit_0)

lemma bit_crc_poly_top: "bit crc_poly 63"
  unfolding crc_poly_def by simp

lemma crc_bit_xor: "crc_bit (a XOR b) = crc_bit a XOR crc_bit b"
  by (rule bit_word_eqI) (auto simp: crc_bit_alt bit_simps)

lemma crc_bits_xor: "(crc_bit ^^ n) (a XOR b) = (crc_bit ^^ n) a XOR (crc_bit ^^ n) b"
  by (induction n) (simp_all add: crc_bit_xor)

text \<open>A bit step can be undone: the shifted-out bit is the result's top bit.\<close>

lemma inj_crc_bit: "inj crc_bit"
proof (rule injI)
  fix v w :: u64 assume eq: "crc_bit v = crc_bit w"
  have "bit (crc_bit x) 63 = bit x 0" for x
    using bit_crc_poly_top by (auto simp: crc_bit_alt bit_simps dest: bit_imp_le_length)
  with eq have zero: "bit v 0 = bit w 0" by metis
  with eq have shifted: "drop_bit 1 v = drop_bit 1 w"
    by (simp add: crc_bit_alt xor_right_cancel split: if_splits)
  show "v = w"
  proof (rule bit_word_eqI)
    fix i :: nat
    show "bit v i = bit w i"
    proof (cases i)
      case 0
      then show ?thesis using zero by simp
    next
      case (Suc j)
      have "bit (drop_bit 1 v) j = bit (drop_bit 1 w) j" using shifted by simp
      then show ?thesis using Suc by (simp add: bit_simps)
    qed
  qed
qed

lemma inj_crc_bits: "inj (crc_bit ^^ n)"
  using inj_crc_bit by (induction n) (auto intro: inj_compose)

lemma crc_bits_low_zero: "(\<And>i. i < n \<Longrightarrow> \<not> bit w i) \<Longrightarrow> (crc_bit ^^ n) w = drop_bit n w"
proof (induction n)
  case 0
  then show ?case by simp
next
  case (Suc n)
  then have "(crc_bit ^^ Suc n) w = crc_bit (drop_bit n w)" by simp
  also have "\<dots> = drop_bit 1 (drop_bit n w)"
    using Suc.prems [of n] by (simp add: crc_bit_alt bit_simps)
  finally show ?case by (simp add: drop_bit_drop_bit)
qed

text \<open>The table step is eight bit steps on the state with the byte mixed in.\<close>

lemma crc_step_alt: "crc_step s v = (crc_bit ^^ 8) (s XOR ucast v)"
proof -
  let ?hi = "push_bit 8 (drop_bit 8 s) :: u64"
  have split: "s XOR ucast v = ucast (ucast s XOR v :: byte) XOR ?hi"
    by (rule bit_word_eqI) (auto simp: bit_simps dest: bit_imp_le_length)
  have "(crc_bit ^^ 8) ?hi = drop_bit 8 ?hi"
    by (rule crc_bits_low_zero) (simp add: bit_simps)
  also have "\<dots> = drop_bit 8 s"
    by (rule bit_word_eqI) (auto simp: bit_simps dest: bit_imp_le_length)
  finally have hi: "(crc_bit ^^ 8) ?hi = drop_bit 8 s" .
  show ?thesis
    unfolding split crc_bits_xor hi by (simp add: crc_step_def crc_entry_def)
qed

lemma crc_step_state_inject: "crc_step s v = crc_step s' v \<longleftrightarrow> s = s'"
proof
  assume "crc_step s v = crc_step s' v"
  then have "s XOR ucast v = s' XOR ucast v"
    using inj_crc_bits [of 8] by (simp add: crc_step_alt inj_eq)
  then show "s = s'" by (simp add: xor_right_cancel)
qed simp

lemma ucast_byte_inject:
  assumes "(ucast (v :: byte) :: u64) = ucast v'"
  shows "v = v'"
proof (rule bit_word_eqI)
  fix i assume i: "i < LENGTH(8)"
  have "bit (ucast v :: u64) i = bit (ucast v' :: u64) i" using assms by simp
  then show "bit v i = bit v' i" using i by (simp add: bit_simps)
qed

lemma crc_step_byte_inject: "crc_step s v = crc_step s v' \<longleftrightarrow> v = v'"
proof
  assume "crc_step s v = crc_step s v'"
  then have "s XOR ucast v = s XOR ucast v'"
    using inj_crc_bits [of 8] by (simp add: crc_step_alt inj_eq)
  then have "(ucast v :: u64) = ucast v'" by (metis xor_right_cancel xor.commute)
  then show "v = v'" by (rule ucast_byte_inject)
qed simp

lemma foldl_crc_inject: "foldl crc_step s xs = foldl crc_step s' xs \<longleftrightarrow> s = s'"
  by (induction xs arbitrary: s s') (simp_all add: crc_step_state_inject)

lemma crc64_one_byte:
  "crc64_Checksum (xs @ b # ys) = crc64_Checksum (xs @ b' # ys) \<longleftrightarrow> b = b'"
  by (simp add: crc64_Checksum_def foldl_crc_inject crc_step_byte_inject)

section \<open>Encoding and decoding\<close>

text \<open>The 48 bytes under the checksum.\<close>

definition meta_body :: "Meta \<Rightarrow> bytes" where
  "meta_body m = le_bytes 4 (magic m) @ le_bytes 4 (version m) @ le_bytes 4 (pageSize m) @
     le_bytes 4 (0 :: u32) @ le_bytes 8 (txnID m) @ le_bytes 8 (catalogRoot m) @
     le_bytes 8 (freelistRoot m) @ le_bytes 8 (numPages m)"

lemma length_meta_body [simp]: "length (meta_body m) = 48"
  by (simp add: meta_body_def)

definition meta_image :: "Meta \<Rightarrow> bytes" where
  "meta_image m = meta_body m @ le_bytes 8 (crc64_Checksum (meta_body m))"

lemma length_meta_image [simp]: "length (meta_image m) = 56"
  by (simp add: meta_image_def)

lemma meta_puts:
  assumes "56 \<le> length buf"
  shows "(do {
      buf \<leftarrow> PutUint32 buf 0 4 (magic m);
      buf \<leftarrow> PutUint32 buf 4 8 (version m);
      buf \<leftarrow> PutUint32 buf 8 12 (pageSize m);
      buf \<leftarrow> PutUint32 buf 12 16 0;
      buf \<leftarrow> PutUint64 buf 16 24 (txnID m);
      buf \<leftarrow> PutUint64 buf 24 32 (catalogRoot m);
      buf \<leftarrow> PutUint64 buf 32 40 (freelistRoot m);
      buf \<leftarrow> PutUint64 buf 40 48 (numPages m);
      f buf
    }) = f (patch buf 0 (meta_body m))"
proof -
  have "PutUint32 buf 0 4 (magic m) = PutUint32 (patch buf 0 []) 0 4 (magic m)" by simp
  then show ?thesis
    using assms unfolding meta_body_def by (simp add: Put_next del: patch_Nil)
qed

lemma encodeMeta_image:
  assumes "56 \<le> length buf"
  shows "encodeMeta m buf = Some (Inr (m\<lparr>checksum := crc64_Checksum (meta_body m)\<rparr>, patch buf 0 (meta_image m)))"
proof -
  have "goslice (patch buf 0 (meta_body m)) 0 48 = Some (region (patch buf 0 (meta_body m)) 0 48)"
    using assms by (subst goslice_region) auto
  also have "region (patch buf 0 (meta_body m)) 0 48 = meta_body m"
    using assms by (intro region_patch_same) auto
  finally have region: "goslice (patch buf 0 (meta_body m)) 0 48 = Some (meta_body m)" .
  have "\<not> length buf < metaSize" using assms by (simp add: metaSize_def)
  then show ?thesis
    using assms unfolding encodeMeta_def meta_puts [OF assms]
    by (simp add: metaChkStart_def region Let_def Put_next meta_image_def)
qed

lemma region_append_at: "a = length xs \<Longrightarrow> region (xs @ ys) a n = take n ys"
  by (simp add: region_def)

lemma decodeMeta_image:
  assumes buf: "56 \<le> length buf" and img: "region buf 0 56 = meta_image m"
    and ok: "magic m = metaMagic" "version m = metaVersion" "pageSize m = of_nat PageSize"
  shows "decodeMeta buf = Some (Inr (m\<lparr>checksum := crc64_Checksum (meta_body m)\<rparr>))"
proof -
  have at: "region buf a n = region (meta_image m) a n" if "a + n \<le> 56" for a n
    using region_region [of a n 56 buf 0] that img by simp
  have cov: "goslice buf 0 48 = Some (meta_body m)"
    using buf at [of 0 48] by (simp add: goslice_region) (simp add: meta_image_def region_def)
  have got: "Uint64_in buf 48 56 = Some (crc64_Checksum (meta_body m))"
    using buf at [of 48 8] by (simp add: Uint64_in_region) (simp add: meta_image_def region_append_at)
  have f: "Uint32_in buf 0 4 = Some (magic m)" "Uint32_in buf 4 8 = Some (version m)"
    "Uint32_in buf 8 12 = Some (pageSize m)" "Uint64_in buf 16 24 = Some (txnID m)"
    "Uint64_in buf 24 32 = Some (catalogRoot m)" "Uint64_in buf 32 40 = Some (freelistRoot m)"
    "Uint64_in buf 40 48 = Some (numPages m)"
    using buf by (simp_all add: Uint64_in_region Uint32_in_region at)
      (simp_all add: meta_image_def meta_body_def region_def)
  show ?thesis
    using buf ok by (simp add: decodeMeta_def metaSize_def metaChkStart_def got cov f Let_def)
qed

lemma decodeMeta_ok_checksum:
  assumes "decodeMeta buf = Some (Inr m)"
  shows "56 \<le> length buf" "le_word (region buf 48 8) = crc64_Checksum (region buf 0 48)"
proof -
  show len: "56 \<le> length buf"
    using assms by (auto simp: decodeMeta_def metaSize_def split: if_splits)
  then have r: "Uint64_in buf 48 56 = Some (le_word (region buf 48 8))" "goslice buf 0 48 = Some (region buf 0 48)"
    by (simp_all add: Uint64_in_region goslice_region)
  show "le_word (region buf 48 8) = crc64_Checksum (region buf 0 48)"
    using assms len by (auto simp: decodeMeta_def metaSize_def metaChkStart_def r Let_def split: if_splits)
qed

lemma decodeMeta_bad_checksum:
  assumes "56 \<le> length buf" "le_word (region buf 48 8) \<noteq> crc64_Checksum (region buf 0 48)"
  shows "decodeMeta buf = Some (Inl (ErrMetaChecksum (le_word (region buf 48 8)) (crc64_Checksum (region buf 0 48))))"
proof -
  have r: "Uint64_in buf 48 56 = Some (le_word (region buf 48 8))" "goslice buf 0 48 = Some (region buf 0 48)"
    using assms(1) by (simp_all add: Uint64_in_region goslice_region)
  show ?thesis using assms by (simp add: decodeMeta_def metaSize_def metaChkStart_def r Let_def)
qed

lemma region_update:
  assumes "i < length d"
  shows "region (d[i := b]) a n = (if a \<le> i \<and> i < a + n then (region d a n)[i - a := b] else region d a n)"
  using assms by (auto intro!: nth_equalityI simp: nth_region nth_list_update)

lemma crc64_update:
  assumes "i < length xs" "xs ! i \<noteq> b"
  shows "crc64_Checksum (xs[i := b]) \<noteq> crc64_Checksum xs"
proof -
  have "xs = take i xs @ xs ! i # drop (Suc i) xs" using assms(1) by (rule id_take_nth_drop)
  moreover have "xs[i := b] = take i xs @ b # drop (Suc i) xs" using assms(1) by (rule upd_conv_take_nth_drop)
  ultimately show ?thesis using assms(2) crc64_one_byte [of "take i xs" b "drop (Suc i) xs" "xs ! i"] by metis
qed

lemma decodeMeta_corrupt_byte:
  assumes ok: "decodeMeta buf = Some (Inr m)" and i: "i < 56" and b: "buf ! i \<noteq> b"
  shows "\<exists>got want. decodeMeta (buf[i := b]) = Some (Inl (ErrMetaChecksum got want))"
proof -
  note len = decodeMeta_ok_checksum(1) [OF ok] and chk = decodeMeta_ok_checksum(2) [OF ok]
  have "le_word (region (buf[i := b]) 48 8) \<noteq> crc64_Checksum (region (buf[i := b]) 0 48)"
  proof (cases "i < 48")
    case True
    have "crc64_Checksum ((region buf 0 48)[i := b]) \<noteq> crc64_Checksum (region buf 0 48)"
      using True len b by (intro crc64_update) (auto simp: nth_region)
    then show ?thesis using True len chk by (simp add: region_update)
  next
    case False
    have "(region buf 48 8)[i - 48 := b] \<noteq> region buf 48 8"
      using False i len b by (simp add: list_update_same_conv nth_region)
    then have "(le_word ((region buf 48 8)[i - 48 := b]) :: u64) \<noteq> le_word (region buf 48 8)"
      using len by (simp add: le_word8_inject)
    then show ?thesis using False i len chk by (simp add: region_update)
  qed
  then show ?thesis using decodeMeta_bad_checksum [of "buf[i := b]"] len by simp
qed

lemma isNewer_succ: "isNewer (n + 1) n" "\<not> isNewer n (n + 1)"
  by (simp_all add: isNewer_def)

lemma nextMetaPage_alternates: "p = metaPage0 \<or> p = metaPage1 \<Longrightarrow> nextMetaPage (nextMetaPage p) = p \<and> nextMetaPage p \<noteq> p"
  by (auto simp: nextMetaPage_def metaPage0_def metaPage1_def)

end
