(* ===== verification/Freelist.thy ===== *)
theory Freelist
  imports BNode
begin

text \<open>
  The free list: its in-memory queue (\<^verbatim>\<open>src/freelist.go\<close>, lines 3-44) and the page format it is
  persisted in (\<^verbatim>\<open>src/freelist_page.go\<close>). The chain of pages that \<open>persistFreelist\<close> writes and
  \<open>readFreelistChain\<close> reads back belongs to the transaction layer.
\<close>

section \<open>The page format\<close>

definition freelistPageHeader :: nat where
  [simp]: "freelistPageHeader = 16"

definition freelistPerPage :: nat where
  "freelistPerPage = (PageSize - freelistPageHeader) div 8"

fun encodeFreelist_ids :: "bytes \<Rightarrow> nat \<Rightarrow> PageId list \<Rightarrow> bytes option" where
  "encodeFreelist_ids buf i [] = Some buf"
| "encodeFreelist_ids buf i (pid # ids) = do {
     let off = freelistPageHeader + i * 8;
     buf \<leftarrow> PutUint64 buf off (off + 8) pid;
     encodeFreelist_ids buf (Suc i) ids
   }"

definition encodeFreelistPage :: "bytes \<Rightarrow> PageId list \<Rightarrow> PageId \<Rightarrow> bytes option" where
  "encodeFreelistPage buf ids nxt =
     (if length ids > freelistPerPage then None
      else do {
        buf \<leftarrow> PutUint64 buf 0 8 nxt;
        buf \<leftarrow> PutUint32 buf 8 12 (of_nat (length ids));
        buf \<leftarrow> PutUint32 buf 12 16 0;
        encodeFreelist_ids buf 0 ids
      })"

definition freelistPageNext :: "bytes \<Rightarrow> PageId option" where
  "freelistPageNext buf = Uint64_in buf 0 8"

fun decodeFreelist_ids :: "bytes \<Rightarrow> nat \<Rightarrow> nat \<Rightarrow> PageId list option" where
  "decodeFreelist_ids buf i 0 = Some []"
| "decodeFreelist_ids buf i (Suc more) = do {
     let off = freelistPageHeader + i * 8;
     pid \<leftarrow> Uint64_in buf off (off + 8);
     ids \<leftarrow> decodeFreelist_ids buf (Suc i) more;
     Some (pid # ids)
   }"

definition decodeFreelistPage :: "bytes \<Rightarrow> (error + PageId list \<times> PageId) option" where
  "decodeFreelistPage buf =
     (if length buf < freelistPageHeader then Some (Inl (ErrFreelistShort (length buf)))
      else do {
        nxt \<leftarrow> Uint64_in buf 0 8;
        count \<leftarrow> Uint32_in buf 8 12;
        if unat count > freelistPerPage then Some (Inl (ErrFreelistCount count))
        else do {
          ids \<leftarrow> decodeFreelist_ids buf 0 (unat count);
          Some (Inr (ids, nxt))
        }
      })"

section \<open>The in-memory queue\<close>

record freelistEntry =
  pageID :: PageId
  freedAt :: TxnID

record freelist =
  pending :: "freelistEntry list"

definition newFreelist :: freelist where
  "newFreelist = \<lparr>pending = []\<rparr>"

fun push :: "freelist \<Rightarrow> TxnID \<Rightarrow> PageId list \<Rightarrow> freelist" where
  "push f ts [] = f"
| "push f ts (pid # ids) = push (f\<lparr>pending := pending f @ [\<lparr>pageID = pid, freedAt = ts\<rparr>]\<rparr>) ts ids"

definition popReusable :: "freelist \<Rightarrow> TxnID \<Rightarrow> (PageId \<times> bool) \<times> freelist" where
  "popReusable f minReaderTxn =
     (case pending f of
        [] \<Rightarrow> ((0, False), f)
      | e # rest \<Rightarrow>
          if freedAt e > minReaderTxn then ((0, False), f)
          else ((pageID e, True), f\<lparr>pending := rest\<rparr>))"

definition allIds :: "freelist \<Rightarrow> PageId list" where
  "allIds f = map pageID (pending f)"

definition load :: "freelist \<Rightarrow> PageId list \<Rightarrow> freelist" where
  "load f ids = f\<lparr>pending := map (\<lambda>pid. \<lparr>pageID = pid, freedAt = 0\<rparr>) ids\<rparr>"

section \<open>The page format round-trips\<close>

lemma encodeFreelist_ids_patch:
  "16 + (i + length ids) * 8 \<le> length buf \<Longrightarrow>
     encodeFreelist_ids buf i ids = Some (patch buf (16 + i * 8) (concat (map (le_bytes 8) ids)))"
proof (induction ids arbitrary: buf i)
  case Nil
  then show ?case by simp
next
  case (Cons pid ids)
  have "length (concat (map (le_bytes 8) ids)) = 8 * length ids"
    by (induction ids) auto
  then show ?case using Cons
    by (simp add: PutUint64_def patch_patch_next algebra_simps)
qed

lemma decodeFreelist_ids_region:
  "16 + (i + length ids) * 8 \<le> length buf \<Longrightarrow>
   region buf (16 + i * 8) (8 * length ids) = concat (map (le_bytes 8) ids) \<Longrightarrow>
     decodeFreelist_ids buf i (length ids) = Some ids"
proof (induction ids arbitrary: i)
  case Nil
  then show ?case by simp
next
  case (Cons pid ids)
  have one: "region buf (16 + i * 8) 8 = le_bytes 8 pid"
    using arg_cong [OF Cons.prems(2), of "take 8"] by (simp add: region_def min_def)
  have rest: "region buf (16 + Suc i * 8) (8 * length ids) = concat (map (le_bytes 8) ids)"
    using arg_cong [OF Cons.prems(2), of "drop 8"] by (simp add: region_def drop_take add.commute)
  have "decodeFreelist_ids buf (Suc i) (length ids) = Some ids"
    using Cons.prems(1) by (intro Cons.IH rest) simp
  then show ?case using Cons.prems(1) one by (simp add: Uint64_in_region algebra_simps)
qed

lemma length_concat_le8 [simp]: "length (concat (map (le_bytes 8) (ids :: u64 list))) = 8 * length ids"
  by (induction ids) auto

text \<open>The image of a freelist page: next id, count, padding, ids.\<close>

definition freelist_image :: "PageId list \<Rightarrow> PageId \<Rightarrow> bytes" where
  "freelist_image ids nxt = le_bytes 8 nxt @ le_bytes 4 (of_nat (length ids) :: u32) @
     le_bytes 4 (0 :: u32) @ concat (map (le_bytes 8) ids)"

lemma length_freelist_image [simp]: "length (freelist_image ids nxt) = 16 + 8 * length ids"
  by (simp add: freelist_image_def)

lemma encodeFreelistPage_image:
  assumes "length ids \<le> freelistPerPage" "16 + 8 * length ids \<le> length buf"
  shows "encodeFreelistPage buf ids nxt = Some (patch buf 0 (freelist_image ids nxt))"
proof -
  have h: "do { buf \<leftarrow> PutUint64 buf 0 8 nxt; buf \<leftarrow> PutUint32 buf 8 12 (of_nat (length ids));
      PutUint32 buf 12 16 0 } = Some (patch buf 0 (le_bytes 8 nxt @ le_bytes 4 (of_nat (length ids) :: u32) @ le_bytes 4 (0 :: u32)))"
    using assms(2) by (simp add: PutUint64_def PutUint32_def patch_patch_next)
  then have "encodeFreelistPage buf ids nxt =
      encodeFreelist_ids (patch buf 0 (le_bytes 8 nxt @ le_bytes 4 (of_nat (length ids) :: u32) @ le_bytes 4 (0 :: u32))) 0 ids"
    using assms(1) by (simp add: encodeFreelistPage_def bind_assoc [symmetric] del: bind_assoc)
  then show ?thesis
    using assms(2) by (simp add: encodeFreelist_ids_patch patch_patch_next freelist_image_def)
qed

lemma decodeFreelistPage_image:
  assumes len: "16 + 8 * length ids \<le> length buf" and cnt: "length ids \<le> freelistPerPage"
    and img: "region buf 0 (16 + 8 * length ids) = freelist_image ids nxt"
  shows "decodeFreelistPage buf = Some (Inr (ids, nxt))"
proof -
  have at: "region buf a n = region (freelist_image ids nxt) a n" if "a + n \<le> 16 + 8 * length ids" for a n
    using region_region [of a n "16 + 8 * length ids" buf 0] that img by simp
  have nx: "Uint64_in buf 0 8 = Some nxt"
    using len by (simp add: Uint64_in_region at) (simp add: freelist_image_def region_def)
  have ct: "Uint32_in buf 8 12 = Some (of_nat (length ids))"
    using len by (simp add: Uint32_in_region at) (simp add: freelist_image_def region_def)
  have "region buf (16 + 0 * 8) (8 * length ids) = concat (map (le_bytes 8) ids)"
    using len by (simp add: at) (simp add: freelist_image_def region_def)
  then have ids: "decodeFreelist_ids buf 0 (length ids) = Some ids"
    using len by (intro decodeFreelist_ids_region) simp_all
  have "unat (of_nat (length ids) :: u32) = length ids"
    using cnt by (simp add: freelistPerPage_def unat_of_nat)
  then show ?thesis
    using len cnt by (simp add: decodeFreelistPage_def nx ct ids)
qed

section \<open>The queue\<close>

lemma push_pending: "pending (push f ts ids) = pending f @ map (\<lambda>pid. \<lparr>pageID = pid, freedAt = ts\<rparr>) ids"
  by (induction f ts ids rule: push.induct) auto

text \<open>Entries are queued in the order they were freed.\<close>

definition fl_sorted :: "freelist \<Rightarrow> bool" where
  "fl_sorted f \<longleftrightarrow> sorted (map freedAt (pending f))"

lemma push_sorted:
  assumes "fl_sorted f" "\<forall>e \<in> set (pending f). freedAt e \<le> ts"
  shows "fl_sorted (push f ts ids)"
proof -
  have "sorted (map (\<lambda>_. ts) ids)" by (induction ids) auto
  then show ?thesis using assms by (auto simp: fl_sorted_def push_pending sorted_append comp_def)
qed

lemma popReusable_sorted: "fl_sorted f \<Longrightarrow> fl_sorted (snd (popReusable f t))"
  by (auto simp: fl_sorted_def popReusable_def split: list.splits)

end
