(* ===== verification/Txn.thy ===== *)
theory Txn
  imports BufferPool Meta Freelist "HOL-Library.AList"
begin

text \<open>
  The database handle and its transactions: \<^verbatim>\<open>src/db.go\<close>, \<^verbatim>\<open>src/txn.go\<close>, and the parts of
  \<^verbatim>\<open>src/meta.go\<close> and \<^verbatim>\<open>src/freelist.go\<close> that go through the buffer pool. An operation
  takes the state and gives \<open>Some (result, state)\<close>, or \<^const>\<open>None\<close> when it panics, blocks for
  ever or runs out of fuel; a \<open>*Page\<close> is a frame number.
\<close>

section \<open>Results and errors\<close>

type_synonym ('a, 's) outcome = "((error + 'a) \<times> 's) option"

text \<open>\<open>x, err := m; if err != nil { cleanup; return err }\<close> and the same without a cleanup.\<close>

definition try_or :: "('a, 's) outcome \<Rightarrow> ('s \<Rightarrow> 's option) \<Rightarrow> ('a \<Rightarrow> 's \<Rightarrow> ('b, 's) outcome) \<Rightarrow> ('b, 's) outcome" where
  "try_or m cleanup k = do {
     (r, s) \<leftarrow> m;
     case r of
       Inl e \<Rightarrow> do { s \<leftarrow> cleanup s; Some (Inl e, s) }
     | Inr x \<Rightarrow> k x s
   }"

definition try_ok :: "('a, 's) outcome \<Rightarrow> ('a \<Rightarrow> 's \<Rightarrow> ('b, 's) outcome) \<Rightarrow> ('b, 's) outcome" where
  "try_ok m k = try_or m Some k"

text \<open>An \<open>error\<close> result on its own.\<close>

definition err_result :: "(error option \<times> 's) option \<Rightarrow> (unit, 's) outcome" where
  "err_result m = do {
     (err, s) \<leftarrow> m;
     Some (case err of None \<Rightarrow> Inr () | Some e \<Rightarrow> Inl e, s)
   }"

section \<open>State\<close>

record BTree =
  root :: PageId

record Bucket =
  name :: bytes
  bt :: "BTree option"
  origRoot :: PageId
  created :: bool
  dropped :: bool

record Txn =
  writable :: bool
  closed :: bool
  meta :: Meta
  initialPageCnt :: u64
  allocated :: "PageId list"
  freed :: "PageId list"
  reusable :: "PageId list"
  buckets :: "(bytes \<times> Bucket) list"

record DB =
  bufferPool :: BufferPool
  currentMeta :: Meta
  currentMetaPage :: PageId
  writerMu :: bool
  freelist :: freelist
  readers :: "(TxnID \<times> int) list"

text \<open>A transaction and the database it points to.\<close>

record world =
  db :: DB
  txn :: Txn

definition in_pool :: "(BufferPool \<Rightarrow> ('a, BufferPool) outcome) \<Rightarrow> DB \<Rightarrow> ('a, DB) outcome" where
  "in_pool m d = do {
     (r, bp) \<leftarrow> m (bufferPool d);
     Some (r, d\<lparr>bufferPool := bp\<rparr>)
   }"

definition in_db :: "(DB \<Rightarrow> ('a, DB) outcome) \<Rightarrow> world \<Rightarrow> ('a, world) outcome" where
  "in_db m w = do {
     (r, d) \<leftarrow> m (db w);
     Some (r, w\<lparr>db := d\<rparr>)
   }"

text \<open>\<open>page.pageId\<close>, \<open>page.data\<close>, \<open>page.Unpin()\<close> and writing to \<open>page.data\<close>.\<close>

definition page_id :: "DB \<Rightarrow> nat \<Rightarrow> PageId" where
  "page_id d f = pageId (frames (bufferPool d) ! f)"

definition page_data :: "DB \<Rightarrow> nat \<Rightarrow> bytes" where
  "page_data d f = data (frames (bufferPool d) ! f)"

definition unpin :: "nat \<Rightarrow> DB \<Rightarrow> DB option" where
  "unpin f d = do {
     bp \<leftarrow> Unpin (bufferPool d) f;
     Some (d\<lparr>bufferPool := bp\<rparr>)
   }"

definition put_data :: "nat \<Rightarrow> bytes \<Rightarrow> DB \<Rightarrow> DB" where
  "put_data f bs d = d\<lparr>bufferPool := set_data f bs (bufferPool d)\<rparr>"

section \<open>Readers\<close>

definition reader_count :: "DB \<Rightarrow> TxnID \<Rightarrow> int" where
  "reader_count d t = (case map_of (readers d) t of None \<Rightarrow> 0 | Some n \<Rightarrow> n)"

definition unregisterReader :: "TxnID \<Rightarrow> DB \<Rightarrow> DB" where
  "unregisterReader t d =
     (let n = reader_count d t - 1
      in if n \<le> 0 then d\<lparr>readers := AList.delete t (readers d)\<rparr>
         else d\<lparr>readers := AList.update t n (readers d)\<rparr>)"

fun min_txn :: "TxnID \<Rightarrow> TxnID list \<Rightarrow> TxnID" where
  "min_txn m [] = m"
| "min_txn m (t # ts) = min_txn (if t < m then t else m) ts"

definition minReaderTxn :: "DB \<Rightarrow> TxnID" where
  "minReaderTxn d = min_txn (txnID (currentMeta d)) (map fst (readers d))"

section \<open>Beginning transactions\<close>

definition BeginRead :: "DB \<Rightarrow> Txn \<times> DB" where
  "BeginRead d =
     (let m = currentMeta d
      in (\<lparr>writable = False, closed = False, meta = m, initialPageCnt = numPages m,
           allocated = [], freed = [], reusable = [], buckets = []\<rparr>,
          d\<lparr>readers := AList.update (txnID m) (reader_count d (txnID m) + 1) (readers d)\<rparr>))"

text \<open>\<open>writerMu.Lock()\<close> waits while another writer holds the lock.\<close>

definition BeginWrite :: "DB \<Rightarrow> (Txn \<times> DB) option" where
  "BeginWrite d =
     (if writerMu d then None
      else
        (let m = currentMeta d
         in Some (\<lparr>writable = True, closed = False, meta = m, initialPageCnt = numPages m,
                   allocated = [], freed = [], reusable = [], buckets = []\<rparr>,
                  d\<lparr>writerMu := True\<rparr>)))"

definition CatalogRoot :: "Txn \<Rightarrow> PageId" where
  "CatalogRoot t = catalogRoot (meta t)"

definition SetCatalogRoot :: "PageId \<Rightarrow> Txn \<Rightarrow> error option \<times> Txn" where
  "SetCatalogRoot pid t =
     (if \<not> writable t then (Some ErrTxnReadOnly, t)
      else if closed t then (Some ErrTxnClosed, t)
      else (None, t\<lparr>meta := (meta t)\<lparr>catalogRoot := pid\<rparr>\<rparr>))"

section \<open>Pages of a transaction\<close>

definition txnGet :: "env \<Rightarrow> PageId \<Rightarrow> world \<Rightarrow> (nat, world) outcome" where
  "txnGet env pid w =
     (if closed (txn w) then Some (Inl ErrTxnClosed, w)
      else in_db (in_pool (\<lambda>bp. Get env bp pid)) w)"

text \<open>The common end of the first two sources of a page: take the page for writing and clear it.\<close>

definition takePage :: "env \<Rightarrow> PageId \<Rightarrow> world \<Rightarrow> (nat, world) outcome" where
  "takePage env pid w =
     try_ok (in_db (in_pool (\<lambda>bp. GetForWrite env bp pid)) w) (\<lambda>f w.
       let w = w\<lparr>db := put_data f (replicate (length (page_data (db w) f)) 0) (db w)\<rparr>
       in Some (Inr f, w\<lparr>txn := (txn w)\<lparr>allocated := allocated (txn w) @ [pid]\<rparr>\<rparr>))"

definition txnAllocatePage :: "env \<Rightarrow> world \<Rightarrow> (nat, world) outcome" where
  "txnAllocatePage env w =
     (if \<not> writable (txn w) then Some (Inl ErrTxnReadOnly, w)
      else if closed (txn w) then Some (Inl ErrTxnClosed, w)
      else if reusable (txn w) \<noteq> [] then
        takePage env (last (reusable (txn w)))
          (w\<lparr>txn := (txn w)\<lparr>reusable := butlast (reusable (txn w))\<rparr>\<rparr>)
      else
        (case popReusable (freelist (db w)) (minReaderTxn (db w)) of
           ((pid, True), fl) \<Rightarrow> takePage env pid (w\<lparr>db := (db w)\<lparr>freelist := fl\<rparr>\<rparr>)
         | ((_, False), fl) \<Rightarrow>
             (let m = meta (txn w);
                  pid = numPages m;
                  w = w\<lparr>txn := (txn w)\<lparr>meta := m\<lparr>numPages := numPages m + 1\<rparr>\<rparr>\<rparr>
              in try_ok (in_db (in_pool (\<lambda>bp. AllocatePage env bp pid)) w) (\<lambda>f w.
                   Some (Inr f, w\<lparr>txn := (txn w)\<lparr>allocated := allocated (txn w) @ [pid]\<rparr>\<rparr>)))))"

definition FreePage :: "PageId \<Rightarrow> Txn \<Rightarrow> Txn option" where
  "FreePage pid t =
     (if \<not> writable t then None
      else if closed t then None
      else if pid \<ge> initialPageCnt t
      then Some (t\<lparr>allocated := remove1 pid (allocated t), reusable := reusable t @ [pid]\<rparr>)
      else Some (t\<lparr>freed := freed t @ [pid]\<rparr>))"

section \<open>The free list on disk\<close>

fun walkChainIDs_loop :: "nat \<Rightarrow> env \<Rightarrow> PageId \<Rightarrow> PageId list \<Rightarrow> DB \<Rightarrow> (PageId list, DB) outcome" where
  "walkChainIDs_loop 0 env pid ids d = None"
| "walkChainIDs_loop (Suc n) env pid ids d =
     (if pid = 0 then Some (Inr ids, d)
      else try_ok (in_pool (\<lambda>bp. Get env bp pid) d) (\<lambda>f d. do {
        next \<leftarrow> freelistPageNext (page_data d f);
        d \<leftarrow> unpin f d;
        walkChainIDs_loop n env next (ids @ [pid]) d
      }))"

definition walkChainIDs :: "env \<Rightarrow> PageId \<Rightarrow> DB \<Rightarrow> (PageId list, DB) outcome" where
  "walkChainIDs env head d =
     (if head = 0 then Some (Inr [], d) else walkChainIDs_loop (fuel env) env head [] d)"

fun readFreelistChain_loop :: "nat \<Rightarrow> env \<Rightarrow> PageId \<Rightarrow> PageId list \<Rightarrow> DB \<Rightarrow> (PageId list, DB) outcome" where
  "readFreelistChain_loop 0 env pid all d = None"
| "readFreelistChain_loop (Suc n) env pid all d =
     (if pid = 0 then Some (Inr all, d)
      else try_ok (in_pool (\<lambda>bp. Get env bp pid) d) (\<lambda>f d. do {
        r \<leftarrow> decodeFreelistPage (page_data d f);
        d \<leftarrow> unpin f d;
        case r of
          Inl e \<Rightarrow> Some (Inl e, d)
        | Inr (ids, next) \<Rightarrow> readFreelistChain_loop n env next (all @ ids) d
      }))"

definition readFreelistChain :: "env \<Rightarrow> PageId \<Rightarrow> DB \<Rightarrow> (PageId list, DB) outcome" where
  "readFreelistChain env head d = readFreelistChain_loop (fuel env) env head [] d"

text \<open>\<open>persistFreelist\<close>: the loop that allocates the chain's pages, the loop that fills them.\<close>

definition persist_ids :: "world \<Rightarrow> PageId list" where
  "persist_ids w = allIds (freelist (db w)) @ freed (txn w) @ reusable (txn w)"

fun chain_alloc :: "nat \<Rightarrow> env \<Rightarrow> PageId list \<Rightarrow> world \<Rightarrow> (PageId list, world) outcome" where
  "chain_alloc 0 env chainIDs w = None"
| "chain_alloc (Suc n) env chainIDs w =
     (let count = length (pending (freelist (db w))) + length (freed (txn w)) + length (reusable (txn w));
          need = (count + freelistPerPage - 1) div freelistPerPage
      in if length chainIDs \<ge> need then Some (Inr chainIDs, w)
         else try_ok (txnAllocatePage env w) (\<lambda>f w. do {
           d \<leftarrow> unpin f (db w);
           chain_alloc n env (chainIDs @ [page_id d f]) (w\<lparr>db := d\<rparr>)
         }))"

fun chain_fill :: "env \<Rightarrow> PageId list \<Rightarrow> nat \<Rightarrow> PageId list \<Rightarrow> world \<Rightarrow> (unit, world) outcome" where
  "chain_fill env persist i [] w = Some (Inr (), w)"
| "chain_fill env persist i (pid # rest) w =
     try_ok (in_db (in_pool (\<lambda>bp. GetForWrite env bp pid)) w) (\<lambda>f w. do {
       let start = i * freelistPerPage;
       let stop = min (start + freelistPerPage) (length persist);
       let next = (case rest of [] \<Rightarrow> 0 | q # _ \<Rightarrow> q);
       let buf = replicate (length (page_data (db w) f)) 0;
       ids \<leftarrow> goslice persist start stop;
       buf \<leftarrow> encodeFreelistPage buf ids next;
       d \<leftarrow> unpin f (put_data f buf (db w));
       chain_fill env persist (Suc i) rest (w\<lparr>db := d\<rparr>)
     })"

definition set_freelistRoot :: "PageId \<Rightarrow> world \<Rightarrow> world" where
  "set_freelistRoot pid w = w\<lparr>txn := (txn w)\<lparr>meta := (meta (txn w))\<lparr>freelistRoot := pid\<rparr>\<rparr>\<rparr>"

definition persistFreelist :: "env \<Rightarrow> world \<Rightarrow> (unit, world) outcome" where
  "persistFreelist env w =
     try_ok (in_db (walkChainIDs env (freelistRoot (meta (txn w)))) w) (\<lambda>oldChain w.
     let w = w\<lparr>txn := (txn w)\<lparr>freed := freed (txn w) @ oldChain\<rparr>\<rparr>
     in try_ok (chain_alloc (fuel env) env [] w) (\<lambda>chainIDs w.
        if chainIDs = [] then Some (Inr (), set_freelistRoot 0 w)
        else try_ok (chain_fill env (persist_ids w) 0 chainIDs w) (\<lambda>_ w.
          Some (Inr (), set_freelistRoot (hd chainIDs) w))))"

section \<open>Headers\<close>

text \<open>\<open>writeMeta\<close> and \<open>commitMeta\<close> store the checksum in the caller's header, which they return.\<close>

definition writeMeta :: "env \<Rightarrow> Meta \<Rightarrow> PageId \<Rightarrow> DB \<Rightarrow> (Meta, DB) outcome" where
  "writeMeta env m pid d =
     try_ok (in_pool (\<lambda>bp. GetForWrite env bp pid) d) (\<lambda>f d. do {
       r \<leftarrow> encodeMeta m (page_data d f);
       case r of
         Inl e \<Rightarrow> do { d \<leftarrow> unpin f d; Some (Inl e, d) }
       | Inr (m, buf) \<Rightarrow> do { d \<leftarrow> unpin f (put_data f buf d); Some (Inr m, d) }
     })"

definition commitMeta :: "env \<Rightarrow> Meta \<Rightarrow> DB \<Rightarrow> (Meta, DB) outcome" where
  "commitMeta env newMeta d =
     (let nextPage = nextMetaPage (currentMetaPage d)
      in try_ok (writeMeta env newMeta nextPage d) (\<lambda>newMeta d.
         try_ok (in_pool (\<lambda>bp. err_result (FlushPage bp nextPage)) d) (\<lambda>_ d.
         try_ok (in_pool (\<lambda>bp. err_result (Some (SyncPool bp))) d) (\<lambda>_ d.
           Some (Inr newMeta, d\<lparr>currentMeta := newMeta, currentMetaPage := nextPage\<rparr>)))))"

text \<open>\<open>loadMeta\<close>: the two pages are unpinned by deferred calls, the second one first.\<close>

definition load_page :: "env \<Rightarrow> PageId \<Rightarrow> DB \<Rightarrow> ((error + nat) \<times> DB) option" where
  "load_page env pid d = in_pool (\<lambda>bp. Get env bp pid) d"

definition decode_loaded :: "error + nat \<Rightarrow> DB \<Rightarrow> (error + Meta) option" where
  "decode_loaded r d = (case r of Inl e \<Rightarrow> Some (Inl e) | Inr f \<Rightarrow> decodeMeta (page_data d f))"

definition unpin_loaded :: "error + nat \<Rightarrow> DB \<Rightarrow> DB option" where
  "unpin_loaded r d = (case r of Inl e \<Rightarrow> Some d | Inr f \<Rightarrow> unpin f d)"

definition loadMeta :: "env \<Rightarrow> DB \<Rightarrow> (Meta \<times> PageId, DB) outcome" where
  "loadMeta env d = do {
     (page0, d) \<leftarrow> load_page env metaPage0 d;
     (page1, d) \<leftarrow> load_page env metaPage1 d;
     m0 \<leftarrow> decode_loaded page0 d;
     m1 \<leftarrow> decode_loaded page1 d;
     d \<leftarrow> unpin_loaded page1 d;
     d \<leftarrow> unpin_loaded page0 d;
     Some (chooseMeta m0 m1, d)
   }"

definition init_meta_page :: "env \<Rightarrow> Meta \<Rightarrow> PageId \<Rightarrow> DB \<Rightarrow> (Meta, DB) outcome" where
  "init_meta_page env base pid d =
     try_ok (in_pool (\<lambda>bp. AllocatePage env bp pid) d) (\<lambda>f d. do {
       r \<leftarrow> encodeMeta base (page_data d f);
       case r of
         Inl e \<Rightarrow> do { d \<leftarrow> unpin f d; Some (Inl e, d) }
       | Inr (base, buf) \<Rightarrow> do { d \<leftarrow> unpin f (put_data f buf d); Some (Inr base, d) }
     })"

definition initMetas :: "env \<Rightarrow> DB \<Rightarrow> (unit, DB) outcome" where
  "initMetas env d =
     try_ok (init_meta_page env baseMeta metaPage0 d) (\<lambda>base d.
     try_ok (init_meta_page env base metaPage1 d) (\<lambda>base d.
     try_ok (in_pool (\<lambda>bp. err_result (FlushAll env bp)) d) (\<lambda>_ d.
     try_ok (in_pool (\<lambda>bp. err_result (Some (SyncPool bp))) d) (\<lambda>_ d.
       Some (Inr (), d\<lparr>currentMeta := base, currentMetaPage := metaPage0\<rparr>)))))"

section \<open>Ending transactions without a commit\<close>

fun mark_clean_all :: "PageId list \<Rightarrow> DB \<Rightarrow> DB" where
  "mark_clean_all [] d = d"
| "mark_clean_all (pid # pids) d = mark_clean_all pids (d\<lparr>bufferPool := MarkClean (bufferPool d) pid\<rparr>)"

text \<open>\<open>writerMu.Unlock()\<close> of an unlocked mutex is a fatal error.\<close>

definition unlock_writer :: "DB \<Rightarrow> DB option" where
  "unlock_writer d = (if writerMu d then Some (d\<lparr>writerMu := False\<rparr>) else None)"

definition abortInternal :: "world \<Rightarrow> world option" where
  "abortInternal w = do {
     let d = mark_clean_all (reusable (txn w)) (mark_clean_all (allocated (txn w)) (db w));
     let t = (txn w)\<lparr>closed := True\<rparr>;
     d \<leftarrow> unlock_writer d;
     Some \<lparr>db = d, txn = t\<rparr>
   }"

definition Abort :: "world \<Rightarrow> world option" where
  "Abort w =
     (if closed (txn w) then Some w
      else do {
        let d = (if writable (txn w)
                 then mark_clean_all (reusable (txn w)) (mark_clean_all (allocated (txn w)) (db w))
                 else unregisterReader (txnID (meta (txn w))) (db w));
        let t = (txn w)\<lparr>closed := True\<rparr>;
        d \<leftarrow> (if writable t then unlock_writer d else Some d);
        Some \<lparr>db = d, txn = t\<rparr>
      })"

end
