(* ===== verification/NodeRep.thy ===== *)
theory NodeRep
  imports BNode
begin

text \<open>
  What a slotted page means. \<open>node_rep d t sl\<close> says that the bytes \<open>d\<close> are a page of type \<open>t\<close>
  whose \<open>i\<close>-th slot is the pair \<open>sl ! i\<close> of the cell's offset and its raw bytes: the header
  counts the slots, the offset array lists their offsets, the cells lie inside the cell area
  without overlapping, their sizes add up to it, and every cell is as long as its own length
  fields say. Every operation of \<^theory_text>\<open>BNode\<close> is then shown to act on the list of cells the way
  its name says.
\<close>

section \<open>Cells and slots\<close>

type_synonym slot = "nat \<times> bytes"

definition hdr :: "byte \<Rightarrow> nat" where
  "hdr t = (if t = nodeLeaf then 5 else 13)"

definition cell_hdr :: "byte \<Rightarrow> nat" where
  "cell_hdr t = (if t = nodeLeaf then 5 else 10)"

definition cell_keylen :: "byte \<Rightarrow> bytes \<Rightarrow> u16" where
  "cell_keylen t c = le_word (region c (if t = nodeLeaf then 0 else 8) 2)"

definition cell_key :: "byte \<Rightarrow> bytes \<Rightarrow> bytes" where
  "cell_key t c = region c (cell_hdr t) (unat (cell_keylen t c))"

text \<open>The bytes after the key: 8 for an overflow page id, \<open>valueLen\<close> for an inline value, none in
  an internal cell.\<close>

definition cell_tail :: "byte \<Rightarrow> bytes \<Rightarrow> nat" where
  "cell_tail t c =
     (if t = nodeLeaf then (if c ! 4 = 1 then 8 else unat (le_word (region c 2 2) :: u16)) else 0)"

definition cell_ok :: "byte \<Rightarrow> bytes \<Rightarrow> bool" where
  "cell_ok t c \<longleftrightarrow> length c = cell_hdr t + unat (cell_keylen t c) + cell_tail t c"

definition csz :: "slot list \<Rightarrow> nat" where
  "csz sl = sum_list (map (length \<circ> snd) sl)"

definition enc_offs :: "slot list \<Rightarrow> bytes" where
  "enc_offs sl = concat (map (\<lambda>s. le_bytes 2 (of_nat (fst s) :: u16)) sl)"

definition slot_ok :: "bytes \<Rightarrow> byte \<Rightarrow> nat \<Rightarrow> slot \<Rightarrow> bool" where
  "slot_ok d t lo s \<longleftrightarrow>
     lo \<le> fst s \<and> fst s + length (snd s) \<le> 4096 \<and>
     region d (fst s) (length (snd s)) = snd s \<and> cell_ok t (snd s)"

definition apart :: "slot \<Rightarrow> slot \<Rightarrow> bool" where
  "apart s s' \<longleftrightarrow> fst s + length (snd s) \<le> fst s' \<or> fst s' + length (snd s') \<le> fst s"

definition body_rep :: "bytes \<Rightarrow> byte \<Rightarrow> slot list \<Rightarrow> bool" where
  "body_rep d t sl \<longleftrightarrow>
     length d = 4096 \<and> (t = nodeInternal \<or> t = nodeLeaf) \<and> d ! 0 = t \<and>
     hdr t + 2 * length sl + csz sl \<le> 4096 \<and>
     region d (hdr t) (2 * length sl) = enc_offs sl \<and>
     (\<forall>s \<in> set sl. slot_ok d t (4096 - csz sl) s) \<and> sorted_wrt apart sl"

definition header_rep :: "bytes \<Rightarrow> nat \<Rightarrow> nat \<Rightarrow> bool" where
  "header_rep d n first \<longleftrightarrow>
     region d 1 2 = le_bytes 2 (of_nat n :: u16) \<and> region d 3 2 = le_bytes 2 (of_nat first :: u16)"

definition node_rep :: "bytes \<Rightarrow> byte \<Rightarrow> slot list \<Rightarrow> bool" where
  "node_rep d t sl \<longleftrightarrow> body_rep d t sl \<and> header_rep d (length sl) (4096 - csz sl)"

text \<open>The client's view: the page of type \<open>t\<close> holds exactly the raw cells \<open>cs\<close>, in order.\<close>

definition node_cells :: "bytes \<Rightarrow> byte \<Rightarrow> bytes list \<Rightarrow> bool" where
  "node_cells d t cs \<longleftrightarrow> (\<exists>sl. node_rep d t sl \<and> map snd sl = cs)"

text \<open>The bytes a set of cells needs: the cells and one 2-byte offset each.\<close>

definition cost :: "bytes list \<Rightarrow> nat" where
  "cost cs = sum_list (map (\<lambda>c. length c + 2) cs)"

section \<open>The slot list\<close>

lemma csz_simps [simp]:
  "csz [] = 0" "csz (s # sl) = length (snd s) + csz sl" "csz (xs @ ys) = csz xs + csz ys"
  by (simp_all add: csz_def)

lemma enc_offs_simps [simp]:
  "enc_offs [] = []" "enc_offs (s # sl) = le_bytes 2 (of_nat (fst s) :: u16) @ enc_offs sl"
  "enc_offs (xs @ ys) = enc_offs xs @ enc_offs ys"
  by (simp_all add: enc_offs_def)

lemma length_enc_offs [simp]: "length (enc_offs sl) = 2 * length sl"
  by (induction sl) auto

lemma enc_offs_drop: "i \<le> length sl \<Longrightarrow> enc_offs (drop i sl) = drop (2 * i) (enc_offs sl)"
  by (induction sl arbitrary: i) (auto simp: drop_Cons split: nat.splits)

lemma enc_offs_take: "i \<le> length sl \<Longrightarrow> enc_offs (take i sl) = take (2 * i) (enc_offs sl)"
  by (induction sl arbitrary: i) (auto simp: take_Cons split: nat.splits)

lemma region_enc_offs:
  assumes "i < length sl"
  shows "region (enc_offs sl) (2 * i) 2 = le_bytes 2 (of_nat (fst (sl ! i)) :: u16)"
proof -
  have "drop (2 * i) (enc_offs sl) = enc_offs (sl ! i # drop (Suc i) sl)"
    using assms by (simp only: enc_offs_drop [symmetric] Cons_nth_drop_Suc less_imp_le)
  then show ?thesis by (simp add: region_def)
qed

lemma csz_take_drop: "i \<le> length sl \<Longrightarrow> csz (take i sl) + csz (drop i sl) = csz sl"
  by (metis append_take_drop_id csz_simps(3))

lemma cost_simps [simp]:
  "cost [] = 0" "cost (c # cs) = length c + 2 + cost cs" "cost (xs @ ys) = cost xs + cost ys"
  by (simp_all add: cost_def)

lemma cost_map_snd: "cost (map snd sl) = csz sl + 2 * length sl"
  by (induction sl) auto

lemma hdr_cases: "hdr t = 5 \<or> hdr t = 13"
  by (simp add: hdr_def)

lemma hdr_bounds [simp]: "5 \<le> hdr t" "hdr t \<le> 13"
  by (simp_all add: hdr_def)

lemma cell_ok_length: "cell_ok t c \<Longrightarrow> cell_hdr t \<le> length c"
  by (simp add: cell_ok_def)

lemma body_rep_slot:
  "body_rep d t sl \<Longrightarrow> i < length sl \<Longrightarrow> slot_ok d t (4096 - csz sl) (sl ! i)"
  by (simp add: body_rep_def)

lemma region_offset:
  assumes "body_rep d t sl" "i < length sl"
  shows "region d (hdr t + 2 * i) 2 = le_bytes 2 (of_nat (fst (sl ! i)) :: u16)"
proof -
  have "region (region d (hdr t) (2 * length sl)) (2 * i) 2 = region d (hdr t + 2 * i) 2"
    using assms(2) by (intro region_region) simp
  then show ?thesis using assms by (simp add: body_rep_def region_enc_offs)
qed

section \<open>Writes that keep the slots\<close>

lemma slot_ok_patch:
  assumes "slot_ok d t lo s" "length d = 4096" "a + length bs \<le> 4096"
    and "a + length bs \<le> fst s \<or> fst s + length (snd s) \<le> a"
  shows "slot_ok (patch d a bs) t lo s"
  using assms by (auto simp: slot_ok_def patch_simps)

text \<open>A write into the header or into the free gap leaves the slots as they are.\<close>

lemma body_rep_patch_gap:
  assumes rep: "body_rep d t sl" and pos: "1 \<le> a"
    and free: "a + length bs \<le> hdr t \<or>
               hdr t + 2 * length sl \<le> a \<and> a + length bs \<le> 4096 - csz sl"
  shows "body_rep (patch d a bs) t sl"
proof -
  have fit: "a + length bs \<le> 4096" and len: "length d = 4096"
    using rep free by (auto simp: body_rep_def)
  have "slot_ok (patch d a bs) t (4096 - csz sl) s" if "s \<in> set sl" for s
  proof (rule slot_ok_patch)
    show "slot_ok d t (4096 - csz sl) s" using rep that by (simp add: body_rep_def)
    then have "4096 - csz sl \<le> fst s" by (simp add: slot_ok_def)
    moreover have "hdr t \<le> 4096 - csz sl" using rep by (auto simp: body_rep_def)
    ultimately show "a + length bs \<le> fst s \<or> fst s + length (snd s) \<le> a"
      using free by linarith
  qed (use fit len in auto)
  moreover have "region (patch d a bs) (hdr t) (2 * length sl) = region d (hdr t) (2 * length sl)"
    using free fit len by (auto simp: patch_simps)
  moreover have "patch d a bs ! 0 = d ! 0"
    using pos fit len by (simp add: nth_patch)
  ultimately show ?thesis using rep fit by (auto simp: body_rep_def)
qed

text \<open>The one write every insertion performs: the cell goes just below the cell area, its offset
  into position \<open>i\<close> of the offset array, and the later offsets move up by one.\<close>

lemma body_rep_insert:
  assumes rep: "body_rep d t sl" and i: "i \<le> length sl" and ok: "cell_ok t c"
    and fits: "hdr t + 2 * length sl + csz sl + (length c + 2) \<le> 4096"
    and p: "p = 4096 - (csz sl + length c)"
  shows "body_rep (patch (patch d p c) (hdr t + 2 * i)
                     (le_bytes 2 (of_nat p :: u16) @ enc_offs (drop i sl)))
           t (take i sl @ (p, c) # drop i sl)"
    (is "body_rep ?d t ?sl")
proof -
  have len: "length d = 4096" using rep by (simp add: body_rep_def)
  have pc: "p + length c = 4096 - csz sl" and p_low: "hdr t + 2 * (length sl + 1) \<le> p"
    using fits p by auto
  let ?d1 = "patch d p c"
  have rep1: "body_rep ?d1 t sl"
    using rep p_low pc by (intro body_rep_patch_gap) auto
  have len1: "length ?d1 = 4096" using len pc by simp
  have cs: "csz ?sl = csz sl + length c"
    using csz_take_drop [OF i] by simp
  have lo: "4096 - csz ?sl = p" using pc cs p by simp
  have wr: "hdr t + 2 * i + length (le_bytes 2 (of_nat p :: u16) @ enc_offs (drop i sl)) = hdr t + 2 * (length sl + 1)"
    using i by simp
  have offs: "region ?d (hdr t) (2 * length ?sl) = enc_offs ?sl"
  proof -
    have "take (2 * i) (region ?d1 (hdr t) (2 * length sl)) = enc_offs (take i sl)"
      using rep1 i by (simp add: body_rep_def enc_offs_take)
    then have "region ?d1 (hdr t) (2 * i) = enc_offs (take i sl)"
      using i by (simp add: region_def min_def)
    moreover have "take (hdr t + 2 * i) ?d1 = take (hdr t) ?d1 @ region ?d1 (hdr t) (2 * i)"
      by (simp add: region_def take_add)
    ultimately have "?d = take (hdr t) ?d1 @ (enc_offs ?sl @
        drop (hdr t + 2 * i + length (le_bytes 2 (of_nat p :: u16) @ enc_offs (drop i sl))) ?d1)"
      by (simp add: patch_def)
    moreover have "length (take (hdr t) ?d1) = hdr t" using len1 by (simp add: hdr_def)
    ultimately show ?thesis using i by (simp add: region_def)
  qed
  have slots: "slot_ok ?d t p s" if "s \<in> set ?sl" for s
  proof (rule slot_ok_patch)
    show "slot_ok ?d1 t p s"
    proof (cases "s = (p, c)")
      case True
      then show ?thesis using len pc ok by (simp add: slot_ok_def region_patch_same)
    next
      case False
      then have "s \<in> set sl" using that by (auto dest: in_set_takeD in_set_dropD)
      then show ?thesis using rep1 pc by (auto simp: body_rep_def slot_ok_def)
    qed
    then have "p \<le> fst s" by (simp add: slot_ok_def)
    then show "hdr t + 2 * i + length (le_bytes 2 (of_nat p :: u16) @ enc_offs (drop i sl)) \<le> fst s \<or>
               fst s + length (snd s) \<le> hdr t + 2 * i"
      using p_low wr by linarith
  qed (use len1 wr p_low pc in auto)
  have far: "apart s (p, c) \<and> apart (p, c) s" if "s \<in> set sl" for s
    using rep that pc by (auto simp: body_rep_def slot_ok_def apart_def)
  have sorted: "sorted_wrt apart ?sl"
  proof -
    have "sorted_wrt apart (take i sl @ drop i sl)" using rep by (simp add: body_rep_def)
    then show ?thesis
      by (auto simp only: sorted_wrt_append sorted_wrt.simps list.set
          dest: in_set_takeD in_set_dropD intro: far [THEN conjunct1] far [THEN conjunct2])
  qed
  have zero: "?d ! 0 = t"
    using rep1 wr p_low pc len1 by (simp add: nth_patch body_rep_def hdr_def)
  have fits': "hdr t + 2 * length ?sl + csz ?sl \<le> 4096" using fits cs i by simp
  have len': "length ?d = 4096" using len1 wr p_low pc by simp
  show ?thesis
    unfolding body_rep_def lo using rep len' zero fits' offs slots sorted
    by (simp add: body_rep_def)
qed

section \<open>Reading a page\<close>

lemma node_repD:
  assumes "node_rep d t sl"
  shows "body_rep d t sl" "length d = 4096" "t = 1 \<or> t = 2" "d ! 0 = t"
    "hdr t + 2 * length sl + csz sl \<le> 4096"
  using assms by (auto simp: node_rep_def body_rep_def)

lemma node_rep_nCells: "node_rep d t sl \<Longrightarrow> nCells d = Some (of_nat (length sl))"
  by (simp add: node_rep_def body_rep_def header_rep_def nCells_def Uint16_in_region)

lemma node_rep_first:
  "node_rep d t sl \<Longrightarrow> firstCellOffset d = Some (of_nat (4096 - csz sl))"
  by (simp add: node_rep_def body_rep_def header_rep_def firstCellOffset_def Uint16_in_region)

lemma node_rep_ntype: "node_rep d t sl \<Longrightarrow> ntype d = Some t"
  by (auto simp: node_rep_def body_rep_def ntype_def goindex_def)

lemma node_rep_headerSize: "node_rep d t sl \<Longrightarrow> headerSize d = Some (of_nat (hdr t))"
  by (simp add: headerSize_def node_rep_ntype hdr_def)

lemmas node_reads = node_rep_nCells node_rep_first node_rep_ntype node_rep_headerSize

lemma node_rep_freeSpace:
  assumes "node_rep d t sl"
  shows "freeSpace d = Some (of_nat (4096 - csz sl - (hdr t + 2 * length sl)))"
  using assms node_repD(5) [OF assms]
  by (simp add: freeSpace_def node_reads of_nat_diff mult.commute)

lemma node_rep_slot:
  assumes "node_rep d t sl" "i < length sl"
  shows "slot_ok d t (4096 - csz sl) (sl ! i)"
  using assms by (simp add: node_rep_def body_rep_slot)

lemma node_rep_offset_at:
  assumes rep: "node_rep d t sl" and i: "unat idx < length sl"
  shows "u16_at d (of_nat (hdr t) + idx * 2) = Some (of_nat (fst (sl ! unat idx)))"
proof -
  have n: "hdr t + 2 * length sl \<le> 4096" using node_repD(5) [OF rep] by simp
  have pos: "unat ((of_nat (hdr t) :: u16) + idx * 2) = hdr t + 2 * unat idx"
    using n i by (simp add: u16_simps)
  have "u16_at d (of_nat (hdr t) + idx * 2) = Some (le_word (region d (hdr t + 2 * unat idx) 2))"
    using n i node_repD(2) [OF rep] by (subst u16_at_region) (simp_all add: pos)
  also have "region d (hdr t + 2 * unat idx) 2 = le_bytes 2 (of_nat (fst (sl ! unat idx)) :: u16)"
    using node_repD(1) [OF rep] i by (rule region_offset)
  finally show ?thesis by simp
qed

lemma node_rep_cellOffset:
  assumes rep: "node_rep d t sl" and i: "unat idx < length sl"
  shows "cellOffset d idx = Some (of_nat (fst (sl ! unat idx)))"
proof -
  have "idx < of_nat (length sl)" using node_repD(5) [OF rep] i by (simp add: u16_simps)
  then show ?thesis
    by (simp add: cellOffset_def node_reads [OF rep] go_assert_def node_rep_offset_at [OF rep i])
qed

text \<open>Reads inside a cell are reads of the cell.\<close>

lemma slot_region:
  assumes "slot_ok d t lo s" "j + n \<le> length (snd s)"
  shows "region d (fst s + j) n = region (snd s) j n"
proof -
  have "region (region d (fst s) (length (snd s))) j n = region d (fst s + j) n"
    using assms(2) by (rule region_region)
  then show ?thesis using assms(1) by (simp add: slot_ok_def)
qed

lemma slot_nth:
  assumes "slot_ok d t lo s" "length d = 4096" "j < length (snd s)"
  shows "d ! (fst s + j) = snd s ! j"
proof -
  have "region d (fst s) (length (snd s)) ! j = d ! (fst s + j)"
    using assms by (intro nth_region) (auto simp: slot_ok_def)
  then show ?thesis using assms(1) by (simp add: slot_ok_def)
qed

lemma slot_goslice:
  assumes "slot_ok d t lo s" "length d = 4096" "j + n \<le> length (snd s)"
  shows "goslice d (fst s + j) (fst s + j + n) = Some (region (snd s) j n)"
  using assms slot_region [OF assms(1,3)]
  by (subst goslice_region) (auto simp: slot_ok_def)

text \<open>The length fields of a cell, read through the page.\<close>

lemma slot_fields:
  fixes pos :: u16
  assumes ok: "slot_ok d t lo s" and len: "length d = 4096" and pos: "pos = of_nat (fst s)"
  shows "t = nodeLeaf \<Longrightarrow> u16_at d pos = Some (cell_keylen t (snd s))"
    and "t = nodeLeaf \<Longrightarrow> Uint16_in d (unat (pos + 2)) (unat (pos + 4)) = Some (le_word (region (snd s) 2 2))"
    and "t = nodeLeaf \<Longrightarrow> goindex d (unat (pos + 4)) = Some (snd s ! 4)"
    and "t = nodeInternal \<Longrightarrow> Uint16_in d (unat (pos + 8)) (unat (pos + 10)) = Some (cell_keylen t (snd s))"
    and "t = nodeInternal \<Longrightarrow> Uint64_in d (unat pos) (unat (pos + 8)) = Some (le_word (region (snd s) 0 8))"
proof -
  have b: "fst s + length (snd s) \<le> 4096" and h: "cell_hdr t \<le> length (snd s)"
    using ok by (auto simp: slot_ok_def dest: cell_ok_length)
  have u: "unat pos = fst s" "k \<le> 10 \<Longrightarrow> unat (pos + of_nat k) = fst s + k" for k
    using b pos by (simp_all add: u16_simps)
  note u2 = u(2) [of 2, simplified] u(2) [of 4, simplified] u(2) [of 8, simplified]
    u(2) [of 10, simplified]
  {
    assume t: "t = nodeLeaf"
    then have h5: "5 \<le> length (snd s)" using h by (simp add: cell_hdr_def)
    have "u16_at d pos = Some (le_word (region d (fst s) 2))"
      using b h5 len u(1) by (subst u16_at_region) simp_all
    then show "u16_at d pos = Some (cell_keylen t (snd s))"
      using slot_region [OF ok, of 0 2] h5 t by (simp add: cell_keylen_def)
    show "Uint16_in d (unat (pos + 2)) (unat (pos + 4)) = Some (le_word (region (snd s) 2 2))"
      using slot_goslice [OF ok len, of 2 2] h5 by (simp add: u2 Uint16_in_def Uint16_def numeral_eq_Suc)
    show "goindex d (unat (pos + 4)) = Some (snd s ! 4)"
      using slot_nth [OF ok len, of 4] h5 b len by (simp add: u2 goindex_def)
  next
    assume t: "t = nodeInternal"
    then have h10: "10 \<le> length (snd s)" using h by (simp add: cell_hdr_def)
    show "Uint16_in d (unat (pos + 8)) (unat (pos + 10)) = Some (cell_keylen t (snd s))"
      using slot_goslice [OF ok len, of 8 2] h10 t by (simp add: u2 Uint16_in_def Uint16_def cell_keylen_def add.commute)
    show "Uint64_in d (unat pos) (unat (pos + 8)) = Some (le_word (region (snd s) 0 8))"
      using slot_goslice [OF ok len, of 0 8] h10 by (simp add: u u2 Uint64_in_def Uint64_def)
  }
qed

lemma slot_key:
  fixes pos :: u16
  assumes ok: "slot_ok d t lo s" and len: "length d = 4096" and pos: "pos = of_nat (fst s)"
    and ks: "keyStart = pos + of_nat (cell_hdr t)"
  shows "goslice d (unat keyStart) (unat (keyStart + cell_keylen t (snd s))) = Some (cell_key t (snd s))"
proof -
  have b: "fst s + length (snd s) \<le> 4096" using ok by (simp add: slot_ok_def)
  have k: "cell_hdr t + unat (cell_keylen t (snd s)) \<le> length (snd s)"
    using ok by (simp add: slot_ok_def cell_ok_def)
  have "unat keyStart = fst s + cell_hdr t"
    "unat (keyStart + cell_keylen t (snd s)) = fst s + cell_hdr t + unat (cell_keylen t (snd s))"
    using b k ks pos by (simp_all add: u16_simps)
  then show ?thesis using slot_goslice [OF ok len k] by (simp add: cell_key_def)
qed

lemma node_rep_key:
  assumes rep: "node_rep d t sl" and i: "unat idx < length sl"
  shows "key d idx = Some (cell_key t (snd (sl ! unat idx)))"
proof -
  note ok = node_rep_slot [OF rep i] and len = node_repD(2) [OF rep]
  note fields = slot_fields [OF ok len refl] and ks = slot_key [OF ok len refl refl]
  from node_repD(3) [OF rep] show ?thesis
  proof
    assume t: "t = 1"
    then show ?thesis using fields(4) ks
      by (simp add: key_def node_reads [OF rep] node_rep_cellOffset [OF rep i] cell_hdr_def)
  next
    assume t: "t = 2"
    then show ?thesis using fields(1) ks
      by (simp add: key_def node_reads [OF rep] node_rep_cellOffset [OF rep i] cell_hdr_def)
  qed
qed

text \<open>The size the page code computes for a leaf or an internal cell from its length fields.\<close>

lemma cell_ok_leaf_size:
  "cell_ok 2 c \<Longrightarrow> (of_nat (length c) :: u16) =
     (if c ! 4 = 1 then 5 + cell_keylen 2 c + 8 else 5 + cell_keylen 2 c + le_word (region c 2 2))"
  by (simp add: cell_ok_def cell_hdr_def cell_tail_def)

lemma cell_ok_internal_size:
  "cell_ok 1 c \<Longrightarrow> (of_nat (length c) :: u16) = 10 + cell_keylen 1 c"
  by (simp add: cell_ok_def cell_hdr_def cell_tail_def)

lemma node_rep_cellSize:
  assumes rep: "node_rep d t sl" and i: "unat idx < length sl"
  shows "cellSize d idx = Some (of_nat (length (snd (sl ! unat idx))))"
proof -
  note ok = node_rep_slot [OF rep i] and len = node_repD(2) [OF rep]
  note fields = slot_fields [OF ok len refl]
  have c: "cell_ok t (snd (sl ! unat idx))" using ok by (simp add: slot_ok_def)
  from node_repD(3) [OF rep] show ?thesis
  proof
    assume t: "t = 1"
    with c fields(4) show ?thesis
      by (simp add: cellSize_def node_reads [OF rep] node_rep_cellOffset [OF rep i]
          cell_ok_internal_size)
  next
    assume t: "t = 2"
    with c fields(1-3) show ?thesis
      by (simp add: cellSize_def node_reads [OF rep] node_rep_cellOffset [OF rep i]
          cell_ok_leaf_size)
  qed
qed

lemma node_rep_raw_cell:
  assumes rep: "node_rep d t sl" and i: "unat idx < length sl"
    and pos: "pos = of_nat (fst (sl ! unat idx))" and sz_eq: "sz = of_nat (length (snd (sl ! unat idx)))"
  shows "goslice d (unat pos) (unat (pos + sz :: u16)) = Some (snd (sl ! unat idx))"
proof -
  note ok = node_rep_slot [OF rep i] and len = node_repD(2) [OF rep]
  let ?s = "sl ! unat idx"
  have b: "fst ?s + length (snd ?s) \<le> 4096" using ok by (simp add: slot_ok_def)
  have "unat pos = fst ?s" "unat (pos + sz) = fst ?s + length (snd ?s)"
    using b pos sz_eq by (simp_all add: u16_simps)
  then show ?thesis using slot_goslice [OF ok len, of 0 "length (snd ?s)"] by simp
qed

lemma node_rep_child:
  assumes rep: "node_rep d 1 sl" and i: "unat idx < length sl"
  shows "child d idx = Some (le_word (region (snd (sl ! unat idx)) 0 8))"
proof -
  note ok = node_rep_slot [OF rep i] and len = node_repD(2) [OF rep]
  have lt: "idx < of_nat (length sl)" using i node_repD(5) [OF rep] by (simp add: u16_simps)
  then have le: "idx \<le> of_nat (length sl)" "idx \<noteq> of_nat (length sl)" by auto
  show ?thesis
    using slot_fields(5) [OF ok len refl] le
    by (simp add: child_def node_reads [OF rep] node_rep_cellOffset [OF rep i] go_assert_def)
qed

lemma node_rep_child_last:
  assumes rep: "node_rep d 1 sl"
  shows "child d (of_nat (length sl)) = rightmostChild d"
  by (simp add: child_def node_reads [OF rep] go_assert_def)

lemma rightmostChild_region:
  "length d = 4096 \<Longrightarrow> rightmostChild d = Some (le_word (region d 5 8))"
  by (simp add: rightmostChild_def Uint64_in_region)

section \<open>Writing the header\<close>

lemma header_rep_put:
  assumes "length d = 4096"
  shows "header_rep (patch (patch d 3 (le_bytes 2 (of_nat first :: u16))) 1 (le_bytes 2 (of_nat n :: u16))) n first"
    and "header_rep (patch (patch d 1 (le_bytes 2 (of_nat n :: u16))) 3 (le_bytes 2 (of_nat first :: u16))) n first"
  using assms by (simp_all add: header_rep_def patch_simps)

lemma header_rep_patch_above:
  "header_rep d n first \<Longrightarrow> 5 \<le> a \<Longrightarrow> a + length bs \<le> length d \<Longrightarrow> header_rep (patch d a bs) n first"
  by (simp add: header_rep_def patch_simps)

lemma body_rep_header:
  assumes "body_rep d t sl"
  shows "body_rep (patch d 1 (le_bytes 2 (n :: u16))) t sl"
    and "body_rep (patch d 3 (le_bytes 2 (first :: u16))) t sl"
  using assms by (auto intro!: body_rep_patch_gap simp: hdr_def split: if_splits)

text \<open>The write sequence of the appending and inserting operations, header included.\<close>

definition put_slot :: "bytes \<Rightarrow> byte \<Rightarrow> slot list \<Rightarrow> nat \<Rightarrow> bytes \<Rightarrow> bytes" where
  "put_slot d t sl i c =
     (let p = 4096 - (csz sl + length c);
          d1 = patch (patch d p c) (hdr t + 2 * i)
                 (le_bytes 2 (of_nat p :: u16) @ enc_offs (drop i sl));
          d2 = patch d1 3 (le_bytes 2 (of_nat p :: u16))
      in patch d2 1 (le_bytes 2 (of_nat (Suc (length sl)) :: u16)))"

lemma node_rep_put_slot:
  assumes rep: "node_rep d t sl" and i: "i \<le> length sl" and ok: "cell_ok t c"
    and fits: "hdr t + 2 * length sl + csz sl + (length c + 2) \<le> 4096"
  shows "node_rep (put_slot d t sl i c) t (take i sl @ (4096 - (csz sl + length c), c) # drop i sl)"
    (is "node_rep _ t ?sl")
proof -
  let ?p = "4096 - (csz sl + length c)"
  let ?d1 = "patch (patch d ?p c) (hdr t + 2 * i) (le_bytes 2 (of_nat ?p :: u16) @ enc_offs (drop i sl))"
  have body: "body_rep ?d1 t ?sl"
    using node_repD(1) [OF rep] i ok fits by (intro body_rep_insert) auto
  then have len: "length ?d1 = 4096" by (simp add: body_rep_def)
  have "length ?sl = Suc (length sl)" "4096 - csz ?sl = ?p"
    using i csz_take_drop [OF i] by auto
  then show ?thesis
    unfolding node_rep_def put_slot_def Let_def
    using body_rep_header(1) [OF body_rep_header(2) [OF body]] header_rep_put(1) [OF len, of ?p "Suc (length sl)"]
    by simp
qed

end
