(* ===== verification/NodeOps.thy ===== *)
theory NodeOps
  imports NodeRep
begin

text \<open>
  The writing operations of \<^verbatim>\<open>src/bnode.go\<close> as operations on the list of cells a page holds.
\<close>

section \<open>The cells the page code builds\<close>

definition leaf_cell :: "bytes \<Rightarrow> bytes \<Rightarrow> PageId \<Rightarrow> bytes" where
  "leaf_cell k v ov =
     le_bytes 2 (of_nat (length k) :: u16) @ le_bytes 2 (of_nat (length v) :: u16) @
     (if ov = 0 then 0 # k @ v else 1 # k @ le_bytes 8 ov)"

definition internal_cell :: "PageId \<Rightarrow> bytes \<Rightarrow> bytes" where
  "internal_cell ch k = le_bytes 8 ch @ le_bytes 2 (of_nat (length k) :: u16) @ k"

lemma length_leaf_cell: "length (leaf_cell k v ov) = 5 + length k + (if ov = 0 then length v else 8)"
  by (simp add: leaf_cell_def)

lemma length_internal_cell [simp]: "length (internal_cell ch k) = 10 + length k"
  by (simp add: internal_cell_def)

lemma leaf_cell_fields:
  assumes "length k < 65536"
  shows "cell_keylen 2 (leaf_cell k v ov) = of_nat (length k)"
    and "cell_key 2 (leaf_cell k v ov) = k"
    and "le_word (region (leaf_cell k v ov) 2 2) = (of_nat (length v) :: u16)"
    and "leaf_cell k v ov ! 4 = (if ov = 0 then 0 else 1)"
proof -
  show kl: "cell_keylen 2 (leaf_cell k v ov) = of_nat (length k)"
    by (simp add: cell_keylen_def leaf_cell_def region_def)
  have "region (leaf_cell k v ov) 5 (length k) = k"
    by (simp add: leaf_cell_def region_def)
  then show "cell_key 2 (leaf_cell k v ov) = k"
    using assms by (simp add: cell_key_def kl cell_hdr_def u16_simps)
  show "le_word (region (leaf_cell k v ov) 2 2) = (of_nat (length v) :: u16)"
    by (simp add: leaf_cell_def region_def)
  show "leaf_cell k v ov ! 4 = (if ov = 0 then 0 else 1)"
    by (simp add: leaf_cell_def nth_append)
qed

lemma internal_cell_fields:
  assumes "length k < 65536"
  shows "cell_keylen 1 (internal_cell ch k) = of_nat (length k)"
    and "cell_key 1 (internal_cell ch k) = k"
    and "le_word (region (internal_cell ch k) 0 8) = ch"
proof -
  show kl: "cell_keylen 1 (internal_cell ch k) = of_nat (length k)"
    by (simp add: cell_keylen_def internal_cell_def region_def)
  have "region (internal_cell ch k) 10 (length k) = k"
    by (simp add: internal_cell_def region_def)
  then show "cell_key 1 (internal_cell ch k) = k"
    using assms by (simp add: cell_key_def kl cell_hdr_def u16_simps)
  show "le_word (region (internal_cell ch k) 0 8) = ch"
    by (simp add: internal_cell_def region_def)
qed

lemma cell_ok_leaf_cell:
  "length k < 65536 \<Longrightarrow> (ov = 0 \<Longrightarrow> length v < 65536) \<Longrightarrow> cell_ok 2 (leaf_cell k v ov)"
  by (simp add: cell_ok_def leaf_cell_fields length_leaf_cell cell_hdr_def cell_tail_def u16_simps)

lemma cell_ok_internal_cell: "length k < 65536 \<Longrightarrow> cell_ok 1 (internal_cell ch k)"
  by (simp add: cell_ok_def internal_cell_fields cell_hdr_def cell_tail_def u16_simps)

lemma encodeLeafCell_patch:
  assumes "length (leaf_cell k v ov) \<le> length buf"
  shows "encodeLeafCell buf k v ov = Some (patch buf 0 (leaf_cell k v ov))"
proof -
  have l: "length buf - (5 + length k) \<ge> (if ov = 0 then length v else 8)" "5 + length k \<le> length buf"
    using assms by (auto simp: length_leaf_cell split: if_splits)
  then show ?thesis
    by (auto simp: encodeLeafCell_def go_defs leaf_cell_def list_update_patch patch_patch_next
        split: if_splits)
qed

lemma encodeInternalCell_patch:
  assumes "10 + length k \<le> length buf"
  shows "encodeInternalCell buf ch k = Some (patch buf 0 (internal_cell ch k))"
  using assms
  by (simp add: encodeInternalCell_def go_defs internal_cell_def patch_patch_next)

text \<open>Encoding into the tail slice \<open>d[p:]\<close> is a write of the cell at \<open>p\<close>.\<close>

lemma patch_tail:
  assumes "p + length c \<le> length d"
  shows "patch d p (patch (region d p (length d - p)) 0 c) = patch d p c"
  using assms by (intro nth_equalityI) (auto simp: nth_patch nth_region)

section \<open>Appending and inserting one cell\<close>

text \<open>Room for one more cell, the side condition the page code asserts in most places.\<close>

definition has_room :: "byte \<Rightarrow> slot list \<Rightarrow> nat \<Rightarrow> bool" where
  "has_room t sl n \<longleftrightarrow> hdr t + 2 * length sl + csz sl + (n + 2) \<le> 4096"

lemma header_reads_patch:
  assumes "length d = 4096" "5 \<le> a" "a + length bs \<le> 4096"
  shows "nCells (patch d a bs) = nCells d" "headerSize (patch d a bs) = headerSize d"
    "ntype (patch d a bs) = ntype d"
proof -
  show "nCells (patch d a bs) = nCells d"
    using assms by (simp add: nCells_def Uint16_in_region patch_simps)
  show nt: "ntype (patch d a bs) = ntype d"
    using assms by (simp add: ntype_def goindex_def nth_patch)
  show "headerSize (patch d a bs) = headerSize d"
    by (simp add: headerSize_def nt)
qed

lemma has_room_free:
  assumes rep: "node_rep d t sl" and n: "n < 65000"
  shows "(\<exists>f. freeSpace d = Some f \<and> (2 + of_nat n \<le> f) = has_room t sl n)"
proof -
  have "hdr t + 2 * length sl + csz sl \<le> 4096" using node_repD(5) [OF rep] .
  then show ?thesis using n
    by (auto simp: node_rep_freeSpace [OF rep] has_room_def u16_simps)
qed

lemma new_cell_pos:
  assumes "has_room t sl n"
  shows "(of_nat (4096 - csz sl) - of_nat n :: u16) = of_nat (4096 - (csz sl + n))"
    and "unat (of_nat (4096 - (csz sl + n)) :: u16) = 4096 - (csz sl + n)"
  using assms by (simp_all add: has_room_def of_nat_diff u16_simps)

text \<open>Where the offset of slot \<open>i\<close> is stored.\<close>

lemma offset_pos:
  fixes idx :: u16
  assumes "has_room t sl n" "i = unat idx" "i \<le> length sl"
  shows "unat (of_nat (hdr t) + idx * 2) = hdr t + 2 * i"
    and "unat (of_nat (hdr t) + idx * 2 + 2) = hdr t + 2 * i + 2"
proof -
  have "hdr t + 2 * i + 2 < 65536" using assms by (simp add: has_room_def)
  then show "unat (of_nat (hdr t) + idx * 2) = hdr t + 2 * i"
    "unat (of_nat (hdr t) + idx * 2 + 2) = hdr t + 2 * i + 2"
    using assms(2) by (simp_all add: u16_simps)
qed

text \<open>The tail every inserting operation shares, run after the cell bytes are in place.\<close>

lemma insert_offset:
  fixes idx pos :: u16
  assumes rep: "node_rep d t sl" and room: "has_room t sl (length c)" and i: "unat idx \<le> length sl"
    and p: "p = 4096 - (csz sl + length c)" and pos: "pos = of_nat p"
  shows "(let offsetPos = of_nat (hdr t) + idx * 2 in do {
            d1 \<leftarrow> (if idx < of_nat (length sl) then do {
                tl \<leftarrow> goslice (patch d p c) (unat offsetPos)
                        (unat (of_nat (hdr t) + of_nat (length sl) * 2 :: u16));
                gocopy (patch d p c) (unat (offsetPos + 2)) tl
              } else Some (patch d p c));
            d1 \<leftarrow> PutUint16 d1 (unat offsetPos) (unat (offsetPos + 2)) pos;
            d1 \<leftarrow> setFirstCellOffset d1 pos;
            setNCells d1 (of_nat (length sl) + 1)
          }) = Some (put_slot d t sl (unat idx) c)"
proof -
  let ?d = "patch d p c" and ?i = "unat idx" and ?n = "length sl"
  have rm: "hdr t + 2 * ?n + csz sl + (length c + 2) \<le> 4096" using room by (simp add: has_room_def)
  have len: "length d = 4096" using node_repD(2) [OF rep] .
  have len1: "length ?d = 4096" using len p rm by simp
  note off = offset_pos [OF room refl i]
  have endpos: "unat (of_nat (hdr t) + of_nat ?n * 2 :: u16) = hdr t + 2 * ?n"
    using rm by (simp add: u16_simps)
  have body: "body_rep ?d t sl"
    using node_repD(1) [OF rep] p rm by (intro body_rep_patch_gap) auto
  have tail: "region ?d (hdr t + 2 * ?i) (2 * ?n - 2 * ?i) = enc_offs (drop ?i sl)"
  proof -
    have "region (region ?d (hdr t) (2 * ?n)) (2 * ?i) (2 * ?n - 2 * ?i) = region ?d (hdr t + 2 * ?i) (2 * ?n - 2 * ?i)"
      using i by (intro region_region) simp
    then show ?thesis using body i by (simp add: body_rep_def region_def enc_offs_drop)
  qed
  let ?w = "patch ?d (hdr t + 2 * ?i) (le_bytes 2 pos @ enc_offs (drop ?i sl))"
  have moved: "(do {
      d1 \<leftarrow> (if idx < of_nat ?n then do {
          tl \<leftarrow> goslice ?d (hdr t + 2 * ?i) (hdr t + 2 * ?n);
          gocopy ?d (hdr t + 2 * ?i + 2) tl } else Some ?d);
      PutUint16 d1 (hdr t + 2 * ?i) (hdr t + 2 * ?i + 2) pos }) = Some ?w"
  proof (cases "?i < ?n")
    case True
    then have lt: "idx < of_nat ?n" using rm by (simp add: u16_simps)
    have sl: "goslice ?d (hdr t + 2 * ?i) (hdr t + 2 * ?n) = Some (enc_offs (drop ?i sl))"
      using True rm len1 tail by (simp add: goslice_region)
    show ?thesis
      using lt sl True rm len1 by (simp add: gocopy_def PutUint16_def patch_patch_before)
  next
    case False
    then have ge: "\<not> idx < of_nat ?n" using rm by (simp add: u16_simps)
    show ?thesis
      using ge False i rm len1 by (simp add: PutUint16_def)
  qed
  have lw: "length ?w = 4096" using len1 rm i by simp
  have sum: "(do { d1 \<leftarrow> setFirstCellOffset ?w pos; setNCells d1 (of_nat ?n + 1) })
      = Some (put_slot d t sl ?i c)"
    using lw by (simp add: setFirstCellOffset_def setNCells_def PutUint16_def put_slot_def Let_def pos p add.commute)
  show ?thesis
    unfolding Let_def off endpos using moved sum
    by (simp only: bind_assoc [symmetric]) (simp add: bind_assoc)
qed

lemma append_offset:
  fixes pos :: u16
  assumes rep: "node_rep d t sl" and room: "has_room t sl (length c)"
    and p: "p = 4096 - (csz sl + length c)" and pos: "pos = of_nat p"
  shows "(let offsetPos = of_nat (hdr t) + of_nat (length sl) * 2 :: u16 in do {
            d1 \<leftarrow> PutUint16 (patch d p c) (unat offsetPos) (unat (offsetPos + 2)) pos;
            d1 \<leftarrow> setFirstCellOffset d1 pos;
            setNCells d1 (of_nat (length sl) + 1)
          }) = Some (put_slot d t sl (length sl) c)"
proof -
  have n: "unat (of_nat (length sl) :: u16) = length sl"
    using room by (simp add: has_room_def u16_simps)
  show ?thesis
    using insert_offset [OF rep room, of "of_nat (length sl)", OF _ p pos] n by (simp add: Let_def)
qed

text \<open>Reads of the header after the cell bytes have been written below the cell area.\<close>

lemma reads_below:
  assumes rep: "node_rep d t sl" and room: "has_room t sl (length c)"
  shows "nCells (patch d (4096 - (csz sl + length c)) c) = Some (of_nat (length sl))"
    and "headerSize (patch d (4096 - (csz sl + length c)) c) = Some (of_nat (hdr t))"
  using room node_repD(2) [OF rep]
  by (simp_all add: header_reads_patch has_room_def node_reads [OF rep] hdr_def split: if_splits)

lemma has_room_le: "has_room t sl n \<Longrightarrow> n \<le> 4096"
  by (simp add: has_room_def)

theorem appendCell_rep:
  assumes rep: "node_rep d t sl" and room: "has_room t sl (length c)"
  shows "appendCell d c = Some (put_slot d t sl (length sl) c)"
proof -
  have n: "length c < 65000" using has_room_le [OF room] by simp
  obtain f where f: "freeSpace d = Some f" "2 + of_nat (length c) \<le> f"
    using has_room_free [OF rep n] room by auto
  have le: "4096 - (csz sl + length c) \<le> length d" "4096 - (csz sl + length c) + length c \<le> length d"
    using room node_repD(2) [OF rep] by (auto simp: has_room_def)
  show ?thesis
    using append_offset [OF rep room refl refl] f le
    by (simp add: appendCell_def Let_def go_assert_def node_rep_first [OF rep] gocopy_fits
        new_cell_pos [OF room] reads_below [OF rep room])
qed

lemma gofrom_region: "p \<le> length d \<Longrightarrow> gofrom d p = Some (region d p (length d - p))"
  by (simp add: gofrom_def goslice_region)

text \<open>The cell the leaf code writes has the size it reserves: inline exactly when it fits, and the
  overflow id is zero exactly then.\<close>

lemma leafCellSize_cell:
  assumes "(ov = 0) = (5 + length k + length v \<le> maxInlineSize)"
  shows "leafCellSize k v = of_nat (length (leaf_cell k v ov))"
  using assms by (auto simp: leafCellSize_def length_leaf_cell Let_def)

theorem appendLeafCellWithOverflow_rep:
  assumes rep: "node_rep d 2 sl" and room: "has_room 2 sl (length (leaf_cell k v ov))"
    and ov: "(ov = 0) = (5 + length k + length v \<le> maxInlineSize)"
  shows "appendLeafCellWithOverflow d k v ov = Some (put_slot d 2 sl (length sl) (leaf_cell k v ov))"
proof -
  let ?c = "leaf_cell k v ov"
  have n: "length ?c < 65000" using has_room_le [OF room] by simp
  obtain f where f: "freeSpace d = Some f" "2 + of_nat (length ?c) \<le> f"
    using has_room_free [OF rep n] room by auto
  let ?p = "4096 - (csz sl + length ?c)"
  have le: "?p \<le> length d" "?p + length ?c \<le> length d" "length ?c \<le> length d - ?p"
    using room node_repD(2) [OF rep] by (auto simp: has_room_def)
  have enc: "encodeLeafCell (region d ?p (length d - ?p)) k v ov =
      Some (patch (region d ?p (length d - ?p)) 0 ?c)"
    using le by (intro encodeLeafCell_patch) simp
  show ?thesis
    using append_offset [OF rep room refl refl] f le
    by (simp add: appendLeafCellWithOverflow_def Let_def go_assert_def node_rep_first [OF rep]
        new_cell_pos [OF room] reads_below [OF rep room] leafCellSize_cell [OF ov]
        gofrom_region enc patch_tail)
qed

theorem appendInternalCell_rep:
  assumes rep: "node_rep d 1 sl" and room: "has_room 1 sl (length (internal_cell ch k))"
  shows "appendInternalCell d ch k = Some (put_slot d 1 sl (length sl) (internal_cell ch k))"
proof -
  let ?c = "internal_cell ch k"
  have n: "length ?c < 65000" using has_room_le [OF room] by simp
  obtain f where f: "freeSpace d = Some f" "2 + of_nat (length ?c) \<le> f"
    using has_room_free [OF rep n] room by auto
  let ?p = "4096 - (csz sl + length ?c)"
  have le: "?p \<le> length d" "?p + length ?c \<le> length d" "length ?c \<le> length d - ?p"
    using room node_repD(2) [OF rep] by (auto simp: has_room_def)
  have enc: "encodeInternalCell (region d ?p (length d - ?p)) ch k =
      Some (patch (region d ?p (length d - ?p)) 0 ?c)"
    using le by (intro encodeInternalCell_patch) simp
  have sz: "internalCellSize k = of_nat (length ?c)" by (simp add: internalCellSize_def)
  show ?thesis
    using append_offset [OF rep room refl refl] f le
    by (simp add: appendInternalCell_def Let_def go_assert_def node_rep_first [OF rep]
        new_cell_pos [OF room] reads_below [OF rep room] sz gofrom_region enc patch_tail
        del: length_internal_cell)
qed

theorem insertInternalCellAt_rep:
  assumes rep: "node_rep d 1 sl" and room: "has_room 1 sl (length (internal_cell ch k))"
    and i: "unat idx \<le> length sl"
  shows "insertInternalCellAt d idx ch k = Some (put_slot d 1 sl (unat idx) (internal_cell ch k))"
proof -
  let ?c = "internal_cell ch k"
  have n: "length ?c < 65000" using has_room_le [OF room] by simp
  obtain f where f: "freeSpace d = Some f" "2 + of_nat (length ?c) \<le> f"
    using has_room_free [OF rep n] room by auto
  let ?p = "4096 - (csz sl + length ?c)"
  have le: "?p \<le> length d" "?p + length ?c \<le> length d" "length ?c \<le> length d - ?p"
    using room node_repD(2) [OF rep] by (auto simp: has_room_def)
  have enc: "encodeInternalCell (region d ?p (length d - ?p)) ch k =
      Some (patch (region d ?p (length d - ?p)) 0 ?c)"
    using le by (intro encodeInternalCell_patch) simp
  have sz: "internalCellSize k = of_nat (length ?c)" by (simp add: internalCellSize_def)
  have idx: "idx \<le> of_nat (length sl)" using i room by (simp add: has_room_def u16_simps)
  show ?thesis
    using insert_offset [OF rep room i refl refl] f le idx
    by (cases "idx < of_nat (length sl)")
       (simp_all add: insertInternalCellAt_def Let_def go_assert_def node_reads [OF rep]
        new_cell_pos [OF room] reads_below [OF rep room] sz gofrom_region enc patch_tail
        del: length_internal_cell)
qed

theorem copyCellAt_rep:
  assumes rep: "node_rep d t sl" and src: "node_rep s t ss" and j: "unat j < length ss"
    and room: "has_room t sl (length (snd (ss ! unat j)))" and i: "unat idx \<le> length sl"
  shows "copyCellAt d idx s j = Some (put_slot d t sl (unat idx) (snd (ss ! unat j)))"
proof -
  let ?c = "snd (ss ! unat j)"
  have n: "length ?c < 65000" using has_room_le [OF room] by simp
  obtain f where f: "freeSpace d = Some f" "2 + of_nat (length ?c) \<le> f"
    using has_room_free [OF rep n] room by auto
  have le: "4096 - (csz sl + length ?c) \<le> length d" "4096 - (csz sl + length ?c) + length ?c \<le> length d"
    using room node_repD(2) [OF rep] by (auto simp: has_room_def)
  have idx: "idx \<le> of_nat (length sl)" using i room by (simp add: has_room_def u16_simps)
  show ?thesis
    using insert_offset [OF rep room i refl refl] f le idx
    by (cases "idx < of_nat (length sl)")
       (simp_all add: copyCellAt_def Let_def go_assert_def node_reads [OF rep] gocopy_fits
        new_cell_pos [OF room] reads_below [OF rep room] node_rep_cellOffset [OF src j]
        node_rep_cellSize [OF src j] node_rep_raw_cell [OF src j refl refl])
qed

theorem copyCell_rep:
  assumes rep: "node_rep d t sl" and src: "node_rep s t ss" and j: "unat j < length ss"
    and room: "has_room t sl (length (snd (ss ! unat j)))"
  shows "copyCell d s j = Some (put_slot d t sl (length sl) (snd (ss ! unat j)))"
  by (simp add: copyCell_def node_rep_cellOffset [OF src j] node_rep_cellSize [OF src j]
      node_rep_raw_cell [OF src j refl refl] appendCell_rep [OF rep room])

section \<open>Copying ranges of cells\<close>

text \<open>One iteration of a copy loop: the cell and its offset are in place, the header is not yet.\<close>

lemma copy_step:
  fixes n pos :: u16
  assumes rep: "body_rep d t sl" and room: "has_room t sl (length c)" and ok: "cell_ok t c"
    and n: "n = of_nat (length sl)"
    and pos: "pos = of_nat (4096 - csz sl) - of_nat (length c)"
    and off: "off = of_nat (hdr t) + n * 2"
  obtains d' where
    "\<And>f :: bytes \<Rightarrow> (bytes \<times> u16 \<times> u16) option.
       gocopy d (unat pos) c \<bind> (\<lambda>d. PutUint16 d (unat off) (unat (off + 2)) pos \<bind> f) = f d'"
    "body_rep d' t (sl @ [(4096 - (csz sl + length c), c)])"
    "pos = of_nat (4096 - csz (sl @ [(4096 - (csz sl + length c), c)]))"
    "t = 1 \<Longrightarrow> region d' 5 8 = region d 5 8"
proof
  let ?p = "4096 - (csz sl + length c)"
  let ?d' = "patch (patch d ?p c) (hdr t + 2 * length sl) (le_bytes 2 (of_nat ?p :: u16))"
  have rm: "hdr t + 2 * length sl + csz sl + (length c + 2) \<le> 4096" using room by (simp add: has_room_def)
  have len: "length d = 4096" using rep by (simp add: body_rep_def)
  have p: "pos = of_nat ?p" "unat pos = ?p" using new_cell_pos [OF room] pos by simp_all
  have nn: "unat n = length sl" using n rm by (simp add: u16_simps)
  have o: "unat off = hdr t + 2 * length sl" "unat (off + 2) = hdr t + 2 * length sl + 2"
    using offset_pos [OF room nn [symmetric]] off by simp_all
  show "gocopy d (unat pos) c \<bind> (\<lambda>d. PutUint16 d (unat off) (unat (off + 2)) pos \<bind> f) = f ?d'"
    for f :: "bytes \<Rightarrow> (bytes \<times> u16 \<times> u16) option"
    using rm len unfolding p(2) o by (simp add: gocopy_fits PutUint16_def p(1))
  show "body_rep ?d' t (sl @ [(?p, c)])"
    using body_rep_insert [OF rep order_refl ok rm refl] by simp
  show "pos = of_nat (4096 - csz (sl @ [(?p, c)]))" using p by simp
  show "region ?d' 5 8 = region d 5 8" if "t = 1"
    using that rm len by (simp add: hdr_def patch_simps)
qed

lemma copyRangeLeaf_loop_rep:
  assumes src: "node_rep src 2 ss"
  shows "body_rep dst 2 sl \<Longrightarrow> unat start + unat i + more \<le> length ss \<Longrightarrow>
    5 + cost (map snd sl) + cost (map snd (take more (drop (unat start + unat i) ss))) \<le> 4096 \<Longrightarrow>
    \<exists>dst' sl'. copyRangeLeaf_loop more dst src start i (of_nat (length sl)) (of_nat (4096 - csz sl))
        = Some (dst', of_nat (length sl'), of_nat (4096 - csz sl')) \<and>
      body_rep dst' 2 sl' \<and> map snd sl' = map snd sl @ map snd (take more (drop (unat start + unat i) ss))"
proof (induction more arbitrary: dst sl i)
  case 0
  then show ?case by auto
next
  case (Suc more)
  let ?j = "unat start + unat i"
  have n: "length ss \<le> 2048" using node_repD(5) [OF src] by simp
  have j: "unat (start + i) = ?j" and jl: "unat (start + i) < length ss"
    using Suc.prems(2) n by (simp_all add: u16_simps)
  have i1: "unat (i + 1) = unat i + 1" using Suc.prems(2) n by (simp add: u16_simps)
  let ?s = "ss ! ?j"
  have split: "take (Suc more) (drop ?j ss) = ?s # take more (drop (Suc ?j) ss)"
    using jl j by (simp add: take_Suc_conv_app_nth Cons_nth_drop_Suc [symmetric])
  note ok = node_rep_slot [OF src jl] and len = node_repD(2) [OF src]
  have cok: "cell_ok 2 (snd ?s)" using ok j by (simp add: slot_ok_def)
  have room: "has_room 2 sl (length (snd ?s))"
    using Suc.prems(3) by (simp add: split has_room_def hdr_def cost_map_snd)
  define pos :: u16 where "pos = of_nat (4096 - csz sl) - of_nat (length (snd ?s))"
  define off :: u16 where "off = of_nat (hdr 2) + of_nat (length sl) * 2"
  obtain d' where d': "\<And>f :: bytes \<Rightarrow> (bytes \<times> u16 \<times> u16) option. gocopy dst (unat pos) (snd ?s)
      \<bind> (\<lambda>d. PutUint16 d (unat off) (unat (off + 2)) pos \<bind> f) = f d'"
    and body: "body_rep d' 2 (sl @ [(4096 - (csz sl + length (snd ?s)), snd ?s)])"
    and pos: "pos = of_nat (4096 - csz (sl @ [(4096 - (csz sl + length (snd ?s)), snd ?s)]))"
    by (rule copy_step [OF Suc.prems(1) room cok refl pos_def off_def]) blast
  let ?sl = "sl @ [(4096 - (csz sl + length (snd ?s)), snd ?s)]"
  have bound: "5 + cost (map snd ?sl) + cost (map snd (take more (drop (unat start + unat (i + 1)) ss))) \<le> 4096"
    using Suc.prems(3) by (simp add: split i1)
  have lim: "unat start + unat (i + 1) + more \<le> length ss" using Suc.prems(2) i1 by simp
  obtain dst' sl' where rec: "copyRangeLeaf_loop more d' src start (i + 1) (of_nat (length ?sl)) (of_nat (4096 - csz ?sl))
        = Some (dst', of_nat (length sl'), of_nat (4096 - csz sl'))"
      "body_rep dst' 2 sl'" "map snd sl' = map snd ?sl @ map snd (take more (drop (unat start + unat (i + 1)) ss))"
    using Suc.IH [OF body lim bound] by blast
  note rd = node_rep_offset_at [OF src jl] slot_fields(1-3) [OF ok len refl] node_rep_raw_cell [OF src jl refl refl]
  have hd: "of_nat leafHeaderSize = (of_nat (hdr 2) :: u16)" by (simp add: hdr_def)
  have cl: "(if snd ?s ! 4 = 1 then of_nat leafCellHeader + cell_keylen 2 (snd ?s) + 8
      else of_nat leafCellHeader + cell_keylen 2 (snd ?s) + le_word (region (snd ?s) 2 2))
      = (of_nat (length (snd ?s)) :: u16)"
    by (simp add: cell_ok_leaf_size [OF cok])
  have "copyRangeLeaf_loop (Suc more) dst src start i (of_nat (length sl)) (of_nat (4096 - csz sl))
      = copyRangeLeaf_loop more d' src start (i + 1) (of_nat (length sl) + 1) pos"
    using rd d' by (simp only: copyRangeLeaf_loop.simps Let_def hd j nodeLeaf_def Option.bind.bind_lunit cl
        pos_def [symmetric] off_def [symmetric])
  also have "\<dots> = copyRangeLeaf_loop more d' src start (i + 1) (of_nat (length ?sl)) (of_nat (4096 - csz ?sl))"
    using pos by (simp add: add.commute)
  finally have "copyRangeLeaf_loop (Suc more) dst src start i (of_nat (length sl)) (of_nat (4096 - csz sl))
      = copyRangeLeaf_loop more d' src start (i + 1) (of_nat (length ?sl)) (of_nat (4096 - csz ?sl))" .
  then show ?case using rec split i1 by auto
qed

lemma copyRangeInternal_loop_rep:
  assumes src: "node_rep src 1 ss"
  shows "body_rep dst 1 sl \<Longrightarrow> unat start + unat i + more \<le> length ss \<Longrightarrow>
    13 + cost (map snd sl) + cost (map snd (take more (drop (unat start + unat i) ss))) \<le> 4096 \<Longrightarrow>
    \<exists>dst' sl'. copyRangeInternal_loop more dst src start i (of_nat (length sl)) (of_nat (4096 - csz sl))
        = Some (dst', of_nat (length sl'), of_nat (4096 - csz sl')) \<and>
      body_rep dst' 1 sl' \<and> map snd sl' = map snd sl @ map snd (take more (drop (unat start + unat i) ss)) \<and>
      region dst' 5 8 = region dst 5 8"
proof (induction more arbitrary: dst sl i)
  case 0
  then show ?case by auto
next
  case (Suc more)
  let ?j = "unat start + unat i"
  have n: "length ss \<le> 2048" using node_repD(5) [OF src] by simp
  have j: "unat (start + i) = ?j" and jl: "unat (start + i) < length ss"
    using Suc.prems(2) n by (simp_all add: u16_simps)
  have i1: "unat (i + 1) = unat i + 1" using Suc.prems(2) n by (simp add: u16_simps)
  let ?s = "ss ! ?j"
  have split: "take (Suc more) (drop ?j ss) = ?s # take more (drop (Suc ?j) ss)"
    using jl j by (simp add: take_Suc_conv_app_nth Cons_nth_drop_Suc [symmetric])
  note ok = node_rep_slot [OF src jl] and len = node_repD(2) [OF src]
  have cok: "cell_ok 1 (snd ?s)" using ok j by (simp add: slot_ok_def)
  have room: "has_room 1 sl (length (snd ?s))"
    using Suc.prems(3) by (simp add: split has_room_def hdr_def cost_map_snd)
  define pos :: u16 where "pos = of_nat (4096 - csz sl) - of_nat (length (snd ?s))"
  define off :: u16 where "off = of_nat (hdr 1) + of_nat (length sl) * 2"
  obtain d' where d': "\<And>f :: bytes \<Rightarrow> (bytes \<times> u16 \<times> u16) option. gocopy dst (unat pos) (snd ?s)
      \<bind> (\<lambda>d. PutUint16 d (unat off) (unat (off + 2)) pos \<bind> f) = f d'"
    and body: "body_rep d' 1 (sl @ [(4096 - (csz sl + length (snd ?s)), snd ?s)])"
    and pos: "pos = of_nat (4096 - csz (sl @ [(4096 - (csz sl + length (snd ?s)), snd ?s)]))"
    and right: "region d' 5 8 = region dst 5 8"
    by (rule copy_step [OF Suc.prems(1) room cok refl pos_def off_def]) blast
  let ?sl = "sl @ [(4096 - (csz sl + length (snd ?s)), snd ?s)]"
  have bound: "13 + cost (map snd ?sl) + cost (map snd (take more (drop (unat start + unat (i + 1)) ss))) \<le> 4096"
    using Suc.prems(3) by (simp add: split i1)
  have lim: "unat start + unat (i + 1) + more \<le> length ss" using Suc.prems(2) i1 by simp
  obtain dst' sl' where rec: "copyRangeInternal_loop more d' src start (i + 1) (of_nat (length ?sl)) (of_nat (4096 - csz ?sl))
        = Some (dst', of_nat (length sl'), of_nat (4096 - csz sl'))"
      "body_rep dst' 1 sl'" "map snd sl' = map snd ?sl @ map snd (take more (drop (unat start + unat (i + 1)) ss))"
      "region dst' 5 8 = region d' 5 8"
    using Suc.IH [OF body lim bound] by blast
  note rd = node_rep_offset_at [OF src jl] slot_fields(4) [OF ok len refl] node_rep_raw_cell [OF src jl refl refl]
  have hd: "of_nat internalHeaderSize = (of_nat (hdr 1) :: u16)" by (simp add: hdr_def)
  have cl: "of_nat internalCellHeader + cell_keylen 1 (snd ?s) = (of_nat (length (snd ?s)) :: u16)"
    by (simp add: cell_ok_internal_size [OF cok])
  have "copyRangeInternal_loop (Suc more) dst src start i (of_nat (length sl)) (of_nat (4096 - csz sl))
      = copyRangeInternal_loop more d' src start (i + 1) (of_nat (length sl) + 1) pos"
    using rd d' by (simp only: copyRangeInternal_loop.simps Let_def hd j nodeInternal_def Option.bind.bind_lunit cl
        pos_def [symmetric] off_def [symmetric])
  also have "\<dots> = copyRangeInternal_loop more d' src start (i + 1) (of_nat (length ?sl)) (of_nat (4096 - csz ?sl))"
    using pos by (simp add: add.commute)
  finally have "copyRangeInternal_loop (Suc more) dst src start i (of_nat (length sl)) (of_nat (4096 - csz sl))
      = copyRangeInternal_loop more d' src start (i + 1) (of_nat (length ?sl)) (of_nat (4096 - csz ?sl))" .
  then show ?case using rec split i1 right by auto
qed

theorem copyRange_rep:
  assumes dst: "node_rep dst t sl" and src: "node_rep src t ss"
    and range: "unat start + unat count \<le> length ss"
    and fits: "hdr t + cost (map snd sl) + cost (map snd (take (unat count) (drop (unat start) ss))) \<le> 4096"
  shows "\<exists>dst' sl'. copyRange dst src start count = Some dst' \<and> node_rep dst' t sl' \<and>
    map snd sl' = map snd sl @ map snd (take (unat count) (drop (unat start) ss)) \<and>
    (t = 1 \<longrightarrow> region dst' 5 8 = region dst 5 8)"
proof -
  have n: "length ss \<le> 2048" using node_repD(5) [OF src] by simp
  have le: "start + count \<le> of_nat (length ss)" using range n by (simp add: u16_simps)
  note len = node_repD(2) [OF dst] and body = node_repD(1) [OF dst]
  have hd: "Uint16_in dst 1 3 = Some (of_nat (length sl))" "Uint16_in dst 3 5 = Some (of_nat (4096 - csz sl))"
    using node_rep_nCells [OF dst] node_rep_first [OF dst] by (simp_all add: nCells_def firstCellOffset_def)
  have finish: "\<exists>dst'. (do { d \<leftarrow> PutUint16 d1 1 3 (of_nat (length sl')); PutUint16 d 3 5 (of_nat (4096 - csz sl')) })
      = Some dst' \<and> node_rep dst' t sl' \<and> (t = 1 \<longrightarrow> region dst' 5 8 = region d1 5 8)"
    if "body_rep d1 t sl'" for d1 sl'
  proof -
    have l1: "length d1 = 4096" using that by (simp add: body_rep_def)
    show ?thesis
      using l1 body_rep_header(2) [OF body_rep_header(1) [OF that]] header_rep_put(2) [OF l1]
      by (simp add: PutUint16_def node_rep_def patch_simps)
  qed
  consider "count = 0" | "count \<noteq> 0" "t = 1" | "count \<noteq> 0" "t = 2"
    using node_repD(3) [OF dst] by auto
  then show ?thesis
  proof cases
    case 1
    then show ?thesis using dst le by (auto simp: copyRange_def node_reads [OF dst] node_reads [OF src] go_assert_def)
  next
    case 2
    obtain d1 sl' where "copyRangeInternal_loop (unat count) dst src start 0 (of_nat (length sl)) (of_nat (4096 - csz sl))
        = Some (d1, of_nat (length sl'), of_nat (4096 - csz sl'))" "body_rep d1 1 sl'"
      "map snd sl' = map snd sl @ map snd (take (unat count) (drop (unat start) ss))" "region d1 5 8 = region dst 5 8"
      using copyRangeInternal_loop_rep [of src ss dst sl start 0 "unat count"] src body range fits 2
      by (auto simp: hdr_def)
    then show ?thesis using finish [of d1 sl'] 2 le
      by (auto simp: copyRange_def copyRangeInternal_def node_reads [OF dst] node_reads [OF src] go_assert_def hd [unfolded One_nat_def])
  next
    case 3
    obtain d1 sl' where "copyRangeLeaf_loop (unat count) dst src start 0 (of_nat (length sl)) (of_nat (4096 - csz sl))
        = Some (d1, of_nat (length sl'), of_nat (4096 - csz sl'))" "body_rep d1 2 sl'"
      "map snd sl' = map snd sl @ map snd (take (unat count) (drop (unat start) ss))"
      using copyRangeLeaf_loop_rep [of src ss dst sl start 0 "unat count"] src body range fits 3
      by (auto simp: hdr_def)
    then show ?thesis using finish [of d1 sl'] 3 le
      by (auto simp: copyRange_def copyRangeLeaf_def node_reads [OF dst] node_reads [OF src] go_assert_def hd [unfolded One_nat_def])
  qed
qed

section \<open>Child pointers\<close>

lemma body_rep_apart:
  assumes "body_rep d t sl" "i < length sl" "j < length sl" "i \<noteq> j"
  shows "apart (sl ! i) (sl ! j)"
proof -
  have "sorted_wrt apart sl" using assms(1) by (simp add: body_rep_def)
  then have "apart (sl ! min i j) (sl ! max i j)"
    using assms sorted_wrt_nth_less [of apart sl "min i j" "max i j"] by simp
  then show ?thesis by (auto simp: apart_def min_def max_def split: if_splits)
qed

lemma slot_ok_update:
  assumes "slot_ok d t lo s" "length d = 4096" "length bs \<le> length (snd s)"
    and "cell_ok t (patch (snd s) 0 bs)"
  shows "slot_ok (patch d (fst s) bs) t lo (fst s, patch (snd s) 0 bs)"
  using assms by (simp add: slot_ok_def region_patch_prefix)

text \<open>Overwriting the start of one cell leaves every other cell alone.\<close>

lemma body_rep_update:
  assumes rep: "body_rep d t sl" and i: "i < length sl" and s: "sl ! i = (p, c)"
    and bs: "length bs \<le> length c" and ok: "cell_ok t (patch c 0 bs)"
  shows "body_rep (patch d p bs) t (sl[i := (p, patch c 0 bs)])"
proof -
  let ?sl = "sl[i := (p, patch c 0 bs)]"
  have len: "length d = 4096" and oks: "slot_ok d t (4096 - csz sl) (p, c)"
    using rep i s body_rep_slot [OF rep i] by (auto simp: body_rep_def)
  then have b: "4096 - csz sl \<le> p" "p + length c \<le> 4096" by (auto simp: slot_ok_def)
  have low: "hdr t + 2 * length sl \<le> p" using rep b by (auto simp: body_rep_def)
  have fstsnd: "map fst ?sl = map fst sl" "map (length \<circ> snd) ?sl = map (length \<circ> snd) sl"
    using i s bs by (simp_all add: map_update list_update_same_conv)
  then have csz: "csz ?sl = csz sl" unfolding csz_def by simp
  have "enc_offs ?sl = concat (map (\<lambda>o'. le_bytes 2 (of_nat o' :: u16)) (map fst ?sl))"
    by (simp add: enc_offs_def comp_def)
  then have offs: "enc_offs ?sl = enc_offs sl" unfolding fstsnd by (simp add: enc_offs_def comp_def)
  have slots: "slot_ok (patch d p bs) t (4096 - csz sl) (?sl ! j)" if j: "j < length sl" for j
  proof (cases "j = i")
    case True
    then show ?thesis using slot_ok_update [OF oks len, of bs] bs ok i by simp
  next
    case False
    then have "apart (sl ! i) (sl ! j)" using body_rep_apart [OF rep i j] by simp
    then have "slot_ok (patch d p bs) t (4096 - csz sl) (sl ! j)"
      using body_rep_slot [OF rep j] len b bs s by (intro slot_ok_patch) (auto simp: apart_def)
    then show ?thesis using False by simp
  qed
  have "sorted_wrt apart ?sl"
    unfolding sorted_wrt_iff_nth_less
  proof (intro allI impI)
    fix x y assume xy: "x < y" "y < length ?sl"
    then have "apart (sl ! x) (sl ! y)" using body_rep_apart [OF rep] by simp
    then show "apart (?sl ! x) (?sl ! y)"
      using xy s bs i by (auto simp: apart_def nth_list_update)
  qed
  moreover have "\<forall>s \<in> set ?sl. slot_ok (patch d p bs) t (4096 - csz sl) s"
    using slots by (metis in_set_conv_nth length_list_update)
  moreover have "region (patch d p bs) (hdr t) (2 * length sl) = region d (hdr t) (2 * length sl)"
    using low b bs len by (simp add: patch_simps)
  moreover have "patch d p bs ! 0 = d ! 0"
    using low b bs len by (simp add: nth_patch hdr_def split: if_splits)
  ultimately show ?thesis
    using rep len b bs offs csz by (simp add: body_rep_def)
qed

theorem setChild_rep:
  assumes rep: "node_rep d 1 sl" and i: "unat idx < length sl" and c: "snd (sl ! unat idx) = internal_cell ch k"
    and k: "length k < 65536"
  shows "\<exists>d'. setChild d idx pid = Some d' \<and>
    node_rep d' 1 (sl[unat idx := (fst (sl ! unat idx), internal_cell pid k)]) \<and> region d' 5 8 = region d 5 8"
proof -
  let ?p = "fst (sl ! unat idx)"
  have s: "sl ! unat idx = (?p, internal_cell ch k)" using c by (metis prod.collapse)
  have pt: "patch (internal_cell ch k) 0 (le_bytes 8 pid) = internal_cell pid k"
    by (simp add: internal_cell_def patch_def)
  have ok: "slot_ok d 1 (4096 - csz sl) (?p, internal_cell ch k)"
    using node_rep_slot [OF rep i] s by simp
  then have b: "4096 - csz sl \<le> ?p" "?p + (10 + length k) \<le> 4096" by (auto simp: slot_ok_def)
  have low: "13 \<le> ?p" using b node_repD(5) [OF rep] by (simp add: hdr_def)
  have body: "body_rep (patch d ?p (le_bytes 8 pid)) 1 (sl[unat idx := (?p, internal_cell pid k)])"
    using body_rep_update [OF node_repD(1) [OF rep] i s, of "le_bytes 8 pid"] k
    by (simp add: pt cell_ok_internal_cell)
  have "map (length \<circ> snd) (sl[unat idx := (?p, internal_cell pid k)]) = map (length \<circ> snd) sl"
    using i c by (simp add: map_update list_update_same_conv)
  then have "csz (sl[unat idx := (?p, internal_cell pid k)]) = csz sl"
    unfolding csz_def by simp
  then have "node_rep (patch d ?p (le_bytes 8 pid)) 1 (sl[unat idx := (?p, internal_cell pid k)])"
    using body rep low b node_repD(2) [OF rep] by (simp add: node_rep_def header_rep_patch_above)
  moreover have "setChild d idx pid = Some (patch d ?p (le_bytes 8 pid))"
  proof -
    have lt: "idx < of_nat (length sl)" using i node_repD(5) [OF rep] by (simp add: u16_simps)
    then have "idx \<le> of_nat (length sl)" "idx \<noteq> of_nat (length sl)" by auto
    moreover have "unat (of_nat ?p :: u16) = ?p" "unat (of_nat ?p + 8 :: u16) = ?p + 8"
      using b by (simp_all add: u16_simps)
    ultimately show ?thesis using b node_repD(2) [OF rep]
      by (simp add: setChild_def node_reads [OF rep] go_assert_def node_rep_cellOffset [OF rep i] PutUint64_def)
  qed
  moreover have "region (patch d ?p (le_bytes 8 pid)) 5 8 = region d 5 8"
    using low b node_repD(2) [OF rep] by (simp add: patch_simps)
  ultimately show ?thesis by blast
qed

theorem setRightmostChild_rep:
  assumes rep: "node_rep d 1 sl"
  shows "\<exists>d'. setRightmostChild d pid = Some d' \<and> node_rep d' 1 sl \<and> rightmostChild d' = Some pid"
proof -
  have len: "length d = 4096" using node_repD(2) [OF rep] .
  have "node_rep (patch d 5 (le_bytes 8 pid)) 1 sl"
    using rep len body_rep_patch_gap [OF node_repD(1) [OF rep], of 5 "le_bytes 8 pid"]
    by (simp add: node_rep_def header_rep_patch_above hdr_def)
  then show ?thesis
    using len by (simp add: setRightmostChild_def PutUint64_def rightmostChild_region patch_simps)
qed

end
