(* ===== verification/Pages.thy ===== *)
theory Pages
  imports NodeOps
begin

text \<open>
  The interface the tree code uses: pages as lists of cells. The locale \<open>slotted_page\<close> states
  what a page promises whatever its type; it is interpreted for leaf and for internal pages on
  the byte-level operations. The lemmas below give every operation of \<^verbatim>\<open>src/bnode.go\<close> its
  meaning at this level, with the space it needs as the only side condition.
\<close>

section \<open>The client's view of a page\<close>

text \<open>
  What the tree code relies on, whatever the node type: the interface of a page that holds a
  list of cells. \<open>holds d cs\<close> is the representation relation and \<open>room\<close> the bytes a page of
  this type has for cells and their offsets.
\<close>

locale slotted_page =
  fixes t :: byte and room :: nat
    and holds :: "bytes \<Rightarrow> bytes list \<Rightarrow> bool"
    and kind :: "bytes \<Rightarrow> byte option"
    and count :: "bytes \<Rightarrow> u16 option"
    and keyAt :: "bytes \<Rightarrow> u16 \<Rightarrow> bytes option"
    and copyCells :: "bytes \<Rightarrow> bytes \<Rightarrow> u16 \<Rightarrow> u16 \<Rightarrow> bytes option"
  assumes holds_fits: "holds d cs \<Longrightarrow> cost cs \<le> room" and room_bound: "room \<le> 4091"
    and holds_kind: "holds d cs \<Longrightarrow> kind d = Some t"
    and holds_count: "holds d cs \<Longrightarrow> count d = Some (of_nat (length cs))"
    and holds_key: "holds d cs \<Longrightarrow> unat i < length cs \<Longrightarrow> keyAt d i = Some (cell_key t (cs ! unat i))"
    and holds_copy: "holds dst cs \<Longrightarrow> holds src ss \<Longrightarrow> unat a + unat n \<le> length ss \<Longrightarrow>
      cost cs + cost (take (unat n) (drop (unat a) ss)) \<le> room \<Longrightarrow>
      \<exists>dst'. copyCells dst src a n = Some dst' \<and> holds dst' (cs @ take (unat n) (drop (unat a) ss))"
begin

lemma length_bound: "holds d cs \<Longrightarrow> length cs \<le> 2045"
proof -
  assume "holds d cs"
  then have "cost cs \<le> 4091" using holds_fits room_bound by fastforce
  moreover have "2 * length cs \<le> cost cs" by (induction cs) auto
  ultimately show ?thesis by linarith
qed

lemma count_unat: "holds d cs \<Longrightarrow> unat (of_nat (length cs) :: u16) = length cs"
  using length_bound [of d cs] by (simp add: u16_simps)

text \<open>Copying a page's cells one after the other, as the merges and splits do.\<close>

lemma copy_append_all:
  assumes "holds dst cs" "holds src ss" "cost cs + cost ss \<le> room"
  shows "\<exists>dst'. copyCells dst src 0 (of_nat (length ss)) = Some dst' \<and> holds dst' (cs @ ss)"
  using holds_copy [OF assms(1,2), of 0 "of_nat (length ss)"] assms(3) count_unat [OF assms(2)]
  by simp

lemma copy_around:
  assumes "holds dst []" "holds src ss" "unat i < length ss"
  shows "\<exists>d1 d2. copyCells dst src 0 i = Some d1 \<and>
    copyCells d1 src (i + 1) (of_nat (length ss) - i - 1) = Some d2 \<and>
    holds d2 (take (unat i) ss @ drop (Suc (unat i)) ss)"
proof -
  note n = length_bound [OF assms(2)]
  have split: "cost (take (unat i) ss) + cost (drop (Suc (unat i)) ss) \<le> room"
  proof -
    have "cost ss = cost (take (unat i) ss @ ss ! unat i # drop (Suc (unat i)) ss)"
      using assms(3) by (simp add: id_take_nth_drop [symmetric])
    then show ?thesis using holds_fits [OF assms(2)] by simp
  qed
  obtain d1 where d1: "copyCells dst src 0 i = Some d1" "holds d1 (take (unat i) ss)"
    using holds_copy [OF assms(1,2), of 0 i] assms(3) split by auto
  have i1: "unat (i + 1) = Suc (unat i)" using assms(3) n by (simp add: u16_simps)
  have m: "unat (of_nat (length ss) - i - 1) = length ss - Suc (unat i)"
    using assms(3) n by (simp add: u16_simps)
  have all: "take (length ss - Suc (unat i)) (drop (Suc (unat i)) ss) = drop (Suc (unat i)) ss"
    by simp
  show ?thesis
    using holds_copy [OF d1(2) assms(2), of "i + 1" "of_nat (length ss) - i - 1"] d1(1) split assms(3)
    unfolding i1 m all by fastforce
qed

end

lemma node_cells_fits: "node_cells d t cs \<Longrightarrow> hdr t + cost cs \<le> 4096"
  by (auto simp: node_cells_def cost_map_snd dest: node_repD(5))

lemma copyRange_cells:
  assumes "node_cells dst t cs" "node_cells src t ss" "unat a + unat n \<le> length ss"
    "hdr t + cost cs + cost (take (unat n) (drop (unat a) ss)) \<le> 4096"
  shows "\<exists>dst'. copyRange dst src a n = Some dst' \<and>
    node_cells dst' t (cs @ take (unat n) (drop (unat a) ss)) \<and>
    (t = nodeInternal \<longrightarrow> rightmostChild dst' = rightmostChild dst)"
proof -
  obtain sl sr where sl: "node_rep dst t sl" "map snd sl = cs" and sr: "node_rep src t sr" "map snd sr = ss"
    using assms(1,2) by (auto simp: node_cells_def)
  have len: "length sr = length ss" and td: "take (unat n) (drop (unat a) ss) = map snd (take (unat n) (drop (unat a) sr))"
    using sr(2) by (auto simp: take_map drop_map)
  obtain dst' sl' where "copyRange dst src a n = Some dst'" "node_rep dst' t sl'"
    "map snd sl' = cs @ take (unat n) (drop (unat a) ss)" "t = 1 \<longrightarrow> region dst' 5 8 = region dst 5 8"
    using copyRange_rep [OF sl(1) sr(1), of a n] assms(3,4) len td sl(2) by auto
  moreover from this have "length dst' = 4096" "length dst = 4096"
    using node_repD(2) sl(1) by blast+
  ultimately show ?thesis by (auto simp: node_cells_def rightmostChild_region)
qed

interpretation leaf: slotted_page nodeLeaf "4096 - 5" "\<lambda>d. node_cells d nodeLeaf" ntype nCells key copyRange
proof
  fix d dst src :: bytes and cs ss :: "bytes list" and i a n :: u16
  assume rep: "node_cells d nodeLeaf cs"
  show "cost cs \<le> 4096 - 5" using node_cells_fits [OF rep] by (simp add: hdr_def)
  show "ntype d = Some nodeLeaf" "nCells d = Some (of_nat (length cs))"
    using rep by (auto simp: node_cells_def node_reads)
  show "key d i = Some (cell_key nodeLeaf (cs ! unat i))" if "unat i < length cs"
    using rep that by (auto simp: node_cells_def node_rep_key)
next
  fix dst src :: bytes and cs ss :: "bytes list" and a n :: u16
  assume "node_cells dst nodeLeaf cs" "node_cells src nodeLeaf ss" "unat a + unat n \<le> length ss"
    "cost cs + cost (take (unat n) (drop (unat a) ss)) \<le> 4096 - 5"
  then show "\<exists>dst'. copyRange dst src a n = Some dst' \<and>
      node_cells dst' nodeLeaf (cs @ take (unat n) (drop (unat a) ss))"
    using copyRange_cells [of dst nodeLeaf cs src ss a n] by (auto simp: hdr_def)
qed simp

interpretation internal: slotted_page nodeInternal "4096 - 13" "\<lambda>d. node_cells d nodeInternal"
  ntype nCells key copyRange
proof
  fix d dst src :: bytes and cs ss :: "bytes list" and i a n :: u16
  assume rep: "node_cells d nodeInternal cs"
  show "cost cs \<le> 4096 - 13" using node_cells_fits [OF rep] by (simp add: hdr_def)
  show "ntype d = Some nodeInternal" "nCells d = Some (of_nat (length cs))"
    using rep by (auto simp: node_cells_def node_reads)
  show "key d i = Some (cell_key nodeInternal (cs ! unat i))" if "unat i < length cs"
    using rep that by (auto simp: node_cells_def node_rep_key)
next
  fix dst src :: bytes and cs ss :: "bytes list" and a n :: u16
  assume "node_cells dst nodeInternal cs" "node_cells src nodeInternal ss" "unat a + unat n \<le> length ss"
    "cost cs + cost (take (unat n) (drop (unat a) ss)) \<le> 4096 - 13"
  then show "\<exists>dst'. copyRange dst src a n = Some dst' \<and>
      node_cells dst' nodeInternal (cs @ take (unat n) (drop (unat a) ss))"
    using copyRange_cells [of dst nodeInternal cs src ss a n] by (auto simp: hdr_def)
qed simp

section \<open>Operations on leaf and internal pages\<close>

lemma put_slot_cells:
  assumes rep: "node_rep d t sl" and i: "i \<le> length sl" and ok: "cell_ok t c"
    and fits: "hdr t + cost (map snd sl) + (length c + 2) \<le> 4096"
  shows "node_cells (put_slot d t sl i c) t (take i (map snd sl) @ c # drop i (map snd sl))"
    and "t = nodeInternal \<Longrightarrow> rightmostChild (put_slot d t sl i c) = rightmostChild d"
proof -
  have f: "hdr t + 2 * length sl + csz sl + (length c + 2) \<le> 4096" using fits by (simp add: cost_map_snd)
  note rep' = node_rep_put_slot [OF rep i ok f]
  show "node_cells (put_slot d t sl i c) t (take i (map snd sl) @ c # drop i (map snd sl))"
    unfolding node_cells_def using rep' by (auto simp: take_map drop_map intro!: exI)
  assume t: "t = nodeInternal"
  have len: "length d = 4096" using node_repD(2) [OF rep] .
  have "region (put_slot d t sl i c) 5 8 = region d 5 8"
    using t i f len by (simp add: put_slot_def Let_def hdr_def patch_simps)
  then show "rightmostChild (put_slot d t sl i c) = rightmostChild d"
    using len node_repD(2) [OF rep'] by (simp add: rightmostChild_region)
qed

lemma put_slot_append:
  assumes "node_rep d t sl" "cell_ok t c" "hdr t + cost (map snd sl) + (length c + 2) \<le> 4096"
  shows "node_cells (put_slot d t sl (length sl) c) t (map snd sl @ [c])"
    and "t = nodeInternal \<Longrightarrow> rightmostChild (put_slot d t sl (length sl) c) = rightmostChild d"
  using put_slot_cells [OF assms(1) order_refl assms(2,3)] by simp_all

lemma has_room_cost: "has_room t sl n = (hdr t + cost (map snd sl) + (n + 2) \<le> 4096)"
  by (auto simp: has_room_def cost_map_snd)

lemma init_node_cells:
  assumes "length d = 4096" "t = nodeLeaf \<or> t = nodeInternal"
  shows "\<exists>d'. init_node t d = Some d' \<and> node_cells d' t []"
proof -
  let ?d = "patch (patch (patch d 0 [t]) 1 (le_bytes 2 (0 :: u16))) 3 (le_bytes 2 (4096 :: u16))"
  have "node_rep ?d t []"
    using assms by (auto simp: node_rep_def body_rep_def header_rep_def hdr_def nth_patch patch_simps)
  moreover have "init_node t d = Some ?d"
    using assms(1) by (simp add: init_node_def setType_def setNCells_def setFirstCellOffset_def goset_def
        PutUint16_def list_update_patch)
  ultimately show ?thesis by (auto simp: node_cells_def)
qed

lemma appendLeaf_cells:
  assumes rep: "node_cells d nodeLeaf cs" and k: "length k \<le> maxKeySize"
    and ov: "(ov = 0) = (5 + length k + length v \<le> maxInlineSize)"
    and fits: "5 + cost cs + (length (leaf_cell k v ov) + 2) \<le> 4096"
  shows "\<exists>d'. appendLeafCellWithOverflow d k v ov = Some d' \<and> node_cells d' nodeLeaf (cs @ [leaf_cell k v ov])"
proof -
  obtain sl where sl: "node_rep d 2 sl" "map snd sl = cs" using rep by (auto simp: node_cells_def)
  have ok: "cell_ok 2 (leaf_cell k v ov)"
    using k ov by (intro cell_ok_leaf_cell) (auto simp: maxKeySize_def maxInlineSize_def)
  show ?thesis
    using appendLeafCellWithOverflow_rep [OF sl(1) _ ov] put_slot_append(1) [OF sl(1) ok] sl(2) fits
    by (simp add: has_room_cost hdr_def)
qed

lemma appendInternal_cells:
  assumes rep: "node_cells d nodeInternal cs" and k: "length k \<le> maxKeySize"
    and fits: "13 + cost cs + (12 + length k) \<le> 4096"
  shows "\<exists>d'. appendInternalCell d ch k = Some d' \<and> node_cells d' nodeInternal (cs @ [internal_cell ch k]) \<and>
    rightmostChild d' = rightmostChild d"
proof -
  obtain sl where sl: "node_rep d 1 sl" "map snd sl = cs" using rep by (auto simp: node_cells_def)
  have ok: "cell_ok 1 (internal_cell ch k)"
    using k by (intro cell_ok_internal_cell) (auto simp: maxKeySize_def)
  have f: "hdr 1 + cost (map snd sl) + (length (internal_cell ch k) + 2) \<le> 4096"
    using fits sl(2) by (simp add: hdr_def)
  then have room: "has_room 1 sl (length (internal_cell ch k))" by (simp add: has_room_cost)
  show ?thesis
    using appendInternalCell_rep [OF sl(1) room] put_slot_append [OF sl(1) ok f] sl(2) by auto
qed

lemma insertInternal_cells:
  assumes rep: "node_cells d nodeInternal cs" and k: "length k \<le> maxKeySize" and i: "unat idx \<le> length cs"
    and fits: "13 + cost cs + (12 + length k) \<le> 4096"
  shows "\<exists>d'. insertInternalCellAt d idx ch k = Some d' \<and>
    node_cells d' nodeInternal (take (unat idx) cs @ internal_cell ch k # drop (unat idx) cs) \<and>
    rightmostChild d' = rightmostChild d"
proof -
  obtain sl where sl: "node_rep d 1 sl" "map snd sl = cs" using rep by (auto simp: node_cells_def)
  then have il: "unat idx \<le> length sl" using i by auto
  have ok: "cell_ok 1 (internal_cell ch k)"
    using k by (intro cell_ok_internal_cell) (auto simp: maxKeySize_def)
  have f: "hdr 1 + cost (map snd sl) + (length (internal_cell ch k) + 2) \<le> 4096"
    using fits sl(2) by (simp add: hdr_def)
  then have room: "has_room 1 sl (length (internal_cell ch k))" by (simp add: has_room_cost)
  show ?thesis
    using insertInternalCellAt_rep [OF sl(1) room il] put_slot_cells [OF sl(1) il ok f]
    unfolding sl(2) by auto
qed

lemma node_cells_cell_ok: "node_cells d t cs \<Longrightarrow> c \<in> set cs \<Longrightarrow> cell_ok t c"
  by (auto simp: node_cells_def node_rep_def body_rep_def slot_ok_def)

lemma copyCellAt_cells:
  assumes rep: "node_cells d t cs" and src: "node_cells s t ss" and j: "unat j < length ss"
    and i: "unat idx \<le> length cs" and fits: "hdr t + cost cs + (length (ss ! unat j) + 2) \<le> 4096"
  shows "\<exists>d'. copyCellAt d idx s j = Some d' \<and>
    node_cells d' t (take (unat idx) cs @ ss ! unat j # drop (unat idx) cs)"
proof -
  obtain sl sr where sl: "node_rep d t sl" "map snd sl = cs" and sr: "node_rep s t sr" "map snd sr = ss"
    using rep src by (auto simp: node_cells_def)
  have il: "unat idx \<le> length sl" and jl: "unat j < length sr" and c: "snd (sr ! unat j) = ss ! unat j"
    using i j sl(2) sr(2) by auto
  have ok: "cell_ok t (ss ! unat j)" using node_cells_cell_ok [OF src] j by simp
  show ?thesis
    using copyCellAt_rep [OF sl(1) sr(1) jl _ il] put_slot_cells(1) [OF sl(1) il ok] fits
    unfolding sl(2) c has_room_cost by simp
qed

lemma copyCell_cells:
  assumes rep: "node_cells d t cs" and src: "node_cells s t ss" and j: "unat j < length ss"
    and fits: "hdr t + cost cs + (length (ss ! unat j) + 2) \<le> 4096"
  shows "\<exists>d'. copyCell d s j = Some d' \<and> node_cells d' t (cs @ [ss ! unat j])"
proof -
  obtain sl sr where sl: "node_rep d t sl" "map snd sl = cs" and sr: "node_rep s t sr" "map snd sr = ss"
    using rep src by (auto simp: node_cells_def)
  have jl: "unat j < length sr" and c: "snd (sr ! unat j) = ss ! unat j" using j sr(2) by auto
  have ok: "cell_ok t (ss ! unat j)" using node_cells_cell_ok [OF src] j by simp
  show ?thesis
    using copyCell_rep [OF sl(1) sr(1) jl] put_slot_append(1) [OF sl(1) ok] sl(2) fits c
    by (simp add: has_room_cost)
qed

lemma setRightmost_cells:
  assumes "node_cells d nodeInternal cs"
  shows "\<exists>d'. setRightmostChild d pid = Some d' \<and> node_cells d' nodeInternal cs \<and> rightmostChild d' = Some pid"
proof -
  obtain sl where sl: "node_rep d 1 sl" "map snd sl = cs" using assms by (auto simp: node_cells_def)
  then show ?thesis using setRightmostChild_rep [OF sl(1), of pid] by (auto simp: node_cells_def)
qed

lemma rightmostChild_cells: "node_cells d t cs \<Longrightarrow> \<exists>r. rightmostChild d = Some r"
  by (auto simp: node_cells_def rightmostChild_region dest: node_repD(2))

lemma copyWithoutCell_cells:
  assumes dst: "node_cells dst t []" and src: "node_cells src t ss" and i: "unat i < length ss"
  shows "\<exists>d'. copyWithoutCell dst src i = Some d' \<and> node_cells d' t (take (unat i) ss @ drop (Suc (unat i)) ss) \<and>
    (t = nodeInternal \<longrightarrow> rightmostChild d' = rightmostChild src)"
proof -
  have reads: "ntype src = Some t" "ntype dst = Some t" "nCells src = Some (of_nat (length ss))"
    using dst src by (auto simp: node_cells_def node_reads)
  have t: "t = nodeInternal \<or> t = nodeLeaf" using dst by (auto simp: node_cells_def dest: node_repD(3))
  have "length ss \<le> 2048" using src by (auto simp: node_cells_def dest: node_repD(5))
  then have le: "i \<le> of_nat (length ss)" using i by (simp add: u16_simps)
  obtain d1 d2 where d: "copyRange dst src 0 i = Some d1"
    "copyRange d1 src (i + 1) (of_nat (length ss) - i - 1) = Some d2"
    "node_cells d2 t (take (unat i) ss @ drop (Suc (unat i)) ss)"
    using t leaf.copy_around [of dst src ss i] internal.copy_around [of dst src ss i] dst src i by blast
  obtain r where r: "rightmostChild src = Some r" using rightmostChild_cells [OF src] ..
  have nt: "ntype d2 = Some t" using d(3) by (auto simp: node_cells_def node_reads)
  show ?thesis
    using t setRightmost_cells [of d2 _ r] d nt r le
    by (auto simp: copyWithoutCell_def reads go_assert_def)
qed

end
