(* ===== verification/Search.thy ===== *)
theory Search
  imports Pages
begin

text \<open>
  The binary searches of \<^verbatim>\<open>src/btree.go\<close> over the raw bytes of a page, and their equivalence with a
  linear scan of the page's keys. The loops are total functions: the distance between the two
  bounds decreases.
\<close>

section \<open>The loops\<close>

lemma midpoint_bounds:
  fixes lo hi :: u16
  assumes "lo < hi"
  shows "unat (lo + (hi - lo) div 2) = unat lo + (unat hi - unat lo) div 2"
    and "unat (lo + (hi - lo) div 2 + 1) = Suc (unat lo + (unat hi - unat lo) div 2)"
    and "unat lo + (unat hi - unat lo) div 2 < unat hi"
proof -
  have lt: "unat lo < unat hi" and b: "unat hi < 65536"
    using assms unat_u16_bound by (auto simp: word_less_nat_alt)
  then show "unat lo + (unat hi - unat lo) div 2 < unat hi" by linarith
  then show m: "unat (lo + (hi - lo) div 2) = unat lo + (unat hi - unat lo) div 2"
    using lt b by (simp add: u16_simps)
  then show "unat (lo + (hi - lo) div 2 + 1) = Suc (unat lo + (unat hi - unat lo) div 2)"
    using lt b by (subst unat_add_u16) auto
qed

lemma midpoint_decreases:
  fixes lo hi :: u16
  assumes "lo < hi"
  shows "unat (lo + (hi - lo) div 2) - unat lo < unat hi - unat lo"
    and "unat hi - unat (lo + (hi - lo) div 2 + 1) < unat hi - unat lo"
  using midpoint_bounds [OF assms] by linarith+

function (sequential) searchLeaf_loop :: "bytes \<Rightarrow> bytes \<Rightarrow> u16 \<Rightarrow> u16 \<Rightarrow> (u16 \<times> bool) option" where
  "searchLeaf_loop d k lo hi =
     (if lo < hi then do {
        let mid = lo + (hi - lo) div 2;
        let offPos = of_nat leafHeaderSize + mid * 2;
        cellPos \<leftarrow> u16_at d offPos;
        keylen \<leftarrow> u16_at d cellPos;
        let keyStart = cellPos + of_nat leafCellHeader;
        kk \<leftarrow> goslice d (unat keyStart) (unat (keyStart + keylen));
        let cmp = bytes_Compare k kk;
        if cmp = 0 then Some (mid, True)
        else if cmp < 0 then searchLeaf_loop d k lo mid
        else searchLeaf_loop d k (mid + 1) hi
      } else Some (lo, False))"
  by pat_completeness auto
termination
proof (relation "measure (\<lambda>(d, k, lo, hi). unat hi - unat lo)")
  show "wf (measure (\<lambda>(d, k, lo, hi). unat hi - unat lo))" by simp
next
  fix d k :: bytes and lo hi mid :: u16
  assume "lo < hi" "mid = lo + (hi - lo) div 2"
  then show "((d, k, lo, mid), (d, k, lo, hi)) \<in> measure (\<lambda>(d, k, lo, hi). unat hi - unat lo)"
    using midpoint_decreases [of lo hi] by simp
next
  fix d k :: bytes and lo hi mid :: u16
  assume "lo < hi" "mid = lo + (hi - lo) div 2"
  then show "((d, k, mid + 1, hi), (d, k, lo, hi)) \<in> measure (\<lambda>(d, k, lo, hi). unat hi - unat lo)"
    using midpoint_decreases [of lo hi] by simp
qed

declare searchLeaf_loop.simps [simp del]

definition searchLeaf :: "bytes \<Rightarrow> bytes \<Rightarrow> (u16 \<times> bool) option" where
  "searchLeaf d k = do {
     n \<leftarrow> Uint16_in d 1 3;
     searchLeaf_loop d k 0 n
   }"

function (sequential) searchInternal_loop :: "bytes \<Rightarrow> bytes \<Rightarrow> u16 \<Rightarrow> u16 \<Rightarrow> u16 option" where
  "searchInternal_loop d k lo hi =
     (if lo < hi then do {
        let mid = lo + (hi - lo) div 2;
        let offPos = of_nat internalHeaderSize + mid * 2;
        cellPos \<leftarrow> u16_at d offPos;
        keylen \<leftarrow> Uint16_in d (unat (cellPos + 8)) (unat (cellPos + 10));
        let keyStart = cellPos + of_nat internalCellHeader;
        kk \<leftarrow> goslice d (unat keyStart) (unat (keyStart + keylen));
        if bytes_Compare k kk < 0 then searchInternal_loop d k lo mid
        else searchInternal_loop d k (mid + 1) hi
      } else Some lo)"
  by pat_completeness auto
termination
proof (relation "measure (\<lambda>(d, k, lo, hi). unat hi - unat lo)")
  show "wf (measure (\<lambda>(d, k, lo, hi). unat hi - unat lo))" by simp
next
  fix d k :: bytes and lo hi mid :: u16
  assume "lo < hi" "mid = lo + (hi - lo) div 2"
  then show "((d, k, lo, mid), (d, k, lo, hi)) \<in> measure (\<lambda>(d, k, lo, hi). unat hi - unat lo)"
    using midpoint_decreases [of lo hi] by simp
next
  fix d k :: bytes and lo hi mid :: u16
  assume "lo < hi" "mid = lo + (hi - lo) div 2"
  then show "((d, k, mid + 1, hi), (d, k, lo, hi)) \<in> measure (\<lambda>(d, k, lo, hi). unat hi - unat lo)"
    using midpoint_decreases [of lo hi] by simp
qed

declare searchInternal_loop.simps [simp del]

definition searchInternal :: "bytes \<Rightarrow> bytes \<Rightarrow> u16 option" where
  "searchInternal d k = do {
     n \<leftarrow> Uint16_in d 1 3;
     searchInternal_loop d k 0 n
   }"

section \<open>The reference: ranks in a sorted list\<close>

definition rank_lt :: "bytes list \<Rightarrow> bytes \<Rightarrow> nat" where
  "rank_lt ks k = length (takeWhile (\<lambda>x. x < k) ks)"

definition rank_le :: "bytes list \<Rightarrow> bytes \<Rightarrow> nat" where
  "rank_le ks k = length (takeWhile (\<lambda>x. x \<le> k) ks)"

lemma length_takeWhile_eqI:
  assumes "i \<le> length xs" "\<And>j. j < i \<Longrightarrow> P (xs ! j)" "i < length xs \<Longrightarrow> \<not> P (xs ! i)"
  shows "length (takeWhile P xs) = i"
proof (cases "i < length xs")
  case True
  then have "takeWhile P xs = take i xs" using assms by (intro takeWhile_eq_take_P_nth) auto
  then show ?thesis using True by simp
next
  case False
  then have i: "i = length xs" using assms(1) by simp
  have "takeWhile P xs = xs" using assms(2) i by (auto simp: takeWhile_eq_all_conv in_set_conv_nth)
  then have "length (takeWhile P xs) = length xs" by (rule arg_cong)
  then show ?thesis using i by simp
qed

text \<open>One probe of a search reads the key of slot \<open>mid\<close>.\<close>

lemma leaf_probe:
  assumes rep: "node_rep d 2 sl" and i: "unat i < length sl"
  shows "(do {
      cellPos \<leftarrow> u16_at d (of_nat leafHeaderSize + i * 2);
      keylen \<leftarrow> u16_at d cellPos;
      let keyStart = cellPos + of_nat leafCellHeader;
      kk \<leftarrow> goslice d (unat keyStart) (unat (keyStart + keylen));
      f kk
    }) = f (cell_key 2 (snd (sl ! unat i)))"
proof -
  note ok = node_rep_slot [OF rep i] and len = node_repD(2) [OF rep]
  show ?thesis
    using node_rep_offset_at [OF rep i] slot_fields(1) [OF ok len refl] slot_key [OF ok len refl refl]
    by (simp add: hdr_def cell_hdr_def)
qed

lemma internal_probe:
  assumes rep: "node_rep d 1 sl" and i: "unat i < length sl"
  shows "(do {
      cellPos \<leftarrow> u16_at d (of_nat internalHeaderSize + i * 2);
      keylen \<leftarrow> Uint16_in d (unat (cellPos + 8)) (unat (cellPos + 10));
      let keyStart = cellPos + of_nat internalCellHeader;
      kk \<leftarrow> goslice d (unat keyStart) (unat (keyStart + keylen));
      f kk
    }) = f (cell_key 1 (snd (sl ! unat i)))"
proof -
  note ok = node_rep_slot [OF rep i] and len = node_repD(2) [OF rep]
  show ?thesis
    using node_rep_offset_at [OF rep i] slot_fields(4) [OF ok len refl] slot_key [OF ok len refl refl]
    by (simp add: hdr_def cell_hdr_def)
qed

section \<open>The searches compute the ranks\<close>

lemma rank_lt_unique:
  assumes "sorted_wrt (<) ks" "i < length ks" "ks ! i = k"
  shows "rank_lt ks k = i"
  unfolding rank_lt_def
  using assms by (intro length_takeWhile_eqI) (auto dest: sorted_wrt_nth_less)

lemma searchLeaf_loop_rank:
  assumes rep: "node_rep d 2 sl" and ks: "ks = map (cell_key 2 \<circ> snd) sl" and sorted: "sorted_wrt (<) ks"
  shows "unat lo \<le> unat hi \<Longrightarrow> unat hi \<le> length ks \<Longrightarrow>
    (\<And>j. j < unat lo \<Longrightarrow> ks ! j < k) \<Longrightarrow> (\<And>j. unat hi \<le> j \<Longrightarrow> j < length ks \<Longrightarrow> k < ks ! j) \<Longrightarrow>
    searchLeaf_loop d k lo hi = Some (of_nat (rank_lt ks k), k \<in> set ks)"
proof (induction "unat hi - unat lo" arbitrary: lo hi rule: less_induct)
  case less
  show ?case
  proof (cases "lo < hi")
    case False
    then have eq: "unat hi = unat lo" using less.prems(1) by (simp add: word_less_nat_alt)
    have rank: "rank_lt ks k = unat lo"
      unfolding rank_lt_def using less.prems eq by (intro length_takeWhile_eqI) fastforce+
    have "k \<notin> set ks"
      using less.prems(3,4) eq by (metis in_set_conv_nth less_irrefl not_less)
    then show ?thesis using False rank by (simp add: searchLeaf_loop.simps [of d k lo hi])
  next
    case True
    define mid where "mid = lo + (hi - lo) div 2"
    define m where "m = unat mid"
    have m: "unat lo \<le> m" "m < unat hi" "unat (mid + 1) = Suc m"
      using midpoint_bounds [OF True] by (simp_all add: m_def mid_def)
    have lt: "m < length ks" using m less.prems(2) by simp
    have km: "cell_key 2 (snd (sl ! m)) = ks ! m" and lt': "unat mid < length sl"
      using lt ks by (simp_all add: m_def)
    have inc: "i < j \<Longrightarrow> j < length ks \<Longrightarrow> ks ! i < ks ! j" for i j
      using sorted by (rule sorted_wrt_nth_less)
    have step: "searchLeaf_loop d k lo hi =
        (if k = ks ! m then Some (mid, True)
         else if k < ks ! m then searchLeaf_loop d k lo mid else searchLeaf_loop d k (mid + 1) hi)"
      using leaf_probe [OF rep, of mid "\<lambda>kk. if k = kk then Some (mid, True)
          else if k < kk then searchLeaf_loop d k lo mid else searchLeaf_loop d k (mid + 1) hi"] lt' True
      by (simp add: searchLeaf_loop.simps [of d k lo hi] Let_def mid_def [symmetric] m_def km [unfolded m_def]
          cong: if_cong)
    consider "k = ks ! m" | "k < ks ! m" | "ks ! m < k" by (rule linorder_cases)
    then show ?thesis
    proof cases
      case 1
      then show ?thesis using step lt sorted by (simp add: rank_lt_unique [OF sorted lt] m_def)
    next
      case 2
      then have "k < ks ! j" if "m \<le> j" "j < length ks" for j
        using inc [of m j] that by (cases "m = j") auto
      then have "searchLeaf_loop d k lo mid = Some (of_nat (rank_lt ks k), k \<in> set ks)"
        using m lt less.prems by (intro less.hyps) (auto simp: m_def)
      then show ?thesis using step 2 by auto
    next
      case 3
      then have "ks ! j < k" if "j < Suc m" for j
        using inc [of j m] that lt by (cases "m = j") auto
      then have "searchLeaf_loop d k (mid + 1) hi = Some (of_nat (rank_lt ks k), k \<in> set ks)"
        using m lt less.prems by (intro less.hyps) auto
      then show ?thesis using step 3 by auto
    qed
  qed
qed

lemma searchInternal_loop_rank:
  assumes rep: "node_rep d 1 sl" and ks: "ks = map (cell_key 1 \<circ> snd) sl" and sorted: "sorted_wrt (<) ks"
  shows "unat lo \<le> unat hi \<Longrightarrow> unat hi \<le> length ks \<Longrightarrow>
    (\<And>j. j < unat lo \<Longrightarrow> ks ! j \<le> k) \<Longrightarrow> (\<And>j. unat hi \<le> j \<Longrightarrow> j < length ks \<Longrightarrow> k < ks ! j) \<Longrightarrow>
    searchInternal_loop d k lo hi = Some (of_nat (rank_le ks k))"
proof (induction "unat hi - unat lo" arbitrary: lo hi rule: less_induct)
  case less
  show ?case
  proof (cases "lo < hi")
    case False
    then have eq: "unat hi = unat lo" using less.prems(1) by (simp add: word_less_nat_alt)
    have rank: "rank_le ks k = unat lo"
      unfolding rank_le_def using less.prems eq by (intro length_takeWhile_eqI) fastforce+
    then show ?thesis using False by (simp add: searchInternal_loop.simps [of d k lo hi])
  next
    case True
    define mid where "mid = lo + (hi - lo) div 2"
    define m where "m = unat mid"
    have m: "unat lo \<le> m" "m < unat hi" "unat (mid + 1) = Suc m"
      using midpoint_bounds [OF True] by (simp_all add: m_def mid_def)
    have lt: "m < length ks" using m less.prems(2) by simp
    have km: "cell_key 1 (snd (sl ! m)) = ks ! m" and lt': "unat mid < length sl"
      using lt ks by (simp_all add: m_def)
    have inc: "i < j \<Longrightarrow> j < length ks \<Longrightarrow> ks ! i < ks ! j" for i j
      using sorted by (rule sorted_wrt_nth_less)
    have step: "searchInternal_loop d k lo hi =
        (if k < ks ! m then searchInternal_loop d k lo mid else searchInternal_loop d k (mid + 1) hi)"
      using internal_probe [OF rep, of mid "\<lambda>kk. if k < kk then searchInternal_loop d k lo mid
          else searchInternal_loop d k (mid + 1) hi"] lt' True
      by (simp add: searchInternal_loop.simps [of d k lo hi] Let_def mid_def [symmetric] m_def km [unfolded m_def]
          cong: if_cong)
    show ?thesis
    proof (cases "k < ks ! m")
      case True
      then have "k < ks ! j" if "m \<le> j" "j < length ks" for j
        using inc [of m j] that by (cases "m = j") auto
      then have "searchInternal_loop d k lo mid = Some (of_nat (rank_le ks k))"
        using m lt less.prems by (intro less.hyps) (auto simp: m_def)
      then show ?thesis using step True by simp
    next
      case False
      then have "ks ! j \<le> k" if "j < Suc m" for j
        using inc [of j m] that lt by (cases "m = j") auto
      then have "searchInternal_loop d k (mid + 1) hi = Some (of_nat (rank_le ks k))"
        using m lt less.prems by (intro less.hyps) auto
      then show ?thesis using step False by simp
    qed
  qed
qed

lemma node_cells_keys:
  assumes "node_cells d t cs"
  obtains sl where "node_rep d t sl" "map (cell_key t) cs = map (cell_key t \<circ> snd) sl"
    "length sl = length cs" "unat (of_nat (length cs) :: u16) = length cs" "Uint16_in d 1 3 = Some (of_nat (length cs))"
proof -
  obtain sl where sl: "node_rep d t sl" "cs = map snd sl" using assms by (auto simp: node_cells_def)
  have "length cs \<le> 2048" using node_repD(5) [OF sl(1)] sl(2) by simp
  then have "unat (of_nat (length cs) :: u16) = length cs" by (simp add: u16_simps)
  then show thesis using that [OF sl(1)] sl node_rep_nCells [OF sl(1)] by (simp add: nCells_def)
qed

lemma searchLeaf_correct:
  assumes "node_cells d nodeLeaf cs" "sorted_wrt (<) (map (cell_key nodeLeaf) cs)"
  shows "searchLeaf d k = Some (of_nat (rank_lt (map (cell_key nodeLeaf) cs) k), k \<in> set (map (cell_key nodeLeaf) cs))"
proof (rule node_cells_keys [OF assms(1)])
  fix sl assume sl: "node_rep d nodeLeaf sl" "map (cell_key nodeLeaf) cs = map (cell_key nodeLeaf \<circ> snd) sl"
    "length sl = length cs" "unat (of_nat (length cs) :: u16) = length cs" "Uint16_in d 1 3 = Some (of_nat (length cs))"
  have "searchLeaf_loop d k 0 (of_nat (length cs)) =
      Some (of_nat (rank_lt (map (cell_key nodeLeaf) cs) k), k \<in> set (map (cell_key nodeLeaf) cs))"
    using assms(2) sl by (intro searchLeaf_loop_rank [of d sl]) auto
  then show ?thesis using sl(5) by (simp add: searchLeaf_def)
qed

lemma searchInternal_correct:
  assumes "node_cells d nodeInternal cs" "sorted_wrt (<) (map (cell_key nodeInternal) cs)"
  shows "searchInternal d k = Some (of_nat (rank_le (map (cell_key nodeInternal) cs) k))"
proof (rule node_cells_keys [OF assms(1)])
  fix sl assume sl: "node_rep d nodeInternal sl" "map (cell_key nodeInternal) cs = map (cell_key nodeInternal \<circ> snd) sl"
    "length sl = length cs" "unat (of_nat (length cs) :: u16) = length cs" "Uint16_in d 1 3 = Some (of_nat (length cs))"
  have "searchInternal_loop d k 0 (of_nat (length cs)) = Some (of_nat (rank_le (map (cell_key nodeInternal) cs) k))"
    using assms(2) sl by (intro searchInternal_loop_rank [of d sl]) auto
  then show ?thesis using sl(5) by (simp add: searchInternal_def)
qed

end
