(* ===== verification/BTree.thy ===== *)
theory BTree
  imports Txn Search
begin

text \<open>
  Trees and the pages of large values: \<^verbatim>\<open>src/btree.go\<close> and \<^verbatim>\<open>src/overflow.go\<close>. A \<open>*bnode\<close> is the
  frame number of its page. Recursion down the tree and walks along a chain of overflow pages carry
  fuel: a page graph with a cycle exhausts it.
\<close>

section \<open>Nodes in frames\<close>

definition node_data :: "world \<Rightarrow> nat \<Rightarrow> bytes" where
  "node_data w f = page_data (db w) f"

definition Id :: "world \<Rightarrow> nat \<Rightarrow> PageId" where
  "Id w f = page_id (db w) f"

definition node_unpin :: "nat \<Rightarrow> world \<Rightarrow> world option" where
  "node_unpin f w = do { d \<leftarrow> unpin f (db w); Some (w\<lparr>db := d\<rparr>) }"

definition free_page :: "PageId \<Rightarrow> world \<Rightarrow> world option" where
  "free_page pid w = do { t \<leftarrow> FreePage pid (txn w); Some (w\<lparr>txn := t\<rparr>) }"

text \<open>A statement that changes the bytes of a node.\<close>

definition modify :: "nat \<Rightarrow> (bytes \<Rightarrow> bytes option) \<Rightarrow> world \<Rightarrow> world option" where
  "modify f g w = do { bs \<leftarrow> g (node_data w f); Some (w\<lparr>db := put_data f bs (db w)\<rparr>) }"

definition NewBTree :: "PageId \<Rightarrow> BTree" where
  "NewBTree r = \<lparr>root = r\<rparr>"

definition getNode :: "env \<Rightarrow> PageId \<Rightarrow> world \<Rightarrow> (nat, world) outcome" where
  "getNode env pid w = txnGet env pid w"

definition alloc_node :: "byte \<Rightarrow> env \<Rightarrow> world \<Rightarrow> (nat, world) outcome" where
  "alloc_node t env w =
     try_ok (txnAllocatePage env w) (\<lambda>f w. do {
       w \<leftarrow> modify f (init_node t) w;
       Some (Inr f, w)
     })"

definition allocLeaf :: "env \<Rightarrow> world \<Rightarrow> (nat, world) outcome" where
  "allocLeaf = alloc_node nodeLeaf"

definition allocInternal :: "env \<Rightarrow> world \<Rightarrow> (nat, world) outcome" where
  "allocInternal = alloc_node nodeInternal"

section \<open>Overflow pages\<close>

definition overflowHeaderSize :: nat where
  [simp]: "overflowHeaderSize = 9"

definition overflowChunkSize :: nat where
  "overflowChunkSize = PageSize - overflowHeaderSize"

lemma overflowChunkSize_val [simp]: "overflowChunkSize = 4087"
  by (simp add: overflowChunkSize_def)

definition unpin_prev :: "nat option \<Rightarrow> world \<Rightarrow> world option" where
  "unpin_prev prev w = (case prev of None \<Rightarrow> Some w | Some p \<Rightarrow> node_unpin p w)"

definition fill_overflow :: "bytes \<Rightarrow> nat \<Rightarrow> bytes \<Rightarrow> bytes option" where
  "fill_overflow v off d = do {
     d \<leftarrow> goset d 0 nodeOverflow;
     d \<leftarrow> PutUint64 d 1 9 0;
     part \<leftarrow> goslice v off (min (off + overflowChunkSize) (length v));
     gocopy d overflowHeaderSize part
   }"

definition link_overflow :: "nat option \<Rightarrow> nat \<Rightarrow> PageId \<Rightarrow> world \<Rightarrow> (PageId \<times> world) option" where
  "link_overflow prev f firstID w =
     (case prev of
        None \<Rightarrow> Some (Id w f, w)
      | Some p \<Rightarrow> do {
          w \<leftarrow> modify p (\<lambda>d. PutUint64 d 1 9 (Id w f)) w;
          w \<leftarrow> node_unpin p w;
          Some (firstID, w)
        })"

function writeOverflow_loop ::
    "env \<Rightarrow> bytes \<Rightarrow> nat \<Rightarrow> PageId \<Rightarrow> nat option \<Rightarrow> world \<Rightarrow> (PageId, world) outcome" where
  "writeOverflow_loop env v off firstID prev w =
     (if off < length v
      then try_or (txnAllocatePage env w) (unpin_prev prev) (\<lambda>f w. do {
        w \<leftarrow> modify f (fill_overflow v off) w;
        (firstID, w) \<leftarrow> link_overflow prev f firstID w;
        writeOverflow_loop env v (off + overflowChunkSize) firstID (Some f) w
      })
      else do {
        w \<leftarrow> unpin_prev prev w;
        Some (Inr firstID, w)
      })"
  by pat_completeness auto
termination by (relation "measure (\<lambda>(env, v, off, rest). length v - off)") auto

declare writeOverflow_loop.simps [simp del]

definition writeOverflowPages :: "env \<Rightarrow> bytes \<Rightarrow> world \<Rightarrow> (PageId, world) outcome" where
  "writeOverflowPages env v w = writeOverflow_loop env v 0 0 None w"

fun readOverflow_loop ::
    "nat \<Rightarrow> env \<Rightarrow> nat \<Rightarrow> bytes \<Rightarrow> nat \<Rightarrow> PageId \<Rightarrow> world \<Rightarrow> (bytes, world) outcome" where
  "readOverflow_loop 0 env vallen v off pid w = None"
| "readOverflow_loop (Suc n) env vallen v off pid w =
     (if pid = 0 then Some (Inr v, w)
      else try_ok (txnGet env pid w) (\<lambda>f w. do {
        let chunk = min overflowChunkSize (vallen - off);
        part \<leftarrow> goslice (node_data w f) overflowHeaderSize (overflowHeaderSize + chunk);
        v \<leftarrow> gocopy v off part;
        next \<leftarrow> Uint64_in (node_data w f) 1 9;
        w \<leftarrow> node_unpin f w;
        readOverflow_loop n env vallen v (off + chunk) next w
      }))"

definition readOverflowPages :: "env \<Rightarrow> PageId \<Rightarrow> nat \<Rightarrow> world \<Rightarrow> (bytes, world) outcome" where
  "readOverflowPages env firstID vallen w =
     readOverflow_loop (fuel env) env vallen (replicate vallen 0) 0 firstID w"

fun freeOverflow_loop :: "nat \<Rightarrow> env \<Rightarrow> PageId \<Rightarrow> world \<Rightarrow> (unit, world) outcome" where
  "freeOverflow_loop 0 env pid w = None"
| "freeOverflow_loop (Suc n) env pid w =
     (if pid = 0 then Some (Inr (), w)
      else try_ok (txnGet env pid w) (\<lambda>f w. do {
        next \<leftarrow> Uint64_in (node_data w f) 1 9;
        w \<leftarrow> node_unpin f w;
        w \<leftarrow> free_page pid w;
        freeOverflow_loop n env next w
      }))"

definition freeOverflowPages :: "env \<Rightarrow> PageId \<Rightarrow> world \<Rightarrow> (unit, world) outcome" where
  "freeOverflowPages env firstID w = freeOverflow_loop (fuel env) env firstID w"

definition leafCellOverflow :: "env \<Rightarrow> bytes \<Rightarrow> bytes \<Rightarrow> world \<Rightarrow> (PageId, world) outcome" where
  "leafCellOverflow env k v w =
     (if leafCellHeader + length k + length v \<le> maxInlineSize then Some (Inr 0, w)
      else writeOverflowPages env v w)"

section \<open>Search\<close>

definition leafValue :: "env \<Rightarrow> nat \<Rightarrow> u16 \<Rightarrow> world \<Rightarrow> (bytes, world) outcome" where
  "leafValue env f idx w = do {
     let d = node_data w f;
     t \<leftarrow> ntype d;
     _ \<leftarrow> go_assert (t = nodeLeaf);
     pos \<leftarrow> cellOffset d idx;
     keylen \<leftarrow> u16_at d pos;
     vallen \<leftarrow> Uint16_in d (unat (pos + 2)) (unat (pos + 4));
     flag \<leftarrow> goindex d (unat (pos + 4));
     if flag = 1 then do {
       firstOverflow \<leftarrow> gofrom d (unat (pos + of_nat leafCellHeader + keylen)) \<bind> Uint64;
       readOverflowPages env firstOverflow (unat vallen) w
     } else do {
       let valStart = pos + of_nat leafCellHeader + keylen;
       v \<leftarrow> goslice d (unat valStart) (unat (valStart + vallen));
       Some (Inr v, w)
     }
   }"

text \<open>\<^const>\<open>None\<close> as the value is Go's \<open>nil\<close> slice: no such key.\<close>

fun Search_loop :: "nat \<Rightarrow> env \<Rightarrow> nat \<Rightarrow> bytes \<Rightarrow> world \<Rightarrow> (bytes option, world) outcome" where
  "Search_loop 0 env f k w = None"
| "Search_loop (Suc n) env f k w = do {
     t \<leftarrow> ntype (node_data w f);
     if t = nodeInternal then do {
       idx \<leftarrow> searchInternal (node_data w f) k;
       next \<leftarrow> child (node_data w f) idx;
       w \<leftarrow> node_unpin f w;
       try_ok (getNode env next w) (\<lambda>f w. Search_loop n env f k w)
     } else do {
       (idx, found) \<leftarrow> searchLeaf (node_data w f) k;
       (r, w) \<leftarrow> (if \<not> found then Some (Inr None, w)
                 else try_ok (leafValue env f idx w) (\<lambda>v w. Some (Inr (Some v), w)));
       w \<leftarrow> node_unpin f w;
       Some (r, w)
     }
   }"

definition SearchKey :: "env \<Rightarrow> BTree \<Rightarrow> bytes \<Rightarrow> world \<Rightarrow> (bytes option, world) outcome" where
  "SearchKey env t k w =
     (if root t = 0 then Some (Inr None, w)
      else try_ok (getNode env (root t) w) (\<lambda>f w. Search_loop (fuel env) env f k w))"

section \<open>Freeing a tree\<close>

fun free_cells_overflow :: "env \<Rightarrow> nat \<Rightarrow> u16 \<Rightarrow> nat \<Rightarrow> world \<Rightarrow> (unit, world) outcome" where
  "free_cells_overflow env f i 0 w = Some (Inr (), w)"
| "free_cells_overflow env f i (Suc cnt) w = do {
     ovID \<leftarrow> leafCellOverflowId (node_data w f) i;
     if ovID \<noteq> 0
     then try_ok (freeOverflowPages env ovID w) (\<lambda>_ w. free_cells_overflow env f (i + 1) cnt w)
     else free_cells_overflow env f (i + 1) cnt w
   }"

fun child_ids :: "bytes \<Rightarrow> u16 \<Rightarrow> nat \<Rightarrow> PageId list option" where
  "child_ids d i 0 = Some []"
| "child_ids d i (Suc cnt) = do {
     c \<leftarrow> child d i;
     cs \<leftarrow> child_ids d (i + 1) cnt;
     Some (c # cs)
   }"

fun freeSubtree :: "nat \<Rightarrow> env \<Rightarrow> PageId \<Rightarrow> world \<Rightarrow> (unit, world) outcome"
  and free_children :: "nat \<Rightarrow> env \<Rightarrow> PageId list \<Rightarrow> world \<Rightarrow> (unit, world) outcome" where
  "freeSubtree 0 env pid w = None"
| "freeSubtree (Suc n) env pid w =
     (if pid = 0 then Some (Inr (), w)
      else try_ok (getNode env pid w) (\<lambda>f w. do {
        t \<leftarrow> ntype (node_data w f);
        nc \<leftarrow> nCells (node_data w f);
        if t = nodeLeaf then
          try_or (free_cells_overflow env f 0 (unat nc) w) (node_unpin f) (\<lambda>_ w. do {
            w \<leftarrow> node_unpin f w;
            w \<leftarrow> free_page pid w;
            Some (Inr (), w)
          })
        else if t = nodeInternal then do {
          children \<leftarrow> child_ids (node_data w f) 0 (unat (nc + 1));
          w \<leftarrow> node_unpin f w;
          try_ok (free_children n env children w) (\<lambda>_ w. do {
            w \<leftarrow> free_page pid w;
            Some (Inr (), w)
          })
        } else None
      }))"
| "free_children n env [] w = Some (Inr (), w)"
| "free_children n env (c # cs) w =
     try_ok (freeSubtree n env c w) (\<lambda>_ w. free_children n env cs w)"

definition FreeAll :: "env \<Rightarrow> BTree \<Rightarrow> world \<Rightarrow> (unit, world) outcome" where
  "FreeAll env t w = freeSubtree (fuel env) env (root t) w"

end
