(* ===== verification/TxnInv.thy ===== *)
theory TxnInv
  imports PoolHandles BTree
begin

text \<open>
  The invariant of a write transaction and one rule for each page operation that the trees use.
  \<open>L\<close> is the set of live pages, \<open>H\<close> the handles held, \<open>n\<close> a number of pages that may still be
  added to the file before its size reaches \<open>2^58\<close> bytes, and \<open>\<sigma>\<close> what stays as it is while the
  transaction changes pages.
\<close>

section \<open>Outcomes\<close>

definition result_ok :: "('a, 's) outcome \<Rightarrow> ('s \<Rightarrow> bool) \<Rightarrow> ('a \<Rightarrow> 's \<Rightarrow> bool) \<Rightarrow> bool" where
  "result_ok r E Q \<longleftrightarrow> (\<exists>e s. r = Some (Inl e, s) \<and> E s) \<or> (\<exists>x s. r = Some (Inr x, s) \<and> Q x s)"

lemma result_ok_cases:
  assumes "result_ok r E Q"
  obtains (err) e s where "r = Some (Inl e, s)" "E s" | (val) x s where "r = Some (Inr x, s)" "Q x s"
  using assms unfolding result_ok_def by blast

lemma result_okI:
  "E s \<Longrightarrow> result_ok (Some (Inl e, s)) E Q" "Q x s \<Longrightarrow> result_ok (Some (Inr x, s)) E Q"
  by (simp_all add: result_ok_def)

lemma result_ok_mono:
  assumes "result_ok r E Q" "\<And>s. E s \<Longrightarrow> E' s" "\<And>x s. Q x s \<Longrightarrow> Q' x s"
  shows "result_ok r E' Q'"
  using assms unfolding result_ok_def by blast

lemma try_or_rule:
  assumes "result_ok m E Q" "\<And>s. E s \<Longrightarrow> \<exists>s'. cleanup s = Some s' \<and> E' s'"
    "\<And>x s. Q x s \<Longrightarrow> result_ok (k x s) E' Q'"
  shows "result_ok (try_or m cleanup k) E' Q'"
  using assms(1)
proof (cases rule: result_ok_cases)
  case (err e s)
  then show ?thesis using assms(2) [OF err(2)] by (auto simp: try_or_def result_ok_def)
next
  case (val x s)
  then show ?thesis using assms(3) [OF val(2)] by (simp add: try_or_def)
qed

lemma try_ok_rule:
  assumes "result_ok m E Q" "\<And>s. E s \<Longrightarrow> E' s" "\<And>x s. Q x s \<Longrightarrow> result_ok (k x s) E' Q'"
  shows "result_ok (try_ok m k) E' Q'"
  unfolding try_ok_def using assms by (intro try_or_rule [OF assms(1)]) auto

section \<open>The invariant\<close>

abbreviation pool :: "world \<Rightarrow> BufferPool" where
  "pool w \<equiv> bufferPool (db w)"

abbreviation V :: "world \<Rightarrow> PageId \<Rightarrow> bytes" where
  "V w \<equiv> view (pool w)"

definition free_lists :: "world \<Rightarrow> PageId list" where
  "free_lists w = reusable (txn w) @ freed (txn w) @ allIds (freelist (db w))"

definition read_ok :: "env \<Rightarrow> handle multiset \<Rightarrow> PageId set \<Rightarrow> world \<Rightarrow> bool" where
  "read_ok env H L w \<longleftrightarrow> pool_ok env H L (pool w) \<and> \<not> closed (txn w)"

definition disk_ok :: "(PageId \<rightharpoonup> bytes) \<Rightarrow> PageId set \<Rightarrow> world \<Rightarrow> bool" where
  "disk_ok \<sigma> L w \<longleftrightarrow> length (onDisk (sm (pool w))) \<le> length (content (sm (pool w))) \<and> dirty_pages (pool w) \<inter> dom \<sigma> = {} \<and> dirty_pages (pool w) \<inter> L \<subseteq> set (allocated (txn w)) \<and>
     (\<forall>pid bs. \<sigma> pid = Some bs \<longrightarrow> pid < initialPageCnt (txn w) \<and> in_file (sm (pool w)) pid \<and> page_at (sm (pool w)) pid = bs \<and>
        pid \<notin> set (reusable (txn w)) \<union> set (allIds (freelist (db w))))"

definition lists_ok :: "nat \<Rightarrow> PageId set \<Rightarrow> world \<Rightarrow> bool" where
  "lists_ok n L w \<longleftrightarrow> writable (txn w) \<and> distinct (free_lists w) \<and>
     (\<forall>pid \<in> set (free_lists w). in_file (sm (pool w)) pid \<and> pid \<notin> L \<and> pid < numPages (meta (txn w))) \<and>
     (\<forall>pid \<in> L. pid < numPages (meta (txn w))) \<and> initialPageCnt (txn w) \<le> numPages (meta (txn w)) \<and>
     unat (numPages (meta (txn w))) + n < 2 ^ 46 \<and> 0 \<in> L"

text \<open>The pages that the transaction has taken for itself: each is listed once, and none of them can be taken
  again or belongs to the last commit.\<close>

definition fresh_ok :: "(PageId \<rightharpoonup> bytes) \<Rightarrow> world \<Rightarrow> bool" where
  "fresh_ok \<sigma> w \<longleftrightarrow> distinct (allocated (txn w)) \<and>
     set (allocated (txn w)) \<inter> (set (reusable (txn w)) \<union> set (allIds (freelist (db w))) \<union> dom \<sigma>) = {} \<and>
     (\<forall>pid \<in> set (allocated (txn w)). pid < numPages (meta (txn w)))"

text \<open>What the operations on pages and trees leave alone: the pages of the last commit as the file holds
  them, the open buckets, the header but for the page count, the fields of the database handle
  beside the pool and the free list, and the bytes at the last sync.\<close>

type_synonym scenery =
  "((bytes \<times> Bucket) list \<times> Meta \<times> u64) \<times> Meta \<times> PageId \<times> bool \<times> (TxnID \<times> int) list \<times> bytes"

definition scenery :: "world \<Rightarrow> scenery" where
  "scenery w = ((buckets (txn w), (meta (txn w))\<lparr>numPages := 0\<rparr>, initialPageCnt (txn w)),
     currentMeta (db w), currentMetaPage (db w), writerMu (db w), readers (db w), onDisk (sm (pool w)))"

record backdrop =
  committed :: "PageId \<rightharpoonup> bytes"
  around :: scenery

lemma scenery_simps [simp]:
  "scenery (w\<lparr>db := d\<lparr>freelist := fl\<rparr>\<rparr>) = scenery (w\<lparr>db := d\<rparr>)"
  "scenery (w\<lparr>db := db w\<rparr>) = scenery w" "scenery (w\<lparr>txn := txn w\<rparr>) = scenery w"
  "scenery (w\<lparr>txn := t\<lparr>allocated := xs\<rparr>\<rparr>) = scenery (w\<lparr>txn := t\<rparr>)" "scenery (w\<lparr>txn := t\<lparr>freed := xs\<rparr>\<rparr>) = scenery (w\<lparr>txn := t\<rparr>)"
  "scenery (w\<lparr>txn := t\<lparr>reusable := xs\<rparr>\<rparr>) = scenery (w\<lparr>txn := t\<rparr>)"
  "scenery (w\<lparr>txn := t\<lparr>meta := (meta t)\<lparr>numPages := n\<rparr>\<rparr>\<rparr>) = scenery (w\<lparr>txn := t\<rparr>)"
  by (simp_all add: scenery_def)

lemma scenery_pool: "quiet W (pool w) bp \<Longrightarrow> scenery (w\<lparr>db := (db w)\<lparr>bufferPool := bp\<rparr>\<rparr>) = scenery w"
  by (simp add: scenery_def quiet_def)

lemma scenery_both: "scenery (w\<lparr>txn := t\<rparr>) = scenery w \<Longrightarrow> quiet W (pool w) bp \<Longrightarrow> scenery (w\<lparr>db := (db w)\<lparr>bufferPool := bp, freelist := fl\<rparr>, txn := t\<rparr>) = scenery w"
  by (simp add: scenery_def quiet_def)

definition txn_ok :: "env \<Rightarrow> backdrop \<Rightarrow> nat \<Rightarrow> handle multiset \<Rightarrow> PageId set \<Rightarrow> world \<Rightarrow> bool" where
  "txn_ok env \<sigma> n H L w \<longleftrightarrow> read_ok env H L w \<and> lists_ok n L w \<and> disk_ok (committed \<sigma>) L w \<and> fresh_ok (committed \<sigma>) w \<and> around \<sigma> = scenery w"

text \<open>After an error the transaction is still one that can be aborted: some pages are live, and the
  file still holds the last commit.\<close>

definition failed :: "env \<Rightarrow> backdrop \<Rightarrow> handle multiset \<Rightarrow> world \<Rightarrow> bool" where
  "failed env \<sigma> H w \<longleftrightarrow> (\<exists>L. txn_ok env \<sigma> 0 H L w)"

definition same_pages :: "PageId set \<Rightarrow> world \<Rightarrow> world \<Rightarrow> bool" where
  "same_pages L w w' \<longleftrightarrow> (\<forall>q \<in> L. V w' q = V w q)"

lemma same_pages_refl [simp]: "same_pages L w w"
  by (simp add: same_pages_def)

lemma same_pages_trans: "same_pages L a b \<Longrightarrow> same_pages L b c \<Longrightarrow> same_pages L a c"
  by (simp add: same_pages_def)

lemma same_pages_mono: "same_pages L a b \<Longrightarrow> L' \<subseteq> L \<Longrightarrow> same_pages L' a b"
  by (auto simp: same_pages_def)

lemma txn_ok_weaken:
  assumes "txn_ok env \<sigma> n H L w" "L' \<subseteq> L" "0 \<in> L'" "m \<le> n"
  shows "txn_ok env \<sigma> m H L' w"
proof -
  have "disk_ok (committed \<sigma>) L' w" using assms(1,2) unfolding txn_ok_def disk_ok_def by blast
  moreover have "read_ok env H L' w" using assms(1,2) pool_ok_subset by (simp add: txn_ok_def read_ok_def) blast
  moreover have "lists_ok m L' w"
  proof -
    have l: "lists_ok n L w" using assms(1) by (simp add: txn_ok_def)
    then have "\<forall>pid \<in> set (free_lists w). pid \<notin> L'" "\<forall>pid \<in> L'. pid < numPages (meta (txn w))"
      using assms(2) unfolding lists_ok_def by blast+
    then show ?thesis using l assms(3,4) by (simp add: lists_ok_def)
  qed
  ultimately show ?thesis using assms(1) by (simp add: txn_ok_def)
qed

lemma txn_ok_failed: "txn_ok env \<sigma> n H L w \<Longrightarrow> failed env \<sigma> H w"
  unfolding failed_def using txn_ok_weaken [of env \<sigma> n H L w L 0] by (auto simp: txn_ok_def lists_ok_def)

lemma txn_ok_not_zero: "txn_ok env \<sigma> n H L w \<Longrightarrow> pid \<notin> L \<Longrightarrow> pid \<noteq> 0"
  by (auto simp: txn_ok_def lists_ok_def)

section \<open>Handles of a transaction\<close>

lemma handle_node:
  assumes "read_ok env H L w" "(f, pid, wr) \<in># H"
  shows "node_data w f = V w pid" "Id w f = pid" "length (V w pid) = 4096"
  using handle_view [of env H L "pool w" f pid wr] assms
  by (simp_all add: read_ok_def node_data_def page_data_def Id_def page_id_def)

lemma txn_read [dest]: "txn_ok env \<sigma> n H L w \<Longrightarrow> read_ok env H L w"
  by (simp add: txn_ok_def)

text \<open>A step of the pool that makes no page dirty.\<close>

lemma quiet_disk:
  assumes "disk_ok \<sigma> L w" "quiet W (pool w) bp'" "W \<inter> dom \<sigma> = {}" "W \<inter> L' \<subseteq> set (allocated t)" "L' - W \<subseteq> L"
    "set (allocated (txn w)) \<inter> L' \<subseteq> set (allocated t)" "initialPageCnt t = initialPageCnt (txn w)"
    "(set (reusable t) \<union> set (allIds fl)) \<inter> dom \<sigma> = {}"
  shows "disk_ok \<sigma> L' (w\<lparr>db := (db w)\<lparr>bufferPool := bp', freelist := fl\<rparr>, txn := t\<rparr>)"
proof -
  have d: "dirty_pages (pool w) \<inter> dom \<sigma> = {}" "dirty_pages (pool w) \<inter> L \<subseteq> set (allocated (txn w))"
    and l: "length (onDisk (sm (pool w))) \<le> length (content (sm (pool w)))"
    and c: "\<And>pid bs. \<sigma> pid = Some bs \<Longrightarrow> pid < initialPageCnt (txn w) \<and> in_file (sm (pool w)) pid \<and> page_at (sm (pool w)) pid = bs"
    using assms(1) unfolding disk_ok_def by blast+
  have q: "dirty_pages bp' \<subseteq> dirty_pages (pool w) \<union> W" "length (content (sm (pool w))) \<le> length (content (sm bp'))"
    "\<And>p. in_file (sm (pool w)) p \<Longrightarrow> p \<notin> dirty_pages (pool w) \<union> W \<Longrightarrow> page_at (sm bp') p = page_at (sm (pool w)) p"
    using assms(2) unfolding quiet_def by blast+
  have "length (onDisk (sm bp')) \<le> length (content (sm bp'))" using assms(2) l unfolding quiet_def by simp
  moreover have "pid < initialPageCnt t \<and> in_file (sm bp') pid \<and> page_at (sm bp') pid = bs \<and>
      pid \<notin> set (reusable t) \<union> set (allIds fl)" if s: "\<sigma> pid = Some bs" for pid bs
  proof -
    have "pid \<notin> dirty_pages (pool w) \<union> W" "pid \<notin> set (reusable t) \<union> set (allIds fl)" using d(1) assms(3,8) s by blast+
    then show ?thesis using c [OF s] q(3) [of pid] in_file_mono [OF q(2)] assms(7) by auto
  qed
  moreover have "dirty_pages bp' \<inter> dom \<sigma> = {}" using q(1) d(1) assms(3) by blast
  moreover have "dirty_pages bp' \<inter> L' \<subseteq> set (allocated t)" using q(1) d(2) assms(4-6) by blast
  ultimately show ?thesis unfolding disk_ok_def by simp
qed

lemma disk_disjoint: "disk_ok \<sigma> L w \<Longrightarrow> (set (reusable (txn w)) \<union> set (allIds (freelist (db w)))) \<inter> dom \<sigma> = {}"
  unfolding disk_ok_def by blast

lemma txn_ok_pool:
  assumes "txn_ok env \<sigma> n H L w" "pool_ok env H' L bp'" "quiet {} (pool w) bp'"
  shows "txn_ok env \<sigma> n H' L (w\<lparr>db := (db w)\<lparr>bufferPool := bp'\<rparr>\<rparr>)"
proof -
  have "length (content (sm (pool w))) \<le> length (content (sm bp'))" using assms(3) by (simp add: quiet_def)
  then have "lists_ok n L (w\<lparr>db := (db w)\<lparr>bufferPool := bp'\<rparr>\<rparr>)"
    using assms(1) in_file_mono [of "sm (pool w)" "sm bp'"] unfolding txn_ok_def lists_ok_def free_lists_def by auto
  moreover have dk: "disk_ok (committed \<sigma>) L w" using assms(1) by (simp add: txn_ok_def)
  have "disk_ok (committed \<sigma>) L (w\<lparr>db := (db w)\<lparr>bufferPool := bp', freelist := freelist (db w)\<rparr>, txn := txn w\<rparr>)"
    using disk_disjoint [OF dk] by (intro quiet_disk [OF dk assms(3)]) auto
  then have "disk_ok (committed \<sigma>) L (w\<lparr>db := (db w)\<lparr>bufferPool := bp'\<rparr>\<rparr>)" by simp
  ultimately show ?thesis using assms(1,2) scenery_pool [OF assms(3)] unfolding txn_ok_def read_ok_def by (simp add: fresh_ok_def)
qed

section \<open>Rules\<close>

text \<open>Steps that only read: the state is the same up to the pool, and no page is written that was not
  already on its way to the file.\<close>

definition calm :: "PageId set \<Rightarrow> world \<Rightarrow> world \<Rightarrow> bool" where
  "calm L w w' \<longleftrightarrow> same_pages L w w' \<and> txn w' = txn w \<and> db w' = (db w)\<lparr>bufferPool := pool w'\<rparr> \<and> quiet {} (pool w) (pool w')"

lemma calm_refl [simp]: "calm L w w"
  by (simp add: calm_def)

lemma calm_trans:
  assumes "calm L a b" "calm L b c"
  shows "calm L a c"
proof -
  have "db b = (db a)\<lparr>bufferPool := pool b\<rparr>" "db c = (db b)\<lparr>bufferPool := pool c\<rparr>" using assms by (simp_all add: calm_def)
  then have "db c = (db a)\<lparr>bufferPool := pool c\<rparr>" by (metis DB.update_convs(1) DB.surjective)
  then show ?thesis using assms same_pages_trans quiet_trans unfolding calm_def by metis
qed

lemma calm_same: "calm L w w' \<Longrightarrow> same_pages L w w'"
  by (simp add: calm_def)

definition reading :: "env \<Rightarrow> handle multiset \<Rightarrow> PageId set \<Rightarrow> world \<Rightarrow> world \<Rightarrow> bool" where
  "reading env H L w w' \<longleftrightarrow> read_ok env H L w' \<and> calm L w w'"

lemma reading_trans: "reading env H L a b \<Longrightarrow> reading env H' L b c \<Longrightarrow> reading env H' L a c"
  using calm_trans by (auto simp: reading_def)

lemma reading_same: "reading env H L w w' \<Longrightarrow> same_pages L w w'"
  by (simp add: reading_def calm_def)

lemma reading_txn:
  assumes "txn_ok env \<sigma> n H L w" "reading env H' L w w'"
  shows "txn_ok env \<sigma> n H' L w'"
proof -
  have "w' = w\<lparr>db := db w', txn := txn w'\<rparr>" by simp
  then have w': "w' = w\<lparr>db := (db w)\<lparr>bufferPool := pool w'\<rparr>\<rparr>" "quiet {} (pool w) (pool w')" "pool_ok env H' L (pool w')"
    using assms(2) unfolding reading_def calm_def read_ok_def by auto
  show ?thesis by (subst w'(1)) (rule txn_ok_pool [OF assms(1) w'(3,2)])
qed

lemma txnGet_read:
  assumes "read_ok env H L w" "pid \<in> L"
  shows "result_ok (getNode env pid w) (reading env H L w) (\<lambda>f w'. reading env (add_mset (f, pid, False) H) L w w')"
proof -
  have "pool_result env H L (pool w) {} (\<lambda>f. (f, pid, False)) L (Get env (pool w) pid)"
    using assms by (intro pool_Get) (simp_all add: read_ok_def)
  then show ?thesis using assms(1)
    unfolding pool_result_def getNode_def txnGet_def in_db_def in_pool_def reading_def calm_def read_ok_def result_ok_def same_pages_def kept_def
    by auto
qed

lemma getNode_rule:
  assumes "txn_ok env \<sigma> n H L w" "pid \<in> L"
  shows "result_ok (getNode env pid w) (failed env \<sigma> H)
    (\<lambda>f w'. txn_ok env \<sigma> n (add_mset (f, pid, False) H) L w' \<and> same_pages L w w')"
proof -
  have "pool_result env H L (pool w) {} (\<lambda>f. (f, pid, False)) L (Get env (pool w) pid)" "\<not> closed (txn w)"
    using assms by (auto intro!: pool_Get simp: txn_ok_def read_ok_def)
  then consider
    (err) e bp' where "Get env (pool w) pid = Some (Inl e, bp')" "pool_ok env H L bp'" "kept L {} (pool w) bp'"
    | (ok) f bp' where "Get env (pool w) pid = Some (Inr f, bp')" "pool_ok env (add_mset (f, pid, False) H) L bp'" "kept L {} (pool w) bp'"
    unfolding pool_result_def by blast
  then show ?thesis
  proof cases
    case err
    then show ?thesis using \<open>\<not> closed (txn w)\<close> txn_ok_failed [OF txn_ok_pool [OF assms(1) err(2)]]
      by (simp add: getNode_def txnGet_def in_db_def in_pool_def result_ok_def kept_def)
  next
    case (ok f bp')
    then show ?thesis using \<open>\<not> closed (txn w)\<close> txn_ok_pool [OF assms(1) ok(2)]
      by (simp add: getNode_def txnGet_def in_db_def in_pool_def result_ok_def kept_def same_pages_def)
  qed
qed

lemma unpin_rule:
  assumes "txn_ok env \<sigma> n (add_mset (f, pid, wr) H) L w"
  obtains w' where "node_unpin f w = Some w'" "txn_ok env \<sigma> n H L w'" "same_pages L w w'" "Id w' f = pid" "txn w' = txn w"
proof -
  have "pool_ok env (add_mset (f, pid, wr) H) L (pool w)" using assms by (simp add: txn_ok_def read_ok_def)
  then obtain bp' where bp': "Unpin (pool w) f = Some bp'" "pool_ok env H L bp'" "kept L {} (pool w) bp'"
    "pageId (frames bp' ! f) = pid" by (rule pool_Unpin) auto
  show thesis
  proof (rule that)
    show "node_unpin f w = Some (w\<lparr>db := (db w)\<lparr>bufferPool := bp'\<rparr>\<rparr>)" using bp'(1) by (simp add: node_unpin_def unpin_def)
    show "txn_ok env \<sigma> n H L (w\<lparr>db := (db w)\<lparr>bufferPool := bp'\<rparr>\<rparr>)" using bp'(2,3) by (intro txn_ok_pool [OF assms]) (simp_all add: kept_def)
  qed (use bp' in \<open>simp_all add: same_pages_def kept_def Id_def page_id_def\<close>)
qed

lemma failed_unpin:
  assumes "failed env \<sigma> (add_mset (f, pid, wr) H) w"
  shows "\<exists>w'. node_unpin f w = Some w' \<and> failed env \<sigma> H w'"
proof -
  obtain L where "txn_ok env \<sigma> 0 (add_mset (f, pid, wr) H) L w" using assms by (auto simp: failed_def)
  then obtain w' where "node_unpin f w = Some w'" "txn_ok env \<sigma> 0 H L w'" by (rule unpin_rule)
  then show ?thesis by (auto simp: failed_def)
qed

lemma read_unpin_rule:
  assumes "read_ok env (add_mset (f, pid, wr) H) L w"
  obtains w' where "node_unpin f w = Some w'" "reading env H L w w'"
proof -
  have "pool_ok env (add_mset (f, pid, wr) H) L (pool w)" using assms by (simp add: read_ok_def)
  then obtain bp' where bp': "Unpin (pool w) f = Some bp'" "pool_ok env H L bp'" "kept L {} (pool w) bp'" by (rule pool_Unpin) auto
  show thesis
    using that [of "w\<lparr>db := (db w)\<lparr>bufferPool := bp'\<rparr>\<rparr>"] bp' assms
    by (simp add: node_unpin_def unpin_def read_ok_def reading_def calm_def same_pages_def kept_def)
qed

lemma put_node_rule:
  assumes "txn_ok env \<sigma> n H L w" "(f, pid, True) \<in># H" "length bs = 4096"
    and w': "w' = w\<lparr>db := put_data f bs (db w)\<rparr>"
  shows "txn_ok env \<sigma> n H L w'" "V w' pid = bs" "same_pages (L - {pid}) w w'"
proof -
  have po: "pool_ok env H L (pool w)" using assms(1) by (simp add: txn_ok_def read_ok_def)
  note sd = pool_set_data [OF po assms(2,3)]
  show "txn_ok env \<sigma> n H L w'" unfolding w' put_data_def by (rule txn_ok_pool [OF assms(1) sd(1,3)])
  show "V w' pid = bs" "same_pages (L - {pid}) w w'" using sd(2,4) by (simp_all add: w' put_data_def same_pages_def)
qed

lemma modify_rule:
  assumes "txn_ok env \<sigma> n H L w" "(f, pid, True) \<in># H" "g (V w pid) = Some bs" "length bs = 4096"
  obtains w' where "modify f g w = Some w'" "txn_ok env \<sigma> n H L w'" "V w' pid = bs" "same_pages (L - {pid}) w w'"
proof -
  have "node_data w f = V w pid" using handle_node [OF txn_read [OF assms(1)] assms(2)] by simp
  then have "modify f g w = Some (w\<lparr>db := put_data f bs (db w)\<rparr>)" using assms(3) by (simp add: modify_def)
  then show thesis using that put_node_rule [OF assms(1,2,4) refl] by blast
qed

lemma remove1_keeps: "set xs - {x} \<subseteq> set (remove1 x xs)"
  by (induction xs) auto

lemma free_rule:
  assumes ok: "txn_ok env \<sigma> n H L w" and pid: "pid \<in> L" "pid \<noteq> 0"
  obtains w' where "free_page pid w = Some w'" "txn_ok env \<sigma> n H (L - {pid}) w'" "db w' = db w"
proof -
  have w: "writable (txn w)" "\<not> closed (txn w)" using ok by (simp_all add: txn_ok_def lists_ok_def read_ok_def)
  have dk: "disk_ok (committed \<sigma>) L w" and fr: "fresh_ok (committed \<sigma>) w" and l: "lists_ok n L w" and po: "pool_ok env H L (pool w)" using ok by (simp_all add: txn_ok_def read_ok_def)
  have pin: "in_file (sm (pool w)) pid" "pid < numPages (meta (txn w))" "pid \<notin> set (free_lists w)"
    using po l pid(1) by (auto simp: pool_ok_def lists_ok_def)
  obtain t where t: "FreePage pid (txn w) = Some t" "meta t = meta (txn w)" "closed t = closed (txn w)" "writable t"
    "initialPageCnt t = initialPageCnt (txn w)"
    "mset (reusable t @ freed t) = add_mset pid (mset (reusable (txn w) @ freed (txn w)))"
    "set (allocated (txn w)) - {pid} \<subseteq> set (allocated t)" "distinct (allocated t)" "set (allocated t) \<subseteq> set (allocated (txn w))"
    "pid \<in> set (reusable t) - set (reusable (txn w)) \<Longrightarrow> pid \<notin> set (allocated t)"
    "set (reusable t) \<subseteq> set (reusable (txn w)) \<union> (if pid < initialPageCnt (txn w) then {} else {pid})" "scenery (w\<lparr>txn := t\<rparr>) = scenery w"
  proof (cases "initialPageCnt (txn w) \<le> pid")
    case True
    show thesis
      by (rule that [of "(txn w)\<lparr>allocated := remove1 pid (allocated (txn w)), reusable := reusable (txn w) @ [pid]\<rparr>"])
        (use True w fr remove1_keeps [of "allocated (txn w)" pid] set_remove1_subset [of pid "allocated (txn w)"] in \<open>auto simp: FreePage_def fresh_ok_def\<close>)
  next
    case False
    show thesis
      by (rule that [of "(txn w)\<lparr>freed := freed (txn w) @ [pid]\<rparr>"]) (use False w fr in \<open>auto simp: FreePage_def fresh_ok_def not_le\<close>)
  qed
  let ?w = "w\<lparr>txn := t\<rparr>"
  have fl: "mset (free_lists ?w) = mset (pid # free_lists w)"
    using t(6) by (simp add: free_lists_def union_assoc [symmetric])
  have "distinct (free_lists ?w)" "set (free_lists ?w) = insert pid (set (free_lists w))"
    using mset_eq_imp_distinct_iff [OF fl] mset_eq_setD [OF fl] l pin(3) by (simp_all add: lists_ok_def)
  then have "lists_ok n (L - {pid}) ?w" using l pin pid t(2,4,5) unfolding lists_ok_def by auto
  moreover have "pid \<notin> dom (committed \<sigma>)" if "\<not> pid < initialPageCnt (txn w)" using dk that unfolding disk_ok_def by blast
  then have dj: "(set (reusable t) \<union> set (allIds (freelist (db w)))) \<inter> dom (committed \<sigma>) = {}"
    using disk_disjoint [OF dk] t(11) by (cases "pid < initialPageCnt (txn w)") (simp, blast, simp, blast)
  have "disk_ok (committed \<sigma>) (L - {pid}) (w\<lparr>db := (db w)\<lparr>bufferPool := pool w, freelist := freelist (db w)\<rparr>, txn := t\<rparr>)"
    using t(7) by (intro quiet_disk [OF dk quiet_refl, of "{}"] dj t(5)) auto
  moreover have "read_ok env H (L - {pid}) ?w" using po w(2) t(3) pool_ok_subset [of env H L "pool w"] by (auto simp: read_ok_def)
  moreover have "around \<sigma> = scenery ?w" using ok t(12) by (simp add: txn_ok_def)
  moreover have "x \<notin> set (reusable t)" if "x \<in> set (allocated t)" for x
  proof -
    have "x \<notin> set (reusable (txn w))" using fr t(9) that unfolding fresh_ok_def by blast
    then show ?thesis using t(10,11) that by (cases "x = pid") (auto split: if_splits)
  qed
  then have "fresh_ok (committed \<sigma>) ?w" using fr t(2,8,9) unfolding fresh_ok_def by auto
  ultimately have "txn_ok env \<sigma> n H (L - {pid}) ?w" by (simp add: txn_ok_def)
  then show thesis using that [of ?w] t(1) by (simp add: free_page_def)
qed

text \<open>What these steps do to the lists of free pages.\<close>

lemma free_page_lists: "free_page pid w = Some w' \<Longrightarrow> mset (free_lists w') = add_mset pid (mset (free_lists w))"
  by (auto simp: free_page_def FreePage_def free_lists_def split: if_splits)

lemma node_unpin_lists: "node_unpin f w = Some w' \<Longrightarrow> free_lists w' = free_lists w"
  by (auto simp: node_unpin_def unpin_def free_lists_def split: bind_splits)

lemma getNode_listed:
  assumes "txn_ok env \<sigma> n H L w" "pid \<in> L"
  shows "result_ok (getNode env pid w) (failed env \<sigma> H)
    (\<lambda>f w'. (txn_ok env \<sigma> n (add_mset (f, pid, False) H) L w' \<and> same_pages L w w') \<and> free_lists w' = free_lists w)"
proof -
  have "free_lists w' = free_lists w" if "getNode env pid w = Some (r, w')" for r w'
    using that by (auto simp: getNode_def txnGet_def in_db_def in_pool_def free_lists_def split: if_splits bind_splits)
  then show ?thesis using getNode_rule [OF assms] unfolding result_ok_def by blast
qed

section \<open>Allocation\<close>

text \<open>The state after a page has left the free lists, or the end of the file, and \<open>t\<close> and \<open>fl\<close> record it.\<close>

definition taken :: "PageId \<Rightarrow> Txn \<Rightarrow> freelist \<Rightarrow> nat \<Rightarrow> world \<Rightarrow> bool" where
  "taken pid t fl n w \<longleftrightarrow> scenery (w\<lparr>txn := t\<rparr>) = scenery w \<and> writable t \<and> \<not> closed t \<and> initialPageCnt t = initialPageCnt (txn w) \<and>
     numPages (meta (txn w)) \<le> numPages (meta t) \<and> pid < numPages (meta t) \<and> unat (numPages (meta t)) + n < 2 ^ 46 \<and>
     allocated t = allocated (txn w) \<and> freed t = freed (txn w) \<and>
     set (reusable t) \<subseteq> set (reusable (txn w)) \<and> set (allIds fl) \<subseteq> set (allIds (freelist (db w))) \<and>
     distinct (reusable t @ freed t @ allIds fl) \<and> pid \<notin> set (reusable t @ freed t @ allIds fl) \<and>
     pid \<notin> set (allocated (txn w))"

lemma taken_lists:
  assumes "txn_ok env \<sigma> m H L w" "taken pid t fl n w" "quiet W (pool w) bp'" "L' \<subseteq> insert pid L" "0 \<in> L'"
    and t': "reusable t' = reusable t" "freed t' = freed t" "meta t' = meta t" "writable t' = writable t" "initialPageCnt t' = initialPageCnt t"
  shows "lists_ok n L' (w\<lparr>db := (db w)\<lparr>bufferPool := bp', freelist := fl\<rparr>, txn := t'\<rparr>)"
proof -
  have l: "lists_ok m L w" using assms(1) by (simp add: txn_ok_def)
  have sub: "set (reusable t @ freed t @ allIds fl) \<subseteq> set (free_lists w)"
    using assms(2) by (auto simp: taken_def free_lists_def)
  have mono: "in_file (sm (pool w)) q \<Longrightarrow> in_file (sm bp') q" for q
    using assms(3) in_file_mono [of "sm (pool w)" "sm bp'" q] by (simp add: quiet_def)
  have np: "numPages (meta (txn w)) \<le> numPages (meta t)" using assms(2) by (simp add: taken_def)
  have a: "\<forall>q \<in> set (reusable t @ freed t @ allIds fl). in_file (sm bp') q \<and> q \<notin> L' \<and> q < numPages (meta t)"
  proof
    fix q assume q: "q \<in> set (reusable t @ freed t @ allIds fl)"
    then have "q \<in> set (free_lists w)" "q \<noteq> pid" using sub assms(2) by (auto simp: taken_def)
    then show "in_file (sm bp') q \<and> q \<notin> L' \<and> q < numPages (meta t)"
      using l mono np assms(4) order_less_le_trans unfolding lists_ok_def by blast
  qed
  moreover have "\<forall>q \<in> L'. q < numPages (meta t)"
    using l np assms(2,4) order_less_le_trans unfolding lists_ok_def taken_def by blast
  moreover have "initialPageCnt (txn w) \<le> numPages (meta t)" using l np order_trans unfolding lists_ok_def by blast
  moreover have "distinct (reusable t @ freed t @ allIds fl)" using assms(2) unfolding taken_def by blast
  moreover have "writable t" "initialPageCnt t = initialPageCnt (txn w)" "unat (numPages (meta t)) + n < 2 ^ 46"
    using assms(2) by (simp_all add: taken_def)
  ultimately show ?thesis using assms(5) t' by (simp add: lists_ok_def free_lists_def)
qed

lemma taken_fails:
  assumes ok: "txn_ok env \<sigma> m H L w" and tk: "taken pid t fl n w" and bp': "pool_ok env H L bp'" "quiet {} (pool w) bp'"
  shows "txn_ok env \<sigma> 0 H L (w\<lparr>db := (db w)\<lparr>bufferPool := bp', freelist := fl\<rparr>, txn := t\<rparr>)" (is "txn_ok _ _ _ _ _ ?w")
proof -
  have dk: "disk_ok (committed \<sigma>) L w" and "0 \<in> L" using ok by (simp_all add: txn_ok_def lists_ok_def)
  then have "lists_ok n L ?w" using taken_lists [OF ok tk bp'(2), of L] by blast
  moreover have "disk_ok (committed \<sigma>) L ?w"
    using tk disk_disjoint [OF dk] by (intro quiet_disk [OF dk bp'(2)]) (auto simp: taken_def)
  moreover have "around \<sigma> = scenery ?w" using ok tk scenery_both [OF _ bp'(2), of t fl] by (simp add: txn_ok_def taken_def)
  moreover have "fresh_ok (committed \<sigma>) ?w" using ok tk order_less_le_trans unfolding txn_ok_def fresh_ok_def taken_def by simp blast
  ultimately have "txn_ok env \<sigma> n H L ?w" using bp'(1) tk by (simp add: txn_ok_def read_ok_def taken_def)
  then show ?thesis using txn_ok_weaken [OF _ subset_refl \<open>0 \<in> L\<close>, of env \<sigma> n H ?w 0] by simp
qed

lemma taken_allocated:
  assumes ok: "txn_ok env \<sigma> m H L w" and tk: "taken pid t fl n w" and pid: "pid \<notin> L" "pid \<notin> dom (committed \<sigma>)"
    and bp': "pool_ok env (add_mset (f, pid, True) H) (insert pid L) bp'" "quiet {pid} (pool w) bp'"
  shows "txn_ok env \<sigma> n (add_mset (f, pid, True) H) (insert pid L)
    (w\<lparr>db := (db w)\<lparr>bufferPool := bp', freelist := fl\<rparr>, txn := t\<lparr>allocated := allocated t @ [pid]\<rparr>\<rparr>)" (is "txn_ok _ _ _ _ _ ?w")
proof -
  have dk: "disk_ok (committed \<sigma>) L w" and "0 \<in> L" using ok by (simp_all add: txn_ok_def lists_ok_def)
  then have "lists_ok n (insert pid L) ?w" using taken_lists [OF ok tk bp'(2), of "insert pid L"] by auto
  moreover have "disk_ok (committed \<sigma>) (insert pid L) ?w"
    using tk disk_disjoint [OF dk] pid(2) by (intro quiet_disk [OF dk bp'(2)]) (auto simp: taken_def)
  moreover have "around \<sigma> = scenery ?w"
    using ok tk scenery_both [OF _ bp'(2), of "t\<lparr>allocated := allocated t @ [pid]\<rparr>" fl] by (simp add: txn_ok_def taken_def)
  moreover have "fresh_ok (committed \<sigma>) ?w" using ok tk pid(2) order_less_le_trans unfolding txn_ok_def fresh_ok_def taken_def by simp blast
  ultimately show ?thesis using bp'(1) tk by (simp add: txn_ok_def read_ok_def taken_def)
qed

lemma takePage_rule:
  assumes ok: "txn_ok env \<sigma> m H L w" and tk: "taken pid t fl n w" and pid: "pid \<in> set (reusable (txn w)) \<union> set (allIds (freelist (db w)))"
  shows "result_ok (takePage env pid (w\<lparr>db := (db w)\<lparr>freelist := fl\<rparr>, txn := t\<rparr>)) (txn_ok env \<sigma> 0 H L)
    (\<lambda>f w'. pid \<notin> L \<and> txn_ok env \<sigma> n (add_mset (f, pid, True) H) (insert pid L) w' \<and> same_pages L w w')"
proof -
  have po: "pool_ok env H L (pool w)" and dk: "disk_ok (committed \<sigma>) L w" and l: "lists_ok m L w" using ok by (simp_all add: txn_ok_def read_ok_def)
  have p: "pid \<notin> L" "in_file (sm (pool w)) pid" using l pid by (auto simp: lists_ok_def free_lists_def)
  have nd: "pid \<notin> dom (committed \<sigma>)" using disk_disjoint [OF dk] pid by blast
  have upd: "w\<lparr>txn := t', db := (db w)\<lparr>freelist := fl, bufferPool := bp\<rparr>\<rparr> = w\<lparr>db := (db w)\<lparr>bufferPool := bp, freelist := fl\<rparr>, txn := t'\<rparr>"
    "w\<lparr>db := (db w)\<lparr>freelist := fl, bufferPool := bp\<rparr>, txn := t'\<rparr> = w\<lparr>db := (db w)\<lparr>bufferPool := bp, freelist := fl\<rparr>, txn := t'\<rparr>" for bp t'
    by simp_all
  from pool_GetForWrite [OF po p] consider
    (err) e bp' where "GetForWrite env (pool w) pid = Some (Inl e, bp')" "pool_ok env H L bp'" "kept L {} (pool w) bp'"
    | (got) f bp' where "GetForWrite env (pool w) pid = Some (Inr f, bp')"
      "pool_ok env (add_mset (f, pid, True) H) (insert pid L) bp'" "kept L {pid} (pool w) bp'"
    unfolding pool_result_def by blast
  then show ?thesis
  proof cases
    case err
    then show ?thesis using taken_fails [OF ok tk err(2)]
      by (simp add: takePage_def in_db_def in_pool_def try_ok_def try_or_def result_ok_def kept_def upd)
  next
    case (got f bp')
    let ?bp = "set_data f (replicate 4096 0) bp'"
    have len: "length (data (frames bp' ! f)) = 4096" using handle_view [OF got(2), of f pid True] by simp
    note sd = pool_set_data [OF got(2), of f pid "replicate 4096 0", simplified]
    have q: "quiet {pid} (pool w) bp'" "\<And>q. q \<in> L \<Longrightarrow> view bp' q = view (pool w) q" using got(3) by (auto simp: kept_def)
    have "quiet {pid} (pool w) ?bp" using quiet_trans [OF q(1) quiet_mono [OF sd(3)]] by simp
    note fin = taken_allocated [OF ok tk p(1) nd sd(1) this]
    have "view ?bp q = view (pool w) q" if "q \<in> L" for q using sd(4) [of q] q(2) [OF that] that p(1) by auto
    then show ?thesis using got(1) fin p(1) len
      by (simp add: takePage_def in_db_def in_pool_def try_ok_def try_or_def result_ok_def put_data_def page_data_def same_pages_def upd)
  qed
qed

lemma txnAllocatePage_keeps:
  assumes ok: "txn_ok env \<sigma> (Suc n) H L w"
  shows "result_ok (txnAllocatePage env w) (txn_ok env \<sigma> 0 H L)
    (\<lambda>f w'. \<exists>pid. pid \<notin> L \<and> txn_ok env \<sigma> n (add_mset (f, pid, True) H) (insert pid L) w' \<and> same_pages L w w')"
proof -
  have po: "pool_ok env H L (pool w)" and dk: "disk_ok (committed \<sigma>) L w" and l: "lists_ok (Suc n) L w" and fr: "fresh_ok (committed \<sigma>) w" and
    op: "writable (txn w)" "\<not> closed (txn w)" using ok by (simp_all add: txn_ok_def read_ok_def lists_ok_def)
  have dist: "distinct (reusable (txn w) @ freed (txn w) @ allIds (freelist (db w)))" using l by (simp add: lists_ok_def free_lists_def)
  have small: "unat (numPages (meta (txn w))) + Suc n < 2 ^ 46" using l by (simp add: lists_ok_def)
  have lt: "q < numPages (meta (txn w))" if "q \<in> set (free_lists w)" for q using l that by (simp add: lists_ok_def)
  show ?thesis
  proof (cases "reusable (txn w) = []")
    case False
    then obtain rs pid where rs: "reusable (txn w) = rs @ [pid]" by (metis rev_exhaust)
    have "taken pid ((txn w)\<lparr>reusable := rs\<rparr>) (freelist (db w)) n w"
      using op dist small rs lt [of pid] fr by (auto simp: taken_def free_lists_def fresh_ok_def)
    then have r: "result_ok (takePage env pid (w\<lparr>db := (db w)\<lparr>freelist := freelist (db w)\<rparr>, txn := (txn w)\<lparr>reusable := rs\<rparr>\<rparr>)) (txn_ok env \<sigma> 0 H L)
      (\<lambda>f w'. \<exists>pid. pid \<notin> L \<and> txn_ok env \<sigma> n (add_mset (f, pid, True) H) (insert pid L) w' \<and> same_pages L w w')"
      using rs by (intro result_ok_mono [OF takePage_rule [OF ok]]) auto
    have "txnAllocatePage env w = takePage env pid (w\<lparr>db := (db w)\<lparr>freelist := freelist (db w)\<rparr>, txn := (txn w)\<lparr>reusable := rs\<rparr>\<rparr>)"
      using op False rs by (simp add: txnAllocatePage_def)
    then show ?thesis using r by simp
  next
    case True
    note re = True
    show ?thesis
    proof (cases "\<exists>e rest. pending (freelist (db w)) = e # rest \<and> freedAt e \<le> minReaderTxn (db w)")
      case True
      then obtain e rest where e: "pending (freelist (db w)) = e # rest" "freedAt e \<le> minReaderTxn (db w)" by blast
      let ?fl = "(freelist (db w))\<lparr>pending := rest\<rparr>"
      have "allIds (freelist (db w)) = pageID e # allIds ?fl" using e(1) by (simp add: allIds_def)
      then have "taken (pageID e) (txn w) ?fl n w" "pageID e \<in> set (allIds (freelist (db w)))"
        using op dist small re lt [of "pageID e"] fr by (auto simp: taken_def free_lists_def fresh_ok_def)
      then have r: "result_ok (takePage env (pageID e) (w\<lparr>db := (db w)\<lparr>freelist := ?fl\<rparr>, txn := txn w\<rparr>)) (txn_ok env \<sigma> 0 H L)
        (\<lambda>f w'. \<exists>pid. pid \<notin> L \<and> txn_ok env \<sigma> n (add_mset (f, pid, True) H) (insert pid L) w' \<and> same_pages L w w')"
        by (intro result_ok_mono [OF takePage_rule [OF ok]]) auto
      have "txnAllocatePage env w = takePage env (pageID e) (w\<lparr>db := (db w)\<lparr>freelist := ?fl\<rparr>, txn := txn w\<rparr>)"
        using op re e by (simp add: txnAllocatePage_def popReusable_def leD)
      then show ?thesis using r by simp
    next
      case False
      then have pop: "popReusable (freelist (db w)) (minReaderTxn (db w)) = ((0, False), freelist (db w))"
        by (auto simp: popReusable_def not_le split: list.split)
      have upd: "w\<lparr>txn := t', db := d\<rparr> = w\<lparr>db := d, txn := t'\<rparr>" for t' d by simp
      let ?pid = "numPages (meta (txn w))"
      let ?t = "(txn w)\<lparr>meta := (meta (txn w))\<lparr>numPages := ?pid + 1\<rparr>\<rparr>"
      have u: "unat (?pid + 1) = Suc (unat ?pid)" using small by (intro unat_succ_u64) simp
      have "\<not> ?pid < initialPageCnt (txn w)" using l by (simp add: lists_ok_def not_less)
      then have nd: "?pid \<notin> dom (committed \<sigma>)" using dk unfolding disk_ok_def by blast
      have p: "?pid \<notin> L" "?pid \<notin> set (free_lists w)" "?pid \<notin> dom (committed \<sigma>)" "unat ?pid < 2 ^ 46"
        using l small nd by (auto simp: lists_ok_def)
      have tk: "taken ?pid ?t (freelist (db w)) n w"
        using op dist small u p(2) fr by (auto simp: taken_def free_lists_def fresh_ok_def word_less_nat_alt word_le_nat_alt)
      have step: "txnAllocatePage env w = try_ok (in_db (in_pool (\<lambda>bp. AllocatePage env bp ?pid)) (w\<lparr>txn := ?t\<rparr>)) (\<lambda>f w.
          Some (Inr f, w\<lparr>txn := (txn w)\<lparr>allocated := allocated (txn w) @ [?pid]\<rparr>\<rparr>))"
        using op re pop by (simp add: txnAllocatePage_def Let_def)
      from pool_AllocatePage [OF po p(1,4)] consider
        (err) e bp' where "AllocatePage env (pool w) ?pid = Some (Inl e, bp')" "pool_ok env H L bp'" "kept L {} (pool w) bp'"
        | (got) f bp' where "AllocatePage env (pool w) ?pid = Some (Inr f, bp')"
          "pool_ok env (add_mset (f, ?pid, True) H) (insert ?pid L) bp'" "kept L {?pid} (pool w) bp'"
        unfolding pool_result_def by blast
      then show ?thesis
      proof cases
        case err
        then show ?thesis using taken_fails [OF ok tk err(2)]
          by (simp add: step in_db_def in_pool_def try_ok_def try_or_def result_ok_def kept_def upd)
      next
        case (got f bp')
        then show ?thesis using taken_allocated [OF ok tk p(1,3) got(2)] p(1)
          by (auto simp: step in_db_def in_pool_def try_ok_def try_or_def result_ok_def kept_def same_pages_def upd)
      qed
    qed
  qed
qed

lemma txnAllocatePage_rule:
  assumes "txn_ok env \<sigma> (Suc n) H L w"
  shows "result_ok (txnAllocatePage env w) (failed env \<sigma> H)
    (\<lambda>f w'. \<exists>pid. pid \<notin> L \<and> txn_ok env \<sigma> n (add_mset (f, pid, True) H) (insert pid L) w' \<and> same_pages L w w')"
  by (rule result_ok_mono [OF txnAllocatePage_keeps [OF assms]]) (auto intro: txn_ok_failed)

end
