(* ===== verification/Nodes.thy ===== *)
theory Nodes
  imports Search
begin

text \<open>
  Pages as the tree code thinks of them. An internal page is a list of (left child, separator)
  pairs and a rightmost child; a leaf page is a list of entries, each a key with an inline value or
  with the length and the first page of an overflow chain. Each operation of \<^verbatim>\<open>src/bnode.go\<close> that
  the tree uses is restated on these lists.
\<close>

section \<open>Internal pages\<close>

definition internal_cells :: "(PageId \<times> bytes) list \<Rightarrow> bytes list" where
  "internal_cells cks = map (\<lambda>(ch, k). internal_cell ch k) cks"

definition icost :: "(PageId \<times> bytes) list \<Rightarrow> nat" where
  "icost cks = sum_list (map (\<lambda>(ch, k). 12 + length k) cks)"

definition inode :: "bytes \<Rightarrow> (PageId \<times> bytes) list \<Rightarrow> PageId \<Rightarrow> bool" where
  "inode d cks r \<longleftrightarrow> node_cells d nodeInternal (internal_cells cks) \<and> rightmostChild d = Some r \<and>
     (\<forall>(ch, k) \<in> set cks. length k \<le> maxKeySize)"

lemma internal_cells_simps [simp]:
  "internal_cells [] = []" "internal_cells ((ch, k) # cks) = internal_cell ch k # internal_cells cks"
  "internal_cells (xs @ ys) = internal_cells xs @ internal_cells ys"
  "length (internal_cells cks) = length cks"
  "take n (internal_cells cks) = internal_cells (take n cks)"
  "drop n (internal_cells cks) = internal_cells (drop n cks)"
  by (simp_all add: internal_cells_def take_map drop_map)

lemma icost_simps [simp]:
  "icost [] = 0" "icost (ck # cks) = 12 + length (snd ck) + icost cks" "icost (xs @ ys) = icost xs + icost ys"
  by (simp_all add: icost_def split_beta)

lemma cost_internal_cells [simp]: "cost (internal_cells cks) = icost cks"
  by (induction cks) auto

lemma icost_take_drop: "icost (take n cks) + icost (drop n cks) = icost cks"
  by (metis append_take_drop_id icost_simps(3))

lemma icost_take_le: "icost (take n cks) \<le> icost cks"
  using icost_take_drop [of n cks] by linarith

lemma icost_length: "12 * length cks \<le> icost cks"
  by (induction cks) auto

lemma inode_fits: "inode d cks r \<Longrightarrow> 13 + icost cks \<le> 4096"
  using node_cells_fits [of d nodeInternal "internal_cells cks"] by (simp add: inode_def hdr_def)

lemma inode_length: "inode d cks r \<Longrightarrow> length cks \<le> 340"
  using inode_fits [of d cks r] icost_length [of cks] by linarith

lemma inode_keys: "inode d cks r \<Longrightarrow> ck \<in> set cks \<Longrightarrow> length (snd ck) \<le> 1008"
  by (auto simp: inode_def maxKeySize_def)

lemma inode_key_nth: "inode d cks r \<Longrightarrow> i < length cks \<Longrightarrow> length (snd (cks ! i)) \<le> 1008"
  by (simp add: inode_keys)

lemma inode_reads:
  assumes "inode d cks r"
  shows "ntype d = Some nodeInternal" "nCells d = Some (of_nat (length cks))" "rightmostChild d = Some r"
    "length d = 4096"
proof -
  obtain sl where sl: "node_rep d nodeInternal sl" "map snd sl = internal_cells cks"
    using assms by (auto simp: inode_def node_cells_def)
  moreover have "length sl = length cks" using arg_cong [OF sl(2), of length] by simp
  ultimately show "ntype d = Some nodeInternal" "nCells d = Some (of_nat (length cks))" "length d = 4096"
    by (auto simp: node_reads node_repD(2))
  show "rightmostChild d = Some r" using assms by (simp add: inode_def)
qed

lemma inode_free:
  assumes "inode d cks r"
  shows "freeSpace d = Some (of_nat (4096 - 13 - icost cks))" "totalCellsSize d = Some (of_nat (icost cks - 2 * length cks))"
proof -
  obtain sl where sl: "node_rep d nodeInternal sl" "map snd sl = internal_cells cks"
    using assms by (auto simp: inode_def node_cells_def)
  have l: "length sl = length cks" using arg_cong [OF sl(2), of length] by simp
  have c: "icost cks = csz sl + 2 * length cks"
    using cost_map_snd [of sl] l unfolding sl(2) by simp
  then show "freeSpace d = Some (of_nat (4096 - 13 - icost cks))"
    using node_rep_freeSpace [OF sl(1)] l by (simp add: hdr_def)
  have "csz sl \<le> 4096" using c inode_fits [OF assms] by simp
  then show "totalCellsSize d = Some (of_nat (icost cks - 2 * length cks))"
    using c by (simp add: totalCellsSize_def node_reads [OF sl(1)] of_nat_diff)
qed

lemma inode_cell:
  assumes "inode d cks r" "unat a = i" "i < length cks"
  shows "key d a = Some (snd (cks ! i))" "child d a = Some (fst (cks ! i))"
    "cellSize d a = Some (of_nat (10 + length (snd (cks ! i))))"
    "internalCellSizeAt d a = Some (of_nat (10 + length (snd (cks ! i))))"
proof -
  obtain sl where sl: "node_rep d nodeInternal sl" "map snd sl = internal_cells cks"
    using assms(1) by (auto simp: inode_def node_cells_def)
  have l: "length sl = length cks" using arg_cong [OF sl(2), of length] by simp
  obtain ch k where ck: "cks ! i = (ch, k)" by fastforce
  have k: "length k < 65536" using inode_key_nth [OF assms(1,3)] ck by simp
  have "snd (sl ! i) = map snd sl ! i" using assms(3) l by simp
  also have "\<dots> = internal_cell ch k" unfolding sl(2) using assms(3) ck by (simp add: internal_cells_def)
  finally have c: "snd (sl ! unat a) = internal_cell ch k" using assms(2) by simp
  have i: "unat a < length sl" using assms(2,3) l by simp
  show "key d a = Some (snd (cks ! i))" "child d a = Some (fst (cks ! i))"
    "cellSize d a = Some (of_nat (10 + length (snd (cks ! i))))"
    using node_rep_key [OF sl(1) i] node_rep_child [of d sl a] node_rep_cellSize [OF sl(1) i] sl(1) i k ck
    by (simp_all add: c internal_cell_fields)
  note ok = node_rep_slot [OF sl(1) i]
  have "u16_at d (of_nat internalHeaderSize + a * 2) = Some (of_nat (fst (sl ! unat a)))"
    using node_rep_offset_at [OF sl(1) i] by (simp add: hdr_def)
  then show "internalCellSizeAt d a = Some (of_nat (10 + length (snd (cks ! i))))"
    using slot_fields(4) [OF ok node_repD(2) [OF sl(1)] refl] c k ck
    by (simp add: internalCellSizeAt_def internal_cell_fields)
qed

lemma inode_child_last: "inode d cks r \<Longrightarrow> a = of_nat (length cks) \<Longrightarrow> child d a = Some r"
  by (simp add: child_def inode_reads go_assert_def)

lemma inode_init: "node_cells d nodeInternal [] \<Longrightarrow> \<exists>r. inode d [] r"
  using rightmostChild_cells [of d nodeInternal "[]"] by (auto simp: inode_def)

lemma searchInternal_inode:
  assumes "inode d cks r" "sorted_wrt (<) (map snd cks)"
  shows "searchInternal d k = Some (of_nat (rank_le (map snd cks) k))"
proof -
  have "map (cell_key nodeInternal) (internal_cells cks) = map snd cks"
  proof -
    have "cell_key nodeInternal (internal_cell ch k) = k" if "(ch, k) \<in> set cks" for ch k
      using inode_keys [OF assms(1) that] internal_cell_fields(2) [of k] by simp
    then show ?thesis by (auto simp: internal_cells_def)
  qed
  then show ?thesis
    using searchInternal_correct [of d "internal_cells cks" k] assms by (simp add: inode_def)
qed

lemma copyRange_inode:
  assumes "inode dst cks r" "inode src sks r'" "unat a = i" "unat n = m" "i + m \<le> length sks"
    "13 + icost cks + icost (take m (drop i sks)) \<le> 4096"
  shows "\<exists>dst'. copyRange dst src a n = Some dst' \<and> inode dst' (cks @ take m (drop i sks)) r"
proof -
  obtain dst' where "copyRange dst src a n = Some dst'"
    "node_cells dst' nodeInternal (internal_cells cks @ internal_cells (take m (drop i sks)))"
    "rightmostChild dst' = rightmostChild dst"
    using copyRange_cells [of dst nodeInternal "internal_cells cks" src "internal_cells sks" a n] assms
    by (auto simp: inode_def hdr_def)
  then show ?thesis using assms(1,2) by (auto simp: inode_def dest!: in_set_takeD in_set_dropD)
qed

lemma appendInternalCell_inode:
  assumes "inode d cks r" "length k \<le> maxKeySize" "13 + icost cks + (12 + length k) \<le> 4096"
  shows "\<exists>d'. appendInternalCell d ch k = Some d' \<and> inode d' (cks @ [(ch, k)]) r"
  using appendInternal_cells [of d "internal_cells cks" k ch] assms by (auto simp: inode_def)

lemma insertInternalCellAt_inode:
  assumes "inode d cks r" "length k \<le> maxKeySize" "13 + icost cks + (12 + length k) \<le> 4096"
    "unat a = i" "i \<le> length cks"
  shows "\<exists>d'. insertInternalCellAt d a ch k = Some d' \<and> inode d' (take i cks @ (ch, k) # drop i cks) r"
  using insertInternal_cells [of d "internal_cells cks" k a ch] assms
  by (auto simp: inode_def dest!: in_set_takeD in_set_dropD)

lemma setRightmostChild_inode:
  assumes "inode d cks r"
  shows "\<exists>d'. setRightmostChild d pid = Some d' \<and> inode d' cks pid"
  using setRightmost_cells [of d "internal_cells cks" pid] assms by (auto simp: inode_def)

lemma copyWithoutCell_inode:
  assumes "inode dst [] r0" "inode src cks r" "unat a = i" "i < length cks"
  shows "\<exists>d'. copyWithoutCell dst src a = Some d' \<and> inode d' (take i cks @ drop (Suc i) cks) r"
  using copyWithoutCell_cells [of dst nodeInternal src "internal_cells cks" a] assms
  by (auto simp: inode_def dest!: in_set_takeD in_set_dropD)

lemma setChild_inode:
  assumes "inode d cks r" "unat a = i" "i \<le> length cks"
  shows "\<exists>d'. setChild d a pid = Some d' \<and>
    (if i < length cks then inode d' (cks[i := (pid, snd (cks ! i))]) r else inode d' cks pid)"
proof (cases "i < length cks")
  case True
  obtain sl where sl: "node_rep d nodeInternal sl" "map snd sl = internal_cells cks"
    using assms(1) by (auto simp: inode_def node_cells_def)
  have l: "length sl = length cks" using arg_cong [OF sl(2), of length] by simp
  obtain ch k where ck: "cks ! i = (ch, k)" by fastforce
  have k: "length k \<le> 1008" using inode_key_nth [OF assms(1) True] ck by simp
  have "snd (sl ! i) = map snd sl ! i" using True l by simp
  also have "\<dots> = internal_cell ch k" unfolding sl(2) using True ck by (simp add: internal_cells_def)
  finally have c: "snd (sl ! unat a) = internal_cell ch k" using assms(2) by simp
  have ua: "unat a < length sl" using assms(2) True l by simp
  have sl1: "node_rep d 1 sl" using sl(1) by simp
  have "length k < 65536" using k by simp
  then obtain d' where d': "setChild d a pid = Some d'"
    "node_rep d' 1 (sl[unat a := (fst (sl ! unat a), internal_cell pid k)])" "region d' 5 8 = region d 5 8"
    using setChild_rep [OF sl1 ua c, of pid] by auto
  have "map snd (sl[unat a := (fst (sl ! unat a), internal_cell pid k)]) = internal_cells (cks[i := (pid, k)])"
    using sl(2) assms(2) by (simp add: map_update internal_cells_def)
  moreover have "rightmostChild d' = rightmostChild d"
    using d'(2,3) sl(1) by (simp add: rightmostChild_region node_repD(2))
  moreover have "\<forall>(ch, k) \<in> set (cks[i := (pid, k)]). length k \<le> maxKeySize"
    using assms(1) k by (auto simp: inode_def maxKeySize_def dest!: subsetD [OF set_update_subset_insert])
  ultimately have "inode d' (cks[i := (pid, k)]) r"
    using d'(2) assms(1) unfolding inode_def node_cells_def nodeInternal_def by metis
  then show ?thesis using d'(1) True ck by auto
next
  case False
  then have "unat a = length cks" using assms(2,3) by simp
  moreover have "a = of_nat (unat a)" by simp
  ultimately have "a = of_nat (length cks)" by metis
  then have "setChild d a pid = setRightmostChild d pid"
    using assms(1) by (simp add: setChild_def inode_reads go_assert_def)
  then show ?thesis using setRightmostChild_inode [OF assms(1), of pid] False by auto
qed

section \<open>Leaf pages\<close>

datatype lval = Inline bytes | Over u16 PageId

type_synonym entry = "bytes \<times> lval"

fun lcell :: "entry \<Rightarrow> bytes" where
  "lcell (k, Inline v) = leaf_cell k v 0"
| "lcell (k, Over n ov) = le_bytes 2 (of_nat (length k) :: u16) @ le_bytes 2 n @ 1 # k @ le_bytes 8 ov"

fun entry_ok :: "entry \<Rightarrow> bool" where
  "entry_ok (k, Inline v) \<longleftrightarrow> length k \<le> maxKeySize \<and> 5 + length k + length v \<le> maxInlineSize"
| "entry_ok (k, Over n ov) \<longleftrightarrow> length k \<le> maxKeySize \<and> ov \<noteq> 0"

text \<open>The entry that \<open>appendLeafCellWithOverflow\<close> writes.\<close>

definition entry_of :: "bytes \<Rightarrow> bytes \<Rightarrow> PageId \<Rightarrow> entry" where
  "entry_of k v ov = (k, if ov = 0 then Inline v else Over (of_nat (length v)) ov)"

fun entry_overflow :: "entry \<Rightarrow> PageId" where
  "entry_overflow (k, Inline v) = 0"
| "entry_overflow (k, Over n ov) = ov"

definition lcost :: "entry list \<Rightarrow> nat" where
  "lcost es = sum_list (map (\<lambda>e. length (lcell e) + 2) es)"

definition lnode :: "bytes \<Rightarrow> entry list \<Rightarrow> bool" where
  "lnode d es \<longleftrightarrow> node_cells d nodeLeaf (map lcell es) \<and> (\<forall>e \<in> set es. entry_ok e)"

lemma lcost_simps [simp]:
  "lcost [] = 0" "lcost (e # es) = length (lcell e) + 2 + lcost es" "lcost (xs @ ys) = lcost xs + lcost ys"
  by (simp_all add: lcost_def)

lemma cost_lcells [simp]: "cost (map lcell es) = lcost es"
  by (induction es) auto

lemma lcost_take_drop: "lcost (take n es) + lcost (drop n es) = lcost es"
  by (metis append_take_drop_id lcost_simps(3))

lemma entry_of_simps [simp]:
  "fst (entry_of k v ov) = k" "lcell (entry_of k v ov) = leaf_cell k v ov" "entry_overflow (entry_of k v ov) = ov"
  by (simp_all add: entry_of_def leaf_cell_def)

lemma entry_of_ok:
  "length k \<le> maxKeySize \<Longrightarrow> (ov = 0) = (5 + length k + length v \<le> maxInlineSize) \<Longrightarrow> entry_ok (entry_of k v ov)"
  by (simp add: entry_of_def)

lemma entry_ok_key: "entry_ok e \<Longrightarrow> length (fst e) \<le> 1008"
  by (cases e rule: entry_ok.cases) (auto simp: maxKeySize_def)

lemma lcell_leaf_cell:
  assumes "entry_ok e"
  obtains v where "lcell e = leaf_cell (fst e) v (entry_overflow e)" "length (fst e) \<le> 1008"
    "entry_overflow e = 0 \<longrightarrow> 5 + length (fst e) + length v \<le> 1015"
proof (cases e rule: entry_ok.cases)
  case (1 k v)
  then show thesis using assms by (intro that [of v]) (auto simp: maxInlineSize_def maxKeySize_def)
next
  case (2 k n ov)
  then show thesis using assms by (intro that [of "replicate (unat n) 0"]) (auto simp: leaf_cell_def maxKeySize_def)
qed

lemma region_leaf_cell_overflow: "ov \<noteq> 0 \<Longrightarrow> region (leaf_cell k v ov) (5 + length k) 8 = le_bytes 8 ov"
  by (simp add: leaf_cell_def region_def)

lemma lcell_fields:
  assumes "entry_ok e"
  shows "cell_key 2 (lcell e) = fst e" "cell_keylen 2 (lcell e) = of_nat (length (fst e))"
    "lcell e ! 4 = (if entry_overflow e = 0 then 0 else 1)"
    "length (lcell e) \<le> 1021" "5 + length (fst e) \<le> length (lcell e)"
    "entry_overflow e \<noteq> 0 \<Longrightarrow> region (lcell e) (5 + length (fst e)) 8 = le_bytes 8 (entry_overflow e)"
    "entry_overflow e \<noteq> 0 \<Longrightarrow> length (lcell e) = 13 + length (fst e)"
proof -
  obtain v where v: "lcell e = leaf_cell (fst e) v (entry_overflow e)" "length (fst e) \<le> 1008"
    "entry_overflow e = 0 \<longrightarrow> 5 + length (fst e) + length v \<le> 1015"
    using assms by (rule lcell_leaf_cell)
  have k: "length (fst e) < 65536" using v(2) by simp
  show "cell_key 2 (lcell e) = fst e" "cell_keylen 2 (lcell e) = of_nat (length (fst e))"
    "lcell e ! 4 = (if entry_overflow e = 0 then 0 else 1)"
    unfolding v(1) using leaf_cell_fields [OF k] by blast+
  show "length (lcell e) \<le> 1021" "5 + length (fst e) \<le> length (lcell e)"
    using v by (auto simp: length_leaf_cell)
  show "region (lcell e) (5 + length (fst e)) 8 = le_bytes 8 (entry_overflow e)"
    "length (lcell e) = 13 + length (fst e)" if "entry_overflow e \<noteq> 0"
    unfolding v(1) using that by (simp_all add: region_leaf_cell_overflow length_leaf_cell)
qed

lemma lnode_fits: "lnode d es \<Longrightarrow> 5 + lcost es \<le> 4096"
  using node_cells_fits [of d nodeLeaf "map lcell es"] by (simp add: lnode_def hdr_def)

lemma lcost_length: "2 * length es \<le> lcost es"
  by (induction es) auto

lemma lnode_length: "lnode d es \<Longrightarrow> length es \<le> 2045"
  using lnode_fits [of d es] lcost_length [of es] by linarith

lemma lnode_nth_ok: "lnode d es \<Longrightarrow> i < length es \<Longrightarrow> entry_ok (es ! i)"
  by (simp add: lnode_def)

lemma lnode_slots:
  assumes "lnode d es"
  obtains sl where "node_rep d 2 sl" "map snd sl = map lcell es" "length sl = length es"
proof -
  obtain sl where "node_rep d 2 sl" "map snd sl = map lcell es" using assms by (auto simp: lnode_def node_cells_def)
  then show thesis using that map_eq_imp_length_eq by blast
qed

lemma lnode_reads:
  assumes "lnode d es"
  shows "ntype d = Some nodeLeaf" "nCells d = Some (of_nat (length es))" "length d = 4096"
    "freeSpace d = Some (of_nat (4096 - 5 - lcost es))" "totalCellsSize d = Some (of_nat (lcost es - 2 * length es))"
proof -
  obtain sl where sl: "node_rep d 2 sl" "map snd sl = map lcell es" "length sl = length es"
    using assms by (rule lnode_slots)
  then show "ntype d = Some nodeLeaf" "nCells d = Some (of_nat (length es))" "length d = 4096"
    by (auto simp: node_reads node_repD(2))
  have c: "lcost es = csz sl + 2 * length es"
    using cost_map_snd [of sl] sl(3) unfolding sl(2) by simp
  then show "freeSpace d = Some (of_nat (4096 - 5 - lcost es))"
    using node_rep_freeSpace [OF sl(1)] sl(3) by (simp add: hdr_def)
  have "csz sl \<le> 4096" using c lnode_fits [OF assms] by simp
  then show "totalCellsSize d = Some (of_nat (lcost es - 2 * length es))"
    using c by (simp add: totalCellsSize_def node_reads [OF sl(1)] of_nat_diff)
qed

lemma lnode_cell:
  assumes "lnode d es" "unat a = i" "i < length es"
  shows "key d a = Some (fst (es ! i))" "cellSize d a = Some (of_nat (length (lcell (es ! i))))"
    "leafCellSizeAt d a = Some (of_nat (length (lcell (es ! i))))"
    "leafCellOverflowId d a = Some (entry_overflow (es ! i))"
proof -
  obtain sl where sl: "node_rep d 2 sl" "map snd sl = map lcell es" "length sl = length es"
    using assms(1) by (rule lnode_slots)
  let ?c = "lcell (es ! i)"
  have "snd (sl ! i) = map snd sl ! i" using assms(3) sl(3) by simp
  also have "\<dots> = ?c" unfolding sl(2) using assms(3) by simp
  finally have c: "snd (sl ! unat a) = ?c" using assms(2) by simp
  have i: "unat a < length sl" using assms(2,3) sl(3) by simp
  have ok: "entry_ok (es ! i)" using assms by (intro lnode_nth_ok)
  note f = lcell_fields [OF ok]
  note slot = node_rep_slot [OF sl(1) i] and len = node_repD(2) [OF sl(1)]
  note sf = slot_fields [OF slot len refl]
  have cok: "cell_ok 2 ?c" using slot c by (simp add: slot_ok_def)
  show "key d a = Some (fst (es ! i))" "cellSize d a = Some (of_nat (length (lcell (es ! i))))"
    using node_rep_key [OF sl(1) i] node_rep_cellSize [OF sl(1) i] f by (simp_all add: c)
  have "u16_at d (of_nat leafHeaderSize + a * 2) = Some (of_nat (fst (sl ! unat a)))"
    using node_rep_offset_at [OF sl(1) i] by (simp add: hdr_def)
  then show "leafCellSizeAt d a = Some (of_nat (length (lcell (es ! i))))"
    using sf(1-3) c cell_ok_leaf_size [OF cok] by (simp add: leafCellSizeAt_def)
  show "leafCellOverflowId d a = Some (entry_overflow (es ! i))"
  proof (cases "entry_overflow (es ! i) = 0")
    case True
    then show ?thesis using sf(3) c f(3)
      by (simp add: leafCellOverflowId_def node_rep_cellOffset [OF sl(1) i])
  next
    case False
    let ?p = "fst (sl ! unat a)" and ?k = "length (fst (es ! i))"
    have b: "?p + (13 + ?k) \<le> 4096" using slot c f(7) [OF False] by (simp add: slot_ok_def)
    then have u: "unat (of_nat ?p + 5 + of_nat ?k :: u16) = ?p + (5 + ?k)" by (simp add: u16_simps)
    have reg: "region d (?p + (5 + ?k)) 8 = le_bytes 8 (entry_overflow (es ! i))"
      using slot_region [OF slot, of "5 + ?k" 8] c f(6,7) False by simp
    have "take 8 (region d (?p + (5 + ?k)) (4096 - (?p + (5 + ?k)))) = region d (?p + (5 + ?k)) 8"
      using b by (simp add: region_def)
    then have "(gofrom d (?p + (5 + ?k)) \<bind> Uint64) = Some (entry_overflow (es ! i))"
      using b len reg by (simp add: gofrom_region Uint64_def)
    then show ?thesis using sf(1,3) c f(2,3) False u
      by (simp add: leafCellOverflowId_def node_rep_cellOffset [OF sl(1) i])
  qed
qed

lemma lnode_init: "node_cells d nodeLeaf [] \<Longrightarrow> lnode d []"
  by (simp add: lnode_def)

lemma searchLeaf_lnode:
  assumes "lnode d es" "sorted_wrt (<) (map fst es)"
  shows "searchLeaf d k = Some (of_nat (rank_lt (map fst es) k), k \<in> fst ` set es)"
proof -
  have keys: "map (cell_key nodeLeaf) (map lcell es) = map fst es"
    using assms(1) by (auto simp: lnode_def lcell_fields)
  show ?thesis
    using searchLeaf_correct [of d "map lcell es" k, unfolded keys] assms by (simp add: lnode_def)
qed

lemma copyRange_lnode:
  assumes "lnode dst es" "lnode src ss" "unat a = i" "unat n = m" "i + m \<le> length ss"
    "5 + lcost es + lcost (take m (drop i ss)) \<le> 4096"
  shows "\<exists>dst'. copyRange dst src a n = Some dst' \<and> lnode dst' (es @ take m (drop i ss))"
proof -
  obtain dst' where "copyRange dst src a n = Some dst'"
    "node_cells dst' nodeLeaf (map lcell es @ map lcell (take m (drop i ss)))"
    using copyRange_cells [of dst nodeLeaf "map lcell es" src "map lcell ss" a n] assms
    by (auto simp: lnode_def hdr_def take_map drop_map)
  then show ?thesis using assms(1,2) by (auto simp: lnode_def dest!: in_set_takeD in_set_dropD)
qed

lemma appendLeafCell_lnode:
  assumes "lnode d es" "length k \<le> maxKeySize" "(ov = 0) = (5 + length k + length v \<le> maxInlineSize)"
    "5 + lcost es + (length (leaf_cell k v ov) + 2) \<le> 4096"
  shows "\<exists>d'. appendLeafCellWithOverflow d k v ov = Some d' \<and> lnode d' (es @ [entry_of k v ov])"
  using appendLeaf_cells [of d "map lcell es" k ov v] assms entry_of_ok [OF assms(2,3)] by (auto simp: lnode_def)

lemma copyWithoutCell_lnode:
  assumes "lnode dst []" "lnode src ss" "unat a = i" "i < length ss"
  shows "\<exists>d'. copyWithoutCell dst src a = Some d' \<and> lnode d' (take i ss @ drop (Suc i) ss)"
  using copyWithoutCell_cells [of dst nodeLeaf src "map lcell ss" a] assms
  by (auto simp: lnode_def take_map drop_map dest!: in_set_takeD in_set_dropD)

lemma copyCellAt_lnode:
  assumes "lnode d es" "lnode s ss" "unat j = m" "m < length ss" "unat a = i" "i \<le> length es"
    "5 + lcost es + (length (lcell (ss ! m)) + 2) \<le> 4096"
  shows "\<exists>d'. copyCellAt d a s j = Some d' \<and> lnode d' (take i es @ ss ! m # drop i es)"
  using copyCellAt_cells [of d nodeLeaf "map lcell es" s "map lcell ss" j a] assms
  by (auto simp: lnode_def hdr_def take_map drop_map dest!: in_set_takeD in_set_dropD)

lemma copyCell_lnode:
  assumes "lnode d es" "lnode s ss" "unat j = m" "m < length ss"
    "5 + lcost es + (length (lcell (ss ! m)) + 2) \<le> 4096"
  shows "\<exists>d'. copyCell d s j = Some d' \<and> lnode d' (es @ [ss ! m])"
  using copyCell_cells [of d nodeLeaf "map lcell es" s "map lcell ss" j] assms
  by (auto simp: lnode_def hdr_def)

lemma leafCellSize_entry:
  assumes "(ov = 0) = (5 + length k + length v \<le> maxInlineSize)"
  shows "leafCellSize k v = of_nat (length (lcell (entry_of k v ov)))"
  using leafCellSize_cell [OF assms] by simp

end
