(* ===== verification/OverflowInv.thy ===== *)
theory OverflowInv
  imports TxnInv Nodes
begin

text \<open>
  Chains of overflow pages: writing one gives a chain that holds the value, reading a chain gives
  the value back, freeing one releases exactly its pages.
\<close>

definition chain_head :: "PageId list \<Rightarrow> PageId" where
  "chain_head ps = (case ps of [] \<Rightarrow> 0 | p # _ \<Rightarrow> p)"

lemma chain_head_simps [simp]: "chain_head [] = 0" "chain_head (p # ps) = p"
  by (simp_all add: chain_head_def)

fun chain :: "(PageId \<Rightarrow> bytes) \<Rightarrow> PageId list \<Rightarrow> bytes \<Rightarrow> bool" where
  "chain W [] v \<longleftrightarrow> v = []"
| "chain W (p # ps) v \<longleftrightarrow> p \<noteq> 0 \<and> v \<noteq> [] \<and> length (W p) = 4096 \<and> region (W p) 1 8 = le_bytes 8 (chain_head ps) \<and>
     region (W p) 9 (length (take 4087 v)) = take 4087 v \<and> chain W ps (drop 4087 v)"

lemma chain_cong: "(\<And>p. p \<in> set ps \<Longrightarrow> W' p = W p) \<Longrightarrow> chain W' ps v = chain W ps v"
  by (induction ps arbitrary: v) auto

lemma chain_nonzero: "chain W ps v \<Longrightarrow> 0 \<notin> set ps"
  by (induction ps arbitrary: v) auto

lemma chain_length: "chain W ps v \<Longrightarrow> 4087 * length ps \<le> length v + 4086"
proof (induction ps arbitrary: v)
  case (Cons p ps)
  have "4087 * length ps \<le> length (drop 4087 v) + 4086" "v \<noteq> []" "ps = [] \<or> 4087 < length v"
    using Cons.IH [of "drop 4087 v"] Cons.prems by (cases ps; auto)+
  then show ?case by (cases v) auto
qed simp

lemma chain_empty: "chain W ps v \<Longrightarrow> ps = [] \<longleftrightarrow> v = []"
  by (cases ps) auto

section \<open>Reading and freeing\<close>

lemma visit_page:
  assumes "reading env (add_mset (f, p, False) H) L w0 w"
  obtains w' where "node_data w f = V w p" "length (V w p) = 4096" "node_unpin f w = Some w'" "reading env H L w0 w'"
proof -
  have r: "read_ok env (add_mset (f, p, False) H) L w" using assms by (simp add: reading_def)
  obtain w' where "node_unpin f w = Some w'" "reading env H L w w'" using r by (rule read_unpin_rule)
  then show thesis using that handle_node [OF r, of f p False] reading_trans [OF assms] by simp
qed

lemma patch_prefix_grow:
  assumes "length buf = length v" "take off buf = take off v" "off + length part \<le> length v" "part = take (length part) (drop off v)"
  shows "take (off + length part) (patch buf off part) = take (off + length part) v"
  using assms by (simp add: patch_def take_add)

lemma readOverflow_loop_rule:
  assumes "set ps \<subseteq> L"
  shows "read_ok env H L w \<Longrightarrow> chain (V w) ps (drop off v) \<Longrightarrow> length buf = length v \<Longrightarrow> take off buf = take off v \<Longrightarrow>
    off \<le> length v \<Longrightarrow> length ps < n \<Longrightarrow>
    result_ok (readOverflow_loop n env (length v) buf off (chain_head ps) w) (reading env H L w) (\<lambda>x w'. x = v \<and> reading env H L w w')"
  using assms
proof (induction ps arbitrary: n buf off w)
  case Nil
  then obtain m where "n = Suc m" by (cases n) auto
  then show ?case using Nil by (simp add: result_ok_def reading_def)
next
  case (Cons p ps)
  obtain m where n: "n = Suc m" "length ps < m" using Cons.prems(6) by (cases n) auto
  let ?u = "drop off v" and ?c = "min 4087 (length v - off)"
  have ch: "p \<noteq> 0" "?u \<noteq> []" "length (V w p) = 4096" "region (V w p) 1 8 = le_bytes 8 (chain_head ps)"
    "region (V w p) 9 (length (take 4087 ?u)) = take 4087 ?u" "chain (V w) ps (drop 4087 ?u)" using Cons.prems(2) by simp_all
  have pL: "p \<in> L" "set ps \<subseteq> L" using Cons.prems(7) by simp_all
  have lc: "length (take 4087 ?u) = ?c" by (simp add: min.commute)
  have rest: "drop (off + ?c) v = drop 4087 ?u" using ch(2) by (cases "length v - off \<le> 4087") (auto simp: min_def add.commute)
  show ?case unfolding n(1) readOverflow_loop.simps chain_head_simps if_not_P [OF ch(1)]
  proof (rule try_ok_rule [OF txnGet_read [OF Cons.prems(1) pL(1), unfolded getNode_def]])
    fix f w1 assume g: "reading env (add_mset (f, p, False) H) L w w1"
    then obtain w2 where w2: "node_data w1 f = V w1 p" "length (V w1 p) = 4096" "node_unpin f w1 = Some w2" "reading env H L w w2"
      using visit_page by blast
    have vp: "V w1 p = V w p" using reading_same [OF g] pL(1) by (simp add: same_pages_def)
    have ok2: "read_ok env H L w2" and same2: "same_pages L w w2" using w2(4) by (simp_all add: reading_def calm_def)
    have ch2: "chain (V w2) ps (drop (off + ?c) v)"
      unfolding rest using ch(6) same2 pL(2) by (subst chain_cong [of ps "V w2" "V w"]) (auto simp: same_pages_def)
    have part: "goslice (V w p) 9 (9 + ?c) = Some (take 4087 ?u)"
      using ch(3,5) lc by (simp add: goslice_region)
    have "gocopy buf off (take 4087 ?u) = Some (patch buf off (take 4087 ?u))"
      using Cons.prems(3,5) by (intro gocopy_fits) auto
    moreover have "Uint64_in (V w p) 1 9 = Some (chain_head ps)" using ch(3,4) by (simp add: Uint64_in_region)
    moreover have "result_ok (readOverflow_loop m env (length v) (patch buf off (take 4087 ?u)) (off + ?c) (chain_head ps) w2)
        (reading env H L w2) (\<lambda>x w'. x = v \<and> reading env H L w2 w')"
    proof (rule Cons.IH [OF ok2 ch2 _ _ _ n(2) pL(2)])
      show "length (patch buf off (take 4087 ?u)) = length v" using Cons.prems(3,5) by simp
      show "take (off + ?c) (patch buf off (take 4087 ?u)) = take (off + ?c) v"
      proof -
        have "take (off + length (take 4087 ?u)) (patch buf off (take 4087 ?u)) = take (off + length (take 4087 ?u)) v"
          using Cons.prems(5) by (intro patch_prefix_grow [OF Cons.prems(3,4)]) (auto simp: min_def)
        then show ?thesis unfolding lc .
      qed
    qed (use Cons.prems(5) in auto)
    then have "result_ok (readOverflow_loop m env (length v) (patch buf off (take 4087 ?u)) (off + ?c) (chain_head ps) w2)
        (reading env H L w) (\<lambda>x w'. x = v \<and> reading env H L w w')"
      by (rule result_ok_mono) (use reading_trans [OF w2(4)] in blast)+
    ultimately show "result_ok (do {
        let chunk = min overflowChunkSize (length v - off);
        part \<leftarrow> goslice (node_data w1 f) overflowHeaderSize (overflowHeaderSize + chunk);
        v' \<leftarrow> gocopy buf off part;
        next \<leftarrow> Uint64_in (node_data w1 f) 1 9;
        w1 \<leftarrow> node_unpin f w1;
        readOverflow_loop m env (length v) v' (off + chunk) next w1
      }) (reading env H L w) (\<lambda>x w'. x = v \<and> reading env H L w w')"
      using part w2(1,3) vp by (simp add: Let_def)
  qed
qed

lemma readOverflowPages_rule:
  assumes "read_ok env H L w" "chain (V w) ps v" "set ps \<subseteq> L" "length v < 65536"
  shows "result_ok (readOverflowPages env (chain_head ps) (length v) w) (reading env H L w) (\<lambda>x w'. x = v \<and> reading env H L w w')"
proof -
  have "44 \<le> fuel env" using assms(1) by (simp add: read_ok_def pool_ok_def enough_fuel_def)
  then have "length ps < fuel env" using chain_length [OF assms(2)] assms(4) by linarith
  then show ?thesis unfolding readOverflowPages_def
    using readOverflow_loop_rule [OF assms(3,1), of 0 v "replicate (length v) 0"] assms(2) by simp
qed

text \<open>Freeing takes the pages \<open>ps\<close> out of the live ones, of which \<open>L\<close> are left, and puts each of them on the lists of free
  pages once.\<close>

definition freeing :: "env \<Rightarrow> backdrop \<Rightarrow> nat \<Rightarrow> handle multiset \<Rightarrow> PageId set \<Rightarrow> PageId list \<Rightarrow> world \<Rightarrow> world \<Rightarrow> bool" where
  "freeing env \<sigma> n H L ps w w' \<longleftrightarrow> txn_ok env \<sigma> n H L w' \<and> same_pages L w w' \<and> mset (free_lists w') = mset ps + mset (free_lists w)"

lemma freeOverflow_loop_rule:
  "txn_ok env \<sigma> m H L w \<Longrightarrow> chain (V w) ps v \<Longrightarrow> set ps \<subseteq> L \<Longrightarrow> distinct ps \<Longrightarrow> length ps < n \<Longrightarrow>
   result_ok (freeOverflow_loop n env (chain_head ps) w) (failed env \<sigma> H) (\<lambda>_ w'. freeing env \<sigma> m H (L - set ps) ps w w')"
proof (induction ps arbitrary: n v w L)
  case Nil
  then obtain k where "n = Suc k" by (cases n) auto
  then show ?case using Nil by (simp add: result_ok_def freeing_def)
next
  case (Cons p ps)
  obtain k where n: "n = Suc k" "length ps < k" using Cons.prems(5) by (cases n) auto
  have ch: "p \<noteq> 0" "length (V w p) = 4096" "region (V w p) 1 8 = le_bytes 8 (chain_head ps)" "chain (V w) ps (drop 4087 v)"
    using Cons.prems(2) by simp_all
  have pL: "p \<in> L" "set ps \<subseteq> L - {p}" "distinct ps" using Cons.prems(3,4) by auto
  show ?case unfolding n(1) freeOverflow_loop.simps chain_head_simps if_not_P [OF ch(1)]
  proof (rule try_ok_rule [OF getNode_listed [OF Cons.prems(1) pL(1), unfolded getNode_def]])
    fix f w1 assume g0: "(txn_ok env \<sigma> m (add_mset (f, p, False) H) L w1 \<and> same_pages L w w1) \<and> free_lists w1 = free_lists w"
    then have g: "txn_ok env \<sigma> m (add_mset (f, p, False) H) L w1 \<and> same_pages L w w1" by simp
    have d: "node_data w1 f = V w p"
      using handle_node [of env "add_mset (f, p, False) H" L w1 f p False] g pL(1) by (auto simp: same_pages_def)
    obtain w2 where w2: "node_unpin f w1 = Some w2" "txn_ok env \<sigma> m H L w2" "same_pages L w1 w2"
      using g unpin_rule by blast
    obtain w3 where w3: "free_page p w2 = Some w3" "txn_ok env \<sigma> m H (L - {p}) w3" "db w3 = db w2"
      using free_rule [OF w2(2) pL(1) ch(1)] by blast
    have lists: "mset (free_lists w3) = add_mset p (mset (free_lists w))" using free_page_lists [OF w3(1)] node_unpin_lists [OF w2(1)] g0 by simp
    have same: "same_pages L w w3" using g w2(3) w3(3) by (simp add: same_pages_def)
    have "chain (V w3) ps (drop 4087 v)"
      using ch(4) same pL(2) by (subst chain_cong [of ps "V w3" "V w"]) (auto simp: same_pages_def)
    from Cons.IH [OF w3(2) this pL(2,3) n(2)]
    have "result_ok (freeOverflow_loop k env (chain_head ps) w3) (failed env \<sigma> H) (\<lambda>_ w'. freeing env \<sigma> m H (L - set (p # ps)) (p # ps) w w')"
    proof (rule result_ok_mono)
      fix w' assume "freeing env \<sigma> m H (L - {p} - set ps) ps w3 w'"
      moreover have "L - {p} - set ps = L - set (p # ps)" by auto
      ultimately show "freeing env \<sigma> m H (L - set (p # ps)) (p # ps) w w'" using same lists by (simp add: freeing_def same_pages_def)
    qed
    then show "result_ok (do {
        next \<leftarrow> Uint64_in (node_data w1 f) 1 9;
        w1 \<leftarrow> node_unpin f w1;
        w1 \<leftarrow> free_page p w1;
        freeOverflow_loop k env next w1
      }) (failed env \<sigma> H) (\<lambda>_ w'. freeing env \<sigma> m H (L - set (p # ps)) (p # ps) w w')"
      using d ch(2,3) w2(1) w3(1) by (simp add: Uint64_in_region)
  qed
qed

lemma freeOverflowPages_rule:
  assumes "txn_ok env \<sigma> m H L w" "chain (V w) ps v" "set ps \<subseteq> L" "distinct ps" "length v < 65536"
  shows "result_ok (freeOverflowPages env (chain_head ps) w) (failed env \<sigma> H) (\<lambda>_ w'. freeing env \<sigma> m H (L - set ps) ps w w')"
proof -
  have "44 \<le> fuel env" using assms(1) by (simp add: txn_ok_def read_ok_def pool_ok_def enough_fuel_def)
  then have "length ps < fuel env" using chain_length [OF assms(2)] assms(5) by linarith
  then show ?thesis unfolding freeOverflowPages_def using freeOverflow_loop_rule [OF assms(1-4)] by blast
qed

section \<open>Writing\<close>

definition chain_pages :: "nat \<Rightarrow> nat" where
  "chain_pages len = (len + 4086) div 4087"

lemma chain_pages_step: "0 < len \<Longrightarrow> chain_pages len = Suc (chain_pages (len - 4087))"
  by (cases "len \<le> 4087") (auto simp: chain_pages_def le_div_geq)

lemma fill_overflow_page:
  assumes "length d = 4096" "off < length v"
  shows "\<exists>d'. fill_overflow v off d = Some d' \<and> length d' = 4096 \<and> region d' 1 8 = le_bytes 8 (0 :: u64) \<and>
    region d' 9 (length (take 4087 (drop off v))) = take 4087 (drop off v)"
proof -
  let ?part = "take 4087 (drop off v)"
  let ?d = "patch (patch (d[0 := 3]) 1 (le_bytes 8 (0 :: u64))) 9 ?part"
  have "fill_overflow v off d = Some ?d"
    using assms by (simp add: fill_overflow_def goset_def nodeOverflow_def PutUint64_def goslice_region gocopy_fits region_def min_def)
  moreover have "region ?d 9 (length ?part) = ?part" using assms by (intro region_patch_same) simp_all
  moreover have "region ?d 1 8 = le_bytes 8 (0 :: u64)" using assms by (simp add: patch_simps)
  ultimately show ?thesis using assms by simp
qed

lemma chain_snoc:
  "chain W ps u \<Longrightarrow> length u = 4087 * length ps \<Longrightarrow> ps \<noteq> [] \<Longrightarrow> distinct ps \<Longrightarrow>
   (\<And>q. q \<in> set ps \<Longrightarrow> q \<noteq> last ps \<Longrightarrow> W' q = W q) \<Longrightarrow> W' (last ps) = patch (W (last ps)) 1 (le_bytes 8 p) \<Longrightarrow>
   p \<noteq> 0 \<Longrightarrow> part \<noteq> [] \<Longrightarrow> length part \<le> 4087 \<Longrightarrow> length (W' p) = 4096 \<Longrightarrow> region (W' p) 1 8 = le_bytes 8 (0 :: u64) \<Longrightarrow>
   region (W' p) 9 (length part) = part \<Longrightarrow> chain W' (ps @ [p]) (u @ part)"
proof (induction ps arbitrary: u)
  case (Cons q qs)
  have q: "q \<noteq> 0" "u \<noteq> []" "length (W q) = 4096" "region (W q) 1 8 = le_bytes 8 (chain_head qs)"
    "region (W q) 9 (length (take 4087 u)) = take 4087 u" "chain W qs (drop 4087 u)" using Cons.prems(1) by simp_all
  have lu: "4087 \<le> length u" using Cons.prems(2) by simp
  have pq: "chain_head (qs @ [p]) = (if qs = [] then p else chain_head qs)" by (cases qs) auto
  show ?case
  proof (cases "qs = []")
    case True
    have lu2: "length u = 4087" using Cons.prems(2) True by simp
    have wq: "W' q = patch (W q) 1 (le_bytes 8 p)" using Cons.prems(6) True by simp
    have "region (patch (W q) 1 (le_bytes 8 p)) 1 8 = le_bytes 8 p" using q(3) by (intro region_patch_same) simp_all
    moreover have "region (patch (W q) 1 (le_bytes 8 p)) 9 (length (take 4087 u)) = region (W q) 9 (length (take 4087 u))"
      using q(3) by (intro region_patch_above) simp_all
    moreover have "chain W' [p] part" using Cons.prems(7-12) by simp
    ultimately show ?thesis using True q(1-3,5) lu2 Cons.prems(9,12) by (simp add: wq)
  next
    case False
    have "q \<noteq> last qs" using Cons.prems(4) False by (metis distinct.simps(2) last_in_set)
    then have "W' q = W q" using Cons.prems(5) [of q] False by simp
    moreover have "chain W' (qs @ [p]) (drop 4087 u @ part)"
    proof (rule Cons.IH [OF q(6) _ False _ _ _ Cons.prems(7-12)])
      show "length (drop 4087 u) = 4087 * length qs" "distinct qs" using Cons.prems(2,4) by simp_all
      show "W' r = W r" if "r \<in> set qs" "r \<noteq> last qs" for r using Cons.prems(5) [of r] that False by simp
      show "W' (last qs) = patch (W (last qs)) 1 (le_bytes 8 p)" using Cons.prems(6) False by simp
    qed
    ultimately show ?thesis using q lu pq False by simp
  qed
qed simp

definition prev_handles :: "nat option \<Rightarrow> PageId list \<Rightarrow> handle multiset \<Rightarrow> handle multiset" where
  "prev_handles prev ps H = (case prev of None \<Rightarrow> H | Some f \<Rightarrow> add_mset (f, last ps, True) H)"

lemma unpin_prev_rule:
  assumes "txn_ok env \<sigma> n (prev_handles prev ps H) L w"
  obtains w' where "unpin_prev prev w = Some w'" "txn_ok env \<sigma> n H L w'" "same_pages L w w'"
  using assms unpin_rule [of env \<sigma> n _ "last ps" True H L w] that
  by (cases prev) (auto simp: prev_handles_def unpin_prev_def)

lemma unpin_prev_back:
  assumes "txn_ok env \<sigma> n (prev_handles prev ps H) (L \<union> set ps) w" "0 \<in> L"
  shows "\<exists>w'. unpin_prev prev w = Some w' \<and> txn_ok env \<sigma> 0 H L w'"
proof -
  obtain w' where "unpin_prev prev w = Some w'" "txn_ok env \<sigma> n H (L \<union> set ps) w'" using assms(1) by (rule unpin_prev_rule)
  then show ?thesis using txn_ok_weaken [of env \<sigma> n H "L \<union> set ps" w' L 0] assms(2) by auto
qed

text \<open>The new page is linked behind the chain written so far.\<close>

lemma link_overflow_rule:
  assumes ok: "txn_ok env \<sigma> n (add_mset (f, p, True) (prev_handles prev ps H)) (insert p (L \<union> set ps)) w"
    and ch: "chain (V w) ps u" "length u = 4087 * length ps" "distinct ps" "prev = None \<longleftrightarrow> ps = []"
    and p: "p \<noteq> 0" "p \<notin> L \<union> set ps" "set ps \<inter> L = {}"
    and new: "length (V w p) = 4096" "region (V w p) 1 8 = le_bytes 8 (0 :: u64)" "region (V w p) 9 (length part) = part"
      "part \<noteq> []" "length part \<le> 4087"
  obtains w' where "link_overflow prev f (chain_head ps) w = Some (chain_head (ps @ [p]), w')"
    "txn_ok env \<sigma> n (add_mset (f, p, True) H) (L \<union> set (ps @ [p])) w'" "chain (V w') (ps @ [p]) (u @ part)" "same_pages L w w'"
proof -
  have Idf: "Id w f = p" using handle_node(2) [OF txn_read [OF ok], of f p True] by simp
  have sets: "insert p (L \<union> set ps) = L \<union> set (ps @ [p])" by auto
  show thesis
  proof (cases prev)
    case None
    then have e: "ps = []" "u = []" using ch by simp_all
    show thesis using that [of w] None e Idf ok p(1) new by (simp add: link_overflow_def prev_handles_def)
  next
    case (Some g)
    then have ne: "ps \<noteq> []" using ch(4) by simp
    let ?l = "last ps"
    have lp: "?l \<noteq> p" "?l \<in> set ps" using ne p(2) by auto
    have H: "(g, ?l, True) \<in># add_mset (f, p, True) (prev_handles prev ps H)" using Some by (simp add: prev_handles_def)
    have len: "length (V w ?l) = 4096" using handle_node(3) [OF txn_read [OF ok] H] .
    then have put: "PutUint64 (V w ?l) 1 9 (Id w f) = Some (patch (V w ?l) 1 (le_bytes 8 p))" by (simp add: PutUint64_def Idf)
    obtain w1 where w1: "modify g (\<lambda>d. PutUint64 d 1 9 (Id w f)) w = Some w1"
      "txn_ok env \<sigma> n (add_mset (f, p, True) (prev_handles prev ps H)) (insert p (L \<union> set ps)) w1"
      "V w1 ?l = patch (V w ?l) 1 (le_bytes 8 p)" "same_pages (insert p (L \<union> set ps) - {?l}) w w1"
      using modify_rule [where g = "\<lambda>d. PutUint64 d 1 9 (Id w f)", OF ok H put] len by auto
    have "txn_ok env \<sigma> n (add_mset (g, ?l, True) (add_mset (f, p, True) H)) (insert p (L \<union> set ps)) w1"
      using w1(2) Some by (simp add: prev_handles_def add_mset_commute)
    then obtain w2 where w2: "node_unpin g w1 = Some w2" "txn_ok env \<sigma> n (add_mset (f, p, True) H) (insert p (L \<union> set ps)) w2"
      "same_pages (insert p (L \<union> set ps)) w1 w2" by (rule unpin_rule)
    have v2: "V w2 q = V w1 q" if "q \<in> insert p (L \<union> set ps)" for q using w2(3) that unfolding same_pages_def by blast
    have vq: "V w2 q = V w q" if "q \<in> insert p (L \<union> set ps)" "q \<noteq> ?l" for q
      using v2 [OF that(1)] w1(4) that unfolding same_pages_def by (metis DiffI singletonD)
    have "chain (V w2) (ps @ [p]) (u @ part)"
    proof (rule chain_snoc [OF ch(1,2) ne ch(3) _ _ p(1) new(4,5)])
      show "V w2 q = V w q" if "q \<in> set ps" "q \<noteq> ?l" for q using vq that by blast
      show "V w2 ?l = patch (V w ?l) 1 (le_bytes 8 p)" using v2 [of ?l] w1(3) lp by simp
      have "V w2 p = V w p" using vq [of p] lp by auto
      then show "length (V w2 p) = 4096" "region (V w2 p) 1 8 = le_bytes 8 (0 :: u64)" "region (V w2 p) 9 (length part) = part"
        using new(1-3) by simp_all
    qed
    moreover have "same_pages L w w2" unfolding same_pages_def using vq lp p(3) by blast
    moreover have "link_overflow prev f (chain_head ps) w = Some (chain_head (ps @ [p]), w2)"
      using ne w1(1) w2(1) Some by (cases ps) (simp_all add: link_overflow_def)
    moreover have "txn_ok env \<sigma> n (add_mset (f, p, True) H) (L \<union> set (ps @ [p])) w2" using w2(2) by (simp only: sets)
    ultimately show thesis using that by blast
  qed
qed

definition wrote_chain :: "env \<Rightarrow> backdrop \<Rightarrow> nat \<Rightarrow> handle multiset \<Rightarrow> PageId set \<Rightarrow> bytes \<Rightarrow> world \<Rightarrow> PageId list \<Rightarrow> world \<Rightarrow> bool" where
  "wrote_chain env \<sigma> n H L v w ps w' \<longleftrightarrow> chain (V w') ps v \<and> distinct ps \<and> set ps \<inter> L = {} \<and>
     txn_ok env \<sigma> n H (L \<union> set ps) w' \<and> same_pages L w w'"

lemma writeOverflow_loop_rule:
  "txn_ok env \<sigma> (m + chain_pages (length v - off)) (prev_handles prev ps H) (L \<union> set ps) w \<Longrightarrow> chain (V w) ps (take off v) \<Longrightarrow>
   distinct ps \<Longrightarrow> set ps \<inter> L = {} \<Longrightarrow> (prev = None \<longleftrightarrow> ps = []) \<Longrightarrow> off = 4087 * length ps \<Longrightarrow> 0 \<in> L \<Longrightarrow>
   result_ok (writeOverflow_loop env v off (chain_head ps) prev w) (txn_ok env \<sigma> 0 H L)
     (\<lambda>x w'. \<exists>ps'. x = chain_head ps' \<and> wrote_chain env \<sigma> m H L v w ps' w')"
proof (induction "length v - off" arbitrary: off prev ps w rule: less_induct)
  case less
  show ?case
  proof (cases "off < length v")
    case False
    obtain w' where w': "unpin_prev prev w = Some w'" "txn_ok env \<sigma> m H (L \<union> set ps) w'" "same_pages (L \<union> set ps) w w'"
    proof (rule unpin_prev_rule)
      show "txn_ok env \<sigma> m (prev_handles prev ps H) (L \<union> set ps) w"
        using less.prems(1) by (rule txn_ok_weaken) (use less.prems(1) in \<open>auto simp: txn_ok_def lists_ok_def\<close>)
    qed
    have "chain (V w') ps v"
      using less.prems(2) w'(3) False by (subst chain_cong [of ps "V w'" "V w"]) (auto simp: same_pages_def)
    then show ?thesis using w' less.prems(3,4) same_pages_mono [OF w'(3), of L] False
      by (subst writeOverflow_loop.simps) (auto simp: result_ok_def wrote_chain_def)
  next
    case True
    let ?H = "prev_handles prev ps H" and ?part = "take 4087 (drop off v)"
    have "chain_pages (length v - off) = Suc (chain_pages (length v - (off + 4087)))"
      using True chain_pages_step [of "length v - off"] by simp
    then have ok: "txn_ok env \<sigma> (Suc (m + chain_pages (length v - (off + 4087)))) ?H (L \<union> set ps) w"
      using less.prems(1) by simp
    have "result_ok (try_or (txnAllocatePage env w) (unpin_prev prev) (\<lambda>f w. do {
        w \<leftarrow> modify f (fill_overflow v off) w;
        (firstID, w) \<leftarrow> link_overflow prev f (chain_head ps) w;
        writeOverflow_loop env v (off + overflowChunkSize) firstID (Some f) w
      })) (txn_ok env \<sigma> 0 H L) (\<lambda>x w'. \<exists>ps'. x = chain_head ps' \<and> wrote_chain env \<sigma> m H L v w ps' w')"
    proof (rule try_or_rule [OF txnAllocatePage_keeps [OF ok] unpin_prev_back], assumption, rule less.prems(7))
      fix f w1 assume "\<exists>pid. pid \<notin> L \<union> set ps \<and> txn_ok env \<sigma> (m + chain_pages (length v - (off + 4087))) (add_mset (f, pid, True) ?H)
        (insert pid (L \<union> set ps)) w1 \<and> same_pages (L \<union> set ps) w w1"
      then obtain p where p: "p \<notin> L \<union> set ps" "txn_ok env \<sigma> (m + chain_pages (length v - (off + 4087))) (add_mset (f, p, True) ?H)
        (insert p (L \<union> set ps)) w1" "same_pages (L \<union> set ps) w w1" by blast
      have p0: "p \<noteq> 0" using txn_ok_not_zero [OF ok p(1)] .
      have hf: "(f, p, True) \<in># add_mset (f, p, True) ?H" by simp
      obtain d where d: "fill_overflow v off (V w1 p) = Some d" "length d = 4096" "region d 1 8 = le_bytes 8 (0 :: u64)"
        "region d 9 (length ?part) = ?part"
        using fill_overflow_page [OF handle_node(3) [OF txn_read [OF p(2)] hf] True] by blast
      obtain w2 where w2: "modify f (fill_overflow v off) w1 = Some w2" "V w2 p = d"
        "txn_ok env \<sigma> (m + chain_pages (length v - (off + 4087))) (add_mset (f, p, True) ?H) (insert p (L \<union> set ps)) w2"
        "same_pages (insert p (L \<union> set ps) - {p}) w1 w2" using modify_rule [where g = "fill_overflow v off", OF p(2) hf d(1,2)] by blast
      have same2: "same_pages (L \<union> set ps) w w2" using p(1,3) w2(4) by (auto simp: same_pages_def)
      have ch2: "chain (V w2) ps (take off v)"
        using less.prems(2) same2 by (subst chain_cong [of ps "V w2" "V w"]) (auto simp: same_pages_def)
      have lt: "length (take off v) = 4087 * length ps" using True less.prems(6) by simp
      have part: "?part \<noteq> []" "length ?part \<le> 4087" using True by simp_all
      obtain w3 where w3: "link_overflow prev f (chain_head ps) w2 = Some (chain_head (ps @ [p]), w3)"
        "txn_ok env \<sigma> (m + chain_pages (length v - (off + 4087))) (add_mset (f, p, True) H) (L \<union> set (ps @ [p])) w3"
        "chain (V w3) (ps @ [p]) (take off v @ ?part)" "same_pages L w2 w3"
        using link_overflow_rule [OF w2(3) ch2 lt less.prems(3,5) p0 p(1) less.prems(4)] d(2-4) part unfolding w2(2) by blast
      have "take off v @ ?part = take (off + 4087) v" by (simp add: take_add)
      then have "result_ok (writeOverflow_loop env v (off + 4087) (chain_head (ps @ [p])) (Some f) w3) (txn_ok env \<sigma> 0 H L)
          (\<lambda>x w'. \<exists>ps'. x = chain_head ps' \<and> wrote_chain env \<sigma> m H L v w3 ps' w')"
        using w3(2,3) True less.prems(3,4,6,7) p(1) by (intro less.hyps) (auto simp: prev_handles_def)
      moreover have "same_pages L w w3" using same2 w3(4) by (simp add: same_pages_def)
      ultimately have "result_ok (writeOverflow_loop env v (off + 4087) (chain_head (ps @ [p])) (Some f) w3) (txn_ok env \<sigma> 0 H L)
          (\<lambda>x w'. \<exists>ps'. x = chain_head ps' \<and> wrote_chain env \<sigma> m H L v w ps' w')"
        by (elim result_ok_mono) (auto simp: wrote_chain_def same_pages_def)
      then show "result_ok (do {
          w1 \<leftarrow> modify f (fill_overflow v off) w1;
          (firstID, w1) \<leftarrow> link_overflow prev f (chain_head ps) w1;
          writeOverflow_loop env v (off + overflowChunkSize) firstID (Some f) w1
        }) (txn_ok env \<sigma> 0 H L) (\<lambda>x w'. \<exists>ps'. x = chain_head ps' \<and> wrote_chain env \<sigma> m H L v w ps' w')"
        using w2(1) w3(1) by simp
    qed
    then show ?thesis using True by (subst writeOverflow_loop.simps) simp
  qed
qed

lemma writeOverflowPages_rule:
  assumes "txn_ok env \<sigma> (m + chain_pages (length v)) H L w"
  shows "result_ok (writeOverflowPages env v w) (txn_ok env \<sigma> 0 H L)
    (\<lambda>x w'. \<exists>ps. x = chain_head ps \<and> wrote_chain env \<sigma> m H L v w ps w')"
  using writeOverflow_loop_rule [of env \<sigma> m v 0 None "[]" H L w] assms by (auto simp: writeOverflowPages_def prev_handles_def txn_ok_def lists_ok_def)

end
