(* ===== verification/Tree.thy ===== *)
theory Tree
  imports OverflowInv
begin

text \<open>
  The tree that a set of pages represents, its contents as an association list in key order, and
  the correctness of \<open>Search\<close>: it looks the key up in the contents.
\<close>

section \<open>Trees\<close>

text \<open>An entry of a leaf: key, value and the overflow pages that hold the value, if any.\<close>

type_synonym item = "bytes \<times> bytes \<times> PageId list"

definition item_entry :: "item \<Rightarrow> entry" where
  "item_entry e = entry_of (fst e) (fst (snd e)) (chain_head (snd (snd e)))"

definition item_ok :: "(PageId \<Rightarrow> bytes) \<Rightarrow> item \<Rightarrow> bool" where
  "item_ok W e \<longleftrightarrow> (case e of (k, v, ps) \<Rightarrow> length k \<le> maxKeySize \<and> length v < 65536 \<and>
     (if 5 + length k + length v \<le> maxInlineSize then ps = [] else chain W ps v))"

datatype tree = Leaf PageId "item list" | Node PageId "(tree \<times> bytes) list" tree

fun tid :: "tree \<Rightarrow> PageId" where
  "tid (Leaf p es) = p"
| "tid (Node p cks r) = p"

definition item_pages :: "item \<Rightarrow> PageId list" where
  "item_pages e = snd (snd e)"

fun tpages :: "tree \<Rightarrow> PageId list" where
  "tpages (Leaf p es) = p # concat (map item_pages es)"
| "tpages (Node p cks r) = p # concat (map (\<lambda>(c, k). tpages c) cks) @ tpages r"

definition item_kv :: "item \<Rightarrow> bytes \<times> bytes" where
  "item_kv e = (fst e, fst (snd e))"

fun kvs :: "tree \<Rightarrow> (bytes \<times> bytes) list" where
  "kvs (Leaf p es) = map item_kv es"
| "kvs (Node p cks r) = concat (map (\<lambda>(c, k). kvs c) cks) @ kvs r"

fun height :: "tree \<Rightarrow> nat" where
  "height (Leaf p es) = 0"
| "height (Node p cks r) = Suc (max (fold max (map (\<lambda>(c, k). height c) cks) 0) (height r))"

definition child_refs :: "(tree \<times> bytes) list \<Rightarrow> (PageId \<times> bytes) list" where
  "child_refs cks = map (\<lambda>(c, k). (tid c, k)) cks"

fun tree_at :: "(PageId \<Rightarrow> bytes) \<Rightarrow> tree \<Rightarrow> bool" where
  "tree_at W (Leaf p es) \<longleftrightarrow> p \<noteq> 0 \<and> lnode (W p) (map item_entry es) \<and> (\<forall>e \<in> set es. item_ok W e)"
| "tree_at W (Node p cks r) \<longleftrightarrow> p \<noteq> 0 \<and> inode (W p) (child_refs cks) (tid r) \<and> (\<forall>ck \<in> set cks. tree_at W (fst ck)) \<and> tree_at W r"

text \<open>Keys in order: the keys below a node lie between the separators around it.\<close>

definition above :: "bytes option \<Rightarrow> bytes \<Rightarrow> bool" where
  "above lo k \<longleftrightarrow> (case lo of None \<Rightarrow> True | Some l \<Rightarrow> l \<le> k)"

definition strictly_above :: "bytes option \<Rightarrow> bytes \<Rightarrow> bool" where
  "strictly_above lo k \<longleftrightarrow> (case lo of None \<Rightarrow> True | Some l \<Rightarrow> l < k)"

definition below :: "bytes \<Rightarrow> bytes option \<Rightarrow> bool" where
  "below k hi \<longleftrightarrow> (case hi of None \<Rightarrow> True | Some h \<Rightarrow> k < h)"

function (sequential) ordered :: "bytes option \<Rightarrow> tree \<Rightarrow> bytes option \<Rightarrow> bool"
  and ordered_cs :: "bytes option \<Rightarrow> (tree \<times> bytes) list \<Rightarrow> tree \<Rightarrow> bytes option \<Rightarrow> bool" where
  "ordered lo (Leaf p es) hi \<longleftrightarrow> sorted_wrt (<) (map fst es) \<and> (\<forall>e \<in> set es. above lo (fst e) \<and> below (fst e) hi)"
| "ordered lo (Node p cks r) hi \<longleftrightarrow> ordered_cs lo cks r hi"
| "ordered_cs lo [] r hi \<longleftrightarrow> ordered lo r hi"
| "ordered_cs lo ((c, k) # cks) r hi \<longleftrightarrow>
     strictly_above lo k \<and> below k hi \<and> ordered lo c (Some k) \<and> ordered_cs (Some k) cks r hi"
  by pat_completeness auto
termination
  by (relation "measure (\<lambda>x. case x of Inl (lo, t, hi) \<Rightarrow> 2 * size t
        | Inr (lo, cks, r, hi) \<Rightarrow> Suc (2 * (size_list (size_prod size (\<lambda>_. 0)) cks + size r)))") auto

section \<open>Order\<close>

lemma strictly_above_above: "strictly_above lo k \<Longrightarrow> above lo k"
  by (auto simp: strictly_above_def above_def split: option.splits)

lemma above_trans: "strictly_above lo k \<Longrightarrow> k \<le> k' \<Longrightarrow> strictly_above lo k'"
  by (auto simp: strictly_above_def split: option.splits)

lemma below_trans: "below k hi \<Longrightarrow> k' \<le> k \<Longrightarrow> below k' hi"
  by (auto simp: below_def split: option.splits)

text \<open>The keys of a tree lie in its range.\<close>

lemma ordered_keys:
  "ordered lo t hi \<Longrightarrow> kv \<in> set (kvs t) \<Longrightarrow> above lo (fst kv) \<and> below (fst kv) hi"
  "ordered_cs lo cks r hi \<Longrightarrow> kv \<in> set (kvs (Node p cks r)) \<Longrightarrow> above lo (fst kv) \<and> below (fst kv) hi"
proof (induction lo t hi and lo cks r hi arbitrary: and p rule: ordered_ordered_cs.induct)
  case (1 lo p es hi)
  then show ?case by (auto simp: item_kv_def)
next
  case (4 lo c k cks r hi)
  then consider "kv \<in> set (kvs c)" | "kv \<in> set (kvs (Node p cks r))" by auto
  then show ?case
  proof cases
    case 1
    then have "above lo (fst kv)" "below (fst kv) (Some k)" "below k hi" using 4 by auto
    then show ?thesis using below_trans [of k hi "fst kv"] by (auto simp: below_def)
  next
    case 2
    then have "above (Some k) (fst kv)" "below (fst kv) hi" "strictly_above lo k" using 4 by auto
    then show ?thesis using above_trans [of lo k "fst kv"] strictly_above_above by (auto simp: above_def)
  qed
qed auto

lemma ordered_cs_seps:
  "ordered_cs lo cks r hi \<Longrightarrow> sorted_wrt (<) (map snd cks) \<and> (\<forall>k \<in> set (map snd cks). strictly_above lo k \<and> below k hi)"
proof (induction cks arbitrary: lo)
  case (Cons ck cks)
  obtain c k where ck: "ck = (c, k)" by (cases ck)
  have "ordered_cs (Some k) cks r hi" "strictly_above lo k" "below k hi" using Cons.prems ck by simp_all
  moreover from this have "sorted_wrt (<) (map snd cks)" "\<forall>k' \<in> set (map snd cks). k < k' \<and> below k' hi"
    using Cons.IH [of "Some k"] by (simp_all add: strictly_above_def)
  ultimately have "sorted_wrt (<) (map snd cks)" "\<forall>k' \<in> set (map snd cks). k < k' \<and> below k' hi" "strictly_above lo k" "below k hi"
    by blast+
  then show ?case using ck above_trans [of lo k] by (auto intro: less_imp_le)
qed simp

section \<open>The child that holds a key\<close>

fun pick :: "(tree \<times> bytes) list \<Rightarrow> tree \<Rightarrow> bytes \<Rightarrow> tree" where
  "pick [] r k = r"
| "pick ((c, s) # cks) r k = (if k < s then c else pick cks r k)"

lemma pick_nth:
  "sorted_wrt (<) (map snd cks) \<Longrightarrow>
   pick cks r k = (if rank_le (map snd cks) k < length cks then fst (cks ! rank_le (map snd cks) k) else r) \<and>
   rank_le (map snd cks) k \<le> length cks"
proof (induction cks)
  case (Cons ck cks)
  obtain c s where ck: "ck = (c, s)" by (cases ck)
  show ?case
  proof (cases "k < s")
    case True
    then have "rank_le (s # map snd cks) k = 0" using Cons.prems ck by (auto simp: rank_le_def filter_empty_conv)
    then show ?thesis using True ck by simp
  next
    case False
    then have "rank_le (s # map snd cks) k = Suc (rank_le (map snd cks) k)" by (simp add: rank_le_def)
    then show ?thesis using Cons False ck by simp
  qed
qed (simp add: rank_le_def)

lemma pick_mem: "pick cks r k = r \<or> (\<exists>s. (pick cks r k, s) \<in> set cks)"
  by (induction cks r k rule: pick.induct) auto

lemma pick_lookup: "ordered_cs lo cks r hi \<Longrightarrow> map_of (kvs (Node p cks r)) k = map_of (kvs (pick cks r k)) k"
proof (induction cks arbitrary: lo)
  case (Cons ck cks)
  obtain c s where ck: "ck = (c, s)" by (cases ck)
  have o: "ordered lo c (Some s)" "ordered_cs (Some s) cks r hi" using Cons.prems ck by simp_all
  show ?case
  proof (cases "k < s")
    case True
    have "k \<notin> fst ` set (kvs (Node p cks r))"
      using ordered_keys(2) [OF o(2), of _ p] True by (fastforce simp: above_def)
    then have "map_of (kvs (Node p cks r)) k = None" by (simp only: map_of_eq_None_iff not_False_eq_True)
    then show ?thesis using True ck by (simp add: map_add_def split: option.splits)
  next
    case False
    have "k \<notin> fst ` set (kvs c)" using ordered_keys(1) [OF o(1)] False by (fastforce simp: below_def)
    then have "map_of (kvs c) k = None" by (simp only: map_of_eq_None_iff not_False_eq_True)
    then show ?thesis using False ck Cons.IH [OF o(2)] by (simp add: map_add_def split: option.splits)
  qed
qed simp

lemma pick_ordered:
  "ordered_cs lo cks r hi \<Longrightarrow> \<exists>lo' hi'. ordered lo' (pick cks r k) hi'"
proof (induction cks arbitrary: lo)
  case (Cons ck cks)
  then show ?case by (cases ck) auto
qed auto

section \<open>Reading a value\<close>

lemma item_entry_fst [simp]: "fst (item_entry e) = fst e"
  by (simp add: item_entry_def)

lemma lcell_inline_value:
  "region (lcell (k, Inline v)) (5 + length k) (length v) = v" "region (lcell (k, Inline v)) 2 2 = le_bytes 2 (of_nat (length v) :: u16)"
  "region (lcell (k, Over n ov)) 2 2 = le_bytes 2 n" "length (lcell (k, Inline v)) = 5 + length k + length v"
  by (simp_all add: leaf_cell_def region_def)

text \<open>\<open>leafValue\<close> on a well-formed leaf: an inline value is sliced out of the page, for any other the
  overflow chain is read.\<close>

lemma leafValue_lnode:
  assumes d: "lnode (node_data w f) es" and a: "unat a = i" "i < length es"
  shows "leafValue env f a w = (case snd (es ! i) of Inline v \<Rightarrow> Some (Inr v, w) | Over n ov \<Rightarrow> readOverflowPages env ov (unat n) w)"
proof -
  let ?d = "node_data w f"
  obtain sl where sl: "node_rep ?d 2 sl" "map snd sl = map lcell es" "length sl = length es" using d by (rule lnode_slots)
  have "snd (sl ! i) = map snd sl ! i" using a(2) sl(3) by simp
  also have "\<dots> = lcell (es ! i)" unfolding sl(2) using a(2) by simp
  finally have c: "snd (sl ! unat a) = lcell (es ! i)" using a(1) by simp
  have il: "unat a < length sl" using a sl(3) by simp
  have ok: "entry_ok (es ! i)" using d a by (intro lnode_nth_ok)
  note f = lcell_fields [OF ok] and slot = node_rep_slot [OF sl(1) il] and len = node_repD(2) [OF sl(1)]
  note sf = slot_fields [OF slot len refl]
  note off = node_rep_cellOffset [OF sl(1) il] and ty = lnode_reads(1) [OF d]
  let ?p = "fst (sl ! unat a)"
  obtain k x where e: "es ! i = (k, x)" by (cases "es ! i")
  have bound: "?p + length (lcell (es ! i)) \<le> 4096" using slot c by (simp add: slot_ok_def)
  show ?thesis
  proof (cases x)
    case (Inline v)
    have lv: "5 + length k + length v \<le> 1015" using ok e Inline by (simp add: maxInlineSize_def)
    have b: "?p + (5 + length k + length v) \<le> 4096" using bound e Inline lcell_inline_value(4) [of k v] by simp
    have u: "unat (of_nat ?p + 5 + of_nat (length k) :: u16) = ?p + (5 + length k)"
      "unat (of_nat ?p + 5 + of_nat (length k) + of_nat (length v) :: u16) = ?p + (5 + length k) + length v"
      using b by (simp_all add: u16_simps)
    have "goslice ?d (?p + (5 + length k)) (?p + (5 + length k) + length v) = Some v"
      using slot_goslice [OF slot len, of "5 + length k" "length v"] c e Inline lcell_inline_value(1,4) [of k v] by simp
    then show ?thesis using off ty sf(1-3) c f(2,3) e Inline u lcell_inline_value(2) [of k v]
      by (simp add: leafValue_def Let_def go_assert_def)
  next
    case (Over n ov)
    have nz: "ov \<noteq> 0" using ok e Over by simp
    have ov: "leafCellOverflowId ?d a = Some ov" using lnode_cell(4) [OF d a] e Over by simp
    then obtain bs where "gofrom ?d (unat (of_nat ?p + of_nat leafCellHeader + of_nat (length k) :: u16)) = Some bs" "Uint64 bs = Some ov"
      using off sf(1,3) c f(2,3) e Over nz by (auto simp: leafCellOverflowId_def bind_eq_Some_conv)
    then show ?thesis using off ty sf(1-3) c f(2,3) e Over nz lcell_inline_value(3) [of k n ov]
      by (simp add: leafValue_def Let_def go_assert_def)
  qed
qed

lemma item_value:
  assumes r: "read_ok env H L w" and d: "lnode (node_data w f) (map item_entry es)" and a: "unat a = i" "i < length es"
    and e: "es ! i = (k, v, ps)" "item_ok (V w) (k, v, ps)" "set ps \<subseteq> L"
  shows "result_ok (leafValue env f a w) (reading env H L w) (\<lambda>x w'. x = v \<and> reading env H L w w')"
proof -
  have lv: "leafValue env f a w = (case snd (item_entry (k, v, ps)) of Inline v \<Rightarrow> Some (Inr v, w) | Over n ov \<Rightarrow> readOverflowPages env ov (unat n) w)"
    using leafValue_lnode [OF d a(1)] a(2) e(1) by simp
  have l: "length v < 65536" using e(2) by (simp add: item_ok_def)
  show ?thesis
  proof (cases "ps = []")
    case True
    then show ?thesis using lv r by (simp add: item_entry_def entry_of_def result_ok_def reading_def)
  next
    case False
    then have ch: "chain (V w) ps v" using e(2) by (auto simp: item_ok_def split: if_splits)
    then have "chain_head ps \<noteq> 0" using False chain_nonzero [OF ch] by (cases ps) auto
    then show ?thesis using lv readOverflowPages_rule [OF r ch e(3) l] l
      by (simp add: item_entry_def entry_of_def unat_of_nat)
  qed
qed

section \<open>Search\<close>

lemma height_pick: "height (pick cks r k) < height (Node p cks r)"
proof -
  have ge: "b \<le> fold max xs (b :: nat)" for xs b
  proof (induction xs arbitrary: b)
    case (Cons a xs)
    show ?case using Cons [of "max a b"] by simp
  qed simp
  have fm: "x \<in> set xs \<Longrightarrow> x \<le> fold max xs (b :: nat)" for x xs b
  proof (induction xs arbitrary: b)
    case (Cons a xs)
    then show ?case using ge [of "max a b" xs] by auto
  qed simp
  consider "pick cks r k = r" | s where "(pick cks r k, s) \<in> set cks" using pick_mem [of cks r k] by blast
  then show ?thesis
  proof cases
    case 2
    then have "height (pick cks r k) \<in> set (map (\<lambda>(c, k). height c) cks)" by force
    then show ?thesis using fm [of "height (pick cks r k)" "map (\<lambda>(c, k). height c) cks" 0] by simp
  qed simp
qed

lemma tpages_pick: "set (tpages (pick cks r k)) \<subseteq> set (tpages (Node p cks r))"
  using pick_mem [of cks r k] by (fastforce)

lemma tree_at_pick: "tree_at W (Node p cks r) \<Longrightarrow> tree_at W (pick cks r k)"
  using pick_mem [of cks r k] by fastforce

lemma tid_in_tpages: "tid t \<in> set (tpages t)"
  by (cases t) auto

lemma tree_at_cong: "(\<And>p. p \<in> set (tpages t) \<Longrightarrow> W' p = W p) \<Longrightarrow> tree_at W' t = tree_at W t"
proof (induction t)
  case (Leaf p es)
  have "item_ok W' e = item_ok W e" if e: "e \<in> set es" for e
  proof -
    obtain k v ps where kv: "e = (k, v, ps)" by (cases e) auto
    have "W' q = W q" if "q \<in> set ps" for q
    proof (rule Leaf)
      have "q \<in> set (item_pages e)" using that kv by (simp add: item_pages_def)
      then show "q \<in> set (tpages (Leaf p es))" using e by auto
    qed
    then show ?thesis using chain_cong [of ps W' W v] by (simp add: kv item_ok_def)
  qed
  then show ?case using Leaf by auto
next
  case (Node p cks r)
  have "tree_at W' (fst ck) = tree_at W (fst ck)" if "ck \<in> set cks" for ck
    using Node.IH(1) [OF that, of "fst ck"] Node.prems that by (cases ck) (fastforce simp: fsts.simps)
  moreover have "tree_at W' r = tree_at W r" using Node.IH(2) Node.prems by auto
  ultimately show ?case using Node.prems by auto
qed

lemma searchInternal_pick:
  assumes "inode d (child_refs cks) (tid r)" "ordered_cs lo cks r hi"
  obtains idx where "searchInternal d k = Some idx" "child d idx = Some (tid (pick cks r k))"
    "unat idx = rank_le (map snd cks) k" "rank_le (map snd cks) k \<le> length cks"
proof -
  have seps: "map snd (child_refs cks) = map snd cks" by (auto simp: child_refs_def)
  let ?i = "rank_le (map snd cks) k"
  have srt: "sorted_wrt (<) (map snd cks)" using ordered_cs_seps [OF assms(2)] by blast
  note pk = pick_nth [OF srt, of r k]
  have len: "length (child_refs cks) = length cks" by (simp add: child_refs_def)
  have "length cks \<le> 340" using inode_length [OF assms(1)] len by simp
  then have u: "unat (of_nat ?i :: u16) = ?i" using pk by (simp add: unat_of_nat)
  have s: "searchInternal d k = Some (of_nat ?i)" using searchInternal_inode [OF assms(1)] srt by (simp add: seps)
  moreover have "child d (of_nat ?i) = Some (tid (pick cks r k))"
  proof (cases "?i < length cks")
    case True
    then show ?thesis using inode_cell(2) [OF assms(1) u] pk len by (simp add: child_refs_def split_beta)
  next
    case False
    then have "?i = length cks" using pk by simp
    then show ?thesis using inode_child_last [OF assms(1)] pk len by simp
  qed
  ultimately show thesis using that u pk by blast
qed

lemma Search_loop_rule:
  "height t < n \<Longrightarrow> read_ok env (add_mset (f, tid t, False) H) L w \<Longrightarrow> tree_at (V w) t \<Longrightarrow> set (tpages t) \<subseteq> L \<Longrightarrow> ordered lo t hi \<Longrightarrow>
   result_ok (Search_loop n env f k w) (reading env H L w) (\<lambda>x w'. x = map_of (kvs t) k \<and> reading env H L w w')"
proof (induction n arbitrary: t f w lo hi)
  case (Suc n)
  have d: "node_data w f = V w (tid t)" using handle_node [OF Suc.prems(2), of f "tid t" False] by simp
  show ?case
  proof (cases t)
    case (Leaf p es)
    have ln: "lnode (node_data w f) (map item_entry es)" "\<forall>e \<in> set es. item_ok (V w) e" using Suc.prems(3) Leaf d by simp_all
    have srt: "sorted_wrt (<) (map fst es)" using Suc.prems(5) Leaf by simp
    have keys: "map fst (map item_entry es) = map fst es" "fst ` set (map item_entry es) = fst ` set es" by (simp_all add: image_image)
    let ?i = "rank_lt (map fst es) k"
    have s: "searchLeaf (node_data w f) k = Some (of_nat ?i, k \<in> fst ` set es)"
      using searchLeaf_lnode [OF ln(1)] srt unfolding keys by simp
    have t: "ntype (node_data w f) = Some nodeLeaf" using lnode_reads(1) [OF ln(1)] .
    have un: "\<exists>w2. node_unpin f w1 = Some w2 \<and> reading env H L w w2" if "reading env (add_mset (f, tid t, False) H) L w w1" for w1
      using read_unpin_rule [of env f "tid t" False H L w1] that reading_trans unfolding reading_def by metis
    show ?thesis
    proof (cases "k \<in> fst ` set es")
      case False
      have "map_of (map item_kv es) k = None" using False by (force simp: map_of_eq_None_iff item_kv_def)
      then show ?thesis using un [of w] Suc.prems(2) False s t Leaf
        by (auto simp: result_ok_def reading_def nodeLeaf_def nodeInternal_def)
    next
      case True
      then obtain j where j: "j < length es" "fst (es ! j) = k" by (metis (no_types, lifting) image_iff in_set_conv_nth)
      then have i: "?i = j" using rank_lt_unique [OF srt, of j] by simp
      have "length es \<le> 2045" using lnode_length [OF ln(1)] by simp
      then have u: "unat (of_nat ?i :: u16) = j" using i j(1) by (simp add: unat_of_nat)
      obtain v ps where e: "es ! j = (k, v, ps)" using j(2) by (cases "es ! j") auto
      have mem: "(k, v, ps) \<in> set es" using j(1) e by (metis nth_mem)
      then have "set ps \<subseteq> L" using Suc.prems(4) Leaf by (force simp: item_pages_def)
      then have "result_ok (leafValue env f (of_nat ?i) w) (reading env (add_mset (f, tid t, False) H) L w)
          (\<lambda>x w'. x = v \<and> reading env (add_mset (f, tid t, False) H) L w w')"
        using item_value [OF Suc.prems(2) ln(1) u j(1) e] ln(2) mem by blast
      moreover have "map_of (map item_kv es) k = Some v"
      proof -
        have "distinct (map fst (map item_kv es))" using srt by (simp add: item_kv_def comp_def strict_sorted_iff)
        moreover have "(k, v) \<in> set (map item_kv es)" using mem by (force simp: item_kv_def)
        ultimately show ?thesis by (rule map_of_is_SomeI)
      qed
      ultimately show ?thesis
      proof (cases rule: result_ok_cases)
        case (err e w1)
        then show ?thesis using un [of w1] s t True
          by (auto simp: result_ok_def try_ok_def try_or_def nodeLeaf_def nodeInternal_def)
      next
        case (val x w1)
        then show ?thesis using un [of w1] s t True Leaf \<open>map_of (map item_kv es) k = Some v\<close>
          by (auto simp: result_ok_def try_ok_def try_or_def nodeLeaf_def nodeInternal_def)
      qed
    qed
  next
    case (Node p cks r)
    let ?c = "pick cks r k"
    have nd: "inode (node_data w f) (child_refs cks) (tid r)" using Suc.prems(3) Node d by simp
    have oc: "ordered_cs lo cks r hi" using Suc.prems(5) Node by simp
    obtain idx where idx: "searchInternal (node_data w f) k = Some idx" "child (node_data w f) idx = Some (tid ?c)"
      using searchInternal_pick [OF nd oc] by blast
    obtain w1 where w1: "node_unpin f w = Some w1" "reading env H L w w1" using Suc.prems(2) by (rule read_unpin_rule)
    have r1: "read_ok env H L w1" using w1(2) by (simp add: reading_def)
    have sub: "set (tpages ?c) \<subseteq> L" using tpages_pick [of cks r k p] Suc.prems(4) Node by blast
    have ta: "tree_at (V w) ?c" using tree_at_pick Suc.prems(3) Node by blast
    obtain lo' hi' where oo: "ordered lo' ?c hi'" using pick_ordered [OF oc] by blast
    have "result_ok (try_ok (getNode env (tid ?c) w1) (\<lambda>f w. Search_loop n env f k w)) (reading env H L w)
        (\<lambda>x w'. x = map_of (kvs ?c) k \<and> reading env H L w w')"
    proof (rule try_ok_rule [OF txnGet_read [OF r1]])
      show "tid ?c \<in> L" using sub tid_in_tpages by blast
      show "reading env H L w w2" if "reading env H L w1 w2" for w2 using that by (rule reading_trans [OF w1(2)])
    next
      fix g w2 assume g: "reading env (add_mset (g, tid ?c, False) H) L w1 w2"
      have gw: "reading env (add_mset (g, tid ?c, False) H) L w w2" using g by (rule reading_trans [OF w1(2)])
      then have same: "same_pages L w w2" by (rule reading_same)
      have "tree_at (V w2) ?c" using ta same sub by (subst tree_at_cong [of ?c "V w2" "V w"]) (auto simp: same_pages_def)
      then have "result_ok (Search_loop n env g k w2) (reading env H L w2) (\<lambda>x w'. x = map_of (kvs ?c) k \<and> reading env H L w2 w')"
        using g sub oo Suc.prems(1) Node height_pick [of cks r k p] by (intro Suc.IH) (auto simp: reading_def)
      then show "result_ok (Search_loop n env g k w2) (reading env H L w) (\<lambda>x w'. x = map_of (kvs ?c) k \<and> reading env H L w w')"
        by (rule result_ok_mono) (use reading_trans [OF gw] in blast)+
    qed
    moreover have "map_of (kvs t) k = map_of (kvs ?c) k" using pick_lookup [OF oc, of p] Node by simp
    ultimately show ?thesis using idx w1(1) inode_reads(1) [OF nd] by simp
  qed
qed simp

lemma SearchKey_rule:
  assumes "read_ok env H L w" "tree_at (V w) t" "set (tpages t) \<subseteq> L" "ordered None t None" "height t < fuel env" "root b = tid t"
  shows "result_ok (SearchKey env b k w) (reading env H L w) (\<lambda>x w'. x = map_of (kvs t) k \<and> reading env H L w w')"
proof -
  have nz: "tid t \<noteq> 0" using assms(2) by (cases t) auto
  have "result_ok (try_ok (getNode env (tid t) w) (\<lambda>f w. Search_loop (fuel env) env f k w)) (reading env H L w)
      (\<lambda>x w'. x = map_of (kvs t) k \<and> reading env H L w w')"
  proof (rule try_ok_rule [OF txnGet_read [OF assms(1)]])
    show "tid t \<in> L" using tid_in_tpages assms(3) by blast
    show "reading env H L w w2" if "reading env H L w w2" for w2 using that .
  next
    fix g w2 assume g: "reading env (add_mset (g, tid t, False) H) L w w2"
    have "tree_at (V w2) t" using assms(2,3) reading_same [OF g] by (subst tree_at_cong [of t "V w2" "V w"]) (auto simp: same_pages_def)
    then have "result_ok (Search_loop (fuel env) env g k w2) (reading env H L w2) (\<lambda>x w'. x = map_of (kvs t) k \<and> reading env H L w2 w')"
      using g assms(3-5) by (intro Search_loop_rule) (auto simp: reading_def)
    then show "result_ok (Search_loop (fuel env) env g k w2) (reading env H L w) (\<lambda>x w'. x = map_of (kvs t) k \<and> reading env H L w w')"
      by (rule result_ok_mono) (use reading_trans [OF g] in blast)+
  qed
  then show ?thesis using nz assms(6) by (simp add: SearchKey_def)
qed

end
