(* ===== verification/Split.thy ===== *)
theory Split
  imports Nodes
begin

text \<open>
  The page work of \<^verbatim>\<open>src/update.go\<close>: where a full node is split and how its two halves are filled.
  \<open>splitLeaf\<close> and \<open>splitInternal\<close> first choose an index from the cell sizes, then allocate two
  pages and copy; the choice and the copying are the functions below, on the bytes of the node and
  of the two fresh pages. The allocations in between act on other pages.
\<close>

section \<open>Splitting leaves\<close>

fun leafSplitIndex_loop ::
    "bytes \<Rightarrow> u16 \<Rightarrow> u16 \<Rightarrow> u16 \<Rightarrow> bool \<Rightarrow> nat \<Rightarrow> u16 \<Rightarrow> u16 \<Rightarrow> u16 option" where
  "leafSplitIndex_loop nodeData insertIdx newCellSize target replacing 0 idx running = Some 1"
| "leafSplitIndex_loop nodeData insertIdx newCellSize target replacing (Suc more) idx running = do {
     sz \<leftarrow> (if idx = insertIdx then Some newCellSize
           else leafCellSizeAt nodeData (if \<not> replacing \<and> idx > insertIdx then idx - 1 else idx));
     let running = running + (sz + 2);
     if running > target then Some (idx + 1)
     else leafSplitIndex_loop nodeData insertIdx newCellSize target replacing more (idx + 1) running
   }"

definition leafSplitIndex :: "bytes \<Rightarrow> u16 \<Rightarrow> u16 \<Rightarrow> u16 \<Rightarrow> u16 \<Rightarrow> bool \<Rightarrow> u16 option" where
  "leafSplitIndex nodeData insertIdx totalCells newCellSize target replacing = do {
     splitIdx \<leftarrow> leafSplitIndex_loop nodeData insertIdx newCellSize target replacing (unat totalCells) 0 0;
     Some (if splitIdx \<ge> totalCells then totalCells - 1 else splitIdx)
   }"

text \<open>The sizes \<open>splitLeaf\<close> computes before it allocates.\<close>

definition splitLeaf_index :: "bytes \<Rightarrow> u16 \<Rightarrow> bytes \<Rightarrow> bytes \<Rightarrow> bool \<Rightarrow> u16 option" where
  "splitLeaf_index node insertIdx k v replacing = do {
     n \<leftarrow> nCells node;
     let newCellSize = leafCellSize k v;
     (totalCells, contentDelta) \<leftarrow>
       (if replacing then do {
          old \<leftarrow> leafCellSizeAt node insertIdx;
          Some (n, newCellSize - old)
        } else Some (n + 1, 2 + newCellSize));
     total \<leftarrow> totalCellsSize node;
     let totalSize = total + contentDelta + n * 2;
     let target = totalSize div 2;
     leafSplitIndex node insertIdx totalCells newCellSize target replacing
   }"

definition splitLeaf_fill ::
    "bytes \<Rightarrow> bytes \<Rightarrow> bytes \<Rightarrow> u16 \<Rightarrow> u16 \<Rightarrow> bytes \<Rightarrow> bytes \<Rightarrow> PageId \<Rightarrow> bool \<Rightarrow> (bytes \<times> bytes \<times> bytes) option" where
  "splitLeaf_fill node node1 node2 insertIdx splitIdx k v overflowID replacing = do {
     n \<leftarrow> nCells node;
     (node1, node2) \<leftarrow>
       (if insertIdx < splitIdx then do {
          node1 \<leftarrow> copyRange node1 node 0 insertIdx;
          node1 \<leftarrow> appendLeafCellWithOverflow node1 k v overflowID;
          if replacing then do {
            node1 \<leftarrow> copyRange node1 node (insertIdx + 1) (splitIdx - insertIdx - 1);
            node2 \<leftarrow> copyRange node2 node splitIdx (n - splitIdx);
            Some (node1, node2)
          } else do {
            node1 \<leftarrow> copyRange node1 node insertIdx (splitIdx - insertIdx - 1);
            node2 \<leftarrow> copyRange node2 node (splitIdx - 1) (n - (splitIdx - 1));
            Some (node1, node2)
          }
        } else do {
          node1 \<leftarrow> copyRange node1 node 0 splitIdx;
          node2 \<leftarrow> copyRange node2 node splitIdx (insertIdx - splitIdx);
          node2 \<leftarrow> appendLeafCellWithOverflow node2 k v overflowID;
          node2 \<leftarrow> (if replacing then copyRange node2 node (insertIdx + 1) (n - insertIdx - 1)
                    else copyRange node2 node insertIdx (n - insertIdx));
          Some (node1, node2)
        });
     sepKey \<leftarrow> key node2 0;
     Some (node1, node2, sepKey)
   }"

section \<open>Splitting internal nodes\<close>

fun internalSplitIndex_loop ::
    "bytes \<Rightarrow> u16 \<Rightarrow> u16 \<Rightarrow> u16 \<Rightarrow> u16 \<Rightarrow> nat \<Rightarrow> u16 \<Rightarrow> u16 \<Rightarrow> u16 option" where
  "internalSplitIndex_loop nodeData childIdx n newCellSize target 0 i running = Some 1"
| "internalSplitIndex_loop nodeData childIdx n newCellSize target (Suc more) i running = do {
     sz \<leftarrow> (if i < childIdx then internalCellSizeAt nodeData i
           else if i = childIdx then Some newCellSize
           else if i = childIdx + 1 \<and> childIdx < n then internalCellSizeAt nodeData childIdx
           else internalCellSizeAt nodeData (i - 1));
     let running = running + (sz + 2);
     if running > target then Some i
     else internalSplitIndex_loop nodeData childIdx n newCellSize target more (i + 1) running
   }"

definition internalSplitIndex :: "bytes \<Rightarrow> u16 \<Rightarrow> u16 \<Rightarrow> u16 \<Rightarrow> u16 \<Rightarrow> u16 \<Rightarrow> u16 option" where
  "internalSplitIndex nodeData childIdx n totalCells newCellSize target = do {
     splitIdx \<leftarrow> internalSplitIndex_loop nodeData childIdx n newCellSize target (unat totalCells) 0 0;
     Some (if splitIdx \<ge> totalCells then totalCells - 1 else splitIdx)
   }"

definition splitInternal_index :: "bytes \<Rightarrow> u16 \<Rightarrow> bytes \<Rightarrow> u16 option" where
  "splitInternal_index node childIdx pushUpKey = do {
     n \<leftarrow> nCells node;
     let totalCells = n + 1;
     let newCellSize = internalCellSize pushUpKey;
     total \<leftarrow> totalCellsSize node;
     let totalSize = total + newCellSize + n * 2 + 2;
     let target = totalSize div 2;
     internalSplitIndex node childIdx n totalCells newCellSize target
   }"

definition splitInternal_fill ::
    "bytes \<Rightarrow> bytes \<Rightarrow> bytes \<Rightarrow> u16 \<Rightarrow> u16 \<Rightarrow> PageId \<Rightarrow> bytes \<Rightarrow> PageId \<Rightarrow> (bytes \<times> bytes \<times> bytes) option" where
  "splitInternal_fill node node1 node2 childIdx splitIdx newChild pushUpKey extraChild = do {
     n \<leftarrow> nCells node;
     if splitIdx = childIdx + 1 then do {
       node1 \<leftarrow> copyRange node1 node 0 childIdx;
       node1 \<leftarrow> appendInternalCell node1 newChild pushUpKey;
       node1 \<leftarrow> setRightmostChild node1 extraChild;
       sepKey \<leftarrow> key node childIdx;
       node2 \<leftarrow> copyRange node2 node (childIdx + 1) (n - childIdx - 1);
       r \<leftarrow> rightmostChild node;
       node2 \<leftarrow> setRightmostChild node2 r;
       Some (node1, node2, sepKey)
     } else if childIdx < splitIdx then do {
       node1 \<leftarrow> copyRange node1 node 0 childIdx;
       node1 \<leftarrow> appendInternalCell node1 newChild pushUpKey;
       k \<leftarrow> key node childIdx;
       node1 \<leftarrow> appendInternalCell node1 extraChild k;
       node1 \<leftarrow> copyRange node1 node (childIdx + 1) (splitIdx - childIdx - 2);
       c \<leftarrow> child node (splitIdx - 1);
       node1 \<leftarrow> setRightmostChild node1 c;
       sepKey \<leftarrow> key node (splitIdx - 1);
       node2 \<leftarrow> copyRange node2 node splitIdx (n - splitIdx);
       r \<leftarrow> rightmostChild node;
       node2 \<leftarrow> setRightmostChild node2 r;
       Some (node1, node2, sepKey)
     } else if childIdx = splitIdx then do {
       node1 \<leftarrow> copyRange node1 node 0 childIdx;
       node1 \<leftarrow> setRightmostChild node1 newChild;
       if childIdx < n then do {
         k \<leftarrow> key node childIdx;
         node2 \<leftarrow> appendInternalCell node2 extraChild k;
         node2 \<leftarrow> copyRange node2 node (childIdx + 1) (n - childIdx - 1);
         r \<leftarrow> rightmostChild node;
         node2 \<leftarrow> setRightmostChild node2 r;
         Some (node1, node2, pushUpKey)
       } else do {
         node2 \<leftarrow> setRightmostChild node2 extraChild;
         Some (node1, node2, pushUpKey)
       }
     } else do {
       node1 \<leftarrow> copyRange node1 node 0 splitIdx;
       c \<leftarrow> child node splitIdx;
       node1 \<leftarrow> setRightmostChild node1 c;
       sepKey \<leftarrow> key node splitIdx;
       node2 \<leftarrow> copyRange node2 node (splitIdx + 1) (childIdx - splitIdx - 1);
       node2 \<leftarrow> appendInternalCell node2 newChild pushUpKey;
       if childIdx < n then do {
         k \<leftarrow> key node childIdx;
         node2 \<leftarrow> appendInternalCell node2 extraChild k;
         node2 \<leftarrow> copyRange node2 node (childIdx + 1) (n - childIdx - 1);
         r \<leftarrow> rightmostChild node;
         node2 \<leftarrow> setRightmostChild node2 r;
         Some (node1, node2, sepKey)
       } else do {
         node2 \<leftarrow> setRightmostChild node2 extraChild;
         Some (node1, node2, sepKey)
       }
     }
   }"

text \<open>\<open>applyChildSplitToInternal\<close>, on the bytes of the freshly allocated page.\<close>

definition applyChildSplitToInternal_fill ::
    "bytes \<Rightarrow> bytes \<Rightarrow> u16 \<Rightarrow> PageId \<Rightarrow> bytes \<Rightarrow> PageId \<Rightarrow> bytes option" where
  "applyChildSplitToInternal_fill newNode node childIdx newChild pushUpKey extraChild = do {
     n \<leftarrow> nCells node;
     if childIdx < n then do {
       newNode \<leftarrow> copyRange newNode node 0 childIdx;
       newNode \<leftarrow> appendInternalCell newNode newChild pushUpKey;
       k \<leftarrow> key node childIdx;
       newNode \<leftarrow> appendInternalCell newNode extraChild k;
       newNode \<leftarrow> copyRange newNode node (childIdx + 1) (n - childIdx - 1);
       r \<leftarrow> rightmostChild node;
       setRightmostChild newNode r
     } else do {
       newNode \<leftarrow> copyRange newNode node 0 n;
       newNode \<leftarrow> appendInternalCell newNode newChild pushUpKey;
       setRightmostChild newNode extraChild
     }
   }"

section \<open>The scan for the split point\<close>

text \<open>The bytes that cells of the given sizes take in a page.\<close>

definition csum :: "nat list \<Rightarrow> nat" where
  "csum zs = sum_list (map (\<lambda>z. z + 2) zs)"

lemma csum_simps [simp]: "csum [] = 0" "csum (z # zs) = z + 2 + csum zs" "csum (xs @ ys) = csum xs + csum ys"
  by (simp_all add: csum_def)

text \<open>Both split loops add up cell costs until they pass the target. They differ in where they
  read the sizes and in the index they return, which are the parameters here.\<close>

locale split_scan =
  fixes loop :: "nat \<Rightarrow> u16 \<Rightarrow> u16 \<Rightarrow> u16 option" and size_at :: "u16 \<Rightarrow> u16 option"
    and target bump :: u16
  assumes step: "loop (Suc more) idx running = do {
      sz \<leftarrow> size_at idx;
      let running = running + (sz + 2);
      if running > target then Some (idx + bump) else loop more (idx + 1) running
    }"
begin

lemma scan_from:
  assumes sizes: "\<And>i. i < length zs \<Longrightarrow> size_at (of_nat i) = Some (of_nat (zs ! i))"
    and total: "csum zs < 65536" and past: "unat target < csum zs"
  shows "i + more = length zs \<Longrightarrow> csum (take i zs) \<le> unat target \<Longrightarrow>
    \<exists>j. loop more (of_nat i) (of_nat (csum (take i zs))) = Some (of_nat j + bump) \<and> j < length zs \<and>
      csum (take j zs) \<le> unat target \<and> unat target < csum (take (Suc j) zs)"
proof (induction more arbitrary: i)
  case 0
  then show ?case using past by simp
next
  case (Suc more)
  let ?r = "csum (take i zs)" and ?r' = "csum (take (Suc i) zs)"
  have i: "i < length zs" using Suc.prems(1) by simp
  have r': "?r' = ?r + (zs ! i + 2)" using i by (simp add: take_Suc_conv_app_nth)
  have "csum zs = ?r' + csum (drop (Suc i) zs)" by (metis append_take_drop_id csum_simps(3))
  then have "?r' < 65536" using total by linarith
  then have u: "unat (of_nat ?r' :: u16) = ?r'" by (simp add: u16_simps)
  have w: "(of_nat ?r + (of_nat (zs ! i) + 2) :: u16) = of_nat ?r'" unfolding r' by simp
  have s: "(of_nat i + 1 :: u16) = of_nat (Suc i)" by simp
  have lp: "loop (Suc more) (of_nat i) (of_nat ?r) =
      (if of_nat ?r' > target then Some (of_nat i + bump) else loop more (of_nat (Suc i)) (of_nat ?r'))"
    unfolding step sizes [OF i] by (simp add: Let_def w s del: of_nat_Suc)
  show ?case
  proof (cases "?r' > unat target")
    case True
    then show ?thesis using lp u i Suc.prems(2) by (auto simp: word_less_nat_alt)
  next
    case False
    then have "\<not> of_nat ?r' > target" using u by (simp add: word_less_nat_alt)
    then show ?thesis using lp Suc.IH [of "Suc i"] Suc.prems(1) False by simp
  qed
qed

lemma scan_crosses:
  assumes "\<And>i. i < length zs \<Longrightarrow> size_at (of_nat i) = Some (of_nat (zs ! i))"
    "csum zs < 65536" "unat target < csum zs"
  obtains j where "loop (length zs) 0 0 = Some (of_nat j + bump)" "j < length zs"
    "csum (take j zs) \<le> unat target" "unat target < csum (take (Suc j) zs)"
  using scan_from [of zs 0 "length zs"] assms by auto

end

interpretation leaf_scan: split_scan "leafSplitIndex_loop nodeData insertIdx newCellSize target replacing"
  "\<lambda>idx. if idx = insertIdx then Some newCellSize
     else leafCellSizeAt nodeData (if \<not> replacing \<and> idx > insertIdx then idx - 1 else idx)" target 1
  for nodeData insertIdx newCellSize target replacing
  by unfold_locales (unfold leafSplitIndex_loop.simps, rule refl)

interpretation internal_scan: split_scan "internalSplitIndex_loop nodeData childIdx n newCellSize target"
  "\<lambda>i. if i < childIdx then internalCellSizeAt nodeData i
     else if i = childIdx then Some newCellSize
     else if i = childIdx + 1 \<and> childIdx < n then internalCellSizeAt nodeData childIdx
     else internalCellSizeAt nodeData (i - 1)" target 0
  for nodeData childIdx n newCellSize target
  by unfold_locales (unfold internalSplitIndex_loop.simps add_0_right, rule refl)

section \<open>Leaf splits keep every entry\<close>

text \<open>The entries of a leaf after an update at position \<open>i\<close>.\<close>

definition put_entry :: "bool \<Rightarrow> nat \<Rightarrow> 'a \<Rightarrow> 'a list \<Rightarrow> 'a list" where
  "put_entry replacing i e es = take i es @ e # drop (if replacing then Suc i else i) es"

lemma length_put_entry:
  "i < length es \<or> \<not> replacing \<and> i = length es \<Longrightarrow>
     length (put_entry replacing i e es) = (if replacing then length es else Suc (length es))"
  by (auto simp: put_entry_def)

lemma nth_put_entry:
  assumes "i < length es \<or> \<not> replacing \<and> i = length es" "j < length (put_entry replacing i e es)"
  shows "put_entry replacing i e es ! j =
    (if j = i then e else es ! (if \<not> replacing \<and> i < j then j - 1 else j))"
  using assms by (auto simp: put_entry_def nth_append min_def nth_Cons' split: if_splits)

lemma lcost_csum: "lcost es = csum (map (length \<circ> lcell) es)"
  by (induction es) auto

lemma lcost_put_entry:
  assumes "i < length es \<or> \<not> replacing \<and> i = length es"
  shows "lcost (put_entry replacing i e es) + (if replacing then length (lcell (es ! i)) + 2 else 0) =
    lcost es + length (lcell e) + 2"
proof -
  have "lcost es = lcost (take i es) + lcost (drop i es)" by (simp add: lcost_take_drop)
  moreover have "drop i es = es ! i # drop (Suc i) es" if "i < length es" using that by (simp add: Cons_nth_drop_Suc)
  ultimately show ?thesis using assms by (auto simp: put_entry_def)
qed

lemma u16_half: "n < 65536 \<Longrightarrow> unat ((of_nat n :: u16) div 2) = n div 2"
  by (simp add: unat_div u16_simps)

lemma splitLeaf_total:
  assumes "lnode node es" "unat insertIdx = i" "i < length es \<or> \<not> replacing \<and> i = length es"
    and "(ov = 0) = (5 + length k + length v \<le> maxInlineSize)"
  shows "splitLeaf_index node insertIdx k v replacing =
    leafSplitIndex node insertIdx (of_nat (length (put_entry replacing i (entry_of k v ov) es)))
      (of_nat (length (leaf_cell k v ov))) (of_nat (lcost (put_entry replacing i (entry_of k v ov) es)) div 2) replacing"
proof -
  let ?new = "put_entry replacing i (entry_of k v ov) es"
  have n: "2 * length es \<le> lcost es" using lcost_length [of es] .
  have c: "lcost ?new + (if replacing then length (lcell (es ! i)) + 2 else 0) = lcost es + length (leaf_cell k v ov) + 2"
    using lcost_put_entry [OF assms(3), of "entry_of k v ov"] by simp
  note reads = lnode_reads [OF assms(1)] and sz = leafCellSize_cell [OF assms(4)]
  have len: "length ?new = (if replacing then length es else Suc (length es))"
    using length_put_entry [OF assms(3)] .
  show ?thesis
  proof (cases replacing)
    case True
    then have old: "leafCellSizeAt node insertIdx = Some (of_nat (length (lcell (es ! i))))"
      using lnode_cell(3) [OF assms(1,2)] assms(3) by simp
    have "lcost ?new + length (lcell (es ! i)) = lcost es + length (leaf_cell k v ov)" using c True by simp
    then have "(of_nat (lcost ?new) :: u16) + of_nat (length (lcell (es ! i))) = of_nat (lcost es) + of_nat (length (leaf_cell k v ov))"
      by (metis of_nat_add)
    then have "(of_nat (lcost es) - 2 * of_nat (length es)) + (of_nat (length (leaf_cell k v ov)) - of_nat (length (lcell (es ! i)))) + of_nat (length es) * 2 = (of_nat (lcost ?new) :: u16)"
      by (simp add: algebra_simps)
    then show ?thesis using True len old n by (simp add: splitLeaf_index_def reads sz Let_def of_nat_diff)
  next
    case False
    then have "(of_nat (lcost es) - 2 * of_nat (length es)) + (2 + of_nat (length (leaf_cell k v ov))) + of_nat (length es) * 2 = (of_nat (lcost ?new) :: u16)"
      using c by simp
    then show ?thesis using False len n by (simp add: splitLeaf_index_def reads sz Let_def of_nat_diff add.commute)
  qed
qed

lemma splitLeaf_index_halves:
  assumes node: "lnode node es" and i: "unat insertIdx = i" "i < length es \<or> \<not> replacing \<and> i = length es"
    and ov: "(ov = 0) = (5 + length k + length v \<le> maxInlineSize)" and k: "length k \<le> maxKeySize"
    and new: "new = put_entry replacing i (entry_of k v ov) es" "2 \<le> length new"
  obtains s where "splitLeaf_index node insertIdx k v replacing = Some (of_nat s)" "0 < s" "s < length new"
    "5 + lcost (take s new) \<le> 4096" "5 + lcost (drop s new) \<le> 4096"
proof -
  let ?zs = "map (length \<circ> lcell) new" and ?t = "lcost new div 2"
  have ok: "entry_ok e" if "e \<in> set new" for e
    using that node entry_of_ok [OF k ov]
    by (auto simp: new(1) put_entry_def lnode_def dest!: in_set_takeD in_set_dropD)
  have ub: "length (lcell (new ! j)) \<le> 1021" if "j < length new" for j
    using lcell_fields(4) [OF ok] that by simp
  have tot: "lcost new \<le> lcost es + 1023"
    using lcost_put_entry [OF i(2), of "entry_of k v ov"] lcell_fields(4) [OF entry_of_ok [OF k ov]] new(1) by simp
  then have tb: "lcost new \<le> 5114" using lnode_fits [OF node] by simp
  have ln: "length new \<le> 2046" using length_put_entry [OF i(2), of "entry_of k v ov"] lnode_length [OF node] new(1) by simp
  have zs: "(if of_nat j = insertIdx then Some (of_nat (length (leaf_cell k v ov)))
      else leafCellSizeAt node (if \<not> replacing \<and> of_nat j > insertIdx then of_nat j - 1 else of_nat j)) =
      Some (of_nat (?zs ! j))" if j: "j < length ?zs" for j
  proof -
    have uj: "unat (of_nat j :: u16) = j" using j ln by (simp add: u16_simps)
    have eq: "(of_nat j = insertIdx) = (j = i)" "(of_nat j > insertIdx) = (i < j)"
      using uj i(1) by (auto simp: word_unat_eq_iff word_less_nat_alt)
    have u1: "unat (of_nat j - 1 :: u16) = j - 1" if "i < j" using that uj by (simp add: u16_simps)
    have "leafCellSizeAt node (if \<not> replacing \<and> of_nat j > insertIdx then of_nat j - 1 else of_nat j) =
        Some (of_nat (length (lcell (es ! (if \<not> replacing \<and> i < j then j - 1 else j)))))" if "j \<noteq> i"
      using that j length_put_entry [OF i(2), of "entry_of k v ov"] new(1) uj u1 i(2)
      by (intro lnode_cell(3) [OF node]) (auto simp: eq split: if_splits)
    then show ?thesis using j nth_put_entry [OF i(2), of j "entry_of k v ov"] new(1) by (simp add: eq)
  qed
  have ut: "unat (of_nat (lcost new) div 2 :: u16) = ?t" using tb by (intro u16_half) simp
  have pos: "?t < csum ?zs" "csum ?zs < 65536" using lcost_csum [of new] lcost_length [of new] new(2) tb by auto
  obtain j where j: "leafSplitIndex_loop node insertIdx (of_nat (length (leaf_cell k v ov))) (of_nat (lcost new) div 2) replacing (length ?zs) 0 0 = Some (of_nat j + 1)"
    "j < length ?zs" "csum (take j ?zs) \<le> ?t" "?t < csum (take (Suc j) ?zs)"
    using leaf_scan.scan_crosses [of ?zs insertIdx "of_nat (length (leaf_cell k v ov))" node replacing "of_nat (lcost new) div 2"]
      zs pos unfolding ut by blast
  have lj: "lcost (take j new) \<le> ?t" "?t < lcost (take (Suc j) new)"
    using j(3,4) by (simp_all add: lcost_csum take_map)
  have tj: "lcost (take (Suc j) new) = lcost (take j new) + length (lcell (new ! j)) + 2"
    using j(2) by (simp add: take_Suc_conv_app_nth)
  have ul: "unat (of_nat (length new) :: u16) = length new" using ln by (simp add: u16_simps)
  have usj: "unat (of_nat j + 1 :: u16) = Suc j" using j(2) ln by (simp add: u16_simps)
  have idx: "splitLeaf_index node insertIdx k v replacing =
      Some (if (of_nat j + 1 :: u16) \<ge> of_nat (length new) then of_nat (length new) - 1 else of_nat j + 1)"
    using splitLeaf_total [OF node i ov] j(1) ul unfolding new(1) [symmetric] by (simp add: leafSplitIndex_def)
  show thesis
  proof (cases "Suc j < length new")
    case True
    then have "\<not> (of_nat j + 1 :: u16) \<ge> of_nat (length new)" using ul usj by (simp add: word_le_nat_alt)
    moreover have "lcost (drop (Suc j) new) \<le> 4091" using lcost_take_drop [of "Suc j" new] lj(2) tb by linarith
    ultimately show thesis using that [of "Suc j"] True idx tj lj ub [of j] tb by (simp add: add.commute)
  next
    case False
    then have lst: "Suc j = length new" using j(2) by simp
    then have "(of_nat j + 1 :: u16) \<ge> of_nat (length new)" using ul usj by (simp add: word_le_nat_alt)
    moreover have "(of_nat (length new) - 1 :: u16) = of_nat j" using lst by (metis add_diff_cancel_left' of_nat_Suc)
    ultimately have "splitLeaf_index node insertIdx k v replacing = Some (of_nat j)" using idx by simp
    moreover have "0 < j" "j < length new" using lst new(2) by simp_all
    moreover have "lcost new = lcost (take j new) + length (lcell (new ! j)) + 2" using tj lst by simp
    then have "5 + lcost (take j new) \<le> 4096" "5 + lcost (drop j new) \<le> 4096"
      using lcost_take_drop [of j new] lj(1) tb ub [of j] \<open>j < length new\<close> by linarith+
    ultimately show thesis by (rule that)
  qed
qed

lemma take_put_left:
  "i \<le> length es \<Longrightarrow> i < s \<Longrightarrow> take s (take i es @ e # r) = take i es @ e # take (s - Suc i) r"
  "i \<le> length es \<Longrightarrow> i < s \<Longrightarrow> drop s (take i es @ e # r) = drop (s - Suc i) r"
  by (simp_all add: take_Cons' drop_Cons')

lemma take_put_right:
  "i \<le> length es \<Longrightarrow> s \<le> i \<Longrightarrow> take s (take i es @ e # r) = take s es"
  "i \<le> length es \<Longrightarrow> s \<le> i \<Longrightarrow> drop s (take i es @ e # r) = take (i - s) (drop s es) @ e # r"
  by (simp_all add: drop_take)

lemma splitLeaf_fill_lnode:
  assumes node: "lnode node es" and fresh: "lnode n1 []" "lnode n2 []"
    and i: "unat insertIdx = i" "i < length es \<or> \<not> replacing \<and> i = length es"
    and s: "unat splitIdx = s" "0 < s" "s < length new"
    and k: "length k \<le> maxKeySize" and ov: "(ov = 0) = (5 + length k + length v \<le> maxInlineSize)"
    and new: "new = put_entry replacing i (entry_of k v ov) es"
    and fits: "5 + lcost (take s new) \<le> 4096" "5 + lcost (drop s new) \<le> 4096"
  shows "\<exists>d1 d2. splitLeaf_fill node n1 n2 insertIdx splitIdx k v ov replacing = Some (d1, d2, fst (new ! s)) \<and>
    lnode d1 (take s new) \<and> lnode d2 (drop s new)"
proof -
  let ?n = "of_nat (length es) :: u16"
  note le = lnode_length [OF node] and n = lnode_reads(2) [OF node]
  have il: "i \<le> length es" using i(2) by auto
  have ln: "length new = (if replacing then length es else Suc (length es))"
    using length_put_entry [OF i(2)] new by simp
  have sl: "s \<le> length es" using s(3) ln by (simp split: if_splits)
  have sep: "key d2 0 = Some (fst (new ! s))" if "lnode d2 (drop s new)" for d2
    using lnode_cell(1) [OF that, of 0 0] s(3) by simp
  show ?thesis
  proof (cases "i < s")
    case True
    then have lt: "insertIdx < splitIdx" using i(1) s(1) by (simp add: word_less_nat_alt)
    have u: "unat (splitIdx - insertIdx - 1) = s - Suc i" "unat (?n - splitIdx) = length es - s"
      "unat (splitIdx - 1) = s - 1" "unat (?n - (splitIdx - 1)) = length es - (s - 1)" "unat (insertIdx + 1) = Suc i"
      using i(1) s(1,2) sl le il True by (simp_all add: u16_simps)
    let ?r = "drop (if replacing then Suc i else i) es"
    have L: "take s new = take i es @ entry_of k v ov # take (s - Suc i) ?r" "drop s new = drop (s - Suc i) ?r"
      using take_put_left [OF il True] new by (simp_all add: put_entry_def)
    have f1: "5 + lcost (take i es) + (length (leaf_cell k v ov) + 2) + lcost (take (s - Suc i) ?r) \<le> 4096"
      using fits(1) unfolding L(1) by simp
    obtain d1 where d1: "copyRange n1 node 0 insertIdx = Some d1" "lnode d1 (take i es)"
      using copyRange_lnode [OF fresh(1) node, of 0 0 insertIdx i] i(1) il f1 by auto
    obtain d2 where d2: "appendLeafCellWithOverflow d1 k v ov = Some d2" "lnode d2 (take i es @ [entry_of k v ov])"
      using appendLeafCell_lnode [OF d1(2) k ov] f1 by auto
    have s1: "s - Suc 0 \<le> length es" using sl by simp
    obtain d3 where d3: "copyRange d2 node (if replacing then insertIdx + 1 else insertIdx) (splitIdx - insertIdx - 1) = Some d3"
      "lnode d3 (take s new)"
      using copyRange_lnode [OF d2(2) node, of "if replacing then insertIdx + 1 else insertIdx" "if replacing then Suc i else i"
          "splitIdx - insertIdx - 1" "s - Suc i"] u i s(3) s1 ln f1 True unfolding L(1) by (cases replacing) auto
    have "drop (s - Suc i) ?r = drop (if replacing then s else s - 1) es" using True by (simp add: add.commute)
    then obtain d4 where d4: "copyRange n2 node (if replacing then splitIdx else splitIdx - 1)
        (if replacing then ?n - splitIdx else ?n - (splitIdx - 1)) = Some d4" "lnode d4 (drop s new)"
      using copyRange_lnode [OF fresh(2) node, of "if replacing then splitIdx else splitIdx - 1" "if replacing then s else s - 1"
          "if replacing then ?n - splitIdx else ?n - (splitIdx - 1)" "if replacing then length es - s else length es - (s - 1)"]
        u s(1) sl fits(2) unfolding L(2) by (cases replacing) auto
    show ?thesis
      using d1 d2 d3 d4 lt n sep [OF d4(2)] by (cases replacing) (simp_all add: splitLeaf_fill_def)
  next
    case False
    then have ge: "\<not> insertIdx < splitIdx" and si: "s \<le> i" using i(1) s(1) by (simp_all add: word_less_nat_alt)
    have u: "unat (insertIdx - splitIdx) = i - s" "unat (?n - insertIdx) = length es - i"
      using i(1) s(1) sl le il si by (simp_all add: u16_simps)
    have u2: "unat (insertIdx + 1) = Suc i" "unat (?n - insertIdx - 1) = length es - Suc i" if replacing
      using that i le by (simp_all add: u16_simps)
    let ?r = "drop (if replacing then Suc i else i) es"
    have L: "take s new = take s es" "drop s new = take (i - s) (drop s es) @ entry_of k v ov # ?r"
      using take_put_right [OF il si] new by (simp_all add: put_entry_def)
    have f2: "5 + lcost (take (i - s) (drop s es)) + (length (leaf_cell k v ov) + 2) + lcost ?r \<le> 4096"
      using fits(2) unfolding L(2) by simp
    obtain d1 where d1: "copyRange n1 node 0 splitIdx = Some d1" "lnode d1 (take s new)"
      using copyRange_lnode [OF fresh(1) node, of 0 0 splitIdx s] s(1) sl fits(1) unfolding L(1) by auto
    obtain d2 where d2: "copyRange n2 node splitIdx (insertIdx - splitIdx) = Some d2" "lnode d2 (take (i - s) (drop s es))"
      using copyRange_lnode [OF fresh(2) node, of splitIdx s "insertIdx - splitIdx" "i - s"] s(1) u il si f2 by auto
    obtain d3 where d3: "appendLeafCellWithOverflow d2 k v ov = Some d3" "lnode d3 (take (i - s) (drop s es) @ [entry_of k v ov])"
      using appendLeafCell_lnode [OF d2(2) k ov] f2 by auto
    have ne: "replacing \<longrightarrow> Suc (length es - Suc 0) \<le> length es" using i by auto
    obtain d4 where d4: "copyRange d3 node (if replacing then insertIdx + 1 else insertIdx)
        (if replacing then ?n - insertIdx - 1 else ?n - insertIdx) = Some d4" "lnode d4 (drop s new)"
      using copyRange_lnode [OF d3(2) node, of "if replacing then insertIdx + 1 else insertIdx" "if replacing then Suc i else i"
          "if replacing then ?n - insertIdx - 1 else ?n - insertIdx" "if replacing then length es - Suc i else length es - i"]
        u u2 i f2 ne unfolding L(2) by (cases replacing) auto
    show ?thesis
      using d1 d2 d3 d4 ge n sep [OF d4(2)] by (cases replacing) (simp_all add: splitLeaf_fill_def)
  qed
qed

section \<open>Internal splits keep every child and separator\<close>

text \<open>The children of an internal node after child \<open>i\<close> split into \<open>a\<close>, \<open>k\<close>, \<open>b\<close>: its pairs and its
  rightmost child.\<close>

definition put_split :: "nat \<Rightarrow> 'a \<Rightarrow> bytes \<Rightarrow> 'a \<Rightarrow> ('a \<times> bytes) list \<Rightarrow> ('a \<times> bytes) list" where
  "put_split i a k b cks =
     (if i < length cks then take i cks @ (a, k) # (b, snd (cks ! i)) # drop (Suc i) cks else cks @ [(a, k)])"

definition put_split_last :: "nat \<Rightarrow> 'a \<Rightarrow> ('a \<times> bytes) list \<Rightarrow> 'a \<Rightarrow> 'a" where
  "put_split_last i b cks r = (if i < length cks then r else b)"

lemma length_put_split [simp]: "i \<le> length cks \<Longrightarrow> length (put_split i a k b cks) = Suc (length cks)"
  by (auto simp: put_split_def)

lemma snd_put_split:
  assumes "i \<le> length cks" "j \<le> length cks"
  shows "snd (put_split i a k b cks ! j) = (if j = i then k else snd (cks ! (if i < j then j - 1 else j)))"
proof (cases "i < length cks")
  case True
  have "Suc (j - 2) = j - Suc 0" if "\<not> j \<le> Suc i" using that by simp
  moreover have "j - Suc 0 = i" if "j \<le> Suc i" "\<not> j < i" "j \<noteq> i" using that by simp
  ultimately show ?thesis using assms True
    by (auto simp: put_split_def nth_append nth_Cons' min_def)
next
  case False
  then show ?thesis using assms by (auto simp: put_split_def nth_append)
qed

lemma icost_put_split:
  assumes "i \<le> length cks"
  shows "icost (put_split i a k b cks) = icost cks + (12 + length k)"
proof (cases "i < length cks")
  case True
  then have "icost cks = icost (take i cks) + (12 + length (snd (cks ! i)) + icost (drop (Suc i) cks))"
    using icost_take_drop [of i cks] by (metis Cons_nth_drop_Suc icost_simps(2))
  then show ?thesis using True by (simp add: put_split_def)
qed (simp add: put_split_def)

lemma icost_csum: "icost cks = csum (map (\<lambda>ck. 10 + length (snd ck)) cks)"
  by (induction cks) auto

lemma put_split_keys:
  assumes "inode d cks r" "length k \<le> maxKeySize" "i \<le> length cks"
    and "ck \<in> set (put_split i a k b cks)"
  shows "length (snd ck) \<le> 1008"
proof -
  have "ck \<in> set cks \<or> snd ck = k \<or> i < length cks \<and> snd ck = snd (cks ! i)"
    using assms(4) by (auto simp: put_split_def split: if_splits dest: in_set_takeD in_set_dropD)
  then show ?thesis
    using inode_keys [OF assms(1), of ck] inode_key_nth [OF assms(1), of i] assms(2) by (auto simp: maxKeySize_def)
qed

lemma splitInternal_index_halves:
  assumes node: "inode node cks r" and i: "unat childIdx = i" "i \<le> length cks"
    and k: "length k \<le> maxKeySize" and full: "4096 < 13 + icost cks + (12 + length k)"
    and new: "new = put_split i a k b cks"
  obtains s where "splitInternal_index node childIdx k = Some (of_nat s)" "0 < s" "Suc s < length new"
    "13 + icost (take s new) \<le> 4096" "13 + icost (drop (Suc s) new) \<le> 4096"
proof -
  let ?zs = "map (\<lambda>ck. 10 + length (snd ck)) new" and ?t = "icost new div 2"
  note ll = inode_length [OF node]
  have ln: "length new = Suc (length cks)" using i(2) new by simp
  have kb: "length (snd (new ! j)) \<le> 1008" if "j < length new" for j
    using put_split_keys [OF node k i(2), of "new ! j" a b] nth_mem [OF that] new by simp
  have tot: "icost new = icost cks + (12 + length k)" using icost_put_split [OF i(2)] new by simp
  have tb: "icost new \<le> 5103" "4084 \<le> icost new" using tot inode_fits [OF node] k full by (auto simp: maxKeySize_def)
  have zs: "(if of_nat j < childIdx then internalCellSizeAt node (of_nat j)
      else if of_nat j = childIdx then Some (of_nat (10 + length k))
      else if of_nat j = childIdx + 1 \<and> childIdx < of_nat (length cks) then internalCellSizeAt node childIdx
      else internalCellSizeAt node (of_nat j - 1)) = Some (of_nat (?zs ! j))" if j: "j < length ?zs" for j
  proof -
    have uj: "unat (of_nat j :: u16) = j" "unat (of_nat (length cks) :: u16) = length cks" "unat (childIdx + 1) = Suc i"
      using j ln ll i by (simp_all add: u16_simps)
    have eq: "(of_nat j = childIdx) = (j = i)" "(of_nat j < childIdx) = (j < i)" "(of_nat j = childIdx + 1) = (j = Suc i)"
      "(childIdx < of_nat (length cks)) = (i < length cks)"
      using uj i(1) by (auto simp: word_unat_eq_iff word_less_nat_alt)
    have u1: "unat (of_nat j - 1 :: u16) = j - 1" if "i < j" using that uj by (simp add: u16_simps)
    have jl: "j \<le> length cks" using j ln by simp
    show ?thesis
      using j ln uj u1 i snd_put_split [OF i(2) jl, of a k b] inode_cell(4) [OF node]
      by (auto simp: eq new nth_Cons' split: if_splits)
  qed
  have ut: "unat (of_nat (icost new) div 2 :: u16) = ?t" using tb by (intro u16_half) simp
  have pos: "?t < csum ?zs" "csum ?zs < 65536" using icost_csum [of new] tb by auto
  obtain j where j: "internalSplitIndex_loop node childIdx (of_nat (length cks)) (of_nat (10 + length k)) (of_nat (icost new) div 2) (length ?zs) 0 0 = Some (of_nat j + 0)"
    "j < length ?zs" "csum (take j ?zs) \<le> ?t" "?t < csum (take (Suc j) ?zs)"
    using internal_scan.scan_crosses [of ?zs childIdx node "of_nat (10 + length k)" "of_nat (length cks)" "of_nat (icost new) div 2"]
      zs pos unfolding ut by blast
  have lj: "icost (take j new) \<le> ?t" "?t < icost (take (Suc j) new)"
    using j(3,4) by (simp_all add: icost_csum take_map)
  have tj: "icost (take (Suc j) new) = icost (take j new) + (12 + length (snd (new ! j)))"
    using j(2) by (simp add: take_Suc_conv_app_nth)
  have dj: "icost (drop (Suc j) new) = icost new - icost (take (Suc j) new)"
    using icost_take_drop [of "Suc j" new] by linarith
  have "icost (drop (Suc j) new) > 0" using dj tj lj(1) kb [of j] j(2) tb(2) by simp
  then have sj: "Suc j < length new" by (metis drop_all icost_simps(1) not_le_imp_less order_less_irrefl)
  have "0 < j" using lj(2) kb [of 0] tb(2) j(2) by (cases j) (auto simp: take_Suc_conv_app_nth)
  moreover have "splitInternal_index node childIdx k = Some (of_nat j)"
  proof -
    have "(of_nat (icost cks - 2 * length cks) + of_nat (10 + length k) + of_nat (length cks) * 2 + 2 :: u16) = of_nat (icost new)"
      using tot icost_length [of cks] by (simp add: of_nat_diff)
    moreover have "unat (of_nat (length cks) + 1 :: u16) = length ?zs" "\<not> (of_nat j :: u16) \<ge> of_nat (length cks) + 1"
      using ln ll sj by (simp_all add: u16_simps)
    ultimately show ?thesis using j(1)
      by (simp add: splitInternal_index_def inode_reads [OF node] inode_free [OF node] internalCellSize_def
          internalSplitIndex_def Let_def)
  qed
  ultimately show thesis using that [of j] sj lj dj tb by simp
qed

lemma put_split_next:
  assumes "i < length cks"
  shows "take (Suc i) (put_split i a k b cks) = take i cks @ [(a, k)]"
    "put_split i a k b cks ! Suc i = (b, snd (cks ! i))"
    "drop (Suc (Suc i)) (put_split i a k b cks) = drop (Suc i) cks"
  using assms by (simp_all add: put_split_def nth_append min_def Suc_diff_le)

lemma put_split_after:
  fixes cks :: "('a \<times> bytes) list"
  assumes "Suc i < s" "s \<le> length cks"
  shows "take s (put_split i a k b cks) = take i cks @ (a, k) # (b, snd (cks ! i)) # take (s - i - 2) (drop (Suc i) cks)"
    "put_split i a k b cks ! s = cks ! (s - 1)" "drop (Suc s) (put_split i a k b cks) = drop s cks"
proof -
  obtain m where m: "s = Suc (Suc (i + m))" using assms(1) by (metis add_Suc less_natE)
  have "drop (3 + m) (x # y # zs) = drop (Suc m) zs" for x y and zs :: "('a \<times> bytes) list"
    by (simp add: numeral_3_eq_3)
  then show "take s (put_split i a k b cks) = take i cks @ (a, k) # (b, snd (cks ! i)) # take (s - i - 2) (drop (Suc i) cks)"
    "put_split i a k b cks ! s = cks ! (s - 1)" "drop (Suc s) (put_split i a k b cks) = drop s cks"
    using assms m by (simp_all add: put_split_def nth_append min_def add.commute)
qed

lemma put_split_same:
  assumes "i \<le> length cks"
  shows "take i (put_split i a k b cks) = take i cks" "put_split i a k b cks ! i = (a, k)"
    "drop (Suc i) (put_split i a k b cks) = (if i < length cks then (b, snd (cks ! i)) # drop (Suc i) cks else [])"
  using assms by (simp_all add: put_split_def nth_append min_def)

lemma put_split_before:
  assumes "s < i" "i \<le> length cks"
  shows "take s (put_split i a k b cks) = take s cks" "put_split i a k b cks ! s = cks ! s"
    "drop (Suc s) (put_split i a k b cks) = take (i - Suc s) (drop (Suc s) cks) @
       (a, k) # (if i < length cks then (b, snd (cks ! i)) # drop (Suc i) cks else [])"
  using assms by (simp_all add: put_split_def nth_append min_def drop_take)

text \<open>The copies that recur in the rebuilding of internal nodes: a prefix, everything after a
  separator, and the two pairs of a split child.\<close>

lemma inode_prefix:
  assumes "inode d [] r0" "inode node cks r" "unat a = i" "i \<le> length cks"
  shows "\<exists>d'. copyRange d node 0 a = Some d' \<and> inode d' (take i cks) r0"
  using copyRange_inode [OF assms(1,2), of 0 0 a i] assms(3,4) inode_fits [OF assms(2)] icost_take_le [of i cks] by auto

lemma inode_suffix:
  assumes "inode d xs r0" "inode node cks r" "unat a = i" "i < length cks" "13 + icost xs + icost (drop (Suc i) cks) \<le> 4096"
  shows "\<exists>d'. copyRange d node (a + 1) (of_nat (length cks) - a - 1) = Some d' \<and> inode d' (xs @ drop (Suc i) cks) r0"
proof -
  have "unat (a + 1) = Suc i" "unat (of_nat (length cks) - a - 1) = length cks - Suc i"
    using assms(3,4) inode_length [OF assms(2)] by (simp_all add: u16_simps)
  then show ?thesis using copyRange_inode [OF assms(1,2), of "a + 1" "Suc i" _ "length cks - Suc i"] assms(4,5) by simp
qed

lemma inode_pair:
  assumes "inode d xs r0" "inode node cks r" "unat ci = i" "i < length cks" "length k \<le> maxKeySize"
    "13 + icost xs + (12 + length k) + (12 + length (snd (cks ! i))) \<le> 4096"
  shows "\<exists>d1 d2. appendInternalCell d a k = Some d1 \<and> key node ci = Some (snd (cks ! i)) \<and>
    appendInternalCell d1 b (snd (cks ! i)) = Some d2 \<and> inode d2 (xs @ [(a, k), (b, snd (cks ! i))]) r0"
proof -
  have ki: "length (snd (cks ! i)) \<le> maxKeySize"
    using inode_key_nth [OF assms(2,4)] by (simp add: maxKeySize_def)
  obtain d1 where d1: "appendInternalCell d a k = Some d1" "inode d1 (xs @ [(a, k)]) r0"
    using appendInternalCell_inode [OF assms(1,5)] assms(6) by auto
  obtain d2 where "appendInternalCell d1 b (snd (cks ! i)) = Some d2" "inode d2 ((xs @ [(a, k)]) @ [(b, snd (cks ! i))]) r0"
    using appendInternalCell_inode [OF d1(2) ki, of b] assms(6) by auto
  then show ?thesis using d1(1) inode_cell(1) [OF assms(2-4)] by auto
qed

text \<open>\<open>applyChildSplitToInternal\<close>: room for one more separator is enough.\<close>

lemma applyChildSplit_inode:
  assumes node: "inode node cks r" and fresh: "inode d [] r0" and i: "unat childIdx = i" "i \<le> length cks"
    and k: "length k \<le> maxKeySize" and room: "13 + icost cks + (12 + length k) \<le> 4096"
  shows "\<exists>d'. applyChildSplitToInternal_fill d node childIdx a k b = Some d' \<and>
    inode d' (put_split i a k b cks) (put_split_last i b cks r)"
proof (cases "i < length cks")
  case True
  then have lt: "childIdx < of_nat (length cks)" using i(1) inode_length [OF node] by (simp add: u16_simps)
  have c: "icost cks = icost (take i cks) + (12 + length (snd (cks ! i)) + icost (drop (Suc i) cks))"
    using icost_take_drop [of i cks] True by (metis Cons_nth_drop_Suc icost_simps(2))
  obtain d1 where d1: "copyRange d node 0 childIdx = Some d1" "inode d1 (take i cks) r0"
    using inode_prefix [OF fresh node i] by auto
  obtain d2 d3 where d3: "appendInternalCell d1 a k = Some d2" "key node childIdx = Some (snd (cks ! i))"
    "appendInternalCell d2 b (snd (cks ! i)) = Some d3" "inode d3 (take i cks @ [(a, k), (b, snd (cks ! i))]) r0"
    using inode_pair [OF d1(2) node i(1) True k, of a b] c room by auto
  obtain d4 where d4: "copyRange d3 node (childIdx + 1) (of_nat (length cks) - childIdx - 1) = Some d4"
    "inode d4 ((take i cks @ [(a, k), (b, snd (cks ! i))]) @ drop (Suc i) cks) r0"
    using inode_suffix [OF d3(4) node i(1) True] c room by auto
  obtain d5 where "setRightmostChild d4 r = Some d5" "inode d5 ((take i cks @ [(a, k), (b, snd (cks ! i))]) @ drop (Suc i) cks) r"
    using setRightmostChild_inode [OF d4(2)] by auto
  then show ?thesis using d1 d3 d4 lt True
    by (simp add: applyChildSplitToInternal_fill_def inode_reads [OF node] put_split_def put_split_last_def)
next
  case False
  then have il: "i = length cks" using i(2) by simp
  then have ge: "\<not> childIdx < of_nat (length cks)" and un: "unat (of_nat (length cks) :: u16) = length cks"
    using i(1) inode_length [OF node] by (simp_all add: u16_simps)
  obtain d1 where d1: "copyRange d node 0 (of_nat (length cks)) = Some d1" "inode d1 cks r0"
    using inode_prefix [OF fresh node un] by auto
  obtain d2 where d2: "appendInternalCell d1 a k = Some d2" "inode d2 (cks @ [(a, k)]) r0"
    using appendInternalCell_inode [OF d1(2) k room] by auto
  obtain d3 where "setRightmostChild d2 b = Some d3" "inode d3 (cks @ [(a, k)]) b"
    using setRightmostChild_inode [OF d2(2)] by auto
  then show ?thesis using d1 d2 ge il
    by (simp add: applyChildSplitToInternal_fill_def inode_reads [OF node] put_split_def put_split_last_def)
qed

text \<open>The four cases of \<open>splitInternal\<close>. In each, the first page gets the pairs before position \<open>s\<close>
  of the new list with the child at \<open>s\<close> as rightmost child, the separator at \<open>s\<close> goes up, and the
  second page gets the rest.\<close>

definition split_at :: "(PageId \<times> bytes) list \<Rightarrow> PageId \<Rightarrow> nat \<Rightarrow> (bytes \<times> bytes \<times> bytes) option \<Rightarrow> bool" where
  "split_at new r s res \<longleftrightarrow>
     (\<exists>d1 d2. res = Some (d1, d2, snd (new ! s)) \<and> inode d1 (take s new) (fst (new ! s)) \<and> inode d2 (drop (Suc s) new) r)"

lemma splitInternal_next:
  assumes node: "inode node cks r" and fresh: "inode n1 [] r1" "inode n2 [] r2"
    and i: "unat childIdx = i" "i < length cks" and s: "splitIdx = childIdx + 1"
    and k: "length k \<le> maxKeySize" and fits: "13 + icost (take (Suc i) (put_split i a k b cks)) \<le> 4096"
  shows "split_at (put_split i a k b cks) r (Suc i) (splitInternal_fill node n1 n2 childIdx splitIdx a k b)"
proof -
  note L = put_split_next [OF i(2), of a k b]
  obtain d1 where d1: "copyRange n1 node 0 childIdx = Some d1" "inode d1 (take i cks) r1"
    using inode_prefix [OF fresh(1) node i(1)] i(2) by auto
  obtain d2 where d2: "appendInternalCell d1 a k = Some d2" "inode d2 (take i cks @ [(a, k)]) r1"
    using appendInternalCell_inode [OF d1(2) k] fits unfolding L(1) by auto
  obtain d3 where d3: "setRightmostChild d2 b = Some d3" "inode d3 (take i cks @ [(a, k)]) b"
    using setRightmostChild_inode [OF d2(2)] by auto
  have "13 + icost [] + icost (drop (Suc i) cks) \<le> 4096"
    using icost_take_drop [of "Suc i" cks] inode_fits [OF node] by simp
  then obtain d4 where d4: "copyRange n2 node (childIdx + 1) (of_nat (length cks) - childIdx - 1) = Some d4" "inode d4 (drop (Suc i) cks) r2"
    using inode_suffix [OF fresh(2) node i] by auto
  obtain d5 where "setRightmostChild d4 r = Some d5" "inode d5 (drop (Suc i) cks) r"
    using setRightmostChild_inode [OF d4(2)] by auto
  then show ?thesis using d1 d2 d3 d4 s inode_cell(1) [OF node i]
    unfolding split_at_def L by (simp add: splitInternal_fill_def inode_reads [OF node])
qed

lemma splitInternal_after:
  assumes node: "inode node cks r" and fresh: "inode n1 [] r1" "inode n2 [] r2"
    and i: "unat childIdx = i" and s: "unat splitIdx = s" "Suc i < s" "s \<le> length cks"
    and k: "length k \<le> maxKeySize" and fits: "13 + icost (take s (put_split i a k b cks)) \<le> 4096"
  shows "split_at (put_split i a k b cks) r s (splitInternal_fill node n1 n2 childIdx splitIdx a k b)"
proof -
  note L = put_split_after [OF s(2,3), of a k b]
  let ?pair = "[(a, k), (b, snd (cks ! i))]"
  have il: "i < length cks" using s by simp
  have u: "unat (splitIdx - childIdx - 2) = s - i - 2" "unat (splitIdx - 1) = s - 1" "unat (childIdx + 1) = Suc i"
    "unat (of_nat (length cks) - splitIdx) = length cks - s"
    using i s inode_length [OF node] by (simp_all add: u16_simps)
  have cond: "splitIdx \<noteq> childIdx + 1" "childIdx < splitIdx"
    using i s u(3) by (auto simp: word_less_nat_alt)
  have f: "13 + icost (take i cks @ ?pair) + icost (take (s - i - 2) (drop (Suc i) cks)) \<le> 4096"
    using fits unfolding L(1) by simp
  obtain d1 where d1: "copyRange n1 node 0 childIdx = Some d1" "inode d1 (take i cks) r1"
    using inode_prefix [OF fresh(1) node i] il by auto
  obtain d2 d3 where d3: "appendInternalCell d1 a k = Some d2" "key node childIdx = Some (snd (cks ! i))"
    "appendInternalCell d2 b (snd (cks ! i)) = Some d3" "inode d3 (take i cks @ ?pair) r1"
    using inode_pair [OF d1(2) node i il k, of a b] f by auto
  obtain d4 where d4: "copyRange d3 node (childIdx + 1) (splitIdx - childIdx - 2) = Some d4"
    "inode d4 ((take i cks @ ?pair) @ take (s - i - 2) (drop (Suc i) cks)) r1"
  proof -
    have "Suc i + (s - i - 2) \<le> length cks" using s by linarith
    from copyRange_inode [OF d3(4) node u(3,1) this f] show ?thesis using that by blast
  qed
  obtain d5 where d5: "setRightmostChild d4 (fst (cks ! (s - 1))) = Some d5"
    "inode d5 ((take i cks @ ?pair) @ take (s - i - 2) (drop (Suc i) cks)) (fst (cks ! (s - 1)))"
    using setRightmostChild_inode [OF d4(2)] by blast
  obtain d6 where d6: "copyRange n2 node splitIdx (of_nat (length cks) - splitIdx) = Some d6" "inode d6 (drop s cks) r2"
    using copyRange_inode [OF fresh(2) node s(1) u(4)] s(3) icost_take_drop [of s cks] inode_fits [OF node] by auto
  obtain d7 where d7: "setRightmostChild d6 r = Some d7" "inode d7 (drop s cks) r"
    using setRightmostChild_inode [OF d6(2)] by auto
  have "s - 1 < length cks" using s by simp
  note cell = inode_cell(1,2) [OF node u(2) this]
  have "splitInternal_fill node n1 n2 childIdx splitIdx a k b = Some (d5, d7, snd (cks ! (s - 1)))"
    using d1 d3 d4(1) d5(1) d6(1) d7(1) cell cond by (simp add: splitInternal_fill_def inode_reads [OF node])
  then show ?thesis unfolding split_at_def L using d5(2) d7(2) by simp
qed

lemma splitInternal_same:
  assumes node: "inode node cks r" and fresh: "inode n1 [] r1" "inode n2 [] r2"
    and i: "unat childIdx = i" "i \<le> length cks" and s: "splitIdx = childIdx"
  shows "split_at (put_split i a k b cks) (put_split_last i b cks r) i (splitInternal_fill node n1 n2 childIdx splitIdx a k b)"
proof -
  note L = put_split_same [OF i(2), of a k b]
  have ne: "childIdx \<noteq> childIdx + 1" by simp
  obtain d1 where d1: "copyRange n1 node 0 childIdx = Some d1" "inode d1 (take i cks) r1"
    using inode_prefix [OF fresh(1) node i] by auto
  obtain d2 where d2: "setRightmostChild d1 a = Some d2" "inode d2 (take i cks) a"
    using setRightmostChild_inode [OF d1(2)] by auto
  show ?thesis
  proof (cases "i < length cks")
    case True
    have lt: "childIdx < of_nat (length cks)" using True i inode_length [OF node] by (simp add: u16_simps)
    have c: "12 + length (snd (cks ! i)) + icost (drop (Suc i) cks) \<le> icost cks"
      using icost_take_drop [of i cks] True by (metis Cons_nth_drop_Suc icost_simps(2) le_add2)
    have ki: "length (snd (cks ! i)) \<le> maxKeySize" using inode_key_nth [OF node True] by (simp add: maxKeySize_def)
    obtain d3 where d3: "appendInternalCell n2 b (snd (cks ! i)) = Some d3" "inode d3 [(b, snd (cks ! i))] r2"
      using appendInternalCell_inode [OF fresh(2) ki, of b] c inode_fits [OF node] by auto
    obtain d4 where d4: "copyRange d3 node (childIdx + 1) (of_nat (length cks) - childIdx - 1) = Some d4"
      "inode d4 ([(b, snd (cks ! i))] @ drop (Suc i) cks) r2"
      using inode_suffix [OF d3(2) node i(1) True] c inode_fits [OF node] by auto
    obtain d5 where d5: "setRightmostChild d4 r = Some d5" "inode d5 ([(b, snd (cks ! i))] @ drop (Suc i) cks) r"
      using setRightmostChild_inode [OF d4(2)] by auto
    have "splitInternal_fill node n1 n2 childIdx splitIdx a k b = Some (d2, d5, k)"
      using d1 d2(1) d3(1) d4(1) d5(1) lt s ne inode_cell(1) [OF node i(1) True]
      by (simp add: splitInternal_fill_def inode_reads [OF node])
    then show ?thesis unfolding split_at_def L using d2(2) d5(2) True by (simp add: put_split_last_def)
  next
    case False
    then have ge: "\<not> childIdx < of_nat (length cks)" using i inode_length [OF node] by (simp add: u16_simps)
    obtain d3 where d3: "setRightmostChild n2 b = Some d3" "inode d3 [] b"
      using setRightmostChild_inode [OF fresh(2)] by auto
    have "splitInternal_fill node n1 n2 childIdx splitIdx a k b = Some (d2, d3, k)"
      using d1 d2(1) d3(1) ge s ne by (simp add: splitInternal_fill_def inode_reads [OF node])
    then show ?thesis unfolding split_at_def L using d2(2) d3(2) False by (simp add: put_split_last_def)
  qed
qed

lemma splitInternal_before:
  assumes node: "inode node cks r" and fresh: "inode n1 [] r1" "inode n2 [] r2"
    and i: "unat childIdx = i" "i \<le> length cks" and s: "unat splitIdx = s" "s < i"
    and k: "length k \<le> maxKeySize" and fits: "13 + icost (drop (Suc s) (put_split i a k b cks)) \<le> 4096"
  shows "split_at (put_split i a k b cks) (put_split_last i b cks r) s (splitInternal_fill node n1 n2 childIdx splitIdx a k b)"
proof -
  note L = put_split_before [OF s(2) i(2), of a k b]
  let ?xs = "take (i - Suc s) (drop (Suc s) cks)"
  have sl: "s < length cks" using s i by simp
  have "unat (childIdx + 1) = Suc i" using i inode_length [OF node] by (simp add: u16_simps)
  then have cond: "splitIdx \<noteq> childIdx + 1" "\<not> childIdx < splitIdx" "childIdx \<noteq> splitIdx"
    using i s by (auto simp: word_less_nat_alt)
  have u: "unat (splitIdx + 1) = Suc s" "unat (childIdx - splitIdx - 1) = i - Suc s"
    using i s inode_length [OF node] by (simp_all add: u16_simps)
  have f: "13 + icost ?xs + (12 + length k) + icost (if i < length cks then (b, snd (cks ! i)) # drop (Suc i) cks else []) \<le> 4096"
    using fits unfolding L(3) by simp
  obtain d1 where d1: "copyRange n1 node 0 splitIdx = Some d1" "inode d1 (take s cks) r1"
    using inode_prefix [OF fresh(1) node s(1)] sl by auto
  obtain d2 where d2: "setRightmostChild d1 (fst (cks ! s)) = Some d2" "inode d2 (take s cks) (fst (cks ! s))"
    using setRightmostChild_inode [OF d1(2)] by blast
  obtain d3 where d3: "copyRange n2 node (splitIdx + 1) (childIdx - splitIdx - 1) = Some d3" "inode d3 ?xs r2"
    using copyRange_inode [OF fresh(2) node u] i s f by auto
  note cell = inode_cell(1,2) [OF node s(1) sl]
  show ?thesis
  proof (cases "i < length cks")
    case True
    have lt: "childIdx < of_nat (length cks)" using True i inode_length [OF node] by (simp add: u16_simps)
    obtain d4 d5 where d5: "appendInternalCell d3 a k = Some d4" "key node childIdx = Some (snd (cks ! i))"
      "appendInternalCell d4 b (snd (cks ! i)) = Some d5" "inode d5 (?xs @ [(a, k), (b, snd (cks ! i))]) r2"
      using inode_pair [OF d3(2) node i(1) True k, of a b] f True by auto
    obtain d6 where d6: "copyRange d5 node (childIdx + 1) (of_nat (length cks) - childIdx - 1) = Some d6"
      "inode d6 ((?xs @ [(a, k), (b, snd (cks ! i))]) @ drop (Suc i) cks) r2"
      using inode_suffix [OF d5(4) node i(1) True] f True by auto
    obtain d7 where d7: "setRightmostChild d6 r = Some d7" "inode d7 ((?xs @ [(a, k), (b, snd (cks ! i))]) @ drop (Suc i) cks) r"
      using setRightmostChild_inode [OF d6(2)] by auto
    have "splitInternal_fill node n1 n2 childIdx splitIdx a k b = Some (d2, d7, snd (cks ! s))"
      using d1 d2(1) d3(1) d5 d6(1) d7(1) lt cond cell by (simp add: splitInternal_fill_def inode_reads [OF node])
    then show ?thesis unfolding split_at_def L using d2(2) d7(2) True by (simp add: put_split_last_def)
  next
    case False
    then have ge: "\<not> childIdx < of_nat (length cks)" using i inode_length [OF node] by (simp add: u16_simps)
    obtain d4 where d4: "appendInternalCell d3 a k = Some d4" "inode d4 (?xs @ [(a, k)]) r2"
      using appendInternalCell_inode [OF d3(2) k, of a] f by auto
    obtain d5 where d5: "setRightmostChild d4 b = Some d5" "inode d5 (?xs @ [(a, k)]) b"
      using setRightmostChild_inode [OF d4(2)] by auto
    have "splitInternal_fill node n1 n2 childIdx splitIdx a k b = Some (d2, d5, snd (cks ! s))"
      using d1 d2(1) d3(1) d4(1) d5(1) ge cond cell by (simp add: splitInternal_fill_def inode_reads [OF node])
    then show ?thesis unfolding split_at_def L using d2(2) d5(2) False by (simp add: put_split_last_def)
  qed
qed

lemma splitInternal_fill_inode:
  assumes node: "inode node cks r" and fresh: "inode n1 [] r1" "inode n2 [] r2"
    and i: "unat childIdx = i" "i \<le> length cks" and s: "unat splitIdx = s" "s \<le> length cks"
    and k: "length k \<le> maxKeySize" and new: "new = put_split i a k b cks"
    and fits: "13 + icost (take s new) \<le> 4096" "13 + icost (drop (Suc s) new) \<le> 4096"
  shows "split_at new (put_split_last i b cks r) s (splitInternal_fill node n1 n2 childIdx splitIdx a k b)"
proof -
  have last: "put_split_last i b cks r = r" if "i < length cks" using that by (simp add: put_split_last_def)
  consider "s = Suc i" | "Suc i < s" | "s = i" | "s < i" by linarith
  then show ?thesis
  proof cases
    case 1
    have "unat (childIdx + 1) = s" using 1 i s inode_length [OF node] by (simp add: u16_simps)
    then have "splitIdx = childIdx + 1" using s(1) by (simp add: word_unat_eq_iff)
    then show ?thesis using splitInternal_next [OF node fresh i(1) _ _ k] 1 s fits(1) last new by simp
  next
    case 2
    then show ?thesis using splitInternal_after [OF node fresh i(1) s(1) _ s(2) k] fits(1) last s(2) new by simp
  next
    case 3
    then have "splitIdx = childIdx" using i(1) s(1) by (simp add: word_unat_eq_iff)
    then show ?thesis using splitInternal_same [OF node fresh i] 3 new by simp
  next
    case 4
    then show ?thesis using splitInternal_before [OF node fresh i s(1) _ k] fits(2) new by simp
  qed
qed

end
