(* ===== verification/Update.thy ===== *)
theory Update
  imports BTree Split
begin

text \<open>
  Insertion and replacement: \<^verbatim>\<open>src/update.go\<close>. The tree is copied on write: a node that changes is
  rebuilt in a fresh page and its parent is rebuilt to point to it. The result of the recursion is
  \<open>None\<close> when nothing changed (Go's \<open>nil\<close> node), or the new node, with the second node and the
  separator when it was split.
\<close>

datatype Mode = ModeUpsert | ModeInsert | ModeUpdate

type_synonym rebuilt = "(nat \<times> (nat \<times> bytes) option) option"

definition put_node :: "nat \<Rightarrow> bytes \<Rightarrow> world \<Rightarrow> world" where
  "put_node f d w = w\<lparr>db := put_data f d (db w)\<rparr>"

section \<open>Leaves\<close>

definition appendLeafCell :: "env \<Rightarrow> nat \<Rightarrow> bytes \<Rightarrow> bytes \<Rightarrow> world \<Rightarrow> (unit, world) outcome" where
  "appendLeafCell env f k v w =
     try_ok (leafCellOverflow env k v w) (\<lambda>overflowID w. do {
       w \<leftarrow> modify f (\<lambda>d. appendLeafCellWithOverflow d k v overflowID) w;
       Some (Inr (), w)
     })"

definition splitLeaf :: "env \<Rightarrow> nat \<Rightarrow> u16 \<Rightarrow> bytes \<Rightarrow> bytes \<Rightarrow> bool \<Rightarrow> world \<Rightarrow> (nat \<times> nat \<times> bytes, world) outcome" where
  "splitLeaf env f insertIdx k v replacing w = do {
     splitIdx \<leftarrow> splitLeaf_index (node_data w f) insertIdx k v replacing;
     try_ok (leafCellOverflow env k v w) (\<lambda>overflowID w.
     try_ok (allocLeaf env w) (\<lambda>f1 w.
     try_or (allocLeaf env w) (\<lambda>w. do { w \<leftarrow> free_page (Id w f1) w; node_unpin f1 w }) (\<lambda>f2 w. do {
       (d1, d2, sepKey) \<leftarrow> splitLeaf_fill (node_data w f) (node_data w f1) (node_data w f2) insertIdx splitIdx
                            k v overflowID replacing;
       Some (Inr (f1, f2, sepKey), put_node f2 d2 (put_node f1 d1 w))
     })))
   }"

definition split_rebuilt :: "(nat \<times> nat \<times> bytes, world) outcome \<Rightarrow> (rebuilt, world) outcome" where
  "split_rebuilt m = try_ok m (\<lambda>(f1, f2, sepKey) w. Some (Inr (Some (f1, Some (f2, sepKey))), w))"

text \<open>The fresh copy of a leaf with the new cell at \<open>idx\<close>, continued from the old cell \<open>from\<close>.\<close>

definition rebuildLeaf :: "env \<Rightarrow> nat \<Rightarrow> u16 \<Rightarrow> u16 \<Rightarrow> bytes \<Rightarrow> bytes \<Rightarrow> world \<Rightarrow> (rebuilt, world) outcome" where
  "rebuildLeaf env f idx from k v w =
     try_ok (allocLeaf env w) (\<lambda>g w. do {
       w \<leftarrow> modify g (\<lambda>d. copyRange d (node_data w f) 0 idx) w;
       try_or (appendLeafCell env g k v w) (node_unpin g) (\<lambda>_ w. do {
         n \<leftarrow> nCells (node_data w f);
         w \<leftarrow> modify g (\<lambda>d. copyRange d (node_data w f) from (n - from)) w;
         Some (Inr (Some (g, None)), w)
       })
     })"

definition replaceLeafValue :: "env \<Rightarrow> nat \<Rightarrow> u16 \<Rightarrow> bytes \<Rightarrow> bytes \<Rightarrow> Mode \<Rightarrow> world \<Rightarrow> (rebuilt, world) outcome" where
  "replaceLeafValue env f idx k v mode w =
     (if mode = ModeInsert then Some (Inl ErrKeyExists, w)
      else try_ok (leafValue env f idx w) (\<lambda>existing w.
        if existing = v then Some (Inr None, w)
        else do {
          oldOv \<leftarrow> leafCellOverflowId (node_data w f) idx;
          try_ok (if oldOv \<noteq> 0 then freeOverflowPages env oldOv w else Some (Inr (), w)) (\<lambda>_ w. do {
            oldCellSize \<leftarrow> cellSize (node_data w f) idx;
            let newCellSize = leafCellSize k v;
            let needed = (if newCellSize > oldCellSize then newCellSize - oldCellSize else 0);
            free \<leftarrow> freeSpace (node_data w f);
            if needed > free then split_rebuilt (splitLeaf env f idx k v True w)
            else rebuildLeaf env f idx (idx + 1) k v w
          })
        }))"

definition addLeafValue :: "env \<Rightarrow> nat \<Rightarrow> u16 \<Rightarrow> bytes \<Rightarrow> bytes \<Rightarrow> Mode \<Rightarrow> world \<Rightarrow> (rebuilt, world) outcome" where
  "addLeafValue env f idx k v mode w =
     (if mode = ModeUpdate then Some (Inl ErrKeyNotFound, w)
      else do {
        let newCellSize = leafCellSize k v;
        free \<leftarrow> freeSpace (node_data w f);
        if newCellSize + 2 > free then split_rebuilt (splitLeaf env f idx k v False w)
        else rebuildLeaf env f idx idx k v w
      })"

definition updateLeaf :: "env \<Rightarrow> nat \<Rightarrow> bytes \<Rightarrow> bytes \<Rightarrow> Mode \<Rightarrow> world \<Rightarrow> (rebuilt, world) outcome" where
  "updateLeaf env f k v mode w = do {
     (insertIdx, found) \<leftarrow> searchLeaf (node_data w f) k;
     if found then replaceLeafValue env f insertIdx k v mode w
     else addLeafValue env f insertIdx k v mode w
   }"

section \<open>Internal nodes\<close>

definition splitInternal :: "env \<Rightarrow> nat \<Rightarrow> u16 \<Rightarrow> PageId \<Rightarrow> bytes \<Rightarrow> PageId \<Rightarrow> world \<Rightarrow> (nat \<times> nat \<times> bytes, world) outcome" where
  "splitInternal env f childIdx newChild pushUpKey extraChild w = do {
     splitIdx \<leftarrow> splitInternal_index (node_data w f) childIdx pushUpKey;
     try_ok (allocInternal env w) (\<lambda>f1 w.
     try_or (allocInternal env w) (\<lambda>w. do { w \<leftarrow> free_page (Id w f1) w; node_unpin f1 w }) (\<lambda>f2 w. do {
       (d1, d2, sepKey) \<leftarrow> splitInternal_fill (node_data w f) (node_data w f1) (node_data w f2) childIdx splitIdx
                            newChild pushUpKey extraChild;
       Some (Inr (f1, f2, sepKey), put_node f2 d2 (put_node f1 d1 w))
     }))
   }"

definition applyChildSplitToInternal :: "env \<Rightarrow> nat \<Rightarrow> u16 \<Rightarrow> PageId \<Rightarrow> bytes \<Rightarrow> PageId \<Rightarrow> world \<Rightarrow> (nat, world) outcome" where
  "applyChildSplitToInternal env f childIdx newChild pushUpKey extraChild w =
     try_ok (allocInternal env w) (\<lambda>g w. do {
       w \<leftarrow> modify g (\<lambda>d. applyChildSplitToInternal_fill d (node_data w f) childIdx newChild pushUpKey extraChild) w;
       Some (Inr g, w)
     })"

definition updateInternalAfterChildSplit :: "env \<Rightarrow> nat \<Rightarrow> u16 \<Rightarrow> nat \<Rightarrow> bytes \<Rightarrow> nat \<Rightarrow> world \<Rightarrow> (rebuilt, world) outcome" where
  "updateInternalAfterChildSplit env f childIdx newChild pushUpKey extraChild w = do {
     let newCellSize = internalCellSize pushUpKey;
     free \<leftarrow> freeSpace (node_data w f);
     (r, w) \<leftarrow>
       (if newCellSize + 2 > free
        then split_rebuilt (splitInternal env f childIdx (Id w newChild) pushUpKey (Id w extraChild) w)
        else try_ok (applyChildSplitToInternal env f childIdx (Id w newChild) pushUpKey (Id w extraChild) w)
               (\<lambda>g w. Some (Inr (Some (g, None)), w)));
     w \<leftarrow> node_unpin newChild w;
     w \<leftarrow> node_unpin extraChild w;
     Some (r, w)
   }"

definition replaceInternalChild :: "env \<Rightarrow> nat \<Rightarrow> u16 \<Rightarrow> nat \<Rightarrow> world \<Rightarrow> (rebuilt, world) outcome" where
  "replaceInternalChild env f childIdx newChild w =
     try_or (allocInternal env w) (node_unpin newChild) (\<lambda>g w. do {
       w \<leftarrow> modify g (\<lambda>d. gocopy d 0 (node_data w f)) w;
       w \<leftarrow> modify g (\<lambda>d. setChild d childIdx (Id w newChild)) w;
       w \<leftarrow> node_unpin newChild w;
       Some (Inr (Some (g, None)), w)
     })"

section \<open>Descent\<close>

fun updateNode :: "nat \<Rightarrow> env \<Rightarrow> nat \<Rightarrow> bytes \<Rightarrow> bytes \<Rightarrow> Mode \<Rightarrow> world \<Rightarrow> (rebuilt, world) outcome"
  and updateInternal :: "nat \<Rightarrow> env \<Rightarrow> nat \<Rightarrow> bytes \<Rightarrow> bytes \<Rightarrow> Mode \<Rightarrow> world \<Rightarrow> (rebuilt, world) outcome" where
  "updateNode 0 env f k v mode w = None"
| "updateNode (Suc n) env f k v mode w = do {
     t \<leftarrow> ntype (node_data w f);
     if t = nodeLeaf then updateLeaf env f k v mode w
     else updateInternal n env f k v mode w
   }"
| "updateInternal n env f k v mode w = do {
     childIdx \<leftarrow> searchInternal (node_data w f) k;
     childPageID \<leftarrow> child (node_data w f) childIdx;
     try_ok (getNode env childPageID w) (\<lambda>childNode w.
     try_or (updateNode n env childNode k v mode w) (node_unpin childNode) (\<lambda>res w. do {
       w \<leftarrow> node_unpin childNode w;
       case res of
         None \<Rightarrow> Some (Inr None, w)
       | Some (newChild, extra) \<Rightarrow> do {
           w \<leftarrow> free_page childPageID w;
           case extra of
             None \<Rightarrow> replaceInternalChild env f childIdx newChild w
           | Some (extraChild, pushUpKey) \<Rightarrow>
               updateInternalAfterChildSplit env f childIdx newChild pushUpKey extraChild w
         }
     }))
   }"

section \<open>The root\<close>

text \<open>\<open>Update\<close> returns the root's page id together with the tree, whose root changes on success only.\<close>

definition UpdateKey :: "env \<Rightarrow> BTree \<Rightarrow> bytes \<Rightarrow> bytes \<Rightarrow> Mode \<Rightarrow> world \<Rightarrow> (PageId \<times> BTree, world) outcome" where
  "UpdateKey env t k v mode w =
     (if length k > maxKeySize then Some (Inl ErrKeyTooBig, w)
      else if root t = 0 then
        (if mode = ModeUpdate then Some (Inl ErrKeyNotFound, w)
         else try_ok (allocLeaf env w) (\<lambda>leaf w.
              try_or (appendLeafCell env leaf k v w)
                (\<lambda>w. do { w \<leftarrow> node_unpin leaf w; free_page (Id w leaf) w }) (\<lambda>_ w. do {
                w \<leftarrow> node_unpin leaf w;
                Some (Inr (Id w leaf, t\<lparr>root := Id w leaf\<rparr>), w)
              })))
      else try_ok (getNode env (root t) w) (\<lambda>rootNode w.
        try_or (updateNode (fuel env) env rootNode k v mode w) (node_unpin rootNode) (\<lambda>res w. do {
          w \<leftarrow> node_unpin rootNode w;
          case res of
            None \<Rightarrow> Some (Inr (root t, t), w)
          | Some (newChild, extra) \<Rightarrow> do {
              w \<leftarrow> free_page (root t) w;
              case extra of
                None \<Rightarrow> do {
                  let newID = Id w newChild;
                  w \<leftarrow> node_unpin newChild w;
                  Some (Inr (newID, t\<lparr>root := newID\<rparr>), w)
                }
              | Some (extraChild, pushUpKey) \<Rightarrow>
                  try_or (allocInternal env w) (\<lambda>w. do { w \<leftarrow> node_unpin newChild w; node_unpin extraChild w })
                    (\<lambda>newRoot w. do {
                      w \<leftarrow> modify newRoot (\<lambda>d. appendInternalCell d (Id w newChild) pushUpKey) w;
                      w \<leftarrow> modify newRoot (\<lambda>d. setRightmostChild d (Id w extraChild)) w;
                      w \<leftarrow> node_unpin newChild w;
                      w \<leftarrow> node_unpin extraChild w;
                      w \<leftarrow> node_unpin newRoot w;
                      Some (Inr (Id w newRoot, t\<lparr>root := Id w newRoot\<rparr>), w)
                    })
            }
        })))"

end
