(* ===== verification/Graft.thy ===== *)
theory Graft
  imports Tree Update
begin

text \<open>
  Replacing the child that a key belongs to by one or more trees: the abstract counterpart of what
  \<open>update\<close> and \<open>delete\<close> do to an internal node after the recursive call. A group of trees with
  separators between them is written like the children of a node: pairs of a tree and the separator
  after it, and a last tree.
\<close>

section \<open>Groups of trees\<close>

definition group_kvs :: "(tree \<times> bytes) list \<Rightarrow> tree \<Rightarrow> (bytes \<times> bytes) list" where
  "group_kvs cks r = concat (map (\<lambda>(c, k). kvs c) cks) @ kvs r"

definition group_pages :: "(tree \<times> bytes) list \<Rightarrow> tree \<Rightarrow> PageId list" where
  "group_pages cks r = concat (map (\<lambda>(c, k). tpages c) cks) @ tpages r"

definition group_at :: "(PageId \<Rightarrow> bytes) \<Rightarrow> (tree \<times> bytes) list \<Rightarrow> tree \<Rightarrow> bool" where
  "group_at W cks r \<longleftrightarrow> (\<forall>ck \<in> set cks. tree_at W (fst ck)) \<and> tree_at W r"

lemma group_simps [simp]:
  "group_kvs [] r = kvs r" "group_kvs ((c, k) # cks) r = kvs c @ group_kvs cks r"
  "group_pages [] r = tpages r" "group_pages ((c, k) # cks) r = tpages c @ group_pages cks r"
  "group_at W [] r = tree_at W r" "group_at W ((c, k) # cks) r \<longleftrightarrow> tree_at W c \<and> group_at W cks r"
  by (simp_all add: group_kvs_def group_pages_def group_at_def conj_assoc)

lemma node_group:
  "kvs (Node p cks r) = group_kvs cks r" "tpages (Node p cks r) = p # group_pages cks r"
  "tree_at W (Node p cks r) \<longleftrightarrow> p \<noteq> 0 \<and> inode (W p) (child_refs cks) (tid r) \<and> group_at W cks r"
  by (simp_all add: group_kvs_def group_pages_def group_at_def)

lemma group_keys:
  "ordered_cs lo cks r hi \<Longrightarrow> kv \<in> set (group_kvs cks r) \<Longrightarrow> above lo (fst kv) \<and> below (fst kv) hi"
  using ordered_keys(2) [of lo cks r hi kv 0] unfolding node_group by blast

lemma group_append:
  "group_kvs (xs @ (c, k) # ys) r = group_kvs xs c @ group_kvs ys r"
  "group_pages (xs @ (c, k) # ys) r = group_pages xs c @ group_pages ys r"
  "group_at W (xs @ (c, k) # ys) r \<longleftrightarrow> group_at W xs c \<and> group_at W ys r"
  by (auto simp: group_kvs_def group_pages_def group_at_def)

lemma ordered_cs_append:
  assumes "ordered_cs lo xs c (Some k)" "strictly_above lo k" "below k hi" "ordered_cs (Some k) ys r hi"
  shows "ordered_cs lo (xs @ (c, k) # ys) r hi"
  using assms
proof (induction xs arbitrary: lo)
  case (Cons x xs)
  obtain d s where x: "x = (d, s)" by (cases x)
  have "s < k" using Cons.prems(1) x by (simp add: below_def)
  then have "below s hi" "strictly_above (Some s) k" using Cons.prems(3) by (auto simp: below_def strictly_above_def split: option.splits)
  then show ?case using Cons x by simp
qed simp

section \<open>Levels and separators\<close>

text \<open>All leaves are at the same depth and no internal node is without a separator.\<close>

fun level :: "nat \<Rightarrow> tree \<Rightarrow> bool" where
  "level d (Leaf p es) \<longleftrightarrow> d = 0"
| "level d (Node p cks r) \<longleftrightarrow> 0 < d \<and> cks \<noteq> [] \<and> (\<forall>ck \<in> set cks. level (d - 1) (fst ck)) \<and> level (d - 1) r"

fun seps :: "tree \<Rightarrow> bytes list" where
  "seps (Leaf p es) = []"
| "seps (Node p cks r) = concat (map (\<lambda>(c, k). seps c @ [k]) cks) @ seps r"

definition group_level :: "nat \<Rightarrow> (tree \<times> bytes) list \<Rightarrow> tree \<Rightarrow> bool" where
  "group_level d cks r \<longleftrightarrow> (\<forall>ck \<in> set cks. level d (fst ck)) \<and> level d r"

definition group_seps :: "(tree \<times> bytes) list \<Rightarrow> tree \<Rightarrow> bytes list" where
  "group_seps cks r = concat (map (\<lambda>(c, k). seps c @ [k]) cks) @ seps r"

lemma group_shape_simps [simp]:
  "group_level d [] r = level d r" "group_level d ((c, k) # cks) r \<longleftrightarrow> level d c \<and> group_level d cks r"
  "group_seps [] r = seps r" "group_seps ((c, k) # cks) r = seps c @ k # group_seps cks r"
  by (auto simp: group_level_def group_seps_def)

lemma group_shape_append:
  "group_level d (xs @ (c, k) # ys) r \<longleftrightarrow> group_level d xs c \<and> group_level d ys r"
  "group_seps (xs @ (c, k) # ys) r = group_seps xs c @ k # group_seps ys r"
  by (auto simp: group_level_def group_seps_def)

lemma node_shape:
  "level d (Node p cks r) \<longleftrightarrow> 0 < d \<and> cks \<noteq> [] \<and> group_level (d - 1) cks r" "seps (Node p cks r) = group_seps cks r"
  by (simp_all add: group_level_def group_seps_def)

lemma height_le: "height (Node p cks r) \<le> Suc h \<longleftrightarrow> (\<forall>c \<in> fst ` set cks. height c \<le> h) \<and> height r \<le> h"
proof -
  have "fold max (map (\<lambda>(c, k). height c) cks) m \<le> h \<longleftrightarrow> m \<le> h \<and> (\<forall>c \<in> fst ` set cks. height c \<le> h)" for m
    by (induction cks arbitrary: m) auto
  then show ?thesis by auto
qed

lemma level_height: "level d t \<Longrightarrow> height t = d"
proof (induction d arbitrary: t)
  case 0
  then show ?case by (cases t) auto
next
  case (Suc d)
  then obtain p cks r where t: "t = Node p cks r" by (cases t) auto
  have "height c = d" if "c \<in> fst ` set cks" for c using Suc that t by auto
  moreover have "height r = d" using Suc t by simp
  ultimately have "height t \<le> Suc d" using height_le [of p cks r d] t by simp
  moreover have "height r < height t" using t by simp
  ultimately show ?case using \<open>height r = d\<close> by simp
qed

section \<open>Grafting\<close>

fun graft :: "(tree \<times> bytes) list \<Rightarrow> tree \<Rightarrow> bytes \<Rightarrow> (tree \<times> bytes) list \<Rightarrow> tree \<Rightarrow> (tree \<times> bytes) list \<times> tree" where
  "graft [] r k ns n = (ns, n)"
| "graft ((c, s) # cks) r k ns n =
     (if k < s then (ns @ (n, s) # cks, r)
      else (case graft cks r k ns n of (cks', r') \<Rightarrow> ((c, s) # cks', r')))"

lemma graft_nth:
  "graft cks r k ns n =
     (let i = rank_le (map snd cks) k
      in if i < length cks then (take i cks @ ns @ (n, snd (cks ! i)) # drop (Suc i) cks, r) else (cks @ ns, n))"
  by (induction cks) (auto simp: rank_le_def Let_def not_less)

lemma rank_le_length: "rank_le (map snd cks) k \<le> length cks"
  unfolding rank_le_def using length_takeWhile_le [of _ "map snd cks"] by simp

lemma pick_alt:
  "pick cks r k = (let i = rank_le (map snd cks) k in if i < length cks then fst (cks ! i) else r)"
  by (induction cks) (auto simp: rank_le_def Let_def not_less)

lemma graft_ordered:
  assumes "ordered_cs lo cks r hi" "above lo k" "below k hi"
  shows "\<exists>lo' hi'. ordered lo' (pick cks r k) hi' \<and> above lo' k \<and> below k hi' \<and>
    (\<forall>ns n. ordered_cs lo' ns n hi' \<longrightarrow> (case graft cks r k ns n of (cks', r') \<Rightarrow> ordered_cs lo cks' r' hi))"
  using assms
proof (induction cks arbitrary: lo)
  case Nil
  then show ?case by auto
next
  case (Cons x cks)
  obtain c s where x: "x = (c, s)" by (cases x)
  have o: "strictly_above lo s" "below s hi" "ordered lo c (Some s)" "ordered_cs (Some s) cks r hi" using Cons.prems(1) x by simp_all
  show ?case
  proof (cases "k < s")
    case True
    have "\<forall>ns n. ordered_cs lo ns n (Some s) \<longrightarrow> ordered_cs lo (ns @ (n, s) # cks) r hi"
      using ordered_cs_append [OF _ o(1,2,4)] by blast
    then show ?thesis using o True Cons.prems(2) x by (intro exI [of _ lo] exI [of _ "Some s"]) (simp add: below_def)
  next
    case False
    then have "above (Some s) k" by (simp add: above_def)
    then obtain lo' hi' where i: "ordered lo' (pick cks r k) hi'" "above lo' k" "below k hi'"
      "\<And>ns n. ordered_cs lo' ns n hi' \<Longrightarrow> (case graft cks r k ns n of (cks', r') \<Rightarrow> ordered_cs (Some s) cks' r' hi)"
      using Cons.IH [OF o(4) _ Cons.prems(3)] by blast
    have "case graft (x # cks) r k ns n of (cks', r') \<Rightarrow> ordered_cs lo cks' r' hi" if "ordered_cs lo' ns n hi'" for ns n
      using i(4) [OF that] o False x by (auto split: prod.splits)
    then show ?thesis using i(1-3) False x by (intro exI [of _ lo'] exI [of _ hi']) auto
  qed
qed

text \<open>What a change of the bindings of \<open>k\<close> below the child does to the bindings of the whole node.\<close>

lemma graft_map:
  assumes "ordered_cs lo cks r hi" "map_of (group_kvs ns n) = (map_of (kvs (pick cks r k)))(k := b)"
  shows "case graft cks r k ns n of (cks', r') \<Rightarrow> map_of (group_kvs cks' r') = (map_of (group_kvs cks r))(k := b)"
  using assms
proof (induction cks arbitrary: lo)
  case (Cons x cks)
  obtain c s where x: "x = (c, s)" by (cases x)
  have upd: "(m :: bytes \<rightharpoonup> bytes) ++ n(k := b) = (m ++ n)(k := b)" if "b \<noteq> None \<or> m k = None" for m n
    using that by (auto simp: map_add_def fun_eq_iff split: option.splits)
  have upd_left: "(m :: bytes \<rightharpoonup> bytes)(k := b) ++ n = (m ++ n)(k := b)" if "n k = None" for m n
    using that by (auto simp: map_add_def fun_eq_iff split: option.splits)
  have o: "ordered lo c (Some s)" "ordered_cs (Some s) cks r hi" using Cons.prems(1) x by simp_all
  show ?case
  proof (cases "k < s")
    case True
    have "map_of (group_kvs cks r) k = None"
    proof (rule ccontr)
      assume "map_of (group_kvs cks r) k \<noteq> None"
      then obtain v where "map_of (group_kvs cks r) k = Some v" by blast
      then have "above (Some s) k" using group_keys [OF o(2) map_of_SomeD] by fastforce
      then show False using True by (simp add: above_def)
    qed
    then have "map_of (group_kvs cks r) ++ (map_of (kvs c))(k := b) = (map_of (group_kvs cks r) ++ map_of (kvs c))(k := b)"
      by (intro upd) simp
    then show ?thesis using Cons.prems(2) True x by (simp add: group_append fun_upd_def)
  next
    case False
    have "map_of (kvs c) k = None"
    proof (rule ccontr)
      assume "map_of (kvs c) k \<noteq> None"
      then obtain v where "map_of (kvs c) k = Some v" by blast
      then have "below k (Some s)" using ordered_keys(1) [OF o(1) map_of_SomeD] by fastforce
      then show False using False by (simp add: below_def)
    qed
    then have "(map_of (group_kvs cks r))(k := b) ++ map_of (kvs c) = (map_of (group_kvs cks r) ++ map_of (kvs c))(k := b)"
      by (rule upd_left)
    then show ?thesis using Cons.IH [OF o(2)] Cons.prems(2) False x by (auto simp: fun_upd_def split: prod.splits)
  qed
qed simp

lemma graft_at:
  assumes "group_at W cks r" "group_at W ns n"
  shows "case graft cks r k ns n of (cks', r') \<Rightarrow> group_at W cks' r'"
  using assms by (induction cks) (auto simp: group_append split: prod.splits if_splits)

lemma group_pages_pick:
  obtains xs ys where "group_pages cks r = xs @ tpages (pick cks r k) @ ys"
    "\<And>ns n cks' r'. graft cks r k ns n = (cks', r') \<Longrightarrow> group_pages cks' r' = xs @ group_pages ns n @ ys"
proof -
  have "\<exists>xs ys. group_pages cks r = xs @ tpages (pick cks r k) @ ys \<and>
    (\<forall>ns n. case graft cks r k ns n of (cks', r') \<Rightarrow> group_pages cks' r' = xs @ group_pages ns n @ ys)"
  proof (induction cks)
    case Nil
    show ?case by (intro exI [of _ "[]"]) simp
  next
    case (Cons x cks)
    obtain c s where x: "x = (c, s)" by (cases x)
    show ?case
    proof (cases "k < s")
      case True
      then show ?thesis using x by (intro exI [of _ "[]"] exI [of _ "group_pages cks r"]) (simp add: group_append)
    next
      case False
      obtain xs ys where i: "group_pages cks r = xs @ tpages (pick cks r k) @ ys"
        "\<And>ns n. case graft cks r k ns n of (cks', r') \<Rightarrow> group_pages cks' r' = xs @ group_pages ns n @ ys" using Cons by blast
      have "case graft (x # cks) r k ns n of (cks', r') \<Rightarrow> group_pages cks' r' = (tpages c @ xs) @ group_pages ns n @ ys" for ns n
        using i(2) [of ns n] False x by (auto split: prod.splits)
      then show ?thesis using i(1) False x by (intro exI [of _ "tpages c @ xs"] exI [of _ ys]) auto
    qed
  qed
  then obtain xs ys where xy: "group_pages cks r = xs @ tpages (pick cks r k) @ ys"
    "\<And>ns n. case graft cks r k ns n of (cks', r') \<Rightarrow> group_pages cks' r' = xs @ group_pages ns n @ ys" by blast
  show thesis
  proof (rule that [OF xy(1)])
    show "group_pages cks' r' = xs @ group_pages ns n @ ys" if "graft cks r k ns n = (cks', r')" for ns n cks' r'
      using xy(2) [of ns n] that by simp
  qed
qed

lemma child_refs_simps [simp]:
  "child_refs [] = []" "child_refs ((c, k) # cks) = (tid c, k) # child_refs cks" "child_refs (xs @ ys) = child_refs xs @ child_refs ys"
  "length (child_refs cks) = length cks" "map snd (child_refs cks) = map snd cks" "take i (child_refs cks) = child_refs (take i cks)"
  "drop i (child_refs cks) = child_refs (drop i cks)" "i < length cks \<Longrightarrow> child_refs cks ! i = (tid (fst (cks ! i)), snd (cks ! i))"
  by (auto simp: child_refs_def take_map drop_map case_prod_beta)

lemma graft_refs_one:
  assumes "i = rank_le (map snd cks) k" "graft cks r k [] n = (cks', r')"
  shows "(if i < length cks then child_refs cks' = (child_refs cks)[i := (tid n, snd (child_refs cks ! i))] \<and> tid r' = tid r
    else child_refs cks' = child_refs cks \<and> tid r' = tid n)"
  using assms by (auto simp: graft_nth Let_def upd_conv_take_nth_drop split: if_splits)

lemma graft_refs_two:
  assumes "i = rank_le (map snd cks) k" "graft cks r k [(a, s)] b = (cks', r')"
  shows "child_refs cks' = put_split i (tid a) s (tid b) (child_refs cks)" "tid r' = put_split_last i (tid b) (child_refs cks) (tid r)"
  using assms rank_le_length [of cks k] by (auto simp: graft_nth Let_def put_split_def put_split_last_def split: if_splits)

lemma graft_level:
  assumes "group_level d cks r" "group_level d ns n" "graft cks r k ns n = (cks', r')"
  shows "group_level d cks' r'" "cks \<noteq> [] \<Longrightarrow> cks' \<noteq> []"
proof -
  have "group_level d cks' r' \<and> (cks \<noteq> [] \<longrightarrow> cks' \<noteq> [])"
    using assms by (induction cks arbitrary: cks' r') (auto simp: group_shape_append split: prod.splits if_splits)
  then show "group_level d cks' r'" "cks \<noteq> [] \<Longrightarrow> cks' \<noteq> []" by blast+
qed

lemma graft_seps: "graft cks r k ns n = (cks', r') \<Longrightarrow> set (group_seps cks' r') \<subseteq> set (group_seps cks r) \<union> set (group_seps ns n)"
  by (induction cks arbitrary: cks' r') (auto simp: group_shape_append split: prod.splits if_splits, blast)

lemma pick_shape:
  "group_level d cks r \<Longrightarrow> level d (pick cks r k)" "set (seps (pick cks r k)) \<subseteq> set (group_seps cks r)"
  by (induction cks) (auto split: if_splits)

lemma pick_dom: "dom (map_of (kvs (pick cks r k))) \<subseteq> dom (map_of (group_kvs cks r))"
proof -
  have "set (kvs (pick cks r k)) \<subseteq> set (group_kvs cks r)" by (induction cks) (auto split: if_splits)
  then show ?thesis unfolding dom_map_of_conv_image_fst by blast
qed

end
