(* ===== verification/LeafUpdate.thy ===== *)
theory LeafUpdate
  imports Graft
begin

text \<open>
  \<open>updateLeaf\<close> on a stored tree: the leaf that holds the key is rebuilt in fresh pages, as one leaf or,
  when the new cell does not fit, as two leaves with a separator.
\<close>

text \<open>
  What \<open>update.go\<close> does to a leaf: the items of the fresh page or pages are the old items with the
  new one in its place, the new value's overflow pages included.
\<close>

section \<open>Inserting an item\<close>

definition item_at :: "bytes \<Rightarrow> item list \<Rightarrow> nat" where
  "item_at k es = rank_lt (map fst es) k"

definition has_item :: "bytes \<Rightarrow> item list \<Rightarrow> bool" where
  "has_item k es \<longleftrightarrow> k \<in> fst ` set es"

definition put_item :: "item \<Rightarrow> item list \<Rightarrow> item list" where
  "put_item e es = put_entry (has_item (fst e) es) (item_at (fst e) es) e es"

lemma put_item_Nil: "put_item e [] = [e]"
  by (simp add: put_item_def put_entry_def item_at_def rank_lt_def)

lemma put_item_Cons:
  assumes "sorted_wrt (<) (map fst (x # xs))"
  shows "put_item e (x # xs) =
    (if fst x < fst e then x # put_item e xs else if fst x = fst e then e # xs else e # x # xs)"
proof -
  consider "fst x < fst e" | "fst x = fst e" | "fst e < fst x" by (rule linorder_cases)
  then show ?thesis
  proof cases
    case 1
    then show ?thesis by (auto simp: put_item_def put_entry_def item_at_def has_item_def rank_lt_def)
  next
    case 2
    then show ?thesis by (simp add: put_item_def put_entry_def item_at_def has_item_def rank_lt_def)
  next
    case 3
    moreover have "fst e \<notin> fst ` set xs" using assms 3 by (auto dest: bspec)
    ultimately show ?thesis by (auto simp: put_item_def put_entry_def item_at_def has_item_def rank_lt_def)
  qed
qed

lemma put_item_sorted:
  assumes "sorted_wrt (<) (map fst es)"
  shows "sorted_wrt (<) (map fst (put_item e es)) \<and> set (put_item e es) \<subseteq> insert e (set es)"
  using assms
proof (induction es)
  case (Cons x xs)
  have i: "sorted_wrt (<) (map fst (put_item e xs))" "set (put_item e xs) \<subseteq> insert e (set xs)" using Cons by auto
  consider "fst x < fst e" | "fst x = fst e" | "fst e < fst x" by (rule linorder_cases)
  then show ?case
  proof cases
    case 1
    have "\<forall>y \<in> set (put_item e xs). fst x < fst y" using i(2) 1 Cons.prems by auto
    then show ?thesis using i 1 by (auto simp: put_item_Cons [OF Cons.prems])
  next
    case 2
    then show ?thesis using Cons.prems by (auto simp: put_item_Cons [OF Cons.prems])
  next
    case 3
    then show ?thesis using Cons.prems by (auto simp: put_item_Cons [OF Cons.prems] intro: order.strict_trans)
  qed
qed (simp add: put_item_Nil)

lemma put_item_map:
  assumes "sorted_wrt (<) (map fst es)"
  shows "map_of (map item_kv (put_item (k, v, ps) es)) = (map_of (map item_kv es))(k \<mapsto> v)"
  using assms
proof (induction es)
  case (Cons x xs)
  consider "fst x < k" | "fst x = k" | "k < fst x" by (rule linorder_cases)
  then show ?case
  proof cases
    case 1
    then show ?thesis using Cons by (auto simp: put_item_Cons [OF Cons.prems] item_kv_def)
  next
    case 2
    then show ?thesis by (auto simp: put_item_Cons [OF Cons.prems] item_kv_def)
  next
    case 3
    then show ?thesis by (auto simp: put_item_Cons [OF Cons.prems] item_kv_def)
  qed
qed (simp add: put_item_Nil item_kv_def)

lemma item_at_bound:
  assumes "sorted_wrt (<) (map fst es)"
  shows "item_at k es < length es \<or> \<not> has_item k es \<and> item_at k es = length es" "item_at k es \<le> length es"
    "has_item k es \<Longrightarrow> item_at k es < length es \<and> fst (es ! item_at k es) = k"
proof -
  show le: "item_at k es \<le> length es" unfolding item_at_def rank_lt_def using length_takeWhile_le [of _ "map fst es"] by simp
  show has: "item_at k es < length es \<and> fst (es ! item_at k es) = k" if h: "has_item k es"
  proof -
    obtain e where "e \<in> set es" "fst e = k" using h unfolding has_item_def by blast
    then obtain j where j: "j < length es" "fst (es ! j) = k" by (auto simp: in_set_conv_nth)
    then have "item_at k es = j" using rank_lt_unique [OF assms, of j k] by (simp add: item_at_def)
    then show ?thesis using j by simp
  qed
  show "item_at k es < length es \<or> \<not> has_item k es \<and> item_at k es = length es"
    using le has by (cases "has_item k es") (simp, linarith)
qed

section \<open>Fresh pages\<close>

lemma alloc_node_rule:
  assumes "txn_ok env \<sigma> (Suc n) H L w" "t = nodeLeaf \<or> t = nodeInternal"
  shows "result_ok (alloc_node t env w) (txn_ok env \<sigma> 0 H L)
    (\<lambda>g w'. \<exists>q. q \<notin> L \<and> q \<noteq> 0 \<and> node_cells (V w' q) t [] \<and> txn_ok env \<sigma> n (add_mset (g, q, True) H) (insert q L) w' \<and> same_pages L w w')"
  unfolding alloc_node_def
proof (rule try_ok_rule [OF txnAllocatePage_keeps [OF assms(1)]])
  fix g w1
  assume "\<exists>q. q \<notin> L \<and> txn_ok env \<sigma> n (add_mset (g, q, True) H) (insert q L) w1 \<and> same_pages L w w1"
  then obtain q where q: "q \<notin> L" "txn_ok env \<sigma> n (add_mset (g, q, True) H) (insert q L) w1" "same_pages L w w1" by blast
  have "q \<noteq> 0" using txn_ok_not_zero [OF assms(1) q(1)] .
  moreover have "length (V w1 q) = 4096" using handle_node(3) [OF txn_read [OF q(2)], of g q True] by simp
  then obtain d where d: "init_node t (V w1 q) = Some d" "node_cells d t []" using init_node_cells assms(2) by blast
  moreover have "length d = 4096" using d(2) by (auto simp: node_cells_def node_rep_def body_rep_def)
  then obtain w2 where "modify g (init_node t) w1 = Some w2" "txn_ok env \<sigma> n (add_mset (g, q, True) H) (insert q L) w2"
    "V w2 q = d" "same_pages (insert q L - {q}) w1 w2"
    using modify_rule [where g = "init_node t", OF q(2) _ d(1)] by auto
  moreover have "same_pages L w w2" using q(1,3) calculation(7) unfolding same_pages_def by auto
  ultimately show "result_ok (do { w \<leftarrow> modify g (init_node t) w1; Some (Inr g, w) }) (txn_ok env \<sigma> 0 H L)
      (\<lambda>g w'. \<exists>q. q \<notin> L \<and> q \<noteq> 0 \<and> node_cells (V w' q) t [] \<and> txn_ok env \<sigma> n (add_mset (g, q, True) H) (insert q L) w' \<and> same_pages L w w')"
    using q(1) by (auto simp: result_ok_def)
qed

lemma allocLeaf_rule:
  assumes "txn_ok env \<sigma> (Suc n) H L w"
  shows "result_ok (allocLeaf env w) (txn_ok env \<sigma> 0 H L)
    (\<lambda>g w'. \<exists>q. q \<notin> L \<and> q \<noteq> 0 \<and> lnode (V w' q) [] \<and> txn_ok env \<sigma> n (add_mset (g, q, True) H) (insert q L) w' \<and> same_pages L w w')"
  unfolding allocLeaf_def
proof (rule result_ok_mono [OF alloc_node_rule [OF assms]])
  fix g w' assume "\<exists>q. q \<notin> L \<and> q \<noteq> 0 \<and> node_cells (V w' q) nodeLeaf [] \<and> txn_ok env \<sigma> n (add_mset (g, q, True) H) (insert q L) w' \<and> same_pages L w w'"
  then show "\<exists>q. q \<notin> L \<and> q \<noteq> 0 \<and> lnode (V w' q) [] \<and> txn_ok env \<sigma> n (add_mset (g, q, True) H) (insert q L) w' \<and> same_pages L w w'"
    using lnode_init by blast
qed auto

lemma allocInternal_rule:
  assumes "txn_ok env \<sigma> (Suc n) H L w"
  shows "result_ok (allocInternal env w) (txn_ok env \<sigma> 0 H L)
    (\<lambda>g w'. \<exists>q r. q \<notin> L \<and> q \<noteq> 0 \<and> inode (V w' q) [] r \<and> txn_ok env \<sigma> n (add_mset (g, q, True) H) (insert q L) w' \<and> same_pages L w w')"
  unfolding allocInternal_def
proof (rule result_ok_mono [OF alloc_node_rule [OF assms]])
  fix g w' assume "\<exists>q. q \<notin> L \<and> q \<noteq> 0 \<and> node_cells (V w' q) nodeInternal [] \<and> txn_ok env \<sigma> n (add_mset (g, q, True) H) (insert q L) w' \<and> same_pages L w w'"
  then show "\<exists>q r. q \<notin> L \<and> q \<noteq> 0 \<and> inode (V w' q) [] r \<and> txn_ok env \<sigma> n (add_mset (g, q, True) H) (insert q L) w' \<and> same_pages L w w'"
    using inode_init by blast
qed auto

section \<open>The value of a new item\<close>

definition item_written :: "env \<Rightarrow> backdrop \<Rightarrow> nat \<Rightarrow> handle multiset \<Rightarrow> PageId set \<Rightarrow> bytes \<Rightarrow> bytes \<Rightarrow> PageId list \<Rightarrow> world \<Rightarrow> world \<Rightarrow> bool" where
  "item_written env \<sigma> n H L k v ps w w' \<longleftrightarrow> item_ok (V w') (k, v, ps) \<and> (chain_head ps = 0) = (5 + length k + length v \<le> maxInlineSize) \<and>
     distinct ps \<and> set ps \<inter> L = {} \<and> txn_ok env \<sigma> n H (L \<union> set ps) w' \<and> same_pages L w w'"

lemma leafCellOverflow_rule:
  assumes ok: "txn_ok env \<sigma> (n + chain_pages (length v)) H L w" and kv: "length k \<le> maxKeySize" "length v < 65536"
  shows "result_ok (leafCellOverflow env k v w) (txn_ok env \<sigma> 0 H L) (\<lambda>ov w'. \<exists>ps. ov = chain_head ps \<and> item_written env \<sigma> n H L k v ps w w')"
proof (cases "5 + length k + length v \<le> maxInlineSize")
  case True
  have "0 \<in> L" using ok by (simp add: txn_ok_def lists_ok_def)
  then have "txn_ok env \<sigma> n H L w" using txn_ok_weaken [OF ok subset_refl] by simp
  then have "item_written env \<sigma> n H L k v [] w w" using True kv by (simp add: item_written_def item_ok_def)
  then show ?thesis using True by (auto simp: leafCellOverflow_def result_ok_def intro!: exI [of _ "[]"])
next
  case False
  have "item_written env \<sigma> n H L k v ps w w'" if "wrote_chain env \<sigma> n H L v w ps w'" for ps w'
  proof -
    have ch: "chain (V w') ps v" using that by (simp add: wrote_chain_def)
    have "v \<noteq> []" using False kv(1) by (auto simp: maxKeySize_def maxInlineSize_def)
    then have "ps \<noteq> []" using chain_empty [OF ch] by simp
    then have "chain_head ps \<noteq> 0" using chain_nonzero [OF ch] by (cases ps) auto
    then show ?thesis using that False kv by (simp add: item_written_def wrote_chain_def item_ok_def)
  qed
  then show ?thesis
    using result_ok_mono [OF writeOverflowPages_rule [OF ok], of "txn_ok env \<sigma> 0 H L" "\<lambda>ov w'. \<exists>ps. ov = chain_head ps \<and> item_written env \<sigma> n H L k v ps w w'"]
      False by (auto simp: leafCellOverflow_def)
qed

section \<open>New pages beside the live ones\<close>

text \<open>\<open>placed\<close>: a group of trees whose pages are all outside \<open>B\<close> stands beside the live pages of
  \<open>B\<close>, and \<open>hs\<close> are the handles of the new pages.\<close>

definition placed ::
    "env \<Rightarrow> backdrop \<Rightarrow> nat \<Rightarrow> handle multiset \<Rightarrow> handle multiset \<Rightarrow> PageId set \<Rightarrow> (tree \<times> bytes) list \<Rightarrow> tree \<Rightarrow>
     world \<Rightarrow> world \<Rightarrow> bool" where
  "placed env \<sigma> n hs H B ns t w w' \<longleftrightarrow> group_at (V w') ns t \<and> distinct (group_pages ns t) \<and> set (group_pages ns t) \<inter> B = {} \<and>
     txn_ok env \<sigma> n (hs + H) (B \<union> set (group_pages ns t)) w' \<and> same_pages B w w'"

definition others :: "bytes \<Rightarrow> item list \<Rightarrow> item list" where
  "others k es = take (item_at k es) es @ drop (if has_item k es then Suc (item_at k es) else item_at k es) es"

definition ipages :: "item list \<Rightarrow> PageId list" where
  "ipages es = concat (map item_pages es)"

lemma ipages_simps [simp]:
  "ipages [] = []" "ipages (e # es) = item_pages e @ ipages es" "ipages (xs @ ys) = ipages xs @ ipages ys"
  "tpages (Leaf p es) = p # ipages es" "item_pages (k, v, ps) = ps"
  by (simp_all add: ipages_def item_pages_def)

lemma put_item_split:
  "put_item (k, v, ps) es = take (item_at k es) es @ (k, v, ps) # drop (if has_item k es then Suc (item_at k es) else item_at k es) es"
  by (simp add: put_item_def put_entry_def)

lemma set_put_item: "set (put_item (k, v, ps) es) = insert (k, v, ps) (set (others k es))"
  by (auto simp: put_item_split others_def)

lemma set_ipages_put_item: "set (ipages (put_item (k, v, ps) es)) = set ps \<union> set (ipages (others k es))"
  unfolding put_item_split others_def by auto

lemma distinct_put_item:
  "distinct (q # ipages (put_item (k, v, ps) es)) \<longleftrightarrow>
     distinct ps \<and> distinct (ipages (others k es)) \<and> set ps \<inter> set (ipages (others k es)) = {} \<and> q \<notin> set ps \<union> set (ipages (others k es))"
  unfolding put_item_split others_def by auto

lemma item_entries_put:
  "map item_entry (put_item (k, v, ps) es) = put_entry (has_item k es) (item_at k es) (entry_of k v (chain_head ps)) (map item_entry es)"
  by (simp add: put_item_def put_entry_def item_entry_def take_map drop_map)

lemma item_ok_cong: "(\<And>p. p \<in> set (item_pages e) \<Longrightarrow> W' p = W p) \<Longrightarrow> item_ok W' e = item_ok W e"
  using chain_cong [of "snd (snd e)" W' W "fst (snd e)"] by (cases e) (auto simp: item_ok_def item_pages_def)

lemma item_pages_ipages: "e \<in> set es \<Longrightarrow> set (item_pages e) \<subseteq> set (ipages es)"
  by (auto simp: ipages_def)

text \<open>A leaf of which every item but the one for \<open>k\<close> is in order.\<close>

definition leaf_ready :: "(PageId \<Rightarrow> bytes) \<Rightarrow> PageId set \<Rightarrow> PageId \<Rightarrow> item list \<Rightarrow> bytes \<Rightarrow> bool" where
  "leaf_ready W L p es k \<longleftrightarrow> p \<in> L \<and> p \<notin> set (ipages (others k es)) \<and> lnode (W p) (map item_entry es) \<and> sorted_wrt (<) (map fst es) \<and>
     (\<forall>e \<in> set (others k es). item_ok W e) \<and> distinct (ipages (others k es)) \<and> set (ipages (others k es)) \<subseteq> L"

lemma leaf_ready_cong:
  assumes "leaf_ready (V w) L p es k" "same_pages L w w'"
  shows "leaf_ready (V w') L p es k"
proof -
  have same: "V w' q = V w q" if "q \<in> L" for q using assms(2) that unfolding same_pages_def by blast
  have "item_ok (V w') e" if e: "e \<in> set (others k es)" for e
  proof -
    have "set (item_pages e) \<subseteq> L" using item_pages_ipages [OF e] assms(1) unfolding leaf_ready_def by blast
    then have "item_ok (V w') e = item_ok (V w) e" using same by (intro item_ok_cong) blast
    then show ?thesis using assms(1) e unfolding leaf_ready_def by blast
  qed
  then show ?thesis using assms(1) same [of p] unfolding leaf_ready_def by simp
qed

lemma placed_leaf:
  assumes ready: "leaf_ready (V w) L p es k" and B: "B = L - set (ipages (others k es))"
    and ok: "txn_ok env \<sigma> n (add_mset (g, q, True) H) (insert q (L \<union> set ps)) w'" and q: "q \<notin> L" "q \<noteq> 0" "q \<notin> set ps"
    and same: "same_pages L w w'" and ps: "item_ok (V w') (k, v, ps)" "distinct ps" "set ps \<inter> L = {}"
    and node: "lnode (V w' q) (map item_entry (put_item (k, v, ps) es))"
  shows "placed env \<sigma> n {#(g, q, True)#} H B [] (Leaf q (put_item (k, v, ps) es)) w w'"
proof -
  have r: "leaf_ready (V w') L p es k" using ready same by (rule leaf_ready_cong)
  have sub: "set (ipages (others k es)) \<subseteq> L" using r by (simp add: leaf_ready_def)
  have "\<forall>e \<in> set (put_item (k, v, ps) es). item_ok (V w') e" using r ps(1) by (auto simp: leaf_ready_def set_put_item)
  moreover have "distinct (tpages (Leaf q (put_item (k, v, ps) es)))"
    unfolding ipages_simps distinct_put_item using r ps q sub by (auto simp: leaf_ready_def)
  moreover have pages: "set (tpages (Leaf q (put_item (k, v, ps) es))) = insert q (set ps \<union> set (ipages (others k es)))"
    by (simp only: ipages_simps list.simps set_ipages_put_item)
  moreover have "B \<union> set (tpages (Leaf q (put_item (k, v, ps) es))) = insert q (L \<union> set ps)" unfolding pages B using sub by blast
  moreover have "set (tpages (Leaf q (put_item (k, v, ps) es))) \<inter> B = {}" unfolding pages B using q ps(3) by blast
  moreover have "same_pages B w w'" using same_pages_mono [OF same] B by blast
  ultimately show ?thesis using ok q(2) node unfolding placed_def by simp
qed

text \<open>Appending a cell to a fresh leaf, with the overflow pages of its value.\<close>

definition cell_appended ::
    "env \<Rightarrow> backdrop \<Rightarrow> nat \<Rightarrow> handle multiset \<Rightarrow> PageId set \<Rightarrow> PageId \<Rightarrow> entry list \<Rightarrow> bytes \<Rightarrow> bytes \<Rightarrow> PageId list \<Rightarrow>
     world \<Rightarrow> world \<Rightarrow> bool" where
  "cell_appended env \<sigma> n H L q xs k v ps w w' \<longleftrightarrow> item_ok (V w') (k, v, ps) \<and> (chain_head ps = 0) = (5 + length k + length v \<le> maxInlineSize) \<and>
     distinct ps \<and> set ps \<inter> L = {} \<and> txn_ok env \<sigma> n H (L \<union> set ps) w' \<and> same_pages (L - {q}) w w' \<and>
     lnode (V w' q) (xs @ [entry_of k v (chain_head ps)])"

lemma appendLeafCell_rule:
  assumes ok: "txn_ok env \<sigma> (n + chain_pages (length v)) H L w" and g: "(g, q, True) \<in># H" and q: "q \<in> L"
    and node: "lnode (V w q) xs" and kv: "length k \<le> maxKeySize" "length v < 65536"
    and fits: "\<And>ov. (ov = 0) = (5 + length k + length v \<le> maxInlineSize) \<Longrightarrow> 5 + lcost xs + (length (leaf_cell k v ov) + 2) \<le> 4096"
  shows "result_ok (appendLeafCell env g k v w) (txn_ok env \<sigma> 0 H L) (\<lambda>_ w'. \<exists>ps. cell_appended env \<sigma> n H L q xs k v ps w w')"
  unfolding appendLeafCell_def
proof (rule try_ok_rule [OF leafCellOverflow_rule [OF ok kv]])
  fix ov w1 assume "\<exists>ps. ov = chain_head ps \<and> item_written env \<sigma> n H L k v ps w w1"
  then obtain ps where ps: "ov = chain_head ps" "item_written env \<sigma> n H L k v ps w w1" by blast
  have w1: "(ov = 0) = (5 + length k + length v \<le> maxInlineSize)" "txn_ok env \<sigma> n H (L \<union> set ps) w1" "same_pages L w w1"
    "set ps \<inter> L = {}" "item_ok (V w1) (k, v, ps)" using ps by (simp_all add: item_written_def)
  have "lnode (V w1 q) xs" using node w1(3) q unfolding same_pages_def by simp
  then obtain d where d: "appendLeafCellWithOverflow (V w1 q) k v ov = Some d" "lnode d (xs @ [entry_of k v ov])"
    using appendLeafCell_lnode [OF _ kv(1) w1(1) fits [OF w1(1)]] by blast
  obtain w2 where w2: "modify g (\<lambda>d. appendLeafCellWithOverflow d k v ov) w1 = Some w2"
    "txn_ok env \<sigma> n H (L \<union> set ps) w2" "V w2 q = d" "same_pages (L \<union> set ps - {q}) w1 w2"
    using modify_rule [where g = "\<lambda>d. appendLeafCellWithOverflow d k v ov", OF w1(2) g d(1) lnode_reads(3) [OF d(2)]] by blast
  have "item_ok (V w2) (k, v, ps) = item_ok (V w1) (k, v, ps)"
    using w2(4) w1(4) q unfolding same_pages_def by (intro item_ok_cong) auto
  moreover have "same_pages (L - {q}) w w2" using w1(3) w2(4) unfolding same_pages_def by simp
  ultimately have "cell_appended env \<sigma> n H L q xs k v ps w w2"
    using ps w1 w2 d(2) by (simp add: cell_appended_def item_written_def)
  then show "result_ok (do { w \<leftarrow> modify g (\<lambda>d. appendLeafCellWithOverflow d k v ov) w1; Some (Inr (), w) }) (txn_ok env \<sigma> 0 H L)
    (\<lambda>_ w'. \<exists>ps. cell_appended env \<sigma> n H L q xs k v ps w w')" using w2(1) by (auto simp: result_ok_def)
qed auto

text \<open>The fit of the updated leaf does not depend on where the overflow pages are.\<close>

definition some_ov :: "bytes \<Rightarrow> bytes \<Rightarrow> PageId" where
  "some_ov k v = (if 5 + length k + length v \<le> maxInlineSize then 0 else 1)"

lemma some_ov: "(some_ov k v = 0) = (5 + length k + length v \<le> maxInlineSize)"
  by (simp add: some_ov_def)

definition leaf_fits :: "item list \<Rightarrow> bytes \<Rightarrow> bytes \<Rightarrow> bool" where
  "leaf_fits es k v \<longleftrightarrow>
     5 + lcost (put_entry (has_item k es) (item_at k es) (entry_of k v (some_ov k v)) (map item_entry es)) \<le> 4096"

lemma leaf_fitsD:
  assumes "leaf_fits es k v" "(ov = 0) = (5 + length k + length v \<le> maxInlineSize)"
  shows "5 + lcost (take (item_at k es) (map item_entry es)) + (length (leaf_cell k v ov) + 2) +
    lcost (drop (if has_item k es then Suc (item_at k es) else item_at k es) (map item_entry es)) \<le> 4096"
  using assms some_ov [of k v] by (auto simp: leaf_fits_def put_entry_def length_leaf_cell split: if_splits)

lemma rebuildLeaf_rule:
  assumes ok: "txn_ok env \<sigma> (Suc (n + chain_pages (length v))) H L w" and f: "(f, p, wr) \<in># H"
    and ready: "leaf_ready (V w) L p es k" and B: "B = L - set (ipages (others k es))"
    and kv: "length k \<le> maxKeySize" "length v < 65536" and fits: "leaf_fits es k v"
    and idx: "unat idx = item_at k es" "unat from = (if has_item k es then Suc (item_at k es) else item_at k es)"
  shows "result_ok (rebuildLeaf env f idx from k v w) (failed env \<sigma> H)
    (\<lambda>res w'. \<exists>g q ps. res = Some (g, None) \<and> placed env \<sigma> n {#(g, q, True)#} H B [] (Leaf q (put_item (k, v, ps) es)) w w')"
  unfolding rebuildLeaf_def
proof (rule try_ok_rule [OF allocLeaf_rule [OF ok]])
  let ?i = "item_at k es" and ?j = "if has_item k es then Suc (item_at k es) else item_at k es" and ?es = "map item_entry es"
  have pL: "p \<in> L" and node: "lnode (V w p) ?es" and srt: "sorted_wrt (<) (map fst es)" using ready by (simp_all add: leaf_ready_def)
  have ij: "?i \<le> length es" "?j \<le> length es" using item_at_bound [OF srt, of k] by auto
  fix g w1 assume "\<exists>q. q \<notin> L \<and> q \<noteq> 0 \<and> lnode (V w1 q) [] \<and> txn_ok env \<sigma> (n + chain_pages (length v)) (add_mset (g, q, True) H) (insert q L) w1 \<and> same_pages L w w1"
  then obtain q where q: "q \<notin> L" "q \<noteq> 0" "lnode (V w1 q) []" "txn_ok env \<sigma> (n + chain_pages (length v)) (add_mset (g, q, True) H) (insert q L) w1"
    "same_pages L w w1" by blast
  let ?H = "add_mset (g, q, True) H"
  have gH: "(g, q, True) \<in># ?H" and fH: "(f, p, wr) \<in># ?H" using f by auto
  have node1: "node_data w1 f = V w p" using handle_node(1) [OF txn_read [OF q(4)] fH] q(5) pL unfolding same_pages_def by simp
  obtain d1 where d1: "copyRange (V w1 q) (V w p) 0 idx = Some d1" "lnode d1 (take ?i ?es)"
    using copyRange_lnode [OF q(3) node, of 0 0 idx ?i] idx(1) ij lcost_take_drop [of ?i ?es] lnode_fits [OF node] by auto
  obtain w2 where w2: "modify g (\<lambda>d. copyRange d (node_data w1 f) 0 idx) w1 = Some w2"
    "txn_ok env \<sigma> (n + chain_pages (length v)) ?H (insert q L) w2" "V w2 q = d1" "same_pages (insert q L - {q}) w1 w2"
    using modify_rule [where g = "\<lambda>d. copyRange d (node_data w1 f) 0 idx", OF q(4) gH _ lnode_reads(3) [OF d1(2)]] d1(1) node1 by auto
  have l2: "lnode (V w2 q) (take ?i ?es)" using w2(3) d1(2) by simp
  have same2: "same_pages L w w2" using same_pages_trans [OF q(5) same_pages_mono [OF w2(4)]] q(1) by auto
  have app: "result_ok (appendLeafCell env g k v w2) (failed env \<sigma> ?H)
      (\<lambda>_ w'. \<exists>ps. cell_appended env \<sigma> n ?H (insert q L) q (take ?i ?es) k v ps w2 w')"
    using leaf_fitsD [OF fits] by (intro result_ok_mono [OF appendLeafCell_rule [OF w2(2) gH _ l2 kv]]) (simp, fastforce, auto intro: txn_ok_failed)
  have "result_ok (try_or (appendLeafCell env g k v w2) (node_unpin g) (\<lambda>_ w. do {
         n \<leftarrow> nCells (node_data w f);
         w \<leftarrow> modify g (\<lambda>d. copyRange d (node_data w f) from (n - from)) w;
         Some (Inr (Some (g, None)), w)
       })) (failed env \<sigma> H)
    (\<lambda>res w'. \<exists>g q ps. res = Some (g, None) \<and> placed env \<sigma> n {#(g, q, True)#} H B [] (Leaf q (put_item (k, v, ps) es)) w w')"
  proof (rule try_or_rule [OF app failed_unpin], assumption)
    fix w3 assume "\<exists>ps. cell_appended env \<sigma> n ?H (insert q L) q (take ?i ?es) k v ps w2 w3"
    then obtain ps where ps: "item_ok (V w3) (k, v, ps)" "(chain_head ps = 0) = (5 + length k + length v \<le> maxInlineSize)" "distinct ps"
      "set ps \<inter> insert q L = {}" "txn_ok env \<sigma> n ?H (insert q L \<union> set ps) w3" "same_pages (insert q L - {q}) w2 w3"
      "lnode (V w3 q) (take ?i ?es @ [entry_of k v (chain_head ps)])" unfolding cell_appended_def by blast
    have same3: "same_pages L w w3" using same_pages_trans [OF same2 same_pages_mono [OF ps(6)]] q(1) by auto
    have node3: "node_data w3 f = V w p" using handle_node(1) [OF txn_read [OF ps(5)] fH] same3 pL unfolding same_pages_def by simp
    have nc: "nCells (V w p) = Some (of_nat (length es))" using lnode_reads(2) [OF node] by simp
    have cnt: "unat (of_nat (length es) - from) = length es - ?j" using ij(2) idx(2) lnode_length [OF node] by (simp add: u16_simps unat_sub word_le_nat_alt)
    obtain d3 where d3: "copyRange (V w3 q) (V w p) from (of_nat (length es) - from) = Some d3"
      "lnode d3 ((take ?i ?es @ [entry_of k v (chain_head ps)]) @ drop ?j ?es)"
      using copyRange_lnode [OF ps(7) node idx(2) cnt] ij(2) leaf_fitsD [OF fits ps(2)] by auto
    obtain w4 where w4: "modify g (\<lambda>d. copyRange d (node_data w3 f) from (of_nat (length es) - from)) w3 = Some w4"
      "txn_ok env \<sigma> n ?H (insert q L \<union> set ps) w4" "V w4 q = d3" "same_pages (insert q L \<union> set ps - {q}) w3 w4"
      using modify_rule [where g = "\<lambda>d. copyRange d (node_data w3 f) from (of_nat (length es) - from)", OF ps(5) gH _ lnode_reads(3) [OF d3(2)]]
        d3(1) node3 by auto
    have ok4: "txn_ok env \<sigma> n ?H (insert q (L \<union> set ps)) w4" and dis: "q \<notin> set ps" "set ps \<inter> L = {}" using w4(2) ps(4) by auto
    have "same_pages L w w4" using same_pages_trans [OF same3 same_pages_mono [OF w4(4)]] q(1) by auto
    moreover have "item_ok (V w4) (k, v, ps)"
      using ps(1,4) w4(4) item_ok_cong [of "(k, v, ps)" "V w4" "V w3"] unfolding same_pages_def by auto
    moreover have "lnode (V w4 q) (map item_entry (put_item (k, v, ps) es))"
      unfolding item_entries_put put_entry_def w4(3) using d3(2) by simp
    ultimately have "placed env \<sigma> n {#(g, q, True)#} H B [] (Leaf q (put_item (k, v, ps) es)) w w4"
      using placed_leaf [OF ready B ok4 q(1,2) dis(1) _ _ ps(3) dis(2)] by blast
    then show "result_ok (do {
         n \<leftarrow> nCells (node_data w3 f);
         w \<leftarrow> modify g (\<lambda>d. copyRange d (node_data w3 f) from (n - from)) w3;
         Some (Inr (Some (g, None)), w)
       }) (failed env \<sigma> H)
      (\<lambda>res w'. \<exists>g q ps. res = Some (g, None) \<and> placed env \<sigma> n {#(g, q, True)#} H B [] (Leaf q (put_item (k, v, ps) es)) w w')"
      using w4(1) node3 nc by (auto simp: result_ok_def)
  qed
  then show "result_ok (do {
       w \<leftarrow> modify g (\<lambda>d. copyRange d (node_data w1 f) 0 idx) w1;
       try_or (appendLeafCell env g k v w) (node_unpin g) (\<lambda>_ w. do {
         n \<leftarrow> nCells (node_data w f);
         w \<leftarrow> modify g (\<lambda>d. copyRange d (node_data w f) from (n - from)) w;
         Some (Inr (Some (g, None)), w)
       })
     }) (failed env \<sigma> H)
    (\<lambda>res w'. \<exists>g q ps. res = Some (g, None) \<and> placed env \<sigma> n {#(g, q, True)#} H B [] (Leaf q (put_item (k, v, ps) es)) w w')"
    using w2(1) by simp
qed (auto intro: txn_ok_failed)

section \<open>Splitting a leaf\<close>

lemma leaf_fits_length:
  assumes "\<not> leaf_fits es k v" "length k \<le> maxKeySize" "sorted_wrt (<) (map fst es)"
  shows "2 \<le> length (put_item (k, v, ps) es)"
proof (rule ccontr)
  let ?ov = "some_ov k v"
  let ?i = "item_at k es" and ?new = "put_entry (has_item k es) (item_at k es) (entry_of k v ?ov) (map item_entry es)"
  assume "\<not> 2 \<le> length (put_item (k, v, ps) es)"
  moreover have "length (put_item (k, v, ps) es) = length ?new" by (simp add: put_item_def put_entry_def)
  ultimately have "length ?new < 2" by simp
  moreover have "length (A @ x # C) < 2 \<Longrightarrow> A @ x # C = [x]" for A C and x :: entry by (cases A; cases C) auto
  ultimately have "?new = [entry_of k v ?ov]" unfolding put_entry_def by blast
  moreover have "length (lcell (entry_of k v ?ov)) \<le> 1021" using lcell_fields(4) [OF entry_of_ok [OF assms(2) some_ov]] .
  ultimately show False using assms(1) by (simp add: leaf_fits_def)
qed

lemma placed_two_leaves:
  assumes ready: "leaf_ready (V w) L p es k" and B: "B = L - set (ipages (others k es))"
    and ok: "txn_ok env \<sigma> n ({#(g1, q1, True), (g2, q2, True)#} + H) (insert q2 (insert q1 (L \<union> set ps))) w'"
    and q: "q1 \<notin> L \<union> set ps" "q1 \<noteq> 0" "q2 \<notin> insert q1 (L \<union> set ps)" "q2 \<noteq> 0"
    and same: "same_pages L w w'" and ps: "item_ok (V w') (k, v, ps)" "distinct ps" "set ps \<inter> L = {}"
    and new: "new = put_item (k, v, ps) es" and node: "lnode (V w' q1) (map item_entry (take s new))" "lnode (V w' q2) (map item_entry (drop s new))"
  shows "placed env \<sigma> n {#(g1, q1, True), (g2, q2, True)#} H B [(Leaf q1 (take s new), sep)] (Leaf q2 (drop s new)) w w'"
proof -
  have r: "leaf_ready (V w') L p es k" using ready same by (rule leaf_ready_cong)
  have sub: "set (ipages (others k es)) \<subseteq> L" using r by (simp add: leaf_ready_def)
  have items: "item_ok (V w') e" if "e \<in> set new" for e using that r ps(1) by (auto simp: leaf_ready_def set_put_item new)
  have td: "ipages (take s new) @ ipages (drop s new) = ipages new" by (metis append_take_drop_id ipages_simps(3))
  have pages: "set (group_pages [(Leaf q1 (take s new), sep)] (Leaf q2 (drop s new))) = insert q1 (insert q2 (set ps \<union> set (ipages (others k es))))"
  proof -
    have "set (ipages (take s new)) \<union> set (ipages (drop s new)) = set ps \<union> set (ipages (others k es))"
      unfolding set_append [symmetric] td unfolding new set_append set_ipages_put_item ..
    then show ?thesis unfolding group_simps ipages_simps by auto
  qed
  have "distinct (q1 # ipages new)" "distinct (q2 # ipages new)" unfolding new distinct_put_item using r ps q sub by (auto simp: leaf_ready_def)
  then have "distinct (group_pages [(Leaf q1 (take s new), sep)] (Leaf q2 (drop s new)))"
    unfolding group_simps ipages_simps using q(3) by (auto simp flip: td)
  moreover have "group_at (V w') [(Leaf q1 (take s new), sep)] (Leaf q2 (drop s new))"
    using node q(2,4) items in_set_takeD in_set_dropD unfolding group_simps tree_at.simps by metis
  moreover have "B \<union> set (group_pages [(Leaf q1 (take s new), sep)] (Leaf q2 (drop s new))) = insert q2 (insert q1 (L \<union> set ps))"
    unfolding pages B using sub by blast
  moreover have "set (group_pages [(Leaf q1 (take s new), sep)] (Leaf q2 (drop s new))) \<inter> B = {}" unfolding pages B using q ps(3) by blast
  moreover have "same_pages B w w'" using same_pages_mono [OF same] B by blast
  ultimately show ?thesis using ok unfolding placed_def by simp
qed

text \<open>Giving back the first page when the second cannot be allocated.\<close>

lemma give_back:
  assumes "txn_ok env \<sigma> n (add_mset (g, q, True) H) (insert q L) w" "q \<noteq> 0"
  shows "\<exists>w'. do { w \<leftarrow> free_page (Id w g) w; node_unpin g w } = Some w' \<and> failed env \<sigma> H w'"
proof -
  have "Id w g = q" using handle_node(2) [OF txn_read [OF assms(1)], of g q True] by simp
  moreover obtain w1 where w1: "free_page q w = Some w1" "txn_ok env \<sigma> n (add_mset (g, q, True) H) (insert q L - {q}) w1"
    using free_rule [OF assms(1) _ assms(2)] by blast
  moreover obtain w2 where "node_unpin g w1 = Some w2" "txn_ok env \<sigma> n H (insert q L - {q}) w2" using w1(2) by (rule unpin_rule)
  ultimately show ?thesis using txn_ok_failed by auto
qed

text \<open>Two fresh pages, filled at once.\<close>

lemma alloc_two_rule:
  assumes ok: "txn_ok env \<sigma> (Suc (Suc n)) H L w" and t: "t = nodeLeaf \<or> t = nodeInternal"
    and K: "\<And>g1 g2 q1 q2 w'. q1 \<notin> L \<Longrightarrow> q1 \<noteq> 0 \<Longrightarrow> q2 \<notin> insert q1 L \<Longrightarrow> q2 \<noteq> 0 \<Longrightarrow> node_cells (V w' q1) t [] \<Longrightarrow> node_cells (V w' q2) t [] \<Longrightarrow>
      txn_ok env \<sigma> n ({#(g1, q1, True), (g2, q2, True)#} + H) (insert q2 (insert q1 L)) w' \<Longrightarrow> same_pages L w w' \<Longrightarrow>
      result_ok (K g1 g2 w') (failed env \<sigma> H) Q"
  shows "result_ok (try_ok (alloc_node t env w) (\<lambda>f1 w.
     try_or (alloc_node t env w) (\<lambda>w. do { w \<leftarrow> free_page (Id w f1) w; node_unpin f1 w }) (\<lambda>f2 w. K f1 f2 w))) (failed env \<sigma> H) Q"
proof (rule try_ok_rule [OF alloc_node_rule [OF ok t]])
  fix g1 w2 assume "\<exists>q. q \<notin> L \<and> q \<noteq> 0 \<and> node_cells (V w2 q) t [] \<and> txn_ok env \<sigma> (Suc n) (add_mset (g1, q, True) H) (insert q L) w2 \<and> same_pages L w w2"
  then obtain q1 where q1: "q1 \<notin> L" "q1 \<noteq> 0" "node_cells (V w2 q1) t []" "txn_ok env \<sigma> (Suc n) (add_mset (g1, q1, True) H) (insert q1 L) w2"
    "same_pages L w w2" by blast
  show "result_ok (try_or (alloc_node t env w2) (\<lambda>w. do { w \<leftarrow> free_page (Id w g1) w; node_unpin g1 w }) (\<lambda>f2 w. K g1 f2 w)) (failed env \<sigma> H) Q"
  proof (rule try_or_rule [OF alloc_node_rule [OF q1(4) t]])
    show "\<exists>s'. do { w \<leftarrow> free_page (Id s g1) s; node_unpin g1 w } = Some s' \<and> failed env \<sigma> H s'"
      if "txn_ok env \<sigma> 0 (add_mset (g1, q1, True) H) (insert q1 L) s" for s using give_back [OF that q1(2)] .
  next
    fix g2 w3 assume "\<exists>q. q \<notin> insert q1 L \<and> q \<noteq> 0 \<and> node_cells (V w3 q) t [] \<and>
      txn_ok env \<sigma> n (add_mset (g2, q, True) (add_mset (g1, q1, True) H)) (insert q (insert q1 L)) w3 \<and> same_pages (insert q1 L) w2 w3"
    then obtain q2 where q2: "q2 \<notin> insert q1 L" "q2 \<noteq> 0" "node_cells (V w3 q2) t []"
      "txn_ok env \<sigma> n (add_mset (g2, q2, True) (add_mset (g1, q1, True) H)) (insert q2 (insert q1 L)) w3" "same_pages (insert q1 L) w2 w3" by blast
    have "node_cells (V w3 q1) t []" "same_pages L w w3" using q1(3,5) q2(5) unfolding same_pages_def by simp_all
    then show "result_ok (K g1 g2 w3) (failed env \<sigma> H) Q"
      using q2(4) by (intro K [OF q1(1,2) q2(1,2) _ q2(3)]) (simp_all add: add_mset_commute)
  qed
qed (auto intro: txn_ok_failed)

lemma put_two_rule:
  assumes ok: "txn_ok env \<sigma> n ({#(g1, q1, True), (g2, q2, True)#} + H) (insert q2 (insert q1 L)) w" and q: "q1 \<notin> L" "q2 \<notin> insert q1 L"
    and d: "length d1 = 4096" "length d2 = 4096" and w': "w' = put_node g2 d2 (put_node g1 d1 w)"
  shows "txn_ok env \<sigma> n ({#(g1, q1, True), (g2, q2, True)#} + H) (insert q2 (insert q1 L)) w'" "V w' q1 = d1" "V w' q2 = d2" "same_pages L w w'"
proof -
  have h: "(g1, q1, True) \<in># {#(g1, q1, True), (g2, q2, True)#} + H" "(g2, q2, True) \<in># {#(g1, q1, True), (g2, q2, True)#} + H" by simp_all
  note p1 = put_node_rule [OF ok h(1) d(1) put_node_def]
  note p2 = put_node_rule [OF p1(1) h(2) d(2) put_node_def]
  show "txn_ok env \<sigma> n ({#(g1, q1, True), (g2, q2, True)#} + H) (insert q2 (insert q1 L)) w'" "V w' q2 = d2" using p2(1,2) w' by simp_all
  show "V w' q1 = d1" using p1(2) p2(3) q(2) w' unfolding same_pages_def by auto
  have "V w' x = V w x" if "x \<in> L" for x
  proof -
    have "x \<noteq> q1" "x \<noteq> q2" using that q by auto
    then show ?thesis using p1(3) p2(3) that w' unfolding same_pages_def by simp
  qed
  then show "same_pages L w w'" unfolding same_pages_def by blast
qed

lemma splitLeaf_filled:
  assumes ready: "leaf_ready (V w) L p es k" and B: "B = L - set (ipages (others k es))" and f: "(f, p, wr) \<in># H"
    and ps: "item_ok (V w1) (k, v, ps)" "(chain_head ps = 0) = (5 + length k + length v \<le> maxInlineSize)" "distinct ps" "set ps \<inter> L = {}" "same_pages L w w1"
    and q: "q1 \<notin> L \<union> set ps" "q1 \<noteq> 0" "q2 \<notin> insert q1 (L \<union> set ps)" "q2 \<noteq> 0" "node_cells (V w3 q1) nodeLeaf []" "node_cells (V w3 q2) nodeLeaf []"
    and ok: "txn_ok env \<sigma> n ({#(g1, q1, True), (g2, q2, True)#} + H) (insert q2 (insert q1 (L \<union> set ps))) w3" "same_pages (L \<union> set ps) w1 w3"
    and kv: "length k \<le> maxKeySize" and idx: "unat idx = item_at k es" and new: "new = put_item (k, v, ps) es"
    and s: "unat sp = s" "0 < s" "s < length new" "5 + lcost (take s (map item_entry new)) \<le> 4096" "5 + lcost (drop s (map item_entry new)) \<le> 4096"
  shows "\<exists>d1 d2. splitLeaf_fill (node_data w3 f) (node_data w3 g1) (node_data w3 g2) idx sp k v (chain_head ps) (has_item k es) =
      Some (d1, d2, fst (new ! s)) \<and>
    placed env \<sigma> n {#(g1, q1, True), (g2, q2, True)#} H B [(Leaf q1 (take s new), fst (new ! s))] (Leaf q2 (drop s new)) w (put_node g2 d2 (put_node g1 d1 w3))"
proof -
  have pL: "p \<in> L" and node: "lnode (V w p) (map item_entry es)" and srt: "sorted_wrt (<) (map fst es)" using ready by (simp_all add: leaf_ready_def)
  have ib: "item_at k es < length (map item_entry es) \<or> \<not> has_item k es \<and> item_at k es = length (map item_entry es)"
    using item_at_bound(1) [OF srt, of k] by simp
  have nd: "node_data w3 f = V w p" "node_data w3 g1 = V w3 q1" "node_data w3 g2 = V w3 q2"
    using handle_node(1) [OF txn_read [OF ok(1)], of f p wr] handle_node(1) [OF txn_read [OF ok(1)], of g1 q1 True]
      handle_node(1) [OF txn_read [OF ok(1)], of g2 q2 True] f pL ps(5) ok(2) unfolding same_pages_def by simp_all
  have me: "map item_entry new = put_entry (has_item k es) (item_at k es) (entry_of k v (chain_head ps)) (map item_entry es)"
    unfolding new by (rule item_entries_put)
  obtain d1 d2 where d: "splitLeaf_fill (V w p) (V w3 q1) (V w3 q2) idx sp k v (chain_head ps) (has_item k es) = Some (d1, d2, fst (map item_entry new ! s))"
    "lnode d1 (take s (map item_entry new))" "lnode d2 (drop s (map item_entry new))"
    using splitLeaf_fill_lnode [OF node lnode_init [OF q(5)] lnode_init [OF q(6)] idx ib s(1,2) _ kv ps(2) me s(4,5)] s(3) by auto
  note w4 = put_two_rule [OF ok(1) q(1,3) lnode_reads(3) [OF d(2)] lnode_reads(3) [OF d(3)] refl]
  let ?w = "put_node g2 d2 (put_node g1 d1 w3)"
  have same: "same_pages (L \<union> set ps) w1 ?w" using same_pages_trans [OF ok(2) w4(4)] .
  have "same_pages L w ?w" using same_pages_trans [OF ps(5) same_pages_mono [OF same]] by blast
  moreover have "item_ok (V ?w) (k, v, ps)" using ps(1) same item_ok_cong [of "(k, v, ps)" "V ?w" "V w1"] unfolding same_pages_def by simp
  moreover have "lnode (V ?w q1) (map item_entry (take s new))" "lnode (V ?w q2) (map item_entry (drop s new))"
    unfolding take_map [symmetric] drop_map [symmetric] w4(2,3) using d(2,3) by simp_all
  ultimately have "placed env \<sigma> n {#(g1, q1, True), (g2, q2, True)#} H B [(Leaf q1 (take s new), fst (new ! s))] (Leaf q2 (drop s new)) w ?w"
    using placed_two_leaves [OF ready B w4(1) q(1-4) _ _ ps(3,4) new] by blast
  then show ?thesis unfolding nd using d(1) s(3) by auto
qed

lemma splitLeaf_rule:
  assumes ok: "txn_ok env \<sigma> (Suc (Suc n) + chain_pages (length v)) H L w" and f: "(f, p, wr) \<in># H"
    and ready: "leaf_ready (V w) L p es k" and B: "B = L - set (ipages (others k es))"
    and kv: "length k \<le> maxKeySize" "length v < 65536" and fits: "\<not> leaf_fits es k v" and idx: "unat idx = item_at k es"
  shows "result_ok (splitLeaf env f idx k v (has_item k es) w) (failed env \<sigma> H)
    (\<lambda>(g1, g2, sep) w'. \<exists>q1 q2 ps s. 0 < s \<and> s < length (put_item (k, v, ps) es) \<and> sep = fst (put_item (k, v, ps) es ! s) \<and>
      placed env \<sigma> n {#(g1, q1, True), (g2, q2, True)#} H B [(Leaf q1 (take s (put_item (k, v, ps) es)), sep)] (Leaf q2 (drop s (put_item (k, v, ps) es))) w w')"
    (is "result_ok _ _ ?Q")
proof -
  let ?i = "item_at k es" and ?es = "map item_entry es" and ?rep = "has_item k es"
  have node: "lnode (V w p) ?es" and srt: "sorted_wrt (<) (map fst es)" using ready by (simp_all add: leaf_ready_def)
  have ib: "?i < length ?es \<or> \<not> ?rep \<and> ?i = length ?es" using item_at_bound(1) [OF srt, of k] by simp
  have d0: "node_data w f = V w p" using handle_node(1) [OF txn_read [OF ok] f] .
  have len: "length (put_entry ?rep ?i (entry_of k v ov) ?es) = length (put_item (k, v, ps) es)" for ov ps by (simp add: put_item_def put_entry_def)
  have halves: "\<exists>s. splitLeaf_index (V w p) idx k v ?rep = Some (of_nat s) \<and> 0 < s \<and> s < length (put_item (k, v, ps) es) \<and>
      5 + lcost (take s (put_entry ?rep ?i (entry_of k v ov) ?es)) \<le> 4096 \<and> 5 + lcost (drop s (put_entry ?rep ?i (entry_of k v ov) ?es)) \<le> 4096"
    if "(ov = 0) = (5 + length k + length v \<le> maxInlineSize)" for ov ps
    using splitLeaf_index_halves [OF node idx ib that kv(1) refl] leaf_fits_length [OF fits kv(1) srt, of ps] unfolding len [of ov ps] by metis
  obtain sp where sp: "splitLeaf_index (V w p) idx k v ?rep = Some sp" using halves [OF some_ov] by blast
  have "result_ok (try_ok (leafCellOverflow env k v w) (\<lambda>overflowID w.
     try_ok (alloc_node nodeLeaf env w) (\<lambda>f1 w.
     try_or (alloc_node nodeLeaf env w) (\<lambda>w. do { w \<leftarrow> free_page (Id w f1) w; node_unpin f1 w }) (\<lambda>f2 w. do {
       (d1, d2, sepKey) \<leftarrow> splitLeaf_fill (node_data w f) (node_data w f1) (node_data w f2) idx sp k v overflowID ?rep;
       Some (Inr (f1, f2, sepKey), put_node f2 d2 (put_node f1 d1 w))
     })))) (failed env \<sigma> H) ?Q"
  proof (rule try_ok_rule [OF leafCellOverflow_rule [OF ok kv]])
    fix ov w1 assume "\<exists>ps. ov = chain_head ps \<and> item_written env \<sigma> (Suc (Suc n)) H L k v ps w w1"
    then obtain ps where ov: "ov = chain_head ps" and ps: "item_ok (V w1) (k, v, ps)" "(chain_head ps = 0) = (5 + length k + length v \<le> maxInlineSize)"
      "distinct ps" "set ps \<inter> L = {}" "same_pages L w w1" and ok1: "txn_ok env \<sigma> (Suc (Suc n)) H (L \<union> set ps) w1" unfolding item_written_def by blast
    obtain s where s: "sp = of_nat s" "0 < s" "s < length (put_item (k, v, ps) es)"
      "5 + lcost (take s (map item_entry (put_item (k, v, ps) es))) \<le> 4096" "5 + lcost (drop s (map item_entry (put_item (k, v, ps) es))) \<le> 4096"
      using halves [OF ps(2), of ps] sp unfolding item_entries_put by auto
    have "length (put_item (k, v, ps) es) \<le> Suc (length es)" using length_put_entry [OF item_at_bound(1) [OF srt, of k], of "(k, v, ps)"] by (simp add: put_item_def)
    then have us: "unat sp = s" using s(1,3) lnode_length [OF node] by (simp add: unat_of_nat take_bit_nat_eq_self)
    show "result_ok (try_ok (alloc_node nodeLeaf env w1) (\<lambda>f1 w.
       try_or (alloc_node nodeLeaf env w) (\<lambda>w. do { w \<leftarrow> free_page (Id w f1) w; node_unpin f1 w }) (\<lambda>f2 w. do {
         (d1, d2, sepKey) \<leftarrow> splitLeaf_fill (node_data w f) (node_data w f1) (node_data w f2) idx sp k v ov ?rep;
         Some (Inr (f1, f2, sepKey), put_node f2 d2 (put_node f1 d1 w))
       }))) (failed env \<sigma> H) ?Q"
    proof (rule alloc_two_rule [OF ok1])
      fix g1 g2 q1 q2 w3
      assume q: "q1 \<notin> L \<union> set ps" "q1 \<noteq> 0" "q2 \<notin> insert q1 (L \<union> set ps)" "q2 \<noteq> 0" "node_cells (V w3 q1) nodeLeaf []" "node_cells (V w3 q2) nodeLeaf []"
        and ok3: "txn_ok env \<sigma> n ({#(g1, q1, True), (g2, q2, True)#} + H) (insert q2 (insert q1 (L \<union> set ps))) w3" "same_pages (L \<union> set ps) w1 w3"
      obtain d1 d2 where d: "splitLeaf_fill (node_data w3 f) (node_data w3 g1) (node_data w3 g2) idx sp k v ov ?rep =
          Some (d1, d2, fst (put_item (k, v, ps) es ! s))"
        "placed env \<sigma> n {#(g1, q1, True), (g2, q2, True)#} H B [(Leaf q1 (take s (put_item (k, v, ps) es)), fst (put_item (k, v, ps) es ! s))]
          (Leaf q2 (drop s (put_item (k, v, ps) es))) w (put_node g2 d2 (put_node g1 d1 w3))"
        using splitLeaf_filled [OF ready B f ps q ok3 kv(1) idx refl us s(2-5)] ov by blast
      show "result_ok (do {
          (d1, d2, sepKey) \<leftarrow> splitLeaf_fill (node_data w3 f) (node_data w3 g1) (node_data w3 g2) idx sp k v ov ?rep;
          Some (Inr (g1, g2, sepKey), put_node g2 d2 (put_node g1 d1 w3))
        }) (failed env \<sigma> H) ?Q"
        unfolding d(1) result_ok_def using d(2) s(2,3) by auto
    qed simp
  qed (auto intro: txn_ok_failed)
  then show ?thesis unfolding splitLeaf_def allocLeaf_def d0 sp by simp
qed

section \<open>Updating a leaf\<close>

definition stored :: "(PageId \<Rightarrow> bytes) \<Rightarrow> PageId set \<Rightarrow> tree \<Rightarrow> bool" where
  "stored W L t \<longleftrightarrow> tree_at W t \<and> distinct (tpages t) \<and> set (tpages t) \<subseteq> L \<and> level (height t) t"

definition base :: "PageId set \<Rightarrow> tree \<Rightarrow> PageId set" where
  "base L t = insert (tid t) (L - set (tpages t))"

fun allowed :: "Mode \<Rightarrow> bool \<Rightarrow> bool" where
  "allowed ModeUpsert b \<longleftrightarrow> True"
| "allowed ModeInsert b \<longleftrightarrow> \<not> b"
| "allowed ModeUpdate b \<longleftrightarrow> b"

text \<open>A group that can stand where \<open>t\<close> stood, now for the map \<open>m\<close>.\<close>

definition replaces :: "bytes option \<Rightarrow> bytes option \<Rightarrow> (bytes \<rightharpoonup> bytes) \<Rightarrow> tree \<Rightarrow> (tree \<times> bytes) list \<Rightarrow> tree \<Rightarrow> bool" where
  "replaces lo hi m t ns n \<longleftrightarrow> ordered_cs lo ns n hi \<and> map_of (group_kvs ns n) = m \<and> group_level (height t) ns n \<and>
     set (group_seps ns n) \<subseteq> set (seps t) \<union> dom m"

definition updated ::
    "env \<Rightarrow> backdrop \<Rightarrow> nat \<Rightarrow> handle multiset \<Rightarrow> PageId set \<Rightarrow> bytes option \<Rightarrow> tree \<Rightarrow> bytes option \<Rightarrow> (bytes \<rightharpoonup> bytes) \<Rightarrow>
     world \<Rightarrow> rebuilt \<Rightarrow> world \<Rightarrow> bool" where
  "updated env \<sigma> n H L lo t hi m w res w' \<longleftrightarrow>
     (case res of
        None \<Rightarrow> map_of (kvs t) = m \<and> txn_ok env \<sigma> n H L w' \<and> same_pages L w w'
      | Some (g, None) \<Rightarrow> (\<exists>t'. placed env \<sigma> n {#(g, tid t', True)#} H (base L t) [] t' w w' \<and> replaces lo hi m t [] t')
      | Some (g1, Some (g2, s)) \<Rightarrow> (\<exists>a b. placed env \<sigma> n {#(g1, tid a, True), (g2, tid b, True)#} H (base L t) [(a, s)] b w w' \<and>
          replaces lo hi m t [(a, s)] b \<and> length s \<le> maxKeySize))"

lemma others_absent: "\<not> has_item k es \<Longrightarrow> others k es = es"
  by (simp add: others_def)

lemma others_present:
  assumes "sorted_wrt (<) (map fst es)" "has_item k es"
  obtains v ps where "es ! item_at k es = (k, v, ps)" "item_at k es < length es"
    "set es = insert (k, v, ps) (set (others k es))" "set (ipages es) = set ps \<union> set (ipages (others k es))"
    "distinct (ipages es) \<Longrightarrow> distinct ps \<and> distinct (ipages (others k es)) \<and> set ps \<inter> set (ipages (others k es)) = {}"
proof -
  have i: "item_at k es < length es" "fst (es ! item_at k es) = k" using item_at_bound(3) [OF assms] by simp_all
  obtain v ps where e: "es ! item_at k es = (k, v, ps)" using i(2) by (cases "es ! item_at k es") auto
  have es: "es = take (item_at k es) es @ (k, v, ps) # drop (Suc (item_at k es)) es" using id_take_nth_drop [OF i(1)] e by simp
  have o: "others k es = take (item_at k es) es @ drop (Suc (item_at k es)) es" using assms(2) by (simp add: others_def)
  have ip: "ipages es = ipages (take (item_at k es) es) @ ps @ ipages (drop (Suc (item_at k es)) es)"
    using arg_cong [OF es, of ipages] by simp
  show thesis
  proof (rule that [OF e i(1)])
    show "set es = insert (k, v, ps) (set (others k es))" using arg_cong [OF es, of set] unfolding o by simp
    show "set (ipages es) = set ps \<union> set (ipages (others k es))" unfolding o using arg_cong [OF ip, of set] by auto
    show "distinct ps \<and> distinct (ipages (others k es)) \<and> set ps \<inter> set (ipages (others k es)) = {}" if "distinct (ipages es)"
      using that unfolding o ip by auto
  qed
qed

lemma leaf_parts:
  assumes st: "stored W L (Leaf p es)" and srt: "sorted_wrt (<) (map fst es)"
    and ps: "if has_item k es then \<exists>v. es ! item_at k es = (k, v, ps) else ps = []"
  shows "leaf_ready W (L - set ps) p es k" "L - set ps - set (ipages (others k es)) = base L (Leaf p es)" "set ps \<subseteq> L" "distinct ps" "p \<notin> set ps"
proof -
  have s: "p \<noteq> 0" "lnode (W p) (map item_entry es)" "\<forall>e \<in> set es. item_ok W e" "distinct (ipages es)" "p \<notin> set (ipages es)" "p \<in> L" "set (ipages es) \<subseteq> L"
    using st by (auto simp: stored_def simp del: tpages.simps(1))
  have o: "set (others k es) \<subseteq> set es" "set (ipages es) = set ps \<union> set (ipages (others k es))"
    "distinct ps \<and> distinct (ipages (others k es)) \<and> set ps \<inter> set (ipages (others k es)) = {}"
  proof (atomize (full), cases "has_item k es")
    case True
    obtain v' ps' where e: "es ! item_at k es = (k, v', ps')" "item_at k es < length es" "set es = insert (k, v', ps') (set (others k es))"
      "set (ipages es) = set ps' \<union> set (ipages (others k es))"
      "distinct (ipages es) \<Longrightarrow> distinct ps' \<and> distinct (ipages (others k es)) \<and> set ps' \<inter> set (ipages (others k es)) = {}"
      using srt True by (rule others_present) blast
    then have "ps' = ps" using ps True by auto
    then show "set (others k es) \<subseteq> set es \<and> set (ipages es) = set ps \<union> set (ipages (others k es)) \<and>
        (distinct ps \<and> distinct (ipages (others k es)) \<and> set ps \<inter> set (ipages (others k es)) = {})" using e(3-5) s(4) by blast
  next
    case False
    then show "set (others k es) \<subseteq> set es \<and> set (ipages es) = set ps \<union> set (ipages (others k es)) \<and>
        (distinct ps \<and> distinct (ipages (others k es)) \<and> set ps \<inter> set (ipages (others k es)) = {})" using ps s(4) by (simp add: others_absent)
  qed
  show "leaf_ready W (L - set ps) p es k" using s o srt unfolding leaf_ready_def by auto
  show "L - set ps - set (ipages (others k es)) = base L (Leaf p es)"
    using s o by (auto simp: base_def simp del: tpages.simps(1))
  show "set ps \<subseteq> L" "distinct ps" "p \<notin> set ps" using s o by auto
qed

lemma ordered_put_item:
  assumes "ordered lo (Leaf p es) hi" "above lo k" "below k hi"
  shows "ordered lo (Leaf q (put_item (k, v, ps) es)) hi"
  using assms put_item_sorted [of es "(k, v, ps)"] by auto

lemma ordered_split_items:
  assumes "ordered lo (Leaf q new) hi" "0 < s" "s < length new"
  shows "ordered_cs lo [(Leaf q1 (take s new), fst (new ! s))] (Leaf q2 (drop s new)) hi"
proof -
  have srt: "sorted_wrt (<) (map fst new)" and b: "\<And>e. e \<in> set new \<Longrightarrow> above lo (fst e) \<and> below (fst e) hi" using assms(1) by auto
  have lt: "fst (new ! i) < fst (new ! j)" if "i < j" "j < length new" for i j using sorted_wrt_nth_less [OF srt that(1)] that by simp
  have left: "fst e < fst (new ! s)" if "e \<in> set (take s new)" for e using that lt assms(3) by (auto simp: in_set_conv_nth)
  have right: "fst (new ! s) \<le> fst e" if e: "e \<in> set (drop s new)" for e
  proof -
    obtain j where "j < length new - s" "e = new ! (s + j)" using e by (auto simp: in_set_conv_nth)
    then show ?thesis using lt [of s "s + j"] by (cases j) (auto intro: less_imp_le)
  qed
  have "0 < length new" using assms(3) by linarith
  then have "new ! 0 \<in> set new" by (rule nth_mem)
  then have "above lo (fst (new ! 0))" "fst (new ! 0) < fst (new ! s)" using b [of "new ! 0"] lt [of 0 s] assms(2,3) by simp_all
  then have "strictly_above lo (fst (new ! s))" by (auto simp: above_def strictly_above_def split: option.splits intro: le_less_trans)
  moreover have "below (fst (new ! s)) hi" using b assms(3) by simp
  moreover have "sorted_wrt (<) (map fst (take s new))" "sorted_wrt (<) (map fst (drop s new))"
    using srt by (simp_all add: sorted_wrt_take sorted_wrt_drop flip: take_map drop_map)
  ultimately show ?thesis
    using b left right in_set_takeD [of _ s new] in_set_dropD [of _ s new] by (auto simp: above_def below_def)
qed

lemma placed_from: "same_pages B w0 w \<Longrightarrow> placed env \<sigma> n hs H B ns t w w' \<Longrightarrow> placed env \<sigma> n hs H B ns t w0 w'"
  using same_pages_trans by (auto simp: placed_def)

lemma updated_from:
  assumes "same_pages (base L t) w0 w" "res \<noteq> None" "updated env \<sigma> n H L lo t hi m w res w'"
  shows "updated env \<sigma> n H L lo t hi m w0 res w'"
  using assms(2,3) placed_from [OF assms(1)] unfolding updated_def by (auto split: option.splits) blast+

text \<open>The guards of the code decide exactly whether the updated items fit one page.\<close>

lemma leafCellSize_some: "leafCellSize k v = of_nat (length (lcell (entry_of k v (some_ov k v))))"
  by (rule leafCellSize_entry [OF some_ov])

lemma cell_length_some: "length k \<le> maxKeySize \<Longrightarrow> length (lcell (entry_of k v (some_ov k v))) \<le> 1021"
  using lcell_fields(4) [OF entry_of_ok [OF _ some_ov]] .

lemma leaf_fits_cost:
  assumes "sorted_wrt (<) (map fst es)"
  shows "leaf_fits es k v \<longleftrightarrow> 5 + lcost (map item_entry es) + length (lcell (entry_of k v (some_ov k v))) + 2 \<le>
    4096 + (if has_item k es then length (lcell (item_entry (es ! item_at k es))) + 2 else 0)"
proof -
  have "item_at k es < length (map item_entry es) \<or> \<not> has_item k es \<and> item_at k es = length (map item_entry es)"
    using item_at_bound(1) [OF assms, of k] by simp
  from lcost_put_entry [OF this, of "entry_of k v (some_ov k v)"] show ?thesis
    using item_at_bound(3) [OF assms, of k] unfolding leaf_fits_def by (cases "has_item k es") auto
qed

lemma add_guard:
  assumes "lnode d (map item_entry es)" "sorted_wrt (<) (map fst es)" "\<not> has_item k es" "length k \<le> maxKeySize"
  shows "\<exists>free. freeSpace d = Some free \<and> (leafCellSize k v + 2 > free \<longleftrightarrow> \<not> leaf_fits es k v)"
  using lnode_reads(4) [OF assms(1)] lnode_fits [OF assms(1)] leaf_fits_cost [OF assms(2), of k v] assms(3) cell_length_some [OF assms(4), of v]
  by (simp add: leafCellSize_some u16_simps word_less_nat_alt) linarith

lemma replace_guard:
  assumes d: "lnode d (map item_entry es)" and srt: "sorted_wrt (<) (map fst es)" and has: "has_item k es" and k: "length k \<le> maxKeySize"
    and idx: "unat idx = item_at k es"
  shows "\<exists>free old. freeSpace d = Some free \<and> cellSize d idx = Some old \<and>
    ((if leafCellSize k v > old then leafCellSize k v - old else 0) > free \<longleftrightarrow> \<not> leaf_fits es k v)"
proof -
  have i: "item_at k es < length (map item_entry es)" using item_at_bound(3) [OF srt has] by simp
  let ?o = "length (lcell (item_entry (es ! item_at k es)))" and ?n = "length (lcell (entry_of k v (some_ov k v)))" and ?c = "lcost (map item_entry es)"
  have o: "cellSize d idx = Some (of_nat ?o)" "?o \<le> 1021" using lnode_cell(2) [OF d idx i] lcell_fields(4) [OF lnode_nth_ok [OF d i]] i by simp_all
  have f: "freeSpace d = Some (of_nat (4096 - 5 - ?c))" "5 + ?c \<le> 4096" using lnode_reads(4) [OF d] lnode_fits [OF d] by simp_all
  have n: "?n \<le> 1021" using cell_length_some [OF k] .
  have u: "unat (of_nat ?o :: u16) = ?o" "unat (of_nat ?n :: u16) = ?n" "unat (of_nat (4096 - 5 - ?c) :: u16) = 4096 - 5 - ?c"
    using o(2) n by (simp_all add: unat_of_nat take_bit_nat_eq_self)
  have "unat (if leafCellSize k v > of_nat ?o then leafCellSize k v - of_nat ?o else 0) = (if ?o < ?n then ?n - ?o else 0)"
    unfolding leafCellSize_some using u by (simp add: word_less_nat_alt unat_sub word_le_nat_alt)
  then have "(if leafCellSize k v > of_nat ?o then leafCellSize k v - of_nat ?o else 0) > (of_nat (4096 - 5 - ?c) :: u16) \<longleftrightarrow>
      4096 - 5 - ?c < (if ?o < ?n then ?n - ?o else 0)" by (simp only: word_less_nat_alt u)
  moreover have "\<dots> \<longleftrightarrow> \<not> leaf_fits es k v" using f(2) has by (simp add: leaf_fits_cost [OF srt]) linarith
  ultimately show ?thesis using o(1) f(1) by blast
qed

lemma store_item_rule:
  assumes ok: "txn_ok env \<sigma> (Suc (Suc n) + chain_pages (length v)) H L1 w" and f: "(f, p, wr) \<in># H"
    and ready: "leaf_ready (V w) L1 p es k" and B: "L1 - set (ipages (others k es)) = base L (Leaf p es)"
    and kv: "length k \<le> maxKeySize" "length v < 65536" and ord: "ordered lo (Leaf p es) hi" "above lo k" "below k hi"
    and idx: "unat idx = item_at k es" "unat from = (if has_item k es then Suc (item_at k es) else item_at k es)"
  shows "result_ok (if \<not> leaf_fits es k v then split_rebuilt (splitLeaf env f idx k v (has_item k es) w) else rebuildLeaf env f idx from k v w)
    (failed env \<sigma> H) (\<lambda>res w'. res \<noteq> None \<and> updated env \<sigma> n H L lo (Leaf p es) hi ((map_of (map item_kv es))(k \<mapsto> v)) w res w')"
proof (cases "leaf_fits es k v")
  case True
  have "0 \<in> L1" using ok by (simp add: txn_ok_def lists_ok_def)
  then have ok1: "txn_ok env \<sigma> (Suc (n + chain_pages (length v))) H L1 w" using txn_ok_weaken [OF ok subset_refl] by simp
  show ?thesis
  proof (simp only: True not_True_eq_False if_False, rule result_ok_mono [OF rebuildLeaf_rule [OF ok1 f ready B [symmetric] kv True idx]])
    fix res :: rebuilt and w' assume "\<exists>g q ps. res = Some (g, None) \<and> placed env \<sigma> n {#(g, q, True)#} H (base L (Leaf p es)) [] (Leaf q (put_item (k, v, ps) es)) w w'"
    then obtain g q ps where r: "res = Some (g, None)" "placed env \<sigma> n {#(g, q, True)#} H (base L (Leaf p es)) [] (Leaf q (put_item (k, v, ps) es)) w w'" by blast
    have "placed env \<sigma> n {#(g, tid (Leaf q (put_item (k, v, ps) es)), True)#} H (base L (Leaf p es)) [] (Leaf q (put_item (k, v, ps) es)) w w' \<and>
        replaces lo hi ((map_of (map item_kv es))(k \<mapsto> v)) (Leaf p es) [] (Leaf q (put_item (k, v, ps) es))"
      using r(2) ordered_put_item [OF ord] put_item_map [of es k v ps] ord(1) by (simp add: replaces_def)
    then show "res \<noteq> None \<and> updated env \<sigma> n H L lo (Leaf p es) hi ((map_of (map item_kv es))(k \<mapsto> v)) w res w'"
      unfolding updated_def r(1) by (simp only: option.simps prod.simps) blast
  qed
next
  case False
  show ?thesis unfolding split_rebuilt_def if_P [OF False]
  proof (rule try_ok_rule [OF splitLeaf_rule [OF ok f ready B [symmetric] kv False idx(1)]])
    fix x w' assume "(case x of (g1, g2, sep) \<Rightarrow> \<lambda>w'. \<exists>q1 q2 ps s. 0 < s \<and> s < length (put_item (k, v, ps) es) \<and> sep = fst (put_item (k, v, ps) es ! s) \<and>
      placed env \<sigma> n {#(g1, q1, True), (g2, q2, True)#} H (base L (Leaf p es)) [(Leaf q1 (take s (put_item (k, v, ps) es)), sep)] (Leaf q2 (drop s (put_item (k, v, ps) es))) w w') w'"
    then obtain g1 g2 sep q1 q2 ps s where x: "x = (g1, g2, sep)" and s: "0 < s" "s < length (put_item (k, v, ps) es)" "sep = fst (put_item (k, v, ps) es ! s)" and
      pl: "placed env \<sigma> n {#(g1, q1, True), (g2, q2, True)#} H (base L (Leaf p es)) [(Leaf q1 (take s (put_item (k, v, ps) es)), sep)] (Leaf q2 (drop s (put_item (k, v, ps) es))) w w'"
      by (auto split: prod.splits)
    let ?a = "Leaf q1 (take s (put_item (k, v, ps) es))" and ?b = "Leaf q2 (drop s (put_item (k, v, ps) es))"
    have "ordered_cs lo [(?a, sep)] ?b hi" unfolding s(3) using ordered_split_items [OF ordered_put_item [OF ord] s(1,2)] by blast
    moreover have gk: "group_kvs [(?a, sep)] ?b = map item_kv (put_item (k, v, ps) es)"
      unfolding group_simps kvs.simps map_append [symmetric] append_take_drop_id ..
    then have "map_of (group_kvs [(?a, sep)] ?b) = (map_of (map item_kv es))(k \<mapsto> v)" using put_item_map [of es k v ps] ord(1) by simp
    moreover have "length sep \<le> maxKeySize" "sep \<in> dom (map_of (group_kvs [(?a, sep)] ?b))"
    proof -
      have "fst (put_item (k, v, ps) es ! s) \<in> fst ` set (map item_kv (put_item (k, v, ps) es))"
        using nth_mem [OF s(2)] by (force simp: item_kv_def)
      then show "sep \<in> dom (map_of (group_kvs [(?a, sep)] ?b))"
        unfolding gk dom_map_of_conv_image_fst unfolding s(3) .
      have "put_item (k, v, ps) es ! s \<in> set (drop s (put_item (k, v, ps) es))" using s(2) by (metis Cons_nth_drop_Suc list.set_intros(1))
      then have "item_ok (V w') (put_item (k, v, ps) es ! s)" using pl unfolding placed_def group_simps tree_at.simps by blast
      then show "length sep \<le> maxKeySize" unfolding s(3) by (auto simp: item_ok_def split: prod.splits)
    qed
    ultimately have "placed env \<sigma> n {#(g1, tid ?a, True), (g2, tid ?b, True)#} H (base L (Leaf p es)) [(?a, sep)] ?b w w' \<and>
        replaces lo hi ((map_of (map item_kv es))(k \<mapsto> v)) (Leaf p es) [(?a, sep)] ?b \<and> length sep \<le> maxKeySize"
      using pl unfolding replaces_def by simp
    then have "updated env \<sigma> n H L lo (Leaf p es) hi ((map_of (map item_kv es))(k \<mapsto> v)) w (Some (g1, Some (g2, sep))) w'"
      unfolding updated_def by (simp only: option.simps prod.simps) blast
    then show "result_ok ((case x of (f1, f2, sepKey) \<Rightarrow> \<lambda>w. Some (Inr (Some (f1, Some (f2, sepKey))), w)) w') (failed env \<sigma> H)
        (\<lambda>res w'. res \<noteq> None \<and> updated env \<sigma> n H L lo (Leaf p es) hi ((map_of (map item_kv es))(k \<mapsto> v)) w res w')" unfolding x by (simp add: result_ok_def)
  qed
qed

lemma has_item_map: "has_item k es \<longleftrightarrow> map_of (map item_kv es) k \<noteq> None"
  by (force simp: has_item_def map_of_eq_None_iff item_kv_def image_iff)

lemma map_of_item:
  assumes "sorted_wrt (<) (map fst es)" "i < length es" "es ! i = (k, v, ps)"
  shows "map_of (map item_kv es) k = Some v"
proof (rule map_of_is_SomeI)
  show "distinct (map fst (map item_kv es))" using assms(1) by (simp add: item_kv_def comp_def strict_sorted_iff)
  have "(k, v, ps) \<in> set es" using assms(2,3) by (metis nth_mem)
  then show "(k, v) \<in> set (map item_kv es)" by (force simp: item_kv_def)
qed

lemma searchLeaf_items:
  assumes "lnode d (map item_entry es)" "sorted_wrt (<) (map fst es)"
  obtains idx where "searchLeaf d k = Some (idx, has_item k es)" "unat idx = item_at k es" "unat (idx + 1) = Suc (item_at k es)"
proof -
  have keys: "map fst (map item_entry es) = map fst es" "fst ` set (map item_entry es) = fst ` set es" by (simp_all add: image_image)
  have "searchLeaf d k = Some (of_nat (item_at k es), has_item k es)"
    using searchLeaf_lnode [OF assms(1)] assms(2) unfolding keys item_at_def has_item_def by simp
  moreover have "item_at k es \<le> 2045" using item_at_bound(2) [OF assms(2), of k] lnode_length [OF assms(1)] by simp
  ultimately show thesis using that [of "of_nat (item_at k es)"] by (simp add: u16_simps)
qed

lemma addLeafValue_rule:
  assumes ok: "txn_ok env \<sigma> (Suc (Suc n) + chain_pages (length v)) H L w" and f: "(f, p, wr) \<in># H" and st: "stored (V w) L (Leaf p es)"
    and kv: "length k \<le> maxKeySize" "length v < 65536" and ord: "ordered lo (Leaf p es) hi" "above lo k" "below k hi"
    and idx: "unat idx = item_at k es" and no: "\<not> has_item k es"
  shows "result_ok (addLeafValue env f idx k v mode w) (failed env \<sigma> H)
    (\<lambda>res w'. allowed mode False \<and> updated env \<sigma> n H L lo (Leaf p es) hi ((map_of (map item_kv es))(k \<mapsto> v)) w res w')"
proof -
  have srt: "sorted_wrt (<) (map fst es)" and ln: "lnode (V w p) (map item_entry es)" using ord(1) st by (simp_all add: stored_def)
  have parts: "leaf_ready (V w) (L - set []) p es k" "L - set [] - set (ipages (others k es)) = base L (Leaf p es)"
    using leaf_parts [OF st srt, of k "[]"] no by simp_all
  have d: "node_data w f = V w p" using handle_node(1) [OF txn_read [OF ok] f] .
  obtain free where fr: "freeSpace (V w p) = Some free" "leafCellSize k v + 2 > free \<longleftrightarrow> \<not> leaf_fits es k v"
    using add_guard [OF ln srt no kv(1)] by blast
  have idx2: "unat idx = (if has_item k es then Suc (item_at k es) else item_at k es)" using idx no by simp
  have r: "result_ok (if \<not> leaf_fits es k v then split_rebuilt (splitLeaf env f idx k v (has_item k es) w) else rebuildLeaf env f idx idx k v w)
      (failed env \<sigma> H) (\<lambda>res w'. res \<noteq> None \<and> updated env \<sigma> n H L lo (Leaf p es) hi ((map_of (map item_kv es))(k \<mapsto> v)) w res w')"
    using store_item_rule [OF _ f parts kv ord idx idx2] ok by simp
  show ?thesis
  proof (cases "mode = ModeUpdate")
    case True
    then show ?thesis using txn_ok_failed [OF ok] by (simp add: addLeafValue_def result_ok_def)
  next
    case False
    then have "allowed mode False" by (cases mode) auto
    then have "result_ok (if \<not> leaf_fits es k v then split_rebuilt (splitLeaf env f idx k v False w) else rebuildLeaf env f idx idx k v w) (failed env \<sigma> H)
      (\<lambda>res w'. allowed mode False \<and> updated env \<sigma> n H L lo (Leaf p es) hi ((map_of (map item_kv es))(k \<mapsto> v)) w res w')"
      using result_ok_mono [OF r] no by auto
    then show ?thesis using False by (simp only: addLeafValue_def d fr Let_def if_False bind.bind_lunit)
  qed
qed

lemma freeOldValue_rule:
  assumes ok: "txn_ok env \<sigma> m H L w" and e: "item_ok (V w) (k, v, ps)" "set ps \<subseteq> L" "distinct ps"
  shows "result_ok (if chain_head ps \<noteq> 0 then freeOverflowPages env (chain_head ps) w else Some (Inr (), w)) (failed env \<sigma> H)
    (\<lambda>_ w'. freeing env \<sigma> m H (L - set ps) ps w w')"
proof (cases "ps = []")
  case True
  then show ?thesis using ok by (simp add: result_ok_def freeing_def)
next
  case False
  then have ch: "chain (V w) ps v" and l: "length v < 65536" using e(1) by (auto simp: item_ok_def split: if_splits)
  have "chain_head ps \<noteq> 0" using False chain_nonzero [OF ch] by (cases ps) auto
  then show ?thesis using freeOverflowPages_rule [OF ok ch e(2,3) l] by simp
qed

lemma replaceLeafValue_rule:
  assumes ok: "txn_ok env \<sigma> (Suc (Suc n) + chain_pages (length v)) H L w" and f: "(f, p, wr) \<in># H" and st: "stored (V w) L (Leaf p es)"
    and kv: "length k \<le> maxKeySize" "length v < 65536" and ord: "ordered lo (Leaf p es) hi" "above lo k" "below k hi"
    and idx: "unat idx = item_at k es" "unat (idx + 1) = Suc (item_at k es)" and has: "has_item k es"
  shows "result_ok (replaceLeafValue env f idx k v mode w) (failed env \<sigma> H)
    (\<lambda>res w'. allowed mode True \<and> updated env \<sigma> n H L lo (Leaf p es) hi ((map_of (map item_kv es))(k \<mapsto> v)) w res w')"
    (is "result_ok _ _ ?Q")
proof (cases "mode = ModeInsert")
  case True
  then show ?thesis using txn_ok_failed [OF ok] by (simp add: replaceLeafValue_def result_ok_def)
next
  case False
  then have al: "allowed mode True" by (cases mode) auto
  have srt: "sorted_wrt (<) (map fst es)" and ln: "lnode (V w p) (map item_entry es)" and pn: "p \<in> L" using ord(1) st by (simp_all add: stored_def)
  obtain v0 ps where e: "es ! item_at k es = (k, v0, ps)" "item_at k es < length es" using srt has by (rule others_present) blast
  have "\<exists>v. es ! item_at k es = (k, v, ps)" using e(1) by blast
  note parts = leaf_parts [OF st srt, of k ps, unfolded if_P [OF has], OF this]
  have "(k, v0, ps) \<in> set es" using e by (metis nth_mem)
  then have eo: "item_ok (V w) (k, v0, ps)" using st unfolding stored_def tree_at.simps by blast
  have d: "node_data w f = V w p" using handle_node(1) [OF txn_read [OF ok] f] .
  have val: "result_ok (leafValue env f idx w) (reading env H L w) (\<lambda>x w'. x = v0 \<and> reading env H L w w')"
    using item_value [OF txn_read [OF ok] _ idx(1) e(2,1) eo parts(3)] ln d by simp
  have "result_ok (try_ok (leafValue env f idx w) (\<lambda>existing w.
        if existing = v then Some (Inr None, w)
        else do {
          oldOv \<leftarrow> leafCellOverflowId (node_data w f) idx;
          try_ok (if oldOv \<noteq> 0 then freeOverflowPages env oldOv w else Some (Inr (), w)) (\<lambda>_ w. do {
            oldCellSize \<leftarrow> cellSize (node_data w f) idx;
            let newCellSize = leafCellSize k v;
            let needed = (if newCellSize > oldCellSize then newCellSize - oldCellSize else 0);
            free \<leftarrow> freeSpace (node_data w f);
            if needed > free then split_rebuilt (splitLeaf env f idx k v True w)
            else rebuildLeaf env f idx (idx + 1) k v w
          })
        })) (failed env \<sigma> H) ?Q"
  proof (rule try_ok_rule [OF val])
    show "failed env \<sigma> H s" if "reading env H L w s" for s using txn_ok_failed [OF reading_txn [OF ok that]] .
  next
    fix x w1 assume "x = v0 \<and> reading env H L w w1"
    then have x: "x = v0" and ok1: "txn_ok env \<sigma> (Suc (Suc n) + chain_pages (length v)) H L w1" and same1: "same_pages L w w1"
      using reading_txn [OF ok] reading_same by auto
    have d1: "node_data w1 f = V w p" using handle_node(1) [OF txn_read [OF ok1] f] same1 pn unfolding same_pages_def by simp
    have ov: "leafCellOverflowId (V w p) idx = Some (chain_head ps)" using lnode_cell(4) [OF ln idx(1)] e by (simp add: item_entry_def)
    have eo1: "item_ok (V w1) (k, v0, ps)" using eo same1 parts(3) item_ok_cong [of "(k, v0, ps)" "V w1" "V w"] unfolding same_pages_def by auto
    have tail: "result_ok (do {
            oldCellSize \<leftarrow> cellSize (node_data w2 f) idx;
            let newCellSize = leafCellSize k v;
            let needed = (if newCellSize > oldCellSize then newCellSize - oldCellSize else 0);
            free \<leftarrow> freeSpace (node_data w2 f);
            if needed > free then split_rebuilt (splitLeaf env f idx k v True w2)
            else rebuildLeaf env f idx (idx + 1) k v w2
          }) (failed env \<sigma> H) ?Q"
      if fr: "freeing env \<sigma> (Suc (Suc n) + chain_pages (length v)) H (L - set ps) ps w1 w2" for w2
    proof -
      have ok2: "txn_ok env \<sigma> (Suc (Suc n) + chain_pages (length v)) H (L - set ps) w2" and same2: "same_pages (L - set ps) w w2"
        using fr same_pages_mono [OF same1, of "L - set ps"] same_pages_trans by (auto simp: freeing_def)
      have d2: "node_data w2 f = V w p" using handle_node(1) [OF txn_read [OF ok2] f] same2 pn parts(5) unfolding same_pages_def by simp
      have idx2: "unat (idx + 1) = (if has_item k es then Suc (item_at k es) else item_at k es)" using idx has by simp
      have hT: "has_item k es = True" using has by simp
      obtain free old where g: "freeSpace (V w p) = Some free" "cellSize (V w p) idx = Some old"
        "(if leafCellSize k v > old then leafCellSize k v - old else 0) > free \<longleftrightarrow> \<not> leaf_fits es k v"
        using replace_guard [OF ln srt has kv(1) idx(1)] by blast
      have "result_ok (if \<not> leaf_fits es k v then split_rebuilt (splitLeaf env f idx k v True w2) else rebuildLeaf env f idx (idx + 1) k v w2)
          (failed env \<sigma> H) (\<lambda>res w'. res \<noteq> None \<and> updated env \<sigma> n H L lo (Leaf p es) hi ((map_of (map item_kv es))(k \<mapsto> v)) w2 res w')"
        using store_item_rule [OF ok2 f leaf_ready_cong [OF parts(1) same2] parts(2) kv ord idx(1) idx2] unfolding hT .
      moreover have "base L (Leaf p es) \<subseteq> L - set ps" using parts(2) by blast
      then have "same_pages (base L (Leaf p es)) w w2" using same_pages_mono [OF same2] by blast
      ultimately have "result_ok (if \<not> leaf_fits es k v then split_rebuilt (splitLeaf env f idx k v True w2) else rebuildLeaf env f idx (idx + 1) k v w2)
          (failed env \<sigma> H) ?Q" using updated_from al by (elim result_ok_mono) blast+
      then show ?thesis unfolding d2 by (simp only: g Let_def bind.bind_lunit)
    qed
    show "result_ok (if x = v then Some (Inr None, w1)
        else do {
          oldOv \<leftarrow> leafCellOverflowId (node_data w1 f) idx;
          try_ok (if oldOv \<noteq> 0 then freeOverflowPages env oldOv w1 else Some (Inr (), w1)) (\<lambda>_ w. do {
            oldCellSize \<leftarrow> cellSize (node_data w f) idx;
            let newCellSize = leafCellSize k v;
            let needed = (if newCellSize > oldCellSize then newCellSize - oldCellSize else 0);
            free \<leftarrow> freeSpace (node_data w f);
            if needed > free then split_rebuilt (splitLeaf env f idx k v True w)
            else rebuildLeaf env f idx (idx + 1) k v w
          })
        }) (failed env \<sigma> H) ?Q"
    proof (cases "x = v")
      case True
      have "0 \<in> L" using ok1 by (simp add: txn_ok_def lists_ok_def)
      then have "txn_ok env \<sigma> n H L w1" using txn_ok_weaken [OF ok1 subset_refl] by simp
      moreover have "map_of (map item_kv es) = (map_of (map item_kv es))(k \<mapsto> v)"
        using map_of_item [OF srt e(2,1)] True x by (simp add: fun_upd_idem)
      ultimately have "?Q None w1" using same1 al by (simp add: updated_def)
      then show ?thesis using True by (simp add: result_ok_def)
    next
      case False
      show ?thesis unfolding if_not_P [OF False] d1 ov bind.bind_lunit
        by (rule try_ok_rule [OF freeOldValue_rule [OF ok1 eo1 parts(3,4)] _ tail])
    qed
  qed
  then show ?thesis using False by (simp add: replaceLeafValue_def)
qed

lemma updateLeaf_rule:
  assumes ok: "txn_ok env \<sigma> (Suc (Suc n) + chain_pages (length v)) H L w" and f: "(f, p, wr) \<in># H" and st: "stored (V w) L (Leaf p es)"
    and kv: "length k \<le> maxKeySize" "length v < 65536" and ord: "ordered lo (Leaf p es) hi" "above lo k" "below k hi"
  shows "result_ok (updateLeaf env f k v mode w) (failed env \<sigma> H)
    (\<lambda>res w'. allowed mode (map_of (map item_kv es) k \<noteq> None) \<and> updated env \<sigma> n H L lo (Leaf p es) hi ((map_of (map item_kv es))(k \<mapsto> v)) w res w')"
proof -
  have srt: "sorted_wrt (<) (map fst es)" and ln: "lnode (V w p) (map item_entry es)" using ord(1) st by (simp_all add: stored_def)
  have d: "node_data w f = V w p" using handle_node(1) [OF txn_read [OF ok] f] .
  obtain idx where i: "searchLeaf (V w p) k = Some (idx, has_item k es)" "unat idx = item_at k es" "unat (idx + 1) = Suc (item_at k es)"
    using searchLeaf_items [OF ln srt] .
  show ?thesis unfolding has_item_map [symmetric]
  proof (cases "has_item k es")
    case True
    then show "result_ok (updateLeaf env f k v mode w) (failed env \<sigma> H)
      (\<lambda>res w'. allowed mode (has_item k es) \<and> updated env \<sigma> n H L lo (Leaf p es) hi ((map_of (map item_kv es))(k \<mapsto> v)) w res w')"
      using replaceLeafValue_rule [OF ok f st kv ord i(2,3) True] by (simp add: updateLeaf_def d i(1))
  next
    case False
    then show "result_ok (updateLeaf env f k v mode w) (failed env \<sigma> H)
      (\<lambda>res w'. allowed mode (has_item k es) \<and> updated env \<sigma> n H L lo (Leaf p es) hi ((map_of (map item_kv es))(k \<mapsto> v)) w res w')"
      using addLeafValue_rule [OF ok f st kv ord i(2) False] by (simp add: updateLeaf_def d i(1))
  qed
qed

end
