(* ===== verification/NodeUpdate.thy ===== *)
theory NodeUpdate
  imports LeafUpdate
begin

text \<open>
  \<open>updateNode\<close> on a stored tree: the nodes on the path to the key are rebuilt in fresh pages, with the
  new child or the two halves of a split child in the place of the old one, which is freed.
\<close>

section \<open>The pages of a grafted node\<close>

lemma tree_at_same: "tree_at W t \<Longrightarrow> (\<And>q. q \<in> set (tpages t) \<Longrightarrow> W' q = W q) \<Longrightarrow> tree_at W' t"
  using tree_at_cong [of t W' W] by blast

lemma group_at_same: "group_at W cks r \<Longrightarrow> (\<And>q. q \<in> set (group_pages cks r) \<Longrightarrow> W' q = W q) \<Longrightarrow> group_at W' cks r"
proof (induction cks)
  case (Cons x cks)
  then show ?case using tree_at_same [of W "fst x" W'] by (cases x) auto
qed (use tree_at_same [of W r W'] in auto)

lemma pick_pages: "set (tpages (pick cks r k)) \<subseteq> set (group_pages cks r)"
  by (induction cks) (auto split: if_splits)

lemma graft_group_at:
  assumes "group_at W cks r" "distinct (group_pages cks r)" "group_at W' ns n"
    and "\<And>q. q \<in> set (group_pages cks r) - set (tpages (pick cks r k)) \<Longrightarrow> W' q = W q"
  shows "case graft cks r k ns n of (cks', r') \<Rightarrow> group_at W' cks' r'"
  using assms
proof (induction cks)
  case (Cons x cks)
  obtain c s where x: "x = (c, s)" by (cases x)
  show ?case
  proof (cases "k < s")
    case True
    have "W' q = W q" if "q \<in> set (group_pages cks r)" for q using Cons.prems(2) x True that by (intro Cons.prems(4)) auto
    then have "group_at W' cks r" using Cons.prems(1) x group_at_same [of W cks r W'] by simp
    then show ?thesis using True x Cons.prems(3) by (simp add: group_append)
  next
    case False
    have "W' q = W q" if "q \<in> set (tpages c)" for q
      using Cons.prems(2) x False that pick_pages [of cks r k] by (intro Cons.prems(4)) auto
    then have "tree_at W' c" using Cons.prems(1) x tree_at_same [of W c W'] by simp
    moreover have "case graft cks r k ns n of (cks', r') \<Rightarrow> group_at W' cks' r'"
    proof (rule Cons.IH [OF _ _ Cons.prems(3)])
      show "W' q = W q" if "q \<in> set (group_pages cks r) - set (tpages (pick cks r k))" for q
        using that False x by (intro Cons.prems(4)) auto
    qed (use Cons.prems(1,2) x in auto)
    ultimately show ?thesis using False x by (auto split: prod.splits)
  qed
qed simp

lemma pick_level: "level (height (Node p cks r)) (Node p cks r) \<Longrightarrow> level (height (pick cks r k)) (pick cks r k)"
  using pick_shape(1) [of "height (Node p cks r) - 1" cks r k] level_height [of "height (Node p cks r) - 1" "pick cks r k"]
  unfolding node_shape by simp

lemma stored_node:
  assumes "stored W L (Node p cks r)"
  shows "group_at W cks r" "distinct (group_pages cks r)" "p \<notin> set (group_pages cks r)" "set (group_pages cks r) \<subseteq> L" "p \<in> L" "p \<noteq> 0"
    "inode (W p) (child_refs cks) (tid r)" "stored W L (pick cks r k)"
proof -
  show s: "group_at W cks r" "distinct (group_pages cks r)" "p \<notin> set (group_pages cks r)" "set (group_pages cks r) \<subseteq> L" "p \<in> L" "p \<noteq> 0"
    "inode (W p) (child_refs cks) (tid r)"
    using assms unfolding stored_def node_group by auto
  obtain xs ys where "group_pages cks r = xs @ tpages (pick cks r k) @ ys" by (rule group_pages_pick)
  then have "distinct (tpages (pick cks r k))" using s(2) by simp
  then show "stored W L (pick cks r k)"
    using assms tree_at_pick [of W p cks r k] pick_pages [of cks r k] s(4) pick_level [of p cks r k] unfolding stored_def by blast
qed

lemma graft_pages:
  assumes st: "stored W L (Node p cks r)" and c: "c = pick cks r k" and g: "graft cks r k ns n = (cks', r')"
    and new: "distinct (group_pages ns n)" "set (group_pages ns n) \<inter> base L c = {}"
  shows "distinct (group_pages cks' r')" "set (group_pages cks' r') \<inter> base L (Node p cks r) = {}"
    "base L (Node p cks r) \<union> set (group_pages cks' r') = L - set (tpages c) \<union> set (group_pages ns n)" "tid c \<notin> set (group_pages ns n)"
proof -
  note s = stored_node [OF st]
  obtain xs ys where xy: "group_pages cks r = xs @ tpages (pick cks r k) @ ys"
    "\<And>ns n cks' r'. graft cks r k ns n = (cks', r') \<Longrightarrow> group_pages cks' r' = xs @ group_pages ns n @ ys"
    by (rule group_pages_pick [of cks r k]) blast
  note xy = xy(1) [folded c] xy(2) [OF g]
  have d: "distinct xs" "distinct ys" "set xs \<inter> set (tpages c) = {}" "set ys \<inter> set (tpages c) = {}" "set xs \<inter> set ys = {}"
    "set xs \<subseteq> L" "set ys \<subseteq> L" "set (tpages c) \<subseteq> L" "p \<notin> set xs" "p \<notin> set ys" "p \<notin> set (tpages c)"
    using s(2-4) unfolding xy(1) by auto
  have b: "base L c = insert (tid c) (L - set (tpages c))" by (simp add: base_def)
  have bn: "base L (Node p cks r) = insert p (L - insert p (set xs \<union> set (tpages c) \<union> set ys))"
    unfolding base_def node_group tid.simps xy(1) by auto
  have n: "set (group_pages ns n) \<inter> (L - set (tpages c)) = {}" "tid c \<notin> set (group_pages ns n)" using new(2) unfolding b by auto
  show "tid c \<notin> set (group_pages ns n)" by (rule n)
  show "distinct (group_pages cks' r')" unfolding xy(2) using d new(1) n by auto
  show "set (group_pages cks' r') \<inter> base L (Node p cks r) = {}" unfolding xy(2) bn using d n s(5) by auto
  show "base L (Node p cks r) \<union> set (group_pages cks' r') = L - set (tpages c) \<union> set (group_pages ns n)"
    unfolding xy(2) bn using d n s(5) by auto
qed

section \<open>After the recursive call\<close>

definition regrown ::
    "env \<Rightarrow> backdrop \<Rightarrow> nat \<Rightarrow> handle multiset \<Rightarrow> PageId set \<Rightarrow> tree \<Rightarrow> (tree \<times> bytes) list \<Rightarrow> tree \<Rightarrow> world \<Rightarrow> world \<Rightarrow> bool" where
  "regrown env \<sigma> n H L c ns t w w' \<longleftrightarrow> group_at (V w') ns t \<and> distinct (group_pages ns t) \<and> set (group_pages ns t) \<inter> base L c = {} \<and>
     txn_ok env \<sigma> n H (L - set (tpages c) \<union> set (group_pages ns t)) w' \<and> same_pages (L - set (tpages c)) w w'"

lemma child_freed:
  assumes pl: "placed env \<sigma> n hs (add_mset (g, tid c, False) H) (base L c) ns t w w1" and nz: "tid c \<noteq> 0"
  obtains w2 w3 where "node_unpin g w1 = Some w2" "free_page (tid c) w2 = Some w3" "regrown env \<sigma> n (hs + H) L c ns t w w3"
proof -
  let ?P = "set (group_pages ns t)"
  have p: "group_at (V w1) ns t" "distinct (group_pages ns t)" "?P \<inter> base L c = {}"
    "txn_ok env \<sigma> n (add_mset (g, tid c, False) (hs + H)) (base L c \<union> ?P) w1" "same_pages (base L c) w w1"
    using pl by (simp_all add: placed_def)
  have sub: "base L c \<union> ?P - {tid c} = L - set (tpages c) \<union> ?P" using p(3) tid_in_tpages [of c] unfolding base_def by auto
  obtain w2 where w2: "node_unpin g w1 = Some w2" "txn_ok env \<sigma> n (hs + H) (base L c \<union> ?P) w2" "same_pages (base L c \<union> ?P) w1 w2"
    using p(4) by (rule unpin_rule)
  have "tid c \<in> base L c \<union> ?P" by (simp add: base_def)
  then obtain w3 where w3: "free_page (tid c) w2 = Some w3" "txn_ok env \<sigma> n (hs + H) (base L c \<union> ?P - {tid c}) w3" "db w3 = db w2"
    using free_rule [OF w2(2) _ nz] by blast
  have same: "same_pages (base L c \<union> ?P) w1 w3" using w2(3) w3(3) by (simp add: same_pages_def)
  have "group_at (V w3) ns t" using p(1) by (rule group_at_same) (use same in \<open>simp add: same_pages_def\<close>)
  moreover have "same_pages (L - set (tpages c)) w w3" using p(5) same unfolding same_pages_def base_def by simp
  ultimately show thesis using that [OF w2(1) w3(1)] p(2,3) w3(2) unfolding sub regrown_def by blast
qed

lemma ordered_cs_split:
  "ordered_cs lo (xs @ (c, k) # ys) r hi \<Longrightarrow>
     ordered_cs lo xs c (Some k) \<and> strictly_above lo k \<and> below k hi \<and> ordered_cs (Some k) ys r hi"
proof (induction xs arbitrary: lo)
  case (Cons x xs)
  obtain d s where x: "x = (d, s)" by (cases x)
  have i: "ordered_cs (Some s) xs c (Some k)" "strictly_above (Some s) k" "below k hi" "ordered_cs (Some k) ys r hi" "strictly_above lo s" "ordered lo d (Some s)"
    using Cons.prems Cons.IH [of "Some s"] x by simp_all
  then have "s < k" by (simp add: strictly_above_def)
  then have "below s (Some k)" "strictly_above lo k" using i(5) by (auto simp: below_def strictly_above_def split: option.splits)
  then show ?case using i x by simp
qed simp

lemma regrown_at:
  assumes st: "stored (V w) L (Node p cks r)" and c: "c = pick cks r k" and g: "graft cks r k ns n = (cks', r')"
    and re: "regrown env \<sigma> m H L c ns n w w1" and same: "same_pages (L - set (tpages c) \<union> set (group_pages ns n)) w1 w2"
  shows "group_at (V w2) cks' r'" "same_pages (base L (Node p cks r)) w w2"
proof -
  have r: "group_at (V w1) ns n" "same_pages (L - set (tpages c)) w w1" using re by (simp_all add: regrown_def)
  have "group_at (V w2) ns n" using r(1) by (rule group_at_same) (use same in \<open>simp add: same_pages_def\<close>)
  moreover have "V w2 q = V w q" if "q \<in> L - set (tpages c)" for q using r(2) same that unfolding same_pages_def by simp
  ultimately show "group_at (V w2) cks' r'"
    using graft_group_at [OF stored_node(1,2) [OF st], of "V w2" ns n k] stored_node(4) [OF st] g c by auto
  have "base L (Node p cks r) \<subseteq> L - set (tpages c)"
    using stored_node(3,5) [OF st] pick_pages [of cks r k] c unfolding base_def node_group tid.simps by auto
  then show "same_pages (base L (Node p cks r)) w w2" using r(2) same unfolding same_pages_def by auto
qed

lemma placed_node:
  assumes st: "stored (V w) L (Node p cks r)" and c: "c = pick cks r k" and g: "graft cks r k ns n = (cks', r')"
    and re: "regrown env \<sigma> m H L c ns n w w1" and same: "same_pages (L - set (tpages c) \<union> set (group_pages ns n)) w1 w2"
    and ok: "txn_ok env \<sigma> m' (add_mset (h, q, True) H') (insert q (L - set (tpages c) \<union> set (group_pages ns n))) w2"
    and q: "q \<notin> L - set (tpages c) \<union> set (group_pages ns n)" "q \<noteq> 0" and node: "inode (V w2 q) (child_refs cks') (tid r')"
  shows "placed env \<sigma> m' {#(h, q, True)#} H' (base L (Node p cks r)) [] (Node q cks' r') w w2"
proof -
  have "distinct (group_pages ns n)" "set (group_pages ns n) \<inter> base L c = {}" using re by (simp_all add: regrown_def)
  note pg = graft_pages [OF st c g this]
  have q': "q \<notin> base L (Node p cks r)" "q \<notin> set (group_pages cks' r')" using q(1) unfolding pg(3) [symmetric] by auto
  have "txn_ok env \<sigma> m' ({#(h, q, True)#} + H') (base L (Node p cks r) \<union> set (q # group_pages cks' r')) w2"
    using ok unfolding pg(3) [symmetric] by (simp add: Un_commute insert_commute)
  then show ?thesis
    using q' q(2) pg(1,2) node regrown_at [OF st c g re same] unfolding placed_def group_simps node_group by auto
qed

lemma placed_two_nodes:
  assumes st: "stored (V w) L (Node p cks r)" and c: "c = pick cks r k" and g: "graft cks r k ns n = (cks', r')"
    and re: "regrown env \<sigma> m H L c ns n w w1" and same: "same_pages (L - set (tpages c) \<union> set (group_pages ns n)) w1 w2"
    and ok: "txn_ok env \<sigma> m' ({#(h1, q1, True), (h2, q2, True)#} + H') (insert q2 (insert q1 (L - set (tpages c) \<union> set (group_pages ns n)))) w2"
    and q: "q1 \<notin> L - set (tpages c) \<union> set (group_pages ns n)" "q1 \<noteq> 0" "q2 \<notin> insert q1 (L - set (tpages c) \<union> set (group_pages ns n))" "q2 \<noteq> 0"
    and cks': "cks' = xs @ (d, s) # ys"
    and node: "inode (V w2 q1) (child_refs xs) (tid d)" "inode (V w2 q2) (child_refs ys) (tid r')"
  shows "placed env \<sigma> m' {#(h1, q1, True), (h2, q2, True)#} H' (base L (Node p cks r)) [(Node q1 xs d, s)] (Node q2 ys r') w w2"
proof -
  have "distinct (group_pages ns n)" "set (group_pages ns n) \<inter> base L c = {}" using re by (simp_all add: regrown_def)
  note pg = graft_pages [OF st c g this]
  note at = regrown_at [OF st c g re same]
  have gp: "group_pages cks' r' = group_pages xs d @ group_pages ys r'" unfolding cks' by (rule group_append)
  have q': "q1 \<notin> base L (Node p cks r)" "q1 \<notin> set (group_pages cks' r')" "q2 \<notin> base L (Node p cks r)" "q2 \<notin> set (group_pages cks' r')" "q2 \<noteq> q1"
    using q(1,3) unfolding pg(3) [symmetric] by auto
  have set: "set (group_pages [(Node q1 xs d, s)] (Node q2 ys r')) = insert q2 (insert q1 (set (group_pages cks' r')))"
    unfolding gp group_simps node_group by auto
  have "base L (Node p cks r) \<union> insert q2 (insert q1 (set (group_pages cks' r'))) = insert q2 (insert q1 (L - set (tpages c) \<union> set (group_pages ns n)))"
    unfolding pg(3) [symmetric] by auto
  then have "txn_ok env \<sigma> m' ({#(h1, q1, True), (h2, q2, True)#} + H') (base L (Node p cks r) \<union> set (group_pages [(Node q1 xs d, s)] (Node q2 ys r'))) w2"
    using ok unfolding set by simp
  moreover have "distinct (group_pages [(Node q1 xs d, s)] (Node q2 ys r'))"
    using q' pg(1) unfolding gp group_simps node_group by auto
  moreover have "set (group_pages [(Node q1 xs d, s)] (Node q2 ys r')) \<inter> base L (Node p cks r) = {}" unfolding set using q' pg(2) by auto
  moreover have "group_at (V w2) [(Node q1 xs d, s)] (Node q2 ys r')"
    using at(1) node q(2,4) unfolding cks' group_append group_simps node_group by blast
  ultimately show ?thesis using at(2) unfolding placed_def by blast
qed

lemma updated_unpin:
  assumes "updated env \<sigma> n (add_mset (g, pid, wr) H) L lo t hi m w res w'"
  shows "\<exists>w''. node_unpin g w' = Some w'' \<and> updated env \<sigma> n H L lo t hi m w res w''"
proof -
  have pl: "\<exists>w''. node_unpin g w' = Some w'' \<and> placed env \<sigma> n hs H B ns u w w''"
    if p: "placed env \<sigma> n hs (add_mset (g, pid, wr) H) B ns u w w'" for hs B ns u
  proof -
    have "txn_ok env \<sigma> n (add_mset (g, pid, wr) (hs + H)) (B \<union> set (group_pages ns u)) w'" using p by (simp add: placed_def)
    then obtain w'' where w'': "node_unpin g w' = Some w''" "txn_ok env \<sigma> n (hs + H) (B \<union> set (group_pages ns u)) w''"
      "same_pages (B \<union> set (group_pages ns u)) w' w''" by (rule unpin_rule)
    have "group_at (V w') ns u" "same_pages B w w'" using p by (simp_all add: placed_def)
    then have "group_at (V w'') ns u" "same_pages B w w''"
      using group_at_same [of "V w'" ns u "V w''"] w''(3) unfolding same_pages_def by simp_all
    then show ?thesis using w''(1,2) p by (simp add: placed_def)
  qed
  show ?thesis
  proof (cases res)
    case None
    then have "txn_ok env \<sigma> n (add_mset (g, pid, wr) H) L w'" using assms by (simp add: updated_def)
    then obtain w'' where "node_unpin g w' = Some w''" "txn_ok env \<sigma> n H L w''" "same_pages L w' w''" by (rule unpin_rule)
    then show ?thesis using assms None same_pages_trans by (auto simp: updated_def)
  next
    case (Some x)
    obtain g1 y where x: "x = (g1, y)" by (cases x)
    show ?thesis
    proof (cases y)
      case None
      then show ?thesis using assms Some x pl unfolding updated_def by simp blast
    next
      case (Some z)
      obtain g2 s where z: "z = (g2, s)" by (cases z)
      show ?thesis using assms \<open>res = Some x\<close> Some x z pl unfolding updated_def by simp blast
    qed
  qed
qed

section \<open>Rebuilding an internal node\<close>

definition graft_ok :: "bytes option \<Rightarrow> bytes option \<Rightarrow> (bytes \<rightharpoonup> bytes) \<Rightarrow> tree \<Rightarrow> (tree \<times> bytes) list \<Rightarrow> tree \<Rightarrow> bool" where
  "graft_ok lo hi m t cks r \<longleftrightarrow> ordered_cs lo cks r hi \<and> map_of (group_kvs cks r) = m \<and> 0 < height t \<and> cks \<noteq> [] \<and>
     group_level (height t - 1) cks r \<and> set (group_seps cks r) \<subseteq> set (seps t) \<union> dom m"

lemma updated_one:
  assumes "placed env \<sigma> n {#(g, q, True)#} H (base L t) [] (Node q cks r) w w'" "graft_ok lo hi m t cks r"
  shows "updated env \<sigma> n H L lo t hi m w (Some (g, None)) w'"
proof -
  have "replaces lo hi m t [] (Node q cks r)"
    using assms(2) unfolding replaces_def group_simps group_shape_simps node_group node_shape by (simp add: graft_ok_def)
  then have "placed env \<sigma> n {#(g, tid (Node q cks r), True)#} H (base L t) [] (Node q cks r) w w' \<and> replaces lo hi m t [] (Node q cks r)"
    using assms(1) by simp
  then show ?thesis unfolding updated_def by (simp only: option.simps prod.simps) blast
qed

lemma updated_two:
  assumes pl: "placed env \<sigma> n {#(g1, q1, True), (g2, q2, True)#} H (base L t) [(Node q1 xs d, s)] (Node q2 ys r) w w'"
    and ok: "graft_ok lo hi m t (xs @ (d, s) # ys) r" "xs \<noteq> []" "ys \<noteq> []" and s: "length s \<le> maxKeySize"
  shows "updated env \<sigma> n H L lo t hi m w (Some (g1, Some (g2, s))) w'"
proof -
  have o: "ordered_cs lo xs d (Some s)" "strictly_above lo s" "below s hi" "ordered_cs (Some s) ys r hi"
    using ok ordered_cs_split [of lo xs d s ys r hi] by (simp_all add: graft_ok_def)
  have "replaces lo hi m t [(Node q1 xs d, s)] (Node q2 ys r)"
    using ok o unfolding replaces_def group_simps group_shape_simps node_group node_shape
    by (simp add: graft_ok_def group_append group_shape_append)
  then have "placed env \<sigma> n {#(g1, tid (Node q1 xs d), True), (g2, tid (Node q2 ys r), True)#} H (base L t) [(Node q1 xs d, s)] (Node q2 ys r) w w' \<and>
      replaces lo hi m t [(Node q1 xs d, s)] (Node q2 ys r)" using pl by simp
  then show ?thesis using s unfolding updated_def by (simp only: option.simps prod.simps) blast
qed

lemma gocopy_page: "length d = 4096 \<Longrightarrow> length bs = 4096 \<Longrightarrow> gocopy d 0 bs = Some bs"
  by (simp add: gocopy_fits patch_def)

text \<open>A copy of the node with one child pointer changed; \<open>K\<close> wraps the handle of the copy.\<close>

lemma replace_child_rule:
  assumes st: "stored (V w) L (Node p cks r)" and c: "c = pick cks r k" and g: "graft cks r k [] c' = (cks', r')"
    and re: "regrown env \<sigma> (Suc n) (add_mset (h, tid c', True) H) L c [] c' w w1" and f: "(f, p, wr) \<in># H"
    and idx: "unat childIdx = rank_le (map snd cks) k"
  shows "result_ok (try_or (allocInternal env w1) (node_unpin h) (\<lambda>g w. do {
       w \<leftarrow> modify g (\<lambda>d. gocopy d 0 (node_data w f)) w;
       w \<leftarrow> modify g (\<lambda>d. setChild d childIdx (Id w h)) w;
       w \<leftarrow> node_unpin h w;
       Some (Inr (K g), w)
     })) (failed env \<sigma> H) (\<lambda>x w'. \<exists>g q. x = K g \<and> placed env \<sigma> n {#(g, q, True)#} H (base L (Node p cks r)) [] (Node q cks' r') w w')"
    (is "result_ok _ _ ?R")
proof -
  let ?L = "L - set (tpages c) \<union> set (group_pages [] c')"
  have ok1: "txn_ok env \<sigma> (Suc n) (add_mset (h, tid c', True) H) ?L w1" and s1: "same_pages (L - set (tpages c)) w w1"
    using re by (simp_all add: regrown_def)
  have pL: "p \<in> L - set (tpages c)" using stored_node(3,5) [OF st] pick_pages [of cks r k] c by auto
  have nd: "inode (V w p) (child_refs cks) (tid r)" by (rule stored_node(7) [OF st])
  show ?thesis
  proof (rule try_or_rule [OF allocInternal_rule [OF ok1]])
    show "\<exists>s'. node_unpin h s = Some s' \<and> failed env \<sigma> H s'" if "txn_ok env \<sigma> 0 (add_mset (h, tid c', True) H) ?L s" for s
      using failed_unpin [OF txn_ok_failed [OF that]] .
  next
    fix g w2 assume "\<exists>q r. q \<notin> ?L \<and> q \<noteq> 0 \<and> inode (V w2 q) [] r \<and>
      txn_ok env \<sigma> n (add_mset (g, q, True) (add_mset (h, tid c', True) H)) (insert q ?L) w2 \<and> same_pages ?L w1 w2"
    then obtain q where q: "q \<notin> ?L" "q \<noteq> 0" and ok2: "txn_ok env \<sigma> n (add_mset (g, q, True) (add_mset (h, tid c', True) H)) (insert q ?L) w2"
      and s2: "same_pages ?L w1 w2" by blast
    let ?H = "add_mset (g, q, True) (add_mset (h, tid c', True) H)"
    have hs: "(g, q, True) \<in># ?H" "(f, p, wr) \<in># ?H" "(h, tid c', True) \<in># ?H" using f by auto
    have d2: "node_data w2 f = V w p" using handle_node(1) [OF txn_read [OF ok2] hs(2)] s1 s2 pL unfolding same_pages_def by simp
    have l2: "length (V w2 q) = 4096" using handle_node(3) [OF txn_read [OF ok2] hs(1)] .
    obtain w3 where w3: "modify g (\<lambda>d. gocopy d 0 (node_data w2 f)) w2 = Some w3" "txn_ok env \<sigma> n ?H (insert q ?L) w3" "V w3 q = V w p"
      "same_pages (insert q ?L - {q}) w2 w3"
      using modify_rule [where g = "\<lambda>d. gocopy d 0 (node_data w2 f)", OF ok2 hs(1)] gocopy_page [OF l2 inode_reads(4) [OF nd]] inode_reads(4) [OF nd] d2 by auto
    have id3: "Id w3 h = tid c'" using handle_node(2) [OF txn_read [OF w3(2)] hs(3)] .
    have nd3: "inode (V w3 q) (child_refs cks) (tid r)" using nd w3(3) by simp
    obtain d where d: "setChild (V w3 q) childIdx (tid c') = Some d" "inode d (child_refs cks') (tid r')"
      using setChild_inode [OF nd3 idx, of "tid c'"] rank_le_length [of cks k] graft_refs_one [OF refl g] by (auto split: if_splits)
    obtain w4 where w4: "modify g (\<lambda>d. setChild d childIdx (Id w3 h)) w3 = Some w4" "txn_ok env \<sigma> n ?H (insert q ?L) w4" "V w4 q = d"
      "same_pages (insert q ?L - {q}) w3 w4"
      using modify_rule [where g = "\<lambda>d. setChild d childIdx (Id w3 h)", OF w3(2) hs(1)] d(1) inode_reads(4) [OF d(2)] id3 by auto
    have "txn_ok env \<sigma> n (add_mset (h, tid c', True) (add_mset (g, q, True) H)) (insert q ?L) w4" using w4(2) by (simp add: add_mset_commute)
    then obtain w5 where w5: "node_unpin h w4 = Some w5" "txn_ok env \<sigma> n (add_mset (g, q, True) H) (insert q ?L) w5" "same_pages (insert q ?L) w4 w5"
      by (rule unpin_rule)
    have "insert q ?L - {q} = ?L" using q(1) by auto
    then have same: "same_pages ?L w1 w5" using s2 w3(4) w4(4) w5(3) unfolding same_pages_def by simp
    have "inode (V w5 q) (child_refs cks') (tid r')" using w5(3) w4(3) d(2) unfolding same_pages_def by simp
    from placed_node [OF st c g re same w5(2) q this] have "?R (K g) w5" by blast
    then show "result_ok (do {
         w \<leftarrow> modify g (\<lambda>d. gocopy d 0 (node_data w2 f)) w2;
         w \<leftarrow> modify g (\<lambda>d. setChild d childIdx (Id w h)) w;
         w \<leftarrow> node_unpin h w;
         Some (Inr (K g), w)
       }) (failed env \<sigma> H) ?R"
      using w3(1) w4(1) w5(1) by (simp add: result_ok_def)
  qed
qed

lemma replaceInternalChild_rule:
  assumes "stored (V w) L (Node p cks r)" "c = pick cks r k" "graft cks r k [] c' = (cks', r')"
    and "regrown env \<sigma> (Suc n) (add_mset (h, tid c', True) H) L c [] c' w w1" "(f, p, wr) \<in># H"
    and ok: "graft_ok lo hi m (Node p cks r) cks' r'" and idx: "unat childIdx = rank_le (map snd cks) k"
  shows "result_ok (replaceInternalChild env f childIdx h w1) (failed env \<sigma> H) (updated env \<sigma> n H L lo (Node p cks r) hi m w)"
  unfolding replaceInternalChild_def
  by (rule result_ok_mono [OF replace_child_rule [where K = "\<lambda>g. Some (g, None)", OF assms(1-5) idx]]) (use updated_one [OF _ ok] in blast)+

lemma put_split_length:
  assumes "graft cks r k [(a, s)] b = (cks', r')"
  shows "length cks' = Suc (length cks)"
proof -
  have "length (child_refs cks') = Suc (length (child_refs cks))"
    unfolding graft_refs_two(1) [OF refl assms] using rank_le_length [of cks k] by simp
  then show ?thesis by simp
qed

lemma applyChildSplit_rule:
  assumes st: "stored (V w) L (Node p cks r)" and c: "c = pick cks r k" and g: "graft cks r k [(a, s)] b = (cks', r')"
    and re: "regrown env \<sigma> (Suc n) H L c [(a, s)] b w w1" and f: "(f, p, wr) \<in># H"
    and ok: "graft_ok lo hi m (Node p cks r) cks' r'" and idx: "unat childIdx = rank_le (map snd cks) k"
    and s: "length s \<le> maxKeySize" "13 + icost (child_refs cks) + (12 + length s) \<le> 4096"
  shows "result_ok (applyChildSplitToInternal env f childIdx (tid a) s (tid b) w1) (failed env \<sigma> H)
    (\<lambda>h. updated env \<sigma> n H L lo (Node p cks r) hi m w (Some (h, None)))"
  unfolding applyChildSplitToInternal_def
proof -
  let ?L = "L - set (tpages c) \<union> set (group_pages [(a, s)] b)"
  have ok1: "txn_ok env \<sigma> (Suc n) H ?L w1" and s1: "same_pages (L - set (tpages c)) w w1" using re by (simp_all add: regrown_def)
  have pL: "p \<in> L - set (tpages c)" using stored_node(3,5) [OF st] pick_pages [of cks r k] c by auto
  have nd: "inode (V w p) (child_refs cks) (tid r)" by (rule stored_node(7) [OF st])
  show "result_ok (try_ok (allocInternal env w1) (\<lambda>g w. do {
       w \<leftarrow> modify g (\<lambda>d. applyChildSplitToInternal_fill d (node_data w f) childIdx (tid a) s (tid b)) w;
       Some (Inr g, w)
     })) (failed env \<sigma> H) (\<lambda>h. updated env \<sigma> n H L lo (Node p cks r) hi m w (Some (h, None)))"
  proof (rule try_ok_rule [OF allocInternal_rule [OF ok1]])
    fix h w2 assume "\<exists>q r. q \<notin> ?L \<and> q \<noteq> 0 \<and> inode (V w2 q) [] r \<and> txn_ok env \<sigma> n (add_mset (h, q, True) H) (insert q ?L) w2 \<and> same_pages ?L w1 w2"
    then obtain q r0 where q: "q \<notin> ?L" "q \<noteq> 0" and n2: "inode (V w2 q) [] r0" and ok2: "txn_ok env \<sigma> n (add_mset (h, q, True) H) (insert q ?L) w2"
      and s2: "same_pages ?L w1 w2" by blast
    have hs: "(h, q, True) \<in># add_mset (h, q, True) H" "(f, p, wr) \<in># add_mset (h, q, True) H" using f by auto
    have d2: "node_data w2 f = V w p" using handle_node(1) [OF txn_read [OF ok2] hs(2)] s1 s2 pL unfolding same_pages_def by simp
    obtain d where d: "applyChildSplitToInternal_fill (V w2 q) (V w p) childIdx (tid a) s (tid b) = Some d" "inode d (child_refs cks') (tid r')"
      using applyChildSplit_inode [OF nd n2 idx _ s, of "tid a" "tid b"] rank_le_length [of cks k] graft_refs_two [OF refl g] by auto
    obtain w3 where w3: "modify h (\<lambda>d. applyChildSplitToInternal_fill d (node_data w2 f) childIdx (tid a) s (tid b)) w2 = Some w3"
      "txn_ok env \<sigma> n (add_mset (h, q, True) H) (insert q ?L) w3" "V w3 q = d" "same_pages (insert q ?L - {q}) w2 w3"
      using modify_rule [where g = "\<lambda>d. applyChildSplitToInternal_fill d (node_data w2 f) childIdx (tid a) s (tid b)", OF ok2 hs(1)] d(1)
        inode_reads(4) [OF d(2)] d2 by auto
    have "insert q ?L - {q} = ?L" using q(1) by auto
    then have same: "same_pages ?L w1 w3" using s2 w3(4) unfolding same_pages_def by simp
    have "inode (V w3 q) (child_refs cks') (tid r')" using w3(3) d(2) by simp
    from placed_node [OF st c g re same w3(2) q this]
    have "updated env \<sigma> n H L lo (Node p cks r) hi m w (Some (h, None)) w3" using ok by (rule updated_one)
    then show "result_ok (do {
         w \<leftarrow> modify h (\<lambda>d. applyChildSplitToInternal_fill d (node_data w2 f) childIdx (tid a) s (tid b)) w2;
         Some (Inr h, w)
       }) (failed env \<sigma> H) (\<lambda>h. updated env \<sigma> n H L lo (Node p cks r) hi m w (Some (h, None)))"
      using w3(1) by (simp add: result_ok_def)
  qed (auto intro: txn_ok_failed)
qed

lemma splitInternal_filled:
  assumes st: "stored (V w) L (Node p cks r)" and c: "c = pick cks r k" and g: "graft cks r k [(a, s)] b = (cks', r')"
    and re: "regrown env \<sigma> m0 H L c [(a, s)] b w w1" and f: "(f, p, wr) \<in># H"
    and ok: "graft_ok lo hi m (Node p cks r) cks' r'" and idx: "unat childIdx = rank_le (map snd cks) k" and s: "length s \<le> maxKeySize"
    and L: "L1 = L - set (tpages c) \<union> set (group_pages [(a, s)] b)"
    and q: "q1 \<notin> L1" "q1 \<noteq> 0" "q2 \<notin> insert q1 L1" "q2 \<noteq> 0" "node_cells (V w2 q1) nodeInternal []" "node_cells (V w2 q2) nodeInternal []"
    and ok2: "txn_ok env \<sigma> n ({#(g1, q1, True), (g2, q2, True)#} + H) (insert q2 (insert q1 L1)) w2" "same_pages L1 w1 w2"
    and j: "unat sp = j" "0 < j" "Suc j < length cks'" "13 + icost (take j (child_refs cks')) \<le> 4096" "13 + icost (drop (Suc j) (child_refs cks')) \<le> 4096"
  shows "\<exists>d1 d2. splitInternal_fill (node_data w2 f) (node_data w2 g1) (node_data w2 g2) childIdx sp (tid a) s (tid b) = Some (d1, d2, snd (cks' ! j)) \<and>
    updated env \<sigma> n H L lo (Node p cks r) hi m w (Some (g1, Some (g2, snd (cks' ! j)))) (put_node g2 d2 (put_node g1 d1 w2))"
proof -
  have s1: "same_pages (L - set (tpages c)) w w1" using re by (simp add: regrown_def)
  have pL: "p \<in> L - set (tpages c)" using stored_node(3,5) [OF st] pick_pages [of cks r k] c by auto
  have nd: "inode (V w p) (child_refs cks) (tid r)" by (rule stored_node(7) [OF st])
  have d: "node_data w2 f = V w p" "node_data w2 g1 = V w2 q1" "node_data w2 g2 = V w2 q2"
    using handle_node(1) [OF txn_read [OF ok2(1)], of f p wr] handle_node(1) [OF txn_read [OF ok2(1)], of g1 q1 True]
      handle_node(1) [OF txn_read [OF ok2(1)], of g2 q2 True] f pL s1 ok2(2) L unfolding same_pages_def by simp_all
  note refs = graft_refs_two [OF refl g]
  have i: "rank_le (map snd cks) k \<le> length (child_refs cks)" using rank_le_length [of cks k] by simp
  have jl: "j \<le> length (child_refs cks)" using j(3) put_split_length [OF g] by simp
  obtain r1 r2 where fr: "inode (V w2 q1) [] r1" "inode (V w2 q2) [] r2" using inode_init [OF q(5)] inode_init [OF q(6)] by blast
  have split: "split_at (child_refs cks') (tid r') j (splitInternal_fill (V w p) (V w2 q1) (V w2 q2) childIdx sp (tid a) s (tid b))"
    using splitInternal_fill_inode [OF nd fr idx i j(1) jl s refs(1) j(4,5)] unfolding refs(2) .
  have ck: "cks' = take j cks' @ (fst (cks' ! j), snd (cks' ! j)) # drop (Suc j) cks'" using id_take_nth_drop [of j cks'] j(3) by simp
  have rj: "child_refs cks' ! j = (tid (fst (cks' ! j)), snd (cks' ! j))" using j(3) by simp
  obtain d1 d2 where fill: "splitInternal_fill (V w p) (V w2 q1) (V w2 q2) childIdx sp (tid a) s (tid b) = Some (d1, d2, snd (cks' ! j))"
    "inode d1 (child_refs (take j cks')) (tid (fst (cks' ! j)))" "inode d2 (child_refs (drop (Suc j) cks')) (tid r')"
    using split unfolding split_at_def rj by auto
  note w3 = put_two_rule [OF ok2(1) q(1,3) inode_reads(4) [OF fill(2)] inode_reads(4) [OF fill(3)] refl]
  have nodes: "inode (V (put_node g2 d2 (put_node g1 d1 w2)) q1) (child_refs (take j cks')) (tid (fst (cks' ! j)))"
    "inode (V (put_node g2 d2 (put_node g1 d1 w2)) q2) (child_refs (drop (Suc j) cks')) (tid r')" unfolding w3(2,3) by (rule fill)+
  have same: "same_pages (L - set (tpages c) \<union> set (group_pages [(a, s)] b)) w1 (put_node g2 d2 (put_node g1 d1 w2))"
    using same_pages_trans [OF ok2(2) w3(4)] unfolding L .
  have pl: "placed env \<sigma> n {#(g1, q1, True), (g2, q2, True)#} H (base L (Node p cks r)) [(Node q1 (take j cks') (fst (cks' ! j)), snd (cks' ! j))]
      (Node q2 (drop (Suc j) cks') r') w (put_node g2 d2 (put_node g1 d1 w2))"
    by (rule placed_two_nodes [OF st c g re same w3(1) [unfolded L] q(1-4) [unfolded L] ck nodes])
  have "length (snd (cks' ! j)) \<le> maxKeySize"
  proof -
    have "child_refs cks' ! j \<in> set (child_refs cks')" using j(3) by (intro nth_mem) simp
    then have "length (snd (child_refs cks' ! j)) \<le> 1008" unfolding refs(1) by (rule put_split_keys [OF nd s i])
    then show ?thesis unfolding rj by (simp add: maxKeySize_def)
  qed
  then have "updated env \<sigma> n H L lo (Node p cks r) hi m w (Some (g1, Some (g2, snd (cks' ! j)))) (put_node g2 d2 (put_node g1 d1 w2))"
    using ok ck j(2,3) by (intro updated_two [OF pl]) auto
  then show ?thesis unfolding d using fill(1) by blast
qed

lemma splitInternal_rule:
  assumes st: "stored (V w) L (Node p cks r)" and c: "c = pick cks r k" and g: "graft cks r k [(a, s)] b = (cks', r')"
    and re: "regrown env \<sigma> (Suc (Suc n)) H L c [(a, s)] b w w1" and f: "(f, p, wr) \<in># H"
    and ok: "graft_ok lo hi m (Node p cks r) cks' r'" and idx: "unat childIdx = rank_le (map snd cks) k"
    and s: "length s \<le> maxKeySize" "4096 < 13 + icost (child_refs cks) + (12 + length s)"
  shows "result_ok (split_rebuilt (splitInternal env f childIdx (tid a) s (tid b) w1)) (failed env \<sigma> H)
    (updated env \<sigma> n H L lo (Node p cks r) hi m w)"
proof -
  let ?L = "L - set (tpages c) \<union> set (group_pages [(a, s)] b)"
  have ok1: "txn_ok env \<sigma> (Suc (Suc n)) H ?L w1" and s1: "same_pages (L - set (tpages c)) w w1" using re by (simp_all add: regrown_def)
  have pL: "p \<in> L - set (tpages c)" using stored_node(3,5) [OF st] pick_pages [of cks r k] c by auto
  have nd: "inode (V w p) (child_refs cks) (tid r)" by (rule stored_node(7) [OF st])
  have d: "node_data w1 f = V w p" using handle_node(1) [OF txn_read [OF ok1] f] s1 pL unfolding same_pages_def by simp
  have i: "rank_le (map snd cks) k \<le> length (child_refs cks)" using rank_le_length [of cks k] by simp
  obtain j where j: "splitInternal_index (V w p) childIdx s = Some (of_nat j)" "0 < j" "Suc j < length (child_refs cks')"
    "13 + icost (take j (child_refs cks')) \<le> 4096" "13 + icost (drop (Suc j) (child_refs cks')) \<le> 4096"
    using splitInternal_index_halves [OF nd idx i s graft_refs_two(1) [OF refl g]] .
  have "length cks' = Suc (length cks)" using put_split_length [OF g] .
  then have u: "unat (of_nat j :: u16) = j" using j(3) inode_length [OF nd] by (simp add: unat_of_nat take_bit_nat_eq_self)
  have "result_ok (try_ok (alloc_node nodeInternal env w1) (\<lambda>f1 w.
     try_or (alloc_node nodeInternal env w) (\<lambda>w. do { w \<leftarrow> free_page (Id w f1) w; node_unpin f1 w }) (\<lambda>f2 w. do {
       (d1, d2, sepKey) \<leftarrow> splitInternal_fill (node_data w f) (node_data w f1) (node_data w f2) childIdx (of_nat j) (tid a) s (tid b);
       Some (Inr (f1, f2, sepKey), put_node f2 d2 (put_node f1 d1 w))
     }))) (failed env \<sigma> H) (\<lambda>(g1, g2, sep). updated env \<sigma> n H L lo (Node p cks r) hi m w (Some (g1, Some (g2, sep))))"
  proof (rule alloc_two_rule [OF ok1])
    fix g1 g2 q1 q2 w2
    assume q: "q1 \<notin> ?L" "q1 \<noteq> 0" "q2 \<notin> insert q1 ?L" "q2 \<noteq> 0" "node_cells (V w2 q1) nodeInternal []" "node_cells (V w2 q2) nodeInternal []"
      and ok2: "txn_ok env \<sigma> n ({#(g1, q1, True), (g2, q2, True)#} + H) (insert q2 (insert q1 ?L)) w2" "same_pages ?L w1 w2"
    obtain d1 d2 where fill: "splitInternal_fill (node_data w2 f) (node_data w2 g1) (node_data w2 g2) childIdx (of_nat j) (tid a) s (tid b) = Some (d1, d2, snd (cks' ! j))"
      "updated env \<sigma> n H L lo (Node p cks r) hi m w (Some (g1, Some (g2, snd (cks' ! j)))) (put_node g2 d2 (put_node g1 d1 w2))"
      using splitInternal_filled [OF st c g re f ok idx s(1) refl q ok2 u j(2) _ j(4,5)] j(3) by auto
    show "result_ok (do {
        (d1, d2, sepKey) \<leftarrow> splitInternal_fill (node_data w2 f) (node_data w2 g1) (node_data w2 g2) childIdx (of_nat j) (tid a) s (tid b);
        Some (Inr (g1, g2, sepKey), put_node g2 d2 (put_node g1 d1 w2))
      }) (failed env \<sigma> H) (\<lambda>(g1, g2, sep). updated env \<sigma> n H L lo (Node p cks r) hi m w (Some (g1, Some (g2, sep))))"
      unfolding fill(1) result_ok_def using fill(2) by simp
  qed simp
  then have "result_ok (splitInternal env f childIdx (tid a) s (tid b) w1) (failed env \<sigma> H)
      (\<lambda>(g1, g2, sep). updated env \<sigma> n H L lo (Node p cks r) hi m w (Some (g1, Some (g2, sep))))"
    unfolding splitInternal_def allocInternal_def d j(1) by simp
  then show ?thesis unfolding split_rebuilt_def by (rule try_ok_rule) (auto simp: result_ok_def)
qed

lemma split_guard:
  assumes "inode d cks r" "length s \<le> maxKeySize"
  shows "\<exists>free. freeSpace d = Some free \<and> (internalCellSize s + 2 > free \<longleftrightarrow> 4096 < 13 + icost cks + (12 + length s))"
  using inode_free(1) [OF assms(1)] inode_fits [OF assms(1)] assms(2)
  by (simp add: internalCellSize_def maxKeySize_def u16_simps word_less_nat_alt) linarith

lemma updateInternalAfterChildSplit_rule:
  assumes st: "stored (V w) L (Node p cks r)" and c: "c = pick cks r k" and g: "graft cks r k [(a, s)] b = (cks', r')"
    and re: "regrown env \<sigma> (Suc (Suc n)) ({#(g1, tid a, True), (g2, tid b, True)#} + H) L c [(a, s)] b w w1" and f: "(f, p, wr) \<in># H"
    and ok: "graft_ok lo hi m (Node p cks r) cks' r'" and idx: "unat childIdx = rank_le (map snd cks) k" and s: "length s \<le> maxKeySize"
  shows "result_ok (updateInternalAfterChildSplit env f childIdx g1 s g2 w1) (failed env \<sigma> H) (updated env \<sigma> n H L lo (Node p cks r) hi m w)"
proof -
  let ?H = "add_mset (g1, tid a, True) (add_mset (g2, tid b, True) H)" and ?L = "L - set (tpages c) \<union> set (group_pages [(a, s)] b)"
  have re: "regrown env \<sigma> (Suc (Suc n)) ?H L c [(a, s)] b w w1" using re by simp
  have fH: "(f, p, wr) \<in># ?H" using f by simp
  have ok1: "txn_ok env \<sigma> (Suc (Suc n)) ?H ?L w1" and s1: "same_pages (L - set (tpages c)) w w1" using re by (simp_all add: regrown_def)
  have "0 \<in> ?L" using ok1 by (simp add: txn_ok_def lists_ok_def)
  then have "txn_ok env \<sigma> (Suc n) ?H ?L w1" using txn_ok_weaken [OF ok1 subset_refl] by simp
  then have re1: "regrown env \<sigma> (Suc n) ?H L c [(a, s)] b w w1" using re by (simp add: regrown_def)
  have pL: "p \<in> L - set (tpages c)" using stored_node(3,5) [OF st] pick_pages [of cks r k] c by auto
  have nd: "inode (V w p) (child_refs cks) (tid r)" by (rule stored_node(7) [OF st])
  have d: "node_data w1 f = V w p" using handle_node(1) [OF txn_read [OF ok1] fH] s1 pL unfolding same_pages_def by simp
  have ids: "Id w1 g1 = tid a" "Id w1 g2 = tid b"
    using handle_node(2) [OF txn_read [OF ok1], of g1 "tid a" True] handle_node(2) [OF txn_read [OF ok1], of g2 "tid b" True] by simp_all
  obtain free where fr: "freeSpace (V w p) = Some free" "internalCellSize s + 2 > free \<longleftrightarrow> 4096 < 13 + icost (child_refs cks) + (12 + length s)"
    using split_guard [OF nd s] by blast
  let ?X = "if 4096 < 13 + icost (child_refs cks) + (12 + length s) then split_rebuilt (splitInternal env f childIdx (tid a) s (tid b) w1)
      else try_ok (applyChildSplitToInternal env f childIdx (tid a) s (tid b) w1) (\<lambda>g w. Some (Inr (Some (g, None)), w))"
  have "result_ok ?X (failed env \<sigma> ?H) (updated env \<sigma> n ?H L lo (Node p cks r) hi m w)"
  proof (cases "4096 < 13 + icost (child_refs cks) + (12 + length s)")
    case True
    show ?thesis unfolding if_P [OF True] by (rule splitInternal_rule [OF st c g re fH ok idx s True])
  next
    case False
    then have fits: "13 + icost (child_refs cks) + (12 + length s) \<le> 4096" by simp
    show ?thesis unfolding if_not_P [OF False]
      by (rule try_ok_rule [OF applyChildSplit_rule [OF st c g re1 fH ok idx s fits]]) (auto simp: result_ok_def)
  qed
  then have "result_ok (do { (r, w) \<leftarrow> ?X; w \<leftarrow> node_unpin g1 w; w \<leftarrow> node_unpin g2 w; Some (r, w) }) (failed env \<sigma> H)
      (updated env \<sigma> n H L lo (Node p cks r) hi m w)"
  proof (cases rule: result_ok_cases)
    case (err e w2)
    obtain w3 w4 where "node_unpin g1 w2 = Some w3" "node_unpin g2 w3 = Some w4" "failed env \<sigma> H w4"
      using failed_unpin [OF err(2)] failed_unpin by blast
    then show ?thesis unfolding err(1) by (simp add: result_ok_def)
  next
    case (val x w2)
    obtain w3 w4 where "node_unpin g1 w2 = Some w3" "node_unpin g2 w3 = Some w4" "updated env \<sigma> n H L lo (Node p cks r) hi m w x w4"
      using updated_unpin [OF val(2)] updated_unpin by blast
    then show ?thesis unfolding val(1) by (simp add: result_ok_def)
  qed
  then show ?thesis by (simp only: updateInternalAfterChildSplit_def Let_def d ids fr bind.bind_lunit)
qed

lemma regrown_from: "same_pages (L - set (tpages c)) w0 w \<Longrightarrow> regrown env \<sigma> n H L c ns t w w' \<Longrightarrow> regrown env \<sigma> n H L c ns t w0 w'"
  using same_pages_trans by (auto simp: regrown_def)

lemma graft_okI:
  assumes "level (height (Node p cks r)) (Node p cks r)" "ordered_cs lo cks r hi" "graft cks r k ns n = (cks', r')" "ordered_cs lo cks' r' hi"
    and "replaces lo' hi' ((map_of (kvs (pick cks r k)))(k := b)) (pick cks r k) ns n"
  shows "graft_ok lo hi ((map_of (group_kvs cks r))(k := b)) (Node p cks r) cks' r'"
proof -
  let ?m = "(map_of (kvs (pick cks r k)))(k := b)"
  have r: "map_of (group_kvs ns n) = ?m" "group_level (height (pick cks r k)) ns n" "set (group_seps ns n) \<subseteq> set (seps (pick cks r k)) \<union> dom ?m"
    using assms(5) by (simp_all add: replaces_def)
  have l: "cks \<noteq> []" "group_level (height (Node p cks r) - 1) cks r" using assms(1) unfolding node_shape by blast+
  have "height (pick cks r k) = height (Node p cks r) - 1" using pick_shape(1) [OF l(2)] by (rule level_height)
  then have "group_level (height (Node p cks r) - 1) cks' r'" "cks' \<noteq> []" using graft_level [OF l(2) _ assms(3)] r(2) l(1) by simp_all
  moreover have "map_of (group_kvs cks' r') = (map_of (group_kvs cks r))(k := b)" using graft_map [OF assms(2) r(1)] assms(3) by simp
  moreover have "dom ?m \<subseteq> dom ((map_of (group_kvs cks r))(k := b))" using pick_dom [of cks r k] by (auto split: if_splits)
  then have "set (group_seps cks' r') \<subseteq> set (group_seps cks r) \<union> dom ((map_of (group_kvs cks r))(k := b))"
    using graft_seps [OF assms(3)] r(3) pick_shape(2) [of cks r k] by blast
  ultimately show ?thesis using assms(4) unfolding graft_ok_def node_shape by simp
qed

lemma stored_same: "stored (V w) L t \<Longrightarrow> same_pages L w w' \<Longrightarrow> stored (V w') L t"
  using tree_at_same [of "V w" t "V w'"] unfolding stored_def same_pages_def by blast

lemma tid_nonzero: "tree_at W t \<Longrightarrow> tid t \<noteq> 0"
  by (cases t) auto

lemma child_updated_rule:
  assumes st: "stored (V w) L (Node p cks r)" and c: "c = pick cks r k" and ord: "ordered_cs lo cks r hi" "above lo k" "below k hi"
    and f: "(f, p, wr) \<in># H" and idx: "unat childIdx = rank_le (map snd cks) k"
    and u: "updated env \<sigma> (Suc (Suc n)) (add_mset (ch, tid c, False) H) L lo' c hi' ((map_of (kvs c))(k \<mapsto> v)) w1 res w2" and same: "same_pages L w w1"
    and gr: "\<And>ns nn. ordered_cs lo' ns nn hi' \<Longrightarrow> (case graft cks r k ns nn of (cks', r') \<Rightarrow> ordered_cs lo cks' r' hi)"
  shows "result_ok (do {
       w \<leftarrow> node_unpin ch w2;
       case res of
         None \<Rightarrow> Some (Inr None, w)
       | Some (newChild, extra) \<Rightarrow> do {
           w \<leftarrow> free_page (tid c) w;
           case extra of
             None \<Rightarrow> replaceInternalChild env f childIdx newChild w
           | Some (extraChild, pushUpKey) \<Rightarrow> updateInternalAfterChildSplit env f childIdx newChild pushUpKey extraChild w
         }
     }) (failed env \<sigma> H) (updated env \<sigma> n H L lo (Node p cks r) hi ((map_of (kvs (Node p cks r)))(k \<mapsto> v)) w)"
proof -
  have lv: "level (height (Node p cks r)) (Node p cks r)" using st by (simp add: stored_def del: level.simps height.simps)
  have nz: "tid c \<noteq> 0" using stored_node(8) [OF st, of k] tid_nonzero unfolding stored_def c by blast
  have sc: "same_pages (L - set (tpages c)) w w1" using same_pages_mono [OF same] by blast
  show ?thesis unfolding node_group
  proof (cases res)
    case None
    obtain w3 where w3: "node_unpin ch w2 = Some w3" "updated env \<sigma> (Suc (Suc n)) H L lo' c hi' ((map_of (kvs c))(k \<mapsto> v)) w1 res w3"
      using updated_unpin [OF u] by blast
    have m: "map_of (kvs c) = (map_of (kvs c))(k \<mapsto> v)" and ok3: "txn_ok env \<sigma> (Suc (Suc n)) H L w3" and s3: "same_pages L w1 w3"
      using w3(2) None by (simp_all add: updated_def)
    have "map_of (kvs c) k = Some v" by (subst m) simp
    then have "map_of (group_kvs cks r) k = Some v" using pick_lookup [OF ord(1), of p k] c unfolding node_group by simp
    then have m': "map_of (group_kvs cks r) = (map_of (group_kvs cks r))(k \<mapsto> v)" by (simp add: fun_upd_idem)
    have "0 \<in> L" using ok3 by (simp add: txn_ok_def lists_ok_def)
    then have "txn_ok env \<sigma> n H L w3" using txn_ok_weaken [OF ok3 subset_refl] by simp
    then have "updated env \<sigma> n H L lo (Node p cks r) hi ((map_of (group_kvs cks r))(k \<mapsto> v)) w None w3"
      using m' same_pages_trans [OF same s3] unfolding updated_def node_group by simp
    then show "result_ok (do {
       w \<leftarrow> node_unpin ch w2;
       case res of
         None \<Rightarrow> Some (Inr None, w)
       | Some (newChild, extra) \<Rightarrow> do {
           w \<leftarrow> free_page (tid c) w;
           case extra of
             None \<Rightarrow> replaceInternalChild env f childIdx newChild w
           | Some (extraChild, pushUpKey) \<Rightarrow> updateInternalAfterChildSplit env f childIdx newChild pushUpKey extraChild w
         }
      }) (failed env \<sigma> H) (updated env \<sigma> n H L lo (Node p cks r) hi ((map_of (group_kvs cks r))(k \<mapsto> v)) w)"
      using w3(1) None by (simp add: result_ok_def)
  next
    case (Some x)
    obtain g1 y where x: "x = (g1, y)" by (cases x)
    show "result_ok (do {
       w \<leftarrow> node_unpin ch w2;
       case res of
         None \<Rightarrow> Some (Inr None, w)
       | Some (newChild, extra) \<Rightarrow> do {
           w \<leftarrow> free_page (tid c) w;
           case extra of
             None \<Rightarrow> replaceInternalChild env f childIdx newChild w
           | Some (extraChild, pushUpKey) \<Rightarrow> updateInternalAfterChildSplit env f childIdx newChild pushUpKey extraChild w
         }
      }) (failed env \<sigma> H) (updated env \<sigma> n H L lo (Node p cks r) hi ((map_of (group_kvs cks r))(k \<mapsto> v)) w)"
    proof (cases y)
      case None
      obtain c' where c': "placed env \<sigma> (Suc (Suc n)) {#(g1, tid c', True)#} (add_mset (ch, tid c, False) H) (base L c) [] c' w1 w2"
        "replaces lo' hi' ((map_of (kvs c))(k \<mapsto> v)) c [] c'"
        using u unfolding updated_def Some x None by (simp only: option.simps prod.simps) blast
      obtain w3 w4 where w4: "node_unpin ch w2 = Some w3" "free_page (tid c) w3 = Some w4" "regrown env \<sigma> (Suc (Suc n)) ({#(g1, tid c', True)#} + H) L c [] c' w1 w4"
        using c'(1) nz by (rule child_freed)
      have "txn_ok env \<sigma> (Suc n) (add_mset (g1, tid c', True) H) (L - set (tpages c) \<union> set (group_pages [] c')) w4"
      proof -
        have t: "txn_ok env \<sigma> (Suc (Suc n)) (add_mset (g1, tid c', True) H) (L - set (tpages c) \<union> set (group_pages [] c')) w4"
          using w4(3) by (simp add: regrown_def)
        then have "0 \<in> L - set (tpages c) \<union> set (group_pages [] c')" by (simp add: txn_ok_def lists_ok_def)
        then show ?thesis using txn_ok_weaken [OF t subset_refl] by simp
      qed
      then have re: "regrown env \<sigma> (Suc n) (add_mset (g1, tid c', True) H) L c [] c' w w4"
        using w4(3) regrown_from [OF sc] by (simp add: regrown_def) (meson sc same_pages_trans)
      obtain cks' r' where g: "graft cks r k [] c' = (cks', r')" by (cases "graft cks r k [] c'")
      have "ordered_cs lo cks' r' hi" using gr [of "[]" c'] c'(2) g by (simp add: replaces_def)
      then have "graft_ok lo hi ((map_of (group_kvs cks r))(k \<mapsto> v)) (Node p cks r) cks' r'"
        using c'(2) unfolding c by (rule graft_okI [OF lv ord(1) g])
      from replaceInternalChild_rule [OF st c g re f this idx] show ?thesis using w4(1,2) Some x None by simp
    next
      case (Some z)
      note y = Some
      obtain g2 s where z: "z = (g2, s)" by (cases z)
      obtain a b where ab: "placed env \<sigma> (Suc (Suc n)) {#(g1, tid a, True), (g2, tid b, True)#} (add_mset (ch, tid c, False) H) (base L c) [(a, s)] b w1 w2"
        "replaces lo' hi' ((map_of (kvs c))(k \<mapsto> v)) c [(a, s)] b" "length s \<le> maxKeySize"
        using u unfolding updated_def \<open>res = Some x\<close> x y z by (simp only: option.simps prod.simps) blast
      obtain w3 w4 where w4: "node_unpin ch w2 = Some w3" "free_page (tid c) w3 = Some w4"
        "regrown env \<sigma> (Suc (Suc n)) ({#(g1, tid a, True), (g2, tid b, True)#} + H) L c [(a, s)] b w1 w4"
        using ab(1) nz by (rule child_freed)
      have re: "regrown env \<sigma> (Suc (Suc n)) ({#(g1, tid a, True), (g2, tid b, True)#} + H) L c [(a, s)] b w w4" using regrown_from [OF sc w4(3)] .
      obtain cks' r' where g: "graft cks r k [(a, s)] b = (cks', r')" by (cases "graft cks r k [(a, s)] b")
      have "ordered_cs lo cks' r' hi" using gr [of "[(a, s)]" b] ab(2) g by (simp add: replaces_def)
      then have "graft_ok lo hi ((map_of (group_kvs cks r))(k \<mapsto> v)) (Node p cks r) cks' r'"
        using ab(2) unfolding c by (rule graft_okI [OF lv ord(1) g])
      from updateInternalAfterChildSplit_rule [OF st c g re f this idx ab(3)] show ?thesis using w4(1,2) \<open>res = Some x\<close> x y z by simp
    qed
  qed
qed

lemma updateNode_rule:
  "height t < d \<Longrightarrow> txn_ok env \<sigma> (n + chain_pages (length v) + 2 * Suc (height t)) H L w \<Longrightarrow> (f, tid t, wr) \<in># H \<Longrightarrow> stored (V w) L t \<Longrightarrow>
   length k \<le> maxKeySize \<Longrightarrow> length v < 65536 \<Longrightarrow> ordered lo t hi \<Longrightarrow> above lo k \<Longrightarrow> below k hi \<Longrightarrow>
   result_ok (updateNode d env f k v mode w) (failed env \<sigma> H)
     (\<lambda>res w'. allowed mode (map_of (kvs t) k \<noteq> None) \<and> updated env \<sigma> n H L lo t hi ((map_of (kvs t))(k \<mapsto> v)) w res w')"
proof (induction d arbitrary: t n H w f wr lo hi)
  case (Suc d)
  have nd: "node_data w f = V w (tid t)" using handle_node(1) [OF txn_read [OF Suc.prems(2)] Suc.prems(3)] .
  show ?case
  proof (cases t)
    case (Leaf p es)
    have "lnode (V w p) (map item_entry es)" using Suc.prems(4) Leaf by (simp add: stored_def)
    then have "ntype (V w p) = Some nodeLeaf" by (rule lnode_reads(1))
    then have eq: "updateNode (Suc d) env f k v mode w = updateLeaf env f k v mode w" using nd Leaf by simp
    have "txn_ok env \<sigma> (Suc (Suc n) + chain_pages (length v)) H L w" "(f, p, wr) \<in># H" "stored (V w) L (Leaf p es)" "ordered lo (Leaf p es) hi"
      using Suc.prems(2,3,4,7) Leaf by simp_all
    from updateLeaf_rule [OF this(1-3) Suc.prems(5,6) this(4) Suc.prems(8,9)] show ?thesis unfolding eq Leaf kvs.simps .
  next
    case (Node p cks r)
    let ?c = "pick cks r k"
    have st: "stored (V w) L (Node p cks r)" and oc: "ordered_cs lo cks r hi" and f: "(f, p, wr) \<in># H" using Suc.prems(3,4,7) Node by simp_all
    note s = stored_node [OF st]
    obtain idx where i: "searchInternal (V w p) k = Some idx" "child (V w p) idx = Some (tid ?c)" "unat idx = rank_le (map snd cks) k"
      using searchInternal_pick [OF s(7) oc, of k] by blast
    obtain lo' hi' where b: "ordered lo' ?c hi'" "above lo' k" "below k hi'"
      "\<And>ns nn. ordered_cs lo' ns nn hi' \<Longrightarrow> (case graft cks r k ns nn of (cks', r') \<Rightarrow> ordered_cs lo cks' r' hi)"
      using graft_ordered [OF oc Suc.prems(8,9)] by blast
    have hc: "height ?c < height t" using height_pick [of cks r k p] Node by simp
    have stc: "stored (V w) L ?c" by (rule s(8))
    have cL: "tid ?c \<in> L" using stc tid_in_tpages [of ?c] unfolding stored_def by blast
    have look: "map_of (kvs t) k = map_of (kvs ?c) k" using pick_lookup [OF oc, of p k] Node by simp
    have "result_ok (try_ok (getNode env (tid ?c) w) (\<lambda>childNode w.
       try_or (updateNode d env childNode k v mode w) (node_unpin childNode) (\<lambda>res w. do {
       w \<leftarrow> node_unpin childNode w;
       case res of
         None \<Rightarrow> Some (Inr None, w)
       | Some (newChild, extra) \<Rightarrow> do {
           w \<leftarrow> free_page (tid ?c) w;
           case extra of
             None \<Rightarrow> replaceInternalChild env f idx newChild w
           | Some (extraChild, pushUpKey) \<Rightarrow> updateInternalAfterChildSplit env f idx newChild pushUpKey extraChild w
         }
       }))) (failed env \<sigma> H) (\<lambda>res w'. allowed mode (map_of (kvs t) k \<noteq> None) \<and> updated env \<sigma> n H L lo t hi ((map_of (kvs t))(k \<mapsto> v)) w res w')"
    proof (rule try_ok_rule [OF getNode_rule [OF Suc.prems(2) cL]])
      fix ch w1 assume a: "txn_ok env \<sigma> (n + chain_pages (length v) + 2 * Suc (height t)) (add_mset (ch, tid ?c, False) H) L w1 \<and> same_pages L w w1"
      have "0 \<in> L" using Suc.prems(2) by (simp add: txn_ok_def lists_ok_def)
      then have ok1: "txn_ok env \<sigma> (Suc (Suc n) + chain_pages (length v) + 2 * Suc (height ?c)) (add_mset (ch, tid ?c, False) H) L w1"
        using txn_ok_weaken [OF conjunct1 [OF a] subset_refl] hc by simp
      have same: "same_pages L w w1" using a by simp
      have r: "result_ok (updateNode d env ch k v mode w1) (failed env \<sigma> (add_mset (ch, tid ?c, False) H))
          (\<lambda>res w'. allowed mode (map_of (kvs ?c) k \<noteq> None) \<and>
            updated env \<sigma> (Suc (Suc n)) (add_mset (ch, tid ?c, False) H) L lo' ?c hi' ((map_of (kvs ?c))(k \<mapsto> v)) w1 res w')"
        using hc Suc.prems(1) by (intro Suc.IH [OF _ ok1 _ stored_same [OF stc same] Suc.prems(5,6) b(1-3)]) auto
      show "result_ok (try_or (updateNode d env ch k v mode w1) (node_unpin ch) (\<lambda>res w. do {
         w \<leftarrow> node_unpin ch w;
         case res of
           None \<Rightarrow> Some (Inr None, w)
         | Some (newChild, extra) \<Rightarrow> do {
             w \<leftarrow> free_page (tid ?c) w;
             case extra of
               None \<Rightarrow> replaceInternalChild env f idx newChild w
             | Some (extraChild, pushUpKey) \<Rightarrow> updateInternalAfterChildSplit env f idx newChild pushUpKey extraChild w
           }
         })) (failed env \<sigma> H) (\<lambda>res w'. allowed mode (map_of (kvs t) k \<noteq> None) \<and> updated env \<sigma> n H L lo t hi ((map_of (kvs t))(k \<mapsto> v)) w res w')"
      proof (rule try_or_rule [OF r failed_unpin])
        fix res w2 assume u: "allowed mode (map_of (kvs ?c) k \<noteq> None) \<and>
            updated env \<sigma> (Suc (Suc n)) (add_mset (ch, tid ?c, False) H) L lo' ?c hi' ((map_of (kvs ?c))(k \<mapsto> v)) w1 res w2"
        show "result_ok (do {
           w \<leftarrow> node_unpin ch w2;
           case res of
             None \<Rightarrow> Some (Inr None, w)
           | Some (newChild, extra) \<Rightarrow> do {
               w \<leftarrow> free_page (tid ?c) w;
               case extra of
                 None \<Rightarrow> replaceInternalChild env f idx newChild w
               | Some (extraChild, pushUpKey) \<Rightarrow> updateInternalAfterChildSplit env f idx newChild pushUpKey extraChild w
             }
           }) (failed env \<sigma> H) (\<lambda>res w'. allowed mode (map_of (kvs t) k \<noteq> None) \<and> updated env \<sigma> n H L lo t hi ((map_of (kvs t))(k \<mapsto> v)) w res w')"
          using result_ok_mono [OF child_updated_rule [OF st refl oc Suc.prems(8,9) f i(3) conjunct2 [OF u] same b(4)]] u look Node by auto
      qed
    qed auto
    moreover have "ntype (V w p) = Some nodeInternal" using inode_reads(1) [OF s(7)] .
    ultimately show ?thesis using nd i(1,2) Node by (simp add: nodeLeaf_def nodeInternal_def del: fun_upd_apply)
  qed
qed simp

end
