(* ===== verification/MapUpdate.thy ===== *)
theory MapUpdate
  imports NodeUpdate
begin

text \<open>
  The whole tree as a finite map: \<open>map_at W P h b m\<close> says that the handle \<open>b\<close> stands for the map \<open>m\<close>, that
  its nodes and overflow pages are the pages of \<open>P\<close>, and that it has at most \<open>h\<close> levels. \<open>Update\<close> turns
  a tree for \<open>m\<close> into one for \<open>m(k \<mapsto> v)\<close>; a split of the root adds a level.
\<close>

section \<open>A tree as a map\<close>

definition tree_map :: "nat \<Rightarrow> bytes set \<Rightarrow> tree \<Rightarrow> (bytes \<rightharpoonup> bytes) \<Rightarrow> bool" where
  "tree_map h K t m \<longleftrightarrow> ordered None t None \<and> level (height t) t \<and> height t < h \<and> map_of (kvs t) = m \<and> set (seps t) \<union> dom m \<subseteq> K"

definition map_at :: "(PageId \<Rightarrow> bytes) \<Rightarrow> PageId set \<Rightarrow> nat \<Rightarrow> bytes set \<Rightarrow> BTree \<Rightarrow> (bytes \<rightharpoonup> bytes) \<Rightarrow> bool" where
  "map_at W P h K b m \<longleftrightarrow>
     (if root b = 0 then P = {} \<and> m = Map.empty
      else \<exists>t. tid t = root b \<and> tree_at W t \<and> distinct (tpages t) \<and> P = set (tpages t) \<and> tree_map h K t m)"

definition map_kept ::
    "env \<Rightarrow> backdrop \<Rightarrow> nat \<Rightarrow> handle multiset \<Rightarrow> PageId set \<Rightarrow> nat \<Rightarrow> bytes set \<Rightarrow> (bytes \<rightharpoonup> bytes) \<Rightarrow> world \<Rightarrow> BTree \<Rightarrow> world \<Rightarrow> bool" where
  "map_kept env \<sigma> n H F h K m w b w' \<longleftrightarrow>
     (\<exists>P. map_at (V w') P h K b m \<and> P \<inter> F = {} \<and> txn_ok env \<sigma> n H (F \<union> P) w' \<and> same_pages F w w')"

lemma map_at_tree:
  assumes "map_at W P h K b m" "root b \<noteq> 0"
  obtains t where "tid t = root b" "stored W P t" "P = set (tpages t)" "tree_map h K t m"
  using assms by (auto simp: map_at_def stored_def tree_map_def)

lemma map_at_treeI:
  assumes "tree_at W t" "distinct (tpages t)" "tree_map h K t m" "root b = tid t"
  shows "map_at W (set (tpages t)) h K b m"
  using assms tid_nonzero [of W t] by (auto simp: map_at_def)

lemma map_at_same:
  assumes "map_at W P h K b m" "\<And>q. q \<in> P \<Longrightarrow> W' q = W q"
  shows "map_at W' P h K b m"
proof -
  have "tree_at W' t = tree_at W t" if "P = set (tpages t)" for t
    using assms(2) that by (intro tree_at_cong) auto
  then show ?thesis using assms(1) unfolding map_at_def by (auto 0 3)
qed

lemma map_at_weaken:
  assumes "map_at W P h K b m" "h \<le> h'" "K \<subseteq> K'"
  shows "map_at W P h' K' b m"
proof -
  have "tree_map h' K' t m" if "tree_map h K t m" for t using that assms(2,3) by (auto simp: tree_map_def)
  then show ?thesis using assms(1) unfolding map_at_def by (auto 0 3)
qed

text \<open>A lookup through the map.\<close>

lemma SearchKey_map:
  assumes "read_ok env H L w" "map_at (V w) P h K b m" "P \<subseteq> L" "h \<le> fuel env"
  shows "result_ok (SearchKey env b k w) (reading env H L w) (\<lambda>x w'. x = m k \<and> reading env H L w w')"
proof (cases "root b = 0")
  case True
  then show ?thesis using assms(1,2) by (simp add: SearchKey_def result_ok_def map_at_def reading_def)
next
  case False
  then obtain t where t: "tid t = root b" "stored (V w) P t" "P = set (tpages t)" "tree_map h K t m" using map_at_tree [OF assms(2)] by blast
  have "tree_at (V w) t" "set (tpages t) \<subseteq> L" "ordered None t None" "height t < fuel env" "map_of (kvs t) = m"
    using t assms(3,4) by (auto simp: stored_def tree_map_def)
  from SearchKey_rule [OF assms(1) this(1-4)] show ?thesis using t(1) \<open>map_of (kvs t) = m\<close> by simp
qed

section \<open>The root\<close>

definition root_kept ::
    "env \<Rightarrow> backdrop \<Rightarrow> nat \<Rightarrow> handle multiset \<Rightarrow> PageId set \<Rightarrow> nat \<Rightarrow> bytes set \<Rightarrow> (bytes \<rightharpoonup> bytes) \<Rightarrow> world \<Rightarrow> PageId \<times> BTree \<Rightarrow> world \<Rightarrow> bool" where
  "root_kept env \<sigma> n H F h K m w r w' \<longleftrightarrow> fst r = root (snd r) \<and> map_kept env \<sigma> n H F h K m w (snd r) w'"

lemma one_cell_fits:
  assumes "length k \<le> maxKeySize" "(ov = 0) = (5 + length k + length v \<le> maxInlineSize)"
  shows "5 + lcost [] + (length (leaf_cell k v ov) + 2) \<le> 4096"
  using assms by (auto simp: length_leaf_cell maxKeySize_def maxInlineSize_def)

lemma unpin_free_rule:
  assumes "txn_ok env \<sigma> n (add_mset (g, q, True) H) L w" "q \<in> L" "q \<noteq> 0"
  shows "\<exists>w'. do { w \<leftarrow> node_unpin g w; free_page (Id w g) w } = Some w' \<and> failed env \<sigma> H w'"
proof -
  obtain w1 where w1: "node_unpin g w = Some w1" "txn_ok env \<sigma> n H L w1" "Id w1 g = q" using assms(1) by (rule unpin_rule)
  moreover obtain w2 where "free_page q w1 = Some w2" "txn_ok env \<sigma> n H (L - {q}) w2" using free_rule [OF w1(2) assms(2,3)] by blast
  ultimately show ?thesis using txn_ok_failed by auto
qed

lemma root_keptI:
  assumes "tree_at (V w') t" "distinct (tpages t)" "tree_map h K t m" "root b = tid t" "pid = root b"
    "set (tpages t) \<inter> F = {}" "txn_ok env \<sigma> n H (F \<union> set (tpages t)) w'" "same_pages F w w'"
  shows "root_kept env \<sigma> n H F h K m w (pid, b) w'"
  using map_at_treeI [OF assms(1-4)] assms(5-8) by (auto simp: root_kept_def map_kept_def)

lemma first_leaf_rule:
  assumes ok: "txn_ok env \<sigma> (Suc (n + chain_pages (length v))) H L w" and kv: "length k \<le> maxKeySize" "length v < 65536" and k: "k \<in> K"
  shows "result_ok (try_ok (allocLeaf env w) (\<lambda>leaf w.
      try_or (appendLeafCell env leaf k v w) (\<lambda>w. do { w \<leftarrow> node_unpin leaf w; free_page (Id w leaf) w }) (\<lambda>_ w. do {
        w \<leftarrow> node_unpin leaf w;
        Some (Inr (Id w leaf, b\<lparr>root := Id w leaf\<rparr>), w)
      }))) (failed env \<sigma> H) (root_kept env \<sigma> n H L (Suc h) K [k \<mapsto> v] w)"
proof (rule try_ok_rule [OF allocLeaf_rule [OF ok]])
  fix g w1 assume "\<exists>q. q \<notin> L \<and> q \<noteq> 0 \<and> lnode (V w1 q) [] \<and> txn_ok env \<sigma> (n + chain_pages (length v)) (add_mset (g, q, True) H) (insert q L) w1 \<and> same_pages L w w1"
  then obtain q where q: "q \<notin> L" "q \<noteq> 0" "lnode (V w1 q) []" "txn_ok env \<sigma> (n + chain_pages (length v)) (add_mset (g, q, True) H) (insert q L) w1"
    "same_pages L w w1" by blast
  let ?H = "add_mset (g, q, True) H"
  have app: "result_ok (appendLeafCell env g k v w1) (txn_ok env \<sigma> 0 ?H (insert q L)) (\<lambda>_ w'. \<exists>ps. cell_appended env \<sigma> n ?H (insert q L) q [] k v ps w1 w')"
    using one_cell_fits [OF kv(1)] by (intro appendLeafCell_rule [OF q(4) _ _ q(3) kv]) (simp, simp, blast)
  show "result_ok (try_or (appendLeafCell env g k v w1) (\<lambda>w. do { w \<leftarrow> node_unpin g w; free_page (Id w g) w }) (\<lambda>_ w. do {
        w \<leftarrow> node_unpin g w;
        Some (Inr (Id w g, b\<lparr>root := Id w g\<rparr>), w)
      })) (failed env \<sigma> H) (root_kept env \<sigma> n H L (Suc h) K [k \<mapsto> v] w)"
  proof (rule try_or_rule [OF app])
    show "\<exists>s'. do { w \<leftarrow> node_unpin g s; free_page (Id w g) w } = Some s' \<and> failed env \<sigma> H s'" if "txn_ok env \<sigma> 0 ?H (insert q L) s" for s
      using unpin_free_rule [OF that] q(2) by simp
  next
    fix w2 assume "\<exists>ps. cell_appended env \<sigma> n ?H (insert q L) q [] k v ps w1 w2"
    then obtain ps where ps: "item_ok (V w2) (k, v, ps)" "distinct ps" "set ps \<inter> insert q L = {}" "txn_ok env \<sigma> n ?H (insert q L \<union> set ps) w2"
      "same_pages (insert q L - {q}) w1 w2" "lnode (V w2 q) [item_entry (k, v, ps)]" by (auto simp: cell_appended_def item_entry_def)
    let ?t = "Leaf q [(k, v, ps)]"
    obtain w3 where w3: "node_unpin g w2 = Some w3" "txn_ok env \<sigma> n H (insert q L \<union> set ps) w3" "same_pages (insert q L \<union> set ps) w2 w3" "Id w3 g = q"
      using ps(4) by (rule unpin_rule)
    have "tree_at (V w2) ?t" using ps(1,6) q(2) by simp
    then have t: "tree_at (V w3) ?t" by (rule tree_at_same) (use w3(3) in \<open>auto simp: same_pages_def\<close>)
    have "insert q L - {q} = L" using q(1) by simp
    then have same: "same_pages L w w3" using q(5) ps(5) w3(3) unfolding same_pages_def by auto
    have "insert q L \<union> set ps = L \<union> set (tpages ?t)" by auto
    then have "root_kept env \<sigma> n H L (Suc h) K [k \<mapsto> v] w (q, b\<lparr>root := q\<rparr>) w3"
      using ps(2,3) q(1) w3(2) same k by (intro root_keptI [OF t]) (auto simp: item_kv_def above_def below_def tree_map_def split: if_splits)
    then show "result_ok (do { w \<leftarrow> node_unpin g w2; Some (Inr (Id w g, b\<lparr>root := Id w g\<rparr>), w) }) (failed env \<sigma> H)
      (root_kept env \<sigma> n H L (Suc h) K [k \<mapsto> v] w)" using w3(1,4) by (simp add: result_ok_def)
  qed
qed (auto intro: txn_ok_failed)

definition root_result :: "env \<Rightarrow> BTree \<Rightarrow> rebuilt \<Rightarrow> world \<Rightarrow> (PageId \<times> BTree, world) outcome" where
  "root_result env t res w =
     (case res of
        None \<Rightarrow> Some (Inr (root t, t), w)
      | Some (newChild, extra) \<Rightarrow> do {
          w \<leftarrow> free_page (root t) w;
          case extra of
            None \<Rightarrow> do {
              let newID = Id w newChild;
              w \<leftarrow> node_unpin newChild w;
              Some (Inr (newID, t\<lparr>root := newID\<rparr>), w)
            }
          | Some (extraChild, pushUpKey) \<Rightarrow>
              try_or (allocInternal env w) (\<lambda>w. do { w \<leftarrow> node_unpin newChild w; node_unpin extraChild w })
                (\<lambda>newRoot w. do {
                  w \<leftarrow> modify newRoot (\<lambda>d. appendInternalCell d (Id w newChild) pushUpKey) w;
                  w \<leftarrow> modify newRoot (\<lambda>d. setRightmostChild d (Id w extraChild)) w;
                  w \<leftarrow> node_unpin newChild w;
                  w \<leftarrow> node_unpin extraChild w;
                  w \<leftarrow> node_unpin newRoot w;
                  Some (Inr (Id w newRoot, t\<lparr>root := Id w newRoot\<rparr>), w)
                })
        })"

lemma regrownD:
  assumes "regrown env \<sigma> n H L c ns t w w'" "F = L - set (tpages c)"
  shows "group_at (V w') ns t" "distinct (group_pages ns t)" "set (group_pages ns t) \<inter> F = {}"
    "txn_ok env \<sigma> n H (F \<union> set (group_pages ns t)) w'" "same_pages F w w'"
  using assms by (auto simp: regrown_def base_def)

lemma root_one_rule:
  assumes re: "regrown env \<sigma> n (add_mset (g, tid t', True) H) L t [] t' w w'" and t': "tree_map h K t' m"
  shows "result_ok (do { let newID = Id w' g; w \<leftarrow> node_unpin g w'; Some (Inr (newID, b\<lparr>root := newID\<rparr>), w) })
    E (root_kept env \<sigma> n H (L - set (tpages t)) h K m w)"
proof -
  note r = regrownD [OF re refl]
  obtain w2 where w2: "node_unpin g w' = Some w2" "txn_ok env \<sigma> n H (L - set (tpages t) \<union> set (group_pages [] t')) w2"
    "same_pages (L - set (tpages t) \<union> set (group_pages [] t')) w' w2" using r(4) by (rule unpin_rule)
  have i: "Id w' g = tid t'" using handle_node(2) [OF txn_read [OF r(4)], of g "tid t'" True] by simp
  have "tree_at (V w2) t'" using r(1) tree_at_same [of "V w'" t' "V w2"] w2(3) by (simp add: same_pages_def)
  moreover have "same_pages (L - set (tpages t)) w w2" using r(5) w2(3) unfolding same_pages_def by simp
  ultimately have "root_kept env \<sigma> n H (L - set (tpages t)) h K m w (tid t', b\<lparr>root := tid t'\<rparr>) w2"
    using r(2,3) t' w2(2) by (intro root_keptI [of _ t']) simp_all
  then show ?thesis using w2(1) i by (simp add: result_ok_def Let_def)
qed

lemma new_root_node:
  assumes "inode d [] r0" "length s \<le> maxKeySize"
  obtains d1 d2 where "appendInternalCell d c s = Some d1" "length d1 = 4096" "setRightmostChild d1 r = Some d2" "inode d2 [(c, s)] r" "length d2 = 4096"
proof -
  have "13 + icost ([] :: (PageId \<times> bytes) list) + (12 + length s) \<le> 4096" using assms(2) by (simp add: maxKeySize_def)
  then obtain d1 where d1: "appendInternalCell d c s = Some d1" "inode d1 ([] @ [(c, s)]) r0" using appendInternalCell_inode [OF assms] by blast
  then obtain d2 where "setRightmostChild d1 r = Some d2" "inode d2 [(c, s)] r" using setRightmostChild_inode by fastforce
  then show thesis using that [OF d1(1)] inode_reads(4) d1(2) by blast
qed

lemma unpin_three:
  assumes "txn_ok env \<sigma> n (add_mset (g, q, x) ({#(g1, p1, y), (g2, p2, z)#} + H)) L w"
  obtains w1 w2 w3 where "node_unpin g1 w = Some w1" "node_unpin g2 w1 = Some w2" "node_unpin g w2 = Some w3" "Id w3 g = q"
    "txn_ok env \<sigma> n H L w3" "same_pages L w w3"
proof -
  have "txn_ok env \<sigma> n (add_mset (g1, p1, y) (add_mset (g2, p2, z) (add_mset (g, q, x) H))) L w" using assms by (simp add: add_mset_commute)
  then obtain w1 where w1: "node_unpin g1 w = Some w1" "txn_ok env \<sigma> n (add_mset (g2, p2, z) (add_mset (g, q, x) H)) L w1" "same_pages L w w1" by (rule unpin_rule)
  obtain w2 where w2: "node_unpin g2 w1 = Some w2" "txn_ok env \<sigma> n (add_mset (g, q, x) H) L w2" "same_pages L w1 w2" using w1(2) by (rule unpin_rule)
  obtain w3 where w3: "node_unpin g w2 = Some w3" "txn_ok env \<sigma> n H L w3" "same_pages L w2 w3" "Id w3 g = q" using w2(2) by (rule unpin_rule)
  have "same_pages L w w3" using w1(3) w2(3) w3(3) by (simp add: same_pages_def)
  then show thesis by (rule that [OF w1(1) w2(1) w3(1) w3(4) w3(2)])
qed

lemma root_two_rule:
  assumes re: "regrown env \<sigma> (Suc n) ({#(g1, tid a, True), (g2, tid c, True)#} + H) L t [(a, s)] c w w'"
    and t': "replaces None None m t [(a, s)] c" "height t < h" "set (seps t) \<union> dom m \<subseteq> K" and s: "length s \<le> maxKeySize"
  shows "result_ok (try_or (allocInternal env w') (\<lambda>w. do { w \<leftarrow> node_unpin g1 w; node_unpin g2 w }) (\<lambda>newRoot w. do {
      w \<leftarrow> modify newRoot (\<lambda>d. appendInternalCell d (Id w g1) s) w;
      w \<leftarrow> modify newRoot (\<lambda>d. setRightmostChild d (Id w g2)) w;
      w \<leftarrow> node_unpin g1 w;
      w \<leftarrow> node_unpin g2 w;
      w \<leftarrow> node_unpin newRoot w;
      Some (Inr (Id w newRoot, b\<lparr>root := Id w newRoot\<rparr>), w)
    })) (failed env \<sigma> H) (root_kept env \<sigma> n H (L - set (tpages t)) (Suc h) K m w)"
proof -
  let ?F = "L - set (tpages t)" and ?G = "set (group_pages [(a, s)] c)" and ?H = "{#(g1, tid a, True), (g2, tid c, True)#} + H"
  note r = regrownD [OF re refl]
  show ?thesis
  proof (rule try_or_rule [OF allocInternal_rule [OF r(4)]])
    fix u assume "txn_ok env \<sigma> 0 ?H (?F \<union> ?G) u"
    then have "failed env \<sigma> (add_mset (g1, tid a, True) (add_mset (g2, tid c, True) H)) u" using txn_ok_failed by simp
    from failed_unpin [OF this] obtain u1 where u1: "node_unpin g1 u = Some u1" "failed env \<sigma> (add_mset (g2, tid c, True) H) u1" by blast
    then show "\<exists>u'. do { w \<leftarrow> node_unpin g1 u; node_unpin g2 w } = Some u' \<and> failed env \<sigma> H u'" using failed_unpin [OF u1(2)] by simp
  next
    fix g w1 assume "\<exists>q r. q \<notin> ?F \<union> ?G \<and> q \<noteq> 0 \<and> inode (V w1 q) [] r \<and> txn_ok env \<sigma> n (add_mset (g, q, True) ?H) (insert q (?F \<union> ?G)) w1 \<and>
      same_pages (?F \<union> ?G) w' w1"
    then obtain q r0 where q: "q \<notin> ?F \<union> ?G" "q \<noteq> 0" "inode (V w1 q) [] r0" and ok1: "txn_ok env \<sigma> n (add_mset (g, q, True) ?H) (insert q (?F \<union> ?G)) w1"
      and s1: "same_pages (?F \<union> ?G) w' w1" by blast
    let ?H1 = "add_mset (g, q, True) ?H" and ?L1 = "insert q (?F \<union> ?G)"
    have hs: "(g, q, True) \<in># ?H1" "(g1, tid a, True) \<in># ?H1" "(g2, tid c, True) \<in># ?H1" by simp_all
    obtain d1 d2 where d: "appendInternalCell (V w1 q) (tid a) s = Some d1" "length d1 = 4096" "setRightmostChild d1 (tid c) = Some d2"
      "inode d2 [(tid a, s)] (tid c)" "length d2 = 4096" using new_root_node [OF q(3) s] by blast
    have i1: "Id w1 g1 = tid a" using handle_node(2) [OF txn_read [OF ok1] hs(2)] .
    obtain w2 where w2: "modify g (\<lambda>d. appendInternalCell d (Id w1 g1) s) w1 = Some w2" "txn_ok env \<sigma> n ?H1 ?L1 w2" "V w2 q = d1" "same_pages (?L1 - {q}) w1 w2"
      using modify_rule [where g = "\<lambda>d. appendInternalCell d (Id w1 g1) s", OF ok1 hs(1)] d(1,2) i1 by auto
    have i2: "Id w2 g2 = tid c" using handle_node(2) [OF txn_read [OF w2(2)] hs(3)] .
    obtain w3 where w3: "modify g (\<lambda>d. setRightmostChild d (Id w2 g2)) w2 = Some w3" "txn_ok env \<sigma> n ?H1 ?L1 w3" "V w3 q = d2" "same_pages (?L1 - {q}) w2 w3"
      using modify_rule [where g = "\<lambda>d. setRightmostChild d (Id w2 g2)", OF w2(2) hs(1)] d(3,5) w2(3) i2 by auto
    obtain w4 w5 w6 where w6: "node_unpin g1 w3 = Some w4" "node_unpin g2 w4 = Some w5" "node_unpin g w5 = Some w6" "Id w6 g = q"
      "txn_ok env \<sigma> n H ?L1 w6" "same_pages ?L1 w3 w6" using w3(2) by (rule unpin_three)
    have "?L1 - {q} = ?F \<union> ?G" using q(1) by auto
    then have same: "V w6 p = V w' p" if "p \<in> ?F \<union> ?G" for p using s1 w2(4) w3(4) w6(6) that unfolding same_pages_def by auto
    let ?t = "Node q [(a, s)] c"
    have "group_at (V w6) [(a, s)] c" using r(1) by (rule group_at_same) (use same in blast)
    moreover have "inode (V w6 q) (child_refs [(a, s)]) (tid c)" using d(4) w3(3) w6(6) unfolding same_pages_def by simp
    ultimately have t: "tree_at (V w6) ?t" using q(2) unfolding node_group by blast
    have "txn_ok env \<sigma> n H (?F \<union> set (tpages ?t)) w6" using w6(5) unfolding node_group by (simp add: insert_commute)
    moreover have "distinct (tpages ?t)" "set (tpages ?t) \<inter> ?F = {}" using r(2,3) q(1) unfolding node_group by auto
    moreover have "same_pages ?F w w6" using r(5) same unfolding same_pages_def by simp
    moreover have "tree_map (Suc h) K ?t m"
    proof -
      have l: "level (Suc (height t)) ?t" using t'(1) unfolding replaces_def node_shape by simp
      then have "level (height ?t) ?t" "height ?t < Suc h" using level_height [OF l] t'(2) by simp_all
      moreover have "set (group_seps [(a, s)] c) \<subseteq> K" using t'(1,3) unfolding replaces_def by blast
      ultimately show ?thesis using t'(1,3) unfolding replaces_def tree_map_def node_group node_shape(2) by simp
    qed
    ultimately have "root_kept env \<sigma> n H ?F (Suc h) K m w (q, b\<lparr>root := q\<rparr>) w6" by (intro root_keptI [OF t]) simp_all
    then show "result_ok (do {
        w \<leftarrow> modify g (\<lambda>d. appendInternalCell d (Id w1 g1) s) w1;
        w \<leftarrow> modify g (\<lambda>d. setRightmostChild d (Id w g2)) w;
        w \<leftarrow> node_unpin g1 w;
        w \<leftarrow> node_unpin g2 w;
        w \<leftarrow> node_unpin g w;
        Some (Inr (Id w g, b\<lparr>root := Id w g\<rparr>), w)
      }) (failed env \<sigma> H) (root_kept env \<sigma> n H ?F (Suc h) K m w)" using w2(1) w3(1) w6(1-4) by (simp add: result_ok_def)
  qed
qed

lemma root_result_rule:
  assumes u: "updated env \<sigma> (Suc n) (add_mset (rf, tid t, False) H) L None t None m w1 res w2" and b: "root b = tid t"
    and st: "stored (V w) L t" "tree_map h K t m0" and K: "dom m \<subseteq> K" and same: "same_pages L w w1"
  shows "result_ok (do { w \<leftarrow> node_unpin rf w2; root_result env b res w }) (failed env \<sigma> H) (root_kept env \<sigma> n H (L - set (tpages t)) (Suc h) K m w)"
proof -
  let ?F = "L - set (tpages t)"
  have nz: "tid t \<noteq> 0" using st(1) tid_nonzero by (auto simp: stored_def)
  have tm: "ordered None t None" "height t < h" "set (seps t) \<union> dom m \<subseteq> K" "level (height t) t" using st(2) K by (auto simp: tree_map_def)
  have less: "txn_ok env \<sigma> n K M x" if "txn_ok env \<sigma> (Suc n) K M x" for K M x
    using txn_ok_weaken [OF that subset_refl] that by (simp add: txn_ok_def lists_ok_def)
  have sF: "same_pages ?F w w1" using same unfolding same_pages_def by simp
  show ?thesis
  proof (cases res)
    case None
    have n: "map_of (kvs t) = m" "txn_ok env \<sigma> (Suc n) (add_mset (rf, tid t, False) H) L w2" "same_pages L w1 w2"
      using u unfolding updated_def None by simp_all
    obtain w3 where w3: "node_unpin rf w2 = Some w3" "txn_ok env \<sigma> (Suc n) H L w3" "same_pages L w2 w3" using n(2) by (rule unpin_rule)
    have L: "L = ?F \<union> set (tpages t)" using st(1) unfolding stored_def by auto
    have "same_pages L w w3" using same n(3) w3(3) unfolding same_pages_def by simp
    then have "stored (V w3) L t" "same_pages ?F w w3" using st(1) stored_same unfolding same_pages_def by (blast, simp)
    then have "root_kept env \<sigma> n H ?F (Suc h) K m w (root b, b) w3"
      using less [OF w3(2)] L n(1) tm b unfolding stored_def by (intro root_keptI [of _ t]) (auto simp: tree_map_def)
    then show ?thesis using w3(1) None by (simp add: result_ok_def root_result_def)
  next
    case (Some x)
    obtain g1 y where x: "x = (g1, y)" by (cases x)
    show ?thesis
    proof (cases y)
      case None
      obtain t' where t': "placed env \<sigma> (Suc n) {#(g1, tid t', True)#} (add_mset (rf, tid t, False) H) (base L t) [] t' w1 w2"
        "replaces None None m t [] t'"
        using u unfolding updated_def Some x None by (simp only: option.simps prod.simps) blast
      obtain w3 w4 where w4: "node_unpin rf w2 = Some w3" "free_page (tid t) w3 = Some w4" "regrown env \<sigma> (Suc n) ({#(g1, tid t', True)#} + H) L t [] t' w1 w4"
        using t'(1) nz by (rule child_freed)
      have "regrown env \<sigma> n (add_mset (g1, tid t', True) H) L t [] t' w w4"
        using regrown_from [OF sF w4(3)] less by (simp add: regrown_def)
      moreover have "set (seps t') \<subseteq> K" using t'(2) tm(3) unfolding replaces_def group_shape_simps by blast
      then have "tree_map (Suc h) K t' m" using t'(2) level_height [of "height t" t'] tm by (simp add: tree_map_def replaces_def)
      ultimately show ?thesis using root_one_rule [of env \<sigma> n g1 t' H L t w w4 "Suc h" K m b "failed env \<sigma> H"]
        w4(1,2) b Some x None by (simp add: root_result_def)
    next
      case (Some z)
      obtain g2 s where z: "z = (g2, s)" by (cases z)
      obtain a c where ac: "placed env \<sigma> (Suc n) {#(g1, tid a, True), (g2, tid c, True)#} (add_mset (rf, tid t, False) H) (base L t) [(a, s)] c w1 w2"
        "replaces None None m t [(a, s)] c" "length s \<le> maxKeySize"
        using u unfolding updated_def \<open>res = Some x\<close> x Some z by (simp only: option.simps prod.simps) blast
      obtain w3 w4 where w4: "node_unpin rf w2 = Some w3" "free_page (tid t) w3 = Some w4"
        "regrown env \<sigma> (Suc n) ({#(g1, tid a, True), (g2, tid c, True)#} + H) L t [(a, s)] c w1 w4" using ac(1) nz by (rule child_freed)
      from root_two_rule [OF regrown_from [OF sF w4(3)] ac(2) tm(2,3) ac(3), of b] show ?thesis
        using w4(1,2) b \<open>res = Some x\<close> x Some z by (simp add: root_result_def)
    qed
  qed
qed

lemma UpdateKey_rule:
  assumes ok: "txn_ok env \<sigma> (Suc (n + chain_pages (length v) + 2 * h)) H L w" and m: "map_at (V w) P h K b m" "P \<subseteq> L" "h \<le> fuel env"
    and v: "length v < 65536" and kK: "k \<in> K"
  shows "result_ok (UpdateKey env b k v mode w) (failed env \<sigma> H)
    (\<lambda>r w'. length k \<le> maxKeySize \<and> allowed mode (m k \<noteq> None) \<and> root_kept env \<sigma> n H (L - P) (Suc h) K (m(k \<mapsto> v)) w r w')"
proof (cases "length k \<le> maxKeySize")
  case False
  then show ?thesis using txn_ok_failed [OF ok] by (simp add: UpdateKey_def result_ok_def)
next
  case k: True
  have zero: "0 \<in> L" using ok by (simp add: txn_ok_def lists_ok_def)
  show ?thesis
  proof (cases "root b = 0")
    case True
    then have P: "P = {}" "m = Map.empty" using m(1) by (simp_all add: map_at_def)
    have ok1: "txn_ok env \<sigma> (Suc (n + chain_pages (length v))) H L w" using txn_ok_weaken [OF ok subset_refl zero] by simp
    show ?thesis
    proof (cases "mode = ModeUpdate")
      case True
      then show ?thesis using txn_ok_failed [OF ok] k \<open>root b = 0\<close> by (simp add: UpdateKey_def result_ok_def)
    next
      case False
      then have "allowed mode False" by (cases mode) auto
      with result_ok_mono [OF first_leaf_rule [OF ok1 k v kK, of b h], of "failed env \<sigma> H" "\<lambda>r w'. length k \<le> maxKeySize \<and>
          allowed mode (m k \<noteq> None) \<and> root_kept env \<sigma> n H (L - P) (Suc h) K (m(k \<mapsto> v)) w r w'"]
      show ?thesis using k False True P by (simp add: UpdateKey_def)
    qed
  next
    case False
    obtain t where t0: "tid t = root b" "stored (V w) P t" "P = set (tpages t)" "tree_map h K t m"
      using m(1) False by (rule map_at_tree)
    then have t: "tid t = root b" "stored (V w) P t" "P = set (tpages t)" "ordered None t None" "map_of (kvs t) = m" "height t < h" "dom m \<subseteq> K"
      by (auto simp: tree_map_def)
    have st: "stored (V w) L t" using t(2) m(2) by (auto simp: stored_def)
    have rL: "root b \<in> L" using t(1,3) m(2) tid_in_tpages [of t] by auto
    have ok1: "txn_ok env \<sigma> (Suc n + chain_pages (length v) + 2 * Suc (height t)) H L w"
      using txn_ok_weaken [OF ok subset_refl zero] t(6) by simp
    have "result_ok (try_ok (getNode env (root b) w) (\<lambda>rootNode w.
        try_or (updateNode (fuel env) env rootNode k v mode w) (node_unpin rootNode) (\<lambda>res w. do { w \<leftarrow> node_unpin rootNode w; root_result env b res w })))
      (failed env \<sigma> H) (\<lambda>r w'. length k \<le> maxKeySize \<and> allowed mode (m k \<noteq> None) \<and> root_kept env \<sigma> n H (L - P) (Suc h) K (m(k \<mapsto> v)) w r w')"
    proof (rule try_ok_rule [OF getNode_rule [OF ok1 rL]])
      fix rf w1 assume a: "txn_ok env \<sigma> (Suc n + chain_pages (length v) + 2 * Suc (height t)) (add_mset (rf, root b, False) H) L w1 \<and> same_pages L w w1"
      then have same: "same_pages L w w1" by blast
      have "result_ok (updateNode (fuel env) env rf k v mode w1) (failed env \<sigma> (add_mset (rf, tid t, False) H))
          (\<lambda>res w'. allowed mode (map_of (kvs t) k \<noteq> None) \<and>
            updated env \<sigma> (Suc n) (add_mset (rf, tid t, False) H) L None t None ((map_of (kvs t))(k \<mapsto> v)) w1 res w')"
        using a t(1,6) m(3) by (intro updateNode_rule [OF _ _ _ stored_same [OF st same] k v t(4)]) (auto simp: above_def below_def)
      then show "result_ok (try_or (updateNode (fuel env) env rf k v mode w1) (node_unpin rf) (\<lambda>res w. do { w \<leftarrow> node_unpin rf w; root_result env b res w }))
        (failed env \<sigma> H) (\<lambda>r w'. length k \<le> maxKeySize \<and> allowed mode (m k \<noteq> None) \<and> root_kept env \<sigma> n H (L - P) (Suc h) K (m(k \<mapsto> v)) w r w')"
      proof (rule try_or_rule [OF _ failed_unpin])
        fix res w2 assume u: "allowed mode (map_of (kvs t) k \<noteq> None) \<and>
            updated env \<sigma> (Suc n) (add_mset (rf, tid t, False) H) L None t None ((map_of (kvs t))(k \<mapsto> v)) w1 res w2"
        show "result_ok (do { w \<leftarrow> node_unpin rf w2; root_result env b res w }) (failed env \<sigma> H)
          (\<lambda>r w'. length k \<le> maxKeySize \<and> allowed mode (m k \<noteq> None) \<and> root_kept env \<sigma> n H (L - P) (Suc h) K (m(k \<mapsto> v)) w r w')"
          by (rule result_ok_mono [OF root_result_rule [OF conjunct2 [OF u] t(1) [symmetric] st t0(4) _ same]])
            (use u k kK t(3,5,7) in auto)
      qed
    qed auto
    then show ?thesis using k False by (simp add: UpdateKey_def root_result_def)
  qed
qed

end
