(* ===== verification/Merge.thy ===== *)
theory Merge
  imports Split
begin

text \<open>
  The page work of \<^verbatim>\<open>src/delete.go\<close>: when a sibling can lend a cell, how two siblings are merged
  into a fresh page, and how the parent is rebuilt after a borrow or a merge. The borrow itself
  moves one cell with operations of \<^theory_text>\<open>Nodes\<close> and is part of the tree code.
\<close>

section \<open>Definitions\<close>

definition siblingCanDonate :: "bytes \<Rightarrow> bool option" where
  "siblingCanDonate sibling = do {
     n \<leftarrow> nCells sibling;
     if n \<le> of_nat minCellsPerPage then Some False
     else do {
       borrowSize \<leftarrow> cellSize sibling (n - 1);
       free \<leftarrow> freeSpace sibling;
       let used = of_nat PageSize - free;
       Some (used - borrowSize - 2 \<ge> of_nat (PageSize div 4))
     }
   }"

definition rebuildParentForBorrow_fill ::
    "bytes \<Rightarrow> bytes \<Rightarrow> u16 \<Rightarrow> PageId \<Rightarrow> bytes \<Rightarrow> PageId \<Rightarrow> bytes option" where
  "rebuildParentForBorrow_fill dst node sepIdx leftChildID sepKey rightChildID = do {
     n \<leftarrow> nCells node;
     dst \<leftarrow> copyRange dst node 0 sepIdx;
     dst \<leftarrow> appendInternalCell dst leftChildID sepKey;
     if sepIdx + 1 < n then do {
       k \<leftarrow> key node (sepIdx + 1);
       dst \<leftarrow> appendInternalCell dst rightChildID k;
       dst \<leftarrow> copyRange dst node (sepIdx + 2) (n - sepIdx - 2);
       r \<leftarrow> rightmostChild node;
       setRightmostChild dst r
     } else setRightmostChild dst rightChildID
   }"

definition rebuildParentForMerge_fill :: "bytes \<Rightarrow> bytes \<Rightarrow> u16 \<Rightarrow> PageId \<Rightarrow> bytes option" where
  "rebuildParentForMerge_fill dst node sepIdx mergedID = do {
     n \<leftarrow> nCells node;
     dst \<leftarrow> copyRange dst node 0 sepIdx;
     if sepIdx + 1 < n then do {
       k \<leftarrow> key node (sepIdx + 1);
       dst \<leftarrow> appendInternalCell dst mergedID k;
       dst \<leftarrow> copyRange dst node (sepIdx + 2) (n - sepIdx - 2);
       r \<leftarrow> rightmostChild node;
       setRightmostChild dst r
     } else setRightmostChild dst mergedID
   }"

definition mergeWithLeft_fill :: "bytes \<Rightarrow> bytes \<Rightarrow> bytes \<Rightarrow> bytes \<Rightarrow> bytes option" where
  "mergeWithLeft_fill merged leftSibling parentSepKey ch = do {
     t \<leftarrow> ntype ch;
     let isLeaf = (t = nodeLeaf);
     nl \<leftarrow> nCells leftSibling;
     merged \<leftarrow> copyRange merged leftSibling 0 nl;
     merged \<leftarrow> (if \<not> isLeaf then do {
         r \<leftarrow> rightmostChild leftSibling;
         appendInternalCell merged r parentSepKey
       } else Some merged);
     nc \<leftarrow> nCells ch;
     merged \<leftarrow> copyRange merged ch 0 nc;
     if \<not> isLeaf then do {
       r \<leftarrow> rightmostChild ch;
       setRightmostChild merged r
     } else Some merged
   }"

definition mergeWithRight_fill :: "bytes \<Rightarrow> bytes \<Rightarrow> bytes \<Rightarrow> bytes \<Rightarrow> bytes option" where
  "mergeWithRight_fill merged ch rightSibling parentSepKey = do {
     t \<leftarrow> ntype ch;
     let isLeaf = (t = nodeLeaf);
     nc \<leftarrow> nCells ch;
     merged \<leftarrow> copyRange merged ch 0 nc;
     merged \<leftarrow> (if \<not> isLeaf then do {
         r \<leftarrow> rightmostChild ch;
         appendInternalCell merged r parentSepKey
       } else Some merged);
     nr \<leftarrow> nCells rightSibling;
     merged \<leftarrow> copyRange merged rightSibling 0 nr;
     if \<not> isLeaf then do {
       r \<leftarrow> rightmostChild rightSibling;
       setRightmostChild merged r
     } else Some merged
   }"

section \<open>Merging siblings\<close>

text \<open>Both merges are the concatenation of two siblings; they differ in which one is the child.\<close>

lemma merge_leaves:
  assumes "lnode m []" "lnode a xs" "lnode b ys" "5 + lcost xs + lcost ys \<le> 4096"
  shows "\<exists>m1 m2. copyRange m a 0 (of_nat (length xs)) = Some m1 \<and> copyRange m1 b 0 (of_nat (length ys)) = Some m2 \<and>
    lnode m2 (xs @ ys)"
proof -
  have u: "unat (of_nat (length xs) :: u16) = length xs" "unat (of_nat (length ys) :: u16) = length ys"
    using lnode_length assms(2,3) by (fastforce simp: u16_simps)+
  obtain m1 where m1: "copyRange m a 0 (of_nat (length xs)) = Some m1" "lnode m1 xs"
    using copyRange_lnode [OF assms(1,2) _ u(1), of 0 0] assms(4) by auto
  then show ?thesis using copyRange_lnode [OF m1(2) assms(3) _ u(2), of 0 0] assms(4) by auto
qed

lemma merge_internals:
  assumes "inode m [] r0" "inode a xs ra" "inode b ys rb" "length k \<le> maxKeySize"
    "13 + icost xs + (12 + length k) + icost ys \<le> 4096"
  shows "\<exists>m1 m2 m3 m4. copyRange m a 0 (of_nat (length xs)) = Some m1 \<and> appendInternalCell m1 ra k = Some m2 \<and>
    copyRange m2 b 0 (of_nat (length ys)) = Some m3 \<and> setRightmostChild m3 rb = Some m4 \<and>
    inode m4 (xs @ (ra, k) # ys) rb"
proof -
  have u: "unat (of_nat (length xs) :: u16) = length xs" "unat (of_nat (length ys) :: u16) = length ys"
    using inode_length assms(2,3) by (fastforce simp: u16_simps)+
  obtain m1 where m1: "copyRange m a 0 (of_nat (length xs)) = Some m1" "inode m1 xs r0"
    using copyRange_inode [OF assms(1,2) _ u(1), of 0 0] assms(5) by auto
  obtain m2 where m2: "appendInternalCell m1 ra k = Some m2" "inode m2 (xs @ [(ra, k)]) r0"
    using appendInternalCell_inode [OF m1(2) assms(4), of ra] assms(5) by auto
  obtain m3 where m3: "copyRange m2 b 0 (of_nat (length ys)) = Some m3" "inode m3 ((xs @ [(ra, k)]) @ ys) r0"
    using copyRange_inode [OF m2(2) assms(3) _ u(2), of 0 0] assms(5) by auto
  obtain m4 where "setRightmostChild m3 rb = Some m4" "inode m4 ((xs @ [(ra, k)]) @ ys) rb"
    using setRightmostChild_inode [OF m3(2)] by blast
  then show ?thesis using m1(1) m2(1) m3(1) by auto
qed

lemma mergeWithLeft_lnode:
  assumes "lnode m []" "lnode left xs" "lnode ch ys" "5 + lcost xs + lcost ys \<le> 4096"
  shows "\<exists>m'. mergeWithLeft_fill m left k ch = Some m' \<and> lnode m' (xs @ ys)"
  using merge_leaves [OF assms] lnode_reads(1,2) [OF assms(3)] lnode_reads(2) [OF assms(2)]
  by (auto simp: mergeWithLeft_fill_def)

lemma mergeWithRight_lnode:
  assumes "lnode m []" "lnode ch xs" "lnode right ys" "5 + lcost xs + lcost ys \<le> 4096"
  shows "\<exists>m'. mergeWithRight_fill m ch right k = Some m' \<and> lnode m' (xs @ ys)"
  using merge_leaves [OF assms] lnode_reads(1,2) [OF assms(2)] lnode_reads(2) [OF assms(3)]
  by (auto simp: mergeWithRight_fill_def)

lemma mergeWithLeft_inode:
  assumes "inode m [] r0" "inode left xs rl" "inode ch ys rc" "length k \<le> maxKeySize"
    "13 + icost xs + (12 + length k) + icost ys \<le> 4096"
  shows "\<exists>m'. mergeWithLeft_fill m left k ch = Some m' \<and> inode m' (xs @ (rl, k) # ys) rc"
  using merge_internals [OF assms] inode_reads(1-3) [OF assms(3)] inode_reads(2,3) [OF assms(2)]
  by (auto simp: mergeWithLeft_fill_def)

lemma mergeWithRight_inode:
  assumes "inode m [] r0" "inode ch xs rc" "inode right ys rr" "length k \<le> maxKeySize"
    "13 + icost xs + (12 + length k) + icost ys \<le> 4096"
  shows "\<exists>m'. mergeWithRight_fill m ch right k = Some m' \<and> inode m' (xs @ (rc, k) # ys) rr"
  using merge_internals [OF assms] inode_reads(1-3) [OF assms(2)] inode_reads(2,3) [OF assms(3)]
  by (auto simp: mergeWithRight_fill_def)

section \<open>Rebuilding the parent\<close>

text \<open>The two children around separator \<open>j\<close> become \<open>a\<close> and \<open>b\<close> with separator \<open>k\<close>, or one child.\<close>

definition put_borrow :: "nat \<Rightarrow> 'a \<Rightarrow> bytes \<Rightarrow> 'a \<Rightarrow> ('a \<times> bytes) list \<Rightarrow> ('a \<times> bytes) list" where
  "put_borrow j a k b cks = take j cks @ (a, k) #
     (if Suc j < length cks then (b, snd (cks ! Suc j)) # drop (j + 2) cks else [])"

definition put_merge :: "nat \<Rightarrow> 'a \<Rightarrow> ('a \<times> bytes) list \<Rightarrow> ('a \<times> bytes) list" where
  "put_merge j a cks = take j cks @
     (if Suc j < length cks then (a, snd (cks ! Suc j)) # drop (j + 2) cks else [])"

definition put_last :: "nat \<Rightarrow> 'a \<Rightarrow> ('a \<times> bytes) list \<Rightarrow> 'a \<Rightarrow> 'a" where
  "put_last j b cks r = (if Suc j < length cks then r else b)"

lemma icost_nth_next:
  assumes "Suc j < length cks"
  shows "icost cks = icost (take (Suc j) cks) + (12 + length (snd (cks ! Suc j))) + icost (drop (j + 2) cks)"
proof -
  have "drop (Suc j) cks = cks ! Suc j # drop (j + 2) cks" using assms by (simp add: Cons_nth_drop_Suc)
  then show ?thesis using icost_take_drop [of "Suc j" cks] by simp
qed

text \<open>The common tail of both rebuilds: the right child with the next separator, the remaining
  pairs and the rightmost child.\<close>

lemma rebuild_tail:
  assumes node: "inode node cks r" and d: "inode d xs r0" and j: "unat c = j" "Suc j < length cks"
    and fits: "13 + icost xs + (12 + length (snd (cks ! Suc j))) + icost (drop (j + 2) cks) \<le> 4096"
  shows "\<exists>d1 d2 d3. key node (c + 1) = Some (snd (cks ! Suc j)) \<and> appendInternalCell d b (snd (cks ! Suc j)) = Some d1 \<and>
    copyRange d1 node (c + 2) (of_nat (length cks) - c - 2) = Some d2 \<and> setRightmostChild d2 r = Some d3 \<and>
    inode d3 (xs @ (b, snd (cks ! Suc j)) # drop (j + 2) cks) r"
proof -
  have u: "unat (c + 1) = Suc j" "unat (c + 2) = j + 2" "unat (of_nat (length cks) - c - 2) = length cks - (j + 2)"
    using j inode_length [OF node] by (simp_all add: u16_simps)
  have ki: "length (snd (cks ! Suc j)) \<le> maxKeySize" using inode_key_nth [OF node j(2)] by (simp add: maxKeySize_def)
  obtain d1 where d1: "appendInternalCell d b (snd (cks ! Suc j)) = Some d1" "inode d1 (xs @ [(b, snd (cks ! Suc j))]) r0"
    using appendInternalCell_inode [OF d ki, of b] fits by auto
  have lim: "j + 2 + (length cks - (j + 2)) \<le> length cks" using j(2) by simp
  obtain d2 where d2: "copyRange d1 node (c + 2) (of_nat (length cks) - c - 2) = Some d2"
    "inode d2 ((xs @ [(b, snd (cks ! Suc j))]) @ drop (j + 2) cks) r0"
    using copyRange_inode [OF d1(2) node u(2,3) lim] fits by auto
  obtain d3 where "setRightmostChild d2 r = Some d3" "inode d3 ((xs @ [(b, snd (cks ! Suc j))]) @ drop (j + 2) cks) r"
    using setRightmostChild_inode [OF d2(2)] by blast
  then show ?thesis using d1(1) d2(1) inode_cell(1) [OF node u(1) j(2)] by auto
qed

lemma rebuildParentForMerge_inode:
  assumes node: "inode node cks r" and fresh: "inode d [] r0" and j: "unat c = j" "j < length cks"
  shows "\<exists>d'. rebuildParentForMerge_fill d node c a = Some d' \<and> inode d' (put_merge j a cks) (put_last j a cks r)"
proof -
  have cond: "(c + 1 < of_nat (length cks)) = (Suc j < length cks)"
    using j inode_length [OF node] by (simp add: u16_simps)
  obtain d1 where d1: "copyRange d node 0 c = Some d1" "inode d1 (take j cks) r0"
    using inode_prefix [OF fresh node j(1)] j(2) by auto
  show ?thesis
  proof (cases "Suc j < length cks")
    case True
    have "icost (take j cks) \<le> icost (take (Suc j) cks)" using j(2) by (simp add: take_Suc_conv_app_nth)
    then have "13 + icost (take j cks) + (12 + length (snd (cks ! Suc j))) + icost (drop (j + 2) cks) \<le> 4096"
      using icost_nth_next [OF True] inode_fits [OF node] by linarith
    from rebuild_tail [OF node d1(2) j(1) True this, of a] show ?thesis
      using d1(1) cond True by (auto simp: rebuildParentForMerge_fill_def inode_reads [OF node] put_merge_def put_last_def)
  next
    case False
    then show ?thesis using setRightmostChild_inode [OF d1(2), of a] d1(1) cond
      by (auto simp: rebuildParentForMerge_fill_def inode_reads [OF node] put_merge_def put_last_def)
  qed
qed

lemma rebuildParentForBorrow_inode:
  assumes node: "inode node cks r" and fresh: "inode d [] r0" and j: "unat c = j" "j < length cks"
    and k: "length k \<le> maxKeySize" and fits: "13 + icost (put_borrow j a k b cks) \<le> 4096"
  shows "\<exists>d'. rebuildParentForBorrow_fill d node c a k b = Some d' \<and> inode d' (put_borrow j a k b cks) (put_last j b cks r)"
proof -
  have cond: "(c + 1 < of_nat (length cks)) = (Suc j < length cks)"
    using j inode_length [OF node] by (simp add: u16_simps)
  obtain d1 where d1: "copyRange d node 0 c = Some d1" "inode d1 (take j cks) r0"
    using inode_prefix [OF fresh node j(1)] j(2) by auto
  obtain d2 where d2: "appendInternalCell d1 a k = Some d2" "inode d2 (take j cks @ [(a, k)]) r0"
    using appendInternalCell_inode [OF d1(2) k, of a] fits by (auto simp: put_borrow_def)
  show ?thesis
  proof (cases "Suc j < length cks")
    case True
    have "13 + icost (take j cks @ [(a, k)]) + (12 + length (snd (cks ! Suc j))) + icost (drop (j + 2) cks) \<le> 4096"
      using fits True by (simp add: put_borrow_def)
    from rebuild_tail [OF node d2(2) j(1) True this, of b] show ?thesis
      using d1(1) d2(1) cond True by (auto simp: rebuildParentForBorrow_fill_def inode_reads [OF node] put_borrow_def put_last_def)
  next
    case False
    then show ?thesis using setRightmostChild_inode [OF d2(2), of b] d1(1) d2(1) cond
      by (auto simp: rebuildParentForBorrow_fill_def inode_reads [OF node] put_borrow_def put_last_def)
  qed
qed

section \<open>Cells that do not fit\<close>

text \<open>\<open>copyRange\<close> does not compare the cells with the free space. When the cells are larger than the
  gap left below the destination's cells, the position of one of them wraps around zero and the
  write panics.\<close>

lemma copyRangeLeaf_loop_overflow:
  assumes src: "node_rep src 2 ss"
  shows "length dst = 4096 \<Longrightarrow> unat start + unat i + more \<le> length ss \<Longrightarrow> unat f \<le> 4096 \<Longrightarrow>
    unat f < csz (take more (drop (unat start + unat i) ss)) \<Longrightarrow>
    copyRangeLeaf_loop more dst src start i n f = None"
proof (induction more arbitrary: dst i n f)
  case 0
  then show ?case by simp
next
  case (Suc more)
  let ?j = "unat start + unat i"
  have nb: "length ss \<le> 2048" using node_repD(5) [OF src] by simp
  have j: "unat (start + i) = ?j" and jl: "unat (start + i) < length ss" and i1: "unat (i + 1) = unat i + 1"
    using Suc.prems(2) nb by (simp_all add: u16_simps)
  let ?c = "snd (ss ! ?j)"
  have split: "take (Suc more) (drop ?j ss) = ss ! ?j # take more (drop (Suc ?j) ss)"
    using jl j by (simp add: take_Suc_conv_app_nth Cons_nth_drop_Suc [symmetric])
  note ok = node_rep_slot [OF src jl] and len = node_repD(2) [OF src]
  have cok: "cell_ok 2 ?c" and cb: "length ?c \<le> 4096" using ok j by (auto simp: slot_ok_def)
  note rd = node_rep_offset_at [OF src jl] slot_fields(1-3) [OF ok len refl] node_rep_raw_cell [OF src jl refl refl]
  have cl: "(if ?c ! 4 = 1 then of_nat leafCellHeader + cell_keylen 2 ?c + 8
      else of_nat leafCellHeader + cell_keylen 2 ?c + le_word (region ?c 2 2)) = (of_nat (length ?c) :: u16)"
    by (simp add: cell_ok_leaf_size [OF cok])
  have hd: "of_nat leafHeaderSize = (of_nat (hdr 2) :: u16)" by (simp add: hdr_def)
  define pos where "pos = f - of_nat (length ?c)"
  define off :: u16 where "off = of_nat (hdr 2) + n * 2"
  have step: "copyRangeLeaf_loop (Suc more) dst src start i n f = do {
      d \<leftarrow> gocopy dst (unat pos) ?c;
      d \<leftarrow> PutUint16 d (unat off) (unat (off + 2)) pos;
      copyRangeLeaf_loop more d src start (i + 1) (n + 1) pos
    }"
    using rd by (simp only: copyRangeLeaf_loop.simps Let_def hd j nodeLeaf_def Option.bind.bind_lunit cl
        pos_def [symmetric] off_def [symmetric])
  show ?case
  proof (cases "length ?c \<le> unat f")
    case True
    have p: "unat pos = unat f - length ?c" using True cb by (simp add: pos_def u16_simps)
    have rest: "copyRangeLeaf_loop more d src start (i + 1) (n + 1) pos = None" if "length d = 4096" for d
      using that Suc.prems p i1 split True by (intro Suc.IH) auto
    have "unat pos + length ?c \<le> 4096" using p True Suc.prems(3) by simp
    then have "gocopy dst (unat pos) ?c = Some (patch dst (unat pos) ?c)"
      using Suc.prems(1) by (intro gocopy_fits) simp
    then show ?thesis using step rest Suc.prems(1) \<open>unat pos + length ?c \<le> 4096\<close>
      by (auto simp: PutUint16_def)
  next
    case False
    have "unat pos = unat f + 65536 - length ?c"
    proof -
      have "unat (of_nat (length ?c) :: u16) = length ?c" using cb by (simp add: u16_simps)
      then show ?thesis using False by (simp add: pos_def unat_sub_if')
    qed
    then have "gocopy dst (unat pos) ?c = None" using cb Suc.prems(1) by (simp add: gocopy_def)
    then show ?thesis using step by simp
  qed
qed

lemma copyRange_overflow:
  assumes dst: "lnode dst es" and src: "lnode src ss"
    and big: "4096 + 2 * length es + 2 * length ss < lcost es + lcost ss"
  shows "copyRange dst src 0 (of_nat (length ss)) = None"
proof -
  obtain sl where sl: "node_rep dst 2 sl" "map snd sl = map lcell es" "length sl = length es"
    using dst by (rule lnode_slots)
  obtain sr where sr: "node_rep src 2 sr" "map snd sr = map lcell ss" "length sr = length ss"
    using src by (rule lnode_slots)
  have c: "lcost es = csz sl + 2 * length es" "lcost ss = csz sr + 2 * length ss"
    using cost_map_snd [of sl] sl(3) cost_map_snd [of sr] sr(3) unfolding sl(2) sr(2) by simp_all
  have le: "length ss \<le> 2045" "csz sl \<le> 4096" using lnode_length [OF src] lnode_fits [OF dst] c by auto
  have u: "unat (of_nat (length ss) :: u16) = length ss" "unat (of_nat (4096 - csz sl) :: u16) = 4096 - csz sl"
    using le by (simp_all add: u16_simps)
  have ne: "(of_nat (length ss) :: u16) \<noteq> 0"
  proof
    assume "(of_nat (length ss) :: u16) = 0"
    then have "length ss = 0" using u(1) by simp
    then show False using big lnode_fits [OF dst] by simp
  qed
  have "copyRangeLeaf_loop (length ss) dst src 0 0 (of_nat (length es)) (of_nat (4096 - csz sl)) = None"
  proof -
    have "4096 - csz sl < csz sr" using big c le by simp
    then show ?thesis
      using copyRangeLeaf_loop_overflow [OF sr(1), of dst 0 0 "length ss" "of_nat (4096 - csz sl)"] lnode_reads(3) [OF dst] u sr(3)
      by simp
  qed
  then have "copyRangeLeaf dst src 0 (of_nat (length ss)) = None"
    using node_rep_nCells [OF sl(1)] node_rep_first [OF sl(1)] sl(3) u(1)
    by (simp add: copyRangeLeaf_def nCells_def firstCellOffset_def)
  then show ?thesis
    using ne by (simp add: copyRange_def lnode_reads [OF dst] lnode_reads [OF src] go_assert_def)
qed

lemma merge_leaves_overflow:
  assumes "lnode m []" "lnode a xs" "lnode b ys" "4096 + 2 * length xs + 2 * length ys < lcost xs + lcost ys"
  shows "\<exists>m1. copyRange m a 0 (of_nat (length xs)) = Some m1 \<and> copyRange m1 b 0 (of_nat (length ys)) = None"
proof -
  have u: "unat (of_nat (length xs) :: u16) = length xs" using lnode_length [OF assms(2)] by (simp add: u16_simps)
  obtain m1 where m1: "copyRange m a 0 (of_nat (length xs)) = Some m1" "lnode m1 xs"
    using copyRange_lnode [OF assms(1,2) _ u, of 0 0] lnode_fits [OF assms(2)] by auto
  then show ?thesis using copyRange_overflow [OF m1(2) assms(3,4)] by auto
qed

section \<open>When nodes are rebalanced\<close>

lemma free_word:
  assumes "lnode d es"
  obtains f n where "freeSpace d = Some f" "nCells d = Some n" "unat f + (5 + lcost es) = 4096" "unat n = length es"
  using lnode_fits [OF assms] lnode_length [OF assms]
  by (intro that [OF lnode_reads(4,2) [OF assms]]) (simp_all add: u16_simps)

lemma underfull_lnode:
  assumes "lnode d es"
  shows "underfull d = Some (length es < 4 \<or> 5 + lcost es < 1024)"
proof -
  obtain f n where fn: "freeSpace d = Some f" "nCells d = Some n" "unat f + (5 + lcost es) = 4096" "unat n = length es"
    using assms by (rule free_word)
  then have "unat (4096 - f) = 5 + lcost es" by (simp add: u16_simps)
  then show ?thesis using fn by (auto simp: underfull_def word_less_nat_alt Let_def)
qed

lemma siblingCanDonate_lnode:
  assumes "lnode d es"
  shows "siblingCanDonate d = Some (4 < length es \<and> 1024 + (length (lcell (last es)) + 2) \<le> 5 + lcost es)"
proof -
  obtain f n where fn: "freeSpace d = Some f" "nCells d = Some n" "unat f + (5 + lcost es) = 4096" "unat n = length es"
    using assms by (rule free_word)
  show ?thesis
  proof (cases "length es \<le> 4")
    case True
    then show ?thesis using fn by (simp add: siblingCanDonate_def word_le_nat_alt)
  next
    case False
    then have ne: "es \<noteq> []" and i: "unat (n - 1) = length es - 1" "length es - 1 < length es"
      using fn(4) by (auto simp: u16_simps)
    have cost: "length (lcell (last es)) + 2 \<le> lcost es"
      using append_butlast_last_id [OF ne] by (metis add.commute add_0 lcost_simps(1-3) le_add2)
    obtain b where b: "cellSize d (n - 1) = Some b" "unat b = length (lcell (last es))"
      using lnode_cell(2) [OF assms i] ne cost fn(3) by (simp add: last_conv_nth u16_simps)
    have used: "unat (4096 - f) = 5 + lcost es" using fn(3) by (simp add: u16_simps)
    have "unat (x - b - 2) = unat x - (unat b + 2)" if "unat b + 2 \<le> unat x" for x
      using that by (simp add: u16_simps)
    then have "unat (4096 - f - b - 2) = 5 + lcost es - (length (lcell (last es)) + 2)"
      using used b(2) cost by (metis trans_le_add2)
    then show ?thesis using False fn b cost
      by (auto simp: siblingCanDonate_def word_le_nat_alt Let_def)
  qed
qed

end
