(* ===== verification/Delete.thy ===== *)
theory Delete
  imports Update Merge
begin

text \<open>
  Deletion with rebalancing: \<^verbatim>\<open>src/delete.go\<close>. The result of the recursion is the rebuilt node and
  whether the key was there; \<open>None\<close> is Go's \<open>nil\<close> node. \<open>borrowForUnderfullChild\<close> returns
  \<open>None\<close> when no sibling can donate.
\<close>

type_synonym removed = "nat option \<times> bool"

section \<open>Borrowing\<close>

definition rebuildParentForBorrow :: "env \<Rightarrow> nat \<Rightarrow> u16 \<Rightarrow> PageId \<Rightarrow> bytes \<Rightarrow> PageId \<Rightarrow> world \<Rightarrow> (nat, world) outcome" where
  "rebuildParentForBorrow env f sepIdx leftChildID sepKey rightChildID w =
     try_ok (allocInternal env w) (\<lambda>dst w. do {
       w \<leftarrow> modify dst (\<lambda>d. rebuildParentForBorrow_fill d (node_data w f) sepIdx leftChildID sepKey rightChildID) w;
       Some (Inr dst, w)
     })"

definition borrowFromLeftLeaf :: "env \<Rightarrow> nat \<Rightarrow> nat \<Rightarrow> world \<Rightarrow> (nat \<times> bytes, world) outcome" where
  "borrowFromLeftLeaf env leftSibling ch w = do {
     n \<leftarrow> nCells (node_data w leftSibling);
     let borrowIdx = n - 1;
     w \<leftarrow> modify ch (\<lambda>d. copyCellAt d 0 (node_data w leftSibling) borrowIdx) w;
     try_ok (allocLeaf env w) (\<lambda>newLeft w. do {
       w \<leftarrow> modify newLeft (\<lambda>d. copyWithoutCell d (node_data w leftSibling) borrowIdx) w;
       sepKey \<leftarrow> key (node_data w ch) 0;
       Some (Inr (newLeft, sepKey), w)
     })
   }"

definition borrowFromLeftInternal :: "env \<Rightarrow> nat \<Rightarrow> bytes \<Rightarrow> nat \<Rightarrow> world \<Rightarrow> (nat \<times> bytes, world) outcome" where
  "borrowFromLeftInternal env leftSibling parentSepKey ch w = do {
     n \<leftarrow> nCells (node_data w leftSibling);
     let borrowIdx = n - 1;
     pulledUpKey \<leftarrow> key (node_data w leftSibling) borrowIdx;
     pushedDownChild \<leftarrow> rightmostChild (node_data w leftSibling);
     newLeftRightmost \<leftarrow> child (node_data w leftSibling) borrowIdx;
     w \<leftarrow> modify ch (\<lambda>d. insertInternalCellAt d 0 pushedDownChild parentSepKey) w;
     try_ok (allocInternal env w) (\<lambda>newLeft w. do {
       w \<leftarrow> modify newLeft (\<lambda>d. copyRange d (node_data w leftSibling) 0 borrowIdx) w;
       w \<leftarrow> modify newLeft (\<lambda>d. setRightmostChild d newLeftRightmost) w;
       Some (Inr (newLeft, pulledUpKey), w)
     })
   }"

definition borrowFromRightLeaf :: "env \<Rightarrow> nat \<Rightarrow> nat \<Rightarrow> world \<Rightarrow> (nat \<times> bytes, world) outcome" where
  "borrowFromRightLeaf env rightSibling ch w = do {
     w \<leftarrow> modify ch (\<lambda>d. copyCell d (node_data w rightSibling) 0) w;
     try_ok (allocLeaf env w) (\<lambda>newRight w. do {
       w \<leftarrow> modify newRight (\<lambda>d. copyWithoutCell d (node_data w rightSibling) 0) w;
       sepKey \<leftarrow> key (node_data w newRight) 0;
       Some (Inr (newRight, sepKey), w)
     })
   }"

definition borrowFromRightInternal :: "env \<Rightarrow> nat \<Rightarrow> bytes \<Rightarrow> nat \<Rightarrow> world \<Rightarrow> (nat \<times> bytes, world) outcome" where
  "borrowFromRightInternal env rightSibling parentSepKey ch w = do {
     pulledUpKey \<leftarrow> key (node_data w rightSibling) 0;
     pushedDownChild \<leftarrow> rightmostChild (node_data w ch);
     newChildRightmost \<leftarrow> child (node_data w rightSibling) 0;
     w \<leftarrow> modify ch (\<lambda>d. appendInternalCell d pushedDownChild parentSepKey) w;
     w \<leftarrow> modify ch (\<lambda>d. setRightmostChild d newChildRightmost) w;
     try_ok (allocInternal env w) (\<lambda>newRight w. do {
       w \<leftarrow> modify newRight (\<lambda>d. copyWithoutCell d (node_data w rightSibling) 0) w;
       Some (Inr (newRight, pulledUpKey), w)
     })
   }"

definition borrowFromLeft :: "env \<Rightarrow> nat \<Rightarrow> u16 \<Rightarrow> nat \<Rightarrow> nat \<Rightarrow> world \<Rightarrow> (nat \<times> bytes, world) outcome" where
  "borrowFromLeft env f childIdx leftSibling ch w = do {
     t \<leftarrow> ntype (node_data w ch);
     if t = nodeLeaf then borrowFromLeftLeaf env leftSibling ch w
     else do {
       k \<leftarrow> key (node_data w f) (childIdx - 1);
       borrowFromLeftInternal env leftSibling k ch w
     }
   }"

definition borrowFromRight :: "env \<Rightarrow> nat \<Rightarrow> u16 \<Rightarrow> nat \<Rightarrow> nat \<Rightarrow> world \<Rightarrow> (nat \<times> bytes, world) outcome" where
  "borrowFromRight env f childIdx rightSibling ch w = do {
     t \<leftarrow> ntype (node_data w ch);
     if t = nodeLeaf then borrowFromRightLeaf env rightSibling ch w
     else do {
       k \<leftarrow> key (node_data w f) childIdx;
       borrowFromRightInternal env rightSibling k ch w
     }
   }"

text \<open>The two halves of \<open>borrowForUnderfullChild\<close>; \<open>Inr None\<close> falls through.\<close>

definition borrow_left :: "env \<Rightarrow> nat \<Rightarrow> u16 \<Rightarrow> nat \<Rightarrow> world \<Rightarrow> (nat option, world) outcome" where
  "borrow_left env f childIdx newChild w = do {
     leftPageID \<leftarrow> child (node_data w f) (childIdx - 1);
     try_or (getNode env leftPageID w) (node_unpin newChild) (\<lambda>leftSibling w. do {
       can \<leftarrow> siblingCanDonate (node_data w leftSibling);
       if can then
         try_or (borrowFromLeft env f childIdx leftSibling newChild w)
           (\<lambda>w. do { w \<leftarrow> node_unpin leftSibling w; node_unpin newChild w }) (\<lambda>(newLeft, sepKey) w. do {
             w \<leftarrow> node_unpin leftSibling w;
             w \<leftarrow> free_page leftPageID w;
             (r, w) \<leftarrow> rebuildParentForBorrow env f (childIdx - 1) (Id w newLeft) sepKey (Id w newChild) w;
             w \<leftarrow> node_unpin newLeft w;
             w \<leftarrow> node_unpin newChild w;
             Some (case r of Inl e \<Rightarrow> Inl e | Inr dst \<Rightarrow> Inr (Some dst), w)
           })
       else do {
         w \<leftarrow> node_unpin leftSibling w;
         Some (Inr None, w)
       }
     })
   }"

definition borrow_right :: "env \<Rightarrow> nat \<Rightarrow> u16 \<Rightarrow> nat \<Rightarrow> world \<Rightarrow> (nat option, world) outcome" where
  "borrow_right env f childIdx newChild w = do {
     rightPageID \<leftarrow> child (node_data w f) (childIdx + 1);
     try_or (getNode env rightPageID w) (node_unpin newChild) (\<lambda>rightSibling w. do {
       can \<leftarrow> siblingCanDonate (node_data w rightSibling);
       if can then
         try_or (borrowFromRight env f childIdx rightSibling newChild w)
           (\<lambda>w. do { w \<leftarrow> node_unpin rightSibling w; node_unpin newChild w }) (\<lambda>(newRight, sepKey) w. do {
             w \<leftarrow> node_unpin rightSibling w;
             w \<leftarrow> free_page rightPageID w;
             (r, w) \<leftarrow> rebuildParentForBorrow env f childIdx (Id w newChild) sepKey (Id w newRight) w;
             w \<leftarrow> node_unpin newRight w;
             w \<leftarrow> node_unpin newChild w;
             Some (case r of Inl e \<Rightarrow> Inl e | Inr dst \<Rightarrow> Inr (Some dst), w)
           })
       else do {
         w \<leftarrow> node_unpin rightSibling w;
         Some (Inr None, w)
       }
     })
   }"

definition borrowForUnderfullChild :: "env \<Rightarrow> nat \<Rightarrow> u16 \<Rightarrow> nat \<Rightarrow> world \<Rightarrow> (nat option, world) outcome" where
  "borrowForUnderfullChild env f childIdx newChild w =
     try_ok (if childIdx > 0 then borrow_left env f childIdx newChild w else Some (Inr None, w)) (\<lambda>res w.
       case res of
         Some dst \<Rightarrow> Some (Inr (Some dst), w)
       | None \<Rightarrow> do {
           n \<leftarrow> nCells (node_data w f);
           if childIdx < n then borrow_right env f childIdx newChild w else Some (Inr None, w)
         })"

section \<open>Merging\<close>

definition rebuildParentForMerge :: "env \<Rightarrow> nat \<Rightarrow> u16 \<Rightarrow> PageId \<Rightarrow> world \<Rightarrow> (nat, world) outcome" where
  "rebuildParentForMerge env f sepIdx mergedID w =
     try_ok (allocInternal env w) (\<lambda>dst w. do {
       w \<leftarrow> modify dst (\<lambda>d. rebuildParentForMerge_fill d (node_data w f) sepIdx mergedID) w;
       Some (Inr dst, w)
     })"

definition mergeWithLeft :: "env \<Rightarrow> nat \<Rightarrow> bytes \<Rightarrow> nat \<Rightarrow> world \<Rightarrow> (nat, world) outcome" where
  "mergeWithLeft env leftSibling parentSepKey ch w = do {
     t \<leftarrow> ntype (node_data w ch);
     try_ok (if t = nodeLeaf then allocLeaf env w else allocInternal env w) (\<lambda>merged w. do {
       w \<leftarrow> modify merged (\<lambda>d. mergeWithLeft_fill d (node_data w leftSibling) parentSepKey (node_data w ch)) w;
       Some (Inr merged, w)
     })
   }"

definition mergeWithRight :: "env \<Rightarrow> nat \<Rightarrow> nat \<Rightarrow> bytes \<Rightarrow> world \<Rightarrow> (nat, world) outcome" where
  "mergeWithRight env ch rightSibling parentSepKey w = do {
     t \<leftarrow> ntype (node_data w ch);
     try_ok (if t = nodeLeaf then allocLeaf env w else allocInternal env w) (\<lambda>merged w. do {
       w \<leftarrow> modify merged (\<lambda>d. mergeWithRight_fill d (node_data w ch) (node_data w rightSibling) parentSepKey) w;
       Some (Inr merged, w)
     })
   }"

definition mergeUnderfullChildWithLeft :: "env \<Rightarrow> nat \<Rightarrow> u16 \<Rightarrow> nat \<Rightarrow> world \<Rightarrow> (removed, world) outcome" where
  "mergeUnderfullChildWithLeft env f childIdx newChild w = do {
     leftPageID \<leftarrow> child (node_data w f) (childIdx - 1);
     try_or (getNode env leftPageID w) (node_unpin newChild) (\<lambda>leftSibling w. do {
       k \<leftarrow> key (node_data w f) (childIdx - 1);
       try_or (mergeWithLeft env leftSibling k newChild w)
         (\<lambda>w. do { w \<leftarrow> node_unpin leftSibling w; node_unpin newChild w }) (\<lambda>merged w. do {
           w \<leftarrow> node_unpin leftSibling w;
           w \<leftarrow> free_page leftPageID w;
           let newChildID = Id w newChild;
           w \<leftarrow> node_unpin newChild w;
           w \<leftarrow> free_page newChildID w;
           (r, w) \<leftarrow> rebuildParentForMerge env f (childIdx - 1) (Id w merged) w;
           w \<leftarrow> node_unpin merged w;
           Some (case r of Inl e \<Rightarrow> Inl e | Inr dst \<Rightarrow> Inr (Some dst, True), w)
         })
     })
   }"

definition mergeUnderfullChildWithRight :: "env \<Rightarrow> nat \<Rightarrow> u16 \<Rightarrow> nat \<Rightarrow> world \<Rightarrow> (removed, world) outcome" where
  "mergeUnderfullChildWithRight env f childIdx newChild w = do {
     rightPageID \<leftarrow> child (node_data w f) (childIdx + 1);
     try_or (getNode env rightPageID w) (node_unpin newChild) (\<lambda>rightSibling w. do {
       k \<leftarrow> key (node_data w f) childIdx;
       try_or (mergeWithRight env newChild rightSibling k w)
         (\<lambda>w. do { w \<leftarrow> node_unpin rightSibling w; node_unpin newChild w }) (\<lambda>merged w. do {
           w \<leftarrow> node_unpin rightSibling w;
           w \<leftarrow> free_page rightPageID w;
           let newChildID = Id w newChild;
           w \<leftarrow> node_unpin newChild w;
           w \<leftarrow> free_page newChildID w;
           (r, w) \<leftarrow> rebuildParentForMerge env f childIdx (Id w merged) w;
           w \<leftarrow> node_unpin merged w;
           Some (case r of Inl e \<Rightarrow> Inl e | Inr dst \<Rightarrow> Inr (Some dst, True), w)
         })
     })
   }"

definition mergeUnderfullChild :: "env \<Rightarrow> nat \<Rightarrow> u16 \<Rightarrow> nat \<Rightarrow> world \<Rightarrow> (removed, world) outcome" where
  "mergeUnderfullChild env f childIdx newChild w =
     (if childIdx > 0 then mergeUnderfullChildWithLeft env f childIdx newChild w
      else do {
        n \<leftarrow> nCells (node_data w f);
        if childIdx < n then mergeUnderfullChildWithRight env f childIdx newChild w
        else Some (Inr (Some newChild, True), w)
      })"

section \<open>Descent\<close>

definition deleteFromLeaf :: "env \<Rightarrow> nat \<Rightarrow> bytes \<Rightarrow> world \<Rightarrow> (removed, world) outcome" where
  "deleteFromLeaf env f k w = do {
     (deleteIdx, exists) \<leftarrow> searchLeaf (node_data w f) k;
     if \<not> exists then Some (Inr (None, False), w)
     else do {
       oldOv \<leftarrow> leafCellOverflowId (node_data w f) deleteIdx;
       try_ok (if oldOv \<noteq> 0 then freeOverflowPages env oldOv w else Some (Inr (), w)) (\<lambda>_ w.
       try_ok (allocLeaf env w) (\<lambda>g w. do {
         w \<leftarrow> modify g (\<lambda>d. copyWithoutCell d (node_data w f) deleteIdx) w;
         Some (Inr (Some g, True), w)
       }))
     }
   }"

definition replaceChildAfterDelete :: "env \<Rightarrow> nat \<Rightarrow> u16 \<Rightarrow> nat \<Rightarrow> world \<Rightarrow> (removed, world) outcome" where
  "replaceChildAfterDelete env f childIdx newChild w =
     try_or (allocInternal env w) (node_unpin newChild) (\<lambda>dst w. do {
       w \<leftarrow> modify dst (\<lambda>d. gocopy d 0 (node_data w f)) w;
       w \<leftarrow> modify dst (\<lambda>d. setChild d childIdx (Id w newChild)) w;
       w \<leftarrow> node_unpin newChild w;
       Some (Inr (Some dst, True), w)
     })"

fun deleteNode :: "nat \<Rightarrow> env \<Rightarrow> nat \<Rightarrow> bytes \<Rightarrow> world \<Rightarrow> (removed, world) outcome"
  and deleteFromInternal :: "nat \<Rightarrow> env \<Rightarrow> nat \<Rightarrow> bytes \<Rightarrow> world \<Rightarrow> (removed, world) outcome" where
  "deleteNode 0 env f k w = None"
| "deleteNode (Suc n) env f k w = do {
     t \<leftarrow> ntype (node_data w f);
     if t = nodeLeaf then deleteFromLeaf env f k w else deleteFromInternal n env f k w
   }"
| "deleteFromInternal n env f k w = do {
     childIdx \<leftarrow> searchInternal (node_data w f) k;
     childPageID \<leftarrow> child (node_data w f) childIdx;
     try_ok (getNode env childPageID w) (\<lambda>childNode w.
     try_or (deleteNode n env childNode k w) (node_unpin childNode) (\<lambda>(res, found) w. do {
       w \<leftarrow> node_unpin childNode w;
       if \<not> found then Some (Inr (None, False), w)
       else do {
         w \<leftarrow> free_page childPageID w;
         newChild \<leftarrow> res;
         under \<leftarrow> underfull (node_data w newChild);
         if \<not> under then replaceChildAfterDelete env f childIdx newChild w
         else try_ok (borrowForUnderfullChild env f childIdx newChild w) (\<lambda>dst w.
           case dst of
             Some g \<Rightarrow> Some (Inr (Some g, True), w)
           | None \<Rightarrow> mergeUnderfullChild env f childIdx newChild w)
       }
     }))
   }"

section \<open>The root\<close>

definition DeleteKey :: "env \<Rightarrow> BTree \<Rightarrow> bytes \<Rightarrow> world \<Rightarrow> (PageId \<times> bool \<times> BTree, world) outcome" where
  "DeleteKey env t k w =
     (if root t = 0 then Some (Inr (0, False, t), w)
      else try_ok (getNode env (root t) w) (\<lambda>rootNode w.
        try_or (deleteNode (fuel env) env rootNode k w) (node_unpin rootNode) (\<lambda>(res, found) w. do {
          w \<leftarrow> node_unpin rootNode w;
          if \<not> found then Some (Inr (root t, False, t), w)
          else do {
            w \<leftarrow> free_page (root t) w;
            newRoot \<leftarrow> res;
            ty \<leftarrow> ntype (node_data w newRoot);
            n \<leftarrow> nCells (node_data w newRoot);
            if ty = nodeLeaf \<and> n = 0 then do {
              let newID = Id w newRoot;
              w \<leftarrow> node_unpin newRoot w;
              w \<leftarrow> free_page newID w;
              Some (Inr (0, True, t\<lparr>root := 0\<rparr>), w)
            } else if ty = nodeInternal \<and> n = 0 then do {
              newRootID \<leftarrow> rightmostChild (node_data w newRoot);
              let oldID = Id w newRoot;
              w \<leftarrow> node_unpin newRoot w;
              w \<leftarrow> free_page oldID w;
              Some (Inr (newRootID, True, t\<lparr>root := newRootID\<rparr>), w)
            } else do {
              let newID = Id w newRoot;
              w \<leftarrow> node_unpin newRoot w;
              Some (Inr (newID, True, t\<lparr>root := newID\<rparr>), w)
            }
          }
        })))"

end
