(* ===== verification/Rebalance.thy ===== *)
theory Rebalance
  imports MapUpdate Delete
begin

text \<open>
  Rebalancing on abstract trees: two neighbours lend an entry to each other or are joined, and the
  pair is put back between the other children of their parent.
\<close>

section \<open>A node and what is below it\<close>

fun node_at :: "bytes \<Rightarrow> tree \<Rightarrow> bool" where
  "node_at d (Leaf p es) \<longleftrightarrow> lnode d (map item_entry es)"
| "node_at d (Node p cks r) \<longleftrightarrow> inode d (child_refs cks) (tid r)"

fun rest_at :: "(PageId \<Rightarrow> bytes) \<Rightarrow> tree \<Rightarrow> bool" where
  "rest_at W (Leaf p es) \<longleftrightarrow> (\<forall>e \<in> set es. item_ok W e)"
| "rest_at W (Node p cks r) \<longleftrightarrow> group_at W cks r"

fun rpages :: "tree \<Rightarrow> PageId list" where
  "rpages (Leaf p es) = ipages es"
| "rpages (Node p cks r) = group_pages cks r"

lemma tree_parts: "tree_at W t \<longleftrightarrow> tid t \<noteq> 0 \<and> node_at (W (tid t)) t \<and> rest_at W t" "tpages t = tid t # rpages t"
  by (cases t; simp add: node_group del: tree_at.simps(2) tpages.simps)+

lemma rest_at_same:
  assumes "rest_at W t" "\<And>q. q \<in> set (rpages t) \<Longrightarrow> W' q = W q"
  shows "rest_at W' t"
proof (cases t)
  case (Leaf p es)
  have "item_ok W' e" if "e \<in> set es" for e
    using assms Leaf item_ok_cong [of e W' W] item_pages_ipages [OF that] that by auto
  then show ?thesis using Leaf by simp
next
  case (Node p cks r)
  then show ?thesis using assms group_at_same [of W cks r W'] by simp
qed

text \<open>A node that lost an entry may have no separator left.\<close>

fun near_level :: "nat \<Rightarrow> tree \<Rightarrow> bool" where
  "near_level d (Leaf p es) \<longleftrightarrow> d = 0"
| "near_level d (Node p cks r) \<longleftrightarrow> 0 < d \<and> group_level (d - 1) cks r"

lemma level_near: "level d t \<Longrightarrow> near_level d t"
  by (cases t) (simp_all add: node_shape del: level.simps(2))

fun entries :: "tree \<Rightarrow> nat" where
  "entries (Leaf p es) = length es"
| "entries (Node p cks r) = length cks"

lemma near_level_full: "near_level d t \<Longrightarrow> 0 < entries t \<Longrightarrow> level d t"
  by (cases t) (simp_all add: node_shape del: level.simps(2))

section \<open>Lending and joining\<close>

fun lend_left :: "PageId \<Rightarrow> tree \<Rightarrow> bytes \<Rightarrow> tree \<Rightarrow> tree \<times> bytes \<times> tree" where
  "lend_left q (Leaf pa ea) s (Leaf pb eb) = (Leaf q (butlast ea), fst (last ea), Leaf pb (last ea # eb))"
| "lend_left q (Node pa xa ra) s (Node pb xb rb) = (Node q (butlast xa) (fst (last xa)), snd (last xa), Node pb ((ra, s) # xb) rb)"
| "lend_left q a s b = (a, s, b)"

fun lend_right :: "PageId \<Rightarrow> tree \<Rightarrow> bytes \<Rightarrow> tree \<Rightarrow> tree \<times> bytes \<times> tree" where
  "lend_right q (Leaf pa ea) s (Leaf pb eb) = (Leaf pa (ea @ [hd eb]), fst (hd (tl eb)), Leaf q (tl eb))"
| "lend_right q (Node pa xa ra) s (Node pb xb rb) = (Node pa (xa @ [(ra, s)]) (fst (hd xb)), snd (hd xb), Node q (tl xb) rb)"
| "lend_right q a s b = (a, s, b)"

fun join :: "PageId \<Rightarrow> tree \<Rightarrow> bytes \<Rightarrow> tree \<Rightarrow> tree" where
  "join q (Leaf pa ea) s (Leaf pb eb) = Leaf q (ea @ eb)"
| "join q (Node pa xa ra) s (Node pb xb rb) = Node q (xa @ (ra, s) # xb) rb"
| "join q a s b = a"

text \<open>Two trees of the same level are both leaves or both internal nodes.\<close>

lemma same_kind:
  assumes "near_level d a" "near_level d b"
  obtains (leaves) pa ea pb eb where "a = Leaf pa ea" "b = Leaf pb eb"
    | (nodes) pa xa ra pb xb rb where "a = Node pa xa ra" "b = Node pb xb rb"
  using assms by (cases a; cases b) auto

definition same_contents :: "tree \<Rightarrow> bytes \<Rightarrow> tree \<Rightarrow> (tree \<times> bytes) list \<Rightarrow> tree \<Rightarrow> bool" where
  "same_contents a s b ns n \<longleftrightarrow> group_kvs ns n = kvs a @ kvs b \<and>
     set (group_seps ns n) \<subseteq> set (seps a) \<union> {s} \<union> set (seps b) \<union> fst ` set (kvs a @ kvs b)"

lemma same_contentsI: "group_kvs ns n = kvs a @ kvs b \<Longrightarrow> group_seps ns n = seps a @ s # seps b \<Longrightarrow> same_contents a s b ns n"
  by (auto simp: same_contents_def)

lemma split_last: "xs \<noteq> [] \<Longrightarrow> \<exists>ys a b. xs = ys @ [(a, b)]"
  by (cases xs rule: rev_cases) auto

lemma join_ok:
  assumes "near_level d a" "near_level d b" "ordered_cs lo [(a, s)] b hi"
  shows "near_level d (join q a s b)" "ordered lo (join q a s b) hi" "same_contents a s b [] (join q a s b)" "tid (join q a s b) = q"
    "rpages (join q a s b) = rpages a @ rpages b" "rest_at W (join q a s b) \<longleftrightarrow> rest_at W a \<and> rest_at W b"
    "entries a + entries b \<le> entries (join q a s b)" "0 < d \<Longrightarrow> 0 < entries (join q a s b)"
proof -
  have "near_level d (join q a s b) \<and> ordered lo (join q a s b) hi \<and> same_contents a s b [] (join q a s b) \<and> tid (join q a s b) = q \<and>
    rpages (join q a s b) = rpages a @ rpages b \<and> (rest_at W (join q a s b) \<longleftrightarrow> rest_at W a \<and> rest_at W b) \<and>
    entries a + entries b \<le> entries (join q a s b) \<and> (0 < d \<longrightarrow> 0 < entries (join q a s b))"
    using assms(1,2)
  proof (cases rule: same_kind)
    case (leaves pa ea pb eb)
    have o: "sorted_wrt (<) (map fst ea)" "sorted_wrt (<) (map fst eb)" "\<forall>e \<in> set ea. above lo (fst e) \<and> fst e < s"
      "\<forall>e \<in> set eb. s \<le> fst e \<and> below (fst e) hi" "strictly_above lo s" "below s hi"
      using assms(3) leaves by (auto simp: below_def above_def)
    have "fst e < fst e'" if "e \<in> set ea" "e' \<in> set eb" for e e' using o(3,4) that by (meson less_le_trans)
    moreover have "below (fst e) hi" if "e \<in> set ea" for e using o(3,6) that by (auto simp: below_def split: option.splits)
    moreover have "above lo (fst e)" if "e \<in> set eb" for e using o(4,5) that by (auto simp: above_def strictly_above_def split: option.splits)
    ultimately show ?thesis using o assms leaves
      by (auto simp: sorted_wrt_append same_contents_def)
  next
    case (nodes pa xa ra pb xb rb)
    have o: "ordered_cs lo xa ra (Some s)" "strictly_above lo s" "below s hi" "ordered_cs (Some s) xb rb hi" using assms(3) nodes by simp_all
    have "kvs (join q a s b) = kvs a @ kvs b" "seps (join q a s b) = seps a @ s # seps b"
      unfolding nodes join.simps node_group node_shape group_append group_shape_append by simp_all
    then show ?thesis using ordered_cs_append [OF o] assms(1,2) nodes
      by (auto simp: same_contents_def group_append group_shape_append simp del: kvs.simps seps.simps)
  qed
  then show "near_level d (join q a s b)" "ordered lo (join q a s b) hi" "same_contents a s b [] (join q a s b)" "tid (join q a s b) = q"
    "rpages (join q a s b) = rpages a @ rpages b" "rest_at W (join q a s b) \<longleftrightarrow> rest_at W a \<and> rest_at W b"
    "entries a + entries b \<le> entries (join q a s b)" "0 < d \<Longrightarrow> 0 < entries (join q a s b)" by simp_all
qed

lemma lend_left_leaf:
  assumes "ordered_cs lo [(Leaf pa ea, s)] (Leaf pb eb) hi" "1 < length ea"
  shows "ordered_cs lo [(Leaf q (butlast ea), fst (last ea))] (Leaf pb (last ea # eb)) hi"
proof -
  obtain xs e where ea: "ea = xs @ [e]" and xs: "xs \<noteq> []" using assms(2) by (cases ea rule: rev_cases) auto
  have o: "sorted_wrt (<) (map fst xs)" "sorted_wrt (<) (map fst eb)" "\<forall>x \<in> set xs. above lo (fst x) \<and> fst x < fst e" "fst e < s"
    "\<forall>x \<in> set eb. s \<le> fst x \<and> below (fst x) hi" "below s hi"
    using assms(1) unfolding ea by (auto simp: below_def above_def sorted_wrt_append)
  have "strictly_above lo (fst e)" using o(3) xs by (cases xs) (auto simp: above_def strictly_above_def split: option.splits)
  moreover have "below (fst e) hi" using o(4,6) by (auto simp: below_def split: option.splits)
  moreover have "\<forall>x \<in> set eb. fst e < fst x \<and> fst e \<le> fst x" using o(4,5) by (meson less_le_trans less_imp_le)
  ultimately show ?thesis using o ea by (auto simp: below_def above_def)
qed

lemma lend_right_leaf:
  assumes "ordered_cs lo [(Leaf pa ea, s)] (Leaf pb eb) hi" "1 < length eb"
  shows "ordered_cs lo [(Leaf pa (ea @ [hd eb]), fst (hd (tl eb)))] (Leaf q (tl eb)) hi"
proof -
  obtain e f es where eb: "eb = e # f # es" using assms(2) by (cases eb; cases "tl eb") auto
  have o: "sorted_wrt (<) (map fst ea)" "sorted_wrt (<) (map fst (f # es))" "\<forall>x \<in> set ea. above lo (fst x) \<and> fst x < s" "s \<le> fst e" "fst e < fst f"
    "\<forall>x \<in> set (f # es). fst e < fst x \<and> below (fst x) hi" "strictly_above lo s"
    using assms(1) unfolding eb by (auto simp: below_def above_def)
  have "strictly_above lo (fst f)" "above lo (fst e)" using o(4,5,7) by (auto simp: above_def strictly_above_def split: option.splits)
  moreover have "\<forall>x \<in> set ea. fst x < fst e \<and> fst x < fst f" using o(3-5) by (meson less_le_trans less_trans)
  moreover have "\<forall>x \<in> set (f # es). fst f \<le> fst x" using o(2) by (auto intro: less_imp_le)
  ultimately show ?thesis using o eb by (auto simp: below_def above_def sorted_wrt_append)
qed

definition lent :: "nat \<Rightarrow> bytes option \<Rightarrow> bytes option \<Rightarrow> tree \<Rightarrow> bytes \<Rightarrow> tree \<Rightarrow> PageId \<Rightarrow> PageId \<Rightarrow> tree \<times> bytes \<times> tree \<Rightarrow> bool" where
  "lent d lo hi a s b qa qb x \<longleftrightarrow>
     (case x of (a', s', b') \<Rightarrow> level d a' \<and> level d b' \<and> ordered_cs lo [(a', s')] b' hi \<and> same_contents a s b [(a', s')] b' \<and> tid a' = qa \<and> tid b' = qb \<and>
       rpages a' @ rpages b' = rpages a @ rpages b \<and> (\<forall>W. rest_at W a \<and> rest_at W b \<longrightarrow> rest_at W a' \<and> rest_at W b') \<and>
       (s' = s \<or> s' \<in> set (seps a @ seps b) \<or> s' \<in> fst ` set (kvs a @ kvs b)))"

lemma lend_left_ok:
  assumes "near_level d a" "near_level d b" "ordered_cs lo [(a, s)] b hi" "1 < entries a"
  shows "lent d lo hi a s b q (tid b) (lend_left q a s b)"
  using assms(1,2)
proof (cases rule: same_kind)
  case (leaves pa ea pb eb)
  have ea: "ea \<noteq> []" using assms(4) leaves by auto
  have ip: "ipages (butlast ea) @ item_pages (last ea) = ipages ea" "map item_kv (butlast ea) @ [item_kv (last ea)] = map item_kv ea"
    using arg_cong [OF append_butlast_last_id [OF ea], of ipages] arg_cong [OF append_butlast_last_id [OF ea], of "map item_kv"] by simp_all
  have "last ea \<in> set ea" using ea by simp
  then have "fst (last ea) \<in> fst ` set (map item_kv ea)" by (force simp: item_kv_def)
  then show ?thesis using lend_left_leaf [of lo pa ea s pb eb hi q] assms leaves ip ea
    by (auto simp: lent_def same_contents_def in_set_butlastD)
next
  case (nodes pa xa ra pb xb rb)
  have "xa \<noteq> []" using assms(4) nodes by auto
  then obtain xs c t where xa: "xa = xs @ [(c, t)]" using split_last by blast
  have xs: "xs \<noteq> []" using assms(4) nodes xa by auto
  have o: "ordered_cs lo xa ra (Some s)" "strictly_above lo s" "below s hi" "ordered_cs (Some s) xb rb hi" using assms(3) nodes by simp_all
  note o2 = ordered_cs_split [OF o(1) [unfolded xa]]
  have ts: "t < s" "below t hi" using o2 o(3) by (auto simp: below_def split: option.splits)
  then have "strictly_above (Some t) s" by (simp add: strictly_above_def)
  then have ord: "ordered_cs lo [(Node q xs c, t)] (Node pb ((ra, s) # xb) rb) hi" using o2 o ts by simp
  have k: "kvs (Node q xs c) @ kvs (Node pb ((ra, s) # xb) rb) = kvs a @ kvs b" "seps (Node q xs c) @ t # seps (Node pb ((ra, s) # xb) rb) = seps a @ s # seps b"
    "rpages (Node q xs c) @ rpages (Node pb ((ra, s) # xb) rb) = rpages a @ rpages b"
    unfolding nodes node_group node_shape xa rpages.simps by (simp_all add: group_append group_shape_append)
  have t: "t \<in> set (seps a)" unfolding nodes node_shape xa by (simp add: group_shape_append)
  have "same_contents a s b [(Node q xs c, t)] (Node pb ((ra, s) # xb) rb)" using k(1,2) by (intro same_contentsI) simp_all
  moreover have "level d (Node q xs c)" "level d (Node pb ((ra, s) # xb) rb)" using assms(1,2) xs unfolding node_shape nodes xa near_level.simps
    by (simp_all add: group_shape_append)
  moreover have "\<forall>W. rest_at W a \<and> rest_at W b \<longrightarrow> rest_at W (Node q xs c) \<and> rest_at W (Node pb ((ra, s) # xb) rb)"
    unfolding nodes xa by (simp add: group_append)
  ultimately show ?thesis using ord k(3) t nodes xa unfolding lent_def by (simp del: seps.simps level.simps rpages.simps rest_at.simps kvs.simps ordered.simps)
qed

lemma lend_right_ok:
  assumes "near_level d a" "near_level d b" "ordered_cs lo [(a, s)] b hi" "1 < entries b"
  shows "lent d lo hi a s b (tid a) q (lend_right q a s b)"
  using assms(1,2)
proof (cases rule: same_kind)
  case (leaves pa ea pb eb)
  obtain e f es where eb: "eb = e # f # es" using assms(4) leaves by (cases eb; cases "tl eb") auto
  have "fst f \<in> fst ` set (map item_kv eb)" unfolding eb by (simp add: item_kv_def)
  then show ?thesis using lend_right_leaf [of lo pa ea s pb eb hi q] assms leaves eb
    by (auto simp: lent_def same_contents_def)
next
  case (nodes pa xa ra pb xb rb)
  obtain c t ys where xb: "xb = (c, t) # ys" using assms(4) nodes by (cases xb) auto
  have ys: "ys \<noteq> []" using assms(4) nodes xb by auto
  have o: "ordered_cs lo xa ra (Some s)" "strictly_above lo s" "below s hi" "ordered_cs (Some s) xb rb hi" using assms(3) nodes by simp_all
  have o2: "strictly_above (Some s) t" "below t hi" "ordered (Some s) c (Some t)" "ordered_cs (Some t) ys rb hi" using o(4) xb by simp_all
  have st: "s < t" using o2(1) by (simp add: strictly_above_def)
  then have l: "strictly_above lo t" "below s (Some t)" using o(2) by (auto simp: strictly_above_def below_def split: option.splits)
  have "ordered_cs lo (xa @ [(ra, s)]) c (Some t)" using ordered_cs_append [OF o(1,2) l(2), of "[]" c] o2(3) by simp
  then have ord: "ordered_cs lo [(Node pa (xa @ [(ra, s)]) c, t)] (Node q ys rb) hi" using o2 l by simp
  have k: "kvs (Node pa (xa @ [(ra, s)]) c) @ kvs (Node q ys rb) = kvs a @ kvs b" "seps (Node pa (xa @ [(ra, s)]) c) @ t # seps (Node q ys rb) = seps a @ s # seps b"
    "rpages (Node pa (xa @ [(ra, s)]) c) @ rpages (Node q ys rb) = rpages a @ rpages b"
    unfolding nodes node_group node_shape xb rpages.simps by (simp_all add: group_append group_shape_append)
  have t: "t \<in> set (seps b)" unfolding nodes node_shape xb by simp
  have "same_contents a s b [(Node pa (xa @ [(ra, s)]) c, t)] (Node q ys rb)" using k(1,2) by (intro same_contentsI) simp_all
  moreover have "level d (Node pa (xa @ [(ra, s)]) c)" "level d (Node q ys rb)" using assms(1,2) ys unfolding node_shape nodes xb near_level.simps
    by (simp_all add: group_shape_append)
  moreover have "\<forall>W. rest_at W a \<and> rest_at W b \<longrightarrow> rest_at W (Node pa (xa @ [(ra, s)]) c) \<and> rest_at W (Node q ys rb)"
    unfolding nodes xb by (simp add: group_append)
  ultimately show ?thesis using ord k(3) t nodes xb unfolding lent_def by (simp del: seps.simps level.simps rpages.simps rest_at.simps kvs.simps ordered.simps)
qed

section \<open>A pair of neighbours in its parent\<close>

definition kid :: "(tree \<times> bytes) list \<Rightarrow> tree \<Rightarrow> nat \<Rightarrow> tree" where
  "kid cks r i = (if i < length cks then fst (cks ! i) else r)"

text \<open>The children \<open>i\<close> and \<open>i + 1\<close> are replaced by a group.\<close>

definition reseat :: "nat \<Rightarrow> (tree \<times> bytes) list \<Rightarrow> tree \<Rightarrow> (tree \<times> bytes) list \<Rightarrow> tree \<Rightarrow> (tree \<times> bytes) list \<times> tree" where
  "reseat i ns n cks r =
     (if Suc i < length cks then (take i cks @ ns @ (n, snd (cks ! Suc i)) # drop (i + 2) cks, r) else (take i cks @ ns, n))"

lemma reseat_cases:
  assumes "i < length cks"
  obtains (last) xs a s where "cks = xs @ [(a, s)]" "length xs = i" "kid cks r i = a" "snd (cks ! i) = s" "kid cks r (Suc i) = r"
      "\<And>ns n. reseat i ns n cks r = (xs @ ns, n)"
    | (mid) xs a s b u ys where "cks = xs @ (a, s) # (b, u) # ys" "length xs = i" "kid cks r i = a" "snd (cks ! i) = s" "kid cks r (Suc i) = b"
      "\<And>ns n. reseat i ns n cks r = (xs @ ns @ (n, u) # ys, r)"
proof (cases "Suc i < length cks")
  case True
  have "cks = take i cks @ cks ! i # cks ! Suc i # drop (i + 2) cks"
    using True by (metis Cons_nth_drop_Suc Suc_lessD add_2_eq_Suc' id_take_nth_drop)
  then show thesis using True
    by (intro mid [of "take i cks" "fst (cks ! i)" "snd (cks ! i)" "fst (cks ! Suc i)" "snd (cks ! Suc i)" "drop (i + 2) cks"])
      (simp_all add: kid_def reseat_def)
next
  case False
  then have i: "length cks = Suc i" using assms by simp
  then have "cks = take i cks @ [cks ! i]" by (metis lessI take_Suc_conv_app_nth take_all order_refl)
  then show thesis using i by (intro last [of "take i cks" "fst (cks ! i)" "snd (cks ! i)"]) (simp_all add: kid_def reseat_def)
qed

lemma group_prefix:
  "group_kvs (xs @ zs) r = concat (map (\<lambda>(c, k). kvs c) xs) @ group_kvs zs r"
  "group_pages (xs @ zs) r = concat (map (\<lambda>(c, k). tpages c) xs) @ group_pages zs r"
  "group_seps (xs @ zs) r = concat (map (\<lambda>(c, k). seps c @ [k]) xs) @ group_seps zs r"
  "group_level d (xs @ zs) r \<longleftrightarrow> (\<forall>ck \<in> set xs. level d (fst ck)) \<and> group_level d zs r"
  "group_at W (xs @ zs) r \<longleftrightarrow> (\<forall>ck \<in> set xs. tree_at W (fst ck)) \<and> group_at W zs r"
  by (simp_all add: group_kvs_def group_pages_def group_seps_def group_level_def group_at_def ball_Un conj_assoc)

lemma ordered_prefix:
  "ordered_cs lo (xs @ zs) r hi \<Longrightarrow>
   \<exists>lo'. ordered_cs lo' zs r hi \<and> (\<forall>zs' r'. ordered_cs lo' zs' r' hi \<longrightarrow> ordered_cs lo (xs @ zs') r' hi)"
proof (induction xs arbitrary: lo)
  case (Cons x xs)
  obtain c s where x: "x = (c, s)" by (cases x)
  have o: "strictly_above lo s" "below s hi" "ordered lo c (Some s)" "ordered_cs (Some s) (xs @ zs) r hi" using Cons.prems x by simp_all
  obtain lo' where lo': "ordered_cs lo' zs r hi" "\<And>zs' r'. ordered_cs lo' zs' r' hi \<Longrightarrow> ordered_cs (Some s) (xs @ zs') r' hi"
    using Cons.IH [OF o(4)] by blast
  then show ?case using o(1-3) x by (intro exI [of _ lo']) simp
qed auto

lemma reseat_ordered:
  assumes "ordered_cs lo cks r hi" "i < length cks"
  obtains lo' hi' where "ordered_cs lo' [(kid cks r i, snd (cks ! i))] (kid cks r (Suc i)) hi'"
    "\<And>ns n cks' r'. ordered_cs lo' ns n hi' \<Longrightarrow> reseat i ns n cks r = (cks', r') \<Longrightarrow> ordered_cs lo cks' r' hi"
  using assms(2)
proof (cases rule: reseat_cases [where r = r])
  case (last xs a s)
  obtain lo' where "ordered_cs lo' [(a, s)] r hi" "\<And>zs' r'. ordered_cs lo' zs' r' hi \<Longrightarrow> ordered_cs lo (xs @ zs') r' hi"
    using ordered_prefix assms(1) unfolding last(1) by blast
  then show thesis unfolding last(3-6) using that [of lo' hi] last by auto
next
  case (mid xs a s b u ys)
  obtain lo' where lo': "ordered_cs lo' ((a, s) # (b, u) # ys) r hi" "\<And>zs' r'. ordered_cs lo' zs' r' hi \<Longrightarrow> ordered_cs lo (xs @ zs') r' hi"
    using ordered_prefix assms(1) unfolding mid(1) by blast
  have o: "ordered_cs lo' [(a, s)] b (Some u)" "strictly_above lo' u" "below u hi" "ordered_cs (Some u) ys r hi"
    using ordered_cs_split [of lo' "[(a, s)]" b u ys r hi] lo'(1) by simp_all
  have "ordered_cs lo (xs @ ns @ (n, u) # ys) r hi" if "ordered_cs lo' ns n (Some u)" for ns n
    using lo'(2) ordered_cs_append [OF that o(2-4)] by simp
  then show thesis using that [of lo' "Some u"] o(1) mid by auto
qed

lemma reseat_kvs:
  assumes "i < length cks" "reseat i ns n cks r = (cks', r')" "group_kvs ns n = kvs (kid cks r i) @ kvs (kid cks r (Suc i))"
  shows "group_kvs cks' r' = group_kvs cks r"
  using assms(1)
proof (cases rule: reseat_cases [where r = r])
  case (last xs a s)
  then have c: "cks' = xs @ ns" "r' = n" using assms(2) by simp_all
  show ?thesis using assms(3) unfolding last(3,5) unfolding c last(1) group_prefix(1) [of xs] by simp
next
  case (mid xs a s b u ys)
  then have c: "cks' = xs @ ns @ (n, u) # ys" "r' = r" using assms(2) by simp_all
  show ?thesis using assms(3) unfolding mid(3,5) unfolding c mid(1) unfolding group_prefix(1) [of xs] group_simps unfolding group_append by simp
qed

lemma reseat_pages:
  assumes "i < length cks"
  obtains X Y where "group_pages cks r = X @ tpages (kid cks r i) @ tpages (kid cks r (Suc i)) @ Y"
    "\<And>ns n cks' r'. reseat i ns n cks r = (cks', r') \<Longrightarrow> group_pages cks' r' = X @ group_pages ns n @ Y"
  using assms(1)
proof (cases rule: reseat_cases [where r = r])
  case (last xs a s)
  show ?thesis
  proof (rule that [of "concat (map (\<lambda>(c, k). tpages c) xs)" "[]"])
    show "group_pages cks r = concat (map (\<lambda>(c, k). tpages c) xs) @ tpages (kid cks r i) @ tpages (kid cks r (Suc i)) @ []"
      unfolding last(3,5) unfolding last(1) by (simp add: group_prefix)
  next
    fix ns n cks' r' assume "reseat i ns n cks r = (cks', r')"
    then have "cks' = xs @ ns" "r' = n" using last(6) by simp_all
    then show "group_pages cks' r' = concat (map (\<lambda>(c, k). tpages c) xs) @ group_pages ns n @ []" by (simp add: group_prefix)
  qed
next
  case (mid xs a s b u ys)
  show ?thesis
  proof (rule that [of "concat (map (\<lambda>(c, k). tpages c) xs)" "group_pages ys r"])
    show "group_pages cks r = concat (map (\<lambda>(c, k). tpages c) xs) @ tpages (kid cks r i) @ tpages (kid cks r (Suc i)) @ group_pages ys r"
      unfolding mid(3,5) unfolding mid(1) by (simp add: group_prefix)
  next
    fix ns n cks' r' assume "reseat i ns n cks r = (cks', r')"
    then have "cks' = xs @ ns @ (n, u) # ys" "r' = r" using mid(6) by simp_all
    then show "group_pages cks' r' = concat (map (\<lambda>(c, k). tpages c) xs) @ group_pages ns n @ group_pages ys r"
      by (simp add: group_prefix(2) [of xs] group_append)
  qed
qed

lemma reseat_seps:
  assumes "i < length cks" "reseat i ns n cks r = (cks', r')"
  shows "set (group_seps cks' r') \<subseteq> set (group_seps cks r) \<union> set (group_seps ns n)"
  using assms(1)
proof (cases rule: reseat_cases [where r = r])
  case (last xs a s)
  then have c: "cks' = xs @ ns" "r' = n" using assms(2) by simp_all
  show ?thesis unfolding c last(1) group_prefix(3) [of xs] set_append by blast
next
  case (mid xs a s b u ys)
  then have c: "cks' = xs @ ns @ (n, u) # ys" "r' = r" using assms(2) by simp_all
  show ?thesis unfolding c mid(1) unfolding group_prefix(3) [of xs] unfolding group_shape_append group_shape_simps set_append list.set by blast
qed

lemma reseat_level:
  assumes "i < length cks" "reseat i ns n cks r = (cks', r')" "group_level d cks r" "group_level d ns n"
  shows "group_level d cks' r'"
  using assms(1)
proof (cases rule: reseat_cases [where r = r])
  case (last xs a s)
  then have c: "cks' = xs @ ns" "r' = n" using assms(2) by simp_all
  show ?thesis using assms(3,4) unfolding c last(1) group_prefix(4) [of d xs] by blast
next
  case (mid xs a s b u ys)
  then have c: "cks' = xs @ ns @ (n, u) # ys" "r' = r" using assms(2) by simp_all
  show ?thesis using assms(3,4) unfolding c mid(1) unfolding group_prefix(4) [of d xs] unfolding group_shape_append group_shape_simps by blast
qed

lemma kid_cases:
  assumes "i \<le> length cks"
  obtains xs k ys where "cks = xs @ (kid cks r i, k) # ys" "length xs = i" | "kid cks r i = r" "length cks = i"
proof (cases "i < length cks")
  case True
  then show thesis using that(1) [of "take i cks" "snd (cks ! i)" "drop (Suc i) cks"] id_take_nth_drop [OF True] by (simp add: kid_def)
next
  case False
  then show thesis using assms by (intro that(2)) (simp_all add: kid_def)
qed

lemma kid_parts:
  assumes "i \<le> length cks"
  shows "set (tpages (kid cks r i)) \<subseteq> set (group_pages cks r)" "group_at W cks r \<Longrightarrow> tree_at W (kid cks r i)"
    "group_level d cks r \<Longrightarrow> level d (kid cks r i)" "set (seps (kid cks r i)) \<subseteq> set (group_seps cks r)"
    "set (kvs (kid cks r i)) \<subseteq> set (group_kvs cks r)"
proof -
  have "set (tpages (kid cks r i)) \<subseteq> set (group_pages cks r) \<and> (group_at W cks r \<longrightarrow> tree_at W (kid cks r i)) \<and>
    (group_level d cks r \<longrightarrow> level d (kid cks r i)) \<and> set (seps (kid cks r i)) \<subseteq> set (group_seps cks r) \<and> set (kvs (kid cks r i)) \<subseteq> set (group_kvs cks r)"
    using assms
  proof (cases rule: kid_cases [where r = r])
    case (1 xs k ys)
    define c where "c = kid cks r i"
    have eq: "cks = xs @ (c, k) # ys" using 1(1) c_def by simp
    show ?thesis unfolding c_def [symmetric] unfolding eq group_prefix group_simps group_shape_simps set_append list.set by blast
  next
    case 2
    then show ?thesis by (simp add: group_pages_def group_at_def group_level_def group_seps_def group_kvs_def)
  qed
  then show "set (tpages (kid cks r i)) \<subseteq> set (group_pages cks r)" "group_at W cks r \<Longrightarrow> tree_at W (kid cks r i)"
    "group_level d cks r \<Longrightarrow> level d (kid cks r i)" "set (seps (kid cks r i)) \<subseteq> set (group_seps cks r)"
    "set (kvs (kid cks r i)) \<subseteq> set (group_kvs cks r)" by blast+
qed

lemma sep_mem: "i < length cks \<Longrightarrow> snd (cks ! i) \<in> set (group_seps cks r)"
proof -
  assume i: "i < length cks"
  then have "cks = take i cks @ (fst (cks ! i), snd (cks ! i)) # drop (Suc i) cks" using id_take_nth_drop by simp
  then have "group_seps cks r = group_seps (take i cks @ (fst (cks ! i), snd (cks ! i)) # drop (Suc i) cks) r" by simp
  then show ?thesis unfolding group_shape_append by simp
qed

lemma trees_same:
  assumes "\<forall>ck \<in> set xs. tree_at W (fst ck)" "\<And>q. q \<in> set (concat (map (\<lambda>(c, k). tpages c) xs)) \<Longrightarrow> W' q = W q"
  shows "\<forall>ck \<in> set xs. tree_at W' (fst ck)"
proof
  fix ck assume ck: "ck \<in> set xs"
  then have sub: "set (tpages (fst ck)) \<subseteq> set (concat (map (\<lambda>(c, k). tpages c) xs))"
    using split_list [OF ck] by (auto simp: case_prod_beta)
  have "tree_at W (fst ck)" using assms(1) ck by blast
  then show "tree_at W' (fst ck)" by (rule tree_at_same) (use assms(2) sub in blast)
qed

lemma reseat_at:
  assumes "i < length cks" "reseat i ns n cks r = (cks', r')" "group_at W cks r" "distinct (group_pages cks r)" "group_at W' ns n"
    "\<And>q. q \<in> set (group_pages cks r) - set (tpages (kid cks r i)) - set (tpages (kid cks r (Suc i))) \<Longrightarrow> W' q = W q"
  shows "group_at W' cks' r'"
  using assms(1)
proof (cases rule: reseat_cases [where r = r])
  case (last xs a s)
  then have c: "cks' = xs @ ns" "r' = n" using assms(2) by simp_all
  have at: "\<forall>ck \<in> set xs. tree_at W (fst ck)" using assms(3) unfolding last(1) group_prefix(5) by blast
  have "W' q = W q" if "q \<in> set (concat (map (\<lambda>(c, k). tpages c) xs))" for q
  proof (rule assms(6))
    show "q \<in> set (group_pages cks r) - set (tpages (kid cks r i)) - set (tpages (kid cks r (Suc i)))"
      using assms(4) that unfolding last(3,5) unfolding last(1) group_prefix(2) group_simps distinct_append set_append by blast
  qed
  with at have "\<forall>ck \<in> set xs. tree_at W' (fst ck)" by (rule trees_same)
  then show ?thesis using assms(5) c by (simp add: group_prefix)
next
  case (mid xs a s b u ys)
  then have c: "cks' = xs @ ns @ (n, u) # ys" "r' = r" using assms(2) by simp_all
  have at: "\<forall>ck \<in> set xs. tree_at W (fst ck)" "group_at W ys r" using assms(3) unfolding mid(1) group_prefix(5) by simp_all
  have "W' q = W q" if "q \<in> set (concat (map (\<lambda>(c, k). tpages c) xs)) \<union> set (group_pages ys r)" for q
  proof (rule assms(6))
    show "q \<in> set (group_pages cks r) - set (tpages (kid cks r i)) - set (tpages (kid cks r (Suc i)))"
      using assms(4) that unfolding mid(3,5) unfolding mid(1) group_prefix(2) group_simps distinct_append set_append by blast
  qed
  then have "\<forall>ck \<in> set xs. tree_at W' (fst ck)" "group_at W' ys r" using trees_same [OF at(1)] group_at_same [OF at(2)] by blast+
  then show ?thesis using assms(5) c by (simp add: group_prefix(5) [of _ xs] group_append)
qed

section \<open>References\<close>

lemma reseat_refs_borrow:
  assumes "i < length cks" "reseat i [(a, s)] b cks r = (cks', r')"
  shows "child_refs cks' = put_borrow i (tid a) s (tid b) (child_refs cks)" "tid r' = put_last i (tid b) (child_refs cks) (tid r)"
  using assms by (auto simp: reseat_def put_borrow_def put_last_def split: if_splits)

lemma reseat_refs_merge:
  assumes "i < length cks" "reseat i [] m cks r = (cks', r')"
  shows "child_refs cks' = put_merge i (tid m) (child_refs cks)" "tid r' = put_last i (tid m) (child_refs cks) (tid r)"
  using assms by (auto simp: reseat_def put_merge_def put_last_def split: if_splits)

text \<open>Grafting one tree at the child that is reseated makes no difference.\<close>

lemma graft_one:
  assumes "graft cks r k [] n = (cks', r')" "j = rank_le (map snd cks) k"
  shows "length cks' = length cks" "j \<le> length cks" "kid cks' r' j = n" "\<And>i. i \<le> length cks \<Longrightarrow> i \<noteq> j \<Longrightarrow> kid cks' r' i = kid cks r i"
    "\<And>i. i < length cks \<Longrightarrow> snd (cks' ! i) = snd (cks ! i)" "pick cks r k = kid cks r j"
    "\<And>i ns m. i < length cks \<Longrightarrow> i = j \<or> Suc i = j \<Longrightarrow> reseat i ns m cks' r' = reseat i ns m cks r"
proof -
  have j: "j \<le> length cks" using rank_le_length assms(2) by simp
  then show "j \<le> length cks" .
  show "pick cks r k = kid cks r j" using assms(2) by (simp add: pick_alt kid_def Let_def)
  have g: "(cks', r') = (if j < length cks then (cks[j := (n, snd (cks ! j))], r) else (cks, n))"
    using assms by (auto simp: graft_nth Let_def upd_conv_take_nth_drop)
  then show "length cks' = length cks" "kid cks' r' j = n" "\<And>i. i \<le> length cks \<Longrightarrow> i \<noteq> j \<Longrightarrow> kid cks' r' i = kid cks r i"
    "\<And>i. i < length cks \<Longrightarrow> snd (cks' ! i) = snd (cks ! i)"
    using j by (auto simp: kid_def nth_list_update split: if_splits)
  show "reseat i ns m cks' r' = reseat i ns m cks r" if "i < length cks" "i = j \<or> Suc i = j" for i ns m
    using g j that by (auto simp: reseat_def drop_update_cancel take_update_cancel split: if_splits)
qed

section \<open>Thresholds of internal pages\<close>

lemma free_word_inode:
  assumes "inode d cks r"
  obtains f n where "freeSpace d = Some f" "nCells d = Some n" "unat f + (13 + icost cks) = 4096" "unat n = length cks"
  using inode_fits [OF assms] inode_length [OF assms]
  by (intro that [OF inode_free(1) [OF assms] inode_reads(2) [OF assms]]) (simp_all add: u16_simps)

lemma underfull_inode:
  assumes "inode d cks r"
  shows "underfull d = Some (length cks < 4 \<or> 13 + icost cks < 1024)"
proof -
  obtain f n where fn: "freeSpace d = Some f" "nCells d = Some n" "unat f + (13 + icost cks) = 4096" "unat n = length cks"
    using assms by (rule free_word_inode)
  then have "unat (4096 - f) = 13 + icost cks" by (simp add: u16_simps)
  then show ?thesis using fn by (auto simp: underfull_def word_less_nat_alt Let_def)
qed

lemma siblingCanDonate_inode:
  assumes "inode d cks r"
  shows "siblingCanDonate d = Some (4 < length cks \<and> 1024 + (12 + length (snd (last cks))) \<le> 13 + icost cks)"
proof -
  obtain f n where fn: "freeSpace d = Some f" "nCells d = Some n" "unat f + (13 + icost cks) = 4096" "unat n = length cks"
    using assms by (rule free_word_inode)
  show ?thesis
  proof (cases "length cks \<le> 4")
    case True
    then show ?thesis using fn by (simp add: siblingCanDonate_def word_le_nat_alt)
  next
    case False
    then have ne: "cks \<noteq> []" and i: "unat (n - 1) = length cks - 1" "length cks - 1 < length cks"
      using fn(4) by (auto simp: u16_simps)
    have cost: "12 + length (snd (last cks)) \<le> icost cks"
      using append_butlast_last_id [OF ne] by (metis add.commute add_0 icost_simps(1-3) le_add2)
    obtain b where b: "cellSize d (n - 1) = Some b" "unat b = 10 + length (snd (last cks))"
      using inode_cell(3) [OF assms i] ne cost fn(3) by (simp add: last_conv_nth u16_simps)
    have used: "unat (4096 - f) = 13 + icost cks" using fn(3) by (simp add: u16_simps)
    have sb: "unat (x - b - 2) = unat x - (unat b + 2)" if "unat b + 2 \<le> unat x" for x
      using that by (simp add: u16_simps)
    have "unat b + 2 \<le> unat (4096 - f)" unfolding used b(2) using cost by simp
    from sb [OF this] have "unat (4096 - f - b - 2) = 13 + icost cks - (12 + length (snd (last cks)))"
      unfolding used b(2) by simp
    then show ?thesis using False fn b cost
      by (auto simp: siblingCanDonate_def word_le_nat_alt Let_def)
  qed
qed

section \<open>Trees with cells that fit together\<close>

text \<open>All keys and separators have the same length, and inline cells are at most 582 bytes long.\<close>

definition small :: "nat \<Rightarrow> tree \<Rightarrow> bool" where
  "small c t \<longleftrightarrow> c \<le> 498 \<and> (\<forall>s \<in> set (seps t) \<union> fst ` set (kvs t). length s = c) \<and>
     (\<forall>(k, v) \<in> set (kvs t). 5 + length k + length v \<le> maxInlineSize \<longrightarrow> 5 + length k + length v \<le> 582)"

lemma small_mono: "small c t \<Longrightarrow> set (seps t') \<subseteq> set (seps t) \<union> fst ` set (kvs t) \<Longrightarrow> set (kvs t') \<subseteq> set (kvs t) \<Longrightarrow> small c t'"
  unfolding small_def by blast

lemma small_item:
  assumes "small c (Leaf p es)" "e \<in> set es" "entry_ok (item_entry e)"
  shows "length (lcell (item_entry e)) + 2 \<le> 584"
proof -
  obtain k v ps where e: "e = (k, v, ps)" by (cases e) auto
  have "(k, v) \<in> set (kvs (Leaf p es))" using assms(2) e by (force simp: item_kv_def)
  then have k: "length k = c" "5 + length k + length v \<le> maxInlineSize \<longrightarrow> 5 + length k + length v \<le> 582" "c \<le> 498"
    using assms(1) unfolding small_def by force+
  show ?thesis using assms(3) k by (auto simp: e item_entry_def entry_of_def leaf_cell_def split: if_splits)
qed

lemma small_leaf:
  assumes "small c (Leaf p es)" "lnode d (map item_entry es)"
  shows "\<forall>e \<in> set es. length (lcell (item_entry e)) + 2 \<le> 584" "lcost (map item_entry es) \<le> 584 * length es"
proof -
  show all: "\<forall>e \<in> set es. length (lcell (item_entry e)) + 2 \<le> 584"
    using small_item [OF assms(1)] assms(2) by (auto simp: lnode_def)
  then show "lcost (map item_entry es) \<le> 584 * length es" by (induction es) auto
qed

lemma small_node:
  assumes "small c (Node p cks r)"
  shows "\<forall>s \<in> snd ` set cks. length s = c" "icost (child_refs cks) \<le> 510 * length cks" "c \<le> 498"
proof -
  have "snd ` set cks \<subseteq> set (seps (Node p cks r))" by force
  then show all: "\<forall>s \<in> snd ` set cks. length s = c" "c \<le> 498" using assms unfolding small_def by blast+
  then show "icost (child_refs cks) \<le> 510 * length cks" by (induction cks) auto
qed

fun used :: "tree \<Rightarrow> nat" where
  "used (Leaf p es) = 5 + lcost (map item_entry es)"
| "used (Node p cks r) = 13 + icost (child_refs cks)"

lemma underfull_node: "node_at d t \<Longrightarrow> underfull d = Some (entries t < 4 \<or> used t < 1024)"
  using underfull_lnode underfull_inode by (cases t) auto

lemma siblingCanDonate_node:
  assumes "node_at d t" "small c t"
  obtains b where "siblingCanDonate d = Some b" "b \<Longrightarrow> 4 < entries t" "\<not> b \<Longrightarrow> entries t \<le> 4 \<or> used t < 1608"
proof (cases t)
  case (Leaf p es)
  note l = assms [unfolded Leaf, simplified]
  have "length (lcell (last (map item_entry es))) + 2 \<le> 584" if "4 < length es"
    using small_leaf(1) [OF l(2,1)] that by (cases es rule: rev_cases) auto
  then show ?thesis using Leaf by (intro that [OF siblingCanDonate_lnode [OF l(1)]]) (auto simp: not_less [symmetric])
next
  case (Node p cks r)
  note l = assms [unfolded Node, simplified]
  have "12 + length (snd (last (child_refs cks))) \<le> 510" if "4 < length cks"
    using small_node(1,3) [OF assms(2) [unfolded Node]] that by (cases cks rule: rev_cases) auto
  then show ?thesis using Node by (intro that [OF siblingCanDonate_inode [OF l(1)]]) (auto simp: not_less [symmetric])
qed

lemma borrow_fits:
  assumes "node_at d t" "small c t" "entries t < 4 \<or> used t < 1024"
  shows "used t + 584 \<le> 4096"
proof (cases t)
  case (Leaf p es)
  then show ?thesis using small_leaf(2) [of c p es d] assms by auto
next
  case (Node p cks r)
  then show ?thesis using small_node(2) [of c p cks r] assms Node by auto
qed

lemma merge_fits:
  assumes "node_at d t" "small c t" "entries t < 4 \<or> used t < 1024" and "node_at d' u" "small c u" "entries u \<le> 4 \<or> used u < 1608"
    and "near_level l t" "near_level l u"
  shows "case (t, u) of (Leaf p es, Leaf q fs) \<Rightarrow> 5 + lcost (map item_entry es) + lcost (map item_entry fs) \<le> 4096
    | (Node p cks r, Node q dks s) \<Rightarrow> 13 + icost (child_refs cks) + (12 + c) + icost (child_refs dks) \<le> 4096 | _ \<Rightarrow> True"
  using assms(7,8)
proof (cases rule: same_kind)
  case (leaves pa ea pb eb)
  then show ?thesis using small_leaf(2) [of c pa ea d] small_leaf(2) [of c pb eb d'] assms(1-6) by auto
next
  case (nodes pa xa ra pb xb rb)
  have c: "c \<le> 498" using small_node(3) assms(2) nodes by blast
  then show ?thesis using small_node(2) [of c pa xa ra] small_node(2) [of c pb xb rb] assms(1-6) nodes c by auto
qed

end
