(* ===== verification/NodeBorrow.thy ===== *)
theory NodeBorrow
  imports Rebalance
begin

text \<open>
  \<open>borrowForUnderfullChild\<close> on a stored tree: the sibling that can donate is rewritten in a fresh page
  without the cell it lends, its old page is freed and the parent is rebuilt around the new pair.
\<close>

section \<open>Borrowing\<close>

lemma lend_rule:
  assumes ok: "txn_ok env \<sigma> (Suc n) H L w" and ch: "(ch, pc, True) \<in># H" "pc \<in> L" and d1: "F (V w pc) = Some d1" "length d1 = 4096"
    and ty: "ty = nodeLeaf \<or> ty = nodeInternal"
    and K: "\<And>g q w'. q \<notin> L \<Longrightarrow> q \<noteq> 0 \<Longrightarrow> node_cells (V w' q) ty [] \<Longrightarrow> V w' pc = d1 \<Longrightarrow> same_pages (L - {pc}) w w' \<Longrightarrow>
      txn_ok env \<sigma> n (add_mset (g, q, True) H) (insert q L) w' \<Longrightarrow> result_ok (K g w') (failed env \<sigma> H) Q"
  shows "result_ok (do { w \<leftarrow> modify ch F w; try_ok (alloc_node ty env w) K }) (failed env \<sigma> H) Q"
proof -
  obtain w1 where w1: "modify ch F w = Some w1" "txn_ok env \<sigma> (Suc n) H L w1" "V w1 pc = d1" "same_pages (L - {pc}) w w1"
    using modify_rule [where g = F, OF ok ch(1) d1] by blast
  have "result_ok (try_ok (alloc_node ty env w1) K) (failed env \<sigma> H) Q"
  proof (rule try_ok_rule [OF alloc_node_rule [OF w1(2) ty]])
    fix g w2 assume "\<exists>q. q \<notin> L \<and> q \<noteq> 0 \<and> node_cells (V w2 q) ty [] \<and> txn_ok env \<sigma> n (add_mset (g, q, True) H) (insert q L) w2 \<and> same_pages L w1 w2"
    then obtain q where q: "q \<notin> L" "q \<noteq> 0" "node_cells (V w2 q) ty []" "txn_ok env \<sigma> n (add_mset (g, q, True) H) (insert q L) w2" "same_pages L w1 w2" by blast
    have "V w2 pc = d1" "same_pages (L - {pc}) w w2" using q(5) ch(2) w1(3,4) unfolding same_pages_def by simp_all
    then show "result_ok (K g w2) (failed env \<sigma> H) Q" using K [OF q(1-3)] q(4) by blast
  qed (auto intro: txn_ok_failed)
  then show ?thesis using w1(1) by simp
qed

text \<open>The child \<open>c\<close>, in its page, and the sibling, in a new page, after the loan.\<close>

definition borrowed ::
    "env \<Rightarrow> backdrop \<Rightarrow> nat \<Rightarrow> handle multiset \<Rightarrow> PageId set \<Rightarrow> PageId \<Rightarrow> (PageId \<Rightarrow> tree) \<Rightarrow> (PageId \<Rightarrow> tree) \<Rightarrow> (PageId \<Rightarrow> bytes) \<Rightarrow>
     world \<Rightarrow> nat \<times> bytes \<Rightarrow> world \<Rightarrow> bool" where
  "borrowed env \<sigma> n H L pc c' u' s' w x w' \<longleftrightarrow>
     (\<exists>q. q \<notin> L \<and> q \<noteq> 0 \<and> snd x = s' q \<and> node_at (V w' q) (u' q) \<and> node_at (V w' pc) (c' q) \<and> same_pages (L - {pc}) w w' \<and>
       txn_ok env \<sigma> n (add_mset (fst x, q, True) H) (insert q L) w')"

lemma borrowedI:
  assumes ok: "txn_ok env \<sigma> n (add_mset (g, q, True) H) (insert q L) w1" and q: "q \<notin> L" "q \<noteq> 0" "pc \<in> L"
    and F: "F (V w1 q) = Some d2" "node_at d2 (u' q)" "node_at (V w1 pc) (c' q)" "same_pages (L - {pc}) w w1"
  shows "\<exists>w'. modify g F w1 = Some w' \<and> borrowed env \<sigma> n H L pc c' u' s' w (g, s' q) w' \<and> V w' q = d2 \<and> V w' pc = V w1 pc"
proof -
  have "length d2 = 4096" using F(2) lnode_reads(3) inode_reads(4) by (cases "u' q") auto
  then obtain w2 where w2: "modify g F w1 = Some w2" "txn_ok env \<sigma> n (add_mset (g, q, True) H) (insert q L) w2" "V w2 q = d2"
    "same_pages (insert q L - {q}) w1 w2" using modify_rule [where g = F and f = g, OF ok _ F(1)] by auto
  have "V w2 pc = V w1 pc" "same_pages (L - {pc}) w w2" using w2(4) F(4) q unfolding same_pages_def by auto
  then show ?thesis using w2 F q by (intro exI [of _ w2]) (auto simp: borrowed_def)
qed

lemma last_index:
  assumes "0 < n" "n \<le> 2045"
  shows "unat (of_nat n - 1 :: u16) = n - 1" "n - 1 < n"
proof -
  have "unat (of_nat n :: u16) = n" using assms by (simp add: u16_simps)
  then show "unat (of_nat n - 1 :: u16) = n - 1" using assms by (simp add: unat_sub word_le_nat_alt)
  show "n - 1 < n" using assms by simp
qed

lemma borrowFromLeftLeaf_rule:
  assumes ok: "txn_ok env \<sigma> (Suc n) H L w" and h: "(lh, pa, x) \<in># H" "(ch, pb, True) \<in># H" "pa \<in> L" "pb \<in> L" "pa \<noteq> pb"
    and at: "lnode (V w pa) (map item_entry ea)" "lnode (V w pb) (map item_entry eb)"
    and fits: "5 + lcost (map item_entry eb) + (length (lcell (item_entry (last ea))) + 2) \<le> 4096" "ea \<noteq> []"
  shows "result_ok (borrowFromLeftLeaf env lh ch w) (failed env \<sigma> H)
    (borrowed env \<sigma> n H L pb (\<lambda>q. Leaf pb (last ea # eb)) (\<lambda>q. Leaf q (butlast ea)) (\<lambda>q. fst (last ea)) w)"
proof -
  let ?i = "of_nat (length ea) - 1 :: u16"
  have dl: "node_data w lh = V w pa" using handle_node(1) [OF txn_read [OF ok] h(1)] .
  have "length ea \<le> 2045" using lnode_length [OF at(1)] by simp
  then have i: "unat ?i = length ea - 1" "length ea - 1 < length ea" using last_index [of "length ea"] fits(2) by simp_all
  have nth: "map item_entry ea ! (length ea - 1) = item_entry (last ea)" using fits(2) by (simp add: last_conv_nth)
  obtain d1 where d1: "copyCellAt (V w pb) 0 (V w pa) ?i = Some d1" "lnode d1 (map item_entry (last ea # eb))"
    using copyCellAt_lnode [OF at(2,1) i(1), of 0 0] i(2) fits nth by auto
  have k: "key d1 0 = Some (fst (last ea))" using lnode_cell(1) [OF d1(2), of 0 0] by simp
  have "result_ok (do {
       w \<leftarrow> modify ch (\<lambda>d. copyCellAt d 0 (node_data w lh) ?i) w;
       try_ok (alloc_node nodeLeaf env w) (\<lambda>newLeft w. do {
         w \<leftarrow> modify newLeft (\<lambda>d. copyWithoutCell d (node_data w lh) ?i) w;
         sepKey \<leftarrow> key (node_data w ch) 0;
         Some (Inr (newLeft, sepKey), w)
       })
     }) (failed env \<sigma> H) (borrowed env \<sigma> n H L pb (\<lambda>q. Leaf pb (last ea # eb)) (\<lambda>q. Leaf q (butlast ea)) (\<lambda>q. fst (last ea)) w)"
    unfolding dl
  proof (rule lend_rule [where F = "\<lambda>d. copyCellAt d 0 (V w pa) ?i", OF ok h(2,4) d1(1) lnode_reads(3) [OF d1(2)]])
    fix g q w1 assume q: "q \<notin> L" "q \<noteq> 0" "node_cells (V w1 q) nodeLeaf []" "V w1 pb = d1" "same_pages (L - {pb}) w w1"
      and ok1: "txn_ok env \<sigma> n (add_mset (g, q, True) H) (insert q L) w1"
    have dl1: "node_data w1 lh = V w pa" using handle_node(1) [OF txn_read [OF ok1], of lh pa x] h q(5) unfolding same_pages_def by auto
    have at1: "lnode (V w pa) (map item_entry ea)" by (rule at)
    obtain d2 where d2: "copyWithoutCell (V w1 q) (V w pa) ?i = Some d2" "lnode d2 (map item_entry (butlast ea))"
      using copyWithoutCell_lnode [OF lnode_init [OF q(3)] at1 i(1)] i(2) by (auto simp: butlast_conv_take take_map)
    obtain w2 where w2: "modify g (\<lambda>d. copyWithoutCell d (node_data w1 lh) ?i) w1 = Some w2"
      "borrowed env \<sigma> n H L pb (\<lambda>q. Leaf pb (last ea # eb)) (\<lambda>q. Leaf q (butlast ea)) (\<lambda>q. fst (last ea)) w (g, fst (last ea)) w2" "V w2 pb = V w1 pb"
      using borrowedI [of env \<sigma> n g q H L w1 pb "\<lambda>d. copyWithoutCell d (node_data w1 lh) ?i" d2 "\<lambda>q. Leaf q (butlast ea)" "\<lambda>q. Leaf pb (last ea # eb)"
          w "\<lambda>q. fst (last ea)"] ok1 q h(4) d1(2) d2 dl1 by auto
    have "\<exists>H' L'. read_ok env H' L' w2 \<and> (ch, pb, True) \<in># H'" using w2(2) h(2) txn_read unfolding borrowed_def by fastforce
    then have "node_data w2 ch = d1" using handle_node(1) [of env _ _ w2 ch pb True] w2(3) q(4) by auto
    then show "result_ok (do {
         w \<leftarrow> modify g (\<lambda>d. copyWithoutCell d (node_data w1 lh) ?i) w1;
         sepKey \<leftarrow> key (node_data w ch) 0;
         Some (Inr (g, sepKey), w)
       }) (failed env \<sigma> H) (borrowed env \<sigma> n H L pb (\<lambda>q. Leaf pb (last ea # eb)) (\<lambda>q. Leaf q (butlast ea)) (\<lambda>q. fst (last ea)) w)"
      using w2(1,2) k by (simp add: result_ok_def)
  qed simp
  then show ?thesis using lnode_reads(2) [OF at(1)] dl by (simp add: borrowFromLeftLeaf_def allocLeaf_def Let_def)
qed

lemma borrowed_read: "borrowed env \<sigma> n H L pc c' u' s' w x w' \<Longrightarrow> (g, p, y) \<in># H \<Longrightarrow> node_data w' g = V w' p"
  using handle_node(1) txn_read unfolding borrowed_def by fastforce

lemma borrowFromRightLeaf_rule:
  assumes ok: "txn_ok env \<sigma> (Suc n) H L w" and h: "(rh, pb, x) \<in># H" "(ch, pa, True) \<in># H" "pa \<in> L" "pb \<in> L" "pa \<noteq> pb"
    and at: "lnode (V w pa) (map item_entry ea)" "lnode (V w pb) (map item_entry eb)"
    and fits: "5 + lcost (map item_entry ea) + (length (lcell (item_entry (hd eb))) + 2) \<le> 4096" "tl eb \<noteq> []"
  shows "result_ok (borrowFromRightLeaf env rh ch w) (failed env \<sigma> H)
    (borrowed env \<sigma> n H L pa (\<lambda>q. Leaf pa (ea @ [hd eb])) (\<lambda>q. Leaf q (tl eb)) (\<lambda>q. fst (hd (tl eb))) w)"
proof -
  let ?Q = "borrowed env \<sigma> n H L pa (\<lambda>q. Leaf pa (ea @ [hd eb])) (\<lambda>q. Leaf q (tl eb)) (\<lambda>q. fst (hd (tl eb)))"
  have dr: "node_data w rh = V w pb" using handle_node(1) [OF txn_read [OF ok] h(1)] .
  obtain e f es where eb: "eb = e # f # es" using fits(2) by (cases eb; cases "tl eb") auto
  obtain d1 where d1: "copyCell (V w pa) (V w pb) 0 = Some d1" "lnode d1 (map item_entry (ea @ [hd eb]))"
    using copyCell_lnode [OF at, of 0 0] fits(1) eb by auto
  have "result_ok (do {
       w \<leftarrow> modify ch (\<lambda>d. copyCell d (V w pb) 0) w;
       try_ok (alloc_node nodeLeaf env w) (\<lambda>newRight w. do {
         w \<leftarrow> modify newRight (\<lambda>d. copyWithoutCell d (node_data w rh) 0) w;
         sepKey \<leftarrow> key (node_data w newRight) 0;
         Some (Inr (newRight, sepKey), w)
       })
     }) (failed env \<sigma> H) (?Q w)"
  proof (rule lend_rule [where F = "\<lambda>d. copyCell d (V w pb) 0", OF ok h(2,3) d1(1) lnode_reads(3) [OF d1(2)]])
    fix g q w1 assume q: "q \<notin> L" "q \<noteq> 0" "node_cells (V w1 q) nodeLeaf []" "V w1 pa = d1" "same_pages (L - {pa}) w w1"
      and ok1: "txn_ok env \<sigma> n (add_mset (g, q, True) H) (insert q L) w1"
    have dr1: "node_data w1 rh = V w pb" using handle_node(1) [OF txn_read [OF ok1], of rh pb x] h q(5) unfolding same_pages_def by auto
    obtain d2 where d2: "copyWithoutCell (V w1 q) (V w pb) 0 = Some d2" "lnode d2 (map item_entry (tl eb))"
      using copyWithoutCell_lnode [OF lnode_init [OF q(3)] at(2), of 0 0] eb by auto
    have k: "key d2 0 = Some (fst (hd (tl eb)))" using lnode_cell(1) [OF d2(2), of 0 0] eb by simp
    obtain w2 where w2: "modify g (\<lambda>d. copyWithoutCell d (node_data w1 rh) 0) w1 = Some w2" "?Q w (g, fst (hd (tl eb))) w2" "V w2 q = d2"
      using borrowedI [of env \<sigma> n g q H L w1 pa "\<lambda>d. copyWithoutCell d (node_data w1 rh) 0" d2 "\<lambda>q. Leaf q (tl eb)" "\<lambda>q. Leaf pa (ea @ [hd eb])"
          w "\<lambda>q. fst (hd (tl eb))"] ok1 q h(3) d1(2) d2 dr1 by auto
    have "node_data w2 g = d2"
    proof -
      have len: "length d2 = 4096" using lnode_reads(3) [OF d2(2)] .
      obtain w3 where "modify g (\<lambda>d. copyWithoutCell d (node_data w1 rh) 0) w1 = Some w3" "txn_ok env \<sigma> n (add_mset (g, q, True) H) (insert q L) w3"
        using modify_rule [where g = "\<lambda>d. copyWithoutCell d (node_data w1 rh) 0" and f = g and pid = q, OF ok1 _ _ len] d2(1) dr1 by auto
      then have "txn_ok env \<sigma> n (add_mset (g, q, True) H) (insert q L) w2" using w2(1) by simp
      then show ?thesis using handle_node(1) [OF txn_read, of env \<sigma> n _ _ w2 g q True] w2(3) by simp
    qed
    then show "result_ok (do {
         w \<leftarrow> modify g (\<lambda>d. copyWithoutCell d (node_data w1 rh) 0) w1;
         sepKey \<leftarrow> key (node_data w g) 0;
         Some (Inr (g, sepKey), w)
       }) (failed env \<sigma> H) (?Q w)"
      using w2(1,2) k by (simp add: result_ok_def)
  qed simp
  then show ?thesis using dr by (simp add: borrowFromRightLeaf_def allocLeaf_def)
qed

lemma borrowFromLeftInternal_rule:
  assumes ok: "txn_ok env \<sigma> (Suc n) H L w" and h: "(lh, pa, x) \<in># H" "(ch, pb, True) \<in># H" "pa \<in> L" "pb \<in> L" "pa \<noteq> pb"
    and at: "inode (V w pa) (child_refs xa) (tid ra)" "inode (V w pb) (child_refs xb) (tid rb)"
    and fits: "length s \<le> maxKeySize" "13 + icost (child_refs xb) + (12 + length s) \<le> 4096" "xa \<noteq> []"
  shows "result_ok (borrowFromLeftInternal env lh s ch w) (failed env \<sigma> H)
    (borrowed env \<sigma> n H L pb (\<lambda>q. Node pb ((ra, s) # xb) rb) (\<lambda>q. Node q (butlast xa) (fst (last xa))) (\<lambda>q. snd (last xa)) w)"
proof -
  let ?Q = "borrowed env \<sigma> n H L pb (\<lambda>q. Node pb ((ra, s) # xb) rb) (\<lambda>q. Node q (butlast xa) (fst (last xa))) (\<lambda>q. snd (last xa))"
  let ?i = "of_nat (length xa) - 1 :: u16"
  have dl: "node_data w lh = V w pa" using handle_node(1) [OF txn_read [OF ok] h(1)] .
  have "length xa \<le> 340" using inode_length [OF at(1)] by simp
  then have i: "unat ?i = length xa - 1" "length xa - 1 < length (child_refs xa)" using last_index [of "length xa"] fits(3) by simp_all
  have nth: "child_refs xa ! (length xa - 1) = (tid (fst (last xa)), snd (last xa))" using fits(3) by (simp add: last_conv_nth)
  have rd: "nCells (V w pa) = Some (of_nat (length xa))" "key (V w pa) ?i = Some (snd (last xa))" "child (V w pa) ?i = Some (tid (fst (last xa)))"
    "rightmostChild (V w pa) = Some (tid ra)"
    using inode_reads(2,3) [OF at(1)] inode_cell(1,2) [OF at(1) i] nth by simp_all
  obtain d1 where d1: "insertInternalCellAt (V w pb) 0 (tid ra) s = Some d1" "inode d1 (child_refs ((ra, s) # xb)) (tid rb)"
    using insertInternalCellAt_inode [OF at(2) fits(1,2), of 0 0 "tid ra"] by auto
  have "result_ok (do {
       w \<leftarrow> modify ch (\<lambda>d. insertInternalCellAt d 0 (tid ra) s) w;
       try_ok (alloc_node nodeInternal env w) (\<lambda>newLeft w. do {
         w \<leftarrow> modify newLeft (\<lambda>d. copyRange d (node_data w lh) 0 ?i) w;
         w \<leftarrow> modify newLeft (\<lambda>d. setRightmostChild d (tid (fst (last xa)))) w;
         Some (Inr (newLeft, snd (last xa)), w)
       })
     }) (failed env \<sigma> H) (?Q w)"
  proof (rule lend_rule [where F = "\<lambda>d. insertInternalCellAt d 0 (tid ra) s", OF ok h(2,4) d1(1) inode_reads(4) [OF d1(2)]])
    fix g q w1 assume q: "q \<notin> L" "q \<noteq> 0" "node_cells (V w1 q) nodeInternal []" "V w1 pb = d1" "same_pages (L - {pb}) w w1"
      and ok1: "txn_ok env \<sigma> n (add_mset (g, q, True) H) (insert q L) w1"
    have dl1: "node_data w1 lh = V w pa" using handle_node(1) [OF txn_read [OF ok1], of lh pa x] h q(5) unfolding same_pages_def by auto
    obtain r0 where fresh: "inode (V w1 q) [] r0" using inode_init [OF q(3)] by blast
    have tk: "take (length xa - 1) (drop 0 (child_refs xa)) = child_refs (butlast xa)" by (simp add: butlast_conv_take)
    have "13 + icost (child_refs (butlast xa)) \<le> 4096"
      using inode_fits [OF at(1)] icost_take_le [of "length xa - 1" "child_refs xa"] by (simp add: butlast_conv_take)
    then obtain d2 where d2: "copyRange (V w1 q) (V w pa) 0 ?i = Some d2" "inode d2 (child_refs (butlast xa)) r0"
      using copyRange_inode [OF fresh at(1) _ i(1), of 0 0] tk by auto
    obtain d3 where d3: "setRightmostChild d2 (tid (fst (last xa))) = Some d3" "inode d3 (child_refs (butlast xa)) (tid (fst (last xa)))"
      using setRightmostChild_inode [OF d2(2)] by blast
    obtain w2 where w2: "modify g (\<lambda>d. copyRange d (node_data w1 lh) 0 ?i) w1 = Some w2" "txn_ok env \<sigma> n (add_mset (g, q, True) H) (insert q L) w2"
      "V w2 q = d2" "same_pages (insert q L - {q}) w1 w2"
      using modify_rule [where g = "\<lambda>d. copyRange d (node_data w1 lh) 0 ?i" and f = g and pid = q, OF ok1 _ _ inode_reads(4) [OF d2(2)]] d2(1) dl1 by auto
    have s2: "V w2 pb = d1" "same_pages (L - {pb}) w w2" using w2(4) q(1,4,5) h(4) unfolding same_pages_def by auto
    obtain w3 where w3: "modify g (\<lambda>d. setRightmostChild d (tid (fst (last xa)))) w2 = Some w3" "?Q w (g, snd (last xa)) w3"
      using borrowedI [of env \<sigma> n g q H L w2 pb "\<lambda>d. setRightmostChild d (tid (fst (last xa)))" d3 "\<lambda>q. Node q (butlast xa) (fst (last xa))"
          "\<lambda>q. Node pb ((ra, s) # xb) rb" w "\<lambda>q. snd (last xa)"] w2 q h(4) d1(2) d3 s2 by auto
    show "result_ok (do {
         w \<leftarrow> modify g (\<lambda>d. copyRange d (node_data w1 lh) 0 ?i) w1;
         w \<leftarrow> modify g (\<lambda>d. setRightmostChild d (tid (fst (last xa)))) w;
         Some (Inr (g, snd (last xa)), w)
       }) (failed env \<sigma> H) (?Q w)"
      using w2(1) w3 by (simp add: result_ok_def)
  qed simp
  then show ?thesis using rd dl by (simp add: borrowFromLeftInternal_def allocInternal_def Let_def)
qed

lemma borrowed_from:
  "same_pages (L - {pc}) w0 w \<Longrightarrow> borrowed env \<sigma> n H L pc c' u' s' w x w' \<Longrightarrow> borrowed env \<sigma> n H L pc c' u' s' w0 x w'"
  unfolding borrowed_def using same_pages_trans by blast

lemma borrowFromRightInternal_rule:
  assumes ok: "txn_ok env \<sigma> (Suc n) H L w" and h: "(rh, pb, x) \<in># H" "(ch, pa, True) \<in># H" "pa \<in> L" "pb \<in> L" "pa \<noteq> pb"
    and at: "inode (V w pa) (child_refs xa) (tid ra)" "inode (V w pb) (child_refs xb) (tid rb)"
    and fits: "length s \<le> maxKeySize" "13 + icost (child_refs xa) + (12 + length s) \<le> 4096" "xb \<noteq> []"
  shows "result_ok (borrowFromRightInternal env rh s ch w) (failed env \<sigma> H)
    (borrowed env \<sigma> n H L pa (\<lambda>q. Node pa (xa @ [(ra, s)]) (fst (hd xb))) (\<lambda>q. Node q (tl xb) rb) (\<lambda>q. snd (hd xb)) w)"
proof -
  let ?Q = "borrowed env \<sigma> n H L pa (\<lambda>q. Node pa (xa @ [(ra, s)]) (fst (hd xb))) (\<lambda>q. Node q (tl xb) rb) (\<lambda>q. snd (hd xb))"
  obtain c t ys where xb: "xb = (c, t) # ys" using fits(3) by (cases xb) auto
  have dr: "node_data w rh = V w pb" "node_data w ch = V w pa"
    using handle_node(1) [OF txn_read [OF ok] h(1)] handle_node(1) [OF txn_read [OF ok] h(2)] by simp_all
  have rd: "key (V w pb) 0 = Some t" "child (V w pb) 0 = Some (tid c)" "rightmostChild (V w pa) = Some (tid ra)"
    using inode_cell(1,2) [OF at(2), of 0 0] inode_reads(3) [OF at(1)] xb by simp_all
  obtain d1 where d1: "appendInternalCell (V w pa) (tid ra) s = Some d1" "inode d1 (child_refs (xa @ [(ra, s)])) (tid ra)"
    using appendInternalCell_inode [OF at(1) fits(1,2), of "tid ra"] by auto
  obtain w1 where w1: "modify ch (\<lambda>d. appendInternalCell d (tid ra) s) w = Some w1" "txn_ok env \<sigma> (Suc n) H L w1" "V w1 pa = d1" "same_pages (L - {pa}) w w1"
    using modify_rule [where g = "\<lambda>d. appendInternalCell d (tid ra) s", OF ok h(2) d1(1) inode_reads(4) [OF d1(2)]] by blast
  obtain d2 where d2: "setRightmostChild (V w1 pa) (tid c) = Some d2" "inode d2 (child_refs (xa @ [(ra, s)])) (tid c)"
    using setRightmostChild_inode [OF d1(2)] w1(3) by blast
  have "result_ok (do {
       w \<leftarrow> modify ch (\<lambda>d. setRightmostChild d (tid c)) w1;
       try_ok (alloc_node nodeInternal env w) (\<lambda>newRight w. do {
         w \<leftarrow> modify newRight (\<lambda>d. copyWithoutCell d (node_data w rh) 0) w;
         Some (Inr (newRight, t), w)
       })
     }) (failed env \<sigma> H) (?Q w)"
  proof (rule lend_rule [where F = "\<lambda>d. setRightmostChild d (tid c)", OF w1(2) h(2,3) d2(1) inode_reads(4) [OF d2(2)]])
    fix g q w2 assume q: "q \<notin> L" "q \<noteq> 0" "node_cells (V w2 q) nodeInternal []" "V w2 pa = d2" "same_pages (L - {pa}) w1 w2"
      and ok2: "txn_ok env \<sigma> n (add_mset (g, q, True) H) (insert q L) w2"
    have s2: "same_pages (L - {pa}) w w2" using same_pages_trans [OF w1(4) q(5)] .
    have dr2: "node_data w2 rh = V w pb" using handle_node(1) [OF txn_read [OF ok2], of rh pb x] h s2 unfolding same_pages_def by auto
    obtain r0 where fresh: "inode (V w2 q) [] r0" using inode_init [OF q(3)] by blast
    obtain d3 where d3: "copyWithoutCell (V w2 q) (V w pb) 0 = Some d3" "inode d3 (child_refs (tl xb)) (tid rb)"
      using copyWithoutCell_inode [OF fresh at(2), of 0 0] xb by auto
    obtain w3 where w3: "modify g (\<lambda>d. copyWithoutCell d (node_data w2 rh) 0) w2 = Some w3" "?Q w (g, t) w3"
      using borrowedI [of env \<sigma> n g q H L w2 pa "\<lambda>d. copyWithoutCell d (node_data w2 rh) 0" d3 "\<lambda>q. Node q (tl xb) rb"
          "\<lambda>q. Node pa (xa @ [(ra, s)]) (fst (hd xb))" w "\<lambda>q. snd (hd xb)"] ok2 q h(3) d2(2) d3 s2 dr2 xb by auto
    show "result_ok (do {
         w \<leftarrow> modify g (\<lambda>d. copyWithoutCell d (node_data w2 rh) 0) w2;
         Some (Inr (g, t), w)
       }) (failed env \<sigma> H) (?Q w)"
      using w3 by (simp add: result_ok_def)
  qed simp
  then show ?thesis using rd dr w1(1) by (simp add: borrowFromRightInternal_def allocInternal_def)
qed

section \<open>A group of children without its parent\<close>

lemma placed_unpin:
  assumes pl: "placed env \<sigma> n hs H B ns t w w1" and eq: "hs + H = add_mset (g, p, x) (hs' + H')"
  obtains w2 where "node_unpin g w1 = Some w2" "placed env \<sigma> n hs' H' B ns t w w2" "same_pages (B \<union> set (group_pages ns t)) w1 w2" "Id w2 g = p"
proof -
  let ?L = "B \<union> set (group_pages ns t)"
  have "txn_ok env \<sigma> n (add_mset (g, p, x) (hs' + H')) ?L w1" using pl eq by (simp add: placed_def)
  then obtain w2 where w2: "node_unpin g w1 = Some w2" "txn_ok env \<sigma> n (hs' + H') ?L w2" "same_pages ?L w1 w2" "Id w2 g = p" by (rule unpin_rule)
  have "group_at (V w1) ns t" "same_pages B w w1" using pl by (simp_all add: placed_def)
  then have "group_at (V w2) ns t" "same_pages B w w2" using group_at_same [of "V w1" ns t "V w2"] w2(3) unfolding same_pages_def by simp_all
  then show thesis using that w2 pl by (simp add: placed_def)
qed

lemma placed_failed: "placed env \<sigma> n hs H B ns t w w1 \<Longrightarrow> failed env \<sigma> (hs + H) w1"
  using txn_ok_failed by (auto simp: placed_def)

lemma regrown_placed:
  assumes st: "stored (V w) L (Node p cks r)" and c: "c = pick cks r k" and g: "graft cks r k ns n = (cks', r')"
    and re: "regrown env \<sigma> m (hs + H) L c ns n w w1"
  shows "placed env \<sigma> m hs H (base L (Node p cks r)) cks' r' w w1"
proof -
  have "distinct (group_pages ns n)" "set (group_pages ns n) \<inter> base L c = {}" and ok: "txn_ok env \<sigma> m (hs + H) (L - set (tpages c) \<union> set (group_pages ns n)) w1"
    using re by (simp_all add: regrown_def)
  note pg = graft_pages [OF st c g this(1,2)]
  have "same_pages (L - set (tpages c) \<union> set (group_pages ns n)) w1 w1" by (simp add: same_pages_def)
  from regrown_at [OF st c g re this] show ?thesis using pg ok unfolding placed_def by simp
qed

text \<open>Two neighbours are replaced by a group that keeps all their pages but those of \<open>D\<close> and has the new page \<open>q\<close>.\<close>

lemma reseat_placed:
  assumes pl: "placed env \<sigma> n hs H B cks r w w1" and i: "i < length cks" and rs: "reseat i ns m cks r = (cks', r')"
    and ab: "a = kid cks r i" "b = kid cks r (Suc i)" and D: "D \<subseteq> {tid a, tid b}"
    and gp: "set (group_pages ns m) = insert q (set (tpages a) \<union> set (tpages b) - D)" "distinct (group_pages ns m)"
    and q: "q \<notin> B \<union> set (group_pages cks r)" and ok: "txn_ok env \<sigma> n' (hs' + H') (insert q (B \<union> set (group_pages cks r)) - D) w2"
    and at: "group_at (V w2) ns m" and same: "same_pages (B \<union> set (group_pages cks r) - set (tpages a) - set (tpages b)) w1 w2"
  shows "placed env \<sigma> n' hs' H' B cks' r' w w2"
proof -
  have p: "group_at (V w1) cks r" "distinct (group_pages cks r)" "set (group_pages cks r) \<inter> B = {}" "same_pages B w w1"
    using pl by (simp_all add: placed_def)
  obtain X Y where XY: "group_pages cks r = X @ tpages a @ tpages b @ Y" "group_pages cks' r' = X @ group_pages ns m @ Y"
    using reseat_pages [OF i, of r] rs ab by metis
  have tids: "tid a \<in> set (tpages a)" "tid b \<in> set (tpages b)" by (rule tid_in_tpages)+
  have d: "set (X @ Y) \<inter> (set (tpages a) \<union> set (tpages b)) = {}" "distinct X" "distinct Y" "set X \<inter> set Y = {}" using p(2) unfolding XY(1) by auto
  have dist: "distinct (group_pages cks' r')" using d gp q unfolding XY by auto
  have set: "B \<union> set (group_pages cks' r') = insert q (B \<union> set (group_pages cks r)) - D" "set (group_pages cks' r') \<inter> B = {}"
    using p(3) q D tids d(1) unfolding XY set_append gp(1) by auto
  have "group_at (V w2) cks' r'"
  proof (rule reseat_at [OF i rs p(1,2) at])
    show "V w2 x = V w1 x" if "x \<in> set (group_pages cks r) - set (tpages (kid cks r i)) - set (tpages (kid cks r (Suc i)))" for x
      using same that unfolding same_pages_def ab by blast
  qed
  moreover have "V w2 x = V w x" if "x \<in> B" for x
  proof -
    have "x \<notin> set (tpages a) \<union> set (tpages b)" using p(3) that unfolding XY(1) by auto
    then show ?thesis using same p(4) that unfolding same_pages_def by simp
  qed
  ultimately show ?thesis using dist set ok unfolding placed_def same_pages_def by simp
qed

section \<open>Writing the parent\<close>

lemma parent_rule:
  assumes pl: "placed env \<sigma> (Suc n) hs H B cks r w w1" and f: "(f, p, wr) \<in># H" "p \<in> B"
    and F: "\<And>d r0. inode d [] r0 \<Longrightarrow> \<exists>d'. F d (V w p) = Some d' \<and> inode d' (child_refs cks) (tid r)"
  shows "result_ok (try_ok (allocInternal env w1) (\<lambda>dst w. do { w \<leftarrow> modify dst (\<lambda>d. F d (node_data w f)) w; Some (Inr dst, w) }))
    (failed env \<sigma> (hs + H)) (\<lambda>dst w'. \<exists>q. placed env \<sigma> n (add_mset (dst, q, True) hs) H B [] (Node q cks r) w w')"
proof -
  let ?L = "B \<union> set (group_pages cks r)"
  have p: "group_at (V w1) cks r" "distinct (group_pages cks r)" "set (group_pages cks r) \<inter> B = {}" "txn_ok env \<sigma> (Suc n) (hs + H) ?L w1" "same_pages B w w1"
    using pl by (simp_all add: placed_def)
  show ?thesis
  proof (rule try_ok_rule [OF allocInternal_rule [OF p(4)]])
    fix dst w2 assume "\<exists>q r. q \<notin> ?L \<and> q \<noteq> 0 \<and> inode (V w2 q) [] r \<and> txn_ok env \<sigma> n (add_mset (dst, q, True) (hs + H)) (insert q ?L) w2 \<and> same_pages ?L w1 w2"
    then obtain q r0 where q: "q \<notin> ?L" "q \<noteq> 0" "inode (V w2 q) [] r0" "txn_ok env \<sigma> n (add_mset (dst, q, True) (hs + H)) (insert q ?L) w2" "same_pages ?L w1 w2" by blast
    have fd: "node_data w2 f = V w p" using handle_node(1) [OF txn_read [OF q(4)], of f p wr] f p(5) q(5) unfolding same_pages_def by simp
    obtain d where d: "F (V w2 q) (V w p) = Some d" "inode d (child_refs cks) (tid r)" using F [OF q(3)] by blast
    obtain w3 where w3: "modify dst (\<lambda>d. F d (node_data w2 f)) w2 = Some w3" "txn_ok env \<sigma> n (add_mset (dst, q, True) (hs + H)) (insert q ?L) w3" "V w3 q = d"
      "same_pages (insert q ?L - {q}) w2 w3"
      using modify_rule [where g = "\<lambda>d. F d (node_data w2 f)" and f = dst and pid = q, OF q(4) _ _ inode_reads(4) [OF d(2)]] d(1) fd by auto
    have same: "V w3 x = V w1 x" if "x \<in> ?L" for x using q(1,5) w3(4) that unfolding same_pages_def by auto
    have "group_at (V w3) cks r" using p(1) by (rule group_at_same) (use same in blast)
    then have "group_at (V w3) [] (Node q cks r)" using q(2) w3(3) d(2) unfolding group_simps node_group by simp
    moreover have "same_pages B w w3" using p(5) same unfolding same_pages_def by simp
    moreover have "txn_ok env \<sigma> n (add_mset (dst, q, True) hs + H) (B \<union> set (group_pages [] (Node q cks r))) w3"
      using w3(2) unfolding group_simps node_group by (simp add: insert_commute Un_commute)
    ultimately have "placed env \<sigma> n (add_mset (dst, q, True) hs) H B [] (Node q cks r) w w3"
      using p(2,3) q(1) unfolding placed_def group_simps node_group by simp
    then show "result_ok (do { w \<leftarrow> modify dst (\<lambda>d. F d (node_data w2 f)) w2; Some (Inr dst, w) }) (failed env \<sigma> (hs + H))
      (\<lambda>dst w'. \<exists>q. placed env \<sigma> n (add_mset (dst, q, True) hs) H B [] (Node q cks r) w w')"
      using w3(1) by (auto simp: result_ok_def)
  qed (auto intro: txn_ok_failed)
qed

section \<open>An underfull child and its neighbour\<close>

definition mended :: "nat \<Rightarrow> bytes option \<Rightarrow> bytes option \<Rightarrow> (tree \<times> bytes) list \<Rightarrow> tree \<Rightarrow> tree \<Rightarrow> bool" where
  "mended d lo hi cks r t \<longleftrightarrow> near_level (Suc d) t \<and> ordered lo t hi \<and> kvs t = group_kvs cks r \<and>
     set (seps t) \<subseteq> set (group_seps cks r) \<union> fst ` set (group_kvs cks r)"

text \<open>\<open>cks\<close> and \<open>r\<close> are the children before the deletion, \<open>cks'\<close> and \<open>r'\<close> those with the new child at \<open>j\<close>.\<close>

definition rebalancing ::
    "nat \<Rightarrow> nat \<Rightarrow> bytes option \<Rightarrow> bytes option \<Rightarrow> nat \<Rightarrow> (tree \<times> bytes) list \<Rightarrow> tree \<Rightarrow> (tree \<times> bytes) list \<Rightarrow> tree \<Rightarrow> bool" where
  "rebalancing d z lo hi j cks r cks' r' \<longleftrightarrow> length cks' = length cks \<and> j \<le> length cks \<and> group_level d cks r \<and> near_level d (kid cks' r' j) \<and>
     (\<forall>i \<le> length cks. i \<noteq> j \<longrightarrow> kid cks' r' i = kid cks r i) \<and> (\<forall>i < length cks. snd (cks' ! i) = snd (cks ! i)) \<and>
     (\<forall>i ns m. i < length cks \<longrightarrow> i = j \<or> Suc i = j \<longrightarrow> reseat i ns m cks' r' = reseat i ns m cks r) \<and>
     ordered_cs lo cks' r' hi \<and> (\<forall>i \<le> length cks. small z (kid cks' r' i)) \<and> (\<forall>i < length cks. length (snd (cks ! i)) = z) \<and> z \<le> 498"

lemma rebalancing_pair:
  assumes re: "rebalancing d z lo hi j cks r cks' r'" and i: "i < length cks" "i = j \<or> Suc i = j"
    and a: "a = kid cks' r' i" and b: "b = kid cks' r' (Suc i)" and s: "s = snd (cks ! i)"
  obtains lo' hi' where "near_level d a" "near_level d b" "ordered_cs lo' [(a, s)] b hi'" "small z a" "small z b" "length s = z" "z \<le> 498"
    "\<And>ns m cks2 r2 q. ordered_cs lo' ns m hi' \<Longrightarrow> same_contents a s b ns m \<Longrightarrow> group_level d ns m \<Longrightarrow> reseat i ns m cks' r' = (cks2, r2) \<Longrightarrow>
      mended d lo hi cks' r' (Node q cks2 r2)"
proof -
  have len: "length cks' = length cks" and gl: "group_level d cks r" and nl: "near_level d (kid cks' r' j)" and oc: "ordered_cs lo cks' r' hi"
    and kid: "\<And>i. i \<le> length cks \<Longrightarrow> i \<noteq> j \<Longrightarrow> kid cks' r' i = kid cks r i" and sep: "snd (cks' ! i) = s"
    using re i(1) s unfolding rebalancing_def by auto
  have near: "near_level d (kid cks' r' i)" if "i \<le> length cks" for i
    using nl kid [OF that] kid_parts(3) [OF that gl] level_near by (cases "i = j") auto
  have i': "i < length cks'" using i(1) len by simp
  obtain lo' hi' where o: "ordered_cs lo' [(a, s)] b hi'" "\<And>ns n cks2 r2. ordered_cs lo' ns n hi' \<Longrightarrow> reseat i ns n cks' r' = (cks2, r2) \<Longrightarrow> ordered_cs lo cks2 r2 hi"
    using reseat_ordered [OF oc i'] unfolding a [symmetric] b [symmetric] sep by blast
  show thesis
  proof (rule that [OF _ _ o(1)])
    show "near_level d a" "near_level d b" using near i(1) a b by simp_all
    show "small z a" "small z b" "length s = z" "z \<le> 498" using re i(1) a b s unfolding rebalancing_def by auto
  next
    fix ns m cks2 r2 q
    assume n: "ordered_cs lo' ns m hi'" "same_contents a s b ns m" "group_level d ns m" and rs: "reseat i ns m cks' r' = (cks2, r2)"
    have rs2: "reseat i ns m cks r = (cks2, r2)" using re rs i unfolding rebalancing_def by metis
    have "group_kvs cks2 r2 = group_kvs cks' r'" using reseat_kvs [OF i' rs] n(2) a b by (simp add: same_contents_def)
    moreover have "group_level d cks2 r2" using reseat_level [OF i(1) rs2 gl n(3)] .
    moreover have "set (group_seps cks2 r2) \<subseteq> set (group_seps cks' r') \<union> fst ` set (group_kvs cks' r')"
    proof -
      have "i \<le> length cks'" "Suc i \<le> length cks'" using i' by simp_all
      note ka = kid_parts(4,5) [OF this(1), of r', folded a] and kb = kid_parts(4,5) [OF this(2), of r', folded b]
      have "fst ` set (kvs a @ kvs b) \<subseteq> fst ` set (group_kvs cks' r')" using ka(2) kb(2) unfolding set_append by blast
      moreover have "s \<in> set (group_seps cks' r')" using sep_mem [OF i', of r'] sep by simp
      ultimately have "set (group_seps ns m) \<subseteq> set (group_seps cks' r') \<union> fst ` set (group_kvs cks' r')"
        using n(2) ka(1) kb(1) unfolding same_contents_def by blast
      then show ?thesis using reseat_seps [OF i' rs] by blast
    qed
    ultimately show "mended d lo hi cks' r' (Node q cks2 r2)" using o(2) [OF n(1) rs]
      unfolding mended_def node_group node_shape by simp
  qed
qed

lemma inode_kid:
  assumes "inode d (child_refs cks) (tid r)" "unat a = i" "i \<le> length cks"
  shows "child d a = Some (tid (kid cks r i))"
proof (cases "i < length cks")
  case True
  then show ?thesis using inode_cell(2) [OF assms(1,2)] by (simp add: kid_def)
next
  case False
  then have i: "i = length cks" using assms(3) by simp
  have "length cks \<le> 340" using inode_length [OF assms(1)] by simp
  then have "a = of_nat (length (child_refs cks))" using assms(2) i by (simp add: word_unat_eq_iff u16_simps)
  then show ?thesis using inode_child_last [OF assms(1)] i by (simp add: kid_def)
qed

lemma node_at_type: "node_at d t \<Longrightarrow> ntype d = Some (case t of Leaf p es \<Rightarrow> nodeLeaf | Node p cks r \<Rightarrow> nodeInternal)"
  using lnode_reads(1) inode_reads(1) by (cases t) auto

lemma borrowFromLeft_rule:
  assumes ok: "txn_ok env \<sigma> (Suc n) H L w" and h: "(f, p, wr) \<in># H" "(lh, tid a, x) \<in># H" "(ch, tid b, True) \<in># H" "tid a \<in> L" "tid b \<in> L" "tid a \<noteq> tid b"
    and at: "node_at (V w (tid a)) a" "node_at (V w (tid b)) b" and l: "near_level d a" "near_level d b" and sm: "small z a" "small z b" "length s = z" "z \<le> 498"
    and u: "entries b < 4 \<or> used b < 1024" "4 < entries a" and k: "key (V w p) (childIdx - 1) = Some s"
  shows "result_ok (borrowFromLeft env f childIdx lh ch w) (failed env \<sigma> H)
    (borrowed env \<sigma> n H L (tid b) (\<lambda>q. snd (snd (lend_left q a s b))) (\<lambda>q. fst (lend_left q a s b)) (\<lambda>q. fst (snd (lend_left q a s b))) w)"
proof -
  have nd: "node_data w ch = V w (tid b)" "node_data w f = V w p" using handle_node(1) [OF txn_read [OF ok]] h by blast+
  have fits: "used b + 584 \<le> 4096" using borrow_fits [OF at(2) sm(2) u(1)] .
  show ?thesis using l
  proof (cases rule: same_kind)
    case (leaves pa ea pb eb)
    have ea: "ea \<noteq> []" using u(2) leaves by auto
    then have "length (lcell (item_entry (last ea))) + 2 \<le> 584" using small_leaf(1) [of z pa ea "V w pa"] sm(1) at(1) leaves by simp
    then have "5 + lcost (map item_entry eb) + (length (lcell (item_entry (last ea))) + 2) \<le> 4096" using fits leaves by simp
    from borrowFromLeftLeaf_rule [OF ok, of lh pa x ch pb ea eb, OF _ _ _ _ _ _ _ this ea] show ?thesis
      using h at leaves node_at_type [OF at(2)] nd by (simp add: borrowFromLeft_def nodeLeaf_def)
  next
    case (nodes pa xa ra pb xb rb)
    have xa: "xa \<noteq> []" using u(2) nodes by auto
    have fs: "length s \<le> maxKeySize" "13 + icost (child_refs xb) + (12 + length s) \<le> 4096" using fits sm(3,4) nodes by (simp_all add: maxKeySize_def)
    from borrowFromLeftInternal_rule [OF ok, of lh pa x ch pb xa ra xb rb, OF _ _ _ _ _ _ _ fs xa] show ?thesis
      using h at nodes node_at_type [OF at(2)] nd k by (simp add: borrowFromLeft_def nodeLeaf_def nodeInternal_def)
  qed
qed

lemma borrowFromRight_rule:
  assumes ok: "txn_ok env \<sigma> (Suc n) H L w" and h: "(f, p, wr) \<in># H" "(rh, tid b, x) \<in># H" "(ch, tid a, True) \<in># H" "tid a \<in> L" "tid b \<in> L" "tid a \<noteq> tid b"
    and at: "node_at (V w (tid a)) a" "node_at (V w (tid b)) b" and l: "near_level d a" "near_level d b" and sm: "small z a" "small z b" "length s = z" "z \<le> 498"
    and u: "entries a < 4 \<or> used a < 1024" "4 < entries b" and k: "key (V w p) childIdx = Some s"
  shows "result_ok (borrowFromRight env f childIdx rh ch w) (failed env \<sigma> H)
    (borrowed env \<sigma> n H L (tid a) (\<lambda>q. fst (lend_right q a s b)) (\<lambda>q. snd (snd (lend_right q a s b))) (\<lambda>q. fst (snd (lend_right q a s b))) w)"
proof -
  have nd: "node_data w ch = V w (tid a)" "node_data w f = V w p" using handle_node(1) [OF txn_read [OF ok]] h by blast+
  have fits: "used a + 584 \<le> 4096" using borrow_fits [OF at(1) sm(1) u(1)] .
  show ?thesis using l
  proof (cases rule: same_kind)
    case (leaves pa ea pb eb)
    have eb: "eb \<noteq> []" "tl eb \<noteq> []" using u(2) leaves by (cases eb; cases "tl eb"; auto)+
    then have "length (lcell (item_entry (hd eb))) + 2 \<le> 584" using small_leaf(1) [of z pb eb "V w pb"] sm(2) at(2) leaves by simp
    then have "5 + lcost (map item_entry ea) + (length (lcell (item_entry (hd eb))) + 2) \<le> 4096" using fits leaves by simp
    from borrowFromRightLeaf_rule [OF ok, of rh pb x ch pa ea eb, OF _ _ _ _ _ _ _ this eb(2)] show ?thesis
      using h at leaves node_at_type [OF at(1)] nd by (simp add: borrowFromRight_def nodeLeaf_def)
  next
    case (nodes pa xa ra pb xb rb)
    have xb: "xb \<noteq> []" using u(2) nodes by auto
    have fs: "length s \<le> maxKeySize" "13 + icost (child_refs xa) + (12 + length s) \<le> 4096" using fits sm(3,4) nodes by (simp_all add: maxKeySize_def)
    from borrowFromRightInternal_rule [OF ok, of rh pb x ch pa xa ra xb rb, OF _ _ _ _ _ _ _ fs xb] show ?thesis
      using h at nodes node_at_type [OF at(1)] nd k by (simp add: borrowFromRight_def nodeLeaf_def nodeInternal_def)
  qed
qed

lemma pair_pages:
  assumes i: "i < length cks" and d: "distinct (group_pages cks r)" and ab: "a = kid cks r i" "b = kid cks r (Suc i)"
  shows "distinct (tpages a @ tpages b)" "set (tpages a @ tpages b) \<subseteq> set (group_pages cks r)" "tid a \<noteq> tid b" "tid a \<notin> set (rpages a @ rpages b)"
    "tid b \<notin> set (rpages a @ rpages b)" "distinct (rpages a @ rpages b)"
proof -
  obtain X Y where "group_pages cks r = X @ tpages a @ tpages b @ Y" using reseat_pages [OF i, of r] ab by metis
  then show "distinct (tpages a @ tpages b)" "set (tpages a @ tpages b) \<subseteq> set (group_pages cks r)" using d by auto
  then show "tid a \<noteq> tid b" "tid a \<notin> set (rpages a @ rpages b)" "tid b \<notin> set (rpages a @ rpages b)" "distinct (rpages a @ rpages b)"
    unfolding tree_parts(2) by auto
qed

lemma lent_group:
  assumes "lent d lo hi a s b qa qb (a', s', b')"
  shows "group_level d [(a', s')] b'" "ordered_cs lo [(a', s')] b' hi" "same_contents a s b [(a', s')] b'" "tid a' = qa" "tid b' = qb"
    "rpages a' @ rpages b' = rpages a @ rpages b" "rest_at W a \<Longrightarrow> rest_at W b \<Longrightarrow> rest_at W a' \<and> rest_at W b'"
  using assms by (auto simp: lent_def)

text \<open>The loan is finished: the sibling's old page \<open>ps\<close> is unpinned and freed.\<close>

lemma borrow_finish:
  assumes pl: "placed env \<sigma> m {#(ch, pc, True)#} H B cks r w w4" and i: "i < length cks" and ab: "a = kid cks r i" "b = kid cks r (Suc i)"
    and same: "same_pages (B \<union> set (group_pages cks r)) w4 w5"
    and ids: "{tid a, tid b} = {ps, pc}"
    and bo: "q \<notin> B \<union> set (group_pages cks r)" "q \<noteq> 0" "same_pages (B \<union> set (group_pages cks r) - {pc}) w5 w6"
      "txn_ok env \<sigma> n (add_mset (gs, q, True) (add_mset (sh, ps, x) (add_mset (ch, pc, True) H))) (insert q (B \<union> set (group_pages cks r))) w6"
    and l: "lent d lo hi a s b qa qb (a', s', b')" "{qa, qb} = {q, pc}" and at: "node_at (V w6 qa) a'" "node_at (V w6 qb) b'"
    and rs: "reseat i [(a', s')] b' cks r = (cks2, r2)"
  obtains w7 w8 where "node_unpin sh w6 = Some w7" "free_page ps w7 = Some w8" "placed env \<sigma> n {#(gs, q, True), (ch, pc, True)#} H B cks2 r2 w w8"
    "Id w8 gs = q" "Id w8 ch = pc"
proof -
  let ?L = "B \<union> set (group_pages cks r)"
  have p: "group_at (V w4) cks r" "distinct (group_pages cks r)" "set (group_pages cks r) \<inter> B = {}" using pl by (simp_all add: placed_def)
  note pp = pair_pages [OF i p(2) ab] and lg = lent_group [OF l(1)]
  have kids: "tree_at (V w4) a" "tree_at (V w4) b" using kid_parts(2) [OF _ p(1)] i ab by simp_all
  have psc: "ps \<noteq> pc" using ids pp(3) by auto
  have ps: "ps \<in> ?L" "ps \<noteq> 0" "ps \<in> {tid a, tid b}" "pc \<in> {tid a, tid b}" "pc \<in> ?L" "pc \<noteq> 0"
    using ids pp(2) kids tid_in_tpages [of a] tid_in_tpages [of b] tid_nonzero by (auto simp: doubleton_eq_iff)
  have "txn_ok env \<sigma> n (add_mset (sh, ps, x) (add_mset (gs, q, True) (add_mset (ch, pc, True) H))) (insert q ?L) w6" using bo(4) by (simp add: add_mset_commute)
  then obtain w7 where w7: "node_unpin sh w6 = Some w7" "txn_ok env \<sigma> n (add_mset (gs, q, True) (add_mset (ch, pc, True) H)) (insert q ?L) w7"
    "same_pages (insert q ?L) w6 w7" by (rule unpin_rule)
  obtain w8 where w8: "free_page ps w7 = Some w8" "txn_ok env \<sigma> n (add_mset (gs, q, True) (add_mset (ch, pc, True) H)) (insert q ?L - {ps}) w8" "db w8 = db w7"
    using free_rule [OF w7(2) _ ps(2)] ps(1) by blast
  have s68: "V w8 y = V w6 y" if "y \<in> insert q ?L" for y using w7(3) w8(3) that unfolding same_pages_def by auto
  have s48: "V w8 y = V w4 y" if "y \<in> ?L" "y \<noteq> pc" for y using s68 [of y] bo(3) same that unfolding same_pages_def by simp
  have rest: "rest_at (V w8) a'" "rest_at (V w8) b'"
  proof -
    have "rest_at (V w4) a" "rest_at (V w4) b" using kids unfolding tree_parts(1) by blast+
    moreover have "V w8 y = V w4 y" if "y \<in> set (rpages a @ rpages b)" for y
    proof (rule s48)
      show "y \<in> ?L" using pp(2) that unfolding tree_parts(2) by auto
      show "y \<noteq> pc" using pp(4,5) ps(4) that by auto
    qed
    ultimately have "rest_at (V w8) a" "rest_at (V w8) b" using rest_at_same [of "V w4" a "V w8"] rest_at_same [of "V w4" b "V w8"] by auto
    then show "rest_at (V w8) a'" "rest_at (V w8) b'" using lg(7) by blast+
  qed
  have "qa \<in> insert q ?L" "qb \<in> insert q ?L" "qa \<noteq> 0" "qb \<noteq> 0" using l(2) ps(5,6) bo(2) by (auto simp: doubleton_eq_iff)
  then have "tree_at (V w8) a'" "tree_at (V w8) b'" using rest at s68 lg(4,5) unfolding tree_parts(1) by simp_all
  then have gat: "group_at (V w8) [(a', s')] b'" by simp
  have "placed env \<sigma> n {#(gs, q, True), (ch, pc, True)#} H B cks2 r2 w w8"
  proof (rule reseat_placed [OF pl i rs ab, where D = "{ps}"])
    have "set (group_pages [(a', s')] b') = {qa, qb} \<union> set (rpages a' @ rpages b')" unfolding group_simps tree_parts(2) lg(4,5) by auto
    also have "\<dots> = insert q (insert pc (set (rpages a @ rpages b)))" unfolding l(2) lg(6) by auto
    also have "\<dots> = insert q (set (tpages a) \<union> set (tpages b) - {ps})"
      using ids pp(3-5) unfolding tree_parts(2) by (auto simp: doubleton_eq_iff)
    finally show "set (group_pages [(a', s')] b') = insert q (set (tpages a) \<union> set (tpages b) - {ps})" .
    have nin: "q \<notin> set (rpages a @ rpages b)" "pc \<notin> set (rpages a @ rpages b)" "q \<noteq> pc"
      using bo(1) pp(2,4,5) ps(4,5) unfolding tree_parts(2) by auto
    then have "qa \<notin> set (rpages a' @ rpages b')" "qb \<notin> set (rpages a' @ rpages b')" "qa \<noteq> qb" unfolding lg(6) using l(2) by (auto simp: doubleton_eq_iff)
    moreover have "distinct (rpages a' @ rpages b')" unfolding lg(6) by (rule pp(6))
    ultimately show "distinct (group_pages [(a', s')] b')" unfolding group_simps tree_parts(2) lg(4,5) by auto
    show "txn_ok env \<sigma> n ({#(gs, q, True), (ch, pc, True)#} + H) (insert q ?L - {ps}) w8" using w8(2) by simp
    show "same_pages (?L - set (tpages a) - set (tpages b)) w4 w8"
      using s48 ps(4) tid_in_tpages [of a] tid_in_tpages [of b] unfolding same_pages_def by blast
    show "{ps} \<subseteq> {tid a, tid b}" using ps(3) by simp
  qed (rule bo(1), rule gat)
  moreover have "Id w8 gs = q" "Id w8 ch = pc"
    using handle_node(2) [OF txn_read [OF w8(2)], of gs q True] handle_node(2) [OF txn_read [OF w8(2)], of ch pc True] by simp_all
  ultimately show thesis using that w7(1) w8(1) by blast
qed

text \<open>Writing the parent after a loan.\<close>

lemma icost_reseat:
  assumes "i < length cks" "\<forall>i < length cks. length (snd (cks ! i)) = z" "length s = z"
  shows "icost (put_borrow i a s b (child_refs cks)) = icost (child_refs cks)"
proof -
  have same: "icost xs = (12 + z) * length xs" if "\<forall>ck \<in> set xs. length (snd ck) = z" for xs :: "(PageId \<times> bytes) list"
    using that by (induction xs) auto
  have all: "\<forall>ck \<in> set (child_refs cks). length (snd ck) = z"
    using assms(2) unfolding all_set_conv_all_nth by (simp add: child_refs_def case_prod_beta)
  have "\<forall>ck \<in> set (put_borrow i a s b (child_refs cks)). length (snd ck) = z"
    using all assms by (auto simp: put_borrow_def dest: in_set_takeD in_set_dropD simp flip: child_refs_simps(6,7))
  moreover have "length (put_borrow i a s b (child_refs cks)) = length (child_refs cks)" using assms(1) by (auto simp: put_borrow_def)
  ultimately show ?thesis using same all by metis
qed

lemma rebuildParentForBorrow_rule:
  assumes pl: "placed env \<sigma> (Suc n) hs H B cks2 r2 w w1" and f: "(f, p, wr) \<in># H" "p \<in> B" and node: "inode (V w p) (child_refs cks) (tid r)"
    and i: "unat sepIdx = i" "i < length cks" and rs: "reseat i [(a, s)] b cks r = (cks2, r2)"
    and z: "\<forall>i < length cks. length (snd (cks ! i)) = z" "length s = z" "z \<le> 498"
  shows "result_ok (rebuildParentForBorrow env f sepIdx (tid a) s (tid b) w1) (failed env \<sigma> (hs + H))
    (\<lambda>dst w'. \<exists>q. placed env \<sigma> n (add_mset (dst, q, True) hs) H B [] (Node q cks2 r2) w w')"
  unfolding rebuildParentForBorrow_def
proof (rule parent_rule [OF pl f])
  fix d r0 assume fresh: "inode d [] r0"
  have "13 + icost (put_borrow i (tid a) s (tid b) (child_refs cks)) \<le> 4096"
    unfolding icost_reseat [OF i(2) z(1,2)] using inode_fits [OF node] .
  from rebuildParentForBorrow_inode [OF node fresh i(1) _ _ this] show "\<exists>d'. rebuildParentForBorrow_fill d (V w p) sepIdx (tid a) s (tid b) = Some d' \<and> inode d' (child_refs cks2) (tid r2)"
    unfolding reseat_refs_borrow [OF i(2) rs] using i(2) z(2,3) by (simp add: maxKeySize_def)
qed

definition fixed ::
    "env \<Rightarrow> backdrop \<Rightarrow> nat \<Rightarrow> handle multiset \<Rightarrow> PageId set \<Rightarrow> nat \<Rightarrow> bytes option \<Rightarrow> bytes option \<Rightarrow> (tree \<times> bytes) list \<Rightarrow> tree \<Rightarrow>
     world \<Rightarrow> nat \<Rightarrow> world \<Rightarrow> bool" where
  "fixed env \<sigma> n H B d lo hi cks r w dst w' \<longleftrightarrow>
     (\<exists>t. placed env \<sigma> n {#(dst, tid t, True)#} H B [] t w w' \<and> mended d lo hi cks r t)"

lemma unpin_failed_two:
  assumes "failed env \<sigma> (add_mset (g, p, x) (add_mset (h, q, y) H)) w"
  obtains w1 w2 where "node_unpin g w = Some w1" "node_unpin h w1 = Some w2" "failed env \<sigma> H w2"
  using failed_unpin [OF assms] failed_unpin by blast

lemma lent_sep: "lent d lo hi a s b qa qb (a', s', b') \<Longrightarrow> small z a \<Longrightarrow> small z b \<Longrightarrow> length s = z \<Longrightarrow> length s' = z"
  unfolding lent_def small_def by (simp only: prod.case set_append image_Un) blast

lemma close_borrow:
  assumes pl: "placed env \<sigma> (Suc n) {#(gs, q, True), (ch, pc, True)#} H B cks2 r2 w w1" and f: "(f, p, wr) \<in># H" "p \<in> B"
    and node: "inode (V w p) (child_refs cks) (tid r)" and i: "unat sepIdx = i" "i < length cks" and rs: "reseat i [(a, s)] b cks r = (cks2, r2)"
    and z: "\<forall>i < length cks. length (snd (cks ! i)) = z" "length s = z" "z \<le> 498"
    and m: "\<And>q. mended d lo hi cks' r' (Node q cks2 r2)"
  shows "result_ok (do {
      (r, w) \<leftarrow> rebuildParentForBorrow env f sepIdx (tid a) s (tid b) w1;
      w \<leftarrow> node_unpin gs w;
      w \<leftarrow> node_unpin ch w;
      Some (case r of Inl e \<Rightarrow> Inl e | Inr dst \<Rightarrow> Inr (Some dst), w)
    }) (failed env \<sigma> H) (\<lambda>res w'. \<exists>dst. res = Some dst \<and> fixed env \<sigma> n H B d lo hi cks' r' w dst w')"
  using rebuildParentForBorrow_rule [OF pl f node i rs z]
proof (cases rule: result_ok_cases)
  case (err e w2)
  have "failed env \<sigma> (add_mset (gs, q, True) (add_mset (ch, pc, True) H)) w2" using err(2) by simp
  then obtain w3 w4 where "node_unpin gs w2 = Some w3" "node_unpin ch w3 = Some w4" "failed env \<sigma> H w4" by (rule unpin_failed_two)
  then show ?thesis unfolding err(1) by (simp add: result_ok_def)
next
  case (val dst w2)
  then obtain q' where q': "placed env \<sigma> n (add_mset (dst, q', True) {#(gs, q, True), (ch, pc, True)#}) H B [] (Node q' cks2 r2) w w2" by blast
  obtain w3 where w3: "node_unpin gs w2 = Some w3" "placed env \<sigma> n {#(dst, q', True), (ch, pc, True)#} H B [] (Node q' cks2 r2) w w3"
    using placed_unpin [OF q', of gs q True "{#(dst, q', True), (ch, pc, True)#}" H] by (auto simp: add_mset_commute)
  obtain w4 where w4: "node_unpin ch w3 = Some w4" "placed env \<sigma> n {#(dst, q', True)#} H B [] (Node q' cks2 r2) w w4"
    using placed_unpin [OF w3(2), of ch pc True "{#(dst, q', True)#}" H] by (auto simp: add_mset_commute)
  have "placed env \<sigma> n {#(dst, tid (Node q' cks2 r2), True)#} H B [] (Node q' cks2 r2) w w4" using w4(2) by simp
  then have "fixed env \<sigma> n H B d lo hi cks' r' w dst w4" using m [of q'] unfolding fixed_def by blast
  then show ?thesis using w3(1) w4(1) unfolding val(1) by (simp add: result_ok_def)
qed

text \<open>Nothing was borrowed: the sibling \<open>t\<close> cannot donate.\<close>

definition undonated ::
    "env \<Rightarrow> backdrop \<Rightarrow> nat \<Rightarrow> handle multiset \<Rightarrow> handle multiset \<Rightarrow> PageId set \<Rightarrow> (tree \<times> bytes) list \<Rightarrow> tree \<Rightarrow> tree \<Rightarrow> world \<Rightarrow> world \<Rightarrow> bool" where
  "undonated env \<sigma> n hs H B cks r t w w' \<longleftrightarrow> placed env \<sigma> n hs H B cks r w w' \<and> (entries t \<le> 4 \<or> used t < 1608)"

lemma borrow_left_rule:
  assumes pl: "placed env \<sigma> (Suc (Suc n)) {#(ch, tid (kid cks' r' j), True)#} H B cks' r' w w4" and f: "(f, p, wr) \<in># H" "p \<in> B"
    and node: "inode (V w p) (child_refs cks) (tid r)" and re: "rebalancing d z lo hi j cks r cks' r'" and j: "unat childIdx = j" "0 < j"
    and u: "entries (kid cks' r' j) < 4 \<or> used (kid cks' r' j) < 1024"
  shows "result_ok (borrow_left env f childIdx ch w4) (failed env \<sigma> H)
    (\<lambda>res w'. case res of Some dst \<Rightarrow> fixed env \<sigma> n H B d lo hi cks' r' w dst w'
      | None \<Rightarrow> undonated env \<sigma> (Suc (Suc n)) {#(ch, tid (kid cks' r' j), True)#} H B cks' r' (kid cks' r' (j - 1)) w w')"
proof -
  define i where "i = j - 1"
  have len: "length cks' = length cks" "j \<le> length cks" using re by (simp_all add: rebalancing_def)
  have i: "i < length cks" "Suc i = j" "unat (childIdx - 1) = i" using len j by (simp_all add: i_def u16_simps)
  have i': "i < length cks'" using i len by simp
  define a where "a = kid cks' r' i"
  define b where "b = kid cks' r' (Suc i)"
  define s where "s = snd (cks ! i)"
  have bj: "b = kid cks' r' j" using i b_def by simp
  obtain lo' hi' where pr: "near_level d a" "near_level d b" "ordered_cs lo' [(a, s)] b hi'" "small z a" "small z b" "length s = z" "z \<le> 498"
    "\<And>ns m cks2 r2 q. ordered_cs lo' ns m hi' \<Longrightarrow> same_contents a s b ns m \<Longrightarrow> group_level d ns m \<Longrightarrow> reseat i ns m cks' r' = (cks2, r2) \<Longrightarrow>
      mended d lo hi cks' r' (Node q cks2 r2)"
    using rebalancing_pair [OF re i(1) _ a_def b_def s_def] i(2) by blast
  let ?L = "B \<union> set (group_pages cks' r')" and ?hc = "{#(ch, tid b, True)#}"
  have pl': "placed env \<sigma> (Suc (Suc n)) ?hc H B cks' r' w w4" using pl bj by simp
  have p: "group_at (V w4) cks' r'" "distinct (group_pages cks' r')" "set (group_pages cks' r') \<inter> B = {}" "same_pages B w w4"
    "txn_ok env \<sigma> (Suc (Suc n)) (add_mset (ch, tid b, True) H) ?L w4" using pl' by (simp_all add: placed_def)
  have kids: "tree_at (V w4) a" "tree_at (V w4) b" using kid_parts(2) [OF _ p(1)] i' a_def b_def by simp_all
  note pp = pair_pages [OF i' p(2) a_def b_def]
  have inL: "tid a \<in> ?L" "tid b \<in> ?L" using pp(2) tid_in_tpages [of a] tid_in_tpages [of b] by auto
  have ak: "a = kid cks r i" using re i unfolding rebalancing_def a_def by auto
  have fd: "node_data w4 f = V w p" using handle_node(1) [OF txn_read [OF p(5)], of f p wr] f p(4) unfolding same_pages_def by simp
  have cid: "child (V w p) (childIdx - 1) = Some (tid a)" using inode_kid [OF node i(3)] i(1) ak by simp
  have key: "key (V w p) (childIdx - 1) = Some s" using inode_cell(1) [OF node i(3)] i(1) s_def by simp
  let ?R = "\<lambda>res w'. case res of Some dst \<Rightarrow> fixed env \<sigma> n H B d lo hi cks' r' w dst w' | None \<Rightarrow> undonated env \<sigma> (Suc (Suc n)) ?hc H B cks' r' a w w'"
  have "result_ok (try_or (getNode env (tid a) w4) (node_unpin ch) (\<lambda>leftSibling w. do {
       can \<leftarrow> siblingCanDonate (node_data w leftSibling);
       if can then
         try_or (borrowFromLeft env f childIdx leftSibling ch w)
           (\<lambda>w. do { w \<leftarrow> node_unpin leftSibling w; node_unpin ch w }) (\<lambda>(newLeft, sepKey) w. do {
             w \<leftarrow> node_unpin leftSibling w;
             w \<leftarrow> free_page (tid a) w;
             (r, w) \<leftarrow> rebuildParentForBorrow env f (childIdx - 1) (Id w newLeft) sepKey (Id w ch) w;
             w \<leftarrow> node_unpin newLeft w;
             w \<leftarrow> node_unpin ch w;
             Some (case r of Inl e \<Rightarrow> Inl e | Inr dst \<Rightarrow> Inr (Some dst), w)
           })
       else do {
         w \<leftarrow> node_unpin leftSibling w;
         Some (Inr None, w)
       }
     })) (failed env \<sigma> H) ?R"
  proof (rule try_or_rule [OF getNode_rule [OF p(5) inL(1)] failed_unpin], assumption)
    fix lh w5 assume a5: "txn_ok env \<sigma> (Suc (Suc n)) (add_mset (lh, tid a, False) (add_mset (ch, tid b, True) H)) ?L w5 \<and> same_pages ?L w4 w5"
    let ?H5 = "add_mset (lh, tid a, False) (add_mset (ch, tid b, True) H)"
    have ok5: "txn_ok env \<sigma> (Suc (Suc n)) ?H5 ?L w5" and s5: "same_pages ?L w4 w5" using a5 by blast+
    have at5: "node_at (V w5 (tid a)) a" "node_at (V w5 (tid b)) b" using kids s5 inL unfolding tree_parts(1) same_pages_def by auto
    have d5: "node_data w5 lh = V w5 (tid a)" using handle_node(1) [OF txn_read [OF ok5], of lh "tid a" False] by simp
    obtain can where can: "siblingCanDonate (V w5 (tid a)) = Some can" "can \<Longrightarrow> 4 < entries a" "\<not> can \<Longrightarrow> entries a \<le> 4 \<or> used a < 1608"
      using siblingCanDonate_node [OF at5(1) pr(4)] by blast
    show "result_ok (do {
       can \<leftarrow> siblingCanDonate (node_data w5 lh);
       if can then
         try_or (borrowFromLeft env f childIdx lh ch w5)
           (\<lambda>w. do { w \<leftarrow> node_unpin lh w; node_unpin ch w }) (\<lambda>(newLeft, sepKey) w. do {
             w \<leftarrow> node_unpin lh w;
             w \<leftarrow> free_page (tid a) w;
             (r, w) \<leftarrow> rebuildParentForBorrow env f (childIdx - 1) (Id w newLeft) sepKey (Id w ch) w;
             w \<leftarrow> node_unpin newLeft w;
             w \<leftarrow> node_unpin ch w;
             Some (case r of Inl e \<Rightarrow> Inl e | Inr dst \<Rightarrow> Inr (Some dst), w)
           })
       else do {
         w \<leftarrow> node_unpin lh w5;
         Some (Inr None, w)
       }
     }) (failed env \<sigma> H) ?R"
    proof (cases can)
      case False
      have "placed env \<sigma> (Suc (Suc n)) (add_mset (lh, tid a, False) ?hc) H B cks' r' w w5"
        using pl' ok5 s5 group_at_same [of "V w4" cks' r' "V w5"] unfolding placed_def same_pages_def by simp
      then obtain w6 where "node_unpin lh w5 = Some w6" "placed env \<sigma> (Suc (Suc n)) ?hc H B cks' r' w w6"
        using placed_unpin [of env \<sigma> _ "add_mset (lh, tid a, False) ?hc" H B cks' r' w w5 lh "tid a" False ?hc H] by auto
      then show ?thesis using can False d5 by (simp add: result_ok_def undonated_def)
    next
      case True
      have key5: "key (V w5 p) (childIdx - 1) = Some s" using key p(4) s5 f(2) unfolding same_pages_def by simp
      have hs5: "(f, p, wr) \<in># ?H5" "(lh, tid a, False) \<in># ?H5" "(ch, tid b, True) \<in># ?H5" using f by simp_all
      have bor: "result_ok (borrowFromLeft env f childIdx lh ch w5) (failed env \<sigma> ?H5)
          (borrowed env \<sigma> (Suc n) ?H5 ?L (tid b) (\<lambda>q. snd (snd (lend_left q a s b))) (\<lambda>q. fst (lend_left q a s b)) (\<lambda>q. fst (snd (lend_left q a s b))) w5)"
        using u bj can(2) True key5 by (intro borrowFromLeft_rule [OF ok5 hs5 inL pp(3) at5 pr(1,2,4-7)]) auto
      have "result_ok (try_or (borrowFromLeft env f childIdx lh ch w5)
           (\<lambda>w. do { w \<leftarrow> node_unpin lh w; node_unpin ch w }) (\<lambda>(newLeft, sepKey) w. do {
             w \<leftarrow> node_unpin lh w;
             w \<leftarrow> free_page (tid a) w;
             (r, w) \<leftarrow> rebuildParentForBorrow env f (childIdx - 1) (Id w newLeft) sepKey (Id w ch) w;
             w \<leftarrow> node_unpin newLeft w;
             w \<leftarrow> node_unpin ch w;
             Some (case r of Inl e \<Rightarrow> Inl e | Inr dst \<Rightarrow> Inr (Some dst), w)
           })) (failed env \<sigma> H) ?R"
      proof (rule try_or_rule [OF bor])
        show "\<exists>w'. do { w \<leftarrow> node_unpin lh v; node_unpin ch w } = Some w' \<and> failed env \<sigma> H w'" if "failed env \<sigma> ?H5 v" for v
          using unpin_failed_two [OF that] by (metis Option.bind.bind_lunit)
      next
        fix x w6 assume bo: "borrowed env \<sigma> (Suc n) ?H5 ?L (tid b) (\<lambda>q. snd (snd (lend_left q a s b))) (\<lambda>q. fst (lend_left q a s b)) (\<lambda>q. fst (snd (lend_left q a s b))) w5 x w6"
        obtain gs sk where x: "x = (gs, sk)" by (cases x)
        obtain q where q: "q \<notin> ?L" "q \<noteq> 0" "sk = fst (snd (lend_left q a s b))" "node_at (V w6 q) (fst (lend_left q a s b))" "node_at (V w6 (tid b)) (snd (snd (lend_left q a s b)))"
          "same_pages (?L - {tid b}) w5 w6" "txn_ok env \<sigma> (Suc n) (add_mset (gs, q, True) ?H5) (insert q ?L) w6"
          using bo x unfolding borrowed_def by auto
        obtain a' s' b' where tri: "lend_left q a s b = (a', s', b')" by (cases "lend_left q a s b")
        have lt: "lent d lo' hi' a s b q (tid b) (a', s', b')" using lend_left_ok [OF pr(1-3), of q] can(2) True tri by simp
        note lg = lent_group [OF lt]
        obtain cks2 r2 where rs: "reseat i [(a', s')] b' cks' r' = (cks2, r2)" by (cases "reseat i [(a', s')] b' cks' r'")
        have rs2: "reseat i [(a', s')] b' cks r = (cks2, r2)" using re rs i unfolding rebalancing_def by metis
        obtain w7 w8 where w8: "node_unpin lh w6 = Some w7" "free_page (tid a) w7 = Some w8" "placed env \<sigma> (Suc n) {#(gs, q, True), (ch, tid b, True)#} H B cks2 r2 w w8"
          "Id w8 gs = q" "Id w8 ch = tid b"
          using borrow_finish [OF pl' i' a_def b_def s5 refl q(1,2,6,7) lt refl _ _ rs] q(4,5) tri by auto
        have m: "mended d lo hi cks' r' (Node y cks2 r2)" for y using pr(8) [OF lg(2,3,1) rs] .
        have ids: "Id w8 gs = tid a'" "Id w8 ch = tid b'" using w8(4,5) lg(4,5) by simp_all
        have s': "length s' = z" "\<forall>i < length cks. length (snd (cks ! i)) = z"
          using lent_sep [OF lt pr(4-6)] re unfolding rebalancing_def by blast+
        have "result_ok (do {
             (r, w) \<leftarrow> rebuildParentForBorrow env f (childIdx - 1) (Id w8 gs) s' (Id w8 ch) w8;
             w \<leftarrow> node_unpin gs w;
             w \<leftarrow> node_unpin ch w;
             Some (case r of Inl e \<Rightarrow> Inl e | Inr dst \<Rightarrow> Inr (Some dst), w)
           }) (failed env \<sigma> H) (\<lambda>res w'. \<exists>dst. res = Some dst \<and> fixed env \<sigma> n H B d lo hi cks' r' w dst w')"
          unfolding ids by (rule close_borrow [OF w8(3) f node i(3,1) rs2 s'(2,1) pr(7) m])
        then have "result_ok (do {
             (r, w) \<leftarrow> rebuildParentForBorrow env f (childIdx - 1) (Id w8 gs) s' (Id w8 ch) w8;
             w \<leftarrow> node_unpin gs w;
             w \<leftarrow> node_unpin ch w;
             Some (case r of Inl e \<Rightarrow> Inl e | Inr dst \<Rightarrow> Inr (Some dst), w)
           }) (failed env \<sigma> H) ?R" by (rule result_ok_mono) auto
        then show "result_ok ((case x of (newLeft, sepKey) \<Rightarrow> \<lambda>w. do {
             w \<leftarrow> node_unpin lh w;
             w \<leftarrow> free_page (tid a) w;
             (r, w) \<leftarrow> rebuildParentForBorrow env f (childIdx - 1) (Id w newLeft) sepKey (Id w ch) w;
             w \<leftarrow> node_unpin newLeft w;
             w \<leftarrow> node_unpin ch w;
             Some (case r of Inl e \<Rightarrow> Inl e | Inr dst \<Rightarrow> Inr (Some dst), w)
           }) w6) (failed env \<sigma> H) ?R" unfolding x using w8(1,2) q(3) tri by simp
      qed
      then show ?thesis using can True d5 by simp
    qed
  qed
  then show ?thesis unfolding borrow_left_def fd cid a_def [symmetric] bj [symmetric] i_def [symmetric] by simp
qed

lemma borrow_right_rule:
  assumes pl: "placed env \<sigma> (Suc (Suc n)) {#(ch, tid (kid cks' r' j), True)#} H B cks' r' w w4" and f: "(f, p, wr) \<in># H" "p \<in> B"
    and node: "inode (V w p) (child_refs cks) (tid r)" and re: "rebalancing d z lo hi j cks r cks' r'" and j: "unat childIdx = j" "j < length cks"
    and u: "entries (kid cks' r' j) < 4 \<or> used (kid cks' r' j) < 1024"
  shows "result_ok (borrow_right env f childIdx ch w4) (failed env \<sigma> H)
    (\<lambda>res w'. case res of Some dst \<Rightarrow> fixed env \<sigma> n H B d lo hi cks' r' w dst w'
      | None \<Rightarrow> undonated env \<sigma> (Suc (Suc n)) {#(ch, tid (kid cks' r' j), True)#} H B cks' r' (kid cks' r' (Suc j)) w w')"
proof -
  have len: "length cks' = length cks" using re by (simp add: rebalancing_def)
  have "length cks \<le> 340" using inode_length [OF node] by simp
  then have j1: "unat (childIdx + 1) = Suc j" using j by (simp add: u16_simps)
  have j': "j < length cks'" using j len by simp
  define a where "a = kid cks' r' j"
  define b where "b = kid cks' r' (Suc j)"
  define s where "s = snd (cks ! j)"
  obtain lo' hi' where pr: "near_level d a" "near_level d b" "ordered_cs lo' [(a, s)] b hi'" "small z a" "small z b" "length s = z" "z \<le> 498"
    "\<And>ns m cks2 r2 q. ordered_cs lo' ns m hi' \<Longrightarrow> same_contents a s b ns m \<Longrightarrow> group_level d ns m \<Longrightarrow> reseat j ns m cks' r' = (cks2, r2) \<Longrightarrow>
      mended d lo hi cks' r' (Node q cks2 r2)"
    using rebalancing_pair [OF re j(2) _ a_def b_def s_def] by blast
  let ?L = "B \<union> set (group_pages cks' r')" and ?hc = "{#(ch, tid a, True)#}"
  have pl': "placed env \<sigma> (Suc (Suc n)) ?hc H B cks' r' w w4" using pl a_def by simp
  have p: "group_at (V w4) cks' r'" "distinct (group_pages cks' r')" "set (group_pages cks' r') \<inter> B = {}" "same_pages B w w4"
    "txn_ok env \<sigma> (Suc (Suc n)) (add_mset (ch, tid a, True) H) ?L w4" using pl' by (simp_all add: placed_def)
  have kids: "tree_at (V w4) a" "tree_at (V w4) b" using kid_parts(2) [OF _ p(1)] j' a_def b_def by simp_all
  note pp = pair_pages [OF j' p(2) a_def b_def]
  have inL: "tid a \<in> ?L" "tid b \<in> ?L" using pp(2) tid_in_tpages [of a] tid_in_tpages [of b] by auto
  have bk: "b = kid cks r (Suc j)" using re j unfolding rebalancing_def b_def by auto
  have fd: "node_data w4 f = V w p" using handle_node(1) [OF txn_read [OF p(5)], of f p wr] f p(4) unfolding same_pages_def by simp
  have cid: "child (V w p) (childIdx + 1) = Some (tid b)" using inode_kid [OF node j1] j(2) bk by simp
  have key: "key (V w p) childIdx = Some s" using inode_cell(1) [OF node j(1)] j(2) s_def by simp
  let ?R = "\<lambda>res w'. case res of Some dst \<Rightarrow> fixed env \<sigma> n H B d lo hi cks' r' w dst w' | None \<Rightarrow> undonated env \<sigma> (Suc (Suc n)) ?hc H B cks' r' b w w'"
  have "result_ok (try_or (getNode env (tid b) w4) (node_unpin ch) (\<lambda>rightSibling w. do {
       can \<leftarrow> siblingCanDonate (node_data w rightSibling);
       if can then
         try_or (borrowFromRight env f childIdx rightSibling ch w)
           (\<lambda>w. do { w \<leftarrow> node_unpin rightSibling w; node_unpin ch w }) (\<lambda>(newRight, sepKey) w. do {
             w \<leftarrow> node_unpin rightSibling w;
             w \<leftarrow> free_page (tid b) w;
             (r, w) \<leftarrow> rebuildParentForBorrow env f childIdx (Id w ch) sepKey (Id w newRight) w;
             w \<leftarrow> node_unpin newRight w;
             w \<leftarrow> node_unpin ch w;
             Some (case r of Inl e \<Rightarrow> Inl e | Inr dst \<Rightarrow> Inr (Some dst), w)
           })
       else do {
         w \<leftarrow> node_unpin rightSibling w;
         Some (Inr None, w)
       }
     })) (failed env \<sigma> H) ?R"
  proof (rule try_or_rule [OF getNode_rule [OF p(5) inL(2)] failed_unpin], assumption)
    fix rh w5 assume a5: "txn_ok env \<sigma> (Suc (Suc n)) (add_mset (rh, tid b, False) (add_mset (ch, tid a, True) H)) ?L w5 \<and> same_pages ?L w4 w5"
    let ?H5 = "add_mset (rh, tid b, False) (add_mset (ch, tid a, True) H)"
    have ok5: "txn_ok env \<sigma> (Suc (Suc n)) ?H5 ?L w5" and s5: "same_pages ?L w4 w5" using a5 by blast+
    have at5: "node_at (V w5 (tid a)) a" "node_at (V w5 (tid b)) b" using kids s5 inL unfolding tree_parts(1) same_pages_def by auto
    have d5: "node_data w5 rh = V w5 (tid b)" using handle_node(1) [OF txn_read [OF ok5], of rh "tid b" False] by simp
    obtain can where can: "siblingCanDonate (V w5 (tid b)) = Some can" "can \<Longrightarrow> 4 < entries b" "\<not> can \<Longrightarrow> entries b \<le> 4 \<or> used b < 1608"
      using siblingCanDonate_node [OF at5(2) pr(5)] by blast
    show "result_ok (do {
       can \<leftarrow> siblingCanDonate (node_data w5 rh);
       if can then
         try_or (borrowFromRight env f childIdx rh ch w5)
           (\<lambda>w. do { w \<leftarrow> node_unpin rh w; node_unpin ch w }) (\<lambda>(newRight, sepKey) w. do {
             w \<leftarrow> node_unpin rh w;
             w \<leftarrow> free_page (tid b) w;
             (r, w) \<leftarrow> rebuildParentForBorrow env f childIdx (Id w ch) sepKey (Id w newRight) w;
             w \<leftarrow> node_unpin newRight w;
             w \<leftarrow> node_unpin ch w;
             Some (case r of Inl e \<Rightarrow> Inl e | Inr dst \<Rightarrow> Inr (Some dst), w)
           })
       else do {
         w \<leftarrow> node_unpin rh w5;
         Some (Inr None, w)
       }
     }) (failed env \<sigma> H) ?R"
    proof (cases can)
      case False
      have "placed env \<sigma> (Suc (Suc n)) (add_mset (rh, tid b, False) ?hc) H B cks' r' w w5"
        using pl' ok5 s5 group_at_same [of "V w4" cks' r' "V w5"] unfolding placed_def same_pages_def by simp
      then obtain w6 where "node_unpin rh w5 = Some w6" "placed env \<sigma> (Suc (Suc n)) ?hc H B cks' r' w w6"
        using placed_unpin [of env \<sigma> _ "add_mset (rh, tid b, False) ?hc" H B cks' r' w w5 rh "tid b" False ?hc H] by auto
      then show ?thesis using can False d5 by (simp add: result_ok_def undonated_def)
    next
      case True
      have key5: "key (V w5 p) childIdx = Some s" using key p(4) s5 f(2) unfolding same_pages_def by simp
      have hs5: "(f, p, wr) \<in># ?H5" "(rh, tid b, False) \<in># ?H5" "(ch, tid a, True) \<in># ?H5" using f by simp_all
      have bor: "result_ok (borrowFromRight env f childIdx rh ch w5) (failed env \<sigma> ?H5)
          (borrowed env \<sigma> (Suc n) ?H5 ?L (tid a) (\<lambda>q. fst (lend_right q a s b)) (\<lambda>q. snd (snd (lend_right q a s b))) (\<lambda>q. fst (snd (lend_right q a s b))) w5)"
        using u a_def can(2) True key5 by (intro borrowFromRight_rule [OF ok5 hs5 inL pp(3) at5 pr(1,2,4-7)]) auto
      have "result_ok (try_or (borrowFromRight env f childIdx rh ch w5)
           (\<lambda>w. do { w \<leftarrow> node_unpin rh w; node_unpin ch w }) (\<lambda>(newRight, sepKey) w. do {
             w \<leftarrow> node_unpin rh w;
             w \<leftarrow> free_page (tid b) w;
             (r, w) \<leftarrow> rebuildParentForBorrow env f childIdx (Id w ch) sepKey (Id w newRight) w;
             w \<leftarrow> node_unpin newRight w;
             w \<leftarrow> node_unpin ch w;
             Some (case r of Inl e \<Rightarrow> Inl e | Inr dst \<Rightarrow> Inr (Some dst), w)
           })) (failed env \<sigma> H) ?R"
      proof (rule try_or_rule [OF bor])
        show "\<exists>w'. do { w \<leftarrow> node_unpin rh v; node_unpin ch w } = Some w' \<and> failed env \<sigma> H w'" if "failed env \<sigma> ?H5 v" for v
          using unpin_failed_two [OF that] by (metis Option.bind.bind_lunit)
      next
        fix x w6 assume bo: "borrowed env \<sigma> (Suc n) ?H5 ?L (tid a) (\<lambda>q. fst (lend_right q a s b)) (\<lambda>q. snd (snd (lend_right q a s b))) (\<lambda>q. fst (snd (lend_right q a s b))) w5 x w6"
        obtain gs sk where x: "x = (gs, sk)" by (cases x)
        obtain q where q: "q \<notin> ?L" "q \<noteq> 0" "sk = fst (snd (lend_right q a s b))" "node_at (V w6 q) (snd (snd (lend_right q a s b)))" "node_at (V w6 (tid a)) (fst (lend_right q a s b))"
          "same_pages (?L - {tid a}) w5 w6" "txn_ok env \<sigma> (Suc n) (add_mset (gs, q, True) ?H5) (insert q ?L) w6"
          using bo x unfolding borrowed_def by auto
        obtain a' s' b' where tri: "lend_right q a s b = (a', s', b')" by (cases "lend_right q a s b")
        have lt: "lent d lo' hi' a s b (tid a) q (a', s', b')" using lend_right_ok [OF pr(1-3), of q] can(2) True tri by simp
        note lg = lent_group [OF lt]
        obtain cks2 r2 where rs: "reseat j [(a', s')] b' cks' r' = (cks2, r2)" by (cases "reseat j [(a', s')] b' cks' r'")
        have rs2: "reseat j [(a', s')] b' cks r = (cks2, r2)" using re rs j unfolding rebalancing_def by metis
        have sets: "{tid a, tid b} = {tid b, tid a}" "{tid a, q} = {q, tid a}" by auto
        obtain w7 w8 where w8: "node_unpin rh w6 = Some w7" "free_page (tid b) w7 = Some w8" "placed env \<sigma> (Suc n) {#(gs, q, True), (ch, tid a, True)#} H B cks2 r2 w w8"
          "Id w8 gs = q" "Id w8 ch = tid a"
          using borrow_finish [OF pl' j' a_def b_def s5 sets(1) q(1,2,6,7) lt sets(2) _ _ rs] q(4,5) tri by auto
        have m: "mended d lo hi cks' r' (Node y cks2 r2)" for y using pr(8) [OF lg(2,3,1) rs] .
        have ids: "Id w8 gs = tid b'" "Id w8 ch = tid a'" using w8(4,5) lg(4,5) by simp_all
        have s': "length s' = z" "\<forall>i < length cks. length (snd (cks ! i)) = z"
          using lent_sep [OF lt pr(4-6)] re unfolding rebalancing_def by blast+
        have "result_ok (do {
             (r, w) \<leftarrow> rebuildParentForBorrow env f childIdx (Id w8 ch) s' (Id w8 gs) w8;
             w \<leftarrow> node_unpin gs w;
             w \<leftarrow> node_unpin ch w;
             Some (case r of Inl e \<Rightarrow> Inl e | Inr dst \<Rightarrow> Inr (Some dst), w)
           }) (failed env \<sigma> H) (\<lambda>res w'. \<exists>dst. res = Some dst \<and> fixed env \<sigma> n H B d lo hi cks' r' w dst w')"
          unfolding ids by (rule close_borrow [OF w8(3) f node j rs2 s'(2,1) pr(7) m])
        then have "result_ok (do {
             (r, w) \<leftarrow> rebuildParentForBorrow env f childIdx (Id w8 ch) s' (Id w8 gs) w8;
             w \<leftarrow> node_unpin gs w;
             w \<leftarrow> node_unpin ch w;
             Some (case r of Inl e \<Rightarrow> Inl e | Inr dst \<Rightarrow> Inr (Some dst), w)
           }) (failed env \<sigma> H) ?R" by (rule result_ok_mono) auto
        then show "result_ok ((case x of (newRight, sepKey) \<Rightarrow> \<lambda>w. do {
             w \<leftarrow> node_unpin rh w;
             w \<leftarrow> free_page (tid b) w;
             (r, w) \<leftarrow> rebuildParentForBorrow env f childIdx (Id w ch) sepKey (Id w newRight) w;
             w \<leftarrow> node_unpin newRight w;
             w \<leftarrow> node_unpin ch w;
             Some (case r of Inl e \<Rightarrow> Inl e | Inr dst \<Rightarrow> Inr (Some dst), w)
           }) w6) (failed env \<sigma> H) ?R" unfolding x using w8(1,2) q(3) tri by simp
      qed
      then show ?thesis using can True d5 by simp
    qed
  qed
  then show ?thesis unfolding borrow_right_def fd cid a_def [symmetric] b_def [symmetric] by simp
qed

lemma borrowForUnderfullChild_rule:
  assumes pl: "placed env \<sigma> (Suc (Suc n)) {#(ch, tid (kid cks' r' j), True)#} H B cks' r' w w4" and f: "(f, p, wr) \<in># H" "p \<in> B"
    and node: "inode (V w p) (child_refs cks) (tid r)" and re: "rebalancing d z lo hi j cks r cks' r'" and j: "unat childIdx = j"
    and u: "entries (kid cks' r' j) < 4 \<or> used (kid cks' r' j) < 1024"
  shows "result_ok (borrowForUnderfullChild env f childIdx ch w4) (failed env \<sigma> H)
    (\<lambda>res w'. case res of Some dst \<Rightarrow> fixed env \<sigma> n H B d lo hi cks' r' w dst w'
      | None \<Rightarrow> placed env \<sigma> (Suc (Suc n)) {#(ch, tid (kid cks' r' j), True)#} H B cks' r' w w' \<and>
          (0 < j \<longrightarrow> entries (kid cks' r' (j - 1)) \<le> 4 \<or> used (kid cks' r' (j - 1)) < 1608) \<and>
          (j < length cks \<longrightarrow> entries (kid cks' r' (Suc j)) \<le> 4 \<or> used (kid cks' r' (Suc j)) < 1608))"
    (is "result_ok _ _ ?R")
proof -
  let ?hc = "{#(ch, tid (kid cks' r' j), True)#}"
  have left: "result_ok (if childIdx > 0 then borrow_left env f childIdx ch w4 else Some (Inr None, w4)) (failed env \<sigma> H)
      (\<lambda>res w'. case res of Some dst \<Rightarrow> fixed env \<sigma> n H B d lo hi cks' r' w dst w'
        | None \<Rightarrow> placed env \<sigma> (Suc (Suc n)) ?hc H B cks' r' w w' \<and> (0 < j \<longrightarrow> entries (kid cks' r' (j - 1)) \<le> 4 \<or> used (kid cks' r' (j - 1)) < 1608))"
  proof (cases "0 < j")
    case True
    then have "0 < childIdx" using j by (simp add: word_less_nat_alt)
    have "result_ok (borrow_left env f childIdx ch w4) (failed env \<sigma> H)
        (\<lambda>res w'. case res of Some dst \<Rightarrow> fixed env \<sigma> n H B d lo hi cks' r' w dst w'
          | None \<Rightarrow> placed env \<sigma> (Suc (Suc n)) ?hc H B cks' r' w w' \<and> (0 < j \<longrightarrow> entries (kid cks' r' (j - 1)) \<le> 4 \<or> used (kid cks' r' (j - 1)) < 1608))"
      by (rule result_ok_mono [OF borrow_left_rule [OF pl f node re j True u]]) (auto simp: undonated_def split: option.splits)
    then show ?thesis using \<open>0 < childIdx\<close> by simp
  next
    case False
    then have "\<not> 0 < childIdx" using j by (simp add: word_less_nat_alt)
    then show ?thesis using pl False by (simp add: result_ok_def)
  qed
  show ?thesis unfolding borrowForUnderfullChild_def
  proof (rule try_ok_rule [OF left])
    fix res w5 assume r: "case res of Some dst \<Rightarrow> fixed env \<sigma> n H B d lo hi cks' r' w dst w5
        | None \<Rightarrow> placed env \<sigma> (Suc (Suc n)) ?hc H B cks' r' w w5 \<and> (0 < j \<longrightarrow> entries (kid cks' r' (j - 1)) \<le> 4 \<or> used (kid cks' r' (j - 1)) < 1608)"
    show "result_ok (case res of
         Some dst \<Rightarrow> Some (Inr (Some dst), w5)
       | None \<Rightarrow> do {
           n \<leftarrow> nCells (node_data w5 f);
           if childIdx < n then borrow_right env f childIdx ch w5 else Some (Inr None, w5)
         }) (failed env \<sigma> H) ?R"
    proof (cases res)
      case (Some dst)
      then show ?thesis using r by (simp add: result_ok_def)
    next
      case None
      then have pl5: "placed env \<sigma> (Suc (Suc n)) ?hc H B cks' r' w w5" and l: "0 < j \<longrightarrow> entries (kid cks' r' (j - 1)) \<le> 4 \<or> used (kid cks' r' (j - 1)) < 1608"
        using r by simp_all
      have ok5: "txn_ok env \<sigma> (Suc (Suc n)) (?hc + H) (B \<union> set (group_pages cks' r')) w5" "same_pages B w w5" using pl5 by (simp_all add: placed_def)
      have fd: "node_data w5 f = V w p" using handle_node(1) [OF txn_read [OF ok5(1)], of f p wr] f ok5(2) unfolding same_pages_def by simp
      have nc: "nCells (V w p) = Some (of_nat (length cks))" using inode_reads(2) [OF node] by simp
      have lt: "childIdx < of_nat (length cks) \<longleftrightarrow> j < length cks" using j inode_length [OF node] by (simp add: u16_simps)
      show ?thesis
      proof (cases "j < length cks")
        case True
        have "result_ok (borrow_right env f childIdx ch w5) (failed env \<sigma> H) ?R"
          by (rule result_ok_mono [OF borrow_right_rule [OF pl5 f node re j True u]]) (use l in \<open>auto simp: undonated_def split: option.splits\<close>)
        then show ?thesis using None fd nc lt True by simp
      next
        case False
        then show ?thesis using None fd nc lt pl5 l by (simp add: result_ok_def)
      qed
    qed
  qed auto
qed

end
