(* ===== verification/NodeMerge.thy ===== *)
theory NodeMerge
  imports NodeBorrow
begin

text \<open>
  \<open>mergeUnderfullChild\<close> on a stored tree: the two neighbours are joined in a fresh page, both old pages
  are freed and the parent is rebuilt with one child less.
\<close>

section \<open>Merging\<close>

text \<open>The neighbours are joined in the new page \<open>q\<close>; their pages are unpinned and freed.\<close>

lemma merge_finish:
  assumes pl: "placed env \<sigma> m hs0 H B cks r w w4" and i: "i < length cks" and ab: "a = kid cks r i" "b = kid cks r (Suc i)"
    and same: "same_pages (B \<union> set (group_pages cks r)) w4 w6" and ids: "{tid a, tid b} = {ps, pc}" and q: "q \<notin> B \<union> set (group_pages cks r)" "q \<noteq> 0"
    and ok: "txn_ok env \<sigma> n (add_mset (gm, q, True) (add_mset (sh, ps, x) (add_mset (ch, pc, y) H))) (insert q (B \<union> set (group_pages cks r))) w6"
    and l: "near_level d a" "near_level d b" "ordered_cs lo [(a, s)] b hi" and at: "node_at (V w6 q) (join q a s b)"
    and rs: "reseat i [] (join q a s b) cks r = (cks2, r2)"
  obtains w7 w8 w9 w10 where "node_unpin sh w6 = Some w7" "free_page ps w7 = Some w8" "Id w8 ch = pc" "node_unpin ch w8 = Some w9" "free_page pc w9 = Some w10"
    "placed env \<sigma> n {#(gm, q, True)#} H B cks2 r2 w w10" "Id w10 gm = q"
proof -
  let ?L = "B \<union> set (group_pages cks r)" and ?m = "join q a s b"
  have p: "group_at (V w4) cks r" "distinct (group_pages cks r)" "set (group_pages cks r) \<inter> B = {}" using pl by (simp_all add: placed_def)
  note pp = pair_pages [OF i p(2) ab] and jo = join_ok [OF l, where q = q]
  have kids: "tree_at (V w4) a" "tree_at (V w4) b" using kid_parts(2) [OF _ p(1)] i ab by simp_all
  have psc: "ps \<noteq> pc" using ids pp(3) by auto
  have ps: "ps \<in> ?L" "ps \<noteq> 0" "pc \<in> ?L" "pc \<noteq> 0"
    using ids pp(2) kids tid_in_tpages [of a] tid_in_tpages [of b] tid_nonzero by (auto simp: doubleton_eq_iff)
  have "txn_ok env \<sigma> n (add_mset (sh, ps, x) (add_mset (ch, pc, y) (add_mset (gm, q, True) H))) (insert q ?L) w6" using ok by (simp add: add_mset_commute)
  then obtain w7 where w7: "node_unpin sh w6 = Some w7" "txn_ok env \<sigma> n (add_mset (ch, pc, y) (add_mset (gm, q, True) H)) (insert q ?L) w7"
    "same_pages (insert q ?L) w6 w7" by (rule unpin_rule)
  obtain w8 where w8: "free_page ps w7 = Some w8" "txn_ok env \<sigma> n (add_mset (ch, pc, y) (add_mset (gm, q, True) H)) (insert q ?L - {ps}) w8" "db w8 = db w7"
    using free_rule [OF w7(2) _ ps(2)] ps(1) by blast
  have idc: "Id w8 ch = pc" using handle_node(2) [OF txn_read [OF w8(2)], of ch pc y] by simp
  obtain w9 where w9: "node_unpin ch w8 = Some w9" "txn_ok env \<sigma> n (add_mset (gm, q, True) H) (insert q ?L - {ps}) w9" "same_pages (insert q ?L - {ps}) w8 w9"
    using w8(2) by (rule unpin_rule)
  obtain w10 where w10: "free_page pc w9 = Some w10" "txn_ok env \<sigma> n (add_mset (gm, q, True) H) (insert q ?L - {ps} - {pc}) w10" "db w10 = db w9"
    using free_rule [OF w9(2) _ ps(4)] ps(3) psc by blast
  have s: "V w10 u = V w6 u" if "u \<in> insert q ?L" "u \<noteq> ps" for u using w7(3) w8(3) w9(3) w10(3) that unfolding same_pages_def by auto
  have s4: "V w10 u = V w4 u" if "u \<in> ?L" "u \<noteq> ps" for u using s [of u] same that unfolding same_pages_def by auto
  have qps: "q \<noteq> ps" "q \<noteq> pc" using q(1) ps by auto
  have rest: "rest_at (V w10) ?m"
  proof -
    have "rest_at (V w4) a" "rest_at (V w4) b" using kids unfolding tree_parts(1) by blast+
    moreover have "V w10 u = V w4 u" if "u \<in> set (rpages a @ rpages b)" for u
      using pp(2,4,5) ids that unfolding tree_parts(2) by (intro s4) (auto simp: doubleton_eq_iff)
    ultimately have "rest_at (V w10) a" "rest_at (V w10) b" using rest_at_same [of "V w4" a "V w10"] rest_at_same [of "V w4" b "V w10"] by auto
    then show ?thesis using jo(6) by blast
  qed
  have "node_at (V w10 q) ?m" using at s [of q] qps by simp
  then have gat: "group_at (V w10) [] ?m" using rest q(2) jo(4) unfolding group_simps tree_parts(1) by simp
  have "placed env \<sigma> n {#(gm, q, True)#} H B cks2 r2 w w10"
  proof (rule reseat_placed [OF pl i rs ab, where D = "{ps, pc}"])
    show "{ps, pc} \<subseteq> {tid a, tid b}" using ids by simp
    have nin: "q \<notin> set (rpages a @ rpages b)" using q(1) pp(2) unfolding tree_parts(2) by auto
    have gp: "group_pages [] ?m = q # rpages a @ rpages b" unfolding group_simps tree_parts(2) jo(4,5) ..
    have "set (rpages a @ rpages b) = set (tpages a) \<union> set (tpages b) - {ps, pc}" using pp(3-5) unfolding ids [symmetric] tree_parts(2) by auto
    then show "set (group_pages [] ?m) = insert q (set (tpages a) \<union> set (tpages b) - {ps, pc})" unfolding gp by simp
    show "distinct (group_pages [] ?m)" unfolding gp using nin pp(6) by simp
    have "insert q ?L - {ps} - {pc} = insert q ?L - {ps, pc}" by auto
    then show "txn_ok env \<sigma> n ({#(gm, q, True)#} + H) (insert q ?L - {ps, pc}) w10" using w10(2) by simp
    show "same_pages (?L - set (tpages a) - set (tpages b)) w4 w10"
      using s4 ids tid_in_tpages [of a] tid_in_tpages [of b] unfolding same_pages_def by (metis DiffE doubleton_eq_iff)
  qed (rule q(1), rule gat)
  moreover have "Id w10 gm = q" using handle_node(2) [OF txn_read [OF w10(2)], of gm q True] by simp
  ultimately show thesis using that w7(1) w8(1) idc w9(1) w10(1) by blast
qed

lemma rebuildParentForMerge_rule:
  assumes pl: "placed env \<sigma> (Suc n) hs H B cks2 r2 w w1" and f: "(f, p, wr) \<in># H" "p \<in> B" and node: "inode (V w p) (child_refs cks) (tid r)"
    and i: "unat sepIdx = i" "i < length cks" and rs: "reseat i [] m cks r = (cks2, r2)"
  shows "result_ok (rebuildParentForMerge env f sepIdx (tid m) w1) (failed env \<sigma> (hs + H))
    (\<lambda>dst w'. \<exists>q. placed env \<sigma> n (add_mset (dst, q, True) hs) H B [] (Node q cks2 r2) w w')"
  unfolding rebuildParentForMerge_def
proof (rule parent_rule [OF pl f])
  fix d r0 assume fresh: "inode d [] r0"
  from rebuildParentForMerge_inode [OF node fresh i(1)] show "\<exists>d'. rebuildParentForMerge_fill d (V w p) sepIdx (tid m) = Some d' \<and> inode d' (child_refs cks2) (tid r2)"
    unfolding reseat_refs_merge [OF i(2) rs] using i(2) by simp
qed

lemma close_merge:
  assumes pl: "placed env \<sigma> (Suc n) {#(gm, q, True)#} H B cks2 r2 w w1" and f: "(f, p, wr) \<in># H" "p \<in> B"
    and node: "inode (V w p) (child_refs cks) (tid r)" and i: "unat sepIdx = i" "i < length cks" and rs: "reseat i [] m cks r = (cks2, r2)"
    and m: "\<And>q. mended d lo hi cks' r' (Node q cks2 r2)"
  shows "result_ok (do {
      (r, w) \<leftarrow> rebuildParentForMerge env f sepIdx (tid m) w1;
      w \<leftarrow> node_unpin gm w;
      Some (case r of Inl e \<Rightarrow> Inl e | Inr dst \<Rightarrow> Inr (Some dst, True), w)
    }) (failed env \<sigma> H) (\<lambda>res w'. \<exists>dst. res = (Some dst, True) \<and> fixed env \<sigma> n H B d lo hi cks' r' w dst w')"
  using rebuildParentForMerge_rule [OF pl f node i rs]
proof (cases rule: result_ok_cases)
  case (err e w2)
  have "failed env \<sigma> (add_mset (gm, q, True) H) w2" using err(2) by simp
  from failed_unpin [OF this] show ?thesis unfolding err(1) by (auto simp: result_ok_def)
next
  case (val dst w2)
  then obtain q' where q': "placed env \<sigma> n (add_mset (dst, q', True) {#(gm, q, True)#}) H B [] (Node q' cks2 r2) w w2" by blast
  obtain w3 where w3: "node_unpin gm w2 = Some w3" "placed env \<sigma> n {#(dst, q', True)#} H B [] (Node q' cks2 r2) w w3"
    using placed_unpin [OF q', of gm q True "{#(dst, q', True)#}" H] by (auto simp: add_mset_commute)
  have "placed env \<sigma> n {#(dst, tid (Node q' cks2 r2), True)#} H B [] (Node q' cks2 r2) w w3" using w3(2) by simp
  then have "fixed env \<sigma> n H B d lo hi cks' r' w dst w3" using m [of q'] unfolding fixed_def by blast
  then show ?thesis using w3(1) unfolding val(1) by (simp add: result_ok_def)
qed

lemma join_level:
  assumes "near_level d a" "near_level d b" "ordered_cs lo [(a, s)] b hi"
  shows "level d (join q a s b)"
proof (cases "d = 0")
  case True
  show ?thesis using assms(1,2) by (cases rule: same_kind) (use True assms(1) in simp_all)
next
  case False
  then show ?thesis using join_ok(1,8) [OF assms, where q = q] near_level_full by blast
qed

definition merged ::
    "env \<Rightarrow> backdrop \<Rightarrow> nat \<Rightarrow> handle multiset \<Rightarrow> PageId set \<Rightarrow> tree \<Rightarrow> bytes \<Rightarrow> tree \<Rightarrow> world \<Rightarrow> nat \<Rightarrow> world \<Rightarrow> bool" where
  "merged env \<sigma> n H L a s b w g w' \<longleftrightarrow> (\<exists>q. q \<notin> L \<and> q \<noteq> 0 \<and> node_at (V w' q) (join q a s b) \<and> same_pages L w w' \<and>
     txn_ok env \<sigma> n (add_mset (g, q, True) H) (insert q L) w')"

lemma merge_into_rule:
  assumes ok: "txn_ok env \<sigma> (Suc n) H L w" and ty: "ty = nodeLeaf \<or> ty = nodeInternal" and h: "(x, px, wx) \<in># H" "(y, py, wy) \<in># H" "px \<in> L" "py \<in> L"
    and F: "\<And>q d. node_cells d ty [] \<Longrightarrow> \<exists>d'. F d (V w px) (V w py) = Some d' \<and> node_at d' (join q a s b)"
  shows "result_ok (try_ok (if ty = nodeLeaf then allocLeaf env w else allocInternal env w) (\<lambda>g w. do {
       w \<leftarrow> modify g (\<lambda>d. F d (node_data w x) (node_data w y)) w;
       Some (Inr g, w)
     })) (failed env \<sigma> H) (merged env \<sigma> n H L a s b w)"
proof -
  have eq: "(if ty = nodeLeaf then allocLeaf env w else allocInternal env w) = alloc_node ty env w" using ty by (auto simp: allocLeaf_def allocInternal_def)
  show ?thesis unfolding eq
  proof (rule try_ok_rule [OF alloc_node_rule [OF ok ty]])
    fix g w1 assume "\<exists>q. q \<notin> L \<and> q \<noteq> 0 \<and> node_cells (V w1 q) ty [] \<and> txn_ok env \<sigma> n (add_mset (g, q, True) H) (insert q L) w1 \<and> same_pages L w w1"
    then obtain q where q: "q \<notin> L" "q \<noteq> 0" "node_cells (V w1 q) ty []" "txn_ok env \<sigma> n (add_mset (g, q, True) H) (insert q L) w1" "same_pages L w w1" by blast
    have hs: "(x, px, wx) \<in># add_mset (g, q, True) H" "(y, py, wy) \<in># add_mset (g, q, True) H" "(g, q, True) \<in># add_mset (g, q, True) H" using h by simp_all
    have nd: "node_data w1 x = V w px" "node_data w1 y = V w py"
      using handle_node(1) [OF txn_read [OF q(4)] hs(1)] handle_node(1) [OF txn_read [OF q(4)] hs(2)] q(5) h(3,4) unfolding same_pages_def by simp_all
    obtain d where d: "F (V w1 q) (V w px) (V w py) = Some d" "node_at d (join q a s b)" using F [OF q(3)] by blast
    have "length d = 4096" using d(2) lnode_reads(3) inode_reads(4) by (cases "join q a s b") auto
    then obtain w2 where w2: "modify g (\<lambda>d. F d (node_data w1 x) (node_data w1 y)) w1 = Some w2" "txn_ok env \<sigma> n (add_mset (g, q, True) H) (insert q L) w2" "V w2 q = d"
      "same_pages (insert q L - {q}) w1 w2"
      using modify_rule [where g = "\<lambda>d. F d (node_data w1 x) (node_data w1 y)", OF q(4) hs(3)] d(1) nd by auto
    have "insert q L - {q} = L" using q(1) by simp
    then have "same_pages L w w2" using w2(4) q(5) unfolding same_pages_def by simp
    then have "merged env \<sigma> n H L a s b w g w2" using q(1,2) w2(2,3) d(2) unfolding merged_def by blast
    then show "result_ok (do { w \<leftarrow> modify g (\<lambda>d. F d (node_data w1 x) (node_data w1 y)) w1; Some (Inr g, w) }) (failed env \<sigma> H) (merged env \<sigma> n H L a s b w)"
      using w2(1) by (simp add: result_ok_def)
  qed (auto intro: txn_ok_failed)
qed

text \<open>The cells of two neighbours, one underfull and one that cannot donate, fit in one page.\<close>

definition mergeable :: "nat \<Rightarrow> tree \<Rightarrow> tree \<Rightarrow> bool" where
  "mergeable z a b \<longleftrightarrow> (case (a, b) of (Leaf p es, Leaf q fs) \<Rightarrow> 5 + lcost (map item_entry es) + lcost (map item_entry fs) \<le> 4096
    | (Node p cks r, Node q dks s) \<Rightarrow> 13 + icost (child_refs cks) + (12 + z) + icost (child_refs dks) \<le> 4096 | _ \<Rightarrow> True)"

lemma mergeWithLeft_rule:
  assumes ok: "txn_ok env \<sigma> (Suc n) H L w" and h: "(lh, tid a, x) \<in># H" "(ch, tid b, y) \<in># H" "tid a \<in> L" "tid b \<in> L"
    and at: "node_at (V w (tid a)) a" "node_at (V w (tid b)) b" and l: "near_level d a" "near_level d b" and m: "mergeable z a b" "length s = z" "z \<le> 498"
  shows "result_ok (mergeWithLeft env lh s ch w) (failed env \<sigma> H) (merged env \<sigma> n H L a s b w)"
proof -
  have nd: "node_data w ch = V w (tid b)" using handle_node(1) [OF txn_read [OF ok] h(2)] .
  let ?ty = "case b of Leaf p es \<Rightarrow> nodeLeaf | Node p cks r \<Rightarrow> nodeInternal"
  have "\<exists>d'. mergeWithLeft_fill d0 (V w (tid a)) s (V w (tid b)) = Some d' \<and> node_at d' (join q a s b)" if c: "node_cells d0 ?ty []" for q d0
    using l
  proof (cases rule: same_kind)
    case (leaves pa ea pb eb)
    then show ?thesis using mergeWithLeft_lnode [OF lnode_init, of d0 "V w pa" "map item_entry ea" "V w pb" "map item_entry eb" s] c at m(1)
      by (simp add: mergeable_def)
  next
    case (nodes pa xa ra pb xb rb)
    obtain r0 where "inode d0 [] r0" using inode_init c nodes by auto
    then show ?thesis using mergeWithLeft_inode [of d0 r0 "V w pa" "child_refs xa" "tid ra" "V w pb" "child_refs xb" "tid rb" s] at m nodes
      by (simp add: mergeable_def maxKeySize_def)
  qed
  moreover have "?ty = nodeLeaf \<or> ?ty = nodeInternal" by (cases b) simp_all
  ultimately show ?thesis
    using merge_into_rule [where F = "\<lambda>d x y. mergeWithLeft_fill d x s y" and ty = ?ty, OF ok _ h] node_at_type [OF at(2)] nd by (simp add: mergeWithLeft_def)
qed

lemma mergeWithRight_rule:
  assumes ok: "txn_ok env \<sigma> (Suc n) H L w" and h: "(ch, tid a, y) \<in># H" "(rh, tid b, x) \<in># H" "tid a \<in> L" "tid b \<in> L"
    and at: "node_at (V w (tid a)) a" "node_at (V w (tid b)) b" and l: "near_level d a" "near_level d b" and m: "mergeable z a b" "length s = z" "z \<le> 498"
  shows "result_ok (mergeWithRight env ch rh s w) (failed env \<sigma> H) (merged env \<sigma> n H L a s b w)"
proof -
  have nd: "node_data w ch = V w (tid a)" using handle_node(1) [OF txn_read [OF ok] h(1)] .
  let ?ty = "case a of Leaf p es \<Rightarrow> nodeLeaf | Node p cks r \<Rightarrow> nodeInternal"
  have "\<exists>d'. mergeWithRight_fill d0 (V w (tid a)) (V w (tid b)) s = Some d' \<and> node_at d' (join q a s b)" if c: "node_cells d0 ?ty []" for q d0
    using l
  proof (cases rule: same_kind)
    case (leaves pa ea pb eb)
    then show ?thesis using mergeWithRight_lnode [OF lnode_init, of d0 "V w pa" "map item_entry ea" "V w pb" "map item_entry eb" s] c at m(1)
      by (simp add: mergeable_def)
  next
    case (nodes pa xa ra pb xb rb)
    obtain r0 where "inode d0 [] r0" using inode_init c nodes by auto
    then show ?thesis using mergeWithRight_inode [of d0 r0 "V w pa" "child_refs xa" "tid ra" "V w pb" "child_refs xb" "tid rb" s] at m nodes
      by (simp add: mergeable_def maxKeySize_def)
  qed
  moreover have "?ty = nodeLeaf \<or> ?ty = nodeInternal" by (cases a) simp_all
  ultimately show ?thesis
    using merge_into_rule [where F = "\<lambda>d x y. mergeWithRight_fill d x y s" and ty = ?ty, OF ok _ h] node_at_type [OF at(1)] nd by (simp add: mergeWithRight_def)
qed

text \<open>Both directions: the sibling in page \<open>ps\<close> and the child in page \<open>pc\<close> are joined by \<open>M\<close>.\<close>

lemma merge_pair_rule:
  assumes pl: "placed env \<sigma> (Suc (Suc n)) {#(ch, pc, True)#} H B cks' r' w w4" and f: "(f, p, wr) \<in># H" "p \<in> B"
    and node: "inode (V w p) (child_refs cks) (tid r)" and re: "rebalancing d z lo hi j cks r cks' r'" and i: "i < length cks" "i = j \<or> Suc i = j" "unat sepIdx = i"
    and ab: "a = kid cks' r' i" "b = kid cks' r' (Suc i)" "s = snd (cks ! i)" and ids: "{tid a, tid b} = {ps, pc}"
    and M: "\<And>sh w5. txn_ok env \<sigma> (Suc (Suc n)) (add_mset (sh, ps, False) (add_mset (ch, pc, True) H)) (B \<union> set (group_pages cks' r')) w5 \<Longrightarrow>
      node_at (V w5 (tid a)) a \<Longrightarrow> node_at (V w5 (tid b)) b \<Longrightarrow> near_level d a \<Longrightarrow> near_level d b \<Longrightarrow> small z a \<Longrightarrow> small z b \<Longrightarrow> length s = z \<Longrightarrow> z \<le> 498 \<Longrightarrow>
      tid a \<in> B \<union> set (group_pages cks' r') \<Longrightarrow> tid b \<in> B \<union> set (group_pages cks' r') \<Longrightarrow>
      result_ok (M sh s w5) (failed env \<sigma> (add_mset (sh, ps, False) (add_mset (ch, pc, True) H)))
        (merged env \<sigma> (Suc n) (add_mset (sh, ps, False) (add_mset (ch, pc, True) H)) (B \<union> set (group_pages cks' r')) a s b w5)"
  shows "result_ok (try_or (getNode env ps w4) (node_unpin ch) (\<lambda>sibling w. do {
       k \<leftarrow> key (node_data w f) sepIdx;
       try_or (M sibling k w)
         (\<lambda>w. do { w \<leftarrow> node_unpin sibling w; node_unpin ch w }) (\<lambda>merged w. do {
           w \<leftarrow> node_unpin sibling w;
           w \<leftarrow> free_page ps w;
           let newChildID = Id w ch;
           w \<leftarrow> node_unpin ch w;
           w \<leftarrow> free_page newChildID w;
           (r, w) \<leftarrow> rebuildParentForMerge env f sepIdx (Id w merged) w;
           w \<leftarrow> node_unpin merged w;
           Some (case r of Inl e \<Rightarrow> Inl e | Inr dst \<Rightarrow> Inr (Some dst, True), w)
         })
     })) (failed env \<sigma> H) (\<lambda>res w'. \<exists>dst. res = (Some dst, True) \<and> fixed env \<sigma> n H B d lo hi cks' r' w dst w')"
    (is "result_ok _ _ ?R")
proof -
  have len: "length cks' = length cks" "j \<le> length cks" using re by (simp_all add: rebalancing_def)
  have i': "i < length cks'" using i len by simp
  obtain lo' hi' where pr: "near_level d a" "near_level d b" "ordered_cs lo' [(a, s)] b hi'" "small z a" "small z b" "length s = z" "z \<le> 498"
    "\<And>ns m cks2 r2 q. ordered_cs lo' ns m hi' \<Longrightarrow> same_contents a s b ns m \<Longrightarrow> group_level d ns m \<Longrightarrow> reseat i ns m cks' r' = (cks2, r2) \<Longrightarrow>
      mended d lo hi cks' r' (Node q cks2 r2)"
    using rebalancing_pair [OF re i(1,2) ab] by blast
  let ?L = "B \<union> set (group_pages cks' r')"
  have p: "group_at (V w4) cks' r'" "distinct (group_pages cks' r')" "set (group_pages cks' r') \<inter> B = {}" "same_pages B w w4"
    "txn_ok env \<sigma> (Suc (Suc n)) (add_mset (ch, pc, True) H) ?L w4" using pl by (simp_all add: placed_def)
  have kids: "tree_at (V w4) a" "tree_at (V w4) b" using kid_parts(2) [OF _ p(1)] i' ab by simp_all
  note pp = pair_pages [OF i' p(2) ab(1,2)]
  have inL: "tid a \<in> ?L" "tid b \<in> ?L" using pp(2) tid_in_tpages [of a] tid_in_tpages [of b] by auto
  then have psL: "ps \<in> ?L" using ids by (auto simp: doubleton_eq_iff)
  have key: "key (V w p) sepIdx = Some s" using inode_cell(1) [OF node i(3)] i(1) ab(3) by simp
  show ?thesis
  proof (rule try_or_rule [OF getNode_rule [OF p(5) psL] failed_unpin], assumption)
    fix sh w5 assume a5: "txn_ok env \<sigma> (Suc (Suc n)) (add_mset (sh, ps, False) (add_mset (ch, pc, True) H)) ?L w5 \<and> same_pages ?L w4 w5"
    let ?H5 = "add_mset (sh, ps, False) (add_mset (ch, pc, True) H)"
    have ok5: "txn_ok env \<sigma> (Suc (Suc n)) ?H5 ?L w5" and s5: "same_pages ?L w4 w5" using a5 by blast+
    have at5: "node_at (V w5 (tid a)) a" "node_at (V w5 (tid b)) b" using kids s5 inL unfolding tree_parts(1) same_pages_def by auto
    have "node_data w5 f = V w p" using handle_node(1) [OF txn_read [OF ok5], of f p wr] f p(4) s5 unfolding same_pages_def by simp
    then have key5: "key (node_data w5 f) sepIdx = Some s" using key by simp
    have "result_ok (try_or (M sh s w5)
         (\<lambda>w. do { w \<leftarrow> node_unpin sh w; node_unpin ch w }) (\<lambda>merged w. do {
           w \<leftarrow> node_unpin sh w;
           w \<leftarrow> free_page ps w;
           let newChildID = Id w ch;
           w \<leftarrow> node_unpin ch w;
           w \<leftarrow> free_page newChildID w;
           (r, w) \<leftarrow> rebuildParentForMerge env f sepIdx (Id w merged) w;
           w \<leftarrow> node_unpin merged w;
           Some (case r of Inl e \<Rightarrow> Inl e | Inr dst \<Rightarrow> Inr (Some dst, True), w)
         })) (failed env \<sigma> H) ?R"
    proof (rule try_or_rule [OF M [OF ok5 at5 pr(1,2,4-7) inL]])
      show "\<exists>w'. do { w \<leftarrow> node_unpin sh v; node_unpin ch w } = Some w' \<and> failed env \<sigma> H w'" if "failed env \<sigma> ?H5 v" for v
        using unpin_failed_two [OF that] by (metis Option.bind.bind_lunit)
    next
      fix gm w6 assume "merged env \<sigma> (Suc n) ?H5 ?L a s b w5 gm w6"
      then obtain q where q: "q \<notin> ?L" "q \<noteq> 0" "node_at (V w6 q) (join q a s b)" "same_pages ?L w5 w6" "txn_ok env \<sigma> (Suc n) (add_mset (gm, q, True) ?H5) (insert q ?L) w6"
        unfolding merged_def by blast
      note jo = join_ok [OF pr(1-3), where q = q]
      obtain cks2 r2 where rs: "reseat i [] (join q a s b) cks' r' = (cks2, r2)" by (cases "reseat i [] (join q a s b) cks' r'")
      have rs2: "reseat i [] (join q a s b) cks r = (cks2, r2)" using re rs i unfolding rebalancing_def by metis
      obtain w7 w8 w9 w10 where w10: "node_unpin sh w6 = Some w7" "free_page ps w7 = Some w8" "Id w8 ch = pc" "node_unpin ch w8 = Some w9" "free_page pc w9 = Some w10"
        "placed env \<sigma> (Suc n) {#(gm, q, True)#} H B cks2 r2 w w10" "Id w10 gm = q"
        using merge_finish [OF pl i' ab(1,2) same_pages_trans [OF s5 q(4)] ids q(1,2,5) pr(1-3) q(3) rs] by blast
      have m: "mended d lo hi cks' r' (Node y cks2 r2)" for y
      proof (rule pr(8) [OF _ jo(3) _ rs])
        show "ordered_cs lo' [] (join q a s b) hi'" using jo(2) by simp
        show "group_level d [] (join q a s b)" using join_level [OF pr(1-3)] by (simp add: group_level_def)
      qed
      have idm: "Id w10 gm = tid (join q a s b)" using w10(7) jo(4) by simp
      from close_merge [OF w10(6) f node i(3,1) rs2 m] show "result_ok (do {
           w \<leftarrow> node_unpin sh w6;
           w \<leftarrow> free_page ps w;
           let newChildID = Id w ch;
           w \<leftarrow> node_unpin ch w;
           w \<leftarrow> free_page newChildID w;
           (r, w) \<leftarrow> rebuildParentForMerge env f sepIdx (Id w gm) w;
           w \<leftarrow> node_unpin gm w;
           Some (case r of Inl e \<Rightarrow> Inl e | Inr dst \<Rightarrow> Inr (Some dst, True), w)
         }) (failed env \<sigma> H) ?R" using w10(1-5) idm by simp
    qed
    then show "result_ok (do {
       k \<leftarrow> key (node_data w5 f) sepIdx;
       try_or (M sh k w5)
         (\<lambda>w. do { w \<leftarrow> node_unpin sh w; node_unpin ch w }) (\<lambda>merged w. do {
           w \<leftarrow> node_unpin sh w;
           w \<leftarrow> free_page ps w;
           let newChildID = Id w ch;
           w \<leftarrow> node_unpin ch w;
           w \<leftarrow> free_page newChildID w;
           (r, w) \<leftarrow> rebuildParentForMerge env f sepIdx (Id w merged) w;
           w \<leftarrow> node_unpin merged w;
           Some (case r of Inl e \<Rightarrow> Inl e | Inr dst \<Rightarrow> Inr (Some dst, True), w)
         })
     }) (failed env \<sigma> H) ?R" using key5 by simp
  qed
qed

lemma small_merge:
  assumes "node_at d t" "small z t" "entries t < 4 \<or> used t < 1024" and "node_at d' u" "small z u" "entries u \<le> 4 \<or> used u < 1608"
    and "near_level l t" "near_level l u"
  shows "mergeable z t u" "mergeable z u t"
proof -
  show m: "mergeable z t u" using merge_fits [OF assms] by (simp add: mergeable_def)
  show "mergeable z u t" using assms(7,8) by (cases rule: same_kind) (use m in \<open>auto simp: mergeable_def\<close>)
qed

lemma mergeUnderfullChildWithLeft_rule:
  assumes pl: "placed env \<sigma> (Suc (Suc n)) {#(ch, tid (kid cks' r' j), True)#} H B cks' r' w w4" and f: "(f, p, wr) \<in># H" "p \<in> B"
    and node: "inode (V w p) (child_refs cks) (tid r)" and re: "rebalancing d z lo hi j cks r cks' r'" and j: "unat childIdx = j" "0 < j"
    and u: "entries (kid cks' r' j) < 4 \<or> used (kid cks' r' j) < 1024" "entries (kid cks' r' (j - 1)) \<le> 4 \<or> used (kid cks' r' (j - 1)) < 1608"
  shows "result_ok (mergeUnderfullChildWithLeft env f childIdx ch w4) (failed env \<sigma> H)
    (\<lambda>res w'. \<exists>dst. res = (Some dst, True) \<and> fixed env \<sigma> n H B d lo hi cks' r' w dst w')"
proof -
  define i where "i = j - 1"
  have len: "length cks' = length cks" "j \<le> length cks" using re by (simp_all add: rebalancing_def)
  have i: "i < length cks" "i = j \<or> Suc i = j" "unat (childIdx - 1) = i" "Suc i = j" using len j by (simp_all add: i_def u16_simps)
  define a where "a = kid cks' r' i"
  define b where "b = kid cks' r' (Suc i)"
  have bj: "b = kid cks' r' j" "a = kid cks' r' (j - 1)" using i(4) b_def a_def i_def by simp_all
  have ak: "a = kid cks r i" using re i unfolding rebalancing_def a_def by auto
  have ok: "txn_ok env \<sigma> (Suc (Suc n)) ({#(ch, tid b, True)#} + H) (B \<union> set (group_pages cks' r')) w4" "same_pages B w w4" using pl bj by (simp_all add: placed_def)
  have fd: "node_data w4 f = V w p" using handle_node(1) [OF txn_read [OF ok(1)], of f p wr] f ok(2) unfolding same_pages_def by simp
  have cid: "child (V w p) (childIdx - 1) = Some (tid a)" using inode_kid [OF node i(3)] i(1) ak by simp
  have pl': "placed env \<sigma> (Suc (Suc n)) {#(ch, tid b, True)#} H B cks' r' w w4" using pl bj by simp
  from merge_pair_rule [where M = "\<lambda>sh k w. mergeWithLeft env sh k ch w", OF pl' f node re i(1-3) a_def b_def refl refl]
  show ?thesis unfolding mergeUnderfullChildWithLeft_def fd cid bind.bind_lunit
  proof this
    fix sh w5
    let ?H5 = "add_mset (sh, tid a, False) (add_mset (ch, tid b, True) H)" and ?L = "B \<union> set (group_pages cks' r')"
    assume ok5: "txn_ok env \<sigma> (Suc (Suc n)) ?H5 ?L w5" and at: "node_at (V w5 (tid a)) a" "node_at (V w5 (tid b)) b" and l: "near_level d a" "near_level d b"
      and sm: "small z a" "small z b" "length (snd (cks ! i)) = z" "z \<le> 498" and inL: "tid a \<in> ?L" "tid b \<in> ?L"
    have "mergeable z a b" using small_merge(2) [OF at(2) sm(2) _ at(1) sm(1) _ l(2,1)] u bj by simp
    moreover have "(sh, tid a, False) \<in># ?H5" "(ch, tid b, True) \<in># ?H5" by simp_all
    ultimately show "result_ok (mergeWithLeft env sh (snd (cks ! i)) ch w5) (failed env \<sigma> ?H5) (merged env \<sigma> (Suc n) ?H5 ?L a (snd (cks ! i)) b w5)"
      using mergeWithLeft_rule [OF ok5 _ _ inL at l _ sm(3,4)] by blast
  qed
qed

lemma mergeUnderfullChildWithRight_rule:
  assumes pl: "placed env \<sigma> (Suc (Suc n)) {#(ch, tid (kid cks' r' j), True)#} H B cks' r' w w4" and f: "(f, p, wr) \<in># H" "p \<in> B"
    and node: "inode (V w p) (child_refs cks) (tid r)" and re: "rebalancing d z lo hi j cks r cks' r'" and j: "unat childIdx = j" "j < length cks"
    and u: "entries (kid cks' r' j) < 4 \<or> used (kid cks' r' j) < 1024" "entries (kid cks' r' (Suc j)) \<le> 4 \<or> used (kid cks' r' (Suc j)) < 1608"
  shows "result_ok (mergeUnderfullChildWithRight env f childIdx ch w4) (failed env \<sigma> H)
    (\<lambda>res w'. \<exists>dst. res = (Some dst, True) \<and> fixed env \<sigma> n H B d lo hi cks' r' w dst w')"
proof -
  have "length cks \<le> 340" using inode_length [OF node] by simp
  then have j1: "unat (childIdx + 1) = Suc j" using j by (simp add: u16_simps)
  have jj: "j = j \<or> Suc j = j" by simp
  define a where "a = kid cks' r' j"
  define b where "b = kid cks' r' (Suc j)"
  have bk: "b = kid cks r (Suc j)" using re j unfolding rebalancing_def b_def by auto
  have ok: "txn_ok env \<sigma> (Suc (Suc n)) ({#(ch, tid a, True)#} + H) (B \<union> set (group_pages cks' r')) w4" "same_pages B w w4" using pl a_def by (simp_all add: placed_def)
  have fd: "node_data w4 f = V w p" using handle_node(1) [OF txn_read [OF ok(1)], of f p wr] f ok(2) unfolding same_pages_def by simp
  have cid: "child (V w p) (childIdx + 1) = Some (tid b)" using inode_kid [OF node j1] j(2) bk by simp
  have pl': "placed env \<sigma> (Suc (Suc n)) {#(ch, tid a, True)#} H B cks' r' w w4" using pl a_def by simp
  have ids: "{tid a, tid b} = {tid b, tid a}" by auto
  from merge_pair_rule [where M = "\<lambda>sh k w. mergeWithRight env ch sh k w", OF pl' f node re j(2) jj j(1) a_def b_def refl ids]
  show ?thesis unfolding mergeUnderfullChildWithRight_def fd cid bind.bind_lunit
  proof this
    fix sh w5
    let ?H5 = "add_mset (sh, tid b, False) (add_mset (ch, tid a, True) H)" and ?L = "B \<union> set (group_pages cks' r')"
    assume ok5: "txn_ok env \<sigma> (Suc (Suc n)) ?H5 ?L w5" and at: "node_at (V w5 (tid a)) a" "node_at (V w5 (tid b)) b" and l: "near_level d a" "near_level d b"
      and sm: "small z a" "small z b" "length (snd (cks ! j)) = z" "z \<le> 498" and inL: "tid a \<in> ?L" "tid b \<in> ?L"
    have "mergeable z a b" using small_merge(1) [OF at(1) sm(1) _ at(2) sm(2) _ l] u a_def b_def by simp
    moreover have "(sh, tid b, False) \<in># ?H5" "(ch, tid a, True) \<in># ?H5" by simp_all
    ultimately show "result_ok (mergeWithRight env ch sh (snd (cks ! j)) w5) (failed env \<sigma> ?H5) (merged env \<sigma> (Suc n) ?H5 ?L a (snd (cks ! j)) b w5)"
      using mergeWithRight_rule [OF ok5 _ _ inL at l _ sm(3,4)] by blast
  qed
qed

lemma mergeUnderfullChild_rule:
  assumes pl: "placed env \<sigma> (Suc (Suc n)) {#(ch, tid (kid cks' r' j), True)#} H B cks' r' w w4" and f: "(f, p, wr) \<in># H" "p \<in> B"
    and node: "inode (V w p) (child_refs cks) (tid r)" "cks \<noteq> []" and re: "rebalancing d z lo hi j cks r cks' r'" and j: "unat childIdx = j"
    and u: "entries (kid cks' r' j) < 4 \<or> used (kid cks' r' j) < 1024"
      "0 < j \<longrightarrow> entries (kid cks' r' (j - 1)) \<le> 4 \<or> used (kid cks' r' (j - 1)) < 1608" "j < length cks \<longrightarrow> entries (kid cks' r' (Suc j)) \<le> 4 \<or> used (kid cks' r' (Suc j)) < 1608"
  shows "result_ok (mergeUnderfullChild env f childIdx ch w4) (failed env \<sigma> H)
    (\<lambda>res w'. \<exists>dst. res = (Some dst, True) \<and> fixed env \<sigma> n H B d lo hi cks' r' w dst w')"
proof (cases "0 < j")
  case True
  then have "0 < childIdx" using j by (simp add: word_less_nat_alt)
  then show ?thesis using mergeUnderfullChildWithLeft_rule [OF pl f node(1) re j True u(1)] u(2) True by (simp add: mergeUnderfullChild_def)
next
  case False
  then have n: "\<not> 0 < childIdx" "j < length cks" using j node(2) by (simp_all add: word_less_nat_alt)
  have ok: "txn_ok env \<sigma> (Suc (Suc n)) ({#(ch, tid (kid cks' r' j), True)#} + H) (B \<union> set (group_pages cks' r')) w4" "same_pages B w w4"
    using pl by (simp_all add: placed_def)
  have fd: "node_data w4 f = V w p" using handle_node(1) [OF txn_read [OF ok(1)], of f p wr] f ok(2) unfolding same_pages_def by simp
  have nc: "nCells (V w p) = Some (of_nat (length cks))" using inode_reads(2) [OF node(1)] by simp
  have lt: "childIdx < of_nat (length cks)" using j n(2) inode_length [OF node(1)] by (simp add: u16_simps)
  show ?thesis using mergeUnderfullChildWithRight_rule [OF pl f node(1) re j n(2) u(1)] u(3) n fd nc lt by (simp add: mergeUnderfullChild_def)
qed

end
