(* ===== verification/NodeDelete.thy ===== *)
theory NodeDelete
  imports NodeMerge
begin

text \<open>
  \<open>deleteNode\<close> on a stored tree: the leaf is rebuilt without the key, and every node on the path is
  rebuilt in a fresh page, rebalanced when the child below it is underfull.
\<close>

section \<open>What a deletion leaves\<close>

definition shrunk :: "bytes option \<Rightarrow> bytes option \<Rightarrow> bytes \<Rightarrow> tree \<Rightarrow> tree \<Rightarrow> bool" where
  "shrunk lo hi k t t' \<longleftrightarrow> ordered lo t' hi \<and> map_of (kvs t') = (map_of (kvs t))(k := None) \<and> near_level (height t) t' \<and>
     set (seps t') \<subseteq> set (seps t) \<union> fst ` set (kvs t) \<and> set (kvs t') \<subseteq> set (kvs t)"

definition deleted ::
    "env \<Rightarrow> backdrop \<Rightarrow> nat \<Rightarrow> handle multiset \<Rightarrow> PageId set \<Rightarrow> bytes option \<Rightarrow> tree \<Rightarrow> bytes option \<Rightarrow> bytes \<Rightarrow> world \<Rightarrow> removed \<Rightarrow> world \<Rightarrow> bool" where
  "deleted env \<sigma> n H L lo t hi k w res w' \<longleftrightarrow>
     (if map_of (kvs t) k = None then res = (None, False) \<and> txn_ok env \<sigma> n H L w' \<and> same_pages L w w'
      else \<exists>g t'. res = (Some g, True) \<and> placed env \<sigma> n {#(g, tid t', True)#} H (base L t) [] t' w w' \<and> shrunk lo hi k t t')"

section \<open>Leaves\<close>

lemma others_map:
  assumes "sorted_wrt (<) (map fst es)"
  shows "map_of (map item_kv (others k es)) = (map_of (map item_kv es))(k := None)" "sorted_wrt (<) (map fst (others k es))" "set (others k es) \<subseteq> set es"
proof -
  have "k \<notin> fst ` set (others k es) \<and> (\<forall>j. j \<noteq> k \<longrightarrow> map_of (map item_kv (others k es)) j = map_of (map item_kv es) j) \<and>
    sorted_wrt (<) (map fst (others k es)) \<and> set (others k es) \<subseteq> set es"
  proof (cases "has_item k es")
    case False
    then show ?thesis using assms by (auto simp: others_absent has_item_def)
  next
    case True
    obtain v ps where e: "es ! item_at k es = (k, v, ps)" "item_at k es < length es" using others_present [OF assms True] by metis
    define xs where "xs = take (item_at k es) es"
    define ys where "ys = drop (Suc (item_at k es)) es"
    have es: "es = xs @ (k, v, ps) # ys" using id_take_nth_drop [OF e(2)] e(1) xs_def ys_def by simp
    have o: "others k es = xs @ ys" using True by (simp add: others_def xs_def ys_def)
    have "k \<notin> fst ` set (xs @ ys)" "sorted_wrt (<) (map fst (xs @ ys))" using assms unfolding es by (auto simp: sorted_wrt_append)
    moreover have "map_of (map item_kv (xs @ ys)) j = map_of (map item_kv es) j" if "j \<noteq> k" for j
      unfolding es using that by (auto simp: item_kv_def map_add_def split: option.splits)
    ultimately show ?thesis unfolding o using es by auto
  qed
  moreover have "map_of (map item_kv xs) k = None" if "k \<notin> fst ` set xs" for xs using that by (induction xs) (auto simp: item_kv_def)
  ultimately show "map_of (map item_kv (others k es)) = (map_of (map item_kv es))(k := None)" "sorted_wrt (<) (map fst (others k es))" "set (others k es) \<subseteq> set es"
    by auto
qed

lemma shrunk_leaf:
  assumes "ordered lo (Leaf p es) hi"
  shows "shrunk lo hi k (Leaf p es) (Leaf q (others k es))"
proof -
  have srt: "sorted_wrt (<) (map fst es)" using assms by simp
  note o = others_map [OF srt, of k]
  have "set (map item_kv (others k es)) \<subseteq> set (map item_kv es)" using o(3) by auto
  then show ?thesis using assms o by (auto simp: shrunk_def)
qed

lemma placed_others:
  assumes ready: "leaf_ready (V w) L p es k" and B: "B = L - set (ipages (others k es))"
    and ok: "txn_ok env \<sigma> n (add_mset (g, q, True) H) (insert q L) w'" and q: "q \<notin> L" "q \<noteq> 0" and same: "same_pages L w w'"
    and node: "lnode (V w' q) (map item_entry (others k es))"
  shows "placed env \<sigma> n {#(g, q, True)#} H B [] (Leaf q (others k es)) w w'"
proof -
  have r: "leaf_ready (V w') L p es k" using ready same by (rule leaf_ready_cong)
  have sub: "set (ipages (others k es)) \<subseteq> L" "distinct (ipages (others k es))" "\<forall>e \<in> set (others k es). item_ok (V w') e" using r by (simp_all add: leaf_ready_def)
  have "B \<union> insert q (set (ipages (others k es))) = insert q L" unfolding B using sub by blast
  moreover have "same_pages B w w'" using same_pages_mono [OF same] B by blast
  ultimately show ?thesis using ok q sub node unfolding placed_def group_simps ipages_simps B by auto
qed

lemma deleteFromLeaf_rule:
  assumes ok: "txn_ok env \<sigma> (Suc n) H L w" and f: "(f, p, wr) \<in># H" and st: "stored (V w) L (Leaf p es)" and ord: "ordered lo (Leaf p es) hi"
  shows "result_ok (deleteFromLeaf env f k w) (failed env \<sigma> H) (deleted env \<sigma> n H L lo (Leaf p es) hi k w)"
proof -
  have srt: "sorted_wrt (<) (map fst es)" and ln: "lnode (V w p) (map item_entry es)" and pn: "p \<in> L" using ord st by (simp_all add: stored_def)
  have d: "node_data w f = V w p" using handle_node(1) [OF txn_read [OF ok] f] .
  obtain idx where i: "searchLeaf (V w p) k = Some (idx, has_item k es)" "unat idx = item_at k es" using searchLeaf_items [OF ln srt] by metis
  show ?thesis
  proof (cases "has_item k es")
    case False
    have "0 \<in> L" using ok by (simp add: txn_ok_def lists_ok_def)
    then have "txn_ok env \<sigma> n H L w" using txn_ok_weaken [OF ok subset_refl] by simp
    then show ?thesis using False d i(1) has_item_map [of k es] by (simp add: deleteFromLeaf_def result_ok_def deleted_def)
  next
    case True
    obtain v0 ps where e: "es ! item_at k es = (k, v0, ps)" "item_at k es < length es" using srt True by (rule others_present) blast
    have "\<exists>v. es ! item_at k es = (k, v, ps)" using e(1) by blast
    note parts = leaf_parts [OF st srt, of k ps, unfolded if_P [OF True], OF this]
    have "(k, v0, ps) \<in> set es" using e by (metis nth_mem)
    then have eo: "item_ok (V w) (k, v0, ps)" using st unfolding stored_def tree_at.simps by blast
    have ov: "leafCellOverflowId (V w p) idx = Some (chain_head ps)" using lnode_cell(4) [OF ln i(2)] e by (simp add: item_entry_def)
    have "result_ok (try_ok (if chain_head ps \<noteq> 0 then freeOverflowPages env (chain_head ps) w else Some (Inr (), w)) (\<lambda>_ w.
       try_ok (allocLeaf env w) (\<lambda>g w. do {
         w \<leftarrow> modify g (\<lambda>d. copyWithoutCell d (node_data w f) idx) w;
         Some (Inr (Some g, True), w)
       }))) (failed env \<sigma> H) (deleted env \<sigma> n H L lo (Leaf p es) hi k w)"
    proof (rule try_ok_rule [OF freeOldValue_rule [OF ok eo parts(3,4)]])
      fix u w1 assume fr: "freeing env \<sigma> (Suc n) H (L - set ps) ps w w1"
      then have ok1: "txn_ok env \<sigma> (Suc n) H (L - set ps) w1" and same1: "same_pages (L - set ps) w w1" by (auto simp: freeing_def)
      show "result_ok (try_ok (allocLeaf env w1) (\<lambda>g w. do {
         w \<leftarrow> modify g (\<lambda>d. copyWithoutCell d (node_data w f) idx) w;
         Some (Inr (Some g, True), w)
       })) (failed env \<sigma> H) (deleted env \<sigma> n H L lo (Leaf p es) hi k w)"
      proof (rule try_ok_rule [OF allocLeaf_rule [OF ok1]])
        fix g w2 assume "\<exists>q. q \<notin> L - set ps \<and> q \<noteq> 0 \<and> lnode (V w2 q) [] \<and> txn_ok env \<sigma> n (add_mset (g, q, True) H) (insert q (L - set ps)) w2 \<and> same_pages (L - set ps) w1 w2"
        then obtain q where q: "q \<notin> L - set ps" "q \<noteq> 0" "lnode (V w2 q) []" and ok2: "txn_ok env \<sigma> n (add_mset (g, q, True) H) (insert q (L - set ps)) w2"
          and same2: "same_pages (L - set ps) w1 w2" by blast
        have hs: "(f, p, wr) \<in># add_mset (g, q, True) H" "(g, q, True) \<in># add_mset (g, q, True) H" using f by simp_all
        have d2: "node_data w2 f = V w p" using handle_node(1) [OF txn_read [OF ok2] hs(1)] same1 same2 pn parts(5) unfolding same_pages_def by simp
        obtain d' where d': "copyWithoutCell (V w2 q) (V w p) idx = Some d'" "lnode d' (map item_entry (others k es))"
          using copyWithoutCell_lnode [OF q(3) ln i(2)] e(2) True by (auto simp: others_def take_map drop_map)
        obtain w3 where w3: "modify g (\<lambda>d. copyWithoutCell d (node_data w2 f) idx) w2 = Some w3" "txn_ok env \<sigma> n (add_mset (g, q, True) H) (insert q (L - set ps)) w3"
          "V w3 q = d'" "same_pages (insert q (L - set ps) - {q}) w2 w3"
          using modify_rule [where g = "\<lambda>d. copyWithoutCell d (node_data w2 f) idx", OF ok2 hs(2)] d'(1) lnode_reads(3) [OF d'(2)] d2 by auto
        have "insert q (L - set ps) - {q} = L - set ps" using q(1) by simp
        then have "same_pages (L - set ps) w w3" using same1 same2 w3(4) unfolding same_pages_def by simp
        then have "placed env \<sigma> n {#(g, q, True)#} H (base L (Leaf p es)) [] (Leaf q (others k es)) w w3"
          using w3(3) d'(2) by (intro placed_others [OF parts(1) parts(2) [symmetric] w3(2) q(1,2)]) simp_all
        moreover have "map_of (kvs (Leaf p es)) k \<noteq> None" using True has_item_map [of k es] by simp
        ultimately have "deleted env \<sigma> n H L lo (Leaf p es) hi k w (Some g, True) w3"
          using shrunk_leaf [OF ord, of k q] unfolding deleted_def by (auto intro!: exI [of _ "Leaf q (others k es)"] simp del: kvs.simps)
        then show "result_ok (do {
           w \<leftarrow> modify g (\<lambda>d. copyWithoutCell d (node_data w2 f) idx) w2;
           Some (Inr (Some g, True), w)
         }) (failed env \<sigma> H) (deleted env \<sigma> n H L lo (Leaf p es) hi k w)" using w3(1) by (simp add: result_ok_def)
      qed (auto intro: txn_ok_failed)
    qed
    then show ?thesis using True d i(1) ov by (simp add: deleteFromLeaf_def)
  qed
qed

section \<open>Internal nodes\<close>

lemma txn_ok_less: "txn_ok env \<sigma> m H L w \<Longrightarrow> n \<le> m \<Longrightarrow> txn_ok env \<sigma> n H L w"
proof -
  assume a: "txn_ok env \<sigma> m H L w" "n \<le> m"
  then have "0 \<in> L" by (simp add: txn_ok_def lists_ok_def)
  then show ?thesis using txn_ok_weaken [OF a(1) subset_refl] a(2) by simp
qed

lemma graft_kvs_subset:
  "graft cks r k [] n = (cks', r') \<Longrightarrow> set (kvs n) \<subseteq> set (kvs (pick cks r k)) \<Longrightarrow> set (group_kvs cks' r') \<subseteq> set (group_kvs cks r)"
  by (induction cks arbitrary: cks' r') (auto simp: group_append split: prod.splits if_splits, blast+)

lemma pick_kvs: "set (kvs (pick cks r k)) \<subseteq> set (group_kvs cks r)"
  by (induction cks) (auto split: if_splits)

text \<open>The children with the smaller child in its place.\<close>

definition child_shrunk :: "bytes option \<Rightarrow> bytes option \<Rightarrow> bytes \<Rightarrow> (tree \<times> bytes) list \<Rightarrow> tree \<Rightarrow> (tree \<times> bytes) list \<Rightarrow> tree \<Rightarrow> bool" where
  "child_shrunk lo hi k cks r cks' r' \<longleftrightarrow> ordered_cs lo cks' r' hi \<and> map_of (group_kvs cks' r') = (map_of (group_kvs cks r))(k := None) \<and>
     set (group_seps cks' r') \<subseteq> set (group_seps cks r) \<union> fst ` set (group_kvs cks r) \<and> set (group_kvs cks' r') \<subseteq> set (group_kvs cks r)"

lemma child_shrunkI:
  assumes oc: "ordered_cs lo cks r hi" and g: "graft cks r k [] c' = (cks', r')" and sh: "shrunk lo' hi' k (pick cks r k) c'"
    and gr: "\<And>ns nn. ordered_cs lo' ns nn hi' \<Longrightarrow> (case graft cks r k ns nn of (cks', r') \<Rightarrow> ordered_cs lo cks' r' hi)"
  shows "child_shrunk lo hi k cks r cks' r'"
proof -
  have s: "ordered lo' c' hi'" "map_of (kvs c') = (map_of (kvs (pick cks r k)))(k := None)" "set (seps c') \<subseteq> set (seps (pick cks r k)) \<union> fst ` set (kvs (pick cks r k))"
    "set (kvs c') \<subseteq> set (kvs (pick cks r k))" using sh by (simp_all add: shrunk_def)
  have "ordered_cs lo cks' r' hi" using gr [of "[]" c'] s(1) g by simp
  moreover have "map_of (group_kvs [] c') = (map_of (kvs (pick cks r k)))(k := None)" using s(2) by simp
  from graft_map [OF oc this] have "map_of (group_kvs cks' r') = (map_of (group_kvs cks r))(k := None)" using g by simp
  moreover have "set (group_seps cks' r') \<subseteq> set (group_seps cks r) \<union> set (seps c')" using graft_seps [OF g] by simp
  then have "set (group_seps cks' r') \<subseteq> set (group_seps cks r) \<union> fst ` set (group_kvs cks r)"
    using s(3) pick_shape(2) [of cks r k] pick_kvs [of cks r k] by blast
  ultimately show ?thesis using graft_kvs_subset [OF g s(4)] unfolding child_shrunk_def by blast
qed

lemma shrunk_mended:
  assumes "child_shrunk lo hi k cks r cks' r'" "mended d lo hi cks' r' t'" "height (Node p cks r) = Suc d"
  shows "shrunk lo hi k (Node p cks r) t'"
proof -
  have m: "near_level (Suc d) t'" "ordered lo t' hi" "kvs t' = group_kvs cks' r'" "set (seps t') \<subseteq> set (group_seps cks' r') \<union> fst ` set (group_kvs cks' r')"
    using assms(2) by (simp_all add: mended_def)
  have c: "map_of (group_kvs cks' r') = (map_of (group_kvs cks r))(k := None)"
    "set (group_seps cks' r') \<subseteq> set (group_seps cks r) \<union> fst ` set (group_kvs cks r)" "set (group_kvs cks' r') \<subseteq> set (group_kvs cks r)"
    using assms(1) by (simp_all add: child_shrunk_def)
  have "set (seps t') \<subseteq> set (group_seps cks r) \<union> fst ` set (group_kvs cks r)" using m(4) c(2,3) by blast
  then show ?thesis using m(1-3) c assms(3) unfolding shrunk_def node_group node_shape by simp
qed

lemma shrunk_replaced:
  assumes "child_shrunk lo hi k cks r cks' r'" "group_level d cks' r'" "height (Node p cks r) = Suc d"
  shows "shrunk lo hi k (Node p cks r) (Node q cks' r')"
  using assms unfolding shrunk_def child_shrunk_def node_group node_shape by simp

lemma small_child:
  assumes "small z (Node p cks r)" "i \<le> length cks"
  shows "small z (kid cks r i)"
  using assms(1)
proof (rule small_mono)
  show "set (seps (kid cks r i)) \<subseteq> set (seps (Node p cks r)) \<union> fst ` set (kvs (Node p cks r))" unfolding node_shape using kid_parts(4) [OF assms(2)] by blast
  show "set (kvs (kid cks r i)) \<subseteq> set (kvs (Node p cks r))" unfolding node_group using kid_parts(5) [OF assms(2)] .
qed

lemma rebalancingI:
  assumes lv: "level (Suc d) (Node p cks r)" and sm: "small z (Node p cks r)" and g: "graft cks r k [] c' = (cks', r')" and j: "j = rank_le (map snd cks) k"
    and sh: "shrunk lo' hi' k (pick cks r k) c'" and cs: "child_shrunk lo hi k cks r cks' r'"
  shows "rebalancing d z lo hi j cks r cks' r'"
proof -
  note go = graft_one [OF g j]
  have l: "group_level d cks r" using lv unfolding node_shape by simp
  have h: "height (pick cks r k) = d" using level_height pick_shape(1) [OF l] by blast
  have sc: "small z (kid cks r i)" if "i \<le> length cks" for i using small_child [OF sm that] .
  have c': "near_level d c'" "small z c'"
    using sh h small_mono [OF sc [OF go(2)], of c'] unfolding shrunk_def go(6) by blast+
  have "\<forall>i < length cks. length (snd (cks ! i)) = z" "z \<le> 498" using small_node(1,3) [OF sm] by auto
  moreover have "small z (kid cks' r' i)" if "i \<le> length cks" for i using go(3,4) c'(2) sc that by (cases "i = j") simp_all
  moreover have "ordered_cs lo cks' r' hi" using cs by (simp add: child_shrunk_def)
  ultimately show ?thesis using go c'(1) l unfolding rebalancing_def by simp
qed

lemma underfull_child_rule:
  assumes st: "stored (V w) L (Node p cks r)" and sm: "small z (Node p cks r)" and lv: "level (Suc d) (Node p cks r)"
    and f: "(f, p, wr) \<in># H" and idx: "unat childIdx = rank_le (map snd cks) k" and g: "graft cks r k [] c' = (cks', r')"
    and re: "regrown env \<sigma> (Suc (Suc n)) (add_mset (h, tid c', True) H) L (pick cks r k) [] c' w w1"
    and sh: "shrunk lo' hi' k (pick cks r k) c'" and cs: "child_shrunk lo hi k cks r cks' r'"
  shows "result_ok (do {
       under \<leftarrow> underfull (node_data w1 h);
       if \<not> under then replaceChildAfterDelete env f childIdx h w1
       else try_ok (borrowForUnderfullChild env f childIdx h w1) (\<lambda>dst w.
         case dst of
           Some g \<Rightarrow> Some (Inr (Some g, True), w)
         | None \<Rightarrow> mergeUnderfullChild env f childIdx h w)
     }) (failed env \<sigma> H) (\<lambda>res w'. \<exists>g t'. res = (Some g, True) \<and> placed env \<sigma> n {#(g, tid t', True)#} H (base L (Node p cks r)) [] t' w w' \<and> shrunk lo hi k (Node p cks r) t')"
    (is "result_ok _ _ ?R")
proof -
  define j where "j = rank_le (map snd cks) k"
  note go = graft_one [OF g j_def] and s = stored_node [OF st]
  have ht: "height (Node p cks r) = Suc d" using level_height [OF lv] .
  have rb: "rebalancing d z lo hi j cks r cks' r'" by (rule rebalancingI [OF lv sm g j_def sh cs])
  have pl: "placed env \<sigma> (Suc (Suc n)) {#(h, tid c', True)#} H (base L (Node p cks r)) cks' r' w w1"
    using re by (intro regrown_placed [OF st refl g]) simp
  have ok1: "txn_ok env \<sigma> (Suc (Suc n)) (add_mset (h, tid c', True) H) (base L (Node p cks r) \<union> set (group_pages cks' r')) w1"
    and at: "group_at (V w1) cks' r'" using pl by (simp_all add: placed_def)
  have nd: "node_data w1 h = V w1 (tid c')" using handle_node(1) [OF txn_read [OF ok1], of h "tid c'" True] by simp
  have "tree_at (V w1) c'" using kid_parts(2) [of j cks' "V w1" r'] at go(1-3) by simp
  then have un: "underfull (V w1 (tid c')) = Some (entries c' < 4 \<or> used c' < 1024)" using underfull_node unfolding tree_parts(1) by blast
  have pB: "p \<in> base L (Node p cks r)" by (simp add: base_def)
  have fx: "?R (Some dst, True) w'" if "fixed env \<sigma> n H (base L (Node p cks r)) d lo hi cks' r' w dst w'" for dst w'
    using that shrunk_mended [OF cs _ ht] unfolding fixed_def by blast
  show ?thesis
  proof (cases "entries c' < 4 \<or> used c' < 1024")
    case False
    have nl: "near_level d (kid cks' r' j)" using rb by (simp add: rebalancing_def)
    then have "level d c'" using near_level_full [of d c'] False go(3) by simp
    then have gl: "group_level d cks' r'" using graft_level(1) [OF _ _ g] lv unfolding node_shape by simp
    have "txn_ok env \<sigma> (Suc n) (add_mset (h, tid c', True) H) (L - set (tpages (pick cks r k)) \<union> set (group_pages [] c')) w1"
      using txn_ok_less [of env \<sigma> "Suc (Suc n)" _ _ w1 "Suc n"] re by (simp add: regrown_def)
    then have re1: "regrown env \<sigma> (Suc n) (add_mset (h, tid c', True) H) L (pick cks r k) [] c' w w1" using re by (simp add: regrown_def)
    have "result_ok (replaceChildAfterDelete env f childIdx h w1) (failed env \<sigma> H) ?R"
      unfolding replaceChildAfterDelete_def
    proof (rule result_ok_mono [OF replace_child_rule [where K = "\<lambda>g. (Some g, True)", OF st refl g re1 f idx]])
      fix x w' assume "\<exists>g q. x = (Some g, True) \<and> placed env \<sigma> n {#(g, q, True)#} H (base L (Node p cks r)) [] (Node q cks' r') w w'"
      then obtain g q where "x = (Some g, True)" "placed env \<sigma> n {#(g, tid (Node q cks' r'), True)#} H (base L (Node p cks r)) [] (Node q cks' r') w w'" by auto
      then show "?R x w'" using shrunk_replaced [OF cs gl ht, of q] by blast
    qed
    then show ?thesis using nd un False by simp
  next
    case True
    have pl': "placed env \<sigma> (Suc (Suc n)) {#(h, tid (kid cks' r' j), True)#} H (base L (Node p cks r)) cks' r' w w1" using pl go(3) by simp
    have jx: "unat childIdx = j" using idx j_def by simp
    have u: "entries (kid cks' r' j) < 4 \<or> used (kid cks' r' j) < 1024" using True go(3) by simp
    have ne: "cks \<noteq> []" using lv unfolding node_shape by simp
    have "result_ok (try_ok (borrowForUnderfullChild env f childIdx h w1) (\<lambda>dst w.
         case dst of
           Some g \<Rightarrow> Some (Inr (Some g, True), w)
         | None \<Rightarrow> mergeUnderfullChild env f childIdx h w)) (failed env \<sigma> H) ?R"
    proof (rule try_ok_rule [OF borrowForUnderfullChild_rule [OF pl' f pB s(7) rb jx u]])
      fix dst w2
      assume a: "case dst of Some dst \<Rightarrow> fixed env \<sigma> n H (base L (Node p cks r)) d lo hi cks' r' w dst w2
        | None \<Rightarrow> placed env \<sigma> (Suc (Suc n)) {#(h, tid (kid cks' r' j), True)#} H (base L (Node p cks r)) cks' r' w w2 \<and>
            (0 < j \<longrightarrow> entries (kid cks' r' (j - 1)) \<le> 4 \<or> used (kid cks' r' (j - 1)) < 1608) \<and>
            (j < length cks \<longrightarrow> entries (kid cks' r' (Suc j)) \<le> 4 \<or> used (kid cks' r' (Suc j)) < 1608)"
      show "result_ok (case dst of Some g \<Rightarrow> Some (Inr (Some g, True), w2) | None \<Rightarrow> mergeUnderfullChild env f childIdx h w2) (failed env \<sigma> H) ?R"
      proof (cases dst)
        case (Some g)
        then show ?thesis using a fx [of g w2] by (simp add: result_ok_def)
      next
        case None
        then have m: "placed env \<sigma> (Suc (Suc n)) {#(h, tid (kid cks' r' j), True)#} H (base L (Node p cks r)) cks' r' w w2"
          "0 < j \<longrightarrow> entries (kid cks' r' (j - 1)) \<le> 4 \<or> used (kid cks' r' (j - 1)) < 1608"
          "j < length cks \<longrightarrow> entries (kid cks' r' (Suc j)) \<le> 4 \<or> used (kid cks' r' (Suc j)) < 1608" using a by simp_all
        have "result_ok (mergeUnderfullChild env f childIdx h w2) (failed env \<sigma> H) ?R"
          by (rule result_ok_mono [OF mergeUnderfullChild_rule [OF m(1) f pB s(7) ne rb jx u m(2,3)]]) (use fx in blast)+
        then show ?thesis using None by simp
      qed
    qed auto
    then show ?thesis using nd un True by simp
  qed
qed

lemma child_deleted_rule:
  assumes st: "stored (V w) L (Node p cks r)" and sm: "small z (Node p cks r)" and ord: "ordered_cs lo cks r hi"
    and f: "(f, p, wr) \<in># H" and idx: "unat childIdx = rank_le (map snd cks) k" and c: "c = pick cks r k"
    and u: "deleted env \<sigma> (Suc (Suc n)) (add_mset (ch, tid c, False) H) L lo' c hi' k w1 res w2" and same: "same_pages L w w1"
    and gr: "\<And>ns nn. ordered_cs lo' ns nn hi' \<Longrightarrow> (case graft cks r k ns nn of (cks', r') \<Rightarrow> ordered_cs lo cks' r' hi)"
  shows "result_ok ((case res of (res, found) \<Rightarrow> \<lambda>w. do {
       w \<leftarrow> node_unpin ch w;
       if \<not> found then Some (Inr (None, False), w)
       else do {
         w \<leftarrow> free_page (tid c) w;
         newChild \<leftarrow> res;
         under \<leftarrow> underfull (node_data w newChild);
         if \<not> under then replaceChildAfterDelete env f childIdx newChild w
         else try_ok (borrowForUnderfullChild env f childIdx newChild w) (\<lambda>dst w.
           case dst of
             Some g \<Rightarrow> Some (Inr (Some g, True), w)
           | None \<Rightarrow> mergeUnderfullChild env f childIdx newChild w)
       }
     }) w2) (failed env \<sigma> H) (deleted env \<sigma> n H L lo (Node p cks r) hi k w)"
proof -
  have lookup: "map_of (kvs (Node p cks r)) k = map_of (kvs c) k" using pick_lookup [OF ord, of p k] c by simp
  show ?thesis
  proof (cases "map_of (kvs c) k = None")
    case True
    then have r: "res = (None, False)" "txn_ok env \<sigma> (Suc (Suc n)) (add_mset (ch, tid c, False) H) L w2" "same_pages L w1 w2" using u by (simp_all add: deleted_def)
    obtain w3 where w3: "node_unpin ch w2 = Some w3" "txn_ok env \<sigma> (Suc (Suc n)) H L w3" "same_pages L w2 w3" using r(2) by (rule unpin_rule)
    have "txn_ok env \<sigma> n H L w3" using txn_ok_less [OF w3(2)] by simp
    moreover have "same_pages L w w3" using same r(3) w3(3) unfolding same_pages_def by simp
    ultimately have "deleted env \<sigma> n H L lo (Node p cks r) hi k w (None, False) w3" using lookup True by (simp add: deleted_def)
    then show ?thesis using r(1) w3(1) by (simp add: result_ok_def)
  next
    case False
    then obtain h c' where r: "res = (Some h, True)" "placed env \<sigma> (Suc (Suc n)) {#(h, tid c', True)#} (add_mset (ch, tid c, False) H) (base L c) [] c' w1 w2"
      and sh: "shrunk lo' hi' k c c'" using u unfolding deleted_def by auto
    have nz: "tid c \<noteq> 0" using stored_node(8) [OF st, of k] tid_nonzero unfolding stored_def c by blast
    have sc: "same_pages (L - set (tpages c)) w w1" using same_pages_mono [OF same] by blast
    obtain w3 w4 where w4: "node_unpin ch w2 = Some w3" "free_page (tid c) w3 = Some w4" "regrown env \<sigma> (Suc (Suc n)) ({#(h, tid c', True)#} + H) L c [] c' w1 w4"
      using r(2) nz by (rule child_freed)
    have re: "regrown env \<sigma> (Suc (Suc n)) (add_mset (h, tid c', True) H) L (pick cks r k) [] c' w w4" using regrown_from [OF sc w4(3)] c by simp
    obtain cks' r' where g: "graft cks r k [] c' = (cks', r')" by (cases "graft cks r k [] c'")
    have cs: "child_shrunk lo hi k cks r cks' r'" using child_shrunkI [OF ord g _ gr] sh c by blast
    have "level (height (Node p cks r)) (Node p cks r)" "0 < height (Node p cks r)" using st by (simp_all add: stored_def del: level.simps)
    then have lv: "level (Suc (height (Node p cks r) - 1)) (Node p cks r)" by (simp del: level.simps height.simps)
    have "\<exists>g t'. res = (Some g, True) \<and> placed env \<sigma> n {#(g, tid t', True)#} H (base L (Node p cks r)) [] t' w w' \<and> shrunk lo hi k (Node p cks r) t' \<Longrightarrow>
        deleted env \<sigma> n H L lo (Node p cks r) hi k w res w'" for res w' unfolding deleted_def lookup if_not_P [OF False] .
    with result_ok_mono [OF underfull_child_rule [OF st sm lv f idx g re sh [unfolded c] cs], of "failed env \<sigma> H" "deleted env \<sigma> n H L lo (Node p cks r) hi k w"]
    show ?thesis using w4(1,2) r(1) by simp
  qed
qed

lemma deleteNode_rule:
  "height t < d \<Longrightarrow> txn_ok env \<sigma> (n + 2 * Suc (height t)) H L w \<Longrightarrow> (f, tid t, wr) \<in># H \<Longrightarrow> stored (V w) L t \<Longrightarrow>
   small z t \<Longrightarrow> ordered lo t hi \<Longrightarrow> above lo k \<Longrightarrow> below k hi \<Longrightarrow>
   result_ok (deleteNode d env f k w) (failed env \<sigma> H) (deleted env \<sigma> n H L lo t hi k w)"
proof (induction d arbitrary: t n H w f wr lo hi)
  case (Suc d)
  have nd: "node_data w f = V w (tid t)" using handle_node(1) [OF txn_read [OF Suc.prems(2)] Suc.prems(3)] .
  show ?case
  proof (cases t)
    case (Leaf p es)
    have "lnode (V w p) (map item_entry es)" using Suc.prems(4) Leaf by (simp add: stored_def)
    then have eq: "deleteNode (Suc d) env f k w = deleteFromLeaf env f k w" using nd Leaf lnode_reads(1) by simp
    have "txn_ok env \<sigma> (Suc n) H L w" using txn_ok_less [OF Suc.prems(2)] by simp
    then show ?thesis unfolding eq Leaf using Suc.prems(3,4,6) Leaf by (intro deleteFromLeaf_rule) simp_all
  next
    case (Node p cks r)
    let ?c = "pick cks r k"
    have st: "stored (V w) L (Node p cks r)" and sm: "small z (Node p cks r)" and oc: "ordered_cs lo cks r hi" and f: "(f, p, wr) \<in># H"
      using Suc.prems(3-6) Node by simp_all
    note s = stored_node [OF st]
    obtain idx where i: "searchInternal (V w p) k = Some idx" "child (V w p) idx = Some (tid ?c)" "unat idx = rank_le (map snd cks) k"
      using searchInternal_pick [OF s(7) oc, of k] by blast
    obtain lo' hi' where b: "ordered lo' ?c hi'" "above lo' k" "below k hi'"
      "\<And>ns nn. ordered_cs lo' ns nn hi' \<Longrightarrow> (case graft cks r k ns nn of (cks', r') \<Rightarrow> ordered_cs lo cks' r' hi)"
      using graft_ordered [OF oc Suc.prems(7,8)] by blast
    have hc: "height ?c < height t" using height_pick [of cks r k p] Node by simp
    have stc: "stored (V w) L ?c" by (rule s(8))
    have cL: "tid ?c \<in> L" using stc tid_in_tpages [of ?c] unfolding stored_def by blast
    have smc: "small z ?c" using small_child [OF sm rank_le_length] by (simp add: pick_alt kid_def Let_def)
    have "result_ok (try_ok (getNode env (tid ?c) w) (\<lambda>childNode w.
       try_or (deleteNode d env childNode k w) (node_unpin childNode) (\<lambda>(res, found) w. do {
       w \<leftarrow> node_unpin childNode w;
       if \<not> found then Some (Inr (None, False), w)
       else do {
         w \<leftarrow> free_page (tid ?c) w;
         newChild \<leftarrow> res;
         under \<leftarrow> underfull (node_data w newChild);
         if \<not> under then replaceChildAfterDelete env f idx newChild w
         else try_ok (borrowForUnderfullChild env f idx newChild w) (\<lambda>dst w.
           case dst of
             Some g \<Rightarrow> Some (Inr (Some g, True), w)
           | None \<Rightarrow> mergeUnderfullChild env f idx newChild w)
       }
       }))) (failed env \<sigma> H) (deleted env \<sigma> n H L lo t hi k w)"
    proof (rule try_ok_rule [OF getNode_rule [OF Suc.prems(2) cL]])
      fix ch w1 assume a: "txn_ok env \<sigma> (n + 2 * Suc (height t)) (add_mset (ch, tid ?c, False) H) L w1 \<and> same_pages L w w1"
      have ok1: "txn_ok env \<sigma> (Suc (Suc n) + 2 * Suc (height ?c)) (add_mset (ch, tid ?c, False) H) L w1"
        using txn_ok_less [OF conjunct1 [OF a]] hc by simp
      have same: "same_pages L w w1" using a by simp
      have r: "result_ok (deleteNode d env ch k w1) (failed env \<sigma> (add_mset (ch, tid ?c, False) H))
          (deleted env \<sigma> (Suc (Suc n)) (add_mset (ch, tid ?c, False) H) L lo' ?c hi' k w1)"
        using hc Suc.prems(1) by (intro Suc.IH [OF _ ok1 _ stored_same [OF stc same] smc b(1-3)]) auto
      show "result_ok (try_or (deleteNode d env ch k w1) (node_unpin ch) (\<lambda>(res, found) w. do {
         w \<leftarrow> node_unpin ch w;
         if \<not> found then Some (Inr (None, False), w)
         else do {
           w \<leftarrow> free_page (tid ?c) w;
           newChild \<leftarrow> res;
           under \<leftarrow> underfull (node_data w newChild);
           if \<not> under then replaceChildAfterDelete env f idx newChild w
           else try_ok (borrowForUnderfullChild env f idx newChild w) (\<lambda>dst w.
             case dst of
               Some g \<Rightarrow> Some (Inr (Some g, True), w)
             | None \<Rightarrow> mergeUnderfullChild env f idx newChild w)
         }
         })) (failed env \<sigma> H) (deleted env \<sigma> n H L lo t hi k w)"
        unfolding Node by (rule try_or_rule [OF r failed_unpin child_deleted_rule [OF st sm oc f i(3) refl _ same b(4)]])
    qed auto
    moreover have "ntype (V w p) = Some nodeInternal" using inode_reads(1) [OF s(7)] .
    ultimately show ?thesis using nd i(1,2) Node by (simp add: nodeLeaf_def nodeInternal_def)
  qed
qed simp

end
