(* ===== verification/MapDelete.thy ===== *)
theory MapDelete
  imports NodeDelete
begin

text \<open>
  \<open>DeleteKey\<close> on a whole tree: a tree for \<open>m\<close> becomes one for \<open>m(k := None)\<close>, and a root without cells
  is dropped, so that the tree loses a level.
\<close>

section \<open>The root\<close>

lemma ordered_sorted:
  "ordered lo t hi \<Longrightarrow> sorted_wrt (<) (map fst (kvs t))"
  "ordered_cs lo cks r hi \<Longrightarrow> sorted_wrt (<) (map fst (kvs (Node p cks r)))"
proof (induction lo t hi and lo cks r hi arbitrary: and p rule: ordered_ordered_cs.induct)
  case (1 lo p es hi)
  then show ?case by (simp add: item_kv_def comp_def)
next
  case (4 lo c k cks r hi)
  have o: "ordered lo c (Some k)" "ordered_cs (Some k) cks r hi" using 4 by simp_all
  have "fst x < fst y" if "x \<in> set (kvs c)" "y \<in> set (kvs (Node p cks r))" for x y
  proof -
    have "fst x < k" using ordered_keys(1) [OF o(1) that(1)] by (simp add: below_def)
    also have "k \<le> fst y" using ordered_keys(2) [OF o(2) that(2)] by (simp add: above_def)
    finally show ?thesis .
  qed
  moreover have "kvs (Node p ((c, k) # cks) r) = kvs c @ kvs (Node p cks r)" by simp
  ultimately show ?case using "4.IH" o by (auto simp: sorted_wrt_append simp del: kvs.simps(2))
qed simp_all

lemma ordered_map: "ordered lo t hi \<Longrightarrow> (k, v) \<in> set (kvs t) \<Longrightarrow> map_of (kvs t) k = Some v"
  using ordered_sorted(1) [of lo t hi] by (auto intro: map_of_is_SomeI simp: strict_sorted_iff)

text \<open>All keys and separators have length \<open>z\<close>; a value is either short or kept on overflow pages.\<close>

definition uniform :: "nat \<Rightarrow> (bytes \<rightharpoonup> bytes) \<Rightarrow> bool" where
  "uniform z m \<longleftrightarrow> z \<le> 498 \<and> (\<forall>v \<in> ran m. 5 + z + length v \<le> maxInlineSize \<longrightarrow> 5 + z + length v \<le> 582)"

lemma uniform_small:
  assumes "tree_map h {k. length k = z} t m" "uniform z m"
  shows "small z t"
proof -
  have t: "ordered None t None" "map_of (kvs t) = m" "set (seps t) \<union> dom m \<subseteq> {k. length k = z}" using assms(1) by (simp_all add: tree_map_def)
  have m: "m k = Some v" if "(k, v) \<in> set (kvs t)" for k v using ordered_map [OF t(1) that] t(2) by simp
  then have "length k = z" "v \<in> ran m" if "(k, v) \<in> set (kvs t)" for k v using that t(3) by (force simp: ran_def)+
  then show ?thesis using assms(2) t(3) unfolding small_def uniform_def by (auto 0 3)
qed

definition delete_kept ::
    "env \<Rightarrow> backdrop \<Rightarrow> nat \<Rightarrow> handle multiset \<Rightarrow> PageId set \<Rightarrow> nat \<Rightarrow> bytes set \<Rightarrow> (bytes \<rightharpoonup> bytes) \<Rightarrow> bytes \<Rightarrow> world \<Rightarrow> PageId \<times> bool \<times> BTree \<Rightarrow> world \<Rightarrow> bool" where
  "delete_kept env \<sigma> n H F h K m k w x w' \<longleftrightarrow>
     (case x of (pid, found, b) \<Rightarrow> pid = root b \<and> (found \<longleftrightarrow> m k \<noteq> None) \<and> map_kept env \<sigma> n H F h K (m(k := None)) w b w')"

definition delete_result :: "nat option \<Rightarrow> BTree \<Rightarrow> world \<Rightarrow> (PageId \<times> bool \<times> BTree, world) outcome" where
  "delete_result res t w = do {
     w \<leftarrow> free_page (root t) w;
     newRoot \<leftarrow> res;
     ty \<leftarrow> ntype (node_data w newRoot);
     n \<leftarrow> nCells (node_data w newRoot);
     if ty = nodeLeaf \<and> n = 0 then do {
       let newID = Id w newRoot;
       w \<leftarrow> node_unpin newRoot w;
       w \<leftarrow> free_page newID w;
       Some (Inr (0, True, t\<lparr>root := 0\<rparr>), w)
     } else if ty = nodeInternal \<and> n = 0 then do {
       newRootID \<leftarrow> rightmostChild (node_data w newRoot);
       let oldID = Id w newRoot;
       w \<leftarrow> node_unpin newRoot w;
       w \<leftarrow> free_page oldID w;
       Some (Inr (newRootID, True, t\<lparr>root := newRootID\<rparr>), w)
     } else do {
       let newID = Id w newRoot;
       w \<leftarrow> node_unpin newRoot w;
       Some (Inr (newID, True, t\<lparr>root := newID\<rparr>), w)
     }
   }"

lemma unpin_free:
  assumes re: "regrown env \<sigma> n (add_mset (g, tid t', True) H) L t [] t' w w'"
  obtains w1 w2 where "node_unpin g w' = Some w1" "free_page (tid t') w1 = Some w2" "rest_at (V w2) t'" "distinct (rpages t')"
    "set (rpages t') \<inter> (L - set (tpages t)) = {}" "txn_ok env \<sigma> n H (L - set (tpages t) \<union> set (rpages t')) w2" "same_pages (L - set (tpages t)) w w2"
proof -
  let ?F = "L - set (tpages t)"
  note r = regrownD [OF re refl, unfolded group_simps]
  obtain w1 where w1: "node_unpin g w' = Some w1" "txn_ok env \<sigma> n H (?F \<union> set (tpages t')) w1" "same_pages (?F \<union> set (tpages t')) w' w1" using r(4) by (rule unpin_rule)
  have nz: "tid t' \<noteq> 0" using r(1) tid_nonzero by blast
  have inn: "tid t' \<in> ?F \<union> set (tpages t')" using tid_in_tpages by simp
  obtain w2 where w2: "free_page (tid t') w1 = Some w2" "txn_ok env \<sigma> n H (?F \<union> set (tpages t') - {tid t'}) w2" "db w2 = db w1"
    using free_rule [OF w1(2) inn nz] by blast
  have d: "distinct (rpages t')" "tid t' \<notin> set (rpages t')" "set (rpages t') \<inter> ?F = {}" "tid t' \<notin> ?F" using r(2,3) unfolding tree_parts(2) by auto
  then have eq: "?F \<union> set (tpages t') - {tid t'} = ?F \<union> set (rpages t')" unfolding tree_parts(2) by auto
  have same: "V w2 q = V w' q" if "q \<in> ?F \<union> set (tpages t')" for q using w1(3) w2(3) that unfolding same_pages_def by simp
  have "rest_at (V w') t'" using r(1) unfolding tree_parts(1) by blast
  then have "rest_at (V w2) t'" by (rule rest_at_same) (use same in \<open>simp add: tree_parts(2)\<close>)
  moreover have "same_pages ?F w w2" using r(5) same unfolding same_pages_def by simp
  ultimately show thesis using that [OF w1(1) w2(1)] d w2(2) unfolding eq by blast
qed

lemma delete_result_rule:
  assumes re: "regrown env \<sigma> n (add_mset (g, tid t', True) H) L t [] t' w w1" and sh: "shrunk None None k t t'" and tm: "tree_map h K t m" and k: "m k \<noteq> None"
    and w1: "free_page (tid t) w0 = Some w1" and b: "root b = tid t"
  shows "result_ok (delete_result (Some g) b w0) E (delete_kept env \<sigma> n H (L - set (tpages t)) h K m k w)"
proof -
  let ?F = "L - set (tpages t)" and ?m = "m(k := None)"
  note r = regrownD [OF re refl, unfolded group_simps]
  have s: "ordered None t' None" "map_of (kvs t') = ?m" "near_level (height t) t'" "set (seps t') \<subseteq> set (seps t) \<union> fst ` set (kvs t)" "height t < h"
    "set (seps t) \<union> dom m \<subseteq> K" "fst ` set (kvs t) = dom m" using sh tm dom_map_of_conv_image_fst [of "kvs t"] by (simp_all add: shrunk_def tree_map_def)
  have "set (seps t') \<subseteq> K" "dom ?m \<subseteq> dom m" using s(4,6) unfolding s(7) by (blast, auto)
  then have K: "set (seps t') \<union> dom ?m \<subseteq> K" using s(6) by blast
  have nd: "node_data w1 g = V w1 (tid t')" and idg: "Id w1 g = tid t'" using handle_node(1,2) [OF txn_read [OF r(4)], of g "tid t'" True] by simp_all
  have at: "node_at (V w1 (tid t')) t'" using r(1) unfolding tree_parts(1) by blast
  have keep: "delete_kept env \<sigma> n H ?F h K m k w (pid, True, b') w'" if "root_kept env \<sigma> n H ?F h K ?m w (pid, b') w'" for pid b' w'
    using that k by (simp add: delete_kept_def root_kept_def)
  show ?thesis
  proof (cases "entries t' = 0")
    case False
    have "level (height t) t'" using near_level_full [OF s(3)] False by simp
    then have "tree_map h K t' ?m" using s(1,2,5) K level_height [of "height t" t'] by (simp add: tree_map_def)
    from root_one_rule [OF re this, of b E] have "result_ok (do { let newID = Id w1 g; w \<leftarrow> node_unpin g w1; Some (Inr (newID, True, b\<lparr>root := newID\<rparr>), w) })
      E (delete_kept env \<sigma> n H ?F h K m k w)" using keep by (auto simp: result_ok_def Let_def split: bind_splits)
    moreover obtain ty n where "ntype (V w1 (tid t')) = Some ty" "nCells (V w1 (tid t')) = Some n" "n \<noteq> 0"
    proof (cases t')
      case (Leaf p es)
      have l: "lnode (V w1 (tid t')) (map item_entry es)" using at Leaf by simp
      then have "unat (of_nat (length es) :: u16) = length es" using lnode_length [OF l] by (simp add: u16_simps)
      then have "(of_nat (length es) :: u16) \<noteq> 0" using False Leaf by auto
      then show thesis using that lnode_reads(1,2) [OF l] by simp
    next
      case (Node p cks r)
      have l: "inode (V w1 (tid t')) (child_refs cks) (tid r)" using at Node by simp
      then have "unat (of_nat (length cks) :: u16) = length cks" using inode_length [OF l] by (simp add: u16_simps)
      then have "(of_nat (length cks) :: u16) \<noteq> 0" using False Node by auto
      then show thesis using that inode_reads(1,2) [OF l] by simp
    qed
    ultimately show ?thesis using w1 b nd by (simp add: delete_result_def)
  next
    case True
    obtain w2 w3 where w3: "node_unpin g w1 = Some w2" "free_page (tid t') w2 = Some w3" "rest_at (V w3) t'" "distinct (rpages t')" "set (rpages t') \<inter> ?F = {}"
      "txn_ok env \<sigma> n H (?F \<union> set (rpages t')) w3" "same_pages ?F w w3" using re by (rule unpin_free)
    show ?thesis
    proof (cases t')
      case (Leaf p es)
      then have es: "es = []" using True by simp
      then have "?m = Map.empty" using s(2) Leaf by simp
      then have "map_kept env \<sigma> n H ?F h K ?m w (b\<lparr>root := 0\<rparr>) w3"
        using w3(6,7) Leaf es unfolding map_kept_def map_at_def by (intro exI [of _ "{}"]) simp
      then have "delete_kept env \<sigma> n H ?F h K m k w (0, True, b\<lparr>root := 0\<rparr>) w3" using k by (simp add: delete_kept_def)
      moreover have "ntype (V w1 p) = Some nodeLeaf" "nCells (V w1 p) = Some 0" using at Leaf es lnode_reads(1,2) [of "V w1 p" "[]"] by simp_all
      ultimately show ?thesis using w1 b nd idg w3(1,2) Leaf by (simp add: delete_result_def result_ok_def)
    next
      case (Node p cks r')
      then have cks: "cks = []" using True by simp
      have lv: "level (height t - 1) r'" "0 < height t" using s(3) Node cks by simp_all
      have "tree_map h K r' ?m"
      proof -
        have "level (height r') r'" "height r' < h" using lv level_height [OF lv(1)] s(5) by simp_all
        then show ?thesis using s(1,2) K Node cks unfolding tree_map_def by (simp del: level.simps)
      qed
      then have "root_kept env \<sigma> n H ?F h K ?m w (tid r', b\<lparr>root := tid r'\<rparr>) w3"
        using w3(3-7) Node cks by (intro root_keptI [of _ r']) simp_all
      moreover have "ntype (V w1 p) = Some nodeInternal" "nCells (V w1 p) = Some 0" "rightmostChild (V w1 p) = Some (tid r')"
        using at Node cks inode_reads(1-3) [of "V w1 p" "[]" "tid r'"] by simp_all
      ultimately show ?thesis using keep w1 b nd idg w3(1,2) Node by (simp add: delete_result_def result_ok_def nodeLeaf_def nodeInternal_def)
    qed
  qed
qed

lemma DeleteKey_rule:
  assumes ok: "txn_ok env \<sigma> (n + 2 * h) H L w" and m: "map_at (V w) P h {k. length k = z} b m" "P \<subseteq> L" "h \<le> fuel env" and u: "uniform z m"
  shows "result_ok (DeleteKey env b k w) (failed env \<sigma> H) (delete_kept env \<sigma> n H (L - P) h {k. length k = z} m k w)"
proof (cases "root b = 0")
  case True
  then have P: "P = {}" "m = Map.empty" using m(1) by (simp_all add: map_at_def)
  have "txn_ok env \<sigma> n H L w" using txn_ok_less [OF ok] by simp
  then show ?thesis using True P by (auto simp: DeleteKey_def result_ok_def delete_kept_def map_kept_def map_at_def)
next
  case False
  let ?K = "{k. length k = z}"
  obtain t where t: "tid t = root b" "stored (V w) P t" "P = set (tpages t)" "tree_map h ?K t m" using m(1) False by (rule map_at_tree)
  have tm: "ordered None t None" "map_of (kvs t) = m" "height t < h" using t(4) by (simp_all add: tree_map_def)
  have st: "stored (V w) L t" using t(2) m(2) by (auto simp: stored_def)
  have rL: "root b \<in> L" using t(1,3) m(2) tid_in_tpages [of t] by auto
  have ok1: "txn_ok env \<sigma> (n + 2 * Suc (height t)) H L w" using txn_ok_less [OF ok] tm(3) by simp
  have nz: "tid t \<noteq> 0" using False t(1) by simp
  have "result_ok (try_ok (getNode env (root b) w) (\<lambda>rootNode w.
      try_or (deleteNode (fuel env) env rootNode k w) (node_unpin rootNode) (\<lambda>(res, found) w. do {
        w \<leftarrow> node_unpin rootNode w;
        if \<not> found then Some (Inr (root b, False, b), w) else delete_result res b w
      }))) (failed env \<sigma> H) (delete_kept env \<sigma> n H (L - P) h ?K m k w)"
  proof (rule try_ok_rule [OF getNode_rule [OF ok1 rL]])
    fix rf w1 assume a: "txn_ok env \<sigma> (n + 2 * Suc (height t)) (add_mset (rf, root b, False) H) L w1 \<and> same_pages L w w1"
    then have same: "same_pages L w w1" by blast
    let ?H = "add_mset (rf, tid t, False) H"
    have del: "result_ok (deleteNode (fuel env) env rf k w1) (failed env \<sigma> ?H) (deleted env \<sigma> n ?H L None t None k w1)"
      using a t(1) tm(3) m(3) by (intro deleteNode_rule [OF _ _ _ stored_same [OF st same] uniform_small [OF t(4) u] tm(1)]) (auto simp: above_def below_def)
    show "result_ok (try_or (deleteNode (fuel env) env rf k w1) (node_unpin rf) (\<lambda>(res, found) w. do {
        w \<leftarrow> node_unpin rf w;
        if \<not> found then Some (Inr (root b, False, b), w) else delete_result res b w
      })) (failed env \<sigma> H) (delete_kept env \<sigma> n H (L - P) h ?K m k w)"
    proof (rule try_or_rule [OF del failed_unpin])
      fix res w2 assume d: "deleted env \<sigma> n ?H L None t None k w1 res w2"
      have sF: "same_pages (L - set (tpages t)) w w1" using same unfolding same_pages_def by simp
      have "result_ok (do {
          w \<leftarrow> node_unpin rf w2;
          if \<not> snd res then Some (Inr (root b, False, b), w) else delete_result (fst res) b w
        }) (failed env \<sigma> H) (delete_kept env \<sigma> n H (L - set (tpages t)) h ?K m k w)"
      proof (cases "m k = None")
        case True
        then have r: "res = (None, False)" "txn_ok env \<sigma> n ?H L w2" "same_pages L w1 w2" using d tm(2) by (simp_all add: deleted_def)
        obtain w3 where w3: "node_unpin rf w2 = Some w3" "txn_ok env \<sigma> n H L w3" "same_pages L w2 w3" using r(2) by (rule unpin_rule)
        have s3: "V w3 q = V w q" if "q \<in> L" for q using same r(3) w3(3) that unfolding same_pages_def by simp
        have "map_at (V w3) P h ?K b m" using m(1) by (rule map_at_same) (use s3 m(2) in blast)
        moreover have "L - set (tpages t) \<union> P = L" "P \<inter> (L - set (tpages t)) = {}" using t(3) m(2) by auto
        moreover have "same_pages (L - set (tpages t)) w w3" using s3 unfolding same_pages_def by simp
        moreover have "m(k := None) = m" using True by auto
        ultimately have "delete_kept env \<sigma> n H (L - set (tpages t)) h ?K m k w (root b, False, b) w3"
          using w3(2) True unfolding delete_kept_def map_kept_def by auto
        then show ?thesis using r(1) w3(1) by (simp add: result_ok_def)
      next
        case False
        obtain g t' where r: "res = (Some g, True)" "placed env \<sigma> n {#(g, tid t', True)#} ?H (base L t) [] t' w1 w2" "shrunk None None k t t'"
          using d unfolding deleted_def tm(2) if_not_P [OF False] by blast
        obtain w3 w4 where w4: "node_unpin rf w2 = Some w3" "free_page (tid t) w3 = Some w4" "regrown env \<sigma> n ({#(g, tid t', True)#} + H) L t [] t' w1 w4"
          using r(2) nz by (rule child_freed)
        have re: "regrown env \<sigma> n (add_mset (g, tid t', True) H) L t [] t' w w4" using regrown_from [OF sF w4(3)] by simp
        from delete_result_rule [OF re r(3) t(4) False w4(2) t(1) [symmetric]] show ?thesis using r(1) w4(1) by simp
      qed
      then show "result_ok ((case res of (res, found) \<Rightarrow> \<lambda>w. do {
          w \<leftarrow> node_unpin rf w;
          if \<not> found then Some (Inr (root b, False, b), w) else delete_result res b w
        }) w2) (failed env \<sigma> H) (delete_kept env \<sigma> n H (L - P) h ?K m k w)" using t(3) by (simp add: case_prod_beta)
    qed
  qed auto
  then show ?thesis using False unfolding DeleteKey_def delete_result_def by simp
qed

end
