(* ===== verification/FreeTree.thy ===== *)
theory FreeTree
  imports MapDelete
begin

text \<open>
  Freeing a whole tree, \<open>FreeAll\<close> of \<^verbatim>\<open>src/btree.go\<close>: every page of the tree, its overflow pages
  included, leaves the live pages, each exactly once, and the other live pages keep their contents.
\<close>

lemma freeing_trans:
  assumes "freeing env \<sigma> n H L ps w w1" "freeing env \<sigma> n H' L' qs w1 w2" "L' \<subseteq> L" "mset rs = mset ps + mset qs"
  shows "freeing env \<sigma> n H' L' rs w w2"
  using assms same_pages_trans [OF same_pages_mono [of L w w1 L']] unfolding freeing_def by (simp add: ac_simps)

lemma freeing_from: "same_pages L w w1 \<Longrightarrow> free_lists w1 = free_lists w \<Longrightarrow> freeing env \<sigma> n H L' ps w1 w2 \<Longrightarrow> L' \<subseteq> L \<Longrightarrow> freeing env \<sigma> n H L' ps w w2"
  using same_pages_trans [OF same_pages_mono [of L w w1 L']] unfolding freeing_def by simp

section \<open>The overflow pages of a leaf\<close>

lemma free_cells_overflow_rule:
  assumes "txn_ok env \<sigma> n H L w" "(f, p, wr) \<in># H" "p \<in> L - set (ipages (drop (unat i) es))" "lnode (V w p) (map item_entry es)"
    "\<forall>e \<in> set (drop (unat i) es). item_ok (V w) e" "distinct (ipages (drop (unat i) es))" "set (ipages (drop (unat i) es)) \<subseteq> L" "unat i + cnt = length es"
  shows "result_ok (free_cells_overflow env f i cnt w) (failed env \<sigma> H) (\<lambda>_ w'. freeing env \<sigma> n H (L - set (ipages (drop (unat i) es))) (ipages (drop (unat i) es)) w w')"
  using assms
proof (induction cnt arbitrary: i w L)
  case 0
  then show ?case by (simp add: result_ok_def freeing_def)
next
  case (Suc cnt)
  let ?es = "drop (unat (i + 1)) es"
  have le: "length es \<le> 2045" using lnode_length [OF Suc.prems(4)] by simp
  have i: "unat i < length es" "unat (i + 1) = Suc (unat i)" using Suc.prems(8) le by (simp_all add: unat_arith_simps unat_of_nat)
  obtain k v ps where e: "es ! unat i = (k, v, ps)" by (cases "es ! unat i") auto
  have dr: "drop (unat i) es = (k, v, ps) # ?es" using Cons_nth_drop_Suc [OF i(1)] e i(2) by simp
  note pr = Suc.prems(3,5-7) [unfolded dr, simplified]
  have d: "node_data w f = V w p" using handle_node(1) [OF txn_read [OF Suc.prems(1)] Suc.prems(2)] .
  have ov: "leafCellOverflowId (node_data w f) i = Some (chain_head ps)"
    using lnode_cell(4) [OF Suc.prems(4) refl] i(1) e unfolding d by (simp add: item_entry_def)
  have "result_ok (try_ok (if chain_head ps \<noteq> 0 then freeOverflowPages env (chain_head ps) w else Some (Inr (), w)) (\<lambda>_ w. free_cells_overflow env f (i + 1) cnt w))
    (failed env \<sigma> H) (\<lambda>_ w'. freeing env \<sigma> n H (L - set (ipages (drop (unat i) es))) (ipages (drop (unat i) es)) w w')"
  proof (rule try_ok_rule [OF freeOldValue_rule [OF Suc.prems(1)]])
    show "item_ok (V w) (k, v, ps)" "set ps \<subseteq> L" "distinct ps" using pr by (simp_all add: item_pages_def)
  next
    fix u w1 assume g: "freeing env \<sigma> n H (L - set ps) ps w w1"
    have ok1: "txn_ok env \<sigma> n H (L - set ps) w1" and same: "\<And>q. q \<in> L - set ps \<Longrightarrow> V w1 q = V w q" using g by (auto simp: freeing_def same_pages_def)
    have p: "p \<in> L - set ps - set (ipages ?es)" and sub: "set (ipages ?es) \<subseteq> L - set ps" and ds: "distinct (ipages ?es)"
      using pr by (auto simp: item_pages_def)
    have it: "\<forall>e \<in> set ?es. item_ok (V w1) e"
    proof
      fix e assume "e \<in> set ?es"
      moreover from this have "item_ok (V w1) e = item_ok (V w) e"
        using item_pages_ipages [of e ?es] sub same by (intro item_ok_cong) blast
      ultimately show "item_ok (V w1) e" using pr by simp
    qed
    have ln: "lnode (V w1 p) (map item_entry es)" using Suc.prems(4) same p by simp
    have c: "unat (i + 1) + cnt = length es" using Suc.prems(8) i(2) by simp
    have eq: "L - set (ipages (drop (unat i) es)) = L - set ps - set (ipages ?es)" unfolding dr by (auto simp: item_pages_def)
    show "result_ok (free_cells_overflow env f (i + 1) cnt w1) (failed env \<sigma> H) (\<lambda>_ w'. freeing env \<sigma> n H (L - set (ipages (drop (unat i) es))) (ipages (drop (unat i) es)) w w')"
      unfolding eq by (rule result_ok_mono [OF Suc.IH [OF ok1 Suc.prems(2) p ln it ds sub c]]) (auto intro: freeing_trans [OF g] simp: dr item_pages_def)
  qed simp
  then show ?case using ov by (cases "chain_head ps = 0") (simp_all add: try_ok_def try_or_def)
qed

section \<open>The children of a node\<close>

lemma child_ids_inode:
  assumes "inode d (child_refs cks) r" "unat i + cnt = Suc (length cks)" "0 < cnt"
  shows "child_ids d i cnt = Some (map (tid \<circ> fst) (drop (unat i) cks) @ [r])"
  using assms(2,3)
proof (induction cnt arbitrary: i)
  case (Suc cnt)
  have le: "length cks \<le> 340" using inode_length [OF assms(1)] by simp
  show ?case
  proof (cases "cnt = 0")
    case True
    then have "i = of_nat (length (child_refs cks))" using Suc.prems using word_unat_eq_iff [of i] le by (simp add: unat_of_nat)
    then show ?thesis using inode_child_last [OF assms(1)] True Suc.prems by simp
  next
    case False
    then have i: "unat i < length cks" "unat (i + 1) = Suc (unat i)" using Suc.prems le by (simp_all add: unat_arith_simps unat_of_nat)
    have "child d i = Some (tid (fst (cks ! unat i)))" using inode_cell(2) [OF assms(1) refl] i(1) by (simp add: child_refs_def case_prod_unfold)
    moreover have "drop (unat i) cks = cks ! unat i # drop (unat (i + 1)) cks" using Cons_nth_drop_Suc [OF i(1)] i(2) by simp
    ultimately show ?thesis using Suc.IH [of "i + 1"] Suc.prems(1) i(2) False by simp
  qed
qed simp

lemma free_children_rule:
  assumes IH: "\<And>t w L. height t < n \<Longrightarrow> txn_ok env \<sigma> m H L w \<Longrightarrow> tree_at (V w) t \<Longrightarrow> set (tpages t) \<subseteq> L \<Longrightarrow> distinct (tpages t) \<Longrightarrow>
      result_ok (freeSubtree n env (tid t) w) (failed env \<sigma> H) (\<lambda>_ w'. freeing env \<sigma> m H (L - set (tpages t)) (tpages t) w w')"
    and "\<forall>t \<in> set ts. height t < n" "txn_ok env \<sigma> m H L w" "\<forall>t \<in> set ts. tree_at (V w) t" "set (concat (map tpages ts)) \<subseteq> L" "distinct (concat (map tpages ts))"
  shows "result_ok (free_children n env (map tid ts) w) (failed env \<sigma> H) (\<lambda>_ w'. freeing env \<sigma> m H (L - set (concat (map tpages ts))) (concat (map tpages ts)) w w')"
  using assms(2-6)
proof (induction ts arbitrary: w L)
  case Nil
  then show ?case by (simp add: result_ok_def freeing_def)
next
  case (Cons t ts)
  let ?ps = "concat (map tpages ts)"
  show ?case unfolding list.map(2) [of tid] free_children.simps
  proof (rule try_ok_rule [OF IH [of t L w]])
    fix u w1 assume g: "freeing env \<sigma> m H (L - set (tpages t)) (tpages t) w w1"
    have ok1: "txn_ok env \<sigma> m H (L - set (tpages t)) w1" and same: "\<And>q. q \<in> L - set (tpages t) \<Longrightarrow> V w1 q = V w q"
      using g by (auto simp: freeing_def same_pages_def)
    have h: "\<forall>t \<in> set ts. height t < n" using Cons.prems(1) by simp
    have sub: "set ?ps \<subseteq> L - set (tpages t)" and ds: "distinct ?ps" using Cons.prems(4,5) by auto
    have at: "\<forall>c \<in> set ts. tree_at (V w1) c"
    proof
      fix c assume c: "c \<in> set ts"
      then have "set (tpages c) \<subseteq> set ?ps" by auto
      then have "tree_at (V w1) c = tree_at (V w) c" using sub same by (intro tree_at_cong) blast
      then show "tree_at (V w1) c" using Cons.prems(3) c by simp
    qed
    have eq: "L - set (concat (map tpages (t # ts))) = L - set (tpages t) - set ?ps" by auto
    show "result_ok (free_children n env (map tid ts) w1) (failed env \<sigma> H) (\<lambda>_ w'. freeing env \<sigma> m H (L - set (concat (map tpages (t # ts)))) (concat (map tpages (t # ts))) w w')"
      unfolding eq by (rule result_ok_mono [OF Cons.IH [OF h ok1 at sub ds]]) (auto intro: freeing_trans [OF g])
  qed (use Cons.prems in simp_all)
qed

lemma unpin_free_page:
  assumes ok: "txn_ok env \<sigma> n (add_mset (f, p, wr) H) L w" and p: "p \<in> L" "p \<noteq> 0" and c: "\<And>w'. c w' = Some (Inr (), w')"
  shows "result_ok (do { w \<leftarrow> node_unpin f w; w \<leftarrow> free_page p w; c w }) E (\<lambda>_ w'. freeing env \<sigma> n H (L - {p}) [p] w w')"
proof -
  obtain w1 where w1: "node_unpin f w = Some w1" "txn_ok env \<sigma> n H L w1" "same_pages L w w1" using ok by (rule unpin_rule)
  obtain w2 where w2: "free_page p w1 = Some w2" "txn_ok env \<sigma> n H (L - {p}) w2" "db w2 = db w1" using free_rule [OF w1(2) p] .
  then show ?thesis using w1 c free_page_lists [OF w2(1)] node_unpin_lists [OF w1(1)] by (simp add: result_ok_def freeing_def same_pages_def)
qed

section \<open>A subtree\<close>

lemma freeSubtree_rule:
  "height t < n \<Longrightarrow> txn_ok env \<sigma> m H L w \<Longrightarrow> tree_at (V w) t \<Longrightarrow> set (tpages t) \<subseteq> L \<Longrightarrow> distinct (tpages t) \<Longrightarrow>
   result_ok (freeSubtree n env (tid t) w) (failed env \<sigma> H) (\<lambda>_ w'. freeing env \<sigma> m H (L - set (tpages t)) (tpages t) w w')"
proof (induction n arbitrary: t w L)
  case (Suc n)
  let ?Q = "\<lambda>_ w'. freeing env \<sigma> m H (L - set (tpages t)) (tpages t) w w'"
  have nz: "tid t \<noteq> 0" and tL: "tid t \<in> L" using Suc.prems(3,4) tid_nonzero tid_in_tpages by blast+
  show ?case unfolding freeSubtree.simps if_not_P [OF nz]
  proof (rule try_ok_rule [OF getNode_listed [OF Suc.prems(2) tL]])
    fix f w1 assume g: "(txn_ok env \<sigma> m (add_mset (f, tid t, False) H) L w1 \<and> same_pages L w w1) \<and> free_lists w1 = free_lists w"
    then have ok1: "txn_ok env \<sigma> m (add_mset (f, tid t, False) H) L w1" and sm: "same_pages L w w1" and li: "free_lists w1 = free_lists w" by simp_all
    then have same: "V w1 q = V w q" if "q \<in> L" for q using that by (simp add: same_pages_def)
    have d: "node_data w1 f = V w1 (tid t)" using handle_node [OF txn_read [OF ok1], of f "tid t" False] by simp
    have at: "tree_at (V w1) t" using tree_at_cong [of t "V w1" "V w"] same Suc.prems(3,4) by blast
    show "result_ok (do {
        ty \<leftarrow> ntype (node_data w1 f);
        nc \<leftarrow> nCells (node_data w1 f);
        if ty = nodeLeaf then
          try_or (free_cells_overflow env f 0 (unat nc) w1) (node_unpin f) (\<lambda>_ w. do {
            w \<leftarrow> node_unpin f w;
            w \<leftarrow> free_page (tid t) w;
            Some (Inr (), w)
          })
        else if ty = nodeInternal then do {
          children \<leftarrow> child_ids (node_data w1 f) 0 (unat (nc + 1));
          w \<leftarrow> node_unpin f w1;
          try_ok (free_children n env children w) (\<lambda>_ w. do {
            w \<leftarrow> free_page (tid t) w;
            Some (Inr (), w)
          })
        } else None
      }) (failed env \<sigma> H) ?Q"
    proof (cases t)
      case (Leaf p es)
      have ln: "lnode (V w1 p) (map item_entry es)" and it: "\<forall>e \<in> set es. item_ok (V w1) e" using at Leaf by simp_all
      have ps: "p \<in> L - set (ipages es)" "distinct (ipages es)" "set (ipages es) \<subseteq> L" "p \<noteq> 0" "L - set (tpages t) = L - set (ipages es) - {p}"
        using Suc.prems(4,5) Leaf nz by (auto simp: ipages_def)
      have un: "unat (of_nat (length es) :: u16) = length es" using lnode_length [OF ln] by (simp add: unat_of_nat)
      have ok1': "txn_ok env \<sigma> m (add_mset (f, p, False) H) L w1" using ok1 Leaf by simp
      have "result_ok (try_or (free_cells_overflow env f 0 (length es) w1) (node_unpin f) (\<lambda>_ w. do {
            w \<leftarrow> node_unpin f w;
            w \<leftarrow> free_page p w;
            Some (Inr (), w)
          })) (failed env \<sigma> H) ?Q"
      proof (rule try_or_rule [OF free_cells_overflow_rule [OF ok1', of f p False 0 es]])
        show "\<exists>s'. node_unpin f s = Some s' \<and> failed env \<sigma> H s'" if "failed env \<sigma> (add_mset (f, p, False) H) s" for s using failed_unpin [OF that] .
      next
        fix u w2 assume "freeing env \<sigma> m (add_mset (f, p, False) H) (L - set (ipages (drop (unat (0::u16)) es))) (ipages (drop (unat (0::u16)) es)) w1 w2"
        then have g2: "freeing env \<sigma> m (add_mset (f, p, False) H) (L - set (ipages es)) (ipages es) w1 w2" by simp
        then have ok2: "txn_ok env \<sigma> m (add_mset (f, p, False) H) (L - set (ipages es)) w2" by (simp add: freeing_def)
        show "result_ok (do { w \<leftarrow> node_unpin f w2; w \<leftarrow> free_page p w; Some (Inr (), w) }) (failed env \<sigma> H) ?Q"
          unfolding ps(5) by (rule result_ok_mono [OF unpin_free_page [OF ok2 ps(1,4)]]) (auto intro!: freeing_from [OF sm li freeing_trans [OF g2]] simp: Leaf ipages_def)
      qed (use ps ln it in auto)
      then show ?thesis using lnode_reads(1,2) [OF ln] Leaf d un by (simp add: nodeLeaf_def)
    next
      case (Node p cks r)
      let ?ts = "map fst cks @ [r]"
      have ind: "inode (V w1 p) (child_refs cks) (tid r)" and ats: "\<forall>c \<in> set ?ts. tree_at (V w1) c" using at Node by auto
      have hs: "\<forall>c \<in> set ?ts. height c < n" using Suc.prems(1) height_le [of p cks r "n - 1"] Node by (cases n) auto
      have tp: "tpages t = p # concat (map tpages ?ts)" using Node by (simp add: case_prod_unfold comp_def)
      have ps: "p \<in> L - set (concat (map tpages ?ts))" "distinct (concat (map tpages ?ts))" "set (concat (map tpages ?ts)) \<subseteq> L" "p \<noteq> 0"
        "L - set (tpages t) = L - set (concat (map tpages ?ts)) - {p}"
        using Suc.prems(4,5) nz Node unfolding tp by auto
      have le: "length cks \<le> 340" using inode_length [OF ind] by simp
      then have un: "unat (of_nat (length cks) + 1 :: u16) = Suc (length cks)" by (simp add: unat_arith_simps unat_of_nat)
      have ch: "child_ids (V w1 p) 0 (Suc (length cks)) = Some (map tid ?ts)" using child_ids_inode [OF ind, of 0 "Suc (length cks)"] by simp
      obtain w2 where w2: "node_unpin f w1 = Some w2" "txn_ok env \<sigma> m H L w2" "same_pages L w1 w2" using ok1 by (rule unpin_rule)
      have at2: "\<forall>c \<in> set ?ts. tree_at (V w2) c"
      proof
        fix c assume c: "c \<in> set ?ts"
        then have "set (tpages c) \<subseteq> set (concat (map tpages ?ts))" by auto
        then have "tree_at (V w2) c = tree_at (V w1) c" using w2(3) ps(3) unfolding same_pages_def by (intro tree_at_cong) blast
        then show "tree_at (V w2) c" using bspec [OF ats c] by simp
      qed
      have "result_ok (try_ok (free_children n env (map tid ?ts) w2) (\<lambda>_ w. do { w \<leftarrow> free_page p w; Some (Inr (), w) })) (failed env \<sigma> H) ?Q"
      proof (rule try_ok_rule [OF free_children_rule [OF Suc.IH hs w2(2) at2 ps(3,2)]])
        fix u w3 assume g3: "freeing env \<sigma> m H (L - set (concat (map tpages ?ts))) (concat (map tpages ?ts)) w2 w3"
        then have ok3: "txn_ok env \<sigma> m H (L - set (concat (map tpages ?ts))) w3" by (simp add: freeing_def)
        obtain w4 where w4: "free_page p w3 = Some w4" "txn_ok env \<sigma> m H (L - set (concat (map tpages ?ts)) - {p}) w4" "db w4 = db w3"
          using free_rule [OF ok3 ps(1,4)] .
        have "freeing env \<sigma> m H (L - set (tpages t)) [p] w3 w4" using w4(2,3) free_page_lists [OF w4(1)] unfolding ps(5) by (simp add: freeing_def same_pages_def)
        then have "freeing env \<sigma> m H (L - set (tpages t)) (tpages t) w w4"
          using node_unpin_lists [OF w2(1)] li unfolding ps(5) tp
          by (intro freeing_from [OF same_pages_trans [OF sm w2(3)] _ freeing_trans [OF g3]]) auto
        then show "result_ok (do { w \<leftarrow> free_page p w3; Some (Inr (), w) }) (failed env \<sigma> H) ?Q" using w4(1) by (simp add: result_ok_def)
      qed simp_all
      then show ?thesis using inode_reads(1,2) [OF ind] Node d un ch w2(1) by (simp add: nodeLeaf_def nodeInternal_def child_refs_def)
    qed
  qed simp
qed simp

lemma FreeAll_rule:
  assumes ok: "txn_ok env \<sigma> n H L w" and m: "map_at (V w) P h K b m" "P \<subseteq> L" "h \<le> fuel env"
  shows "result_ok (FreeAll env b w) (failed env \<sigma> H) (\<lambda>_ w'. \<exists>ps. set ps = P \<and> distinct ps \<and> freeing env \<sigma> n H (L - P) ps w w')"
proof (cases "root b = 0")
  case True
  have "0 < fuel env" using ok by (simp add: txn_ok_def read_ok_def pool_ok_def enough_fuel_def)
  then show ?thesis using True m(1) ok by (cases "fuel env") (simp_all add: FreeAll_def map_at_def result_ok_def freeing_def)
next
  case False
  then obtain t where t: "tid t = root b" "stored (V w) P t" "P = set (tpages t)" "tree_map h K t m" using map_at_tree [OF m(1)] by blast
  have "height t < fuel env" using t(4) m(3) by (simp add: tree_map_def)
  from freeSubtree_rule [OF this ok] show ?thesis using t m(2) by (auto simp: FreeAll_def stored_def elim!: result_ok_mono)
qed

end
