(* ===== verification/PersistInv.thy ===== *)
theory PersistInv
  imports FreeTree
begin

text \<open>
  The free list on disk: \<open>persistFreelist\<close> and its helpers of \<^verbatim>\<open>src/txn.go\<close> write a chain of pages that holds
  the ids of all free pages, and give back the pages of the old chain.
\<close>

section \<open>Chains\<close>

fun fl_chain :: "(PageId \<Rightarrow> bytes) \<Rightarrow> PageId list \<Rightarrow> PageId list \<Rightarrow> bool" where
  "fl_chain W [] ids \<longleftrightarrow> ids = []"
| "fl_chain W (p # ps) ids \<longleftrightarrow> p \<noteq> 0 \<and> (\<exists>xs ys. ids = xs @ ys \<and> decodeFreelistPage (W p) = Some (Inr (xs, chain_head ps)) \<and> fl_chain W ps ys)"

lemma fl_chain_cong: "(\<And>p. p \<in> set ps \<Longrightarrow> W' p = W p) \<Longrightarrow> fl_chain W' ps ids = fl_chain W ps ids"
  by (induction ps arbitrary: ids) auto

lemma fl_chain_nonzero: "fl_chain W ps ids \<Longrightarrow> 0 \<notin> set ps"
  by (induction ps arbitrary: ids) auto

lemma decode_next: "decodeFreelistPage d = Some (Inr (ids, nxt)) \<Longrightarrow> freelistPageNext d = Some nxt"
  by (auto simp: decodeFreelistPage_def freelistPageNext_def split: if_splits bind_splits)

section \<open>Walking the old chain\<close>

lemma in_db_try_ok: "in_db (\<lambda>d. try_ok (f d) (\<lambda>x d. g x d)) w = try_ok (in_db f w) (\<lambda>x w. in_db (g x) w)"
  by (cases "f (db w)") (auto simp: in_db_def try_ok_def try_or_def split: sum.splits)

lemma in_db_get: "\<not> closed (txn w) \<Longrightarrow> in_db (in_pool (\<lambda>bp. Get env bp pid)) w = getNode env pid w"
  by (simp add: getNode_def txnGet_def)

lemma walkChainIDs_loop_rule:
  "read_ok env H L w \<Longrightarrow> fl_chain (V w) ps ids \<Longrightarrow> set ps \<subseteq> L \<Longrightarrow> length ps < n \<Longrightarrow>
   result_ok (in_db (walkChainIDs_loop n env (chain_head ps) acc) w) (reading env H L w) (\<lambda>x w'. x = acc @ ps \<and> reading env H L w w')"
proof (induction ps arbitrary: n acc ids w)
  case Nil
  then obtain k where "n = Suc k" by (cases n) auto
  then show ?case using Nil by (simp add: in_db_def result_ok_def reading_def)
next
  case (Cons p ps)
  obtain k where n: "n = Suc k" "length ps < k" using Cons.prems(4) by (cases n) auto
  obtain xs ys where ch: "p \<noteq> 0" "decodeFreelistPage (V w p) = Some (Inr (xs, chain_head ps))" "fl_chain (V w) ps ys" using Cons.prems(2) by auto
  have pL: "p \<in> L" "set ps \<subseteq> L" using Cons.prems(3) by auto
  have op: "\<not> closed (txn w)" using Cons.prems(1) by (simp add: read_ok_def)
  let ?g = "\<lambda>f d. do { next \<leftarrow> freelistPageNext (page_data d f); d \<leftarrow> unpin f d; walkChainIDs_loop k env next (acc @ [p]) d }"
  have "walkChainIDs_loop n env (chain_head (p # ps)) acc = (\<lambda>d. try_ok (in_pool (\<lambda>bp. Get env bp p) d) (\<lambda>f d. ?g f d))"
    unfolding n(1) using ch(1) by (intro ext) simp
  then have step: "in_db (walkChainIDs_loop n env (chain_head (p # ps)) acc) w = try_ok (getNode env p w) (\<lambda>f w. in_db (?g f) w)"
    by (simp only: in_db_try_ok in_db_get [OF op])
  show ?case unfolding step
  proof (rule try_ok_rule [OF txnGet_read [OF Cons.prems(1) pL(1)]])
    fix f w1 assume g: "reading env (add_mset (f, p, False) H) L w w1"
    then have rk: "read_ok env (add_mset (f, p, False) H) L w1" and same: "\<And>q. q \<in> L \<Longrightarrow> V w1 q = V w q" by (auto simp: reading_def calm_def same_pages_def)
    have d: "page_data (db w1) f = V w p" using handle_node(1) [OF rk, of f p False] same pL(1) by (simp add: node_data_def)
    obtain w2 where w2: "node_unpin f w1 = Some w2" "reading env H L w1 w2" using rk by (rule read_unpin_rule)
    obtain d2 where d2: "unpin f (db w1) = Some d2" "w2 = w1\<lparr>db := d2\<rparr>" using w2(1) by (auto simp: node_unpin_def split: bind_splits)
    have rd: "reading env H L w w2" using reading_trans [OF g w2(2)] .
    then have "fl_chain (V w2) ps ys" "read_ok env H L w2"
      using fl_chain_cong [of ps "V w2" "V w" ys] ch(3) pL(2) by (auto simp: reading_def calm_def same_pages_def)
    from Cons.IH [OF this(2,1) pL(2) n(2), of "acc @ [p]"]
    have ih: "result_ok (in_db (walkChainIDs_loop k env (chain_head ps) (acc @ [p])) w2) (reading env H L w) (\<lambda>x w'. x = acc @ p # ps \<and> reading env H L w w')"
      by (rule result_ok_mono) (use reading_trans [OF rd] in auto)
    have "in_db (\<lambda>d. do { next \<leftarrow> freelistPageNext (page_data d f); d \<leftarrow> unpin f d; walkChainIDs_loop k env next (acc @ [p]) d }) w1 =
        in_db (walkChainIDs_loop k env (chain_head ps) (acc @ [p])) w2"
      using d2 d decode_next [OF ch(2)] by (simp add: in_db_def)
    then show "result_ok (in_db (\<lambda>d. do { next \<leftarrow> freelistPageNext (page_data d f); d \<leftarrow> unpin f d; walkChainIDs_loop k env next (acc @ [p]) d }) w1)
      (reading env H L w) (\<lambda>x w'. x = acc @ p # ps \<and> reading env H L w w')" using ih by simp
  qed simp
qed

lemma walkChainIDs_rule:
  assumes "read_ok env H L w" "fl_chain (V w) ps ids" "set ps \<subseteq> L" "length ps < fuel env"
  shows "result_ok (in_db (walkChainIDs env (chain_head ps)) w) (reading env H L w) (\<lambda>x w'. x = ps \<and> reading env H L w w')"
proof (cases "ps = []")
  case True
  then show ?thesis using assms(1) by (simp add: walkChainIDs_def in_db_def result_ok_def reading_def)
next
  case False
  then have "chain_head ps \<noteq> 0" using assms(2) by (cases ps) auto
  then have "in_db (walkChainIDs env (chain_head ps)) w = in_db (walkChainIDs_loop (fuel env) env (chain_head ps) []) w"
    by (simp add: walkChainIDs_def in_db_def)
  then show ?thesis using walkChainIDs_loop_rule [OF assms, of "[]"] by simp
qed

section \<open>Giving the old chain back\<close>

definition add_freed :: "PageId list \<Rightarrow> world \<Rightarrow> world" where
  "add_freed ps w = w\<lparr>txn := (txn w)\<lparr>freed := freed (txn w) @ ps\<rparr>\<rparr>"

lemma add_freed_rule:
  assumes ok: "txn_ok env \<sigma> n H L w" and ps: "set ps \<subseteq> L" "0 \<notin> set ps" "distinct ps"
  shows "txn_ok env \<sigma> n H (L - set ps) (add_freed ps w)"
proof -
  have l: "lists_ok n L w" and dk: "disk_ok (committed \<sigma>) L w" and rk: "read_ok env H L w" using ok by (simp_all add: txn_ok_def)
  have dj: "set ps \<inter> set (free_lists w) = {}" using l ps(1) unfolding lists_ok_def by blast
  have set_fl: "set (free_lists (add_freed ps w)) = set (free_lists w) \<union> set ps" by (auto simp: free_lists_def add_freed_def)
  have "distinct (free_lists (add_freed ps w))" using l ps(3) dj unfolding lists_ok_def free_lists_def add_freed_def by auto
  moreover have "\<forall>pid \<in> set ps. in_file (sm (pool w)) pid \<and> pid < numPages (meta (txn w))"
    using rk l ps(1) unfolding read_ok_def pool_ok_def lists_ok_def by blast
  ultimately have "lists_ok n (L - set ps) (add_freed ps w)"
    using l ps(2) set_fl unfolding lists_ok_def by (auto simp: add_freed_def)
  moreover have "disk_ok (committed \<sigma>) (L - set ps) (add_freed ps w)" using dk unfolding disk_ok_def add_freed_def by auto
  moreover have "read_ok env H (L - set ps) (add_freed ps w)" using rk pool_ok_subset [of env H L "pool w" "L - set ps"] by (auto simp: read_ok_def add_freed_def)
  moreover have "scenery (add_freed ps w) = scenery w" "fresh_ok (committed \<sigma>) (add_freed ps w) = fresh_ok (committed \<sigma>) w"
    by (simp_all add: add_freed_def fresh_ok_def scenery_def)
  ultimately show ?thesis using ok by (simp add: txn_ok_def)
qed

section \<open>Allocating the new chain\<close>

lemma takePage_lists: "takePage env pid w = Some (Inr f, w') \<Longrightarrow> free_lists w' = free_lists w \<and> allocated (txn w') = allocated (txn w) @ [pid]"
  by (auto simp: takePage_def try_ok_def try_or_def in_db_def in_pool_def put_data_def free_lists_def Let_def split: bind_splits sum.splits)

lemma txnAllocatePage_lists:
  assumes "txnAllocatePage env w = Some (Inr f, w')"
  shows "length (free_lists w') \<le> length (free_lists w)" "length (free_lists w) \<le> Suc (length (free_lists w'))"
    "\<exists>pid. allocated (txn w') = allocated (txn w) @ [pid]"
proof -
  have wr: "writable (txn w)" "\<not> closed (txn w)" using assms by (auto simp: txnAllocatePage_def split: if_splits)
  have "length (free_lists w') \<le> length (free_lists w) \<and> length (free_lists w) \<le> Suc (length (free_lists w')) \<and> (\<exists>pid. allocated (txn w') = allocated (txn w) @ [pid])"
  proof (cases "reusable (txn w) = []")
    case False
    then have "takePage env (last (reusable (txn w))) (w\<lparr>txn := (txn w)\<lparr>reusable := butlast (reusable (txn w))\<rparr>\<rparr>) = Some (Inr f, w')"
      using assms wr by (simp add: txnAllocatePage_def)
    from takePage_lists [OF this] show ?thesis using False by (simp add: free_lists_def)
  next
    case True
    obtain pid found fl where p: "popReusable (freelist (db w)) (minReaderTxn (db w)) = ((pid, found), fl)" by (metis surj_pair)
    show ?thesis
    proof (cases found)
      case True
      then have "takePage env pid (w\<lparr>db := (db w)\<lparr>freelist := fl\<rparr>\<rparr>) = Some (Inr f, w')" using assms wr p \<open>reusable (txn w) = []\<close> by (simp add: txnAllocatePage_def)
      moreover have "length (allIds (freelist (db w))) = Suc (length (allIds fl))"
        using p True by (auto simp: popReusable_def allIds_def split: list.splits if_splits)
      ultimately show ?thesis using takePage_lists by (fastforce simp: free_lists_def)
    next
      case False
      then have "fl = freelist (db w)" using p by (auto simp: popReusable_def split: list.splits if_splits)
      then show ?thesis using assms wr p True False
        by (auto simp: txnAllocatePage_def Let_def try_ok_def try_or_def in_db_def in_pool_def free_lists_def split: bind_splits sum.splits)
    qed
  qed
  then show "length (free_lists w') \<le> length (free_lists w)" "length (free_lists w) \<le> Suc (length (free_lists w'))"
    "\<exists>pid. allocated (txn w') = allocated (txn w) @ [pid]" by blast+
qed

lemma unpin_db:
  assumes "txn_ok env \<sigma> n (add_mset (f, pid, wr) H) L w"
  obtains d where "unpin f (db w) = Some d" "txn_ok env \<sigma> n H L (w\<lparr>db := d\<rparr>)" "same_pages L w (w\<lparr>db := d\<rparr>)" "page_id d f = pid"
proof -
  obtain w' where w': "node_unpin f w = Some w'" "txn_ok env \<sigma> n H L w'" "same_pages L w w'" "Id w' f = pid" using unpin_rule [OF assms] by blast
  then obtain d where "unpin f (db w) = Some d" "w' = w\<lparr>db := d\<rparr>" by (auto simp: node_unpin_def split: bind_splits)
  then show thesis using that w' by (simp add: Id_def)
qed

lemma written_allocated:
  assumes "txn_ok env \<sigma> n H L w" "(f, pid, True) \<in># H" "pid \<in> L"
  shows "pid \<in> set (allocated (txn w))"
proof -
  have "holds H (pool w)" "disk_ok (committed \<sigma>) L w" using assms(1) by (simp_all add: txn_ok_def read_ok_def pool_ok_def)
  moreover from this have "pid \<in> dirty_pages (pool w)" using holds_handle(1-3) [of H "pool w" f pid True] assms(2) dirty_pagesI by metis
  ultimately show ?thesis using assms(3) unfolding disk_ok_def by blast
qed

definition chain_need :: "nat \<Rightarrow> nat" where
  "chain_need c = (c + freelistPerPage - 1) div freelistPerPage"

lemma per_page [simp]: "freelistPerPage = 510"
  by (simp add: freelistPerPage_def)

lemma chain_need: "chain_need c \<le> m \<longleftrightarrow> c \<le> m * 510" "m < chain_need c \<longleftrightarrow> m * 510 < c" "a \<le> b \<Longrightarrow> chain_need a \<le> chain_need b"
  unfolding chain_need_def by (auto intro!: div_le_mono)

lemma unpin_lists: "unpin f (db w) = Some d \<Longrightarrow> free_lists (w\<lparr>db := d\<rparr>) = free_lists w"
  by (auto simp: unpin_def free_lists_def split: bind_splits)

definition chain_taken :: "env \<Rightarrow> backdrop \<Rightarrow> nat \<Rightarrow> handle multiset \<Rightarrow> PageId set \<Rightarrow> world \<Rightarrow> PageId list \<Rightarrow> world \<Rightarrow> bool" where
  "chain_taken env \<sigma> n H L w new w' \<longleftrightarrow> distinct new \<and> set new \<inter> L = {} \<and> set new \<subseteq> set (allocated (txn w')) \<and> set (allocated (txn w)) \<subseteq> set (allocated (txn w')) \<and>
     txn_ok env \<sigma> n H (L \<union> set new) w' \<and> same_pages L w w'"

lemma chain_alloc_Suc:
  "chain_alloc (Suc m) env ids w =
     (if chain_need (length (free_lists w)) \<le> length ids then Some (Inr ids, w)
      else try_ok (txnAllocatePage env w) (\<lambda>f w. do {
        d \<leftarrow> unpin f (db w);
        chain_alloc m env (ids @ [page_id d f]) (w\<lparr>db := d\<rparr>)
      }))"
proof -
  have "length (pending (freelist (db w))) + length (freed (txn w)) + length (reusable (txn w)) = length (free_lists w)" by (simp add: free_lists_def allIds_def)
  then show ?thesis by (simp add: Let_def chain_need_def)
qed

lemma chain_alloc_rule:
  "txn_ok env \<sigma> (n + k) H L w \<Longrightarrow> chain_need (length (free_lists w)) \<le> length ids + k \<Longrightarrow> k < m \<Longrightarrow> (length ids - 1) * 510 \<le> length (free_lists w) \<Longrightarrow>
   result_ok (chain_alloc m env ids w) (failed env \<sigma> H)
     (\<lambda>x w'. \<exists>new. x = ids @ new \<and> chain_taken env \<sigma> n H L w new w' \<and>
        length (free_lists w') \<le> length x * 510 \<and> (length x - 1) * 510 \<le> length (free_lists w'))"
proof (induction k arbitrary: m ids w L)
  case 0
  then obtain m' where m: "m = Suc m'" by (cases m) auto
  have "chain_need (length (free_lists w)) \<le> length ids" using 0 by simp
  then show ?case using 0 chain_need(1) unfolding m chain_alloc_Suc by (simp add: result_ok_def chain_taken_def)
next
  case (Suc k)
  obtain m' where m: "m = Suc m'" "k < m'" using Suc.prems(3) by (cases m) auto
  show ?case
  proof (cases "chain_need (length (free_lists w)) \<le> length ids")
    case True
    then show ?thesis using Suc.prems chain_need(1) txn_ok_less [OF Suc.prems(1), of n] unfolding m(1) chain_alloc_Suc by (simp add: result_ok_def chain_taken_def)
  next
    case False
    then have cnt: "length ids * 510 < length (free_lists w)" using chain_need(2) by (simp add: not_le)
    have ok: "txn_ok env \<sigma> (Suc (n + k)) H L w" using Suc.prems(1) by simp
    have st: "chain_alloc m env ids w = try_ok (txnAllocatePage env w) (\<lambda>f w. do {
        d \<leftarrow> unpin f (db w);
        chain_alloc m' env (ids @ [page_id d f]) (w\<lparr>db := d\<rparr>)
      })" unfolding m(1) chain_alloc_Suc if_not_P [OF False] ..
    show ?thesis using txnAllocatePage_rule [OF ok]
    proof (cases rule: result_ok_cases)
      case (err e s)
      then show ?thesis unfolding st by (simp add: result_ok_def try_ok_def try_or_def)
    next
      case (val f w1)
      then obtain pid where pid: "pid \<notin> L" "txn_ok env \<sigma> (n + k) (add_mset (f, pid, True) H) (insert pid L) w1" "same_pages L w w1" by blast
      note al = txnAllocatePage_lists [OF val(1)]
      have pa: "pid \<in> set (allocated (txn w1))" using written_allocated [OF pid(2), of f pid] by simp
      obtain d where d: "unpin f (db w1) = Some d" "txn_ok env \<sigma> (n + k) H (insert pid L) (w1\<lparr>db := d\<rparr>)"
        "same_pages (insert pid L) w1 (w1\<lparr>db := d\<rparr>)" "page_id d f = pid" using pid(2) by (rule unpin_db)
      let ?w = "w1\<lparr>db := d\<rparr>"
      have fl: "length (free_lists ?w) = length (free_lists w1)" using unpin_lists [OF d(1)] by simp
      have "chain_need (length (free_lists ?w)) \<le> length (ids @ [pid]) + k"
        using Suc.prems(2) chain_need(3) [OF al(1)] fl by simp
      moreover have "(length (ids @ [pid]) - 1) * 510 \<le> length (free_lists ?w)" using cnt al(2) fl by simp
      ultimately have "result_ok (chain_alloc m' env (ids @ [pid]) ?w) (failed env \<sigma> H)
        (\<lambda>x w'. \<exists>new. x = (ids @ [pid]) @ new \<and> chain_taken env \<sigma> n H (insert pid L) ?w new w' \<and>
          length (free_lists w') \<le> length x * 510 \<and> (length x - 1) * 510 \<le> length (free_lists w'))"
        using Suc.IH [OF d(2) _ m(2)] by blast
      then have "result_ok (chain_alloc m' env (ids @ [pid]) ?w) (failed env \<sigma> H)
        (\<lambda>x w'. \<exists>new. x = ids @ new \<and> chain_taken env \<sigma> n H L w new w' \<and>
          length (free_lists w') \<le> length x * 510 \<and> (length x - 1) * 510 \<le> length (free_lists w'))"
      proof (rule result_ok_mono)
        fix x w' assume "\<exists>new. x = (ids @ [pid]) @ new \<and> chain_taken env \<sigma> n H (insert pid L) ?w new w' \<and>
          length (free_lists w') \<le> length x * 510 \<and> (length x - 1) * 510 \<le> length (free_lists w')"
        then obtain new where new: "x = ids @ pid # new" "chain_taken env \<sigma> n H (insert pid L) ?w new w'" and le: "length (free_lists w') \<le> length x * 510"
          "(length x - 1) * 510 \<le> length (free_lists w')" by auto
        have "same_pages L w w'" using pid(3) d(3) new(2) unfolding chain_taken_def same_pages_def by simp
        moreover have "set (allocated (txn w)) \<subseteq> set (allocated (txn w1))" using al(3) by auto
        moreover have "insert pid L \<union> set new = L \<union> set (pid # new)" by auto
        ultimately have "chain_taken env \<sigma> n H L w (pid # new) w'" using new(2) pid(1) pa unfolding chain_taken_def by auto
        then show "\<exists>new. x = ids @ new \<and> chain_taken env \<sigma> n H L w new w' \<and> length (free_lists w') \<le> length x * 510 \<and> (length x - 1) * 510 \<le> length (free_lists w')"
          using new(1) le by blast
      qed simp
      then show ?thesis unfolding st using val(1) d(1,4) by (simp add: try_ok_def try_or_def)
    qed
  qed
qed

section \<open>Filling the new chain\<close>

text \<open>A page that the transaction has allocated is taken again for writing.\<close>

lemma rewrite_rule:
  assumes ok: "txn_ok env \<sigma> n H L w" and pid: "pid \<in> L" "pid \<in> set (allocated (txn w))" "pid \<noteq> 0"
  shows "result_ok (in_db (in_pool (\<lambda>bp. GetForWrite env bp pid)) w) (failed env \<sigma> H)
    (\<lambda>f w'. txn_ok env \<sigma> n (add_mset (f, pid, True) H) L w' \<and> same_pages (L - {pid}) w w' \<and> txn w' = txn w \<and> freelist (db w') = freelist (db w))"
proof -
  have po: "pool_ok env H L (pool w)" and dk: "disk_ok (committed \<sigma>) L w" and l: "lists_ok n L w" and fr: "fresh_ok (committed \<sigma>) w"
    using ok by (simp_all add: txn_ok_def read_ok_def)
  have pl: "pool_ok env H (L - {pid}) (pool w)" "in_file (sm (pool w)) pid" using po pool_ok_subset [OF po, of "L - {pid}"] pid(1) by (auto simp: pool_ok_def)
  have nd: "pid \<notin> dom (committed \<sigma>)" using fr pid(2) unfolding fresh_ok_def by blast
  have ins: "insert pid (L - {pid}) = L" using pid(1) by blast
  from pool_GetForWrite [OF pl(1) _ pl(2)] consider
    (err) e bp' where "GetForWrite env (pool w) pid = Some (Inl e, bp')" "pool_ok env H (L - {pid}) bp'" "kept (L - {pid}) {} (pool w) bp'"
    | (got) f bp' where "GetForWrite env (pool w) pid = Some (Inr f, bp')" "pool_ok env (add_mset (f, pid, True) H) L bp'" "kept (L - {pid}) {pid} (pool w) bp'"
    unfolding pool_result_def ins by blast
  then show ?thesis
  proof cases
    case err
    have "txn_ok env \<sigma> n H (L - {pid}) w" by (rule txn_ok_weaken [OF ok]) (use pid(3) l in \<open>auto simp: lists_ok_def\<close>)
    from txn_ok_pool [OF this err(2)] err(3) have "txn_ok env \<sigma> n H (L - {pid}) (w\<lparr>db := (db w)\<lparr>bufferPool := bp'\<rparr>\<rparr>)" by (simp add: kept_def)
    then show ?thesis using err(1) txn_ok_failed by (simp add: in_db_def in_pool_def result_ok_def)
  next
    case (got f bp')
    let ?w = "w\<lparr>db := (db w)\<lparr>bufferPool := bp'\<rparr>\<rparr>"
    have q: "quiet {pid} (pool w) bp'" and vw: "\<forall>q \<in> L - {pid}. view bp' q = view (pool w) q" using got(3) by (simp_all add: kept_def)
    have "disk_ok (committed \<sigma>) L (w\<lparr>db := (db w)\<lparr>bufferPool := bp', freelist := freelist (db w)\<rparr>, txn := txn w\<rparr>)"
      using disk_disjoint [OF dk] nd pid(2) by (intro quiet_disk [OF dk q]) auto
    moreover have "lists_ok n L ?w"
      using l q in_file_mono [of "sm (pool w)" "sm bp'"] unfolding lists_ok_def free_lists_def quiet_def by auto
    ultimately have "txn_ok env \<sigma> n (add_mset (f, pid, True) H) L ?w" using ok got(2) scenery_pool [OF q] by (simp add: txn_ok_def read_ok_def fresh_ok_def)
    then show ?thesis using got(1) vw by (simp add: in_db_def in_pool_def result_ok_def same_pages_def)
  qed
qed

lemma chain_fill_rule:
  assumes "txn_ok env \<sigma> n H L w" "set ps \<subseteq> L" "set ps \<subseteq> set (allocated (txn w))" "0 \<notin> set ps" "distinct ps"
    "length ids \<le> (i + length ps) * 510" "ps \<noteq> [] \<longrightarrow> (i + length ps - 1) * 510 \<le> length ids"
  shows "result_ok (chain_fill env ids i ps w) (failed env \<sigma> H)
    (\<lambda>_ w'. txn_ok env \<sigma> n H L w' \<and> same_pages (L - set ps) w w' \<and> fl_chain (V w') ps (drop (i * 510) ids) \<and> txn w' = txn w \<and> freelist (db w') = freelist (db w))"
  using assms
proof (induction ps arbitrary: i w)
  case Nil
  then show ?case by (simp add: result_ok_def)
next
  case (Cons p ps)
  have p: "p \<in> L" "p \<in> set (allocated (txn w))" "p \<noteq> 0" using Cons.prems(2-4) by auto
  let ?stop = "min (i * 510 + 510) (length ids)" and ?next = "case ps of [] \<Rightarrow> 0 | q # _ \<Rightarrow> q"
  let ?xs = "take 510 (drop (i * 510) ids)"
  have nx: "?next = chain_head ps" by (simp add: chain_head_def split: list.split)
  have le: "i * 510 \<le> length ids" using Cons.prems(7) by simp
  have sl: "goslice ids (i * 510) ?stop = Some ?xs" using le by (auto simp: goslice_def min_def take_drop add.commute)
  let ?buf = "patch (replicate 4096 0) 0 (freelist_image ?xs (chain_head ps))"
  have lx: "length ?xs \<le> 510" by simp
  have en: "encodeFreelistPage (replicate 4096 0) ?xs (chain_head ps) = Some ?buf" using lx by (intro encodeFreelistPage_image) simp_all
  have lb: "length ?buf = 4096" using lx by simp
  have "region ?buf 0 (16 + 8 * length ?xs) = freelist_image ?xs (chain_head ps)" using lx by (intro region_patch_same) simp_all
  then have dec: "decodeFreelistPage ?buf = Some (Inr (?xs, chain_head ps))" using lx lb by (intro decodeFreelistPage_image) simp_all
  show ?case unfolding chain_fill.simps
  proof (rule try_ok_rule [OF rewrite_rule [OF Cons.prems(1) p]])
    fix f w1 assume g: "txn_ok env \<sigma> n (add_mset (f, p, True) H) L w1 \<and> same_pages (L - {p}) w w1 \<and> txn w1 = txn w \<and> freelist (db w1) = freelist (db w)"
    then have ok1: "txn_ok env \<sigma> n (add_mset (f, p, True) H) L w1" by blast
    have l4: "length (page_data (db w1) f) = 4096" using handle_node(1,3) [OF txn_read [OF ok1], of f p True] by (simp add: node_data_def)
    note put = put_node_rule [OF ok1 _ lb refl, of f p, simplified]
    let ?w2 = "w1\<lparr>db := put_data f ?buf (db w1)\<rparr>"
    obtain d where d: "unpin f (db ?w2) = Some d" "txn_ok env \<sigma> n H L (?w2\<lparr>db := d\<rparr>)" "same_pages L ?w2 (?w2\<lparr>db := d\<rparr>)" "page_id d f = p"
      using put(1) by (rule unpin_db)
    let ?w3 = "w1\<lparr>db := d\<rparr>"
    have ok3: "txn_ok env \<sigma> n H L ?w3" using d(2) by simp
    have v3: "V ?w3 p = ?buf" "same_pages (L - {p}) w ?w3" using put(2,3) d(3) g p(1) unfolding same_pages_def by simp_all
    have t3: "txn ?w3 = txn w" "freelist (db ?w3) = freelist (db w)" using g d(1) by (auto simp: unpin_def put_data_def split: bind_splits)
    have "result_ok (chain_fill env ids (Suc i) ps ?w3) (failed env \<sigma> H)
      (\<lambda>_ w'. txn_ok env \<sigma> n H L w' \<and> same_pages (L - set ps) ?w3 w' \<and> fl_chain (V w') ps (drop (Suc i * 510) ids) \<and> txn w' = txn ?w3 \<and> freelist (db w') = freelist (db ?w3))"
      using Cons.prems t3 by (intro Cons.IH [OF ok3]) auto
    then have "result_ok (chain_fill env ids (Suc i) ps ?w3) (failed env \<sigma> H)
      (\<lambda>_ w'. txn_ok env \<sigma> n H L w' \<and> same_pages (L - set (p # ps)) w w' \<and> fl_chain (V w') (p # ps) (drop (i * 510) ids) \<and> txn w' = txn w \<and> freelist (db w') = freelist (db w))"
    proof (rule result_ok_mono)
      fix x w' assume a: "txn_ok env \<sigma> n H L w' \<and> same_pages (L - set ps) ?w3 w' \<and> fl_chain (V w') ps (drop (Suc i * 510) ids) \<and> txn w' = txn ?w3 \<and> freelist (db w') = freelist (db ?w3)"
      have "V w' p = ?buf" using a v3(1) p(1) Cons.prems(5) unfolding same_pages_def by simp
      moreover have "drop (i * 510) ids = ?xs @ drop (Suc i * 510) ids" by (metis add.commute append_take_drop_id drop_drop mult_Suc)
      ultimately have "fl_chain (V w') (p # ps) (drop (i * 510) ids)" using a p(3) dec by auto
      moreover have "same_pages (L - set (p # ps)) w w'" using a v3(2) unfolding same_pages_def by simp
      ultimately show "txn_ok env \<sigma> n H L w' \<and> same_pages (L - set (p # ps)) w w' \<and> fl_chain (V w') (p # ps) (drop (i * 510) ids) \<and> txn w' = txn w \<and> freelist (db w') = freelist (db w)"
        using a t3 by simp
    qed simp
    then show "result_ok (do {
        let start = i * freelistPerPage;
        let stop = min (start + freelistPerPage) (length ids);
        let next = (case ps of [] \<Rightarrow> 0 | q # _ \<Rightarrow> q);
        let buf = replicate (length (page_data (db w1) f)) 0;
        ids' \<leftarrow> goslice ids start stop;
        buf \<leftarrow> encodeFreelistPage buf ids' next;
        d \<leftarrow> unpin f (put_data f buf (db w1));
        chain_fill env ids (Suc i) ps (w1\<lparr>db := d\<rparr>)
      }) (failed env \<sigma> H) (\<lambda>_ w'. txn_ok env \<sigma> n H L w' \<and> same_pages (L - set (p # ps)) w w' \<and> fl_chain (V w') (p # ps) (drop (i * 510) ids) \<and> txn w' = txn w \<and> freelist (db w') = freelist (db w))"
      using sl en l4 d(1) nx by (simp add: Let_def del: fl_chain.simps)
  qed simp
qed

section \<open>Persisting the free list\<close>

lemma set_freelistRoot_ok:
  "txn_ok env \<sigma> n H L w \<Longrightarrow> txn_ok env (\<sigma>\<lparr>around := scenery (set_freelistRoot r w)\<rparr>) n H L (set_freelistRoot r w)"
  by (simp add: txn_ok_def read_ok_def lists_ok_def disk_ok_def fresh_ok_def free_lists_def set_freelistRoot_def)

lemma scenery_root: "scenery w' = scenery w \<Longrightarrow> scenery (set_freelistRoot r w') = scenery (set_freelistRoot r w)"
proof -
  assume a: "scenery w' = scenery w"
  have com: "m\<lparr>freelistRoot := r, numPages := 0\<rparr> = (m\<lparr>numPages := 0\<rparr>)\<lparr>freelistRoot := r\<rparr>" for m :: Meta by simp
  show ?thesis using a unfolding scenery_def set_freelistRoot_def by (simp add: com del: Meta.update_convs)
qed

definition persisted :: "env \<Rightarrow> backdrop \<Rightarrow> nat \<Rightarrow> handle multiset \<Rightarrow> PageId set \<Rightarrow> world \<Rightarrow> PageId list \<Rightarrow> world \<Rightarrow> bool" where
  "persisted env \<sigma> n H F w new w' \<longleftrightarrow> freelistRoot (meta (txn w')) = chain_head new \<and> fl_chain (V w') new (persist_ids w') \<and> set new \<inter> F = {} \<and> distinct new \<and>
     txn_ok env (\<sigma>\<lparr>around := scenery w'\<rparr>) n H (F \<union> set new) w' \<and> same_pages F w w' \<and> scenery w' = scenery (set_freelistRoot (chain_head new) w)"

lemma persistFreelist_rule:
  assumes ok: "txn_ok env \<sigma> (n + k) H L w" and ch: "fl_chain (V w) ps ids" "freelistRoot (meta (txn w)) = chain_head ps" "set ps \<subseteq> L" "distinct ps" "length ps < fuel env"
    and k: "chain_need (length (free_lists w) + length ps) \<le> k" "k < fuel env"
  shows "result_ok (persistFreelist env w) (failed env \<sigma> H) (\<lambda>_ w'. \<exists>new. persisted env \<sigma> n H (L - set ps) w new w')"
  unfolding persistFreelist_def ch(2)
proof (rule try_ok_rule [OF walkChainIDs_rule [OF txn_read [OF ok] ch(1,3,5)]])
  show "failed env \<sigma> H s" if "reading env H L w s" for s using txn_ok_failed [OF reading_txn [OF ok that]] .
next
  fix x w1 assume "x = ps \<and> reading env H L w w1"
  then have x: "x = ps" and rd: "reading env H L w w1" by simp_all
  let ?F = "L - set ps" and ?w1 = "add_freed ps w1"
  have nz: "0 \<notin> set ps" using fl_chain_nonzero [OF ch(1)] .
  have ok1: "txn_ok env \<sigma> (n + k) H ?F ?w1" using add_freed_rule [OF reading_txn [OF ok rd] ch(3) nz ch(4)] .
  have z: "0 \<in> ?F" using ok nz by (simp add: txn_ok_def lists_ok_def)
  have s1: "same_pages ?F w ?w1" using rd by (auto simp: reading_def calm_def same_pages_def add_freed_def)
  have "free_lists w1 = free_lists w" using rd by (auto simp: reading_def calm_def free_lists_def dest: arg_cong [where f = freelist])
  moreover have "length (free_lists ?w1) = length (free_lists w1) + length ps" by (simp add: free_lists_def add_freed_def)
  ultimately have need: "chain_need (length (free_lists ?w1)) \<le> length [] + k" using k(1) by simp
  have step: "(let w = w1\<lparr>txn := (txn w1)\<lparr>freed := freed (txn w1) @ x\<rparr>\<rparr>
      in try_ok (chain_alloc (fuel env) env [] w) (\<lambda>chainIDs w.
        if chainIDs = [] then Some (Inr (), set_freelistRoot 0 w)
        else try_ok (chain_fill env (persist_ids w) 0 chainIDs w) (\<lambda>_ w. Some (Inr (), set_freelistRoot (hd chainIDs) w)))) =
    try_ok (chain_alloc (fuel env) env [] ?w1) (\<lambda>chainIDs w.
        if chainIDs = [] then Some (Inr (), set_freelistRoot 0 w)
        else try_ok (chain_fill env (persist_ids w) 0 chainIDs w) (\<lambda>_ w. Some (Inr (), set_freelistRoot (hd chainIDs) w)))"
    by (simp add: x add_freed_def)
  show "result_ok (let w = w1\<lparr>txn := (txn w1)\<lparr>freed := freed (txn w1) @ x\<rparr>\<rparr>
      in try_ok (chain_alloc (fuel env) env [] w) (\<lambda>chainIDs w.
        if chainIDs = [] then Some (Inr (), set_freelistRoot 0 w)
        else try_ok (chain_fill env (persist_ids w) 0 chainIDs w) (\<lambda>_ w. Some (Inr (), set_freelistRoot (hd chainIDs) w))))
    (failed env \<sigma> H) (\<lambda>_ w'. \<exists>new. persisted env \<sigma> n H ?F w new w')"
    unfolding step
  proof (rule try_ok_rule [OF chain_alloc_rule [OF ok1 need k(2)]])
    fix new w2
    assume "\<exists>new'. new = [] @ new' \<and> chain_taken env \<sigma> n H ?F ?w1 new' w2 \<and> length (free_lists w2) \<le> length new * 510 \<and> (length new - 1) * 510 \<le> length (free_lists w2)"
    then have ct: "chain_taken env \<sigma> n H ?F ?w1 new w2" and lens: "length (free_lists w2) \<le> length new * 510" "(length new - 1) * 510 \<le> length (free_lists w2)" by simp_all
    have lp: "length (persist_ids w2) = length (free_lists w2)" by (simp add: persist_ids_def free_lists_def)
    have new: "distinct new" "set new \<inter> ?F = {}" "set new \<subseteq> set (allocated (txn w2))" "txn_ok env \<sigma> n H (?F \<union> set new) w2" "same_pages ?F ?w1 w2"
      using ct by (simp_all add: chain_taken_def)
    have nz2: "0 \<notin> set new" using new(2) z by blast
    have fin: "persisted env \<sigma> n H ?F w new (set_freelistRoot (chain_head new) w3)"
      if w3: "txn_ok env \<sigma> n H (?F \<union> set new) w3" "same_pages ?F w2 w3" "fl_chain (V w3) new (persist_ids w3)" for w3
    proof -
      have "scenery w3 = scenery w" using w3(1) ok by (simp add: txn_ok_def)
      moreover have "persist_ids (set_freelistRoot r w3) = persist_ids w3" "V (set_freelistRoot r w3) = V w3" "freelistRoot (meta (txn (set_freelistRoot r w3))) = r" for r
        by (simp_all add: persist_ids_def set_freelistRoot_def)
      moreover have "same_pages ?F w (set_freelistRoot r w3)" for r using s1 new(5) w3(2) by (simp add: same_pages_def set_freelistRoot_def)
      ultimately show ?thesis using w3(3) new(1,2) set_freelistRoot_ok [OF w3(1)] scenery_root [of w3 w] by (simp add: persisted_def)
    qed
    show "result_ok (if new = [] then Some (Inr (), set_freelistRoot 0 w2)
        else try_ok (chain_fill env (persist_ids w2) 0 new w2) (\<lambda>_ w. Some (Inr (), set_freelistRoot (hd new) w))) (failed env \<sigma> H) (\<lambda>_ w'. \<exists>new. persisted env \<sigma> n H ?F w new w')"
    proof (cases "new = []")
      case True
      have "persisted env \<sigma> n H ?F w new (set_freelistRoot (chain_head new) w2)"
        using new(4) lens(1) lp True by (intro fin) simp_all
      then show ?thesis using True by (auto simp: result_ok_def)
    next
      case False
      have "result_ok (try_ok (chain_fill env (persist_ids w2) 0 new w2) (\<lambda>_ w. Some (Inr (), set_freelistRoot (hd new) w))) (failed env \<sigma> H) (\<lambda>_ w'. \<exists>new. persisted env \<sigma> n H ?F w new w')"
      proof (rule try_ok_rule [OF chain_fill_rule [OF new(4) _ new(3) nz2 new(1)]])
        fix u w3 assume a: "txn_ok env \<sigma> n H (?F \<union> set new) w3 \<and> same_pages (?F \<union> set new - set new) w2 w3 \<and> fl_chain (V w3) new (drop (0 * 510) (persist_ids w2)) \<and>
          txn w3 = txn w2 \<and> freelist (db w3) = freelist (db w2)"
        have "?F \<union> set new - set new = ?F" using new(2) by blast
        moreover have "persist_ids w3 = persist_ids w2" using a by (simp add: persist_ids_def)
        ultimately have "persisted env \<sigma> n H ?F w new (set_freelistRoot (chain_head new) w3)" using a by (intro fin) simp_all
        moreover have "hd new = chain_head new" using False by (cases new) simp_all
        ultimately show "result_ok (Some (Inr (), set_freelistRoot (hd new) w3)) (failed env \<sigma> H) (\<lambda>_ w'. \<exists>new. persisted env \<sigma> n H ?F w new w')" by (auto simp: result_ok_def)
      qed (use lens lp in auto)
      then show ?thesis using False by simp
    qed
  qed simp_all
qed

end
