(* ===== verification/PoolFlush.thy ===== *)
theory PoolFlush
  imports PoolInv "HOL-Library.Multiset"
begin

text \<open>
  Flushing: the runs that \<open>flushDirty\<close> forms, what one vectored write does to the file, and that a
  successful \<open>FlushPages\<close> leaves every listed page on disk as the pool shows it, whatever the order
  in which the group runs its tasks. Pages that are not listed keep their bytes on disk.
\<close>

section \<open>Runs of consecutive pages\<close>

definition npid :: "BufferPool \<Rightarrow> nat \<Rightarrow> nat" where
  "npid bp f = unat (pageId (frames bp ! f))"

definition is_run :: "BufferPool \<Rightarrow> nat list \<Rightarrow> bool" where
  "is_run bp run \<longleftrightarrow> run \<noteq> [] \<and> map (npid bp) run = [npid bp (hd run)..<npid bp (hd run) + length run]"

lemma take_run_spec:
  "\<forall>f \<in> insert prev (set fs). npid bp f < 2 ^ 48 \<Longrightarrow> take_run bp prev fs = (run, rest) \<Longrightarrow>
     map (npid bp) run = [Suc (npid bp prev)..<Suc (npid bp prev) + length run] \<and> run @ rest = fs"
proof (induction bp prev fs arbitrary: run rest rule: take_run.induct)
  case (1 bp prev)
  then show ?case by simp
next
  case (2 bp prev f fs)
  show ?case
  proof (cases "pageId (frames bp ! f) = pageId (frames bp ! prev) + 1")
    case True
    obtain run' rest' where r: "take_run bp f fs = (run', rest')" by fastforce
    have nf: "npid bp f = Suc (npid bp prev)"
      using True 2(2) unat_succ_u64 [of "pageId (frames bp ! prev)"] by (simp add: npid_def)
    have "map (npid bp) run' = [Suc (npid bp f)..<Suc (npid bp f) + length run'] \<and> run' @ rest' = fs"
      using 2(1) [OF True _ r] 2(2) by auto
    then show ?thesis using 2(3) True r nf by (auto simp: upt_conv_Cons simp del: upt_Suc)
  next
    case False
    then show ?thesis using 2(3) by auto
  qed
qed

lemma flush_runs_spec:
  "\<forall>f \<in> set fs. npid bp f < 2 ^ 48 \<Longrightarrow>
     concat (flush_runs bp fs) = fs \<and> (\<forall>run \<in> set (flush_runs bp fs). is_run bp run)"
proof (induction bp fs rule: flush_runs.induct)
  case (1 bp)
  then show ?case by simp
next
  case (2 bp f fs)
  obtain run rest where r: "take_run bp f fs = (run, rest)" by fastforce
  have sp: "map (npid bp) run = [Suc (npid bp f)..<Suc (npid bp f) + length run] \<and> run @ rest = fs"
    using take_run_spec [OF _ r] 2(2) by simp
  then have "\<forall>g \<in> set rest. npid bp g < 2 ^ 48" using 2(2) by auto
  then have "concat (flush_runs bp rest) = rest \<and> (\<forall>run \<in> set (flush_runs bp rest). is_run bp run)"
    using 2(1) r by simp
  moreover have "is_run bp (f # run)" using sp by (simp add: is_run_def upt_conv_Cons del: upt_Suc)
  ultimately show ?case using sp r by simp
qed

section \<open>One vectored write\<close>

lemma region_concat_pages:
  "\<forall>b \<in> set bufs. length b = 4096 \<Longrightarrow> k < length bufs \<Longrightarrow> region (concat bufs) (4096 * k) 4096 = bufs ! k"
proof (induction bufs arbitrary: k)
  case Nil
  then show ?case by simp
next
  case (Cons b bufs)
  then show ?case by (cases k) (simp_all add: region_def)
qed

lemma page_at_run:
  assumes "\<forall>b \<in> set bufs. length b = 4096" "k < length bufs" "unat q = p + k"
    "content s' = patch (content s) (4096 * p) (concat bufs)" "4096 * (p + length bufs) \<le> length (content s)"
  shows "page_at s' q = bufs ! k"
proof -
  have "length (concat bufs) = 4096 * length bufs" using assms(1) by (rule length_concat_pages)
  then have "region (content s') (4096 * p + 4096 * k) 4096 = region (concat bufs) (4096 * k) 4096"
    unfolding assms(4) using assms(2,5) by (intro region_patch_within) auto
  then show ?thesis using region_concat_pages [OF assms(1,2)] assms(3) by (simp add: page_at_def algebra_simps)
qed

lemma page_at_outside:
  assumes "content s' = patch (content s) (4096 * p) bs" "length bs \<le> 4096 * n" "4096 * (p + n) \<le> length (content s)"
    "unat q < p \<or> p + n \<le> unat q"
  shows "page_at s' q = page_at s q"
  using assms(4)
proof
  assume "unat q < p"
  then show ?thesis unfolding page_at_def assms(1) using assms(2,3) by (intro region_patch_below) auto
next
  assume "p + n \<le> unat q"
  then show ?thesis unfolding page_at_def assms(1) using assms(2,3) by (intro region_patch_above) auto
qed

section \<open>One task\<close>

definition clean_all :: "BufferPool \<Rightarrow> nat list \<Rightarrow> BufferPool" where
  "clean_all bp run = foldl (\<lambda>bp f. if evicting (frames bp ! f) then bp else set_frame f (\<lambda>p. p\<lparr>dirty := False\<rparr>) bp) bp run"

lemma clean_all_frames:
  "\<forall>f \<in> set run. f < length (frames bp) \<and> \<not> evicting (frames bp ! f) \<Longrightarrow>
     length (frames (clean_all bp run)) = length (frames bp) \<and> shards (clean_all bp run) = shards bp \<and> sm (clean_all bp run) = sm bp \<and>
     (\<forall>g < length (frames bp). frames (clean_all bp run) ! g = (if g \<in> set run then (frames bp ! g)\<lparr>dirty := False\<rparr> else frames bp ! g))"
proof (induction run arbitrary: bp)
  case Nil
  then show ?case by (simp add: clean_all_def)
next
  case (Cons f run)
  let ?bp = "set_frame f (\<lambda>p. p\<lparr>dirty := False\<rparr>) bp"
  have "clean_all bp (f # run) = clean_all ?bp run" using Cons.prems by (simp add: clean_all_def)
  moreover have "\<forall>g \<in> set run. g < length (frames ?bp) \<and> \<not> evicting (frames ?bp ! g)"
    using Cons.prems by (auto simp: nth_set_frame)
  note ih = Cons.IH [OF this]
  moreover have "frames ?bp ! g = (if g = f then (frames bp ! f)\<lparr>dirty := False\<rparr> else frames bp ! g)" if "g < length (frames bp)" for g
    using that by (simp add: nth_set_frame)
  ultimately show ?case by auto
qed

text \<open>The effect of a task, and of a whole flush, on the frames \<open>fs\<close>: with no error they are clean and
  on disk; the disk changes at their pages only; nothing else about the pool changes.\<close>

definition flushed :: "PageId set \<Rightarrow> BufferPool \<Rightarrow> BufferPool \<Rightarrow> nat set \<Rightarrow> error option \<Rightarrow> bool" where
  "flushed S bp bp' fs err \<longleftrightarrow> pool_inv bp' {} \<and> clean_ok bp' S \<and> table_get bp' = table_get bp \<and>
     length (frames bp') = length (frames bp) \<and> length (content (sm bp')) = length (content (sm bp)) \<and> onDisk (sm bp') = onDisk (sm bp) \<and>
     (\<forall>g < length (frames bp). \<exists>d. frames bp' ! g = (frames bp ! g)\<lparr>dirty := d\<rparr> \<and> (g \<notin> fs \<longrightarrow> d = dirty (frames bp ! g))) \<and>
     (err = None \<longrightarrow> (\<forall>f \<in> fs. page_at (sm bp') (pageId (frames bp ! f)) = data (frames bp ! f) \<and> \<not> dirty (frames bp' ! f))) \<and>
     (\<forall>q. q \<notin> (\<lambda>f. pageId (frames bp ! f)) ` fs \<longrightarrow> page_at (sm bp') q = page_at (sm bp) q)"

lemma WritePagesContiguous_run:
  assumes spec: "pwritev_ok pw" "page_granular pw" and s: "sm_ok s" and bufs: "bufs \<noteq> []" "\<forall>b \<in> set bufs. length b = 4096"
    and pid: "4096 * (unat pid + length bufs) \<le> length (content s)" and fu: "length bufs < n"
  shows "\<exists>err s' bs. WritePagesContiguous n pw s pid bufs = Some (Ret (err, s')) \<and> fileSize s' = fileSize s \<and> onDisk s' = onDisk s \<and>
    length bs \<le> 4096 * length bufs \<and> content s' = patch (content s) (4096 * unat pid) bs \<and> (err = None \<longrightarrow> bs = concat bufs)"
proof -
  have "unat pid * 4096 + 4096 \<le> 4096 * (unat pid + length bufs)" using bufs(1) by (cases bufs) auto
  then have inf: "in_file s pid" using pid by (simp add: in_file_def)
  have fs: "fileSize s = int (length (content s))" "length (content s) \<le> 2 ^ 60" using s by (simp_all add: sm_ok_def)
  have off: "uint pid * 4096 = int (4096 * unat pid)" by simp
  have il: "int (4096 * unat pid) + int (4096 * length bufs) \<le> int (length (content s))" using pid by (simp add: algebra_simps flip: of_nat_add of_nat_mult)
  have nb: "4096 * length bufs \<le> 2 ^ 60" using pid fs(2) by simp
  then have w1: "int64 (int (length bufs) * 4096) = int (4096 * length bufs)" by (subst int64_small) auto
  have "int64 x = x" if "0 \<le> x" "x \<le> int (length (content s))" for x
    using that fs(2) by (intro int64_small) auto
  then have w2: "int64 (int (4096 * unat pid) + int (4096 * length bufs)) = int (4096 * unat pid) + int (4096 * length bufs)"
    using il by (meson add_nonneg_nonneg of_nat_0_le_iff)
  have "WritePagesContiguous n pw s pid bufs = pwritevFull n pw s bufs (int (4096 * unat pid))"
    using bufs(1) getOffset_in_file [OF s inf] w1 w2 il fs(1) unfolding WritePagesContiguous_def off by simp
  then show ?thesis using pwritevFull_pages [OF spec bufs(2) _ fs(2) fu, of "4096 * unat pid"] pid by (simp add: algebra_simps)
qed

definition env_ok :: "env \<Rightarrow> bool" where
  "env_ok env \<longleftrightarrow> pwritev_ok (pwritev env) \<and> page_granular (pwritev env) \<and> (\<forall>rs. mset (map fst (sched env rs)) = mset rs)"

lemma run_nth:
  assumes "is_run bp run" "k < length run"
  shows "npid bp (run ! k) = npid bp (hd run) + k"
proof -
  have "map (npid bp) run ! k = npid bp (hd run) + k" using assms by (simp add: is_run_def)
  then show ?thesis using assms(2) by simp
qed

lemma run_pages:
  assumes run: "is_run bp run" and q: "npid bp (hd run) \<le> unat q" "unat q < npid bp (hd run) + length run"
  shows "q \<in> (\<lambda>f. pageId (frames bp ! f)) ` set run"
proof -
  let ?k = "unat q - npid bp (hd run)"
  have k: "?k < length run" using q by simp
  have "npid bp (run ! ?k) = unat q" using run_nth [OF run k] q(1) by simp
  then have "pageId (frames bp ! (run ! ?k)) = q" by (simp add: npid_def word_unat_eq_iff)
  then show ?thesis using k by (metis image_eqI nth_mem)
qed

lemma clean_ok_disk:
  assumes inv: "pool_inv bp {}" and cl: "clean_ok bp S" and s: "sm_ok s" "length (content s) = length (content (sm bp))"
    and pages: "\<And>q. q \<notin> P \<Longrightarrow> page_at s q = page_at (sm bp) q"
    and dirty: "\<And>f. f < length (frames bp) \<Longrightarrow> pageId (frames bp ! f) \<in> P \<Longrightarrow> dirty (frames bp ! f)"
  shows "pool_inv (bp\<lparr>sm := s\<rparr>) {}" "clean_ok (bp\<lparr>sm := s\<rparr>) S"
proof -
  have inf: "in_file s q = in_file (sm bp) q" for q using s(2) by (rule in_file_cong)
  then show "pool_inv (bp\<lparr>sm := s\<rparr>) {}" using inv s(1) by (simp add: pool_inv_def)
  show "clean_ok (bp\<lparr>sm := s\<rparr>) S" unfolding clean_ok_def
  proof (intro allI impI)
    fix f assume f: "f < length (frames (bp\<lparr>sm := s\<rparr>))" "pageId (frames (bp\<lparr>sm := s\<rparr>) ! f) \<noteq> freePageId"
      "\<not> dirty (frames (bp\<lparr>sm := s\<rparr>) ! f)" "pageId (frames (bp\<lparr>sm := s\<rparr>) ! f) \<notin> S"
    then have "pageId (frames bp ! f) \<notin> P" using dirty by auto
    then show "data (frames (bp\<lparr>sm := s\<rparr>) ! f) = page_at (sm (bp\<lparr>sm := s\<rparr>)) (pageId (frames (bp\<lparr>sm := s\<rparr>) ! f))"
      using f cl pages by (simp add: clean_ok_def)
  qed
qed

lemma flush_task_ok:
  assumes inv: "pool_inv bp {}" and cl: "clean_ok bp S" and env: "env_ok env" and run: "is_run bp run" "length run < fuel env"
    and fr: "\<forall>f \<in> set run. f < length (frames bp) \<and> dirty (frames bp ! f)"
  shows "\<exists>err bp'. flush_task env bp run = Some (err, bp') \<and> flushed S bp bp' (set run) err"
proof -
  let ?pid = "pageId (frames bp ! hd run)" and ?n = "length run" and ?P = "(\<lambda>f. pageId (frames bp ! f)) ` set run"
  let ?bufs = "map (\<lambda>f. data (frames bp ! f)) run"
  have ne: "run \<noteq> []" using run(1) by (simp add: is_run_def)
  have bufs: "?bufs \<noteq> []" "\<forall>b \<in> set ?bufs. length b = 4096" using ne fr pool_invD(5) [OF inv] by (auto simp: frame_ok_def)
  have cached: "pageId (frames bp ! f) \<noteq> freePageId" if "f \<in> set run" for f
    using fr that pool_invD(5) [OF inv, of f] by (auto simp: frame_ok_def)
  have "in_file (sm bp) (pageId (frames bp ! last run))" using pool_invD(8) [OF inv] fr ne cached by simp
  moreover have "npid bp (last run) = unat ?pid + (?n - 1)" using run_nth [OF run(1), of "?n - 1"] ne by (simp add: last_conv_nth npid_def)
  ultimately have fits: "4096 * (unat ?pid + ?n) \<le> length (content (sm bp))" using ne by (cases run) (auto simp: in_file_def npid_def)
  obtain err s bs where w: "WritePagesContiguous (fuel env) (pwritev env) (sm bp) ?pid ?bufs = Some (Ret (err, s))"
    "fileSize s = fileSize (sm bp)" "length bs \<le> 4096 * ?n" "content s = patch (content (sm bp)) (4096 * unat ?pid) bs"
    "err = None \<longrightarrow> bs = concat ?bufs" "onDisk s = onDisk (sm bp)"
    using WritePagesContiguous_run [OF _ _ pool_invD(4) [OF inv] bufs, of "pwritev env" ?pid "fuel env"] env fits run(2)
    by (auto simp: env_ok_def)
  have len: "length (content s) = length (content (sm bp))" using w(3,4) fits by simp
  have sok: "sm_ok s" using sm_ok_same [OF pool_invD(4) [OF inv] len w(2)] .
  have out: "page_at s q = page_at (sm bp) q" if "q \<notin> ?P" for q
    using page_at_outside [OF w(4,3) fits, of q] run_pages [OF run(1), of q] that by (fastforce simp: npid_def)
  have dp: "dirty (frames bp ! f)" if "f < length (frames bp)" "pageId (frames bp ! f) \<in> ?P" for f
    using that fr cached frames_distinct_pages [OF inv that(1)] by auto
  have bp1: "pool_inv (bp\<lparr>sm := s\<rparr>) {}" "clean_ok (bp\<lparr>sm := s\<rparr>) S"
    using clean_ok_disk [OF inv cl sok len, of ?P] out dp by blast+
  show ?thesis
  proof (cases err)
    case (Some e)
    have "\<exists>d. frames bp ! g = (frames bp ! g)\<lparr>dirty := d\<rparr> \<and> (c \<longrightarrow> d = dirty (frames bp ! g))" for g c
      by (rule exI [of _ "dirty (frames bp ! g)"]) simp
    then have "flushed S bp (bp\<lparr>sm := s\<rparr>) (set run) err" using bp1 out len w(6) Some unfolding flushed_def by auto
    moreover have "flush_task env bp run = Some (err, bp\<lparr>sm := s\<rparr>)" using w(1) Some by (simp add: flush_task_def)
    ultimately show ?thesis by blast
  next
    case None
    let ?bp = "clean_all (bp\<lparr>sm := s\<rparr>) run"
    have fr1: "\<forall>f \<in> set run. f < length (frames (bp\<lparr>sm := s\<rparr>)) \<and> \<not> evicting (frames (bp\<lparr>sm := s\<rparr>) ! f)"
      using fr pool_invD(6) [OF inv] by auto
    note ca = clean_all_frames [OF fr1, simplified]
    have on_disk: "page_at s (pageId (frames bp ! f)) = data (frames bp ! f)" if f: "f \<in> set run" for f
    proof -
      obtain k where k: "k < ?n" "run ! k = f" using f by (auto simp: in_set_conv_nth)
      then have "unat (pageId (frames bp ! f)) = unat ?pid + k" using run_nth [OF run(1) k(1)] by (simp add: npid_def)
      then show ?thesis using page_at_run [OF bufs(2), of k _ "unat ?pid" s "sm bp"] k w(4,5) None fits by simp
    qed
    have upd: "frames ?bp ! g = (frames bp ! g)\<lparr>dirty := dirty (frames bp ! g) \<and> g \<notin> set run\<rparr>" if "g < length (frames bp)" for g
      using ca that by (cases "g \<in> set run") auto
    have "pool_inv ?bp {}"
    proof -
      have "frame_ok (frames ?bp ! g)" "pageId (frames ?bp ! g) = pageId (frames bp ! g)" "evicting (frames ?bp ! g) = evicting (frames bp ! g)"
        if "g < length (frames bp)" for g using pool_invD(5) [OF inv that] upd [OF that] by (auto simp: frame_ok_def)
      moreover have "table_get ?bp = table_get bp" "frames ?bp \<noteq> []" using ca pool_invD(2) [OF inv] by (auto simp: table_get_def)
      ultimately show ?thesis using bp1(1) ca unfolding pool_inv_def by auto
    qed
    moreover have "clean_ok ?bp S" using bp1(2) ca on_disk upd unfolding clean_ok_def by auto
    moreover have "table_get ?bp = table_get bp" using ca by (auto simp: table_get_def)
    moreover have "\<not> dirty (frames ?bp ! f)" if "f \<in> set run" for f using upd [of f] fr that by auto
    ultimately have "flushed S bp ?bp (set run) err" using ca on_disk out len w(6) None upd unfolding flushed_def by auto
    moreover have "flush_task env bp run = Some (err, ?bp)" using w(1) None by (simp add: flush_task_def clean_all_def)
    ultimately show ?thesis by blast
  qed
qed

section \<open>All tasks, in any order\<close>

lemma flushed_frame:
  assumes "flushed S bp bp' F e" "g < length (frames bp)"
  shows "pageId (frames bp' ! g) = pageId (frames bp ! g)" "data (frames bp' ! g) = data (frames bp ! g)"
    "pinCount (frames bp' ! g) = pinCount (frames bp ! g)" "g \<notin> F \<Longrightarrow> dirty (frames bp' ! g) = dirty (frames bp ! g)"
  using assms by (auto simp: flushed_def)

lemma flushed_refl:
  assumes "pool_inv bp {}" "clean_ok bp S"
  shows "flushed S bp bp {} e"
proof -
  have "\<exists>d. p = p\<lparr>dirty := d\<rparr> \<and> d = dirty p" for p :: Page by (rule exI [of _ "dirty p"]) simp
  then show ?thesis using assms by (simp add: flushed_def)
qed

lemma flushed_mono:
  assumes "flushed S bp bp' F (Some e)" "F \<subseteq> G"
  shows "flushed S bp bp' G (Some e)"
proof -
  have "\<exists>d. frames bp' ! g = (frames bp ! g)\<lparr>dirty := d\<rparr> \<and> (g \<notin> G \<longrightarrow> d = dirty (frames bp ! g))" if "g < length (frames bp)" for g
    using assms that unfolding flushed_def by blast
  moreover have "page_at (sm bp') q = page_at (sm bp) q" if "q \<notin> (\<lambda>f. pageId (frames bp ! f)) ` G" for q
    using assms that unfolding flushed_def by blast
  ultimately show ?thesis using assms(1) unfolding flushed_def by simp
qed

lemma flushed_trans:
  assumes inv: "pool_inv a {}" and ab: "flushed S a b F e1" and bc: "flushed S b c G e2" and disj: "F \<inter> G = {}"
    and cached: "\<forall>f \<in> F \<union> G. f < length (frames a) \<and> pageId (frames a ! f) \<noteq> freePageId"
    and e: "e = None \<longrightarrow> e1 = None \<and> e2 = None"
  shows "flushed S a c (F \<union> G) e"
proof -
  have len: "length (frames b) = length (frames a)" using ab by (simp add: flushed_def)
  have pg: "pageId (frames b ! g) = pageId (frames a ! g)" "data (frames b ! g) = data (frames a ! g)" if "g < length (frames a)" for g
    using flushed_frame [OF ab that] by simp_all
  have img: "(\<lambda>f. pageId (frames b ! f)) ` G = (\<lambda>f. pageId (frames a ! f)) ` G" using cached pg by (intro image_cong) auto
  have notG: "pageId (frames a ! f) \<notin> (\<lambda>f. pageId (frames a ! f)) ` G" if "f \<in> F" for f
  proof
    assume "pageId (frames a ! f) \<in> (\<lambda>f. pageId (frames a ! f)) ` G"
    then obtain g where g: "g \<in> G" "pageId (frames a ! f) = pageId (frames a ! g)" by blast
    then have "f = g" using that cached by (intro frames_distinct_pages [OF inv]) auto
    then show False using that g(1) disj by blast
  qed
  have "\<exists>d. frames c ! g = (frames a ! g)\<lparr>dirty := d\<rparr> \<and> (g \<notin> F \<union> G \<longrightarrow> d = dirty (frames a ! g))" if gl: "g < length (frames a)" for g
  proof -
    obtain d1 where "frames b ! g = (frames a ! g)\<lparr>dirty := d1\<rparr>" "g \<notin> F \<longrightarrow> d1 = dirty (frames a ! g)"
      using ab gl unfolding flushed_def by blast
    moreover obtain d2 where "frames c ! g = (frames b ! g)\<lparr>dirty := d2\<rparr>" "g \<notin> G \<longrightarrow> d2 = dirty (frames b ! g)"
      using bc gl len unfolding flushed_def by metis
    ultimately show ?thesis by (intro exI [of _ d2]) simp
  qed
  moreover have "page_at (sm c) (pageId (frames a ! f)) = data (frames a ! f)" if "e = None" "f \<in> F \<union> G" for f
    using that e ab bc notG [of f] img pg [of f] cached unfolding flushed_def by auto
  moreover have "\<not> dirty (frames c ! f)" if "e = None" "f \<in> F \<union> G" for f
  proof (cases "f \<in> G")
    case True
    then show ?thesis using that(1) e bc unfolding flushed_def by blast
  next
    case False
    then have "dirty (frames c ! f) = dirty (frames b ! f)" using flushed_frame(4) [OF bc] that(2) cached len by auto
    then show ?thesis using False that e ab unfolding flushed_def by blast
  qed
  moreover have "page_at (sm c) q = page_at (sm a) q" if "q \<notin> (\<lambda>f. pageId (frames a ! f)) ` (F \<union> G)" for q
    using that ab bc img unfolding flushed_def by (simp add: image_Un)
  ultimately show ?thesis using ab bc len unfolding flushed_def by auto
qed

lemma flush_tasks_ok:
  assumes env: "env_ok env"
  shows "pool_inv bp {} \<Longrightarrow> clean_ok bp S \<Longrightarrow> distinct (concat (map fst rs)) \<Longrightarrow>
    \<forall>(run, late) \<in> set rs. is_run bp run \<and> length run < fuel env \<Longrightarrow>
    \<forall>f \<in> set (concat (map fst rs)). f < length (frames bp) \<and> dirty (frames bp ! f) \<Longrightarrow>
    \<exists>err bp'. flush_tasks env first bp rs = Some (err, bp') \<and> flushed S bp bp' (set (concat (map fst rs))) err \<and>
      (first \<noteq> None \<longrightarrow> err = first)"
proof (induction rs arbitrary: bp first)
  case Nil
  then show ?case using flushed_refl by simp
next
  case (Cons r rs)
  obtain run late where r: "r = (run, late)" by fastforce
  let ?G = "set (concat (map fst rs))"
  show ?case
  proof (cases "first \<noteq> None \<and> late")
    case True
    then obtain e where e: "first = Some e" by auto
    obtain err bp' where "flush_tasks env first bp rs = Some (err, bp')" "flushed S bp bp' ?G err" "err = Some e"
      using Cons.IH [of bp first] Cons.prems e by auto
    then show ?thesis using True r flushed_mono [of S bp bp' ?G e "set (concat (map fst (r # rs)))"] e by simp
  next
    case False
    obtain e1 bp1 where t: "flush_task env bp run = Some (e1, bp1)" "flushed S bp bp1 (set run) e1"
      using flush_task_ok [OF Cons.prems(1,2) env, of run] Cons.prems(4,5) r by auto
    have len: "length (frames bp1) = length (frames bp)" using t(2) by (simp add: flushed_def)
    have fg: "f < length (frames bp)" "f \<notin> set run" "dirty (frames bp ! f)" if "f \<in> ?G" for f
      using that Cons.prems(3,5) r by auto
    have np: "npid bp1 f = npid bp f" if "f < length (frames bp)" for f using flushed_frame(1) [OF t(2) that] by (simp add: npid_def)
    have runs: "is_run bp1 run' \<and> length run' < fuel env" if "(run', late') \<in> set rs" for run' late'
    proof -
      have "is_run bp run'" "length run' < fuel env" using Cons.prems(4) that by auto
      moreover have "set run' \<subseteq> ?G" using that by force
      then have "\<forall>f \<in> set run'. npid bp1 f = npid bp f" using np fg(1) by auto
      ultimately show ?thesis by (auto simp: is_run_def cong: map_cong)
    qed
    obtain err bp2 where rest: "flush_tasks env (if first = None then e1 else first) bp1 rs = Some (err, bp2)"
      "flushed S bp1 bp2 ?G err" "(if first = None then e1 else first) \<noteq> None \<longrightarrow> err = (if first = None then e1 else first)"
    proof -
      have "pool_inv bp1 {}" "clean_ok bp1 S" using t(2) by (simp_all add: flushed_def)
      moreover have "\<forall>f \<in> ?G. f < length (frames bp1) \<and> dirty (frames bp1 ! f)"
        using fg len flushed_frame(4) [OF t(2)] by simp
      ultimately show ?thesis
        using Cons.IH [of bp1 "if first = None then e1 else first"] Cons.prems(3) runs that by fastforce
    qed
    have cached: "\<forall>f \<in> set run \<union> ?G. f < length (frames bp) \<and> pageId (frames bp ! f) \<noteq> freePageId"
      using Cons.prems(5) r pool_invD(5) [OF Cons.prems(1)] by (auto simp: frame_ok_def)
    have "flushed S bp bp2 (set run \<union> ?G) err"
    proof -
      have "set run \<inter> ?G = {}" using fg(2) by blast
      moreover have "err = None \<longrightarrow> e1 = None \<and> err = None" using rest(3) by (cases first; cases e1) simp_all
      ultimately show ?thesis by (intro flushed_trans [OF Cons.prems(1) t(2) rest(2) _ cached])
    qed
    then show ?thesis using False t(1) rest(1,3) r by (auto split: if_splits)
  qed
qed

lemma mset_concat_perm: "mset xs = mset ys \<Longrightarrow> mset (concat xs) = mset (concat ys)"
  by (metis mset_concat mset_map sum_mset_sum_list)

lemma length_le_concat: "x \<in> set xs \<Longrightarrow> length x \<le> length (concat xs)"
  by (induction xs) auto

lemma flushDirty_ok:
  assumes inv: "pool_inv bp {}" and cl: "clean_ok bp S" and env: "env_ok env" and fu: "enough_fuel env (length (frames bp))"
    and ds: "distinct ds" "\<forall>f \<in> set ds. f < length (frames bp) \<and> dirty (frames bp ! f)"
  shows "\<exists>err bp'. flushDirty env bp ds = Some (err, bp') \<and> flushed S bp bp' (set ds) err"
proof (cases "ds = []")
  case True
  then show ?thesis using flushed_refl [OF inv cl] by (simp add: flushDirty_def)
next
  case False
  let ?ds = "sort_key (\<lambda>f. pageId (frames bp ! f)) ds"
  let ?runs = "flush_runs bp ?ds" and ?rs = "sched env (flush_runs bp (sort_key (\<lambda>f. pageId (frames bp ! f)) ds))"
  have "npid bp f < 2 ^ 48" if "f \<in> set ds" for f
  proof -
    have "pageId (frames bp ! f) \<noteq> freePageId" using that ds(2) pool_invD(5) [OF inv, of f] by (auto simp: frame_ok_def)
    then show ?thesis using that ds(2) pool_invD(8) [OF inv, of f] in_file_small [OF pool_invD(4) [OF inv]] by (simp add: npid_def)
  qed
  then have runs: "concat ?runs = ?ds" "\<forall>run \<in> set ?runs. is_run bp run" using flush_runs_spec [of ?ds bp] by simp_all
  have perm: "mset (map fst ?rs) = mset ?runs" using env by (simp add: env_ok_def)
  then have "mset (concat (map fst ?rs)) = mset ds" using mset_concat_perm [OF perm] runs(1) by simp
  then have cs: "set (concat (map fst ?rs)) = set ds" "distinct (concat (map fst ?rs))"
    using ds(1) mset_eq_setD mset_eq_imp_distinct_iff by blast+
  have short: "length run < fuel env" if "run \<in> set ?runs" for run
  proof -
    have "length run \<le> length (concat ?runs)" using that by (rule length_le_concat)
    also have "\<dots> = length ds" using runs(1) by simp
    also have "\<dots> = card (set ds)" using ds(1) by (simp add: distinct_card)
    also have "\<dots> \<le> card {..<length (frames bp)}" using ds(2) by (intro card_mono) auto
    finally show ?thesis using fu by (simp add: enough_fuel_def)
  qed
  have sub: "set (map fst ?rs) = set ?runs" using perm by (rule mset_eq_setD)
  have "\<forall>(run, late) \<in> set ?rs. is_run bp run \<and> length run < fuel env"
  proof (intro ballI, clarify)
    fix run late assume "(run, late) \<in> set ?rs"
    then have "run \<in> set (map fst ?rs)" by force
    then have "run \<in> set ?runs" using sub by blast
    then show "is_run bp run \<and> length run < fuel env" using runs(2) short by blast
  qed
  then obtain err bp' where "flush_tasks env None bp ?rs = Some (err, bp')" "flushed S bp bp' (set ds) err"
    using flush_tasks_ok [OF env inv cl cs(2) _ ds(2) [folded cs(1)], of None] unfolding cs(1) by blast
  then show ?thesis using False by (simp add: flushDirty_def)
qed

text \<open>What a flush of the pages \<open>pids\<close> promises its caller.\<close>

definition same_pins :: "BufferPool \<Rightarrow> BufferPool \<Rightarrow> bool" where
  "same_pins bp bp' \<longleftrightarrow> length (frames bp') = length (frames bp) \<and>
     (\<forall>g < length (frames bp). pageId (frames bp' ! g) = pageId (frames bp ! g) \<and> pinCount (frames bp' ! g) = pinCount (frames bp ! g))"

definition flush_ok :: "PageId set \<Rightarrow> BufferPool \<Rightarrow> PageId list \<Rightarrow> error option \<Rightarrow> BufferPool \<Rightarrow> bool" where
  "flush_ok S bp pids err bp' \<longleftrightarrow> pool_inv bp' {} \<and> clean_ok bp' S \<and> (\<forall>q. view bp' q = view bp q) \<and>
     length (content (sm bp')) = length (content (sm bp)) \<and> onDisk (sm bp') = onDisk (sm bp) \<and> same_pins bp bp' \<and> dirty_pages bp' \<subseteq> dirty_pages bp \<and>
     (\<forall>q. q \<notin> set pids \<longrightarrow> page_at (sm bp') q = page_at (sm bp) q) \<and>
     (err = None \<longrightarrow> (\<forall>pid \<in> set pids - S. page_at (sm bp') pid = view bp pid) \<and> dirty_pages bp' \<inter> set pids = {})"

lemma flushed_flush_ok:
  assumes inv: "pool_inv bp {}" and cl: "clean_ok bp S" and fl: "flushed S bp bp' F err"
    and F: "F = {f. f < length (frames bp) \<and> dirty (frames bp ! f) \<and> pageId (frames bp ! f) \<in> set pids}"
  shows "flush_ok S bp pids err bp'"
proof -
  have tg: "table_get bp' = table_get bp" using fl by (simp add: flushed_def)
  have dirty_in: "pageId (frames bp ! f) \<noteq> freePageId" if "f \<in> F" for f
    using that F pool_invD(5) [OF inv, of f] by (auto simp: frame_ok_def)
  have disk: "page_at (sm bp') q = page_at (sm bp) q" if "q \<notin> (\<lambda>f. pageId (frames bp ! f)) ` F" for q
    using fl that by (simp add: flushed_def)
  have view: "view bp' q = view bp q" for q
  proof (intro view_same [OF inv])
    show "table_get bp' q = table_get bp q" using tg by simp
    show "data (frames bp' ! g) = data (frames bp ! g)" if "g < length (frames bp)" for g
      using flushed_frame(2) [OF fl that] .
    assume none: "table_get bp q = None"
    have "q \<notin> (\<lambda>f. pageId (frames bp ! f)) ` F"
    proof
      assume "q \<in> (\<lambda>f. pageId (frames bp ! f)) ` F"
      then obtain f where f: "f \<in> F" "pageId (frames bp ! f) = q" by blast
      then have "f < length (frames bp)" using F by simp
      then show False using none pool_invD(9) [OF inv, of q f] dirty_in [OF f(1)] f(2) by simp
    qed
    then show "page_at (sm bp') q = page_at (sm bp) q" by (rule disk)
  qed
  have "page_at (sm bp') pid = view bp pid" if e: "err = None" and pid: "pid \<in> set pids" "pid \<notin> S" for pid
  proof (cases "table_get bp pid")
    case None
    then show ?thesis using view [of pid] tg by (simp add: view_def)
  next
    case (Some f)
    then have f: "f < length (frames bp)" "pageId (frames bp ! f) = pid" "pid \<noteq> freePageId" using pool_invD(9) [OF inv] by auto
    show ?thesis
    proof (cases "dirty (frames bp ! f)")
      case True
      then have "f \<in> F" using f pid F by simp
      then show ?thesis using fl e f(2) Some by (auto simp: flushed_def view_def)
    next
      case False
      have "pid \<notin> (\<lambda>f. pageId (frames bp ! f)) ` F"
      proof
        assume "pid \<in> (\<lambda>f. pageId (frames bp ! f)) ` F"
        then obtain g where "g \<in> F" "pageId (frames bp ! g) = pid" by blast
        then show False using False f F frames_distinct_pages [OF inv, of g f] by auto
      qed
      then show ?thesis using disk cl f False pid(2) Some by (simp add: clean_ok_def view_def)
    qed
  qed
  moreover have "page_at (sm bp') q = page_at (sm bp) q" if "q \<notin> set pids" for q using disk [of q] that F by blast
  moreover have len: "length (frames bp') = length (frames bp)" using fl by (simp add: flushed_def)
  then have "same_pins bp bp'" using flushed_frame(1,3) [OF fl] by (simp add: same_pins_def)
  moreover have dd: "dirty (frames bp ! g)" if "g < length (frames bp)" "dirty (frames bp' ! g)" for g
    using flushed_frame(4) [OF fl that(1)] that F by (cases "g \<in> F") auto
  then have "dirty_pages bp' \<subseteq> dirty_pages bp" unfolding dirty_pages_def using len flushed_frame(1) [OF fl] by force
  moreover have "dirty_pages bp' \<inter> set pids = {}" if e: "err = None"
  proof -
    have "\<not> dirty (frames bp' ! g)" if "g < length (frames bp)" "pageId (frames bp' ! g) \<in> set pids" for g
    proof
      assume d: "dirty (frames bp' ! g)"
      then have "g \<in> F" using dd [OF that(1)] that flushed_frame(1) [OF fl that(1)] F by simp
      then show False using fl e d by (auto simp: flushed_def)
    qed
    then show ?thesis unfolding dirty_pages_def using len by fastforce
  qed
  ultimately show ?thesis using fl view unfolding flush_ok_def flushed_def by blast
qed

lemma FlushPages_ok:
  assumes inv: "pool_inv bp {}" and cl: "clean_ok bp S" and env: "env_ok env" and fu: "enough_fuel env (length (frames bp))"
    and pids: "distinct pids"
  shows "\<exists>err bp'. FlushPages env bp pids = Some (err, bp') \<and> flush_ok S bp pids err bp'"
proof -
  define pick where "pick = (\<lambda>pid. case table_get bp pid of None \<Rightarrow> []
      | Some f \<Rightarrow> if evicting (frames bp ! f) \<or> \<not> dirty (frames bp ! f) then [] else [f])"
  have ev: "\<not> evicting (frames bp ! f)" if "f < length (frames bp)" for f using pool_invD(6) [OF inv that] by simp
  have set_pick: "set (pick pid) = {f. f < length (frames bp) \<and> dirty (frames bp ! f) \<and> pageId (frames bp ! f) = pid}" for pid
  proof -
    have "f \<in> set (pick pid) \<longleftrightarrow> table_get bp pid = Some f \<and> dirty (frames bp ! f)" for f
    proof (cases "table_get bp pid")
      case None
      then show ?thesis by (simp add: pick_def)
    next
      case (Some g)
      then have "\<not> evicting (frames bp ! g)" using ev [of g] pool_invD(9) [OF inv, of pid g] by simp
      then show ?thesis using Some by (auto simp: pick_def)
    qed
    moreover have "table_get bp pid = Some f \<and> dirty (frames bp ! f) \<longleftrightarrow>
        f < length (frames bp) \<and> dirty (frames bp ! f) \<and> pageId (frames bp ! f) = pid" for f
      using pool_invD(9) [OF inv, of pid f] pool_invD(5) [OF inv, of f] by (auto simp: frame_ok_def)
    ultimately show ?thesis by blast
  qed
  have dist: "distinct (concat (map pick pids))" using pids
  proof (induction pids)
    case (Cons p ps)
    have "distinct (pick p)" by (simp add: pick_def split: option.splits)
    moreover have "set (pick p) \<inter> set (concat (map pick ps)) = {}"
    proof -
      have "set (pick p) \<inter> set (pick q) = {}" if "q \<in> set ps" for q
        using that Cons.prems unfolding set_pick by auto
      then show ?thesis by auto
    qed
    ultimately show ?case using Cons by simp
  qed simp
  let ?F = "{f. f < length (frames bp) \<and> dirty (frames bp ! f) \<and> pageId (frames bp ! f) \<in> set pids}"
  have "set (concat (map pick pids)) = (\<Union>pid \<in> set pids. set (pick pid))" by simp
  also have "\<dots> = ?F" unfolding set_pick by auto
  finally have eq: "set (concat (map pick pids)) = ?F" .
  then have "\<forall>f \<in> set (concat (map pick pids)). f < length (frames bp) \<and> dirty (frames bp ! f)" by auto
  from flushDirty_ok [OF inv cl env fu dist this]
  obtain err bp' where "flushDirty env bp (concat (map pick pids)) = Some (err, bp')" "flushed S bp bp' ?F err"
    unfolding eq by blast
  then show ?thesis using flushed_flush_ok [OF inv cl _ refl] unfolding FlushPages_def pick_def by blast
qed

end
