(* ===== verification/Durable.thy ===== *)
theory Durable
  imports PersistInv PoolFlush
begin

text \<open>
  What reaches the file at the end of a transaction: the flush of its pages, the barrier and the header
  (\<open>commitMeta\<close> of \<^verbatim>\<open>src/meta.go\<close>), and the abort after an error.
\<close>

section \<open>Pages that survive a power failure\<close>

definition has_pages :: "(PageId \<rightharpoonup> bytes) \<Rightarrow> bytes \<Rightarrow> bool" where
  "has_pages C f \<longleftrightarrow> (\<forall>q bs. C q = Some bs \<longrightarrow> in_file (opened f) q \<and> page_at (opened f) q = bs)"

text \<open>The pages \<open>C\<close> are in the file and were there at the last sync, when the file had at least \<open>N\<close> bytes.\<close>

definition secure :: "(PageId \<rightharpoonup> bytes) \<Rightarrow> nat \<Rightarrow> StorageManager \<Rightarrow> bool" where
  "secure C N s \<longleftrightarrow> has_pages C (content s) \<and> has_pages C (onDisk s) \<and> N \<le> length (onDisk s) \<and> length (onDisk s) \<le> length (content s)"

lemma has_pages_content: "has_pages C (content s) \<longleftrightarrow> (\<forall>q bs. C q = Some bs \<longrightarrow> in_file s q \<and> page_at s q = bs)"
  by (simp add: has_pages_def)

lemma has_pagesD: "has_pages C f \<Longrightarrow> C q = Some bs \<Longrightarrow> in_file (opened f) q \<and> page_at (opened f) q = bs"
  by (simp add: has_pages_def)

lemma secure_page: "secure C N s \<Longrightarrow> C q = Some bs \<Longrightarrow> in_file s q \<and> page_at s q = bs"
  by (simp add: secure_def has_pages_content)

lemma secure_crash:
  assumes "secure C N s" "after_crash s f"
  shows "has_pages C f" "N \<le> length f" "sm_ok (opened f)"
proof -
  have cr: "length (onDisk s) \<le> length f" "4096 dvd length f" "length f \<le> 2 ^ 60"
    "\<And>q. in_file (opened (onDisk s)) q \<Longrightarrow> in_file s q \<Longrightarrow> page_at (opened (onDisk s)) q = page_at s q \<Longrightarrow> page_at (opened f) q = page_at s q"
    using assms(2) by (simp_all add: after_crash_def)
  show "N \<le> length f" "sm_ok (opened f)" using assms(1) cr(1-3) by (simp_all add: secure_def sm_ok_def)
  show "has_pages C f" unfolding has_pages_def
  proof (intro allI impI)
    fix q bs assume "C q = Some bs"
    then have "in_file s q \<and> page_at s q = bs" "in_file (opened (onDisk s)) q \<and> page_at (opened (onDisk s)) q = bs"
      using assms(1) has_pagesD by (auto simp: secure_def has_pages_content)
    then show "in_file (opened f) q \<and> page_at (opened f) q = bs" using cr(4) [of q] in_file_mono [of "opened (onDisk s)" "opened f" q] cr(1) by simp
  qed
qed

text \<open>No page of \<open>L\<close> or of \<open>C\<close> waits to be written, the file shows \<open>W\<close> on \<open>L\<close>, and \<open>C\<close> is safe.\<close>

definition settled :: "env \<Rightarrow> (PageId \<rightharpoonup> bytes) \<Rightarrow> nat \<Rightarrow> PageId set \<Rightarrow> (PageId \<Rightarrow> bytes) \<Rightarrow> BufferPool \<Rightarrow> bool" where
  "settled env C N L W bp \<longleftrightarrow> pool_ok env {#} L bp \<and> dirty_pages bp \<inter> (L \<union> dom C) = {} \<and> (\<forall>q \<in> L. page_at (sm bp) q = W q) \<and> secure C N (sm bp)"

lemma clean_view:
  assumes "pool_ok env H L bp" "q \<in> L" "q \<notin> dirty_pages bp"
  shows "view bp q = page_at (sm bp) q"
proof (cases "table_get bp q")
  case None
  then show ?thesis by (simp add: view_def)
next
  case (Some f)
  obtain S where S: "clean_ok bp S" "S \<inter> L = {}" using assms(1) by (auto simp: pool_ok_def)
  have "pool_inv bp {}" using assms(1) by (simp add: pool_ok_def)
  then have f: "f < length (frames bp)" "pageId (frames bp ! f) = q" "q \<noteq> freePageId" using Some pool_invD(9) by blast+
  then have "\<not> dirty (frames bp ! f)" using assms(3) dirty_pagesI by blast
  then show ?thesis using S assms(2) f Some unfolding clean_ok_def view_def by auto
qed

lemma quiet_page: "quiet W bp bp' \<Longrightarrow> in_file (sm bp) q \<Longrightarrow> q \<notin> dirty_pages bp \<Longrightarrow> q \<notin> W \<Longrightarrow> in_file (sm bp') q \<and> page_at (sm bp') q = page_at (sm bp) q"
  unfolding quiet_def using in_file_mono by blast

lemma quiet_secure:
  assumes "secure C N (sm bp)" "quiet W bp bp'" "dirty_pages bp \<inter> dom C = {}" "W \<inter> dom C = {}"
  shows "secure C N (sm bp')"
proof -
  have "in_file (sm bp') q \<and> page_at (sm bp') q = bs" if q: "C q = Some bs" for q bs
  proof -
    have "in_file (sm bp) q" "page_at (sm bp) q = bs" using secure_page [OF assms(1) q] by simp_all
    moreover have "q \<notin> dirty_pages bp" "q \<notin> W" using assms(3,4) q by blast+
    ultimately show ?thesis using quiet_page [OF assms(2)] by metis
  qed
  moreover have "onDisk (sm bp') = onDisk (sm bp)" "length (content (sm bp)) \<le> length (content (sm bp'))" using assms(2) by (simp_all add: quiet_def)
  ultimately show ?thesis using assms(1) by (simp add: secure_def has_pages_content)
qed

lemma txn_secure:
  assumes "txn_ok env \<sigma> n H L w" "has_pages (committed \<sigma>) (onDisk (sm (pool w)))"
  shows "secure (committed \<sigma>) (length (onDisk (sm (pool w)))) (sm (pool w))"
  using assms unfolding secure_def has_pages_content by (auto simp: txn_ok_def disk_ok_def)

text \<open>The file does not shrink.\<close>

definition grows :: "BufferPool \<Rightarrow> BufferPool \<Rightarrow> bool" where
  "grows bp bp' \<longleftrightarrow> (\<forall>q. in_file (sm bp) q \<longrightarrow> in_file (sm bp') q)"

lemma quiet_grows: "quiet W bp bp' \<Longrightarrow> grows bp bp'"
  unfolding quiet_def grows_def using in_file_mono by blast

lemma grows_trans: "grows a b \<Longrightarrow> grows b c \<Longrightarrow> grows a c"
  by (simp add: grows_def)

section \<open>Flushing the pages of the transaction\<close>

lemma holds_none: "holds {#} bp \<Longrightarrow> same_pins bp bp' \<Longrightarrow> holds {#} bp'"
  by (simp add: holds_def same_pins_def)

lemma flush_allocated:
  assumes ok: "txn_ok env \<sigma> n {#} L w" and env: "env_ok env" and sec: "secure (committed \<sigma>) N (sm (pool w))"
  shows "\<exists>err bp'. FlushPages env (pool w) (allocated (txn w)) = Some (err, bp') \<and> secure (committed \<sigma>) N (sm bp') \<and> grows (pool w) bp' \<and>
    (err = None \<longrightarrow> settled env (committed \<sigma>) N L (V w) bp')"
proof -
  have po: "pool_ok env {#} L (pool w)" and dk: "disk_ok (committed \<sigma>) L w" and fr: "fresh_ok (committed \<sigma>) w" using ok by (simp_all add: txn_ok_def read_ok_def)
  obtain S where S: "clean_ok (pool w) S" "S \<inter> L = {}" using po by (auto simp: pool_ok_def)
  have pre: "pool_inv (pool w) {}" "enough_fuel env (length (frames (pool w)))" "distinct (allocated (txn w))" "\<forall>q \<in> L. in_file (sm (pool w)) q" "holds {#} (pool w)"
    using po fr by (simp_all add: pool_ok_def fresh_ok_def)
  obtain err bp' where f: "FlushPages env (pool w) (allocated (txn w)) = Some (err, bp')" "flush_ok S (pool w) (allocated (txn w)) err bp'"
    using FlushPages_ok [OF pre(1) S(1) env pre(2,3)] by blast
  have fo: "pool_inv bp' {}" "clean_ok bp' S" "length (content (sm bp')) = length (content (sm (pool w)))" "same_pins (pool w) bp'"
    "dirty_pages bp' \<subseteq> dirty_pages (pool w)" "\<And>q. q \<notin> set (allocated (txn w)) \<Longrightarrow> page_at (sm bp') q = page_at (sm (pool w)) q" "onDisk (sm bp') = onDisk (sm (pool w))"
    using f(2) by (simp_all add: flush_ok_def)
  have inf: "in_file (sm bp') q = in_file (sm (pool w)) q" for q using fo(3) by (rule in_file_cong)
  have "set (allocated (txn w)) \<inter> dom (committed \<sigma>) = {}" using fr unfolding fresh_ok_def by blast
  then have "has_pages (committed \<sigma>) (content (sm bp'))" using secure_page [OF sec] fo(6) inf unfolding has_pages_content by (metis disjoint_iff domI)
  then have has: "secure (committed \<sigma>) N (sm bp')" using sec fo(3,7) by (simp add: secure_def)
  have "settled env (committed \<sigma>) N L (V w) bp'" if e: "err = None"
  proof -
    have fe: "\<And>q. q \<in> set (allocated (txn w)) \<Longrightarrow> q \<notin> S \<Longrightarrow> page_at (sm bp') q = V w q" "dirty_pages bp' \<inter> set (allocated (txn w)) = {}"
      using f(2) e by (auto simp: flush_ok_def)
    have "length (frames bp') = length (frames (pool w))" using fo(4) by (simp add: same_pins_def)
    then have "pool_ok env {#} L bp'" using fo(1,2) S(2) pre(2,4) inf holds_none [OF pre(5) fo(4)] unfolding pool_ok_def by auto
    moreover have "dirty_pages bp' \<inter> (L \<union> dom (committed \<sigma>)) = {}" using fo(5) fe(2) dk unfolding disk_ok_def by blast
    moreover have "page_at (sm bp') q = V w q" if q: "q \<in> L" for q
    proof (cases "q \<in> set (allocated (txn w))")
      case True
      then show ?thesis using fe(1) S(2) q by blast
    next
      case False
      then have "q \<notin> dirty_pages (pool w)" using dk q unfolding disk_ok_def by blast
      then show ?thesis using clean_view [OF po q] fo(6) [OF False] by simp
    qed
    ultimately show ?thesis using has by (simp add: settled_def)
  qed
  moreover have "grows (pool w) bp'" using inf by (simp add: grows_def)
  ultimately show ?thesis using f(1) has by blast
qed

section \<open>The barrier\<close>

lemma Sync_fields:
  "content (snd (Sync s)) = content s" "fileSize (snd (Sync s)) = fileSize s" "onDisk (snd (Sync s)) = (if fst (Sync s) = None then content s else onDisk s)"
  by (auto simp: Sync_def fsyncFile_def next_io_def split: list.splits io.splits)

lemma SyncPool_cases:
  assumes "SyncPool bp = (err, bp')"
  obtains s where "bp' = bp\<lparr>sm := s\<rparr>" "content s = content (sm bp)" "fileSize s = fileSize (sm bp)"
    "onDisk s = (if err = None then content (sm bp) else onDisk (sm bp))"
  using that [of "snd (Sync (sm bp))"] assms Sync_fields [of "sm bp"] by (auto simp: SyncPool_def Let_def split_beta)

lemma sync_grows: "SyncPool bp = (err, bp') \<Longrightarrow> grows bp bp'"
  by (erule SyncPool_cases) (auto simp: grows_def in_file_def)

lemma secure_sync: "secure C N (sm bp) \<Longrightarrow> SyncPool bp = (err, bp') \<Longrightarrow> secure C N (sm bp')"
  by (erule SyncPool_cases) (auto simp: secure_def split: if_splits)

lemma settled_sync:
  assumes "settled env C N L W bp" "SyncPool bp = (err, bp')"
  shows "settled env C N L W bp'"
proof -
  obtain s where s: "bp' = bp\<lparr>sm := s\<rparr>" "content s = content (sm bp)" "fileSize s = fileSize (sm bp)" using SyncPool_cases [OF assms(2)] by metis
  have po: "pool_ok env {#} L bp" using assms(1) by (simp add: settled_def)
  have pg: "page_at s q = page_at (sm bp) q" "in_file s q = in_file (sm bp) q" for q using s(2) by (simp_all add: page_at_def in_file_def)
  obtain S where S: "clean_ok bp S" "S \<inter> L = {}" using po by (auto simp: pool_ok_def)
  have inv: "pool_inv bp {}" "sm_ok (sm bp)" using po pool_invD(4) by (auto simp: pool_ok_def)
  have "sm_ok s" using inv(2) s(2,3) by (simp add: sm_ok_def)
  from clean_ok_disk [OF inv(1) S(1) this, of "{}"] pg s(2) have "pool_inv bp' {}" "clean_ok bp' S" by (simp_all add: s(1))
  then have "pool_ok env {#} L bp'" using po S(2) pg unfolding pool_ok_def s(1) by (auto simp: holds_def)
  moreover have "dirty_pages bp' = dirty_pages bp" by (simp add: dirty_pages_def s(1))
  moreover have "secure C N (sm bp')" using secure_sync [OF _ assms(2)] assms(1) by (simp add: settled_def)
  ultimately show ?thesis using assms(1) pg by (simp add: settled_def s(1))
qed

text \<open>Once everything is synced, all that the file shows is safe.\<close>

lemma settled_synced:
  assumes "settled env C N L W bp" "onDisk (sm bp) = content (sm bp)" "dom C' \<subseteq> L \<union> dom C" "\<And>q bs. C' q = Some bs \<Longrightarrow> page_at (sm bp) q = bs"
  shows "settled env C' (length (onDisk (sm bp))) L W bp"
proof -
  have st: "pool_ok env {#} L bp" "dirty_pages bp \<inter> (L \<union> dom C) = {}" "secure C N (sm bp)" using assms(1) by (simp_all add: settled_def)
  have "in_file (sm bp) q" if "q \<in> dom C'" for q
    using that assms(3) st(1) secure_page [OF st(3)] by (auto simp: pool_ok_def)
  then have "has_pages C' (content (sm bp))" using assms(4) by (auto simp: has_pages_content)
  then have "secure C' (length (onDisk (sm bp))) (sm bp)" using assms(2) by (simp add: secure_def)
  moreover have "dirty_pages bp \<inter> (L \<union> dom C') = {}" using st(2) assms(3) by blast
  ultimately show ?thesis using assms(1) by (simp add: settled_def)
qed

section \<open>One page\<close>

lemma FlushPage_rule:
  assumes po: "pool_ok env {#} L bp" and pid: "pid \<in> L"
  shows "\<exists>err bp'. FlushPage bp pid = Some (err, bp') \<and> (\<forall>q. q \<noteq> pid \<longrightarrow> page_at (sm bp') q = page_at (sm bp) q) \<and> (\<forall>q. in_file (sm bp') q = in_file (sm bp) q) \<and>
    length (content (sm bp')) = length (content (sm bp)) \<and> onDisk (sm bp') = onDisk (sm bp) \<and>
    (err = None \<longrightarrow> pool_ok env {#} L bp' \<and> page_at (sm bp') pid = view bp pid \<and> dirty_pages bp' \<subseteq> dirty_pages bp - {pid})"
proof -
  have inv: "pool_inv bp {}" using po by (simp add: pool_ok_def)
  obtain S where S: "clean_ok bp S" "S \<inter> L = {}" using po by (auto simp: pool_ok_def)
  have idle: ?thesis if "FlushPage bp pid = Some (None, bp)" "pid \<notin> dirty_pages bp"
    using that clean_view [OF po pid that(2)] po by auto
  show ?thesis
  proof (cases "table_get bp pid")
    case None
    then have "pid \<notin> dirty_pages bp" using dirty_pages_cached [OF inv] by force
    moreover have "FlushPage bp pid = Some (None, bp)" by (simp add: None FlushPage_def)
    ultimately show ?thesis using idle by blast
  next
    case (Some f)
    then have f: "f < length (frames bp)" "pageId (frames bp ! f) = pid" "pid \<noteq> freePageId" using pool_invD(9) [OF inv] by blast+
    have ev: "\<not> evicting (frames bp ! f)" using pool_invD(6) [OF inv f(1)] by simp
    have other: "g = f" if "g < length (frames bp)" "pageId (frames bp ! g) = pid" for g using frames_distinct_pages [OF inv that(1) f(1)] that(2) f by simp
    show ?thesis
    proof (cases "dirty (frames bp ! f)")
      case False
      then have "pid \<notin> dirty_pages bp" using other by (auto simp: dirty_pages_def)
      moreover have "FlushPage bp pid = Some (None, bp)" using Some False by (simp add: FlushPage_def)
      ultimately show ?thesis using idle by blast
    next
      case True
      have inf: "in_file (sm bp) pid" using po pid by (simp add: pool_ok_def)
      have len: "length (data (frames bp ! f)) = 4096" using pool_invD(5) [OF inv f(1)] by (simp add: frame_ok_def)
      from pool_invD(4) [OF inv] inf len show ?thesis
      proof (cases rule: WritePage_cases)
        case (torn s m)
        have l: "length (content s) = length (content (sm bp))" using torn(2) inf len by (simp add: in_file_def)
        have "page_at s q = page_at (sm bp) q" if "q \<noteq> pid" for q using page_at_other [OF inf torn(2) _ that] len by simp
        then show ?thesis using Some True ev torn(1,4) l in_file_cong [OF l] by (simp add: FlushPage_def Let_def)
      next
        case (ok s)
        have l: "length (content s) = length (content (sm bp))" using ok(2) inf len by (simp add: in_file_def)
        have pg: "page_at s q = page_at (sm bp) q" if "q \<noteq> pid" for q using page_at_other [OF inf ok(2) _ that] len by simp
        have pid': "page_at s pid = data (frames bp ! f)" using page_at_written [OF inf ok(2) len] .
        let ?bp = "set_frame f (\<lambda>p. p\<lparr>dirty := False\<rparr>) (bp\<lparr>sm := s\<rparr>)"
        have sk: "sm_ok s" using sm_ok_same [OF pool_invD(4) [OF inv] l ok(3)] .
        have c1: "pool_inv (bp\<lparr>sm := s\<rparr>) {}" "clean_ok (bp\<lparr>sm := s\<rparr>) S" using clean_ok_disk [OF inv S(1) sk l, of "{pid}"] pg True other by auto
        have fok: "frame_ok ((frames (bp\<lparr>sm := s\<rparr>) ! f)\<lparr>dirty := False\<rparr>)" using pool_invD(5) [OF inv f(1)] by (simp add: frame_ok_def)
        have f1: "f < length (frames (bp\<lparr>sm := s\<rparr>))" using f(1) by simp
        have up: "pool_inv ?bp {}" "table_get ?bp = table_get bp" "sm ?bp = s" "length (frames ?bp) = length (frames bp)"
          "\<And>h. h < length (frames bp) \<Longrightarrow> frames ?bp ! h = (if h = f then (frames bp ! f)\<lparr>dirty := False\<rparr> else frames bp ! h)"
          using frame_update_inv [OF c1(1) f1 refl, of "\<lambda>p. p\<lparr>dirty := False\<rparr>"] fok ev by (simp_all add: table_get_def)
        have "clean_ok ?bp S" using c1(2) f pid' up by (auto simp: clean_ok_def)
        moreover have "holds {#} ?bp" using po up by (auto simp: holds_def pool_ok_def)
        ultimately have "pool_ok env {#} L ?bp" using po up(1,3,4) S(2) in_file_cong [OF l] unfolding pool_ok_def by auto
        moreover have "dirty_pages ?bp \<subseteq> dirty_pages bp - {pid}"
        proof
          fix q assume "q \<in> dirty_pages ?bp"
          then obtain g where g: "g < length (frames bp)" "dirty (frames ?bp ! g)" "pageId (frames ?bp ! g) = q" unfolding dirty_pages_def up(4) by blast
          then have "g \<noteq> f" using up(5) [OF g(1)] by auto
          then show "q \<in> dirty_pages bp - {pid}" using g up(5) [OF g(1)] other [OF g(1)] dirty_pagesI [OF g(1)] by auto
        qed
        moreover have "page_at (sm ?bp) pid = view bp pid" using pid' up(3) Some by (simp add: view_def)
        moreover have "FlushPage bp pid = Some (None, ?bp)" using Some True ev ok(1) by (simp add: FlushPage_def Let_def)
        ultimately show ?thesis using pg up(3) l ok(4) in_file_cong [OF l] by auto
      qed
    qed
  qed
qed

end
