(* ===== verification/BulkLoad.thy ===== *)
theory BulkLoad
  imports Update
begin

text \<open>
  The bulk loader: \<^verbatim>\<open>src/bulkload.go\<close>. The spine holds the open node of each level, the leaf
  first. \<open>FillFactor\<close> is the rational value of a finite \<open>float64\<close>; scaling it by 4096 is
  exact, so the conversion to \<open>uint16\<close> is the integer part. The two decimal constants are written
  as the \<open>float64\<close> values they denote.
\<close>

record BulkLoader =
  spine :: "nat list"
  targetUsed :: u16
  lastKey :: "bytes option"
  finished :: bool

definition defaultBulkLoadFillFactor :: rat where
  "defaultBulkLoadFillFactor = 3152519739159347 / 4503599627370496"

definition minFillFactor :: rat where
  "minFillFactor = 5404319552844595 / 18014398509481984"

definition BeginBulkLoad :: "BTree \<Rightarrow> rat \<Rightarrow> error + BulkLoader" where
  "BeginBulkLoad t fillFactor =
     (if root t \<noteq> 0 then Inl ErrBTreeNotEmpty
      else
        (let f = fillFactor;
             f = (if f = 0 then defaultBulkLoadFillFactor else f);
             f = (if f < minFillFactor then minFillFactor else f);
             f = (if f > 1 then 1 else f)
         in Inr \<lparr>spine = [], targetUsed = of_int \<lfloor>of_nat PageSize * f\<rfloor>, lastKey = None, finished = False\<rparr>))"

text \<open>A step of the underlying tree, with the loader beside the state.\<close>

definition in_world :: "(world \<Rightarrow> ('a, world) outcome) \<Rightarrow> BulkLoader \<times> world \<Rightarrow> ('a, BulkLoader \<times> world) outcome" where
  "in_world m = (\<lambda>(l, w). do { (r, w) \<leftarrow> m w; Some (r, (l, w)) })"

definition modify_node :: "nat \<Rightarrow> (bytes \<Rightarrow> bytes option) \<Rightarrow> BulkLoader \<times> world \<Rightarrow> (BulkLoader \<times> world) option" where
  "modify_node f g = (\<lambda>(l, w). do { w \<leftarrow> modify f g w; Some (l, w) })"

definition shouldRollLeaf :: "BulkLoader \<Rightarrow> bytes \<Rightarrow> u16 \<Rightarrow> bool option" where
  "shouldRollLeaf l leaf sz = do {
     n \<leftarrow> nCells leaf;
     if n = 0 then Some False
     else do {
       free \<leftarrow> freeSpace leaf;
       if free < sz + 2 then Some True
       else (let used = of_nat PageSize - free in Some (used + sz + 2 > targetUsed l))
     }
   }"

definition shouldRollInternal :: "BulkLoader \<Rightarrow> bytes \<Rightarrow> u16 \<Rightarrow> bool option" where
  "shouldRollInternal l nd sz = do {
     n \<leftarrow> nCells nd;
     if n = 0 then Some False
     else do {
       free \<leftarrow> freeSpace nd;
       if free < sz + 2 then Some True
       else (let used = of_nat PageSize - free in Some (used + sz + 2 > targetUsed l))
     }
   }"

text \<open>\<open>promote\<close>: the first argument counts the levels still possible.\<close>

fun promote_loop :: "nat \<Rightarrow> env \<Rightarrow> nat \<Rightarrow> PageId \<Rightarrow> bytes \<Rightarrow> PageId \<Rightarrow> BulkLoader \<times> world \<Rightarrow> (unit, BulkLoader \<times> world) outcome" where
  "promote_loop 0 env level oldChild sepKey newChild s = None"
| "promote_loop (Suc n) env level oldChild sepKey newChild (l, w) =
     (if level \<ge> length (spine l)
      then try_ok (in_world (allocInternal env) (l, w)) (\<lambda>f s. do {
        s \<leftarrow> modify_node f (\<lambda>d. appendInternalCell d oldChild sepKey) s;
        (l, w) \<leftarrow> modify_node f (\<lambda>d. setRightmostChild d newChild) s;
        Some (Inr (), (l\<lparr>spine := spine l @ [f]\<rparr>, w))
      })
      else do {
        let cur = spine l ! level;
        let sz = internalCellSize sepKey;
        roll \<leftarrow> shouldRollInternal l (node_data w cur) sz;
        r \<leftarrow> rightmostChild (node_data w cur);
        _ \<leftarrow> go_assert (r = oldChild);
        if roll then do {
          let curID = Id w cur;
          w \<leftarrow> node_unpin cur w;
          try_ok (in_world (allocInternal env) (l, w)) (\<lambda>newCur s. do {
            (l, w) \<leftarrow> modify_node newCur (\<lambda>d. setRightmostChild d newChild) s;
            let l = l\<lparr>spine := (spine l)[level := newCur]\<rparr>;
            promote_loop n env (Suc level) curID sepKey (Id w newCur) (l, w)
          })
        } else do {
          s \<leftarrow> modify_node cur (\<lambda>d. appendInternalCell d oldChild sepKey) (l, w);
          s \<leftarrow> modify_node cur (\<lambda>d. setRightmostChild d newChild) s;
          Some (Inr (), s)
        }
      })"

definition promote :: "env \<Rightarrow> nat \<Rightarrow> PageId \<Rightarrow> bytes \<Rightarrow> PageId \<Rightarrow> BulkLoader \<times> world \<Rightarrow> (unit, BulkLoader \<times> world) outcome" where
  "promote env level oldChild sepKey newChild s =
     promote_loop (Suc (length (spine (fst s)))) env level oldChild sepKey newChild s"

text \<open>\<open>append(l.lastKey[:0], key...)\<close> of an empty key to a \<open>nil\<close> slice is still \<open>nil\<close>.\<close>

definition remember_key :: "bytes option \<Rightarrow> bytes \<Rightarrow> bytes option" where
  "remember_key old k = (if old = None \<and> k = [] then None else Some k)"

definition open_leaf :: "env \<Rightarrow> BulkLoader \<times> world \<Rightarrow> (unit, BulkLoader \<times> world) outcome" where
  "open_leaf env = (\<lambda>(l, w).
     if spine l = [] then
       try_ok (in_world (allocLeaf env) (l, w)) (\<lambda>f (l, w). Some (Inr (), (l\<lparr>spine := spine l @ [f]\<rparr>, w)))
     else Some (Inr (), (l, w)))"

definition roll_leaf :: "env \<Rightarrow> bytes \<Rightarrow> u16 \<Rightarrow> BulkLoader \<times> world \<Rightarrow> (nat, BulkLoader \<times> world) outcome" where
  "roll_leaf env k sz = (\<lambda>(l, w). do {
     let leaf = hd (spine l);
     roll \<leftarrow> shouldRollLeaf l (node_data w leaf) sz;
     if roll then
       try_ok (in_world (allocLeaf env) (l, w)) (\<lambda>newLeaf (l, w). do {
         let oldLeafID = Id w leaf;
         w \<leftarrow> node_unpin leaf w;
         let l = l\<lparr>spine := (spine l)[0 := newLeaf]\<rparr>;
         try_ok (promote env 1 oldLeafID k (Id w newLeaf) (l, w)) (\<lambda>_ s. Some (Inr newLeaf, s))
       })
     else Some (Inr leaf, (l, w))
   })"

definition Append :: "env \<Rightarrow> bytes \<Rightarrow> bytes \<Rightarrow> BulkLoader \<times> world \<Rightarrow> (unit, BulkLoader \<times> world) outcome" where
  "Append env k v s =
     (if finished (fst s) then Some (Inl ErrBulkLoaderFinished, s)
      else if length k > maxKeySize then Some (Inl ErrKeyTooBig, s)
      else if (case lastKey (fst s) of None \<Rightarrow> False | Some lk \<Rightarrow> bytes_Compare k lk \<le> 0)
      then Some (Inl ErrBulkLoaderKeyOrder, s)
      else
        try_ok (open_leaf env s) (\<lambda>_ s.
        try_ok (roll_leaf env k (leafCellSize k v) s) (\<lambda>leaf s.
        try_ok (in_world (leafCellOverflow env k v) s) (\<lambda>overflowID s. do {
          (l, w) \<leftarrow> modify_node leaf (\<lambda>d. appendLeafCellWithOverflow d k v overflowID) s;
          Some (Inr (), (l\<lparr>lastKey := remember_key (lastKey l) k\<rparr>, w))
        }))))"

fun unpin_spine :: "nat list \<Rightarrow> world \<Rightarrow> world option" where
  "unpin_spine [] w = Some w"
| "unpin_spine (f # fs) w = do { w \<leftarrow> node_unpin f w; unpin_spine fs w }"

definition Finish :: "BTree \<Rightarrow> BulkLoader \<times> world \<Rightarrow> (PageId \<times> BTree, BulkLoader \<times> world) outcome" where
  "Finish t = (\<lambda>(l, w).
     if finished l then Some (Inl ErrBulkLoaderFinished, (l, w))
     else do {
       let l = l\<lparr>finished := True\<rparr>;
       if spine l = [] then Some (Inr (0, t), (l, w))
       else do {
         let rootID = Id w (last (spine l));
         w \<leftarrow> unpin_spine (spine l) w;
         Some (Inr (rootID, t\<lparr>root := rootID\<rparr>), (l\<lparr>spine := []\<rparr>, w))
       }
     })"

fun drop_spine :: "nat list \<Rightarrow> world \<Rightarrow> world option" where
  "drop_spine [] w = Some w"
| "drop_spine (f # fs) w = do {
     let pid = Id w f;
     w \<leftarrow> node_unpin f w;
     w \<leftarrow> free_page pid w;
     drop_spine fs w
   }"

definition AbortLoad :: "BulkLoader \<times> world \<Rightarrow> (BulkLoader \<times> world) option" where
  "AbortLoad = (\<lambda>(l, w).
     if finished l then Some (l, w)
     else do {
       w \<leftarrow> drop_spine (spine l) w;
       Some (l\<lparr>finished := True, spine := []\<rparr>, w)
     })"

end
