(* ===== verification/Cursor.thy ===== *)
theory Cursor
  imports BTree
begin

text \<open>
  Cursors: \<^verbatim>\<open>src/cursor.go\<close>. The stack is a list with its top first; the tree that \<open>c.bt\<close> points
  to is an argument, \<^const>\<open>None\<close> for the cursor of a dropped bucket. The pair of slices that the
  movements return is \<^const>\<open>None\<close> for \<open>nil, nil\<close>.
\<close>

record cursorFrame =
  cnode :: nat
  cidx :: u16

record Cursor =
  stack :: "cursorFrame list"

definition NewCursor :: Cursor where
  "NewCursor = \<lparr>stack = []\<rparr>"

definition push_frame :: "nat \<Rightarrow> u16 \<Rightarrow> Cursor \<Rightarrow> Cursor" where
  "push_frame f i c = c\<lparr>stack := \<lparr>cnode = f, cidx = i\<rparr> # stack c\<rparr>"

fun unpin_frames :: "cursorFrame list \<Rightarrow> world \<Rightarrow> world option" where
  "unpin_frames [] w = Some w"
| "unpin_frames (fr # frs) w = do { w \<leftarrow> node_unpin (cnode fr) w; unpin_frames frs w }"

definition CloseCursor :: "Cursor \<Rightarrow> world \<Rightarrow> (Cursor \<times> world) option" where
  "CloseCursor c w = do { w \<leftarrow> unpin_frames (rev (stack c)) w; Some (c\<lparr>stack := []\<rparr>, w) }"

definition Valid :: "Cursor \<Rightarrow> world \<Rightarrow> bool option" where
  "Valid c w =
     (case stack c of
        [] \<Rightarrow> Some False
      | leaf # _ \<Rightarrow> do { n \<leftarrow> nCells (node_data w (cnode leaf)); Some (cidx leaf < n) })"

definition Key :: "Cursor \<Rightarrow> world \<Rightarrow> bytes option option" where
  "Key c w = do {
     v \<leftarrow> Valid c w;
     if \<not> v then Some None
     else do { k \<leftarrow> key (node_data w (cnode (hd (stack c)))) (cidx (hd (stack c))); Some (Some k) }
   }"

definition Value :: "env \<Rightarrow> Cursor \<Rightarrow> world \<Rightarrow> (bytes option, world) outcome" where
  "Value env c w = do {
     v \<leftarrow> Valid c w;
     if \<not> v then Some (Inr None, w)
     else try_ok (leafValue env (cnode (hd (stack c))) (cidx (hd (stack c))) w) (\<lambda>x w. Some (Inr (Some x), w))
   }"

definition kv :: "env \<Rightarrow> Cursor \<Rightarrow> world \<Rightarrow> ((bytes \<times> bytes) option \<times> Cursor \<times> world) option" where
  "kv env c w = do {
     v \<leftarrow> Valid c w;
     if \<not> v then Some (None, c, w)
     else do {
       k \<leftarrow> key (node_data w (cnode (hd (stack c)))) (cidx (hd (stack c)));
       (r, w) \<leftarrow> leafValue env (cnode (hd (stack c))) (cidx (hd (stack c))) w;
       case r of
         Inl e \<Rightarrow> Some (None, c, w)
       | Inr x \<Rightarrow> Some (Some (k, x), c, w)
     }
   }"

definition kv_if_valid :: "env \<Rightarrow> Cursor \<Rightarrow> world \<Rightarrow> ((bytes \<times> bytes) option \<times> Cursor \<times> world) option" where
  "kv_if_valid env c w = do {
     v \<leftarrow> Valid c w;
     if v then kv env c w else Some (None, c, w)
   }"

section \<open>Descents\<close>

fun descendLeftmost :: "nat \<Rightarrow> env \<Rightarrow> PageId \<Rightarrow> Cursor \<Rightarrow> world \<Rightarrow> (error option \<times> Cursor \<times> world) option" where
  "descendLeftmost 0 env pid c w = None"
| "descendLeftmost (Suc n) env pid c w = do {
     (r, w) \<leftarrow> getNode env pid w;
     case r of
       Inl e \<Rightarrow> Some (Some e, c, w)
     | Inr f \<Rightarrow> do {
         t \<leftarrow> ntype (node_data w f);
         if t = nodeLeaf then Some (None, push_frame f 0 c, w)
         else do {
           next \<leftarrow> child (node_data w f) 0;
           descendLeftmost n env next (push_frame f 0 c) w
         }
       }
   }"

fun descendRightmost :: "nat \<Rightarrow> env \<Rightarrow> PageId \<Rightarrow> Cursor \<Rightarrow> world \<Rightarrow> (error option \<times> Cursor \<times> world) option" where
  "descendRightmost 0 env pid c w = None"
| "descendRightmost (Suc n) env pid c w = do {
     (r, w) \<leftarrow> getNode env pid w;
     case r of
       Inl e \<Rightarrow> Some (Some e, c, w)
     | Inr f \<Rightarrow> do {
         t \<leftarrow> ntype (node_data w f);
         nc \<leftarrow> nCells (node_data w f);
         if t = nodeLeaf then Some (None, push_frame f (if nc > 0 then nc - 1 else 0) c, w)
         else do {
           next \<leftarrow> child (node_data w f) nc;
           descendRightmost n env next (push_frame f nc c) w
         }
       }
   }"

section \<open>Movements\<close>

definition First :: "env \<Rightarrow> BTree option \<Rightarrow> Cursor \<Rightarrow> world \<Rightarrow> ((bytes \<times> bytes) option \<times> Cursor \<times> world) option" where
  "First env t c w = do {
     (c, w) \<leftarrow> CloseCursor c w;
     case t of
       None \<Rightarrow> Some (None, c, w)
     | Some t \<Rightarrow>
         if root t = 0 then Some (None, c, w)
         else do {
           (err, c, w) \<leftarrow> descendLeftmost (fuel env) env (root t) c w;
           if err \<noteq> None then Some (None, c, w) else kv_if_valid env c w
         }
   }"

definition Last :: "env \<Rightarrow> BTree option \<Rightarrow> Cursor \<Rightarrow> world \<Rightarrow> ((bytes \<times> bytes) option \<times> Cursor \<times> world) option" where
  "Last env t c w = do {
     (c, w) \<leftarrow> CloseCursor c w;
     case t of
       None \<Rightarrow> Some (None, c, w)
     | Some t \<Rightarrow>
         if root t = 0 then Some (None, c, w)
         else do {
           (err, c, w) \<leftarrow> descendRightmost (fuel env) env (root t) c w;
           if err \<noteq> None then Some (None, c, w) else kv_if_valid env c w
         }
   }"

text \<open>Walking up to a frame with another child, for \<open>Next\<close> and for \<open>Prev\<close>.\<close>

fun next_up :: "env \<Rightarrow> cursorFrame list \<Rightarrow> Cursor \<Rightarrow> world \<Rightarrow> ((bytes \<times> bytes) option \<times> Cursor \<times> world) option" where
  "next_up env [] c w = Some (None, c\<lparr>stack := []\<rparr>, w)"
| "next_up env (fr # rest) c w = do {
     nc \<leftarrow> nCells (node_data w (cnode fr));
     if cidx fr < nc then do {
       let fr = fr\<lparr>cidx := cidx fr + 1\<rparr>;
       pid \<leftarrow> child (node_data w (cnode fr)) (cidx fr);
       (err, c, w) \<leftarrow> descendLeftmost (fuel env) env pid (c\<lparr>stack := fr # rest\<rparr>) w;
       if err \<noteq> None then do { (c, w) \<leftarrow> CloseCursor c w; Some (None, c, w) }
       else kv_if_valid env c w
     } else do {
       w \<leftarrow> node_unpin (cnode fr) w;
       next_up env rest c w
     }
   }"

definition Next :: "env \<Rightarrow> Cursor \<Rightarrow> world \<Rightarrow> ((bytes \<times> bytes) option \<times> Cursor \<times> world) option" where
  "Next env c w =
     (case stack c of
        [] \<Rightarrow> Some (None, c, w)
      | leaf # rest \<Rightarrow> do {
          nc \<leftarrow> nCells (node_data w (cnode leaf));
          if cidx leaf + 1 < nc then kv env (c\<lparr>stack := leaf\<lparr>cidx := cidx leaf + 1\<rparr> # rest\<rparr>) w
          else do {
            w \<leftarrow> node_unpin (cnode leaf) w;
            next_up env rest c w
          }
        })"

fun prev_up :: "env \<Rightarrow> cursorFrame list \<Rightarrow> Cursor \<Rightarrow> world \<Rightarrow> ((bytes \<times> bytes) option \<times> Cursor \<times> world) option" where
  "prev_up env [] c w = Some (None, c\<lparr>stack := []\<rparr>, w)"
| "prev_up env (fr # rest) c w =
     (if cidx fr > 0 then do {
        let fr = fr\<lparr>cidx := cidx fr - 1\<rparr>;
        pid \<leftarrow> child (node_data w (cnode fr)) (cidx fr);
        (err, c, w) \<leftarrow> descendRightmost (fuel env) env pid (c\<lparr>stack := fr # rest\<rparr>) w;
        if err \<noteq> None then do { (c, w) \<leftarrow> CloseCursor c w; Some (None, c, w) }
        else kv_if_valid env c w
      } else do {
        w \<leftarrow> node_unpin (cnode fr) w;
        prev_up env rest c w
      })"

definition Prev :: "env \<Rightarrow> Cursor \<Rightarrow> world \<Rightarrow> ((bytes \<times> bytes) option \<times> Cursor \<times> world) option" where
  "Prev env c w =
     (case stack c of
        [] \<Rightarrow> Some (None, c, w)
      | leaf # rest \<Rightarrow>
          if cidx leaf > 0 then kv env (c\<lparr>stack := leaf\<lparr>cidx := cidx leaf - 1\<rparr> # rest\<rparr>) w
          else do {
            w \<leftarrow> node_unpin (cnode leaf) w;
            prev_up env rest c w
          })"

fun Seek_loop :: "nat \<Rightarrow> env \<Rightarrow> bytes \<Rightarrow> PageId \<Rightarrow> Cursor \<Rightarrow> world \<Rightarrow> ((bytes \<times> bytes) option \<times> Cursor \<times> world) option" where
  "Seek_loop 0 env target pid c w = None"
| "Seek_loop (Suc n) env target pid c w = do {
     (r, w) \<leftarrow> getNode env pid w;
     case r of
       Inl e \<Rightarrow> do { (c, w) \<leftarrow> CloseCursor c w; Some (None, c, w) }
     | Inr f \<Rightarrow> do {
         t \<leftarrow> ntype (node_data w f);
         if t = nodeLeaf then do {
           (i, _) \<leftarrow> searchLeaf (node_data w f) target;
           let c = push_frame f i c;
           nc \<leftarrow> nCells (node_data w f);
           if i \<ge> nc then Next env c w else kv env c w
         } else do {
           i \<leftarrow> searchInternal (node_data w f) target;
           next \<leftarrow> child (node_data w f) i;
           Seek_loop n env target next (push_frame f i c) w
         }
       }
   }"

definition Seek :: "env \<Rightarrow> BTree option \<Rightarrow> bytes \<Rightarrow> Cursor \<Rightarrow> world \<Rightarrow> ((bytes \<times> bytes) option \<times> Cursor \<times> world) option" where
  "Seek env t target c w = do {
     (c, w) \<leftarrow> CloseCursor c w;
     case t of
       None \<Rightarrow> Some (None, c, w)
     | Some t \<Rightarrow>
         if root t = 0 then Some (None, c, w)
         else Seek_loop (fuel env) env target (root t) c w
   }"

end
