(* ===== verification/Bucket.thy ===== *)
theory Bucket
  imports Delete BulkLoad Cursor
begin

text \<open>
  Buckets and the catalog: \<^verbatim>\<open>src/bucket.go\<close>. A \<open>*Bucket\<close> is the key under which the transaction's
  map holds it: entries are added once per name and never replaced. The order in which
  \<open>range t.buckets\<close> visits the map is an argument of \<open>applyBucketChanges\<close>.
\<close>

definition bucket_of :: "bytes \<Rightarrow> world \<Rightarrow> Bucket option" where
  "bucket_of nm w = map_of (buckets (txn w)) nm"

definition set_bucket :: "bytes \<Rightarrow> Bucket \<Rightarrow> world \<Rightarrow> world" where
  "set_bucket nm b w = w\<lparr>txn := (txn w)\<lparr>buckets := AList.update nm b (buckets (txn w))\<rparr>\<rparr>"

section \<open>Operations of a bucket\<close>

definition bucketGet :: "env \<Rightarrow> bytes \<Rightarrow> bytes \<Rightarrow> world \<Rightarrow> (bytes option, world) outcome" where
  "bucketGet env nm k w = do {
     b \<leftarrow> bucket_of nm w;
     if dropped b then Some (Inl ErrBucketNotFound, w)
     else do { t \<leftarrow> bt b; SearchKey env t k w }
   }"

definition bucket_update :: "env \<Rightarrow> bytes \<Rightarrow> bytes \<Rightarrow> bytes \<Rightarrow> Mode \<Rightarrow> world \<Rightarrow> (unit, world) outcome" where
  "bucket_update env nm k v mode w = do {
     b \<leftarrow> bucket_of nm w;
     if dropped b then Some (Inl ErrBucketNotFound, w)
     else do {
       t \<leftarrow> bt b;
       try_ok (UpdateKey env t k v mode w) (\<lambda>(_, t) w. Some (Inr (), set_bucket nm (b\<lparr>bt := Some t\<rparr>) w))
     }
   }"

definition bucketPut :: "env \<Rightarrow> bytes \<Rightarrow> bytes \<Rightarrow> bytes \<Rightarrow> world \<Rightarrow> (unit, world) outcome" where
  "bucketPut env nm k v w = bucket_update env nm k v ModeUpsert w"

definition bucketInsert :: "env \<Rightarrow> bytes \<Rightarrow> bytes \<Rightarrow> bytes \<Rightarrow> world \<Rightarrow> (unit, world) outcome" where
  "bucketInsert env nm k v w = bucket_update env nm k v ModeInsert w"

definition bucketUpdate :: "env \<Rightarrow> bytes \<Rightarrow> bytes \<Rightarrow> bytes \<Rightarrow> world \<Rightarrow> (unit, world) outcome" where
  "bucketUpdate env nm k v w = bucket_update env nm k v ModeUpdate w"

definition bucketDelete :: "env \<Rightarrow> bytes \<Rightarrow> bytes \<Rightarrow> world \<Rightarrow> (unit, world) outcome" where
  "bucketDelete env nm k w = do {
     b \<leftarrow> bucket_of nm w;
     if dropped b then Some (Inl ErrBucketNotFound, w)
     else do {
       t \<leftarrow> bt b;
       try_ok (DeleteKey env t k w) (\<lambda>(_, _, t) w. Some (Inr (), set_bucket nm (b\<lparr>bt := Some t\<rparr>) w))
     }
   }"

definition bucketBeginBulkLoad :: "bytes \<Rightarrow> rat \<Rightarrow> world \<Rightarrow> (error + BulkLoader) option" where
  "bucketBeginBulkLoad nm fillFactor w = do {
     b \<leftarrow> bucket_of nm w;
     if dropped b then Some (Inl ErrBucketNotFound)
     else do { t \<leftarrow> bt b; Some (BeginBulkLoad t fillFactor) }
   }"

text \<open>The tree behind \<open>b.Cursor()\<close>: \<open>None\<close> for a dropped bucket.\<close>

definition bucketCursor :: "bytes \<Rightarrow> world \<Rightarrow> (BTree option \<times> Cursor) option" where
  "bucketCursor nm w = do {
     b \<leftarrow> bucket_of nm w;
     if dropped b then Some (None, NewCursor)
     else do { t \<leftarrow> bt b; Some (Some t, NewCursor) }
   }"

section \<open>Buckets of a transaction\<close>

definition catalogLookup :: "env \<Rightarrow> bytes \<Rightarrow> world \<Rightarrow> (PageId \<times> bool, world) outcome" where
  "catalogLookup env nm w =
     (if catalogRoot (meta (txn w)) = 0 then Some (Inr (0, False), w)
      else try_ok (SearchKey env (NewBTree (catalogRoot (meta (txn w)))) nm w) (\<lambda>val w.
        case val of
          None \<Rightarrow> Some (Inr (0, False), w)
        | Some bs \<Rightarrow>
            if length bs \<noteq> 8 then Some (Inl ErrMalformedCatalog, w)
            else do { pid \<leftarrow> Uint64 bs; Some (Inr (pid, True), w) }))"

definition lookupBucket :: "env \<Rightarrow> bytes \<Rightarrow> world \<Rightarrow> (bytes, world) outcome" where
  "lookupBucket env nm w =
     (case bucket_of nm w of
        Some b \<Rightarrow> if dropped b then Some (Inl ErrBucketNotFound, w) else Some (Inr nm, w)
      | None \<Rightarrow>
          try_ok (catalogLookup env nm w) (\<lambda>(r, found) w.
            if \<not> found then Some (Inl ErrBucketNotFound, w)
            else Some (Inr nm, set_bucket nm \<lparr>name = nm, bt = Some (NewBTree r), origRoot = r, created = False,
                                           dropped = False\<rparr> w)))"

definition openBucket :: "env \<Rightarrow> bytes \<Rightarrow> world \<Rightarrow> (bytes, world) outcome" where
  "openBucket env nm w =
     (if closed (txn w) then Some (Inl ErrTxnClosed, w) else lookupBucket env nm w)"

definition CreateBucket :: "env \<Rightarrow> bytes \<Rightarrow> world \<Rightarrow> (bytes, world) outcome" where
  "CreateBucket env nm w =
     (if \<not> writable (txn w) then Some (Inl ErrTxnReadOnly, w)
      else if closed (txn w) then Some (Inl ErrTxnClosed, w)
      else case bucket_of nm w of
        Some existing \<Rightarrow>
          if \<not> dropped existing then Some (Inl ErrBucketExists, w)
          else Some (Inr nm, set_bucket nm (existing\<lparr>bt := Some (NewBTree 0), dropped := False, created := True\<rparr>) w)
      | None \<Rightarrow>
          try_ok (catalogLookup env nm w) (\<lambda>(_, found) w.
            if found then Some (Inl ErrBucketExists, w)
            else Some (Inr nm, set_bucket nm \<lparr>name = nm, bt = Some (NewBTree 0), origRoot = 0, created = True,
                                           dropped = False\<rparr> w)))"

definition DropBucket :: "env \<Rightarrow> bytes \<Rightarrow> world \<Rightarrow> (unit, world) outcome" where
  "DropBucket env nm w =
     (if \<not> writable (txn w) then Some (Inl ErrTxnReadOnly, w)
      else if closed (txn w) then Some (Inl ErrTxnClosed, w)
      else try_ok (lookupBucket env nm w) (\<lambda>nm w. do {
        b \<leftarrow> bucket_of nm w;
        t \<leftarrow> bt b;
        try_ok (FreeAll env t w) (\<lambda>_ w. Some (Inr (), set_bucket nm (b\<lparr>bt := None, dropped := True\<rparr>) w))
      }))"

section \<open>Writing the catalog\<close>

fun apply_buckets :: "env \<Rightarrow> BTree \<Rightarrow> (bytes \<times> Bucket) list \<Rightarrow> world \<Rightarrow> (BTree, world) outcome" where
  "apply_buckets env cat [] w = Some (Inr cat, w)"
| "apply_buckets env cat ((nm, b) # bs) w =
     (if dropped b then
        (if origRoot b = 0 then apply_buckets env cat bs w
         else try_ok (DeleteKey env cat nm w) (\<lambda>(_, _, cat) w. apply_buckets env cat bs w))
      else do {
        t \<leftarrow> bt b;
        if created b \<or> root t \<noteq> origRoot b
        then try_ok (UpdateKey env cat nm (le_bytes 8 (root t)) ModeUpsert w) (\<lambda>(_, cat) w. apply_buckets env cat bs w)
        else apply_buckets env cat bs w
      })"

definition applyBucketChanges :: "env \<Rightarrow> ((bytes \<times> Bucket) list \<Rightarrow> (bytes \<times> Bucket) list) \<Rightarrow> world \<Rightarrow> (unit, world) outcome" where
  "applyBucketChanges env order w =
     (if buckets (txn w) = [] then Some (Inr (), w)
      else try_ok (apply_buckets env (NewBTree (catalogRoot (meta (txn w)))) (order (buckets (txn w))) w) (\<lambda>cat w.
        Some (Inr (), w\<lparr>txn := (txn w)\<lparr>meta := (meta (txn w))\<lparr>catalogRoot := root cat\<rparr>\<rparr>\<rparr>)))"

end
