(* ===== verification/BucketMap.thy ===== *)
theory BucketMap
  imports FreeTree Bucket
begin

text \<open>
  Buckets as an abstract database: a finite map from bucket names to finite maps. The operations of
  \<^verbatim>\<open>src/bucket.go\<close> on the buckets of a write transaction refine the operations on this map; a bucket
  that was not opened yet is found through the catalog tree.
\<close>

section \<open>The abstract database\<close>

type_synonym database = "bytes \<rightharpoonup> bytes \<rightharpoonup> bytes"

definition tree_of :: "world \<Rightarrow> (bytes \<rightharpoonup> bytes) \<Rightarrow> bytes \<Rightarrow> BTree option" where
  "tree_of w cat nm =
     (case bucket_of nm w of
        Some b \<Rightarrow> if dropped b then None else bt b
      | None \<Rightarrow> do { v \<leftarrow> cat nm; pid \<leftarrow> Uint64 v; Some (NewBTree pid) })"

definition bucket_at :: "(PageId \<Rightarrow> bytes) \<Rightarrow> nat \<Rightarrow> nat \<Rightarrow> PageId set \<Rightarrow> BTree option \<Rightarrow> (bytes \<rightharpoonup> bytes) option \<Rightarrow> bool" where
  "bucket_at W h z P t m \<longleftrightarrow>
     (case (t, m) of
        (Some t, Some m) \<Rightarrow> map_at W P h {k. length k = z} t m \<and> uniform z m
      | (None, None) \<Rightarrow> P = {}
      | _ \<Rightarrow> False)"

text \<open>What the keys look like: the length of the keys of each bucket and the names that buckets may have.\<close>

record schema =
  key_length :: "bytes \<Rightarrow> nat"
  bucket_names :: "bytes set"

text \<open>An entry of the transaction's table: unless it was created here, the catalog knows the root it had.\<close>

definition bucket_ok :: "schema \<Rightarrow> (bytes \<rightharpoonup> bytes) \<Rightarrow> bytes \<Rightarrow> Bucket \<Rightarrow> bool" where
  "bucket_ok S cat nm b \<longleftrightarrow> nm \<in> bucket_names S \<and> (dropped b \<or> bt b \<noteq> None) \<and>
     (cat nm = Some (le_bytes 8 (origRoot b)) \<or> created b \<and> cat nm = None)"

text \<open>What a transaction starts from and keeps: the pages of the last commit, the header and the fields of the handle, the
  buckets that it may drop, and a bound on the height of the trees at the start.\<close>

type_synonym setting = "(Meta \<times> u64) \<times> Meta \<times> PageId \<times> bool \<times> (TxnID \<times> int) list \<times> bytes"

definition setting_of :: "scenery \<Rightarrow> setting" where
  "setting_of s = (snd (fst s), snd s)"

record anchor =
  last_commit :: "PageId \<rightharpoonup> bytes"
  setting :: setting
  droppable :: "bytes set"
  base_height :: nat

text \<open>\<open>P\<close> gives the pages of the tree of each bucket and \<open>B\<close> the other live pages, which contain the catalog,
  a tree for \<open>cat\<close>.\<close>

definition db_at ::
    "env \<Rightarrow> anchor \<Rightarrow> nat \<Rightarrow> handle multiset \<Rightarrow> nat \<Rightarrow> schema \<Rightarrow> (bytes \<Rightarrow> PageId set) \<Rightarrow> PageId set \<Rightarrow> (bytes \<rightharpoonup> bytes) \<Rightarrow>
     database \<Rightarrow> world \<Rightarrow> bool" where
  "db_at env A n H h S P B cat D w \<longleftrightarrow>
     (\<forall>nm. bucket_at (V w) h (key_length S nm) (P nm) (tree_of w cat nm) (D nm)) \<and> (\<forall>nm nm'. nm \<noteq> nm' \<longrightarrow> P nm \<inter> P nm' = {}) \<and> (\<forall>nm. P nm \<inter> B = {}) \<and>
     (\<forall>nm b. bucket_of nm w = Some b \<longrightarrow> bucket_ok S cat nm b \<and> (dropped b \<longrightarrow> nm \<in> droppable A)) \<and> distinct (map fst (buckets (txn w))) \<and>
     (\<exists>Pc. map_at (V w) Pc h (bucket_names S) (NewBTree (catalogRoot (meta (txn w)))) cat \<and> Pc \<subseteq> B) \<and>
     (\<forall>v \<in> ran cat. length v = 8) \<and>
     setting_of (scenery w) = setting A \<and> base_height A \<le> h \<and>
     txn_ok env \<lparr>committed = last_commit A, around = scenery w\<rparr> n H (B \<union> (\<Union>nm. P nm)) w"

lemma db_atD:
  assumes "db_at env A n H h S P B cat D w"
  shows "bucket_at (V w) h (key_length S x) (P x) (tree_of w cat x) (D x)" "x \<noteq> y \<Longrightarrow> P x \<inter> P y = {}" "P x \<inter> B = {}"
    "bucket_of x w = Some b \<Longrightarrow> bucket_ok S cat x b \<and> (dropped b \<longrightarrow> x \<in> droppable A)"
    "\<exists>Pc. map_at (V w) Pc h (bucket_names S) (NewBTree (catalogRoot (meta (txn w)))) cat \<and> Pc \<subseteq> B" "\<forall>v \<in> ran cat. length v = 8"
    "txn_ok env \<lparr>committed = last_commit A, around = scenery w\<rparr> n H (B \<union> (\<Union>x. P x)) w" "distinct (map fst (buckets (txn w)))"
    "setting_of (scenery w) = setting A" "base_height A \<le> h"
proof -
  have a: "\<forall>x. bucket_at (V w) h (key_length S x) (P x) (tree_of w cat x) (D x)" "\<forall>x y. x \<noteq> y \<longrightarrow> P x \<inter> P y = {}" "\<forall>x. P x \<inter> B = {}"
    "\<forall>nm b. bucket_of nm w = Some b \<longrightarrow> bucket_ok S cat nm b \<and> (dropped b \<longrightarrow> nm \<in> droppable A)"
    using assms unfolding db_at_def by simp_all
  show "bucket_at (V w) h (key_length S x) (P x) (tree_of w cat x) (D x)" "P x \<inter> B = {}" using a(1,3) by simp_all
  show "P x \<inter> P y = {}" if "x \<noteq> y" using a(2) that by simp
  show "bucket_ok S cat x b \<and> (dropped b \<longrightarrow> x \<in> droppable A)" if "bucket_of x w = Some b" using a(4) that by simp
  show "\<exists>Pc. map_at (V w) Pc h (bucket_names S) (NewBTree (catalogRoot (meta (txn w)))) cat \<and> Pc \<subseteq> B" "\<forall>v \<in> ran cat. length v = 8"
    "txn_ok env \<lparr>committed = last_commit A, around = scenery w\<rparr> n H (B \<union> (\<Union>x. P x)) w" "distinct (map fst (buckets (txn w)))"
    "setting_of (scenery w) = setting A" "base_height A \<le> h" using assms unfolding db_at_def by simp_all
qed

text \<open>After an error the file still holds the last commit.\<close>

definition db_failed :: "env \<Rightarrow> anchor \<Rightarrow> handle multiset \<Rightarrow> world \<Rightarrow> bool" where
  "db_failed env A H w \<longleftrightarrow> (\<exists>\<sigma>. committed \<sigma> = last_commit A \<and> setting_of (around \<sigma>) = setting A \<and> failed env \<sigma> H w)"

lemma db_failedI: "db_at env A n H h S P B cat D w \<Longrightarrow> failed env \<lparr>committed = last_commit A, around = scenery w\<rparr> H' s \<Longrightarrow> db_failed env A H' s"
  unfolding db_failed_def using db_atD(9) by (metis backdrop.select_convs)

lemma db_at_failed: "db_at env A n H h S P B cat D w \<Longrightarrow> db_failed env A H w"
  using db_failedI [OF _ txn_ok_failed [OF db_atD(7)]] by blast

section \<open>Setting a bucket\<close>

lemma set_bucket_simps [simp]:
  "V (set_bucket nm b w) = V w" "bucket_of x (set_bucket nm b w) = (if x = nm then Some b else bucket_of x w)"
  "catalogRoot (meta (txn (set_bucket nm b w))) = catalogRoot (meta (txn w))" "meta (txn (set_bucket nm b w)) = meta (txn w)"
  by (simp_all add: set_bucket_def bucket_of_def update_conv)

lemma backdrop_update: "\<sigma>\<lparr>around := s\<rparr> = \<lparr>committed = committed \<sigma>, around = s\<rparr>"
  by simp

lemma set_bucket_ok:
  "txn_ok env \<sigma> n H L w \<Longrightarrow> txn_ok env (\<sigma>\<lparr>around := scenery (set_bucket nm b w)\<rparr>) n H L (set_bucket nm b w)"
  by (simp add: txn_ok_def read_ok_def lists_ok_def disk_ok_def fresh_ok_def free_lists_def set_bucket_def)

lemma tree_of_set_bucket:
  "tree_of (set_bucket nm b w) cat x = (if x = nm then if dropped b then None else bt b else tree_of w cat x)"
  by (simp add: tree_of_def)

lemma bucket_at_weaken: "bucket_at W h z P t m \<Longrightarrow> h \<le> h' \<Longrightarrow> bucket_at W h' z P t m"
  using map_at_weaken [of W P h "{k. length k = z}" _ _ h'] by (auto simp: bucket_at_def split: option.splits)

lemma bucket_at_same: "bucket_at W h z P t m \<Longrightarrow> (\<And>q. q \<in> P \<Longrightarrow> W' q = W q) \<Longrightarrow> bucket_at W' h z P t m"
  using map_at_same [of W P h "{k. length k = z}" _ _ W'] by (auto simp: bucket_at_def split: option.splits)

lemma map_at_dom: "map_at W P h K t m \<Longrightarrow> m k = Some v \<Longrightarrow> k \<in> K"
  by (auto simp: map_at_def tree_map_def split: if_splits)

text \<open>A change of one bucket: the pages of its tree are replaced and the other live pages are the same.\<close>

lemma db_at_change:
  assumes d: "db_at env A n H h S P B cat D w" and le: "h \<le> h'" and ok: "txn_ok env \<sigma> n' H' (B \<union> (\<Union>x \<in> - {nm}. P x) \<union> P') w'"
    and \<sigma>: "committed \<sigma> = last_commit A" "around \<sigma> = scenery w" and same: "same_pages (B \<union> (\<Union>x \<in> - {nm}. P x)) w w'"
    and P': "P' \<inter> (B \<union> (\<Union>x \<in> - {nm}. P x)) = {}" and b: "bucket_at (V w') h' (key_length S nm) P' (if dropped b then None else bt b) m" "bucket_ok S cat nm b" "dropped b \<longrightarrow> nm \<in> droppable A"
  shows "db_at env A n' H' h' S (P(nm := P')) B cat (D(nm := m)) (set_bucket nm b w')"
proof -
  have a: "\<And>x. bucket_at (V w) h (key_length S x) (P x) (tree_of w cat x) (D x)" "\<And>x y. x \<noteq> y \<Longrightarrow> P x \<inter> P y = {}" "\<And>x. P x \<inter> B = {}"
    "\<And>x b. bucket_of x w = Some b \<Longrightarrow> bucket_ok S cat x b \<and> (dropped b \<longrightarrow> x \<in> droppable A)" "\<forall>v \<in> ran cat. length v = 8" by (fact db_atD [OF d])+
  obtain Pc where pc: "map_at (V w) Pc h (bucket_names S) (NewBTree (catalogRoot (meta (txn w)))) cat" "Pc \<subseteq> B" using db_atD(5) [OF d] by blast
  have sc: "scenery w' = scenery w" using ok \<sigma>(2) by (simp add: txn_ok_def)
  then have bs: "bucket_of x w' = bucket_of x w" "catalogRoot (meta (txn w')) = catalogRoot (meta (txn w))" for x
    by (auto simp: scenery_def bucket_of_def dest: arg_cong [where f = catalogRoot])
  then have tr: "tree_of w' cat x = tree_of w cat x" for x by (simp add: tree_of_def)
  let ?w = "set_bucket nm b w'"
  have "bucket_at (V ?w) h' (key_length S x) ((P(nm := P')) x) (tree_of ?w cat x) ((D(nm := m)) x)" for x
  proof (cases "x = nm")
    case True
    then show ?thesis using b(1) by (simp add: tree_of_set_bucket)
  next
    case False
    then have "V w' q = V w q" if "q \<in> P x" for q using same that unfolding same_pages_def by blast
    then have "bucket_at (V w') h' (key_length S x) (P x) (tree_of w cat x) (D x)" using bucket_at_weaken [OF bucket_at_same [OF a(1)] le] by blast
    then show ?thesis using False by (simp add: tree_of_set_bucket tr)
  qed
  moreover have "map_at (V ?w) Pc h' (bucket_names S) (NewBTree (catalogRoot (meta (txn ?w)))) cat"
    using map_at_weaken [OF map_at_same [OF pc(1)] le subset_refl] same pc(2) unfolding same_pages_def bs(2) set_bucket_simps by blast
  moreover have "(P(nm := P')) x \<inter> (P(nm := P')) y = {}" if "x \<noteq> y" for x y using a(2) [OF that] P' that by (cases "x = nm"; cases "y = nm") auto
  moreover have "(P(nm := P')) x \<inter> B = {}" for x using a(3) P' by auto
  moreover have "B \<union> (\<Union>x. (P(nm := P')) x) = B \<union> (\<Union>x \<in> - {nm}. P x) \<union> P'" by (auto split: if_splits)
  then have "txn_ok env \<lparr>committed = last_commit A, around = scenery ?w\<rparr> n' H' (B \<union> (\<Union>x. (P(nm := P')) x)) ?w"
    using set_bucket_ok [OF ok, of nm b] \<sigma>(1) unfolding backdrop_update by simp
  moreover have "bucket_ok S cat x b' \<and> (dropped b' \<longrightarrow> x \<in> droppable A)" if "bucket_of x ?w = Some b'" for x b' using that a(4) bs(1) b(2,3) by (auto split: if_splits)
  moreover have "setting_of (scenery ?w) = setting A" using db_atD(9) [OF d] sc by (simp add: setting_of_def scenery_def set_bucket_def)
  moreover have "buckets (txn w') = buckets (txn w)" using sc by (simp add: scenery_def)
  then have "distinct (map fst (buckets (txn ?w)))" using db_atD(8) [OF d] by (simp add: set_bucket_def distinct_update)
  moreover have "base_height A \<le> h'" using db_atD(10) [OF d] le by simp
  ultimately show ?thesis using pc(2) a(5) unfolding db_at_def by blast
qed

section \<open>Operations on an open bucket\<close>

text \<open>The state seen from one bucket: \<open>F\<close> are the live pages that are not pages of its tree.\<close>

lemma db_at_focus:
  assumes d: "db_at env A n H h S P B cat D w" and m: "D nm = Some m"
  obtains t where "tree_of w cat nm = Some t" "map_at (V w) (P nm) h {k. length k = key_length S nm} t m" "uniform (key_length S nm) m"
    "P nm \<inter> (B \<union> (\<Union>x \<in> - {nm}. P x)) = {}"
    "txn_ok env \<lparr>committed = last_commit A, around = scenery w\<rparr> n H (B \<union> (\<Union>x \<in> - {nm}. P x) \<union> P nm) w"
proof -
  have a: "bucket_at (V w) h (key_length S nm) (P nm) (tree_of w cat nm) (D nm)" "\<And>x y. x \<noteq> y \<Longrightarrow> P x \<inter> P y = {}" "P nm \<inter> B = {}"
    "txn_ok env \<lparr>committed = last_commit A, around = scenery w\<rparr> n H (B \<union> (\<Union>x. P x)) w" by (fact db_atD [OF d])+
  have "B \<union> (\<Union>x. P x) = B \<union> (\<Union>x \<in> - {nm}. P x) \<union> P nm" by auto
  moreover have "P nm \<inter> (B \<union> (\<Union>x \<in> - {nm}. P x)) = {}"
  proof -
    have "P nm \<inter> P x = {}" if "x \<in> - {nm}" for x using a(2) [of nm x] that by simp
    then show ?thesis unfolding Int_Un_distrib Int_UN_distrib using a(3) by simp
  qed
  moreover obtain t where "tree_of w cat nm = Some t" "map_at (V w) (P nm) h {k. length k = key_length S nm} t m" "uniform (key_length S nm) m"
    using a(1) unfolding m bucket_at_def by (cases "tree_of w cat nm") simp_all
  ultimately show thesis using that a(4) by simp
qed

lemma opened:
  assumes "bucket_of nm w = Some b" "tree_of w cat nm = Some t"
  shows "\<not> dropped b" "bt b = Some t"
  using assms by (auto simp: tree_of_def split: if_splits)

definition is_open :: "bytes \<Rightarrow> world \<Rightarrow> bool" where
  "is_open nm w \<longleftrightarrow> bucket_of nm w \<noteq> None"

lemma is_open_txn: "txn_ok env \<lparr>committed = c, around = scenery w\<rparr> n H L w' \<Longrightarrow> bucket_of x w' = bucket_of x w"
  by (simp add: txn_ok_def scenery_def bucket_of_def)

text \<open>The pages seen are the same: a read.\<close>

lemma db_at_read:
  assumes d: "db_at env A n H h S P B cat D w" and r: "reading env H (B \<union> (\<Union>x. P x)) w w'"
  shows "db_at env A n H h S P B cat D w'" "\<And>x. bucket_of x w' = bucket_of x w"
proof -
  let ?L = "B \<union> (\<Union>x. P x)"
  have t: "txn w' = txn w" and same: "\<And>q. q \<in> ?L \<Longrightarrow> V w' q = V w q" using r by (auto simp: reading_def calm_def same_pages_def)
  then show bo: "bucket_of x w' = bucket_of x w" for x by (simp add: bucket_of_def)
  have tr: "tree_of w' cat x = tree_of w cat x" for x by (simp add: tree_of_def bo)
  have a: "\<And>x. bucket_at (V w) h (key_length S x) (P x) (tree_of w cat x) (D x)" "\<And>x y. x \<noteq> y \<Longrightarrow> P x \<inter> P y = {}" "\<And>x. P x \<inter> B = {}"
    "\<And>x b. bucket_of x w = Some b \<Longrightarrow> bucket_ok S cat x b \<and> (dropped b \<longrightarrow> x \<in> droppable A)" "\<forall>v \<in> ran cat. length v = 8" 
    "txn_ok env \<lparr>committed = last_commit A, around = scenery w\<rparr> n H ?L w" by (fact db_atD [OF d])+
  obtain Pc where pc: "map_at (V w) Pc h (bucket_names S) (NewBTree (catalogRoot (meta (txn w)))) cat" "Pc \<subseteq> B" using db_atD(5) [OF d] by blast
  have ok: "txn_ok env \<lparr>committed = last_commit A, around = scenery w\<rparr> n H ?L w'" by (rule reading_txn [OF a(6) r])
  then have "scenery w' = scenery w" by (simp add: txn_ok_def)
  moreover have "bucket_at (V w') h (key_length S x) (P x) (tree_of w' cat x) (D x)" for x unfolding tr using bucket_at_same [OF a(1)] same by blast
  moreover have "map_at (V w') Pc h (bucket_names S) (NewBTree (catalogRoot (meta (txn w')))) cat" using map_at_same [OF pc(1)] same pc(2) unfolding t by blast
  ultimately show "db_at env A n H h S P B cat D w'" using a(2-5) ok pc(2) bo db_atD(8-10) [OF d] t unfolding db_at_def by auto
qed

lemma bucketGet_rule:
  assumes d: "db_at env A n H h S P B cat D w" and m: "D nm = Some m" "is_open nm w" and h: "h \<le> fuel env"
  shows "result_ok (bucketGet env nm k w) (db_failed env A H) (\<lambda>x w'. x = m k \<and> db_at env A n H h S P B cat D w' \<and> (\<forall>x. is_open x w' \<longleftrightarrow> is_open x w))"
proof -
  obtain b where b: "bucket_of nm w = Some b" using m(2) by (auto simp: is_open_def)
  obtain t where t: "tree_of w cat nm = Some t" "map_at (V w) (P nm) h {k. length k = key_length S nm} t m" by (rule db_at_focus [OF d m(1)])
  have ok: "read_ok env H (B \<union> (\<Union>x. P x)) w" by (rule txn_read [OF db_atD(7) [OF d]])
  have r: "result_ok (SearchKey env t k w) (reading env H (B \<union> (\<Union>x. P x)) w) (\<lambda>x w'. x = m k \<and> reading env H (B \<union> (\<Union>x. P x)) w w')"
    using h by (intro SearchKey_map [OF ok t(2)]) auto
  have "result_ok (SearchKey env t k w) (db_failed env A H) (\<lambda>x w'. x = m k \<and> db_at env A n H h S P B cat D w' \<and> (\<forall>x. is_open x w' \<longleftrightarrow> is_open x w))"
  proof (rule result_ok_mono [OF r])
    show "db_failed env A H s" if "reading env H (B \<union> (\<Union>x. P x)) w s" for s using db_at_failed [OF db_at_read(1) [OF d that]] .
    show "x = m k \<and> db_at env A n H h S P B cat D s \<and> (\<forall>x. is_open x s \<longleftrightarrow> is_open x w)" if "x = m k \<and> reading env H (B \<union> (\<Union>x. P x)) w s" for x s
      using db_at_read [OF d conjunct2 [OF that]] that m(2) by (simp add: is_open_def)
  qed
  then show ?thesis using b opened [OF b t(1)] by (simp add: bucketGet_def)
qed

text \<open>A binding that may be stored: the value is short or goes to overflow pages.\<close>

definition storable :: "nat \<Rightarrow> bytes \<Rightarrow> bytes \<Rightarrow> bool" where
  "storable c k v \<longleftrightarrow> length k = c \<and> length v < 65536 \<and> (5 + c + length v \<le> maxInlineSize \<longrightarrow> 5 + c + length v \<le> 582)"

lemma uniform_upd: "uniform c m \<Longrightarrow> storable c k v \<Longrightarrow> uniform c (m(k \<mapsto> v))" "uniform c m \<Longrightarrow> uniform c (m(k := None))"
  by (auto simp: uniform_def storable_def ran_def)

lemma bucket_update_rule:
  assumes d: "db_at env A (Suc (n + chain_pages (length v) + 2 * h)) H h S P B cat D w" and m: "D nm = Some m" "is_open nm w" and h: "h \<le> fuel env"
    and kv: "storable (key_length S nm) k v"
  shows "result_ok (bucket_update env nm k v mode w) (db_failed env A H)
    (\<lambda>_ w'. allowed mode (m k \<noteq> None) \<and> (\<exists>P'. db_at env A n H (Suc h) S P' B cat (D(nm \<mapsto> m(k \<mapsto> v))) w') \<and> (\<forall>x. is_open x w' \<longleftrightarrow> is_open x w))"
proof -
  let ?F = "B \<union> (\<Union>x \<in> - {nm}. P x)" and ?\<sigma> = "\<lparr>committed = last_commit A, around = scenery w\<rparr>" and ?K = "{k. length k = key_length S nm}"
  obtain b where b: "bucket_of nm w = Some b" using m(2) by (auto simp: is_open_def)
  obtain t where t: "tree_of w cat nm = Some t" "map_at (V w) (P nm) h ?K t m" "uniform (key_length S nm) m" "P nm \<inter> ?F = {}"
    "txn_ok env ?\<sigma> (Suc (n + chain_pages (length v) + 2 * h)) H (?F \<union> P nm) w" by (rule db_at_focus [OF d m(1)])
  have FP: "?F \<union> P nm - P nm = ?F" using t(4) by blast
  have k: "k \<in> ?K" "length v < 65536" using kv by (simp_all add: storable_def)
  have "result_ok (try_ok (UpdateKey env t k v mode w) (\<lambda>(_, t) w. Some (Inr (), set_bucket nm (b\<lparr>bt := Some t\<rparr>) w))) (db_failed env A H)
    (\<lambda>_ w'. allowed mode (m k \<noteq> None) \<and> (\<exists>P'. db_at env A n H (Suc h) S P' B cat (D(nm \<mapsto> m(k \<mapsto> v))) w') \<and> (\<forall>x. is_open x w' \<longleftrightarrow> is_open x w))"
  proof (rule try_ok_rule [OF UpdateKey_rule [OF t(5,2) _ h k(2,1)]])
    show "db_failed env A H s" if "failed env ?\<sigma> H s" for s using db_failedI [OF d that] .
  next
    fix r w1
    assume a: "length k \<le> maxKeySize \<and> allowed mode (m k \<noteq> None) \<and> root_kept env ?\<sigma> n H (?F \<union> P nm - P nm) (Suc h) ?K (m(k \<mapsto> v)) w r w1"
    obtain pid t' where r: "r = (pid, t')" by (cases r)
    obtain P' where P': "map_at (V w1) P' (Suc h) ?K t' (m(k \<mapsto> v))" "P' \<inter> ?F = {}" "txn_ok env ?\<sigma> n H (?F \<union> P') w1" "same_pages ?F w w1"
      using a unfolding FP r root_kept_def map_kept_def by auto
    have "db_at env A n H (Suc h) S (P(nm := P')) B cat (D(nm := Some (m(k \<mapsto> v)))) (set_bucket nm (b\<lparr>bt := Some t'\<rparr>) w1)"
      using P'(1) uniform_upd(1) [OF t(3) kv] opened(1) [OF b t(1)] db_atD(4) [OF d b]
      by (intro db_at_change [OF d _ P'(3) _ _ P'(4,2)]) (simp_all add: bucket_at_def bucket_ok_def)
    then show "result_ok ((case r of (_, t) \<Rightarrow> \<lambda>w. Some (Inr (), set_bucket nm (b\<lparr>bt := Some t\<rparr>) w)) w1) (db_failed env A H)
      (\<lambda>_ w'. allowed mode (m k \<noteq> None) \<and> (\<exists>P'. db_at env A n H (Suc h) S P' B cat (D(nm \<mapsto> m(k \<mapsto> v))) w') \<and> (\<forall>x. is_open x w' \<longleftrightarrow> is_open x w))"
      using a r b is_open_txn [OF P'(3)] by (auto simp: result_ok_def is_open_def)
  qed simp
  then show ?thesis using b opened [OF b t(1)] by (simp add: bucket_update_def)
qed

lemma bucketDelete_rule:
  assumes d: "db_at env A (n + 2 * h) H h S P B cat D w" and m: "D nm = Some m" "is_open nm w" and h: "h \<le> fuel env"
  shows "result_ok (bucketDelete env nm k w) (db_failed env A H)
    (\<lambda>_ w'. (\<exists>P'. db_at env A n H h S P' B cat (D(nm \<mapsto> m(k := None))) w') \<and> (\<forall>x. is_open x w' \<longleftrightarrow> is_open x w))"
proof -
  let ?F = "B \<union> (\<Union>x \<in> - {nm}. P x)" and ?\<sigma> = "\<lparr>committed = last_commit A, around = scenery w\<rparr>" and ?K = "{k. length k = key_length S nm}"
  obtain b where b: "bucket_of nm w = Some b" using m(2) by (auto simp: is_open_def)
  obtain t where t: "tree_of w cat nm = Some t" "map_at (V w) (P nm) h ?K t m" "uniform (key_length S nm) m" "P nm \<inter> ?F = {}"
    "txn_ok env ?\<sigma> (n + 2 * h) H (?F \<union> P nm) w" by (rule db_at_focus [OF d m(1)])
  have FP: "?F \<union> P nm - P nm = ?F" using t(4) by blast
  have "result_ok (try_ok (DeleteKey env t k w) (\<lambda>(_, _, t) w. Some (Inr (), set_bucket nm (b\<lparr>bt := Some t\<rparr>) w))) (db_failed env A H)
    (\<lambda>_ w'. (\<exists>P'. db_at env A n H h S P' B cat (D(nm \<mapsto> m(k := None))) w') \<and> (\<forall>x. is_open x w' \<longleftrightarrow> is_open x w))"
  proof (rule try_ok_rule [OF DeleteKey_rule [OF t(5,2) _ h t(3)]])
    show "db_failed env A H s" if "failed env ?\<sigma> H s" for s using db_failedI [OF d that] .
  next
    fix r w1 assume a: "delete_kept env ?\<sigma> n H (?F \<union> P nm - P nm) h ?K m k w r w1"
    obtain pid found t' where r: "r = (pid, found, t')" by (cases r)
    obtain P' where P': "map_at (V w1) P' h ?K t' (m(k := None))" "P' \<inter> ?F = {}" "txn_ok env ?\<sigma> n H (?F \<union> P') w1" "same_pages ?F w w1"
      using a unfolding FP r delete_kept_def map_kept_def by auto
    have "db_at env A n H h S (P(nm := P')) B cat (D(nm := Some (m(k := None)))) (set_bucket nm (b\<lparr>bt := Some t'\<rparr>) w1)"
      using P'(1) uniform_upd(2) [OF t(3)] opened(1) [OF b t(1)] db_atD(4) [OF d b]
      by (intro db_at_change [OF d _ P'(3) _ _ P'(4,2)]) (simp_all add: bucket_at_def bucket_ok_def)
    then show "result_ok ((case r of (_, _, t) \<Rightarrow> \<lambda>w. Some (Inr (), set_bucket nm (b\<lparr>bt := Some t\<rparr>) w)) w1) (db_failed env A H)
      (\<lambda>_ w'. (\<exists>P'. db_at env A n H h S P' B cat (D(nm \<mapsto> m(k := None))) w') \<and> (\<forall>x. is_open x w' \<longleftrightarrow> is_open x w))"
      using r b is_open_txn [OF P'(3)] by (auto simp: result_ok_def is_open_def)
  qed simp
  then show ?thesis using b opened [OF b t(1)] by (simp add: bucketDelete_def)
qed

section \<open>Opening and creating buckets\<close>

lemma catalogLookup_rule:
  assumes d: "db_at env A n H h S P B cat D w" and h: "h \<le> fuel env"
  shows "result_ok (catalogLookup env nm w) (db_failed env A H)
    (\<lambda>y w'. reading env H (B \<union> (\<Union>x. P x)) w w' \<and> (snd y \<longleftrightarrow> cat nm \<noteq> None) \<and> (\<forall>v. cat nm = Some v \<longrightarrow> Uint64 v = Some (fst y)))"
    (is "result_ok _ _ ?Q")
proof -
  let ?L = "B \<union> (\<Union>x. P x)" and ?r = "catalogRoot (meta (txn w))"
  obtain Pc where pc: "map_at (V w) Pc h (bucket_names S) (NewBTree ?r) cat" "Pc \<subseteq> B" using db_atD(5) [OF d] by blast
  have ok: "read_ok env H ?L w" by (rule txn_read [OF db_atD(7) [OF d]])
  have len: "length v = 8" if "cat nm = Some v" for v using db_atD(6) [OF d] that by (auto simp: ran_def)
  show ?thesis
  proof (cases "?r = 0")
    case True
    then have "cat = Map.empty" using pc(1) by (simp add: map_at_def NewBTree_def)
    then show ?thesis using True ok by (simp add: catalogLookup_def result_ok_def reading_def)
  next
    case False
    have PL: "Pc \<subseteq> ?L" using pc(2) by blast
    have "result_ok (try_ok (SearchKey env (NewBTree ?r) nm w) (\<lambda>val w.
        case val of
          None \<Rightarrow> Some (Inr (0, False), w)
        | Some bs \<Rightarrow>
            if length bs \<noteq> 8 then Some (Inl ErrMalformedCatalog, w)
            else do { pid \<leftarrow> Uint64 bs; Some (Inr (pid, True), w) })) (db_failed env A H) ?Q"
    proof (rule try_ok_rule [OF SearchKey_map [OF ok pc(1) PL h]])
      show "db_failed env A H s" if "reading env H ?L w s" for s using db_at_failed [OF db_at_read(1) [OF d that]] .
    next
      fix x w1 assume a: "x = cat nm \<and> reading env H ?L w w1"
      show "result_ok (case x of
          None \<Rightarrow> Some (Inr (0, False), w1)
        | Some bs \<Rightarrow>
            if length bs \<noteq> 8 then Some (Inl ErrMalformedCatalog, w1)
            else do { pid \<leftarrow> Uint64 bs; Some (Inr (pid, True), w1) }) (db_failed env A H) ?Q"
      proof -
        have x: "x = cat nm" and rd: "reading env H ?L w w1" using a by simp_all
        show ?thesis using rd len by (cases "cat nm") (simp_all add: x result_ok_def Uint64_def)
      qed
    qed
    then show ?thesis using False by (simp add: catalogLookup_def)
  qed
qed

lemma pages_at: "B \<union> (\<Union>x. P x) = B \<union> (\<Union>x \<in> - {nm}. P x) \<union> P nm"
  by auto

text \<open>A new entry for a bucket whose pages do not change.\<close>

lemma db_at_enter:
  assumes d: "db_at env A n H h S P B cat D w" and b: "bucket_at (V w) h (key_length S nm) (P nm) (if dropped b then None else bt b) m" "bucket_ok S cat nm b" "dropped b \<longrightarrow> nm \<in> droppable A"
  shows "db_at env A n H h S P B cat (D(nm := m)) (set_bucket nm b w)"
proof -
  have "P nm \<inter> P x = {}" if "x \<in> - {nm}" for x using db_atD(2) [OF d, of nm x] that by simp
  then have dj: "P nm \<inter> (B \<union> (\<Union>x \<in> - {nm}. P x)) = {}" unfolding Int_Un_distrib Int_UN_distrib using db_atD(3) [OF d, of nm] by simp
  have "txn_ok env \<lparr>committed = last_commit A, around = scenery w\<rparr> n H (B \<union> (\<Union>x \<in> - {nm}. P x) \<union> P nm) w"
    using db_atD(7) [OF d] unfolding pages_at [of B P nm] .
  from db_at_change [OF d order_refl this _ _ same_pages_refl dj b] show ?thesis by simp
qed

lemma is_open_set [simp]: "is_open x (set_bucket nm b w) \<longleftrightarrow> x = nm \<or> is_open x w"
  by (simp add: is_open_def)

lemma lookupBucket_rule:
  assumes d: "db_at env A n H h S P B cat D w" and h: "h \<le> fuel env"
  shows "result_ok (lookupBucket env nm w) (db_failed env A H)
    (\<lambda>x w'. x = nm \<and> D nm \<noteq> None \<and> db_at env A n H h S P B cat D w' \<and> (\<forall>x. is_open x w' \<longleftrightarrow> x = nm \<or> is_open x w))"
    (is "result_ok _ _ ?Q")
proof (cases "bucket_of nm w")
  case (Some b)
  have "D nm \<noteq> None" if "\<not> dropped b"
    using db_atD(1) [OF d, of nm] db_atD(4) [OF d Some] that Some by (auto simp: tree_of_def bucket_at_def bucket_ok_def split: option.splits)
  then show ?thesis using Some d db_at_failed [OF d] by (auto simp: lookupBucket_def result_ok_def is_open_def)
next
  case None
  have "result_ok (try_ok (catalogLookup env nm w) (\<lambda>(r, found) w.
      if \<not> found then Some (Inl ErrBucketNotFound, w)
      else Some (Inr nm, set_bucket nm \<lparr>name = nm, bt = Some (NewBTree r), origRoot = r, created = False, dropped = False\<rparr> w))) (db_failed env A H) ?Q"
  proof (rule try_ok_rule [OF catalogLookup_rule [OF d h]])
    fix y w1
    assume a: "reading env H (B \<union> (\<Union>x. P x)) w w1 \<and> (snd y \<longleftrightarrow> cat nm \<noteq> None) \<and> (\<forall>v. cat nm = Some v \<longrightarrow> Uint64 v = Some (fst y))"
    obtain r found where y: "y = (r, found)" by (cases y)
    have rd: "reading env H (B \<union> (\<Union>x. P x)) w w1" and fo: "found \<longleftrightarrow> cat nm \<noteq> None" and v: "\<And>v. cat nm = Some v \<Longrightarrow> Uint64 v = Some r" using a y by auto
    note d1 = db_at_read [OF d rd]
    let ?b = "\<lparr>name = nm, bt = Some (NewBTree r), origRoot = r, created = False, dropped = False\<rparr>"
    have "?Q nm (set_bucket nm ?b w1)" if found
    proof -
      obtain v where cv: "cat nm = Some v" using fo \<open>found\<close> by auto
      have "length v = 8" using db_atD(6) [OF d] cv by (auto simp: ran_def)
      then have "v = le_bytes 8 r" using v [OF cv] le_bytes_le_word [of v 8, where 'a = 64] by (auto simp: Uint64_def)
      moreover have "nm \<in> bucket_names S" using db_atD(5) [OF d] cv map_at_dom by blast
      ultimately have bok: "bucket_ok S cat nm ?b" using cv by (simp add: bucket_ok_def)
      from cv have "tree_of w1 cat nm = Some (NewBTree r)" using None d1(2) v by (simp add: tree_of_def)
      then have b: "bucket_at (V w1) h (key_length S nm) (P nm) (Some (NewBTree r)) (D nm)" using db_atD(1) [OF d1(1), of nm] by simp
      then have "D nm \<noteq> None" by (auto simp: bucket_at_def split: option.splits)
      moreover have "db_at env A n H h S P B cat (D(nm := D nm)) (set_bucket nm ?b w1)" using b by (intro db_at_enter [OF d1(1)]) (simp_all add: bok)
      ultimately show ?thesis using d1(2) by (simp add: is_open_def)
    qed
    then show "result_ok ((case y of (r, found) \<Rightarrow> \<lambda>w. if \<not> found then Some (Inl ErrBucketNotFound, w)
        else Some (Inr nm, set_bucket nm \<lparr>name = nm, bt = Some (NewBTree r), origRoot = r, created = False, dropped = False\<rparr> w)) w1) (db_failed env A H) ?Q"
      using db_at_failed [OF d1(1)] y by (auto simp: result_ok_def)
  qed simp
  then show ?thesis using None by (simp add: lookupBucket_def)
qed

lemma openBucket_rule:
  assumes d: "db_at env A n H h S P B cat D w" and h: "h \<le> fuel env"
  shows "result_ok (openBucket env nm w) (db_failed env A H)
    (\<lambda>x w'. x = nm \<and> D nm \<noteq> None \<and> db_at env A n H h S P B cat D w' \<and> (\<forall>x. is_open x w' \<longleftrightarrow> x = nm \<or> is_open x w))"
  using lookupBucket_rule [OF d h] db_atD(7) [OF d] by (simp add: openBucket_def txn_ok_def read_ok_def)

lemma CreateBucket_rule:
  assumes d: "db_at env A n H h S P B cat D w" and h: "h \<le> fuel env" and z: "key_length S nm \<le> 498" "nm \<in> bucket_names S"
  shows "result_ok (CreateBucket env nm w) (db_failed env A H)
    (\<lambda>x w'. x = nm \<and> D nm = None \<and> db_at env A n H h S P B cat (D(nm \<mapsto> Map.empty)) w' \<and> (\<forall>x. is_open x w' \<longleftrightarrow> x = nm \<or> is_open x w))"
    (is "result_ok _ _ ?Q")
proof -
  have op: "writable (txn w)" "\<not> closed (txn w)" using db_atD(7) [OF d] by (simp_all add: txn_ok_def read_ok_def lists_ok_def)
  have new: "D nm = None \<and> db_at env A n H h S P B cat (D(nm \<mapsto> Map.empty)) (set_bucket nm b u)"
    if "db_at env A n H h S P B cat D u" "tree_of u cat nm = None" "\<not> dropped b" "bt b = Some (NewBTree 0)" "created b" "cat nm = Some (le_bytes 8 (origRoot b)) \<or> cat nm = None" for b u
  proof -
    have "D nm = None" "P nm = {}" using db_atD(1) [OF that(1), of nm] that(2) by (auto simp: bucket_at_def split: option.splits)
    then show ?thesis using that(3-6) z by (intro conjI db_at_enter [OF that(1)]) (simp_all add: bucket_ok_def bucket_at_def map_at_def NewBTree_def uniform_def)
  qed
  show ?thesis
  proof (cases "bucket_of nm w")
    case (Some b)
    show ?thesis
    proof (cases "dropped b")
      case True
      then have "tree_of w cat nm = None" using Some by (simp add: tree_of_def)
      from new [OF d this, of "b\<lparr>bt := Some (NewBTree 0), dropped := False, created := True\<rparr>"] show ?thesis
        using op Some True db_atD(4) [OF d Some] by (auto simp: CreateBucket_def result_ok_def is_open_def bucket_ok_def)
    next
      case False
      then show ?thesis using op Some db_at_failed [OF d] by (simp add: CreateBucket_def result_ok_def)
    qed
  next
    case None
    have "result_ok (try_ok (catalogLookup env nm w) (\<lambda>(_, found) w.
        if found then Some (Inl ErrBucketExists, w)
        else Some (Inr nm, set_bucket nm \<lparr>name = nm, bt = Some (NewBTree 0), origRoot = 0, created = True, dropped = False\<rparr> w))) (db_failed env A H) ?Q"
    proof (rule try_ok_rule [OF catalogLookup_rule [OF d h]])
      fix y w1
      assume a: "reading env H (B \<union> (\<Union>x. P x)) w w1 \<and> (snd y \<longleftrightarrow> cat nm \<noteq> None) \<and> (\<forall>v. cat nm = Some v \<longrightarrow> Uint64 v = Some (fst y))"
      obtain r found where y: "y = (r, found)" by (cases y)
      have rd: "reading env H (B \<union> (\<Union>x. P x)) w w1" and fo: "found \<longleftrightarrow> cat nm \<noteq> None" using a y by auto
      note d1 = db_at_read [OF d rd]
      let ?b = "\<lparr>name = nm, bt = Some (NewBTree 0), origRoot = 0, created = True, dropped = False\<rparr>"
      have "?Q nm (set_bucket nm ?b w1)" if "\<not> found"
      proof -
        have "tree_of w1 cat nm = None" using None d1(2) fo that by (simp add: tree_of_def)
        from new [OF d1(1) this, of ?b] show ?thesis using d1(2) fo that by (simp add: is_open_def)
      qed
      then show "result_ok ((case y of (_, found) \<Rightarrow> \<lambda>w. if found then Some (Inl ErrBucketExists, w)
          else Some (Inr nm, set_bucket nm \<lparr>name = nm, bt = Some (NewBTree 0), origRoot = 0, created = True, dropped = False\<rparr> w)) w1) (db_failed env A H) ?Q"
        using db_at_failed [OF d1(1)] y by (auto simp: result_ok_def)
    qed simp
    then show ?thesis using op None by (simp add: CreateBucket_def)
  qed
qed

text \<open>A dropped bucket gives its pages back.\<close>

lemma DropBucket_rule:
  assumes d: "db_at env A n H h S P B cat D w" and h: "h \<le> fuel env" and nm: "nm \<in> droppable A"
  shows "result_ok (DropBucket env nm w) (db_failed env A H)
    (\<lambda>_ w'. D nm \<noteq> None \<and> (\<exists>P'. db_at env A n H h S P' B cat (D(nm := None)) w') \<and> (\<forall>x. is_open x w' \<longleftrightarrow> x = nm \<or> is_open x w))"
    (is "result_ok _ _ ?Q")
proof -
  have op: "writable (txn w)" "\<not> closed (txn w)" using db_atD(7) [OF d] by (simp_all add: txn_ok_def read_ok_def lists_ok_def)
  have "result_ok (try_ok (lookupBucket env nm w) (\<lambda>nm w. do {
        b \<leftarrow> bucket_of nm w;
        t \<leftarrow> bt b;
        try_ok (FreeAll env t w) (\<lambda>_ w. Some (Inr (), set_bucket nm (b\<lparr>bt := None, dropped := True\<rparr>) w))
      })) (db_failed env A H) ?Q"
  proof (rule try_ok_rule [OF lookupBucket_rule [OF d h]])
    fix x w1
    assume a: "x = nm \<and> D nm \<noteq> None \<and> db_at env A n H h S P B cat D w1 \<and> (\<forall>x. is_open x w1 \<longleftrightarrow> x = nm \<or> is_open x w)"
    then have x: "x = nm" and d1: "db_at env A n H h S P B cat D w1" and io: "\<And>x. is_open x w1 \<longleftrightarrow> x = nm \<or> is_open x w" by blast+
    obtain m where m: "D nm = Some m" using a by blast
    obtain b where b: "bucket_of nm w1 = Some b" using io [of nm] by (auto simp: is_open_def)
    let ?F = "B \<union> (\<Union>x \<in> - {nm}. P x)" and ?\<sigma> = "\<lparr>committed = last_commit A, around = scenery w1\<rparr>"
    obtain t where t: "tree_of w1 cat nm = Some t" "map_at (V w1) (P nm) h {k. length k = key_length S nm} t m" "P nm \<inter> ?F = {}"
      "txn_ok env ?\<sigma> n H (?F \<union> P nm) w1" by (rule db_at_focus [OF d1 m])
    have FP: "?F \<union> P nm - P nm = ?F" using t(3) by blast
    have "result_ok (try_ok (FreeAll env t w1) (\<lambda>_ w. Some (Inr (), set_bucket nm (b\<lparr>bt := None, dropped := True\<rparr>) w))) (db_failed env A H) ?Q"
    proof (rule try_ok_rule [OF FreeAll_rule [OF t(4,2) _ h]])
      show "db_failed env A H s" if "failed env ?\<sigma> H s" for s using db_failedI [OF d1 that] .
    next
      fix u w2 assume "\<exists>ps. set ps = P nm \<and> distinct ps \<and> freeing env ?\<sigma> n H (?F \<union> P nm - P nm) ps w1 w2"
      then have w2: "txn_ok env ?\<sigma> n H (?F \<union> {}) w2" "same_pages ?F w1 w2" unfolding FP by (auto simp: freeing_def)
      have "db_at env A n H h S (P(nm := {})) B cat (D(nm := None)) (set_bucket nm (b\<lparr>bt := None, dropped := True\<rparr>) w2)"
        using db_atD(4) [OF d1 b] nm by (intro db_at_change [OF d1 order_refl w2(1) _ _ w2(2)]) (simp_all add: bucket_at_def bucket_ok_def)
      moreover have "scenery w2 = scenery w1" using w2(1) by (simp add: txn_ok_def)
      then have "is_open x w2 = is_open x w1" for x by (simp add: is_open_def bucket_of_def scenery_def)
      ultimately show "result_ok (Some (Inr (), set_bucket nm (b\<lparr>bt := None, dropped := True\<rparr>) w2)) (db_failed env A H) ?Q"
        using m io by (auto simp: result_ok_def)
    qed simp
    then show "result_ok (do {
        b \<leftarrow> bucket_of x w1;
        t \<leftarrow> bt b;
        try_ok (FreeAll env t w1) (\<lambda>_ w. Some (Inr (), set_bucket x (b\<lparr>bt := None, dropped := True\<rparr>) w))
      }) (db_failed env A H) ?Q" using b opened [OF b t(1)] x by simp
  qed simp
  then show ?thesis using op by (simp add: DropBucket_def)
qed

end
