(* ===== verification/CatalogMap.thy ===== *)
theory CatalogMap
  imports BucketMap
begin

text \<open>
  Writing the bucket table back: \<open>applyBucketChanges\<close> of \<^verbatim>\<open>src/bucket.go\<close> makes the catalog agree with the
  table, so that a transaction that starts from the new catalog with an empty table sees the same abstract
  database. The one exception is the drop of a bucket whose committed tree is empty.
\<close>

section \<open>The catalog after the changes\<close>

definition entry_after :: "bytes option \<Rightarrow> Bucket \<Rightarrow> bytes option" where
  "entry_after v b =
     (if dropped b then if origRoot b = 0 then v else None
      else if created b \<or> map_option root (bt b) \<noteq> Some (origRoot b) then map_option (\<lambda>t. le_bytes 8 (root t)) (bt b)
      else v)"

fun catalog_after :: "(bytes \<times> Bucket) list \<Rightarrow> (bytes \<rightharpoonup> bytes) \<Rightarrow> (bytes \<rightharpoonup> bytes)" where
  "catalog_after [] c = c"
| "catalog_after ((nm, b) # bs) c = catalog_after bs (c(nm := entry_after (c nm) b))"

lemma catalog_after_at:
  "distinct (map fst bs) \<Longrightarrow> catalog_after bs c nm = (case map_of bs nm of None \<Rightarrow> c nm | Some b \<Rightarrow> entry_after (c nm) b)"
proof (induction bs arbitrary: c)
  case (Cons nb bs)
  obtain x b where nb: "nb = (x, b)" by (cases nb)
  have "map_of bs x = None" using Cons.prems nb by (simp add: map_of_eq_None_iff)
  then show ?case using Cons nb by (cases "nm = x"; cases "map_of bs nm") auto
qed simp

lemma storable_root: "c \<le> 498 \<Longrightarrow> length nm = c \<Longrightarrow> length v = 8 \<Longrightarrow> storable c nm v"
  by (simp add: storable_def)

lemma map_kept_trans:
  assumes "map_kept env \<sigma> n H (L - P) h K m w t w1"
    and "\<And>P1. map_at (V w1) P1 h K t m \<Longrightarrow> txn_ok env \<sigma> n H (L - P \<union> P1) w1 \<Longrightarrow>
      result_ok (F w1) E (\<lambda>x w'. map_kept env \<sigma> n' H (L - P \<union> P1 - P1) h' K m' w1 x w')"
  shows "result_ok (F w1) E (\<lambda>x w'. map_kept env \<sigma> n' H (L - P) h' K m' w x w')"
proof -
  obtain P1 where P1: "map_at (V w1) P1 h K t m" "P1 \<inter> (L - P) = {}" "txn_ok env \<sigma> n H (L - P \<union> P1) w1" "same_pages (L - P) w w1"
    using assms(1) unfolding map_kept_def by blast
  have eq: "L - P \<union> P1 - P1 = L - P" using P1(2) by blast
  show ?thesis
    by (rule result_ok_mono [OF assms(2) [OF P1(1,3)]]) (use P1(4) same_pages_trans in \<open>auto simp: eq map_kept_def\<close>)
qed

text \<open>The loop over the table, with the catalog as a map whose keys have length \<open>c\<close>.\<close>

lemma apply_buckets_rule:
  assumes "txn_ok env \<sigma> (n + length bs * (2 + 2 * M)) H L w" "map_at (V w) P h {k. length k = c} t m" "P \<subseteq> L" "h + length bs \<le> M" "M \<le> fuel env"
    "uniform c m" "\<forall>(nm, b) \<in> set bs. length nm = c \<and> (dropped b \<or> bt b \<noteq> None)"
  shows "result_ok (apply_buckets env t bs w) (failed env \<sigma> H)
    (\<lambda>t' w'. map_kept env \<sigma> n H (L - P) (h + length bs) {k. length k = c} (catalog_after bs m) w t' w')"
  using assms
proof (induction bs arbitrary: t w m P h L)
  case Nil
  have eq: "L - P \<union> P = L" using Nil.prems(3) by blast
  show ?case using Nil.prems(1,2) eq by (auto simp: result_ok_def map_kept_def)
next
  case (Cons nb bs)
  let ?K = "{k. length k = c}" and ?n = "n + length bs * (2 + 2 * M)"
  obtain nm b where nb: "nb = (nm, b)" by (cases nb)
  have nm: "length nm = c" "dropped b \<or> bt b \<noteq> None" and bs: "\<forall>(nm, b) \<in> set bs. length nm = c \<and> (dropped b \<or> bt b \<noteq> None)" using Cons.prems(7) nb by auto
  have c: "c \<le> 498" and hf: "h \<le> fuel env" "h \<le> M" using Cons.prems(4-6) by (simp_all add: uniform_def)
  let ?m = "m(nm := entry_after (m nm) b)"
  let ?Q = "\<lambda>t' w'. map_kept env \<sigma> n H (L - P) (h + length (nb # bs)) ?K (catalog_after bs ?m) w t' w'"
  have len: "h + length (nb # bs) = Suc h + length bs" by simp
  have rest: "result_ok (apply_buckets env t' bs w') (failed env \<sigma> H) ?Q"
    if k: "map_kept env \<sigma> ?n H (L - P) (Suc h) ?K ?m w t' w'" and u: "uniform c ?m" for t' w'
    unfolding len
  proof (rule map_kept_trans [where F = "apply_buckets env t' bs", OF k])
    fix P1 assume k: "map_at (V w') P1 (Suc h) ?K t' ?m" "txn_ok env \<sigma> ?n H (L - P \<union> P1) w'"
    have "P1 \<subseteq> L - P \<union> P1" "Suc h + length bs \<le> M" using Cons.prems(4) by auto
    from Cons.IH [OF k(2,1) this Cons.prems(5) u bs] show "result_ok (apply_buckets env t' bs w') (failed env \<sigma> H)
      (map_kept env \<sigma> n H (L - P \<union> P1 - P1) (Suc h + length bs) ?K (catalog_after bs ?m) w')" .
  qed
  have keep: "result_ok (apply_buckets env t bs w) (failed env \<sigma> H) ?Q" if "entry_after (m nm) b = m nm"
  proof (rule rest)
    have eq: "L - P \<union> P = L" using Cons.prems(3) by blast
    have id: "?m = m" using that by (auto simp: fun_eq_iff)
    have "map_at (V w) P (Suc h) ?K t m" using map_at_weaken [OF Cons.prems(2), of "Suc h" ?K] by simp
    then show "map_kept env \<sigma> ?n H (L - P) (Suc h) ?K ?m w t w" "uniform c ?m"
      using txn_ok_less [OF Cons.prems(1), of ?n] Cons.prems(6) eq unfolding id by (auto simp: map_kept_def)
  qed
  consider (skip) "dropped b" "origRoot b = 0" | (del) "dropped b" "origRoot b \<noteq> 0"
    | (put) s where "\<not> dropped b" "bt b = Some s" "created b \<or> root s \<noteq> origRoot b" | (same) s where "\<not> dropped b" "bt b = Some s" "\<not> (created b \<or> root s \<noteq> origRoot b)"
    using nm(2) by auto
  then have "result_ok (apply_buckets env t ((nm, b) # bs) w) (failed env \<sigma> H) ?Q"
  proof cases
    case skip
    then show ?thesis using keep by (simp add: entry_after_def)
  next
    case same
    then show ?thesis using keep by (simp add: entry_after_def)
  next
    case del
    have ok: "txn_ok env \<sigma> (?n + 2 * h) H L w" using txn_ok_less [OF Cons.prems(1)] hf by simp
    have e: "?m = m(nm := None)" using del by (simp add: entry_after_def)
    have "result_ok (try_ok (DeleteKey env t nm w) (\<lambda>(_, _, cat) w. apply_buckets env cat bs w)) (failed env \<sigma> H) ?Q"
    proof (rule try_ok_rule [OF DeleteKey_rule [OF ok Cons.prems(2,3) hf(1) Cons.prems(6)]])
      fix r w1 assume "delete_kept env \<sigma> ?n H (L - P) h ?K m nm w r w1"
      moreover obtain pid found t' where r: "r = (pid, found, t')" by (cases r)
      ultimately have "map_kept env \<sigma> ?n H (L - P) (Suc h) ?K ?m w t' w1"
        unfolding e delete_kept_def map_kept_def using map_at_weaken [of "V w1" _ h ?K t' "m(nm := None)" "Suc h" ?K] by auto
      then show "result_ok ((case r of (_, _, cat) \<Rightarrow> apply_buckets env cat bs) w1) (failed env \<sigma> H) ?Q"
        using rest uniform_upd(2) [OF Cons.prems(6)] r e by simp
    qed simp
    then show ?thesis using del by simp
  next
    case (put s)
    let ?v = "le_bytes 8 (root s)"
    have "chain_pages (length ?v) = 1" by (simp add: chain_pages_def)
    then have ok: "txn_ok env \<sigma> (Suc (?n + chain_pages (length ?v) + 2 * h)) H L w" using txn_ok_less [OF Cons.prems(1)] hf by simp
    have e: "?m = m(nm \<mapsto> ?v)" using put by (simp add: entry_after_def)
    have "result_ok (try_ok (UpdateKey env t nm ?v ModeUpsert w) (\<lambda>(_, cat) w. apply_buckets env cat bs w)) (failed env \<sigma> H) ?Q"
    proof (rule try_ok_rule [OF UpdateKey_rule [OF ok Cons.prems(2,3) hf(1)]])
      fix r w1 assume "length nm \<le> maxKeySize \<and> allowed ModeUpsert (m nm \<noteq> None) \<and> root_kept env \<sigma> ?n H (L - P) (Suc h) ?K (m(nm \<mapsto> ?v)) w r w1"
      moreover obtain pid t' where r: "r = (pid, t')" by (cases r)
      ultimately have "map_kept env \<sigma> ?n H (L - P) (Suc h) ?K ?m w t' w1" unfolding e root_kept_def by auto
      then show "result_ok ((case r of (_, cat) \<Rightarrow> apply_buckets env cat bs) w1) (failed env \<sigma> H) ?Q"
        using rest uniform_upd(1) [OF Cons.prems(6) storable_root [OF c nm(1)], of ?v] r e by simp
    qed (use nm in simp_all)
    then show ?thesis using put by simp
  qed
  then show ?case using nb by simp
qed

section \<open>The database survives\<close>

text \<open>The world in which the next transaction would start: the same pages, with an empty table.\<close>

definition reopened :: "world \<Rightarrow> world" where
  "reopened w = w\<lparr>txn := (txn w)\<lparr>buckets := []\<rparr>\<rparr>"

definition set_catalog :: "PageId \<Rightarrow> world \<Rightarrow> world" where
  "set_catalog r w = w\<lparr>txn := (txn w)\<lparr>meta := (meta (txn w))\<lparr>catalogRoot := r\<rparr>\<rparr>\<rparr>"

lemma set_catalog_ok:
  "txn_ok env \<sigma> n H L w \<Longrightarrow> txn_ok env (\<sigma>\<lparr>around := scenery (reopened (set_catalog r w))\<rparr>) n H L (reopened (set_catalog r w))"
  by (simp add: txn_ok_def read_ok_def lists_ok_def disk_ok_def fresh_ok_def free_lists_def set_catalog_def reopened_def)

definition lost_drop :: "(bytes \<rightharpoonup> bytes) \<Rightarrow> world \<Rightarrow> bool" where
  "lost_drop cat w \<longleftrightarrow> (\<exists>(nm, b) \<in> set (buckets (txn w)). dropped b \<and> origRoot b = 0 \<and> cat nm \<noteq> None)"

lemma catalog_agrees:
  assumes d: "db_at env A n H h S P B cat D w" and l: "\<not> lost_drop cat w"
    and c: "\<And>x. cat' x = (case bucket_of x w of None \<Rightarrow> cat x | Some b \<Rightarrow> entry_after (cat x) b)" and bs: "buckets (txn w') = []"
  shows "tree_of w' cat' nm = tree_of w cat nm"
proof (cases "bucket_of nm w")
  case None
  then show ?thesis using bs c by (simp add: tree_of_def bucket_of_def)
next
  case (Some b)
  have in_bs: "(nm, b) \<in> set (buckets (txn w))" using Some by (simp add: bucket_of_def map_of_SomeD)
  have ok: "bucket_ok S cat nm b" using db_atD(4) [OF d Some] by blast
  show ?thesis
  proof (cases "dropped b")
    case True
    then have "cat' nm = None" using c [of nm] Some l in_bs by (auto simp: entry_after_def lost_drop_def)
    then show ?thesis using True Some bs by (simp add: tree_of_def bucket_of_def)
  next
    case False
    then obtain t where t: "bt b = Some t" using ok by (auto simp: bucket_ok_def)
    then have "cat' nm = Some (le_bytes 8 (root t))" using c [of nm] Some ok False by (auto simp: entry_after_def bucket_ok_def)
    moreover have "bucket_of nm w' = None" using bs by (simp add: bucket_of_def)
    ultimately show ?thesis using t Some False by (simp add: tree_of_def Uint64_def NewBTree_def)
  qed
qed

lemma db_at_uniform:
  assumes "db_at env A n H h S P B cat D w" "bucket_names S = {k. length k = c}" "c \<le> 498"
  shows "uniform c cat"
  using assms(3) db_atD(6) [OF assms(1)] by (simp add: uniform_def)

text \<open>The change of the header, and the state after it: \<open>P'\<close> are the pages of the new catalog.\<close>

definition set_root :: "PageId \<Rightarrow> anchor \<Rightarrow> anchor" where
  "set_root r A = A\<lparr>setting := (((fst (fst (setting A)))\<lparr>catalogRoot := r\<rparr>, snd (fst (setting A))), snd (setting A))\<rparr>"

lemma setting_set_root:
  assumes "setting_of (scenery w) = setting A" "scenery w' = scenery w"
  shows "setting_of (scenery (reopened (set_catalog r w'))) = setting (set_root r A)"
proof -
  have com: "m\<lparr>catalogRoot := r, numPages := 0\<rparr> = (m\<lparr>numPages := 0\<rparr>)\<lparr>catalogRoot := r\<rparr>" for m :: Meta by simp
  have "setting A = setting_of (scenery w')" using assms by simp
  then show ?thesis unfolding set_root_def setting_of_def scenery_def reopened_def set_catalog_def by (auto simp: com simp del: Meta.update_convs)
qed

definition catalog_written ::
    "env \<Rightarrow> anchor \<Rightarrow> nat \<Rightarrow> handle multiset \<Rightarrow> nat \<Rightarrow> schema \<Rightarrow> (bytes \<Rightarrow> PageId set) \<Rightarrow> PageId set \<Rightarrow> database \<Rightarrow> world \<Rightarrow> PageId set \<Rightarrow> (bytes \<rightharpoonup> bytes) \<Rightarrow> world \<Rightarrow> bool" where
  "catalog_written env A n H h S P F D w P' cat w' \<longleftrightarrow>
     db_at env (set_root (catalogRoot (meta (txn w'))) A) n H h S P (F \<union> P') cat D (reopened w') \<and> P' \<inter> F = {} \<and> same_pages F w w' \<and>
     map_at (V w') P' h (bucket_names S) (NewBTree (catalogRoot (meta (txn w')))) cat"

lemma no_lost_drop:
  assumes d: "db_at env A n H h S P B cat D w" and dr: "\<And>nm. nm \<in> droppable A \<Longrightarrow> cat nm \<noteq> Some (le_bytes 8 (0 :: PageId))"
  shows "\<not> lost_drop cat w"
proof
  assume "lost_drop cat w"
  then obtain nm b where b: "(nm, b) \<in> set (buckets (txn w))" "dropped b" "origRoot b = 0" "cat nm \<noteq> None" by (auto simp: lost_drop_def)
  have "bucket_of nm w = Some b" using b(1) db_atD(8) [OF d] by (simp add: bucket_of_def)
  from db_atD(4) [OF d this] b(2-4) dr [of nm] show False by (auto simp: bucket_ok_def)
qed

lemma applyBucketChanges_rule:
  assumes d: "db_at env A (n + length (buckets (txn w)) * (2 + 2 * M)) H h S P B cat D w" and h: "h + length (buckets (txn w)) \<le> M" "M \<le> fuel env"
    and pc: "map_at (V w) Pc h (bucket_names S) (NewBTree (catalogRoot (meta (txn w)))) cat" "Pc \<subseteq> B"
    and S: "bucket_names S = {k. length k = c}" "c \<le> 498" and ord: "mset (order (buckets (txn w))) = mset (buckets (txn w))" and l: "\<not> lost_drop cat w"
  shows "result_ok (applyBucketChanges env order w) (db_failed env A H)
    (\<lambda>_ w'. \<exists>P' cat'. catalog_written env A n H (h + length (buckets (txn w))) S P (B - Pc) D w P' cat' w')"
proof (cases "buckets (txn w) = []")
  case True
  have B: "B - Pc \<union> Pc = B" using pc(2) by blast
  have "set_root (catalogRoot (meta (txn w))) A = A" using db_atD(9) [OF d] by (cases A) (auto simp: set_root_def setting_of_def scenery_def)
  moreover have "reopened w = w" using True by (simp add: reopened_def)
  ultimately have "catalog_written env A n H h S P (B - Pc) D w Pc cat w" using True d pc B by (auto simp: catalog_written_def)
  then show ?thesis using True by (auto simp: applyBucketChanges_def result_ok_def)
next
  case False
  let ?bs = "order (buckets (txn w))" and ?\<sigma> = "\<lparr>committed = last_commit A, around = scenery w\<rparr>" and ?L = "B \<union> (\<Union>x. P x)" and ?r = "catalogRoot (meta (txn w))"
  let ?n = "n + length (buckets (txn w)) * (2 + 2 * M)" and ?h = "h + length (buckets (txn w))"
  have ln: "length ?bs = length (buckets (txn w))" and st: "set ?bs = set (buckets (txn w))" using mset_eq_length [OF ord] mset_eq_setD [OF ord] .
  have "mset (map fst ?bs) = mset (map fst (buckets (txn w)))" using ord by simp
  then have ds: "distinct (map fst ?bs)" using db_atD(8) [OF d] mset_eq_imp_distinct_iff by blast
  then have mo: "map_of ?bs = map_of (buckets (txn w))" using st db_atD(8) [OF d] by (intro map_of_inject_set [THEN iffD2])
  have PL: "Pc \<subseteq> ?L" using pc(2) by blast
  have hb: "h + length ?bs \<le> M" using h(1) ln by simp
  have ok: "txn_ok env ?\<sigma> (n + length ?bs * (2 + 2 * M)) H ?L w" using db_atD(7) [OF d] ln by simp
  have nmb: "length nm = c \<and> (dropped b \<or> bt b \<noteq> None)" if "(nm, b) \<in> set ?bs" for nm b
    using db_atD(4) [OF d, of nm b] map_of_is_SomeI [OF db_atD(8) [OF d]] that S(1) unfolding st by (auto simp: bucket_ok_def bucket_of_def)
  define cat' where "cat' = catalog_after ?bs cat"
  have cat': "cat' x = (case bucket_of x w of None \<Rightarrow> cat x | Some b \<Rightarrow> entry_after (cat x) b)" for x
    using catalog_after_at [OF ds] mo by (simp add: cat'_def bucket_of_def)
  have "result_ok (try_ok (apply_buckets env (NewBTree ?r) ?bs w) (\<lambda>cat w. Some (Inr (), set_catalog (root cat) w))) (db_failed env A H)
    (\<lambda>_ w'. \<exists>P' cat'. catalog_written env A n H ?h S P (B - Pc) D w P' cat' w')"
  proof (rule try_ok_rule [OF apply_buckets_rule [OF ok pc(1) [unfolded S(1)] PL hb h(2) db_at_uniform [OF d S]]])
    show "\<forall>(nm, b) \<in> set ?bs. length nm = c \<and> (dropped b \<or> bt b \<noteq> None)" using nmb by blast
    show "db_failed env A H s" if "failed env ?\<sigma> H s" for s using db_failedI [OF d that] .
  next
    fix t w1 assume "map_kept env ?\<sigma> n H (?L - Pc) (h + length ?bs) {k. length k = c} (catalog_after ?bs cat) w t w1"
    then obtain P1 where P1: "map_at (V w1) P1 ?h {k. length k = c} t cat'" "P1 \<inter> (?L - Pc) = {}" "txn_ok env ?\<sigma> n H (?L - Pc \<union> P1) w1" "same_pages (?L - Pc) w w1"
      unfolding map_kept_def ln cat'_def by blast
    let ?w = "reopened (set_catalog (root t) w1)" and ?B = "B - Pc \<union> P1"
    have sub: "P x \<subseteq> ?L - Pc" for x using db_atD(3) [OF d, of x] pc(2) by blast
    have w: "V ?w = V w1" "catalogRoot (meta (txn ?w)) = root t" "buckets (txn ?w) = []" by (simp_all add: reopened_def set_catalog_def)
    have bk: "bucket_at (V ?w) ?h (key_length S x) (P x) (tree_of ?w cat' x) (D x)" for x
    proof -
      have "V w1 q = V w q" if "q \<in> P x" for q using P1(4) sub [of x] that unfolding same_pages_def by blast
      then have "bucket_at (V w1) ?h (key_length S x) (P x) (tree_of w cat x) (D x)"
        using bucket_at_weaken [OF bucket_at_same [OF db_atD(1) [OF d]]] by simp
      then show ?thesis unfolding catalog_agrees [OF d l cat' w(3)] w(1) .
    qed
    have BP: "P x \<inter> ?B = {}" for x using db_atD(3) [OF d, of x] sub [of x] P1(2) by blast
    have "?L - Pc \<union> P1 = ?B \<union> (\<Union>x. P x)" using sub by blast
    then have ok1: "txn_ok env \<lparr>committed = last_commit A, around = scenery ?w\<rparr> n H (?B \<union> (\<Union>x. P x)) ?w"
      using set_catalog_ok [OF P1(3), of "root t"] unfolding backdrop_update by simp
    have len: "\<forall>v \<in> ran cat'. length v = 8"
    proof
      fix v assume "v \<in> ran cat'"
      then obtain x where "cat' x = Some v" by (auto simp: ran_def)
      moreover have "length v = 8" if "cat x = Some v" using db_atD(6) [OF d] that by (auto simp: ran_def)
      ultimately show "length v = 8" unfolding cat' entry_after_def by (auto split: option.splits if_splits)
    qed
    have "map_at (V ?w) P1 ?h (bucket_names S) (NewBTree (catalogRoot (meta (txn ?w)))) cat'"
      using P1(1) unfolding w S(1) by (simp add: map_at_def NewBTree_def)
    moreover have "scenery w1 = scenery w" using P1(3) by (simp add: txn_ok_def)
    then have "setting_of (scenery ?w) = setting (set_root (root t) A)" by (rule setting_set_root [OF db_atD(9) [OF d]])
    ultimately have "db_at env (set_root (root t) A) n H ?h S P ?B cat' D ?w"
      using bk BP ok1 len db_atD(2,10) [OF d] w(3) unfolding db_at_def by (auto simp: bucket_of_def set_root_def)
    then have "catalog_written env A n H ?h S P (B - Pc) D w P1 cat' (set_catalog (root t) w1)"
      using P1 unfolding catalog_written_def by (auto simp: set_catalog_def same_pages_def S(1) NewBTree_def map_at_def)
    then show "result_ok (Some (Inr (), set_catalog (root t) w1)) (db_failed env A H) (\<lambda>_ w'. \<exists>P' cat'. catalog_written env A n H ?h S P (B - Pc) D w P' cat' w')"
      by (auto simp: result_ok_def)
  qed
  then show ?thesis using False by (simp add: applyBucketChanges_def set_catalog_def)
qed

section \<open>A drop that is lost\<close>

text \<open>A committed bucket with an empty tree has root 0 in the catalog, which \<open>applyBucketChanges\<close> takes for the mark of
  a bucket created in the same transaction: it skips the entry.\<close>

lemma reopened_fresh: "buckets (txn w) = [] \<Longrightarrow> reopened (set_catalog (catalogRoot (meta (txn w))) (set_bucket nm b (set_bucket nm' b' w))) = w"
  by (simp add: reopened_def set_catalog_def set_bucket_def)

lemma drop_empty_rule:
  assumes d: "db_at env A n H h S P B cat D w" and h: "h \<le> fuel env" and fresh: "buckets (txn w) = []" and cat: "cat nm = Some (le_bytes 8 (0 :: PageId))"
    and ord: "\<And>bs. mset (order bs) = mset bs"
  shows "result_ok (try_ok (DropBucket env nm w) (\<lambda>_. applyBucketChanges env order)) (db_failed env A H)
    (\<lambda>_ w'. D nm = Some Map.empty \<and> db_at env A n H h S P B cat D (reopened w'))" (is "result_ok _ _ ?Q")
proof -
  let ?b0 = "\<lparr>name = nm, bt = Some (NewBTree 0), origRoot = 0, created = False, dropped = False\<rparr>"
    and ?b1 = "\<lparr>name = nm, bt = None, origRoot = 0, created = False, dropped = True\<rparr>"
  have op: "writable (txn w)" "\<not> closed (txn w)" and fu: "0 < fuel env" using db_atD(7) [OF d]
    by (simp_all add: txn_ok_def read_ok_def lists_ok_def pool_ok_def enough_fuel_def)
  have nw: "bucket_of nm w = None" using fresh by (simp add: bucket_of_def)
  have t: "tree_of w cat nm = Some (NewBTree 0)" using nw cat by (simp add: tree_of_def Uint64_def)
  then have D: "D nm = Some Map.empty" using db_atD(1) [OF d, of nm] by (auto simp: bucket_at_def map_at_def NewBTree_def split: option.splits)
  have one: "order [x] = [x]" for x using ord [of "[x]"] by simp
  have free: "FreeAll env (NewBTree 0) u = Some (Inr (), u)" for u using fu by (cases "fuel env") (simp_all add: FreeAll_def NewBTree_def)
  show ?thesis using catalogLookup_rule [OF d h, of nm]
  proof (cases rule: result_ok_cases)
    case (err e s)
    then show ?thesis using nw op by (auto simp: DropBucket_def lookupBucket_def try_ok_def try_or_def result_ok_def)
  next
    case (val y w1)
    have rd: "reading env H (B \<union> (\<Union>x. P x)) w w1" and y: "y = (0, True)" using val(2) cat by (auto simp: Uint64_def prod_eq_iff)
    have f1: "buckets (txn w1) = []" using rd fresh by (simp add: reading_def calm_def)
    let ?w = "set_bucket nm ?b1 (set_bucket nm ?b0 w1)"
    have "lookupBucket env nm w = Some (Inr nm, set_bucket nm ?b0 w1)"
      using nw val(1) y by (simp add: lookupBucket_def try_ok_def try_or_def)
    then have dr: "DropBucket env nm w = Some (Inr (), ?w)" using op free by (simp add: DropBucket_def try_ok_def try_or_def)
    have bs: "buckets (txn ?w) = [(nm, ?b1)]" using f1 by (simp add: set_bucket_def)
    have "applyBucketChanges env order ?w = Some (Inr (), set_catalog (catalogRoot (meta (txn w1))) ?w)"
      using one bs by (simp add: applyBucketChanges_def try_ok_def try_or_def set_catalog_def NewBTree_def)
    then show ?thesis using dr reopened_fresh [OF f1] db_at_read(1) [OF d rd] D by (simp add: try_ok_def try_or_def result_ok_def)
  qed
qed

end
