(* ===== verification/Requests.thy ===== *)
theory Requests
  imports CatalogMap
begin

text \<open>
  Clients of a write transaction: a sequence of requests on buckets, each made the way the API of
  \<^verbatim>\<open>src/bucket.go\<close> is used (open the bucket, then call it), answered as the abstract database
  answers it. The argument that a step-wise refinement extends to sequences is made once, in a locale.
\<close>

section \<open>Sequences of requests\<close>

fun run :: "('o \<Rightarrow> 's \<Rightarrow> ('r, 's) outcome) \<Rightarrow> 'o list \<Rightarrow> 's \<Rightarrow> ('r list, 's) outcome" where
  "run step [] s = Some (Inr [], s)"
| "run step (r # rs) s = try_ok (step r s) (\<lambda>x s. try_ok (run step rs s) (\<lambda>xs s. Some (Inr (x # xs), s)))"

fun spec_run :: "('o \<Rightarrow> 'a \<Rightarrow> ('r \<times> 'a) option) \<Rightarrow> 'o list \<Rightarrow> 'a \<Rightarrow> ('r list \<times> 'a) option" where
  "spec_run spec [] a = Some ([], a)"
| "spec_run spec (r # rs) a = do { (x, a) \<leftarrow> spec r a; (xs, a) \<leftarrow> spec_run spec rs a; Some (x # xs, a) }"

text \<open>\<open>holds j a s\<close>: the state \<open>s\<close> stands for \<open>a\<close> and has resources for \<open>j\<close> more requests.\<close>

locale refining_store =
  fixes holds :: "nat \<Rightarrow> 'a \<Rightarrow> 's \<Rightarrow> bool"
    and broken :: "'s \<Rightarrow> bool"
    and step :: "'o \<Rightarrow> 's \<Rightarrow> ('r, 's) outcome"
    and spec :: "'o \<Rightarrow> 'a \<Rightarrow> ('r \<times> 'a) option"
    and admissible :: "'o \<Rightarrow> bool"
  assumes step_refines: "holds (Suc j) a s \<Longrightarrow> admissible r \<Longrightarrow>
      result_ok (step r s) broken (\<lambda>x s'. \<exists>a'. spec r a = Some (x, a') \<and> holds j a' s')"
begin

lemma run_refines:
  "holds (length rs + j) a s \<Longrightarrow> \<forall>r \<in> set rs. admissible r \<Longrightarrow>
   result_ok (run step rs s) broken (\<lambda>xs s'. \<exists>a'. spec_run spec rs a = Some (xs, a') \<and> holds j a' s')"
proof (induction rs arbitrary: a s)
  case Nil
  then show ?case by (simp add: result_ok_def)
next
  case (Cons r rs)
  have h: "holds (Suc (length rs + j)) a s" using Cons.prems(1) by simp
  show ?case unfolding run.simps
  proof (rule try_ok_rule [OF step_refines [OF h]])
    show "admissible r" using Cons.prems(2) by simp
  next
    fix x s1 assume "\<exists>a'. spec r a = Some (x, a') \<and> holds (length rs + j) a' s1"
    then obtain a1 where a1: "spec r a = Some (x, a1)" "holds (length rs + j) a1 s1" by blast
    show "result_ok (try_ok (run step rs s1) (\<lambda>xs s. Some (Inr (x # xs), s))) broken (\<lambda>xs s'. \<exists>a'. spec_run spec (r # rs) a = Some (xs, a') \<and> holds j a' s')"
      by (rule try_ok_rule [OF Cons.IH [OF a1(2)]]) (use Cons.prems(2) a1(1) in \<open>auto simp: result_ok_def\<close>)
  qed simp
qed

text \<open>What a successful run returned is what the specification says, so two runs that succeed agree.\<close>

lemma run_answers:
  assumes "holds (length rs) a s" "\<forall>r \<in> set rs. admissible r" "run step rs s = Some (Inr xs, s')"
  shows "\<exists>a'. spec_run spec rs a = Some (xs, a') \<and> holds 0 a' s'"
  using run_refines [of rs 0 a s] assms by (simp add: result_ok_def)

end

section \<open>Requests on buckets\<close>

datatype request =
    Fetch bytes bytes
  | Store bytes bytes bytes
  | Add bytes bytes bytes
  | Replace bytes bytes bytes
  | Remove bytes bytes
  | Create bytes
  | Drop bytes

datatype answer = Found "bytes option" | Done

definition on_bucket :: "env \<Rightarrow> bytes \<Rightarrow> (bytes \<Rightarrow> world \<Rightarrow> ('a, world) outcome) \<Rightarrow> ('a \<Rightarrow> answer) \<Rightarrow> world \<Rightarrow> (answer, world) outcome" where
  "on_bucket env nm f g w = try_ok (openBucket env nm w) (\<lambda>nm w. try_ok (f nm w) (\<lambda>x w. Some (Inr (g x), w)))"

definition done_after :: "('a, world) outcome \<Rightarrow> (answer, world) outcome" where
  "done_after r = try_ok r (\<lambda>_ w. Some (Inr Done, w))"

fun perform :: "env \<Rightarrow> request \<Rightarrow> world \<Rightarrow> (answer, world) outcome" where
  "perform env (Fetch nm k) w = on_bucket env nm (\<lambda>nm. bucketGet env nm k) Found w"
| "perform env (Store nm k v) w = on_bucket env nm (\<lambda>nm. bucketPut env nm k v) (\<lambda>_. Done) w"
| "perform env (Add nm k v) w = on_bucket env nm (\<lambda>nm. bucketInsert env nm k v) (\<lambda>_. Done) w"
| "perform env (Replace nm k v) w = on_bucket env nm (\<lambda>nm. bucketUpdate env nm k v) (\<lambda>_. Done) w"
| "perform env (Remove nm k) w = on_bucket env nm (\<lambda>nm. bucketDelete env nm k) (\<lambda>_. Done) w"
| "perform env (Create nm) w = done_after (CreateBucket env nm w)"
| "perform env (Drop nm) w = done_after (DropBucket env nm w)"

fun answer_of :: "request \<Rightarrow> database \<Rightarrow> (answer \<times> database) option" where
  "answer_of (Fetch nm k) D = do { m \<leftarrow> D nm; Some (Found (m k), D) }"
| "answer_of (Store nm k v) D = do { m \<leftarrow> D nm; Some (Done, D(nm \<mapsto> m(k \<mapsto> v))) }"
| "answer_of (Add nm k v) D = do { m \<leftarrow> D nm; if m k = None then Some (Done, D(nm \<mapsto> m(k \<mapsto> v))) else None }"
| "answer_of (Replace nm k v) D = do { m \<leftarrow> D nm; if m k \<noteq> None then Some (Done, D(nm \<mapsto> m(k \<mapsto> v))) else None }"
| "answer_of (Remove nm k) D = do { m \<leftarrow> D nm; Some (Done, D(nm \<mapsto> m(k := None))) }"
| "answer_of (Create nm) D = (if D nm = None then Some (Done, D(nm \<mapsto> Map.empty)) else None)"
| "answer_of (Drop nm) D = (if D nm \<noteq> None then Some (Done, D(nm := None)) else None)"

text \<open>Requests that the theorems are about: bindings that can be stored, buckets with a valid name, and drops of the
  buckets in \<open>X\<close>.\<close>

fun admissible :: "schema \<Rightarrow> bytes set \<Rightarrow> request \<Rightarrow> bool" where
  "admissible S X (Store nm k v) \<longleftrightarrow> storable (key_length S nm) k v"
| "admissible S X (Add nm k v) \<longleftrightarrow> storable (key_length S nm) k v"
| "admissible S X (Replace nm k v) \<longleftrightarrow> storable (key_length S nm) k v"
| "admissible S X (Create nm) \<longleftrightarrow> key_length S nm \<le> 498 \<and> nm \<in> bucket_names S"
| "admissible S X (Drop nm) \<longleftrightarrow> nm \<in> X"
| "admissible S X _ \<longleftrightarrow> True"

text \<open>A request allocates at most \<open>18 + 2 * h\<close> pages, 17 of them for a value of 64 KB, opens at most one bucket, and the height of a
  tree grows by at most one. \<open>M\<close> bounds the heights, and \<open>n\<close> pages are left for the commit.\<close>

definition has_db ::
    "env \<Rightarrow> anchor \<Rightarrow> handle multiset \<Rightarrow> schema \<Rightarrow> PageId set \<Rightarrow> (bytes \<rightharpoonup> bytes) \<Rightarrow> nat \<Rightarrow> nat \<Rightarrow> nat \<Rightarrow> database \<Rightarrow> world \<Rightarrow> bool" where
  "has_db env A H S B cat M n j D w \<longleftrightarrow>
     M \<le> fuel env \<and> (\<exists>h P. h + length (buckets (txn w)) + 2 * j \<le> M \<and> db_at env A (n + j * (18 + 2 * M)) H h S P B cat D w)"

lemma db_at_less: "db_at env A n H h S P B cat D w \<Longrightarrow> n' \<le> n \<Longrightarrow> db_at env A n' H h S P B cat D w"
  unfolding db_at_def using txn_ok_less by blast

lemma open_names: "{x. is_open x w} = set (map fst (buckets (txn w)))"
  by (auto simp: is_open_def bucket_of_def map_of_eq_None_iff)

lemma open_one_more:
  assumes "distinct (map fst (buckets (txn w')))" "\<forall>x. is_open x w' \<longleftrightarrow> x = nm \<or> is_open x w"
  shows "length (buckets (txn w')) \<le> Suc (length (buckets (txn w)))"
proof -
  have "length (buckets (txn w')) = card {x. is_open x w'}" unfolding open_names distinct_card [OF assms(1)] by simp
  also have "{x. is_open x w'} = insert nm {x. is_open x w}" using assms(2) by auto
  also have "card \<dots> \<le> Suc (card {x. is_open x w})" by (rule card_insert_le_m1) simp_all
  also have "card {x. is_open x w} \<le> length (map fst (buckets (txn w)))" unfolding open_names by (rule card_length)
  finally show ?thesis by simp
qed

lemma has_dbI:
  assumes "db_at env A m H h' S P B cat D w'" "n + j * (18 + 2 * M) \<le> m" "\<forall>x. is_open x w' \<longleftrightarrow> x = nm \<or> is_open x w"
    "h + length (buckets (txn w)) + 2 * Suc j \<le> M" "M \<le> fuel env" "h' \<le> Suc h"
  shows "has_db env A H S B cat M n j D w'"
proof -
  have "h' + length (buckets (txn w')) + 2 * j \<le> M" using open_one_more [OF db_atD(8) [OF assms(1)] assms(3)] assms(4,6) by simp
  then show ?thesis unfolding has_db_def using db_at_less [OF assms(1,2)] assms(5) by blast
qed

lemma chain_pages_17: "length v < 65536 \<Longrightarrow> chain_pages (length v) \<le> 17"
  unfolding chain_pages_def by linarith

lemma on_bucket_rule:
  assumes d: "db_at env A n H h S P B cat D w" and h: "h \<le> fuel env"
    and f: "\<And>m u. db_at env A n H h S P B cat D u \<Longrightarrow> D nm = Some m \<Longrightarrow> is_open nm u \<Longrightarrow> \<forall>x. is_open x u \<longleftrightarrow> x = nm \<or> is_open x w \<Longrightarrow>
      result_ok (f nm u) (db_failed env A H) (\<lambda>x w'. Q m (g x) w')"
  shows "result_ok (on_bucket env nm f g w) (db_failed env A H) (\<lambda>x w'. \<exists>m. D nm = Some m \<and> Q m x w')"
  unfolding on_bucket_def
proof (rule try_ok_rule [OF openBucket_rule [OF d h]])
  fix x w1 assume a: "x = nm \<and> D nm \<noteq> None \<and> db_at env A n H h S P B cat D w1 \<and> (\<forall>x. is_open x w1 \<longleftrightarrow> x = nm \<or> is_open x w)"
  then obtain m where m: "D nm = Some m" by blast
  have x: "x = nm" and d1: "db_at env A n H h S P B cat D w1" "is_open nm w1" "\<forall>x. is_open x w1 \<longleftrightarrow> x = nm \<or> is_open x w" using a by blast+
  show "result_ok (try_ok (f x w1) (\<lambda>x w. Some (Inr (g x), w))) (db_failed env A H) (\<lambda>x w'. \<exists>m. D nm = Some m \<and> Q m x w')"
    unfolding x by (rule try_ok_rule [OF f [OF d1(1) m d1(2,3)]]) (use m in \<open>auto simp: result_ok_def\<close>)
qed simp

lemma perform_update:
  assumes d: "db_at env A (n + j * (18 + 2 * M) + (18 + 2 * M)) H h S P B cat D w" and h: "h + length (buckets (txn w)) + 2 * Suc j \<le> M" "M \<le> fuel env"
    and kv: "storable (key_length S nm) k v"
  shows "result_ok (on_bucket env nm (\<lambda>nm. bucket_update env nm k v mode) (\<lambda>_. Done) w) (db_failed env A H)
    (\<lambda>x w'. \<exists>m. D nm = Some m \<and> x = Done \<and> allowed mode (m k \<noteq> None) \<and> has_db env A H S B cat M n j (D(nm \<mapsto> m(k \<mapsto> v))) w')"
proof (rule on_bucket_rule [OF d])
  show hf: "h \<le> fuel env" using h by simp
  fix m u assume a: "db_at env A (n + j * (18 + 2 * M) + (18 + 2 * M)) H h S P B cat D u" "D nm = Some m" "is_open nm u" "\<forall>x. is_open x u \<longleftrightarrow> x = nm \<or> is_open x w"
  have "db_at env A (Suc (n + j * (18 + 2 * M) + chain_pages (length v) + 2 * h)) H h S P B cat D u"
    using chain_pages_17 [of v] kv h by (intro db_at_less [OF a(1)]) (simp add: storable_def)
  from bucket_update_rule [OF this a(2,3) hf kv]
  show "result_ok (bucket_update env nm k v mode u) (db_failed env A H)
    (\<lambda>x w'. Done = Done \<and> allowed mode (m k \<noteq> None) \<and> has_db env A H S B cat M n j (D(nm \<mapsto> m(k \<mapsto> v))) w')"
  proof (rule result_ok_mono)
    fix x w' assume p: "allowed mode (m k \<noteq> None) \<and> (\<exists>P'. db_at env A (n + j * (18 + 2 * M)) H (Suc h) S P' B cat (D(nm \<mapsto> m(k \<mapsto> v))) w') \<and> (\<forall>x. is_open x w' \<longleftrightarrow> is_open x u)"
    then obtain P' where P': "db_at env A (n + j * (18 + 2 * M)) H (Suc h) S P' B cat (D(nm \<mapsto> m(k \<mapsto> v))) w'" by blast
    from has_dbI [OF P' order_refl _ h, of nm] p a(4)
    show "Done = Done \<and> allowed mode (m k \<noteq> None) \<and> has_db env A H S B cat M n j (D(nm \<mapsto> m(k \<mapsto> v))) w'" by simp
  qed simp
qed

lemma done_after_rule:
  assumes "result_ok r E Q" "\<And>x s. Q x s \<Longrightarrow> Q' Done s"
  shows "result_ok (done_after r) E Q'"
  unfolding done_after_def by (rule try_ok_rule [OF assms(1)]) (use assms(2) in \<open>auto simp: result_ok_def\<close>)

lemma perform_refines:
  assumes "has_db env A H S B cat M n (Suc j) D w" "admissible S (droppable A) r"
  shows "result_ok (perform env r w) (db_failed env A H) (\<lambda>x w'. \<exists>D'. answer_of r D = Some (x, D') \<and> has_db env A H S B cat M n j D' w')"
proof -
  let ?c = "18 + 2 * M"
  obtain h P where h: "h + length (buckets (txn w)) + 2 * Suc j \<le> M" "M \<le> fuel env" and "db_at env A (n + Suc j * ?c) H h S P B cat D w"
    using assms(1) unfolding has_db_def by blast
  then have d: "db_at env A (n + j * ?c + ?c) H h S P B cat D w" by (simp add: algebra_simps)
  have hf: "h \<le> fuel env" "h \<le> M" using h by simp_all
  have still: "has_db env A H S B cat M n j D' w'" if "db_at env A m H h S P' B cat D' w'" "n + j * ?c \<le> m" "\<forall>x. is_open x w' \<longleftrightarrow> x = nm \<or> is_open x w" for m nm P' D' w'
    using has_dbI [OF that h] by simp
  show ?thesis
  proof (cases r)
    case (Fetch nm k)
    have "result_ok (on_bucket env nm (\<lambda>nm. bucketGet env nm k) Found w) (db_failed env A H)
      (\<lambda>x w'. \<exists>m. D nm = Some m \<and> x = Found (m k) \<and> has_db env A H S B cat M n j D w')"
    proof (rule on_bucket_rule [OF d hf(1)])
      fix m u assume a: "db_at env A (n + j * ?c + ?c) H h S P B cat D u" "D nm = Some m" "is_open nm u" "\<forall>x. is_open x u \<longleftrightarrow> x = nm \<or> is_open x w"
      show "result_ok (bucketGet env nm k u) (db_failed env A H) (\<lambda>x w'. Found x = Found (m k) \<and> has_db env A H S B cat M n j D w')"
        by (rule result_ok_mono [OF bucketGet_rule [OF a(1-3) hf(1)]]) (use a(4) in \<open>auto intro!: still [where nm = nm]\<close>)
    qed
    then show ?thesis unfolding Fetch perform.simps by (rule result_ok_mono) auto
  next
    case (Store nm k v)
    show ?thesis unfolding Store perform.simps bucketPut_def
      by (intro result_ok_mono [OF perform_update [OF d h]]) (use assms(2) Store in auto)
  next
    case (Add nm k v)
    show ?thesis unfolding Add perform.simps bucketInsert_def
      by (intro result_ok_mono [OF perform_update [OF d h]]) (use assms(2) Add in auto)
  next
    case (Replace nm k v)
    show ?thesis unfolding Replace perform.simps bucketUpdate_def
      by (intro result_ok_mono [OF perform_update [OF d h]]) (use assms(2) Replace in auto)
  next
    case (Remove nm k)
    have "result_ok (on_bucket env nm (\<lambda>nm. bucketDelete env nm k) (\<lambda>_. Done) w) (db_failed env A H)
      (\<lambda>x w'. \<exists>m. D nm = Some m \<and> x = Done \<and> has_db env A H S B cat M n j (D(nm \<mapsto> m(k := None))) w')"
    proof (rule on_bucket_rule [OF d hf(1)])
      fix m u assume a: "db_at env A (n + j * ?c + ?c) H h S P B cat D u" "D nm = Some m" "is_open nm u" "\<forall>x. is_open x u \<longleftrightarrow> x = nm \<or> is_open x w"
      have "db_at env A (n + j * ?c + 2 * h) H h S P B cat D u" using hf(2) by (intro db_at_less [OF a(1)]) simp
      from bucketDelete_rule [OF this a(2,3) hf(1)]
      show "result_ok (bucketDelete env nm k u) (db_failed env A H) (\<lambda>x w'. Done = Done \<and> has_db env A H S B cat M n j (D(nm \<mapsto> m(k := None))) w')"
        by (rule result_ok_mono) (use a(4) in \<open>auto intro!: still [where nm = nm]\<close>)
    qed
    then show ?thesis unfolding Remove perform.simps by (rule result_ok_mono) auto
  next
    case (Create nm)
    then show ?thesis unfolding Create perform.simps
      by (intro done_after_rule [OF CreateBucket_rule [OF d hf(1)]]) (use assms(2) Create in \<open>auto intro!: still [where nm = nm]\<close>)
  next
    case (Drop nm)
    then show ?thesis unfolding Drop perform.simps
      by (intro done_after_rule [OF DropBucket_rule [OF d hf(1)]]) (use assms(2) Drop in \<open>auto intro!: still [where nm = nm]\<close>)
  qed
qed

interpretation txn_store: refining_store "has_db env A H S B cat M n" "db_failed env A H" "perform env" answer_of "admissible S (droppable A)"
  for env A H S B cat M n
  by unfold_locales (rule perform_refines)

end
