(* ===== verification/Commit.thy ===== *)
theory Commit
  imports Bucket
begin

text \<open>
  Committing a transaction (\<open>Commit\<close> of \<^verbatim>\<open>src/txn.go\<close>) and opening and closing a database
  (\<^verbatim>\<open>src/db.go\<close>). The order in which the buckets' map is visited is an argument.
\<close>

definition sync_pool :: "world \<Rightarrow> (unit, world) outcome" where
  "sync_pool w = in_db (in_pool (\<lambda>bp. err_result (Some (SyncPool bp)))) w"

definition Commit :: "env \<Rightarrow> ((bytes \<times> Bucket) list \<Rightarrow> (bytes \<times> Bucket) list) \<Rightarrow> world \<Rightarrow> (unit, world) outcome" where
  "Commit env order w =
     (if \<not> writable (txn w) then Some (Inl ErrTxnReadOnly, w)
      else if closed (txn w) then Some (Inl ErrTxnClosed, w)
      else
        try_or (applyBucketChanges env order w) abortInternal (\<lambda>_ w.
        try_or (persistFreelist env w) abortInternal (\<lambda>_ w.
        try_or (in_db (in_pool (\<lambda>bp. err_result (FlushPages env bp (allocated (txn w))))) w) abortInternal (\<lambda>_ w.
        try_or (sync_pool w) abortInternal (\<lambda>_ w.
        let m = meta (txn w);
            m = m\<lparr>txnID := txnID m + 1\<rparr>;
            w = w\<lparr>txn := (txn w)\<lparr>meta := m\<rparr>\<rparr>
        in try_or (in_db (commitMeta env m) w) abortInternal (\<lambda>m w. do {
          let t = (txn w)\<lparr>meta := m\<rparr>;
          let fl = push (push (freelist (db w)) (txnID m) (freed t)) (txnID m) (reusable t);
          d \<leftarrow> unlock_writer ((db w)\<lparr>freelist := fl\<rparr>);
          Some (Inr (), \<lparr>db = d, txn = t\<lparr>closed := True\<rparr>\<rparr>)
        }))))))"

section \<open>Opening and closing\<close>

definition defaultBufferSize :: nat where
  "defaultBufferSize = 1024"

text \<open>\<open>Open\<close> from the storage manager on; the fields it does not set are zero.\<close>

definition new_db :: "StorageManager \<Rightarrow> nat \<Rightarrow> DB" where
  "new_db s bufSize =
     \<lparr>bufferPool = NewBufferPool s bufSize, currentMeta = baseMeta, currentMetaPage = 0, writerMu = False,
      freelist = newFreelist, readers = []\<rparr>"

definition close_failed :: "env \<Rightarrow> DB \<Rightarrow> DB option" where
  "close_failed env d = do {
     (_, bp) \<leftarrow> ClosePool env (bufferPool d);
     Some (d\<lparr>bufferPool := bp\<rparr>)
   }"

definition open_db :: "env \<Rightarrow> bool \<Rightarrow> DB \<Rightarrow> (unit, DB) outcome" where
  "open_db env isNew d =
     (if isNew then try_or (initMetas env d) (close_failed env) (\<lambda>_ d. Some (Inr (), d))
      else
        try_or (loadMeta env d) (close_failed env) (\<lambda>(m, page) d.
          let d = d\<lparr>currentMeta := m, currentMetaPage := page\<rparr>
          in if freelistRoot m \<noteq> 0 then
               try_or (readFreelistChain env (freelistRoot m) d) (close_failed env) (\<lambda>ids d.
                 Some (Inr (), d\<lparr>freelist := load (freelist d) ids\<rparr>))
             else Some (Inr (), d)))"

definition Open :: "env \<Rightarrow> bytes \<Rightarrow> io list \<Rightarrow> nat \<Rightarrow> (error + DB) option" where
  "Open env f sc bufferSize =
     (case NewStorageManager f sc of
        Inl e \<Rightarrow> Some (Inl e)
      | Inr (s, isNew) \<Rightarrow> do {
          let bufSize = (if bufferSize = 0 then defaultBufferSize else bufferSize);
          (r, d) \<leftarrow> open_db env isNew (new_db s bufSize);
          Some (case r of Inl e \<Rightarrow> Inl e | Inr _ \<Rightarrow> Inr d)
        })"

definition CloseDB :: "env \<Rightarrow> DB \<Rightarrow> (error list \<times> DB) option" where
  "CloseDB env d = do {
     (errs, bp) \<leftarrow> ClosePool env (bufferPool d);
     Some (errs, d\<lparr>bufferPool := bp\<rparr>)
   }"

end
