(* ===== verification/CommitInv.thy ===== *)
theory CommitInv
  imports Durable Requests Commit
begin

text \<open>
  \<open>Commit\<close> of \<^verbatim>\<open>src/txn.go\<close>: the catalog, the free list, the pages, the barrier and the header, in
  this order. After a successful commit the file holds the abstract database of the transaction, under the header
  that \<open>loadMeta\<close> chooses, and everything is synced; after an error every page of the last commit is safe but for
  the header that the commit may have been writing, and if it was, all the pages of the new database are safe too.
\<close>

section \<open>A stored database\<close>

text \<open>The pages \<open>W\<close>, read from the header \<open>m\<close>, are the database \<open>D\<close>: \<open>P\<close> are the pages of the buckets, \<open>Pc\<close> those of the
  catalog and \<open>ps\<close> the chain of the free list \<open>ids\<close>. No page has two uses.\<close>

definition tree_in :: "(bytes \<rightharpoonup> bytes) \<Rightarrow> bytes \<Rightarrow> BTree option" where
  "tree_in cat nm = do { v \<leftarrow> cat nm; pid \<leftarrow> Uint64 v; Some (NewBTree pid) }"

definition live_pages :: "(bytes \<Rightarrow> PageId set) \<Rightarrow> PageId set \<Rightarrow> PageId list \<Rightarrow> PageId set" where
  "live_pages P Pc ps = {0, 1} \<union> Pc \<union> set ps \<union> (\<Union>nm. P nm)"

definition stored_db ::
    "schema \<Rightarrow> (PageId \<Rightarrow> bytes) \<Rightarrow> Meta \<Rightarrow> nat \<Rightarrow> (bytes \<Rightarrow> PageId set) \<Rightarrow> PageId set \<Rightarrow> PageId list \<Rightarrow> PageId list \<Rightarrow> (bytes \<rightharpoonup> bytes) \<Rightarrow> database \<Rightarrow> bool" where
  "stored_db S W m h P Pc ps ids cat D \<longleftrightarrow>
     (\<forall>nm. bucket_at W h (key_length S nm) (P nm) (tree_in cat nm) (D nm)) \<and>
     map_at W Pc h (bucket_names S) (NewBTree (catalogRoot m)) cat \<and> (\<forall>v \<in> ran cat. length v = 8) \<and>
     fl_chain W ps ids \<and> freelistRoot m = chain_head ps \<and> distinct ps \<and> distinct ids \<and>
     (\<forall>nm nm'. nm \<noteq> nm' \<longrightarrow> P nm \<inter> P nm' = {}) \<and> (\<forall>nm. P nm \<inter> ({0, 1} \<union> Pc \<union> set ps) = {}) \<and>
     Pc \<inter> {0, 1} = {} \<and> set ps \<inter> ({0, 1} \<union> Pc) = {} \<and> set ids \<inter> live_pages P Pc ps = {} \<and>
     (\<forall>pid \<in> live_pages P Pc ps \<union> set ids. pid < numPages m)"

lemma tree_of_fresh: "buckets (txn w) = [] \<Longrightarrow> tree_of w cat nm = tree_in cat nm"
  by (simp add: tree_of_def tree_in_def bucket_of_def)

section \<open>The header\<close>

definition header_ok :: "Meta \<Rightarrow> bool" where
  "header_ok m \<longleftrightarrow> magic m = metaMagic \<and> version m = metaVersion \<and> pageSize m = of_nat PageSize"

definition sealed :: "Meta \<Rightarrow> Meta" where
  "sealed m = m\<lparr>checksum := crc64_Checksum (meta_body m)\<rparr>"

lemma sealed_simps [simp]:
  "magic (sealed m) = magic m" "version (sealed m) = version m" "pageSize (sealed m) = pageSize m" "txnID (sealed m) = txnID m"
  "catalogRoot (sealed m) = catalogRoot m" "freelistRoot (sealed m) = freelistRoot m" "numPages (sealed m) = numPages m"
  "header_ok (sealed m) = header_ok m"
  by (simp_all add: sealed_def header_ok_def)

lemma encode_sealed:
  assumes "length buf = 4096" "header_ok m"
  obtains buf' where "encodeMeta m buf = Some (Inr (sealed m, buf'))" "length buf' = 4096" "decodeMeta buf' = Some (Inr (sealed m))"
proof (rule that [of "patch buf 0 (meta_image m)"])
  have "region (patch buf 0 (meta_image m)) 0 56 = meta_image m" using assms(1) by (intro region_patch_same) auto
  then show "decodeMeta (patch buf 0 (meta_image m)) = Some (Inr (sealed m))"
    using assms decodeMeta_image [of "patch buf 0 (meta_image m)" m] by (simp add: sealed_def header_ok_def)
qed (use assms in \<open>simp_all add: encodeMeta_image sealed_def\<close>)

text \<open>The pool after an error: \<open>C\<close> is still safe.\<close>

abbreviation pool_failed :: "(PageId \<rightharpoonup> bytes) \<Rightarrow> nat \<Rightarrow> DB \<Rightarrow> DB \<Rightarrow> bool" where
  "pool_failed C N d d' \<equiv> \<exists>bp. d' = d\<lparr>bufferPool := bp\<rparr> \<and> secure C N (sm bp)"

lemma writeMeta_rule:
  assumes s: "settled env C N L W (bufferPool d)" and pid: "pid \<in> L" "pid \<notin> dom C" and m: "header_ok m"
  shows "result_ok (writeMeta env m pid d) (pool_failed C N d)
    (\<lambda>m' d'. m' = sealed m \<and> (\<exists>bp buf. d' = d\<lparr>bufferPool := bp\<rparr> \<and> pool_ok env {#} L bp \<and> view bp pid = buf \<and> decodeMeta buf = Some (Inr m') \<and>
      quiet {pid} (bufferPool d) bp))"
proof -
  let ?bp = "bufferPool d"
  have po: "pool_ok env {#} (L - {pid}) ?bp" "in_file (sm ?bp) pid" "secure C N (sm ?bp)" "dirty_pages ?bp \<inter> dom C = {}"
    using s pid(1) pool_ok_subset [of env "{#}" L ?bp "L - {pid}"] by (auto simp: settled_def pool_ok_def)
  have ins: "insert pid (L - {pid}) = L" using pid(1) by blast
  from pool_GetForWrite [OF po(1) _ po(2)] consider
    (err) e bp' where "GetForWrite env ?bp pid = Some (Inl e, bp')" "kept (L - {pid}) {} ?bp bp'"
    | (got) f bp' where "GetForWrite env ?bp pid = Some (Inr f, bp')" "pool_ok env {#(f, pid, True)#} L bp'" "kept (L - {pid}) {pid} ?bp bp'"
    unfolding pool_result_def ins by blast
  then show ?thesis
  proof cases
    case err
    then have "secure C N (sm bp')" using quiet_secure [OF po(3) _ po(4), of "{}" bp'] by (simp add: kept_def)
    then show ?thesis using err(1) by (auto simp: writeMeta_def try_ok_def try_or_def in_pool_def result_ok_def)
  next
    case (got f bp1)
    have "length (data (frames bp1 ! f)) = 4096" using handle_view(1,3) [OF got(2), of f pid True] by simp
    then obtain buf where buf: "encodeMeta m (data (frames bp1 ! f)) = Some (Inr (sealed m, buf))" "length buf = 4096" "decodeMeta buf = Some (Inr (sealed m))"
      using encode_sealed m by blast
    have sd: "pool_ok env {#(f, pid, True)#} L (set_data f buf bp1)" "view (set_data f buf bp1) pid = buf" "quiet {} bp1 (set_data f buf bp1)"
      using pool_set_data(1-3) [OF got(2) _ buf(2), of f pid] by simp_all
    obtain bp2 where bp2: "Unpin (set_data f buf bp1) f = Some bp2" "pool_ok env {#} L bp2" "kept L {} (set_data f buf bp1) bp2" using pool_Unpin [OF sd(1)] by metis
    have q: "quiet {pid} ?bp bp1" "quiet {} (set_data f buf bp1) bp2" using got(3) bp2(3) by (simp_all add: kept_def)
    have "quiet {pid} ?bp bp2"
      using quiet_trans [OF q(1)] quiet_trans [OF quiet_mono [OF sd(3)] quiet_mono [OF q(2)]] by blast
    moreover have "view bp2 pid = buf" using bp2(3) sd(2) pid(1) by (simp add: kept_def)
    moreover have "writeMeta env m pid d = Some (Inr (sealed m), d\<lparr>bufferPool := bp2\<rparr>)"
      using got(1) buf(1) bp2(1) by (simp add: writeMeta_def try_ok_def try_or_def in_pool_def page_data_def put_data_def unpin_def)
    ultimately show ?thesis using buf(3) bp2(2) by (auto simp: result_ok_def)
  qed
qed

lemma commitMeta_rule:
  assumes s: "settled env C N L W (bufferPool d)" and np: "np = nextMetaPage (currentMetaPage d)" "np \<in> L" "np \<notin> dom C" and m: "header_ok m"
  shows "result_ok (commitMeta env m d) (pool_failed C N d)
    (\<lambda>m' d'. m' = sealed m \<and> (\<exists>bp buf. d' = d\<lparr>bufferPool := bp, currentMeta := m', currentMetaPage := np\<rparr> \<and> decodeMeta buf = Some (Inr m') \<and>
      settled env C N L (W(np := buf)) bp \<and> grows (bufferPool d) bp \<and> onDisk (sm bp) = content (sm bp)))" (is "result_ok _ _ ?Q")
proof -
  let ?bp = "bufferPool d"
  have st: "dirty_pages ?bp \<inter> (L \<union> dom C) = {}" "\<And>q. q \<in> L \<Longrightarrow> page_at (sm ?bp) q = W q" "\<And>q. q \<in> L \<Longrightarrow> in_file (sm ?bp) q" "secure C N (sm ?bp)"
    using s by (auto simp: settled_def pool_ok_def)
  have "result_ok (try_ok (writeMeta env m np d) (\<lambda>newMeta d.
         try_ok (in_pool (\<lambda>bp. err_result (FlushPage bp np)) d) (\<lambda>_ d.
         try_ok (in_pool (\<lambda>bp. err_result (Some (SyncPool bp))) d) (\<lambda>_ d.
           Some (Inr newMeta, d\<lparr>currentMeta := newMeta, currentMetaPage := np\<rparr>))))) (pool_failed C N d) ?Q"
  proof (rule try_ok_rule [OF writeMeta_rule [OF s np(2,3) m]])
    fix m' d1 assume "m' = sealed m \<and> (\<exists>bp buf. d1 = d\<lparr>bufferPool := bp\<rparr> \<and> pool_ok env {#} L bp \<and> view bp np = buf \<and> decodeMeta buf = Some (Inr m') \<and>
      quiet {np} ?bp bp)"
    then obtain bp1 buf where m': "m' = sealed m" and d1: "d1 = d\<lparr>bufferPool := bp1\<rparr>" "pool_ok env {#} L bp1" "view bp1 np = buf" "decodeMeta buf = Some (Inr m')"
      "quiet {np} ?bp bp1" by blast
    have same1: "page_at (sm bp1) q = W q" if "q \<in> L" "q \<noteq> np" for q
    proof -
      have "q \<notin> dirty_pages ?bp" using st(1) that(1) by blast
      then show ?thesis using quiet_page [OF d1(5) st(3) [OF that(1)]] that st(2) by simp
    qed
    have has1: "secure C N (sm bp1)" using quiet_secure [OF st(4) d1(5)] st(1) np(3) by blast
    have dp1: "dirty_pages bp1 \<subseteq> dirty_pages ?bp \<union> {np}" using d1(5) by (simp add: quiet_def)
    obtain err bp2 where f: "FlushPage bp1 np = Some (err, bp2)" "\<forall>q. q \<noteq> np \<longrightarrow> page_at (sm bp2) q = page_at (sm bp1) q" "\<forall>q. in_file (sm bp2) q = in_file (sm bp1) q"
      "length (content (sm bp2)) = length (content (sm bp1))" "onDisk (sm bp2) = onDisk (sm bp1)"
      "err = None \<longrightarrow> pool_ok env {#} L bp2 \<and> page_at (sm bp2) np = view bp1 np \<and> dirty_pages bp2 \<subseteq> dirty_pages bp1 - {np}"
      using FlushPage_rule [OF d1(2) np(2)] by blast
    have "has_pages C (content (sm bp2))" using secure_page [OF has1] f(2,3) np(3) unfolding has_pages_content by (metis domI)
    then have has2: "secure C N (sm bp2)" using has1 f(4,5) by (simp add: secure_def)
    show "result_ok (try_ok (in_pool (\<lambda>bp. err_result (FlushPage bp np)) d1) (\<lambda>_ d.
         try_ok (in_pool (\<lambda>bp. err_result (Some (SyncPool bp))) d) (\<lambda>_ d.
           Some (Inr m', d\<lparr>currentMeta := m', currentMetaPage := np\<rparr>)))) (pool_failed C N d) ?Q"
    proof (cases err)
      case (Some e)
      then show ?thesis using f(1) has2 d1(1) by (auto simp: try_ok_def try_or_def in_pool_def err_result_def result_ok_def)
    next
      case None
      obtain err' bp3 where sy: "SyncPool bp2 = (err', bp3)" by (cases "SyncPool bp2")
      have f2: "pool_ok env {#} L bp2" "page_at (sm bp2) np = buf" "dirty_pages bp2 \<subseteq> dirty_pages bp1 - {np}" using None f(6) d1(3) by simp_all
      have "page_at (sm bp2) q = (W(np := buf)) q" if "q \<in> L" for q using f(2) f2(2) same1 [OF that] by (cases "q = np") auto
      moreover have "dirty_pages bp2 \<inter> (L \<union> dom C) = {}" using f2(3) dp1 st(1) by blast
      ultimately have "settled env C N L (W(np := buf)) bp2" using f2(1) has2 by (simp add: settled_def)
      from settled_sync [OF this sy] have s3: "settled env C N L (W(np := buf)) bp3" .
      then have "secure C N (sm bp3)" by (simp add: settled_def)
      moreover have "err' = None \<Longrightarrow> onDisk (sm bp3) = content (sm bp3)" using sy by (rule SyncPool_cases) simp
      moreover have "grows bp1 bp2" using f(3) by (simp add: grows_def)
      then have "grows ?bp bp3" using grows_trans [OF quiet_grows [OF d1(5)]] grows_trans [OF _ sync_grows [OF sy]] by blast
      ultimately show ?thesis using s3 f(1) None sy d1(1,4) m' by (cases err') (auto simp: try_ok_def try_or_def in_pool_def err_result_def result_ok_def)
    qed
  qed
  then show ?thesis by (simp add: commitMeta_def np(1) [symmetric] Let_def)
qed

section \<open>Ending without a commit\<close>

text \<open>\<open>K\<close> speaks of the file and of the header that the transaction was going to write.\<close>

definition abortable :: "(StorageManager \<Rightarrow> Meta \<Rightarrow> bool) \<Rightarrow> world \<Rightarrow> bool" where
  "abortable K w \<longleftrightarrow> writerMu (db w) \<and> K (sm (pool w)) (meta (txn w))"

text \<open>The transaction is over and the lock is free.\<close>

definition ended :: "(StorageManager \<Rightarrow> Meta \<Rightarrow> bool) \<Rightarrow> world \<Rightarrow> bool" where
  "ended K w \<longleftrightarrow> closed (txn w) \<and> \<not> writerMu (db w) \<and> K (sm (pool w)) (meta (txn w))"

lemma MarkClean_sm: "sm (MarkClean bp pid) = sm bp"
  by (simp add: MarkClean_def split: option.split)

lemma mark_clean_fields: "sm (bufferPool (mark_clean_all ps d)) = sm (bufferPool d)" "writerMu (mark_clean_all ps d) = writerMu d"
  by (induction ps arbitrary: d) (simp_all add: MarkClean_sm)

lemma abortInternal_rule: "abortable K w \<Longrightarrow> \<exists>w'. abortInternal w = Some w' \<and> ended K w'"
  by (simp add: abortable_def abortInternal_def unlock_writer_def mark_clean_fields ended_def)

section \<open>What a transaction starts from\<close>

abbreviation txn_meta :: "anchor \<Rightarrow> Meta" where "txn_meta A \<equiv> fst (fst (setting A))"
abbreviation head_meta :: "anchor \<Rightarrow> Meta" where "head_meta A \<equiv> fst (snd (setting A))"
abbreviation head_page :: "anchor \<Rightarrow> PageId" where "head_page A \<equiv> fst (snd (snd (setting A)))"
abbreviation locked :: "anchor \<Rightarrow> bool" where "locked A \<equiv> fst (snd (snd (snd (setting A))))"
abbreviation saved :: "anchor \<Rightarrow> bytes" where "saved A \<equiv> snd (snd (snd (snd (snd (setting A)))))"

text \<open>The last commit is safe: all that the transaction has not been allowed to change.\<close>

abbreviation kept_safe :: "anchor \<Rightarrow> StorageManager \<Rightarrow> Meta \<Rightarrow> bool" where
  "kept_safe A s m \<equiv> secure (last_commit A) (length (saved A)) s"

lemma setting_fields:
  assumes "setting_of (scenery w) = setting A"
  shows "txn_meta A = (meta (txn w))\<lparr>numPages := 0\<rparr>" "currentMeta (db w) = head_meta A" "currentMetaPage (db w) = head_page A" "writerMu (db w) = locked A" "onDisk (sm (pool w)) = saved A"
  by (simp_all add: assms [symmetric] setting_of_def scenery_def)

lemma txn_meta_fields:
  assumes "txn_meta A = (meta t)\<lparr>numPages := 0\<rparr>"
  shows "catalogRoot (meta t) = catalogRoot (txn_meta A)" "freelistRoot (meta t) = freelistRoot (txn_meta A)" "txnID (meta t) = txnID (txn_meta A)"
    "header_ok (meta t) = header_ok (txn_meta A)"
  by (simp_all add: assms header_ok_def)

text \<open>The live pages that are not pages of a bucket: the two headers, the catalog \<open>Pc\<close> and the chain \<open>ps\<close> of the free
  list. They belong to the last commit, which was synced.\<close>

definition base_ok :: "schema \<Rightarrow> anchor \<Rightarrow> (bytes \<rightharpoonup> bytes) \<Rightarrow> PageId set \<Rightarrow> PageId list \<Rightarrow> bool" where
  "base_ok S A cat Pc ps \<longleftrightarrow>
     Pc \<inter> {0, 1} = {} \<and> set ps \<inter> ({0, 1} \<union> Pc) = {} \<and> distinct ps \<and> head_page A \<in> {0, 1} \<and> locked A \<and>
     {0, 1} \<union> Pc \<union> set ps \<subseteq> dom (last_commit A) \<and> has_pages (last_commit A) (saved A) \<and>
     map_at (the \<circ> last_commit A) Pc (base_height A) (bucket_names S) (NewBTree (catalogRoot (txn_meta A))) cat \<and>
     (\<exists>ids. fl_chain (the \<circ> last_commit A) ps ids) \<and> freelistRoot (txn_meta A) = chain_head ps \<and>
     header_ok (txn_meta A) \<and> txnID (txn_meta A) = txnID (head_meta A) \<and> decodeMeta (the (last_commit A (head_page A))) = Some (Inr (head_meta A)) \<and>
     (\<forall>nm \<in> droppable A. cat nm \<noteq> Some (le_bytes 8 (0 :: PageId)))"

lemma committed_view:
  assumes "txn_ok env \<sigma> n H L w" "q \<in> L" "q \<in> dom (committed \<sigma>)"
  shows "V w q = the (committed \<sigma> q)"
proof -
  have po: "pool_ok env H L (pool w)" and dk: "disk_ok (committed \<sigma>) L w" using assms(1) by (simp_all add: txn_ok_def read_ok_def)
  have "q \<notin> dirty_pages (pool w)" "page_at (sm (pool w)) q = the (committed \<sigma> q)" using dk assms(3) by (auto simp: disk_ok_def)
  then show ?thesis using clean_view [OF po assms(2)] by simp
qed

lemma failed_abortable:
  assumes "failed env \<sigma> H w" "setting_of (around \<sigma>) = setting A" "locked A" "has_pages (committed \<sigma>) (saved A)"
  shows "abortable (\<lambda>s m. secure (committed \<sigma>) (length (saved A)) s) w"
proof -
  obtain L where ok: "txn_ok env \<sigma> 0 H L w" using assms(1) by (auto simp: failed_def)
  then have "setting_of (scenery w) = setting A" using assms(2) by (simp add: txn_ok_def)
  note sf = setting_fields(4,5) [OF this]
  show ?thesis using txn_secure [OF ok] assms(3,4) sf by (simp add: abortable_def)
qed

lemma db_failed_abortable: "db_failed env A H w \<Longrightarrow> locked A \<Longrightarrow> has_pages (last_commit A) (saved A) \<Longrightarrow> abortable (kept_safe A) w"
  unfolding db_failed_def using failed_abortable by metis

section \<open>The steps of a commit\<close>

lemma reopened_simps [simp]: "V (reopened w) = V w" "db (reopened w) = db w" "meta (txn (reopened w)) = meta (txn w)"
  by (simp_all add: reopened_def)

lemma reopened_txn_ok: "txn_ok env \<lparr>committed = C, around = scenery (reopened w)\<rparr> n H L (reopened w) \<Longrightarrow> txn_ok env \<lparr>committed = C, around = scenery w\<rparr> n H L w"
  by (simp add: txn_ok_def read_ok_def lists_ok_def disk_ok_def fresh_ok_def free_lists_def reopened_def)

lemma reopened_setting: "setting_of (scenery (reopened w)) = setting_of (scenery w)"
  by (simp add: setting_of_def scenery_def reopened_def)

lemma set_root_fields [simp]:
  "last_commit (set_root r A) = last_commit A" "head_meta (set_root r A) = head_meta A" "head_page (set_root r A) = head_page A"
  "locked (set_root r A) = locked A" "saved (set_root r A) = saved A" "txn_meta (set_root r A) = (txn_meta A)\<lparr>catalogRoot := r\<rparr>"
  by (simp_all add: set_root_def)

text \<open>The free list and the chain fit in the budget of \<open>2^38\<close> pages.\<close>

lemma distinct_below: "distinct ps \<Longrightarrow> \<forall>p \<in> set ps. p < N \<Longrightarrow> length ps \<le> unat (N :: PageId)"
proof -
  assume a: "distinct ps" "\<forall>p \<in> set ps. p < N"
  have "length ps = card (unat ` set ps)" using a(1) by (simp add: card_image inj_on_def distinct_card word_unat_eq_iff)
  also have "\<dots> \<le> card {..< unat N}" using a(2) by (intro card_mono) (auto simp: word_less_nat_alt)
  finally show ?thesis by simp
qed

lemma chain_budget:
  assumes ok: "txn_ok env \<sigma> n H L w" and ps: "set ps \<subseteq> L" "distinct ps"
  shows "chain_need (length (free_lists w) + length ps) \<le> 2 ^ 38" "length ps < 2 ^ 46"
proof -
  have l: "lists_ok n L w" using ok by (simp add: txn_ok_def)
  then have "distinct (free_lists w @ ps)" "\<forall>p \<in> set (free_lists w @ ps). p < numPages (meta (txn w))"
    using ps unfolding lists_ok_def by auto
  then have "length (free_lists w @ ps) \<le> unat (numPages (meta (txn w)))" by (rule distinct_below)
  moreover have "unat (numPages (meta (txn w))) < 2 ^ 46" using l by (simp add: lists_ok_def)
  ultimately show "chain_need (length (free_lists w) + length ps) \<le> 2 ^ 38" "length ps < 2 ^ 46" unfolding chain_need(1) by simp_all
qed

text \<open>The pages once the catalog and the free list are written: what the header will point to.\<close>

definition prepared ::
    "env \<Rightarrow> anchor \<Rightarrow> nat \<Rightarrow> nat \<Rightarrow> schema \<Rightarrow> (bytes \<Rightarrow> PageId set) \<Rightarrow> PageId set \<Rightarrow> PageId list \<Rightarrow> (bytes \<rightharpoonup> bytes) \<Rightarrow> database \<Rightarrow> world \<Rightarrow> bool" where
  "prepared env A n h S P Pc ps cat D w \<longleftrightarrow>
     stored_db S (V w) (meta (txn w)) h P Pc ps (persist_ids w) cat D \<and> header_ok (meta (txn w)) \<and> txnID (meta (txn w)) = txnID (head_meta A) \<and>
     currentMeta (db w) = head_meta A \<and> currentMetaPage (db w) = head_page A \<and> writerMu (db w) \<and> onDisk (sm (pool w)) = saved A \<and>
     txn_ok env \<lparr>committed = last_commit A, around = scenery w\<rparr> n {#} (live_pages P Pc ps) w"

lemma apply_step:
  assumes d: "db_at env A (n + length (buckets (txn w)) * (2 + 2 * M)) {#} h S P ({0, 1} \<union> Pc \<union> set ps) cat D w" and b: "base_ok S A cat Pc ps"
    and h: "h + length (buckets (txn w)) \<le> M" "M \<le> fuel env" and S: "bucket_names S = {k. length k = c}" "c \<le> 498"
    and ord: "mset (order (buckets (txn w))) = mset (buckets (txn w))"
  shows "result_ok (applyBucketChanges env order w) (abortable (kept_safe A))
    (\<lambda>_ w'. \<exists>P' cat'. catalog_written env A n {#} (h + length (buckets (txn w))) S P ({0, 1} \<union> set ps) D w P' cat' w')"
proof -
  have bs: "map_at (the \<circ> last_commit A) Pc (base_height A) (bucket_names S) (NewBTree (catalogRoot (txn_meta A))) cat" "Pc \<subseteq> dom (last_commit A)" "locked A" "has_pages (last_commit A) (saved A)"
    "\<And>nm. nm \<in> droppable A \<Longrightarrow> cat nm \<noteq> Some (le_bytes 8 (0 :: PageId))" and F: "{0, 1} \<union> Pc \<union> set ps - Pc = {0, 1} \<union> set ps"
    using b unfolding base_ok_def by auto
  have "V w q = (the \<circ> last_commit A) q" if "q \<in> Pc" for q using committed_view [OF db_atD(7) [OF d], of q] bs(2) that by auto
  then have "map_at (V w) Pc h (bucket_names S) (NewBTree (catalogRoot (meta (txn w)))) cat"
    using map_at_weaken [OF map_at_same [OF bs(1), of "V w"] db_atD(10) [OF d] subset_refl] txn_meta_fields(1) [OF setting_fields(1) [OF db_atD(9) [OF d]]] by simp
  moreover have "\<not> lost_drop cat w" using bs(5) by (rule no_lost_drop [OF d])
  ultimately have "result_ok (applyBucketChanges env order w) (db_failed env A {#})
    (\<lambda>_ w'. \<exists>P' cat'. catalog_written env A n {#} (h + length (buckets (txn w))) S P ({0, 1} \<union> Pc \<union> set ps - Pc) D w P' cat' w')"
    using S ord by (intro applyBucketChanges_rule [OF d h]) auto
  then show ?thesis unfolding F by (rule result_ok_mono) (use db_failed_abortable [OF _ bs(3,4)] in auto)
qed

lemma persist_set: "set (persist_ids w) = set (free_lists w)" "distinct (persist_ids w) = distinct (free_lists w)"
  by (auto simp: persist_ids_def free_lists_def)

lemma persistedD:
  assumes "persisted env \<sigma> n H F w new w'"
  shows "freelistRoot (meta (txn w')) = chain_head new" "fl_chain (V w') new (persist_ids w')" "set new \<inter> F = {}"
    "txn_ok env (\<sigma>\<lparr>around := scenery w'\<rparr>) n H (F \<union> set new) w'" "same_pages F w w'" "scenery w' = scenery (set_freelistRoot (chain_head new) w)" "distinct new"
  using assms unfolding persisted_def by blast+

lemma persist_step:
  assumes cw: "catalog_written env A (n + 2 ^ 38) {#} h S P ({0, 1} \<union> set ps) D w P' cat w1" and b: "base_ok S A cat0 Pc ps" and fu: "2 ^ 46 \<le> fuel env"
  shows "result_ok (persistFreelist env w1) (abortable (kept_safe A)) (\<lambda>_ w'. \<exists>new. prepared env A n h S P P' new cat D w')"
proof -
  let ?L = "{0, 1} \<union> set ps \<union> P' \<union> (\<Union>x. P x)" and ?A = "set_root (catalogRoot (meta (txn w1))) A" and ?\<sigma> = "\<lparr>committed = last_commit A, around = scenery w1\<rparr>"
  have d: "db_at env ?A (n + 2 ^ 38) {#} h S P ({0, 1} \<union> set ps \<union> P') cat D (reopened w1)" and P': "P' \<inter> ({0, 1} \<union> set ps) = {}"
    and mp: "map_at (V w1) P' h (bucket_names S) (NewBTree (catalogRoot (meta (txn w1)))) cat" using cw by (simp_all add: catalog_written_def)
  have ps: "set ps \<inter> {0, 1} = {}" "distinct ps" "set ps \<subseteq> dom (last_commit A)" "locked A" "freelistRoot (txn_meta A) = chain_head ps" "header_ok (txn_meta A)"
    "txnID (txn_meta A) = txnID (head_meta A)" "has_pages (last_commit A) (saved A)" using b unfolding base_ok_def by auto
  obtain ids where ids: "fl_chain (the \<circ> last_commit A) ps ids" using b by (auto simp: base_ok_def)
  have ok: "txn_ok env ?\<sigma> (n + 2 ^ 38) {#} ?L w1" using reopened_txn_ok [OF db_atD(7) [OF d, simplified]] by simp
  have st: "setting_of (scenery w1) = setting ?A" using db_atD(9) [OF d] by (simp add: reopened_setting)
  note sf = setting_fields [OF st] and mf = txn_meta_fields [OF setting_fields(1) [OF st]]
  have "V w1 q = (the \<circ> last_commit A) q" if "q \<in> set ps" for q using committed_view [OF ok, of q] ps(3) that by auto
  then have ch: "fl_chain (V w1) ps ids" using fl_chain_cong [of ps "V w1" "the \<circ> last_commit A"] ids by simp
  have fr: "freelistRoot (meta (txn w1)) = chain_head ps" using mf(2) ps(5) by simp
  have "set ps \<subseteq> ?L" by blast
  note bud = chain_budget [OF ok this ps(2)]
  have "result_ok (persistFreelist env w1) (failed env ?\<sigma> {#}) (\<lambda>_ w'. \<exists>new. persisted env ?\<sigma> n {#} (?L - set ps) w1 new w')"
    using bud fu by (intro persistFreelist_rule [OF ok ch fr _ ps(2)]) auto
  then show ?thesis
  proof (rule result_ok_mono)
    show "abortable (kept_safe A) s" if "failed env ?\<sigma> {#} s" for s using failed_abortable [OF that, of ?A] st ps(4,8) by simp
  next
    fix x w2 assume "\<exists>new. persisted env ?\<sigma> n {#} (?L - set ps) w1 new w2"
    then obtain new where q: "persisted env ?\<sigma> n {#} (?L - set ps) w1 new w2" by blast
    note p = persistedD [OF q, unfolded backdrop.simps]
    have "set ps \<inter> P x = {}" for x using db_atD(3) [OF d, of x] by blast
    then have "set ps \<inter> (\<Union>x. P x) = {}" by auto
    then have F: "?L - set ps = {0, 1} \<union> P' \<union> (\<Union>x. P x)" using ps(1) P' by blast
    have L: "?L - set ps \<union> set new = live_pages P P' new" unfolding F live_pages_def by blast
    have same: "V w2 q = V w1 q" if "q \<in> {0, 1} \<union> P' \<union> (\<Union>x. P x)" for q using p(5) that unfolding F same_pages_def by blast
    have l: "lists_ok n (live_pages P P' new) w2" using p(4) unfolding L by (simp add: txn_ok_def)
    have sc: "(meta (txn w2))\<lparr>numPages := 0\<rparr> = (meta (txn w1))\<lparr>freelistRoot := chain_head new, numPages := 0\<rparr>" "currentMeta (db w2) = currentMeta (db w1)"
      "currentMetaPage (db w2) = currentMetaPage (db w1)" "writerMu (db w2) = writerMu (db w1)" "onDisk (sm (pool w2)) = onDisk (sm (pool w1))" using p(6) by (simp_all add: scenery_def set_freelistRoot_def)
    have m2: "catalogRoot (meta (txn w2)) = catalogRoot (meta (txn w1))" "txnID (meta (txn w2)) = txnID (meta (txn w1))" "header_ok (meta (txn w2)) = header_ok (meta (txn w1))"
      using arg_cong [OF sc(1), of catalogRoot] arg_cong [OF sc(1), of txnID] arg_cong [OF sc(1), of header_ok] by (simp_all add: header_ok_def)
    have "tree_of (reopened w1) cat nm = tree_in cat nm" for nm by (rule tree_of_fresh) (simp add: reopened_def)
    then have "bucket_at (V w1) h (key_length S nm) (P nm) (tree_in cat nm) (D nm)" for nm using db_atD(1) [OF d, of nm] by simp
    then have bk: "bucket_at (V w2) h (key_length S nm) (P nm) (tree_in cat nm) (D nm)" for nm by (rule bucket_at_same) (use same in blast)
    have mc: "map_at (V w2) P' h (bucket_names S) (NewBTree (catalogRoot (meta (txn w2)))) cat" unfolding m2(1) using mp by (rule map_at_same) (use same in blast)
    have "P nm \<inter> set new = {}" for nm using p(3) unfolding F by blast
    then have dj: "P nm \<inter> ({0, 1} \<union> P' \<union> set new) = {}" for nm using db_atD(3) [OF d, of nm] by blast
    have "stored_db S (V w2) (meta (txn w2)) h P P' new (persist_ids w2) cat D"
      unfolding stored_db_def
    proof (intro conjI)
      show "distinct (persist_ids w2)" "set (persist_ids w2) \<inter> live_pages P P' new = {}" "\<forall>pid \<in> live_pages P P' new \<union> set (persist_ids w2). pid < numPages (meta (txn w2))"
        using l persist_set [of w2] unfolding lists_ok_def by auto
      show "P' \<inter> {0, 1} = {}" "set new \<inter> ({0, 1} \<union> P') = {}" using P' p(3) unfolding F by blast+
    qed (use bk mc dj p db_atD(2,6) [OF d] in auto)
    moreover have "header_ok (meta (txn w2))" "txnID (meta (txn w2)) = txnID (head_meta A)" using m2(2,3) mf(3,4) ps(6,7) by (simp_all add: header_ok_def)
    moreover have "currentMeta (db w2) = head_meta A" "currentMetaPage (db w2) = head_page A" "writerMu (db w2)" "onDisk (sm (pool w2)) = saved A" using sc sf(2-5) ps(4) by simp_all
    ultimately show "\<exists>new. prepared env A n h S P P' new cat D w2" using p(4) unfolding L prepared_def by blast
  qed
qed

section \<open>A database between transactions\<close>

definition newest_header :: "StorageManager \<Rightarrow> Meta \<Rightarrow> PageId \<Rightarrow> bool" where
  "newest_header s m pid \<longleftrightarrow> (\<exists>r0 r1. decodeMeta (page_at s 0) = Some r0 \<and> decodeMeta (page_at s 1) = Some r1 \<and> chooseMeta r0 r1 = Inr (m, pid))"

text \<open>What the file showed at the last sync: it had the pages \<open>R\<close>, and those of \<open>L\<close> were as they are now.\<close>

definition durable :: "PageId set \<Rightarrow> PageId set \<Rightarrow> StorageManager \<Rightarrow> bool" where
  "durable R L s \<longleftrightarrow> length (onDisk s) \<le> length (content s) \<and> (\<forall>q \<in> R. in_file (opened (onDisk s)) q) \<and>
     (\<forall>q \<in> L. page_at (opened (onDisk s)) q = page_at s q)"

lemma durable_synced: "onDisk s = content s \<Longrightarrow> durable R L s \<longleftrightarrow> (\<forall>q \<in> R. in_file s q)"
  by (simp add: durable_def)

text \<open>\<open>n\<close> pages can still be added, and \<open>h\<close> bounds the heights of the trees. Everything that \<open>D\<close> needs is synced.\<close>

definition db_ready :: "env \<Rightarrow> nat \<Rightarrow> nat \<Rightarrow> schema \<Rightarrow> database \<Rightarrow> DB \<Rightarrow> bool" where
  "db_ready env n h S D d \<longleftrightarrow>
     \<not> writerMu d \<and> header_ok (currentMeta d) \<and> unat (numPages (currentMeta d)) + n < 2 ^ 46 \<and>
     newest_header (sm (bufferPool d)) (currentMeta d) (currentMetaPage d) \<and>
     (\<exists>P Pc ps cat. pool_ok env {#} (live_pages P Pc ps) (bufferPool d) \<and> dirty_pages (bufferPool d) \<inter> live_pages P Pc ps = {} \<and>
        (\<forall>pid \<in> set (allIds (freelist d)). in_file (sm (bufferPool d)) pid) \<and>
        durable (live_pages P Pc ps \<union> set (allIds (freelist d))) (live_pages P Pc ps) (sm (bufferPool d)) \<and>
        stored_db S (page_at (sm (bufferPool d))) (currentMeta d) h P Pc ps (allIds (freelist d)) cat D)"

lemma stored_db_cong:
  assumes "stored_db S W m h P Pc ps ids cat D" "\<And>q. q \<in> live_pages P Pc ps - {0, 1} \<Longrightarrow> W' q = W q"
    "catalogRoot m' = catalogRoot m" "freelistRoot m' = freelistRoot m" "numPages m' = numPages m"
  shows "stored_db S W' m' h P Pc ps ids cat D"
proof -
  have st: "\<And>nm. bucket_at W h (key_length S nm) (P nm) (tree_in cat nm) (D nm)" "map_at W Pc h (bucket_names S) (NewBTree (catalogRoot m)) cat" "fl_chain W ps ids"
    "\<And>nm. P nm \<inter> ({0, 1} \<union> Pc \<union> set ps) = {}" "Pc \<inter> {0, 1} = {}" "set ps \<inter> ({0, 1} \<union> Pc) = {}" using assms(1) by (simp_all add: stored_db_def)
  have "bucket_at W' h (key_length S nm) (P nm) (tree_in cat nm) (D nm)" for nm
    using st(1) by (rule bucket_at_same) (use assms(2) st(4) [of nm] in \<open>auto simp: live_pages_def\<close>)
  moreover have "map_at W' Pc h (bucket_names S) (NewBTree (catalogRoot m)) cat"
    using st(2) by (rule map_at_same) (use assms(2) st(5) in \<open>auto simp: live_pages_def\<close>)
  moreover have "fl_chain W' ps ids" using st(3) fl_chain_cong [of ps W' W ids] assms(2) st(6) by (auto simp: live_pages_def)
  ultimately show ?thesis using assms(1) unfolding stored_db_def assms(3-5) by simp
qed

section \<open>Commit\<close>

definition commit_end :: "Meta \<Rightarrow> world \<Rightarrow> (unit, world) outcome" where
  "commit_end m w = do {
     let t = (txn w)\<lparr>meta := m\<rparr>;
     let fl = push (push (freelist (db w)) (txnID m) (freed t)) (txnID m) (reusable t);
     d \<leftarrow> unlock_writer ((db w)\<lparr>freelist := fl\<rparr>);
     Some (Inr (), \<lparr>db = d, txn = t\<lparr>closed := True\<rparr>\<rparr>)
   }"

definition bump :: "world \<Rightarrow> world" where
  "bump w = w\<lparr>txn := (txn w)\<lparr>meta := (meta (txn w))\<lparr>txnID := txnID (meta (txn w)) + 1\<rparr>\<rparr>\<rparr>"

definition commit_header :: "env \<Rightarrow> world \<Rightarrow> (unit, world) outcome" where
  "commit_header env w = try_or (in_db (commitMeta env (meta (txn (bump w)))) (bump w)) abortInternal commit_end"

definition commit_pages :: "env \<Rightarrow> world \<Rightarrow> (unit, world) outcome" where
  "commit_pages env w =
     try_or (in_db (in_pool (\<lambda>bp. err_result (FlushPages env bp (allocated (txn w))))) w) abortInternal (\<lambda>_ w.
     try_or (sync_pool w) abortInternal (\<lambda>_ w. commit_header env w))"

lemma Commit_steps:
  assumes "writable (txn w)" "\<not> closed (txn w)"
  shows "Commit env order w = try_or (applyBucketChanges env order w) abortInternal (\<lambda>_ w. try_or (persistFreelist env w) abortInternal (\<lambda>_ w. commit_pages env w))"
  using assms unfolding Commit_def commit_pages_def commit_header_def commit_end_def bump_def Let_def by simp

lemma allIds_push: "allIds (push f ts ids) = allIds f @ ids"
  by (simp add: allIds_def push_pending comp_def)

lemma newest_after:
  assumes "page_at s np = buf" "decodeMeta buf = Some (Inr m')" "np = nextMetaPage cur" "decodeMeta (page_at s cur) = Some (Inr m)" "cur \<in> {0, 1}" "txnID m' = txnID m + 1"
  shows "newest_header s m' np"
proof (cases "cur = 0")
  case True
  then show ?thesis using assms by (simp add: newest_header_def nextMetaPage_def metaPage0_def metaPage1_def chooseMeta_def isNewer_def)
next
  case False
  then show ?thesis using assms by (simp add: newest_header_def nextMetaPage_def metaPage0_def metaPage1_def chooseMeta_def isNewer_def)
qed

lemma in_db_rule:
  assumes "result_ok (m (db w)) E Q" "\<And>d. E d \<Longrightarrow> E' (w\<lparr>db := d\<rparr>)" "\<And>x d. Q x d \<Longrightarrow> Q' x (w\<lparr>db := d\<rparr>)"
  shows "result_ok (in_db m w) E' Q'"
  using assms(1) by (cases rule: result_ok_cases) (use assms(2,3) in \<open>auto simp: in_db_def result_ok_def\<close>)

lemma commit_end_rule:
  assumes pr: "prepared env A n h S P Pc ps cat D w" and b: "base_ok S A cat0 Pc0 ps0" and np: "np = nextMetaPage (head_page A)"
    and m: "m = sealed (meta (txn (bump w)))" "decodeMeta buf = Some (Inr m)"
    and st: "settled env C N (live_pages P Pc ps) ((V w)(np := buf)) bp" "grows (pool w) bp" "onDisk (sm bp) = content (sm bp)"
    and w1: "w1 = (bump w)\<lparr>db := (db w)\<lparr>bufferPool := bp, currentMeta := m, currentMetaPage := np\<rparr>\<rparr>"
  shows "\<exists>w'. commit_end m w1 = Some (Inr (), w') \<and> closed (txn w') \<and> db_ready env n h S D (db w')"
proof -
  let ?L = "live_pages P Pc ps"
  have p: "stored_db S (V w) (meta (txn w)) h P Pc ps (persist_ids w) cat D" "header_ok (meta (txn w))" "txnID (meta (txn w)) = txnID (head_meta A)" "writerMu (db w)" "lists_ok n ?L w"
    "txn_ok env \<lparr>committed = last_commit A, around = scenery w\<rparr> n {#} ?L w" using pr by (simp_all add: prepared_def txn_ok_def)
  have bs: "head_page A \<in> {0, 1}" "head_page A \<in> dom (last_commit A)" "decodeMeta (the (last_commit A (head_page A))) = Some (Inr (head_meta A))" using b by (auto simp: base_ok_def)
  have s: "pool_ok env {#} ?L bp" "dirty_pages bp \<inter> ?L = {}" "\<And>q. q \<in> ?L \<Longrightarrow> page_at (sm bp) q = ((V w)(np := buf)) q"
    using st(1) by (auto simp: settled_def)
  have npL: "np \<in> {0, 1}" "np \<in> ?L" "np \<noteq> head_page A" "head_page A \<in> ?L" using np bs(1) by (auto simp: nextMetaPage_def metaPage0_def metaPage1_def live_pages_def)
  have mm: "txnID m = txnID (head_meta A) + 1" "catalogRoot m = catalogRoot (meta (txn w))" "freelistRoot m = freelistRoot (meta (txn w))" "numPages m = numPages (meta (txn w))" "header_ok m"
    using p(2,3) m(1) by (simp_all add: bump_def header_ok_def)
  have cur: "page_at (sm bp) (head_page A) = the (last_commit A (head_page A))" using s(3) [OF npL(4)] committed_view [OF p(6) npL(4)] bs(2) npL(3) by auto
  have "newest_header (sm bp) m np" using s(3) [OF npL(2)] m(2) np bs cur mm(1) by (intro newest_after [where buf = buf and m = "head_meta A"]) simp_all
  moreover have "stored_db S (page_at (sm bp)) m h P Pc ps (persist_ids w) cat D"
    using p(1) by (rule stored_db_cong) (use s(3) npL(1) mm in auto)
  moreover have fi: "\<forall>pid \<in> set (persist_ids w). in_file (sm bp) pid" using p(5) st(2) persist_set(1) [of w] by (simp add: lists_ok_def grows_def)
  moreover have "allIds (push (push (freelist (db w)) t (freed (txn w))) t (reusable (txn w))) = persist_ids w" for t by (simp add: allIds_push persist_ids_def)
  moreover have "durable (?L \<union> set (persist_ids w)) ?L (sm bp)" using fi s(1) unfolding durable_synced [OF st(3)] by (auto simp: pool_ok_def)
  moreover have "unat (numPages m) + n < 2 ^ 46" using p(5) mm(4) by (simp add: lists_ok_def)
  ultimately have "db_ready env n h S D ((db w)\<lparr>bufferPool := bp, currentMeta := m, currentMetaPage := np,
      freelist := push (push (freelist (db w)) (txnID m) (freed (txn w))) (txnID m) (reusable (txn w)), writerMu := False\<rparr>)"
    using s(1,2) mm(5) unfolding db_ready_def by auto
  then show ?thesis using p(4) by (simp add: commit_end_def w1 bump_def unlock_writer_def Let_def)
qed

text \<open>A commit that fails while it writes the header: the pages of the last commit and those of the new database \<open>D\<close>, to
  which the header \<open>sealed m\<close> belongs, are safe, but the page of the new header may show anything.\<close>

definition torn_commit :: "anchor \<Rightarrow> nat \<Rightarrow> nat \<Rightarrow> schema \<Rightarrow> database \<Rightarrow> StorageManager \<Rightarrow> Meta \<Rightarrow> bool" where
  "torn_commit A n h S D s m \<longleftrightarrow> (\<exists>C N P Pc ps ids cat. secure C N s \<and> length (saved A) \<le> N \<and>
     (\<forall>q. q \<noteq> nextMetaPage (head_page A) \<longrightarrow> (q \<in> dom (last_commit A) \<longrightarrow> C q = last_commit A q) \<and> (q \<in> live_pages P Pc ps \<longrightarrow> q \<in> dom C)) \<and>
     stored_db S (the \<circ> C) m h P Pc ps ids cat D \<and> (\<forall>pid \<in> set ids. unat pid * 4096 + 4096 \<le> N) \<and>
     header_ok m \<and> txnID m = txnID (head_meta A) + 1 \<and> unat (numPages m) + n < 2 ^ 46)"

text \<open>How a commit of \<open>D\<close> can fail.\<close>

abbreviation commit_failed :: "anchor \<Rightarrow> nat \<Rightarrow> nat \<Rightarrow> schema \<Rightarrow> database \<Rightarrow> StorageManager \<Rightarrow> Meta \<Rightarrow> bool" where
  "commit_failed A n h S D s m \<equiv> kept_safe A s m \<or> torn_commit A n h S D s m"

text \<open>What is safe once the pages are written and synced: all but the header that comes next.\<close>

definition both_images :: "anchor \<Rightarrow> PageId set \<Rightarrow> (PageId \<Rightarrow> bytes) \<Rightarrow> PageId \<rightharpoonup> bytes" where
  "both_images A L W = (\<lambda>q. if q = nextMetaPage (head_page A) then None else if q \<in> L then Some (W q) else last_commit A q)"

lemma both_images_safe:
  assumes pr: "prepared env A n h S P Pc ps cat D w" and st: "settled env (last_commit A) (length (saved A)) (live_pages P Pc ps) (V w) bp"
    "onDisk (sm bp) = content (sm bp)"
  shows "settled env (both_images A (live_pages P Pc ps) (V w)) (length (onDisk (sm bp))) (live_pages P Pc ps) (V w) bp"
proof (rule settled_synced [OF st])
  show "dom (both_images A (live_pages P Pc ps) (V w)) \<subseteq> live_pages P Pc ps \<union> dom (last_commit A)" by (auto simp: both_images_def split: if_splits)
  show "page_at (sm bp) q = bs" if "both_images A (live_pages P Pc ps) (V w) q = Some bs" for q bs
    using that st(1) secure_page [of "last_commit A" _ "sm bp" q bs] by (auto simp: both_images_def settled_def split: if_splits)
qed

lemma torn_commitI:
  assumes pr: "prepared env A n h S P Pc ps cat D w" and b: "base_ok S A cat0 Pc0 ps0" and gr: "grows (pool w) bp"
    and sec: "secure (both_images A (live_pages P Pc ps) (V w)) (length (onDisk (sm bp))) s" and on: "onDisk (sm bp) = content (sm bp)" "length (saved A) \<le> length (content (sm bp))"
  shows "torn_commit A n h S D s (meta (txn (bump w)))"
proof -
  let ?L = "live_pages P Pc ps" and ?np = "nextMetaPage (head_page A)" and ?m = "meta (txn (bump w))"
  let ?C = "both_images A ?L (V w)" and ?N = "length (onDisk (sm bp))"
  have p: "stored_db S (V w) (meta (txn w)) h P Pc ps (persist_ids w) cat D" "header_ok (meta (txn w))" "txnID (meta (txn w)) = txnID (head_meta A)" "lists_ok n ?L w"
    "txn_ok env \<lparr>committed = last_commit A, around = scenery w\<rparr> n {#} ?L w" using pr by (simp_all add: prepared_def txn_ok_def)
  have np: "?np \<in> {0, 1}" by (auto simp: nextMetaPage_def metaPage0_def metaPage1_def)
  have "stored_db S (the \<circ> ?C) ?m h P Pc ps (persist_ids w) cat D"
    using p(1) by (rule stored_db_cong) (use np in \<open>auto simp: both_images_def bump_def\<close>)
  moreover have "?C q = last_commit A q" if "q \<noteq> ?np" "q \<in> dom (last_commit A)" for q
    using that committed_view [OF p(5), of q] by (auto simp: both_images_def)
  moreover have "in_file (sm bp) pid" if "pid \<in> set (persist_ids w)" for pid
    using that p(4) gr persist_set(1) [of w] by (simp add: lists_ok_def grows_def)
  then have "\<forall>pid \<in> set (persist_ids w). unat pid * 4096 + 4096 \<le> ?N" using on(1) by (simp add: in_file_def)
  moreover have "header_ok ?m" "txnID ?m = txnID (head_meta A) + 1" "unat (numPages ?m) + n < 2 ^ 46"
    using p(2-4) by (simp_all add: bump_def header_ok_def lists_ok_def)
  moreover have "q \<in> dom ?C" if "q \<noteq> ?np" "q \<in> ?L" for q using that by (simp add: both_images_def domIff)
  ultimately show ?thesis unfolding torn_commit_def using sec on
    by (intro exI [of _ ?C] exI [of _ ?N] exI [of _ P] exI [of _ Pc] exI [of _ ps] exI [of _ "persist_ids w"] exI [of _ cat]) auto
qed

lemma commit_header_rule:
  assumes pr: "prepared env A n h S P Pc ps cat D w" and b: "base_ok S A cat0 Pc0 ps0"
    and st: "settled env (last_commit A) (length (saved A)) (live_pages P Pc ps) (V w) bp" "grows (pool w) bp" "onDisk (sm bp) = content (sm bp)"
  shows "result_ok (commit_header env (w\<lparr>db := (db w)\<lparr>bufferPool := bp\<rparr>\<rparr>)) (ended (torn_commit A n h S D)) (\<lambda>_ w'. closed (txn w') \<and> db_ready env n h S D (db w'))"
proof -
  let ?L = "live_pages P Pc ps" and ?np = "nextMetaPage (head_page A)" and ?w = "bump (w\<lparr>db := (db w)\<lparr>bufferPool := bp\<rparr>\<rparr>)"
  let ?C = "both_images A ?L (V w)" and ?N = "length (onDisk (sm bp))"
  have hm: "header_ok (meta (txn ?w))" "currentMetaPage (db w) = head_page A" "writerMu (db w)" using pr by (simp_all add: prepared_def bump_def header_ok_def)
  have np: "?np \<in> ?L" "?np \<notin> dom ?C" by (auto simp: both_images_def nextMetaPage_def metaPage0_def metaPage1_def live_pages_def)
  have dbw: "db ?w = (db w)\<lparr>bufferPool := bp\<rparr>" by (simp add: bump_def)
  note st' = both_images_safe [OF pr st(1,3)]
  have len: "length (saved A) \<le> length (content (sm bp))" using st(1,3) by (auto simp: settled_def secure_def)
  have cm: "result_ok (commitMeta env (meta (txn ?w)) (db ?w)) (pool_failed ?C ?N (db ?w))
    (\<lambda>m' d'. m' = sealed (meta (txn ?w)) \<and> (\<exists>bp' buf. d' = (db ?w)\<lparr>bufferPool := bp', currentMeta := m', currentMetaPage := ?np\<rparr> \<and> decodeMeta buf = Some (Inr m') \<and>
      settled env ?C ?N ?L ((V w)(?np := buf)) bp' \<and> grows (bufferPool (db ?w)) bp' \<and> onDisk (sm bp') = content (sm bp')))"
    using st' hm(2) np by (intro commitMeta_rule [OF _ _ _ _ hm(1)]) (simp_all add: dbw)
  have "result_ok (in_db (commitMeta env (meta (txn ?w))) ?w) (abortable (torn_commit A n h S D))
    (\<lambda>m' w'. m' = sealed (meta (txn (bump w))) \<and> (\<exists>bp' buf. w' = (bump w)\<lparr>db := (db w)\<lparr>bufferPool := bp', currentMeta := m', currentMetaPage := ?np\<rparr>\<rparr> \<and>
      decodeMeta buf = Some (Inr m') \<and> settled env ?C ?N ?L ((V w)(?np := buf)) bp' \<and> grows (pool w) bp' \<and> onDisk (sm bp') = content (sm bp')))"
  proof (rule in_db_rule [where m = "commitMeta env (meta (txn ?w))", OF cm])
    show "abortable (torn_commit A n h S D) (?w\<lparr>db := d\<rparr>)" if f: "pool_failed ?C ?N (db ?w) d" for d
    proof -
      obtain bp' where bp': "d = (db ?w)\<lparr>bufferPool := bp'\<rparr>" "secure ?C ?N (sm bp')" using f by blast
      have "torn_commit A n h S D (sm bp') (meta (txn (bump w)))" using torn_commitI [OF pr b st(2) bp'(2) st(3) len] .
      then show ?thesis using hm(3) bp'(1) by (simp add: abortable_def dbw bump_def)
    qed
  next
    fix m d assume "m = sealed (meta (txn ?w)) \<and> (\<exists>bp' buf. d = (db ?w)\<lparr>bufferPool := bp', currentMeta := m, currentMetaPage := ?np\<rparr> \<and> decodeMeta buf = Some (Inr m) \<and>
      settled env ?C ?N ?L ((V w)(?np := buf)) bp' \<and> grows (bufferPool (db ?w)) bp' \<and> onDisk (sm bp') = content (sm bp'))"
    then obtain bp' buf where a: "m = sealed (meta (txn ?w))" "d = (db ?w)\<lparr>bufferPool := bp', currentMeta := m, currentMetaPage := ?np\<rparr>" "decodeMeta buf = Some (Inr m)"
      "settled env ?C ?N ?L ((V w)(?np := buf)) bp'" "grows bp bp'" "onDisk (sm bp') = content (sm bp')" by (auto simp: dbw)
    have "?w\<lparr>db := d\<rparr> = (bump w)\<lparr>db := (db w)\<lparr>bufferPool := bp', currentMeta := m, currentMetaPage := ?np\<rparr>\<rparr>" unfolding a(2) by (simp add: bump_def)
    moreover have "m = sealed (meta (txn (bump w)))" using a(1) by (simp add: bump_def)
    ultimately show "m = sealed (meta (txn (bump w))) \<and> (\<exists>bp' buf. ?w\<lparr>db := d\<rparr> = (bump w)\<lparr>db := (db w)\<lparr>bufferPool := bp', currentMeta := m, currentMetaPage := ?np\<rparr>\<rparr> \<and>
      decodeMeta buf = Some (Inr m) \<and> settled env ?C ?N ?L ((V w)(?np := buf)) bp' \<and> grows (pool w) bp' \<and> onDisk (sm bp') = content (sm bp'))"
      using a(3,4,6) grows_trans [OF st(2) a(5)] by blast
  qed
  then show ?thesis unfolding commit_header_def
  proof (rule try_or_rule [OF _ abortInternal_rule])
    fix m w1 assume "m = sealed (meta (txn (bump w))) \<and> (\<exists>bp' buf. w1 = (bump w)\<lparr>db := (db w)\<lparr>bufferPool := bp', currentMeta := m, currentMetaPage := ?np\<rparr>\<rparr> \<and>
      decodeMeta buf = Some (Inr m) \<and> settled env ?C ?N ?L ((V w)(?np := buf)) bp' \<and> grows (pool w) bp' \<and> onDisk (sm bp') = content (sm bp'))"
    then obtain bp' buf where a: "m = sealed (meta (txn (bump w)))" "decodeMeta buf = Some (Inr m)" "settled env ?C ?N ?L ((V w)(?np := buf)) bp'" "grows (pool w) bp'"
      "onDisk (sm bp') = content (sm bp')" "w1 = (bump w)\<lparr>db := (db w)\<lparr>bufferPool := bp', currentMeta := m, currentMetaPage := ?np\<rparr>\<rparr>" by blast
    from commit_end_rule [OF pr b refl a]
    show "result_ok (commit_end m w1) (ended (torn_commit A n h S D)) (\<lambda>_ w'. closed (txn w') \<and> db_ready env n h S D (db w'))" by (auto simp: result_ok_def)
  qed
qed

lemma abortable_mono: "abortable K w \<Longrightarrow> (\<And>s m. K s m \<Longrightarrow> K' s m) \<Longrightarrow> abortable K' w"
  by (simp add: abortable_def)

lemma ended_mono: "ended K w \<Longrightarrow> (\<And>s m. K s m \<Longrightarrow> K' s m) \<Longrightarrow> ended K' w"
  by (simp add: ended_def)

lemma commit_pages_rule:
  assumes pr: "prepared env A n h S P Pc ps cat D w" and b: "base_ok S A cat0 Pc0 ps0" and env: "env_ok env"
  shows "result_ok (commit_pages env w) (ended (commit_failed A n h S D)) (\<lambda>_ w'. closed (txn w') \<and> db_ready env n h S D (db w'))"
proof -
  let ?C = "last_commit A" and ?N = "length (saved A)" and ?L = "live_pages P Pc ps" and ?K = "commit_failed A n h S D"
  have ok: "txn_ok env \<lparr>committed = ?C, around = scenery w\<rparr> n {#} ?L w" and mu: "writerMu (db w)" and on: "onDisk (sm (pool w)) = saved A" using pr by (simp_all add: prepared_def)
  have "has_pages ?C (saved A)" using b by (simp add: base_ok_def)
  then have sec: "secure ?C ?N (sm (pool w))" using txn_secure [OF ok] on by simp
  let ?st = "\<lambda>w'. \<exists>bp. w' = w\<lparr>db := (db w)\<lparr>bufferPool := bp\<rparr>\<rparr> \<and> settled env ?C ?N ?L (V w) bp \<and> grows (pool w) bp"
  let ?sy = "\<lambda>w'. \<exists>bp. w' = w\<lparr>db := (db w)\<lparr>bufferPool := bp\<rparr>\<rparr> \<and> settled env ?C ?N ?L (V w) bp \<and> grows (pool w) bp \<and> onDisk (sm bp) = content (sm bp)"
  obtain err bp where f: "FlushPages env (pool w) (allocated (txn w)) = Some (err, bp)" "secure ?C ?N (sm bp)" "grows (pool w) bp" "err = None \<longrightarrow> settled env ?C ?N ?L (V w) bp"
    using flush_allocated [OF ok env, of ?N] sec by auto
  then have fl: "result_ok (in_db (in_pool (\<lambda>bp. err_result (FlushPages env bp (allocated (txn w))))) w) (abortable ?K) (\<lambda>_. ?st)"
    using mu by (cases err) (auto simp: in_db_def in_pool_def err_result_def result_ok_def abortable_def)
  have sy: "result_ok (sync_pool w') (abortable ?K) (\<lambda>_. ?sy)" if st: "?st w'" for w'
  proof -
    obtain bp where bp: "w' = w\<lparr>db := (db w)\<lparr>bufferPool := bp\<rparr>\<rparr>" "settled env ?C ?N ?L (V w) bp" "grows (pool w) bp" using st by blast
    obtain err bp' where s: "SyncPool bp = (err, bp')" by (cases "SyncPool bp")
    have s': "settled env ?C ?N ?L (V w) bp'" using settled_sync [OF bp(2) s] .
    then have "secure ?C ?N (sm bp')" by (simp add: settled_def)
    moreover have "err = None \<Longrightarrow> onDisk (sm bp') = content (sm bp')" using s by (rule SyncPool_cases) simp
    ultimately show ?thesis using s bp(1) mu s' grows_trans [OF bp(3) sync_grows [OF s]]
      by (cases err) (auto simp: sync_pool_def in_db_def in_pool_def err_result_def result_ok_def abortable_def)
  qed
  show ?thesis unfolding commit_pages_def
  proof (rule try_or_rule [OF fl abortInternal_rule])
    fix x w1 assume "?st w1"
    from sy [OF this] show "result_ok (try_or (sync_pool w1) abortInternal (\<lambda>_ w. commit_header env w)) (ended ?K) (\<lambda>_ w'. closed (txn w') \<and> db_ready env n h S D (db w'))"
    proof (rule try_or_rule [OF _ abortInternal_rule])
      fix y w2 assume "?sy w2"
      then obtain bp where bp: "w2 = w\<lparr>db := (db w)\<lparr>bufferPool := bp\<rparr>\<rparr>" "settled env ?C ?N ?L (V w) bp" "grows (pool w) bp" "onDisk (sm bp) = content (sm bp)" by blast
      show "result_ok (commit_header env w2) (ended ?K) (\<lambda>_ w'. closed (txn w') \<and> db_ready env n h S D (db w'))"
        unfolding bp(1) by (rule result_ok_mono [OF commit_header_rule [OF pr b bp(2-4)]]) (auto elim: ended_mono)
    qed
  qed
qed

lemma Commit_rule:
  assumes d: "db_at env A (n + 2 ^ 38 + length (buckets (txn w)) * (2 + 2 * M)) {#} h S P ({0, 1} \<union> Pc \<union> set ps) cat D w" and b: "base_ok S A cat Pc ps"
    and h: "h + length (buckets (txn w)) \<le> M" "M \<le> fuel env" "2 ^ 46 \<le> fuel env" and env: "env_ok env"
    and S: "bucket_names S = {k. length k = c}" "c \<le> 498" and ord: "mset (order (buckets (txn w))) = mset (buckets (txn w))"
  shows "result_ok (Commit env order w) (ended (commit_failed A n (h + length (buckets (txn w))) S D))
    (\<lambda>_ w'. closed (txn w') \<and> db_ready env n (h + length (buckets (txn w))) S D (db w'))"
proof -
  let ?h = "h + length (buckets (txn w))" and ?K = "commit_failed A n (h + length (buckets (txn w))) S D"
  have op: "writable (txn w)" "\<not> closed (txn w)" using db_atD(7) [OF d] by (simp_all add: txn_ok_def read_ok_def lists_ok_def)
  have ab: "\<exists>w'. abortInternal v = Some w' \<and> ended ?K w'" if "abortable (kept_safe A) v" for v
    using that by (intro abortInternal_rule) (auto elim: abortable_mono)
  show ?thesis unfolding Commit_steps [OF op]
  proof (rule try_or_rule [OF apply_step [where order = order, OF d b h(1,2) S ord] ab])
    fix x w1 assume "\<exists>P' cat'. catalog_written env A (n + 2 ^ 38) {#} ?h S P ({0, 1} \<union> set ps) D w P' cat' w1"
    then obtain P' cat' where "catalog_written env A (n + 2 ^ 38) {#} ?h S P ({0, 1} \<union> set ps) D w P' cat' w1" by blast
    from persist_step [OF this b h(3)]
    show "result_ok (try_or (persistFreelist env w1) abortInternal (\<lambda>_ w. commit_pages env w)) (ended ?K) (\<lambda>_ w'. closed (txn w') \<and> db_ready env n ?h S D (db w'))"
      by (rule try_or_rule [OF _ ab]) (use commit_pages_rule [OF _ b env] in blast)+
  qed
qed

end
