(* ===== verification/Recovery.thy ===== *)
theory Recovery
  imports CommitInv
begin

text \<open>
  Whole transactions and recovery: a database that is ready for a transaction, the transaction itself (\<open>BeginWrite\<close>, a
  sequence of requests, \<open>Commit\<close>), and \<open>Open\<close> of \<^verbatim>\<open>src/db.go\<close> on the file that a database has left.
\<close>

section \<open>Beginning a transaction\<close>

definition start_image :: "PageId set \<Rightarrow> DB \<Rightarrow> PageId \<rightharpoonup> bytes" where
  "start_image L d = (\<lambda>q. if q \<in> L then Some (page_at (sm (bufferPool d)) q) else None)"

lemma newest_page:
  assumes "newest_header s m pid"
  shows "pid \<in> {0, 1} \<and> decodeMeta (page_at s pid) = Some (Inr m)"
proof -
  obtain r0 r1 where r: "decodeMeta (page_at s 0) = Some r0" "decodeMeta (page_at s 1) = Some r1" "chooseMeta r0 r1 = Inr (m, pid)" using assms by (auto simp: newest_header_def)
  then show ?thesis by (cases r0; cases r1) (auto simp: chooseMeta_def metaPage0_def metaPage1_def split: if_splits)
qed

lemma next_page: "pid \<in> {0, 1} \<Longrightarrow> nextMetaPage pid \<in> {0, 1} \<and> nextMetaPage pid \<noteq> pid"
  by (auto simp: nextMetaPage_def metaPage0_def metaPage1_def)

lemma stored_empty_root:
  assumes "stored_db S W m h P Pc ps ids cat D" "D nm \<noteq> Some Map.empty"
  shows "cat nm \<noteq> Some (le_bytes 8 (0 :: PageId))"
proof
  assume "cat nm = Some (le_bytes 8 (0 :: PageId))"
  then have "tree_in cat nm = Some (NewBTree 0)" by (simp add: tree_in_def Uint64_def)
  moreover have "bucket_at W h (key_length S nm) (P nm) (tree_in cat nm) (D nm)" using assms(1) by (simp add: stored_db_def)
  ultimately show False using assms(2) by (auto simp: bucket_at_def map_at_def NewBTree_def split: option.splits)
qed

lemma start_base:
  assumes st: "stored_db S (page_at (sm (bufferPool d))) (currentMeta d) h P Pc ps ids cat D" and hd: "header_ok (currentMeta d)"
    and nw: "newest_header (sm (bufferPool d)) (currentMeta d) (currentMetaPage d)" and du: "durable (live_pages P Pc ps \<union> R) (live_pages P Pc ps) (sm (bufferPool d))"
    and A: "last_commit A = start_image (live_pages P Pc ps) d"
      "setting A = (((currentMeta d)\<lparr>numPages := 0\<rparr>, i), currentMeta d, currentMetaPage d, True, rs, onDisk (sm (bufferPool d)))"
      "droppable A = {nm. D nm \<noteq> Some Map.empty}" "base_height A = h"
  shows "base_ok S A cat Pc ps"
proof -
  let ?W = "page_at (sm (bufferPool d))" and ?L = "live_pages P Pc ps"
  note np = newest_page [OF nw]
  have s: "map_at ?W Pc h (bucket_names S) (NewBTree (catalogRoot (currentMeta d))) cat" "fl_chain ?W ps ids" "freelistRoot (currentMeta d) = chain_head ps" "distinct ps"
    "Pc \<inter> {0, 1} = {}" "set ps \<inter> ({0, 1} \<union> Pc) = {}" using st by (simp_all add: stored_db_def)
  have im: "last_commit A q = Some (?W q)" if "q \<in> {0, 1} \<union> Pc \<union> set ps" for q
    using that by (auto simp: A(1) start_image_def live_pages_def)
  have "map_at (the \<circ> last_commit A) Pc h (bucket_names S) (NewBTree (catalogRoot (currentMeta d))) cat"
    using s(1) by (rule map_at_same) (simp add: im)
  moreover have "fl_chain (the \<circ> last_commit A) ps ids" using s(2) fl_chain_cong [of ps "the \<circ> last_commit A" ?W] im by simp
  moreover have "{0, 1} \<union> Pc \<union> set ps \<subseteq> dom (last_commit A)" using im by blast
  moreover have "has_pages (last_commit A) (onDisk (sm (bufferPool d)))" using du by (auto simp: A(1) start_image_def has_pages_def durable_def)
  moreover have "\<forall>nm \<in> droppable A. cat nm \<noteq> Some (le_bytes 8 (0 :: PageId))" using stored_empty_root [OF st] A(3) by blast
  ultimately show ?thesis using s np im [of "currentMetaPage d"] hd unfolding base_ok_def by (auto simp: A(2,4) header_ok_def)
qed

lemma BeginWrite_rule:
  assumes "db_ready env n h S D d"
  obtains t d' A P Pc ps cat where "BeginWrite d = Some (t, d')" "db_at env A n {#} h S P ({0, 1} \<union> Pc \<union> set ps) cat D \<lparr>db = d', txn = t\<rparr>" "base_ok S A cat Pc ps"
    "droppable A = {nm. D nm \<noteq> Some Map.empty}" "buckets t = []" "last_commit A = start_image (live_pages P Pc ps) d"
    "head_meta A = currentMeta d" "head_page A = currentMetaPage d" "saved A = onDisk (sm (bufferPool d))"
    "durable (live_pages P Pc ps \<union> set (allIds (freelist d))) (live_pages P Pc ps) (sm (bufferPool d))"
    "stored_db S (page_at (sm (bufferPool d))) (currentMeta d) h P Pc ps (allIds (freelist d)) cat D"
proof -
  let ?m = "currentMeta d" and ?s = "sm (bufferPool d)"
  obtain P Pc ps cat where r: "pool_ok env {#} (live_pages P Pc ps) (bufferPool d)" "dirty_pages (bufferPool d) \<inter> live_pages P Pc ps = {}"
    "\<forall>pid \<in> set (allIds (freelist d)). in_file ?s pid" and du: "durable (live_pages P Pc ps \<union> set (allIds (freelist d))) (live_pages P Pc ps) ?s"
    and st: "stored_db S (page_at ?s) ?m h P Pc ps (allIds (freelist d)) cat D" using assms by (auto simp: db_ready_def)
  have g: "\<not> writerMu d" "header_ok ?m" "unat (numPages ?m) + n < 2 ^ 46" "newest_header ?s ?m (currentMetaPage d)" using assms by (simp_all add: db_ready_def)
  let ?L = "live_pages P Pc ps" and ?t = "\<lparr>writable = True, closed = False, meta = ?m, initialPageCnt = numPages ?m, allocated = [], freed = [], reusable = [], buckets = []\<rparr>"
  let ?d = "d\<lparr>writerMu := True\<rparr>" and ?w = "\<lparr>db = d\<lparr>writerMu := True\<rparr>, txn = ?t\<rparr>"
  define A where "A = \<lparr>last_commit = start_image ?L d, setting = setting_of (scenery ?w), droppable = {nm. D nm \<noteq> Some Map.empty}, base_height = h\<rparr>"
  have L: "?L = {0, 1} \<union> Pc \<union> set ps \<union> (\<Union>x. P x)" by (simp add: live_pages_def)
  have bt: "BeginWrite d = Some (?t, ?d)" using g(1) by (simp add: BeginWrite_def Let_def)
  have view: "view (bufferPool d) q = page_at ?s q" if "q \<in> ?L" for q using clean_view [OF r(1) that] r(2) that by blast
  have s: "\<And>nm. bucket_at (page_at ?s) h (key_length S nm) (P nm) (tree_in cat nm) (D nm)" "map_at (page_at ?s) Pc h (bucket_names S) (NewBTree (catalogRoot ?m)) cat" "\<forall>v \<in> ran cat. length v = 8"
    "\<And>nm nm'. nm \<noteq> nm' \<Longrightarrow> P nm \<inter> P nm' = {}" "\<And>nm. P nm \<inter> ({0, 1} \<union> Pc \<union> set ps) = {}" "distinct (allIds (freelist d))" "set (allIds (freelist d)) \<inter> ?L = {}"
    "\<forall>pid \<in> ?L \<union> set (allIds (freelist d)). pid < numPages ?m" using st by (simp_all add: stored_db_def)
  have inf: "\<And>q. q \<in> ?L \<Longrightarrow> in_file ?s q" using r(1) by (simp add: pool_ok_def)
  have "lists_ok n ?L ?w" using s(6-8) r(3) g(3) by (auto simp: lists_ok_def free_lists_def live_pages_def)
  moreover have "disk_ok (start_image ?L d) ?L ?w" using r(2) s(7,8) inf du by (auto simp: disk_ok_def start_image_def durable_def split: if_splits)
  moreover have "read_ok env {#} ?L ?w" using r(1) by (simp add: read_ok_def)
  ultimately have ok: "txn_ok env \<lparr>committed = start_image ?L d, around = scenery ?w\<rparr> n {#} ?L ?w" by (simp add: txn_ok_def fresh_ok_def)
  have bk: "bucket_at (view (bufferPool d)) h (key_length S nm) (P nm) (tree_of ?w cat nm) (D nm)" for nm
    unfolding tree_of_fresh [of ?w cat nm, simplified] using s(1) by (rule bucket_at_same) (use view in \<open>auto simp: L\<close>)
  have mp: "map_at (view (bufferPool d)) Pc h (bucket_names S) (NewBTree (catalogRoot ?m)) cat" using s(2) by (rule map_at_same) (use view in \<open>auto simp: L\<close>)
  have "db_at env A n {#} h S P ({0, 1} \<union> Pc \<union> set ps) cat D ?w"
    using bk mp s(3-5) ok unfolding db_at_def A_def L by (auto simp: bucket_of_def)
  moreover have "base_ok S A cat Pc ps"
    by (rule start_base [OF st g(2,4) du]) (simp_all add: A_def setting_of_def scenery_def)
  ultimately show thesis using that [OF bt] st du by (simp add: A_def setting_of_def scenery_def)
qed

lemma stored_db_higher:
  assumes st: "stored_db S W m h P Pc ps ids cat D" and h: "h \<le> h'"
  shows "stored_db S W m h' P Pc ps ids cat D"
proof -
  have "\<forall>nm. bucket_at W h (key_length S nm) (P nm) (tree_in cat nm) (D nm)" "map_at W Pc h (bucket_names S) (NewBTree (catalogRoot m)) cat" using st by (simp_all add: stored_db_def)
  then have "\<forall>nm. bucket_at W h' (key_length S nm) (P nm) (tree_in cat nm) (D nm)" "map_at W Pc h' (bucket_names S) (NewBTree (catalogRoot m)) cat"
    using bucket_at_weaken [OF _ h] map_at_weaken [OF _ h subset_refl] by blast+
  then show ?thesis using st by (simp add: stored_db_def)
qed

lemma db_ready_higher: "db_ready env n h S D d \<Longrightarrow> h \<le> h' \<Longrightarrow> db_ready env n h' S D d"
  unfolding db_ready_def using stored_db_higher by blast

section \<open>A fresh buffer pool\<close>

lemma table_get_fresh [simp]: "table_get (NewBufferPool s n) pid = None"
  using getPageTable_less [of pid] by (simp add: table_get_def NewBufferPool_def tableShards_def)

lemma fresh_frames [simp]:
  "frames (NewBufferPool s n) = replicate n newFrame" "sm (NewBufferPool s n) = s"
  "length (shards (NewBufferPool s n)) = 128"
  by (simp_all add: NewBufferPool_def tableShards_def)

lemma fresh_pool:
  assumes "sm_ok s" "0 < n" "n < 2 ^ 32"
  shows "pool_inv (NewBufferPool s n) {}" "clean_ok (NewBufferPool s n) {}" "view (NewBufferPool s n) = page_at s"
    "holds {#} (NewBufferPool s n)" "dirty_pages (NewBufferPool s n) = {}"
proof -
  show "pool_inv (NewBufferPool s n) {}"
    unfolding pool_inv_def using assms by (auto simp: frame_ok_def newFrame_def)
  show "clean_ok (NewBufferPool s n) {}" by (simp add: clean_ok_def newFrame_def)
  show "view (NewBufferPool s n) = page_at s" by (rule ext) (simp add: view_def)
  show "holds {#} (NewBufferPool s n)" by (simp add: holds_def newFrame_def)
  show "dirty_pages (NewBufferPool s n) = {}" by (auto simp: dirty_pages_def newFrame_def)
qed

section \<open>Reads that cannot fail\<close>

text \<open>The search for a victim gives up only when it meets pinned frames.\<close>

lemma evictFrame_loop_free:
  "\<forall>g < length (frames bp). pinCount (frames bp ! g) = 0 \<Longrightarrow> length (frames bp) < 2 ^ 32 \<Longrightarrow> evictFrame_loop n bp tries \<noteq> Some (Inl e, bp')"
proof (induction n arbitrary: bp tries)
  case 0
  then show ?case by simp
next
  case (Suc n)
  let ?f = "unat ((clockHand bp + 1 - 1) mod of_nat (length (frames bp)))" and ?bp = "bp\<lparr>clockHand := clockHand bp + 1\<rparr>"
  show ?case
  proof (cases "frames bp = []")
    case False
    have "unat (of_nat (length (frames bp)) :: u32) = length (frames bp)" using Suc.prems(2) by (simp add: unat_of_nat)
    then have f: "?f < length (frames bp)" using False by (simp add: unat_mod)
    have "evictFrame_loop n ?bp tries \<noteq> Some (Inl e, bp')" using Suc.prems by (intro Suc.IH) simp_all
    moreover have "evictFrame_loop n (set_frame ?f (\<lambda>p. p\<lparr>usageCount := usageCount p - 1\<rparr>) ?bp) (int (length (frames bp))) \<noteq> Some (Inl e, bp')"
      using Suc.prems by (intro Suc.IH) (simp_all add: nth_set_frame)
    ultimately show ?thesis using False Suc.prems(1) f by (simp add: Let_def)
  qed simp
qed

definition finds_frame :: "env \<Rightarrow> BufferPool \<Rightarrow> bool" where
  "finds_frame env bp \<longleftrightarrow> (\<forall>e bp'. evictFrame env bp \<noteq> Some (Inl e, bp'))"

lemma finds_unpinned:
  assumes "pool_ok env {#} L bp"
  shows "finds_frame env bp"
proof -
  have "\<forall>g < length (frames bp). pinCount (frames bp ! g) = 0" "length (frames bp) < 2 ^ 32"
    using assms pool_invD(3) by (auto simp: pool_ok_def holds_def)
  then show ?thesis using evictFrame_loop_free unfolding finds_frame_def evictFrame_def by blast
qed

lemma ReadPage_good:
  assumes "sm_ok s" "in_file s pid" "length buf = 4096" "script s = []"
  shows "ReadPage s pid buf = Some (None, page_at s pid, s)"
proof -
  have "getOffset s pid = Some (uint pid * 4096)" using getOffset_in_file [OF assms(1,2)] .
  moreover have "length (region (content s) (unat pid * 4096) 4096) = 4096" using assms(2) by (simp add: in_file_def)
  ultimately show ?thesis using assms(3,4) by (simp add: ReadPage_def ReadAt_def next_io_def Let_def page_at_def patch_whole nat_mult_distrib)
qed

lemma Get_good:
  assumes po: "pool_ok env H L bp" and pid: "pid \<in> L" and io: "script (sm bp) = []" and cl: "dirty_pages bp = {}" and ff: "finds_frame env bp"
  shows "\<exists>f bp'. Get env bp pid = Some (Inr f, bp') \<and> script (sm bp') = []"
proof (cases "table_get bp pid")
  case (Some f)
  then show ?thesis using io by (simp add: Get_def)
next
  case None
  have inv: "pool_inv bp {}" "enough_fuel env (length (frames bp))" "in_file (sm bp) pid" using po pid by (simp_all add: pool_ok_def)
  obtain n where n: "fuel env = Suc n" using inv(2) by (cases "fuel env") (auto simp: enough_fuel_def)
  obtain f bp1 where ev: "evictFrame env bp = Some (Inr f, set_frame f (\<lambda>p. p\<lparr>evicting := True\<rparr>) bp1)" and ag: "aged bp bp1" "f < length (frames bp)" "pinCount (frames bp ! f) = 0"
    using evictFrame_done [OF inv(1,2)] ff unfolding evict_done_def finds_frame_def by blast
  obtain u where u: "frames bp1 ! f = (frames bp ! f)\<lparr>usageCount := u\<rparr>" using ag(1,2) by (auto simp: aged_def)
  have s1: "sm bp1 = sm bp" "length (frames bp1) = length (frames bp)" using ag(1) by (simp_all add: aged_def)
  have fr: "\<not> dirty (frames bp1 ! f)" "pinCount (frames bp1 ! f) = 0" "length (data (frames bp1 ! f)) = 4096"
    using u cl ag(2,3) dirty_pagesI [OF ag(2)] pool_invD(5) [OF inv(1) ag(2)] by (auto simp: frame_ok_def)
  have "\<exists>bp2. acquireFrame env bp = Some (Inr f, bp2) \<and> sm bp2 = sm bp \<and> data (frames bp2 ! f) = data (frames bp1 ! f)"
  proof (cases "pageId (frames bp1 ! f) = freePageId")
    case True
    then show ?thesis using ev s1 ag(2) by (simp add: acquireFrame_def n nth_set_frame Let_def)
  next
    case False
    then show ?thesis using ev s1 ag(2) fr by (simp add: acquireFrame_def n nth_set_frame Let_def)
  qed
  then obtain bp2 where bp2: "acquireFrame env bp = Some (Inr f, bp2)" "sm bp2 = sm bp" "data (frames bp2 ! f) = data (frames bp1 ! f)" by blast
  have "ReadPage (sm bp2) pid (data (frames bp2 ! f)) = Some (None, page_at (sm bp) pid, sm bp)"
    using ReadPage_good [OF pool_invD(4) [OF inv(1)] inv(3) fr(3) io] bp2(2,3) by simp
  then show ?thesis using None bp2 io by (simp add: Get_def loadAndInstall_def Let_def)
qed

section \<open>Opening a file\<close>

text \<open>A pool that has only been read from, over the file \<open>s\<close>, with no I/O error to come.\<close>

definition loading :: "env \<Rightarrow> handle multiset \<Rightarrow> PageId set \<Rightarrow> StorageManager \<Rightarrow> BufferPool \<Rightarrow> bool" where
  "loading env H L s bp \<longleftrightarrow> pool_ok env H L bp \<and> dirty_pages bp = {} \<and> script (sm bp) = [] \<and>
     (\<forall>q. in_file s q \<longrightarrow> in_file (sm bp) q \<and> page_at (sm bp) q = page_at s q) \<and>
     onDisk (sm bp) = onDisk s \<and> length (content s) \<le> length (content (sm bp))"

lemma loading_quiet:
  assumes "loading env H L s bp" "pool_ok env H' L bp'" "quiet {} bp bp'" "script (sm bp') = []"
  shows "loading env H' L s bp'"
proof -
  have "dirty_pages bp' = {}" using assms(1,3) by (auto simp: loading_def quiet_def)
  moreover have "in_file (sm bp') q \<and> page_at (sm bp') q = page_at s q" if "in_file s q" for q
    using quiet_page [OF assms(3), of q] assms(1) that by (simp add: loading_def)
  moreover have "onDisk (sm bp') = onDisk s" "length (content s) \<le> length (content (sm bp'))" using assms(1,3) by (simp_all add: loading_def quiet_def)
  ultimately show ?thesis using assms(2,4) by (simp add: loading_def)
qed

lemma loading_Get:
  assumes l: "loading env H L s bp" and pid: "pid \<in> L" and ff: "finds_frame env bp"
  obtains f bp' where "Get env bp pid = Some (Inr f, bp')" "loading env (add_mset (f, pid, False) H) L s bp'"
proof -
  have po: "pool_ok env H L bp" "script (sm bp) = []" "dirty_pages bp = {}" using l by (simp_all add: loading_def)
  obtain f bp' where g: "Get env bp pid = Some (Inr f, bp')" "script (sm bp') = []" using Get_good [OF po(1) pid po(2,3) ff] by blast
  have "pool_ok env (add_mset (f, pid, False) H) L bp'" "kept L {} bp bp'" using pool_Get [OF po(1) pid] g(1) by (auto simp: pool_result_def)
  then show thesis using that [OF g(1)] loading_quiet [OF l _ _ g(2)] by (simp add: kept_def)
qed

lemma loading_Unpin:
  assumes l: "loading env (add_mset (f, pid, wr) H) L s bp"
  obtains bp' where "Unpin bp f = Some bp'" "loading env H L s bp'"
proof -
  have po: "pool_ok env (add_mset (f, pid, wr) H) L bp" "script (sm bp) = []" using l by (simp_all add: loading_def)
  obtain bp' where u: "Unpin bp f = Some bp'" "pool_ok env H L bp'" "kept L {} bp bp'" using po(1) by (rule pool_Unpin)
  have "sm bp' = sm bp" using u(1) by (auto simp: Unpin_def split: if_splits)
  then show thesis using that [OF u(1)] loading_quiet [OF l u(2)] u(3) po(2) by (simp add: kept_def)
qed

lemma loading_data:
  assumes l: "loading env H L s bp" and h: "(f, pid, wr) \<in># H" "pid \<in> L" "in_file s pid"
  shows "data (frames bp ! f) = page_at s pid"
  using handle_view(1) [OF _ h(1)] clean_view [OF _ h(2)] l h(3) by (auto simp: loading_def)

lemma second_frame:
  assumes "2 \<le> n" "n < 2 ^ 32" "Get env (NewBufferPool s n) pid = Some (Inr f, bp)" "0 < fuel env"
  shows "finds_frame env bp"
proof -
  obtain k where k: "fuel env = Suc k" using assms(4) by (cases "fuel env") auto
  have n0: "n \<noteq> 0" "unat (of_nat n :: u32) = n" using assms(1,2) by (simp_all add: unat_of_nat)
  have "clockHand (NewBufferPool s n) = 0" by (simp add: NewBufferPool_def)
  then have "evictFrame env (NewBufferPool s n) = Some (Inr 0, set_frame 0 (\<lambda>p. p\<lparr>evicting := True\<rparr>) ((NewBufferPool s n)\<lparr>clockHand := 1\<rparr>))"
    using n0 by (simp add: evictFrame_def k newFrame_def Let_def)
  then have ac: "acquireFrame env (NewBufferPool s n) = Some (Inr 0, set_frame 0 (\<lambda>p. p\<lparr>evicting := True\<rparr>) ((NewBufferPool s n)\<lparr>clockHand := 1\<rparr>))"
    using n0 by (simp add: acquireFrame_def k nth_set_frame newFrame_def Let_def)
  have bp: "clockHand bp = 1" "length (frames bp) = n" "frames bp ! 1 = newFrame"
    using assms(1,3) ac unfolding Get_def loadAndInstall_def by (auto simp: Let_def nth_set_frame table_set_def split: bind_splits option.splits)
  have "unat ((1 :: u32) mod of_nat n) = 1 mod n" using n0(2) by (simp only: unat_mod unat_1)
  then have "unat ((1 :: u32) mod of_nat n) = 1" using assms(1) by simp
  then have "\<exists>bp'. evictFrame env bp = Some (Inr 1, bp')" using bp n0 by (auto simp: evictFrame_def k newFrame_def Let_def)
  then show ?thesis by (auto simp: finds_frame_def)
qed

lemma loading_finds: "loading env {#} L s bp \<Longrightarrow> finds_frame env bp"
  unfolding loading_def using finds_unpinned by blast

lemma fresh_loading:
  assumes "sm_ok s" "script s = []" "0 < n" "n < 2 ^ 32" "enough_fuel env n" "\<forall>q \<in> L. in_file s q"
  shows "loading env {#} L s (NewBufferPool s n)"
  using fresh_pool [OF assms(1,3,4)] assms(2,5,6) unfolding loading_def pool_ok_def by auto

lemma loadMeta_rule:
  assumes d: "bufferPool d = NewBufferPool s n" and s: "sm_ok s" "script s = []" and n: "2 \<le> n" "n < 2 ^ 32" "enough_fuel env n"
    and L: "0 \<in> L" "1 \<in> L" "\<forall>q \<in> L. in_file s q" and nw: "newest_header s m pid"
  shows "\<exists>bp. loadMeta env d = Some (Inr (m, pid), d\<lparr>bufferPool := bp\<rparr>) \<and> loading env {#} L s bp"
proof -
  have fu: "0 < fuel env" using n(3) by (simp add: enough_fuel_def)
  have l0: "loading env {#} L s (NewBufferPool s n)" using fresh_loading s n L(3) by simp
  have ff: "finds_frame env (NewBufferPool s n)" using loading_finds [OF l0] .
  obtain f0 bp1 where g0: "Get env (NewBufferPool s n) 0 = Some (Inr f0, bp1)" "loading env {#(f0, 0, False)#} L s bp1" using loading_Get [OF l0 L(1) ff] by auto
  obtain f1 bp2 where g1: "Get env bp1 1 = Some (Inr f1, bp2)" "loading env {#(f1, 1, False), (f0, 0, False)#} L s bp2"
    using loading_Get [OF g0(2) L(2) second_frame [OF n(1,2) g0(1) fu]] by auto
  have dt: "data (frames bp2 ! f0) = page_at s 0" "data (frames bp2 ! f1) = page_at s 1"
    using loading_data [OF g1(2), of f0 0 False] loading_data [OF g1(2), of f1 1 False] L by simp_all
  obtain bp3 where u1: "Unpin bp2 f1 = Some bp3" "loading env {#(f0, 0, False)#} L s bp3" using g1(2) by (rule loading_Unpin)
  obtain bp4 where u0: "Unpin bp3 f0 = Some bp4" "loading env {#} L s bp4" using u1(2) by (rule loading_Unpin)
  obtain r0 r1 where r: "decodeMeta (page_at s 0) = Some r0" "decodeMeta (page_at s 1) = Some r1" "chooseMeta r0 r1 = Inr (m, pid)" using nw by (auto simp: newest_header_def)
  have "loadMeta env d = Some (Inr (m, pid), d\<lparr>bufferPool := bp4\<rparr>)"
    using d g0(1) g1(1) dt r u1(1) u0(1)
    by (simp add: loadMeta_def load_page_def in_pool_def decode_loaded_def unpin_loaded_def unpin_def page_data_def metaPage0_def metaPage1_def)
  then show ?thesis using u0(2) by blast
qed

lemma readFreelistChain_loop_rule:
  "loading env {#} L s (bufferPool d) \<Longrightarrow> fl_chain (page_at s) ps ids \<Longrightarrow> set ps \<subseteq> L \<Longrightarrow> \<forall>q \<in> L. in_file s q \<Longrightarrow> length ps < n \<Longrightarrow>
   \<exists>bp. readFreelistChain_loop n env (chain_head ps) acc d = Some (Inr (acc @ ids), d\<lparr>bufferPool := bp\<rparr>) \<and> loading env {#} L s bp"
proof (induction ps arbitrary: n acc ids d)
  case Nil
  then obtain k where "n = Suc k" by (cases n) auto
  then show ?case using Nil by (auto intro!: exI [of _ "bufferPool d"])
next
  case (Cons p ps)
  obtain k where n: "n = Suc k" "length ps < k" using Cons.prems(5) by (cases n) auto
  obtain xs ys where ch: "p \<noteq> 0" "ids = xs @ ys" "decodeFreelistPage (page_at s p) = Some (Inr (xs, chain_head ps))" "fl_chain (page_at s) ps ys" using Cons.prems(2) by auto
  have pL: "p \<in> L" "set ps \<subseteq> L" using Cons.prems(3) by auto
  have "finds_frame env (bufferPool d)" using loading_finds [OF Cons.prems(1)] .
  then obtain f bp1 where g: "Get env (bufferPool d) p = Some (Inr f, bp1)" "loading env {#(f, p, False)#} L s bp1" using loading_Get [OF Cons.prems(1) pL(1)] by auto
  have dt: "data (frames bp1 ! f) = page_at s p" using loading_data [OF g(2), of f p False] pL(1) Cons.prems(4) by simp
  obtain bp2 where u: "Unpin bp1 f = Some bp2" "loading env {#} L s bp2" using g(2) by (rule loading_Unpin)
  let ?d = "d\<lparr>bufferPool := bp2\<rparr>"
  have "readFreelistChain_loop n env (chain_head (p # ps)) acc d = readFreelistChain_loop k env (chain_head ps) (acc @ xs) ?d"
    using ch(1,3) g(1) dt u(1) unfolding n(1) by (simp add: try_ok_def try_or_def in_pool_def page_data_def unpin_def)
  moreover have "loading env {#} L s (bufferPool ?d)" using u(2) by simp
  from Cons.IH [OF this ch(4) pL(2) Cons.prems(4) n(2), of "acc @ xs"]
  obtain bp where "readFreelistChain_loop k env (chain_head ps) (acc @ xs) ?d = Some (Inr ((acc @ xs) @ ys), d\<lparr>bufferPool := bp\<rparr>)" "loading env {#} L s bp" by auto
  ultimately show ?case using ch(2) by auto
qed

text \<open>What the file of a database between transactions holds; the rest of the handle can be rebuilt from it.\<close>

definition file_db :: "nat \<Rightarrow> nat \<Rightarrow> schema \<Rightarrow> database \<Rightarrow> Meta \<Rightarrow> PageId \<Rightarrow> StorageManager \<Rightarrow> bool" where
  "file_db n h S D m pid s \<longleftrightarrow> sm_ok s \<and> header_ok m \<and> unat (numPages m) + n < 2 ^ 46 \<and> newest_header s m pid \<and>
     (\<exists>P Pc ps ids cat. stored_db S (page_at s) m h P Pc ps ids cat D \<and> (\<forall>q \<in> live_pages P Pc ps \<union> set ids. in_file s q))"

lemma file_db_weaken:
  assumes "file_db n h S D m pid s" "h \<le> h'" "n' \<le> n"
  shows "file_db n' h' S D m pid s"
proof -
  obtain P Pc ps ids cat where st: "stored_db S (page_at s) m h P Pc ps ids cat D" "\<forall>q \<in> live_pages P Pc ps \<union> set ids. in_file s q" using assms(1) unfolding file_db_def by blast
  have "stored_db S (page_at s) m h' P Pc ps ids cat D" using stored_db_higher [OF st(1) assms(2)] .
  then show ?thesis using assms(1,3) st(2) unfolding file_db_def by (auto intro!: exI)
qed

text \<open>Whatever a power failure leaves of a database between transactions, it is the same database.\<close>

lemma crash_file:
  assumes st: "stored_db S (page_at s) m h P Pc ps ids cat D" and nw: "newest_header s m cur" and hd: "header_ok m" "unat (numPages m) + n < 2 ^ 46"
    and du: "durable (live_pages P Pc ps \<union> set ids) (live_pages P Pc ps) s"
    and f: "sm_ok (opened f)" "length (onDisk s) \<le> length f" "\<And>q. q \<in> live_pages P Pc ps - {nextMetaPage cur} \<Longrightarrow> page_at (opened f) q = page_at s q"
    and np: "decodeMeta (page_at (opened f) (nextMetaPage cur)) = decodeMeta (page_at s (nextMetaPage cur)) \<or> (\<exists>e. decodeMeta (page_at (opened f) (nextMetaPage cur)) = Some (Inl e))"
  shows "file_db n h S D m cur (opened f)"
proof -
  let ?L = "live_pages P Pc ps" and ?np = "nextMetaPage cur"
  note cur = newest_page [OF nw] and nx = next_page [OF conjunct1 [OF newest_page [OF nw]]]
  have "page_at (opened f) cur = page_at s cur" using f(3) [of cur] cur nx by (auto simp: live_pages_def)
  then have "newest_header (opened f) m cur"
    using np nw cur nx by (auto simp: newest_header_def chooseMeta_def metaPage0_def metaPage1_def nextMetaPage_def)
  moreover have "stored_db S (page_at (opened f)) m h P Pc ps ids cat D" using st by (rule stored_db_cong) (use f(3) nx in auto)
  moreover have "\<forall>q \<in> ?L \<union> set ids. in_file (opened f) q" using du in_file_mono [of "opened (onDisk s)" "opened f"] f(2) by (simp add: durable_def)
  ultimately show ?thesis using f(1) hd unfolding file_db_def by blast
qed

lemma ready_crash:
  assumes rd: "db_ready env n h S D d" and cr: "after_crash (sm (bufferPool d)) f"
  shows "file_db n h S D (currentMeta d) (currentMetaPage d) (opened f)"
proof -
  let ?s = "sm (bufferPool d)"
  obtain P Pc ps cat where po: "pool_ok env {#} (live_pages P Pc ps) (bufferPool d)" and
    du: "durable (live_pages P Pc ps \<union> set (allIds (freelist d))) (live_pages P Pc ps) ?s"
    and st: "stored_db S (page_at ?s) (currentMeta d) h P Pc ps (allIds (freelist d)) cat D"
    using rd unfolding db_ready_def by blast
  let ?L = "live_pages P Pc ps"
  have g: "newest_header ?s (currentMeta d) (currentMetaPage d)" "header_ok (currentMeta d)" "unat (numPages (currentMeta d)) + n < 2 ^ 46" using rd by (simp_all add: db_ready_def)
  have inf: "\<forall>q \<in> ?L. in_file ?s q" using po by (simp add: pool_ok_def)
  then have "secure (start_image ?L d) (length (onDisk ?s)) ?s"
    using du unfolding secure_def has_pages_content by (auto simp: start_image_def has_pages_def durable_def split: if_splits)
  note c = secure_crash [OF this cr]
  have pg: "page_at (opened f) q = page_at ?s q" if "q \<in> ?L" for q using has_pagesD [OF c(1), of q] that by (simp add: start_image_def)
  have "nextMetaPage (currentMetaPage d) \<in> ?L" using next_page [OF conjunct1 [OF newest_page [OF g(1)]]] by (auto simp: live_pages_def)
  then show ?thesis using pg c(2,3) by (intro crash_file [OF st g du]) simp_all
qed

lemma after_crash_self: "sm_ok s \<Longrightarrow> length (onDisk s) \<le> length (content s) \<Longrightarrow> after_crash s (content s)"
  by (simp add: after_crash_def sm_ok_def)

lemma ready_unbroken:
  assumes "db_ready env n h S D d"
  shows "after_crash (sm (bufferPool d)) (content (sm (bufferPool d)))"
proof -
  obtain P Pc ps where "pool_ok env {#} (live_pages P Pc ps) (bufferPool d)" "durable (live_pages P Pc ps \<union> set (allIds (freelist d))) (live_pages P Pc ps) (sm (bufferPool d))"
    using assms unfolding db_ready_def by blast
  then show ?thesis by (intro after_crash_self) (auto simp: pool_ok_def durable_def dest: pool_invD(4))
qed

lemma Open_rule:
  assumes fd: "file_db n h S D m pid (opened f)" and sz: "sz = (if bufferSize = 0 then defaultBufferSize else bufferSize)" "2 \<le> sz" "sz < 2 ^ 32" "enough_fuel env sz"
    and fu: "2 ^ 46 \<le> fuel env"
  shows "\<exists>d. Open env f [] bufferSize = Some (Inr d) \<and> db_ready env n h S D d \<and> currentMeta d = m \<and> currentMetaPage d = pid"
proof -
  let ?s = "opened f"
  obtain P Pc ps ids cat where st: "stored_db S (page_at ?s) m h P Pc ps ids cat D" and inf: "\<forall>q \<in> live_pages P Pc ps \<union> set ids. in_file ?s q" using fd unfolding file_db_def by blast
  have g: "sm_ok ?s" "header_ok m" "unat (numPages m) + n < 2 ^ 46" "newest_header ?s m pid" using fd by (simp_all add: file_db_def)
  let ?L = "live_pages P Pc ps"
  have inL: "\<forall>q \<in> ?L. in_file ?s q" using inf by blast
  have L01: "0 \<in> ?L" "1 \<in> ?L" by (simp_all add: live_pages_def)
  have "in_file ?s 0" using inf L01 by blast
  then have ne: "f \<noteq> []" by (auto simp: in_file_def)
  have "int (length f) mod 4096 = 0" using g(1) by (auto simp: sm_ok_def elim!: dvdE)
  then have ns: "NewStorageManager f [] = Inr (?s, False)" using ne by (simp add: NewStorageManager_def Let_def opened_def)
  let ?new = "new_db ?s sz"
  have "bufferPool ?new = NewBufferPool ?s sz" by (simp add: new_db_def)
  from loadMeta_rule [OF this g(1) _ sz(2-4) L01 inL g(4)]
  obtain bp1 where lm: "loadMeta env ?new = Some (Inr (m, pid), ?new\<lparr>bufferPool := bp1\<rparr>)" "loading env {#} ?L ?s bp1" by auto
  have fs: "fl_chain (page_at ?s) ps ids" "freelistRoot m = chain_head ps" "distinct ps" "\<forall>p \<in> set ps. p < numPages m" "set ps \<subseteq> ?L"
    using st unfolding stored_db_def by (auto simp: live_pages_def)
  let ?hd = "?new\<lparr>bufferPool := bp1, currentMeta := m, currentMetaPage := pid\<rparr>"
  have "\<exists>bp. open_db env False ?new = Some (Inr (), ?hd\<lparr>bufferPool := bp, freelist := load newFreelist ids\<rparr>) \<and> loading env {#} ?L ?s bp"
  proof (cases "ps = []")
    case True
    then have "ids = []" "freelistRoot m = 0" using fs by simp_all
    moreover have "load newFreelist [] = newFreelist" by (simp add: load_def newFreelist_def)
    ultimately show ?thesis using lm by (auto simp: open_db_def try_or_def new_db_def Let_def)
  next
    case False
    then have "chain_head ps \<noteq> 0" using fs(1) by (cases ps) auto
    moreover have "length ps < fuel env" using distinct_below [OF fs(3,4)] g(3) fu by linarith
    then obtain bp where "readFreelistChain_loop (fuel env) env (chain_head ps) [] ?hd = Some (Inr ([] @ ids), ?hd\<lparr>bufferPool := bp\<rparr>)" "loading env {#} ?L ?s bp"
      using readFreelistChain_loop_rule [of env ?L ?s ?hd ps ids "fuel env" "[]"] lm(2) fs(1,5) inL by auto
    ultimately show ?thesis using lm(1) fs(2) by (auto simp: open_db_def try_or_def readFreelistChain_def new_db_def Let_def)
  qed
  then obtain bp where op: "open_db env False ?new = Some (Inr (), ?hd\<lparr>bufferPool := bp, freelist := load newFreelist ids\<rparr>)" "loading env {#} ?L ?s bp" by blast
  let ?res = "?hd\<lparr>bufferPool := bp, freelist := load newFreelist ids\<rparr>"
  have l: "pool_ok env {#} ?L bp" "dirty_pages bp = {}" "\<And>q. in_file ?s q \<Longrightarrow> in_file (sm bp) q \<and> page_at (sm bp) q = page_at ?s q" "onDisk (sm bp) = f" "length f \<le> length (content (sm bp))"
    using op(2) unfolding loading_def by auto
  have al: "allIds (load newFreelist ids) = ids" by (simp add: allIds_def load_def comp_def)
  have "stored_db S (page_at (sm bp)) m h P Pc ps ids cat D" using st by (rule stored_db_cong) (use l(3) inf in auto)
  moreover have "newest_header (sm bp) m pid" using g(4) l(3) inf L01 unfolding newest_header_def by auto
  moreover have "\<forall>q \<in> set ids. in_file (sm bp) q" using inf l(3) by blast
  moreover have "durable (?L \<union> set ids) ?L (sm bp)" using inf l(3-5) by (simp add: durable_def)
  ultimately have "db_ready env n h S D ?res" using l(1,2) g(2,3) al unfolding db_ready_def by (auto simp: new_db_def)
  moreover have "Open env f [] bufferSize = Some (Inr ?res)" using ns op(1) sz(1) by (simp add: Open_def Let_def)
  ultimately show ?thesis by auto
qed

section \<open>A transaction\<close>

text \<open>The way a client uses the API: after an error of a request the transaction is aborted, otherwise it is committed.\<close>

definition transaction :: "env \<Rightarrow> ((bytes \<times> Bucket) list \<Rightarrow> (bytes \<times> Bucket) list) \<Rightarrow> request list \<Rightarrow> DB \<Rightarrow> (answer list, world) outcome" where
  "transaction env order rs d = do {
     (t, d) \<leftarrow> BeginWrite d;
     try_or (run (perform env) rs \<lparr>db = d, txn = t\<rparr>) Abort (\<lambda>xs w. try_ok (Commit env order w) (\<lambda>_ w. Some (Inr xs, w)))
   }"

text \<open>Opening the file gives the database \<open>D\<close>, when no read fails and the buffer pool is of a reasonable size.\<close>

definition recovers :: "env \<Rightarrow> nat \<Rightarrow> nat \<Rightarrow> schema \<Rightarrow> database \<Rightarrow> bytes \<Rightarrow> bool" where
  "recovers env n h S D f \<longleftrightarrow>
     (\<forall>bufferSize. 2 \<le> (if bufferSize = 0 then defaultBufferSize else bufferSize) \<longrightarrow> (if bufferSize = 0 then defaultBufferSize else bufferSize) < 2 ^ 32 \<longrightarrow>
        enough_fuel env (if bufferSize = 0 then defaultBufferSize else bufferSize) \<longrightarrow>
        (\<exists>d. Open env f [] bufferSize = Some (Inr d) \<and> db_ready env n h S D d))"

lemma file_recovers:
  assumes "file_db n h S D m pid (opened f)" "2 ^ 46 \<le> fuel env"
  shows "recovers env n h S D f"
  unfolding recovers_def using Open_rule [OF assms(1) refl _ _ _ assms(2)] by blast

text \<open>The header page that a transaction on \<open>d\<close> may write: if it decodes, then to the header \<open>m\<close> that the transaction was
  writing or to what it held before. Since a header fills 56 bytes at the start of a page and has a checksum, this excludes
  no more than a torn write that the checksum does not detect.\<close>

definition header_sound :: "DB \<Rightarrow> Meta \<Rightarrow> bytes \<Rightarrow> bool" where
  "header_sound d m f \<longleftrightarrow>
     (\<forall>m'. decodeMeta (page_at (opened f) (nextMetaPage (currentMetaPage d))) = Some (Inr m') \<longrightarrow>
        m' = sealed m \<or> decodeMeta (page_at (sm (bufferPool d)) (nextMetaPage (currentMetaPage d))) = Some (Inr m'))"

lemma decodeMeta_total: "decodeMeta buf \<noteq> None"
  by (auto simp: decodeMeta_def Uint64_in_def Uint32_in_def goslice_def Uint64_def Uint32_def Let_def metaSize_def metaChkStart_def split: bind_splits if_splits)

lemma Abort_rule:
  assumes "db_failed env A H w" "locked A" "has_pages (last_commit A) (saved A)"
  shows "\<exists>w'. Abort w = Some w' \<and> ended (kept_safe A) w'"
proof -
  have "writable (txn w)" "\<not> closed (txn w)" using assms(1) by (auto simp: db_failed_def failed_def txn_ok_def read_ok_def lists_ok_def)
  then have "Abort w = abortInternal w" by (simp add: Abort_def abortInternal_def Let_def)
  then show ?thesis using abortInternal_rule [OF db_failed_abortable [OF assms]] by simp
qed

text \<open>Where a transaction starts from, as its proof needs it.\<close>

definition started :: "nat \<Rightarrow> nat \<Rightarrow> schema \<Rightarrow> database \<Rightarrow> DB \<Rightarrow> anchor \<Rightarrow> bool" where
  "started n h S D d A \<longleftrightarrow> (\<exists>P Pc ps cat. last_commit A = start_image (live_pages P Pc ps) d \<and>
     head_meta A = currentMeta d \<and> head_page A = currentMetaPage d \<and> saved A = onDisk (sm (bufferPool d)) \<and>
     newest_header (sm (bufferPool d)) (currentMeta d) (currentMetaPage d) \<and> header_ok (currentMeta d) \<and> unat (numPages (currentMeta d)) + n < 2 ^ 46 \<and>
     durable (live_pages P Pc ps \<union> set (allIds (freelist d))) (live_pages P Pc ps) (sm (bufferPool d)) \<and>
     stored_db S (page_at (sm (bufferPool d))) (currentMeta d) h P Pc ps (allIds (freelist d)) cat D)"

lemma kept_safe_file:
  assumes "started n h S D d A" "kept_safe A s m" "after_crash s f"
  shows "file_db n h S D (currentMeta d) (currentMetaPage d) (opened f)"
proof -
  obtain P Pc ps cat where A: "last_commit A = start_image (live_pages P Pc ps) d" "saved A = onDisk (sm (bufferPool d))"
    and g: "newest_header (sm (bufferPool d)) (currentMeta d) (currentMetaPage d)" "header_ok (currentMeta d)" "unat (numPages (currentMeta d)) + n < 2 ^ 46"
    and du: "durable (live_pages P Pc ps \<union> set (allIds (freelist d))) (live_pages P Pc ps) (sm (bufferPool d))"
    and st: "stored_db S (page_at (sm (bufferPool d))) (currentMeta d) h P Pc ps (allIds (freelist d)) cat D" using assms(1) unfolding started_def by blast
  note c = secure_crash [OF assms(2,3)]
  have pg: "page_at (opened f) q = page_at (sm (bufferPool d)) q" if "q \<in> live_pages P Pc ps" for q using has_pagesD [OF c(1), of q] that by (simp add: A(1) start_image_def)
  have "nextMetaPage (currentMetaPage d) \<in> live_pages P Pc ps" using next_page [OF conjunct1 [OF newest_page [OF g(1)]]] by (auto simp: live_pages_def)
  then show ?thesis using pg c(2,3) A(2) by (intro crash_file [OF st g du]) simp_all
qed

lemma torn_commit_file:
  assumes sa: "started n h S D d A" and to: "torn_commit A n' h' S D' s m" and cr: "after_crash s f" and hs: "header_sound d m f"
  shows "file_db n h S D (currentMeta d) (currentMetaPage d) (opened f) \<or> file_db n' h' S D' (sealed m) (nextMetaPage (currentMetaPage d)) (opened f)"
proof -
  let ?cur = "currentMetaPage d" and ?np = "nextMetaPage (currentMetaPage d)" and ?s = "sm (bufferPool d)"
  obtain P Pc ps cat where A: "last_commit A = start_image (live_pages P Pc ps) d" "saved A = onDisk ?s" "head_page A = ?cur" "head_meta A = currentMeta d"
    and g: "newest_header ?s (currentMeta d) ?cur" "header_ok (currentMeta d)" "unat (numPages (currentMeta d)) + n < 2 ^ 46"
    and du: "durable (live_pages P Pc ps \<union> set (allIds (freelist d))) (live_pages P Pc ps) ?s"
    and st: "stored_db S (page_at ?s) (currentMeta d) h P Pc ps (allIds (freelist d)) cat D" using sa unfolding started_def by blast
  obtain C N P' Pc' ps' ids' cat' where t: "secure C N s" "length (onDisk ?s) \<le> N" "\<And>q. q \<noteq> ?np \<Longrightarrow> q \<in> dom (last_commit A) \<Longrightarrow> C q = last_commit A q"
    "\<And>q. q \<noteq> ?np \<Longrightarrow> q \<in> live_pages P' Pc' ps' \<Longrightarrow> q \<in> dom C" "\<forall>pid \<in> set ids'. unat pid * 4096 + 4096 \<le> N"
    and st': "stored_db S (the \<circ> C) m h' P' Pc' ps' ids' cat' D'" and m: "header_ok m" "txnID m = txnID (currentMeta d) + 1" "unat (numPages m) + n' < 2 ^ 46"
    using to unfolding torn_commit_def A(2-4) by blast
  note c = secure_crash [OF t(1) cr]
  note cur = newest_page [OF g(1)] and nx = next_page [OF conjunct1 [OF newest_page [OF g(1)]]]
  have ln: "length (onDisk ?s) \<le> length f" using c(2) t(2) by simp
  have pg: "page_at (opened f) q = page_at ?s q" if "q \<in> live_pages P Pc ps - {?np}" for q
    using has_pagesD [OF c(1), of q] t(3) [of q] that by (simp add: A(1) start_image_def domIff)
  have old: "file_db n h S D (currentMeta d) ?cur (opened f)"
    if "decodeMeta (page_at (opened f) ?np) = decodeMeta (page_at ?s ?np) \<or> (\<exists>e. decodeMeta (page_at (opened f) ?np) = Some (Inl e))"
    using that by (intro crash_file [OF st g du c(3) ln pg])
  have new: "file_db n' h' S D' (sealed m) ?np (opened f)" if np: "decodeMeta (page_at (opened f) ?np) = Some (Inr (sealed m))"
  proof -
    have L: "in_file (opened f) q \<and> page_at (opened f) q = (the \<circ> C) q" if "q \<in> live_pages P' Pc' ps'" "q \<noteq> ?np" for q
      using t(4) [OF that(2,1)] has_pagesD [OF c(1), of q] by auto
    have "?np \<in> live_pages P Pc ps" using nx by (auto simp: live_pages_def)
    then have npf: "in_file (opened f) ?np" using du in_file_mono [of "opened (onDisk ?s)" "opened f" ?np] ln by (simp add: durable_def)
    have "page_at (opened f) ?cur = page_at ?s ?cur" using pg [of ?cur] cur nx by (auto simp: live_pages_def)
    then have "newest_header (opened f) (sealed m) ?np" using np cur m(2) by (intro newest_after [OF refl _ refl, where m = "currentMeta d"]) simp_all
    moreover have "stored_db S (page_at (opened f)) (sealed m) h' P' Pc' ps' ids' cat' D'" using st' by (rule stored_db_cong) (use L nx in auto)
    moreover have "\<forall>q \<in> live_pages P' Pc' ps' \<union> set ids'. in_file (opened f) q" using L npf t(5) c(2) by (auto simp: in_file_def)
    moreover have "header_ok (sealed m)" "unat (numPages (sealed m)) + n' < 2 ^ 46" using m by simp_all
    ultimately show ?thesis using c(3) unfolding file_db_def by blast
  qed
  show ?thesis
  proof (cases "decodeMeta (page_at (opened f) ?np)")
    case None
    then show ?thesis using decodeMeta_total by blast
  next
    case (Some r)
    then show ?thesis using old new hs unfolding header_sound_def by (cases r) auto
  qed
qed

text \<open>What a failed transaction leaves: whatever a power failure makes of its file, it is the database before the
  transaction or the one after it.\<close>

definition all_or_nothing :: "env \<Rightarrow> nat \<Rightarrow> nat \<Rightarrow> schema \<Rightarrow> database \<Rightarrow> (database \<Rightarrow> bool) \<Rightarrow> DB \<Rightarrow> StorageManager \<Rightarrow> Meta \<Rightarrow> bool" where
  "all_or_nothing env n h S D Q d s m \<longleftrightarrow> (\<forall>f. after_crash s f \<and> header_sound d m f \<longrightarrow>
     recovers env n h S D f \<or> (\<exists>D'. Q D' \<and> recovers env n h S D' f))"

lemma commit_failed_safe:
  assumes sa: "started n0 h S D d A" and le: "n \<le> n0" "h \<le> M" "h' \<le> M" and fu: "2 ^ 46 \<le> fuel env" and f: "commit_failed A n h' S D' s m" and Q: "Q D'"
  shows "all_or_nothing env n M S D Q d s m"
  unfolding all_or_nothing_def
proof (intro allI impI)
  fix f assume cr: "after_crash s f \<and> header_sound d m f"
  have "file_db n0 h S D (currentMeta d) (currentMetaPage d) (opened f) \<or> file_db n h' S D' (sealed m) (nextMetaPage (currentMetaPage d)) (opened f)"
    using assms(6) kept_safe_file [OF sa] torn_commit_file [OF sa] cr by blast
  then have "file_db n M S D (currentMeta d) (currentMetaPage d) (opened f) \<or> file_db n M S D' (sealed m) (nextMetaPage (currentMetaPage d)) (opened f)"
    using file_db_weaken le by blast
  then show "recovers env n M S D f \<or> (\<exists>D'. Q D' \<and> recovers env n M S D' f)" using file_recovers [OF _ fu] Q by blast
qed

lemma transaction_rule:
  assumes rd: "db_ready env (n + 2 ^ 38 + M * (2 + 2 * M) + length rs * (18 + 2 * M)) h S D d" and M: "h + 2 * length rs \<le> M" "M \<le> fuel env" and fu: "2 ^ 46 \<le> fuel env"
    and env: "env_ok env" and S: "bucket_names S = {k. length k = c}" "c \<le> 498" and ord: "\<And>bs. mset (order bs) = mset bs"
    and adm: "\<forall>r \<in> set rs. admissible S {nm. D nm \<noteq> Some Map.empty} r"
  shows "result_ok (transaction env order rs d)
    (\<lambda>w'. closed (txn w') \<and> \<not> writerMu (db w') \<and> all_or_nothing env n M S D (\<lambda>D'. \<exists>xs. spec_run answer_of rs D = Some (xs, D')) d (sm (pool w')) (meta (txn w')))
    (\<lambda>xs w'. closed (txn w') \<and> (\<exists>D'. spec_run answer_of rs D = Some (xs, D') \<and> db_ready env n M S D' (db w')))"
proof -
  let ?n = "n + 2 ^ 38 + M * (2 + 2 * M)"
  obtain t d' A P Pc ps cat where b: "BeginWrite d = Some (t, d')" "db_at env A (?n + length rs * (18 + 2 * M)) {#} h S P ({0, 1} \<union> Pc \<union> set ps) cat D \<lparr>db = d', txn = t\<rparr>"
    "base_ok S A cat Pc ps" "droppable A = {nm. D nm \<noteq> Some Map.empty}" "buckets t = []" and sa: "started (?n + length rs * (18 + 2 * M)) h S D d A"
  proof (rule BeginWrite_rule [OF rd])
    fix t d' A P Pc ps cat
    assume a: "BeginWrite d = Some (t, d')" "db_at env A (?n + length rs * (18 + 2 * M)) {#} h S P ({0, 1} \<union> Pc \<union> set ps) cat D \<lparr>db = d', txn = t\<rparr>"
      "base_ok S A cat Pc ps" "droppable A = {nm. D nm \<noteq> Some Map.empty}" "buckets t = []" "last_commit A = start_image (live_pages P Pc ps) d"
      "head_meta A = currentMeta d" "head_page A = currentMetaPage d" "saved A = onDisk (sm (bufferPool d))"
      "durable (live_pages P Pc ps \<union> set (allIds (freelist d))) (live_pages P Pc ps) (sm (bufferPool d))"
      "stored_db S (page_at (sm (bufferPool d))) (currentMeta d) h P Pc ps (allIds (freelist d)) cat D"
    have "started (?n + length rs * (18 + 2 * M)) h S D d A" using a(6-11) rd unfolding started_def db_ready_def by blast
    then show thesis using that a(1-5) by blast
  qed
  let ?B = "{0, 1} \<union> Pc \<union> set ps" and ?Q = "\<lambda>D'. \<exists>xs. spec_run answer_of rs D = Some (xs, D')"
  let ?E = "\<lambda>w'. closed (txn w') \<and> \<not> writerMu (db w') \<and> all_or_nothing env n M S D ?Q d (sm (pool w')) (meta (txn w'))"
  have lk: "locked A" "has_pages (last_commit A) (saved A)" using b(3) by (simp_all add: base_ok_def)
  have nh: "n \<le> ?n + length rs * (18 + 2 * M)" "h \<le> M" using M(1) by simp_all
  have ended: "?E w'" if "ended (kept_safe A) w'" for w'
  proof -
    have "all_or_nothing env n M S D ?Q d (sm (pool w')) (meta (txn w'))" unfolding all_or_nothing_def
      using that kept_safe_file [OF sa] file_recovers [OF file_db_weaken [OF _ nh(2,1)] fu] unfolding ended_def by blast
    then show ?thesis using that by (simp add: ended_def)
  qed
  have hd: "has_db env A {#} S ?B cat M ?n (length rs + 0) D \<lparr>db = d', txn = t\<rparr>" using b(2,5) M unfolding has_db_def by auto
  have ad: "\<forall>r \<in> set rs. admissible S (droppable A) r" using adm b(4) by simp
  have "result_ok (try_or (run (perform env) rs \<lparr>db = d', txn = t\<rparr>) Abort (\<lambda>xs w. try_ok (Commit env order w) (\<lambda>_ w. Some (Inr xs, w)))) ?E
    (\<lambda>xs w'. closed (txn w') \<and> (\<exists>D'. spec_run answer_of rs D = Some (xs, D') \<and> db_ready env n M S D' (db w')))"
  proof (rule try_or_rule [OF txn_store.run_refines [OF hd ad]])
    show "\<exists>s'. Abort s = Some s' \<and> ?E s'" if "db_failed env A {#} s" for s using Abort_rule [OF that lk] ended by blast
  next
    fix xs w1 assume "\<exists>D'. spec_run answer_of rs D = Some (xs, D') \<and> has_db env A {#} S ?B cat M ?n 0 D' w1"
    then obtain D' h' P' where sp: "spec_run answer_of rs D = Some (xs, D')" and h': "h' + length (buckets (txn w1)) \<le> M" and d1: "db_at env A ?n {#} h' S P' ?B cat D' w1"
      unfolding has_db_def by auto
    let ?l = "length (buckets (txn w1))"
    have "?l * (2 + 2 * M) \<le> M * (2 + 2 * M)" using h' by (intro mult_le_mono1) simp
    then have d2: "db_at env A (n + 2 ^ 38 + ?l * (2 + 2 * M)) {#} h' S P' ?B cat D' w1" by (intro db_at_less [OF d1]) simp
    show "result_ok (try_ok (Commit env order w1) (\<lambda>_ w. Some (Inr xs, w))) ?E
      (\<lambda>xs w'. closed (txn w') \<and> (\<exists>D'. spec_run answer_of rs D = Some (xs, D') \<and> db_ready env n M S D' (db w')))"
    proof (rule try_ok_rule [OF Commit_rule [where order = order, OF d2 b(3) h' M(2) fu env S ord]])
      fix x and w2 :: world assume "closed (txn w2) \<and> db_ready env n (h' + ?l) S D' (db w2)"
      then have "closed (txn w2)" "db_ready env n M S D' (db w2)" using db_ready_higher [OF _ h'] by blast+
      then show "result_ok (Some (Inr xs, w2)) ?E (\<lambda>xs w'. closed (txn w') \<and> (\<exists>D'. spec_run answer_of rs D = Some (xs, D') \<and> db_ready env n M S D' (db w')))"
        using sp by (auto simp: result_ok_def)
    next
      fix w2 :: world assume e: "ended (commit_failed A n (h' + ?l) S D') w2"
      then have "all_or_nothing env n M S D ?Q d (sm (pool w2)) (meta (txn w2))"
        using sp by (intro commit_failed_safe [OF sa nh h' fu]) (auto simp: ended_def)
      then show "?E w2" using e by (simp add: ended_def)
    qed
  qed
  then show ?thesis by (simp add: transaction_def b(1))
qed

section \<open>Closing\<close>

lemma FlushAll_rule:
  assumes po: "pool_ok env {#} L bp" and env: "env_ok env"
  shows "\<exists>err bp'. FlushAll env bp = Some (err, bp') \<and> pool_ok env {#} L bp' \<and> (\<forall>q. in_file (sm bp') q = in_file (sm bp) q) \<and>
    length (content (sm bp')) = length (content (sm bp)) \<and> onDisk (sm bp') = onDisk (sm bp) \<and>
    (\<forall>q. q \<notin> dirty_pages bp \<longrightarrow> page_at (sm bp') q = page_at (sm bp) q) \<and> (err = None \<longrightarrow> dirty_pages bp' = {} \<and> (\<forall>q \<in> L. page_at (sm bp') q = view bp q))"
proof -
  let ?ds = "filter (\<lambda>f. \<not> (evicting (frames bp ! f) \<or> \<not> dirty (frames bp ! f))) [0..<length (frames bp)]"
  let ?pids = "map (\<lambda>f. pageId (frames bp ! f)) ?ds"
  have inv: "pool_inv bp {}" "enough_fuel env (length (frames bp))" "holds {#} bp" "\<forall>q \<in> L. in_file (sm bp) q" using po by (simp_all add: pool_ok_def)
  obtain S where S: "clean_ok bp S" "S \<inter> L = {}" using po by (auto simp: pool_ok_def)
  have ds: "set ?ds = {f. f < length (frames bp) \<and> dirty (frames bp ! f)}" using pool_invD(6) [OF inv(1)] by auto
  have dp: "set ?pids = dirty_pages bp" unfolding set_map ds dirty_pages_def by auto
  have "distinct ?ds" "\<forall>f \<in> set ?ds. f < length (frames bp) \<and> dirty (frames bp ! f)" by auto
  from flushDirty_ok [OF inv(1) S(1) env inv(2) this]
  obtain err bp' where f: "FlushAll env bp = Some (err, bp')" "flushed S bp bp' (set ?ds) err" unfolding FlushAll_def by blast
  have "set ?ds = {f. f < length (frames bp) \<and> dirty (frames bp ! f) \<and> pageId (frames bp ! f) \<in> set ?pids}" unfolding ds dp by (auto simp: dirty_pages_def)
  from flushed_flush_ok [OF inv(1) S(1) f(2) this] have fo: "pool_inv bp' {}" "clean_ok bp' S" "length (content (sm bp')) = length (content (sm bp))" "same_pins bp bp'"
    "dirty_pages bp' \<subseteq> dirty_pages bp" "\<And>q. q \<notin> dirty_pages bp \<Longrightarrow> page_at (sm bp') q = page_at (sm bp) q"
    "err = None \<Longrightarrow> (\<forall>q \<in> dirty_pages bp - S. page_at (sm bp') q = view bp q) \<and> dirty_pages bp' \<inter> dirty_pages bp = {}" "onDisk (sm bp') = onDisk (sm bp)" unfolding flush_ok_def dp by simp_all
  have inf: "in_file (sm bp') q = in_file (sm bp) q" for q using fo(3) by (rule in_file_cong)
  have len: "length (frames bp') = length (frames bp)" using fo(4) by (simp add: same_pins_def)
  have "pool_ok env {#} L bp'" using fo(1,2) S(2) inv(2,4) inf len holds_none [OF inv(3) fo(4)] unfolding pool_ok_def by auto
  moreover have "page_at (sm bp') q = view bp q" if "err = None" "q \<in> L" for q
    using that fo(6,7) S(2) clean_view [OF po that(2)] by (cases "q \<in> dirty_pages bp") auto
  moreover have "dirty_pages bp' = {}" if "err = None" using fo(5,7) that by blast
  ultimately show ?thesis using f(1) inf fo(3,6,8) by auto
qed

lemma close_fields: "content (snd (CloseStorage s)) = content s" "fileSize (snd (CloseStorage s)) = fileSize s" "onDisk (snd (CloseStorage s)) = onDisk s"
  by (auto simp: CloseStorage_def next_io_def split: list.splits io.splits)

lemma ClosePool_rule:
  assumes "pool_ok env {#} L bp" "env_ok env"
  shows "\<exists>errs bp'. ClosePool env bp = Some (errs, bp') \<and>
    (\<forall>C N. secure C N (sm bp) \<longrightarrow> dirty_pages bp \<inter> dom C = {} \<longrightarrow> secure C N (sm bp'))"
proof -
  obtain err bp1 where f: "FlushAll env bp = Some (err, bp1)" "\<forall>q. in_file (sm bp1) q = in_file (sm bp) q"
    "length (content (sm bp1)) = length (content (sm bp))" "onDisk (sm bp1) = onDisk (sm bp)"
    "\<forall>q. q \<notin> dirty_pages bp \<longrightarrow> page_at (sm bp1) q = page_at (sm bp) q" using FlushAll_rule [OF assms] by blast
  let ?s = "snd (CloseStorage (snd (Sync (sm bp1))))"
  have "secure C N ?s" if a: "secure C N (sm bp)" "dirty_pages bp \<inter> dom C = {}" for C N
  proof -
    have "has_pages C (content (sm bp1))" using secure_page [OF a(1)] a(2) f(2,5) unfolding has_pages_content by (metis disjoint_iff domI)
    then have "secure C N (sm bp1)" using a(1) f(3,4) by (simp add: secure_def)
    then show ?thesis by (simp add: secure_def close_fields Sync_fields)
  qed
  moreover have "\<exists>errs. ClosePool env bp = Some (errs, bp1\<lparr>sm := ?s\<rparr>)" using f(1) by (simp add: ClosePool_def Let_def split_beta)
  ultimately show ?thesis by force
qed

lemma CloseDB_rule:
  assumes rd: "db_ready env n h S D d" and env: "env_ok env"
  shows "\<exists>errs d'. CloseDB env d = Some (errs, d') \<and>
    (\<forall>f. after_crash (sm (bufferPool d')) f \<longrightarrow> file_db n h S D (currentMeta d) (currentMetaPage d) (opened f))"
proof -
  let ?s = "sm (bufferPool d)"
  obtain P Pc ps cat where po: "pool_ok env {#} (live_pages P Pc ps) (bufferPool d)" "dirty_pages (bufferPool d) \<inter> live_pages P Pc ps = {}" and
    du: "durable (live_pages P Pc ps \<union> set (allIds (freelist d))) (live_pages P Pc ps) ?s"
    and st: "stored_db S (page_at ?s) (currentMeta d) h P Pc ps (allIds (freelist d)) cat D"
    using rd unfolding db_ready_def by blast
  let ?L = "live_pages P Pc ps"
  have g: "newest_header ?s (currentMeta d) (currentMetaPage d)" "header_ok (currentMeta d)" "unat (numPages (currentMeta d)) + n < 2 ^ 46" using rd by (simp_all add: db_ready_def)
  obtain errs bp where c: "ClosePool env (bufferPool d) = Some (errs, bp)"
    "\<forall>C N. secure C N ?s \<longrightarrow> dirty_pages (bufferPool d) \<inter> dom C = {} \<longrightarrow> secure C N (sm bp)" using ClosePool_rule [OF po(1) env] by blast
  have "\<forall>q \<in> ?L. in_file ?s q" using po(1) by (simp add: pool_ok_def)
  then have "secure (start_image ?L d) (length (onDisk ?s)) ?s"
    using du unfolding secure_def has_pages_content by (auto simp: start_image_def has_pages_def durable_def split: if_splits)
  moreover have "dirty_pages (bufferPool d) \<inter> dom (start_image ?L d) = {}" using po(2) by (auto simp: start_image_def split: if_splits)
  ultimately have sec: "secure (start_image ?L d) (length (onDisk ?s)) (sm bp)" using c(2) by blast
  have "file_db n h S D (currentMeta d) (currentMetaPage d) (opened f)" if cr: "after_crash (sm bp) f" for f
  proof -
    note cc = secure_crash [OF sec cr]
    have pg: "page_at (opened f) q = page_at ?s q" if "q \<in> ?L" for q using has_pagesD [OF cc(1), of q] that by (simp add: start_image_def)
    have "nextMetaPage (currentMetaPage d) \<in> ?L" using next_page [OF conjunct1 [OF newest_page [OF g(1)]]] by (auto simp: live_pages_def)
    then show ?thesis using pg cc(2,3) by (intro crash_file [OF st g du]) simp_all
  qed
  then show ?thesis using c(1) by (auto simp: CloseDB_def)
qed

section \<open>A new file\<close>

abbreviation not_shrunk :: "BufferPool \<Rightarrow> bool" where
  "not_shrunk bp \<equiv> length (onDisk (sm bp)) \<le> length (content (sm bp))"

lemma init_meta_page_rule:
  assumes po: "pool_ok env {#} L (bufferPool d)" and pid: "pid \<notin> L" "unat pid < 2 ^ 46" and m: "header_ok m"
    and ln: "not_shrunk (bufferPool d)"
  shows "result_ok (init_meta_page env m pid d) (\<lambda>d'. \<exists>bp. d' = d\<lparr>bufferPool := bp\<rparr> \<and> pool_ok env {#} L bp)
    (\<lambda>m' d'. m' = sealed m \<and> (\<exists>bp. d' = d\<lparr>bufferPool := bp\<rparr> \<and> pool_ok env {#} (insert pid L) bp \<and> decodeMeta (view bp pid) = Some (Inr m') \<and>
      (\<forall>q \<in> L. view bp q = view (bufferPool d) q) \<and> not_shrunk bp))"
proof -
  let ?bp = "bufferPool d"
  from pool_AllocatePage [OF po pid] consider
    (err) e bp' where "AllocatePage env ?bp pid = Some (Inl e, bp')" "pool_ok env {#} L bp'"
    | (got) f bp' where "AllocatePage env ?bp pid = Some (Inr f, bp')" "pool_ok env {#(f, pid, True)#} (insert pid L) bp'" "kept L {pid} ?bp bp'"
    unfolding pool_result_def by blast
  then show ?thesis
  proof cases
    case err
    then show ?thesis by (auto simp: init_meta_page_def try_ok_def try_or_def in_pool_def result_ok_def)
  next
    case (got f bp1)
    have "length (data (frames bp1 ! f)) = 4096" using handle_view(1,3) [OF got(2), of f pid True] by simp
    then obtain buf where buf: "encodeMeta m (data (frames bp1 ! f)) = Some (Inr (sealed m, buf))" "length buf = 4096" "decodeMeta buf = Some (Inr (sealed m))"
      using encode_sealed m by blast
    note sd = pool_set_data [OF got(2) _ buf(2), of f pid, simplified]
    obtain bp2 where bp2: "Unpin (set_data f buf bp1) f = Some bp2" "pool_ok env {#} (insert pid L) bp2" "kept (insert pid L) {} (set_data f buf bp1) bp2" using pool_Unpin [OF sd(1)] by metis
    have "view bp2 pid = buf" using bp2(3) sd(2) by (simp add: kept_def)
    moreover have "view bp2 q = view ?bp q" if "q \<in> L" for q using bp2(3) sd(4) [of q] got(3) that pid(1) by (auto simp: kept_def)
    moreover have "init_meta_page env m pid d = Some (Inr (sealed m), d\<lparr>bufferPool := bp2\<rparr>)"
      using got(1) buf(1) bp2(1) by (simp add: init_meta_page_def try_ok_def try_or_def in_pool_def page_data_def put_data_def unpin_def)
    moreover have "not_shrunk bp2" using ln got(3) sd(3) bp2(3) by (simp add: kept_def quiet_def)
    ultimately show ?thesis using buf(3) bp2(2) by (auto simp: result_ok_def)
  qed
qed

lemma sealed_twice [simp]: "sealed (sealed m) = sealed m"
  by (simp add: sealed_def meta_body_def)

lemma base_header: "header_ok baseMeta" "catalogRoot baseMeta = 0" "freelistRoot baseMeta = 0" "numPages baseMeta = 2" "txnID baseMeta = 0"
  by (simp_all add: baseMeta_def header_ok_def)

lemma try_ok_assoc: "try_ok (try_ok m k) k' = try_ok m (\<lambda>x s. try_ok (k x s) k')"
  by (cases m) (auto simp: try_ok_def try_or_def split: sum.splits)

lemma try_ok_val: "try_ok (Some (Inr x, s)) k = k x s"
  by (simp add: try_ok_def try_or_def)

abbreviation init_failed :: "env \<Rightarrow> DB \<Rightarrow> DB \<Rightarrow> bool" where
  "init_failed env d d' \<equiv> \<exists>bp L. d' = d\<lparr>bufferPool := bp\<rparr> \<and> pool_ok env {#} L bp"

lemma flush_sync_rule:
  assumes po: "pool_ok env {#} L (bufferPool d)" and env: "env_ok env" and ln: "not_shrunk (bufferPool d)"
  shows "result_ok (try_ok (in_pool (\<lambda>bp. err_result (FlushAll env bp)) d) (\<lambda>_ d.
      try_ok (in_pool (\<lambda>bp. err_result (Some (SyncPool bp))) d) (\<lambda>_ d. Some (Inr (), d)))) (init_failed env d)
    (\<lambda>_ d'. \<exists>bp. d' = d\<lparr>bufferPool := bp\<rparr> \<and> settled env Map.empty 0 L (view (bufferPool d)) bp \<and> onDisk (sm bp) = content (sm bp))"
proof -
  obtain err bp1 where f: "FlushAll env (bufferPool d) = Some (err, bp1)" "pool_ok env {#} L bp1"
    "err = None \<longrightarrow> dirty_pages bp1 = {} \<and> (\<forall>q \<in> L. page_at (sm bp1) q = view (bufferPool d) q)"
    "length (content (sm bp1)) = length (content (sm (bufferPool d)))" "onDisk (sm bp1) = onDisk (sm (bufferPool d))" using FlushAll_rule [OF po env] by blast
  show ?thesis
  proof (cases err)
    case (Some e)
    then show ?thesis using f(1,2) by (auto simp: try_ok_def try_or_def in_pool_def err_result_def result_ok_def)
  next
    case None
    then have st: "settled env Map.empty 0 L (view (bufferPool d)) bp1" using f(2-5) ln by (simp add: settled_def secure_def has_pages_def)
    obtain err' bp2 where sy: "SyncPool bp1 = (err', bp2)" by (cases "SyncPool bp1")
    have st2: "settled env Map.empty 0 L (view (bufferPool d)) bp2" using settled_sync [OF st sy] .
    then have "pool_ok env {#} L bp2" by (simp add: settled_def)
    moreover have "err' = None \<Longrightarrow> onDisk (sm bp2) = content (sm bp2)" using sy by (rule SyncPool_cases) simp
    ultimately show ?thesis using f(1) None sy st2 by (cases err') (auto simp: try_ok_def try_or_def in_pool_def err_result_def result_ok_def)
  qed
qed

lemma initMetas_rule:
  assumes po: "pool_ok env {#} {} (bufferPool d)" and env: "env_ok env" and ln: "not_shrunk (bufferPool d)"
  shows "result_ok (initMetas env d) (init_failed env d)
    (\<lambda>_ d'. \<exists>bp W. d' = d\<lparr>bufferPool := bp, currentMeta := sealed baseMeta, currentMetaPage := 0\<rparr> \<and> settled env Map.empty 0 {0, 1} W bp \<and> onDisk (sm bp) = content (sm bp) \<and>
      decodeMeta (W 0) = Some (Inr (sealed baseMeta)) \<and> decodeMeta (W 1) = Some (Inr (sealed baseMeta)))" (is "result_ok _ _ ?Q")
proof -
  let ?m = "sealed baseMeta"
  have eq: "initMetas env d = try_ok (init_meta_page env baseMeta 0 d) (\<lambda>base d. try_ok (init_meta_page env base 1 d) (\<lambda>base d.
      try_ok (try_ok (in_pool (\<lambda>bp. err_result (FlushAll env bp)) d) (\<lambda>_ d.
        try_ok (in_pool (\<lambda>bp. err_result (Some (SyncPool bp))) d) (\<lambda>_ d. Some (Inr (), d)))) (\<lambda>_ d. Some (Inr (), d\<lparr>currentMeta := base, currentMetaPage := 0\<rparr>))))"
    unfolding initMetas_def metaPage0_def metaPage1_def by (simp add: try_ok_assoc try_ok_val)
  show ?thesis unfolding eq
  proof (rule try_ok_rule [OF init_meta_page_rule [OF po _ _ base_header(1) ln]])
    fix m1 d1 assume "m1 = ?m \<and> (\<exists>bp. d1 = d\<lparr>bufferPool := bp\<rparr> \<and> pool_ok env {#} {0} bp \<and> decodeMeta (view bp 0) = Some (Inr m1) \<and> (\<forall>q \<in> {}. view bp q = view (bufferPool d) q) \<and> not_shrunk bp)"
    then obtain bp1 where d1: "m1 = ?m" "d1 = d\<lparr>bufferPool := bp1\<rparr>" "pool_ok env {#} {0} bp1" "decodeMeta (view bp1 0) = Some (Inr ?m)" "not_shrunk bp1" by blast
    have po1: "pool_ok env {#} {0} (bufferPool d1)" "not_shrunk (bufferPool d1)" using d1 by simp_all
    show "result_ok (try_ok (init_meta_page env m1 1 d1) (\<lambda>base d.
      try_ok (try_ok (in_pool (\<lambda>bp. err_result (FlushAll env bp)) d) (\<lambda>_ d.
        try_ok (in_pool (\<lambda>bp. err_result (Some (SyncPool bp))) d) (\<lambda>_ d. Some (Inr (), d)))) (\<lambda>_ d. Some (Inr (), d\<lparr>currentMeta := base, currentMetaPage := 0\<rparr>)))) (init_failed env d) ?Q"
    proof (rule try_ok_rule [OF init_meta_page_rule [OF po1(1) _ _ _ po1(2)]])
      show "header_ok m1" using d1(1) base_header(1) by simp
      show "init_failed env d s" if "\<exists>bp. s = d1\<lparr>bufferPool := bp\<rparr> \<and> pool_ok env {#} {0} bp" for s using that d1(2) by auto
    next
      fix m2 d2 assume "m2 = sealed m1 \<and> (\<exists>bp. d2 = d1\<lparr>bufferPool := bp\<rparr> \<and> pool_ok env {#} (insert 1 {0}) bp \<and> decodeMeta (view bp 1) = Some (Inr m2) \<and> (\<forall>q \<in> {0}. view bp q = view (bufferPool d1) q) \<and> not_shrunk bp)"
      then obtain bp2 where d2: "m2 = ?m" "d2 = d\<lparr>bufferPool := bp2\<rparr>" "pool_ok env {#} {0, 1} bp2" "decodeMeta (view bp2 1) = Some (Inr ?m)" "decodeMeta (view bp2 0) = Some (Inr ?m)" "not_shrunk bp2"
        using d1 by (auto simp: insert_commute)
      have po2: "pool_ok env {#} {0, 1} (bufferPool d2)" "not_shrunk (bufferPool d2)" using d2 by simp_all
      show "result_ok (try_ok (try_ok (in_pool (\<lambda>bp. err_result (FlushAll env bp)) d2) (\<lambda>_ d.
        try_ok (in_pool (\<lambda>bp. err_result (Some (SyncPool bp))) d) (\<lambda>_ d. Some (Inr (), d)))) (\<lambda>_ d. Some (Inr (), d\<lparr>currentMeta := m2, currentMetaPage := 0\<rparr>))) (init_failed env d) ?Q"
        by (rule try_ok_rule [OF flush_sync_rule [OF po2(1) env po2(2)]]) (use d2 in \<open>auto simp: result_ok_def\<close>)
    qed simp_all
  qed auto
qed

lemma Open_new_rule:
  assumes sz: "sz = (if bufferSize = 0 then defaultBufferSize else bufferSize)" "0 < sz" "sz < 2 ^ 32" "enough_fuel env sz" and env: "env_ok env" and n: "2 + n < 2 ^ 46"
  shows "\<exists>r. Open env [] sc bufferSize = Some r \<and> (\<forall>d. r = Inr d \<longrightarrow> db_ready env n 0 S Map.empty d)"
proof -
  let ?s = "\<lparr>content = [], onDisk = [], fileSize = 0, script = sc\<rparr>"
  let ?new = "new_db ?s sz"
  have "sm_ok ?s" by (simp add: sm_ok_def)
  then have po: "pool_ok env {#} {} (bufferPool ?new)" "not_shrunk (bufferPool ?new)" using fresh_pool [of ?s sz] sz(2-4) by (auto simp: pool_ok_def new_db_def)
  have "result_ok (open_db env True ?new) (\<lambda>_. True) (\<lambda>_ d. db_ready env n 0 S Map.empty d)"
    unfolding open_db_def if_P [OF TrueI]
  proof (rule try_or_rule [OF initMetas_rule [OF po(1) env po(2)]])
    show "\<exists>s'. close_failed env s = Some s' \<and> True" if a: "init_failed env ?new s" for s
    proof -
      obtain bp L where s: "s = ?new\<lparr>bufferPool := bp\<rparr>" "pool_ok env {#} L bp" using a by blast
      then show ?thesis using ClosePool_rule [OF s(2) env] by (auto simp: close_failed_def)
    qed
  next
    fix x d assume "\<exists>bp W. d = ?new\<lparr>bufferPool := bp, currentMeta := sealed baseMeta, currentMetaPage := 0\<rparr> \<and> settled env Map.empty 0 {0, 1} W bp \<and> onDisk (sm bp) = content (sm bp) \<and>
      decodeMeta (W 0) = Some (Inr (sealed baseMeta)) \<and> decodeMeta (W 1) = Some (Inr (sealed baseMeta))"
    then obtain bp W where d: "d = ?new\<lparr>bufferPool := bp, currentMeta := sealed baseMeta, currentMetaPage := 0\<rparr>" "settled env Map.empty 0 {0, 1} W bp"
      "decodeMeta (W 0) = Some (Inr (sealed baseMeta))" "decodeMeta (W 1) = Some (Inr (sealed baseMeta))" "onDisk (sm bp) = content (sm bp)" by blast
    have s: "pool_ok env {#} {0, 1} bp" "dirty_pages bp \<inter> {0, 1} = {}" "page_at (sm bp) 0 = W 0" "page_at (sm bp) 1 = W 1" using d(2) by (simp_all add: settled_def)
    have lv: "live_pages (\<lambda>_. {}) {} [] = {0, 1}" by (simp add: live_pages_def)
    have "stored_db S (page_at (sm bp)) (sealed baseMeta) 0 (\<lambda>_. {}) {} [] [] Map.empty Map.empty"
      unfolding stored_db_def lv by (simp add: bucket_at_def tree_in_def map_at_def NewBTree_def base_header)
    moreover have "newest_header (sm bp) (sealed baseMeta) 0" using s(3,4) d(3,4) by (simp add: newest_header_def chooseMeta_def isNewer_def metaPage0_def)
    moreover have "durable {0, 1} {0, 1} (sm bp)" using s(1) unfolding durable_synced [OF d(5)] by (simp add: pool_ok_def)
    moreover have "allIds (freelist d) = []" "\<not> writerMu d" using d(1) by (simp_all add: new_db_def newFreelist_def allIds_def)
    ultimately have "db_ready env n 0 S Map.empty d"
      using s(1,2) n base_header(1,4) lv unfolding db_ready_def d(1) by (intro conjI exI [of _ "\<lambda>_. {}"] exI [of _ "{}"] exI [of _ "[]"] exI [of _ Map.empty]) (auto simp: d(1))
    then show "result_ok (Some (Inr (), d)) (\<lambda>_. True) (\<lambda>_ d. db_ready env n 0 S Map.empty d)" by (simp add: result_ok_def)
  qed
  then have "\<exists>r d. open_db env True ?new = Some (r, d) \<and> (\<forall>u. r = Inr u \<longrightarrow> db_ready env n 0 S Map.empty d)" unfolding result_ok_def by blast
  moreover have "NewStorageManager [] sc = Inr (?s, True)" by (simp add: NewStorageManager_def)
  ultimately show ?thesis using sz(1) by (auto simp: Open_def Let_def split: sum.splits)
qed

end
