(* ===== verification/Samples.thy ===== *)
theory Samples
  imports Nodes
begin

text \<open>
  Small concrete pages, built with the model's own operations from a zeroed page, on which the
  hypotheses of the page-level properties are discharged.
\<close>

definition zero_page :: bytes where
  "zero_page = replicate 4096 0"

fun build_leaf :: "bytes \<Rightarrow> (bytes \<times> bytes) list \<Rightarrow> bytes option" where
  "build_leaf d [] = Some d"
| "build_leaf d ((k, v) # kvs) = do {
     d \<leftarrow> appendLeafCellWithOverflow d k v 0;
     build_leaf d kvs
   }"

fun build_internal :: "bytes \<Rightarrow> (PageId \<times> bytes) list \<Rightarrow> bytes option" where
  "build_internal d [] = Some d"
| "build_internal d ((ch, k) # cks) = do {
     d \<leftarrow> appendInternalCell d ch k;
     build_internal d cks
   }"

definition sample_leaf :: "(bytes \<times> bytes) list \<Rightarrow> bytes" where
  "sample_leaf kvs = the (do { d \<leftarrow> init_node nodeLeaf zero_page; build_leaf d kvs })"

definition sample_internal :: "PageId \<Rightarrow> (PageId \<times> bytes) list \<Rightarrow> bytes" where
  "sample_internal r cks =
     the (do {
       d \<leftarrow> init_node nodeInternal zero_page;
       d \<leftarrow> setRightmostChild d r;
       build_internal d cks
     })"

definition leaf_cells :: "(bytes \<times> bytes) list \<Rightarrow> bytes list" where
  "leaf_cells kvs = map (\<lambda>(k, v). leaf_cell k v 0) kvs"

lemma build_leaf_cells:
  "node_cells d nodeLeaf cs \<Longrightarrow> \<forall>(k, v) \<in> set kvs. length k + length v \<le> 1000 \<Longrightarrow>
     5 + cost (cs @ leaf_cells kvs) \<le> 4096 \<Longrightarrow>
     \<exists>d'. build_leaf d kvs = Some d' \<and> node_cells d' nodeLeaf (cs @ leaf_cells kvs)"
proof (induction kvs arbitrary: d cs)
  case Nil
  then show ?case by (simp add: leaf_cells_def)
next
  case (Cons kv kvs)
  obtain k v where kv: "kv = (k, v)" by (cases kv)
  obtain d1 where "appendLeafCellWithOverflow d k v 0 = Some d1" "node_cells d1 nodeLeaf (cs @ [leaf_cell k v 0])"
    using Cons.prems kv appendLeaf_cells [of d cs k 0 v]
    by (auto simp: leaf_cells_def maxKeySize_def maxInlineSize_def)
  then show ?case using Cons.IH [of d1 "cs @ [leaf_cell k v 0]"] Cons.prems kv
    by (simp add: leaf_cells_def)
qed

lemma build_internal_cells:
  "node_cells d nodeInternal cs \<Longrightarrow> \<forall>(ch, k) \<in> set cks. length k \<le> 1000 \<Longrightarrow>
     13 + cost (cs @ internal_cells cks) \<le> 4096 \<Longrightarrow>
     \<exists>d'. build_internal d cks = Some d' \<and> node_cells d' nodeInternal (cs @ internal_cells cks) \<and>
       rightmostChild d' = rightmostChild d"
proof (induction cks arbitrary: d cs)
  case Nil
  then show ?case by (simp add: internal_cells_def)
next
  case (Cons ck cks)
  obtain ch k where ck: "ck = (ch, k)" by (cases ck)
  obtain d1 where "appendInternalCell d ch k = Some d1" "node_cells d1 nodeInternal (cs @ [internal_cell ch k])"
    "rightmostChild d1 = rightmostChild d"
    using Cons.prems ck appendInternal_cells [of d cs k ch]
    by (auto simp: internal_cells_def maxKeySize_def)
  then show ?case using Cons.IH [of d1 "cs @ [internal_cell ch k]"] Cons.prems ck
    by (simp add: internal_cells_def)
qed

lemma sample_leaf_cells:
  assumes "\<forall>(k, v) \<in> set kvs. length k + length v \<le> 1000" "5 + cost (leaf_cells kvs) \<le> 4096"
  shows "node_cells (sample_leaf kvs) nodeLeaf (leaf_cells kvs)"
proof -
  obtain d where d: "init_node nodeLeaf zero_page = Some d" "node_cells d nodeLeaf []"
    using init_node_cells [of zero_page nodeLeaf] by (auto simp: zero_page_def)
  then show ?thesis using build_leaf_cells [of d "[]" kvs] assms by (auto simp: sample_leaf_def)
qed

lemma sample_internal_cells:
  assumes "\<forall>(ch, k) \<in> set cks. length k \<le> 1000" "13 + cost (internal_cells cks) \<le> 4096"
  shows "node_cells (sample_internal r cks) nodeInternal (internal_cells cks)"
    and "rightmostChild (sample_internal r cks) = Some r"
proof -
  obtain d where d: "init_node nodeInternal zero_page = Some d" "node_cells d nodeInternal []"
    using init_node_cells [of zero_page nodeInternal] by (auto simp: zero_page_def)
  obtain d1 where d1: "setRightmostChild d r = Some d1" "node_cells d1 nodeInternal []" "rightmostChild d1 = Some r"
    using setRightmost_cells [OF d(2), of r] by auto
  then show "node_cells (sample_internal r cks) nodeInternal (internal_cells cks)"
    "rightmostChild (sample_internal r cks) = Some r"
    using build_internal_cells [of d1 "[]" cks] d assms by (auto simp: sample_internal_def)
qed

end
