(* ===== verification/SampleWorld.thy ===== *)
theory SampleWorld
  imports Recovery Samples Tree
begin

text \<open>
  Small concrete databases on which the hypotheses of the pool, transaction and tree properties are
  discharged: a file made of given page images, an empty buffer pool over it, and a write
  transaction that has just begun.
\<close>

section \<open>Sample databases\<close>

definition full_pwritev :: pwritev where
  "full_pwritev s bufs off =
     (Inr (length (concat bufs)), s\<lparr>content := write_bytes (content s) (nat off) (concat bufs)\<rparr>)"

definition sample_env :: env where
  "sample_env = \<lparr>pwritev = full_pwritev, sched = map (\<lambda>run. (run, False)), fuel = 1000\<rparr>"

definition sample_sm :: "bytes list \<Rightarrow> StorageManager" where
  "sample_sm ps = opened (concat ps)"

lemma sample_sm_synced [simp]: "onDisk (sample_sm ps) = content (sample_sm ps)"
  by (simp add: sample_sm_def)

definition sample_db :: "bytes list \<Rightarrow> DB" where
  "sample_db ps = \<lparr>bufferPool = NewBufferPool (sample_sm ps) 8, currentMeta = baseMeta\<lparr>numPages := of_nat (length ps)\<rparr>,
     currentMetaPage = 0, writerMu = False, freelist = newFreelist, readers = []\<rparr>"

definition sample_world :: "bytes list \<Rightarrow> world" where
  "sample_world ps = (case the (BeginWrite (sample_db ps)) of (t, d) \<Rightarrow> \<lparr>db = d, txn = t\<rparr>)"

definition sample_live :: "bytes list \<Rightarrow> PageId set" where
  "sample_live ps = {pid. unat pid < length ps}"

definition sample_image :: "bytes list \<Rightarrow> PageId \<rightharpoonup> bytes" where
  "sample_image ps = (\<lambda>pid. if unat pid < length ps then Some (ps ! unat pid) else None)"

definition sample_disk :: "bytes list \<Rightarrow> backdrop" where
  "sample_disk ps = \<lparr>committed = sample_image ps, around = scenery (sample_world ps)\<rparr>"

definition sample_pages :: "bytes list \<Rightarrow> bool" where
  "sample_pages ps \<longleftrightarrow> ps \<noteq> [] \<and> length ps \<le> 1000 \<and> (\<forall>p \<in> set ps. length p = 4096)"

lemma full_pwritev_ok: "pwritev_ok full_pwritev" "page_granular full_pwritev"
proof -
  show "pwritev_ok full_pwritev" by (auto simp: pwritev_ok_def full_pwritev_def)
  have "0 < length (concat bufs) \<and> 4096 dvd length (concat bufs)"
    if "bufs \<noteq> []" "\<forall>b \<in> set bufs. length b = 4096" for bufs :: "bytes list"
    using that(1) unfolding length_concat_pages [OF that(2)] by simp
  then show "page_granular full_pwritev" unfolding page_granular_def full_pwritev_def by blast
qed

lemma sample_env_ok [simp]: "env_ok sample_env" "enough_fuel sample_env 8" "fuel sample_env = 1000"
  using full_pwritev_ok by (simp_all add: env_ok_def enough_fuel_def sample_env_def comp_def)

lemma sample_sm_ok:
  assumes "sample_pages ps"
  shows "sm_ok (sample_sm ps)" "in_file (sample_sm ps) pid \<longleftrightarrow> unat pid < length ps"
    "unat pid < length ps \<Longrightarrow> page_at (sample_sm ps) pid = ps ! unat pid"
proof -
  have p: "\<forall>b \<in> set ps. length b = 4096" "length ps \<le> 1000" using assms by (simp_all add: sample_pages_def)
  have len: "length (concat ps) = 4096 * length ps" using length_concat_pages [OF p(1)] .
  show "sm_ok (sample_sm ps)" using p(2) len by (simp add: sm_ok_def sample_sm_def)
  show "in_file (sample_sm ps) pid \<longleftrightarrow> unat pid < length ps" using len by (auto simp: in_file_def sample_sm_def)
  show "page_at (sample_sm ps) pid = ps ! unat pid" if "unat pid < length ps"
    using region_concat_pages [OF p(1) that] by (simp add: page_at_def sample_sm_def mult.commute)
qed

lemma sample_world_fields [simp]:
  "pool (sample_world ps) = NewBufferPool (sample_sm ps) 8" "closed (txn (sample_world ps)) = False"
  "writable (txn (sample_world ps)) = True" "freelist (db (sample_world ps)) = newFreelist"
  "allocated (txn (sample_world ps)) = []" "freed (txn (sample_world ps)) = []" "reusable (txn (sample_world ps)) = []"
  "numPages (meta (txn (sample_world ps))) = of_nat (length ps)" "initialPageCnt (txn (sample_world ps)) = of_nat (length ps)"
  "writerMu (db (sample_world ps)) = True"
  by (simp_all add: sample_world_def BeginWrite_def sample_db_def Let_def)

lemma sample_view: "sample_pages ps \<Longrightarrow> unat pid < length ps \<Longrightarrow> V (sample_world ps) pid = ps ! unat pid"
  by (simp add: fresh_pool(3) sample_sm_ok)

lemma sample_pool_ok:
  assumes "sample_pages ps"
  shows "pool_ok sample_env {#} (sample_live ps) (NewBufferPool (sample_sm ps) 8)"
  unfolding pool_ok_def
  using fresh_pool [of "sample_sm ps" 8] sample_sm_ok [OF assms] by (auto simp: sample_live_def)

lemma sample_read_ok: "sample_pages ps \<Longrightarrow> read_ok sample_env {#} (sample_live ps) (sample_world ps)"
  by (simp add: read_ok_def sample_pool_ok)

lemma sample_txn_many:
  assumes "sample_pages ps"
  shows "txn_ok sample_env (sample_disk ps) 1000000 {#} (sample_live ps) (sample_world ps)"
proof -
  have n: "length ps \<le> 1000" "0 < length ps" using assms by (auto simp: sample_pages_def)
  then have u: "unat (of_nat (length ps) :: u64) = length ps" by (simp add: unat_of_nat take_bit_nat_eq_self)
  have lt: "pid < of_nat (length ps) \<longleftrightarrow> unat pid < length ps" for pid :: PageId
    using u by (simp add: word_less_nat_alt)
  have "lists_ok 1000000 (sample_live ps) (sample_world ps)"
    using n u lt by (simp add: lists_ok_def free_lists_def allIds_def newFreelist_def sample_live_def)
  moreover have "disk_ok (sample_image ps) (sample_live ps) (sample_world ps)"
    using fresh_pool [of "sample_sm ps" 8] sample_sm_ok [OF assms] lt
    by (auto simp: disk_ok_def sample_image_def allIds_def newFreelist_def split: if_splits)
  ultimately show ?thesis using sample_read_ok [OF assms] by (simp add: txn_ok_def sample_disk_def fresh_ok_def)
qed

lemma sample_txn_ok: "sample_pages ps \<Longrightarrow> txn_ok sample_env (sample_disk ps) 1000 {#} (sample_live ps) (sample_world ps)"
  using txn_ok_less [OF sample_txn_many] by simp

section \<open>A sample tree\<close>

lemma sample_leaf_lnode:
  assumes "\<forall>(k, v) \<in> set es. length k + length v \<le> 1000" "5 + cost (leaf_cells es) \<le> 4096"
  shows "lnode (sample_leaf es) (map (\<lambda>(k, v). (k, Inline v)) es)"
proof -
  have "map lcell (map (\<lambda>(k, v). (k, Inline v)) es) = leaf_cells es" by (simp add: leaf_cells_def case_prod_beta)
  then show ?thesis using assms sample_leaf_cells [OF assms] by (auto simp: lnode_def maxKeySize_def maxInlineSize_def)
qed

lemma sample_internal_inode:
  assumes "\<forall>(ch, k) \<in> set cks. length k \<le> 1000" "13 + icost cks \<le> 4096"
  shows "inode (sample_internal r cks) cks r"
  using assms sample_internal_cells [of cks r] by (auto simp: inode_def maxKeySize_def)

definition sample_tree_pages :: "bytes list" where
  "sample_tree_pages = [zero_page, zero_page, sample_leaf [([1], [10]), ([2], [20])], sample_leaf [([5], [50]), ([7], [70])],
     sample_internal 3 [(2, [5])]]"

definition sample_tree :: tree where
  "sample_tree = Node 4 [(Leaf 2 [([1], [10], []), ([2], [20], [])], [5])] (Leaf 3 [([5], [50], []), ([7], [70], [])])"

lemma sample_tree_lnodes:
  "lnode (sample_leaf [([1], [10]), ([2], [20])]) [([1], Inline [10]), ([2], Inline [20])]"
  "lnode (sample_leaf [([5], [50]), ([7], [70])]) [([5], Inline [50]), ([7], Inline [70])]"
  "inode (sample_internal 3 [(2, [5])]) [(2, [5])] 3"
  using sample_leaf_lnode [of "[([1], [10]), ([2], [20])]"] sample_leaf_lnode [of "[([5], [50]), ([7], [70])]"]
    sample_internal_inode [of "[(2, [5])]" 3] by (simp_all add: leaf_cells_def length_leaf_cell)

lemma sample_tree_pages_ok [simp]: "sample_pages sample_tree_pages"
  using lnode_reads(3) [OF sample_tree_lnodes(1)] lnode_reads(3) [OF sample_tree_lnodes(2)] inode_reads(4) [OF sample_tree_lnodes(3)]
  by (simp add: sample_pages_def sample_tree_pages_def zero_page_def)

lemma sample_tree_ok:
  "tree_at (V (sample_world sample_tree_pages)) sample_tree" "set (tpages sample_tree) \<subseteq> sample_live sample_tree_pages"
  "ordered None sample_tree None" "height sample_tree = 1"
  "kvs sample_tree = [([1], [10]), ([2], [20]), ([5], [50]), ([7], [70])]"
proof -
  have v: "V (sample_world sample_tree_pages) 2 = sample_leaf [([1], [10]), ([2], [20])]"
    "V (sample_world sample_tree_pages) 3 = sample_leaf [([5], [50]), ([7], [70])]"
    "V (sample_world sample_tree_pages) 4 = sample_internal 3 [(2, [5])]"
    using sample_view [OF sample_tree_pages_ok, of 2] sample_view [OF sample_tree_pages_ok, of 3]
      sample_view [OF sample_tree_pages_ok, of 4] by (simp_all add: sample_tree_pages_def)
  show "tree_at (V (sample_world sample_tree_pages)) sample_tree"
    using v sample_tree_lnodes
    by (simp add: sample_tree_def item_entry_def entry_of_def child_refs_def item_ok_def maxKeySize_def maxInlineSize_def
        del: sample_world_fields)
  show "set (tpages sample_tree) \<subseteq> sample_live sample_tree_pages"
    by (simp add: sample_tree_def sample_live_def sample_tree_pages_def item_pages_def)
  show "ordered None sample_tree None" by (simp add: sample_tree_def above_def below_def strictly_above_def)
  show "height sample_tree = 1" "kvs sample_tree = [([1], [10]), ([2], [20]), ([5], [50]), ([7], [70])]"
    by (simp_all add: sample_tree_def item_kv_def)
qed

lemma sample_tree_map:
  "map_at (V (sample_world sample_tree_pages)) (set (tpages sample_tree)) 2 {k. length k = 1} (NewBTree 4)
     [[1] \<mapsto> [10], [2] \<mapsto> [20], [5] \<mapsto> [50], [7] \<mapsto> [70]]"
proof (rule map_at_treeI [OF sample_tree_ok(1)])
  show "distinct (tpages sample_tree)" "root (NewBTree 4) = tid sample_tree" by (simp_all add: sample_tree_def item_pages_def NewBTree_def)
  have "map_of (kvs sample_tree) = [[1] \<mapsto> [10], [2] \<mapsto> [20], [5] \<mapsto> [50], [7] \<mapsto> [70]]"
    unfolding sample_tree_ok(5) by (auto simp: fun_eq_iff)
  moreover have "set (seps sample_tree) \<union> dom [[1 :: byte] \<mapsto> [10 :: byte], [2] \<mapsto> [20], [5] \<mapsto> [50], [7] \<mapsto> [70]] \<subseteq> {k. length k = 1}"
    by (auto simp: sample_tree_def split: if_splits)
  moreover have "level (height sample_tree) sample_tree" by (simp add: sample_tree_def)
  ultimately show "tree_map 2 {k. length k = 1} sample_tree [[1] \<mapsto> [10], [2] \<mapsto> [20], [5] \<mapsto> [50], [7] \<mapsto> [70]]"
    using sample_tree_ok(3,4) by (simp add: tree_map_def)
qed

section \<open>Sample databases with buckets\<close>

text \<open>The names and the keys have one byte. The first database has no bucket. In the second one page 2 is a catalog
  that binds the bucket \<open>[1]\<close> to an empty tree.\<close>

definition sample_schema :: schema where
  "sample_schema = \<lparr>key_length = (\<lambda>_. 1), bucket_names = {k. length k = 1}\<rparr>"

lemma sample_no_buckets [simp]: "buckets (txn (sample_world ps)) = []" "catalogRoot (meta (txn (sample_world ps))) = 0"
  by (simp_all add: sample_world_def BeginWrite_def sample_db_def Let_def baseMeta_def)

definition sample_anchor :: "bytes list \<Rightarrow> world \<Rightarrow> anchor" where
  "sample_anchor ps w = \<lparr>last_commit = sample_image ps, setting = setting_of (scenery w), droppable = UNIV, base_height = 0\<rparr>"

lemma sample_anchor_simps [simp]:
  "last_commit (sample_anchor ps w) = sample_image ps" "setting (sample_anchor ps w) = setting_of (scenery w)" "droppable (sample_anchor ps w) = UNIV"
  "base_height (sample_anchor ps w) = 0"
  by (simp_all add: sample_anchor_def)

lemma sample_empty_db:
  "db_at sample_env (sample_anchor sample_tree_pages (sample_world sample_tree_pages)) 1000000 {#} 0 sample_schema (\<lambda>_. {}) (sample_live sample_tree_pages)
     Map.empty Map.empty (sample_world sample_tree_pages)"
  using sample_txn_many [OF sample_tree_pages_ok]
  by (simp add: db_at_def bucket_at_def tree_of_def bucket_of_def map_at_def NewBTree_def sample_disk_def)

definition sample_catalog_pages :: "bytes list" where
  "sample_catalog_pages = [zero_page, zero_page, sample_leaf [([1], le_bytes 8 (0 :: PageId))]]"

definition sample_catalog_world :: world where
  "sample_catalog_world = set_catalog 2 (sample_world sample_catalog_pages)"

lemma sample_catalog_lnode: "lnode (sample_leaf [([1], le_bytes 8 (0 :: PageId))]) [([1], Inline (le_bytes 8 (0 :: PageId)))]"
  using sample_leaf_lnode [of "[([1], le_bytes 8 (0 :: PageId))]"] by (simp add: leaf_cells_def length_leaf_cell)

lemma sample_catalog_pages_ok: "sample_pages sample_catalog_pages"
  using lnode_reads(3) [OF sample_catalog_lnode] by (simp add: sample_pages_def sample_catalog_pages_def zero_page_def)

lemma sample_catalog_db:
  "db_at sample_env (sample_anchor sample_catalog_pages sample_catalog_world) 1000000 {#} 1 sample_schema (\<lambda>_. {}) (sample_live sample_catalog_pages)
     [[1] \<mapsto> le_bytes 8 (0 :: PageId)] [[1] \<mapsto> Map.empty] sample_catalog_world"
proof -
  let ?w = sample_catalog_world and ?t = "Leaf 2 [([1], le_bytes 8 (0 :: PageId), [])]"
  have re: "reopened ?w = ?w" by (simp add: reopened_def sample_catalog_world_def set_catalog_def)
  have v: "V ?w 2 = sample_leaf [([1], le_bytes 8 (0 :: PageId))]"
    using sample_view [OF sample_catalog_pages_ok, of 2] by (simp add: sample_catalog_world_def set_catalog_def sample_catalog_pages_def)
  have "tree_at (V ?w) ?t" using sample_catalog_lnode
    by (simp add: v item_entry_def entry_of_def item_ok_def maxKeySize_def maxInlineSize_def)
  moreover have "tree_map 1 {k. length k = 1} ?t [[1] \<mapsto> le_bytes 8 (0 :: PageId)]" by (simp add: tree_map_def item_kv_def above_def below_def)
  ultimately have "map_at (V ?w) (set (tpages ?t)) 1 {k. length k = 1} (NewBTree 2) [[1] \<mapsto> le_bytes 8 (0 :: PageId)]"
    by (intro map_at_treeI) (simp_all add: NewBTree_def item_pages_def)
  moreover have "set (tpages ?t) \<subseteq> sample_live sample_catalog_pages" by (simp add: sample_live_def sample_catalog_pages_def item_pages_def)
  moreover have "catalogRoot (meta (txn ?w)) = 2" "buckets (txn ?w) = []" by (simp_all add: sample_catalog_world_def set_catalog_def)
  moreover have "txn_ok sample_env \<lparr>committed = sample_image sample_catalog_pages, around = scenery ?w\<rparr> 1000000 {#} (sample_live sample_catalog_pages) ?w"
    using set_catalog_ok [OF sample_txn_many [OF sample_catalog_pages_ok], of 2, folded sample_catalog_world_def] unfolding re by (simp add: sample_disk_def)
  ultimately show ?thesis unfolding db_at_def bucket_at_def tree_of_def bucket_of_def sample_schema_def
    by (auto simp: Uint64_def map_at_def NewBTree_def uniform_def)
qed

section \<open>A sample database between transactions\<close>

text \<open>A file of two header pages, as \<open>Open\<close> leaves it, and an environment with more fuel.\<close>

definition big_env :: env where
  "big_env = sample_env\<lparr>fuel := 2 ^ 47\<rparr>"

lemma big_env_ok [simp]: "env_ok big_env" "enough_fuel big_env 8" "fuel big_env = 2 ^ 47"
  using sample_env_ok(1) by (simp_all add: env_ok_def enough_fuel_def big_env_def)

definition sample_header :: bytes where
  "sample_header = patch zero_page 0 (meta_image baseMeta)"

definition sample_new_db :: DB where
  "sample_new_db = \<lparr>bufferPool = NewBufferPool (sample_sm [sample_header, sample_header]) 8, currentMeta = sealed baseMeta, currentMetaPage = 0,
     writerMu = False, freelist = newFreelist, readers = []\<rparr>"

lemma sample_header_ok: "sample_pages [sample_header, sample_header]" "decodeMeta sample_header = Some (Inr (sealed baseMeta))"
proof -
  have l: "length zero_page = 4096" by (simp add: zero_page_def)
  then show "sample_pages [sample_header, sample_header]" by (simp add: sample_pages_def sample_header_def)
  have "region sample_header 0 56 = meta_image baseMeta" using l unfolding sample_header_def by (intro region_patch_same) simp_all
  then show "decodeMeta sample_header = Some (Inr (sealed baseMeta))"
    using decodeMeta_image [of sample_header baseMeta] l base_header(1) by (simp add: sample_header_def sealed_def header_ok_def)
qed

lemma sample_ready:
  assumes "2 + n < 2 ^ 46"
  shows "db_ready big_env n 0 sample_schema Map.empty sample_new_db"
proof -
  let ?s = "sample_sm [sample_header, sample_header]"
  note sk = sample_sm_ok [OF sample_header_ok(1)]
  have lv: "live_pages (\<lambda>_. {}) {} [] = {0, 1}" by (simp add: live_pages_def)
  have pg: "page_at ?s 0 = sample_header" "page_at ?s 1 = sample_header" "in_file ?s 0" "in_file ?s 1" using sk(2,3) [of 0] sk(2,3) [of 1] by simp_all
  have "pool_ok big_env {#} {0, 1} (NewBufferPool ?s 8)" "dirty_pages (NewBufferPool ?s 8) = {}"
    using fresh_pool [OF sk(1), of 8] pg by (auto simp: pool_ok_def)
  moreover have "newest_header ?s (sealed baseMeta) 0" using pg sample_header_ok(2) by (simp add: newest_header_def chooseMeta_def isNewer_def metaPage0_def)
  moreover have "stored_db sample_schema (page_at ?s) (sealed baseMeta) 0 (\<lambda>_. {}) {} [] [] Map.empty Map.empty"
    unfolding stored_db_def lv by (simp add: bucket_at_def tree_in_def map_at_def NewBTree_def base_header)
  moreover have "durable {0, 1} {0, 1} ?s" using pg by (subst durable_synced) simp_all
  ultimately show ?thesis using assms base_header(1,4) lv unfolding db_ready_def
    by (intro conjI exI [of _ "\<lambda>_. {}"] exI [of _ "{}"] exI [of _ "[]"] exI [of _ Map.empty]) (auto simp: sample_new_db_def newFreelist_def allIds_def)
qed

section \<open>A buffer pool with a page to write\<close>

definition sample_dirty_pool :: BufferPool where
  "sample_dirty_pool = table_set 1 (Some 0) (set_frame 0
     (\<lambda>_. \<lparr>pageId = 1, data = replicate 4096 7, pinCount = 0, usageCount = 1, dirty = True, evicting = False\<rparr>)
     (NewBufferPool (sample_sm (replicate 3 zero_page)) 8))"

lemma zero_pages_ok: "sample_pages (replicate 3 zero_page)"
  by (simp add: sample_pages_def zero_page_def)

lemma sample_dirty_pool_ok:
  "pool_inv sample_dirty_pool {}" "clean_ok sample_dirty_pool {}" "length (frames sample_dirty_pool) = 8" "1 \<in> dirty_pages sample_dirty_pool"
  "view sample_dirty_pool 1 = replicate 4096 7" "sm sample_dirty_pool = sample_sm (replicate 3 zero_page)"
proof -
  let ?bp = "NewBufferPool (sample_sm (replicate 3 zero_page)) 8" and ?p = "\<lparr>pageId = 1, data = replicate 4096 7, pinCount = 0, usageCount = 1, dirty = True, evicting = False\<rparr>"
  note sk = sample_sm_ok [OF zero_pages_ok]
  have tg: "table_get sample_dirty_pool q = (if q = 1 then Some 0 else None)" for q
    unfolding sample_dirty_pool_def by (subst table_get_table_set) simp_all
  have fr: "frames sample_dirty_pool ! g = (if g = 0 then ?p else newFrame)" if "g < 8" for g
    using that by (simp add: sample_dirty_pool_def nth_set_frame)
  show len: "length (frames sample_dirty_pool) = 8" and sm: "sm sample_dirty_pool = sample_sm (replicate 3 zero_page)" by (simp_all add: sample_dirty_pool_def)
  have in1: "in_file (sample_sm (replicate 3 zero_page)) 1" using sk(2) [of 1] by simp
  have nf: "(1 :: PageId) \<noteq> freePageId" using in_file_not_free [OF sk(1) in1] .
  have new: "pageId newFrame = freePageId" "\<not> dirty newFrame" "\<not> evicting newFrame" "frame_ok newFrame" by (simp_all add: newFrame_def frame_ok_def)
  have "length (shards sample_dirty_pool) = 128" "frames sample_dirty_pool \<noteq> []" using len by (auto simp: sample_dirty_pool_def)
  moreover have "frame_ok ?p" using nf by (simp add: frame_ok_def)
  ultimately show "pool_inv sample_dirty_pool {}"
    unfolding pool_inv_def len sm tg using sk(1) in1 nf new by (auto simp: fr split: if_splits)
  show "clean_ok sample_dirty_pool {}" unfolding clean_ok_def len using new by (auto simp: fr)
  show "1 \<in> dirty_pages sample_dirty_pool" unfolding dirty_pages_def len by (auto simp: fr intro!: exI [of _ 0])
  show "view sample_dirty_pool 1 = replicate 4096 7" by (simp add: view_def tg fr)
qed

section \<open>A database with readers\<close>

definition sample_reader_db :: "(TxnID \<times> int) list \<Rightarrow> DB" where
  "sample_reader_db rs = (sample_db [])\<lparr>currentMeta := baseMeta\<lparr>txnID := 7\<rparr>, readers := rs\<rparr>"

end
