(* ===== verification/PageSpec.thy ===== *)
theory PageSpec
  imports SampleWorld Merge
begin

text \<open>
  The properties of the page layer: what every operation on a slotted page does to the list of cells
  the page holds, for leaf pages (\<^const>\<open>lnode\<close>) and internal pages (\<^const>\<open>inode\<close>); where a page is
  split and how the halves are filled; how pages are merged and parents rebuilt.
\<close>

section \<open>Cells\<close>

lemma sample_leaf_3: "lnode (sample_leaf [([1], [10]), ([3], [30]), ([5], [50])])
    [([1], Inline [10]), ([3], Inline [30]), ([5], Inline [50])]"
  using sample_leaf_lnode [of "[([1], [10]), ([3], [30]), ([5], [50])]"] by (simp add: leaf_cells_def length_leaf_cell)

lemma sample_leaf_0: "lnode (sample_leaf []) []"
  using sample_leaf_lnode [of "[]"] by (simp add: leaf_cells_def)

lemma sample_internal_0: "inode (sample_internal r []) [] r"
  using sample_internal_inode [of "[]" r] by simp

lemma sample_internal_2: "inode (sample_internal 9 [(7, [2]), (8, [4])]) [(7, [2]), (8, [4])] 9"
  using sample_internal_inode [of "[(7, [2]), (8, [4])]" 9] by simp

text \<open>C29: initialising a page, whatever it held before, gives an empty page of the requested type that
  satisfies the page invariant.\<close>

theorem init_node_wellformed:
  assumes "length d = 4096" "t = nodeLeaf \<or> t = nodeInternal"
  shows "\<exists>d'. init_node t d = Some d' \<and> node_cells d' t []"
  using assms by (rule init_node_cells)

theorem init_node_wellformed_witness:
  "\<exists>d'. init_node nodeLeaf (replicate 4096 0xFF) = Some d' \<and> node_cells d' nodeLeaf []"
  using init_node_wellformed [of "replicate 4096 0xFF" nodeLeaf] by simp

text \<open>C20: \<open>copyRange\<close> appends exactly the requested run of the source's cells to the destination,
  keeps the destination's own cells and its rightmost child, and does not panic, whenever the
  cells fit.\<close>

theorem copyRange_appends_cells:
  assumes "node_cells dst t cs" "node_cells src t ss" "unat a + unat n \<le> length ss"
    and "hdr t + cost cs + cost (take (unat n) (drop (unat a) ss)) \<le> 4096"
  shows "\<exists>dst'. copyRange dst src a n = Some dst' \<and>
    node_cells dst' t (cs @ take (unat n) (drop (unat a) ss)) \<and>
    (t = nodeInternal \<longrightarrow> rightmostChild dst' = rightmostChild dst)"
  using assms by (rule copyRange_cells)

theorem copyRange_appends_cells_witness:
  "\<exists>dst'. copyRange (sample_leaf [([1], [10])]) (sample_leaf [([2], [20]), ([3], [30]), ([4], [40])]) 1 2 = Some dst' \<and>
    node_cells dst' nodeLeaf (leaf_cells [([1], [10]), ([3], [30]), ([4], [40])])"
proof -
  have "node_cells (sample_leaf [([1], [10])]) nodeLeaf (leaf_cells [([1], [10])])"
    "node_cells (sample_leaf [([2], [20]), ([3], [30]), ([4], [40])]) nodeLeaf (leaf_cells [([2], [20]), ([3], [30]), ([4], [40])])"
    by (rule sample_leaf_cells; simp add: leaf_cells_def length_leaf_cell)+
  from copyRange_appends_cells [OF this, of 1 2] show ?thesis
    by (auto simp: leaf_cells_def length_leaf_cell hdr_def)
qed

text \<open>C21: inserting a cell into an internal page puts the child and its key at the given position and
  moves nothing else, whenever the cell fits.\<close>

theorem insertInternalCellAt_inserts:
  assumes "inode d cks r" "length k \<le> maxKeySize" "13 + icost cks + (12 + length k) \<le> 4096" "unat idx \<le> length cks"
  shows "\<exists>d'. insertInternalCellAt d idx ch k = Some d' \<and> inode d' (take (unat idx) cks @ (ch, k) # drop (unat idx) cks) r"
  using assms by (intro insertInternalCellAt_inode) auto

theorem insertInternalCellAt_inserts_witness:
  "\<exists>d'. insertInternalCellAt (sample_internal 9 [(7, [2]), (8, [4])]) 1 5 [3] = Some d' \<and>
    inode d' [(7, [2]), (5, [3]), (8, [4])] 9"
  using insertInternalCellAt_inserts [OF sample_internal_2, of "[3]" 1 5] by (simp add: maxKeySize_def)

text \<open>C22: copying a leaf without one of its cells keeps all the others in order.\<close>

theorem copyWithoutCell_removes:
  assumes "lnode dst []" "lnode src ss" "unat idx < length ss"
  shows "\<exists>d'. copyWithoutCell dst src idx = Some d' \<and> lnode d' (take (unat idx) ss @ drop (Suc (unat idx)) ss)"
  using copyWithoutCell_lnode [OF assms(1,2) refl assms(3)] .

theorem copyWithoutCell_removes_witness:
  "\<exists>d'. copyWithoutCell (sample_leaf []) (sample_leaf [([1], [10]), ([3], [30]), ([5], [50])]) 1 = Some d' \<and>
    lnode d' [([1], Inline [10]), ([5], Inline [50])]"
  using copyWithoutCell_removes [OF sample_leaf_0 sample_leaf_3, of 1] by simp

section \<open>Search\<close>

text \<open>C18: binary search in a leaf page with strictly increasing keys returns the number of smaller
  keys, and reports exactly whether the key is present.\<close>

theorem searchLeaf_finds_rank:
  assumes "node_cells d nodeLeaf cs" "sorted_wrt (<) (map (cell_key nodeLeaf) cs)"
  shows "searchLeaf d k =
    Some (of_nat (rank_lt (map (cell_key nodeLeaf) cs) k), k \<in> set (map (cell_key nodeLeaf) cs))"
  using assms by (rule searchLeaf_correct)

theorem searchLeaf_finds_rank_witness:
  "searchLeaf (sample_leaf [([1], [10]), ([3], [30])]) [3] = Some (1, True)"
proof -
  have "node_cells (sample_leaf [([1], [10]), ([3], [30])]) nodeLeaf (leaf_cells [([1], [10]), ([3], [30])])"
    by (rule sample_leaf_cells; simp add: leaf_cells_def length_leaf_cell)
  from searchLeaf_finds_rank [OF this, of "[3]"] show ?thesis
    by (simp add: leaf_cells_def leaf_cell_fields rank_lt_def)
qed

text \<open>C19: binary search in an internal page returns the number of separators that are not greater than
  the key, the index of the child whose range contains it.\<close>

theorem searchInternal_finds_child:
  assumes "inode d cks r" "sorted_wrt (<) (map snd cks)"
  shows "searchInternal d k = Some (of_nat (rank_le (map snd cks) k))"
  using assms by (rule searchInternal_inode)

theorem searchInternal_finds_child_witness:
  "searchInternal (sample_internal 9 [(7, [2]), (8, [4])]) [4] = Some 2 \<and>
   searchInternal (sample_internal 9 [(7, [2]), (8, [4])]) [3] = Some 1"
  using searchInternal_finds_child [OF sample_internal_2, of "[4]"] searchInternal_finds_child [OF sample_internal_2, of "[3]"]
  by (simp add: rank_le_def)

section \<open>Splits\<close>

text \<open>C13: the split of a leaf for a new or replaced entry finds a split point such that both halves fit
  their pages and are not empty, fills two fresh pages with the two halves of the updated entries
  without a panic, and returns the first key of the right half as the separator.\<close>

theorem leaf_split_partitions:
  assumes "lnode node es" "lnode n1 []" "lnode n2 []"
    and "unat insertIdx < length es \<or> \<not> replacing \<and> unat insertIdx = length es"
    and "length k \<le> maxKeySize" "(ov = 0) = (5 + length k + length v \<le> maxInlineSize)"
    and "new = put_entry replacing (unat insertIdx) (entry_of k v ov) es" "2 \<le> length new"
  shows "\<exists>s d1 d2. splitLeaf_index node insertIdx k v replacing = Some s \<and>
    splitLeaf_fill node n1 n2 insertIdx s k v ov replacing = Some (d1, d2, fst (new ! unat s)) \<and>
    lnode d1 (take (unat s) new) \<and> lnode d2 (drop (unat s) new) \<and> 0 < unat s \<and> unat s < length new"
proof -
  obtain s where s: "splitLeaf_index node insertIdx k v replacing = Some (of_nat s)" "0 < s" "s < length new"
    "5 + lcost (take s new) \<le> 4096" "5 + lcost (drop s new) \<le> 4096"
    using splitLeaf_index_halves [OF assms(1) refl assms(4,6,5,7,8)] .
  have "length new \<le> Suc (length es)" using length_put_entry [OF assms(4), of "entry_of k v ov"] assms(7) by simp
  then have u: "unat (of_nat s :: u16) = s" using s(3) lnode_length [OF assms(1)] by (simp add: unat_of_nat take_bit_nat_eq_self)
  show ?thesis
    using splitLeaf_fill_lnode [OF assms(1-3) refl assms(4) u s(2,3) assms(5-7) s(4,5)] s(1-3) u by auto
qed

theorem leaf_split_partitions_witness:
  "\<exists>s d1 d2. splitLeaf_index (sample_leaf [([1], [10]), ([3], [30]), ([5], [50])]) 1 [2] [20] False = Some s \<and>
    splitLeaf_fill (sample_leaf [([1], [10]), ([3], [30]), ([5], [50])]) (sample_leaf []) (sample_leaf []) 1 s [2] [20] 0 False =
      Some (d1, d2, [[1], [2], [3], [5]] ! unat s) \<and>
    lnode d1 (take (unat s) [([1], Inline [10]), ([2], Inline [20]), ([3], Inline [30]), ([5], Inline [50])]) \<and> 0 < unat s \<and> unat s < 4"
proof -
  have "put_entry False (unat (1 :: u16)) (entry_of [2] [20] 0) [([1], Inline [10]), ([3], Inline [30]), ([5], Inline [50])] =
    [([1], Inline [10]), ([2], Inline [20]), ([3], Inline [30]), ([5], Inline [50])]"
    by (simp add: put_entry_def entry_of_def)
  note new = this [symmetric]
  have h: "unat (1 :: u16) < length [([1 :: byte], Inline [10]), ([3], Inline [30]), ([5], Inline [50])] \<or> \<not> False \<and> unat (1 :: u16) = 3"
    "length [2 :: byte] \<le> maxKeySize" "((0 :: PageId) = 0) = (5 + length [2 :: byte] + length [20 :: byte] \<le> maxInlineSize)"
    by (simp_all add: maxKeySize_def maxInlineSize_def)
  obtain s d1 d2 where r: "splitLeaf_index (sample_leaf [([1], [10]), ([3], [30]), ([5], [50])]) 1 [2] [20] False = Some s"
    "splitLeaf_fill (sample_leaf [([1], [10]), ([3], [30]), ([5], [50])]) (sample_leaf []) (sample_leaf []) 1 s [2] [20] 0 False =
      Some (d1, d2, fst ([([1], Inline [10]), ([2], Inline [20]), ([3], Inline [30]), ([5], Inline [50])] ! unat s))"
    "lnode d1 (take (unat s) [([1], Inline [10]), ([2], Inline [20]), ([3], Inline [30]), ([5], Inline [50])])" "0 < unat s" "unat s < 4"
    using leaf_split_partitions [OF sample_leaf_3 sample_leaf_0 sample_leaf_0 _ h(2,3) new] by auto
  have "fst ([([1], Inline [10]), ([2], Inline [20]), ([3], Inline [30]), ([5], Inline [50])] ! unat s) = [[1], [2], [3], [5]] ! unat s"
    using r(5) by (auto simp: less_Suc_eq numeral_eq_Suc)
  then show ?thesis using r by auto
qed

text \<open>C14: when a separator and a second child no longer fit an internal page, its split finds a
  separator to push up such that both sides keep at least one separator and fit their pages, and
  fills two fresh pages with exactly the children and separators of the updated page: nothing is
  lost or duplicated, in each of the four cases of the code.\<close>

theorem internal_split_partitions:
  assumes "inode node cks r" "inode n1 [] r1" "inode n2 [] r2" "unat childIdx \<le> length cks"
    and "length k \<le> maxKeySize" "4096 < 13 + icost cks + (12 + length k)"
    and "new = put_split (unat childIdx) a k b cks"
  shows "\<exists>s d1 d2. splitInternal_index node childIdx k = Some s \<and>
    splitInternal_fill node n1 n2 childIdx s a k b = Some (d1, d2, snd (new ! unat s)) \<and>
    inode d1 (take (unat s) new) (fst (new ! unat s)) \<and>
    inode d2 (drop (Suc (unat s)) new) (put_split_last (unat childIdx) b cks r) \<and> 0 < unat s \<and> Suc (unat s) < length new"
proof -
  obtain s where s: "splitInternal_index node childIdx k = Some (of_nat s)" "0 < s" "Suc s < length new"
    "13 + icost (take s new) \<le> 4096" "13 + icost (drop (Suc s) new) \<le> 4096"
    using splitInternal_index_halves [OF assms(1) refl assms(4-7)] .
  have "length new = Suc (length cks)" using assms(4,7) by simp
  then have u: "unat (of_nat s :: u16) = s" and le: "s \<le> length cks"
    using s(3) inode_length [OF assms(1)] by (simp_all add: unat_of_nat take_bit_nat_eq_self)
  show ?thesis
    using splitInternal_fill_inode [OF assms(1-3) refl assms(4) u le assms(5,7) s(4,5)] s(1-3) u
    unfolding split_at_def by auto
qed

theorem internal_split_partitions_witness:
  "\<exists>s d1 d2. splitInternal_index (sample_internal 9 (replicate 4 (7, replicate 1000 1))) 4 (replicate 40 2) = Some s \<and>
    splitInternal_fill (sample_internal 9 (replicate 4 (7, replicate 1000 1))) (sample_internal 0 []) (sample_internal 0 []) 4 s 20 (replicate 40 2) 21 =
      Some (d1, d2, snd ((replicate 4 (7 :: PageId, replicate 1000 1) @ [(20, replicate 40 2)]) ! unat s)) \<and>
    inode d2 (drop (Suc (unat s)) (replicate 4 (7, replicate 1000 1) @ [(20, replicate 40 2)])) 21 \<and> 0 < unat s \<and> Suc (unat s) < 5"
proof -
  have c: "icost (replicate 4 (7, replicate 1000 1)) = 4048" by (simp add: numeral_eq_Suc)
  have n: "inode (sample_internal 9 (replicate 4 (7, replicate 1000 1))) (replicate 4 (7, replicate 1000 1)) 9"
    using sample_internal_inode [of "replicate 4 (7, replicate 1000 1)" 9] c by simp
  show ?thesis
    using internal_split_partitions [OF n sample_internal_0 sample_internal_0 _ _ _ refl, of 4 "replicate 40 2" 0 0 20 21] c
    by (simp add: put_split_def put_split_last_def maxKeySize_def) blast
qed

text \<open>C23: when the separator of a split child fits, the rebuilt parent has the two children in place of
  the old one, separated by the pushed-up key, and is otherwise unchanged.\<close>

theorem child_split_applied:
  assumes "inode node cks r" "inode d [] r0" "unat childIdx \<le> length cks" "length k \<le> maxKeySize"
    and "13 + icost cks + (12 + length k) \<le> 4096"
  shows "\<exists>d'. applyChildSplitToInternal_fill d node childIdx a k b = Some d' \<and>
    inode d' (put_split (unat childIdx) a k b cks) (put_split_last (unat childIdx) b cks r)"
  using applyChildSplit_inode [OF assms(1,2) refl assms(3-5)] .

theorem child_split_applied_witness:
  "\<exists>d'. applyChildSplitToInternal_fill (sample_internal 0 []) (sample_internal 9 [(7, [2]), (8, [4])]) 1 20 [3] 21 = Some d' \<and>
    inode d' [(7, [2]), (20, [3]), (21, [4])] 9"
  using child_split_applied [OF sample_internal_2 sample_internal_0, of 1 "[3]" 0 20 21]
  by (simp add: put_split_def put_split_last_def maxKeySize_def)

section \<open>Merges\<close>

text \<open>C24: merging two internal pages concatenates their children around the parent's separator, in
  whichever direction the merge goes, so that both routines compute the same page contents.\<close>

theorem internal_merge_concatenates:
  assumes "inode m [] r0" "inode a xs ra" "inode b ys rb" "length k \<le> maxKeySize"
    and "13 + icost xs + (12 + length k) + icost ys \<le> 4096"
  shows "\<exists>m'. mergeWithLeft_fill m a k b = Some m' \<and> mergeWithRight_fill m a b k = Some m' \<and>
    inode m' (xs @ (ra, k) # ys) rb"
proof -
  have "mergeWithRight_fill m a b k = mergeWithLeft_fill m a k b"
    using inode_reads [OF assms(2)] inode_reads [OF assms(3)] by (simp add: mergeWithLeft_fill_def mergeWithRight_fill_def Let_def)
  then show ?thesis using mergeWithLeft_inode [OF assms] by simp
qed

theorem internal_merge_concatenates_witness:
  "\<exists>m'. mergeWithLeft_fill (sample_internal 0 []) (sample_internal 9 [(7, [2]), (8, [4])]) [5] (sample_internal 30 []) = Some m' \<and>
    inode m' [(7, [2]), (8, [4]), (9, [5])] 30"
  using internal_merge_concatenates [OF sample_internal_0 sample_internal_2 sample_internal_0, of "[5]" 0 30]
  by (auto simp: maxKeySize_def)

text \<open>C27: a page, a leaf \<open>d\<close> or an internal page \<open>e\<close>, counts as underfull when it has fewer than four cells or its header,
  slots and cells use less than a quarter of the page, and a sibling may donate its last cell only if it has more than four
  cells and without the cell and its slot still uses a quarter of the page: the 16-bit arithmetic of both tests never wraps.\<close>

theorem rebalance_thresholds:
  assumes "lnode d es" "inode e cks r"
  shows "underfull d = Some (length es < 4 \<or> 5 + lcost es < 1024) \<and>
    siblingCanDonate d = Some (4 < length es \<and> 1024 + (length (lcell (last es)) + 2) \<le> 5 + lcost es) \<and>
    underfull e = Some (length cks < 4 \<or> 13 + icost cks < 1024) \<and>
    siblingCanDonate e = Some (4 < length cks \<and> 1024 + (length (snd (last cks)) + 12) \<le> 13 + icost cks)"
  using underfull_lnode [OF assms(1)] siblingCanDonate_lnode [OF assms(1)] underfull_inode [OF assms(2)] siblingCanDonate_inode [OF assms(2)]
  by (simp add: add.commute)

theorem rebalance_thresholds_witness:
  "underfull (sample_leaf [([1], [10]), ([3], [30]), ([5], [50])]) = Some True \<and>
   siblingCanDonate (sample_leaf [([1], [10]), ([3], [30]), ([5], [50])]) = Some False \<and>
   underfull (sample_internal 9 [(7, [2]), (8, [4])]) = Some True \<and>
   siblingCanDonate (sample_internal 9 [(7, [2]), (8, [4])]) = Some False"
  using rebalance_thresholds [OF sample_leaf_3 sample_internal_2] by simp

text \<open>C28: the rebalancing test does not bound the size of a merge: a leaf with fewer than four cells is
  underfull and a sibling with four cells cannot donate, and when their cells together are larger
  than a page, merging them panics.\<close>

theorem merge_of_large_leaves_panics:
  assumes "lnode m []" "lnode left xs" "lnode ch ys" "length xs \<le> 4" "length ys < 4"
    and "4096 + 2 * length xs + 2 * length ys < lcost xs + lcost ys"
  shows "underfull ch = Some True \<and> siblingCanDonate left = Some False \<and> mergeWithLeft_fill m left k ch = None"
  using underfull_lnode [OF assms(3)] siblingCanDonate_lnode [OF assms(2)] merge_leaves_overflow [OF assms(1-3,6)] assms(4,5)
    lnode_reads(1,2) [OF assms(2)] lnode_reads(1,2) [OF assms(3)]
  by (auto simp: mergeWithLeft_fill_def)

theorem merge_of_large_leaves_panics_witness:
  "underfull (sample_leaf (map (\<lambda>i. ([i], replicate 999 0)) [5, 6, 7])) = Some True \<and>
   siblingCanDonate (sample_leaf (map (\<lambda>i. ([i], replicate 999 0)) [1, 2, 3, 4])) = Some False \<and>
   mergeWithLeft_fill (sample_leaf []) (sample_leaf (map (\<lambda>i. ([i], replicate 999 0)) [1, 2, 3, 4])) [5]
     (sample_leaf (map (\<lambda>i. ([i], replicate 999 0)) [5, 6, 7])) = None"
proof -
  have l: "lnode (sample_leaf (map (\<lambda>i. ([i], replicate 999 0)) ks)) (map (\<lambda>i. ([i], Inline (replicate 999 0))) ks)"
    if "length ks \<le> 4" for ks :: "byte list"
  proof -
    have "cost (leaf_cells (map (\<lambda>i. ([i], replicate 999 0)) ks)) = 1007 * length ks"
      by (induction ks) (simp_all add: leaf_cells_def length_leaf_cell)
    then show ?thesis
      using that sample_leaf_lnode [of "map (\<lambda>i. ([i], replicate 999 0)) ks"] by (auto simp: comp_def)
  qed
  have l4: "lnode (sample_leaf (map (\<lambda>i. ([i], replicate 999 0)) [1, 2, 3, 4])) (map (\<lambda>i. ([i], Inline (replicate 999 0))) [1, 2, 3, 4])"
    by (rule l) simp
  have l3: "lnode (sample_leaf (map (\<lambda>i. ([i], replicate 999 0)) [5, 6, 7])) (map (\<lambda>i. ([i], Inline (replicate 999 0))) [5, 6, 7])"
    by (rule l) simp
  show ?thesis
    by (rule merge_of_large_leaves_panics [OF sample_leaf_0 l4 l3]) (simp_all add: length_leaf_cell)
qed

text \<open>C25: removing a separator after a merge replaces the two children by the merged one and always fits
  the parent's page.\<close>

theorem parent_after_merge:
  assumes "inode node cks r" "inode d [] r0" "unat sepIdx < length cks"
  shows "\<exists>d'. rebuildParentForMerge_fill d node sepIdx a = Some d' \<and>
    inode d' (put_merge (unat sepIdx) a cks) (put_last (unat sepIdx) a cks r)"
  using rebuildParentForMerge_inode [OF assms(1,2) refl assms(3)] .

theorem parent_after_merge_witness:
  "\<exists>d'. rebuildParentForMerge_fill (sample_internal 0 []) (sample_internal 9 [(7, [2]), (8, [4])]) 0 30 = Some d' \<and>
    inode d' [(30, [4])] 9"
  using parent_after_merge [OF sample_internal_2 sample_internal_0, of 0 0 30] by (simp add: put_merge_def put_last_def)

text \<open>C26: rebuilding the parent after a borrow replaces the separator and the two children around it,
  provided the page has room for the new separator.\<close>

theorem parent_after_borrow:
  assumes "inode node cks r" "inode d [] r0" "unat sepIdx < length cks" "length k \<le> maxKeySize"
    and "13 + icost (put_borrow (unat sepIdx) a k b cks) \<le> 4096"
  shows "\<exists>d'. rebuildParentForBorrow_fill d node sepIdx a k b = Some d' \<and>
    inode d' (put_borrow (unat sepIdx) a k b cks) (put_last (unat sepIdx) b cks r)"
  using rebuildParentForBorrow_inode [OF assms(1,2) refl assms(3-5)] .

theorem parent_after_borrow_witness:
  "\<exists>d'. rebuildParentForBorrow_fill (sample_internal 0 []) (sample_internal 9 [(7, [2]), (8, [4])]) 1 30 [3] 31 = Some d' \<and>
    inode d' [(7, [2]), (30, [3])] 31"
  using parent_after_borrow [OF sample_internal_2 sample_internal_0, of 1 "[3]" 30 31 0]
  by (simp add: put_borrow_def put_last_def maxKeySize_def)

end
