(* ===== verification/StoreSpec.thy ===== *)
theory StoreSpec
  imports SampleWorld
begin

text \<open>
  The properties of the layers under the trees: headers, free-list pages and the in-memory free list,
  the page file, and the buffer pool.
\<close>

section \<open>Headers\<close>

text \<open>C30: a freshly encoded header decodes to the same header, checksum filled in.\<close>

theorem meta_roundtrip:
  assumes "56 \<le> length buf" "magic m = metaMagic" "version m = metaVersion" "pageSize m = of_nat PageSize"
  shows "\<exists>m' buf'. encodeMeta m buf = Some (Inr (m', buf')) \<and> length buf' = length buf \<and>
    decodeMeta buf' = Some (Inr m') \<and> m'\<lparr>checksum := checksum m\<rparr> = m"
proof -
  have "region (patch buf 0 (meta_image m)) 0 56 = meta_image m"
    using assms(1) by (intro region_patch_same) auto
  then show ?thesis
    using assms decodeMeta_image [of "patch buf 0 (meta_image m)" m] by (simp add: encodeMeta_image)
qed

theorem meta_roundtrip_witness:
  "\<exists>m' buf'. encodeMeta baseMeta (replicate 4096 0) = Some (Inr (m', buf')) \<and>
    decodeMeta buf' = Some (Inr m') \<and> txnID m' = 0 \<and> numPages m' = 2"
proof -
  have "56 \<le> length (replicate 4096 (0 :: byte))" "magic baseMeta = metaMagic" "version baseMeta = metaVersion"
    "pageSize baseMeta = of_nat PageSize" by (simp_all add: baseMeta_def)
  from meta_roundtrip [OF this] obtain m' buf' where m': "encodeMeta baseMeta (replicate 4096 0) = Some (Inr (m', buf'))"
    "decodeMeta buf' = Some (Inr m')" "m'\<lparr>checksum := checksum baseMeta\<rparr> = baseMeta" by blast
  have "txnID m' = txnID (m'\<lparr>checksum := checksum baseMeta\<rparr>)" "numPages m' = numPages (m'\<lparr>checksum := checksum baseMeta\<rparr>)"
    by simp_all
  then show ?thesis using m' unfolding m'(3) by (auto simp: baseMeta_def)
qed

text \<open>C31: a header page in which any one of the 56 header bytes has been changed no longer decodes: the
  checksum test reports it.\<close>

theorem meta_corruption_detected:
  assumes "decodeMeta buf = Some (Inr m)" "i < 56" "buf ! i \<noteq> b"
  shows "\<exists>got want. decodeMeta (buf[i := b]) = Some (Inl (ErrMetaChecksum got want))"
  using assms by (rule decodeMeta_corrupt_byte)

theorem meta_corruption_detected_witness:
  "\<exists>got want. decodeMeta ((patch (replicate 4096 0) 0 (meta_image baseMeta))
    [16 := patch (replicate 4096 0) 0 (meta_image baseMeta) ! 16 + 1]) = Some (Inl (ErrMetaChecksum got want))"
proof -
  let ?b = "patch (replicate 4096 0) 0 (meta_image baseMeta)"
  have "decodeMeta ?b = Some (Inr (baseMeta\<lparr>checksum := crc64_Checksum (meta_body baseMeta)\<rparr>))"
    using decodeMeta_image [of ?b baseMeta] region_patch_same [of 0 "meta_image baseMeta" "replicate 4096 0"]
    by (simp add: baseMeta_def)
  then show ?thesis by (rule meta_corruption_detected) simp_all
qed

text \<open>C32: recovery picks the header of the later of two consecutive commits in whichever page it is,
  also when the transaction number wraps around, and falls back to the other page when one of the
  two does not decode.\<close>

theorem newest_header_chosen:
  assumes "txnID new = txnID old + 1"
  shows "chooseMeta (Inr old) (Inr new) = Inr (new, metaPage1) \<and> chooseMeta (Inr new) (Inr old) = Inr (new, metaPage0) \<and>
    chooseMeta (Inr old) (Inl e) = Inr (old, metaPage0) \<and> chooseMeta (Inl e) (Inr old) = Inr (old, metaPage1)"
  using assms isNewer_succ [of "txnID old"] by (simp add: chooseMeta_def)

theorem newest_header_chosen_witness:
  "chooseMeta (Inr (baseMeta\<lparr>txnID := - 1\<rparr>)) (Inr baseMeta) = Inr (baseMeta, metaPage1)"
  using newest_header_chosen [of baseMeta "baseMeta\<lparr>txnID := - 1\<rparr>" ErrIO] by (simp add: baseMeta_def)

section \<open>The free list\<close>

text \<open>C33: a page of the free-list chain decodes to the page numbers and the successor it was encoded
  from.\<close>

theorem freelist_page_roundtrip:
  assumes "length ids \<le> freelistPerPage" "length buf = 4096"
  shows "\<exists>buf'. encodeFreelistPage buf ids nxt = Some buf' \<and> length buf' = 4096 \<and>
    decodeFreelistPage buf' = Some (Inr (ids, nxt)) \<and> freelistPageNext buf' = Some nxt"
proof -
  have l: "16 + 8 * length ids \<le> length buf" using assms by (simp add: freelistPerPage_def)
  have "decodeFreelistPage (patch buf 0 (freelist_image ids nxt)) = Some (Inr (ids, nxt))"
    using decodeFreelistPage_image [of ids "patch buf 0 (freelist_image ids nxt)" nxt] l assms
      region_patch_same [of 0 "freelist_image ids nxt" buf] by simp
  moreover have "region (patch buf 0 (freelist_image ids nxt)) 0 8 = le_bytes 8 nxt"
    using l by (simp add: region_def patch_def freelist_image_def)
  ultimately show ?thesis
    using encodeFreelistPage_image [OF assms(1) l] assms(2) l by (simp add: freelistPageNext_def Uint64_in_region)
qed

theorem freelist_page_roundtrip_witness:
  "\<exists>buf'. encodeFreelistPage (replicate 4096 0) [5, 9, 12] 77 = Some buf' \<and> decodeFreelistPage buf' = Some (Inr ([5, 9, 12], 77))"
  using freelist_page_roundtrip [of "[5, 9, 12]" "replicate 4096 0" 77] by (auto simp: freelistPerPage_def)

lemma min_txn_bounds: "min_txn m ts \<le> m \<and> (\<forall>t \<in> set ts. min_txn m ts \<le> t) \<and> min_txn m ts \<in> insert m (set ts)"
proof (induction ts arbitrary: m)
  case (Cons t ts)
  let ?m = "if t < m then t else m"
  have "?m \<le> m" "?m \<le> t" "?m \<in> {m, t}" by auto
  then show ?case using Cons.IH [of ?m] by (auto intro: order.trans)
qed simp

lemma minReaderTxn_bounds:
  "minReaderTxn d \<le> txnID (currentMeta d)" "t \<in> set (map fst (readers d)) \<Longrightarrow> minReaderTxn d \<le> t"
  "minReaderTxn d = txnID (currentMeta d) \<or> minReaderTxn d \<in> set (map fst (readers d))"
  using min_txn_bounds [of "txnID (currentMeta d)" "map fst (readers d)"] unfolding minReaderTxn_def by blast+

text \<open>C34: with the pending pages in the order of their commits, the oldest one is handed out for reuse exactly when it was
  freed no later than the snapshot of every open reader and of the current header; when nothing is handed out, the list is
  unchanged and each pending page was freed after the snapshot of some open reader or of the current header.\<close>

theorem reuse_waits_for_readers:
  assumes "fl_sorted fl"
  shows "case popReusable fl (minReaderTxn d) of
      ((pid, True), fl') \<Rightarrow> \<exists>e. pending fl = e # pending fl' \<and> pageID e = pid \<and> fl_sorted fl' \<and>
        freedAt e \<le> txnID (currentMeta d) \<and> (\<forall>t \<in> set (map fst (readers d)). freedAt e \<le> t)
    | ((pid, False), fl') \<Rightarrow> fl' = fl \<and>
        (\<forall>e \<in> set (pending fl). txnID (currentMeta d) < freedAt e \<or> (\<exists>t \<in> set (map fst (readers d)). t < freedAt e))"
proof (cases "pending fl")
  case Nil
  then show ?thesis by (simp add: popReusable_def)
next
  case (Cons e rest)
  have later: "freedAt e \<le> freedAt x" if "x \<in> set (pending fl)" for x using assms Cons that by (auto simp: fl_sorted_def)
  show ?thesis
  proof (cases "freedAt e \<le> minReaderTxn d")
    case True
    then show ?thesis using Cons assms minReaderTxn_bounds(1,2) [where d = d] by (auto simp: popReusable_def fl_sorted_def leD intro: order.trans)
  next
    case False
    then have "\<forall>x \<in> set (pending fl). minReaderTxn d < freedAt x" using later less_le_trans by (fastforce simp: not_le)
    then have "txnID (currentMeta d) < freedAt x \<or> (\<exists>t \<in> set (map fst (readers d)). t < freedAt x)" if "x \<in> set (pending fl)" for x
      using minReaderTxn_bounds(3) [of d] that by metis
    then show ?thesis using Cons False by (auto simp: popReusable_def not_le)
  qed
qed

theorem reuse_waits_for_readers_witness:
  "(case popReusable \<lparr>pending = [\<lparr>pageID = 9, freedAt = 3\<rparr>, \<lparr>pageID = 4, freedAt = 5\<rparr>]\<rparr> (minReaderTxn (sample_reader_db [(4, 1), (6, 2)])) of
      ((pid, True), fl') \<Rightarrow> pid = 9 \<and> fl' = \<lparr>pending = [\<lparr>pageID = 4, freedAt = 5\<rparr>]\<rparr> | ((pid, False), fl') \<Rightarrow> False) \<and>
   (case popReusable \<lparr>pending = [\<lparr>pageID = 9, freedAt = 3\<rparr>, \<lparr>pageID = 4, freedAt = 5\<rparr>]\<rparr> (minReaderTxn (sample_reader_db [(2, 1), (6, 2)])) of
      ((pid, True), fl') \<Rightarrow> False | ((pid, False), fl') \<Rightarrow> True)"
proof -
  let ?fl = "\<lparr>pending = [\<lparr>pageID = 9, freedAt = 3\<rparr>, \<lparr>pageID = 4, freedAt = 5\<rparr>]\<rparr>"
  have "fl_sorted ?fl" by (simp add: fl_sorted_def)
  from reuse_waits_for_readers [OF this, of "sample_reader_db [(4, 1), (6, 2)]"] reuse_waits_for_readers [OF this, of "sample_reader_db [(2, 1), (6, 2)]"]
  show ?thesis by (auto simp: sample_reader_db_def split: prod.splits bool.splits)
qed

section \<open>The page file\<close>

text \<open>C35: writing a page of the file, complete or torn by an error, changes no other page and keeps the
  file's size; a complete write can be read back.\<close>

theorem write_page_framed:
  assumes "sm_ok s" "in_file s pid" "length buf = 4096"
  shows "\<exists>err s'. WritePage s pid buf = Some (err, s') \<and> sm_ok s' \<and> length (content s') = length (content s) \<and>
    (\<forall>q. q \<noteq> pid \<longrightarrow> page_at s' q = page_at s q) \<and>
    (err = None \<longrightarrow> (\<exists>err' s''. ReadPage s' pid (replicate 4096 0) = Some (err', s'') \<and> (err' = None \<longrightarrow> fst s'' = buf)))"
  using assms
proof (cases rule: WritePage_cases)
  case (ok s')
  then have ok': "sm_ok s'" "in_file s' pid" using assms sm_ok_same by (simp_all add: in_file_def)
  have "length (content s') = length (content s)" using assms(2,3) ok(2) by (simp add: in_file_def)
  moreover have "page_at s' pid = buf" using assms ok(2) by (simp add: page_at_written)
  moreover obtain err' buf' s2 where "ReadPage s' pid (replicate 4096 0) = Some (err', buf', s2)" "err' = None \<longrightarrow> buf' = page_at s' pid"
    using ReadPage_cases [OF ok', of "replicate 4096 0"] by (metis length_replicate option.distinct(1))
  ultimately show ?thesis using ok(1) ok' assms page_at_other [OF assms(2) ok(2)] by auto
next
  case (torn s' n)
  then have "length (content s') = length (content s)" using assms(2,3) by (simp add: in_file_def)
  then show ?thesis using torn(1,3) assms page_at_other [OF assms(2) torn(2)] sm_ok_same [OF assms(1), of s'] by auto
qed

theorem write_page_framed_witness:
  "\<exists>err s'. WritePage (sample_sm [zero_page, zero_page]) 1 (replicate 4096 7) = Some (err, s') \<and> sm_ok s' \<and>
    page_at s' 0 = page_at (sample_sm [zero_page, zero_page]) 0"
proof -
  have "sample_pages [zero_page, zero_page]" by (simp add: sample_pages_def zero_page_def)
  then show ?thesis
    using write_page_framed [of "sample_sm [zero_page, zero_page]" 1 "replicate 4096 7"] sample_sm_ok by auto
qed

text \<open>C36: \<open>Allocate\<close> terminates within 44 doublings for every page number below \<open>2^46\<close>, and either
  reports an error and leaves the file alone, or leaves a file that contains the page, in which every
  page that was there is unchanged and whose size is a multiple of the page size below \<open>2^60\<close>.\<close>

theorem allocate_extends_file:
  assumes "sm_ok s" "unat pid < 2 ^ 46" "44 \<le> n"
  shows "\<exists>err s'. Allocate n s pid = Some (err, s') \<and> sm_ok s' \<and> length (content s) \<le> length (content s') \<and>
    (err = None \<longrightarrow> in_file s' pid) \<and> (err \<noteq> None \<longrightarrow> content s' = content s) \<and>
    (\<forall>q. in_file s q \<longrightarrow> page_at s' q = page_at s q)"
  using assms
proof (cases rule: Allocate_cases)
  case (grown s' k)
  then show ?thesis by (auto simp: page_at_def in_file_def region_def)
next
  case (failed s')
  then show ?thesis using sm_ok_same [OF assms(1), of s'] by (simp add: page_at_def)
qed

theorem allocate_extends_file_witness:
  "\<exists>err s'. Allocate 44 (sample_sm [zero_page, zero_page]) 100 = Some (err, s') \<and> sm_ok s' \<and> (err = None \<longrightarrow> in_file s' 100) \<and>
    page_at s' 1 = page_at (sample_sm [zero_page, zero_page]) 1"
proof -
  have "sample_pages [zero_page, zero_page]" by (simp add: sample_pages_def zero_page_def)
  then show ?thesis using allocate_extends_file [of "sample_sm [zero_page, zero_page]" 100 44] sample_sm_ok by auto
qed

text \<open>C37: a vectored write of consecutive pages terminates and writes exactly those pages, in calls of at
  most 1024 buffers, as long as every call of the operating system stops at a page boundary.\<close>

theorem contiguous_write_correct:
  assumes "pwritev_ok pw" "page_granular pw" "sm_ok s" "bufs \<noteq> []" "\<forall>b \<in> set bufs. length b = 4096"
    and "4096 * (unat pid + length bufs) \<le> length (content s)" "length bufs < n"
  shows "\<exists>err s'. WritePagesContiguous n pw s pid bufs = Some (Ret (err, s')) \<and> sm_ok s' \<and>
    (err = None \<longrightarrow> content s' = patch (content s) (4096 * unat pid) (concat bufs)) \<and>
    (\<forall>q. unat q < unat pid \<or> unat pid + length bufs \<le> unat q \<longrightarrow> page_at s' q = page_at s q)"
proof -
  obtain err s' bs where r: "WritePagesContiguous n pw s pid bufs = Some (Ret (err, s'))" "fileSize s' = fileSize s"
    "length bs \<le> 4096 * length bufs" "content s' = patch (content s) (4096 * unat pid) bs" "err = None \<longrightarrow> bs = concat bufs"
    using WritePagesContiguous_run [OF assms] by blast
  then have "sm_ok s'" using assms(3,6) sm_ok_same [OF assms(3), of s'] by simp
  then show ?thesis using r page_at_outside [OF r(4,3) assms(6)] by auto
qed

theorem contiguous_write_correct_witness:
  "\<exists>err s'. WritePagesContiguous 3 full_pwritev (sample_sm [zero_page, zero_page, zero_page]) 1 [replicate 4096 7, replicate 4096 8] =
    Some (Ret (err, s')) \<and> sm_ok s' \<and> page_at s' 0 = page_at (sample_sm [zero_page, zero_page, zero_page]) 0"
proof -
  have s: "sample_pages [zero_page, zero_page, zero_page]" by (simp add: sample_pages_def zero_page_def)
  have "length (content (sample_sm [zero_page, zero_page, zero_page])) = 12288" by (simp add: sample_sm_def zero_page_def)
  then show ?thesis
    using contiguous_write_correct [OF full_pwritev_ok sample_sm_ok(1) [OF s], of "[replicate 4096 7, replicate 4096 8]" 1 3] by auto
qed



section \<open>The buffer pool\<close>

text \<open>C17: the clock sweep terminates: in a pool of \<open>n\<close> frames that are not being evicted it returns
  after fewer than \<open>5 n (n + 1) + n\<close> steps, with a frame that nobody has pinned or with the
  error that the pool is exhausted, and changes nothing but usage counts on the way.\<close>

theorem clock_sweep_terminates:
  assumes "pool_inv bp {}" "enough_fuel env (length (frames bp))"
  shows "evict_done bp (evictFrame env bp)"
  using assms by (rule evictFrame_done)

theorem clock_sweep_terminates_witness: "evict_done (NewBufferPool (sample_sm sample_tree_pages) 8)
    (evictFrame sample_env (NewBufferPool (sample_sm sample_tree_pages) 8))"
  using clock_sweep_terminates [of "NewBufferPool (sample_sm sample_tree_pages) 8" sample_env]
    fresh_pool(1) [OF sample_sm_ok(1) [OF sample_tree_pages_ok], of 8] by simp

text \<open>C16: \<open>Get\<close> of a live page keeps the pool's invariant and the contents of every live page, whatever
  it evicts; on success the frame it returns is pinned and holds the page.\<close>

theorem get_returns_page:
  assumes "pool_ok env H L bp" "pid \<in> L"
  shows "(\<exists>e bp'. Get env bp pid = Some (Inl e, bp') \<and> pool_ok env H L bp' \<and> kept L {} bp bp') \<or>
    (\<exists>f bp'. Get env bp pid = Some (Inr f, bp') \<and> pool_ok env (add_mset (f, pid, False) H) L bp' \<and> kept L {} bp bp' \<and>
      data (frames bp' ! f) = view bp pid)"
proof -
  have "data (frames bp' ! f) = view bp pid" if "pool_ok env (add_mset (f, pid, False) H) L bp'" "kept L {} bp bp'" for f bp'
    using handle_view(1) [OF that(1), of f pid False] that(2) assms(2) by (simp add: kept_def)
  then show ?thesis using pool_Get [OF assms] unfolding pool_result_def by blast
qed

theorem get_returns_page_witness:
  "(\<exists>e bp'. Get sample_env (NewBufferPool (sample_sm sample_tree_pages) 8) 3 = Some (Inl e, bp')) \<or>
   (\<exists>f bp'. Get sample_env (NewBufferPool (sample_sm sample_tree_pages) 8) 3 = Some (Inr f, bp') \<and>
     data (frames bp' ! f) = page_at (sample_sm sample_tree_pages) 3)"
proof -
  have l: "3 \<in> sample_live sample_tree_pages" by (simp add: sample_live_def sample_tree_pages_def)
  show ?thesis
    using get_returns_page [OF sample_pool_ok [OF sample_tree_pages_ok] l]
      fresh_pool(3) [OF sample_sm_ok(1) [OF sample_tree_pages_ok], of 8] by auto
qed

text \<open>C15: on an operating system whose vectored writes always stop at a page boundary, \<open>FlushPages\<close> writes the requested
  pages and no others: whichever order its workers take, it returns, keeps the pool's invariant and the contents of every page,
  changes no other page of the file, and on success the file holds the cached contents of each requested page. A sync after
  that makes them durable; nothing is durable before. (A write that stops inside a page can make the loop of \<open>pwritevFull\<close>
  overwrite the page after the run, or run forever.)\<close>

theorem flush_makes_durable:
  assumes "pool_inv bp {}" "clean_ok bp S" "pwritev_ok (pwritev env)" "page_granular (pwritev env)" "\<forall>rs. mset (map fst (sched env rs)) = mset rs"
    and "enough_fuel env (length (frames bp))" "distinct pids"
  shows "\<exists>err bp'. FlushPages env bp pids = Some (err, bp') \<and> flush_ok S bp pids err bp' \<and> onDisk (sm bp') = onDisk (sm bp) \<and>
    (case SyncPool bp' of (Some e, bp'') \<Rightarrow> onDisk (sm bp'') = onDisk (sm bp)
       | (None, bp'') \<Rightarrow> err = None \<longrightarrow> (\<forall>pid \<in> set pids - S. page_at (opened (onDisk (sm bp''))) pid = view bp pid))"
proof -
  have "env_ok env" using assms(3-5) by (simp add: env_ok_def)
  then obtain err bp' where f: "FlushPages env bp pids = Some (err, bp')" "flush_ok S bp pids err bp'" using FlushPages_ok [OF assms(1,2) _ assms(6,7)] by blast
  obtain e bp'' where sy: "SyncPool bp' = (e, bp'')" by (cases "SyncPool bp'")
  obtain s where s: "bp'' = bp'\<lparr>sm := s\<rparr>" "onDisk s = (if e = None then content (sm bp') else onDisk (sm bp'))" using SyncPool_cases [OF sy] by metis
  show ?thesis using f s sy by (intro exI [of _ err] exI [of _ bp']) (auto simp: flush_ok_def split: option.splits)
qed

theorem flush_makes_durable_witness:
  "1 \<in> dirty_pages sample_dirty_pool \<and> page_at (sm sample_dirty_pool) 1 = zero_page \<and>
   (\<exists>err bp'. FlushPages sample_env sample_dirty_pool [2, 1] = Some (err, bp') \<and> page_at (sm bp') 0 = zero_page \<and>
     (err = None \<longrightarrow> page_at (sm bp') 1 = replicate 4096 7 \<and> 1 \<notin> dirty_pages bp'))"
proof -
  have "pwritev_ok (pwritev sample_env)" "page_granular (pwritev sample_env)" "\<forall>rs. mset (map fst (sched sample_env rs)) = mset rs" "enough_fuel sample_env 8"
    using sample_env_ok by (simp_all add: env_ok_def)
  from flush_makes_durable [OF sample_dirty_pool_ok(1,2) this(1-3), of "[2, 1]"] this(4)
  obtain err bp' where "FlushPages sample_env sample_dirty_pool [2, 1] = Some (err, bp')" "flush_ok {} sample_dirty_pool [2, 1] err bp'" by (auto simp: sample_dirty_pool_ok(3))
  moreover have "page_at (sample_sm (replicate 3 zero_page)) 0 = zero_page" "page_at (sample_sm (replicate 3 zero_page)) 1 = zero_page"
    using sample_sm_ok(3) [OF zero_pages_ok, of 0] sample_sm_ok(3) [OF zero_pages_ok, of 1] by simp_all
  ultimately show ?thesis using sample_dirty_pool_ok(4-6) by (auto simp: flush_ok_def)
qed

end
