(* ===== verification/CursorScan.thy ===== *)
theory CursorScan
  imports FreeTree Cursor "HOL-Library.Sublist"
begin

text \<open>
  Scans with a cursor: \<^verbatim>\<open>src/cursor.go\<close>. The movements of a cursor report a failed read as
  \<open>nil, nil\<close>, the way they report the end. Here they are first given with the error visible; the
  code's movements are these with the error forgotten. A position of a cursor is the list of bindings from the
  current one on, and the movements are \<^const>\<open>tl\<close>, the whole list and \<^const>\<open>dropWhile\<close> on it.
\<close>

section \<open>Movements with the error visible\<close>

type_synonym cworld = "Cursor \<times> world"

definition forget :: "('a option, cworld) outcome \<Rightarrow> ('a option \<times> Cursor \<times> world) option" where
  "forget r = map_option (\<lambda>(r, c, w). (case r of Inl e \<Rightarrow> None | Inr x \<Rightarrow> x, c, w)) r"

definition kv_err :: "env \<Rightarrow> Cursor \<Rightarrow> world \<Rightarrow> ((bytes \<times> bytes) option, cworld) outcome" where
  "kv_err env c w = do {
     v \<leftarrow> Valid c w;
     if \<not> v then Some (Inr None, c, w)
     else do {
       k \<leftarrow> key (node_data w (cnode (hd (stack c)))) (cidx (hd (stack c)));
       (r, w) \<leftarrow> leafValue env (cnode (hd (stack c))) (cidx (hd (stack c))) w;
       case r of
         Inl e \<Rightarrow> Some (Inl e, c, w)
       | Inr x \<Rightarrow> Some (Inr (Some (k, x)), c, w)
     }
   }"

fun descend_err :: "nat \<Rightarrow> env \<Rightarrow> PageId \<Rightarrow> Cursor \<Rightarrow> world \<Rightarrow> (unit, cworld) outcome" where
  "descend_err 0 env pid c w = None"
| "descend_err (Suc n) env pid c w = do {
     (r, w) \<leftarrow> getNode env pid w;
     case r of
       Inl e \<Rightarrow> Some (Inl e, c, w)
     | Inr f \<Rightarrow> do {
         t \<leftarrow> ntype (node_data w f);
         if t = nodeLeaf then Some (Inr (), push_frame f 0 c, w)
         else do {
           next \<leftarrow> child (node_data w f) 0;
           descend_err n env next (push_frame f 0 c) w
         }
       }
   }"

fun next_up_err :: "env \<Rightarrow> cursorFrame list \<Rightarrow> Cursor \<Rightarrow> world \<Rightarrow> ((bytes \<times> bytes) option, cworld) outcome" where
  "next_up_err env [] c w = Some (Inr None, c\<lparr>stack := []\<rparr>, w)"
| "next_up_err env (fr # rest) c w = do {
     nc \<leftarrow> nCells (node_data w (cnode fr));
     if cidx fr < nc then do {
       let fr = fr\<lparr>cidx := cidx fr + 1\<rparr>;
       pid \<leftarrow> child (node_data w (cnode fr)) (cidx fr);
       (r, c, w) \<leftarrow> descend_err (fuel env) env pid (c\<lparr>stack := fr # rest\<rparr>) w;
       case r of
         Inl e \<Rightarrow> do { (c, w) \<leftarrow> CloseCursor c w; Some (Inl e, c, w) }
       | Inr _ \<Rightarrow> kv_err env c w
     } else do {
       w \<leftarrow> node_unpin (cnode fr) w;
       next_up_err env rest c w
     }
   }"

definition Next_err :: "env \<Rightarrow> Cursor \<Rightarrow> world \<Rightarrow> ((bytes \<times> bytes) option, cworld) outcome" where
  "Next_err env c w =
     (case stack c of
        [] \<Rightarrow> Some (Inr None, c, w)
      | leaf # rest \<Rightarrow> do {
          nc \<leftarrow> nCells (node_data w (cnode leaf));
          if cidx leaf + 1 < nc then kv_err env (c\<lparr>stack := leaf\<lparr>cidx := cidx leaf + 1\<rparr> # rest\<rparr>) w
          else do {
            w \<leftarrow> node_unpin (cnode leaf) w;
            next_up_err env rest c w
          }
        })"

definition First_err :: "env \<Rightarrow> BTree \<Rightarrow> Cursor \<Rightarrow> world \<Rightarrow> ((bytes \<times> bytes) option, cworld) outcome" where
  "First_err env t c w = do {
     (c, w) \<leftarrow> CloseCursor c w;
     if root t = 0 then Some (Inr None, c, w)
     else do {
       (r, c, w) \<leftarrow> descend_err (fuel env) env (root t) c w;
       case r of
         Inl e \<Rightarrow> Some (Inl e, c, w)
       | Inr _ \<Rightarrow> kv_err env c w
     }
   }"

fun Seek_loop_err :: "nat \<Rightarrow> env \<Rightarrow> bytes \<Rightarrow> PageId \<Rightarrow> Cursor \<Rightarrow> world \<Rightarrow> ((bytes \<times> bytes) option, cworld) outcome" where
  "Seek_loop_err 0 env target pid c w = None"
| "Seek_loop_err (Suc n) env target pid c w = do {
     (r, w) \<leftarrow> getNode env pid w;
     case r of
       Inl e \<Rightarrow> do { (c, w) \<leftarrow> CloseCursor c w; Some (Inl e, c, w) }
     | Inr f \<Rightarrow> do {
         t \<leftarrow> ntype (node_data w f);
         if t = nodeLeaf then do {
           (i, _) \<leftarrow> searchLeaf (node_data w f) target;
           let c = push_frame f i c;
           nc \<leftarrow> nCells (node_data w f);
           if i \<ge> nc then Next_err env c w else kv_err env c w
         } else do {
           i \<leftarrow> searchInternal (node_data w f) target;
           next \<leftarrow> child (node_data w f) i;
           Seek_loop_err n env target next (push_frame f i c) w
         }
       }
   }"

definition Seek_err :: "env \<Rightarrow> BTree \<Rightarrow> bytes \<Rightarrow> Cursor \<Rightarrow> world \<Rightarrow> ((bytes \<times> bytes) option, cworld) outcome" where
  "Seek_err env t target c w = do {
     (c, w) \<leftarrow> CloseCursor c w;
     if root t = 0 then Some (Inr None, c, w)
     else Seek_loop_err (fuel env) env target (root t) c w
   }"

text \<open>The code's movements are these with the error forgotten.\<close>

lemma kv_forget: "kv env c w = forget (kv_err env c w)"
  by (auto simp: kv_def kv_err_def forget_def split: option.splits sum.splits bind_splits)

lemma kv_if_valid: "kv_if_valid env c w = kv env c w"
  by (auto simp: kv_if_valid_def kv_def split: bind_splits)

lemma descend_forget:
  "descendLeftmost n env pid c w = map_option (\<lambda>(r, s). (case r of Inl e \<Rightarrow> Some e | Inr _ \<Rightarrow> None, s)) (descend_err n env pid c w)"
proof (induction n arbitrary: pid c w)
  case (Suc n)
  show ?case
  proof (cases "getNode env pid w")
    case (Some rw)
    obtain r u where rw: "rw = (r, u)" by (cases rw)
    show ?thesis
    proof (cases r)
      case (Inr f)
      then show ?thesis using Some rw Suc by (cases "ntype (node_data u f)"; cases "child (node_data u f) 0") auto
    qed (use Some rw in simp)
  qed simp
qed simp

lemma forget_simps [simp]: "forget None = None" "forget (Some (Inl e, c, w)) = Some (None, c, w)" "forget (Some (Inr x, c, w)) = Some (x, c, w)"
  by (simp_all add: forget_def)

lemma forget_bind: "forget (m \<bind> f) = m \<bind> (\<lambda>x. forget (f x))"
  by (cases m) simp_all

lemma next_up_forget: "next_up env frs c w = forget (next_up_err env frs c w)"
proof (induction frs arbitrary: w)
  case (Cons fr rest)
  let ?fr = "fr\<lparr>cidx := cidx fr + 1\<rparr>"
  have d: "(descendLeftmost (fuel env) env pid (c\<lparr>stack := ?fr # rest\<rparr>) w \<bind> (\<lambda>(err, c, w).
      if err \<noteq> None then do { (c, w) \<leftarrow> CloseCursor c w; Some (None, c, w) } else kv_if_valid env c w)) =
    forget (descend_err (fuel env) env pid (c\<lparr>stack := ?fr # rest\<rparr>) w \<bind> (\<lambda>(r, c, w).
      case r of Inl e \<Rightarrow> do { (c, w) \<leftarrow> CloseCursor c w; Some (Inl e, c, w) } | Inr _ \<Rightarrow> kv_err env c w))" for pid
    unfolding descend_forget
    by (cases "descend_err (fuel env) env pid (c\<lparr>stack := ?fr # rest\<rparr>) w") (auto simp: kv_if_valid kv_forget forget_bind split_beta split: sum.splits bind_splits)
  show ?case using Cons d by (auto simp: Let_def forget_bind split: bind_splits)
qed simp

lemma Next_forget: "Next env c w = forget (Next_err env c w)"
  by (auto simp: Next_def Next_err_def next_up_forget kv_forget forget_bind split: list.splits bind_splits)

lemma First_forget: "First env (Some t) c w = forget (First_err env t c w)"
  unfolding First_def First_err_def descend_forget
  by (auto simp: kv_if_valid kv_forget forget_bind split: sum.splits bind_splits)

lemma Seek_loop_forget: "Seek_loop n env target pid c w = forget (Seek_loop_err n env target pid c w)"
proof (induction n arbitrary: pid c w)
  case (Suc n)
  show ?case
    by (auto simp: Suc Next_forget kv_forget forget_bind split_beta Let_def split: sum.splits bind_splits)
qed simp

lemma Seek_forget: "Seek env (Some t) target c w = forget (Seek_err env t target c w)"
  by (auto simp: Seek_def Seek_err_def Seek_loop_forget forget_bind split: bind_splits)

section \<open>Positions\<close>

fun kids :: "tree \<Rightarrow> tree list" where
  "kids (Leaf p es) = []"
| "kids (Node p cks r) = map fst cks @ [r]"

text \<open>No leaf is empty.\<close>

fun solid :: "tree \<Rightarrow> bool" where
  "solid (Leaf p es) \<longleftrightarrow> es \<noteq> []"
| "solid (Node p cks r) \<longleftrightarrow> (\<forall>ck \<in> set cks. solid (fst ck)) \<and> solid r"

definition good :: "env \<Rightarrow> PageId set \<Rightarrow> (PageId \<Rightarrow> bytes) \<Rightarrow> tree \<Rightarrow> bool" where
  "good env L W t \<longleftrightarrow> tree_at W t \<and> set (tpages t) \<subseteq> L \<and> solid t \<and> height t < fuel env"

text \<open>The frames of a stack stand on a path from the root to a subtree; the bindings after it.\<close>

fun on_path :: "cursorFrame list \<Rightarrow> tree list \<Rightarrow> tree \<Rightarrow> tree \<Rightarrow> bool" where
  "on_path [] [] t r \<longleftrightarrow> t = r"
| "on_path (fr # frs) (p # ts) t r \<longleftrightarrow> unat (cidx fr) < length (kids p) \<and> kids p ! unat (cidx fr) = t \<and> on_path frs ts p r"
| "on_path _ _ t r \<longleftrightarrow> False"

fun after :: "cursorFrame list \<Rightarrow> tree list \<Rightarrow> (bytes \<times> bytes) list" where
  "after (fr # frs) (p # ts) = concat (map kvs (drop (Suc (unat (cidx fr))) (kids p))) @ after frs ts"
| "after _ _ = []"

fun pins :: "cursorFrame list \<Rightarrow> tree list \<Rightarrow> handle multiset" where
  "pins (fr # frs) (t # ts) = add_mset (cnode fr, tid t, False) (pins frs ts)"
| "pins _ _ = {#}"

definition parked :: "env \<Rightarrow> handle multiset \<Rightarrow> PageId set \<Rightarrow> world \<Rightarrow> cworld \<Rightarrow> bool" where
  "parked env H L w0 s \<longleftrightarrow> (case s of (c, w) \<Rightarrow> \<exists>ts. length ts = length (stack c) \<and> reading env (pins (stack c) ts + H) L w0 w)"

definition at_leaf :: "env \<Rightarrow> handle multiset \<Rightarrow> PageId set \<Rightarrow> world \<Rightarrow> tree \<Rightarrow> (bytes \<times> bytes) list \<Rightarrow> cworld \<Rightarrow> bool" where
  "at_leaf env H L w0 r xs s \<longleftrightarrow> (case s of (c, w) \<Rightarrow> \<exists>fr frs p es ts. stack c = fr # frs \<and> on_path frs ts (Leaf p es) r \<and> unat (cidx fr) < length es \<and>
     xs = drop (unat (cidx fr)) (map item_kv es) @ after frs ts \<and> reading env (pins (fr # frs) (Leaf p es # ts) + H) L w0 w)"

lemma at_leafI:
  assumes "stack c = fr # frs" "on_path frs ts (Leaf p es) r" "unat (cidx fr) < length es" "reading env (pins (fr # frs) (Leaf p es # ts) + H) L w0 w"
    "xs = drop (unat (cidx fr)) (map item_kv es) @ after frs ts"
  shows "at_leaf env H L w0 r xs (c, w)"
  unfolding at_leaf_def case_prod_conv using assms by blast

text \<open>The result of a movement to the first binding of \<open>xs\<close>.\<close>

definition moved ::
    "env \<Rightarrow> handle multiset \<Rightarrow> PageId set \<Rightarrow> world \<Rightarrow> tree \<Rightarrow> (bytes \<times> bytes) list \<Rightarrow> (bytes \<times> bytes) option \<Rightarrow> cworld \<Rightarrow> bool" where
  "moved env H L w0 r xs x s \<longleftrightarrow>
     (if xs = [] then x = None \<and> stack (fst s) = [] \<and> reading env H L w0 (snd s) else x = Some (hd xs) \<and> at_leaf env H L w0 r xs s)"

lemma on_path_length: "on_path frs ts t r \<Longrightarrow> length ts = length frs"
  by (induction frs ts t r rule: on_path.induct) auto

lemma kids_good:
  assumes "good env L W t" "c \<in> set (kids t)"
  shows "good env L W c"
proof (cases t)
  case (Node p cks r)
  then have "height c < height t" using assms(2) height_le [of p cks r "height t - 1"] by auto
  then show ?thesis using assms Node by (fastforce simp: good_def)
qed (use assms in simp)

lemma on_path_good: "on_path frs ts t r \<Longrightarrow> good env L W r \<Longrightarrow> good env L W t \<and> (\<forall>x \<in> set ts. good env L W x)"
proof (induction frs ts t r rule: on_path.induct)
  case (2 fr frs p ts t r)
  then have "good env L W p" "t \<in> set (kids p)" by auto
  then show ?case using 2 kids_good by auto
qed auto

lemma solid_kvs: "solid t \<Longrightarrow> kvs t \<noteq> []"
  by (induction t) auto

lemma kvs_kids: "kids t \<noteq> [] \<Longrightarrow> kvs t = concat (map kvs (kids t))"
  by (cases t) (simp_all add: case_prod_unfold comp_def)

lemma frame_data:
  assumes "reading env H L w0 w" "(f, tid t, False) \<in># H" "good env L (V w0) t"
  shows "node_data w f = V w0 (tid t)"
proof -
  have "tid t \<in> L" using assms(3) tid_in_tpages [of t] by (auto simp: good_def)
  then show ?thesis using handle_node(1) [of env H L w f "tid t" False] assms(1,2) by (auto simp: reading_def calm_def same_pages_def)
qed

lemma read_unpin:
  assumes "reading env (add_mset (f, pid, wr) H) L w0 w"
  obtains w' where "node_unpin f w = Some w'" "reading env H L w0 w'"
proof -
  have "read_ok env (add_mset (f, pid, wr) H) L w" using assms by (simp add: reading_def)
  then obtain w' where "node_unpin f w = Some w'" "reading env H L w w'" by (rule read_unpin_rule)
  then show thesis using that reading_trans [OF assms] by blast
qed

lemma pins_append: "length frs = length ts \<Longrightarrow> pins (frs @ frs') (ts @ ts') = pins frs ts + pins frs' ts'"
  by (induction frs ts rule: list_induct2) auto

lemma pins_rev: "length frs = length ts \<Longrightarrow> pins (rev frs) (rev ts) = pins frs ts"
  by (induction frs ts rule: list_induct2) (auto simp: pins_append)

lemma unpin_frames_ok: "length frs = length ts \<Longrightarrow> reading env (pins frs ts + H) L w0 w \<Longrightarrow> \<exists>w'. unpin_frames frs w = Some w' \<and> reading env H L w0 w'"
proof (induction frs ts arbitrary: w rule: list_induct2)
  case (Cons fr frs t ts)
  then have "reading env (add_mset (cnode fr, tid t, False) (pins frs ts + H)) L w0 w" by simp
  then obtain w1 where "node_unpin (cnode fr) w = Some w1" "reading env (pins frs ts + H) L w0 w1" by (rule read_unpin)
  then show ?case using Cons.IH by simp
qed simp

lemma CloseCursor_ok:
  assumes "parked env H L w0 (c, w)"
  obtains w' where "CloseCursor c w = Some (c\<lparr>stack := []\<rparr>, w')" "reading env H L w0 w'"
proof -
  obtain ts where ts: "length ts = length (stack c)" "reading env (pins (stack c) ts + H) L w0 w" using assms by (auto simp: parked_def)
  then have "reading env (pins (rev (stack c)) (rev ts) + H) L w0 w" by (simp add: pins_rev)
  then obtain w' where "unpin_frames (rev (stack c)) w = Some w'" "reading env H L w0 w'" using unpin_frames_ok [of "rev (stack c)" "rev ts" env H L w0 w] ts(1) by auto
  then show thesis using that by (simp add: CloseCursor_def)
qed

section \<open>Rules\<close>

lemma getNode_read:
  assumes "reading env H L w0 w" "good env L (V w0) t"
  shows "result_ok (getNode env (tid t) w) (reading env H L w0)
    (\<lambda>f w'. reading env (add_mset (f, tid t, False) H) L w0 w' \<and> node_data w' f = V w0 (tid t))"
proof -
  have "read_ok env H L w" "tid t \<in> L" using assms tid_in_tpages [of t] by (auto simp: good_def reading_def)
  then have g: "result_ok (getNode env (tid t) w) (reading env H L w) (\<lambda>f w'. reading env (add_mset (f, tid t, False) H) L w w')" by (rule txnGet_read)
  show ?thesis
  proof (rule result_ok_mono [OF g])
    show "reading env H L w0 s" if "reading env H L w s" for s using reading_trans [OF assms(1) that] .
    show "reading env (add_mset (f, tid t, False) H) L w0 s \<and> node_data s f = V w0 (tid t)" if "reading env (add_mset (f, tid t, False) H) L w s" for f s
      using reading_trans [OF assms(1) that] frame_data [OF _ _ assms(2)] by simp
  qed
qed

lemma kv_rule:
  assumes a: "at_leaf env H L w0 r xs (c, w)" and g: "good env L (V w0) r"
  shows "result_ok (kv_err env c w) (parked env H L w0) (moved env H L w0 r xs)"
proof -
  obtain fr frs p es ts where s: "stack c = fr # frs" "on_path frs ts (Leaf p es) r" "unat (cidx fr) < length es"
    "xs = drop (unat (cidx fr)) (map item_kv es) @ after frs ts" and rd: "reading env (pins (fr # frs) (Leaf p es # ts) + H) L w0 w"
    using a by (auto simp: at_leaf_def)
  let ?i = "unat (cidx fr)" and ?H = "pins (fr # frs) (Leaf p es # ts) + H"
  obtain k v ps where e: "es ! ?i = (k, v, ps)" by (cases "es ! ?i") auto
  have gl: "good env L (V w0) (Leaf p es)" using on_path_good [OF s(2) g] by blast
  have d: "node_data w (cnode fr) = V w0 p" using frame_data [OF rd _ gl] by simp
  have ln: "lnode (node_data w (cnode fr)) (map item_entry es)" and it: "\<forall>e \<in> set es. item_ok (V w0) e" using gl d by (simp_all add: good_def)
  have mem: "(k, v, ps) \<in> set es" using s(3) e nth_mem [of ?i es] by simp
  then have psL: "set ps \<subseteq> L" using gl item_pages_ipages [OF mem] by (auto simp: good_def item_pages_def ipages_def)
  then have iok: "item_ok (V w) (k, v, ps)" using it mem rd item_ok_cong [of "(k, v, ps)" "V w" "V w0"]
    by (auto simp: reading_def calm_def same_pages_def item_pages_def)
  have len: "length es \<le> 2045" using lnode_length [OF ln] by simp
  have "cidx fr < of_nat (length es)" using s(3) len by (simp add: word_less_nat_alt unat_of_nat)
  then have v: "Valid c w = Some True" using lnode_reads(2) [OF ln] s(1) by (simp add: Valid_def)
  have key: "key (node_data w (cnode fr)) (cidx fr) = Some k" using lnode_cell(1) [OF ln refl] s(3) e by simp
  have hd: "xs \<noteq> []" "hd xs = (k, v)" using s(3,4) e by (simp_all add: hd_append hd_drop_conv_nth item_kv_def)
  have ln2: "length (stack c) = length (Leaf p es # ts)" using s(1) on_path_length [OF s(2)] by simp
  have rk: "read_ok env ?H L w" using rd by (simp add: reading_def)
  show ?thesis using item_value [OF rk ln refl s(3) e iok psL]
  proof (cases rule: result_ok_cases)
    case (err x s')
    have "reading env ?H L w0 s'" using reading_trans [OF rd err(2)] .
    then have "parked env H L w0 (c, s')" unfolding parked_def using s(1) ln2 by (metis (mono_tags, lifting) case_prod_conv)
    then show ?thesis using v key s(1) err(1) by (simp add: kv_err_def result_ok_def)
  next
    case (val x w1)
    have "at_leaf env H L w0 r xs (c, w1)" using s reading_trans [OF rd, of ?H w1] val(2) unfolding at_leaf_def by blast
    then show ?thesis using v key s(1) val hd by (simp add: kv_err_def result_ok_def moved_def)
  qed
qed

lemma descend_rule:
  "height t < n \<Longrightarrow> good env L (V w0) r \<Longrightarrow> on_path (stack c) ts t r \<Longrightarrow> reading env (pins (stack c) ts + H) L w0 w \<Longrightarrow>
   result_ok (descend_err n env (tid t) c w) (parked env H L w0) (\<lambda>_ s. at_leaf env H L w0 r (kvs t @ after (stack c) ts) s)"
proof (induction n arbitrary: t c ts w)
  case (Suc n)
  have g: "good env L (V w0) t" using on_path_good [OF Suc.prems(3,2)] by blast
  show ?case using getNode_read [OF Suc.prems(4) g]
  proof (cases rule: result_ok_cases)
    case (err e s)
    then have "parked env H L w0 (c, s)" using on_path_length [OF Suc.prems(3)] by (auto simp: parked_def)
    then show ?thesis using err(1) by (simp add: result_ok_def)
  next
    case (val f w1)
    let ?fr = "\<lparr>cnode = f, cidx = 0\<rparr>"
    have rd: "reading env (pins (?fr # stack c) (t # ts) + H) L w0 w1" and d: "node_data w1 f = V w0 (tid t)" using val(2) by simp_all
    show ?thesis
    proof (cases t)
      case (Leaf p es)
      have ln: "lnode (node_data w1 f) (map item_entry es)" and ne: "es \<noteq> []" using g d Leaf by (simp_all add: good_def)
      have "at_leaf env H L w0 r (kvs t @ after (stack c) ts) (push_frame f 0 c, w1)"
        using Suc.prems(3) rd ne Leaf by (intro at_leafI [where fr = ?fr and p = p and es = es]) (simp_all add: push_frame_def)
      then show ?thesis using val(1) lnode_reads(1) [OF ln] by (simp add: result_ok_def)
    next
      case (Node p cks q)
      have ind: "inode (node_data w1 f) (child_refs cks) (tid q)" using g d Node by (simp add: good_def)
      let ?k = "hd (kids t)"
      have k: "kids t = ?k # tl (kids t)" using Node by simp
      have ch: "child (node_data w1 f) 0 = Some (tid ?k)"
        using child_ids_inode [OF ind, of 0 1] inode_cell(2) [OF ind, of 0 0] inode_child_last [OF ind, of 0] Node
        by (cases cks) (auto simp: child_refs_def split_beta)
      have u: "on_path (stack (push_frame f 0 c)) (t # ts) ?k r" using Suc.prems(3) Node by (simp add: push_frame_def hd_conv_nth)
      have gk: "height ?k < height t" using Node height_le [of p cks q "height t - 1"] by (cases cks) auto
      have eq: "kvs ?k @ after (stack (push_frame f 0 c)) (t # ts) = kvs t @ after (stack c) ts"
        using k kvs_kids [of t] by (simp add: push_frame_def drop_Suc) (metis append.assoc concat.simps(2) list.simps(9) list.discI)
      have hk: "height ?k < n" using gk Suc.prems(1) by simp
      have rd': "reading env (pins (stack (push_frame f 0 c)) (t # ts) + H) L w0 w1" using rd by (simp add: push_frame_def)
      from Suc.IH [OF hk Suc.prems(2) u rd'] show ?thesis
        using val(1) inode_reads(1) [OF ind] ch unfolding eq by (simp add: nodeLeaf_def nodeInternal_def)
    qed
  qed
qed simp

lemma nCells_kids:
  assumes "good env L W t" "kids t \<noteq> []"
  shows "nCells (W (tid t)) = Some (of_nat (length (kids t) - 1))" "length (kids t) \<le> 341" "unat i < length (kids t) \<Longrightarrow> child (W (tid t)) i = Some (tid (kids t ! unat i))"
proof -
  obtain p cks q where t: "t = Node p cks q" using assms(2) by (cases t) auto
  have ind: "inode (W (tid t)) (child_refs cks) (tid q)" using assms(1) t by (simp add: good_def)
  have len: "length (child_refs cks) = length cks" by (simp add: child_refs_def)
  show "nCells (W (tid t)) = Some (of_nat (length (kids t) - 1))" "length (kids t) \<le> 341" using inode_reads(2) [OF ind] inode_length [OF ind] len t by simp_all
  show "child (W (tid t)) i = Some (tid (kids t ! unat i))" if "unat i < length (kids t)"
  proof (cases "unat i < length cks")
    case True
    then show ?thesis using inode_cell(2) [OF ind refl] len t by (simp add: child_refs_def split_beta nth_append)
  next
    case False
    then have "unat i = length cks" using that t by simp
    then have "i = of_nat (length (child_refs cks))" using word_unat_eq_iff [of i] inode_length [OF ind] len by (simp add: unat_of_nat)
    then show ?thesis using inode_child_last [OF ind] \<open>unat i = length cks\<close> t by (simp add: nth_append)
  qed
qed

lemma next_up_rule:
  "good env L (V w0) r \<Longrightarrow> on_path frs ts t r \<Longrightarrow> reading env (pins frs ts + H) L w0 w \<Longrightarrow>
   result_ok (next_up_err env frs c w) (parked env H L w0) (moved env H L w0 r (after frs ts))"
proof (induction frs arbitrary: ts t w)
  case Nil
  then have "ts = []" by (cases ts) auto
  then show ?case using Nil by (simp add: result_ok_def moved_def)
next
  case (Cons fr frs)
  obtain p ts' where ts: "ts = p # ts'" using Cons.prems(2) by (cases ts) auto
  let ?i = "unat (cidx fr)"
  have u: "?i < length (kids p)" "on_path frs ts' p r" using Cons.prems(2) ts by auto
  have g: "good env L (V w0) p" using on_path_good [OF u(2) Cons.prems(1)] by blast
  have rd: "reading env (add_mset (cnode fr, tid p, False) (pins frs ts' + H)) L w0 w" using Cons.prems(3) ts by simp
  have d: "node_data w (cnode fr) = V w0 (tid p)" using frame_data [OF rd _ g] by simp
  have ne: "kids p \<noteq> []" using u(1) by auto
  note nk = nCells_kids [OF g ne]
  have lt: "cidx fr < of_nat (length (kids p) - 1) \<longleftrightarrow> Suc ?i < length (kids p)"
  proof -
    define m where "m = length (kids p) - 1"
    have m: "m \<le> 340" "Suc m = length (kids p)" using nk(2) u(1) by (auto simp: m_def)
    have "cidx fr < of_nat m \<longleftrightarrow> ?i < m" using m(1) by (simp add: word_less_nat_alt unat_of_nat)
    then show ?thesis using m(2) unfolding m_def by auto
  qed
  show ?case
  proof (cases "Suc ?i < length (kids p)")
    case True
    let ?fr = "fr\<lparr>cidx := cidx fr + 1\<rparr>" and ?k = "kids p ! Suc ?i"
    have i1: "unat (cidx fr + 1) = Suc ?i" using True nk(2) by (simp add: unat_arith_simps unat_of_nat)
    have ch: "child (V w0 (tid p)) (cidx fr + 1) = Some (tid ?k)" using nk(3) [of "cidx fr + 1"] i1 True by simp
    have dr: "drop (Suc ?i) (kids p) = ?k # drop (Suc (Suc ?i)) (kids p)" using Cons_nth_drop_Suc [OF True] by simp
    have gk: "good env L (V w0) ?k" using kids_good [OF g] True by simp
    have hk: "height ?k < fuel env" and sk: "kvs ?k \<noteq> []" using gk solid_kvs by (auto simp: good_def)
    let ?c = "c\<lparr>stack := ?fr # frs\<rparr>"
    have uk: "on_path (stack ?c) ts ?k r" using u(2) True i1 ts by simp
    have rdk: "reading env (pins (stack ?c) ts + H) L w0 w" using rd ts by simp
    have eq: "kvs ?k @ after (stack ?c) ts = after (fr # frs) ts" using dr i1 ts by simp
    have step: "next_up_err env (fr # frs) c w = (descend_err (fuel env) env (tid ?k) ?c w \<bind> (\<lambda>(r, c, w).
        case r of Inl e \<Rightarrow> do { (c, w) \<leftarrow> CloseCursor c w; Some (Inl e, c, w) } | Inr _ \<Rightarrow> kv_err env c w))"
      using nk(1) d lt True ch by (simp add: Let_def)
    show ?thesis using descend_rule [OF hk Cons.prems(1) uk rdk]
    proof (cases rule: result_ok_cases)
      case (err e s)
      obtain c1 w1 where s: "s = (c1, w1)" by (cases s)
      obtain w2 where w2: "CloseCursor c1 w1 = Some (c1\<lparr>stack := []\<rparr>, w2)" "reading env H L w0 w2" using err(2) s CloseCursor_ok by blast
      then show ?thesis unfolding step using err(1) s by (simp add: result_ok_def parked_def)
    next
      case (val x s)
      obtain c1 w1 where s: "s = (c1, w1)" by (cases s)
      have "at_leaf env H L w0 r (after (fr # frs) ts) (c1, w1)" using val(2) s unfolding eq by simp
      from kv_rule [OF this Cons.prems(1)] show ?thesis unfolding step using val(1) s by simp
    qed
  next
    case False
    obtain w1 where w1: "node_unpin (cnode fr) w = Some w1" "reading env (pins frs ts' + H) L w0 w1" using rd by (rule read_unpin)
    have "after (fr # frs) ts = after frs ts'" using False ts by simp
    then show ?thesis using Cons.IH [OF Cons.prems(1) u(2) w1(2)] nk(1) d lt False w1(1) by simp
  qed
qed

text \<open>Leaving a leaf at its end, the step that \<open>Next\<close> and \<open>Seek\<close> share.\<close>

lemma leave_leaf:
  assumes g: "good env L (V w0) r" and st: "stack c = fr # frs" and u: "on_path frs ts (Leaf p es) r"
    and i: "unat (cidx fr) = length es \<or> Suc (unat (cidx fr)) = length es" and rd: "reading env (pins (fr # frs) (Leaf p es # ts) + H) L w0 w"
  shows "result_ok (Next_err env c w) (parked env H L w0) (moved env H L w0 r (after frs ts))"
proof -
  have gl: "good env L (V w0) (Leaf p es)" using on_path_good [OF u g] by blast
  have d: "node_data w (cnode fr) = V w0 p" using frame_data [OF rd _ gl] by simp
  have ln: "lnode (node_data w (cnode fr)) (map item_entry es)" using gl d by (simp add: good_def)
  have len: "length es \<le> 2045" using lnode_length [OF ln] by simp
  have "unat (cidx fr + 1) = Suc (unat (cidx fr))" using i len by (auto simp: unat_arith_simps unat_of_nat)
  then have nlt: "\<not> cidx fr + 1 < of_nat (length es)" using i len by (auto simp: word_less_nat_alt unat_of_nat)
  have "reading env (add_mset (cnode fr, p, False) (pins frs ts + H)) L w0 w" using rd by simp
  then obtain w1 where w1: "node_unpin (cnode fr) w = Some w1" "reading env (pins frs ts + H) L w0 w1" by (rule read_unpin)
  from next_up_rule [OF g u w1(2)] show ?thesis using st lnode_reads(2) [OF ln] nlt w1(1) by (simp add: Next_err_def)
qed

lemma Next_rule:
  assumes g: "good env L (V w0) r" and a: "at_leaf env H L w0 r xs (c, w)"
  shows "result_ok (Next_err env c w) (parked env H L w0) (moved env H L w0 r (tl xs))"
proof -
  obtain fr frs p es ts where s: "stack c = fr # frs" "on_path frs ts (Leaf p es) r" "unat (cidx fr) < length es"
    "xs = drop (unat (cidx fr)) (map item_kv es) @ after frs ts" and rd: "reading env (pins (fr # frs) (Leaf p es # ts) + H) L w0 w"
    using a by (auto simp: at_leaf_def)
  have tl: "tl xs = drop (Suc (unat (cidx fr))) (map item_kv es) @ after frs ts" using s(3,4) by (simp add: drop_Suc tl_drop)
  show ?thesis
  proof (cases "Suc (unat (cidx fr)) < length es")
    case False
    then have "Suc (unat (cidx fr)) = length es" using s(3) by simp
    then show ?thesis using leave_leaf [OF g s(1,2) _ rd] tl by simp
  next
    case True
    have gl: "good env L (V w0) (Leaf p es)" using on_path_good [OF s(2) g] by blast
    have d: "node_data w (cnode fr) = V w0 p" using frame_data [OF rd _ gl] by simp
    have ln: "lnode (node_data w (cnode fr)) (map item_entry es)" using gl d by (simp add: good_def)
    have len: "length es \<le> 2045" using lnode_length [OF ln] by simp
    have i1: "unat (cidx fr + 1) = Suc (unat (cidx fr))" using True len by (simp add: unat_arith_simps unat_of_nat)
    then have lt: "cidx fr + 1 < of_nat (length es)" using True len by (simp add: word_less_nat_alt unat_of_nat)
    let ?c = "c\<lparr>stack := fr\<lparr>cidx := cidx fr + 1\<rparr> # frs\<rparr>"
    have "at_leaf env H L w0 r (tl xs) (?c, w)" using True i1 tl rd by (intro at_leafI [OF _ s(2), where fr = "fr\<lparr>cidx := cidx fr + 1\<rparr>"]) simp_all
    from kv_rule [OF this g] show ?thesis using s(1) lnode_reads(2) [OF ln] lt by (simp add: Next_err_def)
  qed
qed

lemma First_rule:
  assumes g: "good env L (V w0) r" and c: "parked env H L w0 (c, w)" and t: "root b = tid r"
  shows "result_ok (First_err env b c w) (parked env H L w0) (moved env H L w0 r (kvs r))"
proof -
  obtain w1 where w1: "CloseCursor c w = Some (c\<lparr>stack := []\<rparr>, w1)" "reading env H L w0 w1" using c by (rule CloseCursor_ok)
  have nz: "root b \<noteq> 0" using g t tid_nonzero by (auto simp: good_def)
  have h: "height r < fuel env" using g by (simp add: good_def)
  have u: "on_path (stack (c\<lparr>stack := []\<rparr>)) [] r r" "reading env (pins (stack (c\<lparr>stack := []\<rparr>)) [] + H) L w0 w1" using w1(2) by simp_all
  show ?thesis using descend_rule [OF h g u]
  proof (cases rule: result_ok_cases)
    case (err e s)
    then show ?thesis using w1(1) nz t by (cases s) (simp add: First_err_def result_ok_def)
  next
    case (val x s)
    obtain c1 w2 where s: "s = (c1, w2)" by (cases s)
    have "at_leaf env H L w0 r (kvs r) (c1, w2)" using val(2) s by simp
    from kv_rule [OF this g] show ?thesis using w1(1) nz t val(1) s by (simp add: First_err_def)
  qed
qed

section \<open>Seeking\<close>

lemma pick_dropWhile:
  "ordered_cs lo cks r hi \<Longrightarrow>
   dropWhile (\<lambda>x. fst x < k) (kvs (Node p cks r)) =
     dropWhile (\<lambda>x. fst x < k) (kvs (pick cks r k)) @ concat (map kvs (drop (Suc (rank_le (map snd cks) k)) (kids (Node p cks r))))"
proof (induction cks arbitrary: lo)
  case (Cons ck cks)
  obtain c s where ck: "ck = (c, s)" by (cases ck)
  have o: "ordered lo c (Some s)" "ordered_cs (Some s) cks r hi" using Cons.prems ck by simp_all
  have split: "kvs (Node p (ck # cks) r) = kvs c @ kvs (Node p cks r)" using ck by simp
  show ?case
  proof (cases "k < s")
    case True
    then have i: "rank_le (map snd (ck # cks)) k = 0" using ck by (simp add: rank_le_def)
    have ge: "\<not> fst x < k" if "x \<in> set (kvs (Node p cks r))" for x
      using ordered_keys(2) [OF o(2) that] True by (auto simp: above_def)
    have rest: "dropWhile (\<lambda>x. fst x < k) (kvs (Node p cks r)) = kvs (Node p cks r)"
      using ge by (cases "kvs (Node p cks r)") (simp_all del: kvs.simps)
    have tl: "concat (map kvs (drop (Suc 0) (kids (Node p (ck # cks) r)))) = kvs (Node p cks r)" by (simp add: case_prod_unfold comp_def)
    show ?thesis
    proof (cases "\<forall>x \<in> set (kvs c). fst x < k")
      case all: True
      then have "dropWhile (\<lambda>x. fst x < k) (kvs c) = []" by simp
      then show ?thesis unfolding split i tl using all True ck rest by (simp add: dropWhile_append2 del: kvs.simps)
    next
      case False
      then show ?thesis unfolding split i tl using True ck by (auto simp: dropWhile_append1 simp del: kvs.simps)
    qed
  next
    case False
    then have i: "rank_le (map snd (ck # cks)) k = Suc (rank_le (map snd cks) k)" using ck by (simp add: rank_le_def)
    have "fst x < k" if "x \<in> set (kvs c)" for x using ordered_keys(1) [OF o(1) that] False by (auto simp: below_def)
    then have "dropWhile (\<lambda>x. fst x < k) (kvs (Node p (ck # cks) r)) = dropWhile (\<lambda>x. fst x < k) (kvs (Node p cks r))"
      unfolding split by (simp add: dropWhile_append2 del: kvs.simps)
    then show ?thesis using Cons.IH [OF o(2)] False ck i by (simp del: kvs.simps)
  qed
qed (simp add: rank_le_def)

lemma leaf_dropWhile: "dropWhile (\<lambda>x. fst x < k) (map item_kv es) = drop (rank_lt (map fst es) k) (map item_kv es)"
  by (simp add: dropWhile_eq_drop rank_lt_def takeWhile_map comp_def item_kv_def)

lemma Seek_loop_rule:
  "height t < n \<Longrightarrow> good env L (V w0) r \<Longrightarrow> on_path (stack c) ts t r \<Longrightarrow> ordered lo t hi \<Longrightarrow> reading env (pins (stack c) ts + H) L w0 w \<Longrightarrow>
   result_ok (Seek_loop_err n env k (tid t) c w) (parked env H L w0) (moved env H L w0 r (dropWhile (\<lambda>x. fst x < k) (kvs t) @ after (stack c) ts))"
proof (induction n arbitrary: t c ts w lo hi)
  case (Suc n)
  have g: "good env L (V w0) t" using on_path_good [OF Suc.prems(3,2)] by blast
  have le: "length ts = length (stack c)" using on_path_length [OF Suc.prems(3)] .
  show ?case using getNode_read [OF Suc.prems(5) g]
  proof (cases rule: result_ok_cases)
    case (err e s)
    then have "parked env H L w0 (c, s)" using le by (auto simp: parked_def)
    then obtain w1 where "CloseCursor c s = Some (c\<lparr>stack := []\<rparr>, w1)" "reading env H L w0 w1" by (rule CloseCursor_ok)
    then show ?thesis using err(1) by (simp add: result_ok_def parked_def)
  next
    case (val f w1)
    have rd: "reading env (add_mset (f, tid t, False) (pins (stack c) ts + H)) L w0 w1" and d: "node_data w1 f = V w0 (tid t)" using val(2) by simp_all
    show ?thesis
    proof (cases t)
      case (Leaf p es)
      let ?i = "rank_lt (map fst es) k"
      have ln: "lnode (node_data w1 f) (map item_entry es)" using g d Leaf by (simp add: good_def)
      have srt: "sorted_wrt (<) (map fst es)" using Suc.prems(4) Leaf by simp
      have keys: "map fst (map item_entry es) = map fst es" by simp
      have len: "length es \<le> 2045" using lnode_length [OF ln] by simp
      have il: "?i \<le> length es" using length_takeWhile_le [of "\<lambda>x. x < k" "map fst es"] by (simp add: rank_lt_def)
      have ui: "unat (of_nat ?i :: u16) = ?i" using il len by (simp add: unat_of_nat)
      have sl: "searchLeaf (node_data w1 f) k = Some (of_nat ?i, k \<in> fst ` set (map item_entry es))" using searchLeaf_lnode [OF ln] srt unfolding keys by simp
      have ge: "of_nat (length es) \<le> (of_nat ?i :: u16) \<longleftrightarrow> length es \<le> ?i" using il len by (simp add: word_le_nat_alt unat_of_nat)
      let ?c = "push_frame f (of_nat ?i) c" and ?fr = "\<lparr>cnode = f, cidx = of_nat ?i\<rparr>"
      have st: "stack ?c = ?fr # stack c" by (simp add: push_frame_def)
      have u: "on_path (stack c) ts (Leaf p es) r" using Suc.prems(3) Leaf by simp
      have rd': "reading env (pins (?fr # stack c) (Leaf p es # ts) + H) L w0 w1" using rd Leaf by simp
      have xs: "dropWhile (\<lambda>x. fst x < k) (kvs t) @ after (stack c) ts = drop ?i (map item_kv es) @ after (stack c) ts" using Leaf leaf_dropWhile by simp
      have go: "result_ok (if length es \<le> ?i then Next_err env ?c w1 else kv_err env ?c w1) (parked env H L w0) (moved env H L w0 r (drop ?i (map item_kv es) @ after (stack c) ts))"
      proof (cases "length es \<le> ?i")
        case True
        then have "unat (cidx ?fr) = length es \<or> Suc (unat (cidx ?fr)) = length es" using il ui by simp
        from leave_leaf [OF Suc.prems(2) st u this rd'] show ?thesis using True by simp
      next
        case False
        have "at_leaf env H L w0 r (drop ?i (map item_kv es) @ after (stack c) ts) (?c, w1)"
          using ui False by (intro at_leafI [OF st u _ rd']) simp_all
        from kv_rule [OF this Suc.prems(2)] show ?thesis using False by simp
      qed
      show ?thesis unfolding xs using go val(1) lnode_reads(1,2) [OF ln] sl ge by (simp add: Let_def)
    next
      case (Node p cks q)
      let ?i = "rank_le (map snd cks) k" and ?k = "pick cks q k"
      have ind: "inode (node_data w1 f) (child_refs cks) (tid q)" using g d Node by (simp add: good_def)
      have oc: "ordered_cs lo cks q hi" using Suc.prems(4) Node by simp
      obtain idx where idx: "searchInternal (node_data w1 f) k = Some idx" "child (node_data w1 f) idx = Some (tid ?k)" "unat idx = ?i" "?i \<le> length cks"
        using searchInternal_pick [OF ind oc, of k] by blast
      obtain lo' hi' where ok: "ordered lo' ?k hi'" using pick_ordered [OF oc, of k] by blast
      have srt: "sorted_wrt (<) (map snd cks)" using ordered_cs_seps [OF oc] by blast
      have kid: "kids t ! ?i = ?k" "?i < length (kids t)" using pick_nth [OF srt, of q k] idx(4) Node by (auto simp: nth_append)
      let ?c = "push_frame f idx c"
      have u: "on_path (stack ?c) (t # ts) ?k r" using Suc.prems(3) kid idx(3) by (simp add: push_frame_def)
      have rd': "reading env (pins (stack ?c) (t # ts) + H) L w0 w1" using rd by (simp add: push_frame_def)
      have hk: "height ?k < n" using less_le_trans [OF height_pick [of cks q k p]] Suc.prems(1) unfolding Node by (simp only: less_Suc_eq_le)
      have eq: "dropWhile (\<lambda>x. fst x < k) (kvs t) @ after (stack c) ts = dropWhile (\<lambda>x. fst x < k) (kvs ?k) @ after (stack ?c) (t # ts)"
        using pick_dropWhile [OF oc, of k p] idx(3) Node by (simp add: push_frame_def del: kvs.simps)
      from Suc.IH [OF hk Suc.prems(2) u ok rd'] show ?thesis unfolding eq
        using val(1) inode_reads(1) [OF ind] idx(1,2) by (simp add: nodeLeaf_def nodeInternal_def)
    qed
  qed
qed simp

lemma Seek_rule:
  assumes g: "good env L (V w0) r" and c: "parked env H L w0 (c, w)" and t: "root b = tid r" and o: "ordered None r None"
  shows "result_ok (Seek_err env b k c w) (parked env H L w0) (moved env H L w0 r (dropWhile (\<lambda>x. fst x < k) (kvs r)))"
proof -
  obtain w1 where w1: "CloseCursor c w = Some (c\<lparr>stack := []\<rparr>, w1)" "reading env H L w0 w1" using c by (rule CloseCursor_ok)
  have nz: "root b \<noteq> 0" using g t tid_nonzero by (auto simp: good_def)
  have h: "height r < fuel env" using g by (simp add: good_def)
  have u: "on_path (stack (c\<lparr>stack := []\<rparr>)) [] r r" "reading env (pins (stack (c\<lparr>stack := []\<rparr>)) [] + H) L w0 w1" using w1(2) by simp_all
  from Seek_loop_rule [OF h g u(1) o u(2), of k] show ?thesis using w1(1) nz t by (simp add: Seek_err_def)
qed

section \<open>Scans\<close>

text \<open>The loop of a client: \<open>for k, v := c.First(); k != nil; k, v = c.Next()\<close>, or from \<open>c.Seek(start)\<close>.\<close>

fun gather :: "nat \<Rightarrow> env \<Rightarrow> (bytes \<times> bytes) option \<Rightarrow> Cursor \<Rightarrow> world \<Rightarrow> ((bytes \<times> bytes) list \<times> Cursor \<times> world) option" where
  "gather 0 env x c w = None"
| "gather (Suc n) env None c w = Some ([], c, w)"
| "gather (Suc n) env (Some e) c w = do {
     (x, c, w) \<leftarrow> Next env c w;
     (xs, c, w) \<leftarrow> gather n env x c w;
     Some (e # xs, c, w)
   }"

fun gather_err :: "nat \<Rightarrow> env \<Rightarrow> (bytes \<times> bytes) option \<Rightarrow> Cursor \<Rightarrow> world \<Rightarrow> ((bytes \<times> bytes) list, cworld) outcome" where
  "gather_err 0 env x c w = None"
| "gather_err (Suc n) env None c w = Some (Inr [], c, w)"
| "gather_err (Suc n) env (Some e) c w =
     try_ok (Next_err env c w) (\<lambda>x (c, w). try_ok (gather_err n env x c w) (\<lambda>xs s. Some (Inr (e # xs), s)))"

definition scan :: "nat \<Rightarrow> env \<Rightarrow> BTree \<Rightarrow> bytes option \<Rightarrow> world \<Rightarrow> ((bytes \<times> bytes) list \<times> Cursor \<times> world) option" where
  "scan n env t start w = do {
     (x, c, w) \<leftarrow> (case start of None \<Rightarrow> First env (Some t) NewCursor w | Some k \<Rightarrow> Seek env (Some t) k NewCursor w);
     gather n env x c w
   }"

definition scan_err :: "nat \<Rightarrow> env \<Rightarrow> BTree \<Rightarrow> bytes option \<Rightarrow> world \<Rightarrow> ((bytes \<times> bytes) list, cworld) outcome" where
  "scan_err n env t start w =
     try_ok (case start of None \<Rightarrow> First_err env t NewCursor w | Some k \<Rightarrow> Seek_err env t k NewCursor w) (\<lambda>x (c, w). gather_err n env x c w)"

definition from_key :: "bytes option \<Rightarrow> (bytes \<times> bytes) list \<Rightarrow> (bytes \<times> bytes) list" where
  "from_key start xs = (case start of None \<Rightarrow> xs | Some k \<Rightarrow> filter (\<lambda>x. k \<le> fst x) xs)"

text \<open>What a scan of the bindings \<open>xs\<close> has to give, beside the run in which the errors are visible.\<close>

definition scanned ::
    "env \<Rightarrow> handle multiset \<Rightarrow> PageId set \<Rightarrow> world \<Rightarrow> (bytes \<times> bytes) list \<Rightarrow> ((bytes \<times> bytes) list, cworld) outcome \<Rightarrow>
     ((bytes \<times> bytes) list \<times> Cursor \<times> world) option \<Rightarrow> bool" where
  "scanned env H L w0 xs re rs \<longleftrightarrow>
     (case re of
        None \<Rightarrow> False
      | Some (Inr ys, c, w) \<Rightarrow> ys = xs \<and> rs = Some (xs, c, w) \<and> stack c = [] \<and> reading env H L w0 w
      | Some (Inl e, s) \<Rightarrow> (\<exists>ys s'. rs = Some (ys, s') \<and> prefix ys xs))"

lemma gather_rule:
  "good env L (V w0) r \<Longrightarrow> moved env H L w0 r xs x (c, w) \<Longrightarrow> length xs < n \<Longrightarrow> scanned env H L w0 xs (gather_err n env x c w) (gather n env x c w)"
proof (induction n arbitrary: xs x c w)
  case (Suc n)
  show ?case
  proof (cases xs)
    case Nil
    then show ?thesis using Suc.prems(2) by (simp add: moved_def scanned_def)
  next
    case (Cons e ys)
    then have x: "x = Some e" and a: "at_leaf env H L w0 r xs (c, w)" using Suc.prems(2) by (simp_all add: moved_def)
    have ln: "length ys < n" using Suc.prems(3) Cons by simp
    then obtain m where n: "n = Suc m" by (cases n) auto
    show ?thesis using Next_rule [OF Suc.prems(1) a]
    proof (cases rule: result_ok_cases)
      case (err er s)
      obtain c1 w1 where s: "s = (c1, w1)" by (cases s)
      have "Next env c w = Some (None, c1, w1)" using err(1) s by (simp add: Next_forget)
      then show ?thesis using err(1) s x n Cons by (simp add: scanned_def try_ok_def try_or_def)
    next
      case (val x1 s)
      obtain c1 w1 where s: "s = (c1, w1)" by (cases s)
      have nx: "Next env c w = Some (x1, c1, w1)" using val(1) s by (simp add: Next_forget)
      have "moved env H L w0 r ys x1 (c1, w1)" using val(2) s Cons by simp
      from Suc.IH [OF Suc.prems(1) this ln] show ?thesis
        using val(1) s nx x Cons unfolding scanned_def by (auto simp: try_ok_def try_or_def split: option.splits sum.splits prod.splits)
    qed
  qed
qed simp

lemma dropWhile_sorted: "sorted_wrt (<) (map fst xs) \<Longrightarrow> dropWhile (\<lambda>x. fst x < k) xs = filter (\<lambda>x. k \<le> fst x) (xs :: (bytes \<times> bytes) list)"
proof (induction xs)
  case (Cons x xs)
  show ?case
  proof (cases "fst x < k")
    case False
    then have "\<forall>y \<in> set xs. k \<le> fst y" using Cons.prems by auto
    then show ?thesis using False by simp
  qed (use Cons in auto)
qed simp

lemma scan_rule:
  assumes r: "read_ok env H L w" and g: "good env L (V w) r" and o: "ordered None r None" and t: "root b = tid r" and n: "length (kvs r) < n"
  shows "scanned env H L w (from_key start (kvs r)) (scan_err n env b start w) (scan n env b start w)"
proof -
  have p: "parked env H L w (NewCursor, w)" using r by (simp add: parked_def NewCursor_def reading_def)
  let ?xs = "from_key start (kvs r)"
  define fe where "fe = (case start of None \<Rightarrow> First_err env b NewCursor w | Some k \<Rightarrow> Seek_err env b k NewCursor w)"
  have f: "(case start of None \<Rightarrow> First env (Some b) NewCursor w | Some k \<Rightarrow> Seek env (Some b) k NewCursor w) = forget fe"
    by (simp add: fe_def First_forget Seek_forget split: option.splits)
  have "result_ok fe (parked env H L w) (moved env H L w r ?xs)"
    using First_rule [OF g p t] Seek_rule [OF g p t o] ordered_sorted(1) [OF o] by (cases start) (simp_all add: fe_def from_key_def dropWhile_sorted)
  then show ?thesis
  proof (cases rule: result_ok_cases)
    case (err e s)
    obtain m where "n = Suc m" using n by (cases n) auto
    then show ?thesis using err(1) f by (cases s) (simp add: scanned_def scan_def scan_err_def fe_def try_ok_def try_or_def)
  next
    case (val x s)
    obtain c1 w1 where s: "s = (c1, w1)" by (cases s)
    have "length ?xs < n" using n le_less_trans [OF length_filter_le n] by (simp add: from_key_def split: option.splits)
    from gather_rule [OF g val(2) [unfolded s] this] show ?thesis using val(1) f s by (simp add: scan_def scan_err_def fe_def [symmetric] try_ok_def try_or_def)
  qed
qed

end
