(* ===== verification/LoadMap.thy ===== *)
theory LoadMap
  imports BulkLoad MapDelete
begin

text \<open>
  What the bulk loader builds. Its spine is the right-most path of a tree that grows: the nodes to the
  left of the path are closed, and \<open>promote\<close> hangs a closed node under the path. The levels are
  balanced at every step, the keys are in order, and the bindings are those appended.
\<close>

section \<open>The right-most path\<close>

type_synonym open_node = "PageId \<times> (tree \<times> bytes) list"

text \<open>The tree with the subtree \<open>t\<close> at the lower end of the path; the path is listed from below.\<close>

fun wrap :: "tree \<Rightarrow> open_node list \<Rightarrow> tree" where
  "wrap t [] = t"
| "wrap t ((q, cks) # ns) = wrap (Node q cks t) ns"

fun spine_at :: "(PageId \<Rightarrow> bytes) \<Rightarrow> PageId \<Rightarrow> open_node list \<Rightarrow> bool" where
  "spine_at W r [] \<longleftrightarrow> True"
| "spine_at W r ((q, cks) # ns) \<longleftrightarrow> q \<noteq> 0 \<and> inode (W q) (child_refs cks) r \<and> (\<forall>ck \<in> set cks. tree_at W (fst ck)) \<and> spine_at W q ns"

fun closed_pages :: "open_node list \<Rightarrow> PageId list" where
  "closed_pages [] = []"
| "closed_pages ((q, cks) # ns) = concat (map (\<lambda>(c, k). tpages c) cks) @ closed_pages ns"

text \<open>Nodes off the path have a separator at least; a node on it may have none.\<close>

fun right_level :: "nat \<Rightarrow> tree \<Rightarrow> bool" where
  "right_level d (Leaf p es) \<longleftrightarrow> d = 0"
| "right_level d (Node p cks r) \<longleftrightarrow> 0 < d \<and> (\<forall>ck \<in> set cks. level (d - 1) (fst ck)) \<and> right_level (d - 1) r"

lemma wrap_append: "wrap t (ms @ ns) = wrap (wrap t ms) ns"
  by (induction t ms rule: wrap.induct) simp_all

lemma wrap_snoc: "wrap t (ns @ [(q, cks)]) = Node q cks (wrap t ns)"
  by (simp add: wrap_append)

lemma tree_at_wrap: "tree_at W (wrap t ns) \<longleftrightarrow> tree_at W t \<and> spine_at W (tid t) ns"
  by (induction t ns rule: wrap.induct) auto

lemma wrap_pages: "mset (tpages (wrap t ns)) = mset (tpages t) + mset (map fst ns) + mset (closed_pages ns)"
  by (induction t ns rule: wrap.induct) auto

lemma closed_pages_Cons [simp]:
  "set (closed_pages ((q, cks) # ns)) = (\<Union>ck \<in> set cks. set (tpages (fst ck))) \<union> set (closed_pages ns)"
  by auto

declare closed_pages.simps(2) [simp del]

lemma level_right: "level d t \<Longrightarrow> right_level d t"
  by (induction t arbitrary: d) auto

lemma right_level_height: "right_level d t \<Longrightarrow> height t = d"
proof (induction d arbitrary: t)
  case 0
  then show ?case by (cases t) auto
next
  case (Suc d)
  then obtain p cks r where t: "t = Node p cks r" by (cases t) auto
  have "height c = d" if "c \<in> fst ` set cks" for c using Suc.prems that t level_height by fastforce
  moreover have "height r = d" using Suc t by simp
  ultimately have "height t \<le> Suc d" using height_le [of p cks r d] t by simp
  moreover have "height r < height t" using t by simp
  ultimately show ?case using \<open>height r = d\<close> by simp
qed

text \<open>Replacing the lower end of the path.\<close>

lemma wrap_kvs: "kvs y = kvs x @ zs \<Longrightarrow> kvs (wrap y ns) = kvs (wrap x ns) @ zs"
  by (induction ns arbitrary: x y) auto

lemma wrap_seps: "set (seps y) \<subseteq> set (seps x) \<union> S \<Longrightarrow> set (seps (wrap y ns)) \<subseteq> set (seps (wrap x ns)) \<union> S"
proof (induction ns arbitrary: x y)
  case (Cons m ns)
  obtain q cks where m: "m = (q, cks)" by (cases m)
  have "set (seps (Node q cks y)) \<subseteq> set (seps (Node q cks x)) \<union> S" using Cons.prems by auto
  then show ?case using Cons.IH m by simp
qed simp

lemma wrap_right_level:
  assumes "right_level (d + length ns) (wrap x ns)" "right_level d x \<Longrightarrow> right_level d y"
  shows "right_level (d + length ns) (wrap y ns)" "right_level d x"
  using assms
proof (induction ns arbitrary: d x y)
  case (Cons m ns)
  obtain q cks where m: "m = (q, cks)" by (cases m)
  case 1
  have "right_level (Suc d) (Node q cks x) \<Longrightarrow> right_level (Suc d) (Node q cks y)" using 1(2) by simp
  then show ?case using Cons.IH(1) [of "Suc d" "Node q cks x" "Node q cks y"] 1(1) m by simp
  case 2
  then show ?case using Cons.IH(2) [of "Suc d" "Node q cks x" "Node q cks x"] m by simp
qed simp_all

lemma ordered_cs_last:
  assumes "ordered_cs lo cks r (Some k)" "strictly_above lo k"
  shows "\<exists>lo'. strictly_above lo' k \<and> ordered lo' r (Some k) \<and> (\<forall>r'. ordered lo' r' None \<longrightarrow> ordered_cs lo cks r' None)"
  using assms
proof (induction cks arbitrary: lo)
  case (Cons x cks)
  obtain c s where x: "x = (c, s)" by (cases x)
  have o: "strictly_above lo s" "s < k" "ordered lo c (Some s)" "ordered_cs (Some s) cks r (Some k)" using Cons.prems(1) x by (simp_all add: below_def)
  have "strictly_above (Some s) k" using o(2) by (simp add: strictly_above_def)
  from Cons.IH [OF o(4) this] obtain lo' where "strictly_above lo' k" "ordered lo' r (Some k)" "\<forall>r'. ordered lo' r' None \<longrightarrow> ordered_cs (Some s) cks r' None" by blast
  then show ?case using o x by (intro exI [of _ lo']) (simp add: below_def)
qed auto

lemma wrap_ordered:
  assumes "ordered lo (wrap x ns) (Some k)" "strictly_above lo k"
    and y: "\<And>lo'. strictly_above lo' k \<Longrightarrow> ordered lo' x (Some k) \<Longrightarrow> ordered lo' y None"
  shows "ordered lo (wrap y ns) None"
  using assms(1,2)
proof (induction ns arbitrary: lo rule: rev_induct)
  case Nil
  then show ?case using y by simp
next
  case (snoc m ns)
  obtain q cks where m: "m = (q, cks)" by (cases m)
  have "ordered_cs lo cks (wrap x ns) (Some k)" using snoc.prems(1) m by (simp add: wrap_snoc)
  from ordered_cs_last [OF this snoc.prems(2)] show ?case using snoc.IH m by (auto simp: wrap_snoc)
qed

text \<open>A new upper bound, above all keys and separators.\<close>

lemma ordered_below:
  "ordered lo t hi \<Longrightarrow> (\<And>kv. kv \<in> set (kvs t) \<Longrightarrow> below (fst kv) hi') \<Longrightarrow> (\<And>s. s \<in> set (seps t) \<Longrightarrow> below s hi') \<Longrightarrow> ordered lo t hi'"
  "ordered_cs lo cks r hi \<Longrightarrow> (\<And>kv. kv \<in> set (group_kvs cks r) \<Longrightarrow> below (fst kv) hi') \<Longrightarrow> (\<And>s. s \<in> set (group_seps cks r) \<Longrightarrow> below s hi') \<Longrightarrow>
     ordered_cs lo cks r hi'"
proof (induction lo t hi and lo cks r hi rule: ordered_ordered_cs.induct)
  case (1 lo p es hi)
  then show ?case by (fastforce simp: item_kv_def)
next
  case (2 lo p cks r hi)
  then show ?case unfolding node_group(1) node_shape(2) by simp
qed simp_all

section \<open>Promotion\<close>

text \<open>\<open>promoted Q old k ns ns'\<close>: the closed tree \<open>old\<close> goes under the path \<open>ns\<close> with the separator \<open>k\<close> after it; \<open>Q\<close> lists
  the new nodes of the path.\<close>

inductive promoted :: "PageId list \<Rightarrow> tree \<Rightarrow> bytes \<Rightarrow> open_node list \<Rightarrow> open_node list \<Rightarrow> bool" where
  top: "promoted [q] old k [] [(q, [(old, k)])]"
| room: "promoted [] old k ((q, cks) # ns) ((q, cks @ [(old, k)]) # ns)"
| roll: "cks \<noteq> [] \<Longrightarrow> promoted Q (Node q cks old) k ns ns' \<Longrightarrow> promoted (q' # Q) old k ((q, cks) # ns) ((q', []) # ns')"

lemma promoted_kvs: "promoted Q old k ns ns' \<Longrightarrow> kvs new = [] \<Longrightarrow> kvs (wrap new ns') = kvs (wrap old ns)"
proof (induction arbitrary: new rule: promoted.induct)
  case (room old k q cks ns)
  then show ?case using wrap_kvs [of "Node q (cks @ [(old, k)]) new" "Node q cks old" "[]"] by simp
qed auto

lemma promoted_seps: "promoted Q old k ns ns' \<Longrightarrow> seps new = [] \<Longrightarrow> set (seps (wrap new ns')) \<subseteq> insert k (set (seps (wrap old ns)))"
proof (induction arbitrary: new rule: promoted.induct)
  case (room old k q cks ns)
  then show ?case using wrap_seps [of "Node q (cks @ [(old, k)]) new" "Node q cks old" "{k}" ns] by auto
qed auto

lemma promoted_pages:
  "promoted Q old k ns ns' \<Longrightarrow> mset (tpages (wrap new ns')) = mset (tpages (wrap old ns)) + mset Q + mset (tpages new)"
  by (induction arbitrary: new rule: promoted.induct) (simp_all add: wrap_pages closed_pages.simps(2))

lemma promoted_right_level:
  assumes "promoted Q old k ns ns'" "level d old" "right_level d new" "right_level (d + length ns) (wrap old ns)"
  shows "right_level (d + length ns') (wrap new ns')"
  using assms
proof (induction arbitrary: d new rule: promoted.induct)
  case (room old k q cks ns)
  then show ?case using wrap_right_level(1) [of "Suc d" ns "Node q cks old" "Node q (cks @ [(old, k)]) new"] by auto
next
  case (roll cks Q q old k ns ns' q')
  have "right_level (Suc d + length ns) (wrap (Node q cks old) ns)" using roll.prems(3) by simp
  moreover from wrap_right_level(2) [OF this] have "level (Suc d) (Node q cks old)" using roll by auto
  ultimately show ?case using roll.IH [of "Suc d" "Node q' [] new"] roll.prems(2) by simp
qed simp

lemma promoted_ordered:
  assumes "promoted Q old k ns ns'" "ordered None (wrap old ns) (Some k)" "ordered (Some k) new None"
  shows "ordered None (wrap new ns') None"
  using assms
proof (induction arbitrary: new rule: promoted.induct)
  case (top q old k)
  then show ?case by (simp add: strictly_above_def below_def)
next
  case (room old k q cks ns)
  have "ordered lo (Node q (cks @ [(old, k)]) new) None" if "strictly_above lo k" "ordered lo (Node q cks old) (Some k)" for lo
    using ordered_cs_append [of lo cks old k None "[]" new] that room.prems(2) by (simp add: below_def)
  then show ?case using wrap_ordered [of None "Node q cks old" ns k "Node q (cks @ [(old, k)]) new"] room.prems(1) by (simp add: strictly_above_def)
qed simp

lemma promoted_length: "promoted Q old k ns ns' \<Longrightarrow> length ns' \<le> Suc (length ns) \<and> ns' \<noteq> []"
  by (induction rule: promoted.induct) simp_all

lemma promoted_top: "promoted Q old k ns ns' \<Longrightarrow> (ns = [] \<or> snd (last ns) \<noteq> []) \<Longrightarrow> snd (last ns') \<noteq> []"
  by (induction rule: promoted.induct) (auto split: if_splits dest: promoted_length)

section \<open>The loader beside the state\<close>

lemma in_world_rule:
  assumes "result_ok (m w) E Q"
  shows "result_ok (in_world m (l, w)) (\<lambda>s. fst s = l \<and> E (snd s)) (\<lambda>x s. fst s = l \<and> Q x (snd s))"
  using assms by (auto simp: in_world_def result_ok_def)

lemma modify_node_eq: "modify f g w = Some w' \<Longrightarrow> modify_node f g (l, w) = Some (l, w')"
  by (simp add: modify_node_def)

definition spoilt :: "env \<Rightarrow> backdrop \<Rightarrow> BulkLoader \<times> world \<Rightarrow> bool" where
  "spoilt env \<sigma> s \<longleftrightarrow> (\<exists>H. failed env \<sigma> H (snd s))"

lemma spoiltI: "txn_ok env \<sigma> n H L (snd s) \<Longrightarrow> spoilt env \<sigma> s"
  unfolding spoilt_def using txn_ok_failed by blast

text \<open>The guards: a node is closed only when it has a cell, and a node that stays open has room.\<close>

lemma shouldRollInternal_result:
  assumes "inode d cks r" "length k \<le> maxKeySize"
  obtains b where "shouldRollInternal l d (internalCellSize k) = Some b" "b \<Longrightarrow> cks \<noteq> []" "\<not> b \<Longrightarrow> 13 + icost cks + (12 + length k) \<le> 4096"
proof -
  obtain free where free: "freeSpace d = Some free" "internalCellSize k + 2 > free \<longleftrightarrow> 4096 < 13 + icost cks + (12 + length k)"
    using split_guard [OF assms] by blast
  have n: "nCells d = Some (of_nat (length cks))" "of_nat (length cks) = (0 :: u16) \<longleftrightarrow> cks = []"
    using inode_reads(2) [OF assms(1)] inode_length [OF assms(1)] by (auto simp: word_of_nat_eq_0_iff dest: dvd_imp_le)
  have "13 + icost [] + (12 + length k) \<le> 4096" using assms(2) by (simp add: maxKeySize_def)
  then show thesis using free n that unfolding shouldRollInternal_def Let_def by (cases "cks = []") (auto split: if_splits simp: not_less)
qed

lemma shouldRollLeaf_result:
  assumes "lnode d es" "length k \<le> maxKeySize"
  obtains b where "shouldRollLeaf l d (leafCellSize k v) = Some b" "b \<Longrightarrow> es \<noteq> []"
    "b \<or> (\<forall>ov. (ov = 0) = (5 + length k + length v \<le> maxInlineSize) \<longrightarrow> 5 + lcost es + (length (leaf_cell k v ov) + 2) \<le> 4096)"
proof -
  let ?c = "length (lcell (entry_of k v (some_ov k v)))"
  have c: "?c = length (leaf_cell k v ov)" if "(ov = 0) = (5 + length k + length v \<le> maxInlineSize)" for ov
    using that by (auto simp: length_leaf_cell entry_of_def some_ov_def)
  have free: "freeSpace d = Some (of_nat (4096 - 5 - lcost es))" "(of_nat (4096 - 5 - lcost es) :: u16) < leafCellSize k v + 2 \<longleftrightarrow> 4096 < 5 + lcost es + (?c + 2)"
    using lnode_reads(4) [OF assms(1)] lnode_fits [OF assms(1)] cell_length_some [OF assms(2), of v]
    by (simp_all add: leafCellSize_some u16_simps word_less_nat_alt) linarith
  have n: "nCells d = Some (of_nat (length es))" "of_nat (length es) = (0 :: u16) \<longleftrightarrow> es = []"
    using lnode_reads(2) [OF assms(1)] lnode_length [OF assms(1)] by (auto simp: word_of_nat_eq_0_iff dest: dvd_imp_le)
  have "5 + lcost [] + (?c + 2) \<le> 4096" using cell_length_some [OF assms(2), of v] by simp
  then have e: "es = [] \<Longrightarrow> 5 + lcost es + (?c + 2) \<le> 4096" by simp
  show thesis
  proof (cases "es = []")
    case True
    show ?thesis by (rule that [of False]) (use True n e c in \<open>auto simp: shouldRollLeaf_def\<close>)
  next
    case False
    then obtain b where b: "shouldRollLeaf l d (leafCellSize k v) = Some b" "\<not> b \<Longrightarrow> 5 + lcost es + (?c + 2) \<le> 4096"
      using n free by (auto simp: shouldRollLeaf_def Let_def not_less)
    show ?thesis by (rule that [OF b(1)]) (use b(2) c False in auto)
  qed
qed

section \<open>Promotion of pages\<close>

definition path_handles :: "nat list \<Rightarrow> open_node list \<Rightarrow> handle multiset" where
  "path_handles fs ns = mset (map2 (\<lambda>f m. (f, fst m, True)) fs ns)"

text \<open>Each open node with a cell has paid for the node that will follow it.\<close>

definition credit :: "open_node list \<Rightarrow> nat" where
  "credit ns = length (filter (\<lambda>m. snd m \<noteq> []) ns)"

lemma path_simps [simp]:
  "path_handles [] [] = {#}" "path_handles (f # fs) (m # ns) = add_mset (f, fst m, True) (path_handles fs ns)"
  "credit [] = 0" "credit (m # ns) = (if snd m = [] then 0 else 1) + credit ns"
  by (simp_all add: path_handles_def credit_def)

lemma spine_at_same:
  "spine_at W r ns \<Longrightarrow> (\<And>p. p \<in> set (map fst ns) \<union> set (closed_pages ns) \<Longrightarrow> W' p = W p) \<Longrightarrow> spine_at W' r ns"
proof (induction ns arbitrary: r)
  case (Cons m ns)
  obtain q cks where m: "m = (q, cks)" by (cases m)
  have "tree_at W' c" if "(c, k) \<in> set cks" for c k
  proof (rule tree_at_same [of W])
    show "tree_at W c" using Cons.prems(1) that m by fastforce
    show "W' p = W p" if "p \<in> set (tpages c)" for p using Cons.prems(2) [of p] that \<open>(c, k) \<in> set cks\<close> m by fastforce
  qed
  moreover have "spine_at W' q ns"
  proof (rule Cons.IH)
    show "W' p = W p" if "p \<in> set (map fst ns) \<union> set (closed_pages ns)" for p using Cons.prems(2) [of p] that m by auto
  qed (use Cons.prems(1) m in simp)
  ultimately show ?case using Cons.prems m by auto
qed simp

lemma wrap_set: "set (tpages (wrap t ns)) = set (tpages t) \<union> set (map fst ns) \<union> set (closed_pages ns)"
  using arg_cong [OF wrap_pages [of t ns], of set_mset] by simp

lemma wrap_distinct: "distinct (tpages (wrap t ns)) \<longleftrightarrow> distinct (tpages t @ map fst ns @ closed_pages ns)"
  using wrap_pages [of t ns] by (intro mset_eq_imp_distinct_iff) simp

lemma add_child:
  assumes ok: "txn_ok env \<sigma> n H L w" and f: "(f, q, True) \<in># H" and d: "inode (V w q) cks r"
    and k: "length k \<le> maxKeySize" "13 + icost cks + (12 + length k) \<le> 4096"
  obtains w1 w2 where "modify f (\<lambda>d. appendInternalCell d c k) w = Some w1" "modify f (\<lambda>d. setRightmostChild d new) w1 = Some w2"
    "inode (V w2 q) (cks @ [(c, k)]) new" "txn_ok env \<sigma> n H L w2" "same_pages (L - {q}) w w2"
proof -
  obtain d1 where d1: "appendInternalCell (V w q) c k = Some d1" "inode d1 (cks @ [(c, k)]) r" using appendInternalCell_inode [OF d k] by blast
  obtain d2 where d2: "setRightmostChild d1 new = Some d2" "inode d2 (cks @ [(c, k)]) new" using setRightmostChild_inode [OF d1(2)] by blast
  obtain w1 where w1: "modify f (\<lambda>d. appendInternalCell d c k) w = Some w1" "txn_ok env \<sigma> n H L w1" "V w1 q = d1" "same_pages (L - {q}) w w1"
    using modify_rule [where g = "\<lambda>d. appendInternalCell d c k", OF ok f d1(1) inode_reads(4) [OF d1(2)]] by blast
  have "setRightmostChild (V w1 q) new = Some d2" using d2(1) w1(3) by simp
  then obtain w2 where w2: "modify f (\<lambda>d. setRightmostChild d new) w1 = Some w2" "txn_ok env \<sigma> n H L w2" "V w2 q = d2" "same_pages (L - {q}) w1 w2"
    using modify_rule [where g = "\<lambda>d. setRightmostChild d new", OF w1(2) f _ inode_reads(4) [OF d2(2)]] by blast
  show thesis using that [OF w1(1) w2(1) _ w2(2)] d2(2) w2(3) same_pages_trans [OF w1(4) w2(4)] by simp
qed

definition path_in :: "env \<Rightarrow> backdrop \<Rightarrow> nat \<Rightarrow> handle multiset \<Rightarrow> PageId set \<Rightarrow> tree \<Rightarrow> nat list \<Rightarrow> open_node list \<Rightarrow> world \<Rightarrow> bool" where
  "path_in env \<sigma> n H L old fs ns w \<longleftrightarrow> txn_ok env \<sigma> (n + 2 + credit ns) (path_handles fs ns + H) L w \<and> length fs = length ns \<and>
     tree_at (V w) old \<and> spine_at (V w) (tid old) ns \<and> distinct (tpages (wrap old ns)) \<and> set (tpages (wrap old ns)) \<subseteq> L"

definition path_out ::
    "env \<Rightarrow> backdrop \<Rightarrow> nat \<Rightarrow> handle multiset \<Rightarrow> PageId set \<Rightarrow> tree \<Rightarrow> bytes \<Rightarrow> open_node list \<Rightarrow> PageId \<Rightarrow> nat list \<Rightarrow>
     BulkLoader \<times> world \<Rightarrow> BulkLoader \<times> world \<Rightarrow> bool" where
  "path_out env \<sigma> n H L old k ns new pre s s' \<longleftrightarrow> (\<exists>Q fs' ns'. promoted Q old k ns ns' \<and> fst s' = (fst s)\<lparr>spine := pre @ fs'\<rparr> \<and>
     length fs' = length ns' \<and> spine_at (V (snd s')) new ns' \<and> distinct Q \<and> set Q \<inter> L = {} \<and>
     txn_ok env \<sigma> (n + credit ns') (path_handles fs' ns' + H) (L \<union> set Q) (snd s') \<and> same_pages (L - set (map fst ns)) (snd s) (snd s'))"

lemma promote_top:
  assumes i: "path_in env \<sigma> n H L old [] [] w" and k: "length k \<le> maxKeySize"
  shows "result_ok (try_ok (in_world (allocInternal env) (l, w)) (\<lambda>f s. do {
        s \<leftarrow> modify_node f (\<lambda>d. appendInternalCell d (tid old) k) s;
        (l, w) \<leftarrow> modify_node f (\<lambda>d. setRightmostChild d new) s;
        Some (Inr (), (l\<lparr>spine := spine l @ [f]\<rparr>, w))
      })) (spoilt env \<sigma>) (\<lambda>_. path_out env \<sigma> n H L old k [] new (spine l) (l, w))"
proof -
  have ok: "txn_ok env \<sigma> (Suc (Suc n)) H L w" and old: "tree_at (V w) old" "set (tpages old) \<subseteq> L" using i by (simp_all add: path_in_def)
  show ?thesis
  proof (rule try_ok_rule [OF in_world_rule [where m = "allocInternal env", OF allocInternal_rule [OF ok]]])
    fix f s assume a: "fst s = l \<and> (\<exists>q r. q \<notin> L \<and> q \<noteq> 0 \<and> inode (V (snd s) q) [] r \<and> txn_ok env \<sigma> (Suc n) (add_mset (f, q, True) H) (insert q L) (snd s) \<and>
      same_pages L w (snd s))"
    then obtain q r where q: "q \<notin> L" "q \<noteq> 0" "inode (V (snd s) q) [] r" "txn_ok env \<sigma> (Suc n) (add_mset (f, q, True) H) (insert q L) (snd s)" "same_pages L w (snd s)" by blast
    have "13 + icost [] + (12 + length k) \<le> 4096" using k by (simp add: maxKeySize_def)
    then obtain w1 w2 where w2: "modify f (\<lambda>d. appendInternalCell d (tid old) k) (snd s) = Some w1" "modify f (\<lambda>d. setRightmostChild d new) w1 = Some w2"
      "inode (V w2 q) ([] @ [(tid old, k)]) new" "txn_ok env \<sigma> (Suc n) (add_mset (f, q, True) H) (insert q L) w2" "same_pages (insert q L - {q}) (snd s) w2"
      using add_child [OF q(4) _ q(3) k] by (metis union_single_eq_member)
    have same: "V w2 p = V w p" if "p \<in> L" for p using q(1,5) w2(5) that by (auto simp: same_pages_def)
    have "tree_at (V w2) old" by (rule tree_at_same [OF old(1)]) (use same old(2) in blast)
    then have "path_out env \<sigma> n H L old k [] new (spine l) (l, w) (l\<lparr>spine := spine l @ [f]\<rparr>, w2)"
      unfolding path_out_def using q(1,2) w2(3,4) same
      by (intro exI [of _ "[q]"] exI [of _ "[f]"] exI [of _ "[(q, [(old, k)])]"]) (simp add: promoted.top same_pages_def)
    then show "result_ok (do {
        s \<leftarrow> modify_node f (\<lambda>d. appendInternalCell d (tid old) k) s;
        (l, w) \<leftarrow> modify_node f (\<lambda>d. setRightmostChild d new) s;
        Some (Inr (), (l\<lparr>spine := spine l @ [f]\<rparr>, w))
      }) (spoilt env \<sigma>) (\<lambda>_. path_out env \<sigma> n H L old k [] new (spine l) (l, w))"
      using a modify_node_eq [OF w2(1), of l] modify_node_eq [OF w2(2), of l] by (cases s) (simp add: result_ok_def)
  qed (auto intro: spoiltI)
qed

lemma promote_room:
  assumes i: "path_in env \<sigma> n H L old (f # fs) ((q, cks) # ns) w" and k: "length k \<le> maxKeySize" "13 + icost (child_refs cks) + (12 + length k) \<le> 4096"
    and l: "spine l = pre @ f # fs"
  shows "result_ok (do {
      s \<leftarrow> modify_node f (\<lambda>d. appendInternalCell d (tid old) k) (l, w);
      s \<leftarrow> modify_node f (\<lambda>d. setRightmostChild d new) s;
      Some (Inr (), s)
    }) (spoilt env \<sigma>) (\<lambda>_. path_out env \<sigma> n H L old k ((q, cks) # ns) new pre (l, w))"
proof -
  let ?H = "path_handles (f # fs) ((q, cks) # ns) + H"
  have ok: "txn_ok env \<sigma> (n + 2 + credit ((q, cks) # ns)) ?H L w" and len: "length fs = length ns" and old: "tree_at (V w) old"
    and q: "q \<noteq> 0" "inode (V w q) (child_refs cks) (tid old)" "\<forall>ck \<in> set cks. tree_at (V w) (fst ck)" "spine_at (V w) q ns"
    and dist: "distinct (tpages (wrap old ((q, cks) # ns)))" and sub: "set (tpages (wrap old ((q, cks) # ns))) \<subseteq> L"
    using i by (simp_all add: path_in_def)
  have f: "(f, q, True) \<in># ?H" by simp
  obtain w1 w2 where w2: "modify f (\<lambda>d. appendInternalCell d (tid old) k) w = Some w1" "modify f (\<lambda>d. setRightmostChild d new) w1 = Some w2"
    "inode (V w2 q) (child_refs cks @ [(tid old, k)]) new" "txn_ok env \<sigma> (n + 2 + credit ((q, cks) # ns)) ?H L w2" "same_pages (L - {q}) w w2"
    using add_child [OF ok f q(2) k] by blast
  have same: "V w2 p = V w p" if "p \<in> set (tpages old) \<union> set (map fst ns) \<union> set (closed_pages ((q, cks) # ns))" for p
  proof -
    have "p \<in> L" using that sub unfolding wrap_set by auto
    moreover have "p \<noteq> q" using that dist unfolding wrap_distinct by auto
    ultimately show ?thesis using w2(5) by (simp add: same_pages_def)
  qed
  have "tree_at (V w2) old" by (rule tree_at_same [OF old]) (use same in blast)
  moreover have "spine_at (V w2) q ns" by (rule spine_at_same [OF q(4)]) (use same in auto)
  moreover have "tree_at (V w2) (fst ck)" if "ck \<in> set cks" for ck
  proof (rule tree_at_same [of "V w"])
    show "V w2 p = V w p" if "p \<in> set (tpages (fst ck))" for p by (rule same) (use that \<open>ck \<in> set cks\<close> in \<open>auto simp: case_prod_beta\<close>)
  qed (use q(3) that in blast)
  ultimately have "spine_at (V w2) new ((q, cks @ [(old, k)]) # ns)" using q(1) w2(3) by auto
  moreover have "txn_ok env \<sigma> (n + credit ((q, cks @ [(old, k)]) # ns)) ?H L w2" using w2(4) by (rule txn_ok_less) simp
  moreover have "same_pages (L - set (map fst ((q, cks) # ns))) w w2" using w2(5) by (simp add: same_pages_def)
  ultimately have "path_out env \<sigma> n H L old k ((q, cks) # ns) new pre (l, w) (l, w2)"
    unfolding path_out_def using len l
    by (intro exI [of _ "[]"] exI [of _ "f # fs"] exI [of _ "(q, cks @ [(old, k)]) # ns"]) (simp add: promoted.room)
  then show ?thesis using modify_node_eq [OF w2(1), of l] modify_node_eq [OF w2(2), of l] by (simp add: result_ok_def)
qed

lemma promote_rule:
  assumes "path_in env \<sigma> n H L old fs ns w" "length k \<le> maxKeySize" "spine l = pre @ fs" "lev = length pre" "length fs < N"
  shows "result_ok (promote_loop N env lev (tid old) k new (l, w)) (spoilt env \<sigma>) (\<lambda>_. path_out env \<sigma> n H L old k ns new pre (l, w))"
  using assms
proof (induction N arbitrary: lev old new H L fs ns w l pre)
  case (Suc N)
  have len: "length fs = length ns" using Suc.prems(1) by (simp add: path_in_def)
  show ?case
  proof (cases ns)
    case Nil
    then show ?thesis using promote_top [OF _ Suc.prems(2), of env \<sigma> n H L old w l new] Suc.prems len by simp
  next
    case (Cons m ns2)
    obtain q cks where m: "m = (q, cks)" by (cases m)
    obtain f fs2 where fs: "fs = f # fs2" using len Cons by (cases fs) auto
    note ns = Cons [unfolded m]
    let ?H = "path_handles fs2 ns2 + H"
    have ok: "txn_ok env \<sigma> (n + 2 + credit ns) (add_mset (f, q, True) ?H) L w" and old: "tree_at (V w) old"
      and q: "q \<noteq> 0" "inode (V w q) (child_refs cks) (tid old)" "\<forall>ck \<in> set cks. tree_at (V w) (fst ck)" "spine_at (V w) q ns2"
      and dist: "distinct (tpages (wrap (Node q cks old) ns2))" and sub: "set (tpages (wrap (Node q cks old) ns2)) \<subseteq> L"
      using Suc.prems(1) unfolding fs ns by (simp_all add: path_in_def)
    have cur: "spine l ! lev = f" "lev < length (spine l)" using Suc.prems(3,4) fs by simp_all
    have nd: "node_data w f = V w q" "Id w f = q" using handle_node [OF txn_read [OF ok], of f q True] by simp_all
    obtain b where b: "shouldRollInternal l (V w q) (internalCellSize k) = Some b" "b \<Longrightarrow> child_refs cks \<noteq> []"
      "\<not> b \<Longrightarrow> 13 + icost (child_refs cks) + (12 + length k) \<le> 4096" using shouldRollInternal_result [OF q(2) Suc.prems(2)] by blast
    show ?thesis
    proof (cases b)
      case False
      from promote_room [OF Suc.prems(1) [unfolded fs ns] Suc.prems(2) b(3) [OF False] Suc.prems(3) [unfolded fs]] show ?thesis
        using cur nd b(1) False inode_reads(3) [OF q(2)] by (simp add: go_assert_def ns Let_def not_le)
    next
      case True
      then have cks: "cks \<noteq> []" using b(2) by auto
      obtain w1 where w1: "node_unpin f w = Some w1" "txn_ok env \<sigma> (n + 2 + credit ns) ?H L w1" "same_pages L w w1" using ok by (rule unpin_rule)
      have ok1: "txn_ok env \<sigma> (Suc (n + 2 + credit ns2)) ?H L w1" using w1(2) cks ns by simp
      have "result_ok (try_ok (in_world (allocInternal env) (l, w1)) (\<lambda>newCur s. do {
          (l, w) \<leftarrow> modify_node newCur (\<lambda>d. setRightmostChild d new) s;
          let l = l\<lparr>spine := (spine l)[lev := newCur]\<rparr>;
          promote_loop N env (Suc lev) q k (Id w newCur) (l, w)
        })) (spoilt env \<sigma>) (\<lambda>_. path_out env \<sigma> n H L old k ns new pre (l, w))"
      proof (rule try_ok_rule [OF in_world_rule [where m = "allocInternal env", OF allocInternal_rule [OF ok1]]])
        fix g s assume a: "fst s = l \<and> (\<exists>q' r. q' \<notin> L \<and> q' \<noteq> 0 \<and> inode (V (snd s) q') [] r \<and>
          txn_ok env \<sigma> (n + 2 + credit ns2) (add_mset (g, q', True) ?H) (insert q' L) (snd s) \<and> same_pages L w1 (snd s))"
        then obtain w2 q' r where s: "s = (l, w2)" and q': "q' \<notin> L" "q' \<noteq> 0" "inode (V w2 q') [] r"
          "txn_ok env \<sigma> (n + 2 + credit ns2) (add_mset (g, q', True) ?H) (insert q' L) w2" "same_pages L w1 w2" by (cases s) auto
        obtain d where d: "setRightmostChild (V w2 q') new = Some d" "inode d [] new" using setRightmostChild_inode [OF q'(3)] by blast
        obtain w3 where w3: "modify g (\<lambda>d. setRightmostChild d new) w2 = Some w3" "txn_ok env \<sigma> (n + 2 + credit ns2) (add_mset (g, q', True) ?H) (insert q' L) w3"
          "V w3 q' = d" "same_pages (insert q' L - {q'}) w2 w3"
          using modify_rule [where g = "\<lambda>d. setRightmostChild d new", OF q'(4) _ d(1) inode_reads(4) [OF d(2)]] by (metis union_single_eq_member)
        have same: "V w3 p = V w p" if "p \<in> L" for p using w1(3) q'(1,5) w3(4) that unfolding same_pages_def by auto
        have all: "tree_at (V w) (wrap (Node q cks old) ns2)" using old q unfolding tree_at_wrap by simp
        have "tree_at (V w3) (wrap (Node q cks old) ns2)" by (rule tree_at_same [OF all]) (use same sub in blast)
        then have "path_in env \<sigma> n (add_mset (g, q', True) H) (insert q' L) (Node q cks old) fs2 ns2 w3"
          using w3(2) len fs ns dist sub unfolding path_in_def tree_at_wrap by auto
        from Suc.IH [OF this Suc.prems(2), of "l\<lparr>spine := (spine l)[lev := g]\<rparr>" "pre @ [g]" "Suc lev" q']
        have "result_ok (promote_loop N env (Suc lev) q k q' (l\<lparr>spine := (spine l)[lev := g]\<rparr>, w3)) (spoilt env \<sigma>)
          (\<lambda>_. path_out env \<sigma> n (add_mset (g, q', True) H) (insert q' L) (Node q cks old) k ns2 q' (pre @ [g]) (l\<lparr>spine := (spine l)[lev := g]\<rparr>, w3))"
          using Suc.prems(3-5) fs by simp
        then have "result_ok (promote_loop N env (Suc lev) q k q' (l\<lparr>spine := (spine l)[lev := g]\<rparr>, w3)) (spoilt env \<sigma>)
          (\<lambda>_. path_out env \<sigma> n H L old k ns new pre (l, w))"
        proof (rule result_ok_mono)
          fix s' assume "path_out env \<sigma> n (add_mset (g, q', True) H) (insert q' L) (Node q cks old) k ns2 q' (pre @ [g]) (l\<lparr>spine := (spine l)[lev := g]\<rparr>, w3) s'"
          then obtain Q fs' ns' where o: "promoted Q (Node q cks old) k ns2 ns'" "fst s' = l\<lparr>spine := (pre @ [g]) @ fs'\<rparr>" "length fs' = length ns'"
            "spine_at (V (snd s')) q' ns'" "distinct Q" "set Q \<inter> insert q' L = {}"
            "txn_ok env \<sigma> (n + credit ns') (path_handles fs' ns' + add_mset (g, q', True) H) (insert q' L \<union> set Q) (snd s')"
            "same_pages (insert q' L - set (map fst ns2)) w3 (snd s')" unfolding path_out_def by auto
          have "q' \<notin> set (map fst ns2)" using q'(1) sub unfolding wrap_set by auto
          then have "inode (V (snd s') q') [] new" using o(8) d(2) w3(3) unfolding same_pages_def by auto
          moreover have "same_pages (L - set (map fst ns)) w (snd s')" using o(8) same ns unfolding same_pages_def by auto
          ultimately show "path_out env \<sigma> n H L old k ns new pre (l, w) s'"
            unfolding path_out_def using o(1-7) promoted.roll [OF cks o(1), of q'] q'(1,2) ns
            by (intro exI [of _ "q' # Q"] exI [of _ "g # fs'"] exI [of _ "(q', []) # ns'"]) auto
        qed
        moreover have "Id w3 g = q'" using handle_node(2) [OF txn_read [OF w3(2)], of g q' True] by simp
        ultimately show "result_ok (do {
            (l, w) \<leftarrow> modify_node g (\<lambda>d. setRightmostChild d new) s;
            let l = l\<lparr>spine := (spine l)[lev := g]\<rparr>;
            promote_loop N env (Suc lev) q k (Id w g) (l, w)
          }) (spoilt env \<sigma>) (\<lambda>_. path_out env \<sigma> n H L old k ns new pre (l, w))"
          using modify_node_eq [OF w3(1), of l] s by simp
      qed (auto intro: spoiltI)
      then show ?thesis using cur nd b(1) True inode_reads(3) [OF q(2)] w1(1) by (simp add: go_assert_def not_le)
    qed
  qed
qed simp

section \<open>Append\<close>

definition open_tree ::
    "env \<Rightarrow> backdrop \<Rightarrow> nat \<Rightarrow> handle multiset \<Rightarrow> PageId set \<Rightarrow> (bytes \<times> bytes) list \<Rightarrow> nat list \<Rightarrow> PageId \<Rightarrow> item list \<Rightarrow> open_node list \<Rightarrow> world \<Rightarrow> bool" where
  "open_tree env \<sigma> n H F kv fs q es ns w \<longleftrightarrow> (let t = wrap (Leaf q es) ns in
     length fs = Suc (length ns) \<and> tree_at (V w) t \<and> distinct (tpages t) \<and> set (tpages t) \<inter> F = {} \<and>
     txn_ok env \<sigma> (n + credit ns) (path_handles fs ((q, []) # ns) + H) (F \<union> set (tpages t)) w \<and>
     right_level (length ns) t \<and> (ns = [] \<or> snd (last ns) \<noteq> []) \<and> kvs t = kv)"

definition last_ok :: "bytes option \<Rightarrow> (bytes \<times> bytes) list \<Rightarrow> bool" where
  "last_ok lk kv \<longleftrightarrow> (case lk of None \<Rightarrow> kv = [] \<or> map fst kv = [[]] | Some k \<Rightarrow> kv \<noteq> [] \<and> k = fst (last kv))"

text \<open>The loader between two calls of \<open>Append\<close>: \<open>kv\<close> are the bindings so far and \<open>F\<close> the live pages of others.\<close>

definition bulk_loading ::
    "env \<Rightarrow> backdrop \<Rightarrow> nat \<Rightarrow> handle multiset \<Rightarrow> PageId set \<Rightarrow> world \<Rightarrow> (bytes \<times> bytes) list \<Rightarrow> BulkLoader \<times> world \<Rightarrow> bool" where
  "bulk_loading env \<sigma> n H F w0 kv s \<longleftrightarrow> \<not> finished (fst s) \<and> same_pages F w0 (snd s) \<and> sorted_wrt (<) (map fst kv) \<and>
     (\<forall>x \<in> set kv. length (fst x) \<le> maxKeySize) \<and> last_ok (lastKey (fst s)) kv \<and>
     (if spine (fst s) = [] then kv = [] \<and> txn_ok env \<sigma> n H F (snd s)
      else \<exists>q es ns. open_tree env \<sigma> n H F kv (spine (fst s)) q es ns (snd s) \<and> length ns \<le> length kv - 1 \<and>
        ordered None (wrap (Leaf q es) ns) None \<and> set (seps (wrap (Leaf q es) ns)) \<subseteq> fst ` set kv)"

lemma open_tree_less: "open_tree env \<sigma> m H F kv fs q es ns w \<Longrightarrow> n \<le> m \<Longrightarrow> open_tree env \<sigma> n H F kv fs q es ns w"
  unfolding open_tree_def Let_def using txn_ok_less [of env \<sigma> "m + credit ns" _ _ w "n + credit ns"] by auto

lemma open_leaf_rule:
  assumes "bulk_loading env \<sigma> (Suc n) H F w0 kv s"
  shows "result_ok (open_leaf env s) (spoilt env \<sigma>) (\<lambda>_ s'. bulk_loading env \<sigma> n H F w0 kv s' \<and> spine (fst s') \<noteq> [])"
proof -
  obtain l w where s: "s = (l, w)" by (cases s)
  show ?thesis
  proof (cases "spine l = []")
    case False
    have "open_tree env \<sigma> (Suc n) H F kv fs q es ns w \<Longrightarrow> open_tree env \<sigma> n H F kv fs q es ns w" for fs q es ns by (erule open_tree_less) simp
    then have "bulk_loading env \<sigma> n H F w0 kv s" using False assms unfolding bulk_loading_def s fst_conv snd_conv if_not_P [OF False] by blast
    then show ?thesis using False s by (simp add: open_leaf_def result_ok_def)
  next
    case True
    then have ok: "txn_ok env \<sigma> (Suc n) H F w" and l: "\<not> finished l" "same_pages F w0 w" "last_ok (lastKey l) kv" "kv = []" using assms unfolding s by (auto simp: bulk_loading_def)
    have "result_ok (try_ok (in_world (allocLeaf env) (l, w)) (\<lambda>f (l, w). Some (Inr (), (l\<lparr>spine := spine l @ [f]\<rparr>, w)))) (spoilt env \<sigma>)
      (\<lambda>_ s'. bulk_loading env \<sigma> n H F w0 kv s' \<and> spine (fst s') \<noteq> [])"
    proof (rule try_ok_rule [OF in_world_rule [where m = "allocLeaf env", OF allocLeaf_rule [OF ok]]])
      fix f s assume a: "fst s = l \<and> (\<exists>q. q \<notin> F \<and> q \<noteq> 0 \<and> lnode (V (snd s) q) [] \<and> txn_ok env \<sigma> n (add_mset (f, q, True) H) (insert q F) (snd s) \<and> same_pages F w (snd s))"
      then obtain w1 q where q: "s = (l, w1)" "q \<notin> F" "q \<noteq> 0" "lnode (V w1 q) []" "txn_ok env \<sigma> n (add_mset (f, q, True) H) (insert q F) w1" "same_pages F w w1"
        by (cases s) auto
      then have "open_tree env \<sigma> n H F [] [f] q [] [] w1" by (simp add: open_tree_def)
      moreover have "same_pages F w0 w1" using l(2) q(6) by (rule same_pages_trans)
      ultimately have "bulk_loading env \<sigma> n H F w0 kv (l\<lparr>spine := [f]\<rparr>, w1)" unfolding bulk_loading_def using l
        by (auto intro!: exI [of _ q] exI [of _ "[] :: item list"] exI [of _ "[] :: open_node list"])
      then show "result_ok (case s of (l, w) \<Rightarrow> Some (Inr (), (l\<lparr>spine := spine l @ [f]\<rparr>, w))) (spoilt env \<sigma>)
        (\<lambda>_ s'. bulk_loading env \<sigma> n H F w0 kv s' \<and> spine (fst s') \<noteq> [])" using q(1) True by (simp add: result_ok_def)
    qed (auto intro: spoiltI)
    then show ?thesis using True s by (simp add: open_leaf_def)
  qed
qed

text \<open>The state in which the binding of \<open>k\<close> can be written to the open leaf.\<close>

definition ready ::
    "env \<Rightarrow> backdrop \<Rightarrow> nat \<Rightarrow> handle multiset \<Rightarrow> PageId set \<Rightarrow> world \<Rightarrow> (bytes \<times> bytes) list \<Rightarrow> bytes \<Rightarrow> bytes \<Rightarrow> BulkLoader \<Rightarrow> nat \<Rightarrow> BulkLoader \<times> world \<Rightarrow> bool" where
  "ready env \<sigma> n H F w0 kv k v l f s \<longleftrightarrow> (\<exists>fs q es ns. fst s = l\<lparr>spine := f # fs\<rparr> \<and> open_tree env \<sigma> n H F kv (f # fs) q es ns (snd s) \<and>
     length ns \<le> length kv \<and> (\<forall>ps. ordered None (wrap (Leaf q (es @ [(k, v, ps)])) ns) None) \<and>
     set (seps (wrap (Leaf q es) ns)) \<subseteq> insert k (fst ` set kv) \<and> same_pages F w0 (snd s) \<and>
     (\<forall>ov. (ov = 0) = (5 + length k + length v \<le> maxInlineSize) \<longrightarrow> 5 + lcost (map item_entry es) + (length (leaf_cell k v ov) + 2) \<le> 4096))"

lemma ordered_last:
  assumes o: "ordered None (wrap (Leaf q es) ns) (Some k)"
  shows "ordered None (wrap (Leaf q (es @ [(k, v, ps)])) ns) None"
proof (rule wrap_ordered [OF o])
  show "ordered lo (Leaf q (es @ [(k, v, ps)])) None" if "strictly_above lo k" "ordered lo (Leaf q es) (Some k)" for lo
    using that strictly_above_above by (auto simp: below_def sorted_wrt_append)
qed (simp add: strictly_above_def)

lemma roll_leaf_rule:
  assumes s: "bulk_loading env \<sigma> (n + 3) H F w0 kv (l, w)" "spine l \<noteq> []" and k: "\<forall>x \<in> set kv. fst x < k" "length k \<le> maxKeySize"
  shows "result_ok (roll_leaf env k (leafCellSize k v) (l, w)) (spoilt env \<sigma>) (ready env \<sigma> n H F w0 kv k v l)"
proof -
  obtain q es ns where t: "open_tree env \<sigma> (n + 3) H F kv (spine l) q es ns w" "length ns \<le> length kv - 1" "ordered None (wrap (Leaf q es) ns) None"
    "set (seps (wrap (Leaf q es) ns)) \<subseteq> fst ` set kv" and w0: "same_pages F w0 w" using s by (auto simp: bulk_loading_def)
  let ?T = "wrap (Leaf q es) ns" and ?L = "F \<union> set (tpages (wrap (Leaf q es) ns))"
  obtain f fs where f: "spine l = f # fs" using s(2) by (cases "spine l") auto
  have len: "length fs = length ns" and at: "tree_at (V w) ?T" and d: "distinct (tpages ?T)" "set (tpages ?T) \<inter> F = {}"
    and ok: "txn_ok env \<sigma> (n + 3 + credit ns) (add_mset (f, q, True) (path_handles fs ns + H)) ?L w"
    and lev: "right_level (length ns) ?T" "ns = [] \<or> snd (last ns) \<noteq> []" and kv: "kvs ?T = kv" using t(1) f by (simp_all add: open_tree_def Let_def)
  have nd: "node_data w f = V w q" "Id w f = q" using handle_node [OF txn_read [OF ok], of f q True] by simp_all
  have ln: "lnode (V w q) (map item_entry es)" using at unfolding tree_at_wrap by simp
  have ok': "ordered None ?T (Some k)" using ordered_below(1) [OF t(3), of "Some k"] k(1) t(4) kv by (fastforce simp: below_def)
  obtain b where b: "shouldRollLeaf l (V w q) (leafCellSize k v) = Some b" "b \<Longrightarrow> map item_entry es \<noteq> []"
    "b \<or> (\<forall>ov. (ov = 0) = (5 + length k + length v \<le> maxInlineSize) \<longrightarrow> 5 + lcost (map item_entry es) + (length (leaf_cell k v ov) + 2) \<le> 4096)"
    using shouldRollLeaf_result [OF ln k(2)] by blast
  show ?thesis
  proof (cases b)
    case False
    have "open_tree env \<sigma> n H F kv (f # fs) q es ns w" using open_tree_less [OF t(1)] f by simp
    then have "ready env \<sigma> n H F w0 kv k v l f (l, w)" unfolding ready_def using f t(2,4) ordered_last [OF ok'] b(3) False w0
      by (intro exI [of _ fs] exI [of _ q] exI [of _ es] exI [of _ ns]) auto
    then show ?thesis using b(1) False nd f by (simp add: roll_leaf_def result_ok_def Let_def)
  next
    case True
    then have "es \<noteq> []" using b(2) by simp
    moreover have "set (kvs (Leaf q es)) \<subseteq> set (kvs ?T)" using wrap_kvs [of "Leaf q es" "Leaf q []" "map item_kv es" ns] by simp
    ultimately have "kv \<noteq> []" using kv by (cases es) auto
    have "txn_ok env \<sigma> (Suc (n + 2 + credit ns)) (add_mset (f, q, True) (path_handles fs ns + H)) ?L w" using ok by (simp add: numeral_3_eq_3)
    note alloc = in_world_rule [where m = "allocLeaf env", OF allocLeaf_rule [OF this], of l]
    have "result_ok (try_ok (in_world (allocLeaf env) (l, w)) (\<lambda>newLeaf (l, w). do {
         let oldLeafID = Id w f;
         w \<leftarrow> node_unpin f w;
         let l = l\<lparr>spine := (spine l)[0 := newLeaf]\<rparr>;
         try_ok (promote env 1 oldLeafID k (Id w newLeaf) (l, w)) (\<lambda>_ s. Some (Inr newLeaf, s))
       })) (spoilt env \<sigma>) (ready env \<sigma> n H F w0 kv k v l)"
    proof (rule try_ok_rule [OF alloc])
      fix g s assume "fst s = l \<and> (\<exists>q'. q' \<notin> ?L \<and> q' \<noteq> 0 \<and> lnode (V (snd s) q') [] \<and>
        txn_ok env \<sigma> (n + 2 + credit ns) (add_mset (g, q', True) (add_mset (f, q, True) (path_handles fs ns + H))) (insert q' ?L) (snd s) \<and> same_pages ?L w (snd s))"
      then obtain w1 q' where s: "s = (l, w1)" and q': "q' \<notin> ?L" "q' \<noteq> 0" "lnode (V w1 q') []"
        "txn_ok env \<sigma> (n + 2 + credit ns) (add_mset (f, q, True) (add_mset (g, q', True) (path_handles fs ns + H))) (insert q' ?L) w1" "same_pages ?L w w1"
        by (cases s) (auto simp: add_mset_commute)
      have idf: "Id w1 f = q" using handle_node(2) [OF txn_read [OF q'(4)], of f q True] by simp
      obtain w2 where w2: "node_unpin f w1 = Some w2" "txn_ok env \<sigma> (n + 2 + credit ns) (add_mset (g, q', True) (path_handles fs ns + H)) (insert q' ?L) w2"
        "same_pages (insert q' ?L) w1 w2" using q'(4) by (rule unpin_rule)
      have idg: "Id w2 g = q'" using handle_node(2) [OF txn_read [OF w2(2)], of g q' True] by simp
      have same: "V w2 p = V w p" if "p \<in> ?L" for p using q'(5) w2(3) that unfolding same_pages_def by auto
      have "tree_at (V w2) ?T" by (rule tree_at_same [OF at]) (use same in blast)
      then have "path_in env \<sigma> n (add_mset (g, q', True) H) (insert q' ?L) (Leaf q es) fs ns w2"
        using w2(2) len d(1) unfolding path_in_def tree_at_wrap by auto
      from promote_rule [OF this k(2), of "l\<lparr>spine := g # fs\<rparr>" "[g]" 1 "Suc (Suc (length fs))" q']
      have pr: "result_ok (promote env 1 q k q' (l\<lparr>spine := g # fs\<rparr>, w2)) (spoilt env \<sigma>)
        (\<lambda>_. path_out env \<sigma> n (add_mset (g, q', True) H) (insert q' ?L) (Leaf q es) k ns q' [g] (l\<lparr>spine := g # fs\<rparr>, w2))" by (simp add: promote_def)
      have "result_ok (try_ok (promote env 1 q k q' (l\<lparr>spine := g # fs\<rparr>, w2)) (\<lambda>_ s. Some (Inr g, s))) (spoilt env \<sigma>) (ready env \<sigma> n H F w0 kv k v l)"
      proof (rule try_ok_rule [OF pr])
        fix s' assume "path_out env \<sigma> n (add_mset (g, q', True) H) (insert q' ?L) (Leaf q es) k ns q' [g] (l\<lparr>spine := g # fs\<rparr>, w2) s'"
        then obtain Q fs' ns' where o: "promoted Q (Leaf q es) k ns ns'" "fst s' = l\<lparr>spine := g # fs'\<rparr>" "length fs' = length ns'"
          "spine_at (V (snd s')) q' ns'" "distinct Q" "set Q \<inter> insert q' ?L = {}"
          "txn_ok env \<sigma> (n + credit ns') (path_handles fs' ns' + add_mset (g, q', True) H) (insert q' ?L \<union> set Q) (snd s')"
          "same_pages (insert q' ?L - set (map fst ns)) w2 (snd s')" unfolding path_out_def by auto
        let ?T' = "wrap (Leaf q' []) ns'"
        have pg: "mset (tpages ?T') = mset (tpages ?T) + mset Q + mset [q']" using promoted_pages [OF o(1), of "Leaf q' []"] by simp
        have st: "set (tpages ?T') = set (tpages ?T) \<union> set Q \<union> {q'}" using arg_cong [OF pg, of set_mset] by simp
        have "distinct (tpages ?T' ) \<longleftrightarrow> distinct (tpages ?T @ Q @ [q'])" using pg by (intro mset_eq_imp_distinct_iff) simp
        then have dist: "distinct (tpages ?T')" using d(1) o(5,6) q'(1) by auto
        have out: "q' \<notin> set (map fst ns)" "F \<inter> set (map fst ns) = {}" using q'(1) d(2) unfolding wrap_set by auto
        have "V (snd s') q' = V w2 q'" using o(8) out(1) unfolding same_pages_def by auto
        then have at': "tree_at (V (snd s')) ?T'" unfolding tree_at_wrap using o(4) q'(2,3) w2(3) by (simp add: same_pages_def)
        have "V (snd s') p = V w p" if "p \<in> F" for p
        proof -
          have "p \<in> insert q' ?L - set (map fst ns)" using out(2) that by blast
          then show ?thesis using o(8) same [of p] that unfolding same_pages_def by simp
        qed
        then have fr: "same_pages F w0 (snd s')" using w0 by (simp add: same_pages_def)
        have un: "F \<union> set (tpages ?T') = insert q' ?L \<union> set Q" using st by auto
        have lev': "right_level (length ns') ?T'" using promoted_right_level [OF o(1), of 0 "Leaf q' []"] lev(1) by simp
        have "open_tree env \<sigma> n H F kv (g # fs') q' [] ns' (snd s')" unfolding open_tree_def Let_def
        proof (intro conjI)
          show "txn_ok env \<sigma> (n + credit ns') (path_handles (g # fs') ((q', []) # ns') + H) (F \<union> set (tpages ?T')) (snd s')" using o(7) unfolding un by simp
          show "kvs ?T' = kv" using promoted_kvs [OF o(1), of "Leaf q' []"] kv by simp
          show "ns' = [] \<or> snd (last ns') \<noteq> []" using promoted_top [OF o(1) lev(2)] by blast
          show "set (tpages ?T') \<inter> F = {}" using st d(2) q'(1) o(6) by auto
        qed (use o(3) at' dist lev' in simp_all)
        moreover have "ordered None (wrap (Leaf q' ([] @ [(k, v, ps)])) ns') None" for ps
          by (rule promoted_ordered [OF o(1) ok']) (simp add: above_def below_def)
        moreover have "set (seps ?T') \<subseteq> insert k (fst ` set kv)" using promoted_seps [OF o(1), of "Leaf q' []"] t(4) by auto
        moreover have "length ns' \<le> length kv" using promoted_length [OF o(1)] t(2) \<open>kv \<noteq> []\<close> by (cases kv) auto
        ultimately have "ready env \<sigma> n H F w0 kv k v l g s'" unfolding ready_def using o(2) fr one_cell_fits [OF k(2)]
          by (intro exI [of _ fs'] exI [of _ q'] exI [of _ "[]"] exI [of _ ns']) auto
        then show "result_ok (Some (Inr g, s')) (spoilt env \<sigma>) (ready env \<sigma> n H F w0 kv k v l)" by (simp add: result_ok_def)
      qed auto
      then show "result_ok ((case s of (l, w) \<Rightarrow> do {
         let oldLeafID = Id w f;
         w \<leftarrow> node_unpin f w;
         let l = l\<lparr>spine := (spine l)[0 := g]\<rparr>;
         try_ok (promote env 1 oldLeafID k (Id w g) (l, w)) (\<lambda>_ s. Some (Inr g, s))
       })) (spoilt env \<sigma>) (ready env \<sigma> n H F w0 kv k v l)" using s idf idg w2(1) f by simp
    qed (auto intro: spoiltI)
    then show ?thesis using b(1) True nd f by (simp add: roll_leaf_def Let_def)
  qed
qed

text \<open>The cell of the new binding.\<close>

lemma append_cell_rule:
  assumes t: "open_tree env \<sigma> (n + chain_pages (length v)) H F kv (f # fs) q es ns w" and k: "length k \<le> maxKeySize" "length v < 65536"
    and fits: "\<forall>ov. (ov = 0) = (5 + length k + length v \<le> maxInlineSize) \<longrightarrow> 5 + lcost (map item_entry es) + (length (leaf_cell k v ov) + 2) \<le> 4096"
  shows "result_ok (appendLeafCell env f k v w) (\<lambda>w'. \<exists>H L. txn_ok env \<sigma> 0 H L w')
    (\<lambda>_ w'. \<exists>ps. open_tree env \<sigma> n H F (kv @ [(k, v)]) (f # fs) q (es @ [(k, v, ps)]) ns w' \<and> same_pages F w w')"
proof -
  let ?T = "wrap (Leaf q es) ns" and ?H = "add_mset (f, q, True) (path_handles fs ns + H)"
  let ?L = "F \<union> set (tpages ?T)"
  have len: "length fs = length ns" and at: "tree_at (V w) ?T" and d: "distinct (tpages ?T)" "set (tpages ?T) \<inter> F = {}"
    and ok: "txn_ok env \<sigma> (n + credit ns + chain_pages (length v)) ?H ?L w"
    and lev: "right_level (length ns) ?T" "ns = [] \<or> snd (last ns) \<noteq> []" and kv: "kvs ?T = kv" using t by (simp_all add: open_tree_def Let_def ac_simps)
  have q: "q \<in> ?L" "(f, q, True) \<in># ?H" unfolding wrap_set by simp_all
  have ln: "lnode (V w q) (map item_entry es)" "q \<noteq> 0" "\<forall>e \<in> set es. item_ok (V w) e" and sp: "spine_at (V w) q ns" using at unfolding tree_at_wrap by simp_all
  show ?thesis
  proof (rule result_ok_mono [OF appendLeafCell_rule [OF ok q(2,1) ln(1) k]])
    fix w' assume "\<exists>ps. cell_appended env \<sigma> (n + credit ns) ?H ?L q (map item_entry es) k v ps w w'"
    then obtain ps where ps: "item_ok (V w') (k, v, ps)" "distinct ps" "set ps \<inter> ?L = {}" "txn_ok env \<sigma> (n + credit ns) ?H (?L \<union> set ps) w'"
      "same_pages (?L - {q}) w w'" "lnode (V w' q) (map item_entry es @ [item_entry (k, v, ps)])" by (auto simp: cell_appended_def item_entry_def)
    let ?T' = "wrap (Leaf q (es @ [(k, v, ps)])) ns"
    have pg: "mset (tpages ?T') = mset (tpages ?T) + mset ps" by (simp add: wrap_pages item_pages_def)
    have st: "set (tpages ?T') = set (tpages ?T) \<union> set ps" using arg_cong [OF pg, of set_mset] by simp
    have "distinct (tpages ?T') \<longleftrightarrow> distinct (tpages ?T @ ps)" using pg by (intro mset_eq_imp_distinct_iff) simp
    then have dist: "distinct (tpages ?T')" using d(1) ps(2,3) by auto
    have same: "V w' p = V w p" if "p \<in> set (ipages es) \<union> set (map fst ns) \<union> set (closed_pages ns)" for p
    proof -
      have "p \<in> ?L" using that unfolding wrap_set by auto
      moreover have "p \<noteq> q" using that d(1) unfolding wrap_distinct by auto
      ultimately show ?thesis using ps(5) by (simp add: same_pages_def)
    qed
    have "item_ok (V w') e" if e: "e \<in> set es" for e
      using ln(3) e item_pages_ipages [OF e] same item_ok_cong [of e "V w'" "V w"] by blast
    moreover have "spine_at (V w') q ns" by (rule spine_at_same [OF sp]) (use same in blast)
    ultimately have at': "tree_at (V w') ?T'" unfolding tree_at_wrap using ps(1,6) ln(2) by auto
    have "right_level (0 + length ns) ?T'" by (rule wrap_right_level(1) [of _ _ "Leaf q es"]) (use lev(1) in simp_all)
    moreover have "kvs ?T' = kv @ [(k, v)]" using wrap_kvs [of "Leaf q (es @ [(k, v, ps)])" "Leaf q es" "[(k, v)]" ns] kv by (simp add: item_kv_def)
    moreover have "?L \<union> set ps = F \<union> set (tpages ?T')" "set (tpages ?T') \<inter> F = {}" using st d(2) ps(3) by auto
    ultimately have "open_tree env \<sigma> n H F (kv @ [(k, v)]) (f # fs) q (es @ [(k, v, ps)]) ns w'"
      unfolding open_tree_def Let_def using len at' dist ps(4) lev(2) by simp
    moreover have "same_pages F w w'" using ps(5) d(2) unfolding same_pages_def wrap_set by auto
    ultimately show "\<exists>ps. open_tree env \<sigma> n H F (kv @ [(k, v)]) (f # fs) q (es @ [(k, v, ps)]) ns w' \<and> same_pages F w w'" by blast
  qed (use fits in auto)
qed

lemma Append_eq:
  "try_ok (in_world (leafCellOverflow env k v) s) (\<lambda>overflowID s. do {
      (l, w) \<leftarrow> modify_node leaf (\<lambda>d. appendLeafCellWithOverflow d k v overflowID) s;
      Some (Inr (), (l\<lparr>lastKey := remember_key (lastKey l) k\<rparr>, w))
    }) = try_ok (in_world (appendLeafCell env leaf k v) s) (\<lambda>_ (l, w). Some (Inr (), (l\<lparr>lastKey := remember_key (lastKey l) k\<rparr>, w)))"
  by (auto simp: try_ok_def try_or_def in_world_def modify_node_def appendLeafCell_def split: prod.splits bind_splits sum.splits)

lemma Append_rule:
  assumes s: "bulk_loading env \<sigma> (n + 4 + chain_pages (length v)) H F w0 kv s" and v: "length v < 65536" and k: "k \<noteq> [] \<or> kv = []"
  shows "result_ok (Append env k v s) (spoilt env \<sigma>) (\<lambda>_ s'. bulk_loading env \<sigma> n H F w0 (kv @ [(k, v)]) s')"
proof -
  let ?m = "n + 3 + chain_pages (length v)"
  have "bulk_loading env \<sigma> (Suc ?m) H F w0 kv s" using s by (simp add: eval_nat_numeral)
  note opn = open_leaf_rule [OF this]
  have sp: "spoilt env \<sigma> s" using s unfolding bulk_loading_def open_tree_def Let_def by (auto intro: spoiltI split: if_splits)
  have l: "\<not> finished (fst s)" "last_ok (lastKey (fst s)) kv" "sorted_wrt (<) (map fst kv)" "\<forall>x \<in> set kv. length (fst x) \<le> maxKeySize"
    using s by (simp_all add: bulk_loading_def)
  show ?thesis
  proof (cases "length k > maxKeySize \<or> (case lastKey (fst s) of None \<Rightarrow> False | Some lk \<Rightarrow> bytes_Compare k lk \<le> 0)")
    case True
    then show ?thesis using sp l(1) by (cases s) (auto simp: Append_def result_ok_def)
  next
    case False
    then have kl: "length k \<le> maxKeySize" and cmp: "\<not> (case lastKey (fst s) of None \<Rightarrow> False | Some lk \<Rightarrow> bytes_Compare k lk \<le> 0)" by simp_all
    have lt: "\<forall>x \<in> set kv. fst x < k"
    proof (cases "lastKey (fst s)")
      case None
      then show ?thesis using l(2) k by (cases k) (auto simp: last_ok_def)
    next
      case (Some lk)
      then have "kv \<noteq> []" "lk = fst (last kv)" "lk < k" using l(2) cmp by (auto simp: last_ok_def)
      moreover have "fst x \<le> fst (last kv)" if "x \<in> set kv" for x
      proof (cases "x = last kv")
        case False
        then have "x \<in> set (butlast kv)" using that \<open>kv \<noteq> []\<close> by (metis append_butlast_last_id in_set_conv_nth UnE empty_iff empty_set set_ConsD set_append)
        moreover have "sorted_wrt (<) (map fst (butlast kv @ [last kv]))" using l(3) \<open>kv \<noteq> []\<close> by simp
        ultimately show ?thesis by (auto simp: sorted_wrt_append)
      qed simp
      ultimately show ?thesis by force
    qed
    have "result_ok (try_ok (open_leaf env s) (\<lambda>_ s.
        try_ok (roll_leaf env k (leafCellSize k v) s) (\<lambda>leaf s.
        try_ok (in_world (appendLeafCell env leaf k v) s) (\<lambda>_ (l, w). Some (Inr (), (l\<lparr>lastKey := remember_key (lastKey l) k\<rparr>, w))))))
      (spoilt env \<sigma>) (\<lambda>_ s'. bulk_loading env \<sigma> n H F w0 (kv @ [(k, v)]) s')"
    proof (rule try_ok_rule [OF opn])
      fix s1 assume "bulk_loading env \<sigma> ?m H F w0 kv s1 \<and> spine (fst s1) \<noteq> []"
      then obtain l1 w1 where s1: "s1 = (l1, w1)" "bulk_loading env \<sigma> (n + chain_pages (length v) + 3) H F w0 kv (l1, w1)" "spine l1 \<noteq> []"
        by (cases s1) (auto simp: ac_simps)
      have l1: "\<not> finished l1" "last_ok (lastKey l1) kv" using s1(2) by (simp_all add: bulk_loading_def)
      show "result_ok (try_ok (roll_leaf env k (leafCellSize k v) s1) (\<lambda>leaf s.
        try_ok (in_world (appendLeafCell env leaf k v) s) (\<lambda>_ (l, w). Some (Inr (), (l\<lparr>lastKey := remember_key (lastKey l) k\<rparr>, w)))))
        (spoilt env \<sigma>) (\<lambda>_ s'. bulk_loading env \<sigma> n H F w0 (kv @ [(k, v)]) s')" unfolding s1(1)
      proof (rule try_ok_rule [OF roll_leaf_rule [OF s1(2,3) lt kl, of v]])
        fix f s2 assume "ready env \<sigma> (n + chain_pages (length v)) H F w0 kv k v l1 f s2"
        then obtain fs q es ns w2 where r: "s2 = (l1\<lparr>spine := f # fs\<rparr>, w2)" "open_tree env \<sigma> (n + chain_pages (length v)) H F kv (f # fs) q es ns w2"
          "length ns \<le> length kv" "\<And>ps. ordered None (wrap (Leaf q (es @ [(k, v, ps)])) ns) None"
          "set (seps (wrap (Leaf q es) ns)) \<subseteq> insert k (fst ` set kv)" "same_pages F w0 w2"
          "\<forall>ov. (ov = 0) = (5 + length k + length v \<le> maxInlineSize) \<longrightarrow> 5 + lcost (map item_entry es) + (length (leaf_cell k v ov) + 2) \<le> 4096"
          unfolding ready_def by (cases s2) auto
        show "result_ok (try_ok (in_world (appendLeafCell env f k v) s2) (\<lambda>_ (l, w). Some (Inr (), (l\<lparr>lastKey := remember_key (lastKey l) k\<rparr>, w))))
          (spoilt env \<sigma>) (\<lambda>_ s'. bulk_loading env \<sigma> n H F w0 (kv @ [(k, v)]) s')" unfolding r(1)
        proof (rule try_ok_rule [OF in_world_rule [where m = "appendLeafCell env f k v", OF append_cell_rule [OF r(2) kl v r(7)]]])
          fix s3 assume "fst s3 = l1\<lparr>spine := f # fs\<rparr> \<and>
            (\<exists>ps. open_tree env \<sigma> n H F (kv @ [(k, v)]) (f # fs) q (es @ [(k, v, ps)]) ns (snd s3) \<and> same_pages F w2 (snd s3))"
          then obtain ps w3 where w3: "s3 = (l1\<lparr>spine := f # fs\<rparr>, w3)" "open_tree env \<sigma> n H F (kv @ [(k, v)]) (f # fs) q (es @ [(k, v, ps)]) ns w3"
            "same_pages F w2 w3" by (cases s3) auto
          let ?T = "wrap (Leaf q (es @ [(k, v, ps)])) ns"
          have "set (seps ?T) \<subseteq> set (seps (wrap (Leaf q es) ns)) \<union> {}" by (rule wrap_seps) simp
          then have "set (seps ?T) \<subseteq> fst ` set (kv @ [(k, v)])" using r(5) by auto
          moreover have "last_ok (remember_key (lastKey l1) k) (kv @ [(k, v)])" using k by (auto simp: last_ok_def remember_key_def)
          moreover have "sorted_wrt (<) (map fst (kv @ [(k, v)]))" using l(3) lt by (auto simp: sorted_wrt_append)
          moreover have "same_pages F w0 w3" using r(6) w3(3) by (rule same_pages_trans)
          moreover have "\<forall>x \<in> set (kv @ [(k, v)]). length (fst x) \<le> maxKeySize" using l(4) kl by simp
          ultimately have "bulk_loading env \<sigma> n H F w0 (kv @ [(k, v)]) (l1\<lparr>spine := f # fs, lastKey := remember_key (lastKey l1) k\<rparr>, w3)"
            unfolding bulk_loading_def using l1(1) w3(2) r(3,4)
            by (simp del: map_append set_append seps.simps) (intro exI [of _ q] exI [of _ "es @ [(k, v, ps)]"] exI [of _ ns], simp)
          then show "result_ok (case s3 of (l, w) \<Rightarrow> Some (Inr (), (l\<lparr>lastKey := remember_key (lastKey l) k\<rparr>, w))) (spoilt env \<sigma>)
            (\<lambda>_ s'. bulk_loading env \<sigma> n H F w0 (kv @ [(k, v)]) s')" using w3(1) by (simp add: result_ok_def)
        qed (auto intro: spoiltI)
      qed
    qed
    then show ?thesis using False l(1) by (simp add: Append_def Append_eq)
  qed
qed

section \<open>A whole load\<close>

lemma unpin_spine_rule:
  assumes "txn_ok env \<sigma> n (path_handles fs ns + H) L w" "length fs = length ns"
  obtains w' where "unpin_spine fs w = Some w'" "txn_ok env \<sigma> n H L w'" "same_pages L w w'"
proof -
  have "\<exists>w'. unpin_spine fs w = Some w' \<and> txn_ok env \<sigma> n H L w' \<and> same_pages L w w'" using assms(2,1)
  proof (induction fs ns arbitrary: w rule: list_induct2)
    case (Cons f fs m ns)
    have "txn_ok env \<sigma> n (add_mset (f, fst m, True) (path_handles fs ns + H)) L w" using Cons.prems by simp
    then obtain w1 where "node_unpin f w = Some w1" "txn_ok env \<sigma> n (path_handles fs ns + H) L w1" "same_pages L w w1" by (rule unpin_rule)
    then show ?case using Cons.IH [of w1] same_pages_trans by auto
  qed simp
  then show thesis using that by blast
qed

lemma wrap_tid: "tid (wrap (Leaf q es) ns) = fst (last ((q, []) # ns))"
proof (cases ns rule: rev_cases)
  case (snoc ms m)
  then show ?thesis by (cases m) (simp add: wrap_snoc)
qed simp

lemma path_handles_last: "length fs = length ns \<Longrightarrow> ns \<noteq> [] \<Longrightarrow> (last fs, fst (last ns), True) \<in># path_handles fs ns"
  by (induction fs ns rule: list_induct2) auto

text \<open>What \<open>Finish\<close> leaves: a balanced tree in key order with exactly the given bindings.\<close>

definition loaded_at :: "(PageId \<Rightarrow> bytes) \<Rightarrow> PageId set \<Rightarrow> nat \<Rightarrow> BTree \<Rightarrow> (bytes \<times> bytes) list \<Rightarrow> bool" where
  "loaded_at W P h b kv \<longleftrightarrow>
     (if root b = 0 then P = {} \<and> kv = []
      else \<exists>t. tid t = root b \<and> tree_at W t \<and> distinct (tpages t) \<and> P = set (tpages t) \<and> ordered None t None \<and> right_level (height t) t \<and>
        height t < h \<and> kvs t = kv \<and> set (seps t) \<subseteq> fst ` set kv \<and> (height t = 0 \<or> 0 < entries t))"

lemma Finish_rule:
  assumes s: "bulk_loading env \<sigma> n H F w0 kv s" and b: "root b = 0"
  shows "\<exists>pid b' l' w'. Finish b s = Some (Inr (pid, b'), (l', w')) \<and> pid = root b' \<and> finished l' \<and> sorted_wrt (<) (map fst kv) \<and>
    (\<forall>x \<in> set kv. length (fst x) \<le> maxKeySize) \<and>
    (\<exists>P. loaded_at (V w') P (Suc (length kv)) b' kv \<and> P \<inter> F = {} \<and> txn_ok env \<sigma> n H (F \<union> P) w' \<and> same_pages F w0 w')"
proof -
  obtain l w where lw: "s = (l, w)" by (cases s)
  have l: "\<not> finished l" "same_pages F w0 w" "sorted_wrt (<) (map fst kv)" "\<forall>x \<in> set kv. length (fst x) \<le> maxKeySize" using s lw by (simp_all add: bulk_loading_def)
  show ?thesis
  proof (cases "spine l = []")
    case True
    then have "kv = []" "txn_ok env \<sigma> n H F w" using s lw by (simp_all add: bulk_loading_def)
    then show ?thesis using True l b lw by (simp add: Finish_def loaded_at_def)
  next
    case False
    then obtain q es ns where t: "open_tree env \<sigma> n H F kv (spine l) q es ns w" "length ns \<le> length kv - 1" "ordered None (wrap (Leaf q es) ns) None"
      "set (seps (wrap (Leaf q es) ns)) \<subseteq> fst ` set kv" using s lw by (auto simp: bulk_loading_def)
    let ?T = "wrap (Leaf q es) ns" and ?ms = "(q, []) # ns"
    have len: "length (spine l) = length ?ms" and at: "tree_at (V w) ?T" and d: "distinct (tpages ?T)" "set (tpages ?T) \<inter> F = {}"
      and ok: "txn_ok env \<sigma> (n + credit ns) (path_handles (spine l) ?ms + H) (F \<union> set (tpages ?T)) w"
      and lev: "right_level (length ns) ?T" "ns = [] \<or> snd (last ns) \<noteq> []" and kv: "kvs ?T = kv" using t(1) by (simp_all add: open_tree_def Let_def)
    have "(last (spine l), fst (last ?ms), True) \<in># path_handles (spine l) ?ms + H" using path_handles_last [OF len] by simp
    then have root: "Id w (last (spine l)) = tid ?T" using handle_node(2) [OF txn_read [OF ok]] unfolding wrap_tid by blast
    obtain w' where w': "unpin_spine (spine l) w = Some w'" "txn_ok env \<sigma> (n + credit ns) H (F \<union> set (tpages ?T)) w'" "same_pages (F \<union> set (tpages ?T)) w w'"
      using unpin_spine_rule [OF ok len] .
    have at': "tree_at (V w') ?T" by (rule tree_at_same [OF at]) (use w'(3) in \<open>auto simp: same_pages_def\<close>)
    have h: "height ?T = length ns" using lev(1) by (rule right_level_height)
    have "height ?T = 0 \<or> 0 < entries ?T" using lev(2) h by (cases ns rule: rev_cases) (auto simp: wrap_snoc)
    then have "loaded_at (V w') (set (tpages ?T)) (Suc (length kv)) (b\<lparr>root := tid ?T\<rparr>) kv"
      unfolding loaded_at_def using tid_nonzero [OF at'] at' d(1) t(2-4) lev(1) h kv by (auto intro!: exI [of _ ?T])
    moreover have "txn_ok env \<sigma> n H (F \<union> set (tpages ?T)) w'" using w'(2) by (rule txn_ok_less) simp
    moreover have "same_pages F w0 w'" using l(2) w'(3) by (auto simp: same_pages_def)
    ultimately show ?thesis using False l d(2) lw root w'(1) by (auto simp: Finish_def Let_def)
  qed
qed

fun append_all :: "env \<Rightarrow> (bytes \<times> bytes) list \<Rightarrow> BulkLoader \<times> world \<Rightarrow> (unit, BulkLoader \<times> world) outcome" where
  "append_all env [] s = Some (Inr (), s)"
| "append_all env ((k, v) # kv) s = try_ok (Append env k v s) (\<lambda>_ s. append_all env kv s)"

text \<open>A client that loads a list of bindings into a tree.\<close>

definition bulk_load :: "env \<Rightarrow> BTree \<Rightarrow> rat \<Rightarrow> (bytes \<times> bytes) list \<Rightarrow> world \<Rightarrow> (BTree, world) outcome" where
  "bulk_load env b fill kv w =
     (case BeginBulkLoad b fill of
        Inl e \<Rightarrow> Some (Inl e, w)
      | Inr l \<Rightarrow> do {
          (r, (_, w)) \<leftarrow> try_ok (append_all env kv (l, w)) (\<lambda>_ s. Finish b s);
          Some (map_sum id snd r, w)
        })"

definition load_pages :: "(bytes \<times> bytes) list \<Rightarrow> nat" where
  "load_pages kv = sum_list (map (\<lambda>(k, v). 4 + chain_pages (length v)) kv)"

lemma append_all_rule:
  assumes "bulk_loading env \<sigma> (n + load_pages kv2) H F w0 kv1 s" "\<forall>x \<in> set kv2. length (snd x) < 65536" "\<forall>x \<in> set (if kv1 = [] then tl kv2 else kv2). fst x \<noteq> []"
  shows "result_ok (append_all env kv2 s) (spoilt env \<sigma>) (\<lambda>_ s'. bulk_loading env \<sigma> n H F w0 (kv1 @ kv2) s')"
  using assms
proof (induction kv2 arbitrary: kv1 s)
  case Nil
  then show ?case by (simp add: result_ok_def load_pages_def)
next
  case (Cons x kv2)
  obtain k v where x: "x = (k, v)" by (cases x)
  have s: "bulk_loading env \<sigma> (n + load_pages kv2 + 4 + chain_pages (length v)) H F w0 kv1 s" using Cons.prems(1) x by (simp add: load_pages_def ac_simps)
  have kv: "length v < 65536" "k \<noteq> [] \<or> kv1 = []" using Cons.prems(2,3) x by (auto split: if_splits)
  show ?case unfolding x append_all.simps
  proof (rule try_ok_rule [OF Append_rule [OF s kv]])
    fix s1 assume "bulk_loading env \<sigma> (n + load_pages kv2) H F w0 (kv1 @ [(k, v)]) s1"
    from Cons.IH [OF this] show "result_ok (append_all env kv2 s1) (spoilt env \<sigma>) (\<lambda>_ s'. bulk_loading env \<sigma> n H F w0 (kv1 @ (k, v) # kv2) s')"
      using Cons.prems(2,3) x by (simp split: if_splits)
  qed
qed

lemma bulk_load_rule:
  assumes ok: "txn_ok env \<sigma> (n + load_pages kv) H F w" and v: "\<forall>x \<in> set kv. length (snd x) < 65536" "\<forall>x \<in> set (tl kv). fst x \<noteq> []"
  shows "result_ok (bulk_load env b fill kv w) (\<lambda>w'. \<exists>H'. failed env \<sigma> H' w') (\<lambda>b' w'. root b = 0 \<and> sorted_wrt (<) (map fst kv) \<and>
    (\<forall>x \<in> set kv. length (fst x) \<le> maxKeySize) \<and>
    (\<exists>P. loaded_at (V w') P (Suc (length kv)) b' kv \<and> P \<inter> F = {} \<and> txn_ok env \<sigma> n H (F \<union> P) w' \<and> same_pages F w w'))"
proof (cases "BeginBulkLoad b fill")
  case (Inl e)
  then show ?thesis using txn_ok_failed [OF ok] by (auto simp: bulk_load_def result_ok_def)
next
  case (Inr l)
  then have l: "root b = 0" "spine l = []" "\<not> finished l" "lastKey l = None" by (auto simp: BeginBulkLoad_def Let_def split: if_splits)
  then have "bulk_loading env \<sigma> (n + load_pages kv) H F w [] (l, w)" using ok by (simp add: bulk_loading_def last_ok_def)
  from append_all_rule [OF this v(1)] have "result_ok (append_all env kv (l, w)) (spoilt env \<sigma>) (\<lambda>_ s'. bulk_loading env \<sigma> n H F w kv s')" using v(2) by simp
  then show ?thesis
  proof (cases rule: result_ok_cases)
    case (err e s)
    then show ?thesis using Inr by (cases s) (auto simp: bulk_load_def result_ok_def try_ok_def try_or_def spoilt_def)
  next
    case (val x s)
    then obtain pid b' l' w' P where "Finish b s = Some (Inr (pid, b'), (l', w'))" "sorted_wrt (<) (map fst kv)" "\<forall>x \<in> set kv. length (fst x) \<le> maxKeySize"
      "loaded_at (V w') P (Suc (length kv)) b' kv" "P \<inter> F = {}" "txn_ok env \<sigma> n H (F \<union> P) w'" "same_pages F w w'"
      using Finish_rule [OF val(2) l(1)] by blast
    then show ?thesis using Inr val(1) l(1) by (auto simp: bulk_load_def result_ok_def try_ok_def try_or_def)
  qed
qed

lemma loaded_search:
  assumes r: "read_ok env H L w" and b: "loaded_at (V w) P h b kv" "P \<subseteq> L" "h \<le> fuel env" 
  shows "result_ok (SearchKey env b k w) (reading env H L w) (\<lambda>x w'. x = map_of kv k \<and> reading env H L w w')"
proof (cases "root b = 0")
  case True
  then show ?thesis using r b(1) by (simp add: SearchKey_def result_ok_def loaded_at_def reading_def)
next
  case False
  then obtain t where t: "tid t = root b" "tree_at (V w) t" "P = set (tpages t)" "ordered None t None" "height t < h" "kvs t = kv" using b(1) by (auto simp: loaded_at_def)
  then show ?thesis using SearchKey_rule [OF r t(2) _ t(4)] b(2,3) by simp
qed

end
