(* ===== verification/Refusal.thy ===== *)
theory Refusal
  imports Requests
begin

text \<open>
  The errors of requests. An error of a request is an error of the layers below (the system calls and the buffer pool) or the
  refusal that the abstract database asks for: \<open>ErrKeyExists\<close> only when the key is bound, \<open>ErrKeyNotFound\<close> only when it
  is not, and the errors of a missing or an existing bucket likewise.
\<close>

section \<open>Errors of an outcome\<close>

definition layer_errors :: "error set" where
  "layer_errors = {ErrIO, ErrBufferExhausted, ErrInvalidWrite}"

definition opn :: "world \<Rightarrow> bool" where
  "opn w \<longleftrightarrow> writable (txn w) \<and> \<not> closed (txn w)"

text \<open>The outcome is a state of an open write transaction, and an error in it is one of \<open>S\<close>.\<close>

definition faults :: "error set \<Rightarrow> ('a, world) outcome \<Rightarrow> bool" where
  "faults S r \<longleftrightarrow> (\<forall>x w. r = Some (x, w) \<longrightarrow> opn w \<and> (\<forall>e. x = Inl e \<longrightarrow> e \<in> S))"

definition keeps_open :: "(world \<Rightarrow> world option) \<Rightarrow> bool" where
  "keeps_open g \<longleftrightarrow> (\<forall>w w'. opn w \<longrightarrow> g w = Some w' \<longrightarrow> opn w')"

lemma faults_mono: "faults S r \<Longrightarrow> S \<subseteq> S' \<Longrightarrow> faults S' r"
  by (auto simp: faults_def)

lemma faultsD: "faults S (Some (Inl e, w)) \<Longrightarrow> e \<in> S"
  by (simp add: faults_def)

lemma faults_none: "faults S None"
  by (simp add: faults_def)

lemma faults_val: "opn w \<Longrightarrow> faults S (Some (Inr x, w))"
  by (simp add: faults_def)

lemma faults_err: "opn w \<Longrightarrow> e \<in> S \<Longrightarrow> faults S (Some (Inl e, w))"
  by (simp add: faults_def)

lemma faults_result: "opn w \<Longrightarrow> (\<And>e. r = Inl e \<Longrightarrow> e \<in> S) \<Longrightarrow> faults S (Some (r, w))"
  by (simp add: faults_def)

lemma faults_mapped: "opn w \<Longrightarrow> (\<And>e. r = Inl e \<Longrightarrow> e \<in> S) \<Longrightarrow> faults S (Some (case r of Inl e \<Rightarrow> Inl e | Inr x \<Rightarrow> Inr (f x), w))"
  by (cases r) (simp_all add: faults_def)

lemma faults_try_or:
  assumes "faults S r" "keeps_open c" "\<And>x w. opn w \<Longrightarrow> faults S (k x w)"
  shows "faults S (try_or r c k)"
proof (cases r)
  case (Some p)
  obtain y s where p: "p = (y, s)" by (cases p)
  have s: "opn s" "\<And>e. y = Inl e \<Longrightarrow> e \<in> S" using assms(1) Some p by (simp_all add: faults_def)
  show ?thesis
  proof (cases y)
    case (Inl e)
    then show ?thesis using Some p s assms(2) by (cases "c s") (auto simp: try_or_def faults_def keeps_open_def)
  next
    case (Inr x)
    then show ?thesis using Some p s(1) assms(3) by (simp add: try_or_def)
  qed
qed (simp add: try_or_def faults_none)

lemma keeps_open_Some: "keeps_open Some"
  by (simp add: keeps_open_def)

lemma keeps_open_bind: "keeps_open g \<Longrightarrow> (\<And>v. keeps_open (h v)) \<Longrightarrow> keeps_open (\<lambda>w. g w \<bind> (\<lambda>w'. h w w'))"
  unfolding keeps_open_def by (metis bind_eq_Some_conv)

lemma faults_try_ok: "faults S r \<Longrightarrow> (\<And>x w. opn w \<Longrightarrow> faults S (k x w)) \<Longrightarrow> faults S (try_ok r k)"
  unfolding try_ok_def by (rule faults_try_or [OF _ keeps_open_Some])

lemma faults_try_ok_from: "faults S r \<Longrightarrow> (\<And>x w. r = Some (Inr x, w) \<Longrightarrow> faults S (k x w)) \<Longrightarrow> faults S (try_ok r k)"
  by (cases r) (auto simp: try_ok_def try_or_def faults_def split: sum.splits)

lemma faults_bind: "(\<And>x. m = Some x \<Longrightarrow> faults S (k x)) \<Longrightarrow> faults S (m \<bind> k)"
  by (cases m) (simp_all add: faults_none)

lemma faults_bind_result:
  assumes "faults S m" "\<And>r w. opn w \<Longrightarrow> (\<And>e. r = Inl e \<Longrightarrow> e \<in> S) \<Longrightarrow> faults S (k r w)"
  shows "faults S (m \<bind> (\<lambda>(r, w). k r w))"
proof (cases m)
  case (Some p)
  obtain r w where "p = (r, w)" by (cases p)
  then show ?thesis using assms(1) assms(2) [of w r] Some by (simp add: faults_def)
qed (simp add: faults_none)

lemma faults_step: "keeps_open g \<Longrightarrow> opn w \<Longrightarrow> (\<And>w. opn w \<Longrightarrow> faults S (k w)) \<Longrightarrow> faults S (g w \<bind> k)"
  by (cases "g w") (auto simp: keeps_open_def faults_none)

lemma faults_if: "faults S a \<Longrightarrow> faults S b \<Longrightarrow> faults S (if c then a else b)"
  by simp

lemma faults_option: "faults S a \<Longrightarrow> (\<And>x. faults S (f x)) \<Longrightarrow> faults S (case_option a f y)"
  by (cases y) simp_all

lemma faults_prod: "(\<And>a b. faults S (f a b)) \<Longrightarrow> faults S (case_prod f p)"
  by (cases p) simp

lemma faults_prod_fun: "(\<And>a b. faults S (f a b w)) \<Longrightarrow> faults S (case_prod f p w)"
  by (cases p) simp

section \<open>Steps that change the state\<close>

lemma keeps_open_same: "(\<And>w w'. g w = Some w' \<Longrightarrow> writable (txn w') = writable (txn w) \<and> closed (txn w') = closed (txn w)) \<Longrightarrow> keeps_open g"
  unfolding keeps_open_def opn_def by metis

lemma keeps_open_node: "keeps_open (\<lambda>w. node_unpin (f w) w)" "keeps_open (\<lambda>w. modify (f w) (g w) w)" "keeps_open (\<lambda>w. free_page (pid w) w)"
  by (rule keeps_open_same, auto simp: node_unpin_def modify_def free_page_def FreePage_def bind_eq_Some_conv split: if_splits)+

lemma keeps_open_prev: "keeps_open (unpin_prev prev)"
  unfolding unpin_prev_def using keeps_open_node(1) keeps_open_Some by (cases prev) (simp_all add: keeps_open_def)

lemma faults_unpin: "opn w \<Longrightarrow> (\<And>w. opn w \<Longrightarrow> faults S (k w)) \<Longrightarrow> faults S (node_unpin f w \<bind> k)"
  by (rule faults_step [OF keeps_open_node(1)])

lemma faults_modify: "opn w \<Longrightarrow> (\<And>w. opn w \<Longrightarrow> faults S (k w)) \<Longrightarrow> faults S (modify f g w \<bind> k)"
  by (rule faults_step [OF keeps_open_node(2)])

lemma faults_free: "opn w \<Longrightarrow> (\<And>w. opn w \<Longrightarrow> faults S (k w)) \<Longrightarrow> faults S (free_page pid w \<bind> k)"
  by (rule faults_step [OF keeps_open_node(3)])

lemma faults_prev: "opn w \<Longrightarrow> (\<And>w. opn w \<Longrightarrow> faults S (k w)) \<Longrightarrow> faults S (unpin_prev prev w \<bind> k)"
  by (rule faults_step [OF keeps_open_prev])

lemma opn_put_node [simp]: "opn (put_node f d w) = opn w"
  by (simp add: opn_def put_node_def)

lemma opn_put_nodeI: "opn w \<Longrightarrow> opn (put_node f d w)"
  by simp

lemmas faults_steps = faults_unpin faults_modify faults_free faults_prev

lemmas keeps_rules = keeps_open_node keeps_open_prev keeps_open_bind

lemmas faults_rules = faults_try_ok faults_try_or faults_steps faults_bind_result faults_bind faults_if faults_option faults_prod faults_prod_fun
  faults_none faults_val faults_err faults_mapped faults_result opn_put_nodeI keeps_rules

section \<open>The buffer pool\<close>

definition pool_faults :: "((error + nat) \<times> BufferPool) option \<Rightarrow> bool" where
  "pool_faults r \<longleftrightarrow> (\<forall>e bp. r = Some (Inl e, bp) \<longrightarrow> e \<in> layer_errors)"

lemma system_errors:
  "WritePage s pid buf = Some (Some e, s') \<Longrightarrow> e = ErrIO" "ReadPage s pid buf = Some (Some e, buf', s') \<Longrightarrow> e = ErrIO" "Allocate fu s pid = Some (Some e, s') \<Longrightarrow> e = ErrIO"
  by (auto simp: WritePage_def WriteAt_def ReadPage_def ReadAt_def Allocate_def Truncate_def Let_def bind_eq_Some_conv split: if_splits prod.splits io.splits option.splits)

lemma evictFrame_faults: "evictFrame_loop n bp tries = Some (Inl e, bp') \<Longrightarrow> e = ErrBufferExhausted"
  by (induction n arbitrary: bp tries) (auto simp: Let_def split: if_splits)

lemma acquireFrame_faults: "acquireFrame_loop n env bp = Some (Inl e, bp') \<Longrightarrow> e \<in> layer_errors"
proof (induction n arbitrary: bp)
  case (Suc n)
  from Suc.prems obtain res bp1 where ev: "evictFrame env bp = Some (res, bp1)" by (auto simp: bind_eq_Some_conv)
  show ?case
  proof (cases res)
    case (Inl e')
    then show ?thesis using Suc.prems ev evictFrame_faults by (auto simp: evictFrame_def layer_errors_def)
  next
    case (Inr f)
    show ?thesis
    proof (cases "dirty (frames bp1 ! f)")
      case True
      obtain err s where "pageId (frames bp1 ! f) \<noteq> freePageId" "WritePage (sm bp1) (pageId (frames bp1 ! f)) (data (frames bp1 ! f)) = Some (err, s)"
        using Suc.prems ev Inr True by (auto simp: Let_def bind_eq_Some_conv split: if_splits)
      then show ?thesis using Suc.prems ev Inr True Suc.IH system_errors(1) by (cases err) (auto simp: Let_def layer_errors_def split: if_splits)
    next
      case False
      then show ?thesis using Suc.prems ev Inr Suc.IH by (auto simp: Let_def split: if_splits)
    qed
  qed
qed simp

lemma acquire_error: "acquireFrame env bp = Some (Inl e, bp') \<Longrightarrow> e \<in> layer_errors"
  unfolding acquireFrame_def by (rule acquireFrame_faults)

lemma Get_faults: "pool_faults (Get env bp pid)"
proof (cases "table_get bp pid")
  case None
  show ?thesis
  proof (cases "acquireFrame env bp")
    case (Some p)
    obtain r bp1 where p: "p = (r, bp1)" by (cases p)
    then show ?thesis using None Some acquire_error system_errors(2)
      by (cases r) (auto simp: pool_faults_def Get_def loadAndInstall_def Let_def layer_errors_def bind_eq_Some_conv split: option.splits)
  qed (simp add: None pool_faults_def Get_def loadAndInstall_def)
qed (simp add: pool_faults_def Get_def)

lemma GetForWrite_faults: "pool_faults (GetForWrite env bp pid)"
proof (cases "table_get bp pid")
  case None
  show ?thesis
  proof (cases "acquireFrame env bp")
    case (Some p)
    obtain r bp1 where p: "p = (r, bp1)" by (cases p)
    then show ?thesis using None Some acquire_error by (cases r) (auto simp: pool_faults_def GetForWrite_def)
  qed (simp add: None pool_faults_def GetForWrite_def)
qed (simp add: pool_faults_def GetForWrite_def layer_errors_def)

lemma AllocatePage_faults: "pool_faults (AllocatePage env bp pid)"
proof -
  have "e \<in> layer_errors" if a: "AllocatePage env bp pid = Some (Inl e, bp')" for e bp'
  proof -
    obtain err s where al: "Allocate (fuel env) (sm bp) pid = Some (err, s)"
      using a by (cases "Allocate (fuel env) (sm bp) pid") (auto simp: AllocatePage_def)
    show ?thesis
      using a al GetForWrite_faults [of env "bp\<lparr>sm := s\<rparr>" pid] system_errors(3) [of "fuel env" "sm bp" pid]
      by (cases err) (auto simp: AllocatePage_def pool_faults_def layer_errors_def)
  qed
  then show ?thesis by (simp add: pool_faults_def)
qed

lemma in_db_faults: "(\<And>bp. pool_faults (m bp)) \<Longrightarrow> opn w \<Longrightarrow> faults layer_errors (in_db (in_pool m) w)"
  by (auto simp: faults_def pool_faults_def in_db_def in_pool_def opn_def bind_eq_Some_conv)

section \<open>Pages and nodes\<close>

lemma txnGet_faults: "opn w \<Longrightarrow> faults layer_errors (txnGet env pid w)"
  using in_db_faults [OF Get_faults] by (simp add: txnGet_def opn_def)

lemma getNode_faults: "opn w \<Longrightarrow> faults layer_errors (getNode env pid w)"
  unfolding getNode_def by (rule txnGet_faults)

lemma takePage_faults: "opn w \<Longrightarrow> faults layer_errors (takePage env pid w)"
  unfolding takePage_def Let_def by (rule faults_try_ok [OF in_db_faults [OF GetForWrite_faults]]) (simp_all add: faults_def opn_def)

lemma AllocatePage_txn_faults: "opn w \<Longrightarrow> faults layer_errors (txnAllocatePage env w)"
  unfolding txnAllocatePage_def Let_def
  by (auto simp: opn_def split: prod.splits bool.splits intro!: takePage_faults [unfolded opn_def] faults_try_ok [OF in_db_faults [OF AllocatePage_faults]])
    (auto simp: faults_def opn_def)

lemma alloc_faults: "opn w \<Longrightarrow> faults layer_errors (alloc_node t env w)"
  "opn w \<Longrightarrow> faults layer_errors (allocLeaf env w)" "opn w \<Longrightarrow> faults layer_errors (allocInternal env w)"
  unfolding allocLeaf_def allocInternal_def alloc_node_def by ((rule faults_rules AllocatePage_txn_faults | assumption)+)

section \<open>Overflow pages and values\<close>

lemma writeOverflow_faults: "opn w \<Longrightarrow> faults layer_errors (writeOverflow_loop env v off firstID prev w)"
proof (induction env v off firstID prev w rule: writeOverflow_loop.induct)
  case (1 env v off firstID prev w)
  have link: "opn w' \<Longrightarrow> link_overflow prev f firstID w' = Some (i, u) \<Longrightarrow> opn u" for f i w' u
    by (auto simp: link_overflow_def opn_def modify_def node_unpin_def bind_eq_Some_conv split: option.splits)
  show ?case
  proof (cases "off < length v")
    case True
    have "faults layer_errors (modify f (fill_overflow v off) u \<bind> (\<lambda>w. link_overflow prev f firstID w \<bind> (\<lambda>(firstID, w). writeOverflow_loop env v (off + overflowChunkSize) firstID (Some f) w)))"
      if u: "opn u" for f u
    proof (rule faults_bind)
      fix u1 assume m: "modify f (fill_overflow v off) u = Some u1"
      then have u1: "opn u1" using u keeps_open_node(2) [of "\<lambda>_. f" "\<lambda>_. fill_overflow v off"] by (auto simp: keeps_open_def)
      show "faults layer_errors (link_overflow prev f firstID u1 \<bind> (\<lambda>(firstID, w). writeOverflow_loop env v (off + overflowChunkSize) firstID (Some f) w))"
      proof (rule faults_bind)
        fix p assume p: "link_overflow prev f firstID u1 = Some p"
        then have "opn (snd p)" using link [OF u1, of f "fst p" "snd p"] by simp
        then show "faults layer_errors (case p of (firstID, w) \<Rightarrow> writeOverflow_loop env v (off + overflowChunkSize) firstID (Some f) w)"
          using 1(1) [OF True m p prod.collapse] by (simp only: case_prod_beta)
      qed
    qed
    then show ?thesis using True 1(2) unfolding writeOverflow_loop.simps [of env v off firstID prev w] if_P [OF True]
      by (intro faults_try_or AllocatePage_txn_faults keeps_open_prev)
  next
    case False
    show ?thesis unfolding writeOverflow_loop.simps [of env v off firstID prev w] if_not_P [OF False]
      by (rule faults_prev [OF 1(2)]) (rule faults_val)
  qed
qed

lemma leafCellOverflow_faults: "opn w \<Longrightarrow> faults layer_errors (leafCellOverflow env k v w)"
  by (simp add: leafCellOverflow_def writeOverflowPages_def writeOverflow_faults faults_val)

lemma readOverflow_faults: "opn w \<Longrightarrow> faults layer_errors (readOverflow_loop n env vallen v off pid w)"
proof (induction n arbitrary: v off pid w)
  case (Suc n)
  show ?case using Suc.prems unfolding readOverflow_loop.simps Let_def by - (assumption | rule txnGet_faults Suc.IH faults_rules)+
qed (simp add: faults_none)

lemma freeOverflow_faults: "opn w \<Longrightarrow> faults layer_errors (freeOverflow_loop n env pid w)"
proof (induction n arbitrary: pid w)
  case (Suc n)
  show ?case using Suc.prems unfolding freeOverflow_loop.simps by - (assumption | rule txnGet_faults Suc.IH faults_rules)+
qed (simp add: faults_none)

lemma freeOverflowPages_faults: "opn w \<Longrightarrow> faults layer_errors (freeOverflowPages env pid w)"
  unfolding freeOverflowPages_def by (rule freeOverflow_faults)

lemma leafValue_faults: "opn w \<Longrightarrow> faults layer_errors (leafValue env f idx w)"
  unfolding leafValue_def readOverflowPages_def Let_def by (assumption | rule readOverflow_faults faults_rules)+

section \<open>Searching and freeing\<close>

lemma Search_faults: "opn w \<Longrightarrow> faults layer_errors (Search_loop n env f k w)"
proof (induction n arbitrary: f w)
  case (Suc n)
  show ?case using Suc.prems unfolding Search_loop.simps by - (assumption | rule getNode_faults leafValue_faults Suc.IH faults_rules)+
qed (simp add: faults_none)

lemma SearchKey_faults: "opn w \<Longrightarrow> faults layer_errors (SearchKey env t k w)"
  unfolding SearchKey_def by (assumption | rule getNode_faults Search_faults faults_rules)+

lemma free_cells_faults: "opn w \<Longrightarrow> faults layer_errors (free_cells_overflow env f i n w)"
proof (induction n arbitrary: i w)
  case (Suc n)
  show ?case using Suc.prems unfolding free_cells_overflow.simps by - (assumption | rule freeOverflowPages_faults Suc.IH faults_rules)+
qed (simp add: faults_val)

lemma free_children_faults: "(\<And>c w. opn w \<Longrightarrow> faults layer_errors (freeSubtree n env c w)) \<Longrightarrow> opn w \<Longrightarrow> faults layer_errors (free_children n env cs w)"
  by (induction cs arbitrary: w) (auto intro: faults_val faults_try_ok)

lemma freeSubtree_faults: "opn w \<Longrightarrow> faults layer_errors (freeSubtree n env pid w)"
proof (induction n arbitrary: pid w)
  case (Suc n)
  show ?case using Suc.prems unfolding freeSubtree.simps by - (assumption | rule getNode_faults free_cells_faults free_children_faults Suc.IH faults_rules)+
qed (simp add: faults_none)

lemma FreeAll_faults: "opn w \<Longrightarrow> faults layer_errors (FreeAll env t w)"
  unfolding FreeAll_def by (rule freeSubtree_faults)

section \<open>Updating\<close>

lemmas node_faults = getNode_faults alloc_faults leafCellOverflow_faults leafValue_faults freeOverflowPages_faults

lemma splitLeaf_faults: "opn w \<Longrightarrow> faults layer_errors (splitLeaf env f idx k v r w)"
  unfolding splitLeaf_def by (assumption | rule node_faults faults_rules)+

lemma splitInternal_faults: "opn w \<Longrightarrow> faults layer_errors (splitInternal env f idx c k e w)"
  unfolding splitInternal_def by (assumption | rule node_faults faults_rules)+

lemma appendLeafCell_faults: "opn w \<Longrightarrow> faults layer_errors (appendLeafCell env f k v w)"
  unfolding appendLeafCell_def by (assumption | rule node_faults faults_rules)+

lemma rebuildLeaf_faults: "opn w \<Longrightarrow> faults layer_errors (rebuildLeaf env f idx from k v w)"
  unfolding rebuildLeaf_def by (assumption | rule node_faults appendLeafCell_faults faults_rules)+

lemma split_rebuilt_faults: "faults S m \<Longrightarrow> faults S (split_rebuilt m)"
  unfolding split_rebuilt_def by (assumption | rule faults_rules)+

lemmas rebuild_faults = splitLeaf_faults splitInternal_faults appendLeafCell_faults rebuildLeaf_faults split_rebuilt_faults

lemma replaceLeafValue_faults: "opn w \<Longrightarrow> mode \<noteq> ModeInsert \<Longrightarrow> faults layer_errors (replaceLeafValue env f idx k v mode w)"
  unfolding replaceLeafValue_def Let_def by (simp only: if_False) (assumption | rule node_faults rebuild_faults faults_rules)+

lemma addLeafValue_faults: "opn w \<Longrightarrow> mode \<noteq> ModeUpdate \<Longrightarrow> faults layer_errors (addLeafValue env f idx k v mode w)"
  unfolding addLeafValue_def Let_def by (simp only: if_False) (assumption | rule node_faults rebuild_faults faults_rules)+

lemma internal_faults:
  "opn w \<Longrightarrow> faults layer_errors (applyChildSplitToInternal env f idx c k e w)"
  "opn w \<Longrightarrow> faults layer_errors (replaceInternalChild env f idx g w)"
  unfolding applyChildSplitToInternal_def replaceInternalChild_def by (assumption | rule node_faults faults_rules)+

lemma updateInternalAfterChildSplit_faults: "opn w \<Longrightarrow> faults layer_errors (updateInternalAfterChildSplit env f idx g s g' w)"
  unfolding updateInternalAfterChildSplit_def Let_def by (assumption | rule node_faults rebuild_faults internal_faults faults_rules)+

text \<open>The error that a mode asks for, when the key is bound or not.\<close>

definition mode_errors :: "Mode \<Rightarrow> bool \<Rightarrow> error set" where
  "mode_errors mode bound = (case mode of ModeUpsert \<Rightarrow> {} | ModeInsert \<Rightarrow> if bound then {ErrKeyExists} else {} | ModeUpdate \<Rightarrow> if bound then {} else {ErrKeyNotFound})"

lemma updateLeaf_faults:
  assumes "opn w" "lnode (node_data w f) (map item_entry es)" "sorted_wrt (<) (map fst es)"
  shows "faults (layer_errors \<union> mode_errors mode (map_of (map item_kv es) k \<noteq> None)) (updateLeaf env f k v mode w)"
proof -
  obtain idx where i: "searchLeaf (node_data w f) k = Some (idx, has_item k es)" using searchLeaf_items [OF assms(2,3)] .
  show ?thesis
  proof (cases "has_item k es")
    case True
    then show ?thesis unfolding has_item_map [symmetric]
      using faults_mono [OF replaceLeafValue_faults [OF assms(1), of mode env f idx k v]] assms(1)
      by (cases mode) (simp_all add: updateLeaf_def i mode_errors_def replaceLeafValue_def [of _ _ _ _ _ ModeInsert] faults_err)
  next
    case False
    then show ?thesis unfolding has_item_map [symmetric]
      using faults_mono [OF addLeafValue_faults [OF assms(1), of mode env f idx k v]] assms(1)
      by (cases mode) (simp_all add: updateLeaf_def i mode_errors_def addLeafValue_def [of _ _ _ _ _ ModeUpdate] faults_err)
  qed
qed

lemma updateNode_faults:
  "height t < n \<Longrightarrow> opn w \<Longrightarrow> read_ok env H L w \<Longrightarrow> (f, tid t, wr) \<in># H \<Longrightarrow> tree_at (V w) t \<Longrightarrow> set (tpages t) \<subseteq> L \<Longrightarrow> ordered lo t hi \<Longrightarrow>
   faults (layer_errors \<union> mode_errors mode (map_of (kvs t) k \<noteq> None)) (updateNode n env f k v mode w)"
proof (induction n arbitrary: t f w wr lo hi H)
  case (Suc n)
  let ?S = "layer_errors \<union> mode_errors mode (map_of (kvs t) k \<noteq> None)"
  have nd: "node_data w f = V w (tid t)" using handle_node(1) [OF Suc.prems(3,4)] .
  show ?case
  proof (cases t)
    case (Leaf p es)
    have "lnode (node_data w f) (map item_entry es)" "sorted_wrt (<) (map fst es)" using Suc.prems(5,7) Leaf nd by simp_all
    from updateLeaf_faults [OF Suc.prems(2) this] lnode_reads(1) [OF this(1)] show ?thesis using Leaf by simp
  next
    case (Node p cks r)
    let ?c = "pick cks r k"
    have nr: "inode (node_data w f) (child_refs cks) (tid r)" and oc: "ordered_cs lo cks r hi" using Suc.prems(5,7) Node nd by simp_all
    obtain idx where i: "searchInternal (node_data w f) k = Some idx" "child (node_data w f) idx = Some (tid ?c)" using searchInternal_pick [OF nr oc] by blast
    have c: "set (tpages ?c) \<subseteq> L" "tree_at (V w) ?c" using tpages_pick [of cks r k p] tree_at_pick Suc.prems(5,6) Node by blast+
    obtain lo' hi' where oo: "ordered lo' ?c hi'" using pick_ordered [OF oc] by blast
    have look: "map_of (kvs t) k = map_of (kvs ?c) k" using pick_lookup [OF oc, of p k] Node by simp
    have inner: "faults ?S (updateNode n env g k v mode u)" if "getNode env (tid ?c) w = Some (Inr g, u)" for g u
    proof -
      have "tid ?c \<in> L" using c(1) tid_in_tpages by blast
      then have rd: "reading env (add_mset (g, tid ?c, False) H) L w u" using txnGet_read [OF Suc.prems(3), of "tid ?c"] that by (simp add: getNode_def result_ok_def)
      have "tree_at (V u) ?c" using c reading_same [OF rd] by (subst tree_at_cong [of ?c "V u" "V w"]) (auto simp: same_pages_def)
      moreover have "opn u" using getNode_faults [OF Suc.prems(2), of env "tid ?c"] that by (simp add: faults_def)
      ultimately show ?thesis unfolding look using rd c(1) oo Suc.prems(1) Node height_pick [of cks r k p]
        by (intro Suc.IH [where H = "add_mset (g, tid ?c, False) H" and wr = False]) (auto simp: reading_def)
    qed
    have rest: "faults ?S (do { w \<leftarrow> node_unpin g u; case res of None \<Rightarrow> Some (Inr None, w) | Some (newChild, extra) \<Rightarrow> do {
           w \<leftarrow> free_page (tid ?c) w;
           case extra of None \<Rightarrow> replaceInternalChild env f idx newChild w
           | Some (extraChild, pushUpKey) \<Rightarrow> updateInternalAfterChildSplit env f idx newChild pushUpKey extraChild w } })" if "opn u" for g u res
      using that by - (rule faults_mono [where S = layer_errors], (assumption | rule internal_faults updateInternalAfterChildSplit_faults faults_rules)+, simp)
    have "faults ?S (try_ok (getNode env (tid ?c) w) (\<lambda>childNode w. try_or (updateNode n env childNode k v mode w) (node_unpin childNode) (\<lambda>res w. do {
        w \<leftarrow> node_unpin childNode w;
        case res of None \<Rightarrow> Some (Inr None, w) | Some (newChild, extra) \<Rightarrow> do {
           w \<leftarrow> free_page (tid ?c) w;
           case extra of None \<Rightarrow> replaceInternalChild env f idx newChild w
           | Some (extraChild, pushUpKey) \<Rightarrow> updateInternalAfterChildSplit env f idx newChild pushUpKey extraChild w } })))"
      (is "faults ?S (try_ok _ ?K)")
    proof (rule faults_try_ok_from [OF faults_mono [OF getNode_faults [OF Suc.prems(2)]]])
      fix g u assume g: "getNode env (tid ?c) w = Some (Inr g, u)"
      show "faults ?S (?K g u)" by (rule faults_try_or [OF inner [OF g] keeps_open_node(1) rest])
    qed simp
    then show ?thesis using i inode_reads(1) [OF nr] by (simp add: nodeLeaf_def nodeInternal_def)
  qed
qed (simp add: faults_none)

lemma first_leaf_faults:
  assumes "opn w"
  shows "faults layer_errors (try_ok (allocLeaf env w) (\<lambda>leaf w. try_or (appendLeafCell env leaf k v w)
     (\<lambda>w. do { w \<leftarrow> node_unpin leaf w; free_page (Id w leaf) w }) (\<lambda>_ w. do { w \<leftarrow> node_unpin leaf w; Some (Inr (Id w leaf, t\<lparr>root := Id w leaf\<rparr>), w) })))"
  using assms by - (assumption | rule node_faults rebuild_faults faults_rules)+

lemma new_root_faults:
  assumes "opn w"
  shows "faults layer_errors (do {
     w \<leftarrow> node_unpin rootNode w;
     case res of
       None \<Rightarrow> Some (Inr (root t, t), w)
     | Some (newChild, extra) \<Rightarrow> do {
         w \<leftarrow> free_page (root t) w;
         case extra of
           None \<Rightarrow> do {
             let newID = Id w newChild;
             w \<leftarrow> node_unpin newChild w;
             Some (Inr (newID, t\<lparr>root := newID\<rparr>), w)
           }
         | Some (extraChild, pushUpKey) \<Rightarrow>
             try_or (allocInternal env w) (\<lambda>w. do { w \<leftarrow> node_unpin newChild w; node_unpin extraChild w })
               (\<lambda>newRoot w. do {
                 w \<leftarrow> modify newRoot (\<lambda>d. appendInternalCell d (Id w newChild) pushUpKey) w;
                 w \<leftarrow> modify newRoot (\<lambda>d. setRightmostChild d (Id w extraChild)) w;
                 w \<leftarrow> node_unpin newChild w;
                 w \<leftarrow> node_unpin extraChild w;
                 w \<leftarrow> node_unpin newRoot w;
                 Some (Inr (Id w newRoot, t\<lparr>root := Id w newRoot\<rparr>), w)
               })
       }
   })"
  using assms unfolding Let_def by - (assumption | rule node_faults faults_rules)+

lemma UpdateKey_faults:
  assumes "opn w" "read_ok env H L w" "map_at (V w) P h K b m" "P \<subseteq> L" "h \<le> fuel env" "length k \<le> maxKeySize"
  shows "faults (layer_errors \<union> mode_errors mode (m k \<noteq> None)) (UpdateKey env b k v mode w)" (is "faults ?S _")
proof (cases "root b = 0")
  case True
  then have "m = Map.empty" using assms(3) by (simp add: map_at_def)
  then show ?thesis using faults_mono [OF first_leaf_faults [OF assms(1)], of ?S] assms(1,6) True
    by (cases mode) (simp_all add: UpdateKey_def mode_errors_def faults_err)
next
  case False
  obtain t where t0: "tid t = root b" "stored (V w) P t" "P = set (tpages t)" "tree_map h K t m" using assms(3) False by (rule map_at_tree)
  then have t: "tid t = root b" "tree_at (V w) t" "set (tpages t) \<subseteq> L" "ordered None t None" "map_of (kvs t) = m" "height t < fuel env"
    using assms(4,5) by (auto simp: tree_map_def stored_def)
  have rL: "root b \<in> L" using t(1,3) tid_in_tpages [of t] by auto
  have inner: "faults ?S (updateNode (fuel env) env g k v mode u)" if "getNode env (root b) w = Some (Inr g, u)" for g u
  proof -
    have rd: "reading env (add_mset (g, tid t, False) H) L w u" using txnGet_read [OF assms(2) rL] that t(1) by (simp add: getNode_def result_ok_def)
    have "tree_at (V u) t" using t(2,3) reading_same [OF rd] by (subst tree_at_cong [of t "V u" "V w"]) (auto simp: same_pages_def)
    moreover have "opn u" using getNode_faults [OF assms(1), of env "root b"] that by (simp add: faults_def)
    ultimately show ?thesis unfolding t(5) [symmetric] using rd t(3,4,6)
      by (intro updateNode_faults [where H = "add_mset (g, tid t, False) H" and wr = False]) (auto simp: reading_def)
  qed
  note mono = faults_mono [OF _ Un_upper1]
  show ?thesis unfolding UpdateKey_def if_not_P [OF False] if_not_P [OF leD [OF assms(6)]]
  proof (rule faults_try_ok_from [OF mono [OF getNode_faults [OF assms(1)]]], goal_cases)
    case (1 g u)
    show ?case by (rule faults_try_or [OF inner [OF 1] keeps_open_node(1) mono [OF new_root_faults]])
  qed
qed

section \<open>Deleting\<close>

lemma borrow_faults:
  "opn w \<Longrightarrow> faults layer_errors (rebuildParentForBorrow env f idx l s r w)"
  "opn w \<Longrightarrow> faults layer_errors (borrowFromLeft env f idx g ch w)"
  "opn w \<Longrightarrow> faults layer_errors (borrowFromRight env f idx g ch w)"
  unfolding rebuildParentForBorrow_def borrowFromLeft_def borrowFromRight_def borrowFromLeftLeaf_def borrowFromLeftInternal_def
    borrowFromRightLeaf_def borrowFromRightInternal_def Let_def
  by (assumption | rule node_faults faults_rules)+

lemma borrowForUnderfullChild_faults: "opn w \<Longrightarrow> faults layer_errors (borrowForUnderfullChild env f idx g w)"
  unfolding borrowForUnderfullChild_def borrow_left_def borrow_right_def by (assumption | rule node_faults borrow_faults faults_rules)+

lemma merge_faults:
  "opn w \<Longrightarrow> faults layer_errors (rebuildParentForMerge env f idx g w)"
  "opn w \<Longrightarrow> faults layer_errors (mergeWithLeft env l s ch w)"
  "opn w \<Longrightarrow> faults layer_errors (mergeWithRight env ch r s w)"
  unfolding rebuildParentForMerge_def mergeWithLeft_def mergeWithRight_def by (assumption | rule node_faults faults_rules)+

lemma mergeUnderfullChild_faults: "opn w \<Longrightarrow> faults layer_errors (mergeUnderfullChild env f idx g w)"
  unfolding mergeUnderfullChild_def mergeUnderfullChildWithLeft_def mergeUnderfullChildWithRight_def Let_def
  by (assumption | rule node_faults merge_faults faults_rules)+

lemma deleteFromLeaf_faults: "opn w \<Longrightarrow> faults layer_errors (deleteFromLeaf env f k w)"
  unfolding deleteFromLeaf_def by (assumption | rule node_faults faults_rules)+

lemma replaceChildAfterDelete_faults: "opn w \<Longrightarrow> faults layer_errors (replaceChildAfterDelete env f idx g w)"
  unfolding replaceChildAfterDelete_def by (assumption | rule node_faults faults_rules)+

lemmas delete_faults = deleteFromLeaf_faults replaceChildAfterDelete_faults borrowForUnderfullChild_faults mergeUnderfullChild_faults

lemma deleteNode_faults: "opn w \<Longrightarrow> faults layer_errors (deleteNode n env f k w)"
proof (induction n arbitrary: f w)
  case (Suc n)
  show ?case using Suc.prems unfolding deleteNode.simps deleteFromInternal.simps by - (assumption | rule node_faults delete_faults Suc.IH faults_rules)+
qed (simp add: faults_none)

lemma DeleteKey_faults: "opn w \<Longrightarrow> faults layer_errors (DeleteKey env t k w)"
  unfolding DeleteKey_def Let_def by (assumption | rule node_faults deleteNode_faults faults_rules)+

section \<open>Buckets\<close>

definition missing :: "bytes \<Rightarrow> database \<Rightarrow> error set" where
  "missing nm D = (if D nm = None then {ErrBucketNotFound} else {})"

lemma db_at_opn: "db_at env A n H h S P B cat D w \<Longrightarrow> opn w"
  using db_atD(7) [of env A n H h S P B cat D w] by (simp add: opn_def txn_ok_def read_ok_def lists_ok_def)

lemma opn_set_bucket [simp]: "opn (set_bucket nm b w) = opn w"
  by (simp add: opn_def set_bucket_def)

lemma no_tree: "db_at env A n H h S P B cat D w \<Longrightarrow> tree_of w cat nm = None \<longleftrightarrow> D nm = None"
  using db_atD(1) [of env A n H h S P B cat D w nm] by (auto simp: bucket_at_def split: option.splits)

lemma catalogLookup_faults:
  assumes d: "db_at env A n H h S P B cat D w" and h: "h \<le> fuel env"
  shows "faults layer_errors (catalogLookup env nm w)"
proof -
  let ?L = "B \<union> (\<Union>x. P x)" and ?r = "catalogRoot (meta (txn w))"
  note o = db_at_opn [OF d]
  obtain Pc where pc: "map_at (V w) Pc h (bucket_names S) (NewBTree ?r) cat" "Pc \<subseteq> B" using db_atD(5) [OF d] by blast
  have ok: "read_ok env H ?L w" "Pc \<subseteq> ?L" using txn_read [OF db_atD(7) [OF d]] pc(2) by blast+
  have len: "length v = 8" if "cat nm = Some v" for v using db_atD(6) [OF d] that by (auto simp: ran_def)
  have sk: "opn u \<and> x = cat nm" if "SearchKey env (NewBTree ?r) nm w = Some (Inr x, u)" for x u
    using SearchKey_map [OF ok(1) pc(1) ok(2) h, of nm] SearchKey_faults [OF o, of env "NewBTree ?r" nm] that by (simp add: result_ok_def faults_def)
  show ?thesis unfolding catalogLookup_def
  proof (rule faults_if [OF faults_val [OF o] faults_try_ok_from [OF SearchKey_faults [OF o]]], goal_cases)
    case (1 x u)
    then have "opn u" "x = cat nm" using sk by blast+
    then show ?case using len by (cases "cat nm") (auto simp: Uint64_def intro!: faults_val)
  qed
qed

lemma lookupBucket_faults:
  assumes d: "db_at env A n H h S P B cat D w" and h: "h \<le> fuel env"
  shows "faults (layer_errors \<union> missing nm D) (lookupBucket env nm w)"
proof (cases "bucket_of nm w")
  case (Some b)
  then have "dropped b \<Longrightarrow> D nm = None" using no_tree [OF d, of nm] by (simp add: tree_of_def)
  then show ?thesis using Some db_at_opn [OF d] by (simp add: lookupBucket_def faults_val faults_err missing_def)
next
  case None
  have "faults (layer_errors \<union> missing nm D) (try_ok (catalogLookup env nm w) (\<lambda>(r, found) w.
      if \<not> found then Some (Inl ErrBucketNotFound, w)
      else Some (Inr nm, set_bucket nm \<lparr>name = nm, bt = Some (NewBTree r), origRoot = r, created = False, dropped = False\<rparr> w)))"
  proof (rule faults_try_ok_from [OF faults_mono [OF catalogLookup_faults [OF d h] Un_upper1]])
    fix y u assume c: "catalogLookup env nm w = Some (Inr y, u)"
    have "snd y \<longleftrightarrow> cat nm \<noteq> None" "opn u"
      using catalogLookup_rule [OF d h, of nm] catalogLookup_faults [OF d h, of nm] c by (auto simp: result_ok_def faults_def)
    moreover have "cat nm = None \<Longrightarrow> D nm = None" using no_tree [OF d, of nm] None by (simp add: tree_of_def)
    ultimately show "faults (layer_errors \<union> missing nm D) ((case y of (r, found) \<Rightarrow> \<lambda>w. if \<not> found then Some (Inl ErrBucketNotFound, w)
        else Some (Inr nm, set_bucket nm \<lparr>name = nm, bt = Some (NewBTree r), origRoot = r, created = False, dropped = False\<rparr> w)) u)"
      by (cases y) (auto simp: faults_def missing_def)
  qed
  then show ?thesis using None by (simp add: lookupBucket_def)
qed

lemma openBucket_faults:
  assumes "db_at env A n H h S P B cat D w" "h \<le> fuel env"
  shows "faults (layer_errors \<union> missing nm D) (openBucket env nm w)"
  using lookupBucket_faults [OF assms] db_at_opn [OF assms(1)] by (simp add: openBucket_def opn_def)

lemma CreateBucket_faults:
  assumes d: "db_at env A n H h S P B cat D w" and h: "h \<le> fuel env"
  shows "faults (layer_errors \<union> (if D nm = None then {} else {ErrBucketExists})) (CreateBucket env nm w)" (is "faults ?S _")
proof (cases "bucket_of nm w")
  case (Some b)
  have "bt b \<noteq> None" if "\<not> dropped b" using db_atD(4) [OF d Some] that by (auto simp: bucket_ok_def)
  then have "\<not> dropped b \<Longrightarrow> D nm \<noteq> None" using no_tree [OF d, of nm] Some by (auto simp: tree_of_def)
  then show ?thesis using Some db_at_opn [OF d] by (auto simp: CreateBucket_def faults_def opn_def set_bucket_def)
next
  case None
  have "faults ?S (try_ok (catalogLookup env nm w) (\<lambda>(_, found) w. if found then Some (Inl ErrBucketExists, w)
      else Some (Inr nm, set_bucket nm \<lparr>name = nm, bt = Some (NewBTree 0), origRoot = 0, created = True, dropped = False\<rparr> w)))"
  proof (rule faults_try_ok_from [OF faults_mono [OF catalogLookup_faults [OF d h] Un_upper1]])
    fix y u assume c: "catalogLookup env nm w = Some (Inr y, u)"
    have f: "snd y \<longleftrightarrow> cat nm \<noteq> None" "opn u" "\<And>v. cat nm = Some v \<Longrightarrow> Uint64 v = Some (fst y)"
      using catalogLookup_rule [OF d h, of nm] catalogLookup_faults [OF d h, of nm] c by (auto simp: result_ok_def faults_def)
    then have "cat nm \<noteq> None \<Longrightarrow> D nm \<noteq> None" using no_tree [OF d, of nm] None by (auto simp: tree_of_def)
    with f(1,2) show "faults ?S ((case y of (_, found) \<Rightarrow> \<lambda>w. if found then Some (Inl ErrBucketExists, w)
        else Some (Inr nm, set_bucket nm \<lparr>name = nm, bt = Some (NewBTree 0), origRoot = 0, created = True, dropped = False\<rparr> w)) u)"
      by (cases y) (auto simp: faults_def)
  qed
  then show ?thesis using None db_at_opn [OF d] by (simp add: CreateBucket_def opn_def)
qed

lemma DropBucket_faults:
  assumes d: "db_at env A n H h S P B cat D w" and h: "h \<le> fuel env"
  shows "faults (layer_errors \<union> missing nm D) (DropBucket env nm w)"
proof -
  have "faults (layer_errors \<union> missing nm D) (try_ok (lookupBucket env nm w) (\<lambda>nm w. do {
      b \<leftarrow> bucket_of nm w;
      t \<leftarrow> bt b;
      try_ok (FreeAll env t w) (\<lambda>_ w. Some (Inr (), set_bucket nm (b\<lparr>bt := None, dropped := True\<rparr>) w)) }))"
  proof (rule faults_try_ok [OF lookupBucket_faults [OF d h]])
    fix x u assume "opn u"
    then show "faults (layer_errors \<union> missing nm D) (do {
      b \<leftarrow> bucket_of x u;
      t \<leftarrow> bt b;
      try_ok (FreeAll env t u) (\<lambda>_ w. Some (Inr (), set_bucket x (b\<lparr>bt := None, dropped := True\<rparr>) w)) })"
      by (intro faults_bind faults_try_ok faults_mono [OF FreeAll_faults Un_upper1] faults_val) simp_all
  qed
  then show ?thesis using db_at_opn [OF d] by (simp add: DropBucket_def opn_def)
qed

lemma bucket_tree:
  assumes d: "db_at env A n H h S P B cat D w" and m: "D nm = Some m" "is_open nm w"
  obtains b t where "bucket_of nm w = Some b" "\<not> dropped b" "bt b = Some t" "map_at (V w) (P nm) h {k. length k = key_length S nm} t m"
proof -
  obtain b where b: "bucket_of nm w = Some b" using m(2) by (auto simp: is_open_def)
  obtain t where t: "tree_of w cat nm = Some t" "map_at (V w) (P nm) h {k. length k = key_length S nm} t m" by (rule db_at_focus [OF d m(1)])
  show thesis using that [OF b _ _ t(2)] BucketMap.opened [OF b t(1)] by blast
qed

lemma bucket_faults:
  assumes d: "db_at env A n H h S P B cat D w" and m: "D nm = Some m" "is_open nm w" and h: "h \<le> fuel env"
  shows "faults layer_errors (bucketGet env nm k w)" "faults layer_errors (bucketDelete env nm k w)"
    "length k \<le> maxKeySize \<Longrightarrow> faults (layer_errors \<union> mode_errors mode (m k \<noteq> None)) (bucket_update env nm k v mode w)"
proof -
  note o = db_at_opn [OF d]
  obtain b t where b: "bucket_of nm w = Some b" "\<not> dropped b" "bt b = Some t" "map_at (V w) (P nm) h {k. length k = key_length S nm} t m" by (rule bucket_tree [OF d m])
  show "faults layer_errors (bucketGet env nm k w)" using b SearchKey_faults [OF o] by (simp add: bucketGet_def)
  show "faults layer_errors (bucketDelete env nm k w)" using b by (auto simp: bucketDelete_def intro!: faults_try_ok [OF DeleteKey_faults [OF o]] faults_val split: prod.splits)
  assume k: "length k \<le> maxKeySize"
  have "read_ok env H (B \<union> (\<Union>x. P x)) w" by (rule txn_read [OF db_atD(7) [OF d]])
  from UpdateKey_faults [OF o this b(4) _ h k, of mode v]
  show "faults (layer_errors \<union> mode_errors mode (m k \<noteq> None)) (bucket_update env nm k v mode w)"
    using b by (auto simp: bucket_update_def intro!: faults_try_ok faults_val split: prod.splits)
qed

section \<open>Requests\<close>

text \<open>The error with which a request is refused in the abstract database.\<close>

fun refusal :: "request \<Rightarrow> database \<Rightarrow> error option" where
  "refusal (Add nm k v) D = (case D nm of None \<Rightarrow> Some ErrBucketNotFound | Some m \<Rightarrow> if m k \<noteq> None then Some ErrKeyExists else None)"
| "refusal (Replace nm k v) D = (case D nm of None \<Rightarrow> Some ErrBucketNotFound | Some m \<Rightarrow> if m k = None then Some ErrKeyNotFound else None)"
| "refusal (Create nm) D = (if D nm \<noteq> None then Some ErrBucketExists else None)"
| "refusal (Fetch nm k) D = (if D nm = None then Some ErrBucketNotFound else None)"
| "refusal (Store nm k v) D = (if D nm = None then Some ErrBucketNotFound else None)"
| "refusal (Remove nm k) D = (if D nm = None then Some ErrBucketNotFound else None)"
| "refusal (Drop nm) D = (if D nm = None then Some ErrBucketNotFound else None)"

lemma refusal_answer: "refusal r D = None \<longleftrightarrow> answer_of r D \<noteq> None"
  by (cases r) (auto split: option.splits)

lemma on_bucket_faults:
  assumes d: "db_at env A n H h S P B cat D w" and h: "h \<le> fuel env"
    and f: "\<And>m u. db_at env A n H h S P B cat D u \<Longrightarrow> D nm = Some m \<Longrightarrow> is_open nm u \<Longrightarrow> faults (layer_errors \<union> E) (f nm u)"
  shows "faults (layer_errors \<union> missing nm D \<union> E) (on_bucket env nm f g w)"
  unfolding on_bucket_def
proof (rule faults_try_ok_from [OF faults_mono [OF openBucket_faults [OF d h] Un_upper1]])
  fix x u assume o: "openBucket env nm w = Some (Inr x, u)"
  have u: "x = nm" "D nm \<noteq> None" "db_at env A n H h S P B cat D u" "is_open nm u" using openBucket_rule [OF d h, of nm] o by (auto simp: result_ok_def)
  then obtain m where m: "D nm = Some m" by blast
  have "layer_errors \<union> E \<subseteq> layer_errors \<union> missing nm D \<union> E" by blast
  then show "faults (layer_errors \<union> missing nm D \<union> E) (try_ok (f x u) (\<lambda>x w. Some (Inr (g x), w)))"
    unfolding u(1) by (rule faults_try_ok [OF faults_mono [OF f [OF u(3) m u(4)]]]) (rule faults_val)
qed

lemma done_after_faults: "faults S r \<Longrightarrow> faults S (done_after r)"
  unfolding done_after_def by (assumption | rule faults_rules)+

lemma storable_key:
  assumes "db_at env A n H h S P B cat D w" "D nm = Some m" "storable (key_length S nm) k v"
  shows "length k \<le> maxKeySize"
proof -
  have "uniform (key_length S nm) m" by (rule db_at_focus [OF assms(1,2)])
  then show ?thesis using assms(3) by (simp add: storable_def uniform_def maxKeySize_def)
qed

lemma perform_update_faults:
  assumes d: "db_at env A n H h S P B cat D w" and h: "h \<le> fuel env" and kv: "storable (key_length S nm) k v"
  shows "faults (layer_errors \<union> missing nm D \<union> (case D nm of None \<Rightarrow> {} | Some m \<Rightarrow> mode_errors mode (m k \<noteq> None))) (on_bucket env nm (\<lambda>nm. bucket_update env nm k v mode) g w)"
proof (rule on_bucket_faults [OF d h])
  fix m u assume u: "db_at env A n H h S P B cat D u" "D nm = Some m" "is_open nm u"
  show "faults (layer_errors \<union> (case D nm of None \<Rightarrow> {} | Some m \<Rightarrow> mode_errors mode (m k \<noteq> None))) (bucket_update env nm k v mode u)"
    using bucket_faults(3) [OF u h storable_key [OF u(1,2) kv], of mode v] u(2) by simp
qed

lemma perform_errors:
  assumes db: "has_db env A H S B cat M n (Suc j) D w" and adm: "admissible S (droppable A) r" and e: "perform env r w = Some (Inl e, w')"
  shows "e \<in> layer_errors \<or> refusal r D = Some e"
proof -
  obtain h P where d: "db_at env A (n + Suc j * (18 + 2 * M)) H h S P B cat D w" and h: "h \<le> fuel env" using db unfolding has_db_def by auto
  note up = perform_update_faults [OF d h] and get = on_bucket_faults [OF d h, where E = "{}", unfolded Un_empty_right]
  have "faults (layer_errors \<union> {e. refusal r D = Some e}) (perform env r w)"
  proof (cases r)
    case (Fetch nm k)
    show ?thesis unfolding Fetch perform.simps by (rule faults_mono [OF get], erule (2) bucket_faults(1) [OF _ _ _ h]) (auto simp: missing_def)
  next
    case (Store nm k v)
    show ?thesis using adm unfolding Store perform.simps bucketPut_def by (intro faults_mono [OF up]) (auto simp: missing_def mode_errors_def split: option.splits)
  next
    case (Add nm k v)
    show ?thesis using adm unfolding Add perform.simps bucketInsert_def by (intro faults_mono [OF up]) (auto simp: missing_def mode_errors_def split: if_splits option.splits)
  next
    case (Replace nm k v)
    show ?thesis using adm unfolding Replace perform.simps bucketUpdate_def by (intro faults_mono [OF up]) (auto simp: missing_def mode_errors_def split: if_splits option.splits)
  next
    case (Remove nm k)
    show ?thesis unfolding Remove perform.simps by (rule faults_mono [OF get], erule (2) bucket_faults(2) [OF _ _ _ h]) (auto simp: missing_def)
  next
    case (Create nm)
    show ?thesis unfolding Create perform.simps by (rule faults_mono [OF done_after_faults [OF CreateBucket_faults [OF d h]]]) auto
  next
    case (Drop nm)
    show ?thesis unfolding Drop perform.simps by (rule faults_mono [OF done_after_faults [OF DropBucket_faults [OF d h]]]) (auto simp: missing_def)
  qed
  then show ?thesis using e by (auto simp: faults_def)
qed

section \<open>Sequences of requests\<close>

locale refusing_store = refining_store +
  fixes low :: "error set"
    and refuses :: "'d \<Rightarrow> 'a \<Rightarrow> error option"
  assumes step_errors: "holds (Suc j) a s \<Longrightarrow> admissible r \<Longrightarrow> step r s = Some (Inl e, s') \<Longrightarrow> e \<in> low \<or> refuses r a = Some e"
begin

lemma run_errors:
  "holds (length rs + j) a s \<Longrightarrow> \<forall>r \<in> set rs. admissible r \<Longrightarrow> run step rs s = Some (Inl e, s') \<Longrightarrow>
   e \<in> low \<or> (\<exists>rs1 r rs2 xs a1. rs = rs1 @ r # rs2 \<and> spec_run spec rs1 a = Some (xs, a1) \<and> refuses r a1 = Some e)"
proof (induction rs arbitrary: a s)
  case (Cons r rs)
  have h: "holds (Suc (length rs + j)) a s" "admissible r" using Cons.prems by simp_all
  from step_refines [OF h] show ?case
  proof (cases rule: result_ok_cases)
    case (err e1 s1)
    then show ?thesis using step_errors [OF h, of e s'] Cons.prems(3) by (auto simp: try_ok_def try_or_def intro!: exI [of _ "[]"])
  next
    case (val x s1)
    then obtain a1 where a1: "spec r a = Some (x, a1)" "holds (length rs + j) a1 s1" by blast
    have "run step rs s1 = Some (Inl e, s')" using Cons.prems(3) val(1) by (cases "run step rs s1") (auto simp: try_ok_def try_or_def split: sum.splits)
    with Cons.IH [OF a1(2)] Cons.prems(2)
    have "e \<in> low \<or> (\<exists>rs1 r' rs2 xs a2. rs = rs1 @ r' # rs2 \<and> spec_run spec rs1 a1 = Some (xs, a2) \<and> refuses r' a2 = Some e)" by simp
    then show ?thesis
    proof (elim disjE exE conjE)
      fix rs1 r' rs2 xs a2 assume p: "rs = rs1 @ r' # rs2" "spec_run spec rs1 a1 = Some (xs, a2)" "refuses r' a2 = Some e"
      have "r # rs = (r # rs1) @ r' # rs2" "spec_run spec (r # rs1) a = Some (x # xs, a2)" using p(1,2) a1(1) by simp_all
      then show ?thesis using p(3) by blast
    qed simp
  qed
qed simp

end

interpretation txn_refusal: refusing_store "has_db env A H S B cat M n" "db_failed env A H" "perform env" answer_of "admissible S (droppable A)" layer_errors refusal
  for env A H S B cat M n
  by unfold_locales (rule perform_errors)

end
