(* ===== verification/LoadErrors.thy ===== *)
theory LoadErrors
  imports LoadMap Refusal
begin

text \<open>
  The errors of the bulk loader: those of the layers below, and the refusals for a tree that is not empty, for a key that is too long and
  for keys out of order, each only when it is due.
\<close>

definition load_faults :: "error set \<Rightarrow> ('a, BulkLoader \<times> world) outcome \<Rightarrow> bool" where
  "load_faults S r \<longleftrightarrow> (\<forall>x s. r = Some (x, s) \<longrightarrow> opn (snd s) \<and> (\<forall>e. x = Inl e \<longrightarrow> e \<in> S))"

lemma load_faults_val: "opn (snd s) \<Longrightarrow> load_faults S (Some (Inr x, s))"
  by (cases s) (simp add: load_faults_def)

lemma load_faults_try: "load_faults S r \<Longrightarrow> (\<And>x s. opn (snd s) \<Longrightarrow> load_faults S (k x s)) \<Longrightarrow> load_faults S (try_ok r k)"
  by (cases r) (auto simp: try_ok_def try_or_def load_faults_def split: sum.splits)

lemma load_faults_bind: "(\<And>x. m = Some x \<Longrightarrow> load_faults S (k x)) \<Longrightarrow> load_faults S (m \<bind> k)"
  by (cases m) (simp_all add: load_faults_def)

lemma load_faults_world: "faults S (m w) \<Longrightarrow> load_faults S (in_world m (l, w))"
  by (auto simp: load_faults_def faults_def in_world_def bind_eq_Some_conv)

lemma modify_node_opn: "modify_node f g s = Some s' \<Longrightarrow> opn (snd s) \<Longrightarrow> opn (snd s')"
  by (cases s) (auto simp: modify_node_def modify_def opn_def bind_eq_Some_conv)

lemma node_unpin_opn: "node_unpin f w = Some w' \<Longrightarrow> opn w \<Longrightarrow> opn w'"
  by (auto simp: node_unpin_def opn_def bind_eq_Some_conv)

lemma load_faults_modify: "opn (snd s) \<Longrightarrow> (\<And>s. opn (snd s) \<Longrightarrow> load_faults S (k s)) \<Longrightarrow> load_faults S (modify_node f g s \<bind> k)"
  by (rule load_faults_bind) (blast dest: modify_node_opn)

lemma load_faults_unpin: "opn w \<Longrightarrow> (\<And>w. opn w \<Longrightarrow> load_faults S (k w)) \<Longrightarrow> load_faults S (node_unpin f w \<bind> k)"
  by (rule load_faults_bind) (blast dest: node_unpin_opn)

lemma load_faults_if: "load_faults S a \<Longrightarrow> load_faults S b \<Longrightarrow> load_faults S (if c then a else b)"
  by simp

lemma load_faults_prod: "(\<And>a b. s = (a, b) \<Longrightarrow> load_faults S (f a b)) \<Longrightarrow> load_faults S (case_prod f s)"
  by (cases s) simp

lemma opn_snd: "opn (snd s) \<Longrightarrow> s = (l, w) \<Longrightarrow> opn w" "opn w \<Longrightarrow> opn (snd (l, w))"
  by simp_all

lemma load_faults_in: "opn (snd s) \<Longrightarrow> (\<And>w. opn w \<Longrightarrow> faults S (m w)) \<Longrightarrow> load_faults S (in_world m s)"
  by (cases s) (auto intro: load_faults_world)

lemmas load_rules = load_faults_try load_faults_world load_faults_modify load_faults_unpin load_faults_bind load_faults_if load_faults_prod load_faults_val

lemma promote_faults: "opn w \<Longrightarrow> load_faults layer_errors (promote_loop n env lv oc sep nc (l, w))"
proof (induction n arbitrary: lv oc nc l w)
  case (Suc n)
  show ?case using Suc.prems unfolding promote_loop.simps Let_def
    by - (assumption | rule alloc_faults Suc.IH load_rules opn_snd(2) | erule (1) opn_snd(1))+
qed (simp add: load_faults_def)

lemma open_leaf_faults: "opn (snd s) \<Longrightarrow> load_faults layer_errors (open_leaf env s)"
  unfolding open_leaf_def by (assumption | rule alloc_faults load_rules opn_snd(2) | erule (1) opn_snd(1))+

lemma roll_leaf_faults: "opn (snd s) \<Longrightarrow> load_faults layer_errors (roll_leaf env k sz s)"
  unfolding roll_leaf_def promote_def Let_def by (assumption | rule alloc_faults promote_faults load_rules opn_snd(2) | erule (1) opn_snd(1))+

text \<open>When the loader may refuse a binding, and a list of bindings.\<close>

definition append_errors :: "bytes option \<Rightarrow> bytes \<Rightarrow> error set" where
  "append_errors prev k = {e. e = ErrKeyTooBig \<and> maxKeySize < length k} \<union> {e. e = ErrBulkLoaderKeyOrder \<and> (\<exists>lk. prev = Some lk \<and> k \<le> lk)}"

definition list_errors :: "bytes list \<Rightarrow> error set" where
  "list_errors ks = {e. e = ErrKeyTooBig \<and> (\<exists>k \<in> set ks. maxKeySize < length k)} \<union> {e. e = ErrBulkLoaderKeyOrder \<and> \<not> sorted_wrt (<) ks}"

lemma Append_faults:
  assumes "opn (snd s)" "\<not> finished (fst s)"
  shows "load_faults (layer_errors \<union> append_errors (lastKey (fst s)) k) (Append env k v s)"
proof -
  have "load_faults layer_errors (try_ok (open_leaf env s) (\<lambda>_ s.
      try_ok (roll_leaf env k (leafCellSize k v) s) (\<lambda>leaf s.
      try_ok (in_world (leafCellOverflow env k v) s) (\<lambda>overflowID s. do {
        (l, w) \<leftarrow> modify_node leaf (\<lambda>d. appendLeafCellWithOverflow d k v overflowID) s;
        Some (Inr (), (l\<lparr>lastKey := remember_key (lastKey l) k\<rparr>, w)) }))))"
    using assms(1) by - (assumption | rule open_leaf_faults roll_leaf_faults load_faults_in leafCellOverflow_faults load_rules opn_snd(2) | erule (1) opn_snd(1))+
  then show ?thesis using assms by (auto simp: Append_def append_errors_def load_faults_def split: option.splits)
qed

lemma append_all_faults:
  assumes "bulk_loading env \<sigma> (n + load_pages kv2) H F w0 kv1 s" "opn (snd s)" "\<forall>x \<in> set kv2. length (snd x) < 65536" "\<forall>x \<in> set (if kv1 = [] then tl kv2 else kv2). fst x \<noteq> []"
  shows "load_faults (layer_errors \<union> list_errors (map fst (kv1 @ kv2))) (append_all env kv2 s)"
  using assms
proof (induction kv2 arbitrary: kv1 s)
  case Nil
  then show ?case by (simp add: load_faults_val)
next
  case (Cons x kv2)
  obtain k v where x: "x = (k, v)" by (cases x)
  have s: "bulk_loading env \<sigma> (n + load_pages kv2 + 4 + chain_pages (length v)) H F w0 kv1 s" using Cons.prems(1) x by (simp add: load_pages_def ac_simps)
  have kv: "length v < 65536" "k \<noteq> [] \<or> kv1 = []" using Cons.prems(3,4) x by (auto split: if_splits)
  have l: "\<not> finished (fst s)" "last_ok (lastKey (fst s)) kv1" using s by (simp_all add: bulk_loading_def)
  have "append_errors (lastKey (fst s)) k \<subseteq> list_errors (map fst (kv1 @ x # kv2))"
    using l(2) x by (cases kv1 rule: rev_cases) (auto simp: append_errors_def list_errors_def last_ok_def sorted_wrt_append split: option.splits)
  then have e: "load_faults (layer_errors \<union> list_errors (map fst (kv1 @ x # kv2))) (Append env k v s)"
    using Append_faults [OF Cons.prems(2) l(1), of k env v] by (auto simp: load_faults_def)
  show ?case
  proof (cases "Append env k v s")
    case (Some r)
    obtain y s1 where r: "r = (y, s1)" by (cases r)
    show ?thesis
    proof (cases y)
      case (Inl e)
      then show ?thesis using e Some r x by (simp add: try_ok_def try_or_def)
    next
      case (Inr u)
      have "bulk_loading env \<sigma> (n + load_pages kv2) H F w0 (kv1 @ [(k, v)]) s1" using Append_rule [OF s kv] Some r Inr by (simp add: result_ok_def)
      moreover have "opn (snd s1)" using e Some r by (cases s1) (simp add: load_faults_def)
      ultimately have "load_faults (layer_errors \<union> list_errors (map fst ((kv1 @ [(k, v)]) @ kv2))) (append_all env kv2 s1)"
        using Cons.prems(3,4) by (intro Cons.IH) (auto split: if_splits)
      then show ?thesis using Some r Inr x by (simp add: try_ok_def try_or_def)
    qed
  qed (simp add: x try_ok_def try_or_def load_faults_def)
qed

lemma bulk_load_errors:
  assumes ok: "txn_ok env \<sigma> (n + load_pages xs) H F w" and v: "\<forall>x \<in> set xs. length (snd x) < 65536" "\<forall>x \<in> set (tl xs). fst x \<noteq> []"
    and e: "bulk_load env b fill xs w = Some (Inl e, w')"
  shows "e \<in> layer_errors \<union> list_errors (map fst xs) \<or> e = ErrBTreeNotEmpty \<and> root b \<noteq> 0"
proof (cases "BeginBulkLoad b fill")
  case (Inl e)
  then show ?thesis using e by (auto simp: bulk_load_def BeginBulkLoad_def Let_def split: if_splits)
next
  case (Inr l)
  then have l: "root b = 0" "spine l = []" "\<not> finished l" "lastKey l = None" by (auto simp: BeginBulkLoad_def Let_def split: if_splits)
  then have ld: "bulk_loading env \<sigma> (n + load_pages xs) H F w [] (l, w)" using ok by (simp add: bulk_loading_def last_ok_def)
  have "opn (snd (l, w))" using ok by (simp add: opn_def txn_ok_def read_ok_def lists_ok_def)
  from append_all_faults [OF ld this v(1)] v(2) have f: "load_faults (layer_errors \<union> list_errors (map fst xs)) (append_all env xs (l, w))" by simp
  from append_all_rule [OF ld v(1)] v(2) have "result_ok (append_all env xs (l, w)) (spoilt env \<sigma>) (\<lambda>_ s'. bulk_loading env \<sigma> n H F w xs s')" by simp
  then show ?thesis
  proof (cases rule: result_ok_cases)
    case (err e1 s1)
    then show ?thesis using f e Inr by (cases s1) (auto simp: bulk_load_def try_ok_def try_or_def load_faults_def)
  next
    case (val x s1)
    then show ?thesis using Finish_rule [OF val(2) l(1)] e Inr by (auto simp: bulk_load_def try_ok_def try_or_def)
  qed
qed

end
