(* ===== verification/Spec2Isabelle.thy ===== *)
theory Spec2Isabelle
  imports PageSpec StoreSpec Commit CursorScan LoadErrors
begin

text \<open>
  Frostfire is an embedded key-value store in Go: copy-on-write B+-trees over slotted pages, a buffer
  pool, a free list, and transactions committed through two alternating header pages. This
  development models its code file by file and proves what the layers promise each other.

  \<^bold>\<open>The program and the theories that model it.\<close>
  \<^item> \<open>Prelude\<close>: Go's byte slices (bounds checks are \<open>None\<close>), little-endian integers as machine words,
    \<open>copy\<close>, the error type, outcomes and the combinators \<open>try_ok\<close> and \<open>try_or\<close> for \<^verbatim>\<open>if err != nil\<close>.
  \<^item> Pages (\<^verbatim>\<open>src/bnode.go\<close>): \<open>BNode\<close> has every function on raw bytes. \<open>NodeRep\<close>, \<open>NodeOps\<close> and \<open>Nodes\<close>
    relate bytes to lists of cells, \<open>Pages\<close> states the interface of a slotted page as a locale that leaf
    and internal pages interpret.
  \<^item> Searching in a page (\<^verbatim>\<open>searchLeaf\<close>, \<^verbatim>\<open>searchInternal\<close> of \<^verbatim>\<open>src/btree.go\<close>): \<open>Search\<close>.
  \<^item> Headers (\<^verbatim>\<open>src/meta.go\<close>): \<open>Meta\<close>, with CRC-64 and the choice between the two headers.
  \<^item> Free list (\<^verbatim>\<open>src/freelist.go\<close>, \<^verbatim>\<open>src/freelist_page.go\<close>): \<open>Freelist\<close>.
  \<^item> Page file (\<^verbatim>\<open>src/storage.go\<close>): \<open>Storage\<close>. The file is a byte list together with a script that says which
    operations fail, and with what the last successful \<open>fsync\<close> has put on disk (\<open>onDisk\<close>). \<open>after_crash s f\<close>: the file \<open>f\<close> is
    one that a crash can leave; pages that are on disk as they are now are kept, every other page may hold anything, and pages may have been added at the end.
    \<open>pwritev\<close> is a field of the environment \<open>env\<close>, \<open>pwritev_ok\<close> states what it documents. That a short write ends at a
    page boundary is not documented: \<open>page_granular\<close> is a hypothesis of the properties that flush, written out in each, and
    \<open>short_write_never_returns\<close> says what the code does otherwise. \<open>env_ok\<close> abbreviates both, with the goroutines of a flush running once each, in the lemmas.
  \<^item> Buffer pool (\<^verbatim>\<open>src/bufferpool.go\<close>): \<open>BufferPool\<close>; its invariant and what each operation does to the
    pages seen through it are in \<open>PoolInv\<close>, \<open>PoolFlush\<close> and \<open>PoolHandles\<close>.
  \<^item> Transactions and the database handle (\<^verbatim>\<open>src/txn.go\<close>, \<^verbatim>\<open>src/db.go\<close>): \<open>Txn\<close>, \<open>Commit\<close>, and \<open>TxnInv\<close> for the
    invariant of a write transaction and one rule per page operation. \<open>PersistInv\<close> has the rules of \<open>persistFreelist\<close>, \<open>Durable\<close>
    those of the flush and the barrier, \<open>CommitInv\<close> those of the header and of \<open>Commit\<close>, with the invariant \<open>db_ready\<close>
    of a database between transactions, and \<open>Recovery\<close> those of whole transactions, of \<open>Open\<close> and of \<open>Close\<close>.
  \<^item> Trees (\<^verbatim>\<open>src/btree.go\<close>, \<^verbatim>\<open>src/overflow.go\<close>): \<open>BTree\<close>; \<open>OverflowInv\<close> has the rules for chains of overflow
    pages, \<open>Tree\<close> the abstract tree a set of pages stands for and the rule of \<open>Search\<close>.
  \<^item> Insertion and replacement (\<^verbatim>\<open>src/update.go\<close>): \<open>Split\<close> for the page work, \<open>Update\<close> for the recursion; \<open>Graft\<close>,
    \<open>LeafUpdate\<close>, \<open>NodeUpdate\<close> and \<open>MapUpdate\<close> prove that it refines the update of a finite map.
  \<^item> Deletion (\<^verbatim>\<open>src/delete.go\<close>): \<open>Merge\<close> for the page work, \<open>Delete\<close> for the recursion; \<open>Rebalance\<close> (what a
    group of siblings stands for), \<open>NodeBorrow\<close>, \<open>NodeMerge\<close>, \<open>NodeDelete\<close> and \<open>MapDelete\<close> prove that it refines
    the removal of a key from a finite map. \<open>FreeTree\<close> has the rule of \<open>FreeAll\<close>.
  \<^item> Cursors (\<^verbatim>\<open>src/cursor.go\<close>): \<open>Cursor\<close>, and \<open>CursorScan\<close> for scans with \<open>First\<close>, \<open>Seek\<close> and \<open>Next\<close>.
    Bulk loading (\<^verbatim>\<open>src/bulkload.go\<close>): \<open>BulkLoad\<close>; \<open>LoadMap\<close> proves that the spine of the loader is the right-most path of a
    growing tree with the bindings appended so far, \<open>LoadErrors\<close> has its errors.
  \<^item> Buckets and the catalog (\<^verbatim>\<open>src/bucket.go\<close>): \<open>Bucket\<close>. \<open>BucketMap\<close> relates the bucket table, the catalog and the
    trees to an abstract database, a map of maps, with one rule per operation of a bucket; \<open>CatalogMap\<close> does so for
    \<open>applyBucketChanges\<close>; \<open>Requests\<close> has sequences of requests, with the locale \<open>refining_store\<close> that lifts
    a refinement of single requests to sequences, interpreted on the buckets of a transaction. \<open>Refusal\<close> follows the errors
    through every layer and extends the locale: an error is one of the layers below or the refusal that is due.
  \<^item> \<open>Samples\<close> and \<open>SampleWorld\<close> hold concrete pages and databases; \<open>PageSpec\<close>, \<open>StoreSpec\<close> and this theory
    state the properties.

  \<^bold>\<open>State and errors.\<close> A function that changes the database takes and returns a \<open>world\<close>: the database
  handle with its pool, file and free list, and the current transaction. Its result is \<open>None\<close> for a
  panic, or a pair of \<open>Inl e\<close> (an error) or \<open>Inr x\<close> and the new state; the state after an error is kept,
  because callers clean up. \<open>result_ok r E Q\<close> says that \<open>r\<close> is not a panic, that an error leaves a state
  with \<open>E\<close> and a value one with \<open>Q\<close>.

  \<^bold>\<open>Bounds and fuel.\<close> Recursion and loops that follow page references carry a fuel of the environment;
  running out of fuel is \<open>None\<close>, like a panic, so every rule shows that the fuel is enough: the
  height of the tree is below it, and a chain of overflow pages has at most 17 pages where 44 are
  asked for. Page counts are assumed to stay below \<open>2 ^ 46\<close>, where offsets into the file still fit;
  the argument \<open>n\<close> of \<open>txn_ok\<close> is the number of pages that may still be allocated below that bound. A commit may need \<open>2 ^ 38\<close> of
  them for the chain of the free list, which has at most \<open>2 ^ 46\<close> entries, 510 to a page, and the rules that
  follow this chain ask for a fuel of \<open>2 ^ 46\<close>; \<open>M\<close> bounds the heights of the trees of a transaction.
  Values are shorter than 65536 bytes, because a cell stores the length in 16 bits.

  \<^bold>\<open>What is proved.\<close> For pages: every operation refines an operation on lists of cells, binary search
  equals a linear count, splits and merges partition and concatenate cells, thresholds do not wrap
  around. For the layers below the trees: round trips of the byte formats, detection of corrupted
  headers, the choice of the newer header, framing of page writes, growth of the file, vectored
  writes, the invariant of the pool, termination of the clock sweep, flushing and syncing, and that pages are
  reused exactly when no reader can see them. For trees: search, update and deletion refine lookup,
  update and removal in a finite map, with splits, new roots, borrowing, merging,
  collapsing roots, overflow values and errors; a whole tree is freed, each page once; a scan with a
  cursor returns the bindings in order; bulk loading builds the tree of a list of bindings. For buckets: sequences of requests answer as a map of maps
  does, and fail only as it refuses. For the database: a transaction, from \<open>BeginWrite\<close> to the end of \<open>Commit\<close> or of \<open>Abort\<close>, is atomic and durable:
  after a success every file that a crash can leave is opened as the new map of maps, after an error as the old or as the new one; there is one case in which the
  code loses a drop (\<open>empty_bucket_drop_lost\<close>). Every rule of a tree or
  bucket operation also says that the pages of the committed image, which the record \<open>backdrop\<close>
  holds beside the parts of the state that the operation must not touch, stay on disk, that the
  other live pages keep their contents, and that an error leaves a state that can be aborted.

  \<^bold>\<open>Hypotheses on keys and values.\<close> The rules for deletion ask for keys of one length, at most 498 bytes, in a tree, and
  for values that are short (a cell of at most 582 bytes) or on overflow pages: with larger cells two
  neighbours that are merged need not fit in one page, and the code panics
  (\<open>merge_of_large_leaves_panics\<close>). The names of the buckets are the keys of the catalog, so the same holds for
  them where the catalog is written. Search, update and cursors have no such hypothesis.

  \<^bold>\<open>Where the model differs from Go.\<close> The counters \<open>pinCount\<close> and \<open>usageCount\<close> of a page are \<open>int32\<close> in the code and unbounded
  integers here. \<open>leafValue\<close> and \<open>Search\<close> return a slice of the frame, which they unpin; here they return a copy, so that a later overwriting of the frame is
  not visible in the result. A slice has no capacity beyond its length, so that reslicing past the length is a panic (\<open>goslice\<close>). The
  buffer size given to \<open>Open\<close> is not negative. The file that \<open>Open\<close> finds counts as synced, and file lengths are those \<open>Open\<close> accepts, multiples of 4096.
  \<open>reopened\<close> and the client programs \<open>transaction\<close>, \<open>run\<close>, \<open>perform\<close>, \<open>scan\<close> and \<open>bulk_load\<close> are not code of the repository: the first stands for
  a commit and the next \<open>BeginWrite\<close>, the others call the API the way a client does.

  \<^bold>\<open>Not modelled.\<close> The system-call wrappers \<^verbatim>\<open>src/linux.go\<close> and \<^verbatim>\<open>src/darwin.go\<close>, which are single calls
  of the operating system; the paths of files; mutexes and the blocking of goroutines: every operation of the pool is one
  atomic step, and a second writer blocks before it changes any state.
\<close>

section \<open>The database\<close>

text \<open>C1: a write transaction is atomic and durable, and its requests are answered as the abstract database answers
  them. The client begins a transaction on a database that is ready and stands for \<open>D\<close>, makes a sequence of requests on buckets,
  aborts after an error and commits otherwise; system calls fail as the script of the file says. It always returns. If it succeeds, the answers
  are those of the abstract database, the database is ready again and stands for the abstract database \<open>D'\<close> after the requests, and every
  file that a crash can leave from then on is one that \<open>Open\<close> recovers \<open>D'\<close> from. After an error, of a request or in any step of the commit,
  the transaction is over, the lock is free, and every file that a crash can leave is one that \<open>Open\<close> recovers the old \<open>D\<close> from or all of
  \<open>D'\<close>, never a mixture: \<open>D'\<close> is possible because a commit that fails at its last barrier has already written the new header. A crash at some system call
  is a run in which this call and the later ones fail. A crash keeps the pages whose last synced contents are the current ones; every other
  page may hold anything (\<open>after_crash\<close>), with one exception: the header page that the failed transaction was writing, if it decodes at all,
  decodes to the old or to the new header (\<open>header_sound\<close>; a header has 56 bytes at the start of a page and a checksum).

  Conditions: a \<open>pwritev\<close> that returns has written a positive number of whole pages (\<open>page_granular\<close>, see C38 for what happens otherwise); the
  goroutines of a flush run each once, in any order; the requests are \<open>admissible\<close>: names and keys have one length, at most 498 bytes, for the
  catalog and for each bucket, values are short or on overflow pages, and a committed bucket that is dropped is not empty (see C40).\<close>

theorem transaction_atomic_durable:
  assumes "db_ready env (n + 2 ^ 38 + M * (2 + 2 * M) + length rs * (18 + 2 * M)) h S D d" "h + 2 * length rs \<le> M" "M \<le> fuel env" "2 ^ 46 \<le> fuel env"
    and "pwritev_ok (pwritev env)" "page_granular (pwritev env)" "\<And>runs. mset (map fst (sched env runs)) = mset runs"
    and "bucket_names S = {k. length k = c}" "c \<le> 498" "\<And>bs. mset (order bs) = mset bs"
    and "\<forall>r \<in> set rs. admissible S {nm. D nm \<noteq> Some Map.empty} r"
  shows "result_ok (transaction env order rs d)
    (\<lambda>w'. closed (txn w') \<and> \<not> writerMu (db w') \<and>
      (\<forall>f. after_crash (sm (bufferPool (db w'))) f \<and> header_sound d (meta (txn w')) f \<longrightarrow>
        recovers env n M S D f \<or> (\<exists>xs D'. spec_run answer_of rs D = Some (xs, D') \<and> recovers env n M S D' f)))
    (\<lambda>xs w'. closed (txn w') \<and> (\<exists>D'. spec_run answer_of rs D = Some (xs, D') \<and> db_ready env n M S D' (db w') \<and>
      (\<forall>f. after_crash (sm (bufferPool (db w'))) f \<longrightarrow> recovers env n M S D' f)))"
proof -
  have env: "env_ok env" using assms(5-7) by (simp add: env_ok_def)
  show ?thesis
  proof (rule result_ok_mono [OF transaction_rule [OF assms(1-4) env assms(8-11)]])
    fix w'
    assume "closed (txn w') \<and> \<not> writerMu (db w') \<and> all_or_nothing env n M S D (\<lambda>D'. \<exists>xs. spec_run answer_of rs D = Some (xs, D')) d (sm (pool w')) (meta (txn w'))"
    then show "closed (txn w') \<and> \<not> writerMu (db w') \<and> (\<forall>f. after_crash (sm (bufferPool (db w'))) f \<and> header_sound d (meta (txn w')) f \<longrightarrow>
        recovers env n M S D f \<or> (\<exists>xs D'. spec_run answer_of rs D = Some (xs, D') \<and> recovers env n M S D' f))"
      unfolding all_or_nothing_def by blast
  next
    fix xs w'
    assume "closed (txn w') \<and> (\<exists>D'. spec_run answer_of rs D = Some (xs, D') \<and> db_ready env n M S D' (db w'))"
    then show "closed (txn w') \<and> (\<exists>D'. spec_run answer_of rs D = Some (xs, D') \<and> db_ready env n M S D' (db w') \<and>
      (\<forall>f. after_crash (sm (bufferPool (db w'))) f \<longrightarrow> recovers env n M S D' f))"
      using ready_crash file_recovers [OF _ assms(4)] by blast
  qed
qed

theorem transaction_atomic_durable_witness:
  "result_ok (transaction big_env rev [Create [1], Store [1] [5] [50], Fetch [1] [5]] sample_new_db) (\<lambda>w'. closed (txn w'))
     (\<lambda>xs w'. xs = [Done, Done, Found (Some [50])] \<and> db_ready big_env 0 6 sample_schema [[1] \<mapsto> [[5] \<mapsto> [50]]] (db w') \<and>
        (\<forall>f. after_crash (sm (bufferPool (db w'))) f \<longrightarrow> recovers big_env 0 6 sample_schema [[1] \<mapsto> [[5] \<mapsto> [50]]] f))"
proof -
  let ?rs = "[Create [1], Store [1] [5] [50], Fetch [1] [5]]"
  have rd: "db_ready big_env (0 + 2 ^ 38 + 6 * (2 + 2 * 6) + length ?rs * (18 + 2 * 6)) 0 sample_schema Map.empty sample_new_db" by (rule sample_ready) simp
  have adm: "\<forall>r \<in> set ?rs. admissible sample_schema {nm. Map.empty nm \<noteq> Some Map.empty} r" by (simp add: sample_schema_def storable_def)
  have S: "bucket_names sample_schema = {k. length k = 1}" by (simp add: sample_schema_def)
  have e: "pwritev_ok (pwritev big_env)" "page_granular (pwritev big_env)" "\<And>runs. mset (map fst (sched big_env runs)) = mset runs"
    using big_env_ok(1) by (simp_all add: env_ok_def)
  show ?thesis by (rule result_ok_mono [OF transaction_atomic_durable [OF rd _ _ _ e S _ _ adm, of rev]]) auto
qed

text \<open>C2: what a database holds between transactions survives a stop of the program and a crash of the machine. Of a database that is ready
  and stands for \<open>D\<close> (\<open>db_ready\<close>; this is how \<open>Open\<close> and every successful commit leave a database, not an aborted transaction or a failed commit,
  for which C1 says what the file holds), take the file as it is, or a file that a crash can leave: opening it succeeds when no read
  fails, and gives a database that is ready and stands for \<open>D\<close>. The same holds for the files that can be found after \<open>Close\<close>, which always returns, also
  when its writes fail. Conditions on \<open>pwritev\<close> and the goroutines of a flush as in C1: \<open>Close\<close> writes what is dirty.\<close>

theorem reopen_recovers:
  assumes "db_ready env n h S D d" "pwritev_ok (pwritev env)" "page_granular (pwritev env)" "\<And>runs. mset (map fst (sched env runs)) = mset runs"
    and "sz = (if bufferSize = 0 then defaultBufferSize else bufferSize)" "2 \<le> sz" "sz < 2 ^ 32" "enough_fuel env sz" "2 ^ 46 \<le> fuel env"
  shows "(\<forall>f. f = content (sm (bufferPool d)) \<or> after_crash (sm (bufferPool d)) f \<longrightarrow> (\<exists>d'. Open env f [] bufferSize = Some (Inr d') \<and> db_ready env n h S D d')) \<and>
    (\<exists>errs dc. CloseDB env d = Some (errs, dc) \<and>
      (\<forall>f. after_crash (sm (bufferPool dc)) f \<longrightarrow> (\<exists>d'. Open env f [] bufferSize = Some (Inr d') \<and> db_ready env n h S D d')))"
proof -
  have env: "env_ok env" using assms(2-4) by (simp add: env_ok_def)
  have "after_crash (sm (bufferPool d)) (content (sm (bufferPool d)))" using ready_unbroken [OF assms(1)] .
  then show ?thesis using ready_crash [OF assms(1)] CloseDB_rule [OF assms(1) env] Open_rule [OF _ assms(5-9)] by meson
qed

theorem reopen_recovers_witness:
  "\<exists>d'. Open big_env (content (sm (bufferPool sample_new_db))) [] 8 = Some (Inr d') \<and> db_ready big_env 0 0 sample_schema Map.empty d'"
proof -
  have e: "pwritev_ok (pwritev big_env)" "page_granular (pwritev big_env)" "\<And>runs. mset (map fst (sched big_env runs)) = mset runs"
    using big_env_ok(1) by (simp_all add: env_ok_def)
  show ?thesis using reopen_recovers [OF sample_ready e, of 0 8 8] by simp
qed

text \<open>C3: opening an empty file creates a database that is ready and has no bucket, or returns an error of the layers
  below; it always returns. Conditions on \<open>pwritev\<close> and the goroutines of a flush as in C1: with a write that stops inside a page the
  first flush need not return (C38).\<close>

theorem new_database_is_empty:
  assumes "sz = (if bufferSize = 0 then defaultBufferSize else bufferSize)" "0 < sz" "sz < 2 ^ 32" "enough_fuel env sz" "2 + n < 2 ^ 46"
    and "pwritev_ok (pwritev env)" "page_granular (pwritev env)" "\<And>runs. mset (map fst (sched env runs)) = mset runs"
  shows "case Open env [] sc bufferSize of None \<Rightarrow> False | Some (Inl e) \<Rightarrow> True | Some (Inr d) \<Rightarrow> db_ready env n 0 S Map.empty d"
proof -
  have "env_ok env" using assms(6-8) by (simp add: env_ok_def)
  then show ?thesis using Open_new_rule [OF assms(1-4) _ assms(5), of sc S] by (auto split: sum.splits)
qed

theorem new_database_is_empty_witness:
  "case Open big_env [] [] 8 of None \<Rightarrow> False | Some (Inl e) \<Rightarrow> True | Some (Inr d) \<Rightarrow> db_ready big_env 1000 0 sample_schema Map.empty d"
proof -
  have e: "pwritev_ok (pwritev big_env)" "page_granular (pwritev big_env)" "\<And>runs. mset (map fst (sched big_env runs)) = mset runs"
    using big_env_ok(1) by (simp_all add: env_ok_def)
  show ?thesis using new_database_is_empty [where sz = 8 and bufferSize = 8 and env = big_env and n = 1000 and sc = "[]" and S = sample_schema] e by simp
qed

section \<open>Trees\<close>

text \<open>C4: searching a tree returns exactly the value that the map of the tree binds to the key, also when
  the value is in overflow pages, or reports its absence; it fails only with an error of the layers
  below, leaves every live page as it was and every page unpinned.\<close>

theorem search_returns_binding:
  assumes "read_ok env H L w" "map_at (V w) P h K b m" "P \<subseteq> L" "h \<le> fuel env"
  shows "result_ok (SearchKey env b k w) (reading env H L w) (\<lambda>x w'. x = m k \<and> reading env H L w w')"
  using assms by (rule SearchKey_map)

theorem search_returns_binding_witness:
  "result_ok (SearchKey sample_env (NewBTree 4) [5] (sample_world sample_tree_pages)) (\<lambda>_. True) (\<lambda>x w'. x = Some [50])"
  using search_returns_binding [OF sample_read_ok [OF sample_tree_pages_ok] sample_tree_map sample_tree_ok(2), of "[5]"]
  by (auto elim!: result_ok_mono)

text \<open>C5: an update with a value of less than 65536 bytes refines the update of a finite map: it returns only if the mode allows it for the
  key, and then the returned tree, whose pages are disjoint from the other live pages, stands for the
  old map with the new binding, is ordered and balanced, and has at most one level more. The other
  live pages and the committed image keep their contents, and an error leaves a transaction that can
  be aborted.\<close>

theorem update_refines_map:
  assumes "txn_ok env \<sigma> (Suc (n + chain_pages (length v) + 2 * h)) H (F \<union> P) w" "map_at (V w) P h K b m" "P \<inter> F = {}"
    and "h \<le> fuel env" "length v < 65536" "k \<in> K"
  shows "result_ok (UpdateKey env b k v mode w) (failed env \<sigma> H)
    (\<lambda>(pid, b') w'. pid = root b' \<and> length k \<le> maxKeySize \<and> allowed mode (m k \<noteq> None) \<and> map_kept env \<sigma> n H F (Suc h) K (m(k \<mapsto> v)) w b' w')"
proof -
  have "F \<union> P - P = F" using assms(3) by blast
  then show ?thesis using UpdateKey_rule [OF assms(1,2) _ assms(4-6), of mode] by (auto elim!: result_ok_mono simp: root_kept_def)
qed

theorem update_refines_map_witness:
  "result_ok (UpdateKey sample_env (NewBTree 4) [6] [60] ModeInsert (sample_world sample_tree_pages)) (\<lambda>_. True)
     (\<lambda>(pid, b') w'. \<exists>P. map_at (V w') P 3 {k. length k = 1} b' [[1] \<mapsto> [10], [2] \<mapsto> [20], [5] \<mapsto> [50], [7] \<mapsto> [70], [6] \<mapsto> [60]])"
proof -
  let ?P = "set (tpages sample_tree)" and ?F = "sample_live sample_tree_pages - set (tpages sample_tree)"
  have "?F \<union> ?P = sample_live sample_tree_pages" using sample_tree_ok(2) by blast
  then have "txn_ok sample_env (sample_disk sample_tree_pages) (Suc (994 + chain_pages (length [60 :: byte]) + 2 * 2)) {#} (?F \<union> ?P) (sample_world sample_tree_pages)"
    using sample_txn_ok [OF sample_tree_pages_ok] by (simp add: chain_pages_def)
  from update_refines_map [OF this sample_tree_map, of "[6]" ModeInsert] show ?thesis
    by (auto elim!: result_ok_mono simp: map_kept_def)
qed

text \<open>C6: in a tree whose keys have one length, at most 498 bytes, and whose cells have at most 582 bytes or keep their value on overflow
  pages (\<open>uniform\<close>), a deletion refines the removal of a key from a finite map, also where it borrows from a sibling, merges with one or
  removes the root: it reports whether the key was bound, and the returned tree stands for the map without the key, is ordered and balanced, and
  is no higher than before; the pages it no longer uses are freed and the other live pages and the committed image keep their contents. The
  condition is needed: with larger cells, or keys of different lengths, two neighbours that the code merges need not fit in one page, and it panics (C28).\<close>

theorem delete_refines_map:
  assumes "txn_ok env \<sigma> (n + 2 * h) H (F \<union> P) w" "map_at (V w) P h {k. length k = z} b m" "P \<inter> F = {}" "h \<le> fuel env" "uniform z m"
  shows "result_ok (DeleteKey env b k w) (failed env \<sigma> H)
    (\<lambda>(pid, found, b') w'. pid = root b' \<and> (found \<longleftrightarrow> m k \<noteq> None) \<and> map_kept env \<sigma> n H F h {k. length k = z} (m(k := None)) w b' w')"
proof -
  have "F \<union> P - P = F" using assms(3) by blast
  then show ?thesis using DeleteKey_rule [OF assms(1,2) _ assms(4,5), of k] by (auto elim!: result_ok_mono simp: delete_kept_def)
qed

theorem delete_refines_map_witness:
  "result_ok (DeleteKey sample_env (NewBTree 4) [5] (sample_world sample_tree_pages)) (\<lambda>_. True)
     (\<lambda>(pid, found, b') w'. found \<and> (\<exists>P. map_at (V w') P 2 {k. length k = 1} b' [[1] \<mapsto> [10], [2] \<mapsto> [20], [7] \<mapsto> [70]]))"
proof -
  let ?P = "set (tpages sample_tree)" and ?F = "sample_live sample_tree_pages - set (tpages sample_tree)"
  have "?F \<union> ?P = sample_live sample_tree_pages" using sample_tree_ok(2) by blast
  then have ok: "txn_ok sample_env (sample_disk sample_tree_pages) (996 + 2 * 2) {#} (?F \<union> ?P) (sample_world sample_tree_pages)"
    using sample_txn_ok [OF sample_tree_pages_ok] by simp
  have "uniform 1 [[1 :: byte] \<mapsto> [10 :: byte], [2] \<mapsto> [20], [5] \<mapsto> [50], [7] \<mapsto> [70]]"
    by (auto simp: uniform_def ran_def split: if_splits)
  from delete_refines_map [OF ok sample_tree_map _ _ this, of "[5]"] show ?thesis
    by (auto elim!: result_ok_mono simp: map_kept_def fun_upd_twist)
qed

text \<open>C7: a sequence of \<open>admissible\<close> requests on the buckets of a write transaction (create and drop a bucket; open a bucket and
  get, put, insert, update or delete a key) refines the same sequence on an abstract database, a finite map from names
  to finite maps: when no request fails, every answer is the one of the abstract database and the transaction
  stands for the resulting database. So a get returns what the last put of its key in its bucket wrote, and no
  request affects another bucket. If a request fails, the file still holds the pages of the last commit, and the error is one of the layers below (a system
  call, no free frame, a page that is in use) or exactly the refusal that is due: the requests before it were answered, and in the database after them
  the bucket is missing, or exists already, or the key of an insert is bound, or the key of an update is not. Admissible are names and keys of one length, at most 498 bytes, for
  the catalog and for each bucket, values that are short (a cell of at most 582 bytes) or on overflow pages, below 65536 bytes, and drops of buckets that were not
  committed empty.\<close>

theorem requests_refine_database:
  assumes "has_db env A H S B cat M n (length rs + j) D w" "\<forall>r \<in> set rs. admissible S (droppable A) r"
  shows "result_ok (run (perform env) rs w) (db_failed env A H)
      (\<lambda>xs w'. \<exists>D'. spec_run answer_of rs D = Some (xs, D') \<and> has_db env A H S B cat M n j D' w') \<and>
    (\<forall>e w'. run (perform env) rs w = Some (Inl e, w') \<longrightarrow> e \<in> {ErrIO, ErrBufferExhausted, ErrInvalidWrite} \<or>
      (\<exists>rs1 r rs2 xs D1. rs = rs1 @ r # rs2 \<and> spec_run answer_of rs1 D = Some (xs, D1) \<and> refusal r D1 = Some e))"
  using txn_store.run_refines [OF assms] txn_refusal.run_errors [OF assms] by (simp add: layer_errors_def)

theorem requests_refine_database_witness:
  "result_ok (run (perform sample_env) [Create [1], Create [2], Store [1] [5] [50], Store [2] [5] [70], Fetch [1] [5], Remove [1] [5], Fetch [1] [5], Fetch [2] [5], Drop [1]]
      (sample_world sample_tree_pages)) (\<lambda>_. True)
     (\<lambda>xs w'. xs = [Done, Done, Done, Done, Found (Some [50]), Done, Found None, Found (Some [70]), Done]) \<and>
   (case run (perform sample_env) [Create [1], Add [1] [5] [50], Add [1] [5] [51]] (sample_world sample_tree_pages) of
      Some (Inl e, w') \<Rightarrow> e \<in> {ErrIO, ErrBufferExhausted, ErrInvalidWrite, ErrKeyExists}
    | Some (Inr xs, w') \<Rightarrow> False | None \<Rightarrow> False)"
proof -
  let ?A = "sample_anchor sample_tree_pages (sample_world sample_tree_pages)"
  let ?rs = "[Create [1], Create [2], Store [1] [5] [50], Store [2] [5] [70], Fetch [1] [5], Remove [1] [5], Fetch [1] [5], Fetch [2] [5], Drop [1]]"
  let ?bad = "[Create [1], Add [1] [5] [50], Add [1] [5] [51]]"
  have db: "has_db sample_env ?A {#} sample_schema (sample_live sample_tree_pages) Map.empty 18 0 (m + 0) Map.empty (sample_world sample_tree_pages)" if "m \<le> 9" for m
  proof -
    have "m * (18 + 2 * 18) \<le> 1000" using that by simp
    then have "db_at sample_env ?A (0 + (m + 0) * (18 + 2 * 18)) {#} 0 sample_schema (\<lambda>_. {}) (sample_live sample_tree_pages) Map.empty Map.empty (sample_world sample_tree_pages)"
      by (intro db_at_less [OF sample_empty_db]) simp
    then show ?thesis unfolding has_db_def using that by (intro conjI exI [of _ 0] exI [of _ "\<lambda>_. {}"]) simp_all
  qed
  have dbs: "has_db sample_env ?A {#} sample_schema (sample_live sample_tree_pages) Map.empty 18 0 (length ?rs + 0) Map.empty (sample_world sample_tree_pages)"
    "has_db sample_env ?A {#} sample_schema (sample_live sample_tree_pages) Map.empty 18 0 (length ?bad + 0) Map.empty (sample_world sample_tree_pages)" by (rule db, simp)+
  have adm: "\<forall>r \<in> set ?rs. admissible sample_schema (droppable ?A) r" "\<forall>r \<in> set ?bad. admissible sample_schema (droppable ?A) r"
    by (simp_all add: sample_schema_def storable_def)
  have "result_ok (run (perform sample_env) ?rs (sample_world sample_tree_pages)) (\<lambda>_. True)
     (\<lambda>xs w'. xs = [Done, Done, Done, Done, Found (Some [50]), Done, Found None, Found (Some [70]), Done])"
    by (rule result_ok_mono [OF conjunct1 [OF requests_refine_database [OF dbs(1) adm(1)]]]) auto
  moreover have "e \<in> {ErrIO, ErrBufferExhausted, ErrInvalidWrite, ErrKeyExists}" if "run (perform sample_env) ?bad (sample_world sample_tree_pages) = Some (Inl e, w')" for e w'
  proof -
    have "e \<in> {ErrIO, ErrBufferExhausted, ErrInvalidWrite} \<or>
      (\<exists>rs1 r rs2 xs D1. ?bad = rs1 @ r # rs2 \<and> spec_run answer_of rs1 Map.empty = Some (xs, D1) \<and> refusal r D1 = Some e)"
      using conjunct2 [OF requests_refine_database [OF dbs(2) adm(2)]] that by blast
    then show ?thesis by (auto simp: Cons_eq_append_conv split: if_splits)
  qed
  moreover have "\<exists>e w'. run (perform sample_env) ?bad (sample_world sample_tree_pages) = Some (Inl e, w')"
    using conjunct1 [OF requests_refine_database [OF dbs(2) adm(2)]] by (auto simp: result_ok_def)
  ultimately show ?thesis by auto
qed

text \<open>C8: a scan with a cursor, from the first key or from the smallest key that is not below a given one, returns
  the bindings of the tree from there on, all of them, once, in ascending order of the keys, and the cursor
  holds no page at the end. The movements hide the error of a failed read behind the value that means the end; in such a
  run (an error is visible in \<open>scan_err\<close>, the same run with the errors kept) the scan returns a prefix. No leaf of the tree is empty.\<close>

theorem cursor_scan_in_order:
  assumes "read_ok env H L w" "tree_at (V w) t" "set (tpages t) \<subseteq> L" "ordered None t None" "solid t" "height t < fuel env" "root b = tid t" "length (kvs t) < n"
  shows "case scan_err n env b start w of
      None \<Rightarrow> False
    | Some (Inr xs, c, w') \<Rightarrow> xs = from_key start (kvs t) \<and> sorted_wrt (<) (map fst xs) \<and> scan n env b start w = Some (xs, c, w') \<and>
        stack c = [] \<and> reading env H L w w'
    | Some (Inl e, s) \<Rightarrow> \<exists>xs s'. scan n env b start w = Some (xs, s') \<and> prefix xs (from_key start (kvs t))"
proof -
  have g: "good env L (V w) t" using assms(2,3,5,6) by (simp add: good_def)
  have "sorted_wrt (<) (map fst (from_key start (kvs t)))"
    using ordered_sorted(1) [OF assms(4)] by (simp add: from_key_def sorted_wrt_map sorted_wrt_filter split: option.splits)
  then show ?thesis using scan_rule [OF assms(1) g assms(4,7,8), of start] unfolding scanned_def by (auto split: option.splits sum.splits)
qed

theorem cursor_scan_in_order_witness:
  "case scan_err 5 sample_env (NewBTree 4) (Some [2]) (sample_world sample_tree_pages) of
     None \<Rightarrow> False
   | Some (Inr xs, c, w') \<Rightarrow> xs = [([2], [20]), ([5], [50]), ([7], [70])] \<and> scan 5 sample_env (NewBTree 4) (Some [2]) (sample_world sample_tree_pages) = Some (xs, c, w')
   | Some (Inl e, s) \<Rightarrow> True"
proof -
  have s: "solid sample_tree" "root (NewBTree 4) = tid sample_tree" by (simp_all add: sample_tree_def NewBTree_def)
  have n: "height sample_tree < fuel sample_env" "length (kvs sample_tree) < 5" using sample_tree_ok(4,5) by simp_all
  have "from_key (Some [2]) (kvs sample_tree) = [([2], [20]), ([5], [50]), ([7], [70])]" unfolding sample_tree_ok(5) by (simp add: from_key_def)
  then show ?thesis using cursor_scan_in_order [OF sample_read_ok [OF sample_tree_pages_ok] sample_tree_ok(1-3) s(1) n(1) s(2) n(2), of "Some [2]"]
    by (auto split: option.splits sum.splits)
qed

text \<open>C9: a value written to a chain of overflow pages is read back unchanged. The pages of the chain are
  fresh, the other live pages keep their contents, and an error on the way leaves a transaction that
  can be aborted.\<close>

theorem overflow_roundtrip:
  assumes "txn_ok env \<sigma> (n + chain_pages (length v)) H L w" "length v < 65536"
  shows "result_ok (try_ok (writeOverflowPages env v w) (\<lambda>first w. readOverflowPages env first (length v) w))
    (\<lambda>w'. \<exists>H' L'. read_ok env H' L' w') (\<lambda>x w'. x = v \<and> same_pages L w w')"
proof (rule try_ok_rule [OF writeOverflowPages_rule [OF assms(1)]])
  show "\<exists>H' L'. read_ok env H' L' s" if "txn_ok env \<sigma> 0 H L s" for s
    using that by (auto simp: txn_ok_def)
next
  fix x w'
  assume "\<exists>ps. x = chain_head ps \<and> wrote_chain env \<sigma> n H L v w ps w'"
  then obtain ps where ps: "x = chain_head ps" "chain (V w') ps v" "txn_ok env \<sigma> n H (L \<union> set ps) w'" "same_pages L w w'"
    by (auto simp: wrote_chain_def)
  have r: "read_ok env H (L \<union> set ps) w'" using ps(3) by (rule txn_read)
  have "result_ok (readOverflowPages env x (length v) w') (reading env H (L \<union> set ps) w') (\<lambda>y s. y = v \<and> reading env H (L \<union> set ps) w' s)"
    unfolding ps(1) by (rule readOverflowPages_rule [OF r ps(2) _ assms(2)]) simp
  then show "result_ok (readOverflowPages env x (length v) w') (\<lambda>w'. \<exists>H' L'. read_ok env H' L' w') (\<lambda>y s. y = v \<and> same_pages L w s)"
    by (rule result_ok_mono) (use ps(4) in \<open>auto simp: reading_def calm_def same_pages_def\<close>)
qed

theorem overflow_roundtrip_witness:
  "result_ok (try_ok (writeOverflowPages sample_env (replicate 9000 7) (sample_world sample_tree_pages))
      (\<lambda>first w. readOverflowPages sample_env first 9000 w)) (\<lambda>_. True) (\<lambda>x w'. x = replicate 9000 7)"
proof -
  have "txn_ok sample_env (sample_disk sample_tree_pages) (997 + chain_pages (length (replicate 9000 (7 :: byte)))) {#}
      (sample_live sample_tree_pages) (sample_world sample_tree_pages)"
    using sample_txn_ok [OF sample_tree_pages_ok] by (simp add: chain_pages_def)
  from overflow_roundtrip [OF this] show ?thesis by (auto elim!: result_ok_mono simp: result_ok_def)
qed

text \<open>C39: bulk loading a list of bindings into an empty tree builds a tree that is ordered, balanced and holds exactly these
  bindings, and searching it returns for every key what the list binds it to; its pages are disjoint from the other live pages, which keep their
  contents, and the pins of the loader are given back. It succeeds only if the tree is empty and the keys are strictly increasing and not too long, and
  an error is one of the layers below or the refusal that is due; after an error the committed image is unharmed. The fill factor is any number. Values are below
  65536 bytes, and no key after the first is empty (an empty first key leaves \<open>lastKey\<close> nil, and a second one would not be refused).\<close>

theorem bulk_load_builds_map:
  assumes "txn_ok env \<sigma> (n + load_pages xs) H F w" "\<forall>x \<in> set xs. length (snd x) < 65536" "\<forall>x \<in> set (tl xs). fst x \<noteq> []" "Suc (length xs) \<le> fuel env"
  shows "result_ok (bulk_load env b fill xs w) (\<lambda>w'. \<exists>H'. failed env \<sigma> H' w')
      (\<lambda>b' w'. root b = 0 \<and> sorted_wrt (<) (map fst xs) \<and> (\<forall>x \<in> set xs. length (fst x) \<le> maxKeySize) \<and>
        (\<exists>P. loaded_at (V w') P (Suc (length xs)) b' xs \<and> P \<inter> F = {} \<and> txn_ok env \<sigma> n H (F \<union> P) w' \<and> same_pages F w w') \<and>
        (\<forall>k. result_ok (SearchKey env b' k w') (\<lambda>_. True) (\<lambda>x _. x = map_of xs k))) \<and>
    (\<forall>e w'. bulk_load env b fill xs w = Some (Inl e, w') \<longrightarrow> e \<in> {ErrIO, ErrBufferExhausted, ErrInvalidWrite} \<or> e = ErrBTreeNotEmpty \<and> root b \<noteq> 0 \<or>
      e = ErrKeyTooBig \<and> (\<exists>x \<in> set xs. maxKeySize < length (fst x)) \<or> e = ErrBulkLoaderKeyOrder \<and> \<not> sorted_wrt (<) (map fst xs))"
proof (intro conjI allI impI)
  show "result_ok (bulk_load env b fill xs w) (\<lambda>w'. \<exists>H'. failed env \<sigma> H' w')
      (\<lambda>b' w'. root b = 0 \<and> sorted_wrt (<) (map fst xs) \<and> (\<forall>x \<in> set xs. length (fst x) \<le> maxKeySize) \<and>
        (\<exists>P. loaded_at (V w') P (Suc (length xs)) b' xs \<and> P \<inter> F = {} \<and> txn_ok env \<sigma> n H (F \<union> P) w' \<and> same_pages F w w') \<and>
        (\<forall>k. result_ok (SearchKey env b' k w') (\<lambda>_. True) (\<lambda>x _. x = map_of xs k)))"
  proof (rule result_ok_mono [OF bulk_load_rule [OF assms(1-3)]])
    fix b' w' assume a: "root b = 0 \<and> sorted_wrt (<) (map fst xs) \<and> (\<forall>x \<in> set xs. length (fst x) \<le> maxKeySize) \<and>
      (\<exists>P. loaded_at (V w') P (Suc (length xs)) b' xs \<and> P \<inter> F = {} \<and> txn_ok env \<sigma> n H (F \<union> P) w' \<and> same_pages F w w')"
    then obtain P where P: "loaded_at (V w') P (Suc (length xs)) b' xs" "txn_ok env \<sigma> n H (F \<union> P) w'" by blast
    have "result_ok (SearchKey env b' k w') (\<lambda>_. True) (\<lambda>x _. x = map_of xs k)" for k
      by (rule result_ok_mono [OF loaded_search [OF txn_read [OF P(2)] P(1) Un_upper2 assms(4)]]) simp_all
    then show "root b = 0 \<and> sorted_wrt (<) (map fst xs) \<and> (\<forall>x \<in> set xs. length (fst x) \<le> maxKeySize) \<and>
      (\<exists>P. loaded_at (V w') P (Suc (length xs)) b' xs \<and> P \<inter> F = {} \<and> txn_ok env \<sigma> n H (F \<union> P) w' \<and> same_pages F w w') \<and>
      (\<forall>k. result_ok (SearchKey env b' k w') (\<lambda>_. True) (\<lambda>x _. x = map_of xs k))" using a by blast
  qed simp
next
  fix e w' assume "bulk_load env b fill xs w = Some (Inl e, w')"
  from bulk_load_errors [OF assms(1-3) this]
  show "e \<in> {ErrIO, ErrBufferExhausted, ErrInvalidWrite} \<or> e = ErrBTreeNotEmpty \<and> root b \<noteq> 0 \<or>
      e = ErrKeyTooBig \<and> (\<exists>x \<in> set xs. maxKeySize < length (fst x)) \<or> e = ErrBulkLoaderKeyOrder \<and> \<not> sorted_wrt (<) (map fst xs)"
    by (auto simp: layer_errors_def list_errors_def)
qed

theorem bulk_load_builds_map_witness:
  "result_ok (bulk_load sample_env (NewBTree 0) 1 [([1], replicate 900 1), ([2], replicate 900 2), ([3], replicate 900 3), ([4], replicate 900 4), ([6], replicate 900 6)]
      (sample_world sample_tree_pages)) (\<lambda>_. True)
    (\<lambda>b' w'. result_ok (SearchKey sample_env b' [4] w') (\<lambda>_. True) (\<lambda>x _. x = Some (replicate 900 4)) \<and>
       result_ok (SearchKey sample_env b' [5] w') (\<lambda>_. True) (\<lambda>x _. x = None))"
proof -
  let ?xs = "[([1], replicate 900 1), ([2], replicate 900 2), ([3], replicate 900 3), ([4], replicate 900 4), ([6], replicate 900 6)] :: (bytes \<times> bytes) list"
  have ok: "txn_ok sample_env (sample_disk sample_tree_pages) (975 + load_pages ?xs) {#} (sample_live sample_tree_pages) (sample_world sample_tree_pages)"
    using sample_txn_ok [OF sample_tree_pages_ok] by (simp add: load_pages_def chain_pages_def)
  have v: "\<forall>x \<in> set ?xs. length (snd x) < 65536" "\<forall>x \<in> set (tl ?xs). fst x \<noteq> []" "Suc (length ?xs) \<le> fuel sample_env" by simp_all
  have m: "map_of ?xs [4] = Some (replicate 900 4)" "map_of ?xs [5] = None" by simp_all
  show ?thesis by (rule result_ok_mono [OF conjunct1 [OF bulk_load_builds_map [OF ok v]]]) (use m in \<open>simp_all only: m simp_thms\<close>, metis m)
qed

section \<open>Transactions\<close>

text \<open>C10: \<open>FreeAll\<close> terminates and gives back every page of a tree exactly once, the pages of its nodes and the overflow pages of
  its values: the pages on the free lists of the transaction afterwards are those of before and one entry for each page of the tree. The other live pages
  stay live and unchanged. An error of the layers below leaves a transaction that can be aborted.\<close>

theorem whole_tree_freed:
  assumes "txn_ok env \<sigma> n H (F \<union> P) w" "map_at (V w) P h K b m" "P \<inter> F = {}" "h \<le> fuel env"
  shows "result_ok (FreeAll env b w) (failed env \<sigma> H)
    (\<lambda>_ w'. finite P \<and> mset (free_lists w') = mset_set P + mset (free_lists w) \<and> txn_ok env \<sigma> n H F w' \<and> same_pages F w w')"
proof -
  have F: "F \<union> P - P = F" using assms(3) by blast
  show ?thesis
  proof (rule result_ok_mono [OF FreeAll_rule [OF assms(1,2) _ assms(4)]])
    fix u w'
    assume "\<exists>ps. set ps = P \<and> distinct ps \<and> freeing env \<sigma> n H (F \<union> P - P) ps w w'"
    then show "finite P \<and> mset (free_lists w') = mset_set P + mset (free_lists w) \<and> txn_ok env \<sigma> n H F w' \<and> same_pages F w w'"
      unfolding freeing_def F by (auto simp: mset_set_set)
  qed auto
qed

theorem whole_tree_freed_witness:
  "result_ok (FreeAll sample_env (NewBTree 4) (sample_world sample_tree_pages)) (\<lambda>_. True)
    (\<lambda>_ w'. mset (free_lists w') = mset_set (set (tpages sample_tree)) + mset (free_lists (sample_world sample_tree_pages)) \<and>
       txn_ok sample_env (sample_disk sample_tree_pages) 1000 {#} (sample_live sample_tree_pages - set (tpages sample_tree)) w')"
proof -
  let ?P = "set (tpages sample_tree)" and ?F = "sample_live sample_tree_pages - set (tpages sample_tree)"
  have "?F \<union> ?P = sample_live sample_tree_pages" using sample_tree_ok(2) by blast
  then have "txn_ok sample_env (sample_disk sample_tree_pages) 1000 {#} (?F \<union> ?P) (sample_world sample_tree_pages)" using sample_txn_ok [OF sample_tree_pages_ok] by simp
  from whole_tree_freed [OF this sample_tree_map] show ?thesis by (auto elim!: result_ok_mono)
qed

text \<open>C11: the page a transaction allocates is not live: no page of any tree, no page on one of the free
  lists and no page of the committed image; the live pages keep their contents and the file still holds
  every page of the last commit. An error leaves a transaction that can be aborted.\<close>

theorem allocated_page_is_fresh:
  assumes "txn_ok env \<sigma> (Suc n) H L w"
  shows "result_ok (txnAllocatePage env w) (failed env \<sigma> H)
    (\<lambda>f w'. \<exists>pid. pid \<notin> L \<and> pid \<notin> set (free_lists w') \<and> pid \<notin> dom (committed \<sigma>) \<and> same_pages L w w' \<and>
      txn_ok env \<sigma> n (add_mset (f, pid, True) H) (insert pid L) w' \<and>
      (\<forall>q bs. committed \<sigma> q = Some bs \<longrightarrow> page_at (sm (pool w')) q = bs))"
proof (rule result_ok_mono [OF txnAllocatePage_rule [OF assms]])
  fix f w'
  assume "\<exists>pid. pid \<notin> L \<and> txn_ok env \<sigma> n (add_mset (f, pid, True) H) (insert pid L) w' \<and> same_pages L w w'"
  then obtain pid where p: "pid \<notin> L" "txn_ok env \<sigma> n (add_mset (f, pid, True) H) (insert pid L) w'" "same_pages L w w'" by blast
  have d: "disk_ok (committed \<sigma>) (insert pid L) w'" "lists_ok n (insert pid L) w'" "holds (add_mset (f, pid, True) H) (pool w')"
    using p(2) by (simp_all add: txn_ok_def read_ok_def pool_ok_def)
  have "pid \<in> dirty_pages (pool w')" using holds_handle [OF d(3), of f pid True] dirty_pagesI [of f "pool w'"] by simp
  then have "pid \<notin> dom (committed \<sigma>)" using d(1) unfolding disk_ok_def by blast
  moreover have "pid \<notin> set (free_lists w')" using d(2) unfolding lists_ok_def by blast
  moreover have "\<forall>q bs. committed \<sigma> q = Some bs \<longrightarrow> page_at (sm (pool w')) q = bs" using d(1) unfolding disk_ok_def by blast
  ultimately show "\<exists>pid. pid \<notin> L \<and> pid \<notin> set (free_lists w') \<and> pid \<notin> dom (committed \<sigma>) \<and> same_pages L w w' \<and>
      txn_ok env \<sigma> n (add_mset (f, pid, True) H) (insert pid L) w' \<and> (\<forall>q bs. committed \<sigma> q = Some bs \<longrightarrow> page_at (sm (pool w')) q = bs)"
    using p by blast
qed auto

theorem allocated_page_is_fresh_witness:
  "result_ok (txnAllocatePage sample_env (sample_world sample_tree_pages)) (\<lambda>_. True)
    (\<lambda>f w'. \<exists>pid :: PageId. 5 \<le> unat pid \<and> (\<forall>q bs. committed (sample_disk sample_tree_pages) q = Some bs \<longrightarrow> page_at (sm (pool w')) q = bs))"
proof -
  have "txn_ok sample_env (sample_disk sample_tree_pages) (Suc 999) {#} (sample_live sample_tree_pages) (sample_world sample_tree_pages)"
    using sample_txn_ok [OF sample_tree_pages_ok] by simp
  from allocated_page_is_fresh [OF this] show ?thesis
  proof (rule result_ok_mono)
    have "5 \<le> unat pid" if "pid \<notin> sample_live sample_tree_pages" for pid
      using that by (simp add: sample_live_def sample_tree_pages_def)
    then show "\<exists>pid :: PageId. 5 \<le> unat pid \<and> (\<forall>q bs. committed (sample_disk sample_tree_pages) q = Some bs \<longrightarrow> page_at (sm (pool w')) q = bs)"
      if "\<exists>pid. pid \<notin> sample_live sample_tree_pages \<and> pid \<notin> set (free_lists w') \<and> pid \<notin> dom (committed (sample_disk sample_tree_pages)) \<and>
        same_pages (sample_live sample_tree_pages) (sample_world sample_tree_pages) w' \<and>
        txn_ok sample_env (sample_disk sample_tree_pages) 999 (add_mset (f, pid, True) {#}) (insert pid (sample_live sample_tree_pages)) w' \<and>
        (\<forall>q bs. committed (sample_disk sample_tree_pages) q = Some bs \<longrightarrow> page_at (sm (pool w')) q = bs)" for f w'
      using that by blast
  qed auto
qed

text \<open>C12: freeing a live page never fails in an open write transaction: the page leaves the live set and
  goes to exactly one of the transaction's lists, to the freed list when it belongs to the committed
  image, so that it is not handed out again before the commit, and to the reusable list when the
  transaction itself added it to the file.\<close>

theorem freed_page_is_kept:
  assumes "txn_ok env \<sigma> n H L w" "pid \<in> L" "pid \<noteq> 0"
  shows "\<exists>w'. free_page pid w = Some w' \<and> txn_ok env \<sigma> n H (L - {pid}) w' \<and> same_pages (L - {pid}) w w' \<and>
    (if pid < initialPageCnt (txn w) then freed (txn w') = freed (txn w) @ [pid] \<and> reusable (txn w') = reusable (txn w)
     else freed (txn w') = freed (txn w) \<and> reusable (txn w') = reusable (txn w) @ [pid])"
proof -
  obtain w' where w': "free_page pid w = Some w'" "txn_ok env \<sigma> n H (L - {pid}) w'" "db w' = db w"
    using free_rule [OF assms] .
  moreover have "if pid < initialPageCnt (txn w) then freed (txn w') = freed (txn w) @ [pid] \<and> reusable (txn w') = reusable (txn w)
     else freed (txn w') = freed (txn w) \<and> reusable (txn w') = reusable (txn w) @ [pid]"
    using w'(1) by (auto simp: free_page_def FreePage_def not_le split: if_splits)
  ultimately show ?thesis by (auto simp: same_pages_def)
qed

theorem freed_page_is_kept_witness:
  "\<exists>w'. free_page 3 (sample_world sample_tree_pages) = Some w' \<and> freed (txn w') = [3]"
proof -
  have "3 \<in> sample_live sample_tree_pages" by (simp add: sample_live_def sample_tree_pages_def)
  from freed_page_is_kept [OF sample_txn_ok [OF sample_tree_pages_ok] this] show ?thesis
    by (auto simp: sample_tree_pages_def split: if_splits)
qed

text \<open>C40: a bucket whose committed tree is empty cannot be dropped: its catalog entry is the page number 0, which
  \<open>applyBucketChanges\<close> takes for the mark of a bucket created in the same transaction, so that the drop succeeds and the
  next transaction still finds the bucket.\<close>

theorem empty_bucket_drop_lost:
  assumes "db_at env A n H h S P B cat D w" "h \<le> fuel env" "buckets (txn w) = []" "cat nm = Some (le_bytes 8 (0 :: PageId))" "\<And>bs. mset (order bs) = mset bs"
  shows "result_ok (try_ok (DropBucket env nm w) (\<lambda>_. applyBucketChanges env order)) (db_failed env A H)
    (\<lambda>_ w'. D nm = Some Map.empty \<and> db_at env A n H h S P B cat D (reopened w'))"
  using assms by (rule drop_empty_rule)

theorem empty_bucket_drop_lost_witness:
  "result_ok (try_ok (DropBucket sample_env [1] sample_catalog_world) (\<lambda>_. applyBucketChanges sample_env rev)) (\<lambda>_. True)
    (\<lambda>_ w'. db_at sample_env (sample_anchor sample_catalog_pages sample_catalog_world) 1000000 {#} 1 sample_schema (\<lambda>_. {}) (sample_live sample_catalog_pages)
       [[1] \<mapsto> le_bytes 8 (0 :: PageId)] [[1] \<mapsto> Map.empty] (reopened w'))"
proof -
  have "buckets (txn sample_catalog_world) = []" by (simp add: sample_catalog_world_def set_catalog_def)
  from empty_bucket_drop_lost [OF sample_catalog_db _ this, of "[1]" rev] show ?thesis by (auto elim!: result_ok_mono)
qed

end
